(* ===== verification/Prelude.thy ===== *)
theory Prelude
  imports Main "HOL-Library.Word" "HOL-Library.Monad_Syntax"
begin

text \<open>
  Shared vocabulary of the Pintos development: the fault values a kernel routine can end in,
  the result type that carries them and its sequencing operator, the address and byte types,
  C integer division, and the generic list lemmas that several components use.
\<close>

section \<open>Faults and results\<close>

text \<open>
  A kernel routine that fails an \<^verbatim>\<open>ASSERT\<close> or calls \<^verbatim>\<open>PANIC\<close>
  stops the machine; dereferencing a null pointer, reading outside an object or touching freed
  memory is a bug the model makes visible instead of giving it a value, and \<open>NoReturn\<close>
  stands for a call that runs forever.
\<close>

datatype fault = AssertFail | Panic | NullDeref | OutOfBounds | UseAfterFree | DivideError | NoReturn

type_synonym 'a res = "fault + 'a"

fun bind_res :: "'a res \<Rightarrow> ('a \<Rightarrow> 'b res) \<Rightarrow> 'b res" where
  "bind_res (Inl e) f = Inl e"
| "bind_res (Inr x) f = f x"

definition assert_res :: "bool \<Rightarrow> unit res" where
  "assert_res b = (if b then Inr () else Inl AssertFail)"

definition assert_opt :: "bool \<Rightarrow> unit option" where
  "assert_opt b = (if b then Some () else None)"

named_theorems res_simps \<open>sequencing of fallible kernel routines\<close>

lemma bind_res_Inr_iff [res_simps]:
  "bind_res m f = Inr y \<longleftrightarrow> (\<exists>x. m = Inr x \<and> f x = Inr y)"
  by (cases m) auto

lemma bind_res_assoc:
  "bind_res (bind_res m f) g = bind_res m (\<lambda>x. bind_res (f x) g)"
  by (cases m) auto

lemma bind_res_cong [fundef_cong]:
  "m = m' \<Longrightarrow> (\<And>x. m' = Inr x \<Longrightarrow> f x = g x) \<Longrightarrow> bind_res m f = bind_res m' g"
  by (cases m') auto

lemma assert_res_Inr_iff [simp]: "assert_res b = Inr u \<longleftrightarrow> b"
  by (simp add: assert_res_def)

lemma assert_res_True [simp]: "assert_res True = Inr ()"
  by (simp add: assert_res_def)

lemma assert_res_False [simp]: "assert_res False = Inl AssertFail"
  by (simp add: assert_res_def)

lemma assert_opt_Some_iff [simp]: "assert_opt b = Some u \<longleftrightarrow> b"
  by (simp add: assert_opt_def)

lemma assert_opt_True [simp]: "assert_opt True = Some ()"
  by (simp add: assert_opt_def)

lemma assert_opt_False [simp]: "assert_opt False = None"
  by (simp add: assert_opt_def)

section \<open>Machine types\<close>

type_synonym addr = nat
type_synonym byte = "8 word"

text \<open>Bytes in a page.\<close>

definition PGSIZE :: nat where "PGSIZE = 4096"

text \<open>The null pointer.\<close>

abbreviation (input) NULL :: addr where
  "NULL \<equiv> 0"

text \<open>C's signed division and remainder truncate towards zero.\<close>

definition cdiv :: "int \<Rightarrow> int \<Rightarrow> int" where
  "cdiv a b = sgn a * sgn b * (\<bar>a\<bar> div \<bar>b\<bar>)"

definition cmod :: "int \<Rightarrow> int \<Rightarrow> int" where
  "cmod a b = a - b * cdiv a b"

lemma cdiv_nonneg: "0 \<le> a \<Longrightarrow> 0 < b \<Longrightarrow> cdiv a b = a div b"
  by (cases "a = 0") (auto simp: cdiv_def sgn_if)

lemma cmod_nonneg: "0 \<le> a \<Longrightarrow> 0 < b \<Longrightarrow> cmod a b = a mod b"
  by (simp add: cmod_def cdiv_nonneg minus_mult_div_eq_mod)

text \<open>\<^verbatim>\<open>DIV_ROUND_UP\<close> of lib/round.h on unsigned operands that do not overflow.\<close>

definition DIV_ROUND_UP :: "nat \<Rightarrow> nat \<Rightarrow> nat" where
  "DIV_ROUND_UP x step = (x + step - 1) div step"

lemma DIV_ROUND_UP_le_iff:
  assumes "0 < step"
  shows "DIV_ROUND_UP x step \<le> n \<longleftrightarrow> x \<le> n * step"
proof -
  have "DIV_ROUND_UP x step < Suc n \<longleftrightarrow> x + step - 1 < Suc n * step"
    using assms by (simp add: DIV_ROUND_UP_def div_less_iff_less_mult)
  then show ?thesis using assms by (auto simp: less_Suc_eq_le)
qed

lemma less_DIV_ROUND_UP_iff:
  "0 < step \<Longrightarrow> n < DIV_ROUND_UP x step \<longleftrightarrow> n * step < x"
  by (metis DIV_ROUND_UP_le_iff linorder_not_le)

section \<open>Lists\<close>

lemma hd_append_singleton [simp]: "hd (xs @ y # ys) = (if xs = [] then y else hd xs)"
  by (cases xs) auto


section \<open>Little-endian images\<close>

definition le_bytes32 :: "32 word \<Rightarrow> byte list" where
  "le_bytes32 w = [ucast w, ucast (drop_bit 8 w), ucast (drop_bit 16 w), ucast (drop_bit 24 w)]"

definition le_word32 :: "byte list \<Rightarrow> 32 word" where
  "le_word32 bs = foldr (\<lambda>b w. ucast b + push_bit 8 w) (take 4 bs) 0"

fun le_words32 :: "byte list \<Rightarrow> 32 word list" where
  "le_words32 (a # b # c # d # bs) = le_word32 [a, b, c, d] # le_words32 bs"
| "le_words32 _ = []"

definition le_image32 :: "32 word list \<Rightarrow> byte list" where
  "le_image32 ws = concat (map le_bytes32 ws)"

lemma length_le_bytes32 [simp]: "length (le_bytes32 w) = 4"
  by (simp add: le_bytes32_def)

lemma push_drop_bit_byte: "ucast (ucast (w :: 32 word) :: byte) + push_bit 8 (drop_bit 8 w) = w"
proof -
  have "ucast (ucast w :: byte) = take_bit 8 w" by (simp add: unsigned_ucast_eq)
  then show ?thesis by (metis add.commute bits_ident)
qed

lemma le_word32_bytes [simp]: "le_word32 (le_bytes32 w) = w"
proof -
  have last8: "ucast (ucast (drop_bit 24 w) :: byte) = drop_bit 24 (w :: 32 word)"
    by (rule bit_eqI) (auto simp: bit_simps dest: bit_imp_le_length)
  have step: "ucast (ucast (drop_bit 16 w) :: byte) + push_bit 8 (drop_bit 24 w) = drop_bit 16 (w :: 32 word)"
    "ucast (ucast (drop_bit 8 w) :: byte) + push_bit 8 (drop_bit 16 w) = drop_bit 8 (w :: 32 word)"
    using push_drop_bit_byte [of "drop_bit 16 w"] push_drop_bit_byte [of "drop_bit 8 w"] by simp_all
  show ?thesis by (simp add: le_word32_def le_bytes32_def last8 step push_drop_bit_byte)
qed

lemma le_words32_append: "le_words32 (le_bytes32 w @ bs) = w # le_words32 bs"
proof -
  obtain a b c d where "le_bytes32 w = [a, b, c, d]" by (simp add: le_bytes32_def)
  then show ?thesis using le_word32_bytes [of w] by simp
qed

lemma le_words32_image [simp]: "le_words32 (le_image32 ws) = ws"
  by (induction ws) (simp_all add: le_image32_def le_words32_append)

lemma length_le_image32 [simp]: "length (le_image32 ws) = 4 * length ws"
  by (induction ws) (simp_all add: le_image32_def)

lemma length_le_words32 [simp]: "length (le_words32 bs) = length bs div 4"
  by (induction bs rule: le_words32.induct) auto

end
