(* ===== verification/List_Order.thy ===== *)
theory List_Order
  imports Prelude "HOL-Library.Multiset"
begin

text \<open>
  What the comparison-driven routines of lib/kernel/list.c compute, as functions on HOL lists:
  ordered insertion, stable sorting, maximum and minimum. The locale \<open>list_order\<close> is the
  contract of a \<^verbatim>\<open>list_less_func\<close> (a strict weak order); the kernel's comparison
  functions interpret it where they are defined.
\<close>

section \<open>Comparison-driven list functions\<close>

text \<open>Insertion after every element that is not greater.\<close>

definition insert_ord :: "('a \<Rightarrow> 'a \<Rightarrow> bool) \<Rightarrow> 'a \<Rightarrow> 'a list \<Rightarrow> 'a list" where
  "insert_ord lt e xs = takeWhile (\<lambda>y. \<not> lt e y) xs @ e # dropWhile (\<lambda>y. \<not> lt e y) xs"

definition stable_sort :: "('a \<Rightarrow> 'a \<Rightarrow> bool) \<Rightarrow> 'a list \<Rightarrow> 'a list" where
  "stable_sort lt xs = fold (insert_ord lt) xs []"

definition max_of :: "('a \<Rightarrow> 'a \<Rightarrow> bool) \<Rightarrow> 'a \<Rightarrow> 'a list \<Rightarrow> 'a" where
  "max_of lt x xs = fold (\<lambda>e mx. if lt mx e then e else mx) xs x"

definition min_of :: "('a \<Rightarrow> 'a \<Rightarrow> bool) \<Rightarrow> 'a \<Rightarrow> 'a list \<Rightarrow> 'a" where
  "min_of lt x xs = fold (\<lambda>e mn. if lt e mn then e else mn) xs x"

definition sorted_by :: "('a \<Rightarrow> 'a \<Rightarrow> bool) \<Rightarrow> 'a list \<Rightarrow> bool" where
  "sorted_by lt xs = sorted_wrt (\<lambda>a b. \<not> lt b a) xs"

fun adj_sorted :: "('a \<Rightarrow> 'a \<Rightarrow> bool) \<Rightarrow> 'a list \<Rightarrow> bool" where
  "adj_sorted lt (x # y # zs) = (\<not> lt y x \<and> adj_sorted lt (y # zs))"
| "adj_sorted lt xs = True"

definition eqv :: "('a \<Rightarrow> 'a \<Rightarrow> bool) \<Rightarrow> 'a \<Rightarrow> 'a \<Rightarrow> bool" where
  "eqv lt a b = (\<not> lt a b \<and> \<not> lt b a)"

lemma mset_insert_ord [simp]: "mset (insert_ord lt e xs) = add_mset e (mset xs)"
proof -
  have "mset xs = mset (takeWhile (\<lambda>y. \<not> lt e y) xs) + mset (dropWhile (\<lambda>y. \<not> lt e y) xs)"
    by (metis mset_append takeWhile_dropWhile_id)
  then show ?thesis by (simp add: insert_ord_def)
qed

lemma set_insert_ord [simp]: "set (insert_ord lt e xs) = insert e (set xs)"
  by (metis mset_insert_ord set_mset_add_mset_insert set_mset_mset)

lemma length_insert_ord [simp]: "length (insert_ord lt e xs) = Suc (length xs)"
  by (metis mset_insert_ord size_add_mset size_mset)

lemma distinct_insert_ord [simp]: "distinct (insert_ord lt e xs) \<longleftrightarrow> e \<notin> set xs \<and> distinct xs"
  by (simp add: distinct_count_atmost_1 flip: set_mset_mset)
    (metis (no_types, lifting) One_nat_def count_eq_zero_iff gr0I le_zero_eq
      not_less_eq_eq count_greater_zero_iff)

lemma mset_fold_insert_ord: "mset (fold (insert_ord lt) xs ys) = mset xs + mset ys"
  by (induction xs arbitrary: ys) auto

lemma mset_stable_sort [simp]: "mset (stable_sort lt xs) = mset xs"
  by (simp add: stable_sort_def mset_fold_insert_ord)

lemma set_stable_sort [simp]: "set (stable_sort lt xs) = set xs"
  by (metis mset_stable_sort set_mset_mset)

lemma length_stable_sort [simp]: "length (stable_sort lt xs) = length xs"
  by (metis mset_stable_sort size_mset)

lemma distinct_stable_sort [simp]: "distinct (stable_sort lt xs) = distinct xs"
  by (metis mset_stable_sort distinct_count_atmost_1 set_stable_sort)

lemma sorted_by_Nil [simp]: "sorted_by lt []"
  by (simp add: sorted_by_def)

lemma sorted_by_Cons:
  "sorted_by lt (x # xs) \<longleftrightarrow> (\<forall>y\<in>set xs. \<not> lt y x) \<and> sorted_by lt xs"
  by (simp add: sorted_by_def)

lemma sorted_by_append:
  "sorted_by lt (xs @ ys) \<longleftrightarrow>
     sorted_by lt xs \<and> sorted_by lt ys \<and> (\<forall>x\<in>set xs. \<forall>y\<in>set ys. \<not> lt y x)"
  by (auto simp: sorted_by_def sorted_wrt_append)

lemma sorted_by_middle:
  "sorted_by lt t \<Longrightarrow> sorted_by lt d \<Longrightarrow> \<forall>x\<in>set t. \<forall>y\<in>set d. \<not> lt y x \<Longrightarrow>
   \<forall>z\<in>set d. \<not> lt z e \<Longrightarrow> \<forall>y\<in>set t. \<not> lt e y \<Longrightarrow> sorted_by lt (t @ e # d)"
  by (simp add: sorted_by_append sorted_by_Cons)

section \<open>The contract of a comparison function\<close>

locale list_order =
  fixes lt :: "'a \<Rightarrow> 'a \<Rightarrow> bool"
  assumes asym: "lt a b \<Longrightarrow> \<not> lt b a"
    and ntrans: "\<not> lt b a \<Longrightarrow> \<not> lt c b \<Longrightarrow> \<not> lt c a"
begin

lemma irrefl: "\<not> lt a a"
  using asym by blast

lemma adj_sorted_iff: "adj_sorted lt xs \<longleftrightarrow> sorted_by lt xs"
proof (induction xs rule: induct_list012)
  case (3 x y zs)
  then show ?case by (auto simp: sorted_by_Cons) (metis ntrans)
qed (auto simp: sorted_by_def)

lemma after_insertion_point:
  assumes "sorted_by lt xs" and "z \<in> set (dropWhile (\<lambda>y. \<not> lt e y) xs)"
  shows "lt e z"
proof -
  obtain d ds where dw: "dropWhile (\<lambda>y. \<not> lt e y) xs = d # ds"
    using assms(2) by (cases "dropWhile (\<lambda>y. \<not> lt e y) xs") auto
  then have ed: "lt e d" by (metis dropWhile_eq_Cons_conv)
  have "sorted_by lt (d # ds)"
    using assms(1) dw by (metis sorted_by_append takeWhile_dropWhile_id)
  then have "z = d \<or> \<not> lt z d" using assms(2) dw by (auto simp: sorted_by_Cons)
  then show ?thesis using ed ntrans by blast
qed

lemma sorted_insert_ord:
  assumes "sorted_by lt xs"
  shows "sorted_by lt (insert_ord lt e xs)"
proof -
  let ?t = "takeWhile (\<lambda>y. \<not> lt e y) xs" and ?d = "dropWhile (\<lambda>y. \<not> lt e y) xs"
  have td: "sorted_by lt ?t" "sorted_by lt ?d" "\<forall>x\<in>set ?t. \<forall>y\<in>set ?d. \<not> lt y x"
    using assms sorted_by_append [of lt ?t ?d] by simp_all
  have d: "\<forall>z\<in>set ?d. \<not> lt z e"
    using after_insertion_point [OF assms] asym by blast
  have t: "\<forall>y\<in>set ?t. \<not> lt e y"
    by (blast dest: set_takeWhileD)
  show ?thesis
    unfolding insert_ord_def by (rule sorted_by_middle [OF td d t])
qed

lemma filter_insert_ord:
  assumes "sorted_by lt xs"
  shows "filter (eqv lt k) (insert_ord lt e xs) = filter (eqv lt k) xs @ (if eqv lt k e then [e] else [])"
proof -
  let ?t = "takeWhile (\<lambda>y. \<not> lt e y) xs" and ?d = "dropWhile (\<lambda>y. \<not> lt e y) xs"
  have split: "filter (eqv lt k) xs = filter (eqv lt k) ?t @ filter (eqv lt k) ?d"
    by (metis filter_append takeWhile_dropWhile_id)
  have none: "filter (eqv lt k) ?d = []" if "eqv lt k e"
  proof -
    have "\<not> eqv lt k z" if "z \<in> set ?d" for z
      using after_insertion_point [OF assms that] ntrans [of k z e] \<open>eqv lt k e\<close>
      by (auto simp: eqv_def)
    then show ?thesis by (simp add: filter_empty_conv)
  qed
  show ?thesis using split none by (auto simp: insert_ord_def)
qed

lemma sorted_fold_insert_ord: "sorted_by lt ys \<Longrightarrow> sorted_by lt (fold (insert_ord lt) xs ys)"
  by (induction xs arbitrary: ys) (auto simp: sorted_insert_ord)

lemma filter_fold_insert_ord:
  "sorted_by lt ys \<Longrightarrow>
   filter (eqv lt k) (fold (insert_ord lt) xs ys) = filter (eqv lt k) ys @ filter (eqv lt k) xs"
  by (induction xs arbitrary: ys) (auto simp: sorted_insert_ord filter_insert_ord)

lemma sorted_stable_sort: "sorted_by lt (stable_sort lt xs)"
  by (simp add: stable_sort_def sorted_fold_insert_ord)

lemma filter_stable_sort: "filter (eqv lt k) (stable_sort lt xs) = filter (eqv lt k) xs"
  by (simp add: stable_sort_def filter_fold_insert_ord)

text \<open>A sorted list is determined by its equivalence classes taken in order.\<close>

lemma sorted_stable_unique:
  assumes "sorted_by lt xs" and "sorted_by lt ys"
    and "\<And>k. filter (eqv lt k) xs = filter (eqv lt k) ys"
  shows "xs = ys"
  using assms
proof (induction xs arbitrary: ys)
  case Nil
  then have "filter (eqv lt k) ys = []" for k by (metis filter.simps(1))
  then show ?case using irrefl by (cases ys) (simp, metis eqv_def filter.simps(2) list.distinct(1))
next
  case (Cons x xs)
  have self: "eqv lt k k" for k using irrefl by (simp add: eqv_def)
  have x_ys: "x \<in> set ys"
    using arg_cong [OF Cons.prems(3) [of x], of set] self by auto
  then obtain y zs where ys: "ys = y # zs" by (cases ys) auto
  have "y \<in> set (x # xs)"
    using arg_cong [OF Cons.prems(3) [of y], of set] self ys by (auto split: if_splits)
  then have "eqv lt x y"
    using Cons.prems(1,2) x_ys ys irrefl by (auto simp: eqv_def sorted_by_Cons)
  then have "x = y" using Cons.prems(3) [of x] ys irrefl by (auto simp: eqv_def)
  moreover have "filter (eqv lt k) xs = filter (eqv lt k) zs" for k
    using Cons.prems(3) [of k] ys \<open>x = y\<close> by (auto split: if_splits)
  ultimately show ?case using Cons ys by (auto simp: sorted_by_Cons)
qed

lemma stable_sort_sorted: "sorted_by lt xs \<Longrightarrow> stable_sort lt xs = xs"
  using sorted_stable_unique [OF sorted_stable_sort, of xs xs] filter_stable_sort by blast

lemma stable_sort_eqI:
  "sorted_by lt ys \<Longrightarrow> (\<And>k. filter (eqv lt k) ys = filter (eqv lt k) xs) \<Longrightarrow> stable_sort lt xs = ys"
  using sorted_stable_unique [OF sorted_stable_sort, of ys xs] filter_stable_sort by metis

text \<open>The front of a sorted list is a least element.\<close>

lemma hd_least: "sorted_by lt xs \<Longrightarrow> y \<in> set xs \<Longrightarrow> \<not> lt y (hd xs)"
  using irrefl by (cases xs) (auto simp: sorted_by_Cons)

lemma fold_max_ge: "\<not> lt (max_of lt x xs) x \<and> (\<forall>y\<in>set xs. \<not> lt (max_of lt x xs) y)"
proof (induction xs arbitrary: x)
  case Nil
  then show ?case using irrefl by (simp add: max_of_def)
next
  case (Cons a xs)
  let ?m = "if lt x a then a else x"
  have m: "max_of lt x (a # xs) = max_of lt ?m xs" by (simp add: max_of_def)
  have "\<not> lt ?m x" "\<not> lt ?m a" using asym irrefl by auto
  with Cons [of ?m] m show ?case using ntrans by (metis set_ConsD)
qed

lemma fold_min_le: "\<not> lt x (min_of lt x xs) \<and> (\<forall>y\<in>set xs. \<not> lt y (min_of lt x xs))"
proof (induction xs arbitrary: x)
  case Nil
  then show ?case using irrefl by (simp add: min_of_def)
next
  case (Cons a xs)
  let ?m = "if lt a x then a else x"
  have m: "min_of lt x (a # xs) = min_of lt ?m xs" by (simp add: min_of_def)
  have "\<not> lt x ?m" "\<not> lt a ?m" using asym irrefl by auto
  with Cons [of ?m] m show ?case using ntrans by (metis set_ConsD)
qed

end

text \<open>Comparison by a key, the form of every comparison function of the kernel.\<close>

lemma list_order_key: "list_order (\<lambda>a b. key a < (key b :: 'k :: linorder))"
  by unfold_locales auto

lemma list_order_key_desc: "list_order (\<lambda>a b. key a > (key b :: 'k :: linorder))"
  by unfold_locales auto

lemma max_of_in: "max_of lt x xs \<in> insert x (set xs)"
  by (induction xs arbitrary: x) (auto simp: max_of_def)

lemma min_of_in: "min_of lt x xs \<in> insert x (set xs)"
  by (induction xs arbitrary: x) (auto simp: min_of_def)

end
