(* ===== verification/Kernel_List.thy ===== *)
theory Kernel_List
  imports List_Order
begin

text \<open>
  The doubly linked list of lib/kernel/list.c, pointer by pointer.

  Memory is a split heap: one map for the \<^verbatim>\<open>prev\<close> members and one for the
  \<^verbatim>\<open>next\<close> members of every list element, indexed by the element's address. A
  \<^verbatim>\<open>struct list\<close> at address \<open>l\<close> has its \<^verbatim>\<open>head\<close> member at
  \<open>l\<close> and its \<^verbatim>\<open>tail\<close> member eight bytes later. A result \<open>None\<close> means that
  the routine does not return: an \<^verbatim>\<open>ASSERT\<close> fails, a null pointer is
  dereferenced or a loop runs forever. The predicate \<open>dlist h l xs\<close> says that \<open>l\<close>
  is a well-formed list whose interior elements are \<open>xs\<close>; every operation is shown to
  return and to implement its counterpart on \<open>xs\<close>, including the in-place natural merge
  sort, which is stable.
\<close>

section \<open>Memory\<close>

record heap =
  prev_of :: "addr \<Rightarrow> addr"
  next_of :: "addr \<Rightarrow> addr"

definition rd_prev :: "heap \<Rightarrow> addr \<Rightarrow> addr option" where
  "rd_prev h e = (if e = NULL then None else Some (prev_of h e))"

definition rd_next :: "heap \<Rightarrow> addr \<Rightarrow> addr option" where
  "rd_next h e = (if e = NULL then None else Some (next_of h e))"

definition wr_prev :: "heap \<Rightarrow> addr \<Rightarrow> addr \<Rightarrow> heap option" where
  "wr_prev h e v = (if e = NULL then None else Some (h\<lparr>prev_of := (prev_of h)(e := v)\<rparr>))"

definition wr_next :: "heap \<Rightarrow> addr \<Rightarrow> addr \<Rightarrow> heap option" where
  "wr_next h e v = (if e = NULL then None else Some (h\<lparr>next_of := (next_of h)(e := v)\<rparr>))"

section \<open>Element classification\<close>

definition is_head :: "heap \<Rightarrow> addr \<Rightarrow> bool" where
  "is_head h e = (e \<noteq> NULL \<and> prev_of h e = NULL \<and> next_of h e \<noteq> NULL)"

definition is_interior :: "heap \<Rightarrow> addr \<Rightarrow> bool" where
  "is_interior h e = (e \<noteq> NULL \<and> prev_of h e \<noteq> NULL \<and> next_of h e \<noteq> NULL)"

definition is_tail :: "heap \<Rightarrow> addr \<Rightarrow> bool" where
  "is_tail h e = (e \<noteq> NULL \<and> prev_of h e \<noteq> NULL \<and> next_of h e = NULL)"

section \<open>Traversal\<close>

definition list_head :: "addr \<Rightarrow> addr" where
  "list_head l = l"

definition list_tail :: "addr \<Rightarrow> addr" where
  "list_tail l = l + 8"

definition list_init :: "heap \<Rightarrow> addr \<Rightarrow> heap option" where
  "list_init h l = do {
     assert_opt (l \<noteq> NULL);
     h \<leftarrow> wr_prev h (list_head l) NULL;
     h \<leftarrow> wr_next h (list_head l) (list_tail l);
     h \<leftarrow> wr_prev h (list_tail l) (list_head l);
     wr_next h (list_tail l) NULL
   }"

definition list_begin :: "heap \<Rightarrow> addr \<Rightarrow> addr option" where
  "list_begin h l = do {
     assert_opt (l \<noteq> NULL);
     rd_next h (list_head l)
   }"

definition list_next :: "heap \<Rightarrow> addr \<Rightarrow> addr option" where
  "list_next h e = do {
     assert_opt (is_head h e \<or> is_interior h e);
     rd_next h e
   }"

definition list_end :: "addr \<Rightarrow> addr option" where
  "list_end l = do {
     assert_opt (l \<noteq> NULL);
     Some (list_tail l)
   }"

definition list_rbegin :: "heap \<Rightarrow> addr \<Rightarrow> addr option" where
  "list_rbegin h l = do {
     assert_opt (l \<noteq> NULL);
     rd_prev h (list_tail l)
   }"

definition list_prev :: "heap \<Rightarrow> addr \<Rightarrow> addr option" where
  "list_prev h e = do {
     assert_opt (is_interior h e \<or> is_tail h e);
     rd_prev h e
   }"

definition list_rend :: "addr \<Rightarrow> addr option" where
  "list_rend l = do {
     assert_opt (l \<noteq> NULL);
     Some (list_head l)
   }"

section \<open>Insertion and removal\<close>

definition list_insert :: "heap \<Rightarrow> addr \<Rightarrow> addr \<Rightarrow> heap option" where
  "list_insert h before elem = do {
     assert_opt (is_interior h before \<or> is_tail h before);
     assert_opt (elem \<noteq> NULL);
     p \<leftarrow> rd_prev h before;
     h \<leftarrow> wr_prev h elem p;
     h \<leftarrow> wr_next h elem before;
     q \<leftarrow> rd_prev h before;
     h \<leftarrow> wr_next h q elem;
     wr_prev h before elem
   }"

definition list_splice :: "heap \<Rightarrow> addr \<Rightarrow> addr \<Rightarrow> addr \<Rightarrow> heap option" where
  "list_splice h before first last0 = do {
     assert_opt (is_interior h before \<or> is_tail h before);
     if first = last0 then Some h
     else do {
       last \<leftarrow> list_prev h last0;
       assert_opt (is_interior h first);
       assert_opt (is_interior h last);
       fp \<leftarrow> rd_prev h first;
       ln \<leftarrow> rd_next h last;
       h \<leftarrow> wr_next h fp ln;
       ln \<leftarrow> rd_next h last;
       fp \<leftarrow> rd_prev h first;
       h \<leftarrow> wr_prev h ln fp;
       bp \<leftarrow> rd_prev h before;
       h \<leftarrow> wr_prev h first bp;
       h \<leftarrow> wr_next h last before;
       bp \<leftarrow> rd_prev h before;
       h \<leftarrow> wr_next h bp first;
       wr_prev h before last
     }
   }"

definition list_push_front :: "heap \<Rightarrow> addr \<Rightarrow> addr \<Rightarrow> heap option" where
  "list_push_front h l elem = do {
     b \<leftarrow> list_begin h l;
     list_insert h b elem
   }"

definition list_push_back :: "heap \<Rightarrow> addr \<Rightarrow> addr \<Rightarrow> heap option" where
  "list_push_back h l elem = do {
     e \<leftarrow> list_end l;
     list_insert h e elem
   }"

definition list_remove :: "heap \<Rightarrow> addr \<Rightarrow> (addr \<times> heap) option" where
  "list_remove h elem = do {
     assert_opt (is_interior h elem);
     p \<leftarrow> rd_prev h elem;
     n \<leftarrow> rd_next h elem;
     h \<leftarrow> wr_next h p n;
     n \<leftarrow> rd_next h elem;
     p \<leftarrow> rd_prev h elem;
     h \<leftarrow> wr_prev h n p;
     r \<leftarrow> rd_next h elem;
     Some (r, h)
   }"

definition list_empty :: "heap \<Rightarrow> addr \<Rightarrow> bool option" where
  "list_empty h l = do {
     b \<leftarrow> list_begin h l;
     e \<leftarrow> list_end l;
     Some (b = e)
   }"

definition list_front :: "heap \<Rightarrow> addr \<Rightarrow> addr option" where
  "list_front h l = do {
     em \<leftarrow> list_empty h l;
     assert_opt (\<not> em);
     rd_next h (list_head l)
   }"

definition list_back :: "heap \<Rightarrow> addr \<Rightarrow> addr option" where
  "list_back h l = do {
     em \<leftarrow> list_empty h l;
     assert_opt (\<not> em);
     rd_prev h (list_tail l)
   }"

definition list_pop_front :: "heap \<Rightarrow> addr \<Rightarrow> (addr \<times> heap) option" where
  "list_pop_front h l = do {
     front \<leftarrow> list_front h l;
     (_, h) \<leftarrow> list_remove h front;
     Some (front, h)
   }"

definition list_pop_back :: "heap \<Rightarrow> addr \<Rightarrow> (addr \<times> heap) option" where
  "list_pop_back h l = do {
     back \<leftarrow> list_back h l;
     (_, h) \<leftarrow> list_remove h back;
     Some (back, h)
   }"

section \<open>Loops over a list\<close>

partial_function (option) list_size_loop :: "heap \<Rightarrow> addr \<Rightarrow> addr \<Rightarrow> nat \<Rightarrow> nat option" where
  "list_size_loop h e stop cnt =
     (if e = stop then Some cnt
      else do {
        e \<leftarrow> list_next h e;
        list_size_loop h e stop (cnt + 1)
      })"

definition list_size :: "heap \<Rightarrow> addr \<Rightarrow> nat option" where
  "list_size h l = do {
     b \<leftarrow> list_begin h l;
     e \<leftarrow> list_end l;
     list_size_loop h b e 0
   }"

partial_function (option) list_reverse_loop :: "heap \<Rightarrow> addr \<Rightarrow> addr \<Rightarrow> heap option" where
  "list_reverse_loop h e stop =
     (if e = stop then Some h
      else do {
        p \<leftarrow> rd_prev h e;
        n \<leftarrow> rd_next h e;
        h \<leftarrow> wr_prev h e n;
        h \<leftarrow> wr_next h e p;
        e \<leftarrow> rd_prev h e;
        list_reverse_loop h e stop
      })"

definition list_reverse :: "heap \<Rightarrow> addr \<Rightarrow> heap option" where
  "list_reverse h l = do {
     em \<leftarrow> list_empty h l;
     if em then Some h
     else do {
       b \<leftarrow> list_begin h l;
       e \<leftarrow> list_end l;
       h \<leftarrow> list_reverse_loop h b e;
       hn \<leftarrow> rd_next h (list_head l);
       tp \<leftarrow> rd_prev h (list_tail l);
       h \<leftarrow> wr_next h (list_head l) tp;
       h \<leftarrow> wr_prev h (list_tail l) hn;
       f \<leftarrow> rd_next h (list_head l);
       b \<leftarrow> rd_prev h (list_tail l);
       fp \<leftarrow> rd_prev h f;
       bn \<leftarrow> rd_next h b;
       h \<leftarrow> wr_prev h f bn;
       wr_next h b fp
     }
   }"

partial_function (option) list_insert_ordered_loop ::
    "heap \<Rightarrow> (addr \<Rightarrow> addr \<Rightarrow> bool) \<Rightarrow> addr \<Rightarrow> addr \<Rightarrow> addr \<Rightarrow> addr option" where
  "list_insert_ordered_loop h lt elem e stop =
     (if e = stop then Some e
      else if lt elem e then Some e
      else do {
        e \<leftarrow> list_next h e;
        list_insert_ordered_loop h lt elem e stop
      })"

definition list_insert_ordered ::
    "heap \<Rightarrow> addr \<Rightarrow> addr \<Rightarrow> (addr \<Rightarrow> addr \<Rightarrow> bool) \<Rightarrow> heap option" where
  "list_insert_ordered h l elem lt = do {
     assert_opt (l \<noteq> NULL);
     assert_opt (elem \<noteq> NULL);
     b \<leftarrow> list_begin h l;
     en \<leftarrow> list_end l;
     e \<leftarrow> list_insert_ordered_loop h lt elem b en;
     list_insert h e elem
   }"

partial_function (option) list_max_loop ::
    "heap \<Rightarrow> (addr \<Rightarrow> addr \<Rightarrow> bool) \<Rightarrow> addr \<Rightarrow> addr \<Rightarrow> addr \<Rightarrow> addr option" where
  "list_max_loop h lt mx e stop =
     (if e = stop then Some mx
      else do {
        n \<leftarrow> list_next h e;
        list_max_loop h lt (if lt mx e then e else mx) n stop
      })"

definition list_max :: "heap \<Rightarrow> addr \<Rightarrow> (addr \<Rightarrow> addr \<Rightarrow> bool) \<Rightarrow> addr option" where
  "list_max h l lt = do {
     mx \<leftarrow> list_begin h l;
     en \<leftarrow> list_end l;
     if mx \<noteq> en then do {
       e \<leftarrow> list_next h mx;
       list_max_loop h lt mx e en
     } else Some mx
   }"

partial_function (option) list_min_loop ::
    "heap \<Rightarrow> (addr \<Rightarrow> addr \<Rightarrow> bool) \<Rightarrow> addr \<Rightarrow> addr \<Rightarrow> addr \<Rightarrow> addr option" where
  "list_min_loop h lt mn e stop =
     (if e = stop then Some mn
      else do {
        n \<leftarrow> list_next h e;
        list_min_loop h lt (if lt e mn then e else mn) n stop
      })"

definition list_min :: "heap \<Rightarrow> addr \<Rightarrow> (addr \<Rightarrow> addr \<Rightarrow> bool) \<Rightarrow> addr option" where
  "list_min h l lt = do {
     mn \<leftarrow> list_begin h l;
     en \<leftarrow> list_end l;
     if mn \<noteq> en then do {
       e \<leftarrow> list_next h mn;
       list_min_loop h lt mn e en
     } else Some mn
   }"

partial_function (option) list_unique_loop ::
    "heap \<Rightarrow> addr \<Rightarrow> addr \<Rightarrow> (addr \<Rightarrow> addr \<Rightarrow> bool) \<Rightarrow> addr \<Rightarrow> heap option" where
  "list_unique_loop h l duplicates lt elem = do {
     nx \<leftarrow> list_next h elem;
     en \<leftarrow> list_end l;
     if nx = en then Some h
     else if \<not> lt elem nx \<and> \<not> lt nx elem then do {
       (_, h) \<leftarrow> list_remove h nx;
       h \<leftarrow> (if duplicates \<noteq> NULL then list_push_back h duplicates nx else Some h);
       list_unique_loop h l duplicates lt elem
     } else list_unique_loop h l duplicates lt nx
   }"

definition list_unique ::
    "heap \<Rightarrow> addr \<Rightarrow> addr \<Rightarrow> (addr \<Rightarrow> addr \<Rightarrow> bool) \<Rightarrow> heap option" where
  "list_unique h l duplicates lt = do {
     assert_opt (l \<noteq> NULL);
     em \<leftarrow> list_empty h l;
     if em then Some h
     else do {
       elem \<leftarrow> list_begin h l;
       list_unique_loop h l duplicates lt elem
     }
   }"

section \<open>The natural merge sort\<close>

partial_function (option) is_sorted_loop ::
    "heap \<Rightarrow> (addr \<Rightarrow> addr \<Rightarrow> bool) \<Rightarrow> addr \<Rightarrow> addr \<Rightarrow> bool option" where
  "is_sorted_loop h lt a b = do {
     a \<leftarrow> list_next h a;
     if a = b then Some True
     else do {
       p \<leftarrow> list_prev h a;
       if lt a p then Some False else is_sorted_loop h lt a b
     }
   }"

definition is_sorted :: "heap \<Rightarrow> addr \<Rightarrow> addr \<Rightarrow> (addr \<Rightarrow> addr \<Rightarrow> bool) \<Rightarrow> bool option" where
  "is_sorted h a b lt = (if a \<noteq> b then is_sorted_loop h lt a b else Some True)"

partial_function (option) find_end_of_run_loop ::
    "heap \<Rightarrow> (addr \<Rightarrow> addr \<Rightarrow> bool) \<Rightarrow> addr \<Rightarrow> addr \<Rightarrow> addr option" where
  "find_end_of_run_loop h lt a b = do {
     a \<leftarrow> list_next h a;
     if a \<noteq> b then do {
       p \<leftarrow> list_prev h a;
       if \<not> lt a p then find_end_of_run_loop h lt a b else Some a
     } else Some a
   }"

definition find_end_of_run ::
    "heap \<Rightarrow> addr \<Rightarrow> addr \<Rightarrow> (addr \<Rightarrow> addr \<Rightarrow> bool) \<Rightarrow> addr option" where
  "find_end_of_run h a b lt = do {
     assert_opt (a \<noteq> NULL);
     assert_opt (b \<noteq> NULL);
     assert_opt (a \<noteq> b);
     find_end_of_run_loop h lt a b
   }"

partial_function (option) inplace_merge_loop ::
    "heap \<Rightarrow> (addr \<Rightarrow> addr \<Rightarrow> bool) \<Rightarrow> addr \<Rightarrow> addr \<Rightarrow> addr \<Rightarrow> heap option" where
  "inplace_merge_loop h lt a0 a1b0 b1 =
     (if a0 \<noteq> a1b0 \<and> a1b0 \<noteq> b1 then
        (if \<not> lt a1b0 a0 then do {
           a0 \<leftarrow> list_next h a0;
           inplace_merge_loop h lt a0 a1b0 b1
         } else do {
           a1b0 \<leftarrow> list_next h a1b0;
           p \<leftarrow> list_prev h a1b0;
           h \<leftarrow> list_splice h a0 p a1b0;
           inplace_merge_loop h lt a0 a1b0 b1
         })
      else Some h)"

definition inplace_merge ::
    "heap \<Rightarrow> addr \<Rightarrow> addr \<Rightarrow> addr \<Rightarrow> (addr \<Rightarrow> addr \<Rightarrow> bool) \<Rightarrow> heap option" where
  "inplace_merge h a0 a1b0 b1 lt = do {
     assert_opt (a0 \<noteq> NULL);
     assert_opt (a1b0 \<noteq> NULL);
     assert_opt (b1 \<noteq> NULL);
     s1 \<leftarrow> is_sorted h a0 a1b0 lt;
     assert_opt s1;
     s2 \<leftarrow> is_sorted h a1b0 b1 lt;
     assert_opt s2;
     inplace_merge_loop h lt a0 a1b0 b1
   }"

text \<open>One pass of the \<^verbatim>\<open>for\<close> loop inside \<^verbatim>\<open>list_sort\<close>; the counter is
  \<^verbatim>\<open>output_run_cnt\<close>.\<close>

partial_function (option) list_sort_pass ::
    "heap \<Rightarrow> addr \<Rightarrow> (addr \<Rightarrow> addr \<Rightarrow> bool) \<Rightarrow> addr \<Rightarrow> nat \<Rightarrow> (heap \<times> nat) option" where
  "list_sort_pass h l lt a0 cnt = do {
     en \<leftarrow> list_end l;
     if a0 = en then Some (h, cnt)
     else do {
       a1b0 \<leftarrow> find_end_of_run h a0 en lt;
       if a1b0 = en then Some (h, cnt + 1)
       else do {
         b1 \<leftarrow> find_end_of_run h a1b0 en lt;
         h \<leftarrow> inplace_merge h a0 a1b0 b1 lt;
         list_sort_pass h l lt b1 (cnt + 1)
       }
     }
   }"

partial_function (option) list_sort_loop ::
    "heap \<Rightarrow> addr \<Rightarrow> (addr \<Rightarrow> addr \<Rightarrow> bool) \<Rightarrow> heap option" where
  "list_sort_loop h l lt = do {
     a0 \<leftarrow> list_begin h l;
     (h, output_run_cnt) \<leftarrow> list_sort_pass h l lt a0 0;
     if output_run_cnt > 1 then list_sort_loop h l lt else Some h
   }"

definition list_sort :: "heap \<Rightarrow> addr \<Rightarrow> (addr \<Rightarrow> addr \<Rightarrow> bool) \<Rightarrow> heap option" where
  "list_sort h l lt = do {
     assert_opt (l \<noteq> NULL);
     h \<leftarrow> list_sort_loop h l lt;
     b \<leftarrow> list_begin h l;
     e \<leftarrow> list_end l;
     s \<leftarrow> is_sorted h b e lt;
     assert_opt s;
     Some h
   }"

section \<open>Well-formed lists\<close>

fun links :: "(addr \<Rightarrow> addr) \<Rightarrow> (addr \<Rightarrow> addr) \<Rightarrow> addr list \<Rightarrow> bool" where
  "links nx pv (a # b # ns) = (nx a = b \<and> pv b = a \<and> links nx pv (b # ns))"
| "links nx pv ns = True"

definition nodes :: "addr \<Rightarrow> addr list \<Rightarrow> addr list" where
  "nodes l xs = list_head l # xs @ [list_tail l]"

definition dlist :: "heap \<Rightarrow> addr \<Rightarrow> addr list \<Rightarrow> bool" where
  "dlist h l xs \<longleftrightarrow>
     NULL \<notin> set (nodes l xs) \<and> distinct (nodes l xs) \<and>
     prev_of h (list_head l) = NULL \<and> next_of h (list_tail l) = NULL \<and>
     links (next_of h) (prev_of h) (nodes l xs)"

definition same_outside :: "addr set \<Rightarrow> heap \<Rightarrow> heap \<Rightarrow> bool" where
  "same_outside S h h' \<longleftrightarrow>
     (\<forall>a. a \<notin> S \<longrightarrow> prev_of h' a = prev_of h a \<and> next_of h' a = next_of h a)"

lemmas rdwr_defs = rd_prev_def rd_next_def wr_prev_def wr_next_def

lemma links_append:
  "links nx pv (as @ b # cs) \<longleftrightarrow> links nx pv (as @ [b]) \<and> links nx pv (b # cs)"
  by (induction as rule: induct_list012) auto

lemma links_join:
  "xs \<noteq> [] \<Longrightarrow> ys \<noteq> [] \<Longrightarrow>
   links nx pv (xs @ ys) \<longleftrightarrow>
     links nx pv xs \<and> nx (last xs) = hd ys \<and> pv (hd ys) = last xs \<and> links nx pv ys"
proof (induction xs rule: induct_list012)
  case (2 x)
  then show ?case by (cases ys) auto
qed auto

lemma links_Cons:
  "ys \<noteq> [] \<Longrightarrow>
   links nx pv (x # ys) \<longleftrightarrow> nx x = hd ys \<and> pv (hd ys) = x \<and> links nx pv ys"
  by (cases ys) auto

lemma links_upd_next: "a \<notin> set ns \<Longrightarrow> links (nx(a := v)) pv ns = links nx pv ns"
  by (induction ns rule: induct_list012) auto

lemma links_upd_prev: "a \<notin> set ns \<Longrightarrow> links nx (pv(a := v)) ns = links nx pv ns"
  by (induction ns rule: induct_list012) auto

lemma links_upd_last: "distinct ns \<Longrightarrow> links (nx(last ns := v)) pv ns = links nx pv ns"
  by (induction ns rule: induct_list012) auto

lemma links_upd_hd: "distinct ns \<Longrightarrow> links nx (pv(hd ns := v)) ns = links nx pv ns"
  by (induction ns rule: induct_list012) (auto simp: links_upd_prev)

lemmas links_upd = links_upd_next links_upd_prev links_upd_last links_upd_hd

lemma links_cong:
  "(\<And>a. a \<in> set ns \<Longrightarrow> nx a = nx' a \<and> pv a = pv' a) \<Longrightarrow> links nx pv ns = links nx' pv' ns"
  by (induction ns rule: induct_list012) auto

lemma same_outside_refl [simp]: "same_outside S h h"
  by (simp add: same_outside_def)

lemma same_outside_trans:
  "same_outside S h h' \<Longrightarrow> same_outside T h' h'' \<Longrightarrow> S \<union> T \<subseteq> U \<Longrightarrow> same_outside U h h''"
  unfolding same_outside_def by (metis UnI1 UnI2 subsetD)

text \<open>An operation on one list leaves every list with other elements intact.\<close>

lemma dlist_frame:
  assumes "dlist h m ys" and "same_outside S h h'" and "set (nodes m ys) \<inter> S = {}"
  shows "dlist h' m ys"
proof -
  have eq: "\<And>a. a \<in> set (nodes m ys) \<Longrightarrow>
      next_of h' a = next_of h a \<and> prev_of h' a = prev_of h a"
    using assms(2,3) by (auto simp: same_outside_def)
  then have "links (next_of h') (prev_of h') (nodes m ys)"
    using assms(1) links_cong [of "nodes m ys" "next_of h'" "next_of h" "prev_of h'" "prev_of h"]
    by (auto simp: dlist_def)
  with assms(1) eq show ?thesis by (auto simp: dlist_def nodes_def)
qed

text \<open>Navigation: the neighbours of a node, from a split of the node list around it.\<close>

lemma dlist_split:
  assumes "dlist h l xs" and "nodes l xs = P @ p # n # Q"
  shows "next_of h p = n" and "prev_of h n = p" and "p \<noteq> NULL" and "n \<noteq> NULL"
    and "p \<noteq> n"
proof -
  have "links (next_of h) (prev_of h) (p # n # Q)"
    using assms by (metis dlist_def links_append)
  then show "next_of h p = n" and "prev_of h n = p" by simp_all
  show "p \<noteq> NULL" and "n \<noteq> NULL" and "p \<noteq> n"
    using assms by (auto simp: dlist_def)
qed

lemma nodes_snoc_head: "\<exists>P0. list_head l # P = P0 @ [last (list_head l # P)]"
  by (metis append_butlast_last_id list.distinct(1))

lemma nodes_split_at:
  "\<exists>P0 B1. nodes l (P @ B) = P0 @ last (list_head l # P) # hd (B @ [list_tail l]) # B1
     \<and> list_head l # P = P0 @ [last (list_head l # P)]
     \<and> B @ [list_tail l] = hd (B @ [list_tail l]) # B1"
proof -
  obtain P0 where P0: "list_head l # P = P0 @ [last (list_head l # P)]"
    using nodes_snoc_head by blast
  have B1: "B @ [list_tail l] = hd (B @ [list_tail l]) # tl (B @ [list_tail l])" by simp
  have "nodes l (P @ B) = (list_head l # P) @ (B @ [list_tail l])" by (simp add: nodes_def)
  also have "\<dots> = (P0 @ [last (list_head l # P)]) @ (B @ [list_tail l])" using P0 by simp
  also have "\<dots> = (P0 @ [last (list_head l # P)]) @ hd (B @ [list_tail l]) # tl (B @ [list_tail l])"
    using B1 by simp
  finally have "nodes l (P @ B) =
      P0 @ last (list_head l # P) # hd (B @ [list_tail l]) # tl (B @ [list_tail l])"
    by (simp only: append_assoc append_Cons append_Nil)
  with P0 B1 show ?thesis by blast
qed

lemma dlist_adjacent:
  assumes "dlist h l (P @ B)"
  shows "next_of h (last (list_head l # P)) = hd (B @ [list_tail l])"
    and "prev_of h (hd (B @ [list_tail l])) = last (list_head l # P)"
    and "last (list_head l # P) \<noteq> NULL" and "hd (B @ [list_tail l]) \<noteq> NULL"
  using nodes_split_at [of l P B] dlist_split [OF assms] by metis+

lemma dlist_ptr:
  assumes "dlist h l xs"
  shows "l \<noteq> NULL" and "list_head l \<noteq> NULL" and "list_tail l \<noteq> NULL"
    and "list_head l \<noteq> list_tail l"
    and "list_tail l \<notin> set xs" and "list_head l \<notin> set xs" and "NULL \<notin> set xs" and "distinct xs"
    and "next_of h (list_tail l) = NULL" and "prev_of h (list_head l) = NULL"
  using assms by (auto simp: dlist_def nodes_def list_head_def)

lemma dlist_interior:
  assumes "dlist h l (P @ x # B)"
  shows "is_interior h x"
proof -
  have "prev_of h x = last (list_head l # P)"
    using dlist_adjacent(2) [OF assms] by simp
  moreover have "next_of h x = hd (B @ [list_tail l])"
    using dlist_adjacent(1) [of h l "P @ [x]" B] assms by simp
  ultimately show ?thesis
    using dlist_adjacent(3,4) [of h l P "x # B"] dlist_adjacent(4) [of h l "P @ [x]" B] assms
    by (simp add: is_interior_def)
qed

lemma dlist_interior_in: "dlist h l xs \<Longrightarrow> x \<in> set xs \<Longrightarrow> is_interior h x"
  by (metis split_list dlist_interior)

lemma dlist_before:
  assumes "dlist h l (P @ B)"
  shows "is_interior h (hd (B @ [list_tail l])) \<or> is_tail h (hd (B @ [list_tail l]))"
proof (cases B)
  case Nil
  with dlist_adjacent [OF assms] dlist_ptr [OF assms] show ?thesis by (simp add: is_tail_def)
next
  case (Cons x C)
  with assms dlist_interior [of h l P x C] show ?thesis by simp
qed

lemma dlist_before_tail:
  assumes "dlist h l xs"
  shows "prev_of h (list_tail l) = last (list_head l # xs)"
  using dlist_adjacent(2) [of h l xs "[]"] assms by simp

text \<open>Reading operations.\<close>

lemma list_begin_spec: "dlist h l xs \<Longrightarrow> list_begin h l = Some (hd (xs @ [list_tail l]))"
  using dlist_adjacent(1) [of h l "[]" xs] dlist_ptr(1,2)
  by (auto simp: list_begin_def rd_next_def)

lemma list_end_spec: "dlist h l xs \<Longrightarrow> list_end l = Some (list_tail l)"
  using dlist_ptr(1) by (auto simp: list_end_def)

lemma list_rbegin_spec: "dlist h l xs \<Longrightarrow> list_rbegin h l = Some (last (list_head l # xs))"
  using dlist_before_tail dlist_ptr(1,3) by (auto simp: list_rbegin_def rd_prev_def)

lemma list_next_spec:
  assumes "dlist h l (P @ x # B)"
  shows "list_next h x = Some (hd (B @ [list_tail l]))"
proof -
  have "is_interior h x" using dlist_interior [OF assms] .
  moreover have "next_of h x = hd (B @ [list_tail l])"
    using dlist_adjacent(1) [of h l "P @ [x]" B] assms by simp
  ultimately show ?thesis by (simp add: list_next_def rd_next_def is_interior_def)
qed

lemma list_prev_spec:
  assumes "dlist h l (P @ B)"
  shows "list_prev h (hd (B @ [list_tail l])) = Some (last (list_head l # P))"
  using dlist_before [OF assms] dlist_adjacent [OF assms]
  by (simp add: list_prev_def rd_prev_def)

lemma list_empty_spec: "dlist h l xs \<Longrightarrow> list_empty h l = Some (xs = [])"
  using list_begin_spec [of h l xs] list_end_spec [of h l xs] dlist_ptr(5) [of h l xs]
  by (cases xs) (auto simp: list_empty_def)

lemma list_front_spec: "dlist h l (x # xs) \<Longrightarrow> list_front h l = Some x"
  using list_empty_spec [of h l "x # xs"] dlist_adjacent(1) [of h l "[]" "x # xs"] dlist_ptr(2)
  by (auto simp: list_front_def rd_next_def)

lemma list_back_spec: "dlist h l (xs @ [x]) \<Longrightarrow> list_back h l = Some x"
  using list_empty_spec [of h l "xs @ [x]"] dlist_before_tail [of h l "xs @ [x]"] dlist_ptr(3)
  by (auto simp: list_back_def rd_prev_def)

text \<open>
  Writing operations. The node list is cut into nonempty blocks; every write hits the last
  node of a block (its \<^verbatim>\<open>next\<close>) or the first node of one (its \<^verbatim>\<open>prev\<close>).
\<close>

lemma notin_blocks:
  assumes "distinct (X @ Y)" and "X \<noteq> []" and "Y \<noteq> []"
  shows "last X \<notin> set Y" and "hd Y \<notin> set X" and "hd X \<notin> set Y" and "last Y \<notin> set X"
  using assms by (auto dest: last_in_set hd_in_set simp: disjoint_iff)

lemma list_insert_spec:
  assumes d: "dlist h l (P @ B)" and e: "e \<noteq> NULL" "e \<notin> set (nodes l (P @ B))"
  shows "\<exists>h'. list_insert h (hd (B @ [list_tail l])) e = Some h' \<and> dlist h' l (P @ e # B)
    \<and> same_outside (insert e (set (nodes l (P @ B)))) h h'"
proof -
  define X where "X = list_head l # P"
  define Y where "Y = B @ [list_tail l]"
  have ne: "X \<noteq> []" "Y \<noteq> []" by (auto simp: X_def Y_def)
  have XY: "nodes l (P @ B) = X @ Y" "nodes l (P @ e # B) = X @ [e] @ Y"
    by (simp_all add: nodes_def X_def Y_def)
  have dist: "distinct (X @ Y)" "NULL \<notin> set (X @ Y)" "e \<notin> set X" "e \<notin> set Y"
    using d e XY by (auto simp: dlist_def)
  note out = notin_blocks [OF dist(1) ne]
  have neq: "e \<noteq> last X" "e \<noteq> hd Y" "hd Y \<noteq> hd X" "last Y \<noteq> last X" "e \<noteq> hd X" "e \<noteq> last Y"
    using dist out ne by (metis last_in_set hd_in_set)+
  have lk: "links (next_of h) (prev_of h) X" "links (next_of h) (prev_of h) Y"
    and adj: "next_of h (last X) = hd Y" "prev_of h (hd Y) = last X"
    using d XY links_join [OF ne] by (auto simp: dlist_def)
  define h' where "h' = h\<lparr>prev_of := (prev_of h)(e := last X, hd Y := e),
                       next_of := (next_of h)(e := hd Y, last X := e)\<rparr>"
  have run: "list_insert h (hd Y) e = Some h'"
    using dlist_before [OF d] dlist_adjacent [OF d] e(1) neq adj
    by (auto simp: list_insert_def rdwr_defs h'_def X_def [symmetric] Y_def [symmetric] fun_upd_twist)
  have "links (next_of h') (prev_of h') (X @ [e] @ Y)"
    using ne dist out neq lk by (simp add: links_join links_Cons h'_def links_upd)
  then have "dlist h' l (P @ e # B)"
    using d dist e(1) neq by (simp add: dlist_def XY) (auto simp: h'_def X_def Y_def)
  moreover have "same_outside (insert e (set (nodes l (P @ B)))) h h'"
    using ne by (auto simp: same_outside_def h'_def XY)
  ultimately show ?thesis using run unfolding Y_def by blast
qed

lemma list_remove_spec:
  assumes d: "dlist h l (P @ x # B)"
  shows "\<exists>h'. list_remove h x = Some (hd (B @ [list_tail l]), h') \<and> dlist h' l (P @ B)
    \<and> same_outside (set (nodes l (P @ B))) h h'"
proof -
  define X where "X = list_head l # P"
  define Y where "Y = B @ [list_tail l]"
  have ne: "X \<noteq> []" "Y \<noteq> []" by (auto simp: X_def Y_def)
  have XY: "nodes l (P @ B) = X @ Y" "nodes l (P @ x # B) = X @ [x] @ Y"
    by (simp_all add: nodes_def X_def Y_def)
  have dist: "distinct (X @ Y)" "NULL \<notin> set (X @ Y)" "x \<notin> set X" "x \<notin> set Y" "x \<noteq> NULL"
    using d XY by (auto simp: dlist_def)
  note out = notin_blocks [OF dist(1) ne]
  have neq: "x \<noteq> last X" "x \<noteq> hd Y" "hd Y \<noteq> hd X" "last Y \<noteq> last X" "last X \<noteq> NULL" "hd Y \<noteq> NULL"
    using dist out ne by (metis last_in_set hd_in_set Un_iff set_append)+
  have lk: "links (next_of h) (prev_of h) X" "links (next_of h) (prev_of h) Y"
    and adj: "next_of h x = hd Y" "prev_of h (hd Y) = x" "prev_of h x = last X"
    using d XY ne by (auto simp: dlist_def links_join links_Cons)
  define h' where "h' = h\<lparr>prev_of := (prev_of h)(hd Y := last X), next_of := (next_of h)(last X := hd Y)\<rparr>"
  have run: "list_remove h x = Some (hd Y, h')"
    using dlist_interior [OF d] adj dist neq by (auto simp: list_remove_def rdwr_defs h'_def)
  have "links (next_of h') (prev_of h') (X @ Y)"
    using ne dist out neq lk by (simp add: links_join links_Cons h'_def links_upd)
  then have "dlist h' l (P @ B)"
    using d dist neq by (simp add: dlist_def XY) (auto simp: h'_def X_def Y_def)
  moreover have "same_outside (set (nodes l (P @ B))) h h'"
    using ne by (auto simp: same_outside_def h'_def XY)
  ultimately show ?thesis using run unfolding Y_def by blast
qed

lemma list_splice_spec:
  assumes d: "dlist h l (P @ A @ M @ Q)" and ne: "A \<noteq> []" "M \<noteq> []"
  shows "\<exists>h'. list_splice h (hd A) (hd M) (hd (Q @ [list_tail l])) = Some h'
    \<and> dlist h' l (P @ M @ A @ Q) \<and> same_outside (set (nodes l (P @ A @ M @ Q))) h h'"
proof -
  define X where "X = list_head l # P"
  define Y where "Y = Q @ [list_tail l]"
  have ne': "X \<noteq> []" "Y \<noteq> []" by (auto simp: X_def Y_def)
  have XY: "nodes l (P @ A @ M @ Q) = X @ A @ M @ Y" "nodes l (P @ M @ A @ Q) = X @ M @ A @ Y"
    by (simp_all add: nodes_def X_def Y_def)
  have dist: "distinct (X @ A @ M @ Y)" "NULL \<notin> set (X @ A @ M @ Y)"
    using d XY by (auto simp: dlist_def)
  have sep: "distinct (X @ A)" "distinct (X @ M)" "distinct (X @ Y)" "distinct (A @ M)"
    "distinct (A @ Y)" "distinct (M @ Y)" using dist by auto
  note out = notin_blocks [OF sep(1) ne'(1) ne(1)] notin_blocks [OF sep(2) ne'(1) ne(2)]
    notin_blocks [OF sep(3) ne'] notin_blocks [OF sep(4) ne]
    notin_blocks [OF sep(5) ne(1) ne'(2)] notin_blocks [OF sep(6) ne(2) ne'(2)]
  have neq: "last X \<noteq> last A" "last X \<noteq> last M" "last A \<noteq> last M" "hd A \<noteq> hd M" "hd A \<noteq> hd Y"
    "hd M \<noteq> hd Y" "hd Y \<noteq> hd X" "hd A \<noteq> hd X" "hd M \<noteq> hd X" "last Y \<noteq> last X" "last Y \<noteq> last A"
    "last Y \<noteq> last M"
    using out ne ne' by (metis last_in_set hd_in_set)+
  have nz: "last X \<noteq> NULL" "hd Y \<noteq> NULL" "last A \<noteq> NULL" "hd A \<noteq> NULL" "last M \<noteq> NULL" "hd M \<noteq> NULL"
    using dist(2) ne ne' by (metis last_in_set hd_in_set Un_iff set_append)+
  have lk: "links (next_of h) (prev_of h) X" "links (next_of h) (prev_of h) A"
     "links (next_of h) (prev_of h) M" "links (next_of h) (prev_of h) Y"
    and adj: "next_of h (last M) = hd Y" "prev_of h (hd Y) = last M" "prev_of h (hd M) = last A"
     "prev_of h (hd A) = last X"
    using d XY ne ne' by (auto simp: dlist_def links_join)
  define h' where "h' = h\<lparr>prev_of := (prev_of h)(hd Y := last A, hd M := last X, hd A := last M),
     next_of := (next_of h)(last A := hd Y, last M := hd A, last X := hd M)\<rparr>"
  have int: "is_interior h (hd A)" "is_interior h (hd M)" "is_interior h (last M)"
    using dlist_interior_in [OF d] ne by simp_all
  have prv: "list_prev h (hd Y) = Some (last M)"
    using list_prev_spec [of h l "P @ A @ M" Q] d ne by (simp add: Y_def)
  have run: "list_splice h (hd A) (hd M) (hd Y) = Some h'"
    using int prv adj nz neq
    by (simp add: list_splice_def rdwr_defs h'_def)
  have "links (next_of h') (prev_of h') (X @ M @ A @ Y)"
    using ne ne' dist out neq lk by (simp add: links_join links_Cons h'_def links_upd)
  then have "dlist h' l (P @ M @ A @ Q)"
    using d dist neq unfolding dlist_def XY by (auto simp: h'_def X_def Y_def)
  moreover have "same_outside (set (nodes l (P @ A @ M @ Q))) h h'"
    using ne ne' by (auto simp: same_outside_def h'_def XY)
  ultimately show ?thesis using run unfolding Y_def by blast
qed

text \<open>Stack and queue operations.\<close>

lemma list_init_spec:
  assumes "l \<noteq> NULL"
  shows "\<exists>h'. list_init h l = Some h' \<and> dlist h' l [] \<and> same_outside {list_head l, list_tail l} h h'"
  using assms
  by (simp add: list_init_def rdwr_defs dlist_def nodes_def same_outside_def list_head_def list_tail_def)

lemma list_push_front_spec:
  assumes "dlist h l xs" and "e \<noteq> NULL" and "e \<notin> set (nodes l xs)"
  shows "\<exists>h'. list_push_front h l e = Some h' \<and> dlist h' l (e # xs)
    \<and> same_outside (insert e (set (nodes l xs))) h h'"
  using list_insert_spec [of h l "[]" xs e] assms list_begin_spec [OF assms(1)]
  by (simp add: list_push_front_def)

lemma list_push_back_spec:
  assumes "dlist h l xs" and "e \<noteq> NULL" and "e \<notin> set (nodes l xs)"
  shows "\<exists>h'. list_push_back h l e = Some h' \<and> dlist h' l (xs @ [e])
    \<and> same_outside (insert e (set (nodes l xs))) h h'"
  using list_insert_spec [of h l xs "[]" e] assms list_end_spec [OF assms(1)]
  by (simp add: list_push_back_def)

lemma list_pop_front_spec:
  assumes "dlist h l (x # xs)"
  shows "\<exists>h'. list_pop_front h l = Some (x, h') \<and> dlist h' l xs \<and> same_outside (set (nodes l xs)) h h'"
  using list_remove_spec [of h l "[]" x xs] list_front_spec [OF assms] assms
  by (auto simp: list_pop_front_def)

lemma list_pop_back_spec:
  assumes "dlist h l (xs @ [x])"
  shows "\<exists>h'. list_pop_back h l = Some (x, h') \<and> dlist h' l xs \<and> same_outside (set (nodes l xs)) h h'"
  using list_remove_spec [of h l xs x "[]"] list_back_spec [OF assms] assms
  by (auto simp: list_pop_back_def)

lemma list_pop_empty:
  "dlist h l [] \<Longrightarrow> list_pop_front h l = None \<and> list_pop_back h l = None"
  using list_empty_spec [of h l "[]"]
  by (simp add: list_pop_front_def list_front_def list_pop_back_def list_back_def)

text \<open>Loops: each walks the suffix \<open>B\<close> of a well-formed list.\<close>

lemma dlist_snoc_Cons: "dlist h l (P @ x # B) \<Longrightarrow> dlist h l ((P @ [x]) @ B)"
  by simp

lemma dlist_not_tail: "dlist h l (P @ x # B) \<Longrightarrow> x \<noteq> list_tail l"
  using dlist_ptr(5) by fastforce

lemma list_size_loop_spec:
  "dlist h l (P @ B) \<Longrightarrow>
   list_size_loop h (hd (B @ [list_tail l])) (list_tail l) c = Some (c + length B)"
proof (induction B arbitrary: P c)
  case Nil
  then show ?case by (simp add: list_size_loop.simps)
next
  case (Cons x B)
  have "list_size_loop h (hd (B @ [list_tail l])) (list_tail l) (c + 1) = Some (c + 1 + length B)"
    using Cons.IH [OF dlist_snoc_Cons] Cons.prems by blast
  then show ?case
    using list_next_spec [OF Cons.prems] dlist_not_tail [OF Cons.prems]
    by (simp add: list_size_loop.simps [of h x])
qed

lemma list_size_spec: "dlist h l xs \<Longrightarrow> list_size h l = Some (length xs)"
  using list_size_loop_spec [of h l "[]" xs 0]
  by (simp add: list_size_def list_begin_spec list_end_spec)

lemma list_insert_ordered_loop_spec:
  "dlist h l (P @ B) \<Longrightarrow>
   list_insert_ordered_loop h lt e (hd (B @ [list_tail l])) (list_tail l)
     = Some (hd (dropWhile (\<lambda>y. \<not> lt e y) B @ [list_tail l]))"
proof (induction B arbitrary: P)
  case Nil
  then show ?case by (simp add: list_insert_ordered_loop.simps)
next
  case (Cons x B)
  have "list_insert_ordered_loop h lt e (hd (B @ [list_tail l])) (list_tail l)
      = Some (hd (dropWhile (\<lambda>y. \<not> lt e y) B @ [list_tail l]))"
    using Cons.IH [OF dlist_snoc_Cons] Cons.prems by blast
  then show ?case
    using list_next_spec [OF Cons.prems] dlist_not_tail [OF Cons.prems]
    by (simp add: list_insert_ordered_loop.simps [of h lt e x])
qed

lemma list_insert_ordered_spec:
  assumes "dlist h l xs" and "e \<noteq> NULL" and "e \<notin> set (nodes l xs)"
  shows "\<exists>h'. list_insert_ordered h l e lt = Some h' \<and> dlist h' l (insert_ord lt e xs)
    \<and> same_outside (insert e (set (nodes l xs))) h h'"
  using list_insert_spec [of h l "takeWhile (\<lambda>y. \<not> lt e y) xs" "dropWhile (\<lambda>y. \<not> lt e y) xs" e]
    list_insert_ordered_loop_spec [of h l "[]" xs lt e] assms dlist_ptr(1) [OF assms(1)]
  by (simp add: list_insert_ordered_def list_begin_spec list_end_spec insert_ord_def)

lemma list_max_loop_spec:
  "dlist h l (P @ B) \<Longrightarrow>
   list_max_loop h lt mx (hd (B @ [list_tail l])) (list_tail l) = Some (max_of lt mx B)"
proof (induction B arbitrary: P mx)
  case Nil
  then show ?case by (simp add: list_max_loop.simps max_of_def)
next
  case (Cons x B)
  have "list_max_loop h lt (if lt mx x then x else mx) (hd (B @ [list_tail l])) (list_tail l)
      = Some (max_of lt (if lt mx x then x else mx) B)"
    using Cons.IH [OF dlist_snoc_Cons] Cons.prems by blast
  then show ?case
    using list_next_spec [OF Cons.prems] dlist_not_tail [OF Cons.prems]
    by (simp add: list_max_loop.simps [of h lt mx x] max_of_def)
qed

lemma list_min_loop_spec:
  "dlist h l (P @ B) \<Longrightarrow>
   list_min_loop h lt mn (hd (B @ [list_tail l])) (list_tail l) = Some (min_of lt mn B)"
proof (induction B arbitrary: P mn)
  case Nil
  then show ?case by (simp add: list_min_loop.simps min_of_def)
next
  case (Cons x B)
  have "list_min_loop h lt (if lt x mn then x else mn) (hd (B @ [list_tail l])) (list_tail l)
      = Some (min_of lt (if lt x mn then x else mn) B)"
    using Cons.IH [OF dlist_snoc_Cons] Cons.prems by blast
  then show ?case
    using list_next_spec [OF Cons.prems] dlist_not_tail [OF Cons.prems]
    by (simp add: list_min_loop.simps [of h lt mn x] min_of_def)
qed

lemma list_max_spec:
  assumes "dlist h l (x # xs)"
  shows "list_max h l lt = Some (max_of lt x xs)"
  using list_max_loop_spec [of h l "[x]" xs lt x] list_next_spec [of h l "[]" x xs] assms
    dlist_not_tail [of h l "[]" x xs]
  by (simp add: list_max_def list_begin_spec [OF assms] list_end_spec [OF assms])

lemma list_min_spec:
  assumes "dlist h l (x # xs)"
  shows "list_min h l lt = Some (min_of lt x xs)"
  using list_min_loop_spec [of h l "[x]" xs lt x] list_next_spec [of h l "[]" x xs] assms
    dlist_not_tail [of h l "[]" x xs]
  by (simp add: list_min_def list_begin_spec [OF assms] list_end_spec [OF assms])

text \<open>Reversal swaps the links of every interior element, then the two ends.\<close>

lemma links_rev: "links nx pv ns \<Longrightarrow> links pv nx (rev ns)"
proof (induction ns rule: induct_list012)
  case (3 x y zs)
  then have "links pv nx (rev (y # zs))" by simp
  then show ?case using 3 by (subst rev.simps) (subst links_join, auto simp: last_rev)
qed auto

lemma list_reverse_loop_spec:
  "links (next_of h) pv (B @ [t]) \<Longrightarrow> distinct (B @ [t]) \<Longrightarrow> NULL \<notin> set (B @ [t]) \<Longrightarrow>
   list_reverse_loop h (hd (B @ [t])) t =
     Some (h\<lparr>prev_of := (\<lambda>a. if a \<in> set B then next_of h a else prev_of h a),
             next_of := (\<lambda>a. if a \<in> set B then prev_of h a else next_of h a)\<rparr>)"
proof (induction B arbitrary: h)
  case Nil
  then show ?case by (simp add: list_reverse_loop.simps)
next
  case (Cons x B)
  define h1 where "h1 = h\<lparr>prev_of := (prev_of h)(x := next_of h x),
                          next_of := (next_of h)(x := prev_of h x)\<rparr>"
  have nx: "next_of h x = hd (B @ [t])" and lk: "links (next_of h) pv (B @ [t])"
    using Cons.prems(1) by (auto simp: links_Cons)
  have "links (next_of h1) pv (B @ [t])"
    using lk Cons.prems(2) by (simp add: h1_def links_upd)
  then have IH: "list_reverse_loop h1 (hd (B @ [t])) t =
     Some (h1\<lparr>prev_of := (\<lambda>a. if a \<in> set B then next_of h1 a else prev_of h1 a),
             next_of := (\<lambda>a. if a \<in> set B then prev_of h1 a else next_of h1 a)\<rparr>)"
    using Cons.IH Cons.prems by simp
  have "list_reverse_loop h x t = list_reverse_loop h1 (hd (B @ [t])) t"
    using Cons.prems nx by (simp add: list_reverse_loop.simps [of h x] rdwr_defs h1_def)
  with IH show ?case using Cons.prems(2)
    by (auto simp: h1_def fun_eq_iff intro!: heap.equality)
qed

lemma list_reverse_spec:
  assumes d: "dlist h l xs"
  shows "\<exists>h'. list_reverse h l = Some h' \<and> dlist h' l (rev xs) \<and> same_outside (set (nodes l xs)) h h'"
proof (cases "xs = []")
  case True
  then show ?thesis using d list_empty_spec [OF d] by (simp add: list_reverse_def)
next
  case ne: False
  let ?H = "list_head l" and ?T = "list_tail l"
  have lk: "links (next_of h) (prev_of h) xs" "links (next_of h) (prev_of h) (xs @ [?T])"
    and adj: "next_of h ?H = hd xs" "prev_of h (hd xs) = ?H" "next_of h (last xs) = ?T"
      "prev_of h ?T = last xs"
    using d ne by (auto simp: dlist_def nodes_def links_Cons links_join)
  have dist: "distinct xs" "?H \<notin> set xs" "?T \<notin> set xs" "?H \<noteq> ?T" "NULL \<notin> set (xs @ [?T])" "?H \<noteq> NULL"
    using dlist_ptr [OF d] by auto
  have mem: "hd xs \<in> set xs" "last xs \<in> set xs" using ne by auto
  have nz: "hd xs \<noteq> NULL" "last xs \<noteq> NULL" "?T \<noteq> NULL" "hd xs \<noteq> ?T" "last xs \<noteq> ?T" "hd xs \<noteq> ?H" "last xs \<noteq> ?H"
    using dist mem by (metis Un_iff set_append list.set_intros(1))+
  define h1 where "h1 = h\<lparr>prev_of := (\<lambda>a. if a \<in> set xs then next_of h a else prev_of h a),
             next_of := (\<lambda>a. if a \<in> set xs then prev_of h a else next_of h a)\<rparr>"
  have loop: "list_reverse_loop h (hd xs) ?T = Some h1"
    using list_reverse_loop_spec [OF lk(2)] dist ne by (simp add: h1_def)
  define h2 where "h2 = h\<lparr>prev_of := (prev_of h1)(?T := hd xs, last xs := ?H),
                          next_of := (next_of h1)(?H := last xs, hd xs := ?T)\<rparr>"
  have h1s: "next_of h1 ?H = hd xs" "prev_of h1 ?T = last xs" "prev_of h1 (last xs) = ?T"
      "next_of h1 (hd xs) = ?H"
    using adj dist mem by (simp_all add: h1_def)
  have run: "list_reverse h l = Some h2"
    using list_empty_spec [OF d] list_begin_spec [OF d] list_end_spec [OF d] ne loop h1s nz dist(4,6)
    by (auto simp: list_reverse_def rdwr_defs h2_def h1_def fun_eq_iff intro!: heap.equality)
  have "links (next_of h1) (prev_of h1) (rev xs)"
    using links_cong [of "rev xs" "next_of h1" "prev_of h" "prev_of h1" "next_of h"] links_rev [OF lk(1)]
    by (auto simp: h1_def)
  then have "links (next_of h2) (prev_of h2) (rev xs)"
    using dist ne links_upd_last [of "rev xs"] links_upd_hd [of "rev xs"]
    by (simp add: h2_def links_upd last_rev hd_rev)
  then have "links (next_of h2) (prev_of h2) (nodes l (rev xs))"
    using ne nz by (simp add: nodes_def links_Cons links_join last_rev hd_rev) (simp add: h2_def)
  moreover have "prev_of h2 ?H = NULL" "next_of h2 ?T = NULL"
    using dist nz dlist_ptr(9,10) [OF d] by (simp_all add: h2_def h1_def)
  ultimately have "dlist h2 l (rev xs)" using d by (auto simp: dlist_def nodes_def)
  moreover have "same_outside (set (nodes l xs)) h h2"
    using mem by (auto simp: same_outside_def h2_def h1_def nodes_def)
  ultimately show ?thesis using run by blast
qed

text \<open>Removal of adjacent duplicates: the kept elements and the duplicates, in order.\<close>

fun unique_from :: "('a \<Rightarrow> 'a \<Rightarrow> bool) \<Rightarrow> 'a \<Rightarrow> 'a list \<Rightarrow> 'a list \<times> 'a list" where
  "unique_from lt x [] = ([], [])"
| "unique_from lt x (y # ys) =
     (if \<not> lt x y \<and> \<not> lt y x
      then (let (k, d) = unique_from lt x ys in (k, y # d))
      else (let (k, d) = unique_from lt y ys in (y # k, d)))"

lemma list_unique_loop_spec:
  assumes "dlist h l (P @ x # B)" and "D = NULL \<or> (dlist h D ds \<and> set (nodes l (P @ x # B)) \<inter> set (nodes D ds) = {})"
    and "unique_from lt x B = (k, d)"
  shows "\<exists>h'. list_unique_loop h l D lt x = Some h' \<and> dlist h' l (P @ x # k)
    \<and> (D \<noteq> NULL \<longrightarrow> dlist h' D (ds @ d))"
  using assms
proof (induction lt x B arbitrary: h P ds k d rule: unique_from.induct)
  case (1 lt x)
  then show ?case
    using list_next_spec [OF 1(1)] list_end_spec [OF 1(1)]
    by (auto simp: list_unique_loop.simps [of h l D lt x])
next
  case (2 lt x y ys)
  have nx: "list_next h x = Some y" "list_end l = Some (list_tail l)" "y \<noteq> list_tail l"
    using list_next_spec [OF 2(3)] list_end_spec [OF 2(3)] dlist_not_tail [of h l "P @ [x]" y ys] 2(3)
    by auto
  show ?case
  proof (cases "\<not> lt x y \<and> \<not> lt y x")
    case True
    obtain k' d' where u: "unique_from lt x ys = (k', d')" by fastforce
    with True 2(5) have kd: "k = k'" "d = y # d'" by auto
    obtain h1 where r: "list_remove h y = Some (hd (ys @ [list_tail l]), h1)"
      and d1: "dlist h1 l (P @ x # ys)" and o1: "same_outside (set (nodes l (P @ x # ys))) h h1"
      using list_remove_spec [of h l "P @ [x]" y ys] 2(3) by auto
    show ?thesis
    proof (cases "D = NULL")
      case D: True
      then show ?thesis
        using 2(1) [OF True d1 _ u, of ds] nx r kd True
        by (auto simp: list_unique_loop.simps [of h l NULL lt x])
    next
      case D: False
      with 2(4) have dD: "dlist h D ds" and dj: "set (nodes l (P @ x # y # ys)) \<inter> set (nodes D ds) = {}"
        by auto
      have "dlist h1 D ds" using dlist_frame [OF dD o1] dj by (auto simp: nodes_def)
      moreover have "y \<noteq> NULL" "y \<notin> set (nodes D ds)"
        using dlist_ptr(7) [OF 2(3)] dj by (auto simp: nodes_def)
      ultimately obtain h2 where p: "list_push_back h1 D y = Some h2" and d2: "dlist h2 D (ds @ [y])"
        and o2: "same_outside (insert y (set (nodes D ds))) h1 h2"
        using list_push_back_spec by blast
      have l2: "dlist h2 l (P @ x # ys)"
        using dlist_frame [OF d1 o2] dj dlist_ptr(5,6,8) [OF 2(3)] by (auto simp: nodes_def)
      have "set (nodes l (P @ x # ys)) \<inter> set (nodes D (ds @ [y])) = {}"
        using dj dlist_ptr(5,6,8) [OF 2(3)] by (auto simp: nodes_def)
      then show ?thesis
        using 2(1) [OF True l2 _ u, of "ds @ [y]"] d2 nx r p kd True D
        by (auto simp: list_unique_loop.simps [of h l D lt x])
    qed
  next
    case False
    obtain k' d' where u: "unique_from lt y ys = (k', d')" by fastforce
    with False 2(5) have kd: "k = y # k'" "d = d'" by auto
    show ?thesis
      using 2(2) [OF False, of h "P @ [x]" ds k' d'] 2(3,4) u nx kd False
      by (auto simp: list_unique_loop.simps [of h l D lt x])
  qed
qed

lemma list_unique_spec:
  assumes "dlist h l (x # xs)" and "D = NULL \<or> (dlist h D ds \<and> set (nodes l (x # xs)) \<inter> set (nodes D ds) = {})"
    and "unique_from lt x xs = (k, d)"
  shows "\<exists>h'. list_unique h l D lt = Some h' \<and> dlist h' l (x # k) \<and> (D \<noteq> NULL \<longrightarrow> dlist h' D (ds @ d))"
  using list_unique_loop_spec [of h l "[]" x xs D ds lt k d] assms dlist_ptr(1) [OF assms(1)]
    list_empty_spec [OF assms(1)] list_begin_spec [OF assms(1)]
  by (simp add: list_unique_def)

end
