(* ===== verification/Kernel_List_Sort.thy ===== *)
theory Kernel_List_Sort
  imports Kernel_List
begin

text \<open>
  Correctness of \<^verbatim>\<open>list_sort\<close>, the in-place natural merge sort of lib/kernel/list.c,
  and the interpretation of the list operations as a queue. The passes of the algorithm are
  first described on HOL lists (runs, merges of adjacent runs, the number of runs that a pass
  leaves), then the pointer version is shown to follow them, to return, and to compute the
  stable sort.
\<close>

section \<open>Runs and merges on HOL lists\<close>

fun take_run :: "('a \<Rightarrow> 'a \<Rightarrow> bool) \<Rightarrow> 'a \<Rightarrow> 'a list \<Rightarrow> 'a list \<times> 'a list" where
  "take_run lt x [] = ([], [])"
| "take_run lt x (y # ys) =
     (if \<not> lt y x then (let (r, q) = take_run lt y ys in (y # r, q)) else ([], y # ys))"

fun merge_runs :: "('a \<Rightarrow> 'a \<Rightarrow> bool) \<Rightarrow> 'a list \<Rightarrow> 'a list \<Rightarrow> 'a list" where
  "merge_runs lt [] ys = ys"
| "merge_runs lt xs [] = xs"
| "merge_runs lt (x # xs) (y # ys) =
     (if \<not> lt y x then x # merge_runs lt xs (y # ys) else y # merge_runs lt (x # xs) ys)"

lemma take_run_append: "take_run lt x xs = (r, q) \<Longrightarrow> xs = r @ q"
  by (induction lt x xs arbitrary: r q rule: take_run.induct) (auto split: if_splits prod.splits)

lemma take_run_length: "take_run lt x xs = (r, q) \<Longrightarrow> length q \<le> length xs"
  by (drule take_run_append) simp

lemma take_run_adj: "take_run lt x xs = (r, q) \<Longrightarrow> adj_sorted lt (x # r)"
  by (induction lt x xs arbitrary: r q rule: take_run.induct) (auto split: if_splits prod.splits)

fun runs :: "('a \<Rightarrow> 'a \<Rightarrow> bool) \<Rightarrow> 'a list \<Rightarrow> nat" where
  "runs lt (x # y # zs) = (if lt y x then 1 else 0) + runs lt (y # zs)"
| "runs lt [x] = 1"
| "runs lt [] = 0"

lemma runs_0_iff [simp]: "runs lt xs = 0 \<longleftrightarrow> xs = []"
  by (induction xs rule: induct_list012) auto

lemma runs_take_run: "take_run lt x xs = (r, q) \<Longrightarrow> runs lt (x # xs) = Suc (runs lt q)"
  by (induction lt x xs arbitrary: r q rule: take_run.induct) (auto split: if_splits prod.splits)

lemma runs_adj_append: "adj_sorted lt xs \<Longrightarrow> runs lt (xs @ zs) \<le> Suc (runs lt zs)"
proof (induction xs rule: induct_list012)
  case (2 x)
  then show ?case by (cases zs) auto
qed auto

function sort_pass :: "('a \<Rightarrow> 'a \<Rightarrow> bool) \<Rightarrow> 'a list \<Rightarrow> 'a list \<times> nat" where
  "sort_pass lt [] = ([], 0)"
| "sort_pass lt (x # xs) =
     (case take_run lt x xs of
        (r, []) \<Rightarrow> (x # r, 1)
      | (r, y # q) \<Rightarrow>
          (case take_run lt y q of
             (s, z) \<Rightarrow> (merge_runs lt (x # r) (y # s) @ fst (sort_pass lt z), Suc (snd (sort_pass lt z)))))"
  by pat_completeness auto
termination
  by (relation "measure (length \<circ> snd)") (auto dest!: take_run_length sym [of _ "take_run _ _ _"])

lemma mset_merge_runs [simp]: "mset (merge_runs lt xs ys) = mset xs + mset ys"
  by (induction lt xs ys rule: merge_runs.induct) auto

lemma set_merge_runs [simp]: "set (merge_runs lt xs ys) = set xs \<union> set ys"
  by (metis mset_merge_runs set_mset_mset set_mset_union)

lemma mset_sort_pass: "mset (fst (sort_pass lt xs)) = mset xs"
  by (induction lt xs rule: sort_pass.induct)
    (auto split: prod.splits list.splits dest!: take_run_append)

lemma set_sort_pass: "set (fst (sort_pass lt xs)) = set xs"
  by (metis mset_sort_pass set_mset_mset)

lemma count_sort_pass: "snd (sort_pass lt xs) = (runs lt xs + 1) div 2"
  by (induction lt xs rule: sort_pass.induct)
    (auto split: prod.splits list.splits simp: runs_take_run)

context list_order
begin

lemma sorted_merge_runs:
  "sorted_by lt xs \<Longrightarrow> sorted_by lt ys \<Longrightarrow> sorted_by lt (merge_runs lt xs ys)"
proof (induction xs arbitrary: ys)
  case (Cons x xs)
  note outer = Cons.IH
  show ?case using Cons.prems
  proof (induction ys)
    case (Cons y ys)
    show ?case
    proof (cases "lt y x")
      case True
      have "sorted_by lt (merge_runs lt (x # xs) ys)" using Cons by (simp add: sorted_by_Cons)
      moreover have "\<not> lt z y" if "z \<in> set (x # xs) \<union> set ys" for z
        using that Cons.prems asym [OF True] ntrans [of x y z] by (auto simp: sorted_by_Cons)
      ultimately show ?thesis using True by (auto simp: sorted_by_Cons)
    next
      case False
      have "sorted_by lt (merge_runs lt xs (y # ys))"
        using outer [of "y # ys"] Cons.prems by (simp add: sorted_by_Cons)
      moreover have "\<not> lt z x" if "z \<in> set xs \<union> set (y # ys)" for z
        using that Cons.prems False ntrans [of y x z] by (auto simp: sorted_by_Cons)
      ultimately show ?thesis using False by (auto simp: sorted_by_Cons)
    qed
  qed simp
qed simp

lemma filter_merge_runs:
  "sorted_by lt xs \<Longrightarrow>
   filter (eqv lt k) (merge_runs lt xs ys) = filter (eqv lt k) xs @ filter (eqv lt k) ys"
proof (induction xs arbitrary: ys)
  case (Cons x xs)
  note outer = Cons.IH
  show ?case using Cons.prems
  proof (induction ys)
    case (Cons y ys)
    show ?case
    proof (cases "lt y x")
      case True
      have "\<not> eqv lt k z" if "eqv lt k y" and "z \<in> set (x # xs)" for z
        using that Cons.prems True irrefl ntrans [of z x y] ntrans [of k z y]
        by (auto simp: sorted_by_Cons eqv_def)
      then have "filter (eqv lt k) (x # xs) = []" if "eqv lt k y"
        using that unfolding filter_empty_conv by blast
      then show ?thesis using True Cons by (auto split: if_splits)
    next
      case False
      then show ?thesis using outer [of "y # ys"] Cons.prems by (simp add: sorted_by_Cons)
    qed
  qed simp
qed simp

lemma take_run_sorted: "take_run lt x xs = (r, q) \<Longrightarrow> sorted_by lt (x # r)"
  unfolding adj_sorted_iff [symmetric] by (rule take_run_adj)

lemma sort_pass_laws:
  "(\<forall>k. filter (eqv lt k) (fst (sort_pass lt xs)) = filter (eqv lt k) xs)
   \<and> runs lt (fst (sort_pass lt xs)) \<le> snd (sort_pass lt xs)
   \<and> (snd (sort_pass lt xs) \<le> 1 \<longrightarrow> sorted_by lt (fst (sort_pass lt xs)))"
proof (induction xs rule: measure_induct_rule [of length])
  case (less xs)
  show ?case
  proof (cases xs)
    case Nil
    then show ?thesis by simp
  next
    case (Cons x ys)
    obtain r q where tr: "take_run lt x ys = (r, q)" by fastforce
    show ?thesis
    proof (cases q)
      case Nil
      then show ?thesis
        using Cons tr take_run_append [OF tr] take_run_sorted [OF tr] runs_take_run [OF tr] by simp
    next
      case (Cons y q')
      obtain s z where ts: "take_run lt y q' = (s, z)" by fastforce
      let ?m = "merge_runs lt (x # r) (y # s)"
      have sm: "sorted_by lt ?m"
        using sorted_merge_runs take_run_sorted tr ts by blast
      have pass: "sort_pass lt xs = (?m @ fst (sort_pass lt z), Suc (snd (sort_pass lt z)))"
        using \<open>xs = x # ys\<close> tr ts Cons by simp
      have len: "length z < length xs"
        using take_run_append [OF tr] take_run_append [OF ts] Cons \<open>xs = x # ys\<close> by simp
      note IH = less.IH [OF len]
      have xs: "xs = (x # r) @ (y # s) @ z"
        using take_run_append [OF tr] take_run_append [OF ts] Cons \<open>xs = x # ys\<close> by simp
      have "filter (eqv lt k) (fst (sort_pass lt xs)) = filter (eqv lt k) xs" for k
      proof -
        have "filter (eqv lt k) (fst (sort_pass lt xs)) =
            filter (eqv lt k) ?m @ filter (eqv lt k) (fst (sort_pass lt z))"
          using pass by (simp only: fst_conv filter_append)
        also have "\<dots> = (filter (eqv lt k) (x # r) @ filter (eqv lt k) (y # s)) @ filter (eqv lt k) z"
          using IH filter_merge_runs [OF take_run_sorted [OF tr], of k "y # s"] by metis
        finally show ?thesis unfolding xs by (simp only: filter_append append_assoc)
      qed
      moreover have "runs lt (fst (sort_pass lt xs)) \<le> snd (sort_pass lt xs)"
        unfolding pass using IH sm runs_adj_append [of lt ?m "fst (sort_pass lt z)"] adj_sorted_iff
        by (metis Suc_le_mono fst_conv order_trans snd_conv)
      moreover have "sorted_by lt (fst (sort_pass lt xs))" if "snd (sort_pass lt xs) \<le> 1"
      proof -
        have "snd (sort_pass lt z) = 0" using that pass by simp
        then have "runs lt z = 0" using count_sort_pass [of lt z] by (simp add: div_eq_0_iff)
        then have "z = []" by simp
        then show ?thesis using pass sm by simp
      qed
      ultimately show ?thesis by blast
    qed
  qed
qed

end

section \<open>The pointer algorithm follows the list algorithm\<close>

lemma is_sorted_loop_spec:
  "dlist h l (P @ x # xs @ Q) \<Longrightarrow>
   is_sorted_loop h lt x (hd (Q @ [list_tail l])) = Some (adj_sorted lt (x # xs))"
proof (induction xs arbitrary: x P)
  case Nil
  then show ?case using list_next_spec [OF Nil] by (simp add: is_sorted_loop.simps [of h lt x])
next
  case (Cons y xs)
  have nx: "list_next h x = Some y" using list_next_spec [OF Cons.prems] by simp
  have pv: "list_prev h y = Some x"
    using list_prev_spec [of h l "P @ [x]" "y # xs @ Q"] Cons.prems by simp
  have "y \<noteq> hd (Q @ [list_tail l])"
    using dlist_ptr(5,8) [OF Cons.prems] by (cases Q) auto
  moreover have "is_sorted_loop h lt y (hd (Q @ [list_tail l])) = Some (adj_sorted lt (y # xs))"
    using Cons.IH [of "P @ [x]" y] Cons.prems by simp
  ultimately show ?case using nx pv by (simp add: is_sorted_loop.simps [of h lt x])
qed

lemma is_sorted_spec:
  assumes "dlist h l (P @ xs @ Q)" and "xs \<noteq> []"
  shows "is_sorted h (hd xs) (hd (Q @ [list_tail l])) lt = Some (adj_sorted lt xs)"
proof -
  obtain y ys where xs: "xs = y # ys" using assms(2) by (cases xs) auto
  have "hd xs \<noteq> hd (Q @ [list_tail l])"
    using dlist_ptr(5,8) [OF assms(1)] xs by (cases Q) auto
  then show ?thesis using is_sorted_loop_spec [of h l P y ys Q lt] assms(1) xs
    by (simp add: is_sorted_def)
qed

lemma find_end_of_run_loop_spec:
  "dlist h l (P @ x # xs) \<Longrightarrow> take_run lt x xs = (r, q) \<Longrightarrow>
   find_end_of_run_loop h lt x (list_tail l) = Some (hd (q @ [list_tail l]))"
proof (induction xs arbitrary: x P r q)
  case Nil
  then show ?case using list_next_spec [OF Nil(1)] by (simp add: find_end_of_run_loop.simps [of h lt x])
next
  case (Cons y xs)
  have nx: "list_next h x = Some y" using list_next_spec [OF Cons.prems(1)] by simp
  have pv: "list_prev h y = Some x"
    using list_prev_spec [of h l "P @ [x]" "y # xs"] Cons.prems by simp
  have yt: "y \<noteq> list_tail l" using dlist_ptr(5) [OF Cons.prems(1)] by auto
  obtain r' q' where t: "take_run lt y xs = (r', q')" by fastforce
  have "find_end_of_run_loop h lt y (list_tail l) = Some (hd (q' @ [list_tail l]))"
    using Cons.IH [of "P @ [x]" y] Cons.prems(1) t by simp
  then show ?case using nx pv yt t Cons.prems(2)
    by (auto simp: find_end_of_run_loop.simps [of h lt x] split: if_splits)
qed

lemma find_end_of_run_spec:
  assumes "dlist h l (P @ x # xs)" and "take_run lt x xs = (r, q)"
  shows "find_end_of_run h x (list_tail l) lt = Some (hd (q @ [list_tail l]))"
  using find_end_of_run_loop_spec [OF assms] dlist_ptr(3,5,7) [OF assms(1)]
  by (auto simp: find_end_of_run_def)

lemma inplace_merge_loop_spec:
  "dlist h l (P @ A @ B @ Q) \<Longrightarrow>
   \<exists>h'. inplace_merge_loop h lt (hd (A @ B @ Q @ [list_tail l])) (hd (B @ Q @ [list_tail l]))
          (hd (Q @ [list_tail l])) = Some h'
      \<and> dlist h' l (P @ merge_runs lt A B @ Q) \<and> same_outside (set (nodes l (P @ A @ B @ Q))) h h'"
proof (induction lt A B arbitrary: P h rule: merge_runs.induct)
  case (1 lt B)
  then show ?case by (auto simp: inplace_merge_loop.simps)
next
  case (2 lt x A)
  then show ?case by (auto simp: inplace_merge_loop.simps)
next
  case (3 lt x A y B)
  let ?t = "list_tail l"
  note d = "3.prems"
  have neq: "x \<noteq> y" "y \<noteq> hd (Q @ [?t])"
    using dlist_ptr(5,8) [OF d] by (cases Q; auto)+
  show ?case
  proof (cases "lt y x")
    case False
    have "list_next h x = Some (hd (A @ y # B @ Q @ [?t]))"
      using list_next_spec [of h l P x "A @ y # B @ Q"] d by simp
    then show ?thesis
      using "3.IH"(1) [of h "P @ [x]"] d False neq
      by (simp add: inplace_merge_loop.simps [of h lt x y])
  next
    case True
    have nx: "list_next h y = Some (hd (B @ Q @ [?t]))"
      using list_next_spec [of h l "P @ x # A" y "B @ Q"] d by simp
    have pv: "list_prev h (hd (B @ Q @ [?t])) = Some y"
      using list_prev_spec [of h l "P @ x # A @ [y]" "B @ Q"] d by simp
    obtain h1 where sp: "list_splice h x y (hd (B @ Q @ [?t])) = Some h1"
      and d1: "dlist h1 l ((P @ [y]) @ (x # A) @ B @ Q)"
      and o1: "same_outside (set (nodes l (P @ (x # A) @ (y # B) @ Q))) h h1"
      using list_splice_spec [of h l P "x # A" "[y]" "B @ Q"] d by auto
    obtain h' where "inplace_merge_loop h1 lt x (hd (B @ Q @ [?t])) (hd (Q @ [?t])) = Some h'"
      and "dlist h' l (P @ y # merge_runs lt (x # A) B @ Q)"
      and "same_outside (set (nodes l ((P @ [y]) @ (x # A) @ B @ Q))) h1 h'"
      using "3.IH"(2) [OF _ d1] True by auto
    moreover from o1 this(3) have "same_outside (set (nodes l (P @ (x # A) @ (y # B) @ Q))) h h'"
      by (rule same_outside_trans) (auto simp: nodes_def)
    ultimately show ?thesis
      using True neq nx pv sp by (simp add: inplace_merge_loop.simps [of h lt x y])
  qed
qed

lemma inplace_merge_spec:
  assumes "dlist h l (P @ A @ B @ Q)" and "A \<noteq> []" and "B \<noteq> []"
    and "adj_sorted lt A" and "adj_sorted lt B"
  shows "\<exists>h'. inplace_merge h (hd A) (hd B) (hd (Q @ [list_tail l])) lt = Some h'
     \<and> dlist h' l (P @ merge_runs lt A B @ Q) \<and> same_outside (set (nodes l (P @ A @ B @ Q))) h h'"
proof -
  have "hd A \<noteq> NULL" "hd B \<noteq> NULL" "hd (Q @ [list_tail l]) \<noteq> NULL"
    using dlist_ptr(3,7) [OF assms(1)] assms(2,3)
    by (metis Un_iff hd_in_set set_append, metis Un_iff hd_in_set set_append,
        metis Un_iff append_is_Nil_conv hd_append2 hd_in_set list.sel(1) set_append append_Nil)
  then show ?thesis
    using inplace_merge_loop_spec [OF assms(1), of lt] is_sorted_spec [of h l P A "B @ Q" lt]
      is_sorted_spec [of h l "P @ A" B Q lt] assms
    by (simp add: inplace_merge_def)
qed

lemma list_sort_pass_spec:
  "dlist h l (P @ xs) \<Longrightarrow>
   \<exists>h'. list_sort_pass h l lt (hd (xs @ [list_tail l])) c = Some (h', c + snd (sort_pass lt xs))
      \<and> dlist h' l (P @ fst (sort_pass lt xs)) \<and> same_outside (set (nodes l (P @ xs))) h h'"
proof (induction xs arbitrary: h P c rule: measure_induct_rule [of length])
  case (less xs)
  note d = less.prems
  let ?t = "list_tail l"
  have en: "list_end l = Some ?t" using list_end_spec [OF d] .
  show ?case
  proof (cases xs)
    case Nil
    then show ?thesis using d en by (auto simp: list_sort_pass.simps)
  next
    case (Cons x ys)
    obtain r q where tr: "take_run lt x ys = (r, q)" by fastforce
    have xt: "x \<noteq> ?t" using dlist_ptr(5) [OF d] Cons by auto
    have f1: "find_end_of_run h x ?t lt = Some (hd (q @ [?t]))"
      using find_end_of_run_spec [of h l P x ys lt r q] d Cons tr by simp
    show ?thesis
    proof (cases q)
      case Nil
      then show ?thesis
        using d en f1 xt \<open>xs = x # ys\<close> tr take_run_append [OF tr]
        by (auto simp: list_sort_pass.simps [of h l lt x])
    next
      case (Cons y q')
      obtain s z where ts: "take_run lt y q' = (s, z)" by fastforce
      have xs: "xs = (x # r) @ (y # s) @ z"
        using take_run_append [OF tr] take_run_append [OF ts] Cons \<open>xs = x # ys\<close> by simp
      have yt: "y \<noteq> ?t" using dlist_ptr(5) [OF d] xs by auto
      have f2: "find_end_of_run h y ?t lt = Some (hd (z @ [?t]))"
        using find_end_of_run_spec [of h l "P @ x # r" y q' lt s z] d xs ts take_run_append [OF ts] by simp
      obtain h1 where m: "inplace_merge h x y (hd (z @ [?t])) lt = Some h1"
        and d1: "dlist h1 l ((P @ merge_runs lt (x # r) (y # s)) @ z)"
        and o1: "same_outside (set (nodes l (P @ xs))) h h1"
        using inplace_merge_spec [of h l P "x # r" "y # s" z lt] d xs take_run_adj [OF tr]
          take_run_adj [OF ts] by auto
      have len: "length z < length xs" using xs by simp
      obtain h' where h': "list_sort_pass h1 l lt (hd (z @ [?t])) (c + 1) = Some (h', c + 1 + snd (sort_pass lt z))"
        and d': "dlist h' l ((P @ merge_runs lt (x # r) (y # s)) @ fst (sort_pass lt z))"
        and o2: "same_outside (set (nodes l ((P @ merge_runs lt (x # r) (y # s)) @ z))) h1 h'"
        using less.IH [OF len d1] by blast
      have "same_outside (set (nodes l (P @ xs))) h h'"
        using o1 o2 by (rule same_outside_trans) (auto simp: nodes_def xs)
      moreover have "sort_pass lt xs =
          (merge_runs lt (x # r) (y # s) @ fst (sort_pass lt z), Suc (snd (sort_pass lt z)))"
        using \<open>xs = x # ys\<close> tr ts Cons by simp
      ultimately show ?thesis
        using h' d' f1 f2 m en xt yt Cons \<open>xs = x # ys\<close>
        by (auto simp: list_sort_pass.simps [of h l lt x])
    qed
  qed
qed

text \<open>The comparison function at work on list elements, that is, on addresses.\<close>

locale list_elem_order = list_order lt for lt :: "addr \<Rightarrow> addr \<Rightarrow> bool"
begin

lemma list_sort_loop_spec:
  "dlist h l xs \<Longrightarrow> \<exists>h'. list_sort_loop h l lt = Some h' \<and> dlist h' l (stable_sort lt xs)
     \<and> same_outside (set (nodes l xs)) h h'"
proof (induction xs arbitrary: h rule: measure_induct_rule [of "runs lt"])
  case (less xs)
  let ?ys = "fst (sort_pass lt xs)" and ?c = "snd (sort_pass lt xs)"
  have laws: "filter (eqv lt k) ?ys = filter (eqv lt k) xs" "runs lt ?ys \<le> ?c"
    "?c \<le> 1 \<Longrightarrow> sorted_by lt ?ys" for k
    using sort_pass_laws [of xs] by blast+
  obtain h1 where p: "list_sort_pass h l lt (hd (xs @ [list_tail l])) 0 = Some (h1, ?c)"
    and d1: "dlist h1 l ?ys" and o1: "same_outside (set (nodes l xs)) h h1"
    using list_sort_pass_spec [of h l "[]" xs lt 0] less.prems by auto
  have same: "stable_sort lt ?ys = stable_sort lt xs"
    using laws(1) filter_stable_sort by (intro stable_sort_eqI sorted_stable_sort) simp
  show ?case
  proof (cases "?c > 1")
    case True
    then have "runs lt ?ys < runs lt xs"
      using laws(2) count_sort_pass [of lt xs] by linarith
    from less.IH [OF this d1] obtain h' where "list_sort_loop h1 l lt = Some h'"
      and "dlist h' l (stable_sort lt xs)" and o2: "same_outside (set (nodes l ?ys)) h1 h'"
      using same by auto
    moreover have "same_outside (set (nodes l xs)) h h'"
      using o1 o2 by (rule same_outside_trans)
        (simp add: nodes_def set_sort_pass)
    ultimately show ?thesis
      using p True list_begin_spec [OF less.prems] by (simp add: list_sort_loop.simps [of h l lt])
  next
    case False
    then have "stable_sort lt xs = ?ys" using laws(3) same stable_sort_sorted by force
    then show ?thesis
      using p d1 o1 False list_begin_spec [OF less.prems] by (simp add: list_sort_loop.simps [of h l lt])
  qed
qed

lemma list_sort_spec:
  assumes "dlist h l xs"
  shows "\<exists>h'. list_sort h l lt = Some h' \<and> dlist h' l (stable_sort lt xs)
     \<and> same_outside (set (nodes l xs)) h h'"
proof -
  obtain h' where h': "list_sort_loop h l lt = Some h'" "dlist h' l (stable_sort lt xs)"
    "same_outside (set (nodes l xs)) h h'"
    using list_sort_loop_spec [OF assms] by blast
  let ?ys = "stable_sort lt xs"
  have "is_sorted h' (hd (?ys @ [list_tail l])) (list_tail l) lt = Some True"
  proof (cases "?ys = []")
    case True
    then show ?thesis by (simp add: is_sorted_def)
  next
    case False
    then show ?thesis
      using is_sorted_spec [of h' l "[]" ?ys "[]" lt] h'(2) sorted_stable_sort adj_sorted_iff by auto
  qed
  then show ?thesis
    using h' dlist_ptr(1) [OF assms] list_begin_spec [OF h'(2)] list_end_spec [OF assms]
    by (simp add: list_sort_def)
qed

end

section \<open>Properties of lib/kernel/list.c\<close>

text \<open>
  C5. For every strict weak order, \<^verbatim>\<open>list_sort\<close> returns on every well-formed list,
  none of its assertions fails, and it leaves a well-formed list that is in nondecreasing order,
  a permutation of the input, and stable (equal elements keep their order); no element outside
  the list is written.
\<close>

theorem list_sort_correct:
  assumes "dlist h l xs"
    and "\<And>a b. lt a b \<Longrightarrow> \<not> lt b a"
    and "\<And>a b c. \<not> lt b a \<Longrightarrow> \<not> lt c b \<Longrightarrow> \<not> lt c a"
  shows "\<exists>h' ys. list_sort h l lt = Some h' \<and> dlist h' l ys \<and> sorted_by lt ys \<and> mset ys = mset xs
     \<and> (\<forall>k. filter (eqv lt k) ys = filter (eqv lt k) xs)
     \<and> same_outside (set (nodes l xs)) h h'"
proof -
  have lo: "list_order lt" using assms(2,3) by (rule list_order.intro)
  then have "list_elem_order lt" by (rule list_elem_order.intro)
  from list_elem_order.list_sort_spec [OF this assms(1)] show ?thesis
    using list_order.sorted_stable_sort [OF lo, of xs] list_order.filter_stable_sort [OF lo, of _ xs]
      mset_stable_sort [of lt xs] by blast
qed

definition demo_heap :: heap where
  "demo_heap = \<lparr>prev_of = (\<lambda>_. 0)(30 := 100, 10 := 30, 20 := 10, 108 := 20),
               next_of = (\<lambda>_. 0)(100 := 30, 30 := 10, 10 := 20, 20 := 108)\<rparr>"

theorem list_sort_correct_witness:
  "\<exists>h' ys. list_sort demo_heap 100 (<) = Some h' \<and> dlist h' 100 ys \<and> sorted_by (<) ys
     \<and> mset ys = {#30, 10, 20#}"
proof -
  have "dlist demo_heap 100 [30, 10, 20]"
    by (simp add: dlist_def nodes_def list_head_def list_tail_def demo_heap_def)
  from list_sort_correct [OF this, of "(<)"] show ?thesis by auto
qed

text \<open>
  \<^verbatim>\<open>list_insert_ordered\<close> on a list sorted by a strict weak order returns and leaves
  a sorted, well-formed list with the new element, placed behind every element that is not
  greater (first come, first served among equals).
\<close>

theorem list_insert_ordered_correct:
  assumes "dlist h l xs" and "e \<noteq> NULL" and "e \<notin> set (nodes l xs)" and "sorted_by lt xs"
    and "\<And>a b. lt a b \<Longrightarrow> \<not> lt b a"
    and "\<And>a b c. \<not> lt b a \<Longrightarrow> \<not> lt c b \<Longrightarrow> \<not> lt c a"
  shows "\<exists>h' as bs. list_insert_ordered h l e lt = Some h' \<and> dlist h' l (as @ e # bs)
     \<and> xs = as @ bs \<and> (\<forall>a\<in>set as. \<not> lt e a) \<and> (\<forall>b\<in>set bs. lt e b) \<and> sorted_by lt (as @ e # bs)"
proof -
  have lo: "list_order lt" using assms(5,6) by (rule list_order.intro)
  have before: "\<forall>a\<in>set (takeWhile (\<lambda>y. \<not> lt e y) xs). \<not> lt e a"
    by (blast dest: set_takeWhileD)
  have behind: "\<forall>b\<in>set (dropWhile (\<lambda>y. \<not> lt e y) xs). lt e b"
    using list_order.after_insertion_point [OF lo assms(4)] by blast
  have split: "xs = takeWhile (\<lambda>y. \<not> lt e y) xs @ dropWhile (\<lambda>y. \<not> lt e y) xs" by simp
  note srt = list_order.sorted_insert_ord [OF lo assms(4), of e, unfolded insert_ord_def]
  from list_insert_ordered_spec [OF assms(1,2,3), of lt, unfolded insert_ord_def]
  show ?thesis using before behind split srt by blast
qed

theorem list_insert_ordered_correct_witness:
  "\<exists>h' as bs. list_insert_ordered \<lparr>prev_of = (\<lambda>_. 0)(30 := 100, 108 := 30),
       next_of = (\<lambda>_. 0)(100 := 30, 30 := 108)\<rparr> 100 20 (<) = Some h'
     \<and> dlist h' 100 (as @ 20 # bs) \<and> [30] = as @ bs \<and> (\<forall>b\<in>set bs. 20 < b)"
proof -
  have d: "dlist \<lparr>prev_of = (\<lambda>_. 0)(30 := 100, 108 := 30),
       next_of = (\<lambda>_. 0)(100 := 30, 30 := 108)\<rparr> 100 [30]"
    by (simp add: dlist_def nodes_def list_head_def list_tail_def)
  have n: "20 \<notin> set (nodes 100 [30 :: addr])" by (simp add: nodes_def list_head_def list_tail_def)
  have z: "(20 :: addr) \<noteq> NULL" by simp
  have s: "sorted_by (<) [30 :: addr]" by (simp add: sorted_by_def)
  show ?thesis using list_insert_ordered_correct [OF d z n s less_not_sym] by fastforce
qed

text \<open>
  \<^verbatim>\<open>list_remove\<close> undoes \<^verbatim>\<open>list_insert\<close>: inserting a fresh element at
  any position and removing it gives back the same list, and the value returned by the removal
  is the element (or tail) it was inserted before.
\<close>

theorem list_insert_remove:
  assumes "dlist h l (P @ B)" and "e \<noteq> NULL" and "e \<notin> set (nodes l (P @ B))"
  shows "\<exists>h1 h2. list_insert h (hd (B @ [list_tail l])) e = Some h1 \<and> dlist h1 l (P @ e # B)
     \<and> list_remove h1 e = Some (hd (B @ [list_tail l]), h2) \<and> dlist h2 l (P @ B)"
proof -
  obtain h1 where h1: "list_insert h (hd (B @ [list_tail l])) e = Some h1" "dlist h1 l (P @ e # B)"
    using list_insert_spec [OF assms] by blast
  with list_remove_spec [OF h1(2)] show ?thesis by blast
qed

theorem list_insert_remove_witness:
  "\<exists>h1 h2. list_insert demo_heap 10 77 = Some h1 \<and> dlist h1 100 [30, 77, 10, 20]
     \<and> list_remove h1 77 = Some (10, h2) \<and> dlist h2 100 [30, 10, 20]"
proof -
  have "dlist demo_heap 100 ([30] @ [10, 20])" and "77 \<notin> set (nodes 100 ([30] @ [10, 20 :: addr]))"
    by (simp_all add: dlist_def nodes_def list_head_def list_tail_def demo_heap_def)
  from list_insert_remove [OF this(1) _ this(2)] show ?thesis by simp
qed

end
