(* ===== verification/Bitmap.thy ===== *)
theory Bitmap
  imports Prelude
begin

unbundle bit_operations_syntax

text \<open>
  The bitmap of lib/kernel/bitmap.c: an array of 32-bit elements that represents an array of
  bits. Every operation is shown to implement its counterpart on a list of booleans, and the
  search operations are shown to return the first suitable group. The locale
  \<open>slot_map\<close> is what the page allocator, the free-sector map and the swap table rely on.
\<close>

section \<open>Model\<close>

definition SIZE_MAX :: nat where
  "SIZE_MAX = 2 ^ 32 - 1"

definition size_add :: "nat \<Rightarrow> nat \<Rightarrow> nat" where
  "size_add a b = (a + b) mod 2 ^ 32"

definition BITMAP_ERROR :: nat where
  "BITMAP_ERROR = SIZE_MAX"

definition ELEM_BITS :: nat where
  "ELEM_BITS = 32"

record bitmap =
  bit_cnt :: nat
  bits :: "32 word list"

definition elem_idx :: "nat \<Rightarrow> nat" where
  "elem_idx bit_idx = bit_idx div ELEM_BITS"

definition bit_mask :: "nat \<Rightarrow> 32 word" where
  "bit_mask bit_idx = push_bit (bit_idx mod ELEM_BITS) 1"

definition elem_cnt :: "nat \<Rightarrow> nat" where
  "elem_cnt n = DIV_ROUND_UP n ELEM_BITS"

definition byte_cnt :: "nat \<Rightarrow> nat" where
  "byte_cnt n = 4 * elem_cnt n"

definition last_mask :: "bitmap \<Rightarrow> 32 word" where
  "last_mask b =
     (let last_bits = bit_cnt b mod ELEM_BITS
      in if last_bits \<noteq> 0 then push_bit last_bits 1 - 1 else - 1)"

definition bitmap_size :: "bitmap \<Rightarrow> nat" where
  "bitmap_size b = bit_cnt b"

text \<open>The three read-modify-write instructions on one element.\<close>

definition upd_elem :: "bitmap \<Rightarrow> nat \<Rightarrow> (32 word \<Rightarrow> 32 word) \<Rightarrow> bitmap res" where
  "upd_elem b idx f =
     (if idx < length (bits b) then Inr (b\<lparr>bits := (bits b)[idx := f (bits b ! idx)]\<rparr>)
      else Inl OutOfBounds)"

definition bitmap_mark :: "bitmap \<Rightarrow> nat \<Rightarrow> bitmap res" where
  "bitmap_mark b bit_idx = upd_elem b (elem_idx bit_idx) (\<lambda>w. w OR bit_mask bit_idx)"

definition bitmap_reset :: "bitmap \<Rightarrow> nat \<Rightarrow> bitmap res" where
  "bitmap_reset b bit_idx = upd_elem b (elem_idx bit_idx) (\<lambda>w. w AND NOT (bit_mask bit_idx))"

definition bitmap_flip :: "bitmap \<Rightarrow> nat \<Rightarrow> bitmap res" where
  "bitmap_flip b bit_idx = upd_elem b (elem_idx bit_idx) (\<lambda>w. w XOR bit_mask bit_idx)"

definition bitmap_set :: "bitmap \<Rightarrow> nat \<Rightarrow> bool \<Rightarrow> bitmap res" where
  "bitmap_set b idx v =
     bind_res (assert_res (idx < bit_cnt b)) (\<lambda>_.
     if v then bitmap_mark b idx else bitmap_reset b idx)"

definition bitmap_test :: "bitmap \<Rightarrow> nat \<Rightarrow> bool res" where
  "bitmap_test b idx =
     bind_res (assert_res (idx < bit_cnt b)) (\<lambda>_.
     if elem_idx idx < length (bits b)
     then Inr ((bits b ! elem_idx idx) AND bit_mask idx \<noteq> 0) else Inl OutOfBounds)"

text \<open>Loops run over \<open>i\<close>; the last argument counts the iterations left.\<close>

fun set_loop :: "bitmap \<Rightarrow> nat \<Rightarrow> bool \<Rightarrow> nat \<Rightarrow> nat \<Rightarrow> bitmap res" where
  "set_loop b start v i 0 = Inr b"
| "set_loop b start v i (Suc k) =
     bind_res (bitmap_set b (size_add start i) v) (\<lambda>b. set_loop b start v (i + 1) k)"

definition bitmap_set_multiple :: "bitmap \<Rightarrow> nat \<Rightarrow> nat \<Rightarrow> bool \<Rightarrow> bitmap res" where
  "bitmap_set_multiple b start cnt v =
     bind_res (assert_res (start \<le> bit_cnt b)) (\<lambda>_.
     bind_res (assert_res (size_add start cnt \<le> bit_cnt b)) (\<lambda>_.
     set_loop b start v 0 cnt))"

definition bitmap_set_all :: "bitmap \<Rightarrow> bool \<Rightarrow> bitmap res" where
  "bitmap_set_all b v = bitmap_set_multiple b 0 (bitmap_size b) v"

text \<open>
  \<^verbatim>\<open>bitmap_create\<close>: whether the two allocations succeed is given by the arguments
  \<open>ok1\<close> and \<open>ok2\<close>, and \<open>junk\<close> is what the fresh element array holds.
\<close>

definition bitmap_create :: "bool \<Rightarrow> bool \<Rightarrow> 32 word list \<Rightarrow> nat \<Rightarrow> bitmap option res" where
  "bitmap_create ok1 ok2 junk n =
     (if ok1 then
        (if ok2 \<or> n = 0
         then bind_res (bitmap_set_all \<lparr>bit_cnt = n, bits = junk\<rparr> False) (\<lambda>b. Inr (Some b))
         else Inr None)
      else Inr None)"

definition bitmap_buf_size :: "nat \<Rightarrow> nat" where
  "bitmap_buf_size n = 8 + byte_cnt n"

definition bitmap_create_in_buf :: "nat \<Rightarrow> 32 word list \<Rightarrow> nat \<Rightarrow> bitmap res" where
  "bitmap_create_in_buf n junk block_size =
     bind_res (assert_res (block_size \<ge> bitmap_buf_size n)) (\<lambda>_.
     bitmap_set_all \<lparr>bit_cnt = n, bits = junk\<rparr> False)"

fun count_loop :: "bitmap \<Rightarrow> nat \<Rightarrow> bool \<Rightarrow> nat \<Rightarrow> nat \<Rightarrow> nat \<Rightarrow> nat res" where
  "count_loop b start v i value_cnt 0 = Inr value_cnt"
| "count_loop b start v i value_cnt (Suc k) =
     bind_res (bitmap_test b (size_add start i)) (\<lambda>t.
     count_loop b start v (i + 1) (if t = v then value_cnt + 1 else value_cnt) k)"

definition bitmap_count :: "bitmap \<Rightarrow> nat \<Rightarrow> nat \<Rightarrow> bool \<Rightarrow> nat res" where
  "bitmap_count b start cnt v =
     bind_res (assert_res (start \<le> bit_cnt b)) (\<lambda>_.
     bind_res (assert_res (size_add start cnt \<le> bit_cnt b)) (\<lambda>_.
     count_loop b start v 0 0 cnt))"

fun contains_loop :: "bitmap \<Rightarrow> nat \<Rightarrow> bool \<Rightarrow> nat \<Rightarrow> nat \<Rightarrow> bool res" where
  "contains_loop b start v i 0 = Inr False"
| "contains_loop b start v i (Suc k) =
     bind_res (bitmap_test b (size_add start i)) (\<lambda>t.
     if t = v then Inr True else contains_loop b start v (i + 1) k)"

definition bitmap_contains :: "bitmap \<Rightarrow> nat \<Rightarrow> nat \<Rightarrow> bool \<Rightarrow> bool res" where
  "bitmap_contains b start cnt v =
     bind_res (assert_res (start \<le> bit_cnt b)) (\<lambda>_.
     bind_res (assert_res (size_add start cnt \<le> bit_cnt b)) (\<lambda>_.
     contains_loop b start v 0 cnt))"

definition bitmap_any :: "bitmap \<Rightarrow> nat \<Rightarrow> nat \<Rightarrow> bool res" where
  "bitmap_any b start cnt = bitmap_contains b start cnt True"

definition bitmap_none :: "bitmap \<Rightarrow> nat \<Rightarrow> nat \<Rightarrow> bool res" where
  "bitmap_none b start cnt = bind_res (bitmap_contains b start cnt True) (\<lambda>c. Inr (\<not> c))"

definition bitmap_all :: "bitmap \<Rightarrow> nat \<Rightarrow> nat \<Rightarrow> bool res" where
  "bitmap_all b start cnt = bind_res (bitmap_contains b start cnt False) (\<lambda>c. Inr (\<not> c))"

text \<open>The search loop runs while \<open>i \<le> lst\<close>.\<close>

function scan_loop :: "bitmap \<Rightarrow> nat \<Rightarrow> bool \<Rightarrow> nat \<Rightarrow> nat \<Rightarrow> nat res" where
  "scan_loop b cnt v i lst =
     (if i \<le> lst then
        bind_res (bitmap_contains b i cnt (\<not> v)) (\<lambda>c.
        if \<not> c then Inr i else scan_loop b cnt v (i + 1) lst)
      else Inr BITMAP_ERROR)"
  by pat_completeness auto
termination
  by (relation "measure (\<lambda>(b, cnt, v, i, lst). Suc lst - i)") auto

declare scan_loop.simps [simp del]

definition bitmap_scan :: "bitmap \<Rightarrow> nat \<Rightarrow> nat \<Rightarrow> bool \<Rightarrow> nat res" where
  "bitmap_scan b start cnt v =
     bind_res (assert_res (start \<le> bit_cnt b)) (\<lambda>_.
     if cnt \<le> bit_cnt b then scan_loop b cnt v start (bit_cnt b - cnt)
     else Inr BITMAP_ERROR)"

definition bitmap_scan_and_flip :: "bitmap \<Rightarrow> nat \<Rightarrow> nat \<Rightarrow> bool \<Rightarrow> (nat \<times> bitmap) res" where
  "bitmap_scan_and_flip b start cnt v =
     bind_res (bitmap_scan b start cnt v) (\<lambda>idx.
     if idx \<noteq> BITMAP_ERROR
     then bind_res (bitmap_set_multiple b idx cnt (\<not> v)) (\<lambda>b. Inr (idx, b))
     else Inr (idx, b))"

definition bitmap_file_size :: "bitmap \<Rightarrow> nat" where
  "bitmap_file_size b = byte_cnt (bit_cnt b)"

text \<open>
  File input and output: \<open>data\<close> are the bytes that \<^verbatim>\<open>file_read_at\<close>
  delivers, at most the requested number, and \<open>written\<close> is what
  \<^verbatim>\<open>file_write_at\<close> returns for the bytes handed to it.
\<close>

definition bitmap_read :: "bitmap \<Rightarrow> byte list \<Rightarrow> (bool \<times> bitmap) res" where
  "bitmap_read b data =
     (if bit_cnt b > 0 then
        let size = byte_cnt (bit_cnt b);
            img = data @ drop (length data) (le_image32 (bits b))
        in bind_res (upd_elem (b\<lparr>bits := le_words32 img\<rparr>) (elem_cnt (bit_cnt b) - 1) (\<lambda>w. w AND last_mask b))
             (\<lambda>b. Inr (length data = size, b))
      else Inr (True, b))"

definition bitmap_write :: "bitmap \<Rightarrow> nat \<Rightarrow> byte list \<times> bool" where
  "bitmap_write b written =
     (let size = byte_cnt (bit_cnt b) in (take size (le_image32 (bits b)), written = size))"

section \<open>The list of bits a bitmap represents\<close>

definition bits_of :: "bitmap \<Rightarrow> bool list" where
  "bits_of b = map (\<lambda>i. bit (bits b ! (i div 32)) (i mod 32)) [0..<bit_cnt b]"

definition wf_bitmap :: "bitmap \<Rightarrow> bool" where
  "wf_bitmap b \<longleftrightarrow> length (bits b) = elem_cnt (bit_cnt b) \<and> bit_cnt b < SIZE_MAX"

lemma length_bits_of [simp]: "length (bits_of b) = bit_cnt b"
  by (simp add: bits_of_def)

lemma wf_bitmap_elem:
  assumes "wf_bitmap b" and "i < bit_cnt b"
  shows "elem_idx i < length (bits b)"
proof -
  have "i div 32 * 32 < bit_cnt b" using assms(2) by (meson div_times_less_eq_dividend le_less_trans)
  then show ?thesis
    using assms(1) by (simp add: wf_bitmap_def elem_idx_def elem_cnt_def ELEM_BITS_def less_DIV_ROUND_UP_iff)
qed

lemma size_add_small: "a + b \<le> n \<Longrightarrow> n < SIZE_MAX \<Longrightarrow> size_add a b = a + b"
  by (simp add: size_add_def SIZE_MAX_def)

lemma bit_bit_mask: "bit (bit_mask i) j \<longleftrightarrow> j = i mod 32"
  by (auto simp: bit_mask_def ELEM_BITS_def bit_simps)

lemma and_bit_mask: "w AND bit_mask i \<noteq> 0 \<longleftrightarrow> bit w (i mod 32)"
proof
  assume "w AND bit_mask i \<noteq> 0"
  then obtain n where "bit (w AND bit_mask i) n" by (auto simp: bit_eq_iff)
  then show "bit w (i mod 32)" by (auto simp: bit_and_iff bit_bit_mask)
next
  assume "bit w (i mod 32)"
  then have "bit (w AND bit_mask i) (i mod 32)" by (simp add: bit_and_iff bit_bit_mask)
  then show "w AND bit_mask i \<noteq> 0" by auto
qed

text \<open>Writing bit \<open>i mod 32\<close> of element \<open>i div 32\<close> changes bit \<open>i\<close> of the list only.\<close>

lemma upd_elem_bits_of:
  assumes "wf_bitmap b" and "i < bit_cnt b"
    and "\<And>w j. j < 32 \<Longrightarrow> bit (f w) j \<longleftrightarrow> (if j = i mod 32 then g (bit w j) else bit w j)"
  shows "\<exists>b'. upd_elem b (elem_idx i) f = Inr b' \<and> wf_bitmap b' \<and> bit_cnt b' = bit_cnt b
     \<and> bits_of b' = (bits_of b)[i := g (bits_of b ! i)]"
proof -
  note lt = wf_bitmap_elem [OF assms(1,2)]
  let ?b' = "b\<lparr>bits := (bits b)[elem_idx i := f (bits b ! elem_idx i)]\<rparr>"
  have "bits_of ?b' ! j = (bits_of b)[i := g (bits_of b ! i)] ! j" if "j < bit_cnt b" for j
  proof -
    have "j div 32 = i div 32 \<Longrightarrow> j mod 32 = i mod 32 \<Longrightarrow> j = i" by (metis div_mult_mod_eq)
    then show ?thesis
      using that assms(2) assms(3) [of "j mod 32"] lt
      by (auto simp: bits_of_def nth_list_update elem_idx_def ELEM_BITS_def)
  qed
  then have "bits_of ?b' = (bits_of b)[i := g (bits_of b ! i)]"
    by (intro nth_equalityI) auto
  then show ?thesis using assms(1) lt by (simp add: upd_elem_def wf_bitmap_def)
qed

lemma bitmap_set_spec:
  assumes "wf_bitmap b" and "i < bit_cnt b"
  shows "\<exists>b'. bitmap_set b i v = Inr b' \<and> wf_bitmap b' \<and> bit_cnt b' = bit_cnt b
     \<and> bits_of b' = (bits_of b)[i := v]"
  using upd_elem_bits_of [OF assms, of "\<lambda>w. w OR bit_mask i" "\<lambda>_. True"]
    upd_elem_bits_of [OF assms, of "\<lambda>w. w AND NOT (bit_mask i)" "\<lambda>_. False"] assms(2)
  by (cases v) (auto simp: bitmap_set_def bitmap_mark_def bitmap_reset_def bit_simps bit_bit_mask)

lemma bitmap_flip_spec:
  assumes "wf_bitmap b" and "i < bit_cnt b"
  shows "\<exists>b'. bitmap_flip b i = Inr b' \<and> wf_bitmap b' \<and> bit_cnt b' = bit_cnt b
     \<and> bits_of b' = (bits_of b)[i := \<not> bits_of b ! i]"
  using upd_elem_bits_of [OF assms, of "\<lambda>w. w XOR bit_mask i" Not]
  by (auto simp: bitmap_flip_def bit_simps bit_bit_mask)

lemma bitmap_test_spec:
  assumes "wf_bitmap b" and "i < bit_cnt b"
  shows "bitmap_test b i = Inr (bits_of b ! i)"
  using wf_bitmap_elem [OF assms] assms(2)
  by (simp add: bitmap_test_def and_bit_mask bits_of_def elem_idx_def ELEM_BITS_def)


lemma set_loop_spec:
  assumes "wf_bitmap b" and "start + i + k \<le> bit_cnt b"
  shows "\<exists>b'. set_loop b start v i k = Inr b' \<and> wf_bitmap b' \<and> bit_cnt b' = bit_cnt b
     \<and> (\<forall>j<bit_cnt b. bits_of b' ! j = (if start + i \<le> j \<and> j < start + i + k then v else bits_of b ! j))"
  using assms
proof (induction k arbitrary: b i)
  case (Suc k)
  have "size_add start i = start + i"
    using Suc.prems size_add_small [of start i "bit_cnt b"] by (simp add: wf_bitmap_def)
  moreover obtain b1 where b1: "bitmap_set b (start + i) v = Inr b1" "wf_bitmap b1" "bit_cnt b1 = bit_cnt b"
    "bits_of b1 = (bits_of b)[start + i := v]"
    using bitmap_set_spec [of b "start + i" v] Suc.prems by auto
  moreover obtain b2 where "set_loop b1 start v (i + 1) k = Inr b2" "wf_bitmap b2" "bit_cnt b2 = bit_cnt b1"
    "\<forall>j<bit_cnt b1. bits_of b2 ! j
       = (if start + (i + 1) \<le> j \<and> j < start + (i + 1) + k then v else bits_of b1 ! j)"
    using Suc.IH [of b1 "i + 1"] Suc.prems b1 by auto
  ultimately show ?case by (auto simp: nth_list_update)
qed auto

definition in_range :: "bitmap \<Rightarrow> nat \<Rightarrow> nat \<Rightarrow> bool" where
  "in_range b start cnt \<longleftrightarrow> wf_bitmap b \<and> start + cnt \<le> bit_cnt b"

lemma in_range_asserts:
  assumes "in_range b start cnt"
  shows "start \<le> bit_cnt b" and "size_add start cnt = start + cnt" and "start + cnt \<le> bit_cnt b"
    and "wf_bitmap b" and "i < cnt \<Longrightarrow> size_add start i = start + i"
  using assms size_add_small [of start cnt "bit_cnt b"] size_add_small [of start i "bit_cnt b"]
  by (auto simp: in_range_def wf_bitmap_def)

lemma bitmap_set_multiple_spec:
  assumes "in_range b start cnt"
  shows "\<exists>b'. bitmap_set_multiple b start cnt v = Inr b' \<and> wf_bitmap b' \<and> bit_cnt b' = bit_cnt b
     \<and> (\<forall>j<bit_cnt b. bits_of b' ! j = (if start \<le> j \<and> j < start + cnt then v else bits_of b ! j))"
  using in_range_asserts [OF assms] set_loop_spec [of b start 0 cnt v]
  by (simp add: bitmap_set_multiple_def)

lemma count_loop_spec:
  assumes "in_range b start (i + k)"
  shows "count_loop b start v i n k = Inr (n + length (filter ((=) v) (take k (drop (start + i) (bits_of b)))))"
  using assms
proof (induction k arbitrary: i n)
  case (Suc k)
  then have "start + i < bit_cnt b" "wf_bitmap b" "in_range b start (i + 1 + k)" by (auto simp: in_range_def)
  then show ?case
    using Suc.IH [of "i + 1"] Suc.prems in_range_asserts(5) [OF Suc.prems, of i]
    by (auto simp: bitmap_test_spec Cons_nth_drop_Suc [symmetric])
qed simp

lemma contains_loop_spec:
  assumes "in_range b start (i + k)"
  shows "contains_loop b start v i k = Inr (v \<in> set (take k (drop (start + i) (bits_of b))))"
  using assms
proof (induction k arbitrary: i)
  case (Suc k)
  then have "start + i < bit_cnt b" "wf_bitmap b" "in_range b start (i + 1 + k)" by (auto simp: in_range_def)
  then show ?case
    using Suc.IH [of "i + 1"] Suc.prems in_range_asserts(5) [OF Suc.prems, of i]
    by (auto simp: bitmap_test_spec Cons_nth_drop_Suc [symmetric])
qed simp

lemma bitmap_count_spec:
  "in_range b start cnt \<Longrightarrow>
   bitmap_count b start cnt v = Inr (length (filter ((=) v) (take cnt (drop start (bits_of b)))))"
  using in_range_asserts [of b start cnt] count_loop_spec [of b start 0 cnt v 0]
  by (simp add: bitmap_count_def)

lemma bitmap_contains_spec:
  "in_range b start cnt \<Longrightarrow>
   bitmap_contains b start cnt v = Inr (v \<in> set (take cnt (drop start (bits_of b))))"
  using in_range_asserts [of b start cnt] contains_loop_spec [of b start 0 cnt v]
  by (simp add: bitmap_contains_def)

text \<open>The \<open>cnt\<close> bits from \<open>i\<close> on all have the value \<open>v\<close>.\<close>

definition group_at :: "bitmap \<Rightarrow> nat \<Rightarrow> bool \<Rightarrow> nat \<Rightarrow> bool" where
  "group_at b cnt v i \<longleftrightarrow> i + cnt \<le> bit_cnt b \<and> (\<forall>j. i \<le> j \<and> j < i + cnt \<longrightarrow> bits_of b ! j = v)"

lemma not_contains_iff:
  assumes "i + cnt \<le> bit_cnt b"
  shows "(\<not> v) \<notin> set (take cnt (drop i (bits_of b))) \<longleftrightarrow> group_at b cnt v i"
proof -
  have "take cnt (drop i (bits_of b)) = map ((!) (bits_of b)) [i..<i + cnt]"
    using assms by (intro nth_equalityI) auto
  then have "set (take cnt (drop i (bits_of b))) = (!) (bits_of b) ` {i..<i + cnt}" by simp
  then show ?thesis using assms by (auto simp: group_at_def)
qed

definition scan_result :: "bitmap \<Rightarrow> nat \<Rightarrow> nat \<Rightarrow> bool \<Rightarrow> nat \<Rightarrow> bool" where
  "scan_result b start cnt v r \<longleftrightarrow>
     (if r = BITMAP_ERROR then \<forall>j\<ge>start. \<not> group_at b cnt v j
      else start \<le> r \<and> group_at b cnt v r \<and> (\<forall>j. start \<le> j \<and> j < r \<longrightarrow> \<not> group_at b cnt v j))"

lemma scan_result_step:
  assumes "\<not> group_at b cnt v i" and "scan_result b (i + 1) cnt v r"
  shows "scan_result b i cnt v r"
proof -
  have "i \<le> j \<Longrightarrow> j = i \<or> i + 1 \<le> j" for j by auto
  then show ?thesis using assms unfolding scan_result_def by (smt (verit) le_add1 le_trans)
qed

lemma scan_loop_spec:
  assumes "wf_bitmap b" and "cnt \<le> bit_cnt b"
  shows "\<exists>r. scan_loop b cnt v i (bit_cnt b - cnt) = Inr r \<and> scan_result b i cnt v r"
proof (induction "Suc (bit_cnt b - cnt) - i" arbitrary: i)
  case 0
  then have "scan_loop b cnt v i (bit_cnt b - cnt) = Inr BITMAP_ERROR" by (simp add: scan_loop.simps)
  moreover have "\<forall>j\<ge>i. \<not> group_at b cnt v j" using 0 assms(2) by (auto simp: group_at_def)
  ultimately show ?case by (simp add: scan_result_def)
next
  case (Suc n)
  then have le: "i \<le> bit_cnt b - cnt" and fits: "i + cnt \<le> bit_cnt b" using assms(2) by auto
  have small: "i \<noteq> BITMAP_ERROR" using fits assms(1) by (simp add: wf_bitmap_def BITMAP_ERROR_def)
  have c: "bitmap_contains b i cnt (\<not> v) = Inr (\<not> group_at b cnt v i)"
    using assms(1) fits bitmap_contains_spec [of b i cnt "\<not> v"]
    by (simp add: in_range_def not_contains_iff [OF fits, of v, symmetric])
  show ?case
  proof (cases "group_at b cnt v i")
    case True
    then have "scan_loop b cnt v i (bit_cnt b - cnt) = Inr i" using le c by (simp add: scan_loop.simps)
    then show ?thesis using True small by (auto simp: scan_result_def)
  next
    case False
    obtain r where "scan_loop b cnt v (i + 1) (bit_cnt b - cnt) = Inr r" "scan_result b (i + 1) cnt v r"
      using Suc(1) [of "i + 1"] Suc(2) le by fastforce
    moreover have "scan_loop b cnt v i (bit_cnt b - cnt) = scan_loop b cnt v (i + 1) (bit_cnt b - cnt)"
      using le c False by (subst scan_loop.simps) simp
    ultimately show ?thesis using scan_result_step [OF False] by auto
  qed
qed

lemma bitmap_scan_spec:
  assumes "wf_bitmap b" and "start \<le> bit_cnt b"
  shows "\<exists>r. bitmap_scan b start cnt v = Inr r \<and> scan_result b start cnt v r"
proof (cases "cnt \<le> bit_cnt b")
  case True
  then show ?thesis using assms scan_loop_spec [OF assms(1) True] by (simp add: bitmap_scan_def)
next
  case False
  then show ?thesis using assms by (auto simp: bitmap_scan_def scan_result_def group_at_def)
qed

text \<open>The set of indices whose bit is set.\<close>

definition used_bits :: "bitmap \<Rightarrow> nat set" where
  "used_bits b = {i. i < bit_cnt b \<and> bits_of b ! i}"

lemma group_at_False_iff:
  "group_at b cnt False i \<longleftrightarrow> i + cnt \<le> bit_cnt b \<and> {i..<i + cnt} \<inter> used_bits b = {}"
  by (fastforce simp: group_at_def used_bits_def)

lemma used_bits_set_multiple:
  assumes "in_range b start cnt"
  shows "\<exists>b'. bitmap_set_multiple b start cnt v = Inr b' \<and> wf_bitmap b' \<and> bit_cnt b' = bit_cnt b
     \<and> used_bits b' = (if v then used_bits b \<union> {start..<start + cnt} else used_bits b - {start..<start + cnt})"
proof -
  obtain b' where b': "bitmap_set_multiple b start cnt v = Inr b'" "wf_bitmap b'" "bit_cnt b' = bit_cnt b"
    "\<forall>j<bit_cnt b. bits_of b' ! j = (if start \<le> j \<and> j < start + cnt then v else bits_of b ! j)"
    using bitmap_set_multiple_spec [OF assms] by blast
  have "used_bits b' = (if v then used_bits b \<union> {start..<start + cnt} else used_bits b - {start..<start + cnt})"
    using b'(3,4) assms by (auto simp: used_bits_def in_range_def split: if_splits)
  then show ?thesis using b' by blast
qed

lemma bitmap_scan_and_flip_spec:
  assumes "wf_bitmap b" and "start \<le> bit_cnt b"
  shows "\<exists>r b'. bitmap_scan_and_flip b start cnt False = Inr (r, b') \<and> wf_bitmap b' \<and> bit_cnt b' = bit_cnt b
     \<and> scan_result b start cnt False r
     \<and> used_bits b' = (if r = BITMAP_ERROR then used_bits b else used_bits b \<union> {r..<r + cnt})"
proof -
  obtain r where r: "bitmap_scan b start cnt False = Inr r" "scan_result b start cnt False r"
    using bitmap_scan_spec [OF assms] by blast
  show ?thesis
  proof (cases "r = BITMAP_ERROR")
    case True
    then show ?thesis using r assms by (simp add: bitmap_scan_and_flip_def)
  next
    case False
    then have "in_range b r cnt"
      using r(2) assms(1) by (simp add: scan_result_def in_range_def group_at_def)
    then show ?thesis using False r used_bits_set_multiple [of b r cnt True]
      by (auto simp: bitmap_scan_and_flip_def)
  qed
qed

lemma bitmap_create_spec:
  assumes "length junk = elem_cnt n" and "n < SIZE_MAX"
  shows "\<exists>b. bitmap_create True True junk n = Inr (Some b) \<and> wf_bitmap b \<and> bits_of b = replicate n False"
proof -
  let ?j = "\<lparr>bit_cnt = n, bits = junk\<rparr>"
  have "in_range ?j 0 n" using assms by (simp add: in_range_def wf_bitmap_def)
  from bitmap_set_multiple_spec [OF this, of False] obtain b where
    "bitmap_set_multiple ?j 0 n False = Inr b" "wf_bitmap b" "bit_cnt b = n" "\<forall>j<n. \<not> bits_of b ! j" by auto
  moreover from this have "bits_of b = replicate n False" by (intro nth_equalityI) auto
  ultimately show ?thesis by (simp add: bitmap_create_def bitmap_set_all_def bitmap_size_def)
qed


lemma bit_last_mask:
  assumes "i < bit_cnt b" and "i div 32 = elem_cnt (bit_cnt b) - 1"
  shows "bit (last_mask b) (i mod 32)"
proof (cases "bit_cnt b mod 32 = 0")
  case True
  then show ?thesis by (simp add: last_mask_def ELEM_BITS_def)
next
  case False
  define q r where "q = bit_cnt b div 32" and "r = bit_cnt b mod 32"
  have qr: "bit_cnt b = 32 * q + r" "0 < r" "r < 32" using False by (auto simp: q_def r_def)
  have "elem_cnt (bit_cnt b) = Suc q"
    using qr by (simp add: elem_cnt_def DIV_ROUND_UP_def ELEM_BITS_def div_nat_eqI)
  then have "i mod 32 < r" using assms qr by (metis add_left_cancel diff_Suc_1 div_mult_mod_eq mult.commute nat_add_left_cancel_less)
  moreover have "push_bit r 1 - 1 = (mask r :: 32 word)" by (simp add: mask_eq_exp_minus_1 push_bit_eq_mult)
  ultimately show ?thesis using False qr(3) by (simp add: last_mask_def ELEM_BITS_def bit_mask_iff r_def)
qed

lemma bitmap_read_write:
  assumes "wf_bitmap b" and "wf_bitmap b'" and "bit_cnt b' = bit_cnt b"
  shows "\<exists>b''. bitmap_read b' (fst (bitmap_write b n)) = Inr (True, b'') \<and> wf_bitmap b'' \<and> bits_of b'' = bits_of b"
proof (cases "bit_cnt b = 0")
  case True
  then show ?thesis using assms by (simp add: bitmap_read_def bits_of_def)
next
  case False
  let ?k = "elem_cnt (bit_cnt b) - 1"
  have len: "length (bits b) = elem_cnt (bit_cnt b)" "length (bits b') = elem_cnt (bit_cnt b)"
    using assms by (auto simp: wf_bitmap_def)
  have pos: "0 < elem_cnt (bit_cnt b)"
    using False by (simp add: elem_cnt_def less_DIV_ROUND_UP_iff ELEM_BITS_def)
  let ?b = "b'\<lparr>bits := (bits b)[?k := bits b ! ?k AND last_mask b']\<rparr>"
  have "bits_of ?b ! i = bits_of b ! i" if "i < bit_cnt b" for i
    using that assms bit_last_mask [of i b'] wf_bitmap_elem [OF assms(1) that] len
    by (auto simp: bits_of_def nth_list_update elem_idx_def ELEM_BITS_def bit_simps)
  then have "bits_of ?b = bits_of b" using assms(3) by (intro nth_equalityI) auto
  then show ?thesis
    using False len pos assms
    by (simp add: bitmap_read_def bitmap_write_def Let_def byte_cnt_def upd_elem_def wf_bitmap_def)
qed

section \<open>Allocation of slots\<close>

text \<open>
  What the page allocator, the free map of the file system and the swap table rely on: an
  allocator of numbered slots hands out groups that are free, or reports that there is none.
  \<open>outstanding\<close> describes a map together with the groups handed out and not yet returned.
\<close>

definition slots :: "nat \<times> nat \<Rightarrow> nat set" where
  "slots g = {fst g..<fst g + snd g}"

locale slot_map =
  fixes inv :: "'m \<Rightarrow> bool" and cap :: "'m \<Rightarrow> nat" and used :: "'m \<Rightarrow> nat set"
    and alloc :: "'m \<Rightarrow> nat \<Rightarrow> (nat \<times> 'm) res" and release :: "'m \<Rightarrow> nat \<Rightarrow> nat \<Rightarrow> 'm res"
    and failed :: nat
  assumes alloc_returns: "inv m \<Longrightarrow> \<exists>i m'. alloc m n = Inr (i, m')"
    and alloc_ok: "inv m \<Longrightarrow> alloc m n = Inr (i, m') \<Longrightarrow> i \<noteq> failed \<Longrightarrow>
      inv m' \<and> cap m' = cap m \<and> i + n \<le> cap m \<and> {i..<i + n} \<inter> used m = {} \<and> used m' = used m \<union> {i..<i + n}"
    and alloc_failed: "inv m \<Longrightarrow> alloc m n = Inr (failed, m') \<Longrightarrow>
      inv m' \<and> cap m' = cap m \<and> used m' = used m \<and> (\<forall>i. i + n \<le> cap m \<longrightarrow> {i..<i + n} \<inter> used m \<noteq> {})"
    and release_ok: "inv m \<Longrightarrow> {i..<i + n} \<subseteq> used m \<Longrightarrow> i + n \<le> cap m \<Longrightarrow>
      \<exists>m'. release m i n = Inr m' \<and> inv m' \<and> cap m' = cap m \<and> used m' = used m - {i..<i + n}"
begin

definition outstanding :: "'m \<Rightarrow> (nat \<times> nat) list \<Rightarrow> bool" where
  "outstanding m gs \<longleftrightarrow> inv m
     \<and> (\<forall>g\<in>set gs. slots g \<subseteq> used m \<and> fst g + snd g \<le> cap m)
     \<and> sorted_wrt (\<lambda>g h. slots g \<inter> slots h = {}) gs"

lemma alloc_outstanding:
  assumes "outstanding m gs" and "alloc m n = Inr (i, m')" and "i \<noteq> failed"
  shows "outstanding m' ((i, n) # gs)"
proof -
  have "inv m" using assms(1) by (simp add: outstanding_def)
  note ok = alloc_ok [OF this assms(2,3)]
  have new: "slots (i, n) = {i..<i + n}" by (simp add: slots_def)
  have old: "slots g \<subseteq> used m" "fst g + snd g \<le> cap m" if "g \<in> set gs" for g
    using assms(1) that by (auto simp: outstanding_def)
  have "slots (i, n) \<inter> slots g = {}" "slots g \<subseteq> used m'" "fst g + snd g \<le> cap m'" if "g \<in> set gs" for g
    using ok old [OF that] new by auto
  then show ?thesis using ok assms(1) new by (simp add: outstanding_def)
qed

lemma alloc_failed_outstanding:
  assumes "outstanding m gs" and "alloc m n = Inr (failed, m')"
  shows "outstanding m' gs \<and> (\<forall>i. i + n \<le> cap m \<longrightarrow> {i..<i + n} \<inter> used m \<noteq> {})"
proof -
  have "inv m" using assms(1) by (simp add: outstanding_def)
  then show ?thesis using alloc_failed [OF _ assms(2)] assms(1) by (simp add: outstanding_def)
qed

lemma release_outstanding:
  assumes "outstanding m (as @ (i, n) # bs)"
  shows "\<exists>m'. release m i n = Inr m' \<and> outstanding m' (as @ bs) \<and> used m' = used m - {i..<i + n}"
proof -
  have "inv m" "{i..<i + n} \<subseteq> used m" "i + n \<le> cap m" using assms by (auto simp: outstanding_def slots_def)
  then obtain m' where m': "release m i n = Inr m'" "inv m'" "cap m' = cap m" "used m' = used m - {i..<i + n}"
    using release_ok by blast
  have apart: "slots (i, n) \<inter> slots g = {}" if "g \<in> set (as @ bs)" for g
    using assms that by (auto simp: outstanding_def sorted_wrt_append)
  have "slots g \<subseteq> used m' \<and> fst g + snd g \<le> cap m'" if "g \<in> set (as @ bs)" for g
    using assms that m' apart [OF that] by (auto simp: outstanding_def slots_def)
  moreover have "sorted_wrt (\<lambda>g h. slots g \<inter> slots h = {}) (as @ bs)"
    using assms by (simp add: outstanding_def sorted_wrt_append)
  ultimately show ?thesis using m' by (simp add: outstanding_def)
qed

end

interpretation bits: slot_map wf_bitmap bit_cnt used_bits
  "\<lambda>b n. bitmap_scan_and_flip b 0 n False" "\<lambda>b i n. bitmap_set_multiple b i n False" BITMAP_ERROR
proof unfold_locales
  fix b :: bitmap and n i b'
  assume b: "wf_bitmap b"
  show "\<exists>i b'. bitmap_scan_and_flip b 0 n False = Inr (i, b')"
    using bitmap_scan_and_flip_spec [OF b, of 0 n] by auto
  show "wf_bitmap b' \<and> bit_cnt b' = bit_cnt b \<and> i + n \<le> bit_cnt b \<and> {i..<i + n} \<inter> used_bits b = {}
      \<and> used_bits b' = used_bits b \<union> {i..<i + n}"
    if "bitmap_scan_and_flip b 0 n False = Inr (i, b')" "i \<noteq> BITMAP_ERROR"
    using bitmap_scan_and_flip_spec [OF b, of 0 n] that
    by (auto simp: scan_result_def group_at_False_iff)
  show "wf_bitmap b' \<and> bit_cnt b' = bit_cnt b \<and> used_bits b' = used_bits b
      \<and> (\<forall>i. i + n \<le> bit_cnt b \<longrightarrow> {i..<i + n} \<inter> used_bits b \<noteq> {})"
    if "bitmap_scan_and_flip b 0 n False = Inr (BITMAP_ERROR, b')"
    using bitmap_scan_and_flip_spec [OF b, of 0 n] that
    by (auto simp: scan_result_def group_at_False_iff)
  show "\<exists>b'. bitmap_set_multiple b i n False = Inr b' \<and> wf_bitmap b' \<and> bit_cnt b' = bit_cnt b
      \<and> used_bits b' = used_bits b - {i..<i + n}"
    if "{i..<i + n} \<subseteq> used_bits b" "i + n \<le> bit_cnt b"
    using used_bits_set_multiple [of b i n False] b that by (simp add: in_range_def)
qed


section \<open>Properties\<close>

definition demo_bitmap :: bitmap where
  "demo_bitmap = \<lparr>bit_cnt = 40, bits = [0xFFFFFF07, 0x0F]\<rparr>"

lemma wf_demo_bitmap: "wf_bitmap demo_bitmap"
  by (simp add: wf_bitmap_def demo_bitmap_def elem_cnt_def DIV_ROUND_UP_def ELEM_BITS_def SIZE_MAX_def)



text \<open>
  C35. Saving a bitmap and loading it into another bitmap of the same size succeeds and gives back
  every bit, whatever the second bitmap held.
\<close>

theorem bitmap_read_bitmap_write:
  assumes "wf_bitmap b" and "wf_bitmap b'" and "bit_cnt b' = bit_cnt b"
  shows "\<exists>b''. bitmap_read b' (fst (bitmap_write b n)) = Inr (True, b'') \<and> wf_bitmap b'' \<and> bits_of b'' = bits_of b"
  using assms by (rule bitmap_read_write)

theorem bitmap_read_bitmap_write_witness:
  "\<exists>b''. bitmap_read (demo_bitmap\<lparr>bits := [1, 2]\<rparr>) (fst (bitmap_write demo_bitmap 8)) = Inr (True, b'')
     \<and> bits_of b'' = bits_of demo_bitmap"
proof -
  have "wf_bitmap (demo_bitmap\<lparr>bits := [1, 2]\<rparr>)"
    by (simp add: wf_bitmap_def demo_bitmap_def elem_cnt_def DIV_ROUND_UP_def ELEM_BITS_def SIZE_MAX_def)
  from bitmap_read_bitmap_write [OF wf_demo_bitmap this] show ?thesis by fastforce
qed

end
