(* ===== verification/Hash_Table.thy ===== *)
theory Hash_Table
  imports List_Order
begin

unbundle bit_operations_syntax

text \<open>
  The chained hash table of lib/kernel/hash.c. Buckets are lists of elements (the list component
  shows that the pointer operations implement them); the element and bucket counts are 32-bit
  words. The hash and comparison functions of the client are fields of the table, as in the C
  structure; what the client must promise about them is the locale \<open>hash_client\<close>, and
  under it every operation is shown to implement its counterpart on a map from equivalence
  classes of keys to elements, whatever the outcome of the memory allocation in
  \<^verbatim>\<open>rehash\<close>.
\<close>

section \<open>Model\<close>

record 'e hash =
  elem_cnt :: "32 word"
  bucket_cnt :: "32 word"
  buckets :: "'e list list"
  hash_fn :: "'e \<Rightarrow> 32 word"
  less_fn :: "'e \<Rightarrow> 'e \<Rightarrow> bool"

definition bucket_idx :: "'e hash \<Rightarrow> 'e \<Rightarrow> nat" where
  "bucket_idx h e = unat (hash_fn h e AND (bucket_cnt h - 1))"

text \<open>The list of a bucket; the array has \<open>bucket_cnt\<close> entries.\<close>

definition get_bucket :: "'e hash \<Rightarrow> nat \<Rightarrow> 'e list res" where
  "get_bucket h i = (if i < length (buckets h) then Inr (buckets h ! i) else Inl OutOfBounds)"

definition find_bucket :: "'e hash \<Rightarrow> 'e \<Rightarrow> nat res" where
  "find_bucket h e =
     (let i = bucket_idx h e in if i < length (buckets h) then Inr i else Inl OutOfBounds)"

fun find_loop :: "('e \<Rightarrow> 'e \<Rightarrow> bool) \<Rightarrow> 'e list \<Rightarrow> 'e \<Rightarrow> 'e option" where
  "find_loop lt [] e = None"
| "find_loop lt (hi # is) e = (if \<not> lt hi e \<and> \<not> lt e hi then Some hi else find_loop lt is e)"

definition find_elem :: "'e hash \<Rightarrow> nat \<Rightarrow> 'e \<Rightarrow> 'e option res" where
  "find_elem h bucket e = bind_res (get_bucket h bucket) (\<lambda>xs. Inr (find_loop (less_fn h) xs e))"

definition turn_off_least_1bit :: "32 word \<Rightarrow> 32 word" where
  "turn_off_least_1bit x = x AND (x - 1)"

definition is_power_of_2 :: "32 word \<Rightarrow> bool" where
  "is_power_of_2 x \<longleftrightarrow> x \<noteq> 0 \<and> turn_off_least_1bit x = 0"

lemma turn_off_less: "x \<noteq> 0 \<Longrightarrow> turn_off_least_1bit x < x"
proof -
  assume "x \<noteq> 0"
  have "x AND (x - 1) \<le> x - 1" by (rule word_and_le1)
  also have "x - 1 < x" using \<open>x \<noteq> 0\<close> by (simp add: word_less_nat_alt unat_minus_one unat_gt_0)
  finally show ?thesis by (simp add: turn_off_least_1bit_def)
qed

text \<open>The loop is entered with at least four buckets; on zero the C loop would not end.\<close>

function round_bucket_cnt :: "32 word \<Rightarrow> 32 word" where
  "round_bucket_cnt n =
     (if is_power_of_2 n \<or> n = 0 then n else round_bucket_cnt (turn_off_least_1bit n))"
  by pat_completeness auto
termination
  by (relation "measure unat") (auto simp: turn_off_less word_less_nat_alt [symmetric])

declare round_bucket_cnt.simps [simp del]

definition BEST_ELEMS_PER_BUCKET :: "32 word" where
  "BEST_ELEMS_PER_BUCKET = 2"

definition ideal_bucket_cnt :: "32 word \<Rightarrow> 32 word" where
  "ideal_bucket_cnt n =
     (let c = n div BEST_ELEMS_PER_BUCKET in round_bucket_cnt (if c < 4 then 4 else c))"

text \<open>Moving the elements of the old buckets, one at a time, in front of the new ones.\<close>

fun move_elems :: "'e list \<Rightarrow> 'e hash \<Rightarrow> 'e hash res" where
  "move_elems [] h = Inr h"
| "move_elems (e # es) h =
     bind_res (find_bucket h e) (\<lambda>b.
     move_elems es (h\<lparr>buckets := (buckets h)[b := e # buckets h ! b]\<rparr>))"

definition rehash :: "bool \<Rightarrow> 'e hash \<Rightarrow> 'e hash res" where
  "rehash malloc_ok h =
     (let new_bucket_cnt = ideal_bucket_cnt (elem_cnt h) in
      if new_bucket_cnt = bucket_cnt h then Inr h
      else if \<not> malloc_ok then Inr h
      else move_elems (concat (buckets h))
             (h\<lparr>buckets := replicate (unat new_bucket_cnt) [], bucket_cnt := new_bucket_cnt\<rparr>))"

definition insert_elem :: "'e hash \<Rightarrow> nat \<Rightarrow> 'e \<Rightarrow> 'e hash" where
  "insert_elem h bucket e =
     h\<lparr>elem_cnt := elem_cnt h + 1, buckets := (buckets h)[bucket := e # buckets h ! bucket]\<rparr>"

text \<open>\<^verbatim>\<open>list_remove\<close> unlinks the element from whichever bucket it is in.\<close>

definition remove_elem :: "'e hash \<Rightarrow> 'e \<Rightarrow> 'e hash" where
  "remove_elem h e = h\<lparr>elem_cnt := elem_cnt h - 1, buckets := map (remove1 e) (buckets h)\<rparr>"

definition hash_insert :: "bool \<Rightarrow> 'e hash \<Rightarrow> 'e \<Rightarrow> ('e option \<times> 'e hash) res" where
  "hash_insert malloc_ok h new =
     bind_res (find_bucket h new) (\<lambda>bucket.
     bind_res (find_elem h bucket new) (\<lambda>old.
     let h = (if old = None then insert_elem h bucket new else h) in
     bind_res (rehash malloc_ok h) (\<lambda>h. Inr (old, h))))"

definition hash_replace :: "bool \<Rightarrow> 'e hash \<Rightarrow> 'e \<Rightarrow> ('e option \<times> 'e hash) res" where
  "hash_replace malloc_ok h new =
     bind_res (find_bucket h new) (\<lambda>bucket.
     bind_res (find_elem h bucket new) (\<lambda>old.
     let h = (case old of None \<Rightarrow> h | Some o' \<Rightarrow> remove_elem h o');
         h = insert_elem h bucket new in
     bind_res (rehash malloc_ok h) (\<lambda>h. Inr (old, h))))"

definition hash_find :: "'e hash \<Rightarrow> 'e \<Rightarrow> 'e option res" where
  "hash_find h e = bind_res (find_bucket h e) (\<lambda>b. find_elem h b e)"

definition hash_delete :: "bool \<Rightarrow> 'e hash \<Rightarrow> 'e \<Rightarrow> ('e option \<times> 'e hash) res" where
  "hash_delete malloc_ok h e =
     bind_res (find_bucket h e) (\<lambda>b.
     bind_res (find_elem h b e) (\<lambda>found.
     case found of
       None \<Rightarrow> Inr (None, h)
     | Some x \<Rightarrow> bind_res (rehash malloc_ok (remove_elem h x)) (\<lambda>h. Inr (found, h))))"

text \<open>
  \<^verbatim>\<open>hash_clear\<close> empties every bucket; the destructor, when there is one, acts on the
  client's state \<open>s\<close> for each element in turn.
\<close>

definition hash_clear :: "'e hash \<Rightarrow> ('e \<Rightarrow> 's \<Rightarrow> 's) option \<Rightarrow> 's \<Rightarrow> 'e hash \<times> 's" where
  "hash_clear h destructor s =
     (h\<lparr>buckets := map (\<lambda>_. []) (buckets h), elem_cnt := 0\<rparr>,
      case destructor of None \<Rightarrow> s | Some d \<Rightarrow> fold d (concat (buckets h)) s)"

definition hash_init ::
  "bool \<Rightarrow> (nat \<Rightarrow> 'e list) \<Rightarrow> ('e \<Rightarrow> 32 word) \<Rightarrow> ('e \<Rightarrow> 'e \<Rightarrow> bool) \<Rightarrow> 'e hash option" where
  "hash_init malloc_ok junk hash lt =
     (if malloc_ok
      then Some (fst (hash_clear \<lparr>elem_cnt = 0, bucket_cnt = 4, buckets = map junk [0..<4],
                                  hash_fn = hash, less_fn = lt\<rparr> None ()))
      else None)"

definition hash_destroy :: "'e hash \<Rightarrow> ('e \<Rightarrow> 's \<Rightarrow> 's) option \<Rightarrow> 's \<Rightarrow> 's" where
  "hash_destroy h destructor s =
     (if destructor \<noteq> None then snd (hash_clear h destructor s) else s)"

definition hash_apply :: "'e hash \<Rightarrow> ('e \<Rightarrow> 's \<Rightarrow> 's) \<Rightarrow> 's \<Rightarrow> 's" where
  "hash_apply h action s = fold (\<lambda>bucket. fold action bucket) (buckets h) s"

definition hash_size :: "'e hash \<Rightarrow> 32 word" where
  "hash_size h = elem_cnt h"

definition hash_empty :: "'e hash \<Rightarrow> bool" where
  "hash_empty h \<longleftrightarrow> elem_cnt h = 0"

subsection \<open>Iteration\<close>

text \<open>
  The iterator points at the head of its bucket's list (before the first element), at an element,
  or is null at the end of the table.
\<close>

datatype 'e position = At_Head | At_Elem 'e | At_Null

record 'e hash_iterator =
  it_bucket :: nat
  it_elem :: "'e position"

definition hash_first :: "'e hash_iterator" where
  "hash_first = \<lparr>it_bucket = 0, it_elem = At_Head\<rparr>"

text \<open>\<^verbatim>\<open>list_next\<close> within a bucket: \<open>None\<close> is the list's end.\<close>

fun elem_after :: "'e list \<Rightarrow> 'e \<Rightarrow> 'e option" where
  "elem_after [] e = None"
| "elem_after (x # xs) e = (if x = e then (case xs of [] \<Rightarrow> None | y # _ \<Rightarrow> Some y) else elem_after xs e)"

definition first_elem :: "'e list \<Rightarrow> 'e option" where
  "first_elem xs = (case xs of [] \<Rightarrow> None | y # _ \<Rightarrow> Some y)"

function next_loop :: "'e hash \<Rightarrow> nat \<Rightarrow> 'e option \<Rightarrow> nat \<times> 'e position" where
  "next_loop h b (Some e) = (b, At_Elem e)"
| "next_loop h b None =
     (if b + 1 \<ge> length (buckets h) then (b + 1, At_Null)
      else next_loop h (b + 1) (first_elem (buckets h ! (b + 1))))"
  by pat_completeness auto
termination
  by (relation "measure (\<lambda>(h, b, e). length (buckets h) - b)") auto

definition hash_next :: "'e hash \<Rightarrow> 'e hash_iterator \<Rightarrow> ('e option \<times> 'e hash_iterator) res" where
  "hash_next h i =
     bind_res (get_bucket h (it_bucket i)) (\<lambda>xs.
     case it_elem i of
       At_Null \<Rightarrow> Inl NullDeref
     | At_Head \<Rightarrow> (case next_loop h (it_bucket i) (first_elem xs) of (b, p) \<Rightarrow>
         Inr (case p of At_Elem e \<Rightarrow> Some e | _ \<Rightarrow> None, \<lparr>it_bucket = b, it_elem = p\<rparr>))
     | At_Elem e \<Rightarrow> (case next_loop h (it_bucket i) (elem_after xs e) of (b, p) \<Rightarrow>
         Inr (case p of At_Elem e \<Rightarrow> Some e | _ \<Rightarrow> None, \<lparr>it_bucket = b, it_elem = p\<rparr>)))"

definition hash_cur :: "'e hash_iterator \<Rightarrow> 'e option" where
  "hash_cur i = (case it_elem i of At_Elem e \<Rightarrow> Some e | _ \<Rightarrow> None)"

subsection \<open>Hash functions\<close>

definition FNV_32_PRIME :: "32 word" where
  "FNV_32_PRIME = 16777619"

definition FNV_32_BASIS :: "32 word" where
  "FNV_32_BASIS = 2166136261"

definition fnv_step :: "32 word \<Rightarrow> byte \<Rightarrow> 32 word" where
  "fnv_step hash b = (hash * FNV_32_PRIME) XOR ucast b"

definition hash_bytes :: "byte list \<Rightarrow> nat \<Rightarrow> 32 word res" where
  "hash_bytes buf n =
     (if n \<le> length buf then Inr (foldl fnv_step FNV_32_BASIS (take n buf)) else Inl OutOfBounds)"

fun hash_string_loop :: "byte list \<Rightarrow> 32 word \<Rightarrow> 32 word res" where
  "hash_string_loop [] hash = Inl OutOfBounds"
| "hash_string_loop (c # s) hash = (if c = 0 then Inr hash else hash_string_loop s (fnv_step hash c))"

definition hash_string :: "byte list \<Rightarrow> 32 word res" where
  "hash_string s = hash_string_loop s FNV_32_BASIS"

definition hash_int :: "32 word \<Rightarrow> 32 word res" where
  "hash_int i = hash_bytes (le_bytes32 i) 4"


section \<open>Bucket counts\<close>

lemma bucket_idx_less:
  assumes "bucket_cnt h \<noteq> 0"
  shows "bucket_idx h e < unat (bucket_cnt h)"
proof -
  have "hash_fn h e AND (bucket_cnt h - 1) \<le> bucket_cnt h - 1" by (rule word_and_le1)
  also have "\<dots> < bucket_cnt h" using assms by (simp add: word_less_nat_alt unat_minus_one unat_gt_0)
  finally show ?thesis by (simp add: bucket_idx_def word_less_nat_alt)
qed

lemma round_bucket_cnt_power: "n \<noteq> 0 \<Longrightarrow> is_power_of_2 (round_bucket_cnt n) \<and> round_bucket_cnt n \<le> n"
proof (induction n rule: round_bucket_cnt.induct)
  case (1 n)
  show ?case
  proof (cases "is_power_of_2 n")
    case True
    then show ?thesis by (subst (1 2) round_bucket_cnt.simps) simp
  next
    case False
    then have "turn_off_least_1bit n \<noteq> 0" using "1.prems" by (simp add: is_power_of_2_def)
    with "1.IH" False "1.prems" have "is_power_of_2 (round_bucket_cnt (turn_off_least_1bit n))"
      "round_bucket_cnt (turn_off_least_1bit n) \<le> turn_off_least_1bit n" by auto
    moreover have "round_bucket_cnt n = round_bucket_cnt (turn_off_least_1bit n)"
      using False "1.prems" by (subst round_bucket_cnt.simps) simp
    ultimately show ?thesis using turn_off_less [OF "1.prems"] by auto
  qed
qed

lemma ideal_bucket_cnt_power: "is_power_of_2 (ideal_bucket_cnt n)"
proof -
  have "(if n div BEST_ELEMS_PER_BUCKET < 4 then 4 else n div BEST_ELEMS_PER_BUCKET) \<noteq> 0" by auto
  from round_bucket_cnt_power [OF this] show ?thesis by (simp add: ideal_bucket_cnt_def Let_def)
qed

section \<open>Invariant and abstraction\<close>

definition elems :: "'e hash \<Rightarrow> 'e list" where
  "elems h = concat (buckets h)"

text \<open>Every element is in the bucket its hash selects.\<close>

definition placed :: "'e hash \<Rightarrow> bool" where
  "placed h \<longleftrightarrow> is_power_of_2 (bucket_cnt h) \<and> length (buckets h) = unat (bucket_cnt h)
     \<and> (\<forall>i<length (buckets h). \<forall>e\<in>set (buckets h ! i). bucket_idx h e = i)"

definition wf_hash :: "'e hash \<Rightarrow> bool" where
  "wf_hash h \<longleftrightarrow> placed h \<and> unat (elem_cnt h) = length (elems h)
     \<and> sorted_wrt (\<lambda>a b. \<not> eqv (less_fn h) a b) (elems h)"

text \<open>The element stored for the key of \<open>e\<close>.\<close>

definition lookup_in :: "('e \<Rightarrow> 'e \<Rightarrow> bool) \<Rightarrow> 'e list \<Rightarrow> 'e \<Rightarrow> 'e option" where
  "lookup_in lt xs e = find (\<lambda>x. eqv lt x e) xs"

definition abs_hash :: "'e hash \<Rightarrow> 'e \<Rightarrow> 'e option" where
  "abs_hash h e = lookup_in (less_fn h) (elems h) e"

lemma find_loop_eq: "find_loop lt xs e = lookup_in lt xs e"
  by (induction xs) (auto simp: lookup_in_def eqv_def)

lemma placed_find_bucket: "placed h \<Longrightarrow> find_bucket h e = Inr (bucket_idx h e)"
  using bucket_idx_less [of h e] by (simp add: placed_def find_bucket_def Let_def is_power_of_2_def)

lemma in_elems_iff: "e \<in> set (elems h) \<longleftrightarrow> (\<exists>i<length (buckets h). e \<in> set (buckets h ! i))"
  by (auto simp: elems_def in_set_conv_nth [of _ "buckets h"]) (metis nth_mem)+

lemma placed_mem_bucket:
  assumes "placed h" and "e \<in> set (elems h)"
  shows "e \<in> set (buckets h ! bucket_idx h e) \<and> bucket_idx h e < length (buckets h)"
  using assms by (auto simp: in_elems_iff placed_def)

lemma concat_update_Cons:
  "i < length bs \<Longrightarrow> mset (concat (bs[i := e # bs ! i])) = add_mset e (mset (concat bs))"
proof (induction bs arbitrary: i)
  case (Cons b bs)
  then show ?case by (cases i) auto
qed simp

text \<open>Pairwise inequivalence and lookups depend only on the collection of elements.\<close>

definition pairwise_diff :: "('e \<Rightarrow> 'e \<Rightarrow> bool) \<Rightarrow> 'e multiset \<Rightarrow> bool" where
  "pairwise_diff lt M \<longleftrightarrow> (\<forall>a\<in>#M. \<forall>b\<in>#M - {#a#}. \<not> eqv lt a b)"

lemma eqv_sym: "eqv lt a b \<longleftrightarrow> eqv lt b a"
  by (auto simp: eqv_def)

lemma pairwise_diff_add:
  "pairwise_diff lt (add_mset e M) \<longleftrightarrow> pairwise_diff lt M \<and> (\<forall>b\<in>#M. \<not> eqv lt e b)"
proof
  assume *: "pairwise_diff lt (add_mset e M)"
  have "\<not> eqv lt a b" if "a \<in># M" "b \<in># M - {#a#}" for a b
    using * that by (auto simp: pairwise_diff_def dest!: bspec [of _ _ a] bspec [of _ _ b])
  moreover have "\<not> eqv lt e b" if "b \<in># M" for b
    using * that by (simp add: pairwise_diff_def)
  ultimately show "pairwise_diff lt M \<and> (\<forall>b\<in>#M. \<not> eqv lt e b)"
    unfolding pairwise_diff_def by blast
next
  assume "pairwise_diff lt M \<and> (\<forall>b\<in>#M. \<not> eqv lt e b)"
  then show "pairwise_diff lt (add_mset e M)"
    by (auto simp: pairwise_diff_def eqv_sym dest: in_diffD split: if_splits)
qed


lemma sorted_wrt_diff_iff: "sorted_wrt (\<lambda>a b. \<not> eqv lt a b) xs \<longleftrightarrow> pairwise_diff lt (mset xs)"
  by (induction xs) (auto simp: pairwise_diff_add, auto simp: pairwise_diff_def)

lemma wf_hash_alt:
  "wf_hash h \<longleftrightarrow> placed h \<and> unat (elem_cnt h) = size (mset (elems h)) \<and> pairwise_diff (less_fn h) (mset (elems h))"
  by (simp add: wf_hash_def sorted_wrt_diff_iff)

text \<open>Moving elements to the front of their buckets keeps placement and adds just them.\<close>

lemma move_elems_spec:
  assumes "placed h"
  shows "\<exists>h'. move_elems es h = Inr h' \<and> placed h' \<and> mset (elems h') = mset es + mset (elems h)
     \<and> elem_cnt h' = elem_cnt h \<and> hash_fn h' = hash_fn h \<and> less_fn h' = less_fn h"
  using assms
proof (induction es arbitrary: h)
  case (Cons e es)
  let ?b = "bucket_idx h e"
  let ?h = "h\<lparr>buckets := (buckets h)[?b := e # buckets h ! ?b]\<rparr>"
  have b: "?b < length (buckets h)"
    using Cons.prems bucket_idx_less [of h e] by (simp add: placed_def is_power_of_2_def)
  have same: "bucket_idx ?h = bucket_idx h" by (simp add: bucket_idx_def fun_eq_iff)
  have "placed ?h" using Cons.prems b by (auto simp: placed_def same nth_list_update)
  from Cons.IH [OF this] show ?case
    using b Cons.prems by (auto simp: placed_find_bucket elems_def concat_update_Cons)
qed simp

lemma rehash_spec:
  assumes "wf_hash h"
  shows "\<exists>h'. rehash ok h = Inr h' \<and> wf_hash h' \<and> mset (elems h') = mset (elems h)
     \<and> hash_fn h' = hash_fn h \<and> less_fn h' = less_fn h"
proof -
  let ?n = "ideal_bucket_cnt (elem_cnt h)"
  let ?h = "h\<lparr>buckets := replicate (unat ?n) [], bucket_cnt := ?n\<rparr>"
  have "placed ?h" by (simp add: placed_def ideal_bucket_cnt_power)
  moreover have "elems ?h = []" by (simp add: elems_def)
  ultimately obtain h' where h': "move_elems (concat (buckets h)) ?h = Inr h'" "placed h'"
      "mset (elems h') = mset (elems h)" "elem_cnt h' = elem_cnt h" "hash_fn h' = hash_fn h" "less_fn h' = less_fn h"
    using move_elems_spec [of ?h "concat (buckets h)"] by (auto simp: elems_def)
  then have "wf_hash h'" using assms by (simp add: wf_hash_alt)
  then show ?thesis using h' assms by (cases "?n = bucket_cnt h"; cases ok) (auto simp: rehash_def Let_def)
qed

lemma mset_concat_remove1:
  "distinct (concat bs) \<Longrightarrow> mset (concat (map (remove1 x) bs)) = mset (concat bs) - {#x#}"
proof (induction bs)
  case (Cons b bs)
  have id: "map (remove1 x) bs = bs" if "x \<notin> set (concat bs)"
    using that by (auto intro!: map_idI remove1_idem)
  show ?case
  proof (cases "x \<in> set b")
    case True
    then have "x \<notin> set (concat bs)" using Cons.prems by auto
    with id True show ?thesis by simp
  next
    case False
    then have "mset b + (mset (concat bs) - {#x#}) = mset b + mset (concat bs) - {#x#}"
      by (cases "x \<in># mset (concat bs)") (simp_all only: diff_union_single_conv diff_single_trivial union_iff set_mset_mset, simp)
    then show ?thesis using Cons False by (simp add: remove1_idem)
  qed
qed simp

text \<open>What a client promises about its comparison and hash functions.\<close>

locale hash_client = list_order lt for lt :: "'e \<Rightarrow> 'e \<Rightarrow> bool" +
  fixes hash :: "'e \<Rightarrow> 32 word"
  assumes hash_eqv: "eqv lt a b \<Longrightarrow> hash a = hash b"
begin

definition good :: "'e hash \<Rightarrow> bool" where
  "good h \<longleftrightarrow> wf_hash h \<and> hash_fn h = hash \<and> less_fn h = lt"

lemma good_diff: "good h \<Longrightarrow> pairwise_diff lt (mset (elems h))"
  by (auto simp: good_def wf_hash_alt)

lemma eqv_trans: "eqv lt a b \<Longrightarrow> eqv lt b c \<Longrightarrow> eqv lt a c"
  unfolding eqv_def using ntrans by blast

lemma lookup_in_iff:
  assumes "pairwise_diff lt (mset xs)"
  shows "lookup_in lt xs e = Some x \<longleftrightarrow> x \<in> set xs \<and> eqv lt x e"
  using assms
proof (induction xs)
  case (Cons y ys)
  then have "pairwise_diff lt (mset ys)" and diff: "\<forall>b\<in>set ys. \<not> eqv lt y b"
    by (auto simp: pairwise_diff_add)
  moreover have "\<not> eqv lt x e" if "eqv lt y e" "x \<in> set ys" for x
    using that diff eqv_trans [of y e x] eqv_sym [of lt x e] by blast
  ultimately show ?case using Cons.IH by (auto simp: lookup_in_def)
qed (simp add: lookup_in_def)

lemma lookup_in_None: "lookup_in lt xs e = None \<longleftrightarrow> (\<forall>x\<in>set xs. \<not> eqv lt x e)"
  by (auto simp: lookup_in_def find_None_iff)

lemma lookup_in_mset:
  assumes "pairwise_diff lt (mset xs)" and "mset ys = mset xs"
  shows "lookup_in lt ys e = lookup_in lt xs e"
proof -
  have "set ys = set xs" using assms(2) by (rule mset_eq_setD)
  then have "lookup_in lt ys e = Some x \<longleftrightarrow> lookup_in lt xs e = Some x" for x
    using lookup_in_iff [OF assms(1)] lookup_in_iff [of ys] assms by simp
  then show ?thesis by (metis not_Some_eq)
qed

lemma pairwise_diff_bucket:
  assumes "pairwise_diff lt (mset (concat bs))" and "i < length bs"
  shows "pairwise_diff lt (mset (bs ! i))"
  using assms
proof (induction bs arbitrary: i)
  case (Cons b bs)
  have "sorted_wrt (\<lambda>a b. \<not> eqv lt a b) (b @ concat bs)" using Cons.prems(1) by (simp add: sorted_wrt_diff_iff)
  then have "pairwise_diff lt (mset b)" "pairwise_diff lt (mset (concat bs))"
    unfolding sorted_wrt_append by (simp_all add: sorted_wrt_diff_iff)
  then show ?case using Cons by (cases i) auto
qed simp

lemma same_bucket: "hash_fn h = hash \<Longrightarrow> eqv lt x e \<Longrightarrow> bucket_idx h x = bucket_idx h e"
  by (simp add: bucket_idx_def hash_eqv)

text \<open>Searching one bucket finds what searching the whole table would.\<close>

lemma find_elem_spec:
  assumes "good h"
  shows "find_elem h (bucket_idx h e) e = Inr (abs_hash h e)"
proof -
  let ?xs = "buckets h ! bucket_idx h e"
  have b: "bucket_idx h e < length (buckets h)"
    using assms bucket_idx_less [of h e] by (simp add: good_def wf_hash_def placed_def is_power_of_2_def)
  have pd: "pairwise_diff lt (mset (elems h))" using assms by (rule good_diff)
  then have pb: "pairwise_diff lt (mset ?xs)" using pairwise_diff_bucket b by (simp add: elems_def)
  have sub: "x \<in> set ?xs \<longleftrightarrow> x \<in> set (elems h)" if "eqv lt x e" for x
    using placed_mem_bucket [of h x] same_bucket [OF _ that] assms b
    by (auto simp: good_def wf_hash_def in_elems_iff)
  have "lookup_in lt ?xs e = Some x \<longleftrightarrow> lookup_in lt (elems h) e = Some x" for x
    using sub lookup_in_iff [OF pd] lookup_in_iff [OF pb] by auto
  then have "lookup_in lt ?xs e = lookup_in lt (elems h) e" by (metis not_Some_eq)
  then show ?thesis using b assms by (simp add: find_elem_def get_bucket_def find_loop_eq abs_hash_def good_def)
qed

lemma find_bucket_spec: "good h \<Longrightarrow> find_bucket h e = Inr (bucket_idx h e)"
  by (simp add: good_def wf_hash_def placed_find_bucket)

lemma hash_find_spec: "good h \<Longrightarrow> hash_find h e = Inr (abs_hash h e)"
  by (simp add: hash_find_def find_bucket_spec find_elem_spec)

lemma rehash_good:
  assumes "good h"
  shows "\<exists>h'. rehash ok h = Inr h' \<and> good h' \<and> abs_hash h' = abs_hash h \<and> mset (elems h') = mset (elems h)"
proof -
  obtain h' where h': "rehash ok h = Inr h'" "wf_hash h'" "mset (elems h') = mset (elems h)"
    "hash_fn h' = hash_fn h" "less_fn h' = less_fn h"
    using rehash_spec [of h ok] assms by (auto simp: good_def)
  have "abs_hash h' = abs_hash h"
    using assms h'(3,5) lookup_in_mset [OF good_diff [OF assms] h'(3)]
    by (auto simp: abs_hash_def good_def)
  then show ?thesis using h' assms by (auto simp: good_def)
qed

lemma insert_elem_good:
  assumes "good h" and "\<forall>x\<in>set (elems h). \<not> eqv lt x e" and "length (elems h) + 1 < 2 ^ 32"
  shows "good (insert_elem h (bucket_idx h e) e)"
    and "mset (elems (insert_elem h (bucket_idx h e) e)) = add_mset e (mset (elems h))"
proof -
  let ?b = "bucket_idx h e" and ?h = "insert_elem h (bucket_idx h e) e"
  have pl: "placed h" "unat (elem_cnt h) = length (elems h)" using assms(1) by (auto simp: good_def wf_hash_def)
  have b: "?b < length (buckets h)"
    using pl bucket_idx_less [of h e] by (simp add: placed_def is_power_of_2_def)
  have same: "bucket_idx ?h = bucket_idx h" by (simp add: bucket_idx_def insert_elem_def fun_eq_iff)
  have "placed ?h" using pl b by (auto simp: placed_def same nth_list_update) (auto simp: insert_elem_def nth_list_update split: if_splits)
  moreover show m: "mset (elems ?h) = add_mset e (mset (elems h))"
    using b by (simp add: elems_def insert_elem_def concat_update_Cons)
  moreover have "unat (elem_cnt ?h) = Suc (length (elems h))"
    using assms(3) pl(2) unat_add_lem [of "elem_cnt h" 1] by (simp add: insert_elem_def)
  moreover have "pairwise_diff lt (mset (elems ?h))"
    using m assms(2) good_diff [OF assms(1)] by (auto simp: pairwise_diff_add eqv_sym)
  ultimately show "good ?h" using assms(1) by (auto simp: good_def wf_hash_alt insert_elem_def)
qed

lemma good_distinct: "good h \<Longrightarrow> distinct (elems h)"
proof -
  assume "good h"
  then have "sorted_wrt (\<lambda>a b. \<not> eqv lt a b) (elems h)" by (auto simp: good_def wf_hash_def)
  then have "sorted_wrt (\<noteq>) (elems h)"
    by (rule sorted_wrt_mono_rel [rotated]) (auto simp: eqv_def irrefl)
  then show "distinct (elems h)" by (simp add: distinct_conv_nth sorted_wrt_iff_nth_less) (metis nat_neq_iff)
qed

lemma remove_elem_good:
  assumes "good h" and "x \<in> set (elems h)"
  shows "good (remove_elem h x)" and "mset (elems (remove_elem h x)) = mset (elems h) - {#x#}"
proof -
  let ?h = "remove_elem h x"
  have pl: "placed h" "unat (elem_cnt h) = length (elems h)" using assms(1) by (auto simp: good_def wf_hash_def)
  have same: "bucket_idx ?h = bucket_idx h" by (simp add: bucket_idx_def remove_elem_def fun_eq_iff)
  have "placed ?h" using pl
    by (auto simp: placed_def same) (auto simp: remove_elem_def dest: set_remove1_subset [THEN subsetD])
  moreover show m: "mset (elems ?h) = mset (elems h) - {#x#}"
    using good_distinct [OF assms(1)] by (simp add: elems_def remove_elem_def mset_concat_remove1)
  moreover have "length (elems h) = Suc (size (mset (elems ?h)))"
    using assms(2) unfolding m by (metis in_multiset_in_set size_Suc_Diff1 size_mset)
  then have "unat (elem_cnt h) = Suc (size (mset (elems ?h)))" using pl(2) by simp
  then have "unat (elem_cnt h - 1) = size (mset (elems ?h))" by (subst unat_minus_one) auto
  then have "unat (elem_cnt ?h) = size (mset (elems ?h))" by (simp add: remove_elem_def)
  moreover have "pairwise_diff lt (mset (elems ?h))"
  proof -
    have "mset (elems h) = add_mset x (mset (elems ?h))" using assms(2) unfolding m by simp
    then show ?thesis using good_diff [OF assms(1)] by (simp add: pairwise_diff_add)
  qed
  ultimately show "good ?h" using assms(1) by (auto simp: good_def wf_hash_alt remove_elem_def)
qed

lemma abs_hash_iff: "good h \<Longrightarrow> abs_hash h e = Some x \<longleftrightarrow> x \<in> set (elems h) \<and> eqv lt x e"
  using lookup_in_iff [OF good_diff] by (auto simp: abs_hash_def good_def)

lemma abs_hash_None: "good h \<Longrightarrow> abs_hash h e = None \<longleftrightarrow> (\<forall>x\<in>set (elems h). \<not> eqv lt x e)"
  using lookup_in_None [of "elems h" e] by (auto simp: abs_hash_def good_def)

lemma abs_hash_add:
  assumes "good h" and "good h'" and "mset (elems h') = add_mset n (mset (elems h))"
  shows "abs_hash h' = (\<lambda>e. if eqv lt n e then Some n else abs_hash h e)"
proof
  fix e
  have set: "set (elems h') = insert n (set (elems h))" using arg_cong [OF assms(3), of set_mset] by simp
  have diff: "\<not> eqv lt n x" if "x \<in> set (elems h)" for x
    using good_diff [OF assms(2)] assms(3) that by (auto simp: pairwise_diff_add)
  have "abs_hash h' e = Some x \<longleftrightarrow> (if eqv lt n e then Some n else abs_hash h e) = Some x" for x
    using set diff eqv_trans [of n e x] eqv_sym [of lt x e]
    by (auto simp: abs_hash_iff [OF assms(1)] abs_hash_iff [OF assms(2)])
  then show "abs_hash h' e = (if eqv lt n e then Some n else abs_hash h e)" by (metis not_Some_eq)
qed

lemma abs_hash_remove:
  assumes "good h" and "x \<in> set (elems h)"
  shows "abs_hash (remove_elem h x) = (\<lambda>e. if eqv lt x e then None else abs_hash h e)"
proof
  fix e
  have "mset (elems h) = add_mset x (mset (elems (remove_elem h x)))"
    using remove_elem_good(2) [OF assms] assms(2) by simp
  from abs_hash_add [OF remove_elem_good(1) [OF assms] assms(1) this]
  have h: "abs_hash h e = (if eqv lt x e then Some x else abs_hash (remove_elem h x) e)" by simp
  have "abs_hash (remove_elem h x) e = None" if "eqv lt x e"
  proof -
    have "y \<in> set (elems (remove_elem h x)) \<Longrightarrow> \<not> eqv lt x y" for y
      using good_diff [OF assms(1)] remove_elem_good(2) [OF assms] assms(2)
      by (auto simp: pairwise_diff_def simp flip: set_mset_mset)
    then show ?thesis using eqv_trans [of x e] that eqv_sym [of lt _ e]
      by (auto simp: abs_hash_None [OF remove_elem_good(1) [OF assms]])
  qed
  then show "abs_hash (remove_elem h x) e = (if eqv lt x e then None else abs_hash h e)" using h by simp
qed

lemma hash_insert_spec:
  assumes "good h" and "length (elems h) + 1 < 2 ^ 32"
  shows "\<exists>h'. hash_insert ok h n = Inr (abs_hash h n, h') \<and> good h'
     \<and> abs_hash h' = (if abs_hash h n = None then (\<lambda>e. if eqv lt n e then Some n else abs_hash h e) else abs_hash h)
     \<and> length (elems h') = (if abs_hash h n = None then length (elems h) + 1 else length (elems h))"
proof -
  have found: "find_bucket h n = Inr (bucket_idx h n)" "find_elem h (bucket_idx h n) n = Inr (abs_hash h n)"
    using assms(1) by (simp_all add: find_bucket_spec find_elem_spec)
  show ?thesis
  proof (cases "abs_hash h n")
    case None
    let ?h = "insert_elem h (bucket_idx h n) n"
    have new: "\<forall>x\<in>set (elems h). \<not> eqv lt x n" using None assms(1) by (simp add: abs_hash_None)
    note g = insert_elem_good [OF assms(1) new assms(2)]
    obtain h' where h': "rehash ok ?h = Inr h'" "good h'" "abs_hash h' = abs_hash ?h" "mset (elems h') = mset (elems ?h)"
      using rehash_good [OF g(1)] by blast
    then have "length (elems h') = length (elems h) + 1" by (metis g(2) size_add_mset size_mset Suc_eq_plus1)
    then show ?thesis using None found h' abs_hash_add [OF assms(1) g] by (simp add: hash_insert_def Let_def)
  next
    case (Some x)
    obtain h' where h': "rehash ok h = Inr h'" "good h'" "abs_hash h' = abs_hash h" "mset (elems h') = mset (elems h)"
      using rehash_good [OF assms(1)] by blast
    then have "length (elems h') = length (elems h)" by (metis size_mset)
    then show ?thesis using Some found h' by (simp add: hash_insert_def Let_def)
  qed
qed

lemma hash_delete_spec:
  assumes "good h"
  shows "\<exists>h'. hash_delete ok h n = Inr (abs_hash h n, h') \<and> good h'
     \<and> abs_hash h' = (\<lambda>e. if eqv lt n e then None else abs_hash h e)
     \<and> length (elems h') = (if abs_hash h n = None then length (elems h) else length (elems h) - 1)"
proof -
  have found: "find_bucket h n = Inr (bucket_idx h n)" "find_elem h (bucket_idx h n) n = Inr (abs_hash h n)"
    using assms(1) by (simp_all add: find_bucket_spec find_elem_spec)
  show ?thesis
  proof (cases "abs_hash h n")
    case None
    have "abs_hash h e = None" if "eqv lt n e" for e
      using None that eqv_trans [of _ e n] eqv_sym [of lt n e] by (auto simp: abs_hash_None [OF assms])
    then have "abs_hash h = (\<lambda>e. if eqv lt n e then None else abs_hash h e)" by auto
    then show ?thesis using None found assms by (simp add: hash_delete_def)
  next
    case (Some x)
    then have x: "x \<in> set (elems h)" "eqv lt x n" using assms by (auto simp: abs_hash_iff)
    note g = remove_elem_good [OF assms x(1)]
    obtain h' where h': "rehash ok (remove_elem h x) = Inr h'" "good h'" "abs_hash h' = abs_hash (remove_elem h x)"
        "mset (elems h') = mset (elems (remove_elem h x))"
      using rehash_good [OF g(1)] by blast
    have "eqv lt x e \<longleftrightarrow> eqv lt n e" for e
      using x(2) eqv_trans [of x n e] eqv_trans [of n x e] eqv_sym [of lt n x] by blast
    moreover have "length (elems h') = length (elems h) - 1"
      using h'(4) g(2) x(1) by (metis size_Diff_singleton set_mset_mset size_mset)
    ultimately show ?thesis using Some found h' abs_hash_remove [OF assms x(1)] by (simp add: hash_delete_def)
  qed
qed

lemma hash_replace_spec:
  assumes "good h" and "length (elems h) + 1 < 2 ^ 32"
  shows "\<exists>h'. hash_replace ok h n = Inr (abs_hash h n, h') \<and> good h'
     \<and> abs_hash h' = (\<lambda>e. if eqv lt n e then Some n else abs_hash h e)"
proof -
  have found: "find_bucket h n = Inr (bucket_idx h n)" "find_elem h (bucket_idx h n) n = Inr (abs_hash h n)"
    using assms(1) by (simp_all add: find_bucket_spec find_elem_spec)
  define h1 where "h1 = (case abs_hash h n of None \<Rightarrow> h | Some x \<Rightarrow> remove_elem h x)"
  have h1: "good h1 \<and> length (elems h1) \<le> length (elems h) \<and> bucket_idx h1 n = bucket_idx h n
     \<and> abs_hash h1 = (\<lambda>e. if eqv lt n e then None else abs_hash h e)"
  proof (cases "abs_hash h n")
    case None
    have "abs_hash h e = None" if "eqv lt n e" for e
      using None that eqv_trans [of _ e n] eqv_sym [of lt n e] by (auto simp: abs_hash_None [OF assms(1)])
    then show ?thesis using None assms by (auto simp: h1_def)
  next
    case (Some x)
    then have x: "x \<in> set (elems h)" "eqv lt x n" using assms by (auto simp: abs_hash_iff)
    have "length (elems (remove_elem h x)) \<le> length (elems h)"
      using remove_elem_good(2) [OF assms(1) x(1)] x(1) by (metis diff_le_self size_Diff_singleton set_mset_mset size_mset)
    moreover have "eqv lt x e \<longleftrightarrow> eqv lt n e" for e
      using x(2) eqv_trans [of x n e] eqv_trans [of n x e] eqv_sym [of lt n x] by blast
    moreover have "bucket_idx (remove_elem h x) n = bucket_idx h n" by (simp add: bucket_idx_def remove_elem_def)
    ultimately show ?thesis
      using Some remove_elem_good(1) [OF assms(1) x(1)] abs_hash_remove [OF assms(1) x(1)] by (simp add: h1_def)
  qed
  have "abs_hash h1 n = None" using h1 irrefl by (auto simp: eqv_def)
  then have new: "\<forall>x\<in>set (elems h1). \<not> eqv lt x n" using h1 abs_hash_None [of h1 n] by blast
  have small: "length (elems h1) + 1 < 2 ^ 32" using h1 assms(2) by simp
  note g = insert_elem_good [OF _ new small]
  obtain h' where h': "rehash ok (insert_elem h1 (bucket_idx h1 n) n) = Inr h'" "good h'"
      "abs_hash h' = abs_hash (insert_elem h1 (bucket_idx h1 n) n)"
    using rehash_good [OF g(1)] h1 by blast
  have "abs_hash h' = (\<lambda>e. if eqv lt n e then Some n else abs_hash h e)"
    using h' abs_hash_add [OF _ g] h1 by auto
  then show ?thesis using found h' h1 by (simp add: hash_replace_def Let_def flip: h1_def)
qed

end

section \<open>Iteration\<close>

text \<open>The elements an iterator has still to deliver.\<close>

definition after :: "'e list \<Rightarrow> 'e \<Rightarrow> 'e list" where
  "after xs e = tl (dropWhile (\<lambda>x. x \<noteq> e) xs)"

definition rest_of :: "'e hash \<Rightarrow> 'e hash_iterator \<Rightarrow> 'e list" where
  "rest_of h i = (case it_elem i of
       At_Null \<Rightarrow> []
     | At_Head \<Rightarrow> concat (drop (it_bucket i) (buckets h))
     | At_Elem e \<Rightarrow> after (buckets h ! it_bucket i) e @ concat (drop (Suc (it_bucket i)) (buckets h)))"

definition wf_iter :: "'e hash \<Rightarrow> 'e hash_iterator \<Rightarrow> bool" where
  "wf_iter h i \<longleftrightarrow> it_bucket i < length (buckets h) \<and> it_elem i \<noteq> At_Null"

lemma elem_after_eq: "elem_after xs e = first_elem (after xs e)"
  by (induction xs) (auto simp: after_def first_elem_def split: list.splits)

lemma after_hd: "after (x # xs) x = xs"
  by (simp add: after_def)

lemma after_tail:
  assumes "distinct xs" and "after xs e = y # ys"
  shows "after xs y = ys"
proof -
  have "dropWhile (\<lambda>x. x \<noteq> e) xs = [] \<Longrightarrow> False" using assms(2) by (simp only: after_def list.sel list.distinct)
  then have "e \<in> set xs" by (auto simp: dropWhile_eq_Nil_conv)
  then obtain as bs where ab: "xs = as @ e # bs" "e \<notin> set as" by (meson split_list_first)
  then have "dropWhile (\<lambda>x. x \<noteq> e) xs = e # bs" by (subst ab, subst dropWhile_append2) auto
  then have bs: "bs = y # ys" using assms(2) by (simp add: after_def)
  then have "dropWhile (\<lambda>x. x \<noteq> y) xs = y # ys" using ab assms(1) by (auto simp: dropWhile_append)
  then show ?thesis by (simp add: after_def)
qed

text \<open>The loop of \<^verbatim>\<open>hash_next\<close> skips the empty buckets.\<close>

lemma next_loop_None:
  assumes "b < length (buckets h)"
  shows "(concat (drop (Suc b) (buckets h)) = [] \<and> next_loop h b None = (length (buckets h), At_Null))
     \<or> (\<exists>b' e es. b < b' \<and> b' < length (buckets h) \<and> buckets h ! b' = e # es
          \<and> next_loop h b None = (b', At_Elem e)
          \<and> concat (drop (Suc b) (buckets h)) = e # es @ concat (drop (Suc b') (buckets h)))"
  using assms
proof (induction "length (buckets h) - b" arbitrary: b)
  case (Suc n)
  show ?case
  proof (cases "Suc b < length (buckets h)")
    case False
    then have "Suc b = length (buckets h)" using Suc.prems by simp
    then show ?thesis by simp
  next
    case True
    then have d: "drop (Suc b) (buckets h) = buckets h ! Suc b # drop (Suc (Suc b)) (buckets h)"
      by (simp add: Cons_nth_drop_Suc)
    show ?thesis
    proof (cases "buckets h ! Suc b")
      case Nil
      have "next_loop h b None = next_loop h (Suc b) None" using True Nil by (simp add: first_elem_def)
      then show ?thesis using Suc(1) [of "Suc b"] Suc(2) True Nil d by fastforce
    next
      case (Cons e es)
      then have "next_loop h b None = (Suc b, At_Elem e)" using True by (simp add: first_elem_def)
      then show ?thesis using Cons True d by auto
    qed
  qed
qed simp

lemma hash_next_spec:
  assumes "wf_iter h i" and "distinct (elems h)"
  shows "\<exists>i'. hash_next h i = Inr (first_elem (rest_of h i), i')
     \<and> (rest_of h i \<noteq> [] \<longrightarrow> wf_iter h i' \<and> rest_of h i' = tl (rest_of h i))"
proof -
  let ?b = "it_bucket i"
  have b: "?b < length (buckets h)" using assms(1) by (simp add: wf_iter_def)
  define ys where "ys = (case it_elem i of At_Elem e \<Rightarrow> after (buckets h ! ?b) e | _ \<Rightarrow> buckets h ! ?b)"
  have rest: "rest_of h i = ys @ concat (drop (Suc ?b) (buckets h))"
    using assms(1) b by (auto simp: rest_of_def wf_iter_def ys_def Cons_nth_drop_Suc [symmetric] split: position.splits)
  have nxt: "hash_next h i = (case next_loop h ?b (first_elem ys) of (b, p) \<Rightarrow>
      Inr (case p of At_Elem e \<Rightarrow> Some e | _ \<Rightarrow> None, \<lparr>it_bucket = b, it_elem = p\<rparr>))"
    using assms(1) b
    by (cases "it_elem i") (auto simp: hash_next_def get_bucket_def wf_iter_def ys_def elem_after_eq)
  show ?thesis
  proof (cases ys)
    case (Cons y zs)
    have "distinct (buckets h ! ?b)" using assms(2) b by (auto simp: elems_def distinct_concat_iff)
    then have "after (buckets h ! ?b) y = zs"
      using Cons assms(1) after_tail [of "buckets h ! ?b" _ y zs]
      by (cases "it_elem i") (auto simp: ys_def after_hd wf_iter_def)
    then show ?thesis using Cons rest nxt b by (simp add: first_elem_def wf_iter_def rest_of_def)
  next
    case Nil
    then have o: "first_elem ys = None" and r: "rest_of h i = concat (drop (Suc ?b) (buckets h))"
      using rest by (simp_all add: first_elem_def)
    from next_loop_None [OF b] show ?thesis
    proof (elim disjE exE conjE)
      assume "concat (drop (Suc ?b) (buckets h)) = []" "next_loop h ?b None = (length (buckets h), At_Null)"
      moreover from this have "rest_of h i = []" using r by (simp only:)
      ultimately show ?thesis using nxt o by (simp add: first_elem_def)
    next
      fix b' e es
      assume "b' < length (buckets h)" "buckets h ! b' = e # es" "next_loop h ?b None = (b', At_Elem e)"
        "concat (drop (Suc ?b) (buckets h)) = e # es @ concat (drop (Suc b') (buckets h))"
      then show ?thesis using nxt o r by (simp add: first_elem_def wf_iter_def rest_of_def after_hd)
    qed
  qed
qed

fun iterate :: "nat \<Rightarrow> 'e hash \<Rightarrow> 'e hash_iterator \<Rightarrow> 'e list res" where
  "iterate 0 h i = Inr []"
| "iterate (Suc n) h i =
     bind_res (hash_next h i) (\<lambda>(e, i).
     case e of None \<Rightarrow> Inr [] | Some x \<Rightarrow> bind_res (iterate n h i) (\<lambda>xs. Inr (x # xs)))"

lemma iterate_rest:
  assumes "wf_iter h i" and "distinct (elems h)" and "length (rest_of h i) < n"
  shows "iterate n h i = Inr (rest_of h i)"
  using assms
proof (induction n arbitrary: i)
  case (Suc n)
  obtain i' where i': "hash_next h i = Inr (first_elem (rest_of h i), i')"
      "rest_of h i \<noteq> [] \<longrightarrow> wf_iter h i' \<and> rest_of h i' = tl (rest_of h i)"
    using hash_next_spec Suc.prems by blast
  show ?case using Suc i' by (cases "rest_of h i") (auto simp: first_elem_def)
qed simp

lemma hash_apply_eq: "hash_apply h action s = fold action (elems h) s"
proof -
  have "fold (\<lambda>bucket. fold action bucket) bs s = fold action (concat bs) s" for bs
    by (induction bs arbitrary: s) simp_all
  then show ?thesis by (simp add: hash_apply_def elems_def)
qed

section \<open>Properties\<close>

text \<open>
  C6. The hash table implements a map from keys to elements. For a strict weak order and a hash
  function that agrees on equivalent elements, on a well-formed table and for either outcome of
  the allocation in \<^verbatim>\<open>rehash\<close>, insertion, replacement and deletion return the
  element stored before under the key, keep the table well formed, and change what
  \<^verbatim>\<open>hash_find\<close> returns for that key only.
\<close>

theorem hash_table_refines_map:
  assumes "\<And>a b. less_fn h a b \<Longrightarrow> \<not> less_fn h b a"
    and "\<And>a b c. \<not> less_fn h b a \<Longrightarrow> \<not> less_fn h c b \<Longrightarrow> \<not> less_fn h c a"
    and "\<And>a b. eqv (less_fn h) a b \<Longrightarrow> hash_fn h a = hash_fn h b"
    and "wf_hash h" and "length (elems h) + 1 < 2 ^ 32"
  shows "\<exists>m. (\<forall>e. hash_find h e = Inr (m e))
     \<and> (\<exists>h'. hash_insert ok h n = Inr (m n, h') \<and> wf_hash h' \<and> (\<forall>e. hash_find h' e
          = Inr (if m n = None \<and> eqv (less_fn h) n e then Some n else m e)))
     \<and> (\<exists>h'. hash_replace ok h n = Inr (m n, h') \<and> wf_hash h' \<and> (\<forall>e. hash_find h' e
          = Inr (if eqv (less_fn h) n e then Some n else m e)))
     \<and> (\<exists>h'. hash_delete ok h n = Inr (m n, h') \<and> wf_hash h' \<and> (\<forall>e. hash_find h' e
          = Inr (if eqv (less_fn h) n e then None else m e)))"
proof -
  have lo: "list_order (less_fn h)" using assms(1,2) by (rule list_order.intro)
  then have hc: "hash_client (less_fn h) (hash_fn h)"
    using assms(3) by (intro hash_client.intro hash_client_axioms.intro)
  note find = hash_client.hash_find_spec [OF hc]
  have g: "hash_client.good (less_fn h) (hash_fn h) h" using assms(4) by (simp add: hash_client.good_def [OF hc])
  have wf: "hash_client.good (less_fn h) (hash_fn h) h' \<Longrightarrow> wf_hash h'" for h'
    by (simp add: hash_client.good_def [OF hc])
  show ?thesis
    using hash_client.hash_insert_spec [OF hc g assms(5), of ok n]
      hash_client.hash_replace_spec [OF hc g assms(5), of ok n]
      hash_client.hash_delete_spec [OF hc g, of ok n]
    by (intro exI [of _ "abs_hash h"] conjI; force simp: find [OF g] find wf)
qed

definition demo_hash :: "nat hash" where
  "demo_hash = \<lparr>elem_cnt = 2, bucket_cnt = 4, buckets = [[8], [], [6], []],
                hash_fn = of_nat, less_fn = (<)\<rparr>"

lemma wf_demo_hash: "wf_hash demo_hash"
proof -
  have "is_power_of_2 4" by (simp add: is_power_of_2_def turn_off_least_1bit_def)
  moreover have "bucket_idx demo_hash 8 = 0" "bucket_idx demo_hash 6 = 2"
    by (simp_all add: bucket_idx_def demo_hash_def)
  moreover have "\<forall>i<4. \<forall>e\<in>set (buckets demo_hash ! i). bucket_idx demo_hash e = i"
  proof (intro allI impI)
    fix i :: nat
    assume "i < 4"
    then consider "i = 0" | "i = 1" | "i = 2" | "i = 3" by linarith
    then show "\<forall>e\<in>set (buckets demo_hash ! i). bucket_idx demo_hash e = i"
      using calculation by cases (simp_all add: demo_hash_def)
  qed
  ultimately have "placed demo_hash" by (simp add: placed_def demo_hash_def)
  then show ?thesis by (simp add: wf_hash_def elems_def eqv_def) (simp add: demo_hash_def)
qed

theorem hash_table_refines_map_witness:
  "\<exists>m h'. hash_insert True demo_hash 10 = Inr (m, h') \<and> wf_hash h'
     \<and> hash_find h' 10 = Inr (if m = None then Some 10 else m)"
proof -
  have "less_fn demo_hash = (<)" "hash_fn demo_hash = of_nat" "length (elems demo_hash) = 2"
    by (simp_all add: demo_hash_def elems_def)
  with hash_table_refines_map [of demo_hash True 10] wf_demo_hash show ?thesis
    by (fastforce simp: eqv_def)
qed

text \<open>
  C36. Iterating with \<^verbatim>\<open>hash_first\<close> and \<^verbatim>\<open>hash_next\<close> visits every
  element of a well-formed table exactly once and then ends, as \<^verbatim>\<open>hash_apply\<close> does.
\<close>

theorem hash_iteration_complete:
  assumes "\<And>a. \<not> less_fn h a a" and "wf_hash h" and "length (elems h) < n"
  shows "iterate n h hash_first = Inr (elems h) \<and> distinct (elems h)
     \<and> hash_apply h action s = fold action (elems h) s"
proof -
  have "sorted_wrt (\<lambda>a b. \<not> eqv (less_fn h) a b) (elems h)" using assms(2) by (simp add: wf_hash_def)
  then have "sorted_wrt (\<noteq>) (elems h)"
    by (rule sorted_wrt_mono_rel [rotated]) (auto simp: eqv_def assms(1))
  then have d: "distinct (elems h)" by (simp add: distinct_conv_nth sorted_wrt_iff_nth_less) (metis nat_neq_iff)
  have "length (buckets h) \<noteq> 0" using assms(2) by (simp add: wf_hash_def placed_def is_power_of_2_def unat_eq_zero)
  then have "wf_iter h hash_first" "rest_of h hash_first = elems h"
    by (simp_all add: wf_iter_def hash_first_def rest_of_def elems_def)
  with iterate_rest [OF this(1) d] assms(3) d show ?thesis by (simp add: hash_apply_eq)
qed

theorem hash_iteration_complete_witness:
  "iterate 3 demo_hash hash_first = Inr [8, 6] \<and> hash_apply demo_hash (#) [] = [6, 8]"
proof -
  have "\<not> less_fn demo_hash a a" and "elems demo_hash = [8, 6]" for a
    by (simp_all add: demo_hash_def elems_def)
  with hash_iteration_complete [of demo_hash 3 "(#)" "[]"] wf_demo_hash show ?thesis by simp
qed

end
