(* ===== verification/Kernel_State.thy ===== *)
theory Kernel_State
  imports List_Order
begin

text \<open>
  The state shared by threads/thread.c, threads/synch.c, threads/interrupt.c and devices/timer.c
  (project 1), one field per global variable and one record per C structure.

  Threads, semaphores, locks and condition variables are found by address. A list of the C code
  is the list of the objects linked into it; \<open>insert_ord\<close> and \<open>stable_sort\<close> are what
  \<^verbatim>\<open>list_insert_ordered\<close> and \<^verbatim>\<open>list_sort\<close> do to it, as the theories of
  the list component show. A thread's \<^verbatim>\<open>elem\<close> member can be in one list at a time only;
  that it is never in two is an invariant proved of the steps of the kernel.

  A thread that gives up the processor in the middle of a routine finishes the routine when it
  runs again. What it has left to do is on its kernel stack; \<open>frames\<close> models that stack as
  the list of the routines' remaining parts, innermost first.
\<close>

section \<open>Data\<close>

datatype thread_status = THREAD_RUNNING | THREAD_READY | THREAD_BLOCKED | THREAD_DYING

datatype intr_level = INTR_OFF | INTR_ON

definition PRI_MIN :: int where "PRI_MIN = 0"
definition PRI_DEFAULT :: int where "PRI_DEFAULT = 31"
definition PRI_MAX :: int where "PRI_MAX = 63"
definition THREAD_MAGIC :: "32 word" where "THREAD_MAGIC = 0xcd6abf4b"
definition TIME_SLICE :: "32 word" where "TIME_SLICE = 4"

record thread =
  tid :: int
  status :: thread_status
  thread_nm :: string
  stack :: nat
  priority :: int
  ticks_wake :: int
  base_priority :: int
  locks :: "addr list"
  lock_waiting :: addr
  nice :: int
  recent_cpu :: int
  magic :: "32 word"

record semaphore =
  sema_val :: "32 word"
  waiters :: "addr list"

record lock =
  holder :: addr
  max_priority :: int

text \<open>
  Addresses of embedded semaphores: behind the \<^verbatim>\<open>holder\<close> pointer in a
  \<^verbatim>\<open>struct lock\<close>, behind the list element in a \<^verbatim>\<open>struct semaphore_elem\<close>.
\<close>

definition lock_sema :: "addr \<Rightarrow> addr" where
  "lock_sema l = l + 4"

definition elem_sema :: "addr \<Rightarrow> addr" where
  "elem_sema w = w + 8"

text \<open>The unfinished parts of routines: what is executed when control returns to the thread.\<close>

datatype frame =
    F_set_level intr_level
  | F_sema_down addr intr_level
  | F_lock_acquire addr
  | F_cond_wait_down addr addr
  | F_cond_wait addr
  | F_cond_broadcast addr addr
  | F_allocate_tid addr
  | F_thread_create addr int
  | F_thread_start addr

record kernel =
  thr :: "addr \<Rightarrow> thread"
  semas :: "addr \<Rightarrow> semaphore"
  lock_at :: "addr \<Rightarrow> lock"
  conds :: "addr \<Rightarrow> addr list"
  frames :: "addr \<Rightarrow> frame list"
  ready_list :: "addr list"
  all_list :: "addr list"
  idle_thread :: addr
  initial_thread :: addr
  current :: addr
  tid_lock :: addr
  next_tid :: int
  idle_ticks :: int
  kernel_ticks :: int
  thread_ticks :: "32 word"
  thread_mlfqs :: bool
  load_avg :: int
  ticks :: int
  waiting_threads :: "addr list"
  level :: intr_level
  in_external_intr :: bool
  yield_on_return :: bool
  word_below :: "addr \<Rightarrow> int"

section \<open>Access to the objects\<close>

definition set_thr :: "addr \<Rightarrow> (thread \<Rightarrow> thread) \<Rightarrow> kernel \<Rightarrow> kernel" where
  "set_thr t f k = k\<lparr>thr := (thr k)(t := f (thr k t))\<rparr>"

definition set_sema :: "addr \<Rightarrow> (semaphore \<Rightarrow> semaphore) \<Rightarrow> kernel \<Rightarrow> kernel" where
  "set_sema s f k = k\<lparr>semas := (semas k)(s := f (semas k s))\<rparr>"

definition set_lock :: "addr \<Rightarrow> (lock \<Rightarrow> lock) \<Rightarrow> kernel \<Rightarrow> kernel" where
  "set_lock l f k = k\<lparr>lock_at := (lock_at k)(l := f (lock_at k l))\<rparr>"

text \<open>What remains to be done in the running thread is put on its stack.\<close>

definition push_frame :: "frame \<Rightarrow> kernel \<Rightarrow> kernel" where
  "push_frame f k = k\<lparr>frames := (frames k)(current k := f # frames k (current k))\<rparr>"

text \<open>\<^verbatim>\<open>is_thread\<close>.\<close>

definition is_thread :: "kernel \<Rightarrow> addr \<Rightarrow> bool" where
  "is_thread k t \<longleftrightarrow> t \<noteq> NULL \<and> magic (thr k t) = THREAD_MAGIC"

section \<open>Comparison functions\<close>

definition thread_cmp_priority :: "kernel \<Rightarrow> addr \<Rightarrow> addr \<Rightarrow> bool" where
  "thread_cmp_priority k a b \<longleftrightarrow> priority (thr k a) > priority (thr k b)"

definition lock_cmp_priority :: "kernel \<Rightarrow> addr \<Rightarrow> addr \<Rightarrow> bool" where
  "lock_cmp_priority k a b \<longleftrightarrow> max_priority (lock_at k a) > max_priority (lock_at k b)"

definition timer_cmp_waking_time :: "kernel \<Rightarrow> addr \<Rightarrow> addr \<Rightarrow> bool" where
  "timer_cmp_waking_time k a b \<longleftrightarrow> ticks_wake (thr k a) < ticks_wake (thr k b)"

text \<open>
  \<^verbatim>\<open>cond_sema_cmp_priority\<close> compares the priorities of the first waiters of two
  semaphores; its \<^verbatim>\<open>list_front\<close> calls assert that there are some.
\<close>

definition cond_sema_cmp_priority :: "kernel \<Rightarrow> addr \<Rightarrow> addr \<Rightarrow> bool" where
  "cond_sema_cmp_priority k a b \<longleftrightarrow>
     priority (thr k (hd (waiters (semas k (elem_sema a))))) > priority (thr k (hd (waiters (semas k (elem_sema b)))))"

text \<open>
  \<^verbatim>\<open>init_thread\<close> links \<^verbatim>\<open>allelem\<close> into the list of all threads with
  \<^verbatim>\<open>thread_cmp_priority\<close>, which takes it for \<^verbatim>\<open>elem\<close> and so reads a word that
  lies below the thread's page: \<open>word_below\<close>.
\<close>

definition allelem_cmp :: "kernel \<Rightarrow> addr \<Rightarrow> addr \<Rightarrow> bool" where
  "allelem_cmp k a b \<longleftrightarrow> word_below k a > word_below k b"

interpretation thread_prio: list_order "thread_cmp_priority k" for k
  unfolding thread_cmp_priority_def by (rule list_order_key_desc)

interpretation lock_prio: list_order "lock_cmp_priority k" for k
  unfolding lock_cmp_priority_def by (rule list_order_key_desc)

interpretation wake_order: list_order "timer_cmp_waking_time k" for k
  unfolding timer_cmp_waking_time_def by (rule list_order_key)

interpretation cond_prio: list_order "cond_sema_cmp_priority k" for k
  unfolding cond_sema_cmp_priority_def by (rule list_order_key_desc)

named_theorems kdefs \<open>definitions of the state updates\<close>

declare set_thr_def [kdefs] set_sema_def [kdefs] set_lock_def [kdefs] push_frame_def [kdefs]

section \<open>Interrupts\<close>

definition intr_disable :: "kernel \<Rightarrow> intr_level \<times> kernel" where
  "intr_disable k = (level k, k\<lparr>level := INTR_OFF\<rparr>)"

definition intr_enable :: "kernel \<Rightarrow> (intr_level \<times> kernel) res" where
  "intr_enable k =
     bind_res (assert_res (\<not> in_external_intr k)) (\<lambda>_. Inr (level k, k\<lparr>level := INTR_ON\<rparr>))"

definition intr_set_level :: "intr_level \<Rightarrow> kernel \<Rightarrow> (intr_level \<times> kernel) res" where
  "intr_set_level l k = (if l = INTR_ON then intr_enable k else Inr (intr_disable k))"

definition intr_context :: "kernel \<Rightarrow> bool" where
  "intr_context k = in_external_intr k"

definition intr_yield_on_return :: "kernel \<Rightarrow> kernel res" where
  "intr_yield_on_return k =
     bind_res (assert_res (intr_context k)) (\<lambda>_. Inr (k\<lparr>yield_on_return := True\<rparr>))"

end
