(* ===== verification/Fixed_Point.thy ===== *)
theory Fixed_Point
  imports Prelude
begin

text \<open>
  The 17.14 fixed-point arithmetic of threads/fixed-point.h. The macros compute on C integers
  with truncating division; the lemmas bound the results, so that the scheduler's use of them
  stays within the range of the C types.
\<close>

definition fp_q :: nat where "fp_q = 14"

definition fp_f :: int where "fp_f = 2 ^ fp_q"

definition FP_CONVERT_TO_FP :: "int \<Rightarrow> int" where
  "FP_CONVERT_TO_FP n = n * fp_f"

definition FP_CONVERT_TO_INT_ZERO :: "int \<Rightarrow> int" where
  "FP_CONVERT_TO_INT_ZERO x = cdiv x fp_f"

definition FP_CONVERT_TO_INT_NEAREST :: "int \<Rightarrow> int" where
  "FP_CONVERT_TO_INT_NEAREST x =
     (if x \<ge> 0 then cdiv (x + cdiv fp_f 2) fp_f else cdiv (x - cdiv fp_f 2) fp_f)"

definition FP_ADD :: "int \<Rightarrow> int \<Rightarrow> int" where
  "FP_ADD x y = x + y"

definition FP_SUB :: "int \<Rightarrow> int \<Rightarrow> int" where
  "FP_SUB x y = x - y"

definition FP_FP_ADD_INT :: "int \<Rightarrow> int \<Rightarrow> int" where
  "FP_FP_ADD_INT x n = x + n * fp_f"

definition FP_FP_SUB_INT :: "int \<Rightarrow> int \<Rightarrow> int" where
  "FP_FP_SUB_INT x n = x - n * fp_f"

definition FP_MULT :: "int \<Rightarrow> int \<Rightarrow> int" where
  "FP_MULT x y = cdiv (x * y) fp_f"

definition FP_FP_MULT_INT :: "int \<Rightarrow> int \<Rightarrow> int" where
  "FP_FP_MULT_INT x n = x * n"

definition FP_DIV :: "int \<Rightarrow> int \<Rightarrow> int" where
  "FP_DIV x y = cdiv (x * fp_f) y"

definition FP_FP_DIV_INT :: "int \<Rightarrow> int \<Rightarrow> int" where
  "FP_FP_DIV_INT x n = cdiv x n"

lemmas fp_defs = FP_CONVERT_TO_FP_def FP_CONVERT_TO_INT_ZERO_def FP_CONVERT_TO_INT_NEAREST_def
  FP_ADD_def FP_SUB_def FP_FP_ADD_INT_def FP_FP_SUB_INT_def FP_MULT_def FP_FP_MULT_INT_def
  FP_DIV_def FP_FP_DIV_INT_def

lemma fp_f_pos [simp]: "0 < fp_f" and fp_f_value: "fp_f = 16384"
  by (simp_all add: fp_f_def fp_q_def)

lemma cdiv_neg: "a < 0 \<Longrightarrow> 0 < b \<Longrightarrow> cdiv a b = - ((- a) div b)"
  by (simp add: cdiv_def sgn_if)

text \<open>Rounding picks an integer at distance at most one half.\<close>

lemma nearest_error:
  "2 * \<bar>FP_CONVERT_TO_INT_NEAREST x * fp_f - x\<bar> \<le> fp_f"
proof (cases "x \<ge> 0")
  case True
  have "FP_CONVERT_TO_INT_NEAREST x = (x + 8192) div 16384"
    using True by (simp add: FP_CONVERT_TO_INT_NEAREST_def fp_f_value cdiv_nonneg)
  moreover have "(x + 8192) div 16384 * 16384 + (x + 8192) mod 16384 = x + 8192" by simp
  moreover have "0 \<le> (x + 8192) mod 16384" "(x + 8192) mod 16384 < 16384" by simp_all
  ultimately show ?thesis unfolding fp_f_value abs_if by (auto simp: algebra_simps)
next
  case False
  have "FP_CONVERT_TO_INT_NEAREST x = - ((8192 - x) div 16384)"
    using False by (simp add: FP_CONVERT_TO_INT_NEAREST_def fp_f_value cdiv_nonneg cdiv_neg)
  moreover have "(8192 - x) div 16384 * 16384 + (8192 - x) mod 16384 = 8192 - x" by simp
  moreover have "0 \<le> (8192 - x) mod 16384" "(8192 - x) mod 16384 < 16384" by simp_all
  ultimately show ?thesis unfolding fp_f_value abs_if by (auto simp: algebra_simps)
qed

lemma nearest_of_int: "FP_CONVERT_TO_INT_NEAREST (FP_CONVERT_TO_FP n) = n"
  using nearest_error [of "FP_CONVERT_TO_FP n"] by (simp add: FP_CONVERT_TO_FP_def fp_f_value)

lemma zero_of_int: "FP_CONVERT_TO_INT_ZERO (FP_CONVERT_TO_FP n) = n"
proof (cases "n \<ge> 0")
  case True
  then show ?thesis by (simp add: fp_defs fp_f_value cdiv_nonneg)
next
  case False
  then show ?thesis by (simp add: fp_defs fp_f_value cdiv_neg)
qed

lemma cdiv_mono: "a \<le> b \<Longrightarrow> 0 < c \<Longrightarrow> cdiv a c \<le> cdiv b c"
proof -
  assume ab: "a \<le> b" and c: "0 < c"
  consider "0 \<le> a" | "a < 0" "0 \<le> b" | "b < 0" using ab by linarith
  then show "cdiv a c \<le> cdiv b c"
  proof cases
    case 1
    then show ?thesis using ab c by (simp add: cdiv_nonneg zdiv_mono1)
  next
    case 2
    have "0 \<le> (- a) div c" "0 \<le> b div c" using 2 c by (simp_all add: pos_imp_zdiv_nonneg_iff)
    then show ?thesis using 2 c by (simp add: cdiv_nonneg cdiv_neg)
  next
    case 3
    then show ?thesis using ab c by (simp add: cdiv_neg zdiv_mono1)
  qed
qed

end
