(* ===== verification/Threads.thy ===== *)
theory Threads
  imports Kernel_State Fixed_Point
begin

text \<open>
  The scheduler of threads/thread.c (project 1): switching between threads, blocking, waking and
  yielding, and the multi-level feedback queue computations. Creation and exit of threads that
  need the tid lock are in the theory of thread creation, donation in the theory of locks.
\<close>

section \<open>The running thread\<close>

text \<open>
  \<^verbatim>\<open>running_thread\<close> derives the thread from the stack pointer; the model keeps it in
  \<open>current\<close>.
\<close>

definition running_thread :: "kernel \<Rightarrow> addr" where
  "running_thread k = current k"

definition thread_current :: "kernel \<Rightarrow> addr res" where
  "thread_current k =
     (let t = running_thread k in
      bind_res (assert_res (is_thread k t)) (\<lambda>_.
      bind_res (assert_res (status (thr k t) = THREAD_RUNNING)) (\<lambda>_. Inr t)))"

definition thread_tid :: "kernel \<Rightarrow> int res" where
  "thread_tid k = bind_res (thread_current k) (\<lambda>t. Inr (tid (thr k t)))"

definition thread_name :: "kernel \<Rightarrow> string res" where
  "thread_name k = bind_res (thread_current k) (\<lambda>t. Inr (thread_nm (thr k t)))"

definition thread_get_priority :: "kernel \<Rightarrow> int res" where
  "thread_get_priority k = bind_res (thread_current k) (\<lambda>t. Inr (priority (thr k t)))"

definition thread_get_nice :: "kernel \<Rightarrow> int res" where
  "thread_get_nice k = bind_res (thread_current k) (\<lambda>t. Inr (nice (thr k t)))"

section \<open>Switching\<close>

definition next_thread_to_run :: "kernel \<Rightarrow> addr \<times> kernel" where
  "next_thread_to_run k =
     (case ready_list k of
        [] \<Rightarrow> (idle_thread k, k)
      | t # ts \<Rightarrow> (t, k\<lparr>ready_list := ts\<rparr>))"

text \<open>\<^verbatim>\<open>palloc_free_page\<close> overwrites the page with the byte 0xcc.\<close>

definition free_thread_page :: "addr \<Rightarrow> kernel \<Rightarrow> kernel" where
  "free_thread_page t k = set_thr t (\<lambda>r. r\<lparr>magic := 0xcccccccc\<rparr>) k"

definition thread_schedule_tail :: "addr \<Rightarrow> kernel \<Rightarrow> kernel res" where
  "thread_schedule_tail prev k =
     (let cur = running_thread k in
      bind_res (assert_res (level k = INTR_OFF)) (\<lambda>_.
      let k = set_thr cur (\<lambda>r. r\<lparr>status := THREAD_RUNNING\<rparr>) k;
          k = k\<lparr>thread_ticks := 0\<rparr> in
      if prev \<noteq> NULL \<and> status (thr k prev) = THREAD_DYING \<and> prev \<noteq> initial_thread k
      then bind_res (assert_res (prev \<noteq> cur)) (\<lambda>_. Inr (free_thread_page prev k))
      else Inr k))"

text \<open>
  After \<^verbatim>\<open>switch_threads\<close> the next thread is running, and it gets the thread that ran
  before it as the result.
\<close>

definition schedule :: "kernel \<Rightarrow> kernel res" where
  "schedule k =
     (let cur = running_thread k; (nxt, k) = next_thread_to_run k in
      bind_res (assert_res (level k = INTR_OFF)) (\<lambda>_.
      bind_res (assert_res (status (thr k cur) \<noteq> THREAD_RUNNING)) (\<lambda>_.
      bind_res (assert_res (is_thread k nxt)) (\<lambda>_.
      if cur \<noteq> nxt then thread_schedule_tail cur (k\<lparr>current := nxt\<rparr>)
      else thread_schedule_tail NULL k))))"

definition thread_block :: "kernel \<Rightarrow> kernel res" where
  "thread_block k =
     bind_res (assert_res (\<not> intr_context k)) (\<lambda>_.
     bind_res (assert_res (level k = INTR_OFF)) (\<lambda>_.
     bind_res (thread_current k) (\<lambda>t.
     schedule (set_thr t (\<lambda>r. r\<lparr>status := THREAD_BLOCKED\<rparr>) k))))"

definition thread_unblock :: "addr \<Rightarrow> kernel \<Rightarrow> kernel res" where
  "thread_unblock t k =
     bind_res (assert_res (is_thread k t)) (\<lambda>_.
     let (old_level, k) = intr_disable k in
     bind_res (assert_res (status (thr k t) = THREAD_BLOCKED)) (\<lambda>_.
     let k = k\<lparr>ready_list := insert_ord (thread_cmp_priority k) t (ready_list k)\<rparr>;
         k = set_thr t (\<lambda>r. r\<lparr>status := THREAD_READY\<rparr>) k in
     bind_res (intr_set_level old_level k) (\<lambda>(_, k). Inr k)))"

definition thread_yield :: "kernel \<Rightarrow> kernel res" where
  "thread_yield k =
     bind_res (thread_current k) (\<lambda>cur.
     bind_res (assert_res (\<not> intr_context k)) (\<lambda>_.
     let (old_level, k) = intr_disable k;
         k = push_frame (F_set_level old_level) k;
         k = (if cur \<noteq> idle_thread k
              then k\<lparr>ready_list := insert_ord (thread_cmp_priority k) cur (ready_list k)\<rparr> else k);
         k = set_thr cur (\<lambda>r. r\<lparr>status := THREAD_READY\<rparr>) k in
     schedule k))"

text \<open>The project-1 kernel is built without user programs: there is no process to tear down.\<close>

definition thread_exit :: "kernel \<Rightarrow> kernel res" where
  "thread_exit k =
     bind_res (assert_res (\<not> intr_context k)) (\<lambda>_.
     let (_, k) = intr_disable k in
     bind_res (thread_current k) (\<lambda>cur.
     let k = k\<lparr>all_list := remove1 cur (all_list k)\<rparr>;
         k = set_thr cur (\<lambda>r. r\<lparr>status := THREAD_DYING\<rparr>) k in
     schedule k))"

definition thread_tick :: "kernel \<Rightarrow> kernel res" where
  "thread_tick k =
     bind_res (thread_current k) (\<lambda>t.
     let k = (if t = idle_thread k then k\<lparr>idle_ticks := idle_ticks k + 1\<rparr>
              else k\<lparr>kernel_ticks := kernel_ticks k + 1\<rparr>);
         k = k\<lparr>thread_ticks := thread_ticks k + 1\<rparr> in
     if thread_ticks k \<ge> TIME_SLICE then intr_yield_on_return k else Inr k)"

definition thread_foreach :: "(addr \<Rightarrow> kernel \<Rightarrow> kernel) \<Rightarrow> kernel \<Rightarrow> kernel res" where
  "thread_foreach func k =
     bind_res (assert_res (level k = INTR_OFF)) (\<lambda>_. Inr (fold func (all_list k) k))"

definition thread_set_priority :: "int \<Rightarrow> kernel \<Rightarrow> kernel res" where
  "thread_set_priority new_priority k =
     (if thread_mlfqs k then Inr k
      else bind_res (thread_current k) (\<lambda>t.
        let old_priority = priority (thr k t);
            k = set_thr t (\<lambda>r. r\<lparr>base_priority := new_priority\<rparr>) k in
        if locks (thr k t) = [] \<or> new_priority > old_priority
        then thread_yield (set_thr t (\<lambda>r. r\<lparr>priority := new_priority\<rparr>) k)
        else Inr k))"

section \<open>Multi-level feedback queue\<close>

definition mlfqs_increase_running_recent_cpu :: "kernel \<Rightarrow> kernel res" where
  "mlfqs_increase_running_recent_cpu k =
     bind_res (thread_current k) (\<lambda>t.
     Inr (if t \<noteq> idle_thread k then set_thr t (\<lambda>r. r\<lparr>recent_cpu := FP_FP_ADD_INT (recent_cpu r) 1\<rparr>) k else k))"

definition mlfqs_priority :: "thread \<Rightarrow> int" where
  "mlfqs_priority r =
     (let p = FP_CONVERT_TO_INT_NEAREST (FP_SUB (FP_SUB (FP_CONVERT_TO_FP PRI_MAX)
                (FP_FP_DIV_INT (recent_cpu r) 4)) (FP_CONVERT_TO_FP (2 * nice r)))
      in if p < PRI_MIN then PRI_MIN else if p > PRI_MAX then PRI_MAX else p)"

definition mlfqs_update_priority :: "addr \<Rightarrow> kernel \<Rightarrow> kernel" where
  "mlfqs_update_priority t k =
     (if t \<noteq> idle_thread k then set_thr t (\<lambda>r. r\<lparr>priority := mlfqs_priority r\<rparr>) k else k)"

definition mlfqs_recent_cpu :: "int \<Rightarrow> thread \<Rightarrow> int" where
  "mlfqs_recent_cpu load r =
     FP_FP_ADD_INT (FP_MULT (FP_DIV (FP_FP_MULT_INT load 2) (FP_FP_ADD_INT (FP_FP_MULT_INT load 2) 1))
       (recent_cpu r)) (nice r)"

definition mlfqs_update_each_recent_cpu :: "addr \<Rightarrow> kernel \<Rightarrow> kernel" where
  "mlfqs_update_each_recent_cpu t k =
     (if t \<noteq> idle_thread k then set_thr t (\<lambda>r. r\<lparr>recent_cpu := mlfqs_recent_cpu (load_avg k) r\<rparr>) k else k)"

definition next_load_avg :: "int \<Rightarrow> int \<Rightarrow> int" where
  "next_load_avg load ready_threads_num =
     FP_ADD (FP_FP_DIV_INT (FP_FP_MULT_INT load 59) 60)
       (FP_FP_DIV_INT (FP_CONVERT_TO_FP ready_threads_num) 60)"

definition mlfqs_update_load_avg :: "kernel \<Rightarrow> kernel res" where
  "mlfqs_update_load_avg k =
     bind_res (thread_current k) (\<lambda>t.
     let ready_threads_num = int (length (ready_list k)) + (if t \<noteq> idle_thread k then 1 else 0)
     in Inr (k\<lparr>load_avg := next_load_avg (load_avg k) ready_threads_num\<rparr>))"

definition thread_get_load_avg :: "kernel \<Rightarrow> int" where
  "thread_get_load_avg k = FP_CONVERT_TO_INT_NEAREST (FP_FP_MULT_INT (load_avg k) 100)"

definition thread_get_recent_cpu :: "kernel \<Rightarrow> int res" where
  "thread_get_recent_cpu k =
     bind_res (thread_current k) (\<lambda>t. Inr (FP_CONVERT_TO_INT_NEAREST (FP_FP_MULT_INT (recent_cpu (thr k t)) 100)))"

definition thread_set_nice :: "int \<Rightarrow> kernel \<Rightarrow> kernel res" where
  "thread_set_nice n k =
     bind_res (thread_current k) (\<lambda>cur.
     let old_priority = priority (thr k cur);
         k = mlfqs_update_priority cur (set_thr cur (\<lambda>r. r\<lparr>nice := n\<rparr>) k) in
     if priority (thr k cur) < old_priority then thread_yield k else Inr k)"

end
