(* ===== verification/Synch.thy ===== *)
theory Synch
  imports Threads
begin

text \<open>
  Semaphores, locks with priority donation and condition variables: threads/synch.c and the
  donation functions of threads/thread.c (project 1). A call that has to wait leaves a frame on
  the stack of the thread and switches; \<open>run_frame\<close> (in the theory of kernel steps) continues
  it. \<^verbatim>\<open>thread_donate_priority\<close> follows the chain of locks by recursion without a
  bound and is a partial function: \<open>None\<close> is a call that does not return.
\<close>

section \<open>Semaphores\<close>

definition sema_init :: "addr \<Rightarrow> 32 word \<Rightarrow> kernel \<Rightarrow> kernel res" where
  "sema_init s v k =
     bind_res (assert_res (s \<noteq> NULL)) (\<lambda>_. Inr (set_sema s (\<lambda>_. \<lparr>sema_val = v, waiters = []\<rparr>) k))"

text \<open>
  The body of \<^verbatim>\<open>sema_down\<close> from the loop test on. When the value is zero the thread
  queues itself and blocks; it comes back to the loop test when it is woken.
\<close>

definition sema_down_loop :: "addr \<Rightarrow> intr_level \<Rightarrow> kernel \<Rightarrow> kernel res" where
  "sema_down_loop s old_level k =
     (if sema_val (semas k s) = 0
      then bind_res (thread_current k) (\<lambda>t.
        let k = set_sema s (\<lambda>r. r\<lparr>waiters := insert_ord (thread_cmp_priority k) t (waiters r)\<rparr>) k;
            k = push_frame (F_sema_down s old_level) k in
        thread_block k)
      else bind_res (intr_set_level old_level (set_sema s (\<lambda>r. r\<lparr>sema_val := sema_val r - 1\<rparr>) k))
             (\<lambda>(_, k). Inr k))"

definition sema_down :: "addr \<Rightarrow> kernel \<Rightarrow> kernel res" where
  "sema_down s k =
     bind_res (assert_res (s \<noteq> NULL)) (\<lambda>_.
     bind_res (assert_res (\<not> intr_context k)) (\<lambda>_.
     let (old_level, k) = intr_disable k in sema_down_loop s old_level k))"

definition sema_try_down :: "addr \<Rightarrow> kernel \<Rightarrow> (bool \<times> kernel) res" where
  "sema_try_down s k =
     bind_res (assert_res (s \<noteq> NULL)) (\<lambda>_.
     let (old_level, k) = intr_disable k;
         (success, k) = (if sema_val (semas k s) > 0
            then (True, set_sema s (\<lambda>r. r\<lparr>sema_val := sema_val r - 1\<rparr>) k) else (False, k)) in
     bind_res (intr_set_level old_level k) (\<lambda>(_, k). Inr (success, k)))"

definition sema_up :: "addr \<Rightarrow> kernel \<Rightarrow> kernel res" where
  "sema_up s k =
     bind_res (assert_res (s \<noteq> NULL)) (\<lambda>_.
     let (old_level, k) = intr_disable k in
     bind_res
       (case stable_sort (thread_cmp_priority k) (waiters (semas k s)) of
          [] \<Rightarrow> Inr k
        | t # ts \<Rightarrow> thread_unblock t (set_sema s (\<lambda>r. r\<lparr>waiters := ts\<rparr>) k)) (\<lambda>k.
     let k = set_sema s (\<lambda>r. r\<lparr>sema_val := sema_val r + 1\<rparr>) k in
     thread_yield (push_frame (F_set_level old_level) k)))"

section \<open>Priorities and locks\<close>

definition thread_update_priority :: "addr \<Rightarrow> kernel \<Rightarrow> kernel res" where
  "thread_update_priority t k =
     (if t = NULL then Inl NullDeref
      else case stable_sort (lock_cmp_priority k) (locks (thr k t)) of
        [] \<Rightarrow> Inr (set_thr t (\<lambda>r. r\<lparr>priority := base_priority r\<rparr>) k)
      | l # ls \<Rightarrow>
          let lock_priority = max_priority (lock_at k l) in
          Inr (set_thr t (\<lambda>r. r\<lparr>locks := l # ls,
                priority := (if lock_priority > base_priority r then lock_priority else base_priority r)\<rparr>) k))"

definition thread_hold_the_lock :: "addr \<Rightarrow> kernel \<Rightarrow> kernel res" where
  "thread_hold_the_lock l k =
     bind_res (assert_res (l \<noteq> NULL)) (\<lambda>_.
     bind_res (thread_current k) (\<lambda>t.
     let k = set_lock l (\<lambda>r. r\<lparr>max_priority := priority (thr k t)\<rparr>) k in
     Inr (set_thr t (\<lambda>r. r\<lparr>locks := insert_ord (lock_cmp_priority k) l (locks r)\<rparr>) k)))"

text \<open>
  \<^verbatim>\<open>list_remove\<close> on an element that is in no list follows wild pointers; the
  model stops there.
\<close>

definition thread_remove_lock :: "addr \<Rightarrow> kernel \<Rightarrow> kernel res" where
  "thread_remove_lock l k =
     bind_res (thread_current k) (\<lambda>t.
     if l \<in> set (locks (thr k t))
     then thread_update_priority t (set_thr t (\<lambda>r. r\<lparr>locks := remove1 l (locks r)\<rparr>) k)
     else Inl OutOfBounds)"

text \<open>One level of donation: raise the lock and its holder, keep the ready list sorted.\<close>

definition donate_once :: "addr \<Rightarrow> kernel \<Rightarrow> kernel res" where
  "donate_once l k =
     bind_res (thread_current k) (\<lambda>t.
     bind_res
       (if max_priority (lock_at k l) < priority (thr k t)
        then thread_update_priority (holder (lock_at k l))
               (set_lock l (\<lambda>r. r\<lparr>max_priority := priority (thr k t)\<rparr>) k)
        else Inr k) (\<lambda>k.
     let h = holder (lock_at k l) in
     if h = NULL then Inl NullDeref
     else Inr (if status (thr k h) = THREAD_READY
               then k\<lparr>ready_list := stable_sort (thread_cmp_priority k) (ready_list k)\<rparr> else k)))"

partial_function (option) thread_donate_priority :: "addr \<Rightarrow> kernel \<Rightarrow> kernel res option" where
  "thread_donate_priority l k =
     (case donate_once l k of
        Inl e \<Rightarrow> Some (Inl e)
      | Inr k' \<Rightarrow>
          if lock_waiting (thr k' (holder (lock_at k' l))) \<noteq> NULL
          then thread_donate_priority (lock_waiting (thr k' (holder (lock_at k' l)))) k'
          else Some (Inr k'))"

declare thread_donate_priority.simps [code]

definition donate :: "addr \<Rightarrow> kernel \<Rightarrow> kernel res" where
  "donate l k = (case thread_donate_priority l k of None \<Rightarrow> Inl NoReturn | Some r \<Rightarrow> r)"

definition lock_init :: "addr \<Rightarrow> kernel \<Rightarrow> kernel res" where
  "lock_init l k =
     bind_res (assert_res (l \<noteq> NULL)) (\<lambda>_.
     sema_init (lock_sema l) 1 (set_lock l (\<lambda>r. r\<lparr>holder := NULL\<rparr>) k))"

definition lock_held_by_current_thread :: "addr \<Rightarrow> kernel \<Rightarrow> bool res" where
  "lock_held_by_current_thread l k =
     bind_res (assert_res (l \<noteq> NULL)) (\<lambda>_.
     bind_res (thread_current k) (\<lambda>t. Inr (holder (lock_at k l) = t)))"

definition lock_acquire :: "addr \<Rightarrow> kernel \<Rightarrow> kernel res" where
  "lock_acquire l k =
     bind_res (assert_res (l \<noteq> NULL)) (\<lambda>_.
     bind_res (assert_res (\<not> intr_context k)) (\<lambda>_.
     bind_res (lock_held_by_current_thread l k) (\<lambda>held.
     bind_res (assert_res (\<not> held)) (\<lambda>_.
     bind_res
       (if holder (lock_at k l) \<noteq> NULL \<and> \<not> thread_mlfqs k
        then bind_res (thread_current k) (\<lambda>t. donate l (set_thr t (\<lambda>r. r\<lparr>lock_waiting := l\<rparr>) k))
        else Inr k) (\<lambda>k.
     sema_down (lock_sema l) (push_frame (F_lock_acquire l) k))))))"

text \<open>What \<^verbatim>\<open>lock_acquire\<close> does once \<^verbatim>\<open>sema_down\<close> has returned.\<close>

definition lock_acquire_end :: "addr \<Rightarrow> kernel \<Rightarrow> kernel res" where
  "lock_acquire_end l k =
     (let (old_level, k) = intr_disable k in
      bind_res (if \<not> thread_mlfqs k then thread_hold_the_lock l k else Inr k) (\<lambda>k.
      bind_res (thread_current k) (\<lambda>t.
      bind_res (intr_set_level old_level (set_lock l (\<lambda>r. r\<lparr>holder := t\<rparr>) k)) (\<lambda>(_, k). Inr k))))"

definition lock_try_acquire :: "addr \<Rightarrow> kernel \<Rightarrow> (bool \<times> kernel) res" where
  "lock_try_acquire l k =
     bind_res (assert_res (l \<noteq> NULL)) (\<lambda>_.
     bind_res (lock_held_by_current_thread l k) (\<lambda>held.
     bind_res (assert_res (\<not> held)) (\<lambda>_.
     bind_res (sema_try_down (lock_sema l) k) (\<lambda>(success, k).
     if success then bind_res (thread_current k) (\<lambda>t. Inr (True, set_lock l (\<lambda>r. r\<lparr>holder := t\<rparr>) k))
     else Inr (False, k)))))"

definition lock_release :: "addr \<Rightarrow> kernel \<Rightarrow> kernel res" where
  "lock_release l k =
     bind_res (assert_res (l \<noteq> NULL)) (\<lambda>_.
     bind_res (lock_held_by_current_thread l k) (\<lambda>held.
     bind_res (assert_res held) (\<lambda>_.
     bind_res (if \<not> thread_mlfqs k then thread_remove_lock l k else Inr k) (\<lambda>k.
     sema_up (lock_sema l) (set_lock l (\<lambda>r. r\<lparr>holder := NULL\<rparr>) k)))))"

section \<open>Condition variables\<close>

definition cond_init :: "addr \<Rightarrow> kernel \<Rightarrow> kernel res" where
  "cond_init c k = bind_res (assert_res (c \<noteq> NULL)) (\<lambda>_. Inr (k\<lparr>conds := (conds k)(c := [])\<rparr>))"

text \<open>\<open>w\<close> is the address of the local variable \<^verbatim>\<open>waiter\<close>.\<close>

definition cond_wait :: "addr \<Rightarrow> addr \<Rightarrow> addr \<Rightarrow> kernel \<Rightarrow> kernel res" where
  "cond_wait c l w k =
     bind_res (assert_res (c \<noteq> NULL)) (\<lambda>_.
     bind_res (assert_res (l \<noteq> NULL)) (\<lambda>_.
     bind_res (assert_res (\<not> intr_context k)) (\<lambda>_.
     bind_res (lock_held_by_current_thread l k) (\<lambda>held.
     bind_res (assert_res held) (\<lambda>_.
     bind_res (sema_init (elem_sema w) 0 k) (\<lambda>k.
     let k = k\<lparr>conds := (conds k)(c := conds k c @ [w])\<rparr> in
     lock_release l (push_frame (F_cond_wait_down (elem_sema w) l) k)))))))"

text \<open>After \<^verbatim>\<open>lock_release\<close>: wait for the signal, then take the lock again.\<close>

definition cond_wait_down :: "addr \<Rightarrow> addr \<Rightarrow> kernel \<Rightarrow> kernel res" where
  "cond_wait_down s l k = sema_down s (push_frame (F_cond_wait l) k)"

text \<open>
  Sorting two or more waiters compares every one of them, and comparing asserts that the
  thread of each has queued itself on its semaphore.
\<close>

definition cond_signal :: "addr \<Rightarrow> addr \<Rightarrow> kernel \<Rightarrow> kernel res" where
  "cond_signal c l k =
     bind_res (assert_res (c \<noteq> NULL)) (\<lambda>_.
     bind_res (assert_res (l \<noteq> NULL)) (\<lambda>_.
     bind_res (assert_res (\<not> intr_context k)) (\<lambda>_.
     bind_res (lock_held_by_current_thread l k) (\<lambda>held.
     bind_res (assert_res held) (\<lambda>_.
     case conds k c of
       [] \<Rightarrow> Inr k
     | _ \<Rightarrow>
         bind_res (assert_res (length (conds k c) < 2
             \<or> (\<forall>w\<in>set (conds k c). waiters (semas k (elem_sema w)) \<noteq> []))) (\<lambda>_.
         case stable_sort (cond_sema_cmp_priority k) (conds k c) of
           [] \<Rightarrow> Inl AssertFail
         | w # ws \<Rightarrow> sema_up (elem_sema w) (k\<lparr>conds := (conds k)(c := ws)\<rparr>)))))))"

text \<open>One round of the loop; the rest is done when \<^verbatim>\<open>cond_signal\<close> returns.\<close>

definition cond_broadcast_loop :: "addr \<Rightarrow> addr \<Rightarrow> kernel \<Rightarrow> kernel res" where
  "cond_broadcast_loop c l k =
     (if conds k c = [] then Inr k else cond_signal c l (push_frame (F_cond_broadcast c l) k))"

definition cond_broadcast :: "addr \<Rightarrow> addr \<Rightarrow> kernel \<Rightarrow> kernel res" where
  "cond_broadcast c l k =
     bind_res (assert_res (c \<noteq> NULL)) (\<lambda>_.
     bind_res (assert_res (l \<noteq> NULL)) (\<lambda>_. cond_broadcast_loop c l k))"

end
