(* ===== verification/Thread_Create.thy ===== *)
theory Thread_Create
  imports Synch
begin

text \<open>
  Creation of threads (threads/thread.c, project 1): initialisation, allocation of thread
  identifiers under the tid lock, and the start of the scheduler. The page of a new thread comes
  from the page allocator and is an argument.
\<close>

definition new_thread :: "addr \<Rightarrow> string \<Rightarrow> int \<Rightarrow> thread" where
  "new_thread t name prio =
     \<lparr>tid = 0, status = THREAD_BLOCKED, thread_nm = take 15 name, stack = t + PGSIZE, priority = prio,
      ticks_wake = 0, base_priority = prio, locks = [], lock_waiting = NULL, nice = 0,
      recent_cpu = FP_CONVERT_TO_FP 0, magic = THREAD_MAGIC\<rparr>"

definition init_thread :: "addr \<Rightarrow> string \<Rightarrow> int \<Rightarrow> kernel \<Rightarrow> kernel res" where
  "init_thread t name prio k =
     bind_res (assert_res (t \<noteq> NULL)) (\<lambda>_.
     bind_res (assert_res (PRI_MIN \<le> prio \<and> prio \<le> PRI_MAX)) (\<lambda>_.
     let k = set_thr t (\<lambda>_. new_thread t name prio) k;
         (old_level, k) = intr_disable k;
         k = k\<lparr>all_list := insert_ord (allelem_cmp k) t (all_list k)\<rparr> in
     bind_res (intr_set_level old_level k) (\<lambda>(_, k). Inr k)))"

text \<open>
  \<^verbatim>\<open>allocate_tid\<close> acquires the tid lock; the rest, which stores the identifier in thread
  \<open>t\<close> and releases the lock, follows when the lock is held.
\<close>

definition allocate_tid :: "addr \<Rightarrow> kernel \<Rightarrow> kernel res" where
  "allocate_tid t k = lock_acquire (tid_lock k) (push_frame (F_allocate_tid t) k)"

definition allocate_tid_end :: "addr \<Rightarrow> kernel \<Rightarrow> kernel res" where
  "allocate_tid_end t k =
     (let k = set_thr t (\<lambda>r. r\<lparr>tid := next_tid k\<rparr>) (k\<lparr>next_tid := next_tid k + 1\<rparr>)
      in lock_release (tid_lock k) k)"

definition alloc_frame :: "addr \<Rightarrow> nat \<Rightarrow> kernel \<Rightarrow> kernel res" where
  "alloc_frame t sz k =
     bind_res (assert_res (is_thread k t)) (\<lambda>_.
     bind_res (assert_res (sz mod 4 = 0)) (\<lambda>_.
     Inr (set_thr t (\<lambda>r. r\<lparr>stack := stack r - sz\<rparr>) k)))"

text \<open>
  \<^verbatim>\<open>thread_create\<close> up to the allocation of the identifier; \<open>page\<close> is what
  \<^verbatim>\<open>palloc_get_page\<close> returns. The new stack has one thing to do before the thread's
  function, the \<^verbatim>\<open>intr_enable\<close> of \<^verbatim>\<open>kernel_thread\<close>. The result
  \<open>False\<close> stands for \<^verbatim>\<open>TID_ERROR\<close>.
\<close>

definition thread_create :: "addr \<Rightarrow> string \<Rightarrow> int \<Rightarrow> kernel \<Rightarrow> (bool \<times> kernel) res" where
  "thread_create page name prio k =
     (if page = NULL then Inr (False, k)
      else
        let k = k\<lparr>frames := (frames k)(page := [F_set_level INTR_ON])\<rparr> in
        bind_res (init_thread page name prio k) (\<lambda>k.
        bind_res (allocate_tid page (push_frame (F_thread_create page prio) k)) (\<lambda>k. Inr (True, k))))"

text \<open>The rest: the three stack frames (12, 4 and 28 bytes), and the thread becomes ready.\<close>

definition thread_create_end :: "addr \<Rightarrow> int \<Rightarrow> kernel \<Rightarrow> kernel res" where
  "thread_create_end t prio k =
     bind_res (alloc_frame t 12 (set_thr t (\<lambda>r. r\<lparr>ticks_wake := 0\<rparr>) k)) (\<lambda>k.
     bind_res (alloc_frame t 4 k) (\<lambda>k.
     bind_res (alloc_frame t 28 k) (\<lambda>k.
     bind_res (thread_unblock t k) (\<lambda>k.
     bind_res (thread_current k) (\<lambda>cur.
     if priority (thr k cur) < prio then thread_yield k else Inr k)))))"

text \<open>The start of the idle thread; it then blocks again and again.\<close>

definition idle_start :: "addr \<Rightarrow> kernel \<Rightarrow> kernel res" where
  "idle_start idle_started k =
     bind_res (thread_current k) (\<lambda>t. sema_up idle_started (k\<lparr>idle_thread := t\<rparr>))"

definition idle_loop :: "kernel \<Rightarrow> kernel res" where
  "idle_loop k =
     (let (_, k) = intr_disable k in thread_block (push_frame (F_set_level INTR_ON) k))"

text \<open>
  \<^verbatim>\<open>thread_init\<close>, up to the release of the tid lock; \<open>self\<close> is the page the initial
  thread runs on.
\<close>

definition thread_init :: "addr \<Rightarrow> kernel \<Rightarrow> kernel res" where
  "thread_init self k =
     bind_res (assert_res (level k = INTR_OFF)) (\<lambda>_.
     bind_res (lock_init (tid_lock k) k) (\<lambda>k.
     let k = k\<lparr>ready_list := [], all_list := [], current := self, initial_thread := self\<rparr> in
     bind_res (init_thread (initial_thread k) ''main'' PRI_DEFAULT k) (\<lambda>k.
     allocate_tid (initial_thread k)
       (set_thr (initial_thread k) (\<lambda>r. r\<lparr>status := THREAD_RUNNING\<rparr>) k))))"

text \<open>
  \<^verbatim>\<open>thread_start\<close>: \<open>s\<close> is the address of the local semaphore and \<open>page\<close> the
  page of the idle thread. When the thread has been created, interrupts are enabled and the
  caller waits for the idle thread.
\<close>

definition thread_start :: "addr \<Rightarrow> addr \<Rightarrow> kernel \<Rightarrow> kernel res" where
  "thread_start s page k =
     (let k = k\<lparr>load_avg := FP_CONVERT_TO_FP 0\<rparr> in
      bind_res (sema_init s 0 k) (\<lambda>k.
      bind_res (thread_create page ''idle'' PRI_MIN (push_frame (F_thread_start s) k)) (\<lambda>(_, k). Inr k)))"

definition thread_start_end :: "addr \<Rightarrow> kernel \<Rightarrow> kernel res" where
  "thread_start_end s k = bind_res (intr_enable k) (\<lambda>(_, k). sema_down s k)"

end
