(* ===== verification/Timer.thy ===== *)
theory Timer
  imports Threads
begin

unbundle bit_operations_syntax

text \<open>
  The alarm clock and the timer interrupt of devices/timer.c (project 1), and the dispatch of an
  external interrupt in threads/interrupt.c.
\<close>

definition TIMER_FREQ :: int where "TIMER_FREQ = 100"

definition timer_init :: "kernel \<Rightarrow> kernel" where
  "timer_init k = k\<lparr>waiting_threads := []\<rparr>"

definition timer_ticks :: "kernel \<Rightarrow> int" where
  "timer_ticks k = ticks k"

definition timer_elapsed :: "int \<Rightarrow> kernel \<Rightarrow> int" where
  "timer_elapsed start k = timer_ticks k - start"

definition timer_sleep :: "int \<Rightarrow> kernel \<Rightarrow> kernel res" where
  "timer_sleep n k =
     (if n \<le> 0 then Inr k
      else bind_res (assert_res (level k = INTR_ON)) (\<lambda>_.
        let (old_level, k) = intr_disable k in
        bind_res (thread_current k) (\<lambda>t.
        let k = set_thr t (\<lambda>r. r\<lparr>ticks_wake := timer_ticks k + n\<rparr>) k;
            k = k\<lparr>waiting_threads := insert_ord (timer_cmp_waking_time k) t (waiting_threads k)\<rparr> in
        thread_block (push_frame (F_set_level old_level) k))))"

text \<open>
  The number of iterations of \<^verbatim>\<open>busy_wait\<close> that \<^verbatim>\<open>real_time_delay\<close> asks for,
  and \<^verbatim>\<open>real_time_sleep\<close>, which sleeps when at least one tick is asked for.
\<close>

definition real_time_delay :: "32 word \<Rightarrow> int \<Rightarrow> int \<Rightarrow> int res" where
  "real_time_delay loops_per_tick num denom =
     bind_res (assert_res (cmod denom 1000 = 0)) (\<lambda>_.
     Inr (cdiv (cdiv (uint loops_per_tick * num) 1000 * TIMER_FREQ) (cdiv denom 1000)))"

definition real_time_sleep :: "32 word \<Rightarrow> int \<Rightarrow> int \<Rightarrow> kernel \<Rightarrow> kernel res" where
  "real_time_sleep loops_per_tick num denom k =
     (let n = cdiv (num * TIMER_FREQ) denom in
      bind_res (assert_res (level k = INTR_ON)) (\<lambda>_.
      if n > 0 then timer_sleep n k
      else bind_res (real_time_delay loops_per_tick num denom) (\<lambda>_. Inr k)))"

definition timer_msleep :: "32 word \<Rightarrow> int \<Rightarrow> kernel \<Rightarrow> kernel res" where
  "timer_msleep lpt ms k = real_time_sleep lpt ms 1000 k"

definition timer_usleep :: "32 word \<Rightarrow> int \<Rightarrow> kernel \<Rightarrow> kernel res" where
  "timer_usleep lpt us k = real_time_sleep lpt us (1000 * 1000) k"

definition timer_nsleep :: "32 word \<Rightarrow> int \<Rightarrow> kernel \<Rightarrow> kernel res" where
  "timer_nsleep lpt ns k = real_time_sleep lpt ns (1000 * 1000 * 1000) k"

text \<open>
  Calibration. \<open>too_many loops\<close> is the outcome of \<^verbatim>\<open>too_many_loops\<close>, a measurement
  of the hardware.
\<close>

fun calibrate_double :: "nat \<Rightarrow> (32 word \<Rightarrow> bool) \<Rightarrow> 32 word \<Rightarrow> 32 word res" where
  "calibrate_double 0 too_many l = Inl AssertFail"
| "calibrate_double (Suc n) too_many l =
     (if \<not> too_many (push_bit 1 l)
      then let l = push_bit 1 l in bind_res (assert_res (l \<noteq> 0)) (\<lambda>_. calibrate_double n too_many l)
      else Inr l)"

fun calibrate_refine :: "nat \<Rightarrow> (32 word \<Rightarrow> bool) \<Rightarrow> 32 word \<Rightarrow> 32 word \<Rightarrow> 32 word" where
  "calibrate_refine 0 too_many test_bit l = l"
| "calibrate_refine (Suc n) too_many test_bit l =
     calibrate_refine n too_many (drop_bit 1 test_bit) (if \<not> too_many (l OR test_bit) then l OR test_bit else l)"

text \<open>
  The doubling starts at \<open>2 ^ 10\<close> and fails its assertion at the latest when the bit is
  shifted out after 22 rounds; the refinement tests nine bits below the high bit.
\<close>

definition timer_calibrate :: "(32 word \<Rightarrow> bool) \<Rightarrow> intr_level \<Rightarrow> 32 word res" where
  "timer_calibrate too_many lvl =
     bind_res (assert_res (lvl = INTR_ON)) (\<lambda>_.
     bind_res (calibrate_double 22 too_many (push_bit 10 1)) (\<lambda>high_bit.
     Inr (calibrate_refine 9 too_many (drop_bit 1 high_bit) high_bit)))"

text \<open>Waking the threads whose time has come, from the front of the sorted list.\<close>

fun wake_loop :: "addr list \<Rightarrow> kernel \<Rightarrow> kernel res" where
  "wake_loop [] k = Inr k"
| "wake_loop (t # ts) k =
     (if ticks_wake (thr k t) \<le> ticks k \<and> status (thr k t) = THREAD_BLOCKED
      then bind_res (thread_unblock t (k\<lparr>waiting_threads := ts\<rparr>)) (wake_loop ts)
      else Inr k)"

definition wake_threads :: "kernel \<Rightarrow> kernel res" where
  "wake_threads k = wake_loop (waiting_threads k) k"

definition timer_interrupt :: "kernel \<Rightarrow> kernel res" where
  "timer_interrupt k =
     (let k = k\<lparr>ticks := ticks k + 1\<rparr> in
      bind_res (thread_tick k) (\<lambda>k.
      bind_res (wake_threads k) (\<lambda>k.
      if \<not> thread_mlfqs k then Inr k
      else
        bind_res (mlfqs_increase_running_recent_cpu k) (\<lambda>k.
        bind_res (if cmod (timer_ticks k) TIMER_FREQ = 0
                  then bind_res (mlfqs_update_load_avg k) (thread_foreach mlfqs_update_each_recent_cpu)
                  else Inr k) (\<lambda>k.
        if cmod (timer_ticks k) 4 = 0 then thread_foreach mlfqs_update_priority k else Inr k)))))"

text \<open>
  \<^verbatim>\<open>intr_handler\<close>: \<open>handlers\<close> is the table \<^verbatim>\<open>intr_handlers\<close>.
  A vector without handler is counted and reported on the console only. The acknowledgement of
  the interrupt controller is not modelled.
\<close>

definition external_intr :: "nat \<Rightarrow> bool" where
  "external_intr vec_no \<longleftrightarrow> 0x20 \<le> vec_no \<and> vec_no < 0x30"

definition intr_handler :: "nat \<Rightarrow> (nat \<rightharpoonup> (kernel \<Rightarrow> kernel res)) \<Rightarrow> kernel \<Rightarrow> kernel res" where
  "intr_handler vec_no handlers k =
     bind_res
       (if external_intr vec_no
        then bind_res (assert_res (level k = INTR_OFF)) (\<lambda>_.
             bind_res (assert_res (\<not> intr_context k)) (\<lambda>_.
             Inr (k\<lparr>in_external_intr := True, yield_on_return := False\<rparr>)))
        else Inr k) (\<lambda>k.
     bind_res (case handlers vec_no of Some handler \<Rightarrow> handler k | None \<Rightarrow> Inr k) (\<lambda>k.
     if external_intr vec_no
     then bind_res (assert_res (level k = INTR_OFF)) (\<lambda>_.
          bind_res (assert_res (intr_context k)) (\<lambda>_.
          let k = k\<lparr>in_external_intr := False\<rparr> in
          if yield_on_return k then thread_yield k else Inr k))
     else Inr k))"

text \<open>
  The timer interrupt, vector 0x20, taken between two instructions of the running thread. The
  processor turns interrupts off on entry; they come back on when the interrupted code is resumed.
\<close>

definition take_timer_interrupt :: "kernel \<Rightarrow> kernel res" where
  "take_timer_interrupt k =
     (if level k = INTR_ON
      then intr_handler 0x20 [0x20 \<mapsto> timer_interrupt] (push_frame (F_set_level INTR_ON) (k\<lparr>level := INTR_OFF\<rparr>))
      else Inr k)"

end
