(* ===== verification/Sched_Invariant.thy ===== *)
theory Sched_Invariant
  imports Thread_Create Timer
begin

text \<open>
  The scheduling invariant: every list holds threads of the right status, no thread is in two
  lists, exactly one thread is running, and the ready list is sorted by priority. Every routine
  that switches, blocks, wakes or changes priorities is shown to keep it.
\<close>

section \<open>Definition\<close>

definition prio :: "kernel \<Rightarrow> addr \<Rightarrow> int" where
  "prio k t = priority (thr k t)"

definition st :: "kernel \<Rightarrow> addr \<Rightarrow> thread_status" where
  "st k t = status (thr k t)"

definition in_state :: "kernel \<Rightarrow> thread_status \<Rightarrow> addr list \<Rightarrow> bool" where
  "in_state k x ts \<longleftrightarrow> distinct ts \<and> (\<forall>t\<in>set ts. is_thread k t \<and> st k t = x)"

definition waits :: "kernel \<Rightarrow> addr \<Rightarrow> addr list" where
  "waits k s = waiters (semas k s)"

definition lists_ok :: "kernel \<Rightarrow> bool" where
  "lists_ok k \<longleftrightarrow> in_state k THREAD_READY (ready_list k)
     \<and> in_state k THREAD_BLOCKED (waiting_threads k)
     \<and> (\<forall>s. in_state k THREAD_BLOCKED (waits k s))
     \<and> (\<forall>s s'. s \<noteq> s' \<longrightarrow> set (waits k s) \<inter> set (waits k s') = {})
     \<and> (\<forall>s. set (waits k s) \<inter> set (waiting_threads k) = {})"

definition idle_ok :: "kernel \<Rightarrow> bool" where
  "idle_ok k \<longleftrightarrow> is_thread k (idle_thread k) \<and> st k (idle_thread k) \<noteq> THREAD_DYING
     \<and> idle_thread k \<notin> set (ready_list k) \<and> idle_thread k \<notin> set (waiting_threads k)
     \<and> (\<forall>s. idle_thread k \<notin> set (waits k s))"

definition sorted_ready :: "kernel \<Rightarrow> bool" where
  "sorted_ready k \<longleftrightarrow> \<not> thread_mlfqs k \<longrightarrow> sorted_by (thread_cmp_priority k) (ready_list k)"

definition runs :: "kernel \<Rightarrow> addr \<Rightarrow> bool" where
  "runs k t \<longleftrightarrow> is_thread k t \<and> st k t = THREAD_RUNNING"

definition sched_inv :: "kernel \<Rightarrow> bool" where
  "sched_inv k \<longleftrightarrow> lists_ok k \<and> idle_ok k \<and> sorted_ready k \<and> (\<forall>t. runs k t \<longleftrightarrow> t = current k)"

text \<open>What holds when \<^verbatim>\<open>schedule\<close> is called: the running thread has been given its new status.\<close>

definition switch_pre :: "kernel \<Rightarrow> bool" where
  "switch_pre k \<longleftrightarrow> lists_ok k \<and> idle_ok k \<and> sorted_ready k \<and> (\<forall>t. \<not> runs k t)
     \<and> is_thread k (current k) \<and> level k = INTR_OFF"

section \<open>Sorted lists and priorities\<close>

lemma sorted_by_priority:
  "sorted_by (thread_cmp_priority k) ts \<longleftrightarrow> sorted_wrt (\<ge>) (map (prio k) ts)"
  by (simp add: sorted_by_def thread_cmp_priority_def prio_def sorted_wrt_map not_less)

lemma sorted_ready_alt:
  "sorted_ready k \<longleftrightarrow> thread_mlfqs k \<or> sorted_wrt (\<ge>) (map (prio k) (ready_list k))"
  by (auto simp: sorted_ready_def sorted_by_priority)

section \<open>Switching\<close>

lemma is_thread_not_NULL [simp]: "\<not> is_thread k NULL"
  by (simp add: is_thread_def)

lemma next_thread_cases:
  obtains (idle) "ready_list k = []" "next_thread_to_run k = (idle_thread k, k)"
  | (ready) t ts where "ready_list k = t # ts" "next_thread_to_run k = (t, k\<lparr>ready_list := ts\<rparr>)"
  by (cases "ready_list k") (auto simp: next_thread_to_run_def)

text \<open>The state after a switch to \<open>n\<close>, with \<open>rest\<close> left in the ready list.\<close>

definition switched :: "addr \<Rightarrow> addr list \<Rightarrow> kernel \<Rightarrow> kernel" where
  "switched n rest k =
     (let c = current k;
          k1 = set_thr n (\<lambda>r. r\<lparr>status := THREAD_RUNNING\<rparr>) (k\<lparr>ready_list := rest, current := n, thread_ticks := 0\<rparr>)
      in if c \<noteq> n \<and> st k c = THREAD_DYING \<and> c \<noteq> initial_thread k then free_thread_page c k1 else k1)"

lemma schedule_eq:
  assumes "switch_pre k"
  shows "schedule k = Inr (switched (hd (ready_list k @ [idle_thread k])) (tl (ready_list k)) k)"
proof -
  have c: "status (thr k (current k)) \<noteq> THREAD_RUNNING" "is_thread k (current k)" "level k = INTR_OFF"
    using assms by (auto simp: switch_pre_def runs_def st_def)
  have idle: "is_thread k (idle_thread k)" using assms by (simp add: switch_pre_def idle_ok_def)
  have nz: "current k \<noteq> NULL" using c(2) by (auto simp: is_thread_def)
  show ?thesis
  proof (cases rule: next_thread_cases [of k])
    case idle
    then show ?thesis using c nz \<open>is_thread k (idle_thread k)\<close>
      by (auto simp: schedule_def running_thread_def thread_schedule_tail_def switched_def st_def Let_def kdefs
          is_thread_def free_thread_page_def intro!: kernel.equality)
  next
    case (ready t ts)
    then have t: "is_thread k t" using assms by (simp add: switch_pre_def lists_ok_def in_state_def)
    then have "is_thread (k\<lparr>ready_list := ts\<rparr>) t" by (simp add: is_thread_def)
    then show ?thesis using ready c nz
      by (auto simp: schedule_def running_thread_def thread_schedule_tail_def switched_def st_def Let_def kdefs
          is_thread_def free_thread_page_def intro!: kernel.equality)
  qed
qed

lemma switched_fields [simp]:
  "semas (switched n rest k) = semas k" "lock_at (switched n rest k) = lock_at k"
  "conds (switched n rest k) = conds k" "frames (switched n rest k) = frames k"
  "ready_list (switched n rest k) = rest" "waiting_threads (switched n rest k) = waiting_threads k"
  "all_list (switched n rest k) = all_list k" "idle_thread (switched n rest k) = idle_thread k"
  "current (switched n rest k) = n" "thread_mlfqs (switched n rest k) = thread_mlfqs k"
  "level (switched n rest k) = level k" "in_external_intr (switched n rest k) = in_external_intr k"
  "tid_lock (switched n rest k) = tid_lock k" "ticks (switched n rest k) = ticks k"
  "load_avg (switched n rest k) = load_avg k" "next_tid (switched n rest k) = next_tid k"
  "initial_thread (switched n rest k) = initial_thread k"
  by (auto simp: switched_def Let_def free_thread_page_def kdefs)

lemma waits_switched [simp]: "waits (switched n rest k) = waits k"
  by (simp add: waits_def fun_eq_iff)

lemma prio_switched [simp]: "prio (switched n rest k) = prio k"
  by (auto simp: prio_def switched_def Let_def free_thread_page_def kdefs fun_eq_iff)

lemma st_switched: "st (switched n rest k) t = (if t = n then THREAD_RUNNING else st k t)"
  by (auto simp: st_def switched_def Let_def free_thread_page_def kdefs)

lemma is_thread_switched:
  "is_thread (switched n rest k) t \<longleftrightarrow> is_thread k t
     \<and> \<not> (t = current k \<and> current k \<noteq> n \<and> st k (current k) = THREAD_DYING \<and> current k \<noteq> initial_thread k)"
  by (auto simp: is_thread_def switched_def Let_def free_thread_page_def kdefs THREAD_MAGIC_def)

lemma in_state_switched:
  assumes "in_state k x ts" and "n \<notin> set ts" and "x \<noteq> THREAD_DYING"
  shows "in_state (switched n rest k) x ts"
  using assms by (auto simp: in_state_def is_thread_switched st_switched)

lemma schedule_inv:
  assumes "switch_pre k"
  shows "\<exists>n rest. schedule k = Inr (switched n rest k) \<and> sched_inv (switched n rest k)
     \<and> (\<forall>t\<in>set (ready_list k). \<not> thread_mlfqs k \<longrightarrow> prio k t \<le> prio k n)"
proof -
  define n rest where "n = hd (ready_list k @ [idle_thread k])" and "rest = tl (ready_list k)"
  have pre: "lists_ok k" "idle_ok k" "sorted_ready k" "\<And>t. \<not> runs k t" "is_thread k (current k)"
    using assms by (auto simp: switch_pre_def)
  have n: "is_thread k n" "n \<notin> set rest" "n \<notin> set (waiting_threads k)" "\<And>s. n \<notin> set (waits k s)"
      "st k n \<noteq> THREAD_DYING" "n = idle_thread k \<or> n \<in> set (ready_list k)"
    using pre(1,2) by (cases "ready_list k"; auto simp: n_def rest_def lists_ok_def idle_ok_def in_state_def)+
  have sub: "set rest \<subseteq> set (ready_list k)" "distinct rest"
    using pre(1) by (cases "ready_list k"; auto simp: rest_def lists_ok_def in_state_def)+
  have ready: "in_state k THREAD_READY rest" using pre(1) sub by (auto simp: lists_ok_def in_state_def)
  have "lists_ok (switched n rest k)"
    using pre(1) n(2-4) ready in_state_switched [of k _ _ n rest] unfolding lists_ok_def by simp
  moreover have "idle_ok (switched n rest k)"
    using pre(2) sub(1) by (auto simp: idle_ok_def is_thread_switched st_switched)
  moreover have "sorted_ready (switched n rest k)"
    using pre(3) by (cases "ready_list k") (auto simp: sorted_ready_alt rest_def)
  moreover have "runs (switched n rest k) t \<longleftrightarrow> t = n" for t
    using pre(4) [of t] n(1,5) by (auto simp: runs_def is_thread_switched st_switched)
  ultimately have "sched_inv (switched n rest k)" by (simp add: sched_inv_def)
  moreover have "\<not> thread_mlfqs k \<longrightarrow> prio k t \<le> prio k n" if "t \<in> set (ready_list k)" for t
    using that pre(3) by (cases "ready_list k") (auto simp: sorted_ready_alt n_def)
  moreover have "schedule k = Inr (switched n rest k)"
    unfolding n_def rest_def using assms by (rule schedule_eq)
  ultimately show ?thesis by blast
qed


section \<open>Views of updated states\<close>

named_theorems kview \<open>how updates change what the invariant looks at\<close>

lemma st_set_thr [kview]: "st (set_thr t g k) u = (if u = t then status (g (thr k t)) else st k u)"
  and prio_set_thr [kview]: "prio (set_thr t g k) u = (if u = t then priority (g (thr k t)) else prio k u)"
  and is_thread_set_thr [kview]:
    "is_thread (set_thr t g k) u \<longleftrightarrow> (if u = t then t \<noteq> NULL \<and> magic (g (thr k t)) = THREAD_MAGIC else is_thread k u)"
  and waits_set_thr [kview]: "waits (set_thr t g k) = waits k"
  by (auto simp: st_def prio_def is_thread_def waits_def kdefs)

lemma thr_set_sema [kview]: "thr (set_sema s g k) = thr k"
  and waits_set_sema [kview]: "waits (set_sema s g k) u = (if u = s then waiters (g (semas k s)) else waits k u)"
  and thr_set_lock [kview]: "thr (set_lock l h k) = thr k" and waits_set_lock [kview]: "waits (set_lock l h k) = waits k"
  and thr_push_frame [kview]: "thr (push_frame fr k) = thr k" and waits_push_frame [kview]: "waits (push_frame fr k) = waits k"
  by (auto simp: waits_def kdefs)

lemma view_thr:
  assumes "thr k' = thr k"
  shows "st k' = st k" and "prio k' = prio k" and "is_thread k' = is_thread k"
    and "thread_cmp_priority k' = thread_cmp_priority k" and "runs k' = runs k"
    and "in_state k' = in_state k"
  using assms by (auto simp: fun_eq_iff st_def prio_def is_thread_def thread_cmp_priority_def runs_def in_state_def)

lemmas view_others [kview] = view_thr [OF thr_set_sema] view_thr [OF thr_set_lock] view_thr [OF thr_push_frame]

lemma fields_set_thr [kview]:
  "ready_list (set_thr t g k) = ready_list k" "waiting_threads (set_thr t g k) = waiting_threads k"
  "idle_thread (set_thr t g k) = idle_thread k" "current (set_thr t g k) = current k"
  "thread_mlfqs (set_thr t g k) = thread_mlfqs k" "level (set_thr t g k) = level k"
  "in_external_intr (set_thr t g k) = in_external_intr k" "semas (set_thr t g k) = semas k"
  "lock_at (set_thr t g k) = lock_at k" "frames (set_thr t g k) = frames k" "conds (set_thr t g k) = conds k"
  "tid_lock (set_thr t g k) = tid_lock k" "thr (set_thr t g k) = (thr k)(t := g (thr k t))"
  by (simp_all add: kdefs)

lemma fields_set_sema [kview]:
  "ready_list (set_sema t g k) = ready_list k" "waiting_threads (set_sema t g k) = waiting_threads k"
  "idle_thread (set_sema t g k) = idle_thread k" "current (set_sema t g k) = current k"
  "thread_mlfqs (set_sema t g k) = thread_mlfqs k" "level (set_sema t g k) = level k"
  "in_external_intr (set_sema t g k) = in_external_intr k" "semas (set_sema t g k) = (semas k)(t := g (semas k t))"
  "lock_at (set_sema t g k) = lock_at k" "frames (set_sema t g k) = frames k" "conds (set_sema t g k) = conds k"
  "tid_lock (set_sema t g k) = tid_lock k"
  by (simp_all add: kdefs)

lemma fields_set_lock [kview]:
  "ready_list (set_lock t g k) = ready_list k" "waiting_threads (set_lock t g k) = waiting_threads k"
  "idle_thread (set_lock t g k) = idle_thread k" "current (set_lock t g k) = current k"
  "thread_mlfqs (set_lock t g k) = thread_mlfqs k" "level (set_lock t g k) = level k"
  "in_external_intr (set_lock t g k) = in_external_intr k" "semas (set_lock t g k) = semas k"
  "lock_at (set_lock t g k) = (lock_at k)(t := g (lock_at k t))" "frames (set_lock t g k) = frames k"
  "conds (set_lock t g k) = conds k" "tid_lock (set_lock t g k) = tid_lock k"
  by (simp_all add: kdefs)

lemma fields_push_frame [kview]:
  "ready_list (push_frame fr k) = ready_list k" "waiting_threads (push_frame fr k) = waiting_threads k"
  "idle_thread (push_frame fr k) = idle_thread k" "current (push_frame fr k) = current k"
  "thread_mlfqs (push_frame fr k) = thread_mlfqs k" "level (push_frame fr k) = level k"
  "in_external_intr (push_frame fr k) = in_external_intr k" "semas (push_frame fr k) = semas k"
  "lock_at (push_frame fr k) = lock_at k"
  "frames (push_frame fr k) = (frames k)(current k := fr # frames k (current k))"
  "conds (push_frame fr k) = conds k" "tid_lock (push_frame fr k) = tid_lock k"
  by (simp_all add: kdefs)

text \<open>The invariant looks only at a few fields.\<close>

definition same_view :: "kernel \<Rightarrow> kernel \<Rightarrow> bool" where
  "same_view k k' \<longleftrightarrow> (\<forall>t. st k' t = st k t \<and> prio k' t = prio k t \<and> is_thread k' t = is_thread k t)
     \<and> waits k' = waits k \<and> ready_list k' = ready_list k \<and> waiting_threads k' = waiting_threads k
     \<and> idle_thread k' = idle_thread k \<and> current k' = current k \<and> thread_mlfqs k' = thread_mlfqs k"

lemma sched_inv_cong:
  assumes "same_view k k'"
  shows "sched_inv k' \<longleftrightarrow> sched_inv k"
proof -
  have v: "is_thread k' = is_thread k" "st k' = st k" "prio k' = prio k" "waits k' = waits k"
    "ready_list k' = ready_list k" "waiting_threads k' = waiting_threads k" "idle_thread k' = idle_thread k"
    "current k' = current k" "thread_mlfqs k' = thread_mlfqs k"
    using assms by (auto simp: same_view_def fun_eq_iff)
  then have "in_state k' = in_state k" "runs k' = runs k" by (auto simp: in_state_def runs_def fun_eq_iff)
  then show ?thesis using v by (simp add: sched_inv_def lists_ok_def idle_ok_def sorted_ready_alt)
qed

lemma sched_inv_current: "sched_inv k \<Longrightarrow> is_thread k (current k)" "sched_inv k \<Longrightarrow> st k (current k) = THREAD_RUNNING"
  by (auto simp: sched_inv_def runs_def)

lemma thread_current_inv: "sched_inv k \<Longrightarrow> thread_current k = Inr (current k)"
  using sched_inv_current [of k] by (simp add: thread_current_def running_thread_def st_def)

section \<open>Yielding and blocking\<close>

lemma in_state_remove_running:
  assumes "in_state k x ts" and "c \<notin> set ts"
  shows "in_state (set_thr c (\<lambda>r. r\<lparr>status := y\<rparr>) k) x ts"
  using assms by (auto simp: in_state_def kview)

lemma current_not_queued:
  assumes "sched_inv k"
  shows "current k \<notin> set (ready_list k)" and "current k \<notin> set (waiting_threads k)"
    and "current k \<notin> set (waits k s)" and "is_thread k (current k)" and "current k \<noteq> NULL"
  using sched_inv_current [OF assms] assms by (auto simp: sched_inv_def lists_ok_def in_state_def intro: gr0I)

lemma sorted_insert_ready:
  assumes "sorted_by (thread_cmp_priority k) ts"
  shows "sorted_wrt (\<ge>) (map (prio k) (insert_ord (thread_cmp_priority k) t ts))"
  using thread_prio.sorted_insert_ord [OF assms] by (simp add: sorted_by_priority)

text \<open>The state in which \<^verbatim>\<open>thread_yield\<close> calls \<^verbatim>\<open>schedule\<close>.\<close>

definition yielding :: "kernel \<Rightarrow> kernel" where
  "yielding k =
     (let k0 = push_frame (F_set_level (level k)) (k\<lparr>level := INTR_OFF\<rparr>);
          k1 = (if current k \<noteq> idle_thread k
                then k0\<lparr>ready_list := insert_ord (thread_cmp_priority k) (current k) (ready_list k)\<rparr> else k0)
      in set_thr (current k) (\<lambda>r. r\<lparr>status := THREAD_READY\<rparr>) k1)"

lemma switch_pre_yielding:
  assumes "sched_inv k"
  shows "switch_pre (yielding k)"
proof -
  note c = current_not_queued [OF assms]
  have run: "\<And>t. runs k t \<longleftrightarrow> t = current k" using assms by (simp add: sched_inv_def)
  have "lists_ok k" "idle_ok k" "sorted_ready k" using assms by (auto simp: sched_inv_def)
  have view: "thr (yielding k) = (thr k)(current k := (thr k (current k))\<lparr>status := THREAD_READY\<rparr>)"
    "waits (yielding k) = waits k" "waiting_threads (yielding k) = waiting_threads k"
    "idle_thread (yielding k) = idle_thread k" "current (yielding k) = current k"
    "thread_mlfqs (yielding k) = thread_mlfqs k" "level (yielding k) = INTR_OFF"
    "ready_list (yielding k) = (if current k \<noteq> idle_thread k
       then insert_ord (thread_cmp_priority k) (current k) (ready_list k) else ready_list k)"
    by (auto simp: yielding_def Let_def waits_def kdefs fun_eq_iff)
  have st': "st (yielding k) t = (if t = current k then THREAD_READY else st k t)"
    and prio': "prio (yielding k) = prio k" and is': "is_thread (yielding k) t = is_thread k t" for t
    by (auto simp: st_def prio_def is_thread_def view(1) fun_eq_iff)
  have "lists_ok (yielding k)"
    using \<open>lists_ok k\<close> c by (auto simp: lists_ok_def in_state_def view(2-) st' is')
  moreover have "idle_ok (yielding k)"
    using \<open>idle_ok k\<close> by (auto simp: idle_ok_def view(2-) st' is')
  moreover have "sorted_ready (yielding k)"
    using \<open>sorted_ready k\<close> sorted_insert_ready [of k "ready_list k" "current k"]
    by (auto simp: sorted_ready_alt view(2-) prio' sorted_by_priority)
  moreover have "\<not> runs (yielding k) t" for t using run [of t] by (auto simp: runs_def st' is')
  ultimately show ?thesis using c by (simp add: switch_pre_def view(2-) is')
qed

lemma thread_yield_eq:
  assumes "sched_inv k" and "\<not> in_external_intr k"
  shows "thread_yield k = schedule (yielding k)"
proof -
  have "thread_cmp_priority (push_frame fr (k\<lparr>level := INTR_OFF\<rparr>)) = thread_cmp_priority k" for fr
    by (rule view_thr(4)) (simp add: kdefs)
  then show ?thesis
    using assms by (simp add: thread_yield_def thread_current_inv intr_context_def intr_disable_def yielding_def
        Let_def fields_push_frame)
qed

lemma thread_yield_inv:
  assumes "sched_inv k" and "\<not> in_external_intr k"
  shows "\<exists>n rest. thread_yield k = Inr (switched n rest (yielding k)) \<and> sched_inv (switched n rest (yielding k))"
  using schedule_inv [OF switch_pre_yielding [OF assms(1)]] thread_yield_eq [OF assms] by auto


text \<open>
  A state in which the running thread has been marked as blocked and put in at most one list is
  ready for the switch.
\<close>

lemma switch_pre_blocked:
  assumes inv: "sched_inv k"
    and thr: "thr k1 = (thr k)(current k := r)" "status r = THREAD_BLOCKED" "magic r = magic (thr k (current k))"
    and same: "current k1 = current k" "idle_thread k1 = idle_thread k" "ready_list k1 = ready_list k"
      "thread_mlfqs k1 = thread_mlfqs k" "level k1 = INTR_OFF"
    and dist: "\<And>s. distinct (waits k1 s)" "distinct (waiting_threads k1)"
    and sub: "\<And>s. set (waits k1 s) - {current k} \<subseteq> set (waits k s)"
      "set (waiting_threads k1) - {current k} \<subseteq> set (waiting_threads k)"
    and one: "\<And>s s'. current k \<in> set (waits k1 s) \<Longrightarrow> current k \<in> set (waits k1 s') \<Longrightarrow> s = s'"
      "\<And>s. current k \<in> set (waits k1 s) \<Longrightarrow> current k \<notin> set (waiting_threads k1)"
      "\<And>s. current k = idle_thread k \<Longrightarrow> current k \<notin> set (waits k1 s) \<and> current k \<notin> set (waiting_threads k1)"
  shows "switch_pre k1"
proof -
  note c = current_not_queued [OF inv]
  have lists: "lists_ok k" "idle_ok k" "sorted_ready k" using inv by (auto simp: sched_inv_def)
  have st': "st k1 t = (if t = current k then THREAD_BLOCKED else st k t)"
    and is': "is_thread k1 t = is_thread k t" for t
    using thr by (auto simp: st_def is_thread_def)
  have m: "map (prio k1) (ready_list k) = map (prio k) (ready_list k)"
    using c(1) thr(1) by (auto simp: prio_def)
  have "sorted_ready k1" using lists(3) unfolding sorted_ready_alt same m .
  moreover have "lists_ok k1"
    unfolding lists_ok_def
  proof (intro conjI allI impI)
    show "in_state k1 THREAD_READY (ready_list k1)"
      using lists(1) c(1) same(3) by (auto simp: lists_ok_def in_state_def st' is')
    show "in_state k1 THREAD_BLOCKED (waiting_threads k1)"
      using lists(1) c(4) dist sub by (auto simp: lists_ok_def in_state_def st' is')
    fix s
    show "in_state k1 THREAD_BLOCKED (waits k1 s)"
      using lists(1) c(4) dist sub(1) [of s] by (auto simp: lists_ok_def in_state_def st' is')
    show "set (waits k1 s) \<inter> set (waiting_threads k1) = {}"
    proof -
      have "set (waits k s) \<inter> set (waiting_threads k) = {}" using lists(1) by (simp add: lists_ok_def)
      then show ?thesis using sub(1) [of s] sub(2) one(2) [of s] by blast
    qed
    fix s'
    assume "s \<noteq> s'"
    then have "set (waits k s) \<inter> set (waits k s') = {}" using lists(1) by (simp add: lists_ok_def)
    then show "set (waits k1 s) \<inter> set (waits k1 s') = {}"
      using sub(1) [of s] sub(1) [of s'] one(1) [of s s'] \<open>s \<noteq> s'\<close> by blast
  qed
  moreover have "idle_ok k1"
  proof (cases "current k = idle_thread k")
    case True
    then show ?thesis using lists(2) same(2,3) one(3) [OF True] by (simp add: idle_ok_def st' is')
  next
    case False
    then have "idle_thread k \<notin> set (waiting_threads k1)" "idle_thread k \<notin> set (waits k1 s)" for s
      using lists(2) sub(1) [of s] sub(2) by (auto simp: idle_ok_def)
    then show ?thesis using False lists(2) same(2,3) by (simp add: idle_ok_def st' is')
  qed
  moreover have "\<not> runs k1 t" for t using inv by (auto simp: runs_def st' is' sched_inv_def)
  ultimately show ?thesis using c(4) same by (simp add: switch_pre_def is')
qed

lemma thread_block_eq:
  assumes "is_thread k (current k)" and "st k (current k) = THREAD_RUNNING" and "level k = INTR_OFF"
    and "\<not> in_external_intr k"
  shows "thread_block k = schedule (set_thr (current k) (\<lambda>r. r\<lparr>status := THREAD_BLOCKED\<rparr>) k)"
  using assms by (simp add: thread_block_def intr_context_def thread_current_def running_thread_def st_def)

text \<open>The state in which \<^verbatim>\<open>sema_down\<close> switches when it has to wait.\<close>

definition sema_waiting :: "addr \<Rightarrow> intr_level \<Rightarrow> kernel \<Rightarrow> kernel" where
  "sema_waiting s old_level k =
     set_thr (current k) (\<lambda>r. r\<lparr>status := THREAD_BLOCKED\<rparr>)
       (push_frame (F_sema_down s old_level)
         (set_sema s (\<lambda>r. r\<lparr>waiters := insert_ord (thread_cmp_priority k) (current k) (waiters r)\<rparr>) k))"

lemma switch_pre_sema_waiting:
  assumes "sched_inv k" and "level k = INTR_OFF" and "current k \<noteq> idle_thread k"
  shows "switch_pre (sema_waiting s old_level k)"
proof (rule switch_pre_blocked [OF assms(1)])
  note c = current_not_queued [OF assms(1)]
  let ?k = "sema_waiting s old_level k"
  show "thr ?k = (thr k)(current k := (thr k (current k))\<lparr>status := THREAD_BLOCKED\<rparr>)"
    by (simp add: sema_waiting_def kdefs)
  have w: "waits ?k u = (if u = s then insert_ord (thread_cmp_priority k) (current k) (waits k s) else waits k u)" for u
    by (simp add: sema_waiting_def kdefs waits_def)
  have wt: "waiting_threads ?k = waiting_threads k" by (simp add: sema_waiting_def kdefs)
  have ok: "distinct (waits k u)" "distinct (waiting_threads k)" for u
    using assms(1) by (auto simp: sched_inv_def lists_ok_def in_state_def)
  show "distinct (waits ?k u)" "distinct (waiting_threads ?k)" for u using ok c by (auto simp: w wt)
  show "set (waits ?k u) - {current k} \<subseteq> set (waits k u)" for u by (auto simp: w)
  show "set (waiting_threads ?k) - {current k} \<subseteq> set (waiting_threads k)" by (auto simp: wt)
  show "u = u'" if "current k \<in> set (waits ?k u)" "current k \<in> set (waits ?k u')" for u u'
    using that c by (auto simp: w split: if_splits)
  show "current k \<notin> set (waiting_threads ?k)" using c by (simp add: wt)
  show "current k = idle_thread k \<Longrightarrow> current k \<notin> set (waits ?k u) \<and> current k \<notin> set (waiting_threads ?k)" for u
    using assms(3) by simp
qed (auto simp: sema_waiting_def kdefs assms(2))

lemma sema_down_loop_inv:
  assumes "sched_inv k" and "level k = INTR_OFF" and "current k \<noteq> idle_thread k" and "\<not> in_external_intr k"
  shows "\<exists>k'. sema_down_loop s old_level k = Inr k' \<and> sched_inv k'
     \<and> (if sema_val (semas k s) = 0 then \<exists>n rest. k' = switched n rest (sema_waiting s old_level k)
        else k' = set_sema s (\<lambda>r. r\<lparr>sema_val := sema_val r - 1\<rparr>) k\<lparr>level := old_level\<rparr>)"
proof (cases "sema_val (semas k s) = 0")
  case True
  let ?k1 = "push_frame (F_sema_down s old_level)
         (set_sema s (\<lambda>r. r\<lparr>waiters := insert_ord (thread_cmp_priority k) (current k) (waiters r)\<rparr>) k)"
  have "thread_block ?k1 = schedule (sema_waiting s old_level k)"
    using thread_block_eq [of ?k1] sched_inv_current [OF assms(1)] assms by (simp add: sema_waiting_def kview)
  then show ?thesis
    using True schedule_inv [OF switch_pre_sema_waiting [OF assms(1-3)], of s old_level] thread_current_inv [OF assms(1)]
    by (auto simp: sema_down_loop_def Let_def)
next
  case False
  let ?k = "set_sema s (\<lambda>r. r\<lparr>sema_val := sema_val r - 1\<rparr>) k\<lparr>level := old_level\<rparr>"
  have "same_view k ?k" by (auto simp: same_view_def kdefs waits_def st_def prio_def is_thread_def)
  then have "sched_inv ?k" using assms(1) sched_inv_cong by blast
  moreover have "sema_down_loop s old_level k = Inr ?k"
    using False assms(4)
    by (cases old_level) (auto simp: sema_down_loop_def intr_set_level_def intr_enable_def intr_disable_def kdefs)
  ultimately show ?thesis using False by auto
qed


section \<open>Effects on semaphores, locks and stacks\<close>

text \<open>
  Besides the invariant, each lemma below says what a routine does to the semaphore values, the
  locks, the condition variables and the stacks; \<open>same_rest\<close> collects what never changes.
\<close>

definition vals :: "kernel \<Rightarrow> addr \<Rightarrow> 32 word" where
  "vals k s = sema_val (semas k s)"

definition dead :: "kernel \<Rightarrow> addr \<Rightarrow> bool" where
  "dead k t \<longleftrightarrow> \<not> is_thread k t \<or> st k t = THREAD_DYING"

text \<open>A thread that is being created: blocked, and in no list.\<close>

definition embryo :: "kernel \<Rightarrow> addr \<Rightarrow> bool" where
  "embryo k t \<longleftrightarrow> is_thread k t \<and> st k t = THREAD_BLOCKED \<and> t \<noteq> idle_thread k
     \<and> t \<notin> set (waiting_threads k) \<and> (\<forall>s. t \<notin> set (waits k s))"

definition same_rest :: "kernel \<Rightarrow> kernel \<Rightarrow> bool" where
  "same_rest k k' \<longleftrightarrow> tid_lock k' = tid_lock k \<and> idle_thread k' = idle_thread k \<and> thread_mlfqs k' = thread_mlfqs k
     \<and> in_external_intr k' = in_external_intr k \<and> dead k' = dead k \<and> (\<forall>t. embryo k t \<longrightarrow> embryo k' t)"

definition holders :: "kernel \<Rightarrow> addr \<Rightarrow> addr" where
  "holders k l = holder (lock_at k l)"

definition pushed :: "frame list \<Rightarrow> kernel \<Rightarrow> addr \<Rightarrow> frame list" where
  "pushed fs k = (frames k)(current k := fs @ frames k (current k))"

lemma same_rest_refl [simp]: "same_rest k k"
  by (simp add: same_rest_def)

lemma same_rest_trans: "same_rest k k' \<Longrightarrow> same_rest k' k'' \<Longrightarrow> same_rest k k''"
  by (simp add: same_rest_def)

text \<open>A call that keeps the invariant, with its effects: values, holders, conditions, stacks.\<close>

definition effect ::
  "kernel \<Rightarrow> (addr \<Rightarrow> 32 word) \<Rightarrow> (addr \<Rightarrow> addr) \<Rightarrow> (addr \<Rightarrow> addr list) \<Rightarrow> (addr \<Rightarrow> frame list) \<Rightarrow> kernel \<Rightarrow> bool" where
  "effect k v h c fs k' \<longleftrightarrow> sched_inv k' \<and> same_rest k k' \<and> vals k' = v \<and> holders k' = h \<and> conds k' = c \<and> frames k' = fs"

lemma dead_switched:
  "is_thread k n \<Longrightarrow> st k n \<noteq> THREAD_DYING \<Longrightarrow> dead (switched n rest k) = dead k"
  by (auto simp: dead_def is_thread_switched st_switched fun_eq_iff)

lemma schedule_target:
  assumes "switch_pre k"
  shows "\<exists>n rest. schedule k = Inr (switched n rest k) \<and> sched_inv (switched n rest k)
     \<and> dead (switched n rest k) = dead k \<and> (\<forall>t. embryo k t \<longrightarrow> embryo (switched n rest k) t)"
proof -
  let ?n = "hd (ready_list k @ [idle_thread k])" and ?r = "tl (ready_list k)"
  obtain n rest where n: "schedule k = Inr (switched n rest k)" "sched_inv (switched n rest k)"
    using schedule_inv [OF assms] by blast
  have "is_thread k ?n" "st k ?n \<noteq> THREAD_DYING"
    using assms by (cases "ready_list k"; auto simp: switch_pre_def lists_ok_def idle_ok_def in_state_def)+
  then have "dead (switched ?n ?r k) = dead k" by (rule dead_switched)
  moreover have "embryo k t \<longrightarrow> embryo (switched ?n ?r k) t" for t
    using assms by (cases "ready_list k")
      (auto simp: embryo_def is_thread_switched st_switched switch_pre_def lists_ok_def in_state_def)
  moreover have "switched n rest k = switched ?n ?r k" using n(1) schedule_eq [OF assms] by simp
  ultimately show ?thesis using n by metis
qed

lemma thread_yield_effect:
  assumes "sched_inv k" and "\<not> in_external_intr k"
  shows "\<exists>k'. thread_yield k = Inr k' \<and> effect k (vals k) (holders k) (conds k) (pushed [F_set_level (level k)] k) k'"
proof -
  obtain n rest where n: "schedule (yielding k) = Inr (switched n rest (yielding k))"
      "sched_inv (switched n rest (yielding k))" "dead (switched n rest (yielding k)) = dead (yielding k)"
      "\<forall>t. embryo (yielding k) t \<longrightarrow> embryo (switched n rest (yielding k)) t"
    using schedule_target [OF switch_pre_yielding [OF assms(1)]] by blast
  have y: "vals (yielding k) = vals k" "holders (yielding k) = holders k" "conds (yielding k) = conds k"
      "frames (yielding k) = pushed [F_set_level (level k)] k" "tid_lock (yielding k) = tid_lock k"
      "idle_thread (yielding k) = idle_thread k" "thread_mlfqs (yielding k) = thread_mlfqs k"
      "in_external_intr (yielding k) = in_external_intr k"
    by (auto simp: yielding_def Let_def vals_def holders_def pushed_def kdefs fun_eq_iff)
  have "dead (yielding k) = dead k"
    using sched_inv_current [OF assms(1)]
    by (auto simp: dead_def yielding_def Let_def st_def is_thread_def kdefs fun_eq_iff)
  moreover have "embryo k t \<longrightarrow> embryo (yielding k) t" for t
    using sched_inv_current [OF assms(1)]
    by (auto simp: embryo_def yielding_def Let_def st_def is_thread_def waits_def kdefs)
  ultimately show ?thesis using n y thread_yield_eq [OF assms]
    by (auto simp: effect_def same_rest_def vals_def holders_def fun_eq_iff)
qed

text \<open>Waking a thread that has been taken out of its list.\<close>

definition woken :: "addr \<Rightarrow> kernel \<Rightarrow> kernel" where
  "woken t k = set_thr t (\<lambda>r. r\<lparr>status := THREAD_READY\<rparr>)
     (k\<lparr>ready_list := insert_ord (thread_cmp_priority k) t (ready_list k)\<rparr>)"

lemma thread_unblock_eq:
  assumes "is_thread k t" and "st k t = THREAD_BLOCKED" and "in_external_intr k \<longrightarrow> level k = INTR_OFF"
  shows "thread_unblock t k = Inr (woken t k)"
proof -
  have same: "k\<lparr>level := INTR_OFF\<rparr>\<lparr>ready_list := xs\<rparr>\<lparr>level := level k\<rparr> = k\<lparr>ready_list := xs\<rparr>" for xs
    by (simp add: kernel.equality)
  have cmp: "thread_cmp_priority (k\<lparr>level := INTR_OFF\<rparr>) = thread_cmp_priority k"
    by (rule view_thr(4)) simp
  show ?thesis
    using assms cmp same
    by (cases "level k") (auto simp: thread_unblock_def intr_disable_def intr_set_level_def intr_enable_def
        st_def Let_def woken_def kdefs intro!: kernel.equality)
qed

lemma woken_inv:
  assumes "sched_inv k" and "is_thread k t" and "st k t = THREAD_BLOCKED" and "t \<noteq> idle_thread k"
    and "t \<notin> set (waiting_threads k)" and "\<And>s. t \<notin> set (waits k s)"
  shows "sched_inv (woken t k)"
proof -
  have lists: "lists_ok k" "idle_ok k" "sorted_ready k" and run: "\<And>u. runs k u \<longleftrightarrow> u = current k"
    using assms(1) by (auto simp: sched_inv_def)
  have nr: "t \<notin> set (ready_list k)" using lists(1) assms(3) by (auto simp: lists_ok_def in_state_def)
  have v: "st (woken t k) u = (if u = t then THREAD_READY else st k u)" "is_thread (woken t k) u = is_thread k u"
      "waits (woken t k) = waits k" "waiting_threads (woken t k) = waiting_threads k"
      "idle_thread (woken t k) = idle_thread k" "current (woken t k) = current k"
      "thread_mlfqs (woken t k) = thread_mlfqs k" "prio (woken t k) = prio k"
      "ready_list (woken t k) = insert_ord (thread_cmp_priority k) t (ready_list k)" for u
    by (auto simp: woken_def st_def is_thread_def prio_def waits_def kdefs fun_eq_iff)
  have "lists_ok (woken t k)"
    using lists(1) nr assms(2,5,6) by (auto simp: lists_ok_def in_state_def v)
  moreover have "idle_ok (woken t k)" using lists(2) assms(4) by (auto simp: idle_ok_def v)
  moreover have "sorted_ready (woken t k)"
    using lists(3) sorted_insert_ready [of k "ready_list k" t] by (auto simp: sorted_ready_alt v sorted_by_priority)
  moreover have "runs (woken t k) u \<longleftrightarrow> u = current k" for u
    using run [of u] assms(3) by (auto simp: runs_def v)
  ultimately show ?thesis by (simp add: sched_inv_def v)
qed

lemma dequeue_inv:
  assumes "sched_inv k" and "mset (t # ts) = mset (waits k s)"
  defines "k1 \<equiv> set_sema s (\<lambda>r. r\<lparr>waiters := ts\<rparr>) k"
  shows "sched_inv k1" and "is_thread k1 t" and "st k1 t = THREAD_BLOCKED" and "t \<noteq> idle_thread k1"
    and "t \<notin> set (waiting_threads k1)" and "t \<notin> set (waits k1 u)"
proof -
  have lists: "lists_ok k" "idle_ok k" "sorted_ready k" and run: "\<And>u. runs k u \<longleftrightarrow> u = current k"
    using assms(1) by (auto simp: sched_inv_def)
  have d: "distinct (t # ts)" using assms(2) lists(1) by (metis lists_ok_def in_state_def mset_eq_imp_distinct_iff)
  have set: "set (waits k s) = insert t (set ts)" using assms(2) by (metis list.set(2) mset_eq_setD)
  have v: "thr k1 = thr k" "waits k1 u = (if u = s then ts else waits k u)" "ready_list k1 = ready_list k"
    "waiting_threads k1 = waiting_threads k" "idle_thread k1 = idle_thread k" "current k1 = current k"
    "thread_mlfqs k1 = thread_mlfqs k" for u
    by (auto simp: k1_def waits_def kdefs)
  note vt = view_thr [OF v(1)]
  have bl: "in_state k THREAD_BLOCKED (waits k s)" using lists(1) by (simp add: lists_ok_def)
  have "in_state k THREAD_BLOCKED ts" using bl d set by (auto simp: in_state_def)
  moreover have "set (waits k u) \<inter> set ts = {}" if "u \<noteq> s" for u
    using lists(1) set that unfolding lists_ok_def by fastforce
  moreover have "set ts \<inter> set (waiting_threads k) = {}"
    using lists(1) set unfolding lists_ok_def by fastforce
  ultimately have "lists_ok k1"
    using lists(1) unfolding lists_ok_def v vt by (simp add: Int_commute)
  moreover have "idle_ok k1" using lists(2) set unfolding idle_ok_def v vt by (metis insert_iff)
  moreover have "sorted_ready k1" using lists(3) by (simp add: sorted_ready_alt v vt)
  ultimately show "sched_inv k1" using run by (simp add: sched_inv_def v vt)
  show "is_thread k1 t" "st k1 t = THREAD_BLOCKED" using bl set by (auto simp: in_state_def vt)
  have in_s: "t \<in> set (waits k s)" using set by simp
  show "t \<noteq> idle_thread k1" using lists(2) in_s unfolding v(5) idle_ok_def by metis
  show "t \<notin> set (waiting_threads k1)" using lists(1) in_s unfolding v(4) lists_ok_def by blast
  show "t \<notin> set (waits k1 u)"
  proof (cases "u = s")
    case True
    then show ?thesis using d by (simp add: v(2))
  next
    case False
    then have "set (waits k u) \<inter> set (waits k s) = {}" using lists(1) by (simp add: lists_ok_def)
    then show ?thesis using False in_s unfolding v(2) by auto
  qed
qed

lemma sema_up_effect:
  assumes "sched_inv k" and "\<not> in_external_intr k" and "s \<noteq> NULL"
  shows "\<exists>k'. sema_up s k = Inr k' \<and>
     effect k ((vals k)(s := vals k s + 1)) (holders k) (conds k) (pushed [F_set_level INTR_OFF, F_set_level (level k)] k) k'"
proof -
  define k0 where "k0 = k\<lparr>level := INTR_OFF\<rparr>"
  have inv0: "sched_inv k0"
    using assms(1) sched_inv_cong [of k k0]
    by (simp add: k0_def same_view_def st_def prio_def is_thread_def waits_def fun_eq_iff)
  define k1 where "k1 = (case stable_sort (thread_cmp_priority k0) (waits k0 s) of
      [] \<Rightarrow> k0 | t # ts \<Rightarrow> woken t (set_sema s (\<lambda>r. r\<lparr>waiters := ts\<rparr>) k0))"
  have k1: "sched_inv k1 \<and> level k1 = INTR_OFF \<and> dead k1 = dead k \<and> (\<forall>t. embryo k t \<longrightarrow> embryo k1 t)
    \<and> (case stable_sort (thread_cmp_priority k0) (waiters (semas k0 s)) of
          [] \<Rightarrow> Inr k0
        | t # ts \<Rightarrow> thread_unblock t (set_sema s (\<lambda>r. r\<lparr>waiters := ts\<rparr>) k0)) = Inr k1"
  proof (cases "stable_sort (thread_cmp_priority k0) (waits k0 s)")
    case Nil
    then show ?thesis using inv0
      by (auto simp: k1_def k0_def waits_def dead_def embryo_def st_def is_thread_def fun_eq_iff)
  next
    case (Cons t ts)
    then have m: "mset (t # ts) = mset (waits k0 s)" by (metis mset_stable_sort)
    note d = dequeue_inv [OF inv0 m]
    have "waits k0 = waits k" by (simp add: k0_def waits_def fun_eq_iff)
    then have "set (waits k s) = insert t (set ts)" using mset_eq_setD [OF m] by simp
    then have "embryo k u \<longrightarrow> embryo k1 u" for u
      using Cons by (auto simp: k1_def k0_def embryo_def woken_def st_def is_thread_def waits_def kdefs)
    moreover
    have "level (set_sema s (\<lambda>r. r\<lparr>waiters := ts\<rparr>) k0) = INTR_OFF" by (simp add: k0_def kdefs)
    moreover have "dead k1 = dead k"
      using Cons d(2,3) by (auto simp: k1_def k0_def dead_def woken_def st_def is_thread_def kdefs fun_eq_iff)
    ultimately show ?thesis
      using Cons woken_inv [OF d(1-6)] thread_unblock_eq [OF d(2,3)]
      by (auto simp: k1_def waits_def woken_def kdefs)
  qed
  define k2 where "k2 = push_frame (F_set_level (level k)) (set_sema s (\<lambda>r. r\<lparr>sema_val := sema_val r + 1\<rparr>) k1)"
  have e: "sema_up s k = thread_yield k2"
    using assms(3) k1 by (simp add: sema_up_def intr_disable_def k2_def k0_def [symmetric])
  have f1: "vals k1 = vals k" "holders k1 = holders k" "conds k1 = conds k" "frames k1 = frames k"
      "tid_lock k1 = tid_lock k" "idle_thread k1 = idle_thread k" "thread_mlfqs k1 = thread_mlfqs k"
      "in_external_intr k1 = in_external_intr k" "current k1 = current k"
    by (auto simp: k1_def k0_def vals_def holders_def woken_def kdefs fun_eq_iff split: list.splits)
  have same: "same_view k1 k2" by (auto simp: k2_def same_view_def st_def prio_def is_thread_def waits_def kdefs)
  then have inv2: "sched_inv k2" using k1 sched_inv_cong by blast
  have f2: "vals k2 = (vals k)(s := vals k s + 1)" "holders k2 = holders k" "conds k2 = conds k"
      "frames k2 = pushed [F_set_level (level k)] k" "current k2 = current k" "level k2 = INTR_OFF"
      "in_external_intr k2 = in_external_intr k" "tid_lock k2 = tid_lock k" "idle_thread k2 = idle_thread k"
      "thread_mlfqs k2 = thread_mlfqs k" "dead k2 = dead k" "\<forall>t. embryo k t \<longrightarrow> embryo k2 t"
    using f1 k1 same
    by (auto simp: k2_def vals_def holders_def pushed_def same_view_def dead_def embryo_def kdefs fun_eq_iff)
  obtain k' where k': "thread_yield k2 = Inr k'"
      "effect k2 (vals k2) (holders k2) (conds k2) (pushed [F_set_level (level k2)] k2) k'"
    using thread_yield_effect [OF inv2] assms(2) f2 by auto
  moreover have "pushed [F_set_level (level k2)] k2 = pushed [F_set_level INTR_OFF, F_set_level (level k)] k"
    using f2 by (auto simp: pushed_def fun_eq_iff)
  ultimately show ?thesis using e f2 by (auto simp: effect_def same_rest_def)
qed


lemma sched_inv_level: "sched_inv (k\<lparr>level := l\<rparr>) \<longleftrightarrow> sched_inv k"
  by (rule sched_inv_cong) (simp add: same_view_def st_def prio_def is_thread_def waits_def fun_eq_iff)

lemma sema_down_effect:
  assumes "sched_inv k" and "current k \<noteq> idle_thread k" and "\<not> in_external_intr k" and "level k = INTR_OFF"
  shows "\<exists>k'. sema_down_loop s old k = Inr k' \<and>
     (if vals k s = 0 then effect k (vals k) (holders k) (conds k) (pushed [F_sema_down s old] k) k'
      else effect k ((vals k)(s := vals k s - 1)) (holders k) (conds k) (frames k) k')"
proof (cases "vals k s = 0")
  case True
  let ?w = "sema_waiting s old k"
  let ?k1 = "push_frame (F_sema_down s old)
         (set_sema s (\<lambda>r. r\<lparr>waiters := insert_ord (thread_cmp_priority k) (current k) (waiters r)\<rparr>) k)"
  have "thread_block ?k1 = schedule ?w"
    using thread_block_eq [of ?k1] sched_inv_current [OF assms(1)] assms by (simp add: sema_waiting_def kview)
  moreover obtain n rest where n: "schedule ?w = Inr (switched n rest ?w)" "sched_inv (switched n rest ?w)"
      "dead (switched n rest ?w) = dead ?w" "\<forall>t. embryo ?w t \<longrightarrow> embryo (switched n rest ?w) t"
    using schedule_target [OF switch_pre_sema_waiting [OF assms(1,4,2)]] by blast
  moreover have "dead ?w = dead k"
    using sched_inv_current [OF assms(1)] by (auto simp: dead_def sema_waiting_def st_def is_thread_def kdefs fun_eq_iff)
  moreover have "embryo k t \<longrightarrow> embryo ?w t" for t
    using sched_inv_current [OF assms(1)]
    by (auto simp: embryo_def sema_waiting_def st_def is_thread_def waits_def kdefs)
  moreover have "vals ?w = vals k" "holders ?w = holders k" "conds ?w = conds k" "frames ?w = pushed [F_sema_down s old] k"
      "tid_lock ?w = tid_lock k" "idle_thread ?w = idle_thread k" "thread_mlfqs ?w = thread_mlfqs k"
      "in_external_intr ?w = in_external_intr k"
    by (auto simp: sema_waiting_def vals_def holders_def pushed_def kdefs fun_eq_iff)
  ultimately show ?thesis
    using True thread_current_inv [OF assms(1)]
    by (auto simp: sema_down_loop_def vals_def Let_def effect_def same_rest_def holders_def fun_eq_iff)
next
  case False
  then obtain k' where k': "sema_down_loop s old k = Inr k'" "sched_inv k'"
      "k' = set_sema s (\<lambda>r. r\<lparr>sema_val := sema_val r - 1\<rparr>) k\<lparr>level := old\<rparr>"
    using sema_down_loop_inv [OF assms(1,4,2,3), of s old] by (auto simp: vals_def)
  then show ?thesis using False
    by (auto simp: effect_def same_rest_def vals_def holders_def dead_def embryo_def waits_def st_def is_thread_def kdefs
        fun_eq_iff)
qed

lemma sema_down_call_effect:
  assumes "sched_inv k" and "current k \<noteq> idle_thread k" and "\<not> in_external_intr k" and "s \<noteq> NULL"
  shows "\<exists>k'. sema_down s k = Inr k' \<and>
     (if vals k s = 0 then effect k (vals k) (holders k) (conds k) (pushed [F_sema_down s (level k)] k) k'
      else effect k ((vals k)(s := vals k s - 1)) (holders k) (conds k) (frames k) k')"
proof -
  let ?k = "k\<lparr>level := INTR_OFF\<rparr>"
  have "sema_down s k = sema_down_loop s (level k) ?k"
    using assms(3,4) by (simp add: sema_down_def intr_context_def intr_disable_def)
  moreover have "vals ?k = vals k" "holders ?k = holders k" "conds ?k = conds k" "frames ?k = frames k"
      "pushed fs ?k = pushed fs k" "same_rest ?k k' = same_rest k k'" "dead ?k = dead k" for fs k'
    by (auto simp: vals_def holders_def pushed_def same_rest_def dead_def embryo_def waits_def st_def is_thread_def fun_eq_iff)
  moreover have "sched_inv ?k" using assms(1) by (simp add: sched_inv_level)
  ultimately show ?thesis using sema_down_effect [of ?k s "level k"] assms by (auto simp: effect_def)
qed

section \<open>Donation\<close>

text \<open>Changing the priority of a thread and sorting the ready list again if the thread is in it.\<close>

definition resorted :: "addr \<Rightarrow> (thread \<Rightarrow> thread) \<Rightarrow> kernel \<Rightarrow> kernel" where
  "resorted h g k =
     (let k1 = set_thr h g k in
      if status (thr k1 h) = THREAD_READY
      then k1\<lparr>ready_list := stable_sort (thread_cmp_priority k1) (ready_list k1)\<rparr> else k1)"

lemma resorted_effect:
  assumes "sched_inv k" and "\<And>r. status (g r) = status r" and "\<And>r. magic (g r) = magic r"
  shows "effect k (vals k) (holders k) (conds k) (frames k) (resorted h g k)"
    and "current (resorted h g k) = current k" and "level (resorted h g k) = level k"
    and "lock_at (resorted h g k) = lock_at k" and "prio (resorted h g k) t = (if t = h then priority (g (thr k h)) else prio k t)"
proof -
  let ?k = "resorted h g k" and ?k1 = "set_thr h g k"
  have lists: "lists_ok k" "idle_ok k" "sorted_ready k" and run: "\<And>u. runs k u \<longleftrightarrow> u = current k"
    using assms(1) by (auto simp: sched_inv_def)
  have thr: "thr ?k = (thr k)(h := g (thr k h))" by (auto simp: resorted_def Let_def kdefs)
  have v: "st ?k u = st k u" "is_thread ?k u = is_thread k u" for u
    using assms(2,3) by (auto simp: st_def is_thread_def thr)
  have vf: "waits ?k = waits k" "waiting_threads ?k = waiting_threads k" "idle_thread ?k = idle_thread k"
      "thread_mlfqs ?k = thread_mlfqs k" "set (ready_list ?k) = set (ready_list k)"
      "distinct (ready_list ?k) = distinct (ready_list k)" "vals ?k = vals k" "holders ?k = holders k"
      "conds ?k = conds k" "frames ?k = frames k" "tid_lock ?k = tid_lock k" "in_external_intr ?k = in_external_intr k"
    by (auto simp: resorted_def Let_def waits_def vals_def holders_def kdefs fun_eq_iff)
  show cur: "current ?k = current k" and "level ?k = level k" and "lock_at ?k = lock_at k"
    by (auto simp: resorted_def Let_def kdefs)
  show pr: "prio ?k t = (if t = h then priority (g (thr k h)) else prio k t)" for t by (simp add: prio_def thr)
  have "sorted_ready ?k"
  proof (cases "st k h = THREAD_READY")
    case True
    have c: "thread_cmp_priority ?k = thread_cmp_priority ?k1"
      by (rule view_thr(4)) (simp add: resorted_def Let_def)
    have "ready_list ?k = stable_sort (thread_cmp_priority ?k1) (ready_list ?k1)"
      using True assms(2) by (simp add: resorted_def Let_def kdefs st_def)
    then show ?thesis using thread_prio.sorted_stable_sort unfolding sorted_ready_def c by simp
  next
    case False
    then have "h \<notin> set (ready_list k)" using lists(1) by (auto simp: lists_ok_def in_state_def)
    moreover have "ready_list ?k = ready_list k" using False assms(2) by (simp add: resorted_def Let_def kdefs st_def)
    ultimately have "map (prio ?k) (ready_list ?k) = map (prio k) (ready_list k)" by (auto simp: pr)
    then show ?thesis using lists(3) unfolding sorted_ready_alt vf by (simp only:)
  qed
  moreover have "lists_ok ?k" using lists(1) by (auto simp: lists_ok_def in_state_def v vf)
  moreover have "idle_ok ?k" using lists(2) by (simp add: idle_ok_def v vf)
  moreover have "runs ?k u \<longleftrightarrow> u = current k" for u using run [of u] by (simp add: runs_def v)
  ultimately have "sched_inv ?k" by (simp add: sched_inv_def cur)
  moreover have "dead ?k = dead k" "embryo ?k = embryo k" by (simp_all add: dead_def embryo_def v vf fun_eq_iff)
  ultimately show "effect k (vals k) (holders k) (conds k) (frames k) ?k"
    by (simp add: effect_def same_rest_def vf)
qed

text \<open>The new record of a thread whose priority is recomputed.\<close>

definition upd_prio :: "kernel \<Rightarrow> thread \<Rightarrow> thread" where
  "upd_prio k r = (case stable_sort (lock_cmp_priority k) (locks r) of
      [] \<Rightarrow> r\<lparr>priority := base_priority r\<rparr>
    | l # ls \<Rightarrow> r\<lparr>locks := l # ls, priority := max (base_priority r) (max_priority (lock_at k l))\<rparr>)"

lemma thread_update_priority_eq:
  "t \<noteq> NULL \<Longrightarrow> thread_update_priority t k = Inr (set_thr t (upd_prio k) k)"
  by (auto simp: thread_update_priority_def upd_prio_def kdefs max_def Let_def split: list.splits intro!: kernel.equality)

lemma upd_prio_same [simp]: "status (upd_prio k r) = status r" "magic (upd_prio k r) = magic r"
  "base_priority (upd_prio k r) = base_priority r" "lock_waiting (upd_prio k r) = lock_waiting r"
  "set (locks (upd_prio k r)) = set (locks r)"
  by (auto simp: upd_prio_def split: list.splits) (metis list.set_intros set_stable_sort set_ConsD list.set(2) insertE)+

text \<open>The priority of a thread is the maximum of its own and of the locks it holds.\<close>

lemma upd_prio_max:
  "priority (upd_prio k r) = Max (insert (base_priority r) ((\<lambda>l. max_priority (lock_at k l)) ` set (locks r)))"
proof (cases "stable_sort (lock_cmp_priority k) (locks r)")
  case Nil
  then have "set (locks r) = {}" by (metis list.set(1) set_stable_sort)
  then show ?thesis using Nil by (simp add: upd_prio_def)
next
  case (Cons l ls)
  let ?P = "\<lambda>l. max_priority (lock_at k l)"
  have set: "set (locks r) = insert l (set ls)" using Cons by (metis list.set(2) set_stable_sort)
  have "sorted_by (lock_cmp_priority k) (l # ls)" using Cons lock_prio.sorted_stable_sort by metis
  then have "\<forall>x\<in>set ls. ?P x \<le> ?P l" by (auto simp: sorted_by_Cons lock_cmp_priority_def not_less)
  then have "Max (?P ` set (locks r)) = ?P l" unfolding set by (auto intro!: Max_eqI)
  then have "Max (insert (base_priority r) (?P ` set (locks r))) = max (base_priority r) (?P l)"
    using set by (simp add: Max_insert)
  then show ?thesis using Cons by (simp add: upd_prio_def)
qed

lemma donate_once_eq:
  assumes "sched_inv k" and "holder (lock_at k l) \<noteq> NULL"
  defines "h \<equiv> holder (lock_at k l)"
  shows "donate_once l k = Inr (
     if max_priority (lock_at k l) < prio k (current k)
     then let k1 = set_lock l (\<lambda>r. r\<lparr>max_priority := prio k (current k)\<rparr>) k in resorted h (upd_prio k1) k1
     else resorted h id k)"
proof -
  have id: "set_thr h id k = k" by (simp add: kdefs)
  show ?thesis
    using assms(2) id thread_current_inv [OF assms(1)]
    by (auto simp: donate_once_def thread_update_priority_eq prio_def resorted_def Let_def kdefs h_def)
qed

end
