(* ===== verification/Donation.thy ===== *)
theory Donation
  imports Sched_Invariant
begin

text \<open>
  Priority donation (threads/thread.c, project 1): along a chain of locks that ends, every lock
  and every holder gets at least the priority of the thread that waits, the scheduling invariant
  is kept, and on a chain that comes back to a lock the recursion does not end.
\<close>

section \<open>Donation keeps the scheduling invariant\<close>

definition quiet :: "kernel \<Rightarrow> kernel \<Rightarrow> bool" where
  "quiet k k' \<longleftrightarrow> effect k (vals k) (holders k) (conds k) (frames k) k'
     \<and> current k' = current k \<and> level k' = level k"

lemma quiet_trans: "quiet k k' \<Longrightarrow> quiet k' k'' \<Longrightarrow> quiet k k''"
  by (auto simp: quiet_def effect_def same_rest_def)

lemma set_lock_quiet:
  assumes "sched_inv k" and "\<And>r. holder (g r) = holder r"
  shows "quiet k (set_lock l g k)"
proof -
  have "same_view k (set_lock l g k)" by (auto simp: same_view_def st_def prio_def is_thread_def waits_def kdefs)
  then have "sched_inv (set_lock l g k)" using assms(1) sched_inv_cong by blast
  then show ?thesis
    using assms(2) by (auto simp: quiet_def effect_def same_rest_def vals_def holders_def dead_def embryo_def waits_def st_def
        is_thread_def kdefs fun_eq_iff)
qed

lemma resorted_quiet:
  "sched_inv k \<Longrightarrow> (\<And>r. status (g r) = status r) \<Longrightarrow> (\<And>r. magic (g r) = magic r) \<Longrightarrow> quiet k (resorted h g k)"
  using resorted_effect [of k g h] by (simp add: quiet_def)

lemma donate_once_holder:
  assumes "sched_inv k" and "donate_once l k = Inr k'"
  shows "holder (lock_at k l) \<noteq> NULL"
proof
  assume "holder (lock_at k l) = NULL"
  then show False using assms thread_current_inv [OF assms(1)]
    by (auto simp: donate_once_def thread_update_priority_def kdefs split: if_splits)
qed

lemma donate_once_quiet:
  assumes "sched_inv k" and "donate_once l k = Inr k'"
  shows "quiet k k'"
proof -
  let ?k1 = "set_lock l (\<lambda>r. r\<lparr>max_priority := prio k (current k)\<rparr>) k"
  have q: "quiet k ?k1" using assms(1) by (rule set_lock_quiet) simp
  then have "sched_inv ?k1" by (simp add: quiet_def effect_def)
  then have "quiet ?k1 (resorted (holder (lock_at k l)) (upd_prio ?k1) ?k1)" by (rule resorted_quiet) simp_all
  then have "quiet k (resorted (holder (lock_at k l)) (upd_prio ?k1) ?k1)" using q by (rule quiet_trans [rotated])
  moreover have "quiet k (resorted (holder (lock_at k l)) id k)" using assms(1) by (rule resorted_quiet) simp_all
  ultimately show ?thesis
    using donate_once_eq [OF assms(1) donate_once_holder [OF assms]] assms(2) by (auto simp: Let_def split: if_splits)
qed

lemma thread_donate_priority_quiet:
  assumes "thread_donate_priority l k = Some r"
  shows "sched_inv k \<longrightarrow> r = Inr k' \<longrightarrow> quiet k k'"
proof (rule thread_donate_priority.raw_induct [OF _ assms, of "\<lambda>l k r. sched_inv k \<longrightarrow> r = Inr k' \<longrightarrow> quiet k k'"],
    intro impI)
  fix rec l k r
  assume IH: "\<And>l k r. rec l k = Some r \<Longrightarrow> sched_inv k \<longrightarrow> r = Inr k' \<longrightarrow> quiet k k'"
    and body: "(case donate_once l k of Inl e \<Rightarrow> Some (Inl e)
      | Inr k' \<Rightarrow> if lock_waiting (thr k' (holder (lock_at k' l))) \<noteq> NULL
          then rec (lock_waiting (thr k' (holder (lock_at k' l)))) k' else Some (Inr k')) = Some r"
    and k: "sched_inv k" and r: "r = Inr k'"
  show "quiet k k'"
  proof (cases "donate_once l k")
    case (Inl e)
    then show ?thesis using body r by simp
  next
    case (Inr k1)
    have q: "quiet k k1" using donate_once_quiet [OF k Inr] .
    then have "sched_inv k1" by (simp add: quiet_def effect_def)
    then show ?thesis
      using body r Inr q quiet_trans [OF q] IH [of "lock_waiting (thr k1 (holder (lock_at k1 l)))" k1 r]
      by (auto split: if_splits)
  qed
qed

lemma donate_quiet: "sched_inv k \<Longrightarrow> donate l k = Inr k' \<Longrightarrow> quiet k k'"
  using thread_donate_priority_quiet by (auto simp: donate_def split: option.splits)

section \<open>The chain of locks\<close>

inductive donation_chain :: "kernel \<Rightarrow> addr \<Rightarrow> addr list \<Rightarrow> bool" for k where
  chain_end: "holder (lock_at k l) \<noteq> NULL \<Longrightarrow> lock_waiting (thr k (holder (lock_at k l))) = NULL
     \<Longrightarrow> donation_chain k l [l]"
| chain_next: "holder (lock_at k l) \<noteq> NULL \<Longrightarrow> lock_waiting (thr k (holder (lock_at k l))) = m \<Longrightarrow> m \<noteq> NULL
     \<Longrightarrow> donation_chain k m ms \<Longrightarrow> donation_chain k l (l # ms)"

inductive_cases donation_chainE: "donation_chain k l ls"

text \<open>The pointers that the chain follows are not changed by donation.\<close>

definition same_chain :: "kernel \<Rightarrow> kernel \<Rightarrow> bool" where
  "same_chain k k' \<longleftrightarrow> (\<forall>t. lock_waiting (thr k' t) = lock_waiting (thr k t) \<and> set (locks (thr k' t)) = set (locks (thr k t)))
     \<and> (\<forall>l. holder (lock_at k' l) = holder (lock_at k l))"

lemma donation_chain_cong:
  assumes "donation_chain k l ls" and "same_chain k k'"
  shows "donation_chain k' l ls"
  using assms(1)
proof (induction)
  case (chain_end l)
  then show ?case using assms(2) by (auto simp: same_chain_def intro: donation_chain.chain_end)
next
  case (chain_next l m ms)
  then show ?case using assms(2) by (auto simp: same_chain_def intro: donation_chain.chain_next)
qed

lemma resorted_same_chain:
  assumes "\<And>r. lock_waiting (g r) = lock_waiting r" and "\<And>r. set (locks (g r)) = set (locks r)"
  shows "same_chain k (resorted h g k)"
  using assms by (auto simp: same_chain_def resorted_def Let_def kdefs)

text \<open>
  A thread's priority is at least that of the locks it holds, and the lists of held locks
  agree with the holders.
\<close>

definition covers :: "kernel \<Rightarrow> bool" where
  "covers k \<longleftrightarrow> (\<forall>t l. l \<in> set (locks (thr k t)) \<longrightarrow>
     holder (lock_at k l) = t \<and> max_priority (lock_at k l) \<le> prio k t)"

lemma donate_once_spec:
  assumes "sched_inv k" and "covers k" and "l \<in> set (locks (thr k h))" and "h \<noteq> current k" and "h \<noteq> NULL"
  defines "p \<equiv> prio k (current k)"
  shows "\<exists>k'. donate_once l k = Inr k' \<and> quiet k k' \<and> covers k' \<and> same_chain k k'
     \<and> p \<le> max_priority (lock_at k' l) \<and> p \<le> prio k' h \<and> prio k' (current k') = p
     \<and> (\<forall>t. p \<le> prio k t \<longrightarrow> p \<le> prio k' t)
     \<and> (\<forall>m. p \<le> max_priority (lock_at k m) \<longrightarrow> p \<le> max_priority (lock_at k' m))"
proof -
  have hl: "holder (lock_at k l) = h" using assms(2,3) by (simp add: covers_def)
  then have nz: "holder (lock_at k l) \<noteq> NULL" using assms(5) by simp
  note eq = donate_once_eq [OF assms(1) nz, unfolded hl]
  show ?thesis
  proof (cases "max_priority (lock_at k l) < p")
    case True
    define k1 where "k1 = set_lock l (\<lambda>r. r\<lparr>max_priority := p\<rparr>) k"
    define k2 where "k2 = resorted h (upd_prio k1) k1"
    have d: "donate_once l k = Inr k2" using eq True by (simp add: k2_def k1_def Let_def p_def)
    have q: "quiet k k2" using donate_once_quiet [OF assms(1) d] .
    have "quiet k k1" unfolding k1_def by (rule set_lock_quiet [OF assms(1)]) simp
    then have inv1: "sched_inv k1" by (simp add: quiet_def effect_def)
    note re = resorted_effect [OF inv1, of "upd_prio k1" h, simplified]
    have lk: "lock_at k2 = (lock_at k)(l := (lock_at k l)\<lparr>max_priority := p\<rparr>)"
      using re(4) by (simp add: k2_def k1_def kdefs)
    have locks1: "locks (thr k1 t) = locks (thr k t)" "prio k1 t = prio k t" for t by (simp_all add: k1_def kdefs prio_def)
    have pr: "prio k2 t = (if t = h then priority (upd_prio k1 (thr k1 h)) else prio k t)" for t
      using re(5) locks1 by (simp add: k2_def)
    have locks2: "set (locks (thr k2 t)) = set (locks (thr k t))" for t
      using locks1 by (simp add: k2_def resorted_def Let_def kdefs)
    have mx: "max_priority (lock_at k1 m) \<le> prio k2 h" if "m \<in> set (locks (thr k h))" for m
      using that locks1 by (simp add: pr upd_prio_max)
    have lk1: "lock_at k1 = lock_at k2" by (simp add: lk k1_def kdefs)
    have "covers k2"
      unfolding covers_def
    proof (intro allI impI)
      fix t m
      assume m: "m \<in> set (locks (thr k2 t))"
      then have mt: "m \<in> set (locks (thr k t))" by (simp add: locks2)
      then have "holder (lock_at k m) = t" "max_priority (lock_at k m) \<le> prio k t" using assms(2) by (auto simp: covers_def)
      moreover have "m = l \<Longrightarrow> t = h" using calculation hl by simp
      ultimately show "holder (lock_at k2 m) = t \<and> max_priority (lock_at k2 m) \<le> prio k2 t"
        using mx [of m] mt by (auto simp: lk1 lk pr)
    qed
    moreover have "p \<le> prio k2 h" using mx [OF assms(3)] by (simp add: lk1 lk)
    moreover have "same_chain k k2"
      using resorted_same_chain [of "upd_prio k1" k1 h] by (auto simp: same_chain_def k2_def k1_def kdefs)
    ultimately show ?thesis using d q True assms(4) by (auto simp: lk pr p_def quiet_def)
  next
    case False
    then have d: "donate_once l k = Inr (resorted h id k)" using eq by (simp add: p_def)
    have q: "quiet k (resorted h id k)" using donate_once_quiet [OF assms(1) d] .
    have thr: "thr (resorted h id k) = thr k" "lock_at (resorted h id k) = lock_at k"
      by (auto simp: resorted_def Let_def kdefs)
    then have pr: "prio (resorted h id k) = prio k" by (simp add: prio_def fun_eq_iff)
    have "max_priority (lock_at k l) \<le> prio k h" using assms(2,3) by (auto simp: covers_def)
    then show ?thesis using d q False thr pr assms(2) by (auto simp: covers_def same_chain_def p_def quiet_def)
  qed
qed

lemma donation_spec:
  assumes "donation_chain k l ls" and "sched_inv k" and "covers k"
    and "\<And>m. m \<in> set ls \<Longrightarrow> m \<in> set (locks (thr k (holder (lock_at k m)))) \<and> holder (lock_at k m) \<noteq> current k"
  defines "p \<equiv> prio k (current k)"
  shows "\<exists>k'. thread_donate_priority l k = Some (Inr k') \<and> quiet k k' \<and> covers k' \<and> same_chain k k'
     \<and> (\<forall>m\<in>set ls. p \<le> max_priority (lock_at k' m) \<and> p \<le> prio k' (holder (lock_at k' m)))
     \<and> (\<forall>t. p \<le> prio k t \<longrightarrow> p \<le> prio k' t)
     \<and> (\<forall>m. p \<le> max_priority (lock_at k m) \<longrightarrow> p \<le> max_priority (lock_at k' m))"
  using assms(1-4) unfolding p_def
proof (induction ls arbitrary: k l rule: list.induct)
  case Nil
  then show ?case by (auto elim: donation_chainE)
next
  case (Cons m ls)
  let ?h = "holder (lock_at k l)" and ?p = "prio k (current k)"
  have ml: "m = l" and hn: "?h \<noteq> NULL" using Cons.prems(1) by (auto elim: donation_chainE)
  then have lin: "l \<in> set (locks (thr k ?h))" "?h \<noteq> current k" using Cons.prems(4) [of l] by auto
  obtain k1 where k1: "donate_once l k = Inr k1" "quiet k k1" "covers k1" "same_chain k k1"
      "?p \<le> max_priority (lock_at k1 l)" "?p \<le> prio k1 ?h" "prio k1 (current k1) = ?p"
      "\<forall>t. ?p \<le> prio k t \<longrightarrow> ?p \<le> prio k1 t"
      "\<forall>m. ?p \<le> max_priority (lock_at k m) \<longrightarrow> ?p \<le> max_priority (lock_at k1 m)"
    using donate_once_spec [OF Cons.prems(2,3) lin(1,2) hn] by blast
  have h1: "holder (lock_at k1 x) = holder (lock_at k x)" "lock_waiting (thr k1 t) = lock_waiting (thr k t)"
      "set (locks (thr k1 t)) = set (locks (thr k t))" for x t
    using k1(4) by (auto simp: same_chain_def)
  have c1: "current k1 = current k" "sched_inv k1" using k1(2) by (auto simp: quiet_def effect_def)
  show ?case
  proof (cases ls)
    case Nil
    then have "lock_waiting (thr k ?h) = NULL" using Cons.prems(1) by (auto elim: donation_chainE)
    then have "thread_donate_priority l k = Some (Inr k1)"
      using k1(1) h1 by (subst thread_donate_priority.simps) simp
    then show ?thesis using k1 Nil ml h1 by auto
  next
    case (Cons m' ls')
    then obtain w where w: "lock_waiting (thr k ?h) = w" "w \<noteq> NULL" "donation_chain k w ls"
      using Cons.prems(1) by (auto elim: donation_chainE)
    obtain k2 where k2: "thread_donate_priority w k1 = Some (Inr k2)" "quiet k1 k2" "covers k2" "same_chain k1 k2"
        "\<forall>m\<in>set ls. prio k1 (current k1) \<le> max_priority (lock_at k2 m) \<and> prio k1 (current k1) \<le> prio k2 (holder (lock_at k2 m))"
        "\<forall>t. prio k1 (current k1) \<le> prio k1 t \<longrightarrow> prio k1 (current k1) \<le> prio k2 t"
        "\<forall>m. prio k1 (current k1) \<le> max_priority (lock_at k1 m) \<longrightarrow> prio k1 (current k1) \<le> max_priority (lock_at k2 m)"
      using Cons.IH [OF donation_chain_cong [OF w(3) k1(4)] c1(2) k1(3)] Cons.prems(4) h1 c1(1) by auto
    have "thread_donate_priority l k = Some (Inr k2)"
      using k1(1) h1 w k2(1) by (subst thread_donate_priority.simps) simp
    moreover have "same_chain k k2" using k1(4) k2(4) by (simp add: same_chain_def)
    moreover have "holder (lock_at k2 l) = ?h" using k2(4) h1 by (simp add: same_chain_def)
    ultimately show ?thesis
      using k1 k2 ml quiet_trans [OF k1(2) k2(2)] by (auto simp: k1(7))
  qed
qed


section \<open>Donation on a cycle\<close>

lemma donate_once_same_chain:
  assumes "sched_inv k" and "donate_once l k = Inr k'"
  shows "same_chain k k'"
proof -
  let ?k1 = "set_lock l (\<lambda>r. r\<lparr>max_priority := prio k (current k)\<rparr>) k" and ?h = "holder (lock_at k l)"
  have "same_chain k ?k1" by (simp add: same_chain_def kdefs)
  then have "same_chain k (resorted ?h (upd_prio ?k1) ?k1)"
    using resorted_same_chain [of "upd_prio ?k1" ?k1 ?h] by (simp add: same_chain_def)
  moreover have "same_chain k (resorted ?h id k)" by (rule resorted_same_chain) simp_all
  ultimately show ?thesis
    using donate_once_eq [OF assms(1) donate_once_holder [OF assms]] assms(2) by (auto simp: Let_def split: if_splits)
qed

lemma donation_loops:
  assumes "sched_inv k" and "l \<noteq> NULL" and "lock_waiting (thr k (holder (lock_at k l))) = l" and "holder (lock_at k l) \<noteq> NULL"
  shows "thread_donate_priority l k = None"
proof (rule ccontr)
  assume "thread_donate_priority l k \<noteq> None"
  then obtain r where "thread_donate_priority l k = Some r" by blast
  then have "\<not> (sched_inv k \<and> l \<noteq> NULL \<and> lock_waiting (thr k (holder (lock_at k l))) = l \<and> holder (lock_at k l) \<noteq> NULL)"
  proof (rule thread_donate_priority.raw_induct [rotated], intro notI, elim conjE)
    fix rec l k r
    assume IH: "\<And>l k r. rec l k = Some r \<Longrightarrow>
        \<not> (sched_inv k \<and> l \<noteq> NULL \<and> lock_waiting (thr k (holder (lock_at k l))) = l \<and> holder (lock_at k l) \<noteq> NULL)"
      and body: "(case donate_once l k of Inl e \<Rightarrow> Some (Inl e)
        | Inr k' \<Rightarrow> if lock_waiting (thr k' (holder (lock_at k' l))) \<noteq> NULL
            then rec (lock_waiting (thr k' (holder (lock_at k' l)))) k' else Some (Inr k')) = Some r"
      and k: "sched_inv k" "l \<noteq> NULL" "lock_waiting (thr k (holder (lock_at k l))) = l" "holder (lock_at k l) \<noteq> NULL"
    obtain k1 where k1: "donate_once l k = Inr k1" using donate_once_eq [OF k(1,4)] by simp
    have "same_chain k k1" using donate_once_same_chain [OF k(1) k1] .
    moreover have "sched_inv k1" using donate_once_quiet [OF k(1) k1] by (simp add: quiet_def effect_def)
    ultimately show False using body k k1 IH [of l k1 r] by (auto simp: same_chain_def)
  qed
  then show False using assms by blast
qed

end
