(* ===== verification/Kernel_Effects.thy ===== *)
theory Kernel_Effects
  imports Donation
begin

text \<open>
  What each routine of threads/synch.c, threads/thread.c and devices/timer.c (project 1) does to
  the state as the invariants see it: it keeps the scheduling invariant and changes semaphore
  values, lock holders, condition variables and stacks as stated.
\<close>

section \<open>Small updates\<close>

lemma quietI:
  assumes "sched_inv k" and "same_view k k'" and "vals k' = vals k" and "holders k' = holders k" and "conds k' = conds k"
    and "frames k' = frames k" and "level k' = level k" and "tid_lock k' = tid_lock k" and "in_external_intr k' = in_external_intr k"
  shows "quiet k k'"
proof -
  have "dead k' = dead k" "embryo k' = embryo k"
    using assms(2) by (auto simp: same_view_def dead_def embryo_def fun_eq_iff)
  then show ?thesis
    using assms sched_inv_cong [OF assms(2)] by (auto simp: quiet_def effect_def same_rest_def same_view_def)
qed

lemma set_thr_quiet:
  assumes "sched_inv k" and "\<And>r. status (g r) = status r" and "\<And>r. magic (g r) = magic r"
    and "st k t \<noteq> THREAD_READY \<or> (\<forall>r. priority (g r) = priority r)"
  shows "quiet k (set_thr t g k)"
proof (cases "st k t = THREAD_READY")
  case False
  then have "resorted t g k = set_thr t g k" using assms(2) by (simp add: resorted_def st_def kdefs)
  then show ?thesis using resorted_quiet [OF assms(1-3)] by metis
next
  case True
  then have "same_view k (set_thr t g k)"
    using assms by (auto simp: same_view_def st_def prio_def is_thread_def waits_def kdefs)
  then show ?thesis
    by (rule quietI [OF assms(1)]) (auto simp: vals_def holders_def kdefs fun_eq_iff)
qed

lemma set_current_quiet:
  assumes "sched_inv k" and "\<And>r. status (g r) = status r" and "\<And>r. magic (g r) = magic r"
  shows "quiet k (set_thr (current k) g k)"
  using assms sched_inv_current(2) [OF assms(1)] by (intro set_thr_quiet) auto

lemma effect_quiet_left:
  assumes "quiet k k1" and "effect k1 v h c fs k'"
  shows "effect k v h c fs k'"
  using assms by (auto simp: quiet_def effect_def same_rest_def)

lemma quiet_same:
  assumes "quiet k k1"
  shows "vals k1 = vals k" "holders k1 = holders k" "conds k1 = conds k" "frames k1 = frames k"
    "current k1 = current k" "level k1 = level k" "sched_inv k1" "in_external_intr k1 = in_external_intr k"
    "idle_thread k1 = idle_thread k" "tid_lock k1 = tid_lock k" "thread_mlfqs k1 = thread_mlfqs k" "pushed fs k1 = pushed fs k"
  using assms by (auto simp: quiet_def effect_def same_rest_def pushed_def)

lemma effect_refl: "sched_inv k \<Longrightarrow> effect k (vals k) (holders k) (conds k) (frames k) k"
  by (simp add: effect_def)

lemma push_frame_view:
  "same_view k (push_frame fr k)" "dead (push_frame fr k) = dead k" "embryo (push_frame fr k) = embryo k"
  "vals (push_frame fr k) = vals k" "holders (push_frame fr k) = holders k" "pushed fs (push_frame fr k) = pushed (fs @ [fr]) k"
  "frames (push_frame fr k) = pushed [fr] k"
  by (auto simp: same_view_def dead_def embryo_def vals_def holders_def pushed_def st_def prio_def is_thread_def waits_def
      kdefs fun_eq_iff)

lemma effect_push:
  "effect (push_frame fr k) v h c fs k' \<longleftrightarrow> effect k v h c fs k'"
  by (simp add: effect_def same_rest_def push_frame_view fields_push_frame)

lemma sched_inv_push [simp]: "sched_inv (push_frame fr k) \<longleftrightarrow> sched_inv k"
  using sched_inv_cong [OF push_frame_view(1)] .

lemma level_view:
  "vals (k\<lparr>level := l\<rparr>) = vals k" "holders (k\<lparr>level := l\<rparr>) = holders k" "dead (k\<lparr>level := l\<rparr>) = dead k"
  "embryo (k\<lparr>level := l\<rparr>) = embryo k" "pushed fs (k\<lparr>level := l\<rparr>) = pushed fs k"
  by (auto simp: vals_def holders_def dead_def embryo_def pushed_def st_def is_thread_def waits_def fun_eq_iff)

lemma effect_level: "effect (k\<lparr>level := l\<rparr>) v h c fs k' \<longleftrightarrow> effect k v h c fs k'"
  by (simp add: effect_def same_rest_def level_view)

lemma effect_level_right: "effect k v h c fs (k'\<lparr>level := l\<rparr>) \<longleftrightarrow> effect k v h c fs k'"
  by (simp add: effect_def same_rest_def level_view sched_inv_level)

lemma intr_set_level_eq:
  "\<not> in_external_intr k \<Longrightarrow> \<exists>old. intr_set_level l k = Inr (old, k\<lparr>level := l\<rparr>)"
  by (cases l) (auto simp: intr_set_level_def intr_enable_def intr_disable_def)

section \<open>Semaphores\<close>

lemma sema_init_effect:
  assumes "sched_inv k" and "waits k s = []" and "sema_init s v k = Inr k'"
  shows "effect k ((vals k)(s := v)) (holders k) (conds k) (frames k) k'" "level k' = level k" "current k' = current k"
proof -
  have k': "k' = set_sema s (\<lambda>_. \<lparr>sema_val = v, waiters = []\<rparr>) k" using assms(3) by (auto simp: sema_init_def res_simps)
  then have "same_view k k'" using assms(2) by (auto simp: same_view_def st_def prio_def is_thread_def waits_def kdefs fun_eq_iff)
  then have "sched_inv k'" "dead k' = dead k" "embryo k' = embryo k"
    using assms(1) sched_inv_cong by (auto simp: same_view_def dead_def embryo_def fun_eq_iff)
  then show "effect k ((vals k)(s := v)) (holders k) (conds k) (frames k) k'"
    by (auto simp: effect_def same_rest_def k' vals_def holders_def kdefs fun_eq_iff)
qed (use assms(3) in \<open>auto simp: sema_init_def res_simps kdefs\<close>)

lemma sema_try_down_effect:
  assumes "sched_inv k" and "\<not> in_external_intr k" and "sema_try_down s k = Inr (b, k')"
  shows "b \<longleftrightarrow> vals k s \<noteq> 0" and "current k' = current k"
    and "effect k (if b then (vals k)(s := vals k s - 1) else vals k) (holders k) (conds k) (frames k) k'"
proof -
  let ?k = "if vals k s \<noteq> 0 then set_sema s (\<lambda>r. r\<lparr>sema_val := sema_val r - 1\<rparr>) k else k"
  have eq: "b = (vals k s \<noteq> 0)" "k' = ?k"
    using assms(2,3)
    by (cases "level k"; auto simp: sema_try_down_def res_simps intr_disable_def intr_set_level_def intr_enable_def
        vals_def word_gt_0 kdefs split: if_splits intro!: kernel.equality)+
  show "b \<longleftrightarrow> vals k s \<noteq> 0" "current k' = current k" using eq by (auto simp: kdefs)
  have "same_view k ?k" by (auto simp: same_view_def st_def prio_def is_thread_def waits_def kdefs fun_eq_iff)
  then have "sched_inv ?k" "dead ?k = dead k" "embryo ?k = embryo k"
    using assms(1) sched_inv_cong [of k ?k] by (auto simp: same_view_def dead_def embryo_def fun_eq_iff)
  then show "effect k (if b then (vals k)(s := vals k s - 1) else vals k) (holders k) (conds k) (frames k) k'"
    by (auto simp: effect_def same_rest_def eq vals_def holders_def kdefs fun_eq_iff)
qed

section \<open>Locks\<close>

lemma held_iff: "sched_inv k \<Longrightarrow> lock_held_by_current_thread l k = Inr b \<Longrightarrow> b \<longleftrightarrow> holders k l = current k"
  by (auto simp: lock_held_by_current_thread_def res_simps thread_current_inv holders_def)

lemma lock_acquire_effect:
  assumes "sched_inv k" and "current k \<noteq> idle_thread k" and "lock_acquire l k = Inr k'"
  defines "s \<equiv> lock_sema l"
  shows "if vals k s = 0 then effect k (vals k) (holders k) (conds k) (pushed [F_sema_down s (level k), F_lock_acquire l] k) k'
     else effect k ((vals k)(s := vals k s - 1)) (holders k) (conds k) (pushed [F_lock_acquire l] k) k'"
proof -
  have ext: "\<not> in_external_intr k" using assms(3) by (auto simp: lock_acquire_def res_simps intr_context_def)
  obtain k1 where q: "quiet k k1" and d: "sema_down s (push_frame (F_lock_acquire l) k1) = Inr k'"
  proof (cases "holder (lock_at k l) \<noteq> NULL \<and> \<not> thread_mlfqs k")
    case True
    let ?k = "set_thr (current k) (\<lambda>r. r\<lparr>lock_waiting := l\<rparr>) k"
    have q: "quiet k ?k" by (rule set_current_quiet [OF assms(1)]) simp_all
    obtain k1 where k1: "donate l ?k = Inr k1" "sema_down s (push_frame (F_lock_acquire l) k1) = Inr k'"
      using assms(3) True by (auto simp: lock_acquire_def res_simps thread_current_inv [OF assms(1)] s_def)
    have "quiet k k1" using quiet_trans [OF q donate_quiet [OF quiet_same(7) [OF q] k1(1)]] .
    then show ?thesis using that k1(2) by blast
  next
    case False
    have "quiet k k" using assms(1) by (simp add: quiet_def effect_def)
    moreover have "sema_down s (push_frame (F_lock_acquire l) k) = Inr k'"
      using assms(3) False by (auto simp: lock_acquire_def res_simps s_def split: if_splits)
    ultimately show ?thesis using that by blast
  qed
  let ?p = "push_frame (F_lock_acquire l) k1"
  have "s \<noteq> NULL" by (simp add: s_def lock_sema_def)
  moreover have "sched_inv ?p" "current ?p \<noteq> idle_thread ?p" "\<not> in_external_intr ?p"
    using quiet_same [OF q] assms(2) ext by (auto simp: fields_push_frame)
  ultimately have "if vals ?p s = 0 then effect ?p (vals ?p) (holders ?p) (conds ?p) (pushed [F_sema_down s (level ?p)] ?p) k'
      else effect ?p ((vals ?p)(s := vals ?p s - 1)) (holders ?p) (conds ?p) (frames ?p) k'"
    using sema_down_call_effect [of ?p s] d by auto
  then show ?thesis
    using quiet_same [OF q] by (auto simp: push_frame_view effect_push fields_push_frame split: if_splits intro: effect_quiet_left [OF q])
qed

lemma lock_acquire_end_effect:
  assumes "sched_inv k" and "lock_acquire_end l k = Inr k'" and "\<not> in_external_intr k"
  shows "effect k (vals k) ((holders k)(l := current k)) (conds k) (frames k) k'" and "current k \<noteq> NULL"
proof -
  let ?k0 = "k\<lparr>level := INTR_OFF\<rparr>"
  have inv0: "sched_inv ?k0" using assms(1) by (simp add: sched_inv_level)
  obtain k1 where q: "quiet ?k0 k1" and k': "k' = set_lock l (\<lambda>r. r\<lparr>holder := current k\<rparr>) k1\<lparr>level := level k\<rparr>"
  proof (cases "thread_mlfqs k")
    case True
    then have "k' = set_lock l (\<lambda>r. r\<lparr>holder := current k\<rparr>) ?k0\<lparr>level := level k\<rparr>"
      using assms(2,3) thread_current_inv [OF inv0]
      by (cases "level k") (auto simp: lock_acquire_end_def intr_disable_def res_simps intr_set_level_def intr_enable_def kdefs split: if_splits)
    moreover have "quiet ?k0 ?k0" using inv0 by (simp add: quiet_def effect_def)
    ultimately show ?thesis using that by blast
  next
    case False
    define k2 where "k2 = set_lock l (\<lambda>r. r\<lparr>max_priority := priority (thr ?k0 (current k))\<rparr>) ?k0"
    define k3 where "k3 = set_thr (current k) (\<lambda>r. r\<lparr>locks := insert_ord (lock_cmp_priority k2) l (locks r)\<rparr>) k2"
    have q2: "quiet ?k0 k2" unfolding k2_def by (rule set_lock_quiet [OF inv0]) simp
    have "quiet k2 k3"
      using set_current_quiet [OF quiet_same(7) [OF q2], of "\<lambda>r. r\<lparr>locks := insert_ord (lock_cmp_priority k2) l (locks r)\<rparr>"]
        quiet_same(5) [OF q2] by (simp add: k3_def)
    then have q3: "quiet ?k0 k3" using q2 quiet_trans by blast
    have "l \<noteq> NULL"
      using assms(2) False by (auto simp: lock_acquire_end_def thread_hold_the_lock_def res_simps intr_disable_def)
    then have "thread_hold_the_lock l ?k0 = Inr k3"
      using thread_current_inv [OF inv0] by (simp add: thread_hold_the_lock_def k3_def k2_def Let_def)
    then have "k' = set_lock l (\<lambda>r. r\<lparr>holder := current k\<rparr>) k3\<lparr>level := level k\<rparr>"
      using assms(2,3) False thread_current_inv [OF quiet_same(7) [OF q3]] quiet_same(5,8) [OF q3]
      by (cases "level k") (auto simp: lock_acquire_end_def intr_disable_def intr_set_level_def intr_enable_def kdefs)
    then show ?thesis using that q3 by blast
  qed
  let ?l = "set_lock l (\<lambda>r. r\<lparr>holder := current k\<rparr>) k1"
  have "same_view k1 ?l" by (auto simp: same_view_def st_def prio_def is_thread_def waits_def kdefs fun_eq_iff)
  then have "sched_inv ?l" "dead ?l = dead k1" "embryo ?l = embryo k1"
    using quiet_same(7) [OF q] sched_inv_cong [of k1 ?l] by (auto simp: same_view_def dead_def embryo_def fun_eq_iff)
  then have "effect k1 (vals k1) ((holders k1)(l := current k)) (conds k1) (frames k1) ?l"
    by (auto simp: effect_def same_rest_def vals_def holders_def kdefs fun_eq_iff)
  then have "effect ?k0 (vals k1) ((holders k1)(l := current k)) (conds k1) (frames k1) ?l"
    using q effect_quiet_left by blast
  then show "effect k (vals k) ((holders k)(l := current k)) (conds k) (frames k) k'"
    using quiet_same [OF q] by (simp add: k' effect_level effect_level_right level_view)
  show "current k \<noteq> NULL" using current_not_queued(5) [OF assms(1)] .
qed

lemma lock_release_effect:
  assumes "sched_inv k" and "lock_release l k = Inr k'" and "\<not> in_external_intr k"
  shows "holders k l = current k"
    and "effect k ((vals k)(lock_sema l := vals k (lock_sema l) + 1)) ((holders k)(l := NULL)) (conds k)
      (pushed [F_set_level INTR_OFF, F_set_level (level k)] k) k'"
proof -
  show "holders k l = current k"
    using assms(2) held_iff [OF assms(1)] by (auto simp: lock_release_def res_simps)
  obtain k1 where q: "quiet k k1" and u: "sema_up (lock_sema l) (set_lock l (\<lambda>r. r\<lparr>holder := NULL\<rparr>) k1) = Inr k'"
  proof (cases "thread_mlfqs k")
    case True
    have "quiet k k" using assms(1) by (simp add: quiet_def effect_def)
    then show ?thesis using that assms(2) True by (auto simp: lock_release_def res_simps split: if_splits)
  next
    case False
    define k2 where "k2 = set_thr (current k) (\<lambda>r. r\<lparr>locks := remove1 l (locks r)\<rparr>) k"
    have q2: "quiet k k2" unfolding k2_def by (rule set_current_quiet [OF assms(1)]) simp_all
    have "quiet k2 (set_thr (current k) (upd_prio k2) k2)"
      using set_current_quiet [OF quiet_same(7) [OF q2], of "upd_prio k2"] quiet_same(5) [OF q2] by simp
    then have "quiet k (set_thr (current k) (upd_prio k2) k2)" using q2 quiet_trans by blast
    moreover have "sema_up (lock_sema l) (set_lock l (\<lambda>r. r\<lparr>holder := NULL\<rparr>) (set_thr (current k) (upd_prio k2) k2)) = Inr k'"
      using assms(2) False current_not_queued(5) [OF assms(1)]
      by (auto simp: lock_release_def thread_remove_lock_def res_simps thread_current_inv [OF assms(1)]
          thread_update_priority_eq k2_def split: if_splits)
    ultimately show ?thesis using that by blast
  qed
  let ?k = "set_lock l (\<lambda>r. r\<lparr>holder := NULL\<rparr>) k1"
  have "same_view k1 ?k" by (auto simp: same_view_def st_def prio_def is_thread_def waits_def kdefs fun_eq_iff)
  then have v: "sched_inv ?k" "dead ?k = dead k1" "embryo ?k = embryo k1"
    using quiet_same(7) [OF q] sched_inv_cong [of k1 ?k] by (auto simp: same_view_def dead_def embryo_def fun_eq_iff)
  have "lock_sema l \<noteq> NULL" by (simp add: lock_sema_def)
  then have "effect ?k ((vals ?k)(lock_sema l := vals ?k (lock_sema l) + 1)) (holders ?k) (conds ?k)
      (pushed [F_set_level INTR_OFF, F_set_level (level ?k)] ?k) k'"
    using sema_up_effect [OF v(1), of "lock_sema l"] u quiet_same(8) [OF q] assms(3) by (auto simp: fields_set_lock)
  moreover have "vals ?k = vals k1" "holders ?k = (holders k1)(l := NULL)" "conds ?k = conds k1" "level ?k = level k1"
      "pushed fs ?k = pushed fs k1" for fs
    by (auto simp: vals_def holders_def pushed_def kdefs fun_eq_iff)
  ultimately have "effect k1 ((vals k1)(lock_sema l := vals k1 (lock_sema l) + 1)) ((holders k1)(l := NULL)) (conds k1)
      (pushed [F_set_level INTR_OFF, F_set_level (level k1)] k1) k'"
    using v by (simp add: effect_def same_rest_def fields_set_lock)
  then show "effect k ((vals k)(lock_sema l := vals k (lock_sema l) + 1)) ((holders k)(l := NULL)) (conds k)
      (pushed [F_set_level INTR_OFF, F_set_level (level k)] k) k'"
    using effect_quiet_left [OF q] quiet_same [OF q] by simp
qed


lemma lock_try_acquire_effect:
  assumes "sched_inv k" and "lock_try_acquire l k = Inr (b, k')" and "\<not> in_external_intr k"
  shows "b \<longleftrightarrow> vals k (lock_sema l) \<noteq> 0"
    and "effect k (if b then (vals k)(lock_sema l := vals k (lock_sema l) - 1) else vals k)
      (if b then (holders k)(l := current k) else holders k) (conds k) (frames k) k'"
proof -
  obtain k1 where t: "sema_try_down (lock_sema l) k = Inr (b, k1)"
    and k': "k' = (if b then set_lock l (\<lambda>r. r\<lparr>holder := current k\<rparr>) k1 else k1)"
  proof -
    obtain b1 k1 where t: "sema_try_down (lock_sema l) k = Inr (b1, k1)"
      using assms(2) by (auto simp: lock_try_acquire_def res_simps)
    note e = sema_try_down_effect [OF assms(1,3) t]
    have "sched_inv k1" using e(3) by (simp add: effect_def)
    then have "thread_current k1 = Inr (current k)" using thread_current_inv e(2) by metis
    then show ?thesis
      using that t assms(2) by (auto simp: lock_try_acquire_def res_simps split: if_splits)
  qed
  note e = sema_try_down_effect [OF assms(1,3) t]
  show "b \<longleftrightarrow> vals k (lock_sema l) \<noteq> 0" using e(1) .
  let ?l = "set_lock l (\<lambda>r. r\<lparr>holder := current k\<rparr>) k1"
  have "same_view k1 ?l" by (auto simp: same_view_def st_def prio_def is_thread_def waits_def kdefs fun_eq_iff)
  then have v: "sched_inv ?l = sched_inv k1" "dead ?l = dead k1" "embryo ?l = embryo k1"
    using sched_inv_cong [of k1 ?l] by (auto simp: same_view_def dead_def embryo_def fun_eq_iff)
  have "holders ?l = (holders k1)(l := current k)" "vals ?l = vals k1" by (auto simp: holders_def vals_def kdefs fun_eq_iff)
  then show "effect k (if b then (vals k)(lock_sema l := vals k (lock_sema l) - 1) else vals k)
      (if b then (holders k)(l := current k) else holders k) (conds k) (frames k) k'"
    using e(3) v k' by (auto simp: effect_def same_rest_def fields_set_lock)
qed

section \<open>Condition variables\<close>

lemma conds_view:
  "same_view k (k\<lparr>conds := c\<rparr>)" "dead (k\<lparr>conds := c\<rparr>) = dead k" "embryo (k\<lparr>conds := c\<rparr>) = embryo k"
  "vals (k\<lparr>conds := c\<rparr>) = vals k" "holders (k\<lparr>conds := c\<rparr>) = holders k" "pushed fs (k\<lparr>conds := c\<rparr>) = pushed fs k"
  by (auto simp: same_view_def dead_def embryo_def vals_def holders_def pushed_def st_def prio_def is_thread_def waits_def
      fun_eq_iff)

lemma sched_inv_conds: "sched_inv (k\<lparr>conds := c\<rparr>) \<longleftrightarrow> sched_inv k"
  using sched_inv_cong [OF conds_view(1)] .

lemma effect_conds: "effect (k\<lparr>conds := c'\<rparr>) v h c fs k' \<longleftrightarrow> effect k v h c fs k'"
  by (simp add: effect_def same_rest_def conds_view)

lemma effect_trans:
  "effect k v h c fs k1 \<Longrightarrow> effect k1 v' h' c' fs' k' \<Longrightarrow> effect k v' h' c' fs' k'"
  by (simp add: effect_def same_rest_def)

lemma cond_wait_effect:
  assumes "sched_inv k" and "cond_wait c l w k = Inr k'" and "waits k (elem_sema w) = []"
  shows "holders k l = current k" and "\<not> in_external_intr k"
    and "effect k (let v = (vals k)(elem_sema w := 0) in v(lock_sema l := v (lock_sema l) + 1)) ((holders k)(l := NULL))
      ((conds k)(c := conds k c @ [w]))
      (pushed [F_set_level INTR_OFF, F_set_level (level k), F_cond_wait_down (elem_sema w) l] k) k'"
proof -
  show ext: "\<not> in_external_intr k" using assms(2) by (auto simp: cond_wait_def res_simps intr_context_def)
  obtain k1 where i: "sema_init (elem_sema w) 0 k = Inr k1"
    and r: "lock_release l (push_frame (F_cond_wait_down (elem_sema w) l) (k1\<lparr>conds := (conds k1)(c := conds k1 c @ [w])\<rparr>)) = Inr k'"
    using assms(2) by (auto simp: cond_wait_def res_simps)
  note e = sema_init_effect [OF assms(1,3) i]
  define k2 where "k2 = push_frame (F_cond_wait_down (elem_sema w) l) (k1\<lparr>conds := (conds k1)(c := conds k1 c @ [w])\<rparr>)"
  have inv2: "sched_inv k2" using e(1) by (simp add: k2_def sched_inv_conds effect_def)
  have f2: "vals k2 = (vals k)(elem_sema w := 0)" "holders k2 = holders k" "conds k2 = (conds k)(c := conds k c @ [w])"
      "level k2 = level k" "current k2 = current k" "in_external_intr k2 = in_external_intr k"
      "pushed fs k2 = pushed (fs @ [F_cond_wait_down (elem_sema w) l]) k" for fs
    using e by (auto simp: k2_def push_frame_view conds_view fields_push_frame effect_def same_rest_def)
      (auto simp: pushed_def)
  note lr = lock_release_effect [OF inv2 r [folded k2_def]]
  show "holders k l = current k" using lr(1) f2 ext by simp
  have "effect k2 v h cs fs k' \<Longrightarrow> effect k v h cs fs k'" for v h cs fs
    unfolding k2_def effect_push effect_conds using effect_trans [OF e(1)] by blast
  then show "effect k (let v = (vals k)(elem_sema w := 0) in v(lock_sema l := v (lock_sema l) + 1)) ((holders k)(l := NULL))
      ((conds k)(c := conds k c @ [w]))
      (pushed [F_set_level INTR_OFF, F_set_level (level k), F_cond_wait_down (elem_sema w) l] k) k'"
    using lr(2) f2 ext by (simp add: Let_def)
qed

lemma cond_signal_effect:
  assumes "sched_inv k" and "cond_signal c l k = Inr k'"
  shows "\<not> in_external_intr k"
    and "(conds k c = [] \<and> k' = k) \<or> (\<exists>w ws. mset (conds k c) = mset (w # ws)
      \<and> effect k ((vals k)(elem_sema w := vals k (elem_sema w) + 1)) (holders k) ((conds k)(c := ws))
          (pushed [F_set_level INTR_OFF, F_set_level (level k)] k) k')"
proof -
  show ext: "\<not> in_external_intr k" using assms(2) by (auto simp: cond_signal_def res_simps intr_context_def)
  show "(conds k c = [] \<and> k' = k) \<or> (\<exists>w ws. mset (conds k c) = mset (w # ws)
      \<and> effect k ((vals k)(elem_sema w := vals k (elem_sema w) + 1)) (holders k) ((conds k)(c := ws))
          (pushed [F_set_level INTR_OFF, F_set_level (level k)] k) k')"
  proof (cases "conds k c = []")
    case True
    then show ?thesis using assms(2) by (auto simp: cond_signal_def res_simps)
  next
    case False
    then obtain w ws where s: "stable_sort (cond_sema_cmp_priority k) (conds k c) = w # ws"
      by (metis mset_stable_sort mset_zero_iff neq_Nil_conv)
    then have m: "mset (conds k c) = mset (w # ws)" by (metis mset_stable_sort)
    let ?k = "k\<lparr>conds := (conds k)(c := ws)\<rparr>"
    have "sema_up (elem_sema w) ?k = Inr k'"
      using assms(2) s False by (cases "conds k c") (auto simp: cond_signal_def res_simps)
    moreover have "elem_sema w \<noteq> NULL" by (simp add: elem_sema_def)
    ultimately have "effect ?k ((vals ?k)(elem_sema w := vals ?k (elem_sema w) + 1)) (holders ?k) (conds ?k)
          (pushed [F_set_level INTR_OFF, F_set_level (level ?k)] ?k) k'"
      using sema_up_effect [of ?k "elem_sema w"] assms(1) ext by (auto simp: sched_inv_conds)
    then show ?thesis using m by (auto simp: effect_conds conds_view)
  qed
qed

section \<open>Threads and timer\<close>

lemma thread_set_priority_effect:
  assumes "sched_inv k" and "\<not> in_external_intr k" and "thread_set_priority p k = Inr k'"
  shows "\<exists>fs. effect k (vals k) (holders k) (conds k) (pushed fs k) k' \<and> set fs \<subseteq> range F_set_level"
proof -
  have self: "effect k (vals k) (holders k) (conds k) (pushed [] k) k" using effect_refl [OF assms(1)] by (simp add: pushed_def)
  define k1 where "k1 = set_thr (current k) (\<lambda>r. r\<lparr>base_priority := p\<rparr>) k"
  have q1: "quiet k k1" unfolding k1_def by (rule set_current_quiet [OF assms(1)]) simp_all
  define k2 where "k2 = set_thr (current k) (\<lambda>r. r\<lparr>priority := p\<rparr>) k1"
  have "quiet k1 k2"
    using set_current_quiet [OF quiet_same(7) [OF q1], of "\<lambda>r. r\<lparr>priority := p\<rparr>"] quiet_same(5) [OF q1] by (simp add: k2_def)
  then have q2: "quiet k k2" using q1 quiet_trans by blast
  have eff: "quiet k kk \<Longrightarrow> effect k (vals k) (holders k) (conds k) (pushed [] k) kk" for kk
    by (simp add: quiet_def pushed_def)
  have eq: "thread_set_priority p k = (if thread_mlfqs k then Inr k
      else if locks (thr k1 (current k)) = [] \<or> p > priority (thr k (current k)) then thread_yield k2 else Inr k1)"
    using thread_current_inv [OF assms(1)] by (simp add: thread_set_priority_def k1_def k2_def Let_def)
  have "k' = k \<or> k' = k1 \<or> thread_yield k2 = Inr k'"
    using eq assms(3) by (metis sum.inject(2))
  then consider "k' = k" | "k' = k1" | "thread_yield k2 = Inr k'" by blast
  then show ?thesis
  proof cases
    case 3
    have "effect k2 (vals k2) (holders k2) (conds k2) (pushed [F_set_level (level k2)] k2) k'"
      using thread_yield_effect [OF quiet_same(7) [OF q2]] 3 assms(2) quiet_same(8) [OF q2] by auto
    then have "effect k (vals k) (holders k) (conds k) (pushed [F_set_level (level k)] k) k'"
      using effect_quiet_left [OF q2] quiet_same [OF q2] by simp
    then show ?thesis by auto
  qed (use self eff [OF q1] in auto)
qed

lemma thread_set_nice_effect:
  assumes "sched_inv k" and "\<not> in_external_intr k" and "thread_set_nice n k = Inr k'"
  shows "\<exists>fs. effect k (vals k) (holders k) (conds k) (pushed fs k) k' \<and> set fs \<subseteq> range F_set_level"
proof -
  define k1 where "k1 = set_thr (current k) (\<lambda>r. r\<lparr>nice := n\<rparr>) k"
  have q1: "quiet k k1" unfolding k1_def by (rule set_current_quiet [OF assms(1)]) simp_all
  define k2 where "k2 = mlfqs_update_priority (current k) k1"
  have "quiet k1 k2"
    using set_current_quiet [OF quiet_same(7) [OF q1], of "\<lambda>r. r\<lparr>priority := mlfqs_priority r\<rparr>"] quiet_same(5,7) [OF q1]
    by (auto simp: k2_def mlfqs_update_priority_def quiet_def effect_def)
  then have q2: "quiet k k2" using q1 quiet_trans by blast
  have eff: "effect k (vals k) (holders k) (conds k) (pushed [] k) k2"
    using q2 by (simp add: quiet_def pushed_def)
  have eq: "thread_set_nice n k = (if priority (thr k2 (current k)) < priority (thr k (current k)) then thread_yield k2 else Inr k2)"
    using thread_current_inv [OF assms(1)] by (simp add: thread_set_nice_def k1_def k2_def Let_def)
  have "k' = k2 \<or> thread_yield k2 = Inr k'"
    using eq assms(3) by (metis sum.inject(2))
  then consider "k' = k2" | "thread_yield k2 = Inr k'" by blast
  then show ?thesis
  proof cases
    case 2
    have "effect k2 (vals k2) (holders k2) (conds k2) (pushed [F_set_level (level k2)] k2) k'"
      using thread_yield_effect [OF quiet_same(7) [OF q2]] 2 assms(2) quiet_same(8) [OF q2] by auto
    then have "effect k (vals k) (holders k) (conds k) (pushed [F_set_level (level k)] k) k'"
      using effect_quiet_left [OF q2] quiet_same [OF q2] by simp
    then show ?thesis by auto
  qed (use eff in auto)
qed


lemma block_effect:
  assumes "switch_pre w" and "vals w = vals k" "holders w = holders k" "conds w = conds k" "frames w = fs"
    and "tid_lock w = tid_lock k" "idle_thread w = idle_thread k" "thread_mlfqs w = thread_mlfqs k"
    "in_external_intr w = in_external_intr k" "dead w = dead k" "\<And>t. embryo k t \<Longrightarrow> embryo w t"
  shows "\<exists>k'. schedule w = Inr k' \<and> effect k (vals k) (holders k) (conds k) fs k'"
proof -
  obtain n rest where n: "schedule w = Inr (switched n rest w)" "sched_inv (switched n rest w)"
      "dead (switched n rest w) = dead w" "\<forall>t. embryo w t \<longrightarrow> embryo (switched n rest w) t"
    using schedule_target [OF assms(1)] by blast
  moreover have "vals (switched n rest w) = vals w" "holders (switched n rest w) = holders w"
    by (auto simp: vals_def holders_def fun_eq_iff)
  ultimately show ?thesis using assms by (auto simp: effect_def same_rest_def)
qed

text \<open>The state in which \<^verbatim>\<open>timer_sleep\<close> switches.\<close>

definition sleeping :: "int \<Rightarrow> kernel \<Rightarrow> kernel" where
  "sleeping n k =
     (let k1 = set_thr (current k) (\<lambda>r. r\<lparr>ticks_wake := ticks k + n\<rparr>) (k\<lparr>level := INTR_OFF\<rparr>);
          k2 = k1\<lparr>waiting_threads := insert_ord (timer_cmp_waking_time k1) (current k) (waiting_threads k)\<rparr>
      in set_thr (current k) (\<lambda>r. r\<lparr>status := THREAD_BLOCKED\<rparr>) (push_frame (F_set_level INTR_ON) k2))"

lemma switch_pre_sleeping:
  assumes "sched_inv k" and "current k \<noteq> idle_thread k"
  shows "switch_pre (sleeping n k)"
proof (rule switch_pre_blocked [OF assms(1)])
  note c = current_not_queued [OF assms(1)]
  let ?k = "sleeping n k"
  show "thr ?k = (thr k)(current k := (thr k (current k))\<lparr>ticks_wake := ticks k + n, status := THREAD_BLOCKED\<rparr>)"
    by (simp add: sleeping_def Let_def kdefs)
  have w: "waits ?k = waits k" by (simp add: sleeping_def Let_def kdefs waits_def fun_eq_iff)
  obtain lt where wt: "waiting_threads ?k = insert_ord lt (current k) (waiting_threads k)"
    by (simp add: sleeping_def Let_def kdefs)
  have ok: "distinct (waits k u)" "distinct (waiting_threads k)" for u
    using assms(1) by (auto simp: sched_inv_def lists_ok_def in_state_def)
  show "distinct (waits ?k u)" "distinct (waiting_threads ?k)" for u using ok c by (auto simp: w wt)
  show "set (waits ?k u) - {current k} \<subseteq> set (waits k u)" for u by (auto simp: w)
  show "set (waiting_threads ?k) - {current k} \<subseteq> set (waiting_threads k)" by (auto simp: wt)
  show "u = u'" if "current k \<in> set (waits ?k u)" "current k \<in> set (waits ?k u')" for u u'
    using that c by (simp add: w)
  show "current k \<in> set (waits ?k u) \<Longrightarrow> current k \<notin> set (waiting_threads ?k)" for u using c by (simp add: w)
  show "current k = idle_thread k \<Longrightarrow> current k \<notin> set (waits ?k u) \<and> current k \<notin> set (waiting_threads ?k)" for u
    using assms(2) by simp
qed (auto simp: sleeping_def Let_def kdefs)

lemma timer_sleep_effect:
  assumes "sched_inv k" and "\<not> in_external_intr k" and "current k \<noteq> idle_thread k" and "timer_sleep n k = Inr k'"
  shows "\<exists>fs. effect k (vals k) (holders k) (conds k) (pushed fs k) k' \<and> set fs \<subseteq> range F_set_level"
proof (cases "n \<le> 0")
  case True
  then show ?thesis using assms effect_refl [OF assms(1)] by (auto simp: timer_sleep_def pushed_def intro!: exI [of _ "[]"])
next
  case False
  let ?w = "sleeping n k"
  have cur: "thread_current (k\<lparr>level := INTR_OFF\<rparr>) = Inr (current k)"
    using thread_current_inv [of "k\<lparr>level := INTR_OFF\<rparr>"] assms(1) by (simp add: sched_inv_level)
  define k1 where "k1 = set_thr (current k) (\<lambda>r. r\<lparr>ticks_wake := ticks k + n\<rparr>) (k\<lparr>level := INTR_OFF\<rparr>)"
  define k2 where "k2 = push_frame (F_set_level INTR_ON)
    (k1\<lparr>waiting_threads := insert_ord (timer_cmp_waking_time k1) (current k) (waiting_threads k)\<rparr>)"
  have on: "level k = INTR_ON" and b: "thread_block k2 = Inr k'"
    using assms(4) False cur
    by (auto simp: timer_sleep_def res_simps intr_disable_def timer_ticks_def Let_def k1_def k2_def kdefs)
  have "thread_block k2 = schedule ?w"
    using thread_block_eq [of k2] sched_inv_current [OF assms(1)] assms(2)
    by (simp add: k2_def k1_def sleeping_def Let_def st_def is_thread_def kdefs)
  moreover have "\<exists>k'. schedule ?w = Inr k' \<and> effect k (vals k) (holders k) (conds k) (pushed [F_set_level INTR_ON] k) k'"
  proof (rule block_effect [OF switch_pre_sleeping [OF assms(1,3)]])
    show "dead ?w = dead k" using sched_inv_current [OF assms(1)]
      by (auto simp: dead_def sleeping_def Let_def st_def is_thread_def kdefs fun_eq_iff)
    show "embryo k t \<Longrightarrow> embryo ?w t" for t using sched_inv_current [OF assms(1)]
      by (auto simp: embryo_def sleeping_def Let_def st_def is_thread_def waits_def kdefs)
  qed (auto simp: sleeping_def Let_def vals_def holders_def pushed_def kdefs fun_eq_iff)
  ultimately show ?thesis using b by auto
qed

lemma idle_loop_effect:
  assumes "sched_inv k" and "\<not> in_external_intr k" and "current k = idle_thread k" and "idle_loop k = Inr k'"
  shows "effect k (vals k) (holders k) (conds k) (pushed [F_set_level INTR_ON] k) k'"
proof -
  define k1 where "k1 = push_frame (F_set_level INTR_ON) (k\<lparr>level := INTR_OFF\<rparr>)"
  define w where "w = set_thr (current k) (\<lambda>r. r\<lparr>status := THREAD_BLOCKED\<rparr>) k1"
  have "thread_block k1 = schedule w"
    using thread_block_eq [of k1] sched_inv_current [OF assms(1)] assms(2)
    by (simp add: k1_def w_def st_def is_thread_def kdefs)
  moreover have "thread_block k1 = Inr k'" using assms(4) by (simp add: idle_loop_def intr_disable_def k1_def)
  moreover have "\<exists>k'. schedule w = Inr k' \<and> effect k (vals k) (holders k) (conds k) (pushed [F_set_level INTR_ON] k) k'"
  proof (rule block_effect)
    show "switch_pre w"
    proof (rule switch_pre_blocked [OF assms(1)])
      show "thr w = (thr k)(current k := (thr k (current k))\<lparr>status := THREAD_BLOCKED\<rparr>)" by (simp add: w_def k1_def kdefs)
      have wt: "waits w = waits k" "waiting_threads w = waiting_threads k"
        by (simp_all add: w_def k1_def kdefs waits_def fun_eq_iff)
      have ok: "distinct (waits k u)" "distinct (waiting_threads k)" for u
        using assms(1) by (auto simp: sched_inv_def lists_ok_def in_state_def)
      note c = current_not_queued [OF assms(1)]
      show "distinct (waits w u)" "distinct (waiting_threads w)" "set (waits w u) - {current k} \<subseteq> set (waits k u)"
        "set (waiting_threads w) - {current k} \<subseteq> set (waiting_threads k)"
        "current k = idle_thread k \<Longrightarrow> current k \<notin> set (waits w u) \<and> current k \<notin> set (waiting_threads w)" for u
        using ok c by (auto simp: wt)
      show "u = u'" if "current k \<in> set (waits w u)" "current k \<in> set (waits w u')" for u u' using that c by (simp add: wt)
      show "current k \<in> set (waits w u) \<Longrightarrow> current k \<notin> set (waiting_threads w)" for u using c by (simp add: wt)
    qed (auto simp: w_def k1_def kdefs)
    show "dead w = dead k" using sched_inv_current [OF assms(1)]
      by (auto simp: dead_def w_def k1_def st_def is_thread_def kdefs fun_eq_iff)
    show "embryo k t \<Longrightarrow> embryo w t" for t using sched_inv_current [OF assms(1)]
      by (auto simp: embryo_def w_def k1_def st_def is_thread_def waits_def kdefs)
  qed (auto simp: w_def k1_def vals_def holders_def pushed_def kdefs fun_eq_iff)
  ultimately show ?thesis by auto
qed

text \<open>Exit: the thread is dead, and in no list.\<close>

lemma thread_exit_result:
  assumes "sched_inv k" and "thread_exit k = Inr k'" and "current k \<noteq> idle_thread k"
  shows "sched_inv k' \<and> vals k' = vals k \<and> holders k' = holders k \<and> conds k' = conds k \<and> frames k' = frames k
     \<and> tid_lock k' = tid_lock k \<and> idle_thread k' = idle_thread k \<and> in_external_intr k' = in_external_intr k
     \<and> dead k' = (dead k)(current k := True) \<and> (\<forall>t. embryo k t \<longrightarrow> embryo k' t)"
proof -
  let ?c = "current k"
  define w where "w = set_thr ?c (\<lambda>r. r\<lparr>status := THREAD_DYING\<rparr>) (k\<lparr>level := INTR_OFF, all_list := remove1 ?c (all_list k)\<rparr>)"
  have cur: "thread_current (k\<lparr>level := INTR_OFF\<rparr>) = Inr ?c"
    using thread_current_inv [of "k\<lparr>level := INTR_OFF\<rparr>"] assms(1) by (simp add: sched_inv_level)
  have e: "schedule w = Inr k'"
    using assms(2) cur by (auto simp: thread_exit_def res_simps intr_disable_def Let_def w_def)
  note c = current_not_queued [OF assms(1)]
  have lists: "lists_ok k" "idle_ok k" "sorted_ready k" and run: "\<And>u. runs k u \<longleftrightarrow> u = ?c"
    using assms(1) by (auto simp: sched_inv_def)
  have v: "st w t = (if t = ?c then THREAD_DYING else st k t)" "is_thread w t = is_thread k t" "prio w = prio k"
      "waits w = waits k" "waiting_threads w = waiting_threads k" "ready_list w = ready_list k" "idle_thread w = idle_thread k"
      "current w = ?c" "thread_mlfqs w = thread_mlfqs k" "level w = INTR_OFF" for t
    by (auto simp: w_def st_def is_thread_def prio_def waits_def kdefs fun_eq_iff)
  have "lists_ok w" using lists(1) c by (auto simp: lists_ok_def in_state_def v)
  moreover have "idle_ok w" using lists(2) assms(3) by (auto simp: idle_ok_def v)
  moreover have "sorted_ready w" using lists(3) by (simp add: sorted_ready_alt v)
  moreover have "\<not> runs w t" for t using run [of t] by (auto simp: runs_def v)
  ultimately have "switch_pre w" using c(4) by (simp add: switch_pre_def v)
  then obtain n rest where n: "schedule w = Inr (switched n rest w)" "sched_inv (switched n rest w)"
      "dead (switched n rest w) = dead w" "\<forall>t. embryo w t \<longrightarrow> embryo (switched n rest w) t"
    using schedule_target by blast
  have k': "k' = switched n rest w" using e n(1) by simp
  have "dead w = (dead k)(?c := True)" by (auto simp: dead_def v fun_eq_iff)
  moreover have "embryo k t \<longrightarrow> embryo w t" for t
    using sched_inv_current [OF assms(1)] by (auto simp: embryo_def v)
  moreover have "vals k' = vals k" "holders k' = holders k" "conds k' = conds k" "frames k' = frames k"
      "tid_lock k' = tid_lock k" "idle_thread k' = idle_thread k" "in_external_intr k' = in_external_intr k"
    by (auto simp: k' vals_def holders_def w_def kdefs fun_eq_iff)
  ultimately show ?thesis using n k' by auto
qed

end
