(* ===== verification/Timer_Effects.thy ===== *)
theory Timer_Effects
  imports Kernel_Effects
begin

text \<open>
  Effects of the timer interrupt and of thread creation (devices/timer.c and threads/thread.c,
  project 1), and what waking sleeping threads does exactly.
\<close>

section \<open>Waking\<close>

definition due :: "kernel \<Rightarrow> addr \<Rightarrow> bool" where
  "due k t \<longleftrightarrow> ticks_wake (thr k t) \<le> ticks k"

lemma dequeue_waiting:
  assumes "sched_inv k" and "waiting_threads k = t # ts"
  defines "k1 \<equiv> k\<lparr>waiting_threads := ts\<rparr>"
  shows "sched_inv k1" and "is_thread k1 t" and "st k1 t = THREAD_BLOCKED" and "t \<noteq> idle_thread k1"
    and "t \<notin> set (waiting_threads k1)" and "t \<notin> set (waits k1 u)"
proof -
  have lists: "lists_ok k" "idle_ok k" "sorted_ready k" and run: "\<And>u. runs k u \<longleftrightarrow> u = current k"
    using assms(1) by (auto simp: sched_inv_def)
  have v: "thr k1 = thr k" "waits k1 = waits k" "ready_list k1 = ready_list k"
    "waiting_threads k1 = ts" "idle_thread k1 = idle_thread k" "current k1 = current k" "thread_mlfqs k1 = thread_mlfqs k"
    by (auto simp: k1_def waits_def fun_eq_iff)
  note vt = view_thr [OF v(1)]
  have "lists_ok k1" using lists(1) assms(2) by (auto simp: lists_ok_def v vt in_state_def)
  moreover have "idle_ok k1" using lists(2) assms(2) by (auto simp: idle_ok_def v vt)
  moreover have "sorted_ready k1" using lists(3) by (simp add: sorted_ready_alt v vt)
  ultimately show "sched_inv k1" using run by (simp add: sched_inv_def v vt)
  show "is_thread k1 t" "st k1 t = THREAD_BLOCKED" using lists(1) assms(2) by (auto simp: lists_ok_def in_state_def vt)
  show "t \<noteq> idle_thread k1" using lists(2) assms(2) v by (auto simp: idle_ok_def)
  show "t \<notin> set (waiting_threads k1)" using lists(1) assms(2) by (auto simp: lists_ok_def in_state_def v)
  show "t \<notin> set (waits k1 u)" using lists(1) assms(2) by (auto simp: lists_ok_def v)
qed

text \<open>Only the status of the woken threads changes.\<close>

definition upto_status :: "kernel \<Rightarrow> kernel \<Rightarrow> bool" where
  "upto_status k k' \<longleftrightarrow> ticks k' = ticks k \<and> waits k' = waits k
     \<and> (\<forall>t. (thr k' t)\<lparr>status := THREAD_READY\<rparr> = (thr k t)\<lparr>status := THREAD_READY\<rparr>)"

lemma upto_status_trans: "upto_status k k' \<Longrightarrow> upto_status k' k'' \<Longrightarrow> upto_status k k''"
  by (simp add: upto_status_def)

lemma upto_status_due: "upto_status k k' \<Longrightarrow> due k' = due k"
  unfolding upto_status_def due_def fun_eq_iff by (metis thread.select_convs(6) thread.surjective thread.update_convs(2))

lemma woken_waiting:
  assumes "sched_inv k" and "waiting_threads k = t # ts" and "in_external_intr k \<longrightarrow> level k = INTR_OFF"
  shows "\<exists>k1. thread_unblock t (k\<lparr>waiting_threads := ts\<rparr>) = Inr k1 \<and> quiet k k1 \<and> waiting_threads k1 = ts
     \<and> set (ready_list k1) = insert t (set (ready_list k)) \<and> upto_status k k1"
proof -
  let ?k = "k\<lparr>waiting_threads := ts\<rparr>"
  note d = dequeue_waiting [OF assms(1,2)]
  have e: "thread_unblock t ?k = Inr (woken t ?k)" using thread_unblock_eq [OF d(2,3)] assms(3) by simp
  have inv: "sched_inv (woken t ?k)" using woken_inv [OF d] .
  have "dead (woken t ?k) = dead k"
    using d(2,3) by (auto simp: dead_def woken_def st_def is_thread_def kdefs fun_eq_iff)
  moreover have "embryo k u \<longrightarrow> embryo (woken t ?k) u" for u
    using assms(2) by (auto simp: embryo_def woken_def st_def is_thread_def waits_def kdefs)
  ultimately have "quiet k (woken t ?k)"
    using inv by (auto simp: quiet_def effect_def same_rest_def woken_def vals_def holders_def kdefs fun_eq_iff)
  moreover have "upto_status k (woken t ?k)"
    by (auto simp: upto_status_def woken_def waits_def kdefs fun_eq_iff)
  ultimately show ?thesis using e by (auto simp: woken_def kdefs)
qed

lemma wake_loop_spec:
  assumes "sched_inv k" and "waiting_threads k = ts" and "in_external_intr k \<longrightarrow> level k = INTR_OFF"
  shows "\<exists>k'. wake_loop ts k = Inr k' \<and> quiet k k' \<and> upto_status k k'
     \<and> waiting_threads k' = dropWhile (due k) ts
     \<and> set (ready_list k') = set (ready_list k) \<union> set (takeWhile (due k) ts)"
  using assms
proof (induction ts arbitrary: k)
  case Nil
  then show ?case by (auto simp: quiet_def effect_def upto_status_def)
next
  case (Cons t ts)
  have blocked: "status (thr k t) = THREAD_BLOCKED"
    using Cons.prems(1,2) by (auto simp: sched_inv_def lists_ok_def in_state_def st_def)
  show ?case
  proof (cases "due k t")
    case True
    obtain k1 where k1: "thread_unblock t (k\<lparr>waiting_threads := ts\<rparr>) = Inr k1" "quiet k k1" "waiting_threads k1 = ts"
        "set (ready_list k1) = insert t (set (ready_list k))" "upto_status k k1"
      using woken_waiting [OF Cons.prems] by blast
    note q = quiet_same [OF k1(2)]
    obtain k' where k': "wake_loop ts k1 = Inr k'" "quiet k1 k'" "upto_status k1 k'"
        "waiting_threads k' = dropWhile (due k1) ts"
        "set (ready_list k') = set (ready_list k1) \<union> set (takeWhile (due k1) ts)"
      using Cons.IH [OF q(7) k1(3)] Cons.prems(3) q by auto
    have "wake_loop (t # ts) k = Inr k'" using True blocked k1(1) k'(1) by (simp add: due_def)
    then show ?thesis
      using k' k1 True quiet_trans [OF k1(2) k'(2)] upto_status_trans [OF k1(5) k'(3)] upto_status_due [OF k1(5)] by auto
  next
    case False
    then show ?thesis using Cons.prems by (auto simp: due_def quiet_def effect_def upto_status_def)
  qed
qed

section \<open>The timer interrupt\<close>

lemma counters_quiet:
  assumes "sched_inv k"
  shows "quiet k (k\<lparr>ticks := a\<rparr>)" "quiet k (k\<lparr>idle_ticks := a\<rparr>)" "quiet k (k\<lparr>kernel_ticks := a\<rparr>)"
    "quiet k (k\<lparr>thread_ticks := b\<rparr>)" "quiet k (k\<lparr>yield_on_return := c\<rparr>)" "quiet k (k\<lparr>load_avg := a\<rparr>)"
  by (rule quietI [OF assms]; simp add: same_view_def st_def prio_def is_thread_def waits_def vals_def holders_def fun_eq_iff)+

lemma thread_tick_quiet:
  assumes "sched_inv k" and "thread_tick k = Inr k'"
  shows "quiet k k'" and "thr k' = thr k" and "waiting_threads k' = waiting_threads k" and "ready_list k' = ready_list k"
    and "ticks k' = ticks k" and "semas k' = semas k"
proof -
  define k1 where "k1 = (if current k = idle_thread k then k\<lparr>idle_ticks := idle_ticks k + 1\<rparr>
              else k\<lparr>kernel_ticks := kernel_ticks k + 1\<rparr>)"
  define k2 where "k2 = k1\<lparr>thread_ticks := thread_ticks k1 + 1\<rparr>"
  have q1: "quiet k k1" using counters_quiet [OF assms(1)] by (simp add: k1_def)
  have "quiet k1 k2" unfolding k2_def by (rule counters_quiet(4) [OF quiet_same(7) [OF q1]])
  then have q2: "quiet k k2" using q1 quiet_trans by blast
  have eq: "thread_tick k = (if thread_ticks k2 \<ge> TIME_SLICE then intr_yield_on_return k2 else Inr k2)"
    using thread_current_inv [OF assms(1)] by (simp add: thread_tick_def k1_def k2_def Let_def)
  have "k' = k2 \<or> k' = k2\<lparr>yield_on_return := True\<rparr>"
    using assms(2) unfolding eq by (auto simp: intr_yield_on_return_def res_simps split: if_splits)
  moreover have "quiet k (k2\<lparr>yield_on_return := True\<rparr>)"
    using counters_quiet(5) [OF quiet_same(7) [OF q2]] q2 quiet_trans by blast
  ultimately show "quiet k k'" using q2 by auto
  show "thr k' = thr k" "waiting_threads k' = waiting_threads k" "ready_list k' = ready_list k" "ticks k' = ticks k"
    "semas k' = semas k"
    using \<open>k' = k2 \<or> _\<close> by (auto simp: k2_def k1_def)
qed

lemma set_thr_mlfqs_quiet:
  assumes "sched_inv k" and "thread_mlfqs k" and "\<And>r. status (g r) = status r" and "\<And>r. magic (g r) = magic r"
  shows "quiet k (set_thr t g k)"
proof -
  let ?k = "set_thr t g k"
  have v: "st ?k u = st k u" "is_thread ?k u = is_thread k u" for u using assms(3,4) by (auto simp: st_def is_thread_def kdefs)
  have "in_state ?k = in_state k" "runs ?k = runs k" by (auto simp: in_state_def runs_def v fun_eq_iff)
  then have "sched_inv ?k"
    using assms(1,2) by (simp add: sched_inv_def lists_ok_def idle_ok_def sorted_ready_def v fields_set_thr waits_set_thr)
  moreover have "dead ?k = dead k" "embryo ?k = embryo k"
    by (auto simp: dead_def embryo_def v fields_set_thr waits_set_thr fun_eq_iff)
  ultimately show ?thesis
    by (auto simp: quiet_def effect_def same_rest_def vals_def holders_def kdefs fun_eq_iff)
qed

lemma fold_mlfqs_quiet:
  assumes "\<And>t k. sched_inv k \<Longrightarrow> thread_mlfqs k \<Longrightarrow> quiet k (func t k)" and "sched_inv k" and "thread_mlfqs k"
  shows "quiet k (fold func ts k)"
  using assms(2,3)
proof (induction ts arbitrary: k)
  case Nil
  then show ?case by (simp add: quiet_def effect_def)
next
  case (Cons t ts)
  have q: "quiet k (func t k)" using assms(1) Cons.prems by blast
  have "quiet (func t k) (fold func ts (func t k))"
    using Cons.IH quiet_same(7,11) [OF q] Cons.prems by simp
  then show ?case using quiet_trans [OF q] by simp
qed

lemma mlfqs_funcs_quiet:
  assumes "sched_inv k" and "thread_mlfqs k"
  shows "quiet k (mlfqs_update_priority t k)" "quiet k (mlfqs_update_each_recent_cpu t k)"
proof -
  have self: "quiet k k" using assms(1) by (simp add: quiet_def effect_def)
  show "quiet k (mlfqs_update_priority t k)"
    using self set_thr_mlfqs_quiet [OF assms, of "\<lambda>r. r\<lparr>priority := mlfqs_priority r\<rparr>"] by (simp add: mlfqs_update_priority_def)
  show "quiet k (mlfqs_update_each_recent_cpu t k)"
    using self set_thr_mlfqs_quiet [OF assms, of "\<lambda>r. r\<lparr>recent_cpu := mlfqs_recent_cpu (load_avg k) r\<rparr>"]
    by (simp add: mlfqs_update_each_recent_cpu_def)
qed

lemma thread_foreach_quiet:
  assumes "sched_inv k" and "thread_mlfqs k" and "thread_foreach func k = Inr k'"
    and "func = mlfqs_update_priority \<or> func = mlfqs_update_each_recent_cpu"
  shows "quiet k k'"
proof -
  have "quiet k (func t k)" if "sched_inv k" "thread_mlfqs k" for t k
    using that mlfqs_funcs_quiet [of k t] assms(4) by auto
  then have "quiet k (fold func (all_list k) k)" by (rule fold_mlfqs_quiet [OF _ assms(1,2)])
  then show ?thesis using assms(3) by (auto simp: thread_foreach_def res_simps)
qed

lemma mlfqs_tick_quiet:
  assumes "sched_inv k" and "thread_mlfqs k"
    and "bind_res (mlfqs_increase_running_recent_cpu k) (\<lambda>k.
        bind_res (if cmod (timer_ticks k) TIMER_FREQ = 0
                  then bind_res (mlfqs_update_load_avg k) (thread_foreach mlfqs_update_each_recent_cpu)
                  else Inr k) (\<lambda>k.
        if cmod (timer_ticks k) 4 = 0 then thread_foreach mlfqs_update_priority k else Inr k)) = Inr k'"
  shows "quiet k k'"
proof -
  obtain k1 k2 where k1: "mlfqs_increase_running_recent_cpu k = Inr k1"
    and k2: "(if cmod (timer_ticks k1) TIMER_FREQ = 0
              then bind_res (mlfqs_update_load_avg k1) (thread_foreach mlfqs_update_each_recent_cpu) else Inr k1) = Inr k2"
    and k3: "(if cmod (timer_ticks k2) 4 = 0 then thread_foreach mlfqs_update_priority k2 else Inr k2) = Inr k'"
    using assms(3) by (auto simp: bind_res_Inr_iff)
  have q1: "quiet k k1"
    using k1 set_current_quiet [OF assms(1), of "\<lambda>r. r\<lparr>recent_cpu := FP_FP_ADD_INT (recent_cpu r) 1\<rparr>"] assms(1)
    by (auto simp: mlfqs_increase_running_recent_cpu_def thread_current_inv quiet_def effect_def split: if_splits)
  have q2: "quiet k1 k2"
  proof (cases "cmod (timer_ticks k1) TIMER_FREQ = 0")
    case True
    then obtain a where "thread_foreach mlfqs_update_each_recent_cpu (k1\<lparr>load_avg := a\<rparr>) = Inr k2"
      using k2 by (auto simp: mlfqs_update_load_avg_def res_simps Let_def)
    moreover have q: "quiet k1 (k1\<lparr>load_avg := a\<rparr>)" using counters_quiet(6) [OF quiet_same(7) [OF q1]] .
    ultimately have "quiet (k1\<lparr>load_avg := a\<rparr>) k2"
      using thread_foreach_quiet [OF quiet_same(7) [OF q]] quiet_same(11) [OF q1] assms(2) by simp
    then show ?thesis using q quiet_trans by blast
  next
    case False
    then show ?thesis using k2 quiet_same(7) [OF q1] by (simp add: quiet_def effect_def)
  qed
  have q12: "quiet k k2" using quiet_trans [OF q1 q2] .
  have "quiet k2 k'"
    using k3 thread_foreach_quiet [OF quiet_same(7) [OF q12]] quiet_same(7,11) [OF q12] assms(2)
    by (auto simp: quiet_def effect_def split: if_splits)
  then show ?thesis using q12 quiet_trans by blast
qed

lemma timer_interrupt_quiet:
  assumes "sched_inv k" and "timer_interrupt k = Inr k'" and "level k = INTR_OFF"
  shows "quiet k k'"
proof -
  let ?k0 = "k\<lparr>ticks := ticks k + 1\<rparr>"
  have q0: "quiet k ?k0" using counters_quiet(1) [OF assms(1)] .
  obtain k1 k2 where k1: "thread_tick ?k0 = Inr k1" and k2: "wake_threads k1 = Inr k2"
    and k3: "k' = k2 \<or> thread_mlfqs k2 \<and> bind_res (mlfqs_increase_running_recent_cpu k2) (\<lambda>k.
        bind_res (if cmod (timer_ticks k) TIMER_FREQ = 0
                  then bind_res (mlfqs_update_load_avg k) (thread_foreach mlfqs_update_each_recent_cpu)
                  else Inr k) (\<lambda>k.
        if cmod (timer_ticks k) 4 = 0 then thread_foreach mlfqs_update_priority k else Inr k)) = Inr k'"
  proof -
    obtain k1 k2 where *: "thread_tick ?k0 = Inr k1" "wake_threads k1 = Inr k2"
      and b: "(if \<not> thread_mlfqs k2 then Inr k2 else bind_res (mlfqs_increase_running_recent_cpu k2) (\<lambda>k.
        bind_res (if cmod (timer_ticks k) TIMER_FREQ = 0
                  then bind_res (mlfqs_update_load_avg k) (thread_foreach mlfqs_update_each_recent_cpu)
                  else Inr k) (\<lambda>k.
        if cmod (timer_ticks k) 4 = 0 then thread_foreach mlfqs_update_priority k else Inr k))) = Inr k'"
      using assms(2) unfolding timer_interrupt_def Let_def bind_res_Inr_iff by blast
    show ?thesis using that [OF *] b by (cases "thread_mlfqs k2") simp_all
  qed
  have q1: "quiet k k1" using quiet_trans [OF q0 thread_tick_quiet(1) [OF quiet_same(7) [OF q0] k1]] .
  have "quiet k1 k2"
    using wake_loop_spec [OF quiet_same(7) [OF q1] refl] k2 quiet_same(6) [OF q1] assms(3) by (auto simp: wake_threads_def)
  then have q2: "quiet k k2" using q1 quiet_trans by blast
  show ?thesis using k3 q2 mlfqs_tick_quiet [OF quiet_same(7) [OF q2]] quiet_trans [OF q2] by blast
qed


lemma ext_view:
  "vals (k\<lparr>in_external_intr := b\<rparr>) = vals k" "holders (k\<lparr>in_external_intr := b\<rparr>) = holders k"
  "dead (k\<lparr>in_external_intr := b\<rparr>) = dead k" "embryo (k\<lparr>in_external_intr := b\<rparr>) = embryo k"
  "pushed fs (k\<lparr>in_external_intr := b\<rparr>) = pushed fs k" "sched_inv (k\<lparr>in_external_intr := b\<rparr>) \<longleftrightarrow> sched_inv k"
proof -
  have "same_view k (k\<lparr>in_external_intr := b\<rparr>)"
    by (simp add: same_view_def st_def prio_def is_thread_def waits_def fun_eq_iff)
  then show "sched_inv (k\<lparr>in_external_intr := b\<rparr>) \<longleftrightarrow> sched_inv k" by (rule sched_inv_cong)
qed (auto simp: vals_def holders_def dead_def embryo_def pushed_def st_def is_thread_def waits_def fun_eq_iff)

lemma take_timer_interrupt_effect:
  assumes "sched_inv k" and "\<not> in_external_intr k" and "take_timer_interrupt k = Inr k'"
  shows "\<exists>fs. effect k (vals k) (holders k) (conds k) (pushed fs k) k' \<and> set fs \<subseteq> range F_set_level"
proof (cases "level k = INTR_ON")
  case False
  then show ?thesis using assms effect_refl [OF assms(1)] by (auto simp: take_timer_interrupt_def pushed_def intro!: exI [of _ "[]"])
next
  case True
  define k0 where "k0 = push_frame (F_set_level INTR_ON) (k\<lparr>level := INTR_OFF\<rparr>)"
  define k1 where "k1 = k0\<lparr>in_external_intr := True\<rparr>\<lparr>yield_on_return := False\<rparr>"
  have f0: "vals k0 = vals k" "holders k0 = holders k" "conds k0 = conds k" "frames k0 = pushed [F_set_level INTR_ON] k"
      "sched_inv k0" "level k0 = INTR_OFF" "in_external_intr k0 = in_external_intr k" "current k0 = current k"
      "effect k0 v h c fs x \<longleftrightarrow> effect k v h c fs x" "pushed gs k0 = pushed (gs @ [F_set_level INTR_ON]) k" for v h c fs x gs
    using assms(1) by (auto simp: k0_def push_frame_view level_view sched_inv_level fields_push_frame effect_push effect_level)
  obtain k2 where k2: "timer_interrupt k1 = Inr k2"
    and k3: "(if yield_on_return k2 then thread_yield (k2\<lparr>in_external_intr := False\<rparr>) else Inr (k2\<lparr>in_external_intr := False\<rparr>)) = Inr k'"
    using assms(3) True
    by (auto simp: take_timer_interrupt_def intr_handler_def external_intr_def bind_res_Inr_iff k0_def k1_def Let_def)
  have "quiet (k0\<lparr>in_external_intr := True\<rparr>) k1"
    unfolding k1_def by (rule counters_quiet(5)) (simp add: ext_view f0)
  moreover have "quiet k1 k2"
    using timer_interrupt_quiet [OF quiet_same(7) [OF calculation] k2] by (simp add: k1_def f0)
  ultimately have q: "quiet (k0\<lparr>in_external_intr := True\<rparr>) k2" by (rule quiet_trans)
  define k4 where "k4 = k2\<lparr>in_external_intr := False\<rparr>"
  have q4: "quiet k0 k4"
    using q assms(2) by (simp add: quiet_def effect_def same_rest_def ext_view f0 k4_def)
  show ?thesis
  proof (cases "yield_on_return k2")
    case True
    then have "thread_yield k4 = Inr k'" using k3 by (simp add: k4_def)
    then have "effect k4 (vals k4) (holders k4) (conds k4) (pushed [F_set_level (level k4)] k4) k'"
      using thread_yield_effect [OF quiet_same(7) [OF q4]] quiet_same(8) [OF q4] f0 assms(2) by auto
    then have "effect k0 (vals k0) (holders k0) (conds k0) (pushed [F_set_level (level k0)] k0) k'"
      using effect_quiet_left [OF q4] quiet_same [OF q4] by simp
    then show ?thesis using f0 by (auto intro!: exI [of _ "[F_set_level INTR_OFF, F_set_level INTR_ON]"])
  next
    case False
    then have "k' = k4" using k3 by (simp add: k4_def)
    then have "effect k0 (vals k0) (holders k0) (conds k0) (frames k0) k'" using q4 by (simp add: quiet_def)
    then show ?thesis using f0 by (auto intro!: exI [of _ "[F_set_level INTR_ON]"])
  qed
qed

section \<open>Creation\<close>

text \<open>The state in which a new thread starts to acquire the tid lock.\<close>

lemma thread_create_result:
  assumes "sched_inv k" and "thread_create page name p k = Inr (True, k')" and "\<not> is_thread k page" and "\<not> in_external_intr k"
  shows "\<exists>k1. sched_inv k1 \<and> vals k1 = vals k \<and> holders k1 = holders k \<and> conds k1 = conds k
     \<and> frames k1 = (frames k)(page := [F_set_level INTR_ON]) \<and> tid_lock k1 = tid_lock k \<and> idle_thread k1 = idle_thread k
     \<and> in_external_intr k1 = in_external_intr k \<and> dead k1 = (dead k)(page := False) \<and> current k1 = current k
     \<and> (\<forall>t. embryo k t \<or> t = page \<longrightarrow> embryo k1 t) \<and> page \<noteq> current k \<and> level k1 = level k
     \<and> lock_acquire (tid_lock k) (push_frame (F_allocate_tid page) (push_frame (F_thread_create page p) k1)) = Inr k'"
proof -
  define k0 where "k0 = k\<lparr>frames := (frames k)(page := [F_set_level INTR_ON])\<rparr>"
  obtain k1 where pg: "page \<noteq> NULL" and i: "init_thread page name p k0 = Inr k1"
    and a: "allocate_tid page (push_frame (F_thread_create page p) k1) = Inr k'"
    using assms(2) by (auto simp: thread_create_def bind_res_Inr_iff Let_def k0_def split: if_splits)
  obtain xs where k1: "k1 = set_thr page (\<lambda>_. new_thread page name p) k0\<lparr>all_list := xs, level := level k\<rparr>"
    using i assms(4)
    by (cases "level k") (auto simp: init_thread_def bind_res_Inr_iff intr_disable_def intr_set_level_def intr_enable_def
        Let_def k0_def kdefs)
  have lists: "lists_ok k" "idle_ok k" "sorted_ready k" and run: "\<And>u. runs k u \<longleftrightarrow> u = current k"
    using assms(1) by (auto simp: sched_inv_def)
  have v: "st k1 t = (if t = page then THREAD_BLOCKED else st k t)" "is_thread k1 t \<longleftrightarrow> t = page \<or> is_thread k t"
      "waits k1 = waits k" "waiting_threads k1 = waiting_threads k" "ready_list k1 = ready_list k"
      "idle_thread k1 = idle_thread k" "current k1 = current k" "thread_mlfqs k1 = thread_mlfqs k"
      "t \<noteq> page \<Longrightarrow> prio k1 t = prio k t" "level k1 = level k" for t
    using pg by (auto simp: k1 k0_def st_def is_thread_def prio_def waits_def new_thread_def kdefs fun_eq_iff)
  have nl: "page \<notin> set (ready_list k)" "page \<notin> set (waiting_threads k)" "page \<notin> set (waits k s)" "page \<noteq> current k"
      "page \<noteq> idle_thread k" for s
    using assms(3) lists(1,2) sched_inv_current [OF assms(1)] by (auto simp: lists_ok_def in_state_def idle_ok_def)
  have "in_state k1 x ts = in_state k x ts" if "page \<notin> set ts" for x ts
    using that unfolding in_state_def v(1,2) by metis
  then have "lists_ok k1" using lists(1) nl unfolding lists_ok_def v by metis
  moreover have "idle_ok k1" using lists(2) nl by (simp add: idle_ok_def v)
  moreover have "map (prio k1) (ready_list k) = map (prio k) (ready_list k)" using nl(1) v(9) by (metis map_cong)
  then have "sorted_ready k1" using lists(3) unfolding sorted_ready_alt v by metis
  moreover have "runs k1 t \<longleftrightarrow> t = current k" for t using run [of t] nl(4) assms(3) by (auto simp: runs_def v)
  ultimately have "sched_inv k1" by (simp add: sched_inv_def v)
  moreover have "dead k1 = (dead k)(page := False)" by (auto simp: dead_def v fun_eq_iff)
  moreover have "embryo k t \<or> t = page \<longrightarrow> embryo k1 t" for t using nl by (auto simp: embryo_def v)
  moreover have "vals k1 = vals k" "holders k1 = holders k" "conds k1 = conds k" "tid_lock k1 = tid_lock k"
     "frames k1 = (frames k)(page := [F_set_level INTR_ON])" "in_external_intr k1 = in_external_intr k"
    by (auto simp: k1 k0_def vals_def holders_def kdefs fun_eq_iff)
  moreover have "lock_acquire (tid_lock k) (push_frame (F_allocate_tid page) (push_frame (F_thread_create page p) k1)) = Inr k'"
    using a calculation by (simp add: allocate_tid_def fields_push_frame)
  ultimately show ?thesis using v(6,7,10) nl(4) by (intro exI [of _ k1]) simp
qed

lemma woken_embryo:
  assumes "sched_inv k" and "embryo k t" and "\<not> in_external_intr k"
  shows "thread_unblock t k = Inr (woken t k)" and "sched_inv (woken t k)" and "dead (woken t k) = dead k"
    and "u \<noteq> t \<Longrightarrow> embryo k u \<Longrightarrow> embryo (woken t k) u"
proof -
  have e: "is_thread k t" "st k t = THREAD_BLOCKED" "t \<noteq> idle_thread k" "t \<notin> set (waiting_threads k)" "\<And>s. t \<notin> set (waits k s)"
    using assms(2) by (auto simp: embryo_def)
  show "thread_unblock t k = Inr (woken t k)" using thread_unblock_eq [OF e(1,2)] assms(3) by simp
  show "sched_inv (woken t k)" using woken_inv [OF assms(1) e] .
  show "dead (woken t k) = dead k" using e(2) by (auto simp: dead_def woken_def st_def is_thread_def kdefs fun_eq_iff)
  show "u \<noteq> t \<Longrightarrow> embryo k u \<Longrightarrow> embryo (woken t k) u"
    by (auto simp: embryo_def woken_def st_def is_thread_def waits_def kdefs)
qed

lemma thread_create_end_result:
  assumes "sched_inv k" and "embryo k t" and "\<not> in_external_intr k" and "thread_create_end t p k = Inr k'"
  shows "\<exists>k1 fs. sched_inv k1 \<and> vals k1 = vals k \<and> holders k1 = holders k \<and> conds k1 = conds k \<and> frames k1 = frames k
     \<and> tid_lock k1 = tid_lock k \<and> idle_thread k1 = idle_thread k \<and> in_external_intr k1 = in_external_intr k
     \<and> dead k1 = dead k \<and> current k1 = current k \<and> (\<forall>u. u \<noteq> t \<longrightarrow> embryo k u \<longrightarrow> embryo k1 u)
     \<and> effect k1 (vals k1) (holders k1) (conds k1) (pushed fs k1) k' \<and> set fs \<subseteq> range F_set_level"
proof -
  define k0 where "k0 = set_thr t (\<lambda>r. r\<lparr>stack := stack r - 12 - 4 - 28\<rparr>) (set_thr t (\<lambda>r. r\<lparr>ticks_wake := 0\<rparr>) k)"
  let ?ka = "set_thr t (\<lambda>r. r\<lparr>ticks_wake := 0\<rparr>) k"
  have qa: "quiet k ?ka" by (rule set_thr_quiet [OF assms(1)]) simp_all
  have "quiet ?ka k0" unfolding k0_def by (rule set_thr_quiet [OF quiet_same(7) [OF qa]]) simp_all
  then have q0: "quiet k k0" using qa quiet_trans by blast
  note s0 = quiet_same [OF q0]
  have emb: "embryo k0 u" if "embryo k u" for u using q0 that by (auto simp: quiet_def effect_def same_rest_def)
  note w = woken_embryo [OF s0(7) emb [OF assms(2)]]
  have "is_thread k t" using assms(2) by (simp add: embryo_def)
  then have fr: "alloc_frame t 12 ?ka = Inr k1 \<Longrightarrow> alloc_frame t 4 k1 = Inr k2 \<Longrightarrow> alloc_frame t 28 k2 = Inr k3 \<Longrightarrow> k3 = k0"
    for k1 k2 k3
    by (auto simp: alloc_frame_def bind_res_Inr_iff k0_def kdefs intro!: kernel.equality)
  define k1 where "k1 = woken t k0"
  have cur: "current k1 = current k" using s0 by (simp add: k1_def woken_def kdefs)
  have ext: "\<not> in_external_intr k1" using assms(3) s0 by (simp add: k1_def woken_def kdefs)
  have inv1: "sched_inv k1" using w(2) assms(3) s0 by (simp add: k1_def)
  have "(if priority (thr k1 (current k)) < p then thread_yield k1 else Inr k1) = Inr k'"
    using assms(3,4) fr w(1) s0 thread_current_inv [OF inv1] cur
    unfolding thread_create_end_def bind_res_Inr_iff k1_def by auto
  then consider "k' = k1" | "thread_yield k1 = Inr k'" by (cases "priority (thr k1 (current k)) < p") auto
  then have "\<exists>fs. effect k1 (vals k1) (holders k1) (conds k1) (pushed fs k1) k' \<and> set fs \<subseteq> range F_set_level"
  proof cases
    case 1
    then show ?thesis using effect_refl [OF inv1] by (auto simp: pushed_def intro!: exI [of _ "[]"])
  next
    case 2
    then show ?thesis using thread_yield_effect [OF inv1 ext] by auto
  qed
  moreover have "vals k1 = vals k" "holders k1 = holders k" "conds k1 = conds k" "frames k1 = frames k" "tid_lock k1 = tid_lock k"
      "idle_thread k1 = idle_thread k" "in_external_intr k1 = in_external_intr k"
    using s0 by (auto simp: k1_def woken_def vals_def holders_def kdefs fun_eq_iff)
  moreover have "dead k1 = dead k" using w(3) assms(3) s0 q0 by (simp add: k1_def quiet_def effect_def same_rest_def)
  moreover have "u \<noteq> t \<longrightarrow> embryo k u \<longrightarrow> embryo k1 u" for u using w(4) emb assms(3) s0 by (simp add: k1_def)
  ultimately show ?thesis using inv1 cur by blast
qed

end
