(* ===== verification/Kernel_Steps.thy ===== *)
theory Kernel_Steps
  imports Timer_Effects
begin

text \<open>
  The kernel of project 1 as a transition system. A step is a call made by the running thread, the
  continuation of a routine it has left unfinished, one round of the idle thread, or a timer
  interrupt. In every reachable state the scheduling invariant holds and every lock has at most
  one owner.
\<close>

section \<open>Steps\<close>

datatype call =
    Sema_init addr "32 word" | Sema_down addr | Sema_try_down addr | Sema_up addr
  | Lock_acquire addr | Lock_try_acquire addr | Lock_release addr
  | Cond_init addr | Cond_wait addr addr addr | Cond_signal addr addr | Cond_broadcast addr addr
  | Thread_create addr string int | Thread_yield | Thread_exit
  | Set_priority int | Set_nice int | Timer_sleep int

fun exec_call :: "call \<Rightarrow> kernel \<Rightarrow> kernel res" where
  "exec_call (Sema_init s v) k = sema_init s v k"
| "exec_call (Sema_down s) k = sema_down s k"
| "exec_call (Sema_try_down s) k = bind_res (sema_try_down s k) (\<lambda>(_, k). Inr k)"
| "exec_call (Sema_up s) k = sema_up s k"
| "exec_call (Lock_acquire l) k = lock_acquire l k"
| "exec_call (Lock_try_acquire l) k = bind_res (lock_try_acquire l k) (\<lambda>(_, k). Inr k)"
| "exec_call (Lock_release l) k = lock_release l k"
| "exec_call (Cond_init c) k = cond_init c k"
| "exec_call (Cond_wait c l w) k = cond_wait c l w k"
| "exec_call (Cond_signal c l) k = cond_signal c l k"
| "exec_call (Cond_broadcast c l) k = cond_broadcast c l k"
| "exec_call (Thread_create page name p) k = bind_res (thread_create page name p k) (\<lambda>(_, k). Inr k)"
| "exec_call Thread_yield k = thread_yield k"
| "exec_call Thread_exit k = thread_exit k"
| "exec_call (Set_priority p) k = thread_set_priority p k"
| "exec_call (Set_nice n) k = thread_set_nice n k"
| "exec_call (Timer_sleep n) k = timer_sleep n k"

text \<open>Continuing the innermost unfinished routine of the running thread.\<close>

fun run_frame :: "frame \<Rightarrow> kernel \<Rightarrow> kernel res" where
  "run_frame (F_set_level l) k = bind_res (intr_set_level l k) (\<lambda>(_, k). Inr k)"
| "run_frame (F_sema_down s old) k = sema_down_loop s old k"
| "run_frame (F_lock_acquire l) k = lock_acquire_end l k"
| "run_frame (F_cond_wait_down s l) k = cond_wait_down s l k"
| "run_frame (F_cond_wait l) k = lock_acquire l k"
| "run_frame (F_cond_broadcast c l) k = cond_broadcast_loop c l k"
| "run_frame (F_allocate_tid t) k = allocate_tid_end t k"
| "run_frame (F_thread_create t p) k = thread_create_end t p k"
| "run_frame (F_thread_start s) k = thread_start_end s k"

definition pop_frame :: "kernel \<Rightarrow> kernel" where
  "pop_frame k = k\<lparr>frames := (frames k)(current k := tl (frames k (current k)))\<rparr>"

text \<open>
  What callers respect. \<open>L\<close> is the set of initialised locks: locks are used through lock
  operations only, the semaphores of \<open>L\<close> are not used directly, a semaphore or condition
  variable is initialised while nothing waits on it, and a new thread gets a fresh page.
\<close>

definition plain_sema :: "addr set \<Rightarrow> addr \<Rightarrow> bool" where
  "plain_sema L s \<longleftrightarrow> s \<notin> lock_sema ` L"

fun call_ok :: "addr set \<Rightarrow> kernel \<Rightarrow> call \<Rightarrow> bool" where
  "call_ok L k (Sema_init s v) \<longleftrightarrow> plain_sema L s \<and> waits k s = []"
| "call_ok L k (Sema_down s) \<longleftrightarrow> plain_sema L s"
| "call_ok L k (Sema_try_down s) \<longleftrightarrow> plain_sema L s"
| "call_ok L k (Sema_up s) \<longleftrightarrow> plain_sema L s"
| "call_ok L k (Lock_acquire l) \<longleftrightarrow> l \<in> L"
| "call_ok L k (Lock_try_acquire l) \<longleftrightarrow> l \<in> L"
| "call_ok L k (Lock_release l) \<longleftrightarrow> l \<in> L"
| "call_ok L k (Cond_init c) \<longleftrightarrow> conds k c = []"
| "call_ok L k (Cond_wait c l w) \<longleftrightarrow> l \<in> L \<and> plain_sema L (elem_sema w) \<and> waits k (elem_sema w) = []"
| "call_ok L k (Cond_signal c l) \<longleftrightarrow> l \<in> L"
| "call_ok L k (Cond_broadcast c l) \<longleftrightarrow> l \<in> L"
| "call_ok L k (Thread_create page name p) \<longleftrightarrow> \<not> is_thread k page"
| "call_ok L k _ \<longleftrightarrow> True"

inductive kstep :: "addr set \<Rightarrow> kernel \<Rightarrow> kernel \<Rightarrow> bool" for L where
  step_call: "frames k (current k) = [] \<Longrightarrow> current k \<noteq> idle_thread k \<Longrightarrow> level k = INTR_ON \<Longrightarrow> call_ok L k c
     \<Longrightarrow> exec_call c k = Inr k' \<Longrightarrow> kstep L k k'"
| step_frame: "frames k (current k) = fr # fs \<Longrightarrow> run_frame fr (pop_frame k) = Inr k' \<Longrightarrow> kstep L k k'"
| step_idle: "frames k (current k) = [] \<Longrightarrow> current k = idle_thread k \<Longrightarrow> idle_loop k = Inr k' \<Longrightarrow> kstep L k k'"
| step_timer: "take_timer_interrupt k = Inr k' \<Longrightarrow> kstep L k k'"

inductive reach :: "addr set \<Rightarrow> kernel \<Rightarrow> kernel \<Rightarrow> bool" for L and k0 where
  reach_init: "reach L k0 k0"
| reach_step: "reach L k0 k \<Longrightarrow> kstep L k k' \<Longrightarrow> reach L k0 k'"

section \<open>Ownership of locks\<close>

text \<open>
  Between the return of \<^verbatim>\<open>sema_down\<close> and the assignment of the holder, the frame of
  \<^verbatim>\<open>lock_acquire\<close> is on the stack without that of \<^verbatim>\<open>sema_down\<close> above it.
  \<open>passes l fs\<close> counts such frames for lock \<open>l\<close>.
\<close>

fun passes :: "addr \<Rightarrow> frame list \<Rightarrow> nat" where
  "passes l [] = 0"
| "passes l (F_sema_down s old # F_lock_acquire m # fs) =
     (if s = lock_sema m then passes l fs else passes l (F_lock_acquire m # fs))"
| "passes l (F_lock_acquire m # fs) = (if m = l then 1 else 0) + passes l fs"
| "passes l (_ # fs) = passes l fs"

text \<open>A thread owns a lock from the return of \<^verbatim>\<open>sema_down\<close> to the release.\<close>

definition owns :: "kernel \<Rightarrow> addr \<Rightarrow> addr \<Rightarrow> bool" where
  "owns k t l \<longleftrightarrow> passes l (frames k t) \<noteq> 0 \<or> holders k l = t \<and> t \<noteq> NULL"

text \<open>The lock is free, held, or about to be held by exactly one thread.\<close>

definition lock_ok :: "(addr \<Rightarrow> 32 word) \<Rightarrow> (addr \<Rightarrow> addr) \<Rightarrow> (addr \<Rightarrow> frame list) \<Rightarrow> addr \<Rightarrow> bool" where
  "lock_ok v h fs l \<longleftrightarrow>
     (v (lock_sema l) = 1 \<and> h l = NULL \<and> (\<forall>t. passes l (fs t) = 0))
     \<or> (v (lock_sema l) = 0 \<and> h l \<noteq> NULL \<and> (\<forall>t. passes l (fs t) = 0))
     \<or> (v (lock_sema l) = 0 \<and> h l = NULL \<and> (\<exists>t. passes l (fs t) = 1 \<and> (\<forall>u. u \<noteq> t \<longrightarrow> passes l (fs u) = 0)))"

fun frame_ok :: "addr set \<Rightarrow> frame \<Rightarrow> bool" where
  "frame_ok L (F_lock_acquire l) \<longleftrightarrow> l \<in> L"
| "frame_ok L (F_cond_wait_down s l) \<longleftrightarrow> plain_sema L s \<and> l \<in> L"
| "frame_ok L (F_cond_wait l) \<longleftrightarrow> l \<in> L"
| "frame_ok L (F_cond_broadcast c l) \<longleftrightarrow> l \<in> L"
| "frame_ok L (F_thread_start s) \<longleftrightarrow> plain_sema L s"
| "frame_ok L _ \<longleftrightarrow> True"

fun frames_ok :: "addr set \<Rightarrow> frame list \<Rightarrow> bool" where
  "frames_ok L [] \<longleftrightarrow> True"
| "frames_ok L (F_sema_down s old # fs) \<longleftrightarrow>
     (plain_sema L s \<or> (\<exists>l gs. fs = F_lock_acquire l # gs \<and> s = lock_sema l)) \<and> frames_ok L fs"
| "frames_ok L (fr # fs) \<longleftrightarrow> frame_ok L fr \<and> frames_ok L fs"

definition creates :: "addr \<Rightarrow> frame list \<Rightarrow> nat" where
  "creates t fs = length (filter (\<lambda>fr. \<exists>p. fr = F_thread_create t p) fs)"

text \<open>All but the locks.\<close>

definition kinv0 :: "addr set \<Rightarrow> kernel \<Rightarrow> bool" where
  "kinv0 L k \<longleftrightarrow> sched_inv k \<and> \<not> in_external_intr k \<and> tid_lock k \<in> L
     \<and> set (frames k (idle_thread k)) \<subseteq> range F_set_level
     \<and> (\<forall>t. frames_ok L (frames k t)) \<and> (\<forall>t. dead k t \<longrightarrow> frames k t = [])
     \<and> (\<forall>c. \<forall>w\<in>set (conds k c). plain_sema L (elem_sema w))
     \<and> (\<forall>t u. creates t (frames k u) > 0 \<longrightarrow> embryo k t) \<and> (\<forall>t u. creates t (frames k u) \<le> 1)
     \<and> (\<forall>t u u'. creates t (frames k u) > 0 \<and> creates t (frames k u') > 0 \<longrightarrow> u = u')"

definition kinv :: "addr set \<Rightarrow> kernel \<Rightarrow> bool" where
  "kinv L k \<longleftrightarrow> kinv0 L k \<and> (\<forall>l\<in>L. lock_ok (vals k) (holders k) (frames k) l)"

subsection \<open>Counting\<close>

lemma passes_push [simp]:
  "passes l (F_set_level x # fs) = passes l fs" "passes l (F_cond_wait_down s m # fs) = passes l fs"
  "passes l (F_cond_wait m # fs) = passes l fs" "passes l (F_cond_broadcast c m # fs) = passes l fs"
  "passes l (F_allocate_tid t # fs) = passes l fs" "passes l (F_thread_create t p # fs) = passes l fs"
  "passes l (F_thread_start s # fs) = passes l fs"
  by auto

lemma passes_sema_down:
  "passes l (F_sema_down s old # fs) =
     (case fs of F_lock_acquire m # gs \<Rightarrow> if s = lock_sema m then passes l gs else passes l fs | _ \<Rightarrow> passes l fs)"
  by (cases fs; cases "hd fs") auto

lemma lock_sema_inj [simp]: "lock_sema l = lock_sema m \<longleftrightarrow> l = m"
  by (simp add: lock_sema_def)

lemma passes_plain:
  assumes "plain_sema L s" and "frames_ok L (F_sema_down s old # fs)"
  shows "passes l (F_sema_down s old # fs) = passes l fs"
proof -
  have "m \<in> L" if "fs = F_lock_acquire m # gs" for m gs using assms(2) that by simp
  then show ?thesis using assms(1)
    by (auto simp: passes_sema_down plain_sema_def split: list.splits frame.splits)
qed

lemma creates_simps [simp]:
  "creates t [] = 0" "creates t (F_thread_create u p # fs) = (if u = t then 1 else 0) + creates t fs"
  "creates t (F_set_level x # fs) = creates t fs" "creates t (F_sema_down s x # fs) = creates t fs"
  "creates t (F_lock_acquire l # fs) = creates t fs" "creates t (F_cond_wait_down s l # fs) = creates t fs"
  "creates t (F_cond_wait l # fs) = creates t fs" "creates t (F_cond_broadcast c l # fs) = creates t fs"
  "creates t (F_allocate_tid u # fs) = creates t fs" "creates t (F_thread_start s # fs) = creates t fs"
  by (auto simp: creates_def)

lemma creates_Cons_le: "creates t fs \<le> creates t (fr # fs)"
  by (auto simp: creates_def)

lemma frames_ok_tl: "frames_ok L (fr # fs) \<Longrightarrow> frames_ok L fs"
  by (cases fr) auto

lemma set_levels_append:
  assumes "set gs \<subseteq> range F_set_level"
  shows "passes l (gs @ fs) = passes l fs" "frames_ok L (gs @ fs) = frames_ok L fs" "creates t (gs @ fs) = creates t fs"
  using assms by (induction gs) auto

subsection \<open>Preservation, apart from locks\<close>

lemma kinv0_effect:
  assumes "kinv0 L k" and "effect k v h c fs k'" and "fs = (frames k)(current k := gs)" and "frames_ok L gs"
    and "\<And>t. creates t gs \<le> creates t (frames k (current k))" and "\<forall>x. \<forall>w\<in>set (c x). plain_sema L (elem_sema w)"
    and "current k = idle_thread k \<Longrightarrow> set gs \<subseteq> range F_set_level"
  shows "kinv0 L k'"
proof -
  have k: "sched_inv k" "\<not> in_external_intr k" "tid_lock k \<in> L" "\<And>t. frames_ok L (frames k t)"
      "\<And>t. dead k t \<Longrightarrow> frames k t = []" "\<And>t u. creates t (frames k u) > 0 \<Longrightarrow> embryo k t"
      "\<And>t u. creates t (frames k u) \<le> 1"
      "\<And>t u u'. creates t (frames k u) > 0 \<Longrightarrow> creates t (frames k u') > 0 \<Longrightarrow> u = u'"
      "set (frames k (idle_thread k)) \<subseteq> range F_set_level"
    using assms(1) unfolding kinv0_def by blast+
  have idle: "idle_thread k' = idle_thread k" using assms(2) by (simp add: effect_def same_rest_def)
  have e: "sched_inv k'" "tid_lock k' = tid_lock k" "in_external_intr k' = in_external_intr k" "dead k' = dead k"
      "\<And>t. embryo k t \<Longrightarrow> embryo k' t" "conds k' = c" "frames k' = (frames k)(current k := gs)"
    using assms(2,3) by (auto simp: effect_def same_rest_def)
  have cr: "creates t (frames k' u) \<le> creates t (frames k u)" for t u using assms(5) by (simp add: e(7))
  have alive: "\<not> dead k (current k)" using sched_inv_current [OF k(1)] by (simp add: dead_def)
  show ?thesis
    unfolding kinv0_def
  proof (intro conjI allI impI)
    show "frames_ok L (frames k' t)" for t using k(4) assms(4) by (simp add: e(7))
    show "set (frames k' (idle_thread k')) \<subseteq> range F_set_level" using k(9) assms(7) by (auto simp: e(7) idle)
    show "frames k' t = []" if "dead k' t" for t using that k(5) alive by (auto simp: e(4,7))
    show "\<forall>w\<in>set (conds k' x). plain_sema L (elem_sema w)" for x using assms(6) by (simp add: e(6))
    show "embryo k' t" if "creates t (frames k' u) > 0" for t u using that cr [of t u] k(6) e(5) by (metis less_le_trans)
    show "creates t (frames k' u) \<le> 1" for t u using cr [of t u] k(7) [of t u] by linarith
    show "u = u'" if "creates t (frames k' u) > 0 \<and> creates t (frames k' u') > 0" for t u u'
      using that cr [of t u] cr [of t u'] k(8) by (metis less_le_trans)
  qed (use k e in auto)
qed

lemma pop_frame_view:
  "same_view k (pop_frame k)" "vals (pop_frame k) = vals k" "holders (pop_frame k) = holders k" "conds (pop_frame k) = conds k"
  "dead (pop_frame k) = dead k" "embryo (pop_frame k) = embryo k" "level (pop_frame k) = level k" "current (pop_frame k) = current k"
  "in_external_intr (pop_frame k) = in_external_intr k" "tid_lock (pop_frame k) = tid_lock k" "idle_thread (pop_frame k) = idle_thread k"
  "thread_mlfqs (pop_frame k) = thread_mlfqs k" "frames (pop_frame k) = (frames k)(current k := tl (frames k (current k)))"
  by (auto simp: pop_frame_def same_view_def vals_def holders_def dead_def embryo_def st_def prio_def is_thread_def waits_def fun_eq_iff)

lemma sched_inv_pop [simp]: "sched_inv (pop_frame k) \<longleftrightarrow> sched_inv k"
  using sched_inv_cong [OF pop_frame_view(1)] .

lemma kinv0_pop:
  assumes "kinv0 L k" and "frames k (current k) = fr # fs"
  shows "kinv0 L (pop_frame k)"
proof (rule kinv0_effect [OF assms(1)])
  show "effect k (vals k) (holders k) (conds k) (frames (pop_frame k)) (pop_frame k)"
    using assms(1) by (simp add: effect_def same_rest_def pop_frame_view kinv0_def)
  show "frames (pop_frame k) = (frames k)(current k := fs)" using assms(2) by (simp add: pop_frame_view)
  show "frames_ok L fs" using assms frames_ok_tl unfolding kinv0_def by metis
  show "creates t fs \<le> creates t (frames k (current k))" for t using assms(2) creates_Cons_le by metis
  show "\<forall>x. \<forall>w\<in>set (conds k x). plain_sema L (elem_sema w)" using assms(1) unfolding kinv0_def by blast
  show "set fs \<subseteq> range F_set_level" if "current k = idle_thread k"
    using assms that unfolding kinv0_def by (metis set_subset_Cons subset_trans)
qed


subsection \<open>Preservation of lock ownership\<close>

lemma lock_ok_cong:
  assumes "lock_ok v h fs l" and "v' (lock_sema l) = v (lock_sema l)" and "h' l = h l" and "\<And>t. passes l (fs' t) = passes l (fs t)"
  shows "lock_ok v' h' fs' l"
  using assms by (simp add: lock_ok_def)

lemma kinv_sched: "kinv L k \<Longrightarrow> sched_inv k" "kinv L k \<Longrightarrow> \<not> in_external_intr k"
  "kinv L k \<Longrightarrow> \<forall>x. \<forall>w\<in>set (conds k x). plain_sema L (elem_sema w)"
  "kinv L k \<Longrightarrow> tid_lock k \<in> L" "kinv L k \<Longrightarrow> frames_ok L (frames k t)"
  unfolding kinv_def kinv0_def by blast+

lemma kinv_lock: "kinv L k \<Longrightarrow> l \<in> L \<Longrightarrow> lock_ok (vals k) (holders k) (frames k) l"
  by (simp add: kinv_def)

lemma kinv_idle:
  assumes "kinv0 L k" and "current k = idle_thread k"
  shows "set (frames k (current k)) \<subseteq> range F_set_level"
  using assms by (simp add: kinv0_def)

text \<open>Routines that only leave frames restoring the interrupt level.\<close>

lemma kinv_levels:
  assumes "kinv L k" and "effect k v (holders k) c (pushed gs k) k'" and "set gs \<subseteq> range F_set_level"
    and "\<And>l. l \<in> L \<Longrightarrow> v (lock_sema l) = vals k (lock_sema l)" and "\<forall>x. \<forall>w\<in>set (c x). plain_sema L (elem_sema w)"
  shows "kinv L k'"
proof -
  have k0: "kinv0 L k" using assms(1) by (simp add: kinv_def)
  have "kinv0 L k'"
  proof (rule kinv0_effect [OF k0 assms(2)])
    show "pushed gs k = (frames k)(current k := gs @ frames k (current k))" by (simp add: pushed_def)
    show "frames_ok L (gs @ frames k (current k))" using set_levels_append(2) [OF assms(3)] kinv_sched(5) [OF assms(1)] by simp
    show "creates t (gs @ frames k (current k)) \<le> creates t (frames k (current k))" for t
      using set_levels_append(3) [OF assms(3)] by simp
    show "set (gs @ frames k (current k)) \<subseteq> range F_set_level" if "current k = idle_thread k"
      using kinv_idle [OF k0 that] assms(3) by auto
  qed (rule assms(5))
  moreover have "lock_ok (vals k') (holders k') (frames k') l" if "l \<in> L" for l
  proof (rule lock_ok_cong)
    show "lock_ok (vals k) (holders k) (frames k) l" using assms(1) that by (simp add: kinv_def)
    show "vals k' (lock_sema l) = vals k (lock_sema l)" using assms(2,4) that by (simp add: effect_def)
    show "holders k' l = holders k l" using assms(2) by (simp add: effect_def)
    show "passes l (frames k' t) = passes l (frames k t)" for t
      using assms(2) set_levels_append(1) [OF assms(3)] by (simp add: effect_def pushed_def)
  qed
  ultimately show ?thesis by (simp add: kinv_def)
qed

lemma kinv_pop:
  assumes "kinv L k" and "frames k (current k) = fr # fs" and "\<And>l. l \<in> L \<Longrightarrow> passes l (fr # fs) = passes l fs"
  shows "kinv L (pop_frame k)"
proof -
  have "kinv0 L (pop_frame k)" using assms kinv0_pop by (simp add: kinv_def)
  moreover have "lock_ok (vals (pop_frame k)) (holders (pop_frame k)) (frames (pop_frame k)) l" if "l \<in> L" for l
    by (rule lock_ok_cong [OF kinv_lock [OF assms(1) that]]) (simp_all add: pop_frame_view assms(2) assms(3) [OF that])
  ultimately show ?thesis by (simp add: kinv_def)
qed

lemma kinv_push:
  assumes "kinv L k" and "frames_ok L (fr # frames k (current k))" and "\<And>l. passes l (fr # frames k (current k)) = passes l (frames k (current k))"
    and "current k \<noteq> idle_thread k" and "\<And>t p. fr \<noteq> F_thread_create t p"
  shows "kinv L (push_frame fr k)"
proof -
  have "kinv0 L (push_frame fr k)"
  proof (rule kinv0_effect)
    show "kinv0 L k" using assms(1) by (simp add: kinv_def)
    show "effect k (vals k) (holders k) (conds k) (frames (push_frame fr k)) (push_frame fr k)"
      using kinv_sched(1) [OF assms(1)] by (simp add: effect_def same_rest_def push_frame_view fields_push_frame)
    show "frames (push_frame fr k) = (frames k)(current k := fr # frames k (current k))" by (simp add: kdefs)
    show "creates t (fr # frames k (current k)) \<le> creates t (frames k (current k))" for t
      using assms(5) by (simp add: creates_def)
  qed (use assms kinv_sched(3) [OF assms(1)] in auto)
  moreover have "lock_ok (vals (push_frame fr k)) (holders (push_frame fr k)) (frames (push_frame fr k)) l" if "l \<in> L" for l
    by (rule lock_ok_cong [OF kinv_lock [OF assms(1) that]]) (simp_all add: push_frame_view pushed_def assms(3))
  ultimately show ?thesis by (simp add: kinv_def)
qed

text \<open>Waiting for and passing a semaphore that is not a lock's.\<close>

lemma plain_neq: "plain_sema L s \<Longrightarrow> l \<in> L \<Longrightarrow> s \<noteq> lock_sema l \<and> lock_sema l \<noteq> s"
  by (auto simp: plain_sema_def)

lemma kinv_wait_plain:
  assumes "kinv L k" and "plain_sema L s" and "current k \<noteq> idle_thread k"
    and "if vals k s = 0 then effect k (vals k) (holders k) (conds k) (pushed [F_sema_down s old] k) k'
      else effect k ((vals k)(s := vals k s - 1)) (holders k) (conds k) (frames k) k'"
  shows "kinv L k'"
proof (cases "vals k s = 0")
  case False
  then have "effect k ((vals k)(s := vals k s - 1)) (holders k) (conds k) (pushed [] k) k'" using assms(4) by (simp add: pushed_def)
  then show ?thesis
    by (rule kinv_levels [OF assms(1)]) (use assms(2) kinv_sched(3) [OF assms(1)] in \<open>auto dest: plain_neq\<close>)
next
  case True
  then have e: "effect k (vals k) (holders k) (conds k) (pushed [F_sema_down s old] k) k'" using assms(4) by simp
  have ok: "frames_ok L (F_sema_down s old # frames k (current k))" using assms(2) kinv_sched(5) [OF assms(1)] by simp
  have "kinv0 L k'"
  proof (rule kinv0_effect [OF _ e])
    show "kinv0 L k" using assms(1) by (simp add: kinv_def)
    show "pushed [F_sema_down s old] k = (frames k)(current k := F_sema_down s old # frames k (current k))"
      by (simp add: pushed_def)
  qed (use assms(3) ok kinv_sched(3) [OF assms(1)] in auto)
  moreover have "lock_ok (vals k') (holders k') (frames k') l" if "l \<in> L" for l
    using e passes_plain [OF assms(2) ok]
    by (intro lock_ok_cong [OF kinv_lock [OF assms(1) that]]) (simp_all add: effect_def pushed_def)
  ultimately show ?thesis by (simp add: kinv_def)
qed

end
