(* ===== verification/Kernel_Reach.thy ===== *)
theory Kernel_Reach
  imports Kernel_Steps
begin

text \<open>
  Every step of the kernel of project 1 keeps the invariant, hence so do all reachable states:
  the lists are consistent, the ready list is sorted, and locks are mutually exclusive.
\<close>

section \<open>Locks\<close>

lemma kinv_acquire:
  assumes "kinv L k" and "l \<in> L" and "current k \<noteq> idle_thread k" and "lock_acquire l k = Inr k'"
  shows "kinv L k'"
proof -
  let ?s = "lock_sema l" and ?fs = "frames k (current k)"
  have k0: "kinv0 L k" using assms(1) by (simp add: kinv_def)
  have ok: "frames_ok L ?fs" using kinv_sched(5) [OF assms(1)] .
  note e = lock_acquire_effect [OF kinv_sched(1) [OF assms(1)] assms(3,4)]
  show ?thesis
  proof (cases "vals k ?s = 0")
    case True
    let ?g = "[F_sema_down ?s (level k), F_lock_acquire l]"
    have e1: "effect k (vals k) (holders k) (conds k) (pushed ?g k) k'" using e True by simp
    have "kinv0 L k'"
      by (rule kinv0_effect [OF k0 e1, of "?g @ ?fs"])
        (use assms(2,3) ok kinv_sched(3) [OF assms(1)] in \<open>auto simp: pushed_def\<close>)
    moreover have "lock_ok (vals k') (holders k') (frames k') m" if "m \<in> L" for m
      using e1 by (intro lock_ok_cong [OF kinv_lock [OF assms(1) that]]) (simp_all add: effect_def pushed_def)
    ultimately show ?thesis by (simp add: kinv_def)
  next
    case False
    have e1: "effect k ((vals k)(?s := vals k ?s - 1)) (holders k) (conds k) (pushed [F_lock_acquire l] k) k'"
      using e False by simp
    have "kinv0 L k'"
      by (rule kinv0_effect [OF k0 e1, of "F_lock_acquire l # ?fs"])
        (use assms(2,3) ok kinv_sched(3) [OF assms(1)] in \<open>auto simp: pushed_def\<close>)
    moreover have "lock_ok (vals k') (holders k') (frames k') m" if "m \<in> L" for m
    proof (cases "m = l")
      case True
      have "vals k ?s = 1" "holders k l = NULL" "\<forall>t. passes l (frames k t) = 0"
        using kinv_lock [OF assms(1,2)] False by (auto simp: lock_ok_def)
      then have "vals k' ?s = 0" "holders k' l = NULL" "passes l (frames k' (current k)) = 1"
          "\<forall>u. u \<noteq> current k \<longrightarrow> passes l (frames k' u) = 0"
        using e1 by (auto simp: effect_def pushed_def)
      then show ?thesis unfolding True lock_ok_def by blast
    next
      case False
      then show ?thesis
        using e1 by (intro lock_ok_cong [OF kinv_lock [OF assms(1) that]]) (simp_all add: effect_def pushed_def)
    qed
    ultimately show ?thesis by (simp add: kinv_def)
  qed
qed

lemma kinv_sema_frame:
  assumes "kinv L k" and fr: "frames k (current k) = F_sema_down s old # fs" and "sema_down_loop s old (pop_frame k) = Inr k'"
  shows "kinv L k'"
proof -
  let ?p = "pop_frame k"
  have k0: "kinv0 L k" using assms(1) by (simp add: kinv_def)
  have ni: "current k \<noteq> idle_thread k"
  proof
    assume "current k = idle_thread k"
    from kinv_idle [OF k0 this] fr show False by auto
  qed
  have ok: "frames_ok L (F_sema_down s old # fs)" using kinv_sched(5) [OF assms(1), of "current k"] fr by simp
  have p0: "kinv0 L ?p" using kinv0_pop [OF k0 fr] .
  have inv: "sched_inv ?p" and ext: "\<not> in_external_intr ?p" using p0 by (auto simp: kinv0_def)
  have off: "level k = INTR_OFF" if "vals k s = 0"
    using assms(3) that thread_current_inv [OF inv]
    by (auto simp: sema_down_loop_def vals_def pop_frame_def thread_block_def bind_res_Inr_iff kdefs)
  have e: "if vals k s = 0 then effect ?p (vals k) (holders k) (conds k) (pushed [F_sema_down s old] ?p) k'
      else effect ?p ((vals k)(s := vals k s - 1)) (holders k) (conds k) (frames ?p) k'"
  proof (cases "vals k s = 0")
    case True
    then show ?thesis
      using sema_down_effect [OF inv _ ext, of s old] off ni assms(3) by (auto simp: pop_frame_view)
  next
    case False
    let ?q = "?p\<lparr>level := INTR_OFF\<rparr>"
    have "sema_down_loop s old ?q = sema_down_loop s old ?p"
      using False ext by (cases old) (simp_all add: sema_down_loop_def vals_def pop_frame_def kdefs intr_set_level_def
          intr_enable_def intr_disable_def)
    then have "effect ?q ((vals ?q)(s := vals ?q s - 1)) (holders ?q) (conds ?q) (frames ?q) k'"
      using sema_down_effect [of ?q s old] inv ext ni assms(3) False
      by (auto simp: sched_inv_level level_view pop_frame_view)
    then show ?thesis using False by (simp add: effect_level level_view pop_frame_view)
  qed
  show ?thesis
  proof (cases "plain_sema L s")
    case True
    have "kinv L ?p" using kinv_pop [OF assms(1) fr] passes_plain [OF True ok] by simp
    moreover have "current ?p \<noteq> idle_thread ?p" using ni by (simp add: pop_frame_view)
    moreover have "if vals ?p s = 0 then effect ?p (vals ?p) (holders ?p) (conds ?p) (pushed [F_sema_down s old] ?p) k'
        else effect ?p ((vals ?p)(s := vals ?p s - 1)) (holders ?p) (conds ?p) (frames ?p) k'"
      using e unfolding pop_frame_view(2-4) .
    ultimately show ?thesis using kinv_wait_plain [OF _ True] by blast
  next
    case False
    then obtain l gs where l: "fs = F_lock_acquire l # gs" "s = lock_sema l" using ok by auto
    then have lL: "l \<in> L" using ok by simp
    have cp: "current ?p = current k" "frames ?p (current k) = fs" using fr by (simp_all add: pop_frame_view)
    show ?thesis
    proof (cases "vals k s = 0")
      case True
      then have e1: "effect ?p (vals k) (holders k) (conds k) (pushed [F_sema_down s old] ?p) k'" using e by simp
      have same: "pushed [F_sema_down s old] ?p = frames k" using fr by (auto simp: pushed_def pop_frame_view fun_eq_iff)
      have "kinv0 L k'"
        by (rule kinv0_effect [OF p0 e1, of "F_sema_down s old # fs"])
          (use ok ni kinv_sched(3) [OF assms(1)] cp in \<open>auto simp: pushed_def pop_frame_view\<close>)
      moreover have "lock_ok (vals k') (holders k') (frames k') m" if "m \<in> L" for m
        using e1 by (intro lock_ok_cong [OF kinv_lock [OF assms(1) that]]) (simp_all add: effect_def same)
      ultimately show ?thesis by (simp add: kinv_def)
    next
      case False
      then have e1: "effect ?p ((vals k)(s := vals k s - 1)) (holders k) (conds k) (frames ?p) k'" using e by simp
      have "kinv0 L k'"
        by (rule kinv0_effect [OF p0 e1, of fs])
          (use frames_ok_tl [OF ok] ni kinv_sched(3) [OF assms(1)] cp in \<open>auto simp: pop_frame_view fr\<close>)
      moreover have fr': "frames k' t = (if t = current k then fs else frames k t)" for t
        using e1 fr by (simp add: effect_def pop_frame_view)
      have "lock_ok (vals k') (holders k') (frames k') m" if "m \<in> L" for m
      proof (cases "m = l")
        case True
        have free: "vals k s = 1" "holders k l = NULL" "\<forall>t. passes l (frames k t) = 0"
          using kinv_lock [OF assms(1) lL] False l by (auto simp: lock_ok_def)
        then have "passes l gs = 0" using fr l by (metis passes.simps(2))
        then have "vals k' (lock_sema l) = 0" "holders k' l = NULL" "passes l (frames k' (current k)) = 1"
            "\<forall>u. u \<noteq> current k \<longrightarrow> passes l (frames k' u) = 0"
          using e1 l free fr' by (auto simp: effect_def)
        then show ?thesis unfolding True lock_ok_def by blast
      next
        case False
        have "passes m (frames k' t) = passes m (frames k t)" for t
          using False l fr by (auto simp: fr')
        then show ?thesis
          using e1 False l by (intro lock_ok_cong [OF kinv_lock [OF assms(1) that]]) (simp_all add: effect_def)
      qed
      ultimately show ?thesis by (simp add: kinv_def)
    qed
  qed
qed

lemma kinv_acquire_end:
  assumes "kinv L k" and fr: "frames k (current k) = F_lock_acquire l # fs" and "lock_acquire_end l (pop_frame k) = Inr k'"
  shows "kinv L k'"
proof -
  let ?p = "pop_frame k"
  have k0: "kinv0 L k" using assms(1) by (simp add: kinv_def)
  have p0: "kinv0 L ?p" using kinv0_pop [OF k0 fr] .
  have lL: "l \<in> L" using kinv_sched(5) [OF assms(1), of "current k"] fr by simp
  have inv: "sched_inv ?p" and ext: "\<not> in_external_intr ?p" using p0 by (auto simp: kinv0_def)
  note e = lock_acquire_end_effect [OF inv assms(3) ext, unfolded pop_frame_view]
  have e1: "effect ?p (vals k) ((holders k)(l := current k)) (conds k) ((frames k)(current k := fs)) k'"
    using e(1) fr by simp
  have ni: "current k \<noteq> idle_thread k" using kinv_idle [OF k0] fr by auto
  have "kinv0 L k'"
    by (rule kinv0_effect [OF p0 e1, of fs])
      (use kinv_sched(5) [OF assms(1), of "current k"] fr ni kinv_sched(3) [OF assms(1)] in \<open>auto simp: pop_frame_view\<close>)
  moreover have "lock_ok (vals k') (holders k') (frames k') m" if "m \<in> L" for m
  proof (cases "m = l")
    case True
    have ps: "passes l (frames k (current k)) = 1 + passes l fs" using fr by simp
    have "vals k (lock_sema l) = 0" "passes l fs = 0" "\<forall>u. u \<noteq> current k \<longrightarrow> passes l (frames k u) = 0"
      using kinv_lock [OF assms(1) lL] ps unfolding lock_ok_def by (metis add_is_0 one_neq_zero add_cancel_right_right)+
    then have "vals k' (lock_sema l) = 0 \<and> holders k' l \<noteq> NULL \<and> (\<forall>t. passes l (frames k' t) = 0)"
      using e1 e(2) by (simp add: effect_def)
    then show ?thesis unfolding True lock_ok_def by blast
  next
    case False
    have "passes m (frames k' t) = passes m (frames k t)" for t using False fr e1 by (auto simp: effect_def)
    then show ?thesis using e1 False by (intro lock_ok_cong [OF kinv_lock [OF assms(1) that]]) (simp_all add: effect_def)
  qed
  ultimately show ?thesis by (simp add: kinv_def)
qed

lemma kinv_release:
  assumes "kinv L k" and "l \<in> L"
    and "holders k l = current k" and "current k \<noteq> idle_thread k"
    and e: "effect k v ((holders k)(l := NULL)) c (pushed (gs @ hs) k) k'"
    and "set gs \<subseteq> range F_set_level" and "hs = [] \<or> (\<exists>s. plain_sema L s \<and> hs = [F_cond_wait_down s l])"
    and "v (lock_sema l) = vals k (lock_sema l) + 1"
    and "\<And>m. m \<in> L \<Longrightarrow> m \<noteq> l \<Longrightarrow> v (lock_sema m) = vals k (lock_sema m)"
    and "\<forall>x. \<forall>w\<in>set (c x). plain_sema L (elem_sema w)"
  shows "kinv L k'"
proof -
  let ?fs = "frames k (current k)"
  have k0: "kinv0 L k" using assms(1) by (simp add: kinv_def)
  have cur: "current k \<noteq> NULL" using current_not_queued(5) [OF kinv_sched(1) [OF assms(1)]] .
  have ps: "passes m (gs @ hs @ ?fs) = passes m ?fs" "frames_ok L (gs @ hs @ ?fs)" "creates t (gs @ hs @ ?fs) = creates t ?fs" for m t
    using assms(2,6,7) kinv_sched(5) [OF assms(1)] by (auto simp: set_levels_append)
  have "kinv0 L k'"
    by (rule kinv0_effect [OF k0 e, of "gs @ hs @ ?fs"]) (use assms(4,10) ps in \<open>auto simp: pushed_def\<close>)
  moreover have same: "passes m (frames k' t) = passes m (frames k t)" for m t
    using e ps by (simp add: effect_def pushed_def)
  have "lock_ok (vals k') (holders k') (frames k') m" if "m \<in> L" for m
  proof (cases "m = l")
    case True
    have "vals k (lock_sema l) = 0" "\<forall>t. passes l (frames k t) = 0"
      using kinv_lock [OF assms(1,2)] assms(3) cur by (auto simp: lock_ok_def)
    then have "vals k' (lock_sema l) = 1 \<and> holders k' l = NULL \<and> (\<forall>t. passes l (frames k' t) = 0)"
      using e assms(8) same by (simp add: effect_def)
    then show ?thesis unfolding True lock_ok_def by blast
  next
    case False
    then show ?thesis
      using e assms(9) [OF that] same by (intro lock_ok_cong [OF kinv_lock [OF assms(1) that]]) (simp_all add: effect_def)
  qed
  ultimately show ?thesis by (simp add: kinv_def)
qed

lemma kinv_lock_release:
  assumes "kinv L k" and "l \<in> L" and "current k \<noteq> idle_thread k" and "lock_release l k = Inr k'"
  shows "kinv L k'"
proof -
  note e = lock_release_effect [OF kinv_sched(1) [OF assms(1)] assms(4) kinv_sched(2) [OF assms(1)]]
  show ?thesis
    by (rule kinv_release [OF assms(1,2) e(1) assms(3), of "(vals k)(lock_sema l := vals k (lock_sema l) + 1)" "conds k"
          "[F_set_level INTR_OFF, F_set_level (level k)]" "[]"])
      (use e(2) kinv_sched(3) [OF assms(1)] in simp_all)
qed

lemma kinv_try_acquire:
  assumes "kinv L k" and "l \<in> L" and "current k \<noteq> idle_thread k" and "lock_try_acquire l k = Inr (b, k')"
  shows "kinv L k'"
proof -
  note e = lock_try_acquire_effect [OF kinv_sched(1) [OF assms(1)] assms(4) kinv_sched(2) [OF assms(1)]]
  have k0: "kinv0 L k" using assms(1) by (simp add: kinv_def)
  have cur: "current k \<noteq> NULL" using current_not_queued(5) [OF kinv_sched(1) [OF assms(1)]] .
  have "kinv0 L k'"
    by (rule kinv0_effect [OF k0 e(2), of "frames k (current k)"])
      (use assms(3) kinv_sched(3,5) [OF assms(1)] in auto)
  moreover have "lock_ok (vals k') (holders k') (frames k') m" if "m \<in> L" for m
  proof (cases "m = l \<and> b")
    case True
    have "vals k (lock_sema l) = 1" "\<forall>t. passes l (frames k t) = 0"
      using kinv_lock [OF assms(1,2)] e(1) True by (auto simp: lock_ok_def)
    then show ?thesis using e(2) True cur by (simp add: lock_ok_def effect_def)
  next
    case False
    then show ?thesis
      using e(2) by (intro lock_ok_cong [OF kinv_lock [OF assms(1) that]]) (auto simp: effect_def)
  qed
  ultimately show ?thesis by (simp add: kinv_def)
qed


section \<open>Condition variables and semaphores\<close>

lemma kinv_cond_wait:
  assumes "kinv L k" and "call_ok L k (Cond_wait c l w)" and "current k \<noteq> idle_thread k" and "cond_wait c l w k = Inr k'"
  shows "kinv L k'"
proof -
  have ok: "l \<in> L" "plain_sema L (elem_sema w)" "waits k (elem_sema w) = []" using assms(2) by auto
  note e = cond_wait_effect [OF kinv_sched(1) [OF assms(1)] assms(4) ok(3)]
  have ne: "lock_sema m \<noteq> elem_sema w" if "m \<in> L" for m using plain_neq [OF ok(2) that] by blast
  let ?v = "let v = (vals k)(elem_sema w := 0) in v(lock_sema l := v (lock_sema l) + 1)"
  have lvl: "set [F_set_level INTR_OFF, F_set_level (level k)] \<subseteq> range F_set_level" by auto
  have cs: "\<forall>x. \<forall>v\<in>set (((conds k)(c := conds k c @ [w])) x). plain_sema L (elem_sema v)"
    using kinv_sched(3) [OF assms(1)] ok(2) by auto
  show ?thesis
    by (rule kinv_release [OF assms(1) ok(1) e(1) assms(3) _ lvl _ _ _ cs, of ?v "[F_cond_wait_down (elem_sema w) l]"])
      (use e(3) ok(2) ne ok(1) in \<open>simp_all add: Let_def fun_upd_def [of "conds k"]\<close>)
qed

lemma kinv_signal:
  assumes "kinv L k" and "cond_signal c l k = Inr k'"
  shows "kinv L k'"
proof -
  note e = cond_signal_effect [OF kinv_sched(1) [OF assms(1)] assms(2)]
  from e(2) show ?thesis
  proof (elim disjE exE conjE)
    assume "k' = k"
    then show ?thesis using assms(1) by simp
  next
    fix w ws
    assume m: "mset (conds k c) = mset (w # ws)"
      and e1: "effect k ((vals k)(elem_sema w := vals k (elem_sema w) + 1)) (holders k) ((conds k)(c := ws))
          (pushed [F_set_level INTR_OFF, F_set_level (level k)] k) k'"
    have "set (conds k c) = insert w (set ws)" using mset_eq_setD [OF m] by simp
    then have pl: "plain_sema L (elem_sema w)" "\<forall>x. \<forall>v\<in>set (((conds k)(c := ws)) x). plain_sema L (elem_sema v)"
      using kinv_sched(3) [OF assms(1)] by auto
    show ?thesis
      by (rule kinv_levels [OF assms(1) e1 _ _ pl(2)]) (use plain_neq [OF pl(1)] in auto)
  qed
qed

lemma kinv_broadcast_loop:
  assumes "kinv L k" and "l \<in> L" and "current k \<noteq> idle_thread k" and "cond_broadcast_loop c l k = Inr k'"
  shows "kinv L k'"
proof (cases "conds k c = []")
  case True
  then show ?thesis using assms by (simp add: cond_broadcast_loop_def)
next
  case False
  have "kinv L (push_frame (F_cond_broadcast c l) k)"
    by (rule kinv_push [OF assms(1)]) (use assms(2,3) kinv_sched(5) [OF assms(1)] in auto)
  then show ?thesis using kinv_signal assms(4) False by (auto simp: cond_broadcast_loop_def)
qed

lemma kinv_sema_up:
  assumes "kinv L k" and "plain_sema L s" and "sema_up s k = Inr k'"
  shows "kinv L k'"
proof -
  have "s \<noteq> NULL" using assms(3) by (auto simp: sema_up_def bind_res_Inr_iff)
  then have e: "effect k ((vals k)(s := vals k s + 1)) (holders k) (conds k) (pushed [F_set_level INTR_OFF, F_set_level (level k)] k) k'"
    using sema_up_effect [OF kinv_sched(1,2) [OF assms(1)], of s] assms(3) by auto
  show ?thesis
    by (rule kinv_levels [OF assms(1) e _ _ kinv_sched(3) [OF assms(1)]]) (use plain_neq [OF assms(2)] in auto)
qed

lemma kinv_sema_down:
  assumes "kinv L k" and "plain_sema L s" and "current k \<noteq> idle_thread k" and "sema_down s k = Inr k'"
  shows "kinv L k'"
proof -
  have "s \<noteq> NULL" using assms(4) by (auto simp: sema_down_def bind_res_Inr_iff)
  then have "if vals k s = 0 then effect k (vals k) (holders k) (conds k) (pushed [F_sema_down s (level k)] k) k'
      else effect k ((vals k)(s := vals k s - 1)) (holders k) (conds k) (frames k) k'"
    using sema_down_call_effect [OF kinv_sched(1) [OF assms(1)] assms(3) kinv_sched(2) [OF assms(1)], of s] assms(4) by auto
  then show ?thesis using kinv_wait_plain [OF assms(1,2,3)] by blast
qed

lemma kinv_frameless:
  assumes "kinv L k" and "effect k v (holders k) (conds k) (frames k) k'"
    and "\<And>l. l \<in> L \<Longrightarrow> v (lock_sema l) = vals k (lock_sema l)"
  shows "kinv L k'"
  using kinv_levels [OF assms(1) _ _ assms(3) kinv_sched(3) [OF assms(1)], of "[]"] assms(2) by (simp add: pushed_def)

lemma kinv_some_levels:
  assumes "kinv L k" and "\<exists>fs. effect k (vals k) (holders k) (conds k) (pushed fs k) k' \<and> set fs \<subseteq> range F_set_level"
  shows "kinv L k'"
  using assms(2) kinv_levels [OF assms(1) _ _ _ kinv_sched(3) [OF assms(1)]] by blast

lemma kinv_quiet: "kinv L k \<Longrightarrow> quiet k k' \<Longrightarrow> kinv L k'"
  by (rule kinv_frameless [of L k "vals k"]) (simp_all add: quiet_def)

section \<open>Threads\<close>

lemma kinv_exit:
  assumes "kinv L k" and "frames k (current k) = []" and "current k \<noteq> idle_thread k" and "thread_exit k = Inr k'"
  shows "kinv L k'"
proof -
  have r: "sched_inv k'" "vals k' = vals k" "holders k' = holders k" "conds k' = conds k" "frames k' = frames k"
      "tid_lock k' = tid_lock k" "idle_thread k' = idle_thread k" "in_external_intr k' = in_external_intr k"
      "dead k' = (dead k)(current k := True)" "\<And>t. embryo k t \<Longrightarrow> embryo k' t"
    using thread_exit_result [OF kinv_sched(1) [OF assms(1)] assms(4,3)] by auto
  have "kinv0 L k" using assms(1) by (simp add: kinv_def)
  then have "kinv0 L k'" using r(1,10) assms(2) unfolding kinv0_def r(4-9) by auto
  then show ?thesis using assms(1) by (simp add: kinv_def r)
qed

lemma kinv_create:
  assumes "kinv L k" and "\<not> is_thread k page" and "current k \<noteq> idle_thread k" and "thread_create page name p k = Inr (b, k')"
  shows "kinv L k'"
proof (cases "page = NULL")
  case True
  then show ?thesis using assms by (simp add: thread_create_def)
next
  case False
  then have "b = True" using assms(4) by (auto simp: thread_create_def Let_def bind_res_Inr_iff)
  then obtain k1 where k1: "sched_inv k1" "vals k1 = vals k" "holders k1 = holders k" "conds k1 = conds k"
      "frames k1 = (frames k)(page := [F_set_level INTR_ON])" "tid_lock k1 = tid_lock k" "idle_thread k1 = idle_thread k"
      "in_external_intr k1 = in_external_intr k" "dead k1 = (dead k)(page := False)" "current k1 = current k"
      "\<And>t. embryo k t \<or> t = page \<Longrightarrow> embryo k1 t" "page \<noteq> current k"
      "lock_acquire (tid_lock k) (push_frame (F_allocate_tid page) (push_frame (F_thread_create page p) k1)) = Inr k'"
    using thread_create_result [OF kinv_sched(1) [OF assms(1)] _ assms(2) kinv_sched(2) [OF assms(1)], of name p k'] assms(4)
    by blast
  let ?q = "push_frame (F_allocate_tid page) (push_frame (F_thread_create page p) k1)"
  have k0: "kinv0 L k" using assms(1) by (simp add: kinv_def)
  have fp: "frames k page = []" using k0 assms(2) by (simp add: kinv0_def dead_def)
  have nc: "creates page (frames k u) = 0" for u
  proof (rule ccontr)
    assume "creates page (frames k u) \<noteq> 0"
    then have "embryo k page" using k0 unfolding kinv0_def by blast
    then show False using assms(2) by (simp add: embryo_def)
  qed
  have qf: "frames ?q t = (if t = current k then F_allocate_tid page # F_thread_create page p # frames k (current k)
      else if t = page then [F_set_level INTR_ON] else frames k t)" for t
    using k1(5,10,12) by (simp add: fields_push_frame)
  have q: "sched_inv ?q" "vals ?q = vals k" "holders ?q = holders k" "conds ?q = conds k" "tid_lock ?q = tid_lock k"
      "idle_thread ?q = idle_thread k" "in_external_intr ?q = in_external_intr k" "dead ?q = (dead k)(page := False)"
      "embryo ?q = embryo k1" "current ?q = current k"
    using k1 by (simp_all add: push_frame_view fields_push_frame)
  have alive: "\<not> dead k (current k)" using sched_inv_current [OF kinv_sched(1) [OF assms(1)]] by (simp add: dead_def)
  have c: "creates t (frames ?q u) = creates t (frames k u) + (if u = current k \<and> t = page then 1 else 0)" for t u
    using fp by (auto simp: qf)
  have cr: "\<And>t u. creates t (frames k u) > 0 \<Longrightarrow> embryo k t" "\<And>t u. creates t (frames k u) \<le> 1"
      "\<And>t u u'. creates t (frames k u) > 0 \<Longrightarrow> creates t (frames k u') > 0 \<Longrightarrow> u = u'"
    using k0 unfolding kinv0_def by blast+
  have "kinv0 L ?q"
    unfolding kinv0_def
  proof (intro conjI allI impI)
    show "sched_inv ?q" using q(1) .
    show "\<not> in_external_intr ?q" "tid_lock ?q \<in> L" using kinv_sched(2,4) [OF assms(1)] q by auto
    have ip: "idle_thread k \<noteq> page"
      using assms(2) kinv_sched(1) [OF assms(1)] by (auto simp: sched_inv_def idle_ok_def)
    have "set (frames k (idle_thread k)) \<subseteq> range F_set_level" using k0 by (simp add: kinv0_def)
    then show "set (frames ?q (idle_thread ?q)) \<subseteq> range F_set_level"
      using assms(3) ip unfolding q(6) qf by auto
    show "frames_ok L (frames ?q t)" for t
      using kinv_sched(5) [OF assms(1)] by (simp add: qf)
    show "frames ?q t = []" if "dead ?q t" for t using that k0 alive by (auto simp: q(8) qf kinv0_def split: if_splits)
    show "\<forall>w\<in>set (conds ?q x). plain_sema L (elem_sema w)" for x using kinv_sched(3) [OF assms(1)] q(4) by simp
    show "embryo ?q t" if "creates t (frames ?q u) > 0" for t u
      using that cr(1) [of t u] k1(11) [of t] unfolding c q(9) by (auto split: if_splits)
    show "creates t (frames ?q u) \<le> 1" for t u using cr(2) [of t u] nc unfolding c by auto
    show "u = u'" if "creates t (frames ?q u) > 0 \<and> creates t (frames ?q u') > 0" for t u u'
      using that cr(3) [of t u u'] nc unfolding c by (auto split: if_splits)
  qed
  moreover have "lock_ok (vals ?q) (holders ?q) (frames ?q) l" if "l \<in> L" for l
  proof (rule lock_ok_cong [OF kinv_lock [OF assms(1) that]])
    show "passes l (frames ?q t) = passes l (frames k t)" for t using fp by (simp add: qf)
  qed (simp_all add: q)
  ultimately have "kinv L ?q" by (simp add: kinv_def)
  then show ?thesis
    using kinv_acquire [OF _ kinv_sched(4) [OF assms(1)] _ k1(13)] q(6,10) assms(3) by simp
qed

lemma kinv_create_end:
  assumes "kinv L k" and fr: "frames k (current k) = F_thread_create t p # fs" and "thread_create_end t p (pop_frame k) = Inr k'"
  shows "kinv L k'"
proof -
  let ?p = "pop_frame k"
  have k0: "kinv0 L k" using assms(1) by (simp add: kinv_def)
  have p: "kinv L ?p" using kinv_pop [OF assms(1) fr] by simp
  have pos: "creates t (frames k (current k)) > 0" using fr by simp
  have emb: "embryo ?p t" using k0 pos unfolding kinv0_def pop_frame_view by blast
  have none: "creates t (frames ?p u) = 0" for u
  proof (cases "u = current k")
    case True
    have "creates t (frames k (current k)) \<le> 1" using k0 unfolding kinv0_def by blast
    then show ?thesis using fr True by (simp add: pop_frame_view)
  next
    case False
    have "creates t (frames k u) = 0"
    proof (rule ccontr)
      assume "creates t (frames k u) \<noteq> 0"
      then have "u = current k" using k0 pos unfolding kinv0_def by blast
      then show False using False by simp
    qed
    then show ?thesis using False by (simp add: pop_frame_view)
  qed
  obtain k1 gs where k1: "sched_inv k1" "vals k1 = vals ?p" "holders k1 = holders ?p" "conds k1 = conds ?p" "frames k1 = frames ?p"
      "tid_lock k1 = tid_lock ?p" "idle_thread k1 = idle_thread ?p" "in_external_intr k1 = in_external_intr ?p"
      "dead k1 = dead ?p" "current k1 = current ?p" "\<And>u. u \<noteq> t \<Longrightarrow> embryo ?p u \<Longrightarrow> embryo k1 u"
      "effect k1 (vals k1) (holders k1) (conds k1) (pushed gs k1) k'" "set gs \<subseteq> range F_set_level"
    using thread_create_end_result [OF kinv_sched(1) [OF p] emb kinv_sched(2) [OF p] assms(3)] by blast
  have "kinv0 L ?p" using p by (simp add: kinv_def)
  then have "kinv0 L k1"
    using k1(1,11) none unfolding kinv0_def k1(4-10) by (metis less_irrefl)
  then have "kinv L k1" using p unfolding kinv_def k1(2,3,5) by blast
  then show ?thesis using kinv_some_levels k1(12,13) by blast
qed


section \<open>Steps\<close>

lemma kinv_call:
  assumes "kinv L k" and "frames k (current k) = []" and "current k \<noteq> idle_thread k" and "call_ok L k c" and "exec_call c k = Inr k'"
  shows "kinv L k'"
proof (cases c)
  case (Sema_init s v)
  then have e: "sema_init s v k = Inr k'" "plain_sema L s" "waits k s = []" using assms(4,5) by auto
  show ?thesis
    by (rule kinv_frameless [OF assms(1) sema_init_effect(1) [OF kinv_sched(1) [OF assms(1)] e(3,1)]])
      (use plain_neq [OF e(2)] in auto)
next
  case (Sema_try_down s)
  then obtain b where e: "sema_try_down s k = Inr (b, k')" "plain_sema L s" using assms(4,5) by (auto simp: bind_res_Inr_iff)
  show ?thesis
    by (rule kinv_frameless [OF assms(1) sema_try_down_effect(3) [OF kinv_sched(1,2) [OF assms(1)] e(1)]])
      (use plain_neq [OF e(2)] in auto)
next
  case (Cond_init x)
  then have "k' = k\<lparr>conds := (conds k)(x := [])\<rparr>" and "conds k x = []"
    using assms(4,5) by (auto simp: cond_init_def bind_res_Inr_iff)
  then have "k' = k" by (simp add: kernel.equality fun_upd_idem)
  then show ?thesis using assms(1) by simp
next
  case (Cond_broadcast x l)
  then have "cond_broadcast_loop x l k = Inr k'" "l \<in> L" using assms(4,5) by (auto simp: cond_broadcast_def bind_res_Inr_iff)
  then show ?thesis using kinv_broadcast_loop [OF assms(1) _ assms(3)] by blast
next
  case (Thread_create page name p)
  then obtain b where "thread_create page name p k = Inr (b, k')" "\<not> is_thread k page"
    using assms(4,5) by (auto simp: bind_res_Inr_iff)
  then show ?thesis using kinv_create [OF assms(1) _ assms(3)] by blast
next
  case Thread_yield
  then have "effect k (vals k) (holders k) (conds k) (pushed [F_set_level (level k)] k) k'"
    using assms(5) thread_yield_effect [OF kinv_sched(1,2) [OF assms(1)]] by auto
  then show ?thesis using kinv_some_levels [OF assms(1)] by fastforce
next
  case (Lock_try_acquire l)
  then obtain b where "lock_try_acquire l k = Inr (b, k')" "l \<in> L" using assms(4,5) by (auto simp: bind_res_Inr_iff)
  then show ?thesis using kinv_try_acquire [OF assms(1) _ assms(3)] by blast
next
  case (Set_priority p)
  then show ?thesis
    using kinv_some_levels [OF assms(1) thread_set_priority_effect [OF kinv_sched(1,2) [OF assms(1)]]] assms(5) by simp
next
  case (Set_nice n)
  then show ?thesis
    using kinv_some_levels [OF assms(1) thread_set_nice_effect [OF kinv_sched(1,2) [OF assms(1)]]] assms(5) by simp
next
  case (Timer_sleep n)
  then show ?thesis
    using kinv_some_levels [OF assms(1) timer_sleep_effect [OF kinv_sched(1,2) [OF assms(1)] assms(3)]] assms(5) by simp
next
  case (Cond_wait x l w)
  then show ?thesis using kinv_cond_wait [OF assms(1) _ assms(3)] assms(4,5) by simp
next
  case (Sema_down s)
  then show ?thesis using kinv_sema_down [OF assms(1) _ assms(3)] assms(4,5) by simp
next
  case (Sema_up s)
  then show ?thesis using kinv_sema_up [OF assms(1)] assms(4,5) by simp
next
  case (Lock_acquire l)
  then show ?thesis using kinv_acquire [OF assms(1) _ assms(3)] assms(4,5) by simp
next
  case (Lock_release l)
  then show ?thesis using kinv_lock_release [OF assms(1) _ assms(3)] assms(4,5) by simp
next
  case (Cond_signal x l)
  then show ?thesis using kinv_signal [OF assms(1)] assms(5) by simp
next
  case Thread_exit
  then show ?thesis using kinv_exit [OF assms(1-3)] assms(5) by simp
qed

lemma not_idle_frame:
  "kinv L k \<Longrightarrow> frames k (current k) = fr # fs \<Longrightarrow> fr \<notin> range F_set_level \<Longrightarrow> current k \<noteq> idle_thread k"
  using kinv_idle [of L k] by (auto simp: kinv_def)

lemma kinv_allocate_tid_end:
  assumes "kinv L k" and "current k \<noteq> idle_thread k" and "allocate_tid_end t k = Inr k'"
  shows "kinv L k'"
proof -
  let ?k0 = "k\<lparr>next_tid := next_tid k + 1\<rparr>"
  let ?k1 = "set_thr t (\<lambda>r. r\<lparr>tid := next_tid k\<rparr>) ?k0"
  have q0: "quiet k ?k0"
    by (rule quietI [OF kinv_sched(1) [OF assms(1)]])
      (simp_all add: same_view_def st_def prio_def is_thread_def waits_def vals_def holders_def fun_eq_iff)
  have "quiet ?k0 ?k1" by (rule set_thr_quiet [OF quiet_same(7) [OF q0]]) simp_all
  then have q: "quiet k ?k1" using q0 quiet_trans by blast
  have r: "lock_release (tid_lock k) ?k1 = Inr k'" using assms(3) by (simp add: allocate_tid_end_def Let_def fields_set_thr)
  show ?thesis
    using kinv_lock_release [OF kinv_quiet [OF assms(1) q] kinv_sched(4) [OF assms(1)] _ r] assms(2) quiet_same(5,9) [OF q] by simp
qed

lemma kinv_frame:
  assumes "kinv L k" and fr: "frames k (current k) = fr # fs" and "run_frame fr (pop_frame k) = Inr k'"
  shows "kinv L k'"
proof (cases fr)
  case (F_set_level l)
  then have p: "kinv L (pop_frame k)" using kinv_pop [OF assms(1) fr] by simp
  obtain old where "intr_set_level l (pop_frame k) = Inr (old, k')"
    using assms(3) F_set_level by (auto simp: bind_res_Inr_iff)
  then have k': "k' = pop_frame k\<lparr>level := l\<rparr>"
    using intr_set_level_eq [of "pop_frame k" l] kinv_sched(2) [OF p] by auto
  have "effect (pop_frame k) (vals (pop_frame k)) (holders (pop_frame k)) (conds (pop_frame k)) (frames (pop_frame k)) k'"
    using effect_refl [OF kinv_sched(1) [OF p]] by (simp add: k' effect_level_right)
  then show ?thesis by (rule kinv_frameless [OF p]) simp
next
  case (F_sema_down s old)
  then show ?thesis using kinv_sema_frame [OF assms(1)] fr assms(3) by simp
next
  case (F_lock_acquire l)
  then show ?thesis using kinv_acquire_end [OF assms(1)] fr assms(3) by simp
next
  case (F_cond_wait_down s l)
  then have p: "kinv L (pop_frame k)" using kinv_pop [OF assms(1) fr] by simp
  have ok: "plain_sema L s" "l \<in> L" using kinv_sched(5) [OF assms(1), of "current k"] fr F_cond_wait_down by auto
  have ni: "current (pop_frame k) \<noteq> idle_thread (pop_frame k)"
    using not_idle_frame [OF assms(1) fr] F_cond_wait_down by (auto simp: pop_frame_view)
  have "kinv L (push_frame (F_cond_wait l) (pop_frame k))"
    by (rule kinv_push [OF p]) (use ok ni kinv_sched(5) [OF p] in auto)
  then show ?thesis
    using kinv_sema_down [OF _ ok(1)] ni assms(3) F_cond_wait_down by (simp add: cond_wait_down_def fields_push_frame)
next
  case (F_cond_wait l)
  then have p: "kinv L (pop_frame k)" using kinv_pop [OF assms(1) fr] by simp
  have ok: "l \<in> L" using kinv_sched(5) [OF assms(1), of "current k"] fr F_cond_wait by auto
  show ?thesis
    using kinv_acquire [OF p ok] not_idle_frame [OF assms(1) fr] assms(3) F_cond_wait by (auto simp: pop_frame_view)
next
  case (F_cond_broadcast c l)
  then have p: "kinv L (pop_frame k)" using kinv_pop [OF assms(1) fr] by simp
  have ok: "l \<in> L" using kinv_sched(5) [OF assms(1), of "current k"] fr F_cond_broadcast by auto
  show ?thesis
    using kinv_broadcast_loop [OF p ok] not_idle_frame [OF assms(1) fr] assms(3) F_cond_broadcast by (auto simp: pop_frame_view)
next
  case (F_allocate_tid t)
  then have p: "kinv L (pop_frame k)" using kinv_pop [OF assms(1) fr] by simp
  show ?thesis
    using kinv_allocate_tid_end [OF p] not_idle_frame [OF assms(1) fr] assms(3) F_allocate_tid by (auto simp: pop_frame_view)
next
  case (F_thread_create t p)
  then show ?thesis using kinv_create_end [OF assms(1)] fr assms(3) by simp
next
  case (F_thread_start s)
  then have p: "kinv L (pop_frame k)" using kinv_pop [OF assms(1) fr] by simp
  have ok: "plain_sema L s" using kinv_sched(5) [OF assms(1), of "current k"] fr F_thread_start by auto
  let ?k = "pop_frame k\<lparr>level := INTR_ON\<rparr>"
  have "effect (pop_frame k) (vals (pop_frame k)) (holders (pop_frame k)) (conds (pop_frame k)) (frames (pop_frame k)) ?k"
    using effect_refl [OF kinv_sched(1) [OF p]] by (simp add: effect_level_right)
  then have "kinv L ?k" by (rule kinv_frameless [OF p]) simp
  moreover have "sema_down s ?k = Inr k'"
    using assms(3) F_thread_start kinv_sched(2) [OF p] by (simp add: thread_start_end_def intr_enable_def)
  moreover have "current ?k \<noteq> idle_thread ?k"
    using not_idle_frame [OF assms(1) fr] F_thread_start by (auto simp: pop_frame_view)
  ultimately show ?thesis using kinv_sema_down [OF _ ok] by blast
qed

lemma kinv_step:
  assumes "kinv L k" and "kstep L k k'"
  shows "kinv L k'"
  using assms(2)
proof cases
  case (step_call c)
  then show ?thesis using kinv_call [OF assms(1)] by blast
next
  case (step_frame fr fs)
  then show ?thesis using kinv_frame [OF assms(1)] by blast
next
  case step_idle
  then show ?thesis
    using kinv_some_levels [OF assms(1)] idle_loop_effect [OF kinv_sched(1,2) [OF assms(1)]] by fastforce
next
  case step_timer
  then show ?thesis
    using kinv_some_levels [OF assms(1) take_timer_interrupt_effect [OF kinv_sched(1,2) [OF assms(1)]]] by blast
qed

lemma kinv_reach: "reach L k0 k \<Longrightarrow> kinv L k0 \<Longrightarrow> kinv L k"
  by (induction rule: reach.induct) (auto intro: kinv_step)

lemma owns_unique:
  assumes "lock_ok (vals k) (holders k) (frames k) l" and "owns k t l" and "owns k u l"
  shows "t = u"
  using assms unfolding lock_ok_def owns_def by metis

end
