(* ===== verification/Kernel_Properties.thy ===== *)
theory Kernel_Properties
  imports Kernel_Reach
begin

text \<open>
  The properties of the project-1 kernel (threads/thread.c, threads/synch.c, devices/timer.c)
  and a small concrete state at which they are applied.
\<close>

section \<open>A concrete state\<close>

definition demo_thread :: "thread_status \<Rightarrow> int \<Rightarrow> thread" where
  "demo_thread x p = (new_thread 0 ''t'' p)\<lparr>status := x\<rparr>"

definition free_sema :: semaphore where
  "free_sema = \<lparr>sema_val = 1, waiters = []\<rparr>"

definition demo_kernel :: kernel where
  "demo_kernel =
     \<lparr>thr = (\<lambda>_. (new_thread 0 '''' 0)\<lparr>magic := 0\<rparr>)
        (4096 := demo_thread THREAD_RUNNING 31, 8192 := demo_thread THREAD_BLOCKED 0, 12288 := demo_thread THREAD_READY 20),
      semas = (\<lambda>_. free_sema), lock_at = (\<lambda>_. \<lparr>holder = 0, max_priority = 0\<rparr>), conds = (\<lambda>_. []), frames = (\<lambda>_. []),
      ready_list = [12288], all_list = [4096, 8192, 12288], idle_thread = 8192, initial_thread = 4096, current = 4096,
      tid_lock = 100, next_tid = 4, idle_ticks = 0, kernel_ticks = 0, thread_ticks = 0, thread_mlfqs = False, load_avg = 0,
      ticks = 50, waiting_threads = [], level = INTR_ON, in_external_intr = False, yield_on_return = False,
      word_below = (\<lambda>_. 0)\<rparr>"

lemma demo_fields:
  "ready_list demo_kernel = [12288]" "waiting_threads demo_kernel = []" "idle_thread demo_kernel = 8192"
  "current demo_kernel = 4096" "thread_mlfqs demo_kernel = False" "level demo_kernel = INTR_ON"
  "in_external_intr demo_kernel = False" "tid_lock demo_kernel = 100" "frames demo_kernel = (\<lambda>_. [])"
  "conds demo_kernel = (\<lambda>_. [])" "lock_at demo_kernel = (\<lambda>_. \<lparr>holder = 0, max_priority = 0\<rparr>)"
  "semas demo_kernel = (\<lambda>_. free_sema)" "ticks demo_kernel = 50"
  by (simp_all add: demo_kernel_def)

lemma demo_threads:
  "is_thread demo_kernel t \<longleftrightarrow> t \<in> {4096, 8192, 12288}"
  "st demo_kernel 4096 = THREAD_RUNNING" "st demo_kernel 8192 = THREAD_BLOCKED" "st demo_kernel 12288 = THREAD_READY"
  "prio demo_kernel 4096 = 31" "prio demo_kernel 8192 = 0" "prio demo_kernel 12288 = 20" "waits demo_kernel s = []"
  by (auto simp: is_thread_def st_def prio_def waits_def demo_kernel_def demo_thread_def new_thread_def THREAD_MAGIC_def free_sema_def)

lemma demo_sched_inv: "sched_inv demo_kernel"
  by (auto simp: sched_inv_def lists_ok_def idle_ok_def sorted_ready_alt runs_def in_state_def demo_fields demo_threads)

lemma demo_kinv: "kinv {100, 200} demo_kernel"
proof -
  have "kinv0 {100, 200} demo_kernel"
    using demo_sched_inv by (simp add: kinv0_def demo_fields)
  moreover have "lock_ok (vals demo_kernel) (holders demo_kernel) (frames demo_kernel) l" for l
    by (simp add: lock_ok_def vals_def holders_def demo_fields free_sema_def)
  ultimately show ?thesis by (simp add: kinv_def)
qed

section \<open>Reachable states\<close>


lemma demo_reach: "reach {100, 200} demo_kernel demo_kernel"
  by (rule reach_init)


text \<open>
  C2. Locks are mutually exclusive: in every reachable state at most one thread owns a lock, where
  a thread owns a lock from the moment \<^verbatim>\<open>sema_down\<close> lets it pass in
  \<^verbatim>\<open>lock_acquire\<close> (or \<^verbatim>\<open>lock_try_acquire\<close> succeeds) until it releases it;
  and the semaphore of an owned lock is zero.
\<close>

theorem lock_mutual_exclusion:
  assumes "kinv L k0" and "reach L k0 k" and "l \<in> L" and "owns k t l"
  shows "(\<forall>u. owns k u l \<longrightarrow> u = t) \<and> sema_val (semas k (lock_sema l)) = 0"
proof -
  have ok: "lock_ok (vals k) (holders k) (frames k) l" using kinv_lock [OF kinv_reach [OF assms(2,1)] assms(3)] .
  then have "vals k (lock_sema l) = 0" using assms(4) unfolding lock_ok_def owns_def by auto
  then show ?thesis using owns_unique [OF ok _ assms(4)] by (auto simp: vals_def)
qed

definition demo_acquired :: kernel where
  "demo_acquired = set_sema 204 (\<lambda>r. r\<lparr>sema_val := 0\<rparr>) (push_frame (F_lock_acquire 200) demo_kernel)"

lemma demo_acquire: "lock_acquire 200 demo_kernel = Inr demo_acquired"
proof -
  let ?p = "push_frame (F_lock_acquire 200) demo_kernel"
  have "thread_current demo_kernel = Inr 4096" using thread_current_inv [OF demo_sched_inv] by (simp add: demo_fields)
  then have "lock_acquire 200 demo_kernel = sema_down 204 ?p"
    by (simp add: lock_acquire_def lock_held_by_current_thread_def intr_context_def lock_sema_def demo_fields)
  also have "\<dots> = Inr demo_acquired"
    by (simp add: sema_down_def sema_down_loop_def intr_disable_def intr_context_def intr_set_level_def intr_enable_def
        demo_acquired_def fields_push_frame fields_set_sema demo_fields free_sema_def)
      (simp add: kdefs demo_kernel_def free_sema_def)
  finally show ?thesis .
qed

theorem lock_mutual_exclusion_witness:
  "owns demo_acquired 4096 200 \<and> \<not> owns demo_acquired 12288 200 \<and> sema_val (semas demo_acquired (lock_sema 200)) = 0"
proof -
  have "kstep {100, 200} demo_kernel demo_acquired"
    by (rule step_call [where c = "Lock_acquire 200"]) (simp_all add: demo_fields demo_acquire)
  then have r: "reach {100, 200} demo_kernel demo_acquired" using demo_reach by (rule reach_step [rotated])
  have o: "owns demo_acquired 4096 200"
    by (simp add: owns_def demo_acquired_def fields_set_sema fields_push_frame demo_fields)
  have "(200 :: addr) \<in> {100, 200}" by simp
  from lock_mutual_exclusion [OF demo_kinv r this o] show ?thesis using o by fastforce
qed


section \<open>Scheduling\<close>




text \<open>A thread waits on semaphore 500.\<close>

definition demo_waiting :: kernel where
  "demo_waiting = set_sema 500 (\<lambda>_. \<lparr>sema_val = 0, waiters = [16384]\<rparr>)
     (set_thr 16384 (\<lambda>_. demo_thread THREAD_BLOCKED 40) demo_kernel)"

lemma demo_waiting_view:
  "is_thread demo_waiting t \<longleftrightarrow> t \<in> {4096, 8192, 12288, 16384}"
  "st demo_waiting t = (if t = 16384 then THREAD_BLOCKED else st demo_kernel t)"
  "prio demo_waiting t = (if t = 16384 then 40 else prio demo_kernel t)"
  "waits demo_waiting s = (if s = 500 then [16384] else [])"
  using demo_threads(1,8)
  by (auto simp: demo_waiting_def kview, auto simp: demo_thread_def new_thread_def)

lemma demo_waiting_inv: "sched_inv demo_waiting"
proof -
  have f: "ready_list demo_waiting = [12288]" "waiting_threads demo_waiting = []" "idle_thread demo_waiting = 8192"
      "current demo_waiting = 4096"
    by (simp_all add: demo_waiting_def kview demo_fields)
  show ?thesis
    by (auto simp: sched_inv_def lists_ok_def idle_ok_def sorted_ready_alt runs_def in_state_def f demo_waiting_view demo_threads
        split: if_splits)
qed



section \<open>Alarm clock\<close>

lemma dropWhile_due:
  assumes "sorted_by (timer_cmp_waking_time k) ts"
  shows "dropWhile (due k) ts = filter (\<lambda>t. \<not> due k t) ts \<and> takeWhile (due k) ts = filter (due k) ts"
  using assms
proof (induction ts)
  case (Cons t ts)
  show ?case
  proof (cases "due k t")
    case False
    have "\<not> due k u" if "u \<in> set ts" for u
      using that Cons.prems False by (auto simp: sorted_by_Cons timer_cmp_waking_time_def due_def not_less)
    then show ?thesis using False by (auto simp: filter_id_conv filter_empty_conv)
  qed (use Cons in \<open>auto simp: sorted_by_Cons\<close>)
qed simp

text \<open>
  C24. The alarm clock wakes on time. When the sleeping threads are sorted by waking time,
  \<^verbatim>\<open>wake_threads\<close> returns, moves exactly the threads whose time has come to the ready
  list, and leaves exactly those whose time is still to come.
\<close>

theorem wake_threads_exact:
  assumes "sched_inv k" and "sorted_by (timer_cmp_waking_time k) (waiting_threads k)" and "level k = INTR_OFF"
  shows "\<exists>k'. wake_threads k = Inr k' \<and> sched_inv k'
     \<and> waiting_threads k' = filter (\<lambda>t. ticks k < ticks_wake (thr k t)) (waiting_threads k)
     \<and> set (ready_list k') = set (ready_list k) \<union> {t \<in> set (waiting_threads k). ticks_wake (thr k t) \<le> ticks k}"
proof -
  obtain k' where k': "wake_loop (waiting_threads k) k = Inr k'" "quiet k k'"
      "waiting_threads k' = dropWhile (due k) (waiting_threads k)"
      "set (ready_list k') = set (ready_list k) \<union> set (takeWhile (due k) (waiting_threads k))"
    using wake_loop_spec [OF assms(1) refl] assms(3) by blast
  then show ?thesis
    using dropWhile_due [OF assms(2)] quiet_same(7) [OF k'(2)] by (auto simp: wake_threads_def due_def not_le)
qed

definition demo_sleepers :: kernel where
  "demo_sleepers = set_thr 16384 (\<lambda>_. (demo_thread THREAD_BLOCKED 40)\<lparr>ticks_wake := 50\<rparr>)
     (set_thr 20480 (\<lambda>_. (demo_thread THREAD_BLOCKED 9)\<lparr>ticks_wake := 51\<rparr>)
       (demo_kernel\<lparr>waiting_threads := [16384, 20480], level := INTR_OFF\<rparr>))"

lemma demo_sleepers_fields:
  "thr demo_sleepers = (thr demo_kernel)(20480 := (demo_thread THREAD_BLOCKED 9)\<lparr>ticks_wake := 51\<rparr>,
      16384 := (demo_thread THREAD_BLOCKED 40)\<lparr>ticks_wake := 50\<rparr>)"
  "ready_list demo_sleepers = [12288]" "waiting_threads demo_sleepers = [16384, 20480]" "idle_thread demo_sleepers = 8192"
  "current demo_sleepers = 4096" "level demo_sleepers = INTR_OFF" "ticks demo_sleepers = 50" "semas demo_sleepers = (\<lambda>_. free_sema)"
  "in_external_intr demo_sleepers = False"
  by (simp_all add: demo_sleepers_def kdefs demo_kernel_def)

lemma demo_sleepers_inv: "sched_inv demo_sleepers"
proof -
  have v: "st demo_sleepers t = (if t \<in> {16384, 20480} then THREAD_BLOCKED else st demo_kernel t)"
      "is_thread demo_sleepers t \<longleftrightarrow> t \<in> {4096, 8192, 12288, 16384, 20480}" "waits demo_sleepers s = []" for t s
    using demo_threads(1) by (auto simp: st_def is_thread_def waits_def demo_sleepers_fields demo_thread_def new_thread_def free_sema_def)
  show ?thesis
    by (auto simp: sched_inv_def lists_ok_def idle_ok_def sorted_ready_alt runs_def in_state_def demo_sleepers_fields v demo_threads
        split: if_splits)
qed

theorem wake_threads_exact_witness:
  "\<exists>k'. wake_threads demo_sleepers = Inr k' \<and> waiting_threads k' = [20480] \<and> set (ready_list k') = {12288, 16384}"
proof -
  have "sorted_by (timer_cmp_waking_time demo_sleepers) (waiting_threads demo_sleepers)"
    by (simp add: sorted_by_def timer_cmp_waking_time_def demo_sleepers_fields)
  from wake_threads_exact [OF demo_sleepers_inv this] show ?thesis
    by (auto simp: demo_sleepers_fields)
qed



section \<open>Donation\<close>

text \<open>
  C21. Donation reaches the whole chain. When the chain of locks from \<open>l\<close> ends, each lock on it is
  in the list of its holder, and none is held by the donating thread,
  \<^verbatim>\<open>thread_donate_priority\<close> returns, keeps the scheduling invariant and the semaphores,
  and afterwards every lock of the chain and every holder has at least the donated priority.
\<close>

theorem donation_reaches_chain:
  assumes "sched_inv k" and "covers k" and "donation_chain k l ls"
    and "\<And>m. m \<in> set ls \<Longrightarrow> m \<in> set (locks (thr k (holder (lock_at k m)))) \<and> holder (lock_at k m) \<noteq> current k"
  shows "\<exists>k'. thread_donate_priority l k = Some (Inr k') \<and> sched_inv k'
     \<and> (\<forall>m\<in>set ls. holder (lock_at k' m) = holder (lock_at k m)
          \<and> priority (thr k (current k)) \<le> max_priority (lock_at k' m)
          \<and> priority (thr k (current k)) \<le> priority (thr k' (holder (lock_at k' m))))"
  using donation_spec [OF assms(3,1,2,4)] by (fastforce simp: quiet_def effect_def same_chain_def prio_def)

definition demo_donation :: kernel where
  "demo_donation = set_thr 12288 (\<lambda>_. (demo_thread THREAD_READY 20)\<lparr>locks := [200]\<rparr>)
     (set_lock 200 (\<lambda>_. \<lparr>holder = 12288, max_priority = 20\<rparr>) demo_kernel)"

lemma demo_donation_fields:
  "thr demo_donation = (thr demo_kernel)(12288 := (demo_thread THREAD_READY 20)\<lparr>locks := [200]\<rparr>)"
  "lock_at demo_donation = (lock_at demo_kernel)(200 := \<lparr>holder = 12288, max_priority = 20\<rparr>)"
  "current demo_donation = 4096"
  by (simp_all add: demo_donation_def kdefs demo_kernel_def)

lemma demo_donation_inv: "sched_inv demo_donation"
proof -
  have "same_view demo_kernel demo_donation"
    by (auto simp: same_view_def demo_donation_def st_def prio_def is_thread_def waits_def kdefs demo_kernel_def demo_thread_def)
  then show ?thesis using demo_sched_inv sched_inv_cong by blast
qed

lemma demo_donation_covers: "covers demo_donation"
  by (auto simp: covers_def demo_donation_fields prio_def demo_kernel_def demo_thread_def new_thread_def split: if_splits)

theorem donation_reaches_chain_witness:
  "\<exists>k'. thread_donate_priority 200 demo_donation = Some (Inr k') \<and> 31 \<le> priority (thr k' 12288)"
proof -
  have c: "donation_chain demo_donation 200 [200]"
    by (rule chain_end) (simp_all add: demo_donation_fields demo_thread_def new_thread_def)
  have p: "priority (thr demo_donation 4096) = 31"
    by (simp add: demo_donation_fields demo_kernel_def demo_thread_def new_thread_def)
  have h: "m \<in> set [200] \<Longrightarrow> m \<in> set (locks (thr demo_donation (holder (lock_at demo_donation m))))
      \<and> holder (lock_at demo_donation m) \<noteq> current demo_donation" for m
    by (simp add: demo_donation_fields)
  show ?thesis
    using donation_reaches_chain [OF demo_donation_inv demo_donation_covers c h]
    by (auto simp: demo_donation_fields(3) p) (simp add: demo_donation_fields(2))
qed



text \<open>
  \<^verbatim>\<open>thread_update_priority\<close> sets the priority of a thread to the maximum of its base
  priority and of the priorities donated through the locks in its list, and changes nothing else
  but the order of that list.
\<close>

theorem thread_update_priority_max:
  assumes "t \<noteq> NULL"
  shows "\<exists>k'. thread_update_priority t k = Inr k'
     \<and> priority (thr k' t) = Max (insert (base_priority (thr k t)) ((\<lambda>l. max_priority (lock_at k l)) ` set (locks (thr k t))))
     \<and> set (locks (thr k' t)) = set (locks (thr k t)) \<and> (\<forall>u. u \<noteq> t \<longrightarrow> thr k' u = thr k u)"
  using thread_update_priority_eq [OF assms, of k] by (auto simp: kdefs upd_prio_max)

theorem thread_update_priority_max_witness:
  "\<exists>k'. thread_update_priority 12288 demo_donation = Inr k' \<and> priority (thr k' 12288) = 20"
  using thread_update_priority_max [of 12288 demo_donation]
  by (auto simp: demo_donation_fields demo_thread_def new_thread_def)

section \<open>Feedback queue\<close>

lemma next_load_avg_bounds:
  assumes "0 \<le> load" and "load \<le> FP_CONVERT_TO_FP n" and "0 \<le> r" and "r \<le> n"
  shows "0 \<le> next_load_avg load r" "next_load_avg load r \<le> FP_CONVERT_TO_FP n"
proof -
  have v: "next_load_avg load r = load * 59 div 60 + r * 16384 div 60"
    using assms by (simp add: next_load_avg_def fp_defs fp_f_value cdiv_nonneg)
  have "load * 59 div 60 \<le> n * 16384 * 59 div 60"
    using assms by (intro zdiv_mono1) (simp_all add: FP_CONVERT_TO_FP_def fp_f_value)
  moreover have "r * 16384 div 60 \<le> n * 16384 div 60" using assms by (intro zdiv_mono1) simp_all
  moreover have "n * 16384 * 59 div 60 + n * 16384 div 60 \<le> n * 16384" by linarith
  moreover have "0 \<le> load * 59 div 60" "0 \<le> r * 16384 div 60"
    using assms by (simp_all add: pos_imp_zdiv_nonneg_iff)
  ultimately show "0 \<le> next_load_avg load r" "next_load_avg load r \<le> FP_CONVERT_TO_FP n"
    unfolding v FP_CONVERT_TO_FP_def fp_f_value by linarith+
qed

lemma load_avg_text_range:
  assumes "0 \<le> load" and "load \<le> FP_CONVERT_TO_FP n" and "n \<le> 1300"
  shows "FP_FP_MULT_INT load 59 < 2 ^ 31" "FP_FP_MULT_INT load 100 + 8192 < 2 ^ 31"
  using assms by (simp_all add: FP_FP_MULT_INT_def FP_CONVERT_TO_FP_def fp_f_value)

text \<open>The decay factor of \<^verbatim>\<open>recent_cpu\<close> is below one, so the decayed value does not grow.\<close>

lemma cdiv_mult_le:
  assumes "0 \<le> c" and "c \<le> d" and "0 < d"
  shows "\<bar>cdiv (c * x) d\<bar> \<le> \<bar>x\<bar>"
proof -
  have "c * \<bar>x\<bar> div d \<le> d * \<bar>x\<bar> div d"
    using assms by (intro zdiv_mono1) (simp_all add: mult_right_mono)
  moreover have "0 \<le> c * \<bar>x\<bar> div d" using assms by (simp add: pos_imp_zdiv_nonneg_iff)
  ultimately show ?thesis
    using assms by (cases "c = 0"; cases "x = 0") (auto simp: cdiv_def abs_mult sgn_if)
qed

lemma mlfqs_recent_cpu_bound:
  assumes "0 \<le> load"
  shows "\<bar>mlfqs_recent_cpu load r\<bar> \<le> \<bar>recent_cpu r\<bar> + \<bar>nice r\<bar> * fp_f"
proof -
  let ?c = "FP_DIV (FP_FP_MULT_INT load 2) (FP_FP_ADD_INT (FP_FP_MULT_INT load 2) 1)"
  have "?c = load * 2 * 16384 div (load * 2 + 16384)"
    using assms by (simp add: fp_defs fp_f_value cdiv_nonneg)
  moreover have "load * 2 * 16384 div (load * 2 + 16384) \<le> 16384"
  proof -
    have "load * 2 * 16384 div (load * 2 + 16384) \<le> (load * 2 + 16384) * 16384 div (load * 2 + 16384)"
      using assms by (intro zdiv_mono1) simp_all
    also have "\<dots> = 16384" using assms by (intro nonzero_mult_div_cancel_left) simp
    finally show ?thesis .
  qed
  moreover have "0 \<le> load * 2 * 16384 div (load * 2 + 16384)" using assms by (simp add: pos_imp_zdiv_nonneg_iff)
  ultimately have "0 \<le> ?c" "?c \<le> fp_f" unfolding fp_f_value by linarith+
  then have "\<bar>FP_MULT ?c (recent_cpu r)\<bar> \<le> \<bar>recent_cpu r\<bar>"
    unfolding FP_MULT_def by (intro cdiv_mult_le) simp_all
  moreover have "\<bar>nice r * fp_f\<bar> = \<bar>nice r\<bar> * fp_f" by (simp add: abs_mult fp_f_value)
  ultimately show ?thesis unfolding mlfqs_recent_cpu_def FP_FP_ADD_INT_def by linarith
qed



end
