(* ===== verification/Block_Device.thy ===== *)
theory Block_Device
  imports Prelude
begin

text \<open>
  Block devices, devices/block.c (project 4): the registry of devices, the devices assigned to the
  roles of the kernel, and the checked access to sectors. What a driver stores is the field
  \<open>blk_data\<close>: a sector read returns what was last written to it.
\<close>

definition BLOCK_SECTOR_SIZE :: nat where "BLOCK_SECTOR_SIZE = 512"

datatype block_type = BLOCK_KERNEL | BLOCK_FILESYS | BLOCK_SCRATCH | BLOCK_SWAP | BLOCK_RAW | BLOCK_FOREIGN

record block =
  blk_name :: string
  blk_type :: block_type
  blk_size :: nat
  blk_data :: "nat \<Rightarrow> byte list"
  read_cnt :: "64 word"
  write_cnt :: "64 word"

record block_table =
  all_blocks :: "addr list"
  block_at :: "addr \<Rightarrow> block"
  block_by_role :: "block_type \<Rightarrow> addr"

fun block_type_name :: "block_type \<Rightarrow> string" where
  "block_type_name BLOCK_KERNEL = ''kernel''"
| "block_type_name BLOCK_FILESYS = ''filesys''"
| "block_type_name BLOCK_SCRATCH = ''scratch''"
| "block_type_name BLOCK_SWAP = ''swap''"
| "block_type_name BLOCK_RAW = ''raw''"
| "block_type_name BLOCK_FOREIGN = ''foreign''"

text \<open>\<open>role < BLOCK_ROLE_CNT\<close>.\<close>

fun is_role :: "block_type \<Rightarrow> bool" where
  "is_role BLOCK_RAW = False"
| "is_role BLOCK_FOREIGN = False"
| "is_role _ = True"

definition block_get_role :: "block_type \<Rightarrow> block_table \<Rightarrow> addr res" where
  "block_get_role role bt = bind_res (assert_res (is_role role)) (\<lambda>_. Inr (block_by_role bt role))"

definition block_set_role :: "block_type \<Rightarrow> addr \<Rightarrow> block_table \<Rightarrow> block_table res" where
  "block_set_role role b bt =
     bind_res (assert_res (is_role role)) (\<lambda>_. Inr (bt\<lparr>block_by_role := (block_by_role bt)(role := b)\<rparr>))"

text \<open>The first of the devices still to come, or null at the end of the list.\<close>

fun list_elem_to_block :: "addr list \<Rightarrow> addr" where
  "list_elem_to_block [] = NULL"
| "list_elem_to_block (b # bs) = b"

definition block_first :: "block_table \<Rightarrow> addr" where
  "block_first bt = list_elem_to_block (all_blocks bt)"

definition block_next :: "addr \<Rightarrow> block_table \<Rightarrow> addr" where
  "block_next b bt = list_elem_to_block (tl (dropWhile (\<lambda>x. x \<noteq> b) (all_blocks bt)))"

fun find_by_name :: "(addr \<Rightarrow> block) \<Rightarrow> string \<Rightarrow> addr list \<Rightarrow> addr" where
  "find_by_name at name [] = NULL"
| "find_by_name at name (b # bs) = (if name = blk_name (at b) then b else find_by_name at name bs)"

definition block_get_by_name :: "string \<Rightarrow> block_table \<Rightarrow> addr" where
  "block_get_by_name name bt = find_by_name (block_at bt) name (all_blocks bt)"

definition check_sector :: "block \<Rightarrow> nat \<Rightarrow> unit res" where
  "check_sector b sector = (if sector \<ge> blk_size b then Inl Panic else Inr ())"

definition block_read :: "block \<Rightarrow> nat \<Rightarrow> (byte list \<times> block) res" where
  "block_read b sector =
     bind_res (check_sector b sector) (\<lambda>_. Inr (blk_data b sector, b\<lparr>read_cnt := read_cnt b + 1\<rparr>))"

definition block_write :: "block \<Rightarrow> nat \<Rightarrow> byte list \<Rightarrow> block res" where
  "block_write b sector buf =
     bind_res (check_sector b sector) (\<lambda>_.
     bind_res (assert_res (blk_type b \<noteq> BLOCK_FOREIGN)) (\<lambda>_.
     Inr (b\<lparr>blk_data := (blk_data b)(sector := buf), write_cnt := write_cnt b + 1\<rparr>)))"

definition block_size :: "block \<Rightarrow> nat" where
  "block_size b = blk_size b"

definition block_name :: "block \<Rightarrow> string" where
  "block_name b = blk_name b"

definition block_type_of :: "block \<Rightarrow> block_type" where
  "block_type_of b = blk_type b"

text \<open>\<open>b\<close> is what \<^verbatim>\<open>malloc\<close> returns, \<open>d\<close> what the device holds.\<close>

definition block_register :: "addr \<Rightarrow> string \<Rightarrow> block_type \<Rightarrow> nat \<Rightarrow> (nat \<Rightarrow> byte list) \<Rightarrow> block_table \<Rightarrow> (addr \<times> block_table) res" where
  "block_register b name type sz d bt =
     (if b = NULL then Inl Panic
      else Inr (b, bt\<lparr>all_blocks := all_blocks bt @ [b],
                 block_at := (block_at bt)(b := \<lparr>blk_name = take 15 name, blk_type = type, blk_size = sz,
                   blk_data = d, read_cnt = 0, write_cnt = 0\<rparr>)\<rparr>))"

section \<open>Access\<close>

lemma block_read_ok: "s < blk_size b \<Longrightarrow> block_read b s = Inr (blk_data b s, b\<lparr>read_cnt := read_cnt b + 1\<rparr>)"
  by (simp add: block_read_def check_sector_def)

lemma block_write_ok:
  "s < blk_size b \<Longrightarrow> blk_type b \<noteq> BLOCK_FOREIGN \<Longrightarrow>
   block_write b s d = Inr (b\<lparr>blk_data := (blk_data b)(s := d), write_cnt := write_cnt b + 1\<rparr>)"
  by (simp add: block_write_def check_sector_def)

section \<open>Registration\<close>

text \<open>The devices found by following \<^verbatim>\<open>block_next\<close> from \<^verbatim>\<open>block_first\<close>.\<close>

lemma block_next_append:
  "distinct (all_blocks bt) \<Longrightarrow> all_blocks bt = xs @ b # ys \<Longrightarrow> block_next b bt = list_elem_to_block ys"
  by (auto simp: block_next_def dropWhile_append)

lemma find_by_name_append:
  "NULL \<notin> set xs \<Longrightarrow> find_by_name at name xs = NULL \<Longrightarrow> find_by_name at name (xs @ ys) = find_by_name at name ys"
  by (induction xs) (auto split: if_splits)

lemma find_by_name_cong:
  "(\<And>x. x \<in> set xs \<Longrightarrow> at x = at' x) \<Longrightarrow> find_by_name at name xs = find_by_name at' name xs"
  by (induction xs) auto

lemma block_register_lookup:
  assumes "block_register b name type sz d bt = Inr (b', bt')" and "b \<notin> set (all_blocks bt)" and "NULL \<notin> set (all_blocks bt)"
    and "block_get_by_name (take 15 name) bt = NULL"
  shows "block_get_by_name (take 15 name) bt' = b"
proof -
  have b': "b \<noteq> NULL" and bt': "all_blocks bt' = all_blocks bt @ [b]" "\<And>x. x \<noteq> b \<Longrightarrow> block_at bt' x = block_at bt x"
    "blk_name (block_at bt' b) = take 15 name"
    using assms(1) by (auto simp: block_register_def split: if_splits)
  have "find_by_name (block_at bt') (take 15 name) (all_blocks bt) = NULL"
    using assms(2,4) bt'(2) find_by_name_cong [of "all_blocks bt" "block_at bt'" "block_at bt"]
    by (metis block_get_by_name_def)
  then show ?thesis
    using assms(3) bt' by (simp add: block_get_by_name_def find_by_name_append)
qed

end
