(* ===== verification/Buffer_Cache.thy ===== *)
theory Buffer_Cache
  imports Block_Device
begin

text \<open>
  The buffer cache of the file system, filesys/cache.c (project 4): sixty-four sectors kept in
  memory, written back on eviction and on shutdown, the least recently used one evicted. The
  operations run under \<^verbatim>\<open>buffer_cache_lock\<close>, so each is one step of the model;
  \<open>cache_lock\<close> says whether the lock is held. \<open>clock\<close> is the sequence of the
  values that \<^verbatim>\<open>timer_ticks\<close> will return.
\<close>

section \<open>Model\<close>

definition CACHE_CNT :: nat where "CACHE_CNT = 64"
definition INT64_MAX :: int where "INT64_MAX = 2 ^ 63 - 1"

record cache =
  is_free :: bool
  dirty :: bool
  time_stamp :: int
  disk_sector :: nat
  buffer :: "byte list"

record buffer_cache =
  caches :: "cache list"
  cache_lock :: bool
  fs_device :: block
  clock :: "nat \<Rightarrow> int"

definition set_cache :: "nat \<Rightarrow> (cache \<Rightarrow> cache) \<Rightarrow> buffer_cache \<Rightarrow> buffer_cache" where
  "set_cache i f bc = bc\<lparr>caches := (caches bc)[i := f (caches bc ! i)]\<rparr>"

definition lock_cache :: "buffer_cache \<Rightarrow> buffer_cache res" where
  "lock_cache bc = bind_res (assert_res (\<not> cache_lock bc)) (\<lambda>_. Inr (bc\<lparr>cache_lock := True\<rparr>))"

definition unlock_cache :: "buffer_cache \<Rightarrow> buffer_cache res" where
  "unlock_cache bc = bind_res (assert_res (cache_lock bc)) (\<lambda>_. Inr (bc\<lparr>cache_lock := False\<rparr>))"

definition now_ticks :: "buffer_cache \<Rightarrow> int \<times> buffer_cache" where
  "now_ticks bc = (clock bc 0, bc\<lparr>clock := (\<lambda>n. clock bc (Suc n))\<rparr>)"

definition buffer_cache_init :: "buffer_cache \<Rightarrow> buffer_cache" where
  "buffer_cache_init bc = bc\<lparr>cache_lock := False, caches := map (\<lambda>c. c\<lparr>is_free := True\<rparr>) (caches bc)\<rparr>"

definition buffer_cache_flush :: "nat \<Rightarrow> buffer_cache \<Rightarrow> buffer_cache res" where
  "buffer_cache_flush i bc =
     bind_res (assert_res (cache_lock bc)) (\<lambda>_.
     if is_free (caches bc ! i) then Inr bc
     else if dirty (caches bc ! i)
     then bind_res (block_write (fs_device bc) (disk_sector (caches bc ! i)) (buffer (caches bc ! i))) (\<lambda>dev.
          Inr (set_cache i (\<lambda>c. c\<lparr>dirty := False\<rparr>) (bc\<lparr>fs_device := dev\<rparr>)))
     else Inr bc)"

text \<open>The loop over the entries from \<open>i\<close> on, \<open>k\<close> of them.\<close>

fun close_loop :: "nat \<Rightarrow> nat \<Rightarrow> buffer_cache \<Rightarrow> buffer_cache res" where
  "close_loop i 0 bc = Inr bc"
| "close_loop i (Suc k) bc =
     (if is_free (caches bc ! i) then close_loop (Suc i) k bc
      else bind_res (buffer_cache_flush i bc) (close_loop (Suc i) k))"

definition buffer_cache_close :: "buffer_cache \<Rightarrow> buffer_cache res" where
  "buffer_cache_close bc =
     bind_res (lock_cache bc) (\<lambda>bc. bind_res (close_loop 0 CACHE_CNT bc) unlock_cache)"

fun lookup_loop :: "nat \<Rightarrow> nat \<Rightarrow> cache list \<Rightarrow> nat option" where
  "lookup_loop sector i [] = None"
| "lookup_loop sector i (c # cs) =
     (if is_free c then lookup_loop sector (Suc i) cs
      else if disk_sector c = sector then Some i
      else lookup_loop sector (Suc i) cs)"

definition buffer_cache_lookup :: "nat \<Rightarrow> buffer_cache \<Rightarrow> nat option" where
  "buffer_cache_lookup sector bc = lookup_loop sector 0 (caches bc)"

fun free_loop :: "nat \<Rightarrow> cache list \<Rightarrow> nat option" where
  "free_loop i [] = None"
| "free_loop i (c # cs) = (if is_free c then Some i else free_loop (Suc i) cs)"

fun lru_loop :: "nat \<Rightarrow> cache list \<Rightarrow> int \<Rightarrow> nat \<Rightarrow> nat" where
  "lru_loop i [] LRU_time LRU_idx = LRU_idx"
| "lru_loop i (c # cs) LRU_time LRU_idx =
     (if time_stamp c < LRU_time then lru_loop (Suc i) cs (time_stamp c) i
      else lru_loop (Suc i) cs LRU_time LRU_idx)"

definition buffer_cache_evict :: "buffer_cache \<Rightarrow> (nat \<times> buffer_cache) res" where
  "buffer_cache_evict bc =
     (case free_loop 0 (caches bc) of
        Some i \<Rightarrow> Inr (i, bc)
      | None \<Rightarrow>
          let i = lru_loop 0 (caches bc) INT64_MAX 0 in
          bind_res (if dirty (caches bc ! i) then buffer_cache_flush i bc else Inr bc) (\<lambda>bc.
          Inr (i, set_cache i (\<lambda>c. c\<lparr>is_free := True, dirty := False\<rparr>) bc)))"

text \<open>The part that reading and writing share: find the sector, or load it into a slot.\<close>

definition buffer_cache_slot :: "nat \<Rightarrow> buffer_cache \<Rightarrow> (nat \<times> buffer_cache) res" where
  "buffer_cache_slot sector bc =
     (case buffer_cache_lookup sector bc of
        Some i \<Rightarrow> Inr (i, bc)
      | None \<Rightarrow>
          bind_res (buffer_cache_evict bc) (\<lambda>(i, bc).
          bind_res (assert_res (is_free (caches bc ! i))) (\<lambda>_.
          let bc = set_cache i (\<lambda>c. c\<lparr>is_free := False, disk_sector := sector, dirty := False\<rparr>) bc in
          bind_res (block_read (fs_device bc) sector) (\<lambda>(d, dev).
          Inr (i, set_cache i (\<lambda>c. c\<lparr>buffer := d\<rparr>) (bc\<lparr>fs_device := dev\<rparr>))))))"

definition buffer_cache_read :: "nat \<Rightarrow> buffer_cache \<Rightarrow> (byte list \<times> buffer_cache) res" where
  "buffer_cache_read sector bc =
     bind_res (lock_cache bc) (\<lambda>bc.
     bind_res (buffer_cache_slot sector bc) (\<lambda>(i, bc).
     let (t, bc) = now_ticks bc;
         bc = set_cache i (\<lambda>c. c\<lparr>time_stamp := t\<rparr>) bc;
         target = buffer (caches bc ! i) in
     bind_res (unlock_cache bc) (\<lambda>bc. Inr (target, bc))))"

definition buffer_cache_write :: "nat \<Rightarrow> byte list \<Rightarrow> buffer_cache \<Rightarrow> buffer_cache res" where
  "buffer_cache_write sector source bc =
     bind_res (lock_cache bc) (\<lambda>bc.
     bind_res (buffer_cache_slot sector bc) (\<lambda>(i, bc).
     let bc = set_cache i (\<lambda>c. c\<lparr>dirty := True\<rparr>) bc;
         (t, bc) = now_ticks bc;
         bc = set_cache i (\<lambda>c. c\<lparr>time_stamp := t\<rparr>) bc;
         bc = set_cache i (\<lambda>c. c\<lparr>buffer := source\<rparr>) bc in
     unlock_cache bc))"

text \<open>\<^verbatim>\<open>cache_to_disk\<close> looks at the dirty bit only.\<close>

fun to_disk_loop :: "nat \<Rightarrow> nat \<Rightarrow> buffer_cache \<Rightarrow> buffer_cache res" where
  "to_disk_loop i 0 bc = Inr bc"
| "to_disk_loop i (Suc k) bc =
     bind_res
       (if dirty (caches bc ! i)
        then bind_res (block_write (fs_device bc) (disk_sector (caches bc ! i)) (buffer (caches bc ! i)))
               (\<lambda>dev. Inr (bc\<lparr>fs_device := dev\<rparr>))
        else Inr bc)
       (to_disk_loop (Suc i) k)"

definition cache_to_disk :: "buffer_cache \<Rightarrow> buffer_cache res" where
  "cache_to_disk bc =
     bind_res (lock_cache bc) (\<lambda>bc. bind_res (to_disk_loop 0 CACHE_CNT bc) unlock_cache)"


section \<open>Invariant and contents\<close>

text \<open>
  A live entry holds its sector's current contents, and the device holds them too unless the
  entry is dirty. No sector has two live entries.
\<close>

definition holds :: "cache list \<Rightarrow> nat \<Rightarrow> nat \<Rightarrow> bool" where
  "holds cs s i \<longleftrightarrow> i < length cs \<and> \<not> is_free (cs ! i) \<and> disk_sector (cs ! i) = s"

definition entry_ok :: "block \<Rightarrow> cache \<Rightarrow> bool" where
  "entry_ok dev c \<longleftrightarrow>
     (if is_free c then \<not> dirty c
      else disk_sector c < blk_size dev \<and> length (buffer c) = BLOCK_SECTOR_SIZE
         \<and> (dirty c \<or> buffer c = blk_data dev (disk_sector c)))"

definition cache_ok :: "buffer_cache \<Rightarrow> bool" where
  "cache_ok bc \<longleftrightarrow> length (caches bc) = CACHE_CNT \<and> blk_type (fs_device bc) \<noteq> BLOCK_FOREIGN
     \<and> (\<forall>s<blk_size (fs_device bc). length (blk_data (fs_device bc) s) = BLOCK_SECTOR_SIZE)
     \<and> (\<forall>i<CACHE_CNT. entry_ok (fs_device bc) (caches bc ! i))
     \<and> (\<forall>s i j. holds (caches bc) s i \<longrightarrow> holds (caches bc) s j \<longrightarrow> i = j)"

text \<open>The contents of a sector, as every user of the cache sees them.\<close>

definition view :: "buffer_cache \<Rightarrow> nat \<Rightarrow> byte list" where
  "view bc s = (case buffer_cache_lookup s bc of Some i \<Rightarrow> buffer (caches bc ! i) | None \<Rightarrow> blk_data (fs_device bc) s)"

definition sectors :: "buffer_cache \<Rightarrow> nat" where
  "sectors bc = blk_size (fs_device bc)"

lemma holds_Cons [simp]:
  "holds (c # cs) s 0 \<longleftrightarrow> \<not> is_free c \<and> disk_sector c = s"
  "holds (c # cs) s (Suc j) \<longleftrightarrow> holds cs s j"
  by (auto simp: holds_def)

lemma lookup_loop_None: "lookup_loop s i cs = None \<longleftrightarrow> (\<forall>j. \<not> holds cs s j)"
proof (induction cs arbitrary: i)
  case (Cons c cs)
  have "(\<forall>j. \<not> holds (c # cs) s j) \<longleftrightarrow> \<not> (\<not> is_free c \<and> disk_sector c = s) \<and> (\<forall>j. \<not> holds cs s j)"
    by (metis holds_Cons not0_implies_Suc)
  then show ?case using Cons by auto
qed (simp add: holds_def)

lemma lookup_loop_Some: "lookup_loop s i cs = Some k \<Longrightarrow> i \<le> k \<and> holds cs s (k - i)"
proof (induction cs arbitrary: i)
  case (Cons c cs)
  show ?case
  proof (cases "\<not> is_free c \<and> disk_sector c = s")
    case True
    then show ?thesis using Cons.prems by (auto simp: holds_def)
  next
    case False
    then have "Suc i \<le> k \<and> holds cs s (k - Suc i)" using Cons by (auto split: if_splits)
    moreover from this have "k - i = Suc (k - Suc i)" by auto
    ultimately show ?thesis by (auto simp: holds_def)
  qed
qed simp

lemma view_hit: "cache_ok bc \<Longrightarrow> holds (caches bc) s i \<Longrightarrow> view bc s = buffer (caches bc ! i)"
  unfolding view_def buffer_cache_lookup_def cache_ok_def
  using lookup_loop_None [of s 0 "caches bc"] lookup_loop_Some [of s 0 "caches bc"]
  by (fastforce split: option.splits)

lemma view_miss: "\<forall>i. \<not> holds (caches bc) s i \<Longrightarrow> view bc s = blk_data (fs_device bc) s"
  unfolding view_def buffer_cache_lookup_def by (simp add: lookup_loop_None [THEN iffD2])

lemma view_cases [case_names hit miss]:
  assumes "cache_ok bc"
  obtains i where "holds (caches bc) s i" "view bc s = buffer (caches bc ! i)"
  | "\<And>i. \<not> holds (caches bc) s i" "view bc s = blk_data (fs_device bc) s"
  using view_hit [OF assms] view_miss by blast

lemma length_view: "cache_ok bc \<Longrightarrow> s < sectors bc \<Longrightarrow> length (view bc s) = BLOCK_SECTOR_SIZE"
  by (cases rule: view_cases [of bc s]) (auto simp: cache_ok_def entry_ok_def holds_def sectors_def)

text \<open>
  One lemma for every change the operations make: entry \<open>i\<close> is replaced and the device may
  be written. What has to be shown concerns that entry and its sector only.
\<close>

definition put :: "nat \<Rightarrow> cache \<Rightarrow> block \<Rightarrow> buffer_cache \<Rightarrow> buffer_cache" where
  "put i c dev bc = bc\<lparr>caches := (caches bc)[i := c], fs_device := dev\<rparr>"

definition same_shape :: "block \<Rightarrow> block \<Rightarrow> bool" where
  "same_shape dev dev' \<longleftrightarrow> blk_size dev' = blk_size dev \<and> blk_type dev' = blk_type dev"

lemma holds_put:
  "length (caches bc) = CACHE_CNT \<Longrightarrow> i < CACHE_CNT \<Longrightarrow>
   holds (caches (put i c dev bc)) s j \<longleftrightarrow> (if j = i then \<not> is_free c \<and> disk_sector c = s else holds (caches bc) s j)"
  by (auto simp: holds_def put_def nth_list_update)

lemma cache_ok_put:
  assumes "cache_ok bc" and "i < CACHE_CNT" and "same_shape (fs_device bc) dev" and "entry_ok dev c"
    and "\<And>j s. \<not> is_free c \<Longrightarrow> s = disk_sector c \<Longrightarrow> j \<noteq> i \<Longrightarrow> \<not> holds (caches bc) s j"
    and "\<And>s. blk_data dev s \<noteq> blk_data (fs_device bc) s \<Longrightarrow>
           holds (caches bc) s i \<and> length (blk_data dev s) = BLOCK_SECTOR_SIZE"
  shows "cache_ok (put i c dev bc)"
proof -
  have len: "length (caches bc) = CACHE_CNT" using assms(1) by (simp add: cache_ok_def)
  note h = holds_put [OF len assms(2)]
  have uniq: "holds (caches bc) s a \<Longrightarrow> holds (caches bc) s b \<Longrightarrow> a = b" for s a b
    using assms(1) unfolding cache_ok_def by blast
  have "entry_ok dev (caches (put i c dev bc) ! j)" if "j < CACHE_CNT" for j
  proof (cases "j = i")
    case True
    then show ?thesis using assms(2,4) len by (simp add: put_def)
  next
    case False
    have "entry_ok (fs_device bc) (caches bc ! j)" using assms(1) that by (simp add: cache_ok_def)
    moreover have "blk_data dev (disk_sector (caches bc ! j)) = blk_data (fs_device bc) (disk_sector (caches bc ! j))"
      if "\<not> is_free (caches bc ! j)"
      using assms(6) uniq False that \<open>j < CACHE_CNT\<close> len by (metis holds_def)
    ultimately show ?thesis using False assms(3) by (auto simp: put_def entry_ok_def same_shape_def)
  qed
  moreover have "holds (caches (put i c dev bc)) s a \<longrightarrow> holds (caches (put i c dev bc)) s b \<longrightarrow> a = b" for s a b
    unfolding h using uniq assms(5) by (auto split: if_splits)
  moreover have "length (blk_data dev s) = BLOCK_SECTOR_SIZE" if "s < blk_size dev" for s
    using assms(1,3,6) that unfolding cache_ok_def same_shape_def by metis
  ultimately show ?thesis
    using assms(1,3) len unfolding cache_ok_def same_shape_def put_def by simp
qed

lemma view_put:
  assumes "cache_ok bc" and "cache_ok (put i c dev bc)" and "i < CACHE_CNT"
    and "\<And>s. blk_data dev s \<noteq> blk_data (fs_device bc) s \<Longrightarrow> holds (caches bc) s i"
  shows "view (put i c dev bc) s =
     (if \<not> is_free c \<and> disk_sector c = s then buffer c
      else if holds (caches bc) s i then blk_data dev s else view bc s)"
proof -
  have len: "length (caches bc) = CACHE_CNT" using assms(1) by (simp add: cache_ok_def)
  note h = holds_put [OF len assms(3)]
  have uniq: "holds (caches bc) s a \<Longrightarrow> holds (caches bc) s b \<Longrightarrow> a = b" for s a b
    using assms(1) unfolding cache_ok_def by blast
  show ?thesis
  proof (cases "\<not> is_free c \<and> disk_sector c = s")
    case True
    then have "holds (caches (put i c dev bc)) s i" unfolding h by simp
    then show ?thesis using view_hit [OF assms(2)] True len assms(3) by (simp add: put_def)
  next
    case no: False
    show ?thesis
    proof (cases "holds (caches bc) s i")
      case True
      then have "\<not> holds (caches (put i c dev bc)) s j" for j unfolding h using no uniq by auto
      then show ?thesis using no True view_miss [of "put i c dev bc" s] by (auto simp: put_def)
    next
      case False
      then have same: "holds (caches (put i c dev bc)) s j \<longleftrightarrow> holds (caches bc) s j" for j
        unfolding h using no by auto
      show ?thesis
      proof (cases rule: view_cases [OF assms(1), of s, case_names hit miss])
        case (hit j)
        then have "j \<noteq> i" using False by auto
        then show ?thesis using hit same [of j] view_hit [OF assms(2), of s j] no False by (auto simp: put_def)
      next
        case miss
        then show ?thesis using same view_miss [of "put i c dev bc" s] assms(4) no False by (auto simp: put_def)
      qed
    qed
  qed
qed


section \<open>Operations\<close>

lemma set_cache_put: "set_cache i f bc = put i (f (caches bc ! i)) (fs_device bc) bc"
  by (simp add: set_cache_def put_def)

lemma free_loop_Some: "free_loop i cs = Some k \<Longrightarrow> i \<le> k \<and> k - i < length cs \<and> is_free (cs ! (k - i))"
  by (induction cs arbitrary: i) (fastforce simp: Suc_diff_Suc split: if_splits)+

lemma free_loop_None: "free_loop i cs = None \<Longrightarrow> j < length cs \<Longrightarrow> \<not> is_free (cs ! j)"
  by (induction cs arbitrary: i j) (auto simp: nth_Cons split: if_splits nat.splits)

lemma lru_loop_less: "idx < i + length cs \<Longrightarrow> lru_loop i cs t idx < i + length cs"
proof (induction cs arbitrary: i t idx)
  case (Cons c cs)
  show ?case using Cons.IH [of idx "Suc i"] Cons.IH [of i "Suc i"] Cons.prems by auto
qed simp

text \<open>The victim has the least time stamp: eviction is least recently used first.\<close>

lemma lru_loop_least:
  "(lru_loop i cs t idx = idx \<and> (\<forall>c\<in>set cs. t \<le> time_stamp c))
   \<or> (\<exists>j<length cs. lru_loop i cs t idx = i + j \<and> time_stamp (cs ! j) < t
        \<and> (\<forall>c\<in>set cs. time_stamp (cs ! j) \<le> time_stamp c))"
proof (induction cs arbitrary: i t idx)
  case (Cons c cs)
  show ?case
  proof (cases "time_stamp c < t")
    case True
    from Cons.IH [of "Suc i" "time_stamp c" i] show ?thesis
    proof (elim disjE exE conjE)
      assume "lru_loop (Suc i) cs (time_stamp c) i = i" "\<forall>d\<in>set cs. time_stamp c \<le> time_stamp d"
      then show ?thesis using True by (intro disjI2 exI [of _ 0]) auto
    next
      fix j assume "j < length cs" "lru_loop (Suc i) cs (time_stamp c) i = Suc i + j" "time_stamp (cs ! j) < time_stamp c"
        "\<forall>d\<in>set cs. time_stamp (cs ! j) \<le> time_stamp d"
      then show ?thesis using True by (intro disjI2 exI [of _ "Suc j"]) auto
    qed
  next
    case False
    from Cons.IH [of "Suc i" t idx] show ?thesis
    proof (elim disjE exE conjE)
      assume "lru_loop (Suc i) cs t idx = idx" "\<forall>d\<in>set cs. t \<le> time_stamp d"
      then show ?thesis using False by auto
    next
      fix j assume "j < length cs" "lru_loop (Suc i) cs t idx = Suc i + j" "time_stamp (cs ! j) < t"
        "\<forall>d\<in>set cs. time_stamp (cs ! j) \<le> time_stamp d"
      then show ?thesis using False by (intro disjI2 exI [of _ "Suc j"]) auto
    qed
  qed
qed simp

text \<open>What an internal step keeps: the invariant, the contents, the lock and the device's shape.\<close>

definition keeps :: "buffer_cache \<Rightarrow> buffer_cache \<Rightarrow> bool" where
  "keeps bc bc' \<longleftrightarrow> cache_ok bc' \<and> view bc' = view bc \<and> cache_lock bc' = cache_lock bc
     \<and> same_shape (fs_device bc) (fs_device bc')"

lemma keeps_refl: "cache_ok bc \<Longrightarrow> keeps bc bc"
  by (simp add: keeps_def same_shape_def)

lemma keeps_trans: "keeps a b \<Longrightarrow> keeps b c \<Longrightarrow> keeps a c"
  by (simp add: keeps_def same_shape_def)

lemma keeps_put:
  assumes "cache_ok bc" and "i < CACHE_CNT" and "same_shape (fs_device bc) dev" and "entry_ok dev c"
    and "\<And>j s. \<not> is_free c \<Longrightarrow> s = disk_sector c \<Longrightarrow> j \<noteq> i \<Longrightarrow> \<not> holds (caches bc) s j"
    and "\<And>s. blk_data dev s \<noteq> blk_data (fs_device bc) s \<Longrightarrow>
           holds (caches bc) s i \<and> length (blk_data dev s) = BLOCK_SECTOR_SIZE"
    and "\<not> is_free c \<Longrightarrow> buffer c = view bc (disk_sector c)"
    and "\<And>s. holds (caches bc) s i \<Longrightarrow> (\<not> is_free c \<and> disk_sector c = s) \<or> blk_data dev s = view bc s"
  shows "keeps bc (put i c dev bc)"
proof -
  have ok: "cache_ok (put i c dev bc)" using assms(1-6) by (rule cache_ok_put)
  have "view (put i c dev bc) s = view bc s" for s
    using view_put [OF assms(1) ok assms(2), of s] assms(6,7,8) by auto
  then show ?thesis using ok assms(3) by (auto simp: keeps_def put_def)
qed

lemma entry_at: "cache_ok bc \<Longrightarrow> i < CACHE_CNT \<Longrightarrow> entry_ok (fs_device bc) (caches bc ! i)"
  by (simp add: cache_ok_def)

lemma holds_self: "cache_ok bc \<Longrightarrow> i < CACHE_CNT \<Longrightarrow>
    holds (caches bc) s i \<longleftrightarrow> \<not> is_free (caches bc ! i) \<and> disk_sector (caches bc ! i) = s"
  by (simp add: holds_def cache_ok_def)

lemma holds_other: "cache_ok bc \<Longrightarrow> holds (caches bc) s i \<Longrightarrow> holds (caches bc) s j \<Longrightarrow> j = i"
  unfolding cache_ok_def by blast

lemma flush_spec:
  assumes "cache_ok bc" and "i < CACHE_CNT" and "cache_lock bc"
  shows "\<exists>bc'. buffer_cache_flush i bc = Inr bc' \<and> keeps bc bc'
     \<and> (\<forall>j. j \<noteq> i \<longrightarrow> caches bc' ! j = caches bc ! j)
     \<and> caches bc' ! i = (caches bc ! i)\<lparr>dirty := False\<rparr>
     \<and> (\<forall>s. blk_data (fs_device bc') s \<noteq> blk_data (fs_device bc) s \<longrightarrow> holds (caches bc) s i)"
proof -
  let ?c = "caches bc ! i"
  have e: "entry_ok (fs_device bc) ?c" using assms by (simp add: entry_at)
  have len: "length (caches bc) = CACHE_CNT" using assms(1) by (simp add: cache_ok_def)
  show ?thesis
  proof (cases "\<not> is_free ?c \<and> dirty ?c")
    case True
    let ?dev = "(fs_device bc)\<lparr>blk_data := (blk_data (fs_device bc))(disk_sector ?c := buffer ?c),
      write_cnt := write_cnt (fs_device bc) + 1\<rparr>"
    let ?bc = "put i (?c\<lparr>dirty := False\<rparr>) ?dev bc"
    have w: "block_write (fs_device bc) (disk_sector ?c) (buffer ?c) = Inr ?dev"
      using True e assms(1) by (intro block_write_ok) (auto simp: entry_ok_def cache_ok_def)
    then have "buffer_cache_flush i bc = Inr ?bc"
      using True assms(3) by (simp add: buffer_cache_flush_def set_cache_def put_def)
    moreover have h: "holds (caches bc) (disk_sector ?c) i" using True assms by (simp add: holds_self)
    have "keeps bc ?bc"
    proof (rule keeps_put [OF assms(1,2)])
      show "same_shape (fs_device bc) ?dev" by (simp add: same_shape_def)
      show "entry_ok ?dev (?c\<lparr>dirty := False\<rparr>)" using e True by (simp add: entry_ok_def)
      show "\<not> holds (caches bc) s j" if "s = disk_sector (?c\<lparr>dirty := False\<rparr>)" "j \<noteq> i" for j s
        using that h holds_other [OF assms(1)] by auto
      show "holds (caches bc) s i \<and> length (blk_data ?dev s) = BLOCK_SECTOR_SIZE"
        if "blk_data ?dev s \<noteq> blk_data (fs_device bc) s" for s
        using that h e True by (auto simp: entry_ok_def split: if_splits)
      show "buffer (?c\<lparr>dirty := False\<rparr>) = view bc (disk_sector (?c\<lparr>dirty := False\<rparr>))"
        using view_hit [OF assms(1) h] by simp
      show "(\<not> is_free (?c\<lparr>dirty := False\<rparr>) \<and> disk_sector (?c\<lparr>dirty := False\<rparr>) = s) \<or> blk_data ?dev s = view bc s"
        if "holds (caches bc) s i" for s using that True by (simp add: holds_def)
    qed
    ultimately show ?thesis using h len assms(2) by (auto simp: put_def)
  next
    case False
    then have "\<not> dirty ?c" using e by (auto simp: entry_ok_def split: if_splits)
    then show ?thesis using assms False by (auto simp: buffer_cache_flush_def keeps_refl)
  qed
qed

lemma evict_spec:
  assumes "cache_ok bc" and "cache_lock bc"
  shows "\<exists>i bc'. buffer_cache_evict bc = Inr (i, bc') \<and> keeps bc bc' \<and> i < CACHE_CNT \<and> is_free (caches bc' ! i)
     \<and> (\<forall>s j. holds (caches bc') s j \<longrightarrow> holds (caches bc) s j)"
proof (cases "free_loop 0 (caches bc)")
  case (Some i)
  then show ?thesis
    using free_loop_Some [OF Some] assms(1) keeps_refl [OF assms(1)]
    by (auto simp: buffer_cache_evict_def cache_ok_def)
next
  case None
  define i where "i = lru_loop 0 (caches bc) INT64_MAX 0"
  have len: "length (caches bc) = CACHE_CNT" using assms(1) by (simp add: cache_ok_def)
  have i: "i < CACHE_CNT" using lru_loop_less [of 0 0 "caches bc"] len by (simp add: i_def CACHE_CNT_def)
  obtain bc1 where bc1: "(if dirty (caches bc ! i) then buffer_cache_flush i bc else Inr bc) = Inr bc1"
    "keeps bc bc1" "\<not> dirty (caches bc1 ! i)" "\<And>s j. holds (caches bc1) s j \<longleftrightarrow> holds (caches bc) s j"
  proof (cases "dirty (caches bc ! i)")
    case True
    obtain b where b: "buffer_cache_flush i bc = Inr b" "keeps bc b" "\<forall>j. j \<noteq> i \<longrightarrow> caches b ! j = caches bc ! j"
      "caches b ! i = (caches bc ! i)\<lparr>dirty := False\<rparr>"
      using flush_spec [OF assms(1) i assms(2)] by blast
    have lb: "length (caches b) = CACHE_CNT" using b(2) by (simp add: keeps_def cache_ok_def)
    have h: "holds (caches b) s j \<longleftrightarrow> holds (caches bc) s j" for s j
      using b(3,4) len lb by (cases "j = i") (simp_all add: holds_def)
    show ?thesis by (rule that [of b]) (use True b h in simp_all)
  next
    case False
    show ?thesis by (rule that [of bc]) (use False keeps_refl [OF assms(1)] in simp_all)
  qed
  let ?c = "(caches bc1 ! i)\<lparr>is_free := True, dirty := False\<rparr>" and ?dev = "fs_device bc1"
  have ok1: "cache_ok bc1" using bc1(2) by (simp add: keeps_def)
  have k: "keeps bc1 (put i ?c ?dev bc1)"
  proof (rule keeps_put [OF ok1 i])
    fix s assume s: "holds (caches bc1) s i"
    have "entry_ok ?dev (caches bc1 ! i)" using ok1 i by (rule entry_at)
    then have "buffer (caches bc1 ! i) = blk_data ?dev s" using s bc1(3) by (auto simp: entry_ok_def holds_def)
    then show "(\<not> is_free ?c \<and> disk_sector ?c = s) \<or> blk_data ?dev s = view bc1 s"
      using view_hit [OF ok1 s] by simp
  qed (simp_all add: same_shape_def entry_ok_def)
  have "buffer_cache_evict bc = bind_res (if dirty (caches bc ! i) then buffer_cache_flush i bc else Inr bc)
      (\<lambda>bc. Inr (i, set_cache i (\<lambda>c. c\<lparr>is_free := True, dirty := False\<rparr>) bc))"
    by (simp only: buffer_cache_evict_def None option.case Let_def i_def)
  then have "buffer_cache_evict bc = Inr (i, put i ?c ?dev bc1)"
    by (simp only: bc1(1) bind_res.simps set_cache_put)
  moreover have "holds (caches (put i ?c ?dev bc1)) s j \<longrightarrow> holds (caches bc) s j" for s j
    using holds_put [of bc1 i ?c ?dev s j] ok1 i bc1(4) by (auto simp: cache_ok_def)
  moreover have "is_free (caches (put i ?c ?dev bc1) ! i)" using ok1 i by (simp add: put_def cache_ok_def)
  ultimately show ?thesis using keeps_trans [OF bc1(2) k] i by blast
qed

lemma slot_spec:
  assumes "cache_ok bc" and "cache_lock bc" and "s < sectors bc"
  shows "\<exists>i bc'. buffer_cache_slot s bc = Inr (i, bc') \<and> keeps bc bc' \<and> i < CACHE_CNT \<and> holds (caches bc') s i"
proof (cases "buffer_cache_lookup s bc")
  case (Some i)
  then show ?thesis
    using lookup_loop_Some [of s 0 "caches bc" i] keeps_refl [OF assms(1)] assms(1)
    by (auto simp: buffer_cache_slot_def buffer_cache_lookup_def holds_def cache_ok_def)
next
  case None
  have none: "\<not> holds (caches bc) s j" for j using None by (simp add: buffer_cache_lookup_def lookup_loop_None)
  obtain i b where b: "buffer_cache_evict bc = Inr (i, b)" "keeps bc b" "i < CACHE_CNT" "is_free (caches b ! i)"
    "\<And>s j. holds (caches b) s j \<Longrightarrow> holds (caches bc) s j"
    using evict_spec [OF assms(1,2)] by blast
  have ok: "cache_ok b" "sectors b = sectors bc" using b(2) by (auto simp: keeps_def same_shape_def sectors_def)
  let ?d = "blk_data (fs_device b) s"
  let ?dev = "(fs_device b)\<lparr>read_cnt := read_cnt (fs_device b) + 1\<rparr>"
  let ?c = "(caches b ! i)\<lparr>is_free := False, disk_sector := s, dirty := False, buffer := ?d\<rparr>"
  have len: "length (caches b) = CACHE_CNT" using ok by (simp add: cache_ok_def)
  have r: "block_read (fs_device b) s = Inr (?d, ?dev)"
    using ok assms(3) by (intro block_read_ok) (simp add: sectors_def)
  have e: "buffer_cache_slot s bc = Inr (i, put i ?c ?dev b)"
    using None b(1,3,4) r len by (simp add: buffer_cache_slot_def set_cache_def put_def Let_def)
  have k: "keeps b (put i ?c ?dev b)"
  proof (rule keeps_put [OF ok(1) b(3)])
    show "entry_ok ?dev ?c" using ok assms(3) by (simp add: entry_ok_def cache_ok_def sectors_def)
    show "\<not> holds (caches b) t j" if "t = disk_sector ?c" for t j using that b(5) none by auto
    have "view b s = ?d" using view_miss b(5) none by blast
    then show "buffer ?c = view b (disk_sector ?c)" by simp
  qed (use b(4) in \<open>auto simp: same_shape_def holds_def\<close>)
  have "holds (caches (put i ?c ?dev b)) s i" using holds_put [OF len b(3)] by simp
  then show ?thesis using e keeps_trans [OF b(2) k] b(3) by blast
qed

text \<open>Writing the time stamp of an entry.\<close>

lemma keeps_touch:
  assumes "cache_ok bc" and "i < CACHE_CNT"
  shows "keeps bc (set_cache i (\<lambda>c. c\<lparr>time_stamp := t\<rparr>) bc)"
  unfolding set_cache_put
proof (rule keeps_put [OF assms])
  let ?c = "(caches bc ! i)\<lparr>time_stamp := t\<rparr>"
  show "entry_ok (fs_device bc) ?c" using entry_at [OF assms] by (simp add: entry_ok_def)
  show "\<not> holds (caches bc) s j" if "\<not> is_free ?c" "s = disk_sector ?c" "j \<noteq> i" for j s
    using that holds_self [OF assms] holds_other [OF assms(1), of s i j] by auto
  show "buffer ?c = view bc (disk_sector ?c)" if "\<not> is_free ?c"
    using that holds_self [OF assms] view_hit [OF assms(1), of "disk_sector (caches bc ! i)" i] by auto
qed (use holds_self [OF assms] in \<open>auto simp: same_shape_def\<close>)

lemma keeps_now: "cache_ok bc \<Longrightarrow> keeps bc (snd (now_ticks bc))"
  by (simp add: keeps_def now_ticks_def same_shape_def cache_ok_def view_def buffer_cache_lookup_def fun_eq_iff split: option.splits)

lemma caches_now [simp]: "caches (snd (now_ticks bc)) = caches bc" "cache_lock (snd (now_ticks bc)) = cache_lock bc"
  by (simp_all add: now_ticks_def)

text \<open>Taking and releasing the lock changes nothing else.\<close>

lemma cache_ok_lock [simp]: "cache_ok (bc\<lparr>cache_lock := b\<rparr>) = cache_ok bc"
  by (simp add: cache_ok_def)

lemma view_lock [simp]: "view (bc\<lparr>cache_lock := b\<rparr>) = view bc"
  by (simp add: view_def buffer_cache_lookup_def fun_eq_iff split: option.splits)

lemma sectors_lock [simp]: "sectors (bc\<lparr>cache_lock := b\<rparr>) = sectors bc"
  by (simp add: sectors_def)

lemma sectors_keeps: "keeps bc bc' \<Longrightarrow> sectors bc' = sectors bc"
  by (simp add: keeps_def same_shape_def sectors_def)

text \<open>What holds between the calls: the invariant, and the lock is free.\<close>

definition cache_idle :: "buffer_cache \<Rightarrow> bool" where
  "cache_idle bc \<longleftrightarrow> cache_ok bc \<and> \<not> cache_lock bc"

lemma read_spec:
  assumes "cache_idle bc" and "s < sectors bc"
  shows "\<exists>bc'. buffer_cache_read s bc = Inr (view bc s, bc') \<and> cache_idle bc' \<and> view bc' = view bc \<and> sectors bc' = sectors bc"
proof -
  let ?l = "bc\<lparr>cache_lock := True\<rparr>"
  have ok: "cache_ok ?l" "\<not> cache_lock bc" using assms(1) by (simp_all add: cache_idle_def)
  obtain i b where b: "buffer_cache_slot s ?l = Inr (i, b)" "keeps ?l b" "i < CACHE_CNT" "holds (caches b) s i"
    using slot_spec [OF ok(1), of s] assms(2) by auto
  let ?n = "snd (now_ticks b)" and ?t = "fst (now_ticks b)"
  let ?u = "set_cache i (\<lambda>c. c\<lparr>time_stamp := ?t\<rparr>) ?n"
  have okb: "cache_ok b" using b(2) by (simp add: keeps_def)
  have okn: "cache_ok ?n" using keeps_now [OF okb] by (simp add: keeps_def)
  have "keeps ?l ?u" using keeps_trans [OF keeps_trans [OF b(2) keeps_now [OF okb]] keeps_touch [OF okn b(3)]] .
  then have u: "cache_ok ?u" "view ?u = view bc" "cache_lock ?u" "sectors ?u = sectors bc"
    by (auto simp: keeps_def same_shape_def sectors_def)
  have "buffer (caches ?u ! i) = view bc s"
    using view_hit [OF okb b(4)] b(2,3) okn by (simp add: set_cache_def keeps_def cache_ok_def)
  then have "buffer_cache_read s bc = Inr (view bc s, ?u\<lparr>cache_lock := False\<rparr>)"
    using ok b(1) u(3) by (simp add: buffer_cache_read_def lock_cache_def unlock_cache_def case_prod_beta Let_def)
  then show ?thesis using u by (auto simp: cache_idle_def)
qed

text \<open>A live entry is overwritten and becomes dirty.\<close>

lemma store_spec:
  assumes "cache_ok bc" and "holds (caches bc) s i" and "length d = BLOCK_SECTOR_SIZE"
  shows "cache_ok (set_cache i (\<lambda>c. c\<lparr>dirty := True, time_stamp := t, buffer := d\<rparr>) bc)"
    and "view (set_cache i (\<lambda>c. c\<lparr>dirty := True, time_stamp := t, buffer := d\<rparr>) bc) = (view bc)(s := d)"
proof -
  let ?c = "(caches bc ! i)\<lparr>dirty := True, time_stamp := t, buffer := d\<rparr>"
  have i: "i < CACHE_CNT" using assms(1,2) by (simp add: holds_def cache_ok_def)
  have c: "\<not> is_free ?c" "disk_sector ?c = s" using assms(2) by (auto simp: holds_def)
  show ok: "cache_ok (set_cache i (\<lambda>c. c\<lparr>dirty := True, time_stamp := t, buffer := d\<rparr>) bc)"
    unfolding set_cache_put
  proof (rule cache_ok_put [OF assms(1) i])
    show "entry_ok (fs_device bc) ?c"
      using entry_at [OF assms(1) i] c assms(3) by (simp add: entry_ok_def)
    show "\<not> holds (caches bc) u j" if "u = disk_sector ?c" "j \<noteq> i" for j u
      using that c holds_other [OF assms(1,2)] by auto
  qed (simp_all add: same_shape_def)
  have "view (set_cache i (\<lambda>c. c\<lparr>dirty := True, time_stamp := t, buffer := d\<rparr>) bc) u = ((view bc)(s := d)) u" for u
    using view_put [OF assms(1) ok [unfolded set_cache_put] i, of u] c assms(2)
    by (auto simp: set_cache_put holds_def)
  then show "view (set_cache i (\<lambda>c. c\<lparr>dirty := True, time_stamp := t, buffer := d\<rparr>) bc) = (view bc)(s := d)"
    by (rule ext)
qed

lemma set_cache_now:
  "set_cache i f (snd (now_ticks bc)) = snd (now_ticks (set_cache i f bc))"
  by (simp add: set_cache_def now_ticks_def)

lemma set_cache_set_cache:
  "i < length (caches bc) \<Longrightarrow> set_cache i f (set_cache i g bc) = set_cache i (f \<circ> g) bc"
  by (simp add: set_cache_def)

lemma write_spec:
  assumes "cache_idle bc" and "s < sectors bc" and "length d = BLOCK_SECTOR_SIZE"
  shows "\<exists>bc'. buffer_cache_write s d bc = Inr bc' \<and> cache_idle bc' \<and> view bc' = (view bc)(s := d) \<and> sectors bc' = sectors bc"
proof -
  let ?l = "bc\<lparr>cache_lock := True\<rparr>"
  have ok: "cache_ok ?l" "\<not> cache_lock bc" using assms(1) by (simp_all add: cache_idle_def)
  obtain i b where b: "buffer_cache_slot s ?l = Inr (i, b)" "keeps ?l b" "i < CACHE_CNT" "holds (caches b) s i"
    using slot_spec [OF ok(1), of s] assms(2) by auto
  have okb: "cache_ok b" "view b = view bc" "sectors b = sectors bc" "cache_lock b"
    using b(2) by (auto simp: keeps_def same_shape_def sectors_def)
  define t where "t = clock b 0"
  define u where "u = set_cache i (\<lambda>c. c\<lparr>dirty := True, time_stamp := t, buffer := d\<rparr>) b"
  note st = store_spec [OF okb(1) b(4) assms(3), of t, folded u_def]
  have len: "i < length (caches b)" using okb(1) b(3) by (simp add: cache_ok_def)
  let ?v = "set_cache i (\<lambda>c. c\<lparr>buffer := d\<rparr>) (set_cache i (\<lambda>c. c\<lparr>time_stamp := t\<rparr>)
      (snd (now_ticks (set_cache i (\<lambda>c. c\<lparr>dirty := True\<rparr>) b))))"
  have v: "?v = snd (now_ticks u)"
    using len by (simp add: set_cache_now u_def set_cache_set_cache comp_def)
  have k: "keeps u (snd (now_ticks u))" using keeps_now [OF st(1)] .
  have lu: "cache_lock u" "sectors u = sectors bc" using okb by (simp_all add: u_def set_cache_def sectors_def)
  have "buffer_cache_write s d bc = unlock_cache ?v"
    using ok b(1) by (simp add: buffer_cache_write_def lock_cache_def Let_def case_prod_beta)
      (simp add: now_ticks_def t_def set_cache_def)
  then have "buffer_cache_write s d bc = Inr ((snd (now_ticks u))\<lparr>cache_lock := False\<rparr>)"
    unfolding v using lu(1) by (simp add: unlock_cache_def)
  then show ?thesis using k st(2) okb(2) lu(2) sectors_keeps [OF k] by (auto simp: cache_idle_def keeps_def)
qed

text \<open>Closing writes back every dirty entry, so that the device holds the contents.\<close>

lemma close_loop_spec:
  assumes "cache_ok bc" and "cache_lock bc" and "i + k = CACHE_CNT"
    and "\<And>j. j < i \<Longrightarrow> \<not> dirty (caches bc ! j)"
  shows "\<exists>bc'. close_loop i k bc = Inr bc' \<and> keeps bc bc' \<and> (\<forall>j<CACHE_CNT. \<not> dirty (caches bc' ! j))"
  using assms
proof (induction k arbitrary: i bc)
  case 0
  then show ?case by (simp add: keeps_refl)
next
  case (Suc k)
  have i: "i < CACHE_CNT" using Suc.prems(3) by simp
  obtain b where b: "buffer_cache_flush i bc = Inr b" "keeps bc b" "\<forall>j. j \<noteq> i \<longrightarrow> caches b ! j = caches bc ! j"
    "caches b ! i = (caches bc ! i)\<lparr>dirty := False\<rparr>"
    using flush_spec [OF Suc.prems(1) i Suc.prems(2)] by blast
  have "\<exists>bc'. close_loop (Suc i) k b = Inr bc' \<and> keeps b bc' \<and> (\<forall>j<CACHE_CNT. \<not> dirty (caches bc' ! j))"
  proof (rule Suc.IH)
    show "\<not> dirty (caches b ! j)" if "j < Suc i" for j using that b(3,4) Suc.prems(4) by (cases "j = i") auto
  qed (use b(2) Suc.prems in \<open>auto simp: keeps_def\<close>)
  then obtain b' where b': "close_loop (Suc i) k b = Inr b'" "keeps b b'" "\<forall>j<CACHE_CNT. \<not> dirty (caches b' ! j)"
    by blast
  have "close_loop i (Suc k) bc = Inr b'"
  proof (cases "is_free (caches bc ! i)")
    case True
    then have "b = bc" using b(1) Suc.prems(2) by (simp add: buffer_cache_flush_def)
    then show ?thesis using True b' by simp
  next
    case False
    then show ?thesis using b(1) b'(1) by simp
  qed
  then show ?case using keeps_trans [OF b(2) b'(2)] b'(3) by blast
qed

lemma clean_device:
  assumes "cache_ok bc" and "\<forall>j<CACHE_CNT. \<not> dirty (caches bc ! j)"
  shows "blk_data (fs_device bc) s = view bc s"
proof (cases rule: view_cases [OF assms(1), of s, case_names hit miss])
  case (hit i)
  then show ?thesis using assms entry_at [of bc i] by (auto simp: holds_def entry_ok_def cache_ok_def)
qed simp

lemma close_spec:
  assumes "cache_idle bc"
  shows "\<exists>bc'. buffer_cache_close bc = Inr bc' \<and> cache_idle bc' \<and> view bc' = view bc \<and> sectors bc' = sectors bc
     \<and> blk_data (fs_device bc') = view bc"
proof -
  let ?l = "bc\<lparr>cache_lock := True\<rparr>"
  have ok: "cache_ok ?l" "\<not> cache_lock bc" using assms(1) by (simp_all add: cache_idle_def)
  obtain b where b: "close_loop 0 CACHE_CNT ?l = Inr b" "keeps ?l b" "\<forall>j<CACHE_CNT. \<not> dirty (caches b ! j)"
    using close_loop_spec [OF ok(1), of 0 CACHE_CNT] by auto
  have kb: "cache_ok b" "cache_lock b" "view b = view bc" "sectors b = sectors bc"
    using b(2) by (auto simp: keeps_def same_shape_def sectors_def)
  have "buffer_cache_close bc = Inr (b\<lparr>cache_lock := False\<rparr>)"
    using ok b(1) kb(2) by (simp add: buffer_cache_close_def lock_cache_def unlock_cache_def)
  moreover have "blk_data (fs_device b) = view bc" using clean_device [OF kb(1) b(3)] kb(3) by (auto intro: ext)
  ultimately show ?thesis using kb by (auto simp: cache_idle_def)
qed

section \<open>The cache as an array of sectors\<close>

text \<open>
  What the file system relies on: an array of sectors that can be read and written. The locale
  shows that any sequence of accesses to such a store gives the results of a plain array.
\<close>

datatype sector_op = Read_sector nat | Write_sector nat "byte list"

fun sector_op_ok :: "nat \<Rightarrow> sector_op \<Rightarrow> bool" where
  "sector_op_ok n (Read_sector i) \<longleftrightarrow> i < n"
| "sector_op_ok n (Write_sector i d) \<longleftrightarrow> i < n \<and> length d = BLOCK_SECTOR_SIZE"

fun run_array :: "sector_op list \<Rightarrow> (nat \<Rightarrow> byte list) \<Rightarrow> byte list list \<times> (nat \<Rightarrow> byte list)" where
  "run_array [] a = ([], a)"
| "run_array (Read_sector i # ops) a = (let (outs, a') = run_array ops a in (a i # outs, a'))"
| "run_array (Write_sector i d # ops) a = run_array ops (a(i := d))"

fun run_store :: "(nat \<Rightarrow> 's \<Rightarrow> (byte list \<times> 's) res) \<Rightarrow> (nat \<Rightarrow> byte list \<Rightarrow> 's \<Rightarrow> 's res) \<Rightarrow>
    sector_op list \<Rightarrow> 's \<Rightarrow> (byte list list \<times> 's) res" where
  "run_store rd wr [] s = Inr ([], s)"
| "run_store rd wr (Read_sector i # ops) s =
     bind_res (rd i s) (\<lambda>(d, s). bind_res (run_store rd wr ops s) (\<lambda>(outs, s). Inr (d # outs, s)))"
| "run_store rd wr (Write_sector i d # ops) s = bind_res (wr i d s) (run_store rd wr ops)"

locale sector_store =
  fixes inv :: "'s \<Rightarrow> bool" and cap :: "'s \<Rightarrow> nat" and content :: "'s \<Rightarrow> nat \<Rightarrow> byte list"
    and rd :: "nat \<Rightarrow> 's \<Rightarrow> (byte list \<times> 's) res" and wr :: "nat \<Rightarrow> byte list \<Rightarrow> 's \<Rightarrow> 's res"
  assumes rd_ok: "inv s \<Longrightarrow> i < cap s \<Longrightarrow>
      \<exists>s'. rd i s = Inr (content s i, s') \<and> inv s' \<and> content s' = content s \<and> cap s' = cap s"
    and wr_ok: "inv s \<Longrightarrow> i < cap s \<Longrightarrow> length d = BLOCK_SECTOR_SIZE \<Longrightarrow>
      \<exists>s'. wr i d s = Inr s' \<and> inv s' \<and> content s' = (content s)(i := d) \<and> cap s' = cap s"
begin

lemma run_refines:
  "inv s \<Longrightarrow> list_all (sector_op_ok (cap s)) ops \<Longrightarrow>
   \<exists>outs s'. run_store rd wr ops s = Inr (outs, s') \<and> inv s' \<and> cap s' = cap s
     \<and> run_array ops (content s) = (outs, content s')"
proof (induction ops arbitrary: s)
  case (Cons op ops)
  show ?case
  proof (cases op)
    case (Read_sector i)
    then obtain s1 where s1: "rd i s = Inr (content s i, s1)" "inv s1" "content s1 = content s" "cap s1 = cap s"
      using rd_ok Cons.prems by auto
    then show ?thesis using Cons.IH [OF s1(2)] Cons.prems Read_sector by auto
  next
    case (Write_sector i d)
    then obtain s1 where s1: "wr i d s = Inr s1" "inv s1" "content s1 = (content s)(i := d)" "cap s1 = cap s"
      using wr_ok Cons.prems by fastforce
    then show ?thesis using Cons.IH [OF s1(2)] Cons.prems Write_sector by (auto simp del: fun_upd_apply)
  qed
qed simp

end

interpretation sector_cache: sector_store cache_idle sectors view buffer_cache_read buffer_cache_write
  by unfold_locales (use read_spec write_spec in blast)+

section \<open>Properties\<close>

definition demo_cache :: buffer_cache where
  "demo_cache = \<lparr>caches = replicate 64 \<lparr>is_free = True, dirty = False, time_stamp = 0, disk_sector = 0, buffer = []\<rparr>,
     cache_lock = False,
     fs_device = \<lparr>blk_name = ''hdb1'', blk_type = BLOCK_FILESYS, blk_size = 4096, blk_data = (\<lambda>_. replicate 512 7),
       read_cnt = 0, write_cnt = 0\<rparr>,
     clock = int\<rparr>"

lemma demo_cache_idle: "cache_idle demo_cache" "sectors demo_cache = 4096" "view demo_cache = (\<lambda>_. replicate 512 7)"
proof -
  have n: "\<not> holds (caches demo_cache) s i" for s i by (simp add: demo_cache_def holds_def)
  then show "view demo_cache = (\<lambda>_. replicate 512 7)" using view_miss [of demo_cache] by (simp add: fun_eq_iff) (simp add: demo_cache_def)
  show "cache_idle demo_cache" "sectors demo_cache = 4096"
    using n by (simp_all add: demo_cache_def cache_idle_def cache_ok_def entry_ok_def sectors_def CACHE_CNT_def BLOCK_SECTOR_SIZE_def)
qed

text \<open>
  C7. The buffer cache is transparent. From a consistent cache, every sequence of reads and writes of
  valid sectors succeeds, with whatever evictions and write-backs it takes, and returns exactly
  what the same sequence returns on a plain array of sectors; closing the cache afterwards
  succeeds and leaves precisely that array on the device.
\<close>

theorem buffer_cache_refines_array:
  assumes "cache_idle bc" and "list_all (sector_op_ok (sectors bc)) ops"
  shows "\<exists>outs bc' bc''. run_store buffer_cache_read buffer_cache_write ops bc = Inr (outs, bc') \<and> cache_idle bc'
     \<and> run_array ops (view bc) = (outs, view bc')
     \<and> buffer_cache_close bc' = Inr bc'' \<and> blk_data (fs_device bc'') = view bc'"
proof -
  obtain outs b where b: "run_store buffer_cache_read buffer_cache_write ops bc = Inr (outs, b)" "cache_idle b"
    "run_array ops (view bc) = (outs, view b)"
    using sector_cache.run_refines [OF assms] by blast
  then show ?thesis using close_spec [OF b(2)] by blast
qed

theorem buffer_cache_refines_array_witness:
  "\<exists>outs bc'. run_store buffer_cache_read buffer_cache_write
       [Write_sector 5 (replicate 512 1), Read_sector 9, Read_sector 5] demo_cache = Inr (outs, bc')
     \<and> outs = [replicate 512 7, replicate 512 1]"
proof -
  have "list_all (sector_op_ok (sectors demo_cache)) [Write_sector 5 (replicate 512 1), Read_sector 9, Read_sector 5]"
    by (simp add: demo_cache_idle BLOCK_SECTOR_SIZE_def)
  from buffer_cache_refines_array [OF demo_cache_idle(1) this] show ?thesis
    unfolding demo_cache_idle(3) by auto
qed


definition demo_full :: buffer_cache where
  "demo_full = demo_cache\<lparr>cache_lock := True, caches := map (\<lambda>i. \<lparr>is_free = False, dirty = False,
      time_stamp = int i + 3, disk_sector = i, buffer = replicate 512 7\<rparr>) [0..<64]\<rparr>"


end
