(* ===== verification/Fs_State.thy ===== *)
theory Fs_State
  imports Buffer_Cache Bitmap
begin

text \<open>
  The state of the file system of project 4: the buffer cache, the free map, the inodes, files
  and directories in memory. Objects of the kernel heap are found by address, a missing entry is
  memory that has been freed; \<open>allocs\<close> is the sequence of the addresses that
  \<^verbatim>\<open>malloc\<close> and \<^verbatim>\<open>calloc\<close> will return, null for a failure, and
  \<open>garbage\<close> the sequence of the contents of local directory entries that the code does not initialize. The
  images of the on-disk structures are lists of bytes.
\<close>

section \<open>Structures\<close>

definition INODE_MAGIC :: "32 word" where "INODE_MAGIC = 0x494e4f44"
definition INDIRECT_BLOCKS_PER_SECTOR :: nat where "INDIRECT_BLOCKS_PER_SECTOR = 128"
definition DIRECT_BLOCKS_COUNT :: nat where "DIRECT_BLOCKS_COUNT = (BLOCK_SECTOR_SIZE - 5 * 4) div 4"

lemma DIRECT_BLOCKS_COUNT_value [simp]: "DIRECT_BLOCKS_COUNT = 123"
  by (simp add: DIRECT_BLOCKS_COUNT_def BLOCK_SECTOR_SIZE_def)

record inode_disk =
  direct_blocks :: "nat list"
  indirect_block :: nat
  doubly_indirect_block :: nat
  is_dir :: bool
  flength :: int
  imagic :: "32 word"

record inode =
  sector :: nat
  open_cnt :: int
  removed :: bool
  deny_write_cnt :: int
  data :: inode_disk

record open_file =
  f_inode :: addr
  f_pos :: int
  deny_write :: bool

record dir =
  d_inode :: addr
  d_pos :: int

record dir_entry =
  inode_sector :: nat
  ename :: "byte list"
  in_use :: byte

record fs =
  bc :: buffer_cache
  free_map :: bitmap
  free_map_file :: addr
  inodes :: "addr \<rightharpoonup> inode"
  open_inodes :: "addr list"
  files :: "addr \<rightharpoonup> open_file"
  dirs :: "addr \<rightharpoonup> dir"
  cwd :: addr
  allocs :: "nat \<Rightarrow> addr"
  garbage :: "nat \<Rightarrow> dir_entry"

section \<open>Images\<close>

text \<open>A sector of block numbers, and the layout of \<^verbatim>\<open>struct inode_disk\<close>.\<close>

definition encode_blocks :: "nat list \<Rightarrow> byte list" where
  "encode_blocks bs = le_image32 (map of_nat bs)"

definition decode_blocks :: "byte list \<Rightarrow> nat list" where
  "decode_blocks d = map unat (le_words32 d)"

definition encode_inode :: "inode_disk \<Rightarrow> byte list" where
  "encode_inode d =
     encode_blocks (direct_blocks d @ [indirect_block d, doubly_indirect_block d])
     @ [if is_dir d then 1 else 0, 0, 0, 0] @ le_bytes32 (word_of_int (flength d)) @ le_bytes32 (imagic d)"

definition decode_inode :: "byte list \<Rightarrow> inode_disk" where
  "decode_inode bs =
     (let ws = le_words32 bs in
      \<lparr>direct_blocks = map unat (take DIRECT_BLOCKS_COUNT ws),
       indirect_block = unat (ws ! DIRECT_BLOCKS_COUNT),
       doubly_indirect_block = unat (ws ! (DIRECT_BLOCKS_COUNT + 1)),
       is_dir = (bs ! (4 * (DIRECT_BLOCKS_COUNT + 2)) \<noteq> 0),
       flength = sint (ws ! (DIRECT_BLOCKS_COUNT + 3)),
       imagic = ws ! (DIRECT_BLOCKS_COUNT + 4)\<rparr>)"

definition zeros :: "byte list" where
  "zeros = replicate BLOCK_SECTOR_SIZE 0"

section \<open>Access to the state\<close>

definition malloc :: "fs \<Rightarrow> addr \<times> fs" where
  "malloc s = (allocs s 0, s\<lparr>allocs := (\<lambda>n. allocs s (Suc n))\<rparr>)"

definition get_obj :: "(addr \<rightharpoonup> 'a) \<Rightarrow> addr \<Rightarrow> 'a res" where
  "get_obj h a = (if a = NULL then Inl NullDeref else case h a of None \<Rightarrow> Inl UseAfterFree | Some x \<Rightarrow> Inr x)"

definition set_inode :: "addr \<Rightarrow> (inode \<Rightarrow> inode) \<Rightarrow> fs \<Rightarrow> fs" where
  "set_inode a f s = s\<lparr>inodes := (inodes s)(a := map_option f (inodes s a))\<rparr>"

text \<open>Sector access through the buffer cache.\<close>

definition cread :: "nat \<Rightarrow> fs \<Rightarrow> (byte list \<times> fs) res" where
  "cread i s = bind_res (buffer_cache_read i (bc s)) (\<lambda>(d, b). Inr (d, s\<lparr>bc := b\<rparr>))"

definition cwrite :: "nat \<Rightarrow> byte list \<Rightarrow> fs \<Rightarrow> fs res" where
  "cwrite i d s = bind_res (buffer_cache_write i d (bc s)) (\<lambda>b. Inr (s\<lparr>bc := b\<rparr>))"

section \<open>Round trips\<close>

lemma length_encode_blocks [simp]: "length (encode_blocks bs) = 4 * length bs"
  by (simp add: encode_blocks_def)

lemma length_decode_blocks [simp]: "length (decode_blocks d) = length d div 4"
  by (simp add: decode_blocks_def)

lemma decode_encode_blocks:
  assumes "\<forall>b\<in>set bs. b < 2 ^ 32"
  shows "decode_blocks (encode_blocks bs) = bs"
proof -
  have "map (unat \<circ> (of_nat :: nat \<Rightarrow> 32 word)) bs = bs"
    using assms by (intro map_idI) (simp add: unat_of_nat)
  then show ?thesis by (simp add: decode_blocks_def encode_blocks_def)
qed

lemma decode_blocks_bound: "b \<in> set (decode_blocks d) \<Longrightarrow> b < 2 ^ 32"
  using unsigned_less [where ?'b = 32 and ?'a = nat] by (auto simp: decode_blocks_def)

lemma decode_zeros: "decode_blocks zeros = replicate 128 0"
proof -
  have z: "le_words32 (replicate (4 * n) 0) = replicate n 0" for n
    by (induction n) (simp_all add: le_word32_def eval_nat_numeral)
  show ?thesis using z [of 128] by (simp add: decode_blocks_def zeros_def BLOCK_SECTOR_SIZE_def)
qed

lemma le_words32_append4:
  "length xs = 4 * n \<Longrightarrow> le_words32 (xs @ ys) = le_words32 xs @ le_words32 ys"
proof (induction n arbitrary: xs)
  case (Suc n)
  then obtain a b c d zs where "xs = a # b # c # d # zs" "length zs = 4 * n"
    by (auto simp: length_Suc_conv eval_nat_numeral)
  then show ?case using Suc.IH [of zs] by simp
qed simp

definition wf_disk :: "inode_disk \<Rightarrow> bool" where
  "wf_disk d \<longleftrightarrow> length (direct_blocks d) = DIRECT_BLOCKS_COUNT
     \<and> (\<forall>b\<in>set (direct_blocks d). b < 2 ^ 32) \<and> indirect_block d < 2 ^ 32 \<and> doubly_indirect_block d < 2 ^ 32
     \<and> 0 \<le> flength d \<and> flength d < 2 ^ 31"

lemma length_encode_inode: "wf_disk d \<Longrightarrow> length (encode_inode d) = BLOCK_SECTOR_SIZE"
  by (simp add: encode_inode_def wf_disk_def BLOCK_SECTOR_SIZE_def)

lemma decode_encode_inode:
  assumes "wf_disk d"
  shows "decode_inode (encode_inode d) = d"
proof -
  define bs where "bs = direct_blocks d @ [indirect_block d, doubly_indirect_block d]"
  have l: "length bs = 125" "\<forall>b\<in>set bs. b < 2 ^ 32" using assms by (auto simp: wf_disk_def bs_def)
  have b: "map unat (le_words32 (encode_blocks bs)) = bs"
    using decode_encode_blocks [OF l(2)] by (simp add: decode_blocks_def)
  let ?rest = "[if is_dir d then 1 else 0, 0, 0, 0] @ le_bytes32 (word_of_int (flength d)) @ le_bytes32 (imagic d)"
  have w: "le_words32 (encode_inode d) = le_words32 (encode_blocks bs) @
      [le_word32 [if is_dir d then 1 else 0, 0, 0, 0], word_of_int (flength d), imagic d]"
    using l(1) le_words32_append [of "word_of_int (flength d)" "le_bytes32 (imagic d)"] le_words32_append [of "imagic d" "[]"]
    by (simp add: encode_inode_def bs_def [symmetric] le_words32_append4 [of _ 125])
  have n: "length (le_words32 (encode_blocks bs)) = 125" using l(1) by simp
  have s: "sint (word_of_int (flength d) :: 32 word) = flength d"
    using assms by (simp add: sint_sbintrunc' wf_disk_def signed_take_bit_int_eq_self)
  have u: "unat (le_words32 (encode_blocks bs) ! i) = bs ! i" if "i < 125" for i
    using that n b by (metis nth_map)
  have t: "map unat (take 123 (le_words32 (encode_blocks bs))) = direct_blocks d"
    using assms b by (simp add: take_map [symmetric] bs_def wf_disk_def)
  have f: "encode_inode d ! 500 = (if is_dir d then 1 else 0)"
    using l(1) by (simp add: encode_inode_def bs_def [symmetric] nth_append)
  show ?thesis
    using assms t u [of 123] u [of 124]
    by (simp add: decode_inode_def w f nth_append n s bs_def wf_disk_def)
qed

end
