(* ===== verification/Inode.thy ===== *)
theory Inode
  imports Fs_State
begin

text \<open>
  Inodes, filesys/inode.c, and the allocation of sectors, filesys/free-map.c (project 4). Growing a
  file allocates sectors; allocating a sector saves the free map, which is a file itself and is
  written by the same code. The operations below take the routine that saves the free map as the
  argument \<open>sv\<close>; \<open>save_free_map\<close> closes the recursion with a bound on its depth.
  Every nested call has set one more bit of the free map, so its number of bits is a bound.
\<close>

type_synonym saver = "fs \<Rightarrow> (bool \<times> fs) res"

text \<open>\<open>(block_sector_t) -1\<close>.\<close>

definition NO_SECTOR :: nat where "NO_SECTOR = 2 ^ 32 - 1"

definition c_min :: "int \<Rightarrow> int \<Rightarrow> int" where "c_min a b = (if a < b then a else b)"

definition bytes_to_sectors :: "int \<Rightarrow> nat" where
  "bytes_to_sectors n = nat (cdiv (n + int BLOCK_SECTOR_SIZE - 1) (int BLOCK_SECTOR_SIZE))"

section \<open>Finding the sector of a byte\<close>

text \<open>A buffer from \<^verbatim>\<open>calloc\<close> that is used without a check.\<close>

definition calloc_unchecked :: "fs \<Rightarrow> fs res" where
  "calloc_unchecked s = (let (p, s) = malloc s in if p = NULL then Inl AssertFail else Inr s)"

definition index_to_sector :: "inode_disk \<Rightarrow> int \<Rightarrow> fs \<Rightarrow> (nat \<times> fs) res" where
  "index_to_sector idisk index s =
     (let per_sector = int INDIRECT_BLOCKS_PER_SECTOR; level_limit1 = int DIRECT_BLOCKS_COUNT;
          level_limit2 = level_limit1 + per_sector; level_limit3 = level_limit2 + per_sector * per_sector in
      if index < level_limit1 then
        (if 0 \<le> index then Inr (direct_blocks idisk ! nat index, s) else Inl OutOfBounds)
      else if index < level_limit2 then
        bind_res (calloc_unchecked s) (\<lambda>s.
        bind_res (cread (indirect_block idisk) s) (\<lambda>(d, s).
        Inr (decode_blocks d ! nat (index - level_limit1), s)))
      else if index < level_limit3 then
        let index_first = (index - level_limit2) div per_sector;
            index_second = (index - level_limit2) mod per_sector in
        bind_res (calloc_unchecked s) (\<lambda>s.
        bind_res (cread (doubly_indirect_block idisk) s) (\<lambda>(d, s).
        bind_res (cread (decode_blocks d ! nat index_first) s) (\<lambda>(d, s).
        Inr (decode_blocks d ! nat index_second, s))))
      else Inr (NO_SECTOR, s))"

definition byte_to_sector :: "addr \<Rightarrow> int \<Rightarrow> fs \<Rightarrow> (nat \<times> fs) res" where
  "byte_to_sector inode pos s =
     bind_res (assert_res (inode \<noteq> NULL)) (\<lambda>_.
     bind_res (get_obj (inodes s) inode) (\<lambda>i.
     if pos < 0 \<or> pos \<ge> flength (data i) then Inr (NO_SECTOR, s)
     else index_to_sector (data i) (cdiv pos (int BLOCK_SECTOR_SIZE)) s))"

definition inode_length :: "addr \<Rightarrow> fs \<Rightarrow> int res" where
  "inode_length inode s = bind_res (get_obj (inodes s) inode) (\<lambda>i. Inr (flength (data i)))"

section \<open>Reading\<close>

text \<open>
  One iteration of the loop: the number of bytes copied (zero or less when the loop is left), the
  bytes, whether the bounce buffer exists.
\<close>

definition chunk :: "int \<Rightarrow> int \<Rightarrow> int \<Rightarrow> int" where
  "chunk sz offset len =
     c_min sz (c_min (len - offset) (int BLOCK_SECTOR_SIZE - cmod offset (int BLOCK_SECTOR_SIZE)))"

definition bounce_buffer :: "bool \<Rightarrow> fs \<Rightarrow> bool \<times> fs" where
  "bounce_buffer bounce s = (if bounce then (True, s) else let (p, s) = malloc s in (p \<noteq> NULL, s))"

definition read_chunk :: "addr \<Rightarrow> int \<Rightarrow> int \<Rightarrow> bool \<Rightarrow> fs \<Rightarrow> (int \<times> byte list \<times> bool \<times> fs) res" where
  "read_chunk inode sz offset bounce s =
     bind_res (byte_to_sector inode offset s) (\<lambda>(sector_idx, s).
     bind_res (inode_length inode s) (\<lambda>len.
     let sector_ofs = cmod offset (int BLOCK_SECTOR_SIZE); chunk_size = chunk sz offset len in
     if chunk_size \<le> 0 then Inr (0, [], bounce, s)
     else if sector_ofs = 0 \<and> chunk_size = int BLOCK_SECTOR_SIZE
     then bind_res (cread sector_idx s) (\<lambda>(d, s). Inr (chunk_size, d, bounce, s))
     else let (ok, s) = bounce_buffer bounce s in
       if \<not> ok then Inr (0, [], False, s)
       else bind_res (cread sector_idx s) (\<lambda>(d, s).
            Inr (chunk_size, take (nat chunk_size) (drop (nat sector_ofs) d), True, s))))"

text \<open>The loop collects the bytes that the source stores in the caller's buffer.\<close>

function read_loop :: "addr \<Rightarrow> int \<Rightarrow> int \<Rightarrow> bool \<Rightarrow> byte list \<Rightarrow> fs \<Rightarrow> (byte list \<times> fs) res" where
  "read_loop inode sz offset bounce acc s =
     (if sz > 0 then
        bind_res (read_chunk inode sz offset bounce s) (\<lambda>(chunk_size, d, bounce, s).
        if chunk_size \<le> 0 then Inr (acc, s)
        else read_loop inode (sz - chunk_size) (offset + chunk_size) bounce (acc @ d) s)
      else Inr (acc, s))"
  by pat_completeness auto
termination by (relation "measure (\<lambda>(_, sz, _). nat sz)") auto

declare read_loop.simps [simp del]

definition inode_read_at :: "addr \<Rightarrow> int \<Rightarrow> int \<Rightarrow> fs \<Rightarrow> (byte list \<times> fs) res" where
  "inode_read_at inode sz offset s = read_loop inode sz offset False [] s"

section \<open>Allocating sectors\<close>

definition free_map_allocate :: "saver \<Rightarrow> nat \<Rightarrow> fs \<Rightarrow> (bool \<times> nat \<times> fs) res" where
  "free_map_allocate sv cnt s =
     bind_res (bitmap_scan_and_flip (free_map s) 0 cnt False) (\<lambda>(sec, m).
     let s = s\<lparr>free_map := m\<rparr> in
     if sec \<noteq> BITMAP_ERROR \<and> free_map_file s \<noteq> NULL
     then bind_res (sv s) (\<lambda>(ok, s).
          if ok then Inr (True, sec, s)
          else bind_res (bitmap_set_multiple (free_map s) sec cnt False) (\<lambda>m.
               Inr (False, BITMAP_ERROR, s\<lparr>free_map := m\<rparr>)))
     else Inr (sec \<noteq> BITMAP_ERROR, sec, s))"

definition free_map_release :: "saver \<Rightarrow> nat \<Rightarrow> nat \<Rightarrow> fs \<Rightarrow> fs res" where
  "free_map_release sv sec cnt s =
     bind_res (bitmap_all (free_map s) sec cnt) (\<lambda>all.
     bind_res (assert_res all) (\<lambda>_.
     bind_res (bitmap_set_multiple (free_map s) sec cnt False) (\<lambda>m.
     bind_res (sv (s\<lparr>free_map := m\<rparr>)) (\<lambda>(_, s). Inr s))))"

definition inode_reserve_direct :: "saver \<Rightarrow> nat \<Rightarrow> fs \<Rightarrow> (bool \<times> nat \<times> fs) res" where
  "inode_reserve_direct sv entry s =
     (if entry = 0 then
        bind_res (free_map_allocate sv 1 s) (\<lambda>(ok, sec, s).
        if \<not> ok then Inr (False, entry, s)
        else bind_res (cwrite sec zeros s) (\<lambda>s. Inr (True, sec, s)))
      else Inr (True, entry, s))"

text \<open>The loop over the entries of an index sector; \<open>child\<close> reserves one entry.\<close>

fun reserve_loop :: "(nat \<Rightarrow> nat \<Rightarrow> fs \<Rightarrow> (bool \<times> nat \<times> fs) res) \<Rightarrow> nat \<Rightarrow> nat \<Rightarrow> nat \<Rightarrow> nat \<Rightarrow> nat list \<Rightarrow> fs \<Rightarrow>
    (bool \<times> nat list \<times> fs) res" where
  "reserve_loop child level_unit i 0 num_sectors blocks s = Inr (True, blocks, s)"
| "reserve_loop child level_unit i (Suc k) num_sectors blocks s =
     (if i \<ge> length blocks then Inl OutOfBounds
      else let l = min num_sectors level_unit in
        bind_res (child (blocks ! i) l s) (\<lambda>(ok, entry, s).
        if \<not> ok then Inr (False, blocks[i := entry], s)
        else reserve_loop child level_unit (Suc i) k (num_sectors - l) (blocks[i := entry]) s))"

fun inode_reserve_indirect :: "saver \<Rightarrow> nat \<Rightarrow> nat \<Rightarrow> nat \<Rightarrow> fs \<Rightarrow> (bool \<times> nat \<times> fs) res" where
  "inode_reserve_indirect sv 0 entry num_sectors s = inode_reserve_direct sv entry s"
| "inode_reserve_indirect sv (Suc level) entry num_sectors s =
     bind_res
       (if entry = 0 then
          bind_res (free_map_allocate sv 1 s) (\<lambda>(ok, sec, s).
          let entry = (if ok then sec else entry) in
          bind_res (cwrite entry zeros s) (\<lambda>s. Inr (entry, s)))
        else Inr (entry, s)) (\<lambda>(entry, s).
     bind_res (cread entry s) (\<lambda>(d, s).
     let level_unit = (if level = 0 then 1 else INDIRECT_BLOCKS_PER_SECTOR) in
     bind_res (reserve_loop (\<lambda>e n s. inode_reserve_indirect sv level e n s) level_unit 0
         (DIV_ROUND_UP num_sectors level_unit) num_sectors (decode_blocks d) s) (\<lambda>(ok, blocks, s).
     if \<not> ok then Inr (False, entry, s)
     else bind_res (cwrite entry (encode_blocks blocks) s) (\<lambda>s. Inr (True, entry, s)))))"

text \<open>The loop over the direct blocks.\<close>

fun reserve_direct_loop :: "saver \<Rightarrow> nat \<Rightarrow> nat \<Rightarrow> nat list \<Rightarrow> fs \<Rightarrow> (bool \<times> nat list \<times> fs) res" where
  "reserve_direct_loop sv i 0 blocks s = Inr (True, blocks, s)"
| "reserve_direct_loop sv i (Suc k) blocks s =
     (if blocks ! i = 0 then
        bind_res (inode_reserve_direct sv (blocks ! i) s) (\<lambda>(ok, entry, s).
        if \<not> ok then Inr (False, blocks[i := entry], s)
        else reserve_direct_loop sv (Suc i) k (blocks[i := entry]) s)
      else reserve_direct_loop sv (Suc i) k blocks s)"

definition inode_reserve :: "saver \<Rightarrow> inode_disk \<Rightarrow> int \<Rightarrow> fs \<Rightarrow> (bool \<times> inode_disk \<times> fs) res" where
  "inode_reserve sv d len s =
     (if len < 0 then Inr (False, d, s)
      else
        let sectors_to_reserve = bytes_to_sectors len;
            level_rest = min sectors_to_reserve DIRECT_BLOCKS_COUNT in
        bind_res (reserve_direct_loop sv 0 level_rest (direct_blocks d) s) (\<lambda>(ok, blocks, s).
        let d = d\<lparr>direct_blocks := blocks\<rparr>; sectors_to_reserve = sectors_to_reserve - level_rest in
        if \<not> ok then Inr (False, d, s)
        else if sectors_to_reserve = 0 then Inr (True, d, s)
        else
          let level_rest = min sectors_to_reserve INDIRECT_BLOCKS_PER_SECTOR in
          bind_res (inode_reserve_indirect sv 1 (indirect_block d) level_rest s) (\<lambda>(ok, entry, s).
          let d = d\<lparr>indirect_block := entry\<rparr>; sectors_to_reserve = sectors_to_reserve - level_rest in
          if \<not> ok then Inr (False, d, s)
          else if sectors_to_reserve = 0 then Inr (True, d, s)
          else
            let level_rest = min sectors_to_reserve (INDIRECT_BLOCKS_PER_SECTOR * INDIRECT_BLOCKS_PER_SECTOR) in
            bind_res (inode_reserve_indirect sv 2 (doubly_indirect_block d) level_rest s) (\<lambda>(ok, entry, s).
            let d = d\<lparr>doubly_indirect_block := entry\<rparr>; sectors_to_reserve = sectors_to_reserve - level_rest in
            if \<not> ok then Inr (False, d, s)
            else Inr (sectors_to_reserve = 0, d, s)))))"

section \<open>Writing\<close>

definition write_chunk :: "addr \<Rightarrow> byte list \<Rightarrow> int \<Rightarrow> int \<Rightarrow> bool \<Rightarrow> fs \<Rightarrow> (int \<times> bool \<times> fs) res" where
  "write_chunk inode buf sz offset bounce s =
     bind_res (byte_to_sector inode offset s) (\<lambda>(sector_idx, s).
     bind_res (inode_length inode s) (\<lambda>len.
     let sector_ofs = cmod offset (int BLOCK_SECTOR_SIZE);
         sector_left = int BLOCK_SECTOR_SIZE - sector_ofs;
         chunk_size = chunk sz offset len in
     if chunk_size \<le> 0 then Inr (0, bounce, s)
     else if sector_ofs = 0 \<and> chunk_size = int BLOCK_SECTOR_SIZE
     then bind_res (cwrite sector_idx (take BLOCK_SECTOR_SIZE buf) s) (\<lambda>s. Inr (chunk_size, bounce, s))
     else let (ok, s) = bounce_buffer bounce s in
       if \<not> ok then Inr (0, False, s)
       else bind_res (if sector_ofs > 0 \<or> chunk_size < sector_left then cread sector_idx s else Inr (zeros, s)) (\<lambda>(d, s).
            let d = take (nat sector_ofs) d @ take (nat chunk_size) buf @ drop (nat (sector_ofs + chunk_size)) d in
            bind_res (cwrite sector_idx d s) (\<lambda>s. Inr (chunk_size, True, s)))))"

text \<open>\<open>buf\<close> is the part of the caller's buffer that is still to be written.\<close>

function write_loop :: "addr \<Rightarrow> byte list \<Rightarrow> int \<Rightarrow> int \<Rightarrow> bool \<Rightarrow> int \<Rightarrow> fs \<Rightarrow> (int \<times> fs) res" where
  "write_loop inode buf sz offset bounce bytes_written s =
     (if sz > 0 then
        bind_res (write_chunk inode buf sz offset bounce s) (\<lambda>(chunk_size, bounce, s).
        if chunk_size \<le> 0 then Inr (bytes_written, s)
        else write_loop inode (drop (nat chunk_size) buf) (sz - chunk_size) (offset + chunk_size) bounce
               (bytes_written + chunk_size) s)
      else Inr (bytes_written, s))"
  by pat_completeness auto
termination by (relation "measure (\<lambda>(_, _, sz, _). nat sz)") auto

declare write_loop.simps [simp del]

text \<open>\<open>inode_reserve\<close> changes the inode in memory also when it fails.\<close>

definition inode_write :: "saver \<Rightarrow> addr \<Rightarrow> byte list \<Rightarrow> int \<Rightarrow> int \<Rightarrow> fs \<Rightarrow> (int \<times> fs) res" where
  "inode_write sv inode buf sz offset s =
     bind_res (get_obj (inodes s) inode) (\<lambda>i.
     if deny_write_cnt i \<noteq> 0 then Inr (0, s)
     else
       bind_res (byte_to_sector inode (offset + sz - 1) s) (\<lambda>(sec, s).
       bind_res
         (if sec = NO_SECTOR then
            bind_res (inode_reserve sv (data i) (offset + sz) s) (\<lambda>(ok, d, s).
            let s = set_inode inode (\<lambda>i. i\<lparr>data := d\<rparr>) s in
            if \<not> ok then Inr (False, s)
            else
              let s = set_inode inode (\<lambda>i. i\<lparr>data := d\<lparr>flength := offset + sz\<rparr>\<rparr>) s in
              bind_res (cwrite (sector i) (encode_inode (d\<lparr>flength := offset + sz\<rparr>)) s) (\<lambda>s. Inr (True, s)))
          else Inr (True, s)) (\<lambda>(ok, s).
       if \<not> ok then Inr (0, s) else write_loop inode buf sz offset False 0 s)))"

text \<open>
  \<^verbatim>\<open>bitmap_write (free_map, free_map_file)\<close>, through \<^verbatim>\<open>file_write_at\<close>, with at
  most \<open>n\<close> nested calls.
\<close>

fun save_free_map :: "nat \<Rightarrow> saver" where
  "save_free_map 0 s = Inl NoReturn"
| "save_free_map (Suc n) s =
     bind_res (get_obj (files s) (free_map_file s)) (\<lambda>f.
     let img = fst (bitmap_write (free_map s) 0) in
     bind_res (inode_write (save_free_map n) (f_inode f) img (int (byte_cnt (bit_cnt (free_map s)))) 0 s) (\<lambda>(written, s).
     Inr (snd (bitmap_write (free_map s) (nat written)), s)))"

definition save :: saver where
  "save s = save_free_map (Suc (bit_cnt (free_map s))) s"

definition inode_write_at :: "addr \<Rightarrow> byte list \<Rightarrow> int \<Rightarrow> int \<Rightarrow> fs \<Rightarrow> (int \<times> fs) res" where
  "inode_write_at inode buf sz offset s = inode_write save inode buf sz offset s"

section \<open>Creating, opening and closing\<close>

definition inode_init :: "fs \<Rightarrow> fs" where
  "inode_init s = s\<lparr>open_inodes := []\<rparr>"

definition inode_create :: "nat \<Rightarrow> int \<Rightarrow> bool \<Rightarrow> fs \<Rightarrow> (bool \<times> fs) res" where
  "inode_create sec len isdir s =
     bind_res (assert_res (len \<ge> 0)) (\<lambda>_.
     let (p, s) = malloc s in
     if p = NULL then Inr (False, s)
     else
       let d = \<lparr>direct_blocks = replicate DIRECT_BLOCKS_COUNT 0, indirect_block = 0, doubly_indirect_block = 0,
                is_dir = isdir, flength = len, imagic = INODE_MAGIC\<rparr> in
       bind_res (inode_reserve save d len s) (\<lambda>(ok, d, s).
       if ok then bind_res (cwrite sec (encode_inode d) s) (\<lambda>s. Inr (True, s)) else Inr (False, s)))"

definition inode_reopen :: "addr \<Rightarrow> fs \<Rightarrow> (addr \<times> fs) res" where
  "inode_reopen inode s =
     (if inode = NULL then Inr (inode, s)
      else bind_res (get_obj (inodes s) inode) (\<lambda>_.
           Inr (inode, set_inode inode (\<lambda>i. i\<lparr>open_cnt := open_cnt i + 1\<rparr>) s)))"

fun find_open :: "(addr \<rightharpoonup> inode) \<Rightarrow> nat \<Rightarrow> addr list \<Rightarrow> addr option res" where
  "find_open h sec [] = Inr None"
| "find_open h sec (a # as) =
     bind_res (get_obj h a) (\<lambda>i. if sector i = sec then Inr (Some a) else find_open h sec as)"

definition inode_open :: "nat \<Rightarrow> fs \<Rightarrow> (addr \<times> fs) res" where
  "inode_open sec s =
     bind_res (find_open (inodes s) sec (open_inodes s)) (\<lambda>r.
     case r of
       Some a \<Rightarrow> inode_reopen a s
     | None \<Rightarrow>
         let (a, s) = malloc s in
         if a = NULL then Inr (NULL, s)
         else
           let s = s\<lparr>open_inodes := a # open_inodes s\<rparr> in
           bind_res (cread sec s) (\<lambda>(d, s).
           Inr (a, s\<lparr>inodes := (inodes s)(a \<mapsto> \<lparr>sector = sec, open_cnt = 1, removed = False,
                     deny_write_cnt = 0, data = decode_inode d\<rparr>)\<rparr>)))"

definition inode_get_inumber :: "addr \<Rightarrow> fs \<Rightarrow> nat res" where
  "inode_get_inumber inode s = bind_res (get_obj (inodes s) inode) (\<lambda>i. Inr (sector i))"

fun unreserve_loop :: "(nat \<Rightarrow> nat \<Rightarrow> fs \<Rightarrow> fs res) \<Rightarrow> nat \<Rightarrow> nat \<Rightarrow> nat \<Rightarrow> nat \<Rightarrow> nat list \<Rightarrow> fs \<Rightarrow> fs res" where
  "unreserve_loop child level_unit i 0 num_sectors blocks s = Inr s"
| "unreserve_loop child level_unit i (Suc k) num_sectors blocks s =
     (if i \<ge> length blocks then Inl OutOfBounds
      else let l = min num_sectors level_unit in
        bind_res (child (blocks ! i) l s) (\<lambda>s.
        unreserve_loop child level_unit (Suc i) k (num_sectors - l) blocks s))"

fun inode_unreserve_indirect :: "saver \<Rightarrow> nat \<Rightarrow> nat \<Rightarrow> nat \<Rightarrow> fs \<Rightarrow> fs res" where
  "inode_unreserve_indirect sv 0 entry num_sectors s = free_map_release sv entry 1 s"
| "inode_unreserve_indirect sv (Suc level) entry num_sectors s =
     bind_res (cread entry s) (\<lambda>(d, s).
     let level_unit = (if level = 0 then 1 else INDIRECT_BLOCKS_PER_SECTOR) in
     bind_res (unreserve_loop (\<lambda>e n s. inode_unreserve_indirect sv level e n s) level_unit 0
         (DIV_ROUND_UP num_sectors level_unit) num_sectors (decode_blocks d) s) (\<lambda>s.
     free_map_release sv entry 1 s))"

text \<open>The loop over the direct blocks runs to the number of sectors, not to the number of direct blocks.\<close>

fun unreserve_direct_loop :: "saver \<Rightarrow> nat \<Rightarrow> nat \<Rightarrow> nat list \<Rightarrow> fs \<Rightarrow> fs res" where
  "unreserve_direct_loop sv i 0 blocks s = Inr s"
| "unreserve_direct_loop sv i (Suc k) blocks s =
     (if i \<ge> length blocks then Inl OutOfBounds
      else bind_res (free_map_release sv (blocks ! i) 1 s) (unreserve_direct_loop sv (Suc i) k blocks))"

definition inode_unreserve :: "saver \<Rightarrow> addr \<Rightarrow> fs \<Rightarrow> (bool \<times> fs) res" where
  "inode_unreserve sv inode s =
     bind_res (get_obj (inodes s) inode) (\<lambda>i.
     if flength (data i) < 0 then Inr (False, s)
     else
       let n = bytes_to_sectors (flength (data i)) in
       bind_res (unreserve_direct_loop sv 0 n (direct_blocks (data i)) s) (\<lambda>s.
       let n = n - min n DIRECT_BLOCKS_COUNT;
           level_unreserve = min n INDIRECT_BLOCKS_PER_SECTOR in
       bind_res (if level_unreserve > 0 then inode_unreserve_indirect sv 1 (indirect_block (data i)) level_unreserve s
                 else Inr s) (\<lambda>s.
       let n = n - level_unreserve;
           level_unreserve = min n (INDIRECT_BLOCKS_PER_SECTOR * INDIRECT_BLOCKS_PER_SECTOR) in
       bind_res (if level_unreserve > 0 then inode_unreserve_indirect sv 2 (doubly_indirect_block (data i)) level_unreserve s
                 else Inr s) (\<lambda>s. Inr (True, s)))))"

definition inode_close :: "addr \<Rightarrow> fs \<Rightarrow> fs res" where
  "inode_close inode s =
     (if inode = NULL then Inr s
      else bind_res (get_obj (inodes s) inode) (\<lambda>i.
        let s = set_inode inode (\<lambda>i. i\<lparr>open_cnt := open_cnt i - 1\<rparr>) s in
        if open_cnt i - 1 = 0 then
          let s = s\<lparr>open_inodes := remove1 inode (open_inodes s)\<rparr> in
          bind_res
            (if removed i
             then bind_res (free_map_release save (sector i) 1 s) (\<lambda>s.
                  bind_res (inode_unreserve save inode s) (\<lambda>(_, s). Inr s))
             else Inr s) (\<lambda>s.
          Inr (s\<lparr>inodes := (inodes s)(inode := None)\<rparr>))
        else Inr s))"

definition inode_remove :: "addr \<Rightarrow> fs \<Rightarrow> fs res" where
  "inode_remove inode s =
     bind_res (assert_res (inode \<noteq> NULL)) (\<lambda>_.
     bind_res (get_obj (inodes s) inode) (\<lambda>_. Inr (set_inode inode (\<lambda>i. i\<lparr>removed := True\<rparr>) s)))"

definition inode_deny_write :: "addr \<Rightarrow> fs \<Rightarrow> fs res" where
  "inode_deny_write inode s =
     bind_res (get_obj (inodes s) inode) (\<lambda>i.
     bind_res (assert_res (deny_write_cnt i + 1 \<le> open_cnt i)) (\<lambda>_.
     Inr (set_inode inode (\<lambda>i. i\<lparr>deny_write_cnt := deny_write_cnt i + 1\<rparr>) s)))"

definition inode_allow_write :: "addr \<Rightarrow> fs \<Rightarrow> fs res" where
  "inode_allow_write inode s =
     bind_res (get_obj (inodes s) inode) (\<lambda>i.
     bind_res (assert_res (deny_write_cnt i > 0)) (\<lambda>_.
     bind_res (assert_res (deny_write_cnt i \<le> open_cnt i)) (\<lambda>_.
     Inr (set_inode inode (\<lambda>i. i\<lparr>deny_write_cnt := deny_write_cnt i - 1\<rparr>) s))))"

end
