(* ===== verification/File_Ops.thy ===== *)
theory File_Ops
  imports Inode
begin

text \<open>
  Open files, filesys/file.c, and the part of filesys/free-map.c that keeps the free map in a file
  (project 4).
\<close>

section \<open>Open files\<close>

definition set_file :: "addr \<Rightarrow> (open_file \<Rightarrow> open_file) \<Rightarrow> fs \<Rightarrow> fs" where
  "set_file a f s = s\<lparr>files := (files s)(a := map_option f (files s a))\<rparr>"

definition file_open :: "addr \<Rightarrow> fs \<Rightarrow> (addr \<times> fs) res" where
  "file_open inode s =
     (let (p, s) = malloc s in
      if inode \<noteq> NULL \<and> p \<noteq> NULL
      then Inr (p, s\<lparr>files := (files s)(p \<mapsto> \<lparr>f_inode = inode, f_pos = 0, deny_write = False\<rparr>)\<rparr>)
      else bind_res (inode_close inode s) (\<lambda>s. Inr (NULL, s)))"

definition file_reopen :: "addr \<Rightarrow> fs \<Rightarrow> (addr \<times> fs) res" where
  "file_reopen f s =
     bind_res (get_obj (files s) f) (\<lambda>fl.
     bind_res (inode_reopen (f_inode fl) s) (\<lambda>(inode, s). file_open inode s))"

definition file_deny_write :: "addr \<Rightarrow> fs \<Rightarrow> fs res" where
  "file_deny_write f s =
     bind_res (assert_res (f \<noteq> NULL)) (\<lambda>_.
     bind_res (get_obj (files s) f) (\<lambda>fl.
     if \<not> deny_write fl
     then inode_deny_write (f_inode fl) (set_file f (\<lambda>fl. fl\<lparr>deny_write := True\<rparr>) s)
     else Inr s))"

definition file_allow_write :: "addr \<Rightarrow> fs \<Rightarrow> fs res" where
  "file_allow_write f s =
     bind_res (assert_res (f \<noteq> NULL)) (\<lambda>_.
     bind_res (get_obj (files s) f) (\<lambda>fl.
     if deny_write fl
     then inode_allow_write (f_inode fl) (set_file f (\<lambda>fl. fl\<lparr>deny_write := False\<rparr>) s)
     else Inr s))"

definition file_close :: "addr \<Rightarrow> fs \<Rightarrow> fs res" where
  "file_close f s =
     (if f \<noteq> NULL then
        bind_res (file_allow_write f s) (\<lambda>s.
        bind_res (get_obj (files s) f) (\<lambda>fl.
        bind_res (inode_close (f_inode fl) s) (\<lambda>s. Inr (s\<lparr>files := (files s)(f := None)\<rparr>))))
      else Inr s)"

definition file_get_inode :: "addr \<Rightarrow> fs \<Rightarrow> addr res" where
  "file_get_inode f s = bind_res (get_obj (files s) f) (\<lambda>fl. Inr (f_inode fl))"

definition file_read :: "addr \<Rightarrow> int \<Rightarrow> fs \<Rightarrow> (byte list \<times> fs) res" where
  "file_read f sz s =
     bind_res (get_obj (files s) f) (\<lambda>fl.
     bind_res (inode_read_at (f_inode fl) sz (f_pos fl) s) (\<lambda>(d, s).
     Inr (d, set_file f (\<lambda>fl. fl\<lparr>f_pos := f_pos fl + int (length d)\<rparr>) s)))"

definition file_read_at :: "addr \<Rightarrow> int \<Rightarrow> int \<Rightarrow> fs \<Rightarrow> (byte list \<times> fs) res" where
  "file_read_at f sz file_ofs s =
     bind_res (get_obj (files s) f) (\<lambda>fl. inode_read_at (f_inode fl) sz file_ofs s)"

definition file_write :: "addr \<Rightarrow> byte list \<Rightarrow> int \<Rightarrow> fs \<Rightarrow> (int \<times> fs) res" where
  "file_write f buf sz s =
     bind_res (get_obj (files s) f) (\<lambda>fl.
     bind_res (inode_write_at (f_inode fl) buf sz (f_pos fl) s) (\<lambda>(n, s).
     Inr (n, set_file f (\<lambda>fl. fl\<lparr>f_pos := f_pos fl + n\<rparr>) s)))"

definition file_write_at :: "addr \<Rightarrow> byte list \<Rightarrow> int \<Rightarrow> int \<Rightarrow> fs \<Rightarrow> (int \<times> fs) res" where
  "file_write_at f buf sz file_ofs s =
     bind_res (get_obj (files s) f) (\<lambda>fl. inode_write_at (f_inode fl) buf sz file_ofs s)"

definition file_length :: "addr \<Rightarrow> fs \<Rightarrow> int res" where
  "file_length f s =
     bind_res (assert_res (f \<noteq> NULL)) (\<lambda>_. bind_res (get_obj (files s) f) (\<lambda>fl. inode_length (f_inode fl) s))"

definition file_seek :: "addr \<Rightarrow> int \<Rightarrow> fs \<Rightarrow> fs res" where
  "file_seek f new_pos s =
     bind_res (assert_res (f \<noteq> NULL)) (\<lambda>_.
     bind_res (assert_res (new_pos \<ge> 0)) (\<lambda>_.
     bind_res (get_obj (files s) f) (\<lambda>_. Inr (set_file f (\<lambda>fl. fl\<lparr>f_pos := new_pos\<rparr>) s))))"

definition file_tell :: "addr \<Rightarrow> fs \<Rightarrow> int res" where
  "file_tell f s =
     bind_res (assert_res (f \<noteq> NULL)) (\<lambda>_. bind_res (get_obj (files s) f) (\<lambda>fl. Inr (f_pos fl)))"

section \<open>The free map file\<close>

definition FREE_MAP_SECTOR :: nat where "FREE_MAP_SECTOR = 0"
definition ROOT_DIR_SECTOR :: nat where "ROOT_DIR_SECTOR = 1"

text \<open>\<open>junk\<close> is what the memory of the bitmap holds before it is cleared.\<close>

definition free_map_init :: "32 word list \<Rightarrow> fs \<Rightarrow> fs res" where
  "free_map_init junk s =
     (let (p, s1) = malloc s; (q, s2) = malloc s1 in
      bind_res (bitmap_create (p \<noteq> NULL) (q \<noteq> NULL) junk (block_size (fs_device (bc s)))) (\<lambda>r.
      case r of
        None \<Rightarrow> Inl Panic
      | Some m \<Rightarrow>
          bind_res (bitmap_mark m FREE_MAP_SECTOR) (\<lambda>m.
          bind_res (bitmap_mark m ROOT_DIR_SECTOR) (\<lambda>m. Inr (s2\<lparr>free_map := m\<rparr>)))))"

text \<open>Opens the file of the free map.\<close>

definition open_free_map_file :: "fs \<Rightarrow> fs res" where
  "open_free_map_file s =
     bind_res (inode_open FREE_MAP_SECTOR s) (\<lambda>(inode, s).
     bind_res (file_open inode s) (\<lambda>(f, s).
     if f = NULL then Inl Panic else Inr (s\<lparr>free_map_file := f\<rparr>)))"

definition free_map_open :: "fs \<Rightarrow> fs res" where
  "free_map_open s =
     bind_res (open_free_map_file s) (\<lambda>s.
     bind_res
       (if bit_cnt (free_map s) > 0
        then file_read_at (free_map_file s) (int (byte_cnt (bit_cnt (free_map s)))) 0 s else Inr ([], s)) (\<lambda>(d, s).
     bind_res (bitmap_read (free_map s) d) (\<lambda>(ok, m).
     if ok then Inr (s\<lparr>free_map := m\<rparr>) else Inl Panic)))"

definition free_map_close :: "fs \<Rightarrow> fs res" where
  "free_map_close s = file_close (free_map_file s) s"

definition free_map_create :: "fs \<Rightarrow> fs res" where
  "free_map_create s =
     bind_res (inode_create FREE_MAP_SECTOR (int (bitmap_file_size (free_map s))) False s) (\<lambda>(ok, s).
     if \<not> ok then Inl Panic
     else
       bind_res (open_free_map_file s) (\<lambda>s.
       bind_res (save s) (\<lambda>(ok, s). if ok then Inr s else Inl Panic)))"

section \<open>Positions and permissions\<close>

lemma set_file_simps [simp]:
  "inodes (set_file f g s) = inodes s" "bc (set_file f g s) = bc s" "free_map (set_file f g s) = free_map s"
  "files (set_file f g s) f = map_option g (files s f)" "x \<noteq> f \<Longrightarrow> files (set_file f g s) x = files s x"
  by (simp_all add: set_file_def)

end
