(* ===== verification/Strings.thy ===== *)
theory Strings
  imports Prelude
begin

text \<open>
  The string library, lib/string.c. A pointer that is only read is the rest of the object it points
  into, from the byte it points to up to the last byte; reading past the last byte is the fault
  \<open>OutOfBounds\<close>. A pointer that is returned is its distance from the argument, \<open>None\<close> being
  the null pointer. Where the routine moves bytes inside an object, the object is a list of bytes
  and the pointers are positions in it.
\<close>

section \<open>Model\<close>

fun memcpy_loop :: "byte list \<Rightarrow> byte list \<Rightarrow> nat \<Rightarrow> byte list res" where
  "memcpy_loop dst src 0 = Inr dst"
| "memcpy_loop (d # dst) (c # src) (Suc n) = bind_res (memcpy_loop dst src n) (\<lambda>dst. Inr (c # dst))"
| "memcpy_loop _ _ (Suc n) = Inl OutOfBounds"

definition memcpy :: "byte list \<Rightarrow> byte list \<Rightarrow> nat \<Rightarrow> byte list res" where
  "memcpy dst src n = memcpy_loop dst src n"

text \<open>\<open>*dst = *src\<close> inside the object \<open>m\<close>.\<close>

definition move_byte :: "byte list \<Rightarrow> nat \<Rightarrow> nat \<Rightarrow> byte list res" where
  "move_byte m dst src = (if dst < length m \<and> src < length m then Inr (m[dst := m ! src]) else Inl OutOfBounds)"

fun move_up :: "byte list \<Rightarrow> nat \<Rightarrow> nat \<Rightarrow> nat \<Rightarrow> (nat \<times> byte list) res" where
  "move_up m dst src 0 = Inr (dst, m)"
| "move_up m dst src (Suc n) = bind_res (move_byte m dst src) (\<lambda>m. move_up m (Suc dst) (Suc src) n)"

fun move_down :: "byte list \<Rightarrow> nat \<Rightarrow> nat \<Rightarrow> nat \<Rightarrow> (nat \<times> byte list) res" where
  "move_down m dst src 0 = Inr (dst, m)"
| "move_down m dst src (Suc n) = bind_res (move_byte m (dst - 1) (src - 1)) (\<lambda>m. move_down m (dst - 1) (src - 1) n)"

text \<open>The returned pointer is the local variable \<^verbatim>\<open>dst\<close> at the end.\<close>

definition memmove :: "byte list \<Rightarrow> nat \<Rightarrow> nat \<Rightarrow> nat \<Rightarrow> (nat \<times> byte list) res" where
  "memmove m dst src n = (if dst < src then move_up m dst src n else move_down m (dst + n) (src + n) n)"

fun memcmp :: "byte list \<Rightarrow> byte list \<Rightarrow> nat \<Rightarrow> int res" where
  "memcmp a b 0 = Inr 0"
| "memcmp (x # a) (y # b) (Suc n) = (if x \<noteq> y then Inr (if x > y then 1 else -1) else memcmp a b n)"
| "memcmp _ _ (Suc n) = Inl OutOfBounds"

fun strcmp :: "byte list \<Rightarrow> byte list \<Rightarrow> int res" where
  "strcmp (x # a) (y # b) =
     (if x \<noteq> 0 \<and> x = y then strcmp a b else Inr (if x < y then -1 else if x > y then 1 else 0))"
| "strcmp _ _ = Inl OutOfBounds"

fun memchr :: "byte list \<Rightarrow> byte \<Rightarrow> nat \<Rightarrow> nat option res" where
  "memchr block ch 0 = Inr None"
| "memchr [] ch (Suc n) = Inl OutOfBounds"
| "memchr (b # block) ch (Suc n) =
     (if b = ch then Inr (Some 0) else bind_res (memchr block ch n) (\<lambda>r. Inr (map_option Suc r)))"

fun strchr :: "byte list \<Rightarrow> byte \<Rightarrow> nat option res" where
  "strchr [] c = Inl OutOfBounds"
| "strchr (b # s) c =
     (if b = c then Inr (Some 0) else if b = 0 then Inr None
      else bind_res (strchr s c) (\<lambda>r. Inr (map_option Suc r)))"

fun strcspn :: "byte list \<Rightarrow> byte list \<Rightarrow> nat res" where
  "strcspn [] stop = Inl OutOfBounds"
| "strcspn (b # s) stop =
     (if b = 0 then Inr 0
      else bind_res (strchr stop b) (\<lambda>r.
           if r \<noteq> None then Inr 0 else bind_res (strcspn s stop) (\<lambda>n. Inr (Suc n))))"

fun strpbrk :: "byte list \<Rightarrow> byte list \<Rightarrow> nat option res" where
  "strpbrk [] stop = Inl OutOfBounds"
| "strpbrk (b # s) stop =
     (if b = 0 then Inr None
      else bind_res (strchr stop b) (\<lambda>r.
           if r \<noteq> None then Inr (Some 0) else bind_res (strpbrk s stop) (\<lambda>r. Inr (map_option Suc r))))"

text \<open>\<open>i\<close> is the distance of the current character, \<open>p\<close> the last match.\<close>

fun strrchr_loop :: "byte list \<Rightarrow> byte \<Rightarrow> nat \<Rightarrow> nat option \<Rightarrow> nat option res" where
  "strrchr_loop [] c i p = Inl OutOfBounds"
| "strrchr_loop (b # s) c i p =
     (if b = 0 then Inr p else strrchr_loop s c (Suc i) (if b = c then Some i else p))"

definition strrchr :: "byte list \<Rightarrow> byte \<Rightarrow> nat option res" where
  "strrchr s c = strrchr_loop s c 0 None"

fun strspn :: "byte list \<Rightarrow> byte list \<Rightarrow> nat res" where
  "strspn [] skip = Inl OutOfBounds"
| "strspn (b # s) skip =
     (if b = 0 then Inr 0
      else bind_res (strchr skip b) (\<lambda>r.
           if r = None then Inr 0 else bind_res (strspn s skip) (\<lambda>n. Inr (Suc n))))"

fun strlen :: "byte list \<Rightarrow> nat res" where
  "strlen [] = Inl OutOfBounds"
| "strlen (b # s) = (if b = 0 then Inr 0 else bind_res (strlen s) (\<lambda>n. Inr (Suc n)))"

text \<open>The character is read before its position is compared with the limit.\<close>

fun strnlen :: "byte list \<Rightarrow> nat \<Rightarrow> nat res" where
  "strnlen [] maxlen = Inl OutOfBounds"
| "strnlen (b # s) 0 = Inr 0"
| "strnlen (b # s) (Suc maxlen) = (if b = 0 then Inr 0 else bind_res (strnlen s maxlen) (\<lambda>n. Inr (Suc n)))"

fun strstr_loop :: "byte list \<Rightarrow> byte list \<Rightarrow> nat \<Rightarrow> nat \<Rightarrow> nat \<Rightarrow> nat option res" where
  "strstr_loop haystack needle needle_len i 0 = Inr None"
| "strstr_loop haystack needle needle_len i (Suc k) =
     bind_res (memcmp (drop i haystack) needle needle_len) (\<lambda>r.
     if r = 0 then Inr (Some i) else strstr_loop haystack needle needle_len (Suc i) k)"

definition strstr :: "byte list \<Rightarrow> byte list \<Rightarrow> nat option res" where
  "strstr haystack needle =
     bind_res (strlen haystack) (\<lambda>haystack_len.
     bind_res (strlen needle) (\<lambda>needle_len.
     if haystack_len \<ge> needle_len
     then strstr_loop haystack needle needle_len 0 (Suc (haystack_len - needle_len)) else Inr None))"

text \<open>
  The tokenizer works on the object \<open>m\<close>, starting at the position \<open>s\<close> (the argument, or the
  saved position when the argument is null). It returns the position of the token, the position to
  save and the object.
\<close>

function skip_delimiters :: "byte list \<Rightarrow> byte list \<Rightarrow> nat \<Rightarrow> (bool \<times> nat) res" where
  "skip_delimiters m delimiters s =
     (if s < length m then
        bind_res (strchr delimiters (m ! s)) (\<lambda>r.
        if r = None then Inr (True, s)
        else if m ! s = 0 then Inr (False, s) else skip_delimiters m delimiters (Suc s))
      else Inl OutOfBounds)"
  by pat_completeness auto
termination by (relation "measure (\<lambda>(m, _, s). length m - s)") auto

function skip_token :: "byte list \<Rightarrow> byte list \<Rightarrow> nat \<Rightarrow> nat res" where
  "skip_token m delimiters s =
     (if s < length m then
        bind_res (strchr delimiters (m ! s)) (\<lambda>r.
        if r = None then skip_token m delimiters (Suc s) else Inr s)
      else Inl OutOfBounds)"
  by pat_completeness auto
termination by (relation "measure (\<lambda>(m, _, s). length m - s)") auto

declare skip_delimiters.simps [simp del] skip_token.simps [simp del]

definition strtok_r :: "byte list \<Rightarrow> nat \<Rightarrow> byte list \<Rightarrow> (nat option \<times> nat \<times> byte list) res" where
  "strtok_r m s delimiters =
     bind_res (skip_delimiters m delimiters s) (\<lambda>(found, s).
     if \<not> found then Inr (None, s, m)
     else
       let token = s in
       bind_res (skip_token m delimiters s) (\<lambda>s.
       if m ! s \<noteq> 0 then Inr (Some token, Suc s, m[s := 0]) else Inr (Some token, s, m)))"

fun memset :: "byte list \<Rightarrow> byte \<Rightarrow> nat \<Rightarrow> byte list res" where
  "memset dst v 0 = Inr dst"
| "memset [] v (Suc n) = Inl OutOfBounds"
| "memset (d # dst) v (Suc n) = bind_res (memset dst v n) (\<lambda>dst. Inr (v # dst))"

definition put_byte :: "byte list \<Rightarrow> nat \<Rightarrow> byte \<Rightarrow> byte list res" where
  "put_byte m i b = (if i < length m then Inr (m[i := b]) else Inl OutOfBounds)"

definition strlcpy :: "byte list \<Rightarrow> byte list \<Rightarrow> nat \<Rightarrow> (nat \<times> byte list) res" where
  "strlcpy dst src n =
     bind_res (strlen src) (\<lambda>src_len.
     if n > 0 then
       let dst_len = (if src_len < n - 1 then src_len else n - 1) in
       bind_res (memcpy dst src dst_len) (\<lambda>dst.
       bind_res (put_byte dst dst_len 0) (\<lambda>dst. Inr (src_len, dst)))
     else Inr (src_len, dst))"

definition strlcat :: "byte list \<Rightarrow> byte list \<Rightarrow> nat \<Rightarrow> (nat \<times> byte list) res" where
  "strlcat dst src n =
     bind_res (strlen src) (\<lambda>src_len.
     bind_res (strlen dst) (\<lambda>dst_len.
     if n > 0 \<and> dst_len < n then
       let copy_cnt = (if src_len < n - dst_len - 1 then src_len else n - dst_len - 1) in
       bind_res (memcpy (drop dst_len dst) src copy_cnt) (\<lambda>rest.
       bind_res (put_byte (take dst_len dst @ rest) (dst_len + copy_cnt) 0) (\<lambda>dst. Inr (src_len + dst_len, dst)))
     else Inr (src_len + dst_len, dst)))"

section \<open>Copying\<close>

lemma memcpy_eq: "n \<le> length dst \<Longrightarrow> n \<le> length src \<Longrightarrow> memcpy dst src n = Inr (take n src @ drop n dst)"
  unfolding memcpy_def by (induction dst src n rule: memcpy_loop.induct) auto

lemma memset_eq: "n \<le> length dst \<Longrightarrow> memset dst v n = Inr (replicate n v @ drop n dst)"
  by (induction dst v n rule: memset.induct) auto

text \<open>What a block move has to do: read everything, then write.\<close>

definition moved :: "byte list \<Rightarrow> nat \<Rightarrow> nat \<Rightarrow> nat \<Rightarrow> byte list" where
  "moved m dst src n = take dst m @ take n (drop src m) @ drop (dst + n) m"

lemma length_moved: "dst + n \<le> length m \<Longrightarrow> src + n \<le> length m \<Longrightarrow> length (moved m dst src n) = length m"
  by (simp add: moved_def)

lemma nth_moved:
  assumes "dst + n \<le> length m" and "src + n \<le> length m" and "i < length m"
  shows "moved m dst src n ! i = (if dst \<le> i \<and> i < dst + n then m ! (src + (i - dst)) else m ! i)"
  using assms by (auto simp: moved_def nth_append)

lemma move_up_spec:
  "dst < src \<Longrightarrow> src + n \<le> length m \<Longrightarrow> move_up m dst src n = Inr (dst + n, moved m dst src n)"
proof (induction n arbitrary: m dst src)
  case 0
  then show ?case by (simp add: moved_def)
next
  case (Suc n)
  let ?m = "m[dst := m ! src]"
  have "moved ?m (Suc dst) (Suc src) n = moved m dst src (Suc n)"
    by (rule nth_equalityI) (use Suc.prems in \<open>auto simp: length_moved nth_moved nth_list_update Suc_diff_Suc\<close>)
  then show ?case using Suc by (simp add: move_byte_def)
qed

lemma move_down_spec:
  "src \<le> dst \<Longrightarrow> dst + n \<le> length m \<Longrightarrow> move_down m (dst + n) (src + n) n = Inr (dst, moved m dst src n)"
proof (induction n arbitrary: m)
  case 0
  then show ?case by (simp add: moved_def)
next
  case (Suc n)
  let ?m = "m[dst + n := m ! (src + n)]"
  have "moved ?m dst src n = moved m dst src (Suc n)"
    by (rule nth_equalityI) (use Suc.prems in \<open>auto simp: length_moved nth_moved nth_list_update\<close>)
  then show ?case using Suc by (simp add: move_byte_def)
qed

section \<open>C strings\<close>

text \<open>The string an object starts with.\<close>

definition cstr :: "byte list \<Rightarrow> byte list" where
  "cstr m = takeWhile (\<lambda>b. b \<noteq> 0) m"

lemma cstr_append [simp]: "0 \<notin> set s \<Longrightarrow> cstr (s @ 0 # r) = s"
  unfolding cstr_def by (induction s) auto

lemma strlen_eq: "0 \<in> set m \<Longrightarrow> strlen m = Inr (length (cstr m))"
  by (induction m) (auto simp: cstr_def)

lemma strlen_append: "0 \<notin> set s \<Longrightarrow> strlen (s @ 0 # r) = Inr (length s)"
  by (simp add: strlen_eq)

lemma strchr_eq:
  "0 \<notin> set s \<Longrightarrow> c \<noteq> 0 \<Longrightarrow> \<exists>r. strchr (s @ 0 # rest) c = Inr r \<and> (r = None \<longleftrightarrow> c \<notin> set s)"
  by (induction s) auto

lemma strchr_zero: "0 \<notin> set s \<Longrightarrow> strchr (s @ 0 # rest) 0 = Inr (Some (length s))"
  by (induction s) auto

lemma strcmp_eq:
  "0 \<notin> set a \<Longrightarrow> 0 \<notin> set b \<Longrightarrow> \<exists>r. strcmp (a @ 0 # x) (b @ 0 # y) = Inr r \<and> (r = 0 \<longleftrightarrow> a = b)"
proof (induction a arbitrary: b)
  case Nil
  then show ?case by (cases b) (auto simp: word_gt_0)
next
  case (Cons c a)
  show ?case
  proof (cases b)
    case (Cons d b')
    then show ?thesis using Cons.prems Cons.IH [of b'] by (auto simp: not_less_iff_gr_or_eq)
  qed (use Cons.prems in \<open>auto simp: word_gt_0\<close>)
qed

lemma strlcpy_eq:
  assumes "0 \<notin> set s" and "0 < n" and "n \<le> length dst"
  shows "strlcpy dst (s @ 0 # r) n =
    Inr (length s, take (n - 1) s @ 0 # drop (Suc (min (length s) (n - 1))) dst)"
proof -
  define l where "l = min (length s) (n - 1)"
  have l: "(if length s < n - 1 then length s else n - 1) = l" "l < length dst" "l \<le> length s" "take l s = take (n - 1) s"
    using assms(2,3) by (auto simp: l_def min_def)
  have "memcpy dst (s @ 0 # r) l = Inr (take l s @ drop l dst)" using memcpy_eq [of l dst "s @ 0 # r"] l by simp
  moreover have "drop l dst = dst ! l # drop (Suc l) dst" using l(2) by (simp add: Cons_nth_drop_Suc)
  moreover have "(take l s @ x # xs)[l := y] = take l s @ y # xs" for x y :: byte and xs
    using l(3) by (simp add: list_update_append)
  moreover have "Suc (length dst - Suc 0) = length dst" using assms(2,3) by simp
  ultimately show ?thesis
    using assms(1,2) l l_def by (simp add: strlcpy_def strlen_append put_byte_def Let_def)
qed

section \<open>Tokens\<close>

text \<open>The maximal runs of characters that are not delimiters.\<close>

function tokens :: "(byte \<Rightarrow> bool) \<Rightarrow> byte list \<Rightarrow> byte list list" where
  "tokens D s = (case dropWhile D s of [] \<Rightarrow> []
     | c # r \<Rightarrow> takeWhile (\<lambda>c. \<not> D c) (c # r) # tokens D (dropWhile (\<lambda>c. \<not> D c) r))"
  by pat_completeness auto
termination
proof (relation "measure (\<lambda>(_, s). length s)")
  fix D and s r :: "byte list" and c
  assume "dropWhile D s = c # r"
  then have "length (c # r) \<le> length s" by (metis length_dropWhile_le)
  moreover have "length (dropWhile (\<lambda>c. \<not> D c) r) \<le> length r" by (rule length_dropWhile_le)
  ultimately show "((D, dropWhile (\<lambda>c. \<not> D c) r), D, s) \<in> measure (\<lambda>(_, s). length s)" by simp
qed simp

declare tokens.simps [simp del]

lemma skip_delimiters_eq:
  assumes "0 \<notin> set str" and "0 \<notin> set ds"
  shows "skip_delimiters (pre @ str @ 0 # rest) (ds @ 0 # dr) (length pre) =
    Inr (dropWhile (\<lambda>c. c \<in> set ds) str \<noteq> [], length pre + length (takeWhile (\<lambda>c. c \<in> set ds) str))"
  using assms(1)
proof (induction str arbitrary: pre)
  case Nil
  then show ?case using assms(2) by (subst skip_delimiters.simps) (simp add: strchr_zero)
next
  case (Cons c str)
  obtain r where "strchr (ds @ 0 # dr) c = Inr r" "r = None \<longleftrightarrow> c \<notin> set ds"
    using strchr_eq [OF assms(2), of c dr] Cons.prems by auto
  then show ?case
    using Cons.prems Cons.IH [of "pre @ [c]"] by (subst skip_delimiters.simps) simp
qed

lemma skip_token_eq:
  assumes "0 \<notin> set str" and "0 \<notin> set ds"
  shows "skip_token (pre @ str @ 0 # rest) (ds @ 0 # dr) (length pre) =
    Inr (length pre + length (takeWhile (\<lambda>c. c \<notin> set ds) str))"
  using assms(1)
proof (induction str arbitrary: pre)
  case Nil
  then show ?case using assms(2) by (subst skip_token.simps) (simp add: strchr_zero)
next
  case (Cons c str)
  obtain r where "strchr (ds @ 0 # dr) c = Inr r" "r = None \<longleftrightarrow> c \<notin> set ds"
    using strchr_eq [OF assms(2), of c dr] Cons.prems by auto
  then show ?case
    using Cons.prems Cons.IH [of "pre @ [c]"] by (subst skip_token.simps) auto
qed

text \<open>One call of the tokenizer.\<close>

lemma strtok_r_none:
  assumes "0 \<notin> set str" and "0 \<notin> set ds" and "dropWhile (\<lambda>c. c \<in> set ds) str = []"
  shows "\<exists>s. strtok_r (pre @ str @ 0 # rest) (length pre) (ds @ 0 # dr) = Inr (None, s, pre @ str @ 0 # rest)"
  using assms by (simp add: strtok_r_def skip_delimiters_eq)

lemma strtok_r_some:
  assumes "0 \<notin> set str" and "0 \<notin> set ds" and "dropWhile (\<lambda>c. c \<in> set ds) str = r" and "r \<noteq> []"
  shows "\<exists>pre' str'. strtok_r (pre @ str @ 0 # rest) (length pre) (ds @ 0 # dr)
      = Inr (Some (length pre + length (takeWhile (\<lambda>c. c \<in> set ds) str)), length pre', pre' @ str' @ 0 # rest)
    \<and> tokens (\<lambda>c. c \<in> set ds) str = takeWhile (\<lambda>c. c \<notin> set ds) r # tokens (\<lambda>c. c \<in> set ds) str'
    \<and> 0 \<notin> set str'
    \<and> cstr (drop (length pre + length (takeWhile (\<lambda>c. c \<in> set ds) str)) (pre' @ str' @ 0 # rest)) = takeWhile (\<lambda>c. c \<notin> set ds) r"
proof -
  let ?D = "\<lambda>c. c \<in> set ds" and ?m = "pre @ str @ 0 # rest"
  let ?pre = "pre @ takeWhile ?D str" and ?tok = "takeWhile (\<lambda>c. \<not> ?D c) r" and ?rem = "dropWhile (\<lambda>c. \<not> ?D c) r"
  have str: "str = takeWhile ?D str @ r" using assms(3) by (metis takeWhile_dropWhile_id)
  have r: "r = ?tok @ ?rem" by simp
  have z: "0 \<notin> set r" "0 \<notin> set ?tok" "0 \<notin> set ?rem" using assms(1,3) by (auto dest: set_dropWhileD set_takeWhileD)
  have m: "?m = ?pre @ r @ 0 # rest" using str by (metis append.assoc)
  have sd: "skip_delimiters ?m (ds @ 0 # dr) (length pre) = Inr (True, length ?pre)"
    using skip_delimiters_eq [OF assms(1,2)] assms(3,4) by simp
  have st: "skip_token ?m (ds @ 0 # dr) (length ?pre) = Inr (length (?pre @ ?tok))"
    using skip_token_eq [OF z(1) assms(2), of ?pre rest dr] unfolding m by simp
  have m2: "?m = (?pre @ ?tok) @ ?rem @ 0 # rest" using m r by (metis append.assoc)
  have d0: "?D c" if "?rem = c # cs" for c cs using that by (metis hd_dropWhile list.distinct(1) list.sel(1))
  obtain c r' where cr: "r = c # r'" using assms(4) by (cases r) auto
  have c: "\<not> ?D c" using hd_dropWhile [of ?D str] assms(3) cr by simp
  have tk: "tokens ?D str = ?tok # tokens ?D ?rem"
    using assms(3) cr c by (subst tokens.simps) simp
  show ?thesis
  proof (cases ?rem)
    case Nil
    have at: "?m ! length (?pre @ ?tok) = 0" unfolding m2 Nil nth_append_length append_Nil ..
    have e: "strtok_r ?m (length pre) (ds @ 0 # dr) = Inr (Some (length ?pre), length (?pre @ ?tok), (?pre @ ?tok) @ [] @ 0 # rest)"
      unfolding strtok_r_def sd bind_res.simps prod.case Let_def if_False not_True_eq_False st at
      using m2 Nil by simp
    show ?thesis
      by (rule exI [of _ "?pre @ ?tok"], rule exI [of _ "[]"]) (use e tk Nil z in simp)
  next
    case (Cons b str')
    have zb: "b \<noteq> 0" "0 \<notin> set str'" using z(3) Cons by auto
    have at: "?m ! length (?pre @ ?tok) = b" unfolding m2 Cons append_Cons nth_append_length ..
    have up: "?m[length (?pre @ ?tok) := 0] = (?pre @ ?tok @ [0]) @ str' @ 0 # rest"
      unfolding m2 Cons by (metis append.assoc append_Cons append_Nil list_update_length)
    have e: "strtok_r ?m (length pre) (ds @ 0 # dr)
        = Inr (Some (length ?pre), length (?pre @ ?tok @ [0]), (?pre @ ?tok @ [0]) @ str' @ 0 # rest)"
      unfolding strtok_r_def sd bind_res.simps prod.case Let_def if_False not_True_eq_False st at up
      using zb by simp
    have "tokens ?D (b # str') = tokens ?D str'" using d0 [OF Cons] by (simp add: tokens.simps)
    then show ?thesis
      by (intro exI [of _ "?pre @ ?tok @ [0]"] exI [of _ str']) (use e tk Cons zb z in simp)
  qed
qed


text \<open>A successful call moves forward, inside the object.\<close>

lemma skip_delimiters_bounds:
  "skip_delimiters m ds s = Inr (b, s') \<Longrightarrow> s \<le> s' \<and> s' < length m"
proof (induction m ds s rule: skip_delimiters.induct)
  case (1 m ds s)
  show ?case using 1(2)
    by (subst (asm) skip_delimiters.simps) (auto simp: res_simps split: if_splits dest: 1(1))
qed

lemma skip_token_bounds: "skip_token m ds s = Inr s' \<Longrightarrow> s \<le> s' \<and> s' < length m"
proof (induction m ds s rule: skip_token.induct)
  case (1 m ds s)
  show ?case using 1(2)
    by (subst (asm) skip_token.simps) (auto simp: res_simps split: if_splits dest: 1(1))
qed

lemma skip_delimiters_stops:
  "skip_delimiters m ds s = Inr (True, s') \<Longrightarrow> strchr ds (m ! s') = Inr None"
proof (induction m ds s rule: skip_delimiters.induct)
  case (1 m ds s)
  obtain r where r: "s < length m" "strchr ds (m ! s) = Inr r"
    using 1(2) by (subst (asm) skip_delimiters.simps) (auto simp: res_simps split: if_splits)
  show ?case
  proof (cases "r = None")
    case True
    then show ?thesis using 1(2) r by (subst (asm) skip_delimiters.simps) simp
  next
    case False
    then have "m ! s \<noteq> 0" "skip_delimiters m ds (Suc s) = Inr (True, s')"
      using 1(2) r by (subst (asm) skip_delimiters.simps, auto split: if_splits)+
    then show ?thesis using 1(1) r False by blast
  qed
qed

lemma strtok_r_progress:
  assumes "strtok_r m s ds = Inr (Some t, s', m')"
  shows "s < s'" and "length m' = length m" and "s' \<le> length m"
proof -
  obtain s1 s2 where s: "skip_delimiters m ds s = Inr (True, s1)" "skip_token m ds s1 = Inr s2"
    "s' = (if m ! s2 \<noteq> 0 then Suc s2 else s2)" "length m' = length m"
    using assms by (auto simp: strtok_r_def res_simps Let_def split: if_splits)
  have "s1 < s2"
  proof -
    have "skip_token m ds s1 = skip_token m ds (Suc s1)"
      using skip_delimiters_bounds [OF s(1)] skip_delimiters_stops [OF s(1)] by (subst skip_token.simps) simp
    then show ?thesis using skip_token_bounds [of m ds "Suc s1" s2] s(2) by simp
  qed
  then show "s < s'" "length m' = length m" "s' \<le> length m"
    using s skip_delimiters_bounds [OF s(1)] skip_token_bounds [OF s(2)] by auto
qed

text \<open>The loop of the example usage in the source: the tokens, each read when it is returned.\<close>

function strtok_all :: "byte list \<Rightarrow> nat \<Rightarrow> byte list \<Rightarrow> byte list list res" where
  "strtok_all m s delimiters =
     bind_res (strtok_r m s delimiters) (\<lambda>(token, save_ptr, m).
     case token of
       None \<Rightarrow> Inr []
     | Some t \<Rightarrow> bind_res (strtok_all m save_ptr delimiters) (\<lambda>ts. Inr (cstr (drop t m) # ts)))"
  by pat_completeness auto
termination
proof (relation "measure (\<lambda>(m, s, _). length m - s)")
  fix m s delimiters x token y save_ptr m' t
  assume "strtok_r m s delimiters = Inr x" "(token, y) = x" "(save_ptr, m') = y" "token = Some t"
  then have "strtok_r m s delimiters = Inr (Some t, save_ptr, m')" by simp
  from strtok_r_progress [OF this]
  show "((m', save_ptr, delimiters), m, s, delimiters) \<in> measure (\<lambda>(m, s, _). length m - s)" by auto
qed simp

declare strtok_all.simps [simp del]

lemma strtok_all_tokens:
  assumes "0 \<notin> set ds" and "0 \<notin> set str"
  shows "strtok_all (pre @ str @ 0 # rest) (length pre) (ds @ 0 # dr) = Inr (tokens (\<lambda>c. c \<in> set ds) str)"
  using assms(2)
proof (induction "length (tokens (\<lambda>c. c \<in> set ds) str)" arbitrary: str pre)
  case 0
  then have "dropWhile (\<lambda>c. c \<in> set ds) str = []" by (subst (asm) tokens.simps) (auto split: list.splits)
  moreover from strtok_r_none [OF 0(2) assms(1) this, of pre rest dr] obtain s where
    "strtok_r (pre @ str @ 0 # rest) (length pre) (ds @ 0 # dr) = Inr (None, s, pre @ str @ 0 # rest)" by blast
  ultimately show ?case using 0(1) by (subst strtok_all.simps) simp
next
  case (Suc n)
  define r where "r = dropWhile (\<lambda>c. c \<in> set ds) str"
  have ne: "r \<noteq> []" using Suc(2) by (subst (asm) tokens.simps) (auto simp: r_def [symmetric] split: list.splits)
  obtain pre' str' where s: "strtok_r (pre @ str @ 0 # rest) (length pre) (ds @ 0 # dr)
      = Inr (Some (length pre + length (takeWhile (\<lambda>c. c \<in> set ds) str)), length pre', pre' @ str' @ 0 # rest)"
    "tokens (\<lambda>c. c \<in> set ds) str = takeWhile (\<lambda>c. c \<notin> set ds) r # tokens (\<lambda>c. c \<in> set ds) str'" "0 \<notin> set str'"
    "cstr (drop (length pre + length (takeWhile (\<lambda>c. c \<in> set ds) str)) (pre' @ str' @ 0 # rest)) = takeWhile (\<lambda>c. c \<notin> set ds) r"
    using strtok_r_some [OF Suc(3) assms(1) r_def [symmetric] ne, of pre rest dr] by blast
  have "n = length (tokens (\<lambda>c. c \<in> set ds) str')" using Suc(2) s(2) by simp
  from Suc(1) [OF this s(3), of pre'] show ?case
    using s(1,2,4) by (subst strtok_all.simps) simp
qed

section \<open>Properties\<close>

text \<open>
  C39: \<^verbatim>\<open>memmove\<close> on overlapping blocks: every byte of the destination gets the value the
  corresponding byte of the source had before the call, and no other byte of the object changes. The
  pointer it returns is the end of the destination when the destination is below the source.
\<close>

theorem memmove_overlap:
  assumes "dst + n \<le> length m" and "src + n \<le> length m"
  shows "memmove m dst src n = Inr (if dst < src then dst + n else dst, take dst m @ take n (drop src m) @ drop (dst + n) m)"
  using assms move_up_spec [of dst src n m] move_down_spec [of src dst n m] by (auto simp: memmove_def moved_def)

theorem memmove_overlap_witness:
  "memmove [1, 2, 3, 4, 5] 0 1 4 = Inr (4, [2, 3, 4, 5, 5]) \<and> memmove [1, 2, 3, 4, 5] 1 0 4 = Inr (1, [1, 1, 2, 3, 4])"
  using memmove_overlap [of 0 4 "[1, 2, 3, 4, 5]" 1] memmove_overlap [of 1 4 "[1, 2, 3, 4, 5]" 0] by (simp add: numeral_eq_Suc)

text \<open>
  C38: the loop over \<^verbatim>\<open>strtok_r\<close> ends and yields, in order, the maximal runs of characters
  of the string that are not delimiters, although each call overwrites a delimiter in the string.
\<close>

theorem strtok_r_yields_tokens:
  assumes "0 \<notin> set str" and "0 \<notin> set delims"
  shows "strtok_all (str @ [0]) 0 (delims @ [0]) = Inr (tokens (\<lambda>c. c \<in> set delims) str)"
  using strtok_all_tokens [OF assms(2,1), of "[]" "[]" "[]"] by simp

theorem strtok_r_yields_tokens_witness:
  "strtok_all [47, 97, 47, 47, 98, 99, 0] 0 [47, 0] = Inr [[97], [98, 99]]"
proof -
  have "tokens (\<lambda>c. c \<in> set [47]) [47, 97, 47, 47, 98, 99] = [[97], [98, 99]]"
    by (simp add: tokens.simps)
  then show ?thesis using strtok_r_yields_tokens [of "[47, 97, 47, 47, 98, 99]" "[47]"] by simp
qed

end
