(* ===== verification/Directory.thy ===== *)
theory Directory
  imports File_Ops Strings
begin

text \<open>
  Directories, filesys/directory.c (project 4). A directory is a file of entries of twenty bytes; the
  first entry holds the sector of the parent directory. Names and paths are the characters of a C
  string without the final null byte. A local variable \<^verbatim>\<open>struct dir_entry e\<close> that the code
  uses before it is complete starts with an arbitrary content.
\<close>

section \<open>Entries\<close>

definition NAME_MAX :: nat where "NAME_MAX = 14"
definition ENTRY_SIZE :: nat where "ENTRY_SIZE = 20"

definition encode_entry :: "dir_entry \<Rightarrow> byte list" where
  "encode_entry e = le_bytes32 (of_nat (inode_sector e)) @ ename e @ [in_use e]"

definition decode_entry :: "byte list \<Rightarrow> dir_entry" where
  "decode_entry d = \<lparr>inode_sector = unat (le_word32 (take 4 d)), ename = take (NAME_MAX + 1) (drop 4 d), in_use = d ! (4 + NAME_MAX + 1)\<rparr>"

definition uninit :: "fs \<Rightarrow> dir_entry \<times> fs" where
  "uninit s = (garbage s 0, s\<lparr>garbage := (\<lambda>n. garbage s (Suc n))\<rparr>)"

text \<open>Reads an entry into \<open>e\<close>: the bytes past a short read keep their value.\<close>

definition read_entry :: "addr \<Rightarrow> int \<Rightarrow> dir_entry \<Rightarrow> fs \<Rightarrow> (bool \<times> dir_entry \<times> fs) res" where
  "read_entry inode ofs e s =
     bind_res (inode_read_at inode (int ENTRY_SIZE) ofs s) (\<lambda>(d, s).
     Inr (length d = ENTRY_SIZE, decode_entry (d @ drop (length d) (encode_entry e)), s))"

definition write_entry :: "addr \<Rightarrow> int \<Rightarrow> dir_entry \<Rightarrow> fs \<Rightarrow> (bool \<times> fs) res" where
  "write_entry inode ofs e s =
     bind_res (inode_write_at inode (encode_entry e) (int ENTRY_SIZE) ofs s) (\<lambda>(n, s). Inr (n = int ENTRY_SIZE, s))"

section \<open>Reading ends\<close>

lemma cread_inodes: "cread i s = Inr (d, s') \<Longrightarrow> inodes s' = inodes s"
  by (auto simp: cread_def res_simps)

lemma malloc_inodes: "malloc s = (p, s') \<Longrightarrow> inodes s' = inodes s"
  by (auto simp: malloc_def)

lemma index_to_sector_inodes: "index_to_sector d i s = Inr (x, s') \<Longrightarrow> inodes s' = inodes s"
  by (auto simp: index_to_sector_def calloc_unchecked_def malloc_def res_simps Let_def split: if_splits dest!: cread_inodes)

lemma read_chunk_inodes:
  assumes "read_chunk inode sz ofs b s = Inr (c, d, b', s')"
  shows "inodes s' = inodes s" and "0 < c \<Longrightarrow> \<exists>i. inodes s inode = Some i \<and> ofs < flength (data i)"
proof -
  obtain x s1 len where b: "byte_to_sector inode ofs s = Inr (x, s1)" "inode_length inode s1 = Inr len"
    using assms by (auto simp: read_chunk_def res_simps)
  have s1: "inodes s1 = inodes s"
    using b(1) by (auto simp: byte_to_sector_def res_simps split: if_splits dest: index_to_sector_inodes)
  obtain i where i: "inodes s inode = Some i" "len = flength (data i)"
    using b(2) s1 by (auto simp: inode_length_def get_obj_def res_simps split: if_splits option.splits)
  show "inodes s' = inodes s"
    using assms b s1 by (auto simp: read_chunk_def bounce_buffer_def malloc_def res_simps Let_def split: if_splits dest!: cread_inodes)
  have "chunk sz ofs len > 0" if "0 < c"
    using assms b that by (auto simp: read_chunk_def bounce_buffer_def malloc_def res_simps Let_def split: if_splits)
  then show "\<exists>i. inodes s inode = Some i \<and> ofs < flength (data i)" if "0 < c"
    using that i by (auto simp: chunk_def c_min_def split: if_splits)
qed

lemma read_loop_inodes:
  "read_loop inode sz ofs b acc s = Inr (d, s') \<Longrightarrow> inodes s' = inodes s
     \<and> (d = acc \<or> (\<exists>i. inodes s inode = Some i \<and> ofs < flength (data i)))"
proof (induction inode sz ofs b acc s rule: read_loop.induct)
  case (1 inode sz ofs b acc s)
  show ?case
  proof (cases "sz > 0")
    case True
    obtain c x b' s1 where c: "read_chunk inode sz ofs b s = Inr (c, x, b', s1)"
      "(if c \<le> 0 then Inr (acc, s1) else read_loop inode (sz - c) (ofs + c) b' (acc @ x) s1) = Inr (d, s')"
      using 1(2) True by (subst (asm) read_loop.simps) (auto simp: res_simps)
    note rc = read_chunk_inodes [OF c(1)]
    show ?thesis
    proof (cases "c \<le> 0")
      case False
      then have "read_loop inode (sz - c) (ofs + c) b' (acc @ x) s1 = Inr (d, s')" using c(2) by simp
      then have "inodes s' = inodes s1" using 1(1) [OF True c(1)] False by blast
      then show ?thesis using rc False by auto
    qed (use c rc in simp)
  qed (use 1(2) in \<open>subst (asm) read_loop.simps, simp\<close>)
qed

definition bytes_left :: "addr \<Rightarrow> int \<Rightarrow> fs \<Rightarrow> nat" where
  "bytes_left inode ofs s = (case inodes s inode of None \<Rightarrow> 0 | Some i \<Rightarrow> nat (flength (data i) - ofs))"

lemma read_entry_progress:
  assumes "read_entry inode ofs e s = Inr (True, e', s')" and "0 < k"
  shows "bytes_left inode (ofs + k) s' < bytes_left inode ofs s"
proof -
  obtain d where "inode_read_at inode (int ENTRY_SIZE) ofs s = Inr (d, s')" "length d = 20"
    using assms(1) by (auto simp: read_entry_def ENTRY_SIZE_def res_simps)
  then show ?thesis
    using read_loop_inodes [of inode 20 ofs False "[]" s d s'] assms(2)
    by (auto simp: inode_read_at_def ENTRY_SIZE_def bytes_left_def)
qed

section \<open>Paths\<close>

text \<open>
  The loop over the components: all but the last are appended to the directory, each followed by a
  slash. \<open>m\<close> is the copy of the path that the tokenizer cuts.
\<close>

definition SLASH :: byte where "SLASH = 47"

function name_loop :: "byte list \<Rightarrow> nat \<Rightarrow> byte list \<Rightarrow> byte list \<Rightarrow> (byte list \<times> byte list) res" where
  "name_loop m p directory last_token =
     bind_res (strtok_r m p [SLASH, 0]) (\<lambda>(token, p, m).
     case token of
       None \<Rightarrow> Inr (directory, last_token)
     | Some t \<Rightarrow>
         name_loop m p (if length last_token > 0 then directory @ last_token @ [SLASH] else directory) (cstr (drop t m)))"
  by pat_completeness auto
termination
proof (relation "measure (\<lambda>(m, s, _). length m - s)")
  fix m p directory last_token x token y p' m' t
  assume "strtok_r m p [SLASH, 0] = Inr x" "(token, y) = x" "(p', m') = y" "token = Some t"
  then have "strtok_r m p [SLASH, 0] = Inr (Some t, p', m')" by simp
  from strtok_r_progress [OF this]
  show "((m', p', if 0 < length last_token then directory @ last_token @ [SLASH] else directory, cstr (drop t m')),
      m, p, directory, last_token) \<in> measure (\<lambda>(m, s, _). length m - s)" by auto
qed simp

declare name_loop.simps [simp del]

text \<open>\<open>directory\<close> and \<open>filename\<close> are the addresses of the caller's buffers.\<close>

definition name_resolution :: "byte list \<Rightarrow> addr \<Rightarrow> addr \<Rightarrow> fs \<Rightarrow> (byte list \<times> byte list \<times> fs) res" where
  "name_resolution path directory filename s =
     (let (p, s) = malloc s in
      bind_res (assert_res (p \<noteq> NULL)) (\<lambda>_.
      bind_res (name_loop (path @ [0]) 0 (if length path > 0 \<and> path ! 0 = SLASH then [SLASH] else []) []) (\<lambda>(d, f).
      if directory = NULL then Inl NullDeref
      else bind_res (assert_res (filename \<noteq> NULL)) (\<lambda>_. Inr (d, f, s)))))"

section \<open>Opening and closing\<close>

definition dir_open :: "addr \<Rightarrow> fs \<Rightarrow> (addr \<times> fs) res" where
  "dir_open inode s =
     (let (p, s) = malloc s in
      if inode \<noteq> NULL \<and> p \<noteq> NULL
      then Inr (p, s\<lparr>dirs := (dirs s)(p \<mapsto> \<lparr>d_inode = inode, d_pos = int ENTRY_SIZE\<rparr>)\<rparr>)
      else bind_res (inode_close inode s) (\<lambda>s. Inr (NULL, s)))"

definition dir_open_root :: "fs \<Rightarrow> (addr \<times> fs) res" where
  "dir_open_root s = bind_res (inode_open ROOT_DIR_SECTOR s) (\<lambda>(inode, s). dir_open inode s)"

definition dir_reopen :: "addr \<Rightarrow> fs \<Rightarrow> (addr \<times> fs) res" where
  "dir_reopen dir s =
     bind_res (get_obj (dirs s) dir) (\<lambda>d.
     bind_res (inode_reopen (d_inode d) s) (\<lambda>(inode, s). dir_open inode s))"

definition dir_close :: "addr \<Rightarrow> fs \<Rightarrow> fs res" where
  "dir_close dir s =
     (if dir \<noteq> NULL then
        bind_res (get_obj (dirs s) dir) (\<lambda>d.
        bind_res (inode_close (d_inode d) s) (\<lambda>s. Inr (s\<lparr>dirs := (dirs s)(dir := None)\<rparr>)))
      else Inr s)"

definition dir_get_inode :: "addr \<Rightarrow> fs \<Rightarrow> addr res" where
  "dir_get_inode dir s = bind_res (get_obj (dirs s) dir) (\<lambda>d. Inr (d_inode d))"

definition dir_create :: "nat \<Rightarrow> nat \<Rightarrow> fs \<Rightarrow> (bool \<times> fs) res" where
  "dir_create sec entry_cnt s =
     bind_res (inode_create sec (int (entry_cnt * ENTRY_SIZE)) True s) (\<lambda>(success, s).
     if \<not> success then Inr (False, s)
     else
       bind_res (inode_open sec s) (\<lambda>(inode, s).
       bind_res (dir_open inode s) (\<lambda>(dir, s).
       if dir = NULL then Inr (False, s)
       else
         let (e, s) = uninit s in
         bind_res (dir_get_inode dir s) (\<lambda>inode.
         bind_res (write_entry inode 0 (e\<lparr>inode_sector := sec\<rparr>) s) (\<lambda>(ok, s).
         bind_res (dir_close dir s) (\<lambda>s. Inr (ok, s)))))))"

section \<open>Searching\<close>

text \<open>The comparison of a name with the name of an entry.\<close>

definition name_eq :: "byte list \<Rightarrow> dir_entry \<Rightarrow> bool res" where
  "name_eq name e = bind_res (strcmp (name @ [0]) (ename e)) (\<lambda>r. Inr (r = 0))"

function dir_lookup_loop :: "addr \<Rightarrow> byte list \<Rightarrow> int \<Rightarrow> dir_entry \<Rightarrow> fs \<Rightarrow> ((dir_entry \<times> int) option \<times> fs) res" where
  "dir_lookup_loop inode name ofs e s =
     bind_res (read_entry inode ofs e s) (\<lambda>(full, e, s).
     if full then
       bind_res (if in_use e \<noteq> 0 then name_eq name e else Inr False) (\<lambda>found.
       if found then Inr (Some (e, ofs), s) else dir_lookup_loop inode name (ofs + int ENTRY_SIZE) e s)
     else Inr (None, s))"
  by pat_completeness auto
termination
proof (relation "measure (\<lambda>(inode, _, ofs, _, s). bytes_left inode ofs s)")
  fix inode name ofs e s x full y e' s'
  assume "read_entry inode ofs e s = Inr x" "(full, y) = x" "(e', s') = y" full
  then have "read_entry inode ofs e s = Inr (True, e', s')" by simp
  from read_entry_progress [OF this, of "int ENTRY_SIZE"]
  show "((inode, name, ofs + int ENTRY_SIZE, e', s'), inode, name, ofs, e, s) \<in> measure (\<lambda>(inode, _, ofs, _, s). bytes_left inode ofs s)"
    by (simp add: ENTRY_SIZE_def)
qed simp

definition lookup :: "addr \<Rightarrow> byte list \<Rightarrow> fs \<Rightarrow> ((dir_entry \<times> int) option \<times> fs) res" where
  "lookup dir name s =
     (let (e, s) = uninit s in
      bind_res (assert_res (dir \<noteq> NULL)) (\<lambda>_.
      bind_res (dir_get_inode dir s) (\<lambda>inode. dir_lookup_loop inode name (int ENTRY_SIZE) e s)))"

function empty_loop :: "addr \<Rightarrow> int \<Rightarrow> dir_entry \<Rightarrow> fs \<Rightarrow> (bool \<times> fs) res" where
  "empty_loop inode ofs e s =
     bind_res (read_entry inode ofs e s) (\<lambda>(full, e, s).
     if full then
       if in_use e \<noteq> 0 then Inr (False, s) else empty_loop inode (ofs + int ENTRY_SIZE) e s
     else Inr (True, s))"
  by pat_completeness auto
termination
proof (relation "measure (\<lambda>(inode, ofs, _, s). bytes_left inode ofs s)")
  fix inode ofs e s x full y e' s'
  assume "read_entry inode ofs e s = Inr x" "(full, y) = x" "(e', s') = y" full
  then have "read_entry inode ofs e s = Inr (True, e', s')" by simp
  from read_entry_progress [OF this, of "int ENTRY_SIZE"]
  show "((inode, ofs + int ENTRY_SIZE, e', s'), inode, ofs, e, s) \<in> measure (\<lambda>(inode, ofs, _, s). bytes_left inode ofs s)"
    by (simp add: ENTRY_SIZE_def)
qed simp

definition dir_is_empty :: "addr \<Rightarrow> fs \<Rightarrow> (bool \<times> fs) res" where
  "dir_is_empty dir s =
     (let (e, s) = uninit s in
      bind_res (dir_get_inode dir s) (\<lambda>inode. empty_loop inode (int ENTRY_SIZE) e s))"

definition DOT :: byte where "DOT = 46"

definition dir_lookup :: "addr \<Rightarrow> byte list \<Rightarrow> fs \<Rightarrow> (bool \<times> addr \<times> fs) res" where
  "dir_lookup dir name s =
     bind_res (assert_res (dir \<noteq> NULL)) (\<lambda>_.
     bind_res
       (if name = [DOT] then
          bind_res (dir_get_inode dir s) (\<lambda>inode. inode_reopen inode s)
        else if name = [DOT, DOT] then
          let (e, s) = uninit s in
          bind_res (dir_get_inode dir s) (\<lambda>inode.
          bind_res (read_entry inode 0 e s) (\<lambda>(_, e, s). inode_open (inode_sector e) s))
        else
          bind_res (lookup dir name s) (\<lambda>(r, s).
          case r of Some (e, _) \<Rightarrow> inode_open (inode_sector e) s | None \<Rightarrow> Inr (NULL, s))) (\<lambda>(inode, s).
     Inr (inode \<noteq> NULL, inode, s)))"

section \<open>Changing\<close>

text \<open>The search for a free slot starts at offset 0.\<close>

function slot_loop :: "addr \<Rightarrow> int \<Rightarrow> dir_entry \<Rightarrow> fs \<Rightarrow> (int \<times> dir_entry \<times> fs) res" where
  "slot_loop inode ofs e s =
     bind_res (read_entry inode ofs e s) (\<lambda>(full, e, s).
     if full then
       if in_use e = 0 then Inr (ofs, e, s) else slot_loop inode (ofs + int ENTRY_SIZE) e s
     else Inr (ofs, e, s))"
  by pat_completeness auto
termination
proof (relation "measure (\<lambda>(inode, ofs, _, s). bytes_left inode ofs s)")
  fix inode ofs e s x full y e' s'
  assume "read_entry inode ofs e s = Inr x" "(full, y) = x" "(e', s') = y" full
  then have "read_entry inode ofs e s = Inr (True, e', s')" by simp
  from read_entry_progress [OF this, of "int ENTRY_SIZE"]
  show "((inode, ofs + int ENTRY_SIZE, e', s'), inode, ofs, e, s) \<in> measure (\<lambda>(inode, ofs, _, s). bytes_left inode ofs s)"
    by (simp add: ENTRY_SIZE_def)
qed simp

declare dir_lookup_loop.simps [simp del] empty_loop.simps [simp del] slot_loop.simps [simp del]

text \<open>The first entry of a new directory: \<open>None\<close> when the function returns early.\<close>

definition link_parent :: "addr \<Rightarrow> nat \<Rightarrow> dir_entry \<Rightarrow> fs \<Rightarrow> (dir_entry option \<times> fs) res" where
  "link_parent dir sec e s =
     bind_res (inode_open sec s) (\<lambda>(inode, s).
     bind_res (dir_open inode s) (\<lambda>(child_dir, s).
     if child_dir = NULL then Inr (None, s)
     else
       bind_res (dir_get_inode dir s) (\<lambda>parent.
       bind_res (inode_get_inumber parent s) (\<lambda>n.
       let e = e\<lparr>inode_sector := n\<rparr> in
       bind_res (dir_get_inode child_dir s) (\<lambda>child.
       bind_res (write_entry child 0 e s) (\<lambda>(ok, s).
       bind_res (dir_close child_dir s) (\<lambda>s. Inr (if ok then Some e else None, s))))))))"

definition dir_add :: "addr \<Rightarrow> byte list \<Rightarrow> nat \<Rightarrow> bool \<Rightarrow> fs \<Rightarrow> (bool \<times> fs) res" where
  "dir_add dir name sec isdir s =
     (let (e, s) = uninit s in
      bind_res (assert_res (dir \<noteq> NULL)) (\<lambda>_.
      if name = [] \<or> length name > NAME_MAX then Inr (False, s)
      else
        bind_res (lookup dir name s) (\<lambda>(r, s).
        if r \<noteq> None then Inr (False, s)
        else
          bind_res (if isdir then link_parent dir sec e s else Inr (Some e, s)) (\<lambda>(e, s).
          case e of
            None \<Rightarrow> Inr (False, s)
          | Some e \<Rightarrow>
              bind_res (dir_get_inode dir s) (\<lambda>inode.
              bind_res (slot_loop inode 0 e s) (\<lambda>(ofs, e, s).
              bind_res (strlcpy (ename e) (name @ [0]) (NAME_MAX + 1)) (\<lambda>(_, nm).
              write_entry inode ofs (e\<lparr>in_use := 1, ename := nm, inode_sector := sec\<rparr>) s)))))))"

text \<open>The part of \<^verbatim>\<open>dir_remove\<close> before the label \<^verbatim>\<open>done\<close>, once the inode is open.\<close>

definition remove_entry :: "addr \<Rightarrow> dir_entry \<Rightarrow> int \<Rightarrow> addr \<Rightarrow> fs \<Rightarrow> (bool \<times> fs) res" where
  "remove_entry dir e ofs inode s =
     bind_res (get_obj (inodes s) inode) (\<lambda>i.
     bind_res
       (if is_dir (data i) then
          bind_res (dir_open inode s) (\<lambda>(target, s).
          bind_res (dir_is_empty target s) (\<lambda>(is_empty, s).
          bind_res (dir_close target s) (\<lambda>s. Inr (is_empty, s))))
        else Inr (True, s)) (\<lambda>(go_on, s).
     if \<not> go_on then Inr (False, s)
     else
       bind_res (dir_get_inode dir s) (\<lambda>dinode.
       bind_res (write_entry dinode ofs (e\<lparr>in_use := 0\<rparr>) s) (\<lambda>(ok, s).
       if \<not> ok then Inr (False, s)
       else bind_res (inode_remove inode s) (\<lambda>s. Inr (True, s))))))"

definition dir_remove :: "addr \<Rightarrow> byte list \<Rightarrow> fs \<Rightarrow> (bool \<times> fs) res" where
  "dir_remove dir name s =
     bind_res (assert_res (dir \<noteq> NULL)) (\<lambda>_.
     bind_res (lookup dir name s) (\<lambda>(r, s).
     bind_res
       (case r of
          None \<Rightarrow> Inr (False, NULL, s)
        | Some (e, ofs) \<Rightarrow>
            bind_res (inode_open (inode_sector e) s) (\<lambda>(inode, s).
            if inode = NULL then Inr (False, NULL, s)
            else bind_res (remove_entry dir e ofs inode s) (\<lambda>(success, s). Inr (success, inode, s)))) (\<lambda>(success, inode, s).
     bind_res (inode_close inode s) (\<lambda>s. Inr (success, s)))))"

text \<open>\<open>name\<close> is the caller's buffer.\<close>

definition set_dir :: "addr \<Rightarrow> (dir \<Rightarrow> dir) \<Rightarrow> fs \<Rightarrow> fs" where
  "set_dir a f s = s\<lparr>dirs := (dirs s)(a := map_option f (dirs s a))\<rparr>"

function readdir_loop :: "addr \<Rightarrow> addr \<Rightarrow> int \<Rightarrow> dir_entry \<Rightarrow> byte list \<Rightarrow> fs \<Rightarrow> (bool \<times> byte list \<times> fs) res" where
  "readdir_loop dir inode pos e name s =
     bind_res (read_entry inode pos e s) (\<lambda>(full, e, s).
     if full then
       let s = set_dir dir (\<lambda>d. d\<lparr>d_pos := pos + int ENTRY_SIZE\<rparr>) s in
       if in_use e \<noteq> 0
       then bind_res (strlcpy name (ename e) (NAME_MAX + 1)) (\<lambda>(_, name). Inr (True, name, s))
       else readdir_loop dir inode (pos + int ENTRY_SIZE) e name s
     else Inr (False, name, s))"
  by pat_completeness auto
termination
proof (relation "measure (\<lambda>(_, inode, ofs, _, _, s). bytes_left inode ofs s)")
  fix dir inode pos e name s x full y e' s' s''
  assume "read_entry inode pos e s = Inr x" "(full, y) = x" "(e', s') = y" full
    and s'': "s'' = set_dir dir (\<lambda>d. d\<lparr>d_pos := pos + int ENTRY_SIZE\<rparr>) s'"
  then have "read_entry inode pos e s = Inr (True, e', s')" by simp
  from read_entry_progress [OF this, of "int ENTRY_SIZE"]
  show "((dir, inode, pos + int ENTRY_SIZE, e', name, s''), dir, inode, pos, e, name, s)
      \<in> measure (\<lambda>(_, inode, ofs, _, _, s). bytes_left inode ofs s)"
    by (simp add: ENTRY_SIZE_def s'' bytes_left_def set_dir_def)
qed simp

declare readdir_loop.simps [simp del]

definition dir_readdir :: "addr \<Rightarrow> byte list \<Rightarrow> fs \<Rightarrow> (bool \<times> byte list \<times> fs) res" where
  "dir_readdir dir name s =
     (let (e, s) = uninit s in
      bind_res (get_obj (dirs s) dir) (\<lambda>d. readdir_loop dir (d_inode d) (d_pos d) e name s))"

section \<open>Opening a path\<close>

text \<open>\<open>None\<close> when a component is missing and the function returns a null pointer.\<close>

function path_loop :: "byte list \<Rightarrow> nat \<Rightarrow> addr \<Rightarrow> fs \<Rightarrow> (addr option \<times> fs) res" where
  "path_loop m p cur s =
     bind_res (strtok_r m p [SLASH, 0]) (\<lambda>(token, p, m).
     case token of
       None \<Rightarrow> Inr (Some cur, s)
     | Some t \<Rightarrow>
         bind_res (dir_lookup cur (cstr (drop t m)) s) (\<lambda>(ok, inode, s).
         bind_res (if ok then dir_open inode s else Inr (NULL, s)) (\<lambda>(nxt, s).
         bind_res (dir_close cur s) (\<lambda>s.
         if nxt = NULL then Inr (None, s) else path_loop m p nxt s))))"
  by pat_completeness auto
termination
proof (relation "measure (\<lambda>(m, p, _). length m - p)")
  fix m p cur s x token y p' m' t a b c d e g nxt h i
  assume "strtok_r m p [SLASH, 0] = Inr x" "(token, y) = x" "(p', m') = y" "token = Some t"
  then have "strtok_r m p [SLASH, 0] = Inr (Some t, p', m')" by simp
  from strtok_r_progress [OF this]
  show "((m', p', nxt, i), m, p, cur, s) \<in> measure (\<lambda>(m, p, _). length m - p)" by auto
qed simp

declare path_loop.simps [simp del]

definition dir_open_path :: "byte list \<Rightarrow> fs \<Rightarrow> (addr \<times> fs) res" where
  "dir_open_path path s =
     (let (p, s) = malloc s in
      bind_res (assert_res (p \<noteq> NULL)) (\<lambda>_.
      bind_res
        (if path \<noteq> [] \<and> path ! 0 = SLASH then dir_open_root s
         else if cwd s = NULL then dir_open_root s
         else dir_reopen (cwd s) s) (\<lambda>(cur, s).
      bind_res (path_loop (path @ [0]) 0 cur s) (\<lambda>(r, s).
      case r of
        None \<Rightarrow> Inr (NULL, s)
      | Some cur \<Rightarrow>
          bind_res (dir_get_inode cur s) (\<lambda>inode.
          bind_res (get_obj (inodes s) inode) (\<lambda>i.
          if removed i then bind_res (dir_close cur s) (\<lambda>s. Inr (NULL, s)) else Inr (cur, s)))))))"

end
