(* ===== verification/Inode_Io.thy ===== *)
theory Inode_Io
  imports Inode
begin

text \<open>
  What reading and writing an inode do to the bytes of the file. A file is described by the
  contents of the sectors (\<open>view\<close>) and its inode: the sector of each of its blocks, found
  through the direct, indirect and doubly indirect block numbers, and its bytes. A well-formed
  file has its blocks in different sectors, apart from the index sectors.
\<close>

section \<open>States between operations\<close>

definition fs_base :: "fs \<Rightarrow> bool" where
  "fs_base s \<longleftrightarrow> cache_idle (bc s) \<and> sectors (bc s) \<le> NO_SECTOR \<and> (\<forall>n. allocs s n \<noteq> NULL)"

abbreviation V :: "fs \<Rightarrow> nat \<Rightarrow> byte list" where
  "V s \<equiv> view (bc s)"

abbreviation nsec :: "fs \<Rightarrow> nat" where
  "nsec s \<equiv> sectors (bc s)"

text \<open>Everything but the cache and the memory allocator is unchanged.\<close>

definition same_meta :: "fs \<Rightarrow> fs \<Rightarrow> bool" where
  "same_meta s s' \<longleftrightarrow> fs_base s' \<and> nsec s' = nsec s \<and> free_map s' = free_map s \<and> free_map_file s' = free_map_file s
     \<and> inodes s' = inodes s \<and> open_inodes s' = open_inodes s \<and> files s' = files s \<and> dirs s' = dirs s \<and> cwd s' = cwd s"

lemma same_meta_refl: "fs_base s \<Longrightarrow> same_meta s s"
  by (simp add: same_meta_def)

lemma same_meta_trans: "same_meta a b \<Longrightarrow> same_meta b c \<Longrightarrow> same_meta a c"
  by (simp add: same_meta_def)

lemma same_metaD:
  assumes "same_meta s s'"
  shows "fs_base s'" "nsec s' = nsec s" "free_map s' = free_map s" "free_map_file s' = free_map_file s"
    "inodes s' = inodes s" "open_inodes s' = open_inodes s" "files s' = files s" "dirs s' = dirs s" "cwd s' = cwd s"
  using assms by (simp_all add: same_meta_def)

lemma cread_spec:
  assumes "fs_base s" and "i < nsec s"
  shows "\<exists>s'. cread i s = Inr (V s i, s') \<and> same_meta s s' \<and> V s' = V s"
proof -
  obtain b where "buffer_cache_read i (bc s) = Inr (V s i, b)" "cache_idle b" "view b = V s" "sectors b = nsec s"
    using read_spec assms unfolding fs_base_def by blast
  then show ?thesis using assms(1) by (simp add: cread_def same_meta_def fs_base_def)
qed

lemma cwrite_spec:
  assumes "fs_base s" and "i < nsec s" and "length d = BLOCK_SECTOR_SIZE"
  shows "\<exists>s'. cwrite i d s = Inr s' \<and> same_meta s s' \<and> V s' = (V s)(i := d)"
proof -
  obtain b where "buffer_cache_write i d (bc s) = Inr b" "cache_idle b" "view b = (V s)(i := d)" "sectors b = nsec s"
    using write_spec assms unfolding fs_base_def by blast
  then show ?thesis using assms(1) by (simp add: cwrite_def same_meta_def fs_base_def)
qed

lemma malloc_spec:
  assumes "fs_base s"
  shows "\<exists>s'. malloc s = (allocs s 0, s') \<and> allocs s 0 \<noteq> NULL \<and> same_meta s s' \<and> V s' = V s"
  using assms by (simp add: malloc_def same_meta_def fs_base_def)

lemma calloc_spec: "fs_base s \<Longrightarrow> \<exists>s'. calloc_unchecked s = Inr s' \<and> same_meta s s' \<and> V s' = V s"
  using malloc_spec [of s] by (auto simp: calloc_unchecked_def)

lemma bounce_spec: "fs_base s \<Longrightarrow> \<exists>s'. bounce_buffer b s = (True, s') \<and> same_meta s s' \<and> V s' = V s"
  using malloc_spec [of s] same_meta_refl [of s] by (auto simp: bounce_buffer_def)

lemma length_V: "fs_base s \<Longrightarrow> i < nsec s \<Longrightarrow> length (V s i) = BLOCK_SECTOR_SIZE"
  by (simp add: fs_base_def cache_idle_def length_view)

section \<open>The blocks and the bytes of a file\<close>

definition MAX_BLOCKS :: nat where
  "MAX_BLOCKS = 123 + 128 + 128 * 128"

definition sector_of :: "(nat \<Rightarrow> byte list) \<Rightarrow> inode_disk \<Rightarrow> nat \<Rightarrow> nat" where
  "sector_of v d i =
     (if i < 123 then direct_blocks d ! i
      else if i < 251 then decode_blocks (v (indirect_block d)) ! (i - 123)
      else decode_blocks (v (decode_blocks (v (doubly_indirect_block d)) ! ((i - 251) div 128))) ! ((i - 251) mod 128))"

text \<open>The index sectors of the first \<open>m\<close> blocks.\<close>

definition index_sectors :: "(nat \<Rightarrow> byte list) \<Rightarrow> inode_disk \<Rightarrow> nat \<Rightarrow> nat set" where
  "index_sectors v d m =
     (if 123 < m then {indirect_block d} else {})
     \<union> (if 251 < m then insert (doubly_indirect_block d)
          ((\<lambda>j. decode_blocks (v (doubly_indirect_block d)) ! j) ` {j. j * 128 < m - 251}) else {})"

definition nblocks :: "inode_disk \<Rightarrow> nat" where
  "nblocks d = bytes_to_sectors (flength d)"

definition byte_at :: "(nat \<Rightarrow> byte list) \<Rightarrow> inode_disk \<Rightarrow> nat \<Rightarrow> byte" where
  "byte_at v d p = v (sector_of v d (p div 512)) ! (p mod 512)"

definition contents :: "(nat \<Rightarrow> byte list) \<Rightarrow> inode_disk \<Rightarrow> byte list" where
  "contents v d = map (byte_at v d) [0..<nat (flength d)]"

text \<open>The sectors in use by a file.\<close>

definition own_sectors :: "(nat \<Rightarrow> byte list) \<Rightarrow> inode_disk \<Rightarrow> nat set" where
  "own_sectors v d = sector_of v d ` {..<nblocks d} \<union> index_sectors v d (nblocks d)"

definition wf_file :: "(nat \<Rightarrow> byte list) \<Rightarrow> nat \<Rightarrow> inode_disk \<Rightarrow> bool" where
  "wf_file v n d \<longleftrightarrow> wf_disk d \<and> nblocks d \<le> MAX_BLOCKS \<and> own_sectors v d \<subseteq> {..<n}
     \<and> inj_on (sector_of v d) {..<nblocks d} \<and> sector_of v d ` {..<nblocks d} \<inter> index_sectors v d (nblocks d) = {}"

lemma bytes_to_sectors_less: "0 \<le> n \<Longrightarrow> i < bytes_to_sectors n \<longleftrightarrow> int i * 512 < n"
  by (simp add: bytes_to_sectors_def BLOCK_SECTOR_SIZE_def cdiv_nonneg) linarith

lemma block_of_byte: "int p < flength d \<Longrightarrow> p div 512 < nblocks d"
  by (simp add: nblocks_def bytes_to_sectors_less zdiv_int)

lemma wf_fileD:
  assumes "wf_file v n d"
  shows "length (direct_blocks d) = 123" "0 \<le> flength d" "nblocks d \<le> MAX_BLOCKS"
    "i < nblocks d \<Longrightarrow> sector_of v d i < n" "x \<in> index_sectors v d (nblocks d) \<Longrightarrow> x < n"
    "i < nblocks d \<Longrightarrow> j < nblocks d \<Longrightarrow> sector_of v d i = sector_of v d j \<Longrightarrow> i = j"
    "i < nblocks d \<Longrightarrow> sector_of v d i \<notin> index_sectors v d (nblocks d)"
  using assms unfolding wf_file_def wf_disk_def own_sectors_def inj_on_def by auto

lemma index_sectorsI:
  "123 < m \<Longrightarrow> indirect_block d \<in> index_sectors v d m"
  "251 < m \<Longrightarrow> doubly_indirect_block d \<in> index_sectors v d m"
  "251 \<le> i \<Longrightarrow> i < m \<Longrightarrow> decode_blocks (v (doubly_indirect_block d)) ! ((i - 251) div 128) \<in> index_sectors v d m"
proof -
  assume i: "251 \<le> i" "i < m"
  have "(i - 251) div 128 * 128 \<le> i - 251" by (rule div_times_less_eq_dividend)
  also have "\<dots> < m - 251" using i by simp
  finally show "decode_blocks (v (doubly_indirect_block d)) ! ((i - 251) div 128) \<in> index_sectors v d m"
    using i by (auto simp: index_sectors_def)
qed (auto simp: index_sectors_def)

text \<open>The blocks depend on the index sectors only.\<close>

lemma sector_of_cong:
  assumes "\<And>x. x \<in> index_sectors v d m \<Longrightarrow> v' x = v x" and "i < m"
  shows "sector_of v' d i = sector_of v d i"
proof -
  consider "i < 123" | "123 \<le> i" "i < 251" | "251 \<le> i" by linarith
  then show ?thesis
  proof cases
    case 2
    then show ?thesis using assms index_sectorsI(1) [of m d v] by (simp add: sector_of_def)
  next
    case 3
    then show ?thesis using assms index_sectorsI(2) [of m d v] index_sectorsI(3) [OF 3 assms(2), of v d]
      by (simp add: sector_of_def)
  qed (simp add: sector_of_def)
qed

lemma index_sectors_cong:
  assumes "\<And>x. x \<in> index_sectors v d m \<Longrightarrow> v' x = v x"
  shows "index_sectors v' d m = index_sectors v d m"
  using assms index_sectorsI(2) [of m d v] by (auto simp: index_sectors_def)

lemma own_sectors_cong:
  assumes "\<And>x. x \<in> index_sectors v d (nblocks d) \<Longrightarrow> v' x = v x"
  shows "own_sectors v' d = own_sectors v d"
  using sector_of_cong [OF assms] index_sectors_cong [OF assms] by (auto simp: own_sectors_def)

lemma wf_file_cong:
  assumes "\<And>x. x \<in> index_sectors v d (nblocks d) \<Longrightarrow> v' x = v x" and "wf_file v n d"
  shows "wf_file v' n d"
proof -
  have "sector_of v' d ` {..<nblocks d} = sector_of v d ` {..<nblocks d}"
    using sector_of_cong [OF assms(1)] by auto
  moreover have "inj_on (sector_of v' d) {..<nblocks d} = inj_on (sector_of v d) {..<nblocks d}"
    using sector_of_cong [OF assms(1)] by (intro inj_on_cong) auto
  ultimately show ?thesis
    using assms(2) index_sectors_cong [OF assms(1)] own_sectors_cong [OF assms(1)] by (simp add: wf_file_def)
qed

lemma contents_cong:
  assumes "\<And>x. x \<in> own_sectors v d \<Longrightarrow> v' x = v x"
  shows "contents v' d = contents v d"
proof -
  have "byte_at v' d p = byte_at v d p" if "p < nat (flength d)" for p
  proof -
    have b: "p div 512 < nblocks d" using that by (intro block_of_byte) auto
    have "sector_of v' d (p div 512) = sector_of v d (p div 512)"
      by (rule sector_of_cong [OF _ b]) (use assms in \<open>auto simp: own_sectors_def\<close>)
    then show ?thesis using assms b by (simp add: byte_at_def own_sectors_def)
  qed
  then show ?thesis by (simp add: contents_def)
qed

section \<open>Finding sectors\<close>

lemma index_to_sector_spec:
  assumes "fs_base s" and "i < m" and "i < MAX_BLOCKS" and "\<And>x. x \<in> index_sectors (V s) d m \<Longrightarrow> x < nsec s"
  shows "\<exists>s'. index_to_sector d (int i) s = Inr (sector_of (V s) d i, s') \<and> same_meta s s' \<and> V s' = V s"
proof -
  consider "i < 123" | "123 \<le> i" "i < 251" | "251 \<le> i" by linarith
  then show ?thesis
  proof cases
    case 1
    then show ?thesis using same_meta_refl [OF assms(1)] by (simp add: index_to_sector_def sector_of_def)
  next
    case 2
    obtain s1 where s1: "calloc_unchecked s = Inr s1" "same_meta s s1" "V s1 = V s" using calloc_spec [OF assms(1)] by blast
    have "indirect_block d < nsec s1" using 2 assms(2,4) index_sectorsI(1) same_metaD [OF s1(2)] by simp
    then obtain s2 where s2: "cread (indirect_block d) s1 = Inr (V s (indirect_block d), s2)" "same_meta s1 s2" "V s2 = V s"
      using cread_spec [OF same_metaD(1) [OF s1(2)]] s1(3) by metis
    have e: "index_to_sector d (int i) s = Inr (sector_of (V s) d i, s2)"
      using 2 s1(1) s2(1) by (simp add: index_to_sector_def sector_of_def INDIRECT_BLOCKS_PER_SECTOR_def nat_diff_distrib)
    then show ?thesis using same_meta_trans [OF s1(2) s2(2)] s2(3) by blast
  next
    case 3
    let ?dbl = "doubly_indirect_block d"
    let ?snd = "decode_blocks (V s ?dbl) ! ((i - 251) div 128)"
    obtain s1 where s1: "calloc_unchecked s = Inr s1" "same_meta s s1" "V s1 = V s" using calloc_spec [OF assms(1)] by blast
    have "?dbl < nsec s1" using 3 assms(2,4) index_sectorsI(2) same_metaD [OF s1(2)] by simp
    then obtain s2 where s2: "cread ?dbl s1 = Inr (V s ?dbl, s2)" "same_meta s1 s2" "V s2 = V s"
      using cread_spec [OF same_metaD(1) [OF s1(2)]] s1(3) by metis
    have "?snd < nsec s2"
      using assms(4) index_sectorsI(3) [OF 3 assms(2)] same_metaD [OF s1(2)] same_metaD [OF s2(2)] by simp
    then obtain s3 where s3: "cread ?snd s2 = Inr (V s ?snd, s3)" "same_meta s2 s3" "V s3 = V s"
      using cread_spec [OF same_metaD(1) [OF s2(2)]] s2(3) by metis
    have z: "nat ((int i - 251) div 128) = (i - 251) div 128" "nat ((int i - 251) mod 128) = (i - 251) mod 128"
      using 3 by (simp_all add: nat_div_distrib nat_mod_distrib nat_diff_distrib)
    have "\<not> int i < 123" "\<not> int i < 251" "int i < 16635" using 3 assms(3) by (simp_all add: MAX_BLOCKS_def)
    then have e: "index_to_sector d (int i) s = Inr (sector_of (V s) d i, s3)"
      using 3 s1(1) s2(1) s3(1) z by (simp add: index_to_sector_def sector_of_def INDIRECT_BLOCKS_PER_SECTOR_def Let_def)
    then show ?thesis using same_meta_trans [OF same_meta_trans [OF s1(2) s2(2)] s3(2)] s3(3) by blast
  qed
qed

text \<open>An open file with consistent blocks.\<close>

definition file_at :: "fs \<Rightarrow> addr \<Rightarrow> inode \<Rightarrow> bool" where
  "file_at s a i \<longleftrightarrow> a \<noteq> NULL \<and> inodes s a = Some i \<and> wf_file (V s) (nsec s) (data i)"

lemma get_inode: "file_at s a i \<Longrightarrow> get_obj (inodes s) a = Inr i"
  by (simp add: file_at_def get_obj_def)

lemma file_at_same: "file_at s a i \<Longrightarrow> same_meta s s' \<Longrightarrow> V s' = V s \<Longrightarrow> file_at s' a i"
  by (simp add: file_at_def same_meta_def)

lemma byte_to_sector_spec:
  assumes "fs_base s" and "file_at s a i" and "int p < flength (data i)"
  shows "\<exists>s'. byte_to_sector a (int p) s = Inr (sector_of (V s) (data i) (p div 512), s') \<and> same_meta s s' \<and> V s' = V s"
proof -
  have w: "wf_file (V s) (nsec s) (data i)" and a: "a \<noteq> NULL" using assms(2) by (auto simp: file_at_def)
  have b: "p div 512 < nblocks (data i)" using block_of_byte [OF assms(3)] .
  then have "p div 512 < MAX_BLOCKS" using wf_fileD(3) [OF w] by simp
  moreover have "cdiv (int p) (int BLOCK_SECTOR_SIZE) = int (p div 512)" by (simp add: cdiv_nonneg BLOCK_SECTOR_SIZE_def zdiv_int)
  ultimately show ?thesis
    using index_to_sector_spec [OF assms(1) b _ wf_fileD(5) [OF w]] get_inode [OF assms(2)] a assms(3)
    by (simp add: byte_to_sector_def)
qed

lemma byte_to_sector_outside:
  assumes "file_at s a i" and "pos < 0 \<or> flength (data i) \<le> pos"
  shows "byte_to_sector a pos s = Inr (NO_SECTOR, s)"
  using assms get_inode [OF assms(1)] by (auto simp: byte_to_sector_def file_at_def)

lemma inode_length_spec: "file_at s a i \<Longrightarrow> inode_length a s = Inr (flength (data i))"
  by (simp add: inode_length_def get_inode)

section \<open>Reading\<close>

lemma cmod_sector: "cmod (int p) (int BLOCK_SECTOR_SIZE) = int (p mod 512)" "cmod (int p) 512 = int (p mod 512)"
  by (simp_all add: cmod_nonneg BLOCK_SECTOR_SIZE_def zmod_int)

lemma chunk_pos:
  assumes "0 < sz" and "int p < len"
  shows "chunk sz (int p) len = min sz (min (len - int p) (512 - int (p mod 512)))" "0 < chunk sz (int p) len"
proof -
  show e: "chunk sz (int p) len = min sz (min (len - int p) (512 - int (p mod 512)))"
    unfolding chunk_def cmod_sector by (simp add: c_min_def min_def BLOCK_SECTOR_SIZE_def)
  have "p mod 512 < 512" by simp
  then show "0 < chunk sz (int p) len" unfolding e using assms by simp
qed

text \<open>The bytes of a chunk lie in one sector.\<close>

lemma chunk_bytes:
  assumes "p mod 512 + c \<le> 512" and "length (v (sector_of v d (p div 512))) = 512"
  shows "take c (drop (p mod 512) (v (sector_of v d (p div 512)))) = map (byte_at v d) [p..<p + c]"
proof (rule nth_equalityI)
  show "length (take c (drop (p mod 512) (v (sector_of v d (p div 512))))) = length (map (byte_at v d) [p..<p + c])"
    using assms by simp
  fix k assume "k < length (take c (drop (p mod 512) (v (sector_of v d (p div 512)))))"
  then have k: "k < c" using assms by simp
  have "p + k = p div 512 * 512 + (p mod 512 + k)" by simp
  moreover have "p mod 512 + k < 512" using k assms by simp
  ultimately have "(p + k) div 512 = p div 512" "(p + k) mod 512 = p mod 512 + k"
    by (metis div_mult_self3 div_less add_0_right numeral_neq_zero, metis mod_mult_self3 mod_less)
  then show "take c (drop (p mod 512) (v (sector_of v d (p div 512)))) ! k = map (byte_at v d) [p..<p + c] ! k"
    using k assms by (simp add: byte_at_def add.commute)
qed

lemma read_chunk_spec:
  assumes "fs_base s" and "file_at s a i" and "int p < flength (data i)" and "0 < sz"
  shows "\<exists>b' s'. read_chunk a sz (int p) b s =
       Inr (chunk sz (int p) (flength (data i)), map (byte_at (V s) (data i)) [p..<p + nat (chunk sz (int p) (flength (data i)))], b', s')
     \<and> same_meta s s' \<and> V s' = V s"
proof -
  let ?d = "data i" and ?sec = "sector_of (V s) (data i) (p div 512)" and ?c = "chunk sz (int p) (flength (data i))"
  have w: "wf_file (V s) (nsec s) ?d" using assms(2) by (simp add: file_at_def)
  have sec: "?sec < nsec s" using wf_fileD(4) [OF w block_of_byte [OF assms(3)]] .
  obtain s1 where s1: "byte_to_sector a (int p) s = Inr (?sec, s1)" "same_meta s s1" "V s1 = V s"
    using byte_to_sector_spec [OF assms(1-3)] by blast
  note m1 = same_metaD [OF s1(2)]
  have len: "inode_length a s1 = Inr (flength ?d)" using inode_length_spec [OF file_at_same [OF assms(2) s1(2,3)]] .
  note c = chunk_pos [OF assms(4,3)]
  have lv: "length (V s ?sec) = 512" using length_V [OF assms(1) sec] by (simp add: BLOCK_SECTOR_SIZE_def)
  have bytes: "take (nat ?c) (drop (p mod 512) (V s ?sec)) = map (byte_at (V s) ?d) [p..<p + nat ?c]"
    using c lv by (intro chunk_bytes) auto
  show ?thesis
  proof (cases "p mod 512 = 0 \<and> ?c = 512")
    case True
    obtain s2 where s2: "cread ?sec s1 = Inr (V s ?sec, s2)" "same_meta s1 s2" "V s2 = V s"
      using cread_spec [OF m1(1)] sec m1(2) s1(3) by metis
    have "read_chunk a sz (int p) b s = Inr (?c, V s ?sec, b, s2)"
      using s1(1) len s2(1) True by (simp add: read_chunk_def cmod_sector BLOCK_SECTOR_SIZE_def)
    moreover have "V s ?sec = map (byte_at (V s) ?d) [p..<p + nat ?c]" using bytes True lv by simp
    ultimately show ?thesis using same_meta_trans [OF s1(2) s2(2)] s2(3) by auto
  next
    case False
    obtain s2 where s2: "bounce_buffer b s1 = (True, s2)" "same_meta s1 s2" "V s2 = V s"
      using bounce_spec [OF m1(1)] s1(3) by metis
    obtain s3 where s3: "cread ?sec s2 = Inr (V s ?sec, s3)" "same_meta s2 s3" "V s3 = V s"
      using cread_spec [OF same_metaD(1) [OF s2(2)]] sec m1(2) same_metaD(2) [OF s2(2)] s2(3) by metis
    have "read_chunk a sz (int p) b s = Inr (?c, take (nat ?c) (drop (p mod 512) (V s ?sec)), True, s3)"
      using s1(1) len s2(1) s3(1) False c(2) by (auto simp: read_chunk_def cmod_sector BLOCK_SECTOR_SIZE_def Let_def)
    then show ?thesis using bytes same_meta_trans [OF same_meta_trans [OF s1(2) s2(2)] s3(2)] s3(3) by auto
  qed
qed

lemma read_chunk_eof:
  assumes "file_at s a i" and "flength (data i) \<le> int p"
  shows "read_chunk a sz (int p) b s = Inr (0, [], b, s)"
proof -
  have "chunk sz (int p) (flength (data i)) \<le> 0" using assms(2) by (simp add: chunk_def c_min_def)
  then show ?thesis
    using byte_to_sector_outside [OF assms(1), of "int p"] inode_length_spec [OF assms(1)] assms(2)
    by (simp add: read_chunk_def)
qed

text \<open>The bytes between two positions, cut off at the end of the file.\<close>

definition bytes_between :: "(nat \<Rightarrow> byte list) \<Rightarrow> inode_disk \<Rightarrow> nat \<Rightarrow> nat \<Rightarrow> byte list" where
  "bytes_between v d p q = map (byte_at v d) [p..<min q (nat (flength d))]"

lemma bytes_between_contents: "bytes_between v d p (p + n) = take n (drop p (contents v d))"
proof -
  have "take n (drop p [0..<k]) = [p..<min (p + n) k]" for k
    by (simp add: take_upt drop_upt min_def)
  then show ?thesis by (simp add: bytes_between_def contents_def take_map drop_map)
qed

lemma read_loop_spec:
  assumes "fs_base s" and "file_at s a i"
  shows "\<exists>s'. read_loop a (int n) (int p) b acc s = Inr (acc @ bytes_between (V s) (data i) p (p + n), s')
     \<and> same_meta s s' \<and> V s' = V s"
  using assms
proof (induction n arbitrary: p b acc s rule: less_induct)
  case (less n)
  let ?v = "V s" and ?d = "data i" and ?len = "flength (data i)"
  have len: "0 \<le> ?len" using less.prems(2) by (auto simp: file_at_def dest: wf_fileD(2))
  show ?case
  proof (cases "n = 0 \<or> ?len \<le> int p")
    case True
    then have "read_loop a (int n) (int p) b acc s = Inr (acc, s)"
      using read_chunk_eof [OF less.prems(2)] by (subst read_loop.simps) auto
    then show ?thesis using True same_meta_refl [OF less.prems(1)] by (auto simp: bytes_between_def)
  next
    case False
    define c where "c = nat (chunk (int n) (int p) ?len)"
    have pos: "0 < int n" "int p < ?len" using False by auto
    have c: "chunk (int n) (int p) ?len = int c" "0 < c" "c \<le> n" "int (p + c) \<le> ?len"
      using chunk_pos [OF pos] by (auto simp: c_def)
    obtain b' s1 where s1: "read_chunk a (int n) (int p) b s = Inr (int c, map (byte_at ?v ?d) [p..<p + c], b', s1)"
      "same_meta s s1" "V s1 = ?v"
      using read_chunk_spec [OF less.prems pos(2,1), of b] c(1) by auto
    have "n - c < n" using c by simp
    from less.IH [OF this same_metaD(1) [OF s1(2)] file_at_same [OF less.prems(2) s1(2,3)], of "p + c" b' "acc @ map (byte_at ?v ?d) [p..<p + c]"]
    obtain s2 where s2: "read_loop a (int (n - c)) (int (p + c)) b' (acc @ map (byte_at ?v ?d) [p..<p + c]) s1
        = Inr ((acc @ map (byte_at ?v ?d) [p..<p + c]) @ bytes_between ?v ?d (p + c) (p + n), s2)" "same_meta s1 s2" "V s2 = ?v"
      using s1(3) c(3) by auto
    have up: "[p..<p + c] @ [p + c..<min (p + n) (nat ?len)] = [p..<min (p + n) (nat ?len)]"
      using c upt_add_eq_append [of p "p + c" "min (p + n) (nat ?len) - (p + c)"] by simp
    have "map (byte_at ?v ?d) [p..<p + c] @ bytes_between ?v ?d (p + c) (p + n) = bytes_between ?v ?d p (p + n)"
      unfolding bytes_between_def map_append [symmetric] up ..
    moreover have "read_loop a (int n) (int p) b acc s
        = read_loop a (int n - int c) (int p + int c) b' (acc @ map (byte_at ?v ?d) [p..<p + c]) s1"
      using pos(1) s1(1) c(2) by (subst read_loop.simps) simp
    ultimately show ?thesis
      using s2 c(3) same_meta_trans [OF s1(2) s2(2)] by (auto simp: of_nat_diff)
  qed
qed

lemma inode_read_at_spec:
  assumes "fs_base s" and "file_at s a i"
  shows "\<exists>s'. inode_read_at a (int n) (int p) s = Inr (take n (drop p (contents (V s) (data i))), s')
     \<and> same_meta s s' \<and> V s' = V s"
  using read_loop_spec [OF assms, of n p False "[]"] by (simp add: inode_read_at_def bytes_between_contents)

section \<open>Writing\<close>

lemma write_chunk_spec:
  assumes "fs_base s" and "file_at s a i" and "int p < flength (data i)" and "0 < n" and "length buf = n"
  defines "c \<equiv> nat (chunk (int n) (int p) (flength (data i)))" and "sec \<equiv> sector_of (V s) (data i) (p div 512)"
  shows "\<exists>b' s'. write_chunk a buf (int n) (int p) b s = Inr (int c, b', s') \<and> same_meta s s'
     \<and> V s' = (V s)(sec := take (p mod 512) (V s sec) @ take c buf @ drop (p mod 512 + c) (V s sec))"
proof -
  let ?d = "data i" and ?len = "flength (data i)"
  let ?new = "take (p mod 512) (V s sec) @ take c buf @ drop (p mod 512 + c) (V s sec)"
  have w: "wf_file (V s) (nsec s) ?d" using assms(2) by (simp add: file_at_def)
  have sec: "sec < nsec s" unfolding sec_def using wf_fileD(4) [OF w block_of_byte [OF assms(3)]] .
  obtain s1 where s1: "byte_to_sector a (int p) s = Inr (sec, s1)" "same_meta s s1" "V s1 = V s"
    using byte_to_sector_spec [OF assms(1-3)] by (auto simp: sec_def)
  note m1 = same_metaD [OF s1(2)]
  have len: "inode_length a s1 = Inr ?len" using inode_length_spec [OF file_at_same [OF assms(2) s1(2,3)]] .
  have pos: "0 < int n" using assms(4) by simp
  have c: "chunk (int n) (int p) ?len = int c" "0 < c" "c \<le> n" "p mod 512 + c \<le> 512"
    using chunk_pos [OF pos assms(3)] by (auto simp: c_def)
  have lv: "length (V s sec) = 512" using length_V [OF assms(1) sec] by (simp add: BLOCK_SECTOR_SIZE_def)
  have lnew: "length ?new = BLOCK_SECTOR_SIZE" using lv c assms(5) by (simp add: BLOCK_SECTOR_SIZE_def)
  show ?thesis
  proof (cases "p mod 512 = 0 \<and> c = 512")
    case True
    have new: "take BLOCK_SECTOR_SIZE buf = ?new" using True lv by (simp add: BLOCK_SECTOR_SIZE_def)
    obtain s2 where s2: "cwrite sec ?new s1 = Inr s2" "same_meta s1 s2" "V s2 = (V s)(sec := ?new)"
      using cwrite_spec [OF m1(1) _ lnew, of sec] sec m1(2) s1(3) by auto
    have "write_chunk a buf (int n) (int p) b s = Inr (int c, b, s2)"
      using s1(1) len s2(1) True c(1) unfolding new [symmetric]
      by (simp add: write_chunk_def cmod_sector BLOCK_SECTOR_SIZE_def)
    then show ?thesis using same_meta_trans [OF s1(2) s2(2)] s2(3) by auto
  next
    case False
    obtain s2 where s2: "bounce_buffer b s1 = (True, s2)" "same_meta s1 s2" "V s2 = V s"
      using bounce_spec [OF m1(1)] s1(3) by metis
    have part: "int (p mod 512) > 0 \<or> int c < 512 - int (p mod 512)" using False c(4) by auto
    obtain s3 where s3: "cread sec s2 = Inr (V s sec, s3)" "same_meta s2 s3" "V s3 = V s"
      using cread_spec [OF same_metaD(1) [OF s2(2)]] sec m1(2) same_metaD(2) [OF s2(2)] s2(3) by metis
    have "sec < nsec s3" using sec m1(2) same_metaD(2) [OF s2(2)] same_metaD(2) [OF s3(2)] by simp
    then obtain s4 where s4: "cwrite sec ?new s3 = Inr s4" "same_meta s3 s4" "V s4 = (V s)(sec := ?new)"
      using cwrite_spec [OF same_metaD(1) [OF s3(2)] _ lnew] s3(3) by metis
    have "\<not> (int (p mod 512) = 0 \<and> int c = 512)" "\<not> int c \<le> 0" using False c(2) by auto
    then have "write_chunk a buf (int n) (int p) b s = Inr (int c, True, s4)"
      using s1(1) len s2(1) s3(1) s4(1) part c(1)
      by (auto simp: write_chunk_def cmod_sector BLOCK_SECTOR_SIZE_def Let_def nat_add_distrib simp del: of_nat_mod)
    then show ?thesis
      using same_meta_trans [OF same_meta_trans [OF same_meta_trans [OF s1(2) s2(2)] s3(2)] s4(2)] s4(3) by auto
  qed
qed

text \<open>The effect of the new sector on the bytes of the file.\<close>

lemma byte_at_sector_update:
  assumes "wf_file v n d" and "int p < flength d" and "q div 512 < nblocks d"
    and "p mod 512 + length xs \<le> 512" and "length (v (sector_of v d (p div 512))) = 512"
  defines "sec \<equiv> sector_of v d (p div 512)"
  shows "byte_at (v(sec := take (p mod 512) (v sec) @ xs @ drop (p mod 512 + length xs) (v sec))) d q =
     (if p \<le> q \<and> q < p + length xs then xs ! (q - p) else byte_at v d q)"
proof -
  let ?v = "v(sec := take (p mod 512) (v sec) @ xs @ drop (p mod 512 + length xs) (v sec))"
  let ?b = "q div 512" and ?o = "q mod 512"
  have pb: "p div 512 < nblocks d" and qb: "?b < nblocks d" using block_of_byte [OF assms(2)] assms(3) by auto
  have "sec \<notin> index_sectors v d (nblocks d)" unfolding sec_def using wf_fileD(7) [OF assms(1) pb] .
  then have same: "sector_of ?v d ?b = sector_of v d ?b" by (intro sector_of_cong [OF _ qb]) auto
  have o: "?o < 512" "p mod 512 < 512" by simp_all
  have q: "q = 512 * ?b + ?o" "p = 512 * (p div 512) + p mod 512" by simp_all
  show ?thesis
  proof (cases "?b = p div 512")
    case True
    then have "byte_at ?v d q = (take (p mod 512) (v sec) @ xs @ drop (p mod 512 + length xs) (v sec)) ! ?o"
      using same by (simp add: byte_at_def sec_def)
    also have "\<dots> = (if p mod 512 \<le> ?o \<and> ?o < p mod 512 + length xs then xs ! (?o - p mod 512) else v sec ! ?o)"
      using assms(4,5) o by (auto simp: nth_append sec_def)
    also have "\<dots> = (if p \<le> q \<and> q < p + length xs then xs ! (q - p) else byte_at v d q)"
    proof -
      have k: "512 * ?b + ?o = q" "512 * ?b + p mod 512 = p" using True by (metis mult_div_mod_eq)+
      have "p mod 512 \<le> ?o \<longleftrightarrow> p \<le> q" "?o < p mod 512 + length xs \<longleftrightarrow> q < p + length xs" "?o - p mod 512 = q - p"
        using k by linarith+
      then show ?thesis using True by (simp add: byte_at_def sec_def)
    qed
    finally show ?thesis .
  next
    case False
    then have "sector_of v d ?b \<noteq> sec" unfolding sec_def using wf_fileD(6) [OF assms(1) qb pb] by auto
    then have "byte_at ?v d q = byte_at v d q" using same by (simp add: byte_at_def)
    moreover have "\<not> (p \<le> q \<and> q < p + length xs)" 
    proof
      assume r: "p \<le> q \<and> q < p + length xs"
      have "p + length xs \<le> 512 * (p div 512) + 512" using assms(4) by (metis add.assoc mult_div_mod_eq nat_add_left_cancel_le)
      then have "512 * (p div 512) \<le> q" "q < 512 * (p div 512) + 512"
        using r div_times_less_eq_dividend [of p 512] by linarith+
      then have "?b = p div 512" by (intro div_nat_eqI) simp_all
      then show False using False by simp
    qed
    ultimately show ?thesis by auto
  qed
qed

text \<open>What writing inside the file does: the bytes change where they were written, no other sector is touched.\<close>

definition wrote :: "(nat \<Rightarrow> byte list) \<Rightarrow> (nat \<Rightarrow> byte list) \<Rightarrow> inode_disk \<Rightarrow> nat \<Rightarrow> byte list \<Rightarrow> bool" where
  "wrote v v' d p buf \<longleftrightarrow>
     (\<forall>x. v' x \<noteq> v x \<longrightarrow> x \<in> sector_of v d ` {..<nblocks d})
     \<and> (\<forall>q. q div 512 < nblocks d \<longrightarrow> byte_at v' d q = (if p \<le> q \<and> q < p + length buf then buf ! (q - p) else byte_at v d q))"

lemma wrote_index: "wf_file v n d \<Longrightarrow> wrote v v' d p buf \<Longrightarrow> x \<in> index_sectors v d (nblocks d) \<Longrightarrow> v' x = v x"
  unfolding wrote_def wf_file_def by blast

lemma wrote_sector_of: "wf_file v n d \<Longrightarrow> wrote v v' d p buf \<Longrightarrow> i < nblocks d \<Longrightarrow> sector_of v' d i = sector_of v d i"
  using sector_of_cong wrote_index by metis

lemma wrote_trans:
  assumes "wf_file v n d" and "wrote v v1 d p xs" and "wrote v1 v2 d (p + length xs) ys"
  shows "wrote v v2 d p (xs @ ys)"
proof -
  have same: "sector_of v1 d ` {..<nblocks d} = sector_of v d ` {..<nblocks d}"
    using wrote_sector_of [OF assms(1,2)] by auto
  have "x \<in> sector_of v d ` {..<nblocks d}" if "v2 x \<noteq> v x" for x
    using assms(2,3) same that unfolding wrote_def by metis
  moreover have "byte_at v2 d q = (if p \<le> q \<and> q < p + length (xs @ ys) then (xs @ ys) ! (q - p) else byte_at v d q)"
    if "q div 512 < nblocks d" for q
    using assms(2,3) that unfolding wrote_def by (auto simp: nth_append)
  ultimately show ?thesis by (simp add: wrote_def)
qed

lemma wrote_contents:
  assumes "wrote v v' d p buf" and "p + length buf \<le> nat (flength d)"
  shows "contents v' d = take p (contents v d) @ buf @ drop (p + length buf) (contents v d)"
proof (rule nth_equalityI)
  show "length (contents v' d) = length (take p (contents v d) @ buf @ drop (p + length buf) (contents v d))"
    using assms(2) by (simp add: contents_def)
  fix q assume "q < length (contents v' d)"
  then have q: "q < nat (flength d)" by (simp add: contents_def)
  then have "contents v' d ! q = (if p \<le> q \<and> q < p + length buf then buf ! (q - p) else byte_at v d q)"
    using assms(1) block_of_byte [of q d] by (auto simp: contents_def wrote_def)
  also have "\<dots> = (take p (contents v d) @ buf @ drop (p + length buf) (contents v d)) ! q"
    using assms(2) q by (auto simp: nth_append contents_def)
  finally show "contents v' d ! q = (take p (contents v d) @ buf @ drop (p + length buf) (contents v d)) ! q" .
qed

lemma write_loop_spec:
  assumes "fs_base s" and "file_at s a i" and "int (p + length buf) \<le> flength (data i)"
  shows "\<exists>s'. write_loop a buf (int (length buf)) (int p) b bw s = Inr (bw + int (length buf), s')
     \<and> same_meta s s' \<and> wrote (V s) (V s') (data i) p buf"
  using assms
proof (induction "length buf" arbitrary: buf p b bw s rule: less_induct)
  case less
  let ?v = "V s" and ?d = "data i" and ?len = "flength (data i)"
  have w: "wf_file ?v (nsec s) ?d" using less.prems(2) by (simp add: file_at_def)
  show ?case
  proof (cases "buf = []")
    case True
    then show ?thesis
      using same_meta_refl [OF less.prems(1)] by (subst write_loop.simps) (auto simp: wrote_def)
  next
    case False
    define c where "c = nat (chunk (int (length buf)) (int p) ?len)"
    have pos: "0 < int (length buf)" "int p < ?len" using False less.prems(3) by (simp_all, cases buf, auto)
    have c: "chunk (int (length buf)) (int p) ?len = int c" "0 < c" "c \<le> length buf" "p mod 512 + c \<le> 512"
      using chunk_pos [OF pos] by (auto simp: c_def)
    obtain b' s1 where s1: "write_chunk a buf (int (length buf)) (int p) b s = Inr (int c, b', s1)" "same_meta s s1"
      "V s1 = ?v(sector_of ?v ?d (p div 512) := take (p mod 512) (?v (sector_of ?v ?d (p div 512))) @ take c buf
         @ drop (p mod 512 + c) (?v (sector_of ?v ?d (p div 512))))"
      using write_chunk_spec [OF less.prems(1,2) pos(2), of "length buf" buf b] pos(1) by (auto simp: c_def)
    have sec: "sector_of ?v ?d (p div 512) < nsec s" using wf_fileD(4) [OF w block_of_byte [OF pos(2)]] .
    have lv: "length (?v (sector_of ?v ?d (p div 512))) = 512"
      using length_V [OF less.prems(1) sec] by (simp add: BLOCK_SECTOR_SIZE_def)
    have lt: "length (take c buf) = c" using c by simp
    have w1: "wrote ?v (V s1) ?d p (take c buf)"
      unfolding wrote_def
    proof (intro conjI allI impI)
      show "x \<in> sector_of ?v ?d ` {..<nblocks ?d}" if "V s1 x \<noteq> ?v x" for x
        using that block_of_byte [OF pos(2)] unfolding s1(3) by (auto split: if_splits)
      show "byte_at (V s1) ?d q = (if p \<le> q \<and> q < p + length (take c buf) then take c buf ! (q - p) else byte_at ?v ?d q)"
        if "q div 512 < nblocks ?d" for q
        using byte_at_sector_update [OF w pos(2), of q "take c buf"] that c(4) lv unfolding s1(3) lt by simp
    qed
    have f1: "file_at s1 a i"
      using less.prems(2) same_metaD [OF s1(2)] wf_file_cong [OF wrote_index [OF w w1] w] by (simp add: file_at_def)
    have "length (drop c buf) < length buf" using c False by simp
    from less.hyps [OF this same_metaD(1) [OF s1(2)] f1, of "p + c" b' "bw + int c"]
    obtain s2 where s2: "write_loop a (drop c buf) (int (length (drop c buf))) (int (p + c)) b' (bw + int c) s1
        = Inr (bw + int c + int (length (drop c buf)), s2)" "same_meta s1 s2" "wrote (V s1) (V s2) ?d (p + c) (drop c buf)"
      using less.prems(3) c(3) by auto
    have "write_loop a buf (int (length buf)) (int p) b bw s
        = write_loop a (drop c buf) (int (length buf) - int c) (int p + int c) b' (bw + int c) s1"
      using pos(1) s1(1) c(2) by (subst write_loop.simps) simp
    moreover have "wrote ?v (V s2) ?d p buf"
      using wrote_trans [OF w w1, of "V s2" "drop c buf"] s2(3) lt by simp
    ultimately show ?thesis
      using s2 c(3) same_meta_trans [OF s1(2) s2(2)] by (auto simp: of_nat_diff)
  qed
qed

text \<open>A write that ends inside the file.\<close>

lemma inode_write_inside:
  assumes "fs_base s" and "file_at s a i" and "deny_write_cnt i = 0"
    and "buf \<noteq> []" and "int (p + length buf) \<le> flength (data i)"
  shows "\<exists>s'. inode_write sv a buf (int (length buf)) (int p) s = Inr (int (length buf), s')
     \<and> same_meta s s' \<and> wrote (V s) (V s') (data i) p buf"
proof -
  define q where "q = p + length buf - 1"
  let ?d = "data i"
  have q: "int p + int (length buf) - 1 = int q" "int q < flength ?d"
    using assms(4,5) by (cases buf; simp add: q_def)+
  obtain s1 where s1: "byte_to_sector a (int q) s = Inr (sector_of (V s) ?d (q div 512), s1)" "same_meta s s1" "V s1 = V s"
    using byte_to_sector_spec [OF assms(1,2) q(2)] by blast
  have "sector_of (V s) ?d (q div 512) < nsec s"
    using assms(2) wf_fileD(4) block_of_byte [OF q(2)] by (auto simp: file_at_def)
  then have "sector_of (V s) ?d (q div 512) \<noteq> NO_SECTOR" using assms(1) by (simp add: fs_base_def)
  then have "inode_write sv a buf (int (length buf)) (int p) s = write_loop a buf (int (length buf)) (int p) False 0 s1"
    using get_inode [OF assms(2)] assms(3) s1(1) q(1) by (simp add: inode_write_def)
  moreover obtain s2 where "write_loop a buf (int (length buf)) (int p) False 0 s1 = Inr (int (length buf), s2)"
    "same_meta s1 s2" "wrote (V s) (V s2) ?d p buf"
    using write_loop_spec [OF same_metaD(1) [OF s1(2)] file_at_same [OF assms(2) s1(2,3)] assms(5), of False 0] s1(3) by auto
  ultimately show ?thesis using same_meta_trans [OF s1(2)] by auto
qed

lemma inode_write_denied:
  "a \<noteq> NULL \<Longrightarrow> inodes s a = Some i \<Longrightarrow> deny_write_cnt i \<noteq> 0 \<Longrightarrow> inode_write sv a buf sz p s = Inr (0, s)"
  by (simp add: inode_write_def get_obj_def)

end
