(* ===== verification/Inode_Grow.thy ===== *)
theory Inode_Grow
  imports Inode_Io
begin

text \<open>
  File growth. \<^verbatim>\<open>inode_reserve\<close> fills the missing entries of the block tree of an
  inode with fresh sectors. The theory describes the tree, the sectors a file owns, and the
  invariant of the free map, and shows that growth with enough free sectors succeeds, takes only
  sectors that were free, fills them with zeros and leaves every block the file had in place.
\<close>

section \<open>Block trees\<close>

text \<open>
  The data sectors under an entry of level \<open>l\<close> (0 for an entry that is missing), and the
  index sectors that lead to them.
\<close>

fun leaves :: "(nat \<Rightarrow> byte list) \<Rightarrow> nat \<Rightarrow> nat \<Rightarrow> nat list" where
  "leaves v 0 e = [e]"
| "leaves v (Suc l) e = (if e = 0 then replicate (128 ^ Suc l) 0 else concat (map (leaves v l) (decode_blocks (v e))))"

fun idx :: "(nat \<Rightarrow> byte list) \<Rightarrow> nat \<Rightarrow> nat \<Rightarrow> nat list" where
  "idx v 0 e = []"
| "idx v (Suc l) e = (if e = 0 then [] else e # concat (map (idx v l) (decode_blocks (v e))))"

definition nz :: "nat list \<Rightarrow> nat list" where
  "nz xs = filter (\<lambda>x. x \<noteq> 0) xs"

definition own :: "(nat \<Rightarrow> byte list) \<Rightarrow> nat \<Rightarrow> nat list \<Rightarrow> nat list" where
  "own v l es = nz (concat (map (leaves v l) es)) @ concat (map (idx v l) es)"

lemma nz_append [simp]: "nz (xs @ ys) = nz xs @ nz ys" and nz_Nil [simp]: "nz [] = []"
  and set_nz [simp]: "set (nz xs) = set xs - {0}" and nz_replicate [simp]: "nz (replicate n 0) = []"
  by (auto simp: nz_def)

lemma own_Cons_set: "set (own v l (e # es)) = set (own v l [e]) \<union> set (own v l es)"
  by (auto simp: own_def)

lemma own_Cons_distinct:
  "distinct (own v l (e # es)) \<longleftrightarrow>
   distinct (own v l [e]) \<and> distinct (own v l es) \<and> set (own v l [e]) \<inter> set (own v l es) = {}"
  by (auto simp: own_def)

lemma own_append_set: "set (own v l (es @ fs)) = set (own v l es) \<union> set (own v l fs)"
  by (auto simp: own_def)

lemma own_append_distinct:
  "distinct (own v l (es @ fs)) \<longleftrightarrow>
   distinct (own v l es) \<and> distinct (own v l fs) \<and> set (own v l es) \<inter> set (own v l fs) = {}"
  by (auto simp: own_def)

lemma leaves_zero [simp]: "leaves v l 0 = replicate (128 ^ l) 0"
  by (cases l) simp_all

lemma idx_zero [simp]: "idx v l 0 = []"
  by (cases l) simp_all

lemma own_zero [simp]: "own v l [0] = []"
  by (simp add: own_def)

lemma idx_own: "set (idx v l e) \<subseteq> set (own v l [e])"
  by (auto simp: own_def)

lemma own_Suc_set: "e \<noteq> 0 \<Longrightarrow> set (own v (Suc l) [e]) = insert e (set (own v l (decode_blocks (v e))))"
  by (auto simp: own_def)

lemma own_Suc_distinct:
  "e \<noteq> 0 \<Longrightarrow> distinct (own v (Suc l) [e]) \<longleftrightarrow>
     distinct (own v l (decode_blocks (v e))) \<and> e \<notin> set (own v l (decode_blocks (v e)))"
  by (auto simp: own_def)

text \<open>A tree depends on its index sectors only.\<close>

lemma tree_cong:
  "(\<And>x. x \<in> set (idx v l e) \<Longrightarrow> v' x = v x) \<Longrightarrow> leaves v' l e = leaves v l e \<and> idx v' l e = idx v l e"
proof (induction l arbitrary: e)
  case (Suc l)
  show ?case
  proof (cases "e = 0")
    case False
    then have e: "v' e = v e" using Suc.prems [of e] by simp
    have "leaves v' l b = leaves v l b \<and> idx v' l b = idx v l b" if "b \<in> set (decode_blocks (v e))" for b
      by (rule Suc.IH) (use Suc.prems False that in auto)
    then show ?thesis using False e by (simp cong: map_cong)
  qed simp
qed simp

lemma own_cong:
  assumes "\<And>x. x \<in> set (own v l es) \<Longrightarrow> v' x = v x"
  shows "map (leaves v' l) es = map (leaves v l) es" "own v' l es = own v l es"
    "concat (map (idx v' l) es) = concat (map (idx v l) es)"
proof -
  have t: "leaves v' l e = leaves v l e \<and> idx v' l e = idx v l e" if "e \<in> set es" for e
    by (rule tree_cong, rule assms) (use that in \<open>auto simp: own_def\<close>)
  show a: "map (leaves v' l) es = map (leaves v l) es" and b: "concat (map (idx v' l) es) = concat (map (idx v l) es)"
    using t by (simp_all cong: map_cong)
  show "own v' l es = own v l es" unfolding own_def a b ..
qed

lemma length_leaves:
  "(\<And>x. x \<in> set (idx v l e) \<Longrightarrow> length (v x) = 512) \<Longrightarrow> length (leaves v l e) = 128 ^ l"
proof (induction l arbitrary: e)
  case (Suc l)
  show ?case
  proof (cases "e = 0")
    case False
    have n: "length (decode_blocks (v e)) = 128" using Suc.prems [of e] False by simp
    have "map (length \<circ> leaves v l) (decode_blocks (v e)) = replicate 128 (128 ^ l)"
    proof (rule nth_equalityI)
      fix i assume "i < length (map (length \<circ> leaves v l) (decode_blocks (v e)))"
      then have i: "i < 128" using n by simp
      have "length (leaves v l (decode_blocks (v e) ! i)) = 128 ^ l"
        by (rule Suc.IH, rule Suc.prems) (use False i n nth_mem in fastforce)
      then show "map (length \<circ> leaves v l) (decode_blocks (v e)) ! i = replicate 128 (128 ^ l) ! i"
        using i n by simp
    qed (use n in simp)
    then show ?thesis using False by (simp add: length_concat sum_list_replicate)
  qed simp
qed simp

lemma length_leaves_list:
  "(\<And>x. x \<in> set (own v l es) \<Longrightarrow> length (v x) = 512) \<Longrightarrow> length (concat (map (leaves v l) es)) = length es * 128 ^ l"
proof (induction es)
  case (Cons e es)
  have "length (leaves v l e) = 128 ^ l" by (rule length_leaves, rule Cons.prems) (auto simp: own_def)
  moreover have "length (concat (map (leaves v l) es)) = length es * 128 ^ l"
    by (rule Cons.IH, rule Cons.prems) (auto simp: own_def)
  ultimately show ?case by simp
qed simp

text \<open>
  Filling the first \<open>n\<close> entries: present entries stay, missing ones among the first \<open>n\<close>
  become fresh sectors full of zeros, the others stay missing.
\<close>

definition filled :: "(nat \<Rightarrow> byte list) \<Rightarrow> nat set \<Rightarrow> nat \<Rightarrow> nat list \<Rightarrow> nat list \<Rightarrow> bool" where
  "filled v A n xs ys \<longleftrightarrow> length ys = length xs \<and>
     (\<forall>i<length xs. if xs ! i \<noteq> 0 then ys ! i = xs ! i
        else if i < n then ys ! i \<in> A \<and> v (ys ! i) = zeros else ys ! i = 0)"

lemma filled_append:
  assumes "filled v A (min n (length xs)) xs ys" and "filled v A (n - min n (length xs)) xs2 ys2"
  shows "filled v A n (xs @ xs2) (ys @ ys2)"
  using assms unfolding filled_def
  by (auto simp: nth_append less_diff_conv2 split: if_splits)

lemma filled_mono:
  assumes "filled v A n xs ys" and "A \<subseteq> B" and "\<And>x. x \<in> A \<Longrightarrow> v' x = v x"
  shows "filled v' B n xs ys"
  using assms unfolding filled_def by (metis subsetD)

lemma filled_zero: "filled v A 0 xs xs"
  by (simp add: filled_def)

section \<open>The free map\<close>

abbreviation used :: "fs \<Rightarrow> nat set" where
  "used s \<equiv> used_bits (free_map s)"

text \<open>The sectors of the free map file, once it is open.\<close>

definition fm_inode :: "fs \<Rightarrow> inode option" where
  "fm_inode s = (if free_map_file s = NULL then None
     else Option.bind (files s (free_map_file s)) (\<lambda>f. inodes s (f_inode f)))"

definition fm_own :: "fs \<Rightarrow> nat set" where
  "fm_own s = (case fm_inode s of None \<Rightarrow> {} | Some i \<Rightarrow> own_sectors (V s) (data i))"

definition fm_ok :: "fs \<Rightarrow> bool" where
  "fm_ok s \<longleftrightarrow> wf_bitmap (free_map s) \<and> bit_cnt (free_map s) = nsec s \<and> 0 \<in> used s
     \<and> (free_map_file s \<noteq> NULL \<longrightarrow> (\<exists>f i. files s (free_map_file s) = Some f \<and> file_at s (f_inode f) i
          \<and> deny_write_cnt i = 0 \<and> flength (data i) = int (byte_cnt (nsec s)) \<and> own_sectors (V s) (data i) \<subseteq> used s))"

definition fs_inv :: "fs \<Rightarrow> bool" where
  "fs_inv s \<longleftrightarrow> fs_base s \<and> fm_ok s"

definition chg :: "(nat \<Rightarrow> byte list) \<Rightarrow> (nat \<Rightarrow> byte list) \<Rightarrow> nat set \<Rightarrow> bool" where
  "chg v v' S \<longleftrightarrow> (\<forall>x. x \<notin> S \<longrightarrow> v' x = v x)"

text \<open>What allocating the sectors \<open>A\<close> changes.\<close>

definition alloc_rel :: "fs \<Rightarrow> fs \<Rightarrow> nat set \<Rightarrow> bool" where
  "alloc_rel s s' A \<longleftrightarrow> fs_inv s' \<and> nsec s' = nsec s \<and> free_map_file s' = free_map_file s \<and> inodes s' = inodes s
     \<and> open_inodes s' = open_inodes s \<and> files s' = files s \<and> dirs s' = dirs s \<and> cwd s' = cwd s
     \<and> used s' = used s \<union> A \<and> A \<inter> used s = {} \<and> fm_own s' = fm_own s"

lemma alloc_relD:
  assumes "alloc_rel s s' A"
  shows "fs_inv s'" "nsec s' = nsec s" "used s' = used s \<union> A" "A \<inter> used s = {}" "fm_own s' = fm_own s"
    "inodes s' = inodes s" "free_map_file s' = free_map_file s"
  using assms by (simp_all add: alloc_rel_def)

lemma alloc_rel_refl: "fs_inv s \<Longrightarrow> alloc_rel s s {}"
  by (simp add: alloc_rel_def)

lemma alloc_rel_trans: "alloc_rel s s1 A \<Longrightarrow> alloc_rel s1 s2 B \<Longrightarrow> alloc_rel s s2 (A \<union> B)"
  by (auto simp: alloc_rel_def)

lemma fs_inv_base: "fs_inv s \<Longrightarrow> fs_base s"
  by (simp add: fs_inv_def)

lemma used_less: "fs_inv s \<Longrightarrow> x \<in> used s \<Longrightarrow> x < nsec s"
  by (simp add: fs_inv_def fm_ok_def used_bits_def)

lemma zero_used: "fs_inv s \<Longrightarrow> 0 \<in> used s"
  by (simp add: fs_inv_def fm_ok_def)

lemma fm_own_used: "fs_inv s \<Longrightarrow> fm_own s \<subseteq> used s"
  by (auto simp: fs_inv_def fm_ok_def fm_own_def fm_inode_def file_at_def split: if_splits option.splits)

lemma fm_file:
  assumes "fs_inv s" and "free_map_file s \<noteq> NULL"
  obtains f i where "files s (free_map_file s) = Some f" "file_at s (f_inode f) i" "deny_write_cnt i = 0"
    "flength (data i) = int (byte_cnt (nsec s))" "own_sectors (V s) (data i) = fm_own s"
proof -
  obtain f i where f: "files s (free_map_file s) = Some f" "file_at s (f_inode f) i" "deny_write_cnt i = 0"
    "flength (data i) = int (byte_cnt (nsec s))"
    using assms by (auto simp: fs_inv_def fm_ok_def)
  moreover have "own_sectors (V s) (data i) = fm_own s"
    using f assms(2) by (simp add: fm_own_def fm_inode_def file_at_def)
  ultimately show thesis by (rule that)
qed

text \<open>The invariant survives changes of sectors that the free map file does not use.\<close>

lemma fs_inv_same_meta:
  assumes "fs_inv s" and "same_meta s s'" and "\<And>x. x \<in> fm_own s \<Longrightarrow> V s' x = V s x"
  shows "fs_inv s'" and "fm_own s' = fm_own s" and "alloc_rel s s' {}"
proof -
  note m = same_metaD [OF assms(2)]
  have fm: "fm_inode s' = fm_inode s" using m by (simp add: fm_inode_def)
  have eq: "own_sectors (V s') (data i) = own_sectors (V s) (data i)" "wf_file (V s) n (data i) \<Longrightarrow> wf_file (V s') n (data i)"
    if "own_sectors (V s) (data i) = fm_own s" for i n
    using own_sectors_cong [of "V s" "data i" "V s'"] wf_file_cong [of "V s" "data i" "V s'" n] assms(3) that
    by (auto simp: own_sectors_def)
  show "fm_own s' = fm_own s"
  proof (cases "fm_inode s")
    case (Some i)
    then have o: "own_sectors (V s) (data i) = fm_own s" by (simp add: fm_own_def)
    have "fm_own s' = own_sectors (V s') (data i)" using Some fm by (simp add: fm_own_def)
    also have "\<dots> = fm_own s" using eq(1) [OF o] o by (rule trans)
    finally show ?thesis .
  qed (simp add: fm_own_def fm)
  have ok: "fm_ok s" using assms(1) by (simp add: fs_inv_def)
  have "\<exists>f i. files s' (free_map_file s') = Some f \<and> file_at s' (f_inode f) i \<and> deny_write_cnt i = 0
      \<and> flength (data i) = int (byte_cnt (nsec s')) \<and> own_sectors (V s') (data i) \<subseteq> used s'"
    if "free_map_file s' \<noteq> NULL"
  proof -
    have "free_map_file s \<noteq> NULL" using that m by simp
    then obtain f i where f: "files s (free_map_file s) = Some f" "file_at s (f_inode f) i" "deny_write_cnt i = 0"
      "flength (data i) = int (byte_cnt (nsec s))" "own_sectors (V s) (data i) = fm_own s"
      using fm_file [OF assms(1)] by blast
    have "own_sectors (V s') (data i) \<subseteq> used s'" using eq(1) [OF f(5)] f(5) fm_own_used [OF assms(1)] m by simp
    moreover have "file_at s' (f_inode f) i" using f(2) eq(2) [OF f(5)] m by (simp add: file_at_def)
    ultimately show ?thesis using f m by auto
  qed
  then show "fs_inv s'" using ok m by (auto simp: fs_inv_def fm_ok_def)
  then show "alloc_rel s s' {}" using m \<open>fm_own s' = fm_own s\<close> by (simp add: alloc_rel_def)
qed

lemma fs_inv_set_map:
  assumes "fs_inv s" and "wf_bitmap m" and "bit_cnt m = bit_cnt (free_map s)" and "used s \<subseteq> used_bits m"
  shows "fs_inv (s\<lparr>free_map := m\<rparr>)" "fm_own (s\<lparr>free_map := m\<rparr>) = fm_own s"
  using assms by (auto simp: fs_inv_def fm_ok_def fs_base_def file_at_def fm_own_def fm_inode_def)

definition saver_ok :: "saver \<Rightarrow> bool" where
  "saver_ok sv \<longleftrightarrow> (\<forall>s. fs_inv s \<longrightarrow> free_map_file s \<noteq> NULL \<longrightarrow>
     (\<exists>s'. sv s = Inr (True, s') \<and> same_meta s s' \<and> fs_inv s' \<and> fm_own s' = fm_own s \<and> chg (V s) (V s') (fm_own s)))"

text \<open>Saving the free map stays inside its file, whatever the bound on the recursion.\<close>

lemma save_free_map_ok: "saver_ok (save_free_map (Suc n))"
  unfolding saver_ok_def
proof (intro allI impI)
  fix s assume s: "fs_inv s" "free_map_file s \<noteq> NULL"
  obtain f i where f: "files s (free_map_file s) = Some f" "file_at s (f_inode f) i" "deny_write_cnt i = 0"
    "flength (data i) = int (byte_cnt (nsec s))" "own_sectors (V s) (data i) = fm_own s"
    using fm_file [OF s] by blast
  let ?b = "free_map s" and ?d = "data i"
  define img where "img = fst (bitmap_write ?b 0)"
  have b: "wf_bitmap ?b" "bit_cnt ?b = nsec s" "0 < nsec s" using s(1) used_less [OF s(1) zero_used [OF s(1)]]
    by (auto simp: fs_inv_def fm_ok_def)
  have len: "length img = byte_cnt (nsec s)" using b by (simp add: img_def bitmap_write_def byte_cnt_def wf_bitmap_def)
  have "0 < elem_cnt (nsec s)" using b(3) by (simp add: elem_cnt_def ELEM_BITS_def less_DIV_ROUND_UP_iff)
  then have ne: "img \<noteq> []" using len by (auto simp: byte_cnt_def)
  have w: "wf_file (V s) (nsec s) ?d" using f(2) by (simp add: file_at_def)
  obtain s' where s': "inode_write (save_free_map n) (f_inode f) img (int (length img)) (int 0) s = Inr (int (length img), s')"
    "same_meta s s'" "wrote (V s) (V s') ?d 0 img"
    using inode_write_inside [OF fs_inv_base [OF s(1)] f(2,3) ne, of 0] f(4) len by auto
  have e: "save_free_map (Suc n) s = Inr (True, s')"
    using s(2) f(1) s'(1) len same_metaD(3) [OF s'(2)] b(2)
    by (simp add: get_obj_def img_def bitmap_write_def Let_def)
  have chg: "chg (V s) (V s') (fm_own s)"
    using s'(3) f(5) unfolding chg_def wrote_def own_sectors_def by blast
  have ix: "V s' x = V s x" if "x \<in> index_sectors (V s) ?d (nblocks ?d)" for x using wrote_index [OF w s'(3) that] .
  have own: "own_sectors (V s') ?d = own_sectors (V s) ?d" by (rule own_sectors_cong [OF ix])
  note m = same_metaD [OF s'(2)]
  have "file_at s' (f_inode f) i" using f(2) wf_file_cong [OF ix w] m by (simp add: file_at_def)
  then have "fs_inv s'"
    using s(1) f own m fm_own_used [OF s(1)] by (auto simp: fs_inv_def fm_ok_def)
  moreover have "fm_own s' = fm_own s"
    using m f(1,2,5) s(2) own by (simp add: fm_own_def fm_inode_def file_at_def)
  ultimately show "\<exists>s'. save_free_map (Suc n) s = Inr (True, s') \<and> same_meta s s' \<and> fs_inv s' \<and> fm_own s' = fm_own s
      \<and> chg (V s) (V s') (fm_own s)"
    using e s'(2) chg by blast
qed

lemma save_ok: "saver_ok save"
  using save_free_map_ok unfolding saver_ok_def save_def by blast

lemma allocate_spec:
  assumes "fs_inv s" and "saver_ok sv" and "used s \<noteq> {..<nsec s}"
  shows "\<exists>sec s'. free_map_allocate sv 1 s = Inr (True, sec, s') \<and> alloc_rel s s' {sec} \<and> sec \<noteq> 0 \<and> sec < nsec s
     \<and> chg (V s) (V s') (fm_own s)"
proof -
  let ?b = "free_map s"
  have b: "wf_bitmap ?b" "bit_cnt ?b = nsec s" using assms(1) by (auto simp: fs_inv_def fm_ok_def)
  obtain sec m where m: "bitmap_scan_and_flip ?b 0 1 False = Inr (sec, m)" using bits.alloc_returns [OF b(1)] by blast
  have "sec \<noteq> BITMAP_ERROR"
  proof
    assume "sec = BITMAP_ERROR"
    then have "\<forall>i. i + 1 \<le> nsec s \<longrightarrow> {i..<i + 1} \<inter> used s \<noteq> {}" using bits.alloc_failed [OF b(1), of 1 m] m b(2) by simp
    then have "{..<nsec s} \<subseteq> used s" by (force simp: Suc_le_eq)
    then show False using assms(3) used_less [OF assms(1)] by auto
  qed
  note ok = bits.alloc_ok [OF b(1) m this]
  have sec: "sec < nsec s" "sec \<notin> used s" "used_bits m = insert sec (used s)" "wf_bitmap m" "bit_cnt m = nsec s"
    using ok b(2) by auto
  let ?s = "s\<lparr>free_map := m\<rparr>"
  have s1: "fs_inv ?s" "fm_own ?s = fm_own s" using fs_inv_set_map [OF assms(1), of m] sec b(2) by auto
  have rel: "alloc_rel s ?s {sec}" using s1 sec by (simp add: alloc_rel_def)
  have nz: "sec \<noteq> 0" using sec(2) zero_used [OF assms(1)] by (cases "sec = 0") auto
  show ?thesis
  proof (cases "free_map_file s = NULL")
    case True
    then have "free_map_allocate sv 1 s = Inr (True, sec, ?s)"
      using m \<open>sec \<noteq> BITMAP_ERROR\<close> by (simp add: free_map_allocate_def)
    then show ?thesis using rel nz sec(1) by (auto simp: chg_def)
  next
    case False
    then obtain s2 where s2: "sv ?s = Inr (True, s2)" "same_meta ?s s2" "fs_inv s2" "fm_own s2 = fm_own ?s"
      "chg (V ?s) (V s2) (fm_own ?s)"
      using assms(2) s1(1) unfolding saver_ok_def by fastforce
    have "alloc_rel ?s s2 {}" using s2 same_metaD [OF s2(2)] by (simp add: alloc_rel_def)
    then have "alloc_rel s s2 {sec}" using alloc_rel_trans [OF rel] by force
    moreover have "free_map_allocate sv 1 s = Inr (True, sec, s2)"
      using m \<open>sec \<noteq> BITMAP_ERROR\<close> False s2(1) by (simp add: free_map_allocate_def)
    ultimately show ?thesis using nz sec(1) s2(5) s1(2) by auto
  qed
qed

section \<open>Filling a block tree\<close>

definition free_cnt :: "fs \<Rightarrow> nat" where
  "free_cnt s = card ({..<nsec s} - used s)"

lemma alloc_rel_free:
  assumes "alloc_rel s s' A"
  shows "free_cnt s' = free_cnt s - card A" and "finite A" and "A \<subseteq> {..<nsec s}"
proof -
  note r = alloc_relD [OF assms]
  show sub: "A \<subseteq> {..<nsec s}" using r(2,3) used_less [OF r(1)] by auto
  then show fin: "finite A" by (rule finite_subset) simp
  have "{..<nsec s'} - used s' = ({..<nsec s} - used s) - A" using r by auto
  moreover have "A \<subseteq> {..<nsec s} - used s" using sub r(4) by auto
  ultimately show "free_cnt s' = free_cnt s - card A" using fin by (simp add: free_cnt_def card_Diff_subset)
qed

lemma free_cnt_pos:
  assumes "0 < free_cnt s"
  shows "used s \<noteq> {..<nsec s}"
proof
  assume "used s = {..<nsec s}"
  then have "{..<nsec s} - used s = {}" by blast
  then show False using assms unfolding free_cnt_def by (metis card.empty less_irrefl)
qed

text \<open>The entries one entry of an index sector of level \<open>l + 1\<close> stands for, and how many sectors filling takes.\<close>

definition unit_of :: "nat \<Rightarrow> nat" where
  "unit_of l = (if l = 0 then 1 else INDIRECT_BLOCKS_PER_SECTOR)"

lemma unit_of_power:
  assumes "l \<le> 1"
  shows "unit_of l = 128 ^ l"
proof -
  consider "l = 0" | "l = 1" using assms by linarith
  then show ?thesis by cases (simp_all add: unit_of_def INDIRECT_BLOCKS_PER_SECTOR_def)
qed

fun loop_cost :: "(nat \<Rightarrow> nat) \<Rightarrow> nat \<Rightarrow> nat \<Rightarrow> nat \<Rightarrow> nat" where
  "loop_cost c u 0 n = 0"
| "loop_cost c u (Suc k) n = c (min n u) + loop_cost c u k (n - min n u)"

fun cost :: "nat \<Rightarrow> nat \<Rightarrow> nat" where
  "cost 0 n = 1"
| "cost (Suc l) n = 1 + loop_cost (cost l) (unit_of l) (DIV_ROUND_UP n (unit_of l)) n"

definition reserved :: "fs \<Rightarrow> fs \<Rightarrow> nat \<Rightarrow> nat list \<Rightarrow> nat list \<Rightarrow> nat \<Rightarrow> nat set \<Rightarrow> bool" where
  "reserved s s' l es es' n A \<longleftrightarrow> alloc_rel s s' A
     \<and> chg (V s) (V s') (A \<union> fm_own s \<union> set (concat (map (idx (V s) l) es)))
     \<and> distinct (own (V s') l es') \<and> set (own (V s') l es') = set (own (V s) l es) \<union> A
     \<and> filled (V s') A n (concat (map (leaves (V s) l) es)) (concat (map (leaves (V s') l) es'))
     \<and> length es' = length es"

text \<open>The trees of the entries \<open>es\<close> are apart, allocated, and not part of the free map file.\<close>

definition tree_ok :: "fs \<Rightarrow> nat \<Rightarrow> nat list \<Rightarrow> bool" where
  "tree_ok s l es \<longleftrightarrow> distinct (own (V s) l es) \<and> set (own (V s) l es) \<subseteq> used s - fm_own s"

definition reserve_spec :: "saver \<Rightarrow> nat \<Rightarrow> bool" where
  "reserve_spec sv l \<longleftrightarrow> (\<forall>e n s. fs_inv s \<longrightarrow> 0 < n \<longrightarrow> n \<le> 128 ^ l \<longrightarrow> tree_ok s l [e] \<longrightarrow> cost l n \<le> free_cnt s \<longrightarrow>
     (\<exists>e' s' A. inode_reserve_indirect sv l e n s = Inr (True, e', s') \<and> reserved s s' l [e] [e'] n A \<and> card A \<le> cost l n))"

lemma tree_ok_Cons: "tree_ok s l (e # es) \<longleftrightarrow>
    tree_ok s l [e] \<and> tree_ok s l es \<and> set (own (V s) l [e]) \<inter> set (own (V s) l es) = {}"
  unfolding tree_ok_def own_Cons_distinct [of _ _ e es] own_Cons_set [of _ _ e es] by auto

lemma length_own:
  assumes "fs_inv s" and "tree_ok s l es"
  shows "length (concat (map (leaves (V s) l) es)) = length es * 128 ^ l"
proof (rule length_leaves_list)
  fix x assume "x \<in> set (own (V s) l es)"
  then have "x < nsec s" using assms used_less by (auto simp: tree_ok_def)
  then show "length (V s x) = 512" using length_V fs_inv_base [OF assms(1)] by (simp add: BLOCK_SECTOR_SIZE_def)
qed

lemma reservedD:
  assumes "reserved s s' l es es' n A"
  shows "alloc_rel s s' A" "chg (V s) (V s') (A \<union> fm_own s \<union> set (concat (map (idx (V s) l) es)))"
    "distinct (own (V s') l es')" "set (own (V s') l es') = set (own (V s) l es) \<union> A"
    "filled (V s') A n (concat (map (leaves (V s) l) es)) (concat (map (leaves (V s') l) es'))" "length es' = length es"
    "used s' = used s \<union> A" "A \<inter> used s = {}" "fm_own s' = fm_own s" "fs_inv s'"
  using assms unfolding reserved_def alloc_rel_def by blast+

text \<open>What filling some entries leaves alone.\<close>

lemma reserved_frame:
  assumes "reserved s s' l es es' n A" and "X \<subseteq> used s - fm_own s" and "X \<inter> set (own (V s) l es) = {}" and "x \<in> X"
  shows "V s' x = V s x"
proof -
  note r = reservedD [OF assms(1)]
  have "set (concat (map (idx (V s) l) es)) \<subseteq> set (own (V s) l es)" by (auto simp: own_def)
  then have "x \<notin> A \<union> fm_own s \<union> set (concat (map (idx (V s) l) es))" using assms(2-4) r(8) by blast
  then show ?thesis using r(2) unfolding chg_def by blast
qed

lemma reserved_tree_ok:
  assumes "fs_inv s" and "reserved s s' l es es' n A" and "tree_ok s l es"
  shows "tree_ok s' l es'"
proof -
  note r = reservedD [OF assms(2)]
  then show ?thesis
    using assms(3) fm_own_used [OF assms(1)] r(3,4,7-9) unfolding tree_ok_def by blast
qed

lemma tree_ok_frame:
  assumes "reserved s s' l es es' n A" and "tree_ok s m fs" and "set (own (V s) m fs) \<inter> set (own (V s) l es) = {}"
  shows "tree_ok s' m fs" and "own (V s') m fs = own (V s) m fs" and "map (leaves (V s') m) fs = map (leaves (V s) m) fs"
    and "concat (map (idx (V s') m) fs) = concat (map (idx (V s) m) fs)"
proof -
  have same: "V s' x = V s x" if "x \<in> set (own (V s) m fs)" for x
    using reserved_frame [OF assms(1) _ assms(3) that] assms(2) by (simp add: tree_ok_def)
  show own: "own (V s') m fs = own (V s) m fs" by (rule own_cong(2) [OF same])
  show "map (leaves (V s') m) fs = map (leaves (V s) m) fs" by (rule own_cong(1) [OF same])
  show "concat (map (idx (V s') m) fs) = concat (map (idx (V s) m) fs)" by (rule own_cong(3) [OF same])
  show "tree_ok s' m fs" using assms(2) own reservedD(7,9) [OF assms(1)] by (auto simp: tree_ok_def)
qed

lemma reserved_Cons:
  assumes "fs_inv s" and "tree_ok s l (b # rs)" and "reserved s s1 l [b] [b'] (min n (128 ^ l)) A"
    and "reserved s1 s2 l rs rs' (n - min n (128 ^ l)) B"
  shows "reserved s s2 l (b # rs) (b' # rs') n (A \<union> B)"
proof -
  have ok: "tree_ok s l [b]" "tree_ok s l rs" and dis: "set (own (V s) l [b]) \<inter> set (own (V s) l rs) = {}"
    using tree_ok_Cons [THEN iffD1, OF assms(2)] by blast+
  note r1 = reservedD [OF assms(3)] and r2 = reservedD [OF assms(4)]
  have d2: "set (own (V s) l rs) \<inter> set (own (V s) l [b]) = {}" using dis by blast
  note f1 = tree_ok_frame [OF assms(3) ok(2) d2]
  have A: "A \<inter> used s = {}" using r1(8) .
  have ok1: "tree_ok s1 l [b']" using reserved_tree_ok [OF assms(1,3) ok(1)] .
  have d1: "set (own (V s1) l [b']) \<inter> set (own (V s1) l rs) = {}"
    unfolding r1(4) f1(2) using dis A ok(2) by (auto simp: tree_ok_def)
  note f2 = tree_ok_frame [OF assms(4) ok1 d1]
  have B: "B \<inter> used s1 = {}" using r2(8) .
  have own2: "set (own (V s2) l (b' # rs')) = set (own (V s) l (b # rs)) \<union> (A \<union> B)"
    unfolding own_Cons_set [of _ _ b' rs'] own_Cons_set [of _ _ b rs] f2(2) r1(4) r2(4) f1(2) by auto
  have "set (own (V s1) l [b']) \<inter> set (own (V s2) l rs') = {}"
    unfolding r2(4) using d1 B ok1 by (auto simp: tree_ok_def)
  then have dist: "distinct (own (V s2) l (b' # rs'))"
    unfolding own_Cons_distinct [of _ _ b' rs'] f2(2) using f2(1) r2(3) ok1 by (auto simp: tree_ok_def)
  have len: "length (leaves (V s) l b) = 128 ^ l" using length_own [OF assms(1) ok(1)] by simp
  have "V s2 x = V s1 x" if "x \<in> A" for x
  proof -
    have "A \<subseteq> used s1 - fm_own s1" using r1(7-9) fm_own_used [OF assms(1)] by blast
    moreover have "A \<inter> set (own (V s1) l rs) = {}" unfolding f1(2) using A ok(2) by (auto simp: tree_ok_def)
    ultimately show ?thesis using reserved_frame [OF assms(4)] that by blast
  qed
  then have "filled (V s2) (A \<union> B) (min n (128 ^ l)) (leaves (V s) l b) (leaves (V s1) l b')"
    using filled_mono [OF r1(5), of "A \<union> B" "V s2"] by simp
  moreover have "leaves (V s1) l b' = leaves (V s2) l b'" using f2(3) by simp
  moreover have "filled (V s2) (A \<union> B) (n - min n (128 ^ l)) (concat (map (leaves (V s) l) rs)) (concat (map (leaves (V s2) l) rs'))"
    using filled_mono [OF r2(5), of "A \<union> B"] unfolding f1(3) by simp
  ultimately have fil: "filled (V s2) (A \<union> B) n (concat (map (leaves (V s) l) (b # rs))) (concat (map (leaves (V s2) l) (b' # rs')))"
    using filled_append [of "V s2" "A \<union> B" n "leaves (V s) l b"] len by simp
  have "chg (V s) (V s2) (A \<union> B \<union> fm_own s \<union> set (concat (map (idx (V s) l) (b # rs))))"
    using r1(2) r2(2) f1(4) r1(9) by (simp add: chg_def)
  then show ?thesis
    using alloc_rel_trans [OF r1(1) r2(1)] dist own2 fil r2(6) by (simp add: reserved_def)
qed

lemma reserved_refl: "fs_inv s \<Longrightarrow> tree_ok s l es \<Longrightarrow> reserved s s l es es 0 {}"
  by (simp add: reserved_def alloc_rel_refl chg_def tree_ok_def filled_zero)

text \<open>A fresh sector, filled with zeros.\<close>

lemma fresh_zero_sector:
  assumes "fs_inv s" and "saver_ok sv" and "0 < free_cnt s"
  shows "\<exists>sec s1 s2. free_map_allocate sv 1 s = Inr (True, sec, s1) \<and> cwrite sec zeros s1 = Inr s2 \<and> sec \<noteq> 0
     \<and> alloc_rel s s2 {sec} \<and> chg (V s) (V s2) ({sec} \<union> fm_own s) \<and> V s2 sec = zeros \<and> sec \<notin> fm_own s \<and> sec < nsec s"
proof -
  obtain sec s1 where s1: "free_map_allocate sv 1 s = Inr (True, sec, s1)" "alloc_rel s s1 {sec}" "sec \<noteq> 0" "sec < nsec s"
    "chg (V s) (V s1) (fm_own s)"
    using allocate_spec [OF assms(1,2) free_cnt_pos [OF assms(3)]] by blast
  note r = alloc_relD [OF s1(2)]
  have fm: "sec \<notin> fm_own s" using r(4) fm_own_used [OF assms(1)] by blast
  obtain s2 where s2: "cwrite sec zeros s1 = Inr s2" "same_meta s1 s2" "V s2 = (V s1)(sec := zeros)"
    using cwrite_spec [OF fs_inv_base [OF r(1)], of sec zeros] s1(4) r(2) by (auto simp: zeros_def)
  have "alloc_rel s1 s2 {}"
    by (rule fs_inv_same_meta(3) [OF r(1) s2(2)]) (use s2(3) fm r(5) in auto)
  then have "alloc_rel s s2 ({sec} \<union> {})" by (rule alloc_rel_trans [OF s1(2)])
  moreover have "chg (V s) (V s2) ({sec} \<union> fm_own s)" using s1(5) s2(3) by (simp add: chg_def)
  ultimately show ?thesis using s1 s2 fm by auto
qed

lemma reserve_spec_0:
  assumes "saver_ok sv"
  shows "reserve_spec sv 0"
  unfolding reserve_spec_def
proof (intro allI impI)
  fix e n s assume s: "fs_inv s" "0 < n" "n \<le> 128 ^ 0" "tree_ok s 0 [e]" "cost 0 n \<le> free_cnt s"
  have n: "n = 1" using s(2,3) by simp
  show "\<exists>e' s' A. inode_reserve_indirect sv 0 e n s = Inr (True, e', s') \<and> reserved s s' 0 [e] [e'] n A \<and> card A \<le> cost 0 n"
  proof (cases "e = 0")
    case False
    have "reserved s s 0 [e] [e] n {}"
      using reserved_refl [OF s(1,4)] False by (simp add: reserved_def filled_def)
    then show ?thesis using False by (auto simp: inode_reserve_direct_def)
  next
    case True
    have "0 < free_cnt s" using s(5) by simp
    then obtain sec s1 s2 where a: "free_map_allocate sv 1 s = Inr (True, sec, s1)" "cwrite sec zeros s1 = Inr s2" "sec \<noteq> 0"
      "alloc_rel s s2 {sec}" "chg (V s) (V s2) ({sec} \<union> fm_own s)" "V s2 sec = zeros"
      using fresh_zero_sector [OF s(1) assms] by blast
    have "reserved s s2 0 [e] [sec] n {sec}"
      using a n True by (simp add: reserved_def own_def nz_def filled_def)
    then show ?thesis using True a by (auto simp: inode_reserve_direct_def)
  qed
qed

lemma reserve_loop_spec:
  assumes "reserve_spec sv l" and "u = 128 ^ l"
    and "fs_inv s" and "tree_ok s l rs" and "k \<le> length rs" and "n \<le> k * u" and "0 < k \<longrightarrow> (k - 1) * u < n"
    and "loop_cost (cost l) u k n \<le> free_cnt s"
  shows "\<exists>rs' s' A. reserve_loop (\<lambda>e n s. inode_reserve_indirect sv l e n s) u (length dn) k n (dn @ rs) s = Inr (True, dn @ rs', s')
     \<and> reserved s s' l rs rs' n A \<and> card A \<le> loop_cost (cost l) u k n"
  using assms(3-8)
proof (induction k arbitrary: dn rs n s)
  case 0
  then show ?case using reserved_refl [OF 0(1,2)] by auto
next
  case (Suc k)
  obtain b rs1 where rs: "rs = b # rs1" using Suc.prems(3) by (cases rs) auto
  define m where "m = min n u"
  have u: "0 < u" using assms(2) by simp
  have m: "0 < m" "m \<le> 128 ^ l" using Suc.prems(5) u assms(2) by (auto simp: m_def)
  have ok: "tree_ok s l [b]" "tree_ok s l rs1" "set (own (V s) l [b]) \<inter> set (own (V s) l rs1) = {}"
    using tree_ok_Cons [THEN iffD1, OF Suc.prems(2) [unfolded rs]] by blast+
  have "cost l m \<le> free_cnt s" using Suc.prems(6) by (simp add: m_def)
  then obtain b' s1 A where c: "inode_reserve_indirect sv l b m s = Inr (True, b', s1)" "reserved s s1 l [b] [b'] m A" "card A \<le> cost l m"
    using assms(1) m ok(1) Suc.prems(1) unfolding reserve_spec_def by blast
  have d: "set (own (V s) l rs1) \<inter> set (own (V s) l [b]) = {}" using ok(3) by blast
  have ok1: "tree_ok s1 l rs1" using tree_ok_frame(1) [OF c(2) ok(2) d] .
  have free1: "loop_cost (cost l) u k (n - m) \<le> free_cnt s1"
    using alloc_rel_free(1) [OF reservedD(1) [OF c(2)]] c(3) Suc.prems(6) by (simp add: m_def)
  have n1: "n - m \<le> k * u" using Suc.prems(4) by (auto simp: m_def)
  have n2: "0 < k \<longrightarrow> (k - 1) * u < n - m"
  proof
    assume "0 < k"
    then have "u + (k - 1) * u < n" using Suc.prems(5) by (cases k) auto
    then show "(k - 1) * u < n - m" by (simp add: m_def min_def)
  qed
  have k1: "k \<le> length rs1" using Suc.prems(3) rs by simp
  from Suc.IH [OF reservedD(10) [OF c(2)] ok1 k1 n1 n2 free1, of "dn @ [b']"]
  obtain rs' s2 B where l: "reserve_loop (\<lambda>e n s. inode_reserve_indirect sv l e n s) u (length (dn @ [b'])) k (n - m) ((dn @ [b']) @ rs1) s1
      = Inr (True, (dn @ [b']) @ rs', s2)" "reserved s1 s2 l rs1 rs' (n - m) B" "card B \<le> loop_cost (cost l) u k (n - m)"
    by blast
  have "reserved s s2 l (b # rs1) (b' # rs') n (A \<union> B)"
    using reserved_Cons [OF Suc.prems(1) Suc.prems(2) [unfolded rs], of s1 b' n A s2 rs' B] c(2) l(2) assms(2) by (simp add: m_def)
  moreover have "reserve_loop (\<lambda>e n s. inode_reserve_indirect sv l e n s) u (length dn) (Suc k) n (dn @ rs) s = Inr (True, dn @ b' # rs', s2)"
    using c(1) l(1) by (simp add: rs m_def [symmetric] nth_append list_update_append)
  moreover have "card (A \<union> B) \<le> loop_cost (cost l) u (Suc k) n"
    using c(3) l(3) card_Un_le [of A B] by (simp add: m_def)
  ultimately show ?case unfolding rs by blast
qed

text \<open>The part of \<^verbatim>\<open>inode_reserve_indirect\<close> that follows when the index sector is there.\<close>

definition fill_index :: "saver \<Rightarrow> nat \<Rightarrow> nat \<Rightarrow> nat \<Rightarrow> fs \<Rightarrow> (bool \<times> nat \<times> fs) res" where
  "fill_index sv l entry n s =
     bind_res (cread entry s) (\<lambda>(d, s).
     bind_res (reserve_loop (\<lambda>e n s. inode_reserve_indirect sv l e n s) (unit_of l) 0
         (DIV_ROUND_UP n (unit_of l)) n (decode_blocks d) s) (\<lambda>(ok, blocks, s).
     if \<not> ok then Inr (False, entry, s)
     else bind_res (cwrite entry (encode_blocks blocks) s) (\<lambda>s. Inr (True, entry, s))))"

lemma reserve_indirect_Suc:
  "inode_reserve_indirect sv (Suc l) entry n s =
     bind_res
       (if entry = 0 then
          bind_res (free_map_allocate sv 1 s) (\<lambda>(ok, sec, s).
          let entry = (if ok then sec else entry) in
          bind_res (cwrite entry zeros s) (\<lambda>s. Inr (entry, s)))
        else Inr (entry, s)) (\<lambda>(entry, s). fill_index sv l entry n s)"
  by (simp only: inode_reserve_indirect.simps(2) fill_index_def unit_of_def Let_def)

lemma DIV_ROUND_UP_bounds:
  assumes "0 < u"
  shows "n \<le> DIV_ROUND_UP n u * u" and "0 < DIV_ROUND_UP n u \<longrightarrow> (DIV_ROUND_UP n u - 1) * u < n"
proof -
  show "n \<le> DIV_ROUND_UP n u * u" using DIV_ROUND_UP_le_iff [OF assms, of n "DIV_ROUND_UP n u"] by simp
  show "0 < DIV_ROUND_UP n u \<longrightarrow> (DIV_ROUND_UP n u - 1) * u < n"
    using less_DIV_ROUND_UP_iff [OF assms, of "DIV_ROUND_UP n u - 1" n] by auto
qed

lemma fill_index_spec:
  assumes "reserve_spec sv l" and "l \<le> 1" and "fs_inv s" and "e \<noteq> 0" and "tree_ok s (Suc l) [e]"
    and "n \<le> 128 ^ Suc l" and "loop_cost (cost l) (unit_of l) (DIV_ROUND_UP n (unit_of l)) n \<le> free_cnt s"
  shows "\<exists>s' A. fill_index sv l e n s = Inr (True, e, s') \<and> reserved s s' (Suc l) [e] [e] n A
     \<and> card A \<le> loop_cost (cost l) (unit_of l) (DIV_ROUND_UP n (unit_of l)) n"
proof -
  let ?u = "unit_of l" and ?bs = "decode_blocks (V s e)"
  have u: "?u = 128 ^ l" using unit_of_power [OF assms(2)] .
  have tree: "tree_ok s l ?bs" "e \<notin> set (own (V s) l ?bs)" "e \<in> used s - fm_own s"
    using assms(5) own_Suc_distinct [OF assms(4)] own_Suc_set [OF assms(4)] by (auto simp: tree_ok_def)
  have e: "e < nsec s" using tree(3) used_less [OF assms(3)] by simp
  have lb: "length ?bs = 128" using length_V [OF fs_inv_base [OF assms(3)] e] by (simp add: BLOCK_SECTOR_SIZE_def)
  obtain s0 where s0: "cread e s = Inr (V s e, s0)" "same_meta s s0" "V s0 = V s"
    using cread_spec [OF fs_inv_base [OF assms(3)] e] by blast
  note a0 = fs_inv_same_meta [OF assms(3) s0(2)]
  have i0: "fs_inv s0" "fm_own s0 = fm_own s" "alloc_rel s s0 {}" using a0 s0(3) by auto
  have used0: "used s0 = used s" "nsec s0 = nsec s" using same_metaD [OF s0(2)] by simp_all
  have t0: "tree_ok s0 l ?bs" using tree(1) s0(3) i0(2) used0 by (simp add: tree_ok_def)
  have k: "DIV_ROUND_UP n ?u \<le> length ?bs"
    using assms(6) lb u by (simp add: DIV_ROUND_UP_le_iff mult.commute)
  have u0: "0 < ?u" using u by simp
  have f0: "loop_cost (cost l) ?u (DIV_ROUND_UP n ?u) n \<le> free_cnt s0" using assms(7) used0 by (simp add: free_cnt_def)
  from reserve_loop_spec [OF assms(1) u i0(1) t0 k DIV_ROUND_UP_bounds [OF u0] f0, of "[]"]
  obtain bs' s1 A where l: "reserve_loop (\<lambda>e n s. inode_reserve_indirect sv l e n s) ?u 0 (DIV_ROUND_UP n ?u) n ?bs s0 = Inr (True, bs', s1)"
    "reserved s0 s1 l ?bs bs' n A" "card A \<le> loop_cost (cost l) ?u (DIV_ROUND_UP n ?u) n"
    by auto
  note r = reservedD [OF l(2), unfolded s0(3) i0(2) used0]
  have e1: "e \<notin> set (own (V s1) l bs')" "e \<notin> A" using r(4,8) tree(2,3) by auto
  have lb': "length (encode_blocks bs') = BLOCK_SECTOR_SIZE" using r(6) lb by (simp add: BLOCK_SECTOR_SIZE_def)
  obtain s2 where s2: "cwrite e (encode_blocks bs') s1 = Inr s2" "same_meta s1 s2" "V s2 = (V s1)(e := encode_blocks bs')"
    using cwrite_spec [OF fs_inv_base [OF r(10)] _ lb', of e] e alloc_relD(2) [OF r(1)] used0(2) by auto
  note a2 = fs_inv_same_meta [OF r(10) s2(2)]
  have fm1: "V s2 x = V s1 x" if "x \<in> fm_own s1" for x using that s2(3) tree(3) r(9) by auto
  have i2: "fs_inv s2" "fm_own s2 = fm_own s1" "alloc_rel s1 s2 {}" using a2 fm1 by auto
  have rel: "alloc_rel s s2 A" using alloc_rel_trans [OF i0(3) alloc_rel_trans [OF r(1) i2(3)]] by simp
  have small: "\<forall>b\<in>set bs'. b < 2 ^ 32"
  proof
    fix b assume b: "b \<in> set bs'"
    have sub: "set (own (V s1) l bs') \<subseteq> {..<nsec s1}"
      using reserved_tree_ok [OF i0(1) l(2) t0] used_less [OF r(10)] by (auto simp: tree_ok_def)
    have "b \<in> set (own (V s1) l bs') \<or> b = 0"
    proof (cases l)
      case 0
      then show ?thesis using b by (auto simp: own_def)
    next
      case (Suc m)
      then show ?thesis using b by (auto simp: own_def)
    qed
    moreover have "nsec s1 < 2 ^ 32" using fs_inv_base [OF r(10)] by (simp add: fs_base_def NO_SECTOR_def)
    ultimately show "b < 2 ^ 32" using sub by auto
  qed
  have dec: "decode_blocks (V s2 e) = bs'" using s2(3) decode_encode_blocks [OF small] by simp
  have same: "V s2 x = V s1 x" if "x \<in> set (own (V s1) l bs')" for x using that e1(1) s2(3) by auto
  have oc: "map (leaves (V s2) l) bs' = map (leaves (V s1) l) bs'" "own (V s2) l bs' = own (V s1) l bs'"
    using own_cong [of "V s1" l bs' "V s2"] same by auto
  have own2: "set (own (V s2) (Suc l) [e]) = set (own (V s) (Suc l) [e]) \<union> A" "distinct (own (V s2) (Suc l) [e])"
    unfolding own_Suc_set [OF assms(4)] own_Suc_distinct [OF assms(4)] dec oc(2) using r(3,4) e1(1) by auto
  have lv: "leaves (V s2) (Suc l) e = concat (map (leaves (V s1) l) bs')" "leaves (V s) (Suc l) e = concat (map (leaves (V s) l) ?bs)"
    unfolding oc(1) [symmetric] using assms(4) dec by simp_all
  have "V s2 x = V s1 x" if "x \<in> A" for x using that e1(2) s2(3) by auto
  then have fil: "filled (V s2) A n (leaves (V s) (Suc l) e) (leaves (V s2) (Suc l) e)"
    unfolding lv using filled_mono [OF r(5), of A "V s2"] by simp
  have "chg (V s) (V s2) (A \<union> fm_own s \<union> set (idx (V s) (Suc l) e))"
    using r(2) s2(3) assms(4) by (simp add: chg_def)
  then have "reserved s s2 (Suc l) [e] [e] n A"
    using rel own2 fil by (simp add: reserved_def del: idx.simps leaves.simps)
  moreover have "fill_index sv l e n s = Inr (True, e, s2)"
    using s0(1) l(1) s2(1) by (simp add: fill_index_def)
  ultimately show ?thesis using l(3) by blast
qed

lemma concat_replicate_replicate: "concat (replicate n (replicate m x)) = replicate (n * m) x"
  by (induction n) (simp_all add: replicate_add)

lemma reserve_spec_Suc:
  assumes "saver_ok sv" and "reserve_spec sv l" and "l \<le> 1"
  shows "reserve_spec sv (Suc l)"
  unfolding reserve_spec_def
proof (intro allI impI)
  fix e n s assume s: "fs_inv s" "0 < n" "n \<le> 128 ^ Suc l" "tree_ok s (Suc l) [e]" "cost (Suc l) n \<le> free_cnt s"
  let ?c = "loop_cost (cost l) (unit_of l) (DIV_ROUND_UP n (unit_of l)) n"
  show "\<exists>e' s' A. inode_reserve_indirect sv (Suc l) e n s = Inr (True, e', s') \<and> reserved s s' (Suc l) [e] [e'] n A
      \<and> card A \<le> cost (Suc l) n"
  proof (cases "e = 0")
    case False
    have "?c \<le> free_cnt s" using s(5) by simp
    from fill_index_spec [OF assms(2,3) s(1) False s(4,3) this]
    obtain s' A where "fill_index sv l e n s = Inr (True, e, s')" "reserved s s' (Suc l) [e] [e] n A" "card A \<le> ?c" by blast
    moreover from this have "inode_reserve_indirect sv (Suc l) e n s = Inr (True, e, s')"
      unfolding reserve_indirect_Suc using False by simp
    ultimately show ?thesis using le_SucI [of "card A" ?c] by auto
  next
    case True
    have "0 < free_cnt s" using s(5) by simp
    then obtain sec s1 s2 where a: "free_map_allocate sv 1 s = Inr (True, sec, s1)" "cwrite sec zeros s1 = Inr s2" "sec \<noteq> 0"
      "alloc_rel s s2 {sec}" "chg (V s) (V s2) ({sec} \<union> fm_own s)" "V s2 sec = zeros" "sec \<notin> fm_own s"
      using fresh_zero_sector [OF s(1) assms(1)] by blast
    note r = alloc_relD [OF a(4)]
    have own2: "own (V s2) (Suc l) [sec] = [sec]" "idx (V s2) (Suc l) sec = [sec]"
      using a(3,6) by (simp_all add: own_def decode_zeros concat_replicate_replicate)
    have t2: "tree_ok s2 (Suc l) [sec]" using own2 r(3,5) a(7) by (simp add: tree_ok_def)
    have "?c \<le> free_cnt s2" using alloc_rel_free(1) [OF a(4)] s(5) by simp
    from fill_index_spec [OF assms(2,3) r(1) a(3) t2 s(3) this]
    obtain s3 A where f: "fill_index sv l sec n s2 = Inr (True, sec, s3)" "reserved s2 s3 (Suc l) [sec] [sec] n A" "card A \<le> ?c"
      by blast
    note q = reservedD [OF f(2), unfolded own2]
    have lv: "leaves (V s2) (Suc l) sec = replicate (128 ^ Suc l) 0"
      using a(3,6) by (simp add: decode_zeros concat_replicate_replicate)
    have rel: "alloc_rel s s3 (insert sec A)" using alloc_rel_trans [OF a(4) q(1)] by simp
    have ch: "chg (V s) (V s3) (insert sec A \<union> fm_own s)"
      using a(5) q(2) r(5) own2(2) by (auto simp: chg_def simp del: idx.simps)
    have "filled (V s3) (insert sec A) n (replicate (128 ^ Suc l) 0) (leaves (V s3) (Suc l) sec)"
      using filled_mono [OF q(5), of "insert sec A" "V s3"] lv by (simp del: leaves.simps) blast
    then have "reserved s s3 (Suc l) [e] [sec] n (insert sec A)"
      using rel ch q(3,4) True by (simp add: reserved_def del: idx.simps leaves.simps)
    moreover have "inode_reserve_indirect sv (Suc l) e n s = Inr (True, sec, s3)"
      using True a(1,2) f(1) by (simp add: reserve_indirect_Suc del: inode_reserve_indirect.simps)
    moreover have "card (insert sec A) \<le> cost (Suc l) n" using f(3) card_insert_le_m1 [of "Suc ?c" A sec] by (simp add: card_insert_if le_SucI alloc_rel_free(2) [OF q(1)])
    ultimately show ?thesis by blast
  qed
qed

lemma reserve_spec_le2:
  assumes "saver_ok sv" and "l \<le> 2"
  shows "reserve_spec sv l"
proof -
  have r1: "reserve_spec sv 1" using reserve_spec_Suc [OF assms(1) reserve_spec_0 [OF assms(1)]] by simp
  have r2: "reserve_spec sv 2" using reserve_spec_Suc [OF assms(1) r1] by (simp add: numeral_2_eq_2)
  consider "l = 0" | "l = 1" | "l = 2" using assms(2) by linarith
  then show ?thesis using reserve_spec_0 [OF assms(1)] r1 r2 by cases simp_all
qed

section \<open>Filling the blocks of a file\<close>

text \<open>The block numbers of an inode are three groups of entries, of levels 0, 1 and 2.\<close>

type_synonym groups = "(nat \<times> nat list) list"

definition gleaves :: "(nat \<Rightarrow> byte list) \<Rightarrow> groups \<Rightarrow> nat list" where
  "gleaves v gs = concat (map (\<lambda>(l, es). concat (map (leaves v l) es)) gs)"

definition gidx :: "(nat \<Rightarrow> byte list) \<Rightarrow> groups \<Rightarrow> nat list" where
  "gidx v gs = concat (map (\<lambda>(l, es). concat (map (idx v l) es)) gs)"

definition gown :: "(nat \<Rightarrow> byte list) \<Rightarrow> groups \<Rightarrow> nat list" where
  "gown v gs = concat (map (\<lambda>(l, es). own v l es) gs)"

definition gok :: "fs \<Rightarrow> groups \<Rightarrow> bool" where
  "gok s gs \<longleftrightarrow> distinct (gown (V s) gs) \<and> set (gown (V s) gs) \<subseteq> used s - fm_own s"

definition greserved :: "fs \<Rightarrow> fs \<Rightarrow> groups \<Rightarrow> groups \<Rightarrow> nat \<Rightarrow> nat set \<Rightarrow> bool" where
  "greserved s s' gs gs' n A \<longleftrightarrow> alloc_rel s s' A \<and> chg (V s) (V s') (A \<union> fm_own s \<union> set (gidx (V s) gs))
     \<and> distinct (gown (V s') gs') \<and> set (gown (V s') gs') = set (gown (V s) gs) \<union> A
     \<and> filled (V s') A n (gleaves (V s) gs) (gleaves (V s') gs')"

lemma group_Cons [simp]:
  "gleaves v ((l, es) # gs) = concat (map (leaves v l) es) @ gleaves v gs"
  "gidx v ((l, es) # gs) = concat (map (idx v l) es) @ gidx v gs"
  "gown v ((l, es) # gs) = own v l es @ gown v gs"
  "gleaves v [] = []" "gidx v [] = []" "gown v [] = []"
  by (simp_all add: gleaves_def gidx_def gown_def)

lemma idx_subset_own: "set (concat (map (idx v l) es)) \<subseteq> set (own v l es)"
  by (auto simp: own_def)

lemma gidx_subset_gown: "set (gidx v gs) \<subseteq> set (gown v gs)"
proof (induction gs)
  case (Cons g gs)
  then show ?case using idx_subset_own [of v "fst g" "snd g"] by (cases g) auto
qed simp

lemma set_gown: "set (gown v gs) = (set (gleaves v gs) - {0}) \<union> set (gidx v gs)"
  by (induction gs) (auto simp: own_def)

lemma greservedD:
  assumes "greserved s s' gs gs' n A"
  shows "alloc_rel s s' A" "chg (V s) (V s') (A \<union> fm_own s \<union> set (gidx (V s) gs))"
    "distinct (gown (V s') gs')" "set (gown (V s') gs') = set (gown (V s) gs) \<union> A"
    "filled (V s') A n (gleaves (V s) gs) (gleaves (V s') gs')"
    "used s' = used s \<union> A" "A \<inter> used s = {}" "fm_own s' = fm_own s" "fs_inv s'"
  using assms unfolding greserved_def alloc_rel_def by blast+

lemma gcong:
  assumes "\<And>x. x \<in> set (gown v gs) \<Longrightarrow> v' x = v x"
  shows "gleaves v' gs = gleaves v gs \<and> gown v' gs = gown v gs \<and> gidx v' gs = gidx v gs"
  using assms
proof (induction gs)
  case (Cons g gs)
  obtain l es where g: "g = (l, es)" by (cases g)
  have "v' x = v x" if "x \<in> set (own v l es)" for x using that Cons.prems g by simp
  from own_cong [of v l es v', OF this] Cons show ?case unfolding g by (simp del: map_eq_conv)
qed simp

lemma greserved_frame:
  assumes "greserved s s' gs gs' n A" and "X \<subseteq> used s - fm_own s" and "X \<inter> set (gown (V s) gs) = {}" and "x \<in> X"
  shows "V s' x = V s x"
proof -
  note r = greservedD [OF assms(1)]
  have "x \<notin> A \<union> fm_own s \<union> set (gidx (V s) gs)" using assms(2-4) r(7) gidx_subset_gown by blast
  then show ?thesis using r(2) unfolding chg_def by blast
qed

lemma greserved_refl: "fs_inv s \<Longrightarrow> gok s gs \<Longrightarrow> greserved s s gs gs 0 {}"
  by (simp add: greserved_def alloc_rel_refl chg_def gok_def filled_zero)

lemma gok_Cons: "gok s ((l, es) # gs) \<longleftrightarrow> tree_ok s l es \<and> gok s gs \<and> set (own (V s) l es) \<inter> set (gown (V s) gs) = {}"
  by (auto simp: gok_def tree_ok_def)

lemma gok_frame:
  assumes "reserved s s' l es es' n A" and "gok s gs" and "set (own (V s) l es) \<inter> set (gown (V s) gs) = {}"
  shows "gok s' gs" and "gown (V s') gs = gown (V s) gs" and "gleaves (V s') gs = gleaves (V s) gs" and "gidx (V s') gs = gidx (V s) gs"
proof -
  have same: "V s' x = V s x" if "x \<in> set (gown (V s) gs)" for x
    using reserved_frame [OF assms(1), of "set (gown (V s) gs)"] assms(2,3) that by (auto simp: gok_def)
  show own: "gown (V s') gs = gown (V s) gs" and "gleaves (V s') gs = gleaves (V s) gs" and "gidx (V s') gs = gidx (V s) gs"
    using gcong [of "V s" gs "V s'"] same by auto
  show "gok s' gs" using assms(2) own reservedD(7,9) [OF assms(1)] by (auto simp: gok_def)
qed

lemma greserved_Cons:
  assumes "fs_inv s" and "gok s ((l, es) # gs)" and "reserved s s1 l es es' (min n (length es * 128 ^ l)) A"
    and "greserved s1 s2 gs gs' (n - min n (length es * 128 ^ l)) B"
  shows "greserved s s2 ((l, es) # gs) ((l, es') # gs') n (A \<union> B)"
proof -
  let ?n1 = "min n (length es * 128 ^ l)"
  have ok: "tree_ok s l es" "gok s gs" "set (own (V s) l es) \<inter> set (gown (V s) gs) = {}"
    using gok_Cons [THEN iffD1, OF assms(2)] by blast+
  note r1 = reservedD [OF assms(3)] and r2 = greservedD [OF assms(4)]
  note f1 = gok_frame [OF assms(3) ok(2,3)]
  have ok1: "tree_ok s1 l es'" using reserved_tree_ok [OF assms(1,3) ok(1)] .
  have d1: "set (own (V s1) l es') \<inter> set (gown (V s1) gs) = {}"
    unfolding r1(4) f1(2) using ok(2,3) r1(8) by (auto simp: gok_def)
  have same: "V s2 x = V s1 x" if "x \<in> set (own (V s1) l es') \<union> A" for x
  proof (rule greserved_frame [OF assms(4) _ _ that])
    show "set (own (V s1) l es') \<union> A \<subseteq> used s1 - fm_own s1"
      using ok1 r1(7-9) fm_own_used [OF assms(1)] by (auto simp: tree_ok_def)
    show "(set (own (V s1) l es') \<union> A) \<inter> set (gown (V s1) gs) = {}" using d1 r1(4) by blast
  qed
  have oc: "map (leaves (V s2) l) es' = map (leaves (V s1) l) es'" "own (V s2) l es' = own (V s1) l es'"
    using own_cong [of "V s1" l es' "V s2"] same by auto
  have own2: "set (own (V s2) l es') \<union> set (gown (V s2) gs') = set (own (V s) l es) \<union> set (gown (V s) gs) \<union> (A \<union> B)"
    unfolding oc(2) r1(4) r2(4) f1(2) by auto
  have "set (own (V s1) l es') \<inter> set (gown (V s2) gs') = {}"
    unfolding r2(4) using d1 r2(7) ok1 by (auto simp: tree_ok_def)
  then have dist: "distinct (own (V s2) l es' @ gown (V s2) gs')" using r1(3) r2(3) oc(2) by simp
  have len: "length (concat (map (leaves (V s) l) es)) = length es * 128 ^ l" using length_own [OF assms(1) ok(1)] .
  have p: "filled (V s2) (A \<union> B) ?n1 (concat (map (leaves (V s) l) es)) (concat (map (leaves (V s2) l) es'))"
    unfolding oc(1) by (rule filled_mono [OF r1(5)]) (use same in auto)
  have q: "filled (V s2) (A \<union> B) (n - ?n1) (gleaves (V s) gs) (gleaves (V s2) gs')"
    using filled_mono [OF r2(5), of "A \<union> B"] unfolding f1(3) by simp
  have "filled (V s2) (A \<union> B) n (gleaves (V s) ((l, es) # gs)) (gleaves (V s2) ((l, es') # gs'))"
    using filled_append [OF p [unfolded len [symmetric]] q [unfolded len [symmetric]]] by simp
  moreover have "chg (V s) (V s2) (A \<union> B \<union> fm_own s \<union> set (gidx (V s) ((l, es) # gs)))"
    using r1(2) r2(2) f1(4) r1(9) by (simp add: chg_def)
  ultimately show ?thesis
    using alloc_rel_trans [OF r1(1) r2(1)] dist own2 by (simp add: greserved_def)
qed

lemma reserve_direct_loop_eq:
  "i + k \<le> length bs \<Longrightarrow>
   reserve_direct_loop sv i k bs s = reserve_loop (\<lambda>e n s. inode_reserve_indirect sv 0 e n s) 1 i k k bs s"
proof (induction k arbitrary: i bs s)
  case (Suc k)
  show ?case
  proof (cases "bs ! i = 0")
    case True
    have "reserve_direct_loop sv (Suc i) k (bs[i := e]) s = reserve_loop (\<lambda>e n s. inode_reserve_indirect sv 0 e n s) 1 (Suc i) k k (bs[i := e]) s" for e s
      by (rule Suc.IH) (use Suc.prems in simp)
    then show ?thesis using Suc.prems True by (simp add: case_prod_unfold cong: if_cong)
  next
    case False
    have "reserve_direct_loop sv (Suc i) k bs s = reserve_loop (\<lambda>e n s. inode_reserve_indirect sv 0 e n s) 1 (Suc i) k k bs s"
      by (rule Suc.IH) (use Suc.prems in simp)
    then show ?thesis using Suc.prems False by (simp add: inode_reserve_direct_def)
  qed
qed simp

lemma reserve_direct_spec:
  assumes "saver_ok sv" and "fs_inv s" and "tree_ok s 0 bs" and "k \<le> length bs" and "k \<le> free_cnt s"
  shows "\<exists>bs' s' A. reserve_direct_loop sv 0 k bs s = Inr (True, bs', s') \<and> reserved s s' 0 bs bs' k A \<and> card A \<le> k"
proof -
  have c: "loop_cost (cost 0) 1 k k = k" by (induction k) simp_all
  have "\<exists>rs' s' A. reserve_loop (\<lambda>e n s. inode_reserve_indirect sv 0 e n s) 1 (length ([] :: nat list)) k k ([] @ bs) s = Inr (True, [] @ rs', s')
     \<and> reserved s s' 0 bs rs' k A \<and> card A \<le> loop_cost (cost 0) 1 k k"
    by (rule reserve_loop_spec [OF reserve_spec_0 [OF assms(1)] _ assms(2,3,4)]) (use assms(5) c in auto)
  then show ?thesis using reserve_direct_loop_eq [of 0 k bs sv s] assms(4) c by simp
qed

end
