(* ===== verification/Inode_Extend.thy ===== *)
theory Inode_Extend
  imports Inode_Grow
begin

text \<open>
  Writing past the end of a file. The theory joins the growth of the block tree with writing:
  a write that ends after the end of the file extends it, the gap reads as zeros, and neither
  other files nor the free map file are touched.
\<close>

section \<open>Reserving the blocks of an inode\<close>

definition groups_of :: "inode_disk \<Rightarrow> groups" where
  "groups_of d = [(0, direct_blocks d), (1, [indirect_block d]), (2, [doubly_indirect_block d])]"

lemma cost_1: "cost 1 n = Suc n"
proof -
  have "loop_cost (cost 0) 1 k k = k" for k by (induction k) simp_all
  moreover have "DIV_ROUND_UP n 1 = n" by (simp add: DIV_ROUND_UP_def)
  ultimately show ?thesis by (simp add: unit_of_def)
qed

lemma cost_2:
  assumes "n \<le> 128 * 128"
  shows "cost 2 n \<le> n + 129"
proof -
  have l: "loop_cost (cost 1) 128 k m \<le> k + m" for k m
  proof (induction k arbitrary: m)
    case (Suc k)
    show ?case using Suc.IH [of "m - min m 128"] by (simp add: cost_1 del: One_nat_def)
  qed simp
  have "DIV_ROUND_UP n 128 \<le> 128" using assms by (simp add: DIV_ROUND_UP_le_iff)
  moreover have "cost 2 n = 1 + loop_cost (cost 1) 128 (DIV_ROUND_UP n 128) n"
    by (simp add: numeral_2_eq_2 unit_of_def INDIRECT_BLOCKS_PER_SECTOR_def)
  ultimately show ?thesis using l [of "DIV_ROUND_UP n 128" n] by simp
qed

declare inode_reserve_indirect.simps [simp del] cost.simps [simp del]

lemma reserve_specD:
  assumes "saver_ok sv" and "l \<le> 2" and "fs_inv s" and "0 < n" and "n \<le> 128 ^ l" and "tree_ok s l [e]" and "cost l n \<le> free_cnt s"
  shows "\<exists>e' s' A. inode_reserve_indirect sv l e n s = Inr (True, e', s') \<and> reserved s s' l [e] [e'] n A \<and> card A \<le> cost l n"
  using reserve_spec_le2 [OF assms(1,2)] assms(3-7) unfolding reserve_spec_def by blast

text \<open>The fields that reserving leaves alone.\<close>

definition same_kind :: "inode_disk \<Rightarrow> inode_disk \<Rightarrow> bool" where
  "same_kind d d' \<longleftrightarrow> is_dir d' = is_dir d \<and> flength d' = flength d \<and> imagic d' = imagic d
     \<and> length (direct_blocks d') = length (direct_blocks d)"

lemma inode_reserve_spec:
  assumes "saver_ok sv" and "fs_inv s" and "length (direct_blocks d) = 123" and "gok s (groups_of d)"
    and "0 \<le> len" and "bytes_to_sectors len \<le> MAX_BLOCKS" and "bytes_to_sectors len + 130 \<le> free_cnt s"
  shows "\<exists>d' s' A. inode_reserve sv d len s = Inr (True, d', s')
     \<and> greserved s s' (groups_of d) (groups_of d') (bytes_to_sectors len) A \<and> same_kind d d'"
proof -
  define n where "n = bytes_to_sectors len"
  define k1 where "k1 = min n 123"
  define k2 where "k2 = min (n - k1) 128"
  define k3 where "k3 = min (n - k1 - k2) (128 * 128)"
  have n: "n - k1 - k2 - k3 = 0" "k1 + k2 + k3 = n"
    using assms(6) by (auto simp: n_def [symmetric] k1_def k2_def k3_def MAX_BLOCKS_def)
  have g: "gok s ((0, direct_blocks d) # [(1, [indirect_block d]), (2, [doubly_indirect_block d])])"
    using assms(4) by (simp add: groups_of_def)
  note g0 = gok_Cons [THEN iffD1, OF g]
  have k1: "k1 \<le> length (direct_blocks d)" "k1 \<le> free_cnt s" using assms(3,7) by (auto simp: n_def [symmetric] k1_def)
  obtain bs s1 A where a: "reserve_direct_loop sv 0 k1 (direct_blocks d) s = Inr (True, bs, s1)"
    "reserved s s1 0 (direct_blocks d) bs k1 A" "card A \<le> k1"
    using reserve_direct_spec [OF assms(1,2) _ k1] g0 by blast
  note ra = reservedD [OF a(2)]
  have g1: "gok s1 ((1, [indirect_block d]) # [(2, [doubly_indirect_block d])])"
    using gok_frame(1) [OF a(2)] g0 by blast
  note g1' = gok_Cons [THEN iffD1, OF g1]
  have f1: "n - k1 + 130 \<le> free_cnt s1"
    using alloc_rel_free(1) [OF ra(1)] a(3) assms(7) n by (simp add: n_def [symmetric])
  let ?d1 = "d\<lparr>direct_blocks := bs\<rparr>"
  show ?thesis
  proof (cases "n - k1 = 0")
    case True
    have "greserved s s1 (groups_of d) (groups_of ?d1) n (A \<union> {})"
      unfolding groups_of_def
      by (rule greserved_Cons [OF assms(2) g], use True a(2) n assms(3) in \<open>simp add: k1_def min_def\<close>,
          use True greserved_refl [OF ra(10) g1] in \<open>simp add: assms(3) k1_def\<close>)
    moreover have "inode_reserve sv d len s = Inr (True, ?d1, s1)"
      using a(1) True assms(5) by (simp add: inode_reserve_def n_def [symmetric] k1_def [symmetric] Let_def)
    ultimately show ?thesis using ra(6) by (auto simp: same_kind_def n_def)
  next
    case False
    have k2: "0 < k2" "k2 \<le> 128 ^ 1" using False by (auto simp: k2_def)
    have "cost 1 k2 \<le> free_cnt s1" using f1 n by (simp add: cost_1 k2_def del: One_nat_def)
    then obtain e1 s2 B where b: "inode_reserve_indirect sv 1 (indirect_block d) k2 s1 = Inr (True, e1, s2)"
      "reserved s1 s2 1 [indirect_block d] [e1] k2 B" "card B \<le> cost 1 k2"
      using reserve_specD [OF assms(1) _ ra(10) k2] g1' one_le_numeral by blast
    note rb = reservedD [OF b(2)]
    have g2: "gok s2 ((2, [doubly_indirect_block d]) # [])" using gok_frame(1) [OF b(2)] g1' by blast
    note g2' = gok_Cons [THEN iffD1, OF g2]
    have f2: "n - k1 - k2 + 129 \<le> free_cnt s2"
      using alloc_rel_free(1) [OF rb(1)] b(3) f1 n by (simp add: cost_1 del: One_nat_def)
    let ?d2 = "?d1\<lparr>indirect_block := e1\<rparr>"
    have nk1: "n - min n (length (direct_blocks d) * 128 ^ 0) = n - k1" "min n (length (direct_blocks d) * 128 ^ 0) = k1"
      by (simp_all add: assms(3) k1_def)
    have nk2: "min (n - k1) (length [indirect_block d] * 128 ^ 1) = k2" by (simp add: k2_def)
    show ?thesis
    proof (cases "n - k1 - k2 = 0")
      case True
      have "greserved s1 s2 ((1, [indirect_block d]) # [(2, [doubly_indirect_block d])])
          ((1, [e1]) # [(2, [doubly_indirect_block d])]) (n - k1) (B \<union> {})"
        by (rule greserved_Cons [OF ra(10) g1]) (use b(2) greserved_refl [OF rb(10) g2] True in \<open>simp_all only: nk2\<close>)
      then have "greserved s s2 (groups_of d) (groups_of ?d2) n (A \<union> (B \<union> {}))"
        unfolding groups_of_def using greserved_Cons [OF assms(2) g, of s1 bs n A s2] a(2) by (simp only: nk1) simp
      moreover have "inode_reserve sv d len s = Inr (True, ?d2, s2)"
        using a(1) b(1) True False assms(5)
        by (simp add: inode_reserve_def n_def [symmetric] k1_def [symmetric] k2_def [symmetric] INDIRECT_BLOCKS_PER_SECTOR_def Let_def)
      ultimately show ?thesis using ra(6) by (auto simp: same_kind_def n_def)
    next
      case more: False
      have k3: "0 < k3" "k3 \<le> 128 ^ 2" using more by (auto simp: k3_def)
      have "cost 2 k3 \<le> free_cnt s2" using cost_2 [of k3] f2 n by (simp add: k3_def)
      then obtain e2 s3 C where c: "inode_reserve_indirect sv 2 (doubly_indirect_block d) k3 s2 = Inr (True, e2, s3)"
        "reserved s2 s3 2 [doubly_indirect_block d] [e2] k3 C"
        using reserve_specD [OF assms(1) _ rb(10) k3] g2' by blast
      note rc = reservedD [OF c(2)]
      let ?d3 = "?d2\<lparr>doubly_indirect_block := e2\<rparr>"
      have nk3: "min (n - k1 - k2) (length [doubly_indirect_block d] * 128 ^ 2) = k3" "n - k1 - k2 - k3 = 0"
        using n by (simp_all add: k3_def)
      have e3: "greserved s3 s3 [] [] 0 {}" by (rule greserved_refl [OF rc(10)]) (simp add: gok_def)
      have "greserved s2 s3 ((2, [doubly_indirect_block d]) # []) ((2, [e2]) # []) (n - k1 - k2) (C \<union> {})"
        by (rule greserved_Cons [OF rb(10) g2]) (use c(2) e3 nk3 in \<open>simp_all only: nk3\<close>)
      then have "greserved s1 s3 ((1, [indirect_block d]) # [(2, [doubly_indirect_block d])])
          ((1, [e1]) # [(2, [e2])]) (n - k1) (B \<union> (C \<union> {}))"
        using greserved_Cons [OF ra(10) g1, of s2 "[e1]" "n - k1" B s3] b(2) by (simp only: nk2)
      then have "greserved s s3 (groups_of d) (groups_of ?d3) n (A \<union> (B \<union> (C \<union> {})))"
        unfolding groups_of_def using greserved_Cons [OF assms(2) g, of s1 bs n A s3] a(2) by (simp only: nk1) simp
      moreover have "min (n - (k1 + k2)) 16384 = k3" by (simp add: k3_def)
      then have "inode_reserve sv d len s = Inr (True, ?d3, s3)"
        using a(1) b(1) c(1) more False assms(5) n(1)
        by (simp add: inode_reserve_def n_def [symmetric] k1_def [symmetric] k2_def [symmetric]
            INDIRECT_BLOCKS_PER_SECTOR_def Let_def)
      ultimately show ?thesis using ra(6) by (auto simp: same_kind_def n_def)
    qed
  qed
qed

section \<open>Block trees and the blocks of a file\<close>

lemma nth_concat_equal:
  assumes "\<And>xs. xs \<in> set xss \<Longrightarrow> length xs = n" and "i < length xss * n" and "0 < n"
  shows "concat xss ! i = xss ! (i div n) ! (i mod n)"
  using assms(1,2)
proof (induction xss arbitrary: i)
  case (Cons xs xss)
  have l: "length xs = n" using Cons.prems(1) by simp
  show ?case
  proof (cases "i < n")
    case True
    then show ?thesis using l by (simp add: nth_append)
  next
    case False
    then obtain j where j: "i = n + j" using le_Suc_ex by (metis linorder_not_less)
    have "concat xss ! j = xss ! (j div n) ! (j mod n)" using Cons j by simp
    moreover have "(n + j) div n = Suc (j div n)" using assms(3) by (simp add: div_add_self1)
    ultimately show ?thesis using j l by (simp add: nth_append)
  qed
qed simp

abbreviation file_leaves :: "(nat \<Rightarrow> byte list) \<Rightarrow> inode_disk \<Rightarrow> nat list" where
  "file_leaves v d \<equiv> gleaves v (groups_of d)"

definition sectors_full :: "(nat \<Rightarrow> byte list) \<Rightarrow> inode_disk \<Rightarrow> bool" where
  "sectors_full v d \<longleftrightarrow> (\<forall>x\<in>set (gown v (groups_of d)). length (v x) = 512)"

lemma sectors_full: "fs_inv s \<Longrightarrow> gok s (groups_of d) \<Longrightarrow> sectors_full (V s) d"
  using used_less length_V [OF fs_inv_base] unfolding sectors_full_def gok_def BLOCK_SECTOR_SIZE_def by blast

lemma idx_in_gown:
  "x \<in> set (idx v 1 (indirect_block d)) \<Longrightarrow> x \<in> set (gidx v (groups_of d))"
  "x \<in> set (idx v 2 (doubly_indirect_block d)) \<Longrightarrow> x \<in> set (gidx v (groups_of d))"
  by (simp_all add: groups_of_def del: idx.simps)

lemma length_file_leaves:
  assumes "sectors_full v d" and "length (direct_blocks d) = 123"
  shows "length (leaves v 1 (indirect_block d)) = 128" "length (leaves v 2 (doubly_indirect_block d)) = 128 * 128"
    "length (file_leaves v d) = MAX_BLOCKS"
proof -
  have full: "length (v x) = 512" if "x \<in> set (gidx v (groups_of d))" for x
    using that assms(1) gidx_subset_gown unfolding sectors_full_def by blast
  show a: "length (leaves v 1 (indirect_block d)) = 128"
    using length_leaves [of v 1 "indirect_block d"] idx_in_gown(1) full by (simp del: leaves.simps idx.simps)
  show b: "length (leaves v 2 (doubly_indirect_block d)) = 128 * 128"
    using length_leaves [of v 2 "doubly_indirect_block d"] idx_in_gown(2) full by (simp del: leaves.simps idx.simps)
  have "length (concat (map (leaves v 0) bs)) = length bs" for bs by (induction bs) simp_all
  then show "length (file_leaves v d) = MAX_BLOCKS"
    using a b assms(2) by (simp add: groups_of_def MAX_BLOCKS_def del: leaves.simps)
qed

lemma concat_leaves_0 [simp]: "concat (map (leaves v 0) bs) = bs"
  by (induction bs) simp_all

lemma file_leaves_split:
  assumes "sectors_full v d" and "length (direct_blocks d) = 123"
  shows "i < 123 \<Longrightarrow> file_leaves v d ! i = direct_blocks d ! i"
    and "i < 128 \<Longrightarrow> file_leaves v d ! (123 + i) = leaves v 1 (indirect_block d) ! i"
    and "file_leaves v d ! (251 + i) = leaves v 2 (doubly_indirect_block d) ! i"
  using length_file_leaves [OF assms] assms(2)
  by (simp_all add: groups_of_def nth_append del: leaves.simps)

text \<open>A present entry is the sector that the lookup of the source finds.\<close>

lemma leaves_1_nth:
  "leaves v 1 e ! i \<noteq> 0 \<Longrightarrow> i < 128 \<Longrightarrow> e \<noteq> 0 \<and> leaves v 1 e ! i = decode_blocks (v e) ! i"
  by (auto split: if_splits)

lemma leaves_2_nth:
  assumes "leaves v 2 e ! i \<noteq> 0" and "i < 128 * 128" and "\<And>x. x \<in> set (idx v 2 e) \<Longrightarrow> length (v x) = 512"
  shows "e \<noteq> 0 \<and> decode_blocks (v e) ! (i div 128) \<noteq> 0
     \<and> leaves v 2 e ! i = decode_blocks (v (decode_blocks (v e) ! (i div 128))) ! (i mod 128)"
proof -
  have e: "e \<noteq> 0" using assms(1,2) by (auto simp: numeral_2_eq_2 split: if_splits)
  let ?bs = "decode_blocks (v e)"
  have lb: "length ?bs = 128" using assms(3) [of e] e by (simp add: numeral_2_eq_2)
  have ix: "set (idx v 2 e) = insert e (\<Union>b\<in>set ?bs. set (idx v 1 b))"
    unfolding numeral_2_eq_2 One_nat_def idx.simps(2) [of v "Suc 0" e] using e by (simp del: idx.simps)
  have len: "length xs = 128" if x: "xs \<in> set (map (leaves v 1) ?bs)" for xs
  proof -
    obtain b where b: "b \<in> set ?bs" "xs = leaves v 1 b" using x by (auto simp del: leaves.simps)
    have "length (leaves v 1 b) = 128 ^ 1"
      by (rule length_leaves, rule assms(3)) (use b(1) ix in blast)
    then show ?thesis using b by simp
  qed
  have d: "i div 128 < 128" "i mod 128 < 128" using assms(2) by (simp_all add: div_less_iff_less_mult)
  have "leaves v 2 e ! i = concat (map (leaves v 1) ?bs) ! i" using e by (simp add: numeral_2_eq_2)
  also have "\<dots> = leaves v 1 (?bs ! (i div 128)) ! (i mod 128)"
    using nth_concat_equal [of "map (leaves v 1) ?bs" 128 i, OF len] assms(2) lb d by (simp del: leaves.simps)
  finally have l: "leaves v 2 e ! i = leaves v 1 (?bs ! (i div 128)) ! (i mod 128)" .
  then show ?thesis using leaves_1_nth [of v "?bs ! (i div 128)" "i mod 128"] assms(1) d(2) e by metis
qed

lemma sector_of_leaf:
  assumes "sectors_full v d" and "length (direct_blocks d) = 123" and "i < MAX_BLOCKS" and "file_leaves v d ! i \<noteq> 0"
  shows "sector_of v d i = file_leaves v d ! i"
    and "123 \<le> i \<Longrightarrow> i < 251 \<Longrightarrow> indirect_block d \<noteq> 0"
    and "251 \<le> i \<Longrightarrow> doubly_indirect_block d \<noteq> 0 \<and> decode_blocks (v (doubly_indirect_block d)) ! ((i - 251) div 128) \<noteq> 0"
proof -
  note sp = file_leaves_split [OF assms(1,2)]
  have full: "length (v x) = 512" if "x \<in> set (idx v 2 (doubly_indirect_block d))" for x
    using idx_in_gown(2) [OF that] assms(1) gidx_subset_gown unfolding sectors_full_def by blast
  consider "i < 123" | "123 \<le> i" "i < 251" | "251 \<le> i" by linarith
  then have "sector_of v d i = file_leaves v d ! i \<and> (123 \<le> i \<longrightarrow> i < 251 \<longrightarrow> indirect_block d \<noteq> 0)
    \<and> (251 \<le> i \<longrightarrow> doubly_indirect_block d \<noteq> 0 \<and> decode_blocks (v (doubly_indirect_block d)) ! ((i - 251) div 128) \<noteq> 0)"
  proof cases
    case 1
    then show ?thesis using sp(1) by (simp add: sector_of_def)
  next
    case 2
    have e: "file_leaves v d ! i = leaves v 1 (indirect_block d) ! (i - 123)" using sp(2) [of "i - 123"] 2 by simp
    then show ?thesis using leaves_1_nth [of v "indirect_block d" "i - 123"] assms(4) 2 by (simp add: sector_of_def del: leaves.simps)
  next
    case 3
    have e: "file_leaves v d ! i = leaves v 2 (doubly_indirect_block d) ! (i - 251)" using sp(3) [of "i - 251"] 3 by simp
    have "i - 251 < 128 * 128" using assms(3) 3 by (simp add: MAX_BLOCKS_def)
    from leaves_2_nth [of v "doubly_indirect_block d" "i - 251", OF _ this full] e assms(4) 3 show ?thesis
      by (simp add: sector_of_def del: leaves.simps)
  qed
  then show "sector_of v d i = file_leaves v d ! i" "123 \<le> i \<Longrightarrow> i < 251 \<Longrightarrow> indirect_block d \<noteq> 0"
    "251 \<le> i \<Longrightarrow> doubly_indirect_block d \<noteq> 0 \<and> decode_blocks (v (doubly_indirect_block d)) ! ((i - 251) div 128) \<noteq> 0"
    by auto
qed

declare leaves.simps [simp del] idx.simps [simp del]

lemma distinct_gown: "distinct (gown v gs) \<longleftrightarrow> distinct (nz (gleaves v gs) @ gidx v gs)"
proof (induction gs)
  case (Cons g gs)
  obtain l es where g: "g = (l, es)" by (cases g)
  have "distinct (gown v (g # gs)) \<longleftrightarrow> distinct (own v l es) \<and> distinct (gown v gs) \<and> set (own v l es) \<inter> set (gown v gs) = {}"
    unfolding g by auto
  then show ?case
    unfolding Cons.IH set_gown g by (simp only: own_def nz_append distinct_append set_append set_nz group_Cons) blast
qed simp

lemma distinct_nz_nth:
  "distinct (nz xs) \<Longrightarrow> i < length xs \<Longrightarrow> j < length xs \<Longrightarrow> xs ! i = xs ! j \<Longrightarrow> xs ! i \<noteq> 0 \<Longrightarrow> i = j"
proof (induction xs arbitrary: i j)
  case (Cons x xs)
  have d: "distinct (nz xs)" "x \<noteq> 0 \<longrightarrow> x \<notin> set xs" using Cons.prems(1) by (auto simp: nz_def split: if_splits)
  show ?case
    using Cons.prems(2-5) d Cons.IH [OF d(1)] nth_mem [of _ xs] by (cases i; cases j) auto
qed simp

text \<open>
  A file whose first \<open>m\<close> entries are present has well-formed blocks; its sectors are among
  those of its block tree.
\<close>

lemma index_sectors_tree:
  assumes "sectors_full v d" and "length (direct_blocks d) = 123" and "m \<le> MAX_BLOCKS" and "\<And>i. i < m \<Longrightarrow> file_leaves v d ! i \<noteq> 0"
  shows "index_sectors v d m \<subseteq> set (gidx v (groups_of d))"
proof
  fix x assume x: "x \<in> index_sectors v d m"
  have nz1: "indirect_block d \<noteq> 0" if "123 < m"
    using sector_of_leaf(2) [OF assms(1,2), of 123] assms(3,4) that by simp
  have nz2: "doubly_indirect_block d \<noteq> 0" if "251 < m"
    using sector_of_leaf(3) [OF assms(1,2), of 251] assms(3,4) that by simp
  have g: "set (gidx v (groups_of d)) = set (concat (map (idx v 0) (direct_blocks d))) \<union> set (idx v 1 (indirect_block d)) \<union> set (idx v 2 (doubly_indirect_block d))"
    by (simp add: groups_of_def Un_assoc)
  have i1: "indirect_block d \<in> set (idx v 1 (indirect_block d))" if "123 < m"
    using nz1 [OF that] by (simp add: idx.simps)
  have i2: "set (idx v 2 (doubly_indirect_block d)) = insert (doubly_indirect_block d)
      (\<Union>b\<in>set (decode_blocks (v (doubly_indirect_block d))). set (idx v 1 b))" if "251 < m"
    unfolding numeral_2_eq_2 One_nat_def idx.simps(2) [of v "Suc 0"] using nz2 [OF that] by simp
  consider "123 < m" "x = indirect_block d" | "251 < m" "x = doubly_indirect_block d"
    | j where "251 < m" "j * 128 < m - 251" "x = decode_blocks (v (doubly_indirect_block d)) ! j"
    using x by (auto simp: index_sectors_def split: if_splits)
  then show "x \<in> set (gidx v (groups_of d))"
  proof cases
    case 1
    then show ?thesis using i1 g by simp
  next
    case 2
    then show ?thesis using i2 g by simp
  next
    case 3
    have m: "251 + j * 128 < m" using 3(1,2) by linarith
    then have mm: "251 + j * 128 < MAX_BLOCKS" using assms(3) by simp
    have nz: "x \<noteq> 0" using sector_of_leaf(3) [OF assms(1,2) mm assms(4) [OF m]] 3(3) by simp
    have "doubly_indirect_block d \<in> set (gown v (groups_of d))" using i2 [OF 3(1)] g gidx_subset_gown [of v "groups_of d"] by auto
    then have "length (decode_blocks (v (doubly_indirect_block d))) = 128" using assms(1) by (simp add: sectors_full_def)
    moreover have "j < 128" using mm by (simp add: MAX_BLOCKS_def)
    ultimately have "x \<in> set (decode_blocks (v (doubly_indirect_block d)))" using 3(3) nth_mem by metis
    moreover have "x \<in> set (idx v 1 x)" using nz by (simp add: idx.simps)
    ultimately show ?thesis using i2 [OF 3(1)] g by auto
  qed
qed

lemma wf_file_tree:
  assumes "fs_inv s" and "gok s (groups_of d)" and "wf_disk d" and "nblocks d \<le> MAX_BLOCKS"
    and "\<And>i. i < nblocks d \<Longrightarrow> file_leaves (V s) d ! i \<noteq> 0"
  shows "wf_file (V s) (nsec s) d" and "own_sectors (V s) d \<subseteq> set (gown (V s) (groups_of d))"
proof -
  let ?v = "V s" and ?m = "nblocks d"
  have ld: "length (direct_blocks d) = 123" using assms(3) by (simp add: wf_disk_def)
  have full: "sectors_full ?v d" using sectors_full [OF assms(1,2)] .
  have len: "length (file_leaves ?v d) = MAX_BLOCKS" using length_file_leaves(3) [OF full ld] .
  have leaf: "sector_of ?v d i = file_leaves ?v d ! i" "i < length (file_leaves ?v d)" if "i < ?m" for i
    using sector_of_leaf(1) [OF full ld _ assms(5)] assms(4) len that by auto
  have data: "sector_of ?v d i \<in> set (nz (file_leaves ?v d))" if "i < ?m" for i
    using leaf [OF that] assms(5) [OF that] nth_mem by (metis Diff_iff empty_iff insert_iff set_nz)
  have ix: "index_sectors ?v d ?m \<subseteq> set (gidx ?v (groups_of d))" using index_sectors_tree [OF full ld assms(4,5)] .
  have dis: "distinct (nz (file_leaves ?v d) @ gidx ?v (groups_of d))" using assms(2) distinct_gown by (simp add: gok_def)
  show own: "own_sectors ?v d \<subseteq> set (gown ?v (groups_of d))"
    unfolding own_sectors_def set_gown set_nz [symmetric] using data ix by blast
  have "inj_on (sector_of ?v d) {..<?m}"
    using leaf assms(5) distinct_nz_nth [of "file_leaves ?v d"] dis by (auto intro!: inj_onI)
  moreover have "sector_of ?v d ` {..<?m} \<inter> index_sectors ?v d ?m = {}"
    using data ix dis by fastforce
  moreover have "own_sectors ?v d \<subseteq> {..<nsec s}" using own assms(2) used_less [OF assms(1)] by (auto simp: gok_def)
  ultimately show "wf_file ?v (nsec s) d" using assms(3,4) by (simp add: wf_file_def)
qed

end
