(* ===== verification/Inode_Append.thy ===== *)
theory Inode_Append
  imports Inode_Extend
begin

text \<open>
  The effect of \<^verbatim>\<open>inode_write_at\<close> past the end of a file on the bytes of the file
  and on everything else.
\<close>

section \<open>Files in good order\<close>

definition fm_addr :: "fs \<Rightarrow> addr option" where
  "fm_addr s = (if free_map_file s = NULL then None else map_option f_inode (files s (free_map_file s)))"

text \<open>
  The sector numbers are where the length says, allocated, used once, and apart from the inode
  and the free map file; the bytes of the last block after the end of the file are zero.
\<close>

definition good_disk :: "fs \<Rightarrow> inode_disk \<Rightarrow> bool" where
  "good_disk s d \<longleftrightarrow> wf_disk d \<and> gok s (groups_of d) \<and> nblocks d \<le> MAX_BLOCKS
     \<and> (\<forall>k<MAX_BLOCKS. file_leaves (V s) d ! k \<noteq> 0 \<longleftrightarrow> k < nblocks d)
     \<and> (\<forall>p. flength d \<le> int p \<longrightarrow> p div 512 < nblocks d \<longrightarrow> byte_at (V s) d p = 0)"

definition good_file :: "fs \<Rightarrow> addr \<Rightarrow> inode \<Rightarrow> bool" where
  "good_file s a i \<longleftrightarrow> a \<noteq> NULL \<and> inodes s a = Some i \<and> fm_addr s \<noteq> Some a \<and> good_disk s (data i)
     \<and> sector i \<in> used s - fm_own s \<and> sector i \<notin> set (gown (V s) (groups_of (data i)))"

lemma good_file_at:
  assumes "fs_inv s" and "good_file s a i"
  shows "file_at s a i" and "own_sectors (V s) (data i) \<subseteq> set (gown (V s) (groups_of (data i)))"
proof -
  have "wf_disk (data i)" "gok s (groups_of (data i))" "nblocks (data i) \<le> MAX_BLOCKS"
    "\<And>k. k < nblocks (data i) \<Longrightarrow> file_leaves (V s) (data i) ! k \<noteq> 0"
    using assms(2) by (auto simp: good_file_def good_disk_def)
  from wf_file_tree [OF assms(1) this(2,1,3,4)] show "file_at s a i"
    "own_sectors (V s) (data i) \<subseteq> set (gown (V s) (groups_of (data i)))"
    using assms(2) by (auto simp: good_file_def file_at_def)
qed

lemma fs_inv_set_inode:
  assumes "fs_inv s" and "fm_addr s \<noteq> Some a"
  shows "fs_inv (s\<lparr>inodes := (inodes s)(a := x)\<rparr>)" and "fm_own (s\<lparr>inodes := (inodes s)(a := x)\<rparr>) = fm_own s"
proof -
  let ?s = "s\<lparr>inodes := (inodes s)(a := x)\<rparr>"
  show "fm_own ?s = fm_own s"
    using assms(2) by (auto simp: fm_own_def fm_inode_def fm_addr_def split: option.splits bind_splits)
  have "\<exists>f i. files s (free_map_file s) = Some f \<and> file_at ?s (f_inode f) i \<and> deny_write_cnt i = 0
      \<and> flength (data i) = int (byte_cnt (nsec s)) \<and> own_sectors (V s) (data i) \<subseteq> used s"
    if ne: "free_map_file s \<noteq> NULL"
  proof -
    obtain f i where f: "files s (free_map_file s) = Some f" "file_at s (f_inode f) i" "deny_write_cnt i = 0"
      "flength (data i) = int (byte_cnt (nsec s))" "own_sectors (V s) (data i) = fm_own s"
      using fm_file [OF assms(1) ne] by blast
    have "f_inode f \<noteq> a" using f(1) ne assms(2) by (simp add: fm_addr_def)
    then have "file_at ?s (f_inode f) i" using f(2) by (simp add: file_at_def)
    then show ?thesis using f fm_own_used [OF assms(1)] by auto
  qed
  then show "fs_inv ?s" using assms(1) by (auto simp: fs_inv_def fm_ok_def fs_base_def)
qed

lemma sector_of_flength [simp]: "sector_of v (d\<lparr>flength := n\<rparr>) = sector_of v d"
  by (simp add: sector_of_def fun_eq_iff)

lemma groups_of_flength [simp]: "groups_of (d\<lparr>flength := n\<rparr>) = groups_of d"
  by (simp add: groups_of_def)

lemma byte_at_flength [simp]: "byte_at v (d\<lparr>flength := n\<rparr>) = byte_at v d"
  by (simp add: byte_at_def fun_eq_iff)

lemma gok_cong:
  assumes "gok s gs" and "\<And>x. x \<in> set (gown (V s) gs) \<Longrightarrow> V s' x = V s x" and "used s \<subseteq> used s'" and "fm_own s' = fm_own s"
  shows "gok s' gs" and "gown (V s') gs = gown (V s) gs" and "gleaves (V s') gs = gleaves (V s) gs"
    and "gidx (V s') gs = gidx (V s) gs"
  using assms gcong [of "V s" gs "V s'"] by (auto simp: gok_def)

text \<open>The sectors of a file depend on its index sectors only.\<close>

lemma gidx_cong:
  assumes "\<And>x. x \<in> set (gidx v gs) \<Longrightarrow> v' x = v x"
  shows "gleaves v' gs = gleaves v gs \<and> gown v' gs = gown v gs \<and> gidx v' gs = gidx v gs"
  using assms
proof (induction gs)
  case (Cons g gs)
  obtain l es where g: "g = (l, es)" by (cases g)
  have t: "leaves v' l e = leaves v l e \<and> idx v' l e = idx v l e" if "e \<in> set es" for e
    by (rule tree_cong) (use Cons.prems g that in auto)
  have "map (leaves v' l) es = map (leaves v l) es" "map (idx v' l) es = map (idx v l) es"
    using t by simp_all
  then show ?case using Cons unfolding g by (simp add: own_def del: map_eq_conv)
qed simp

section \<open>Reserving keeps the bytes\<close>

lemma reserved_bytes:
  assumes "fs_inv s" and "good_disk s d" and "length (direct_blocks d') = 123"
    and "greserved s s' (groups_of d) (groups_of d') n A" and "nblocks d \<le> n" and "n \<le> MAX_BLOCKS"
  shows "\<And>k. k < MAX_BLOCKS \<Longrightarrow> file_leaves (V s') d' ! k \<noteq> 0 \<longleftrightarrow> k < n"
    and "\<And>q. q div 512 < n \<Longrightarrow> byte_at (V s') d' q = (if q div 512 < nblocks d then byte_at (V s) d q else 0)"
proof -
  note r = greservedD [OF assms(4)]
  have d: "wf_disk d" "gok s (groups_of d)" "nblocks d \<le> MAX_BLOCKS"
    "\<And>k. k < MAX_BLOCKS \<Longrightarrow> file_leaves (V s) d ! k \<noteq> 0 \<longleftrightarrow> k < nblocks d"
    using assms(2) by (auto simp: good_disk_def)
  have ld: "length (direct_blocks d) = 123" using d(1) by (simp add: wf_disk_def)
  have full: "sectors_full (V s) d" using sectors_full [OF assms(1) d(2)] .
  have len: "length (file_leaves (V s) d) = MAX_BLOCKS" using length_file_leaves(3) [OF full ld] .
  have gok': "gok s' (groups_of d')"
    using d(2) r(3,4,6-8) fm_own_used [OF assms(1)] unfolding gok_def by auto
  have full': "sectors_full (V s') d'" using sectors_full [OF r(9) gok'] .
  have A0: "0 \<notin> A" using r(7) zero_used [OF assms(1)] by blast
  have old: "file_leaves (V s') d' ! k = file_leaves (V s) d ! k" if "k < nblocks d" for k
    using r(5) d(3,4) that len unfolding filled_def by (metis order_less_le_trans)
  have new: "file_leaves (V s') d' ! k \<in> A \<and> V s' (file_leaves (V s') d' ! k) = zeros" if "\<not> k < nblocks d" "k < n" for k
    using r(5) d(4) [of k] that len assms(6) unfolding filled_def by auto
  have no: "file_leaves (V s') d' ! k = 0" if "\<not> k < n" "k < MAX_BLOCKS" for k
    using r(5) d(4) [of k] that len assms(5) unfolding filled_def by auto
  show leaf: "file_leaves (V s') d' ! k \<noteq> 0 \<longleftrightarrow> k < n" if "k < MAX_BLOCKS" for k
  proof (cases "k < nblocks d")
    case True
    then show ?thesis using old [OF True] d(4) [OF that] assms(5) by simp
  next
    case False
    then show ?thesis using new [OF False] no [OF _ that] A0 by (metis)
  qed
  show "byte_at (V s') d' q = (if q div 512 < nblocks d then byte_at (V s) d q else 0)" if "q div 512 < n" for q
  proof -
    let ?k = "q div 512"
    have k: "?k < MAX_BLOCKS" using that assms(6) by simp
    have so: "sector_of (V s') d' ?k = file_leaves (V s') d' ! ?k"
      using sector_of_leaf(1) [OF full' assms(3) k] leaf [OF k] that by simp
    show ?thesis
    proof (cases "?k < nblocks d")
      case True
      have nz: "file_leaves (V s) d ! ?k \<noteq> 0" using d(4) [OF k] True by simp
      have sd: "sector_of (V s) d ?k = file_leaves (V s) d ! ?k" using sector_of_leaf(1) [OF full ld k nz] .
      have "file_leaves (V s) d ! ?k \<in> set (nz (file_leaves (V s) d))" using nz len k nth_mem by fastforce
      then have x: "file_leaves (V s) d ! ?k \<notin> set (gidx (V s) (groups_of d))" "file_leaves (V s) d ! ?k \<in> set (gown (V s) (groups_of d))"
        using d(2) distinct_gown [of "V s" "groups_of d"] by (auto simp: gok_def set_gown)
      then have "V s' (file_leaves (V s) d ! ?k) = V s (file_leaves (V s) d ! ?k)"
        using r(2,7) d(2) unfolding chg_def gok_def by blast
      then show ?thesis using True so sd old [OF True] by (simp add: byte_at_def)
    next
      case False
      have "q mod 512 < 512" by simp
      then show ?thesis using False new [OF False that] so by (simp add: byte_at_def zeros_def BLOCK_SECTOR_SIZE_def)
    qed
  qed
qed

lemma wf_disk_tree:
  assumes "fs_inv s" and "gok s (groups_of d)" and "length (direct_blocks d) = 123" and "0 \<le> flength d" and "flength d < 2 ^ 31"
  shows "wf_disk d"
proof -
  have n: "nsec s < 2 ^ 32" using fs_inv_base [OF assms(1)] by (simp add: fs_base_def NO_SECTOR_def)
  have small: "x < 2 ^ 32" if "x \<in> set (gown (V s) (groups_of d))" for x
    using that assms(2) used_less [OF assms(1)] n by (fastforce simp: gok_def)
  have "b < 2 ^ 32" if "b \<in> set (direct_blocks d)" for b
    using small [of b] that by (cases "b = 0") (auto simp: groups_of_def own_def)
  moreover have "indirect_block d < 2 ^ 32"
    using small [of "indirect_block d"] by (cases "indirect_block d = 0") (auto simp: groups_of_def own_def idx.simps)
  moreover have "doubly_indirect_block d < 2 ^ 32"
    using small [of "doubly_indirect_block d"]
    by (cases "doubly_indirect_block d = 0") (auto simp: groups_of_def own_def numeral_2_eq_2 idx.simps)
  ultimately show ?thesis using assms(3-5) by (simp add: wf_disk_def)
qed

lemma bytes_to_sectors_mono: "0 \<le> m \<Longrightarrow> m \<le> n \<Longrightarrow> bytes_to_sectors m \<le> bytes_to_sectors n"
  by (simp add: bytes_to_sectors_def cdiv_nonneg BLOCK_SECTOR_SIZE_def nat_mono zdiv_mono1)

section \<open>Writing inside the file\<close>

lemma good_disk_leaf:
  assumes "fs_inv s" and "good_disk s d" and "k < nblocks d"
  shows "sector_of (V s) d k \<in> set (gown (V s) (groups_of d)) - set (gidx (V s) (groups_of d))"
proof -
  have d: "gok s (groups_of d)" "length (direct_blocks d) = 123" "k < MAX_BLOCKS" "file_leaves (V s) d ! k \<noteq> 0"
    using assms(2,3) by (auto simp: good_disk_def wf_disk_def)
  note full = sectors_full [OF assms(1) d(1)]
  have so: "sector_of (V s) d k = file_leaves (V s) d ! k" using sector_of_leaf(1) [OF full d(2-4)] .
  have "file_leaves (V s) d ! k \<in> set (nz (file_leaves (V s) d))"
    using d(3,4) length_file_leaves(3) [OF full d(2)] nth_mem by fastforce
  then show ?thesis using so d(1) distinct_gown [of "V s" "groups_of d"] by (auto simp: gok_def set_gown)
qed

text \<open>A write inside a file keeps it in good order, and touches the sectors of its bytes only.\<close>

lemma good_disk_wrote:
  assumes "fs_inv s" and "good_disk s d" and "same_meta s s'" and "wrote (V s) (V s') d p buf" and "int (p + length buf) \<le> flength d"
  shows "good_disk s' d" and "fs_inv s'" and "fm_own s' = fm_own s"
    and "gown (V s') (groups_of d) = gown (V s) (groups_of d)"
    and "\<And>x. x \<notin> set (gown (V s) (groups_of d)) \<Longrightarrow> V s' x = V s x"
proof -
  note m = same_metaD [OF assms(3)]
  have gok: "gok s (groups_of d)" using assms(2) by (simp add: good_disk_def)
  have ch: "x \<in> set (gown (V s) (groups_of d)) - set (gidx (V s) (groups_of d))" if "V s' x \<noteq> V s x" for x
    using assms(4) good_disk_leaf [OF assms(1,2)] that unfolding wrote_def by blast
  then show fr: "V s' x = V s x" if "x \<notin> set (gown (V s) (groups_of d))" for x using that by blast
  have "V s' x = V s x" if "x \<in> fm_own s" for x using fr that gok by (auto simp: gok_def)
  from fs_inv_same_meta [OF assms(1,3) this] show i: "fs_inv s'" "fm_own s' = fm_own s" by simp_all
  have u: "used s' = used s" using m(3) by simp
  have gidx: "V s' x = V s x" if "x \<in> set (gidx (V s) (groups_of d))" for x using ch [of x] that by blast
  note c = gidx_cong [of "V s" "groups_of d" "V s'", OF gidx]
  show own: "gown (V s') (groups_of d) = gown (V s) (groups_of d)" using c by simp
  have gok': "gok s' (groups_of d)" using gok u i(2) own by (simp add: gok_def)
  have "byte_at (V s') d q = 0" if "flength d \<le> int q" "q div 512 < nblocks d" for q
    using assms(2,4,5) that unfolding wrote_def good_disk_def by auto
  then show "good_disk s' d" using assms(2) gok' c by (simp add: good_disk_def)
qed

section \<open>Writing past the end\<close>

lemma grown_contents:
  assumes "0 \<le> flength d" and "flength d < flength d'"
    and "\<And>q. flength d \<le> int q \<Longrightarrow> q div 512 < nblocks d' \<Longrightarrow> byte_at v' d' q = 0"
    and "\<And>q. int q < flength d \<Longrightarrow> byte_at v' d' q = byte_at v d q"
  shows "contents v' d' = contents v d @ replicate (nat (flength d') - nat (flength d)) 0"
proof (rule nth_equalityI)
  fix q assume "q < length (contents v' d')"
  then have q: "q < nat (flength d')" by (simp add: contents_def)
  then have "q div 512 < nblocks d'" by (intro block_of_byte) simp
  then show "contents v' d' ! q = (contents v d @ replicate (nat (flength d') - nat (flength d)) 0) ! q"
    using q assms(3,4) by (cases "int q < flength d") (auto simp: contents_def nth_append)
qed (use assms in \<open>simp add: contents_def\<close>)

text \<open>
  The file is longer and in good order, its bytes are given, and its new inode is on the disk;
  every sector that was in use keeps its bytes unless it belongs to the file or to the free map.
\<close>

definition extended :: "fs \<Rightarrow> fs \<Rightarrow> addr \<Rightarrow> inode \<Rightarrow> byte list \<Rightarrow> bool" where
  "extended s s' a i bs \<longleftrightarrow> fs_inv s' \<and> nsec s' = nsec s \<and> fm_own s' = fm_own s \<and> used s \<subseteq> used s'
     \<and> open_inodes s' = open_inodes s \<and> files s' = files s \<and> dirs s' = dirs s \<and> free_map_file s' = free_map_file s
     \<and> cwd s' = cwd s
     \<and> (\<exists>d. inodes s' = (inodes s)(a \<mapsto> i\<lparr>data := d\<rparr>) \<and> good_file s' a (i\<lparr>data := d\<rparr>)
          \<and> flength d = int (length bs) \<and> is_dir d = is_dir (data i) \<and> decode_inode (V s' (sector i)) = d
          \<and> contents (V s') d = bs \<and> set (gown (V s') (groups_of d)) \<subseteq> set (gown (V s) (groups_of (data i))) \<union> (used s' - used s))
     \<and> (\<forall>x. x \<in> used s - fm_own s - set (gown (V s) (groups_of (data i))) - {sector i} \<longrightarrow> V s' x = V s x)"

lemma extendedD:
  assumes "extended s s' a i bs" and "inodes s' a = Some (i\<lparr>data := d\<rparr>)"
  shows "inodes s' = (inodes s)(a \<mapsto> i\<lparr>data := d\<rparr>)" "good_file s' a (i\<lparr>data := d\<rparr>)" "flength d = int (length bs)"
    "is_dir d = is_dir (data i)" "decode_inode (V s' (sector i)) = d" "contents (V s') d = bs"
    "set (gown (V s') (groups_of d)) \<subseteq> set (gown (V s) (groups_of (data i))) \<union> (used s' - used s)" "fs_inv s'"
proof -
  obtain d0 where d0: "inodes s' = (inodes s)(a \<mapsto> i\<lparr>data := d0\<rparr>) \<and> good_file s' a (i\<lparr>data := d0\<rparr>)
      \<and> flength d0 = int (length bs) \<and> is_dir d0 = is_dir (data i) \<and> decode_inode (V s' (sector i)) = d0
      \<and> contents (V s') d0 = bs \<and> set (gown (V s') (groups_of d0)) \<subseteq> set (gown (V s) (groups_of (data i))) \<union> (used s' - used s)"
    using assms(1) unfolding extended_def by blast
  then have "i\<lparr>data := d0\<rparr> = i\<lparr>data := d\<rparr>" using assms(2) by simp
  then have "d0 = d" by (metis inode.select_convs(5) inode.surjective inode.update_convs(5))
  with d0 show "inodes s' = (inodes s)(a \<mapsto> i\<lparr>data := d\<rparr>)" "good_file s' a (i\<lparr>data := d\<rparr>)" "flength d = int (length bs)"
    "is_dir d = is_dir (data i)" "decode_inode (V s' (sector i)) = d" "contents (V s') d = bs"
    "set (gown (V s') (groups_of d)) \<subseteq> set (gown (V s) (groups_of (data i))) \<union> (used s' - used s)"
    by blast+
  show "fs_inv s'" using assms(1) by (simp add: extended_def)
qed

text \<open>The first half of the operation: the sectors are reserved and the inode is written.\<close>

lemma inode_grow:
  assumes "fs_inv s" and "saver_ok sv" and "good_file s a i"
    and "flength (data i) < int new" and "new \<le> MAX_BLOCKS * 512" and "bytes_to_sectors (int new) + 130 \<le> free_cnt s"
  shows "\<exists>d s1 s2. inode_reserve sv (data i) (int new) s = Inr (True, d, s1) \<and> inodes s1 = inodes s
     \<and> cwrite (sector i) (encode_inode (d\<lparr>flength := int new\<rparr>)) (s1\<lparr>inodes := (inodes s1)(a := Some (i\<lparr>data := d\<lparr>flength := int new\<rparr>\<rparr>))\<rparr>) = Inr s2
     \<and> inodes s2 a = Some (i\<lparr>data := d\<lparr>flength := int new\<rparr>\<rparr>)
     \<and> extended s s2 a i (contents (V s) (data i) @ replicate (new - nat (flength (data i))) 0)"
proof -
  let ?d = "data i" and ?v = "V s"
  define n where "n = bytes_to_sectors (int new)"
  have gd: "good_disk s ?d" "a \<noteq> NULL" "inodes s a = Some i" "fm_addr s \<noteq> Some a" "sector i \<in> used s - fm_own s"
    "sector i \<notin> set (gown ?v (groups_of ?d))"
    using assms(3) by (auto simp: good_file_def)
  have d: "wf_disk ?d" "gok s (groups_of ?d)" "0 \<le> flength ?d" "length (direct_blocks ?d) = 123"
    "\<And>q. flength ?d \<le> int q \<Longrightarrow> q div 512 < nblocks ?d \<Longrightarrow> byte_at ?v ?d q = 0"
    using gd(1) by (auto simp: good_disk_def wf_disk_def)
  have nm: "n \<le> MAX_BLOCKS"
    using bytes_to_sectors_less [of "int new" MAX_BLOCKS] assms(5) by (simp add: n_def linorder_not_less [symmetric])
  have nb: "nblocks ?d \<le> n" unfolding nblocks_def n_def using d(3) assms(4) by (intro bytes_to_sectors_mono) simp_all
  obtain d' s1 A where r: "inode_reserve sv ?d (int new) s = Inr (True, d', s1)" "greserved s s1 (groups_of ?d) (groups_of d') n A" "same_kind ?d d'"
    using inode_reserve_spec [OF assms(2,1) d(4,2), of "int new"] nm assms(6) by (auto simp: n_def)
  note g = greservedD [OF r(2)]
  have ld: "length (direct_blocks d') = 123" using r(3) d(4) by (simp add: same_kind_def)
  note b1 = reserved_bytes [OF assms(1) gd(1) ld r(2) nb nm]
  have gok1: "gok s1 (groups_of d')" using d(2) g(3,4,6-8) fm_own_used [OF assms(1)] unfolding gok_def by auto
  let ?d2 = "d'\<lparr>flength := int new\<rparr>"
  let ?i2 = "i\<lparr>data := ?d2\<rparr>"
  let ?s2 = "s1\<lparr>inodes := (inodes s1)(a := Some ?i2)\<rparr>"
  have same1: "free_map_file s1 = free_map_file s" "files s1 = files s" "dirs s1 = dirs s" "open_inodes s1 = open_inodes s" "cwd s1 = cwd s"
    "inodes s1 = inodes s" "nsec s1 = nsec s"
    using g(1) by (simp_all add: alloc_rel_def)
  have "fm_addr s1 = fm_addr s" by (simp add: fm_addr_def same1)
  then have fma: "fm_addr s1 \<noteq> Some a" using gd(4) by simp
  note i2 = fs_inv_set_inode [OF g(9) fma, of "Some ?i2"]
  have new31: "int new < 2 ^ 31" using assms(5) by (simp add: MAX_BLOCKS_def)
  have wd: "wf_disk ?d2" by (rule wf_disk_tree [OF g(9)]) (use gok1 ld new31 in simp_all)
  have sec: "sector i < nsec s" "sector i \<notin> A" "sector i \<notin> fm_own s"
    using gd(5) used_less [OF assms(1)] g(7) by auto
  have secg: "sector i \<notin> set (gown (V s1) (groups_of d'))" using gd(6) sec(2) g(4) by simp
  obtain s3 where s3: "cwrite (sector i) (encode_inode ?d2) ?s2 = Inr s3" "same_meta ?s2 s3" "V s3 = (V s1)(sector i := encode_inode ?d2)"
    using cwrite_spec [OF fs_inv_base [OF i2(1)], of "sector i" "encode_inode ?d2"] length_encode_inode [OF wd] sec(1) same1(7) by auto
  note m3 = same_metaD [OF s3(2)]
  have "V s3 x = V ?s2 x" if "x \<in> fm_own ?s2" for x using that s3(3) sec(3) i2(2) g(8) by auto
  note i3 = fs_inv_same_meta [OF i2(1) s3(2) this]
  have fm3: "fm_own s3 = fm_own s" using i3(2) i2(2) g(8) by simp
  have used3: "used s3 = used s1" using m3(3) by simp
  have v3: "V s3 x = V s1 x" if "x \<in> set (gown (V s1) (groups_of d'))" for x using that secg s3(3) by auto
  have g3: "gok s3 (groups_of d')" "gown (V s3) (groups_of d') = gown (V s1) (groups_of d')" "file_leaves (V s3) d' = file_leaves (V s1) d'"
    "gidx (V s3) (groups_of d') = gidx (V s1) (groups_of d')"
    using gok_cong [of s1 "groups_of d'" s3] gok1 v3 used3 fm3 g(8) by auto
  have nb2: "nblocks ?d2 = n" by (simp add: nblocks_def n_def)
  have leaf3: "file_leaves (V s3) d' ! k \<noteq> 0 \<longleftrightarrow> k < n" if "k < MAX_BLOCKS" for k using b1(1) [OF that] g3(3) by simp
  have w3: "wf_file (V s3) (nsec s3) ?d2" "own_sectors (V s3) ?d2 \<subseteq> set (gown (V s3) (groups_of ?d2))"
    using wf_file_tree [OF i3(1), of ?d2] g3(1) wd nm nb2 leaf3 by auto
  have by3: "byte_at (V s3) ?d2 q = (if q div 512 < nblocks ?d then byte_at ?v ?d q else 0)" if "q div 512 < n" for q
  proof -
    have "index_sectors (V s1) d' n \<subseteq> set (gidx (V s1) (groups_of d'))"
      using index_sectors_tree [OF sectors_full [OF g(9) gok1] ld nm] b1(1) nm by auto
    then have "sector_of (V s3) d' (q div 512) = sector_of (V s1) d' (q div 512)"
      using sector_of_cong [OF _ that, of "V s1" d' "V s3"] v3 gidx_subset_gown by blast
    moreover have "sector_of (V s3) d' (q div 512) \<in> own_sectors (V s3) ?d2" using that nb2 by (simp add: own_sectors_def)
    ultimately have "byte_at (V s3) ?d2 q = byte_at (V s1) d' q"
      using w3(2) g3(2) v3 by (auto simp: byte_at_def)
    then show ?thesis using b1(2) [OF that] by simp
  qed
  have zero: "byte_at (V s3) ?d2 q = 0" if "flength ?d \<le> int q" "q div 512 < n" for q
    using by3 [OF that(2)] d(5) [OF that(1)] by simp
  have good3: "good_disk s3 ?d2"
    using wd g3(1) nm nb2 leaf3 zero assms(4) by (simp add: good_disk_def)
  have c3: "contents (V s3) ?d2 = contents ?v ?d @ replicate (new - nat (flength ?d)) 0"
  proof -
    have "byte_at (V s3) ?d2 q = byte_at ?v ?d q" if "int q < flength ?d" for q
      using by3 block_of_byte [OF that] nb by simp
    then show ?thesis using grown_contents [of ?d ?d2 "V s3" ?v] d(3) assms(4) zero nb2 by simp
  qed
  have same3: "free_map_file s3 = free_map_file s" "files s3 = files s" "dirs s3 = dirs s" "open_inodes s3 = open_inodes s" "cwd s3 = cwd s"
    "inodes s3 = (inodes s)(a \<mapsto> ?i2)" "nsec s3 = nsec s"
    using m3 same1 by simp_all
  have "fm_addr s3 = fm_addr s" by (simp add: fm_addr_def same3)
  then have "good_file s3 a ?i2"
    using gd good3 same3(6) used3 fm3 g(6) secg g3(2) by (simp add: good_file_def)
  moreover have "V s3 x = V s x" if "x \<in> used s - fm_own s - set (gown ?v (groups_of ?d)) - {sector i}" for x
    using greserved_frame [OF r(2), of "{x}" x] that s3(3) by auto
  moreover have "decode_inode (V s3 (sector i)) = ?d2" using s3(3) decode_encode_inode [OF wd] by simp
  moreover have own: "set (gown (V s3) (groups_of ?d2)) \<subseteq> set (gown ?v (groups_of ?d)) \<union> (used s3 - used s)"
    using g(4,6,7) g3(2) used3 by auto
  moreover define bs where "bs = contents ?v ?d @ replicate (new - nat (flength ?d)) 0"
  moreover have "length bs = new" using assms(4) d(3) by (auto simp: bs_def contents_def)
  ultimately have "extended s s3 a i bs"
    unfolding extended_def using i3(1) same3 fm3 used3 g(6) r(3) c3
    by (intro conjI exI [of _ ?d2]) (simp_all add: same_kind_def)
  then show ?thesis unfolding bs_def using r(1) s3(1) same1(6) same3(6) by auto
qed

lemma inode_write_extends:
  assumes "fs_inv s" and "saver_ok sv" and "good_file s a i" and "deny_write_cnt i = 0" and "buf \<noteq> []"
    and "flength (data i) < int (p + length buf)" and "p + length buf \<le> MAX_BLOCKS * 512"
    and "bytes_to_sectors (int (p + length buf)) + 130 \<le> free_cnt s"
  shows "\<exists>s'. inode_write sv a buf (int (length buf)) (int p) s = Inr (int (length buf), s')
     \<and> extended s s' a i (take p (contents (V s) (data i) @ replicate (p - nat (flength (data i))) 0) @ buf)"
proof -
  let ?new = "p + length buf" and ?c = "contents (V s) (data i)"
  obtain d s1 s2 where g: "inode_reserve sv (data i) (int ?new) s = Inr (True, d, s1)" "inodes s1 = inodes s"
    "cwrite (sector i) (encode_inode (d\<lparr>flength := int ?new\<rparr>)) (s1\<lparr>inodes := (inodes s1)(a := Some (i\<lparr>data := d\<lparr>flength := int ?new\<rparr>\<rparr>))\<rparr>) = Inr s2"
    "inodes s2 a = Some (i\<lparr>data := d\<lparr>flength := int ?new\<rparr>\<rparr>)"
    "extended s s2 a i (?c @ replicate (?new - nat (flength (data i))) 0)"
    using inode_grow [OF assms(1-3,6-8)] by blast
  let ?d2 = "d\<lparr>flength := int ?new\<rparr>"
  let ?i2 = "i\<lparr>data := ?d2\<rparr>"
  note x = extendedD [OF g(5,4)]
  have good: "good_disk s2 ?d2" "sector i \<notin> set (gown (V s2) (groups_of ?d2))" using x(2) by (auto simp: good_file_def)
  have len: "length ?c = nat (flength (data i))" by (simp add: contents_def)
  have f2: "file_at s2 a ?i2" using good_file_at [OF x(8,2)] by simp
  from write_loop_spec [OF fs_inv_base [OF x(8)] f2, of p buf False 0]
  obtain s3 where s3: "write_loop a buf (int (length buf)) (int p) False 0 s2 = Inr (int (length buf), s3)" "same_meta s2 s3"
    "wrote (V s2) (V s3) ?d2 p buf" by auto
  note m = same_metaD [OF s3(2)] and w = good_disk_wrote [OF x(8) good(1) s3(2,3)]
  have "byte_to_sector a (int p + int (length buf) - 1) s = Inr (NO_SECTOR, s)"
    using byte_to_sector_outside [OF good_file_at(1) [OF assms(1,3)]] assms(6) by simp
  then have e: "inode_write sv a buf (int (length buf)) (int p) s = Inr (int (length buf), s3)"
    using get_inode [OF good_file_at(1) [OF assms(1,3)]] assms(3,4) g(1-3) s3(1)
    by (simp add: inode_write_def set_inode_def good_file_def fun_upd_upd)
  have c: "contents (V s3) ?d2 = take p (?c @ replicate (p - nat (flength (data i))) 0) @ buf"
    using wrote_contents [OF s3(3)] x(6) len assms(6) by (simp add: nat_int_add min_absorb1 diff_le_mono)
  have "fm_addr s3 = fm_addr s2" by (simp add: fm_addr_def m)
  then have "good_file s3 a ?i2"
    using x(2) w m by (simp add: good_file_def)
  moreover have "V s3 y = V s y"
    if y: "y \<in> used s - fm_own s - set (gown (V s) (groups_of (data i))) - {sector i}" for y
  proof -
    have "y \<notin> set (gown (V s2) (groups_of ?d2))" using x(7) y by auto
    then show ?thesis using w(5) g(5) y by (simp add: extended_def)
  qed
  moreover have "decode_inode (V s3 (sector i)) = ?d2" using w(5) good(2) x(5) by simp
  moreover have "set (gown (V s3) (groups_of ?d2)) \<subseteq> set (gown (V s) (groups_of (data i))) \<union> (used s3 - used s)"
    using x(7) w(4) m by auto
  ultimately have "extended s s3 a i (take p (?c @ replicate (p - nat (flength (data i))) 0) @ buf)"
    unfolding extended_def using x(1,4) w(2,3) m g(5) c len assms(6)
    by (intro conjI exI [of _ ?d2]) (simp_all add: extended_def)
  then show ?thesis using e by blast
qed

end
