(* ===== verification/Filesys.thy ===== *)
theory Filesys
  imports Directory Inode_Append
begin

text \<open>
  The interface of the file system, filesys/filesys.c (project 4): starting and stopping it, and
  creating, opening and removing files by path. Paths are the characters of a C string without the
  final null byte; console output is left out.
\<close>

section \<open>Model\<close>

text \<open>The two buffers of a caller of \<^verbatim>\<open>name_resolution\<close>.\<close>

definition resolve :: "byte list \<Rightarrow> fs \<Rightarrow> (byte list \<times> byte list \<times> fs) res" where
  "resolve path s =
     (let (directory, s) = malloc s; (filename, s) = malloc s in name_resolution path directory filename s)"

definition do_format :: "fs \<Rightarrow> fs res" where
  "do_format s =
     bind_res (free_map_create s) (\<lambda>s.
     bind_res (dir_create ROOT_DIR_SECTOR 16 s) (\<lambda>(ok, s).
     if \<not> ok then Inl Panic else free_map_close s))"

definition filesys_init :: "bool \<Rightarrow> block_table \<Rightarrow> 32 word list \<Rightarrow> fs \<Rightarrow> fs res" where
  "filesys_init format bt junk s =
     bind_res (block_get_role BLOCK_FILESYS bt) (\<lambda>b.
     if b = NULL then Inl Panic
     else
       let s = inode_init (s\<lparr>bc := (bc s)\<lparr>fs_device := block_at bt b\<rparr>\<rparr>) in
       bind_res (free_map_init junk s) (\<lambda>s.
       let s = s\<lparr>bc := buffer_cache_init (bc s)\<rparr> in
       bind_res (if format then do_format s else Inr s) (\<lambda>s. free_map_open s)))"

definition filesys_done :: "fs \<Rightarrow> fs res" where
  "filesys_done s =
     bind_res (free_map_close s) (\<lambda>s.
     bind_res (buffer_cache_close (bc s)) (\<lambda>b. Inr (s\<lparr>bc := b\<rparr>)))"

text \<open>The conjunction that decides success, and the sector that was allocated (0 if none).\<close>

definition create_steps :: "addr \<Rightarrow> byte list \<Rightarrow> int \<Rightarrow> bool \<Rightarrow> fs \<Rightarrow> (bool \<times> nat \<times> fs) res" where
  "create_steps dir filename initial_size isdir s =
     (if dir = NULL then Inr (False, 0, s)
      else bind_res (free_map_allocate save 1 s) (\<lambda>(ok, sec, s).
      if \<not> ok then Inr (False, 0, s)
      else bind_res (inode_create sec initial_size isdir s) (\<lambda>(ok, s).
      if \<not> ok then Inr (False, sec, s)
      else bind_res (dir_add dir filename sec isdir s) (\<lambda>(ok, s). Inr (ok, sec, s)))))"

definition filesys_create :: "byte list \<Rightarrow> int \<Rightarrow> bool \<Rightarrow> fs \<Rightarrow> (bool \<times> fs) res" where
  "filesys_create path initial_size isdir s =
     bind_res (resolve path s) (\<lambda>(directory, filename, s).
     bind_res (dir_open_path directory s) (\<lambda>(dir, s).
     bind_res (create_steps dir filename initial_size isdir s) (\<lambda>(success, inode_sector, s).
     bind_res (if \<not> success \<and> inode_sector \<noteq> 0 then free_map_release save inode_sector 1 s else Inr s) (\<lambda>s.
     bind_res (dir_close dir s) (\<lambda>s. Inr (success, s))))))"

definition filesys_open :: "byte list \<Rightarrow> fs \<Rightarrow> (addr \<times> fs) res" where
  "filesys_open name s =
     (if length name = 0 then Inr (NULL, s)
      else
        bind_res (resolve name s) (\<lambda>(directory, filename, s).
        bind_res (dir_open_path directory s) (\<lambda>(dir, s).
        if dir = NULL then Inr (NULL, s)
        else
          bind_res
            (if length filename > 0 then
               bind_res (dir_lookup dir filename s) (\<lambda>(_, inode, s).
               bind_res (dir_close dir s) (\<lambda>s. Inr (inode, s)))
             else bind_res (dir_get_inode dir s) (\<lambda>inode. Inr (inode, s))) (\<lambda>(inode, s).
          if inode = NULL then Inr (NULL, s)
          else
            bind_res (get_obj (inodes s) inode) (\<lambda>i.
            if removed i then Inr (NULL, s) else file_open inode s)))))"

definition filesys_remove :: "byte list \<Rightarrow> fs \<Rightarrow> (bool \<times> fs) res" where
  "filesys_remove name s =
     bind_res (resolve name s) (\<lambda>(directory, filename, s).
     bind_res (dir_open_path directory s) (\<lambda>(dir, s).
     bind_res (if dir \<noteq> NULL then dir_remove dir filename s else Inr (False, s)) (\<lambda>(success, s).
     bind_res (dir_close dir s) (\<lambda>s. Inr (success, s)))))"

definition filesys_cd :: "byte list \<Rightarrow> fs \<Rightarrow> (bool \<times> fs) res" where
  "filesys_cd name s =
     bind_res (dir_open_path name s) (\<lambda>(dir, s).
     if dir = NULL then Inr (False, s)
     else bind_res (dir_close (cwd s) s) (\<lambda>s. Inr (True, s\<lparr>cwd := dir\<rparr>)))"

end
