(* ===== verification/Inode_Properties.thy ===== *)
theory Inode_Properties
  imports Inode_Append
begin

text \<open>
  What the inode layer promises: a file in good order behaves as an array of bytes that grows on
  demand, files do not disturb each other; and the cases in which the code does not keep its promise.
\<close>

section \<open>Files as byte arrays\<close>

text \<open>A file that is open for writing at address \<open>a\<close>, whose inode on disk is current.\<close>

definition open_file_at :: "fs \<Rightarrow> addr \<Rightarrow> inode \<Rightarrow> bool" where
  "open_file_at s a i \<longleftrightarrow> good_file s a i \<and> deny_write_cnt i = 0 \<and> decode_inode (V s (sector i)) = data i"

definition file_bytes :: "fs \<Rightarrow> addr \<Rightarrow> byte list" where
  "file_bytes s a = contents (V s) (data (the (inodes s a)))"

text \<open>The bytes after writing \<open>buf\<close> at \<open>p\<close>: a gap is filled with zeros.\<close>

definition overwrite :: "nat \<Rightarrow> byte list \<Rightarrow> byte list \<Rightarrow> byte list" where
  "overwrite p buf bs = take p (bs @ replicate (p - length bs) 0) @ buf @ drop (p + length buf) bs"

text \<open>Enough space to make a file \<open>n\<close> bytes long: its data and at most 130 index sectors.\<close>

definition room_for :: "fs \<Rightarrow> nat \<Rightarrow> bool" where
  "room_for s n \<longleftrightarrow> n \<le> MAX_BLOCKS * 512 \<and> bytes_to_sectors (int n) + 130 \<le> free_cnt s"

text \<open>The sectors of a file, its inode included.\<close>

definition sectors_of :: "fs \<Rightarrow> inode \<Rightarrow> nat set" where
  "sectors_of s i = insert (sector i) (set (gown (V s) (groups_of (data i))))"

lemma sectors_of_used: "good_file s a i \<Longrightarrow> sectors_of s i \<subseteq> used s - fm_own s"
  by (auto simp: good_file_def good_disk_def gok_def sectors_of_def)

lemma good_file_cong:
  assumes "good_file s a i" and "\<And>x. x \<in> sectors_of s i \<Longrightarrow> V s' x = V s x" and "used s \<subseteq> used s'"
    and "fm_own s' = fm_own s" and "inodes s' a = inodes s a" and "fm_addr s' = fm_addr s" and "fs_inv s"
  shows "good_file s' a i" and "sectors_of s' i = sectors_of s i" and "contents (V s') (data i) = contents (V s) (data i)"
proof -
  let ?d = "data i"
  have d: "wf_disk ?d" "gok s (groups_of ?d)" "nblocks ?d \<le> MAX_BLOCKS"
    "\<And>k. k < MAX_BLOCKS \<Longrightarrow> file_leaves (V s) ?d ! k \<noteq> 0 \<longleftrightarrow> k < nblocks ?d"
    "\<And>p. flength ?d \<le> int p \<Longrightarrow> p div 512 < nblocks ?d \<Longrightarrow> byte_at (V s) ?d p = 0"
    using assms(1) by (auto simp: good_file_def good_disk_def)
  have v: "V s' x = V s x" if "x \<in> set (gown (V s) (groups_of ?d))" for x using assms(2) that by (simp add: sectors_of_def)
  note c = gok_cong [OF d(2) v assms(3,4)]
  show "sectors_of s' i = sectors_of s i" using c by (simp add: sectors_of_def)
  have own: "own_sectors (V s) ?d \<subseteq> set (gown (V s) (groups_of ?d))" using good_file_at(2) [OF assms(7,1)] .
  show "contents (V s') ?d = contents (V s) ?d" using contents_cong v own by blast
  have "byte_at (V s') ?d q = byte_at (V s) ?d q" if "q div 512 < nblocks ?d" for q
  proof -
    have "\<And>x. x \<in> index_sectors (V s) ?d (nblocks ?d) \<Longrightarrow> V s' x = V s x"
      using v own by (auto simp: own_sectors_def)
    then have "sector_of (V s') ?d (q div 512) = sector_of (V s) ?d (q div 512)" using sector_of_cong that by blast
    moreover have "sector_of (V s) ?d (q div 512) \<in> set (gown (V s) (groups_of ?d))" using own that by (auto simp: own_sectors_def)
    ultimately show ?thesis using v by (simp add: byte_at_def)
  qed
  then show "good_file s' a i"
    using assms d c by (auto simp: good_file_def good_disk_def)
qed

text \<open>
  What writing a file may change: the inode at \<open>a\<close> becomes \<open>j\<close>; other sectors in use keep
  their bytes, except those of the free map file.
\<close>

definition file_step :: "fs \<Rightarrow> fs \<Rightarrow> addr \<Rightarrow> inode \<Rightarrow> inode \<Rightarrow> bool" where
  "file_step s s' a i j \<longleftrightarrow> fs_inv s' \<and> nsec s' = nsec s \<and> used s \<subseteq> used s' \<and> fm_own s' = fm_own s
     \<and> inodes s' = (inodes s)(a \<mapsto> j) \<and> open_inodes s' = open_inodes s \<and> files s' = files s \<and> dirs s' = dirs s
     \<and> free_map_file s' = free_map_file s \<and> cwd s' = cwd s
     \<and> sector j = sector i \<and> open_cnt j = open_cnt i \<and> removed j = removed i \<and> is_dir (data j) = is_dir (data i)
     \<and> sectors_of s' j \<subseteq> sectors_of s i \<union> (used s' - used s)
     \<and> (\<forall>x. x \<in> used s - fm_own s - sectors_of s i \<longrightarrow> V s' x = V s x)"

lemma file_stepD:
  assumes "file_step s s' a i j"
  shows "fs_inv s'" "used s \<subseteq> used s'" "fm_own s' = fm_own s" "inodes s' = (inodes s)(a \<mapsto> j)" "fm_addr s' = fm_addr s"
    "x \<in> used s - fm_own s - sectors_of s i \<Longrightarrow> V s' x = V s x" "sectors_of s' j \<subseteq> sectors_of s i \<union> (used s' - used s)"
    "files s' = files s" "dirs s' = dirs s" "sector j = sector i" "open_inodes s' = open_inodes s" "cwd s' = cwd s"
    "free_map_file s' = free_map_file s" "nsec s' = nsec s"
  using assms by (auto simp: file_step_def fm_addr_def)

lemma overwrite_inside: "p + length buf \<le> length bs \<Longrightarrow> overwrite p buf bs = take p bs @ buf @ drop (p + length buf) bs"
  by (simp add: overwrite_def)

lemma inode_write_at_inside:
  assumes "fs_inv s" and "open_file_at s a i" and "buf \<noteq> []" and "p + length buf \<le> length (file_bytes s a)"
  shows "\<exists>s' j. inode_write_at a buf (int (length buf)) (int p) s = Inr (int (length buf), s') \<and> file_step s s' a i j
     \<and> open_file_at s' a j \<and> file_bytes s' a = overwrite p buf (file_bytes s a)"
proof -
  let ?d = "data i"
  have g: "good_file s a i" "deny_write_cnt i = 0" "decode_inode (V s (sector i)) = ?d" "inodes s a = Some i" "good_disk s ?d"
    "sector i \<notin> set (gown (V s) (groups_of ?d))"
    using assms(2) by (auto simp: open_file_at_def good_file_def)
  have fb: "file_bytes s a = contents (V s) ?d" using g(4) by (simp add: file_bytes_def)
  have f: "file_at s a i" using good_file_at [OF assms(1) g(1)] by simp
  have le: "int (p + length buf) \<le> flength ?d" "p + length buf \<le> nat (flength ?d)"
    using assms(3,4) fb by (cases buf; simp add: contents_def)+
  obtain s' where s': "inode_write_at a buf (int (length buf)) (int p) s = Inr (int (length buf), s')" "same_meta s s'"
    "wrote (V s) (V s') ?d p buf"
    using inode_write_inside [OF fs_inv_base [OF assms(1)] f g(2) assms(3) le(1)] unfolding inode_write_at_def by blast
  note m = same_metaD [OF s'(2)] and w = good_disk_wrote [OF assms(1) g(5) s'(2,3) le(1)]
  have fa: "fm_addr s' = fm_addr s" by (simp add: fm_addr_def m)
  have good: "good_file s' a i" using g(1) w fa m by (simp add: good_file_def)
  have "open_file_at s' a i" using good g(2,3,6) w(5) by (simp add: open_file_at_def)
  moreover have "file_bytes s' a = overwrite p buf (file_bytes s a)"
    using wrote_contents [OF s'(3) le(2)] overwrite_inside [OF assms(4)] fb m g(4) by (simp add: file_bytes_def)
  moreover have "file_step s s' a i i"
    using w m g(4) by (auto simp: file_step_def sectors_of_def)
  ultimately show ?thesis using s'(1) by blast
qed

lemma inode_write_at_beyond:
  assumes "fs_inv s" and "open_file_at s a i" and "buf \<noteq> []" and "length (file_bytes s a) < p + length buf" and "room_for s (p + length buf)"
  shows "\<exists>s' j. inode_write_at a buf (int (length buf)) (int p) s = Inr (int (length buf), s') \<and> file_step s s' a i j
     \<and> open_file_at s' a j \<and> file_bytes s' a = overwrite p buf (file_bytes s a)"
proof -
  have g: "good_file s a i" "deny_write_cnt i = 0" "inodes s a = Some i" "0 \<le> flength (data i)"
    using assms(2) by (auto simp: open_file_at_def good_file_def good_disk_def wf_disk_def)
  have fb: "file_bytes s a = contents (V s) (data i)" "length (contents (V s) (data i)) = nat (flength (data i))"
    using g(3) by (simp_all add: file_bytes_def contents_def)
  have lt: "flength (data i) < int (p + length buf)" using assms(4) g(4) unfolding fb by linarith
  let ?bs = "take p (contents (V s) (data i) @ replicate (p - nat (flength (data i))) 0) @ buf"
  obtain s' where s': "inode_write_at a buf (int (length buf)) (int p) s = Inr (int (length buf), s')"
    "extended s s' a i ?bs"
    using inode_write_extends [OF assms(1) save_ok g(1,2) assms(3) lt] assms(5)
    unfolding inode_write_at_def room_for_def by blast
  obtain d where d: "inodes s' a = Some (i\<lparr>data := d\<rparr>)" using s'(2) unfolding extended_def by auto
  note x = extendedD [OF s'(2) d]
  let ?j = "i\<lparr>data := d\<rparr>"
  have "open_file_at s' a ?j" using x g(2) by (simp add: open_file_at_def)
  moreover have "file_bytes s' a = overwrite p buf (file_bytes s a)"
    using x(1,6) fb assms(4) by (simp add: file_bytes_def overwrite_def)
  moreover have "file_step s s' a i ?j"
    using s'(2) x(1,4,7) by (auto simp: file_step_def extended_def sectors_of_def)
  ultimately show ?thesis using s'(1) by blast
qed

lemma inode_write_at_spec:
  assumes "fs_inv s" and "open_file_at s a i" and "buf \<noteq> []" and "room_for s (p + length buf)"
  shows "\<exists>s' j. inode_write_at a buf (int (length buf)) (int p) s = Inr (int (length buf), s') \<and> file_step s s' a i j
     \<and> open_file_at s' a j \<and> file_bytes s' a = overwrite p buf (file_bytes s a)"
  using inode_write_at_inside [OF assms(1-3)] inode_write_at_beyond [OF assms(1-3) _ assms(4)]
  by (cases "p + length buf \<le> length (file_bytes s a)") (auto simp: not_le)

text \<open>Reading changes the cache only.\<close>

lemma inode_read_at_good:
  assumes "fs_inv s" and "good_file s a i"
  shows "\<exists>s'. inode_read_at a (int n) (int p) s = Inr (take n (drop p (file_bytes s a)), s') \<and> same_meta s s' \<and> V s' = V s"
  using inode_read_at_spec [OF fs_inv_base [OF assms(1)] good_file_at(1) [OF assms]] assms(2)
  by (simp add: file_bytes_def good_file_def)

lemma same_meta_good:
  assumes "fs_inv s" and "same_meta s s'" and "V s' = V s"
  shows "fs_inv s'" and "fm_own s' = fm_own s" and "file_bytes s' a = file_bytes s a" and "sectors_of s' i = sectors_of s i"
    and "good_file s' a i \<longleftrightarrow> good_file s a i" and "open_file_at s' a i \<longleftrightarrow> open_file_at s a i" and "room_for s' n \<longleftrightarrow> room_for s n"
proof -
  note m = same_metaD [OF assms(2)]
  have f: "fs_inv s'" "fm_own s' = fm_own s" using fs_inv_same_meta [OF assms(1,2)] assms(3) by simp_all
  then show "fs_inv s'" "fm_own s' = fm_own s" by simp_all
  have fa: "fm_addr s' = fm_addr s" by (simp add: fm_addr_def m)
  have gd: "good_disk s' d = good_disk s d" for d using f m assms(3) by (simp add: good_disk_def gok_def)
  show g: "good_file s' a i \<longleftrightarrow> good_file s a i" using gd f m fa assms(3) by (simp add: good_file_def)
  show "open_file_at s' a i \<longleftrightarrow> open_file_at s a i" using g assms(3) by (simp add: open_file_at_def)
  show "file_bytes s' a = file_bytes s a" "sectors_of s' i = sectors_of s i" "room_for s' n \<longleftrightarrow> room_for s n"
    using m assms(3) by (simp_all add: file_bytes_def sectors_of_def room_for_def free_cnt_def)
qed

section \<open>A small file system\<close>

text \<open>
  A device of 512 sectors: the inode of the free map in sector 0, its only data sector is number 2; an
  empty file with its inode in sector 1 is open at address 200; two directories with their inodes in
  the sectors 3 and 5 and their data in the sectors 4 and 6 are open at the addresses 201 and 202. The
  first one, also open as a directory at address 400, holds the link to its parent and an entry for the second one, which
  holds the link only; \<open>u\<close> is the byte that says whether the link is in use.
\<close>

definition demo_disk :: "nat list \<Rightarrow> bool \<Rightarrow> int \<Rightarrow> inode_disk" where
  "demo_disk bs dr n = \<lparr>direct_blocks = bs, indirect_block = 0, doubly_indirect_block = 0, is_dir = dr,
     flength = n, imagic = INODE_MAGIC\<rparr>"

definition demo_inode :: "nat \<Rightarrow> inode_disk \<Rightarrow> inode" where
  "demo_inode sec d = \<lparr>sector = sec, open_cnt = 1, removed = False, deny_write_cnt = 0, data = d\<rparr>"

definition demo_map :: inode_disk where "demo_map = demo_disk (2 # replicate 122 0) False 64"
definition demo_file :: inode_disk where "demo_file = demo_disk (replicate 123 0) False 0"
definition demo_dir :: inode_disk where "demo_dir = demo_disk (4 # replicate 122 0) True 40"
definition demo_sub :: inode_disk where "demo_sub = demo_disk (6 # replicate 122 0) True 20"

definition demo_link :: "byte \<Rightarrow> byte list" where
  "demo_link u = [1, 0, 0, 0] @ replicate 15 0 @ [u]"

definition demo_entries :: "byte \<Rightarrow> byte list" where
  "demo_entries u = demo_link u @ [5, 0, 0, 0, 100] @ replicate 14 0 @ [1]"

definition demo_data :: "byte \<Rightarrow> nat \<Rightarrow> byte list" where
  "demo_data u x = (if x = 0 then encode_inode demo_map else if x = 1 then encode_inode demo_file
     else if x = 3 then encode_inode demo_dir else if x = 4 then demo_entries u @ replicate 472 0
     else if x = 5 then encode_inode demo_sub else if x = 6 then demo_link u @ replicate 492 0 else zeros)"

definition demo_fs :: "byte \<Rightarrow> fs" where
  "demo_fs u =
    \<lparr>bc = \<lparr>caches = replicate 64 \<lparr>is_free = True, dirty = False, time_stamp = 0, disk_sector = 0, buffer = []\<rparr>, cache_lock = False,
       fs_device = \<lparr>blk_name = ''hdb1'', blk_type = BLOCK_FILESYS, blk_size = 512, blk_data = (demo_data u), read_cnt = 0, write_cnt = 0\<rparr>,
       clock = int\<rparr>,
     free_map = \<lparr>bit_cnt = 512, bits = 127 # replicate 15 0\<rparr>, free_map_file = 300,
     inodes = [100 \<mapsto> demo_inode 0 demo_map, 200 \<mapsto> demo_inode 1 demo_file, 201 \<mapsto> demo_inode 3 demo_dir, 202 \<mapsto> demo_inode 5 demo_sub],
     open_inodes = [100, 200, 201, 202],
     files = [300 \<mapsto> \<lparr>f_inode = 100, f_pos = 0, deny_write = False\<rparr>], dirs = [400 \<mapsto> \<lparr>d_inode = 201, d_pos = 20\<rparr>], cwd = NULL,
     allocs = (\<lambda>n. 1000 + n), garbage = (\<lambda>_. \<lparr>inode_sector = 0, ename = replicate 15 0, in_use = 0\<rparr>)\<rparr>"

lemmas demo_disks = demo_map_def demo_file_def demo_dir_def demo_sub_def demo_disk_def

lemma demo_wf: "wf_disk demo_file" "wf_disk demo_map" "wf_disk demo_dir" "wf_disk demo_sub"
  by (simp_all add: wf_disk_def demo_disks)

lemma demo_view: "V (demo_fs u) = (demo_data u)" and demo_sectors: "nsec (demo_fs u) = 512"
proof -
  have n: "\<not> holds (caches (bc (demo_fs u))) s i" for s i by (simp add: demo_fs_def holds_def)
  then show "V (demo_fs u) = (demo_data u)"
    using view_miss [of "bc (demo_fs u)"] by (simp add: fun_eq_iff) (simp add: demo_fs_def)
  show "nsec (demo_fs u) = 512" by (simp add: demo_fs_def sectors_def)
qed

lemma demo_base: "fs_base (demo_fs u)"
proof -
  have n: "\<not> holds (caches (bc (demo_fs u))) s i" for s i by (simp add: demo_fs_def holds_def)
  have "length (demo_data u x) = 512" for x
    using length_encode_inode [OF demo_wf(1)] length_encode_inode [OF demo_wf(2)] length_encode_inode [OF demo_wf(3)] length_encode_inode [OF demo_wf(4)]
    by (simp add: demo_data_def demo_entries_def demo_link_def zeros_def BLOCK_SECTOR_SIZE_def)
  then have "length (blk_data (fs_device (bc (demo_fs u))) x) = 512" for x by (simp add: demo_fs_def)
  then have "cache_idle (bc (demo_fs u))"
    using n by (simp add: cache_idle_def cache_ok_def entry_ok_def CACHE_CNT_def BLOCK_SECTOR_SIZE_def) (auto simp: demo_fs_def)
  then show ?thesis using demo_sectors by (simp add: fs_base_def NO_SECTOR_def) (simp add: demo_fs_def)
qed

lemma demo_used: "used (demo_fs u) = {0, 1, 2, 3, 4, 5, 6}"
proof -
  have b: "bit ((127 # replicate 15 0) ! (i div 32) :: 32 word) (i mod 32) \<longleftrightarrow> i < 7" if "i < 512" for i :: nat
  proof (cases "i < 32")
    case True
    have "(127 :: 32 word) = mask 7" by (simp add: mask_eq_exp_minus_1)
    then have "bit (127 :: 32 word) i \<longleftrightarrow> i < 7" using True bit_mask_iff [of 7 i, where 'a = "32 word"] by simp
    then show ?thesis using True by simp
  next
    case False
    then have "i div 32 = Suc (i div 32 - 1)" "i div 32 - 1 < 15" using that by simp_all
    then have "(127 # replicate 15 0 :: 32 word list) ! (i div 32) = 0" by (metis nth_Cons_Suc nth_replicate)
    then show ?thesis using False by simp
  qed
  have f: "bit_cnt (free_map (demo_fs u)) = 512" "bits (free_map (demo_fs u)) = 127 # replicate 15 0"
    by (simp_all only: demo_fs_def fs.simps bitmap.simps)
  have "bits_of (free_map (demo_fs u)) ! i \<longleftrightarrow> i < 7" if "i < 512" for i
    using that b [OF that] unfolding bits_of_def f by (simp del: replicate.simps nth_Cons' nth_replicate)
  then have "used (demo_fs u) = {i. i < 7}" unfolding used_bits_def f(1) by (auto simp del: numeral_less_iff)
  also have "\<dots> = {0, 1, 2, 3, 4, 5, 6}" by (auto simp: less_Suc_eq numeral_eq_Suc)
  finally show ?thesis .
qed

text \<open>A file with at most one direct block.\<close>

lemma demo_one_block:
  assumes "d = demo_disk (x # replicate 122 0) dr n" and "0 < n" and "n \<le> 512"
  shows "nblocks d = 1" and "sector_of v d 0 = x" and "own_sectors v d = {x}" and "index_sectors v d 1 = {}"
proof -
  show n: "nblocks d = 1"
  proof -
    have "0 < nblocks d" "\<not> 1 < nblocks d"
      using bytes_to_sectors_less [of n 0] bytes_to_sectors_less [of n 1] assms by (simp_all add: nblocks_def demo_disk_def)
    then show ?thesis by simp
  qed
  show s: "sector_of v d 0 = x" using assms(1) by (simp add: sector_of_def demo_disk_def)
  show i: "index_sectors v d 1 = {}" by (simp add: index_sectors_def)
  have "{..<1 :: nat} = {0}" by auto
  then show "own_sectors v d = {x}" unfolding own_sectors_def n i using s by simp
qed

lemmas demo_map_blocks = demo_one_block [OF demo_map_def]
lemma demo_inv: "fs_inv (demo_fs u)" "fm_own (demo_fs u) = {2}"
proof -
  note m = demo_map_blocks [simplified]
  have d: "free_map_file (demo_fs u) = 300" "files (demo_fs u) 300 = Some \<lparr>f_inode = 100, f_pos = 0, deny_write = False\<rparr>"
    "inodes (demo_fs u) 100 = Some (demo_inode 0 demo_map)" "bit_cnt (free_map (demo_fs u)) = 512" "length (bits (free_map (demo_fs u))) = 16"
    by (simp_all add: demo_fs_def)
  have i: "data (demo_inode 0 demo_map) = demo_map" "deny_write_cnt (demo_inode 0 demo_map) = 0" by (simp_all add: demo_inode_def)
  have "file_at (demo_fs u) 100 (demo_inode 0 demo_map)"
    using d i m demo_wf demo_sectors by (simp add: file_at_def wf_file_def MAX_BLOCKS_def inj_on_def)
  then show "fs_inv (demo_fs u)"
    unfolding fs_inv_def fm_ok_def using d i m(3) demo_base demo_used demo_sectors
    by (auto simp: wf_bitmap_def elem_cnt_def byte_cnt_def ELEM_BITS_def DIV_ROUND_UP_def SIZE_MAX_def demo_disks)
  show "fm_own (demo_fs u) = {2}" using d i m(3) by (simp add: fm_own_def fm_inode_def)
qed

lemma demo_open_file: "open_file_at (demo_fs u) 200 (demo_inode 1 demo_file)" "sectors_of (demo_fs u) (demo_inode 1 demo_file) = {1}"
proof -
  have own: "gown (V (demo_fs u)) (groups_of demo_file) = []" "file_leaves (V (demo_fs u)) demo_file = replicate 123 0 @ replicate 128 0 @ replicate 16384 0"
    by (simp_all add: groups_of_def demo_disks own_def)
  then show "sectors_of (demo_fs u) (demo_inode 1 demo_file) = {1}" by (simp add: sectors_of_def demo_inode_def)
  have "nblocks demo_file = 0" "flength demo_file = 0"
    by (simp_all add: nblocks_def bytes_to_sectors_def demo_disks cdiv_nonneg BLOCK_SECTOR_SIZE_def)
  moreover have "file_leaves (V (demo_fs u)) demo_file ! k = 0" if "k < MAX_BLOCKS" for k
    using that unfolding own(2) replicate_add [symmetric] by (simp add: MAX_BLOCKS_def)
  ultimately have "good_disk (demo_fs u) demo_file" using demo_wf own by (simp add: good_disk_def gok_def)
  moreover have "fm_addr (demo_fs u) = Some 100" "inodes (demo_fs u) 200 = Some (demo_inode 1 demo_file)"
    by (simp_all add: fm_addr_def demo_fs_def)
  moreover have "decode_inode (V (demo_fs u) 1) = demo_file" using demo_view decode_encode_inode [OF demo_wf(1)] by (simp add: demo_data_def)
  ultimately show "open_file_at (demo_fs u) 200 (demo_inode 1 demo_file)"
    using own demo_used demo_inv by (simp add: open_file_at_def good_file_def demo_inode_def)
qed

lemma demo_open_block:
  assumes "d = demo_disk (x # replicate 122 0) dr (int n)" and "0 < n" and "n \<le> 512" and "wf_disk d"
    and "demo_data u x = bs @ replicate (512 - n) 0" and "length bs = n" and "decode_inode (demo_data u sec) = d"
    and "inodes (demo_fs u) a = Some (demo_inode sec d)" and "a \<noteq> NULL" and "a \<noteq> 100" and "sec \<noteq> x" and "{sec, x} \<subseteq> {1, 3, 4, 5, 6}"
  shows "open_file_at (demo_fs u) a (demo_inode sec d)" "sectors_of (demo_fs u) (demo_inode sec d) = {sec, x}" "file_bytes (demo_fs u) a = bs"
proof -
  note b = demo_one_block [OF assms(1)]
  have nb: "nblocks d = 1" "sector_of v d 0 = x" for v using b assms(2,3) by simp_all
  have x: "x \<noteq> 0" using assms(12) by auto
  have own: "gown (V (demo_fs u)) (groups_of d) = [x]"
    "file_leaves (V (demo_fs u)) d = x # replicate 122 0 @ replicate 128 0 @ replicate 16384 0"
    using x by (simp_all add: groups_of_def assms(1) demo_disk_def own_def nz_def leaves.simps idx.simps)
  then show "sectors_of (demo_fs u) (demo_inode sec d) = {sec, x}" by (simp add: sectors_of_def demo_inode_def)
  have l: "flength d = int n" using assms(1) by (simp add: demo_disk_def)
  have at: "byte_at (V (demo_fs u)) d p = (bs @ replicate (512 - n) 0) ! p" if "p < 512" for p
    using that nb(2) assms(5) by (simp add: byte_at_def demo_view)
  have "file_leaves (V (demo_fs u)) d ! k \<noteq> 0 \<longleftrightarrow> k < 1" if "k < MAX_BLOCKS" for k
    using that x unfolding own(2) replicate_add [symmetric] by (cases k) (simp_all add: MAX_BLOCKS_def)
  moreover have "byte_at (V (demo_fs u)) d p = 0" if "int n \<le> int p" "p div 512 < 1" for p
  proof -
    have "p < 512" "n \<le> p" using that by simp_all
    then show ?thesis using at assms(6) by (simp add: nth_append)
  qed
  ultimately have "good_disk (demo_fs u) d"
    using assms(4,12) own(1) nb(1) l demo_used demo_inv(2) by (auto simp: good_disk_def gok_def MAX_BLOCKS_def)
  moreover have "fm_addr (demo_fs u) = Some 100" by (simp add: fm_addr_def demo_fs_def)
  ultimately show "open_file_at (demo_fs u) a (demo_inode sec d)"
    using own(1) demo_used demo_inv assms(7-12) by (auto simp: open_file_at_def good_file_def demo_inode_def demo_view)
  have "map (byte_at (V (demo_fs u)) d) [0..<n] = bs"
    using assms(3,6) by (intro nth_equalityI) (auto simp: at nth_append)
  then show "file_bytes (demo_fs u) a = bs" using assms(8) l by (simp add: file_bytes_def contents_def demo_inode_def)
qed

lemma length_demo_link: "length (demo_link u) = 20" and length_demo_entries: "length (demo_entries u) = 40"
  by (simp_all add: demo_link_def demo_entries_def)

lemma demo_open_dir: "open_file_at (demo_fs u) 201 (demo_inode 3 demo_dir)" "sectors_of (demo_fs u) (demo_inode 3 demo_dir) = {3, 4}"
  "file_bytes (demo_fs u) 201 = demo_entries u"
proof -
  have d: "demo_dir = demo_disk (4 # replicate 122 0) True (int 40)" "demo_data u 4 = demo_entries u @ replicate (512 - 40) 0"
    "decode_inode (demo_data u 3) = demo_dir" "inodes (demo_fs u) 201 = Some (demo_inode 3 demo_dir)"
    using decode_encode_inode [OF demo_wf(3)] by (simp_all add: demo_dir_def) (simp_all add: demo_data_def demo_fs_def demo_dir_def)
  show "open_file_at (demo_fs u) 201 (demo_inode 3 demo_dir)" "sectors_of (demo_fs u) (demo_inode 3 demo_dir) = {3, 4}"
    "file_bytes (demo_fs u) 201 = demo_entries u"
    using demo_open_block [OF d(1) _ _ demo_wf(3) d(2) length_demo_entries d(3,4)] by simp_all
qed

lemma demo_open_sub: "open_file_at (demo_fs u) 202 (demo_inode 5 demo_sub)" "file_bytes (demo_fs u) 202 = demo_link u"
proof -
  have d: "demo_sub = demo_disk (6 # replicate 122 0) True (int 20)" "demo_data u 6 = demo_link u @ replicate (512 - 20) 0"
    "decode_inode (demo_data u 5) = demo_sub" "inodes (demo_fs u) 202 = Some (demo_inode 5 demo_sub)"
    using decode_encode_inode [OF demo_wf(4)] by (simp_all add: demo_sub_def) (simp_all add: demo_data_def demo_fs_def demo_sub_def)
  show "open_file_at (demo_fs u) 202 (demo_inode 5 demo_sub)" "file_bytes (demo_fs u) 202 = demo_link u"
    using demo_open_block [OF d(1) _ _ demo_wf(4) d(2) length_demo_link d(3,4)] by simp_all
qed

lemma demo_room: "n \<le> 1000 \<Longrightarrow> room_for (demo_fs u) n"
proof -
  assume n: "n \<le> 1000"
  have "free_cnt (demo_fs u) = 505" unfolding free_cnt_def demo_used demo_sectors by (simp add: card_Diff_subset)
  moreover have "bytes_to_sectors (int n) \<le> 2"
    using bytes_to_sectors_less [of "int n" 2] n by simp
  ultimately show ?thesis using n by (simp add: room_for_def MAX_BLOCKS_def)
qed

lemma demo_bytes: "file_bytes (demo_fs u) 200 = []"
  by (simp add: file_bytes_def contents_def demo_fs_def demo_inode_def demo_disks)

section \<open>Other files\<close>

lemma file_step_other:
  assumes "fs_inv s" and "file_step s s' a i j" and "good_file s b k" and "b \<noteq> a" and "sectors_of s i \<inter> sectors_of s k = {}"
  shows "good_file s' b k" and "file_bytes s' b = file_bytes s b" and "sectors_of s' j \<inter> sectors_of s' k = {}"
    and "V s' (sector k) = V s (sector k)"
proof -
  note st = file_stepD [OF assms(2)]
  have v: "V s' x = V s x" if "x \<in> sectors_of s k" for x
    using st(6) that sectors_of_used [OF assms(3)] assms(5) by blast
  have k: "inodes s b = Some k" "inodes s' b = Some k" using assms(3,4) st(4) by (simp_all add: good_file_def)
  have "inodes s' b = inodes s b" using k by simp
  note c = good_file_cong [OF assms(3) v st(2,3) this st(5) assms(1)]
  show "good_file s' b k" "file_bytes s' b = file_bytes s b" using c k by (simp_all add: file_bytes_def)
  show "sectors_of s' j \<inter> sectors_of s' k = {}" using c(2) st(7) sectors_of_used [OF assms(3)] assms(5) by blast
  show "V s' (sector k) = V s (sector k)" using v by (simp add: sectors_of_def)
qed

section \<open>Removing a large file\<close>

lemma unreserve_direct_loop_overrun:
  "i \<le> length blocks \<Longrightarrow> length blocks < i + n \<Longrightarrow> \<exists>e. unreserve_direct_loop sv i n blocks s = Inl e"
proof (induction n arbitrary: i s)
  case (Suc n)
  show ?case
  proof (cases "free_map_release sv (blocks ! i) 1 s")
    case (Inr s')
    then show ?thesis using Suc.IH [of "Suc i" s'] Suc.prems by (cases "i = length blocks") simp_all
  qed simp
qed simp

section \<open>Properties\<close>

text \<open>
  C3: a file is an array of bytes. Writing a non-empty buffer at any position of an open file, inside
  it or past its end, returns the number of bytes; reading any range afterwards returns the bytes of
  the old file overlaid with the buffer, with zeros in the gap. The invariant of the file system
  and of the file hold again.
\<close>

theorem inode_write_read:
  assumes "fs_inv s" and "open_file_at s a i" and "buf \<noteq> []" and "room_for s (p + length buf)"
  shows "\<exists>s1 s2 j. inode_write_at a buf (int (length buf)) (int p) s = Inr (int (length buf), s1)
     \<and> inode_read_at a (int n) (int q) s1 = Inr (take n (drop q (overwrite p buf (file_bytes s a))), s2)
     \<and> fs_inv s2 \<and> open_file_at s2 a j"
proof -
  obtain s1 j where w: "inode_write_at a buf (int (length buf)) (int p) s = Inr (int (length buf), s1)" "file_step s s1 a i j"
    "open_file_at s1 a j" "file_bytes s1 a = overwrite p buf (file_bytes s a)"
    using inode_write_at_spec [OF assms] by blast
  note i1 = file_stepD(1) [OF w(2)]
  have good: "good_file s1 a j" using w(3) by (simp add: open_file_at_def)
  obtain s2 where r: "inode_read_at a (int n) (int q) s1 = Inr (take n (drop q (file_bytes s1 a)), s2)" "same_meta s1 s2" "V s2 = V s1"
    using inode_read_at_good [OF i1 good] by blast
  have "fs_inv s2" "open_file_at s2 a j" using same_meta_good [OF i1 r(2,3)] w(3) by simp_all
  then show ?thesis using w(1,4) r(1) by metis
qed

theorem inode_write_read_witness:
  "\<exists>s1 s2. inode_write_at 200 [7, 8, 9] 3 600 (demo_fs 1) = Inr (3, s1)
     \<and> inode_read_at 200 10 598 s1 = Inr ([0, 0, 7, 8, 9], s2)"
proof -
  have "take 10 (drop 598 (overwrite 600 [7, 8, 9] [])) = [0, 0, 7, 8, 9 :: byte]"
    by (simp add: overwrite_def) (simp add: numeral_eq_Suc)
  then show ?thesis
    using inode_write_read [OF demo_inv(1) [of 1] demo_open_file(1), of "[7, 8, 9]" 600 10 598] demo_room [of 603] demo_bytes by auto
qed

text \<open>
  C9: files do not disturb each other. When two open files have no sector in common, writing one of
  them leaves the bytes, the block structure and the inode on disk of the other as they were, and the
  two files still have no sector in common, whatever sectors the first one had to allocate.
\<close>

theorem inode_write_isolated:
  assumes "fs_inv s" and "open_file_at s a i" and "open_file_at s b k" and "b \<noteq> a" and "sectors_of s i \<inter> sectors_of s k = {}"
    and "buf \<noteq> []" and "room_for s (p + length buf)"
  shows "\<exists>s' j. inode_write_at a buf (int (length buf)) (int p) s = Inr (int (length buf), s')
     \<and> open_file_at s' a j \<and> open_file_at s' b k \<and> file_bytes s' b = file_bytes s b \<and> sectors_of s' j \<inter> sectors_of s' k = {}"
proof -
  obtain s' j where w: "inode_write_at a buf (int (length buf)) (int p) s = Inr (int (length buf), s')" "file_step s s' a i j" "open_file_at s' a j"
    using inode_write_at_spec [OF assms(1,2,6,7)] by blast
  have "good_file s b k" using assms(3) by (simp add: open_file_at_def)
  note o = file_step_other [OF assms(1) w(2) this assms(4,5)]
  then have "open_file_at s' b k" using assms(3) by (simp add: open_file_at_def)
  then show ?thesis using w o by blast
qed

theorem inode_write_isolated_witness:
  "\<exists>s' j. inode_write_at 200 [7] 1 0 (demo_fs 1) = Inr (1, s') \<and> open_file_at s' 201 (demo_inode 3 demo_dir)
     \<and> file_bytes s' 201 = demo_entries 1 \<and> sectors_of s' j \<inter> sectors_of s' (demo_inode 3 demo_dir) = {}"
  using inode_write_isolated [OF demo_inv(1) [of 1] demo_open_file(1) demo_open_dir(1), of "[7]" 0] demo_room [of 1] demo_open_file(2) demo_open_dir(2,3)
  by auto

text \<open>
  C31: the sectors of a large file cannot be released. The loop over the direct blocks runs to the number
  of sectors of the file, so that releasing a file of more than 123 sectors always ends in a fault,
  in whatever state and with whatever routine saves the free map.
\<close>

theorem large_file_unreserve_faults:
  assumes "inodes s a = Some i" and "a \<noteq> NULL"
    and "length (direct_blocks (data i)) = DIRECT_BLOCKS_COUNT" and "flength (data i) > int (DIRECT_BLOCKS_COUNT * BLOCK_SECTOR_SIZE)"
  shows "\<exists>e. inode_unreserve sv a s = Inl e"
proof -
  have "length (direct_blocks (data i)) < 0 + bytes_to_sectors (flength (data i))"
    using bytes_to_sectors_less [of "flength (data i)" 123] assms(3,4) by (simp add: BLOCK_SECTOR_SIZE_def)
  from unreserve_direct_loop_overrun [OF le0 this, of sv s] show ?thesis
    using assms by (auto simp: inode_unreserve_def get_obj_def Let_def)
qed

theorem large_file_unreserve_faults_witness:
  "\<exists>e. inode_unreserve save 7 ((demo_fs 1)\<lparr>inodes := [7 \<mapsto> demo_inode 9 (demo_disk (replicate 123 0) False 70000)]\<rparr>) = Inl e"
  by (rule large_file_unreserve_faults [of _ 7 "demo_inode 9 (demo_disk (replicate 123 0) False 70000)"]) (simp_all add: demo_disk_def demo_inode_def BLOCK_SECTOR_SIZE_def)

text \<open>
  Writing no bytes at the start of a file truncates it. The position before the first byte counts as
  outside the file, so the file is \<open>extended\<close> to length 0: its length is set to 0 in memory and
  on disk although nothing was to be written.
\<close>

theorem empty_write_truncates:
  assumes "fs_inv s" and "open_file_at s a i"
  shows "\<exists>s'. inode_write_at a [] 0 0 s = Inr (0, s') \<and> inodes s' a = Some (i\<lparr>data := (data i)\<lparr>flength := 0\<rparr>\<rparr>)
     \<and> flength (decode_inode (V s' (sector i))) = 0"
proof -
  let ?d = "(data i)\<lparr>flength := 0\<rparr>"
  have g: "good_file s a i" "deny_write_cnt i = 0" "inodes s a = Some i" "a \<noteq> NULL" "wf_disk (data i)" "sector i \<in> used s" "fm_addr s \<noteq> Some a"
    using assms(2) by (auto simp: open_file_at_def good_file_def good_disk_def)
  have wd: "wf_disk ?d" using g(5) by (simp add: wf_disk_def)
  let ?s = "s\<lparr>inodes := (inodes s)(a \<mapsto> i\<lparr>data := ?d\<rparr>)\<rparr>"
  note inv = fs_inv_set_inode(1) [OF assms(1) g(7), of "Some (i\<lparr>data := ?d\<rparr>)"]
  obtain s' where s': "cwrite (sector i) (encode_inode ?d) ?s = Inr s'" "same_meta ?s s'" "V s' = (V ?s)(sector i := encode_inode ?d)"
    using cwrite_spec [OF fs_inv_base [OF inv], of "sector i" "encode_inode ?d"] length_encode_inode [OF wd] used_less [OF assms(1) g(6)] by auto
  have "byte_to_sector a (-1) s = Inr (NO_SECTOR, s)" using g by (simp add: byte_to_sector_def get_obj_def)
  moreover have "inode_reserve save (data i) 0 s = Inr (True, data i, s)"
    by (simp add: inode_reserve_def bytes_to_sectors_def cdiv_nonneg BLOCK_SECTOR_SIZE_def)
  moreover have "write_loop a [] 0 0 False 0 s' = Inr (0, s')" by (subst write_loop.simps) simp
  ultimately have "inode_write_at a [] 0 0 s = Inr (0, s')"
    using g s'(1) by (simp add: inode_write_at_def inode_write_def get_obj_def set_inode_def fun_upd_upd)
  moreover have "inodes s' a = Some (i\<lparr>data := ?d\<rparr>)" using same_metaD(5) [OF s'(2)] by simp
  moreover have "decode_inode (V s' (sector i)) = ?d" using s'(3) decode_encode_inode [OF wd] by simp
  ultimately show ?thesis by simp
qed

theorem empty_write_truncates_witness:
  "\<exists>s1 s' j. inode_write_at 200 [5] 1 0 (demo_fs 1) = Inr (1, s1) \<and> file_bytes s1 200 = [5]
     \<and> inode_write_at 200 [] 0 0 s1 = Inr (0, s') \<and> inodes s' 200 = Some j \<and> flength (data j) = 0"
proof -
  obtain s1 j where w: "inode_write_at 200 [5] 1 0 (demo_fs 1) = Inr (1, s1)" "file_step (demo_fs 1) s1 200 (demo_inode 1 demo_file) j" "open_file_at s1 200 j"
    "file_bytes s1 200 = overwrite 0 [5] []"
    using inode_write_at_spec [OF demo_inv(1) [of 1] demo_open_file(1), of "[5]" 0] demo_room [of 1] demo_bytes by auto
  obtain s' where "inode_write_at 200 [] 0 0 s1 = Inr (0, s')" "inodes s' 200 = Some (j\<lparr>data := (data j)\<lparr>flength := 0\<rparr>\<rparr>)"
    using empty_write_truncates [OF file_stepD(1) [OF w(2)] w(3)] by blast
  then show ?thesis using w(1,4) by (simp add: overwrite_def)
qed

end
