(* ===== verification/Dir_Properties.thy ===== *)
theory Dir_Properties
  imports Directory Inode_Properties
begin

text \<open>
  A directory is a finite map from names to inode sectors: the entries of its file, what searching,
  adding and erasing an entry do to that map, and the cases in which the code fails to do so.
\<close>

section \<open>Entries of a file\<close>

definition dentry_ok :: "dir_entry \<Rightarrow> bool" where
  "dentry_ok e \<longleftrightarrow> length (ename e) = 15 \<and> inode_sector e < 2 ^ 32"

definition entries :: "byte list \<Rightarrow> dir_entry list" where
  "entries bs = map (\<lambda>k. decode_entry (take 20 (drop (20 * k) bs))) [0..<length bs div 20]"

lemma length_entries [simp]: "length (entries bs) = length bs div 20"
  by (simp add: entries_def)

lemma nth_entries: "k < length bs div 20 \<Longrightarrow> entries bs ! k = decode_entry (take 20 (drop (20 * k) bs))"
  by (simp add: entries_def)

lemma length_encode_entry: "length (ename e) = 15 \<Longrightarrow> length (encode_entry e) = 20"
  by (simp add: encode_entry_def)

lemma decode_encode_entry: "dentry_ok e \<Longrightarrow> decode_entry (encode_entry e) = e"
  by (simp add: decode_entry_def encode_entry_def dentry_ok_def NAME_MAX_def nth_append unat_of_nat take_bit_nat_eq_self)

lemma decode_dentry_ok: "length d = 20 \<Longrightarrow> dentry_ok (decode_entry d)"
  using unsigned_less [of "le_word32 (take 4 d)", where 'a = nat] by (simp add: decode_entry_def dentry_ok_def NAME_MAX_def)

lemma entries_overwrite:
  assumes "length bs = 20 * n" and "k \<le> n" and "dentry_ok e"
  shows "length (overwrite (20 * k) (encode_entry e) bs) = 20 * max n (Suc k)"
    and "entries (overwrite (20 * k) (encode_entry e) bs) = (if k < n then (entries bs)[k := e] else entries bs @ [e])"
proof -
  let ?b = "overwrite (20 * k) (encode_entry e) bs"
  have le: "length (encode_entry e) = 20" using assms(3) by (simp add: length_encode_entry dentry_ok_def)
  have b: "?b = take (20 * k) bs @ encode_entry e @ drop (20 * k + 20) bs" using assms(1,2) le by (simp add: overwrite_def)
  show len: "length ?b = 20 * max n (Suc k)" unfolding b using assms(1,2) le by (auto simp: max_def)
  have nth: "entries ?b ! j = (if j = k then e else entries bs ! j)" if "j < max n (Suc k)" for j
  proof -
    have j: "entries ?b ! j = decode_entry (take 20 (drop (20 * j) ?b))" using that len by (intro nth_entries) simp
    consider "j < k" | "j = k" | "k < j" by linarith
    then show ?thesis
    proof cases
      case 1
      then have l: "20 \<le> 20 * k - 20 * j" "20 * k \<le> length bs" using assms(1,2) by simp_all
      then have "drop (20 * j) ?b = take (20 * k - 20 * j) (drop (20 * j) bs) @ encode_entry e @ drop (20 * k + 20) bs"
        unfolding b by (simp add: drop_take)
      then have "take 20 (drop (20 * j) ?b) = take 20 (drop (20 * j) bs)" using l by (simp add: min_absorb1)
      then show ?thesis using j 1 assms(1,2) by (simp add: nth_entries)
    next
      case 2
      then have "take 20 (drop (20 * j) ?b) = encode_entry e" unfolding b using assms(1,2) le by simp
      then show ?thesis using j 2 decode_encode_entry [OF assms(3)] by simp
    next
      case 3
      then have "j < n" using that by (auto simp: max_def split: if_splits)
      moreover have "20 * j - (20 * k + 20) + (20 * k + 20) = 20 * j" using 3 by simp
      then have "take 20 (drop (20 * j) ?b) = take 20 (drop (20 * j) bs)"
        unfolding b using assms(1,2) le 3 by (simp add: add.commute)
      ultimately show ?thesis using j 3 assms(1) by (simp add: nth_entries)
    qed
  qed
  show "entries ?b = (if k < n then (entries bs)[k := e] else entries bs @ [e])"
    by (rule nth_equalityI) (use nth len assms in \<open>auto simp: nth_append nth_list_update max_def split: if_splits\<close>)
qed

section \<open>Searching\<close>

fun find_entry :: "byte list \<Rightarrow> dir_entry list \<Rightarrow> nat \<Rightarrow> (dir_entry \<times> nat) option" where
  "find_entry name [] k = None"
| "find_entry name (e # es) k = (if in_use e \<noteq> 0 \<and> cstr (ename e) = name then Some (e, k) else find_entry name es (Suc k))"

definition names_ok :: "dir_entry list \<Rightarrow> bool" where
  "names_ok es \<longleftrightarrow> (\<forall>e\<in>set es. in_use e \<noteq> 0 \<longrightarrow> 0 \<in> set (ename e))"

text \<open>The map of a directory; the first entry is the link to the parent.\<close>

definition dir_map :: "byte list \<Rightarrow> byte list \<rightharpoonup> nat" where
  "dir_map bs = (\<lambda>name. map_option (\<lambda>(e, k). inode_sector e) (find_entry name (drop 1 (entries bs)) 1))"

lemma split_cstr: "0 \<in> set m \<Longrightarrow> \<exists>r. m = cstr m @ 0 # r \<and> 0 \<notin> set (cstr m)"
proof (induction m)
  case (Cons b m)
  show ?case
  proof (cases "b = 0")
    case True
    then show ?thesis by (simp add: cstr_def)
  next
    case False
    then obtain r where "m = cstr m @ 0 # r" "0 \<notin> set (cstr m)" using Cons by auto
    then show ?thesis using False by (auto simp: cstr_def)
  qed
qed simp

lemma name_eq_spec:
  assumes "0 \<in> set (ename e)" and "0 \<notin> set name"
  shows "name_eq name e = Inr (cstr (ename e) = name)"
proof -
  obtain r where r: "ename e = cstr (ename e) @ 0 # r" "0 \<notin> set (cstr (ename e))" using split_cstr [OF assms(1)] by blast
  obtain x where x: "strcmp (name @ [0]) (cstr (ename e) @ 0 # r) = Inr x" "x = 0 \<longleftrightarrow> name = cstr (ename e)"
    using strcmp_eq [OF assms(2) r(2), of "[]" r] by auto
  have "strcmp (name @ [0]) (ename e) = Inr x" using x(1) r(1) by simp
  then show ?thesis using x(2) by (auto simp: name_eq_def)
qed

text \<open>A directory that is open at the inode address \<open>a\<close>, with whole entries.\<close>

lemma read_entry_spec:
  assumes "fs_inv s" and "good_file s a i" and "length (file_bytes s a) = 20 * n" and "k \<le> n" and "dentry_ok e"
  shows "\<exists>s'. read_entry a (int (20 * k)) e s = Inr (k < n, if k < n then entries (file_bytes s a) ! k else e, s') \<and> same_meta s s' \<and> V s' = V s"
proof -
  let ?bs = "file_bytes s a"
  obtain s' where s': "inode_read_at a (int 20) (int (20 * k)) s = Inr (take 20 (drop (20 * k) ?bs), s')" "same_meta s s'" "V s' = V s"
    using inode_read_at_good [OF assms(1,2)] by blast
  let ?d = "take 20 (drop (20 * k) ?bs)"
  have "length ?d = (if k < n then 20 else 0)" using assms(3,4) by auto
  moreover have "?d = []" if "\<not> k < n" using that assms(3,4) by simp
  moreover have "length (encode_entry e) = 20" using assms(5) by (simp add: length_encode_entry dentry_ok_def)
  ultimately show ?thesis
    using s' assms(3) decode_encode_entry [OF assms(5)] by (auto simp: read_entry_def ENTRY_SIZE_def nth_entries)
qed

lemma entries_dentry_ok: "e \<in> set (entries bs) \<Longrightarrow> dentry_ok e"
  by (auto simp: entries_def intro!: decode_dentry_ok)

lemma next_entry: "int (20 * k) + int ENTRY_SIZE = int (20 * Suc k)"
  by (simp add: ENTRY_SIZE_def)

lemma lookup_loop_spec:
  assumes "fs_inv s" and "good_file s a i" and "length (file_bytes s a) = 20 * n" and "names_ok (drop k (entries (file_bytes s a)))"
    and "0 \<notin> set name" and "k \<le> n" and "dentry_ok e"
  shows "\<exists>s'. dir_lookup_loop a name (int (20 * k)) e s =
       Inr (map_option (\<lambda>(e, j). (e, int (20 * j))) (find_entry name (drop k (entries (file_bytes s a))) k), s')
     \<and> same_meta s s' \<and> V s' = V s"
  using assms
proof (induction "n - k" arbitrary: k e s)
  case 0
  let ?es = "entries (file_bytes s a)"
  have k: "k = n" using 0 by simp
  obtain s1 where r: "read_entry a (int (20 * k)) e s = Inr (False, e, s1)" "same_meta s s1" "V s1 = V s"
    using read_entry_spec [OF 0(2-4) 0(7,8)] k by auto
  have "drop k ?es = []" using k 0(4) by simp
  then show ?case using r by (subst dir_lookup_loop.simps) simp
next
  case (Suc m)
  let ?es = "entries (file_bytes s a)"
  have k: "k < n" "length ?es = n" using Suc by simp_all
  obtain s1 where r: "read_entry a (int (20 * k)) e s = Inr (True, ?es ! k, s1)" "same_meta s s1" "V s1 = V s"
    using read_entry_spec [OF Suc(3-5) Suc(8,9)] k by auto
  note g = same_meta_good [OF Suc(3) r(2,3)]
  have d: "drop k ?es = ?es ! k # drop (Suc k) ?es" using k by (simp add: Cons_nth_drop_Suc)
  have nm: "in_use (?es ! k) \<noteq> 0 \<longrightarrow> 0 \<in> set (ename (?es ! k))" "names_ok (drop (Suc k) ?es)"
    using Suc(6) unfolding d by (simp_all add: names_ok_def)
  have ok: "dentry_ok (?es ! k)" using k nth_mem entries_dentry_ok by metis
  have t: "(if in_use (?es ! k) \<noteq> 0 then name_eq name (?es ! k) else Inr False) = Inr (in_use (?es ! k) \<noteq> 0 \<and> cstr (ename (?es ! k)) = name)"
    using name_eq_spec [OF _ Suc(7)] nm(1) by simp
  show ?case
  proof (cases "in_use (?es ! k) \<noteq> 0 \<and> cstr (ename (?es ! k)) = name")
    case True
    then show ?thesis using r t d by (subst dir_lookup_loop.simps) simp
  next
    case False
    have "m = n - Suc k" using Suc(2) by simp
    from Suc(1) [OF this g(1) g(5) [THEN iffD2, OF Suc(4)], of "?es ! k"]
    obtain s2 where s2: "dir_lookup_loop a name (int (20 * Suc k)) (?es ! k) s1 =
         Inr (map_option (\<lambda>(e, j). (e, int (20 * j))) (find_entry name (drop (Suc k) ?es) (Suc k)), s2)"
      "same_meta s1 s2" "V s2 = V s1"
      using Suc(5,7) nm(2) k ok g(3) by auto
    have "dir_lookup_loop a name (int (20 * k)) e s = dir_lookup_loop a name (int (20 * k) + int ENTRY_SIZE) (?es ! k) s1"
      using r(1) t False by (subst dir_lookup_loop.simps) (auto simp del: of_nat_mult)
    then have "dir_lookup_loop a name (int (20 * k)) e s = dir_lookup_loop a name (int (20 * Suc k)) (?es ! k) s1"
      unfolding next_entry .
    then show ?thesis using s2 r(3) same_meta_trans [OF r(2) s2(2)] False unfolding d by auto
  qed
qed

fun free_slot :: "dir_entry list \<Rightarrow> nat \<Rightarrow> nat" where
  "free_slot [] k = k"
| "free_slot (e # es) k = (if in_use e = 0 then k else free_slot es (Suc k))"

lemma slot_loop_spec:
  assumes "fs_inv s" and "good_file s a i" and "length (file_bytes s a) = 20 * n" and "k \<le> n" and "dentry_ok e"
  shows "\<exists>e' s'. slot_loop a (int (20 * k)) e s = Inr (int (20 * free_slot (drop k (entries (file_bytes s a))) k), e', s')
     \<and> dentry_ok e' \<and> same_meta s s' \<and> V s' = V s"
  using assms
proof (induction "n - k" arbitrary: k e s)
  case 0
  let ?es = "entries (file_bytes s a)"
  have k: "k = n" using 0 by simp
  obtain s1 where r: "read_entry a (int (20 * k)) e s = Inr (False, e, s1)" "same_meta s s1" "V s1 = V s"
    using read_entry_spec [OF 0(2-6)] k by auto
  have "drop k ?es = []" using k 0(4) by simp
  then show ?case using r 0(6) by (subst slot_loop.simps) simp
next
  case (Suc m)
  let ?es = "entries (file_bytes s a)"
  have k: "k < n" "length ?es = n" using Suc by simp_all
  obtain s1 where r: "read_entry a (int (20 * k)) e s = Inr (True, ?es ! k, s1)" "same_meta s s1" "V s1 = V s"
    using read_entry_spec [OF Suc(3-7)] k by auto
  note g = same_meta_good [OF Suc(3) r(2,3)]
  have d: "drop k ?es = ?es ! k # drop (Suc k) ?es" using k by (simp add: Cons_nth_drop_Suc)
  have ok: "dentry_ok (?es ! k)" using k nth_mem entries_dentry_ok by metis
  show ?case
  proof (cases "in_use (?es ! k) = 0")
    case True
    then show ?thesis using r ok unfolding d by (subst slot_loop.simps) simp
  next
    case False
    have "m = n - Suc k" using Suc(2) by simp
    from Suc(1) [OF this g(1) g(5) [THEN iffD2, OF Suc(4)], of "?es ! k"]
    obtain e' s2 where s2: "slot_loop a (int (20 * Suc k)) (?es ! k) s1 =
         Inr (int (20 * free_slot (drop (Suc k) ?es) (Suc k)), e', s2)" "dentry_ok e'" "same_meta s1 s2" "V s2 = V s1"
      using Suc(5) k ok g(3) by auto
    have "slot_loop a (int (20 * k)) e s = slot_loop a (int (20 * k) + int ENTRY_SIZE) (?es ! k) s1"
      using r(1) False by (subst slot_loop.simps) (auto simp del: of_nat_mult)
    then have "slot_loop a (int (20 * k)) e s = slot_loop a (int (20 * Suc k)) (?es ! k) s1"
      unfolding next_entry .
    then show ?thesis using s2 r(3) same_meta_trans [OF r(2) s2(3)] False unfolding d by auto
  qed
qed

lemma empty_loop_spec:
  assumes "fs_inv s" and "good_file s a i" and "length (file_bytes s a) = 20 * n" and "k \<le> n" and "dentry_ok e"
  shows "\<exists>s'. empty_loop a (int (20 * k)) e s = Inr (list_all (\<lambda>e. in_use e = 0) (drop k (entries (file_bytes s a))), s')
     \<and> same_meta s s' \<and> V s' = V s"
  using assms
proof (induction "n - k" arbitrary: k e s)
  case 0
  let ?es = "entries (file_bytes s a)"
  have k: "k = n" using 0 by simp
  obtain s1 where r: "read_entry a (int (20 * k)) e s = Inr (False, e, s1)" "same_meta s s1" "V s1 = V s"
    using read_entry_spec [OF 0(2-6)] k by auto
  have "drop k ?es = []" using k 0(4) by simp
  then show ?case using r by (subst empty_loop.simps) simp
next
  case (Suc m)
  let ?es = "entries (file_bytes s a)"
  have k: "k < n" "length ?es = n" using Suc by simp_all
  obtain s1 where r: "read_entry a (int (20 * k)) e s = Inr (True, ?es ! k, s1)" "same_meta s s1" "V s1 = V s"
    using read_entry_spec [OF Suc(3-7)] k by auto
  note g = same_meta_good [OF Suc(3) r(2,3)]
  have d: "drop k ?es = ?es ! k # drop (Suc k) ?es" using k by (simp add: Cons_nth_drop_Suc)
  have ok: "dentry_ok (?es ! k)" using k nth_mem entries_dentry_ok by metis
  show ?case
  proof (cases "in_use (?es ! k) = 0")
    case False
    then show ?thesis using r ok unfolding d by (subst empty_loop.simps) simp
  next
    case True
    have "m = n - Suc k" using Suc(2) by simp
    from Suc(1) [OF this g(1) g(5) [THEN iffD2, OF Suc(4)], of "?es ! k"]
    obtain s2 where s2: "empty_loop a (int (20 * Suc k)) (?es ! k) s1 = Inr (list_all (\<lambda>e. in_use e = 0) (drop (Suc k) ?es), s2)"
      "same_meta s1 s2" "V s2 = V s1"
      using Suc(5) k ok g(3) by auto
    have "empty_loop a (int (20 * k)) e s = empty_loop a (int (20 * k) + int ENTRY_SIZE) (?es ! k) s1"
      using r(1) True by (subst empty_loop.simps) (auto simp del: of_nat_mult)
    then have "empty_loop a (int (20 * k)) e s = empty_loop a (int (20 * Suc k)) (?es ! k) s1"
      unfolding next_entry .
    then show ?thesis using s2 r(3) same_meta_trans [OF r(2) s2(2)] True unfolding d by auto
  qed
qed

section \<open>The map of a directory\<close>

lemma find_entry_update:
  assumes "k < length es" and "in_use (es ! k) = 0" and "in_use e \<noteq> 0" and "cstr (ename e) = name" and "find_entry name es j = None"
  shows "find_entry n (es[k := e]) j = (if n = name then Some (e, j + k) else find_entry n es j)"
  using assms
proof (induction es arbitrary: j k)
  case (Cons x es)
  show ?case
  proof (cases k)
    case (Suc k')
    then show ?thesis using Cons.prems Cons.IH [of k' "Suc j"] by (auto split: if_splits)
  qed (use Cons.prems in \<open>auto split: if_splits\<close>)
qed simp

lemma find_entry_append:
  assumes "in_use e \<noteq> 0" and "cstr (ename e) = name" and "find_entry name es j = None"
  shows "find_entry n (es @ [e]) j = (if n = name then Some (e, j + length es) else find_entry n es j)"
  using assms by (induction es arbitrary: j) (auto split: if_splits)

lemma free_slot_bounds: "k \<le> free_slot es k \<and> free_slot es k \<le> k + length es"
proof (induction es arbitrary: k)
  case (Cons e es)
  show ?case using Cons.IH [of "Suc k"] by auto
qed simp

lemma free_slot_free: "free_slot es k < k + length es \<Longrightarrow> in_use (es ! (free_slot es k - k)) = 0"
proof (induction es arbitrary: k)
  case (Cons e es)
  have b: "Suc k \<le> free_slot es (Suc k)" using free_slot_bounds [of "Suc k" es] by simp
  then have "free_slot es (Suc k) - k = Suc (free_slot es (Suc k) - Suc k)" by simp
  then show ?case using Cons by auto
qed simp

section \<open>Operations on a directory\<close>

text \<open>An open directory with \<open>n\<close> whole entries, the first being the link to the parent.\<close>

definition dir_at :: "fs \<Rightarrow> addr \<Rightarrow> addr \<Rightarrow> inode \<Rightarrow> nat \<Rightarrow> bool" where
  "dir_at s dir a i n \<longleftrightarrow> dir \<noteq> NULL \<and> (\<exists>d. dirs s dir = Some d \<and> d_inode d = a) \<and> open_file_at s a i \<and> 0 < n
     \<and> length (file_bytes s a) = 20 * n \<and> names_ok (drop 1 (entries (file_bytes s a)))"

text \<open>Garbage has the size of an entry.\<close>

definition garbage_ok :: "fs \<Rightarrow> bool" where
  "garbage_ok s \<longleftrightarrow> (\<forall>n. dentry_ok (garbage s n))"

lemma dir_atD:
  assumes "dir_at s dir a i n"
  shows "dir \<noteq> NULL" "dir_get_inode dir s = Inr a" "good_file s a i" "open_file_at s a i" "0 < n" "length (file_bytes s a) = 20 * n"
    "names_ok (drop 1 (entries (file_bytes s a)))"
  using assms by (auto simp: dir_at_def open_file_at_def dir_get_inode_def get_obj_def)

lemma dir_at_same: "fs_inv s \<Longrightarrow> same_meta s s' \<Longrightarrow> V s' = V s \<Longrightarrow> dir_at s dir a i n \<Longrightarrow> dir_at s' dir a i n"
  using same_meta_good [of s s'] same_metaD(8) [of s s'] by (simp add: dir_at_def)

lemma uninit_spec:
  assumes "fs_base s" and "uninit s = (e, s1)"
  shows "same_meta s s1" and "V s1 = V s" and "garbage_ok s \<Longrightarrow> dentry_ok e \<and> garbage_ok s1"
  using assms by (auto simp: uninit_def same_meta_def fs_base_def garbage_ok_def)

lemma lookup_spec:
  assumes "fs_inv s" and "dir_at s dir a i n" and "garbage_ok s" and "0 \<notin> set name"
  shows "\<exists>s'. Directory.lookup dir name s
       = Inr (map_option (\<lambda>(e, j). (e, int (20 * j))) (find_entry name (drop 1 (entries (file_bytes s a))) 1), s')
     \<and> same_meta s s' \<and> V s' = V s"
proof -
  obtain e s1 where u: "uninit s = (e, s1)" by (cases "uninit s")
  note u1 = uninit_spec [OF fs_inv_base [OF assms(1)] u]
  note g = same_meta_good [OF assms(1) u1(1,2)]
  note d = dir_atD [OF dir_at_same [OF assms(1) u1(1,2) assms(2)]]
  have "1 \<le> n" using d(5) by simp
  from lookup_loop_spec [OF g(1) d(3,6,7) assms(4) this, of e]
  obtain s2 where "dir_lookup_loop a name (int (20 * 1)) e s1
      = Inr (map_option (\<lambda>(e, j). (e, int (20 * j))) (find_entry name (drop 1 (entries (file_bytes s1 a))) 1), s2)"
    "same_meta s1 s2" "V s2 = V s1" using u1(3) assms(3) by blast
  then show ?thesis
    using u d(1,2) g(3) u1(2) same_meta_trans [OF u1(1)] by (auto simp: Directory.lookup_def ENTRY_SIZE_def)
qed

lemma same_meta_file_step:
  assumes "fs_inv s" and "same_meta s s1" and "V s1 = V s" and "file_step s1 s2 a i j"
  shows "file_step s s2 a i j"
  using assms(4) same_metaD [OF assms(2)] same_meta_good [OF assms(1-3)] assms(3) by (simp add: file_step_def)

lemma write_entry_spec:
  assumes "fs_inv s" and "dir_at s dir a i n" and "k \<le> n" and "dentry_ok e" and "room_for s (20 * Suc n)"
    and "0 < k \<longrightarrow> in_use e \<noteq> 0 \<longrightarrow> 0 \<in> set (ename e)"
  shows "\<exists>s' j. write_entry a (int (20 * k)) e s = Inr (True, s') \<and> file_step s s' a i j \<and> dir_at s' dir a j (max n (Suc k))
     \<and> entries (file_bytes s' a) = (if k < n then (entries (file_bytes s a))[k := e] else entries (file_bytes s a) @ [e])"
proof -
  note d = dir_atD [OF assms(2)]
  have len: "length (encode_entry e) = 20" using assms(4) by (simp add: length_encode_entry dentry_ok_def)
  then have ne: "encode_entry e \<noteq> []" by auto
  have "bytes_to_sectors (int (20 * k + 20)) \<le> bytes_to_sectors (int (20 * Suc n))" using assms(3) by (intro bytes_to_sectors_mono) simp_all
  then have "room_for s (20 * k + length (encode_entry e))" using assms(3,5) len by (simp add: room_for_def)
  from inode_write_at_spec [OF assms(1) d(4) ne this]
  obtain s' j where w: "inode_write_at a (encode_entry e) (int 20) (int (20 * k)) s = Inr (int 20, s')" "file_step s s' a i j"
    "open_file_at s' a j" "file_bytes s' a = overwrite (20 * k) (encode_entry e) (file_bytes s a)"
    unfolding len by blast
  note o = entries_overwrite [OF d(6) assms(3,4)]
  have es: "entries (file_bytes s' a) = (if k < n then (entries (file_bytes s a))[k := e] else entries (file_bytes s a) @ [e])"
    using o w(4) by simp
  have "names_ok (drop 1 (entries (file_bytes s' a)))"
  proof (cases "k = 0")
    case True
    then show ?thesis unfolding es using d(5,7) by simp
  next
    case False
    then show ?thesis
      unfolding es using d(5-7) assms(6) set_update_subset_insert [of "drop 1 (entries (file_bytes s a))" "k - 1" e]
      by (auto simp: names_ok_def drop_update_swap)
  qed
  then have "dir_at s' dir a j (max n (Suc k))"
    using assms(2) w(3,4) o(1) file_stepD(9) [OF w(2)] by (auto simp: dir_at_def)
  then show ?thesis using w(1,2) es by (auto simp: write_entry_def ENTRY_SIZE_def)
qed

text \<open>The entry that is added goes to the first free slot, counted from the link to the parent.\<close>

lemma dir_add_slot:
  assumes "fs_inv s" and "dir_at s dir a i n" and "garbage_ok s" and "0 \<notin> set name" and "name \<noteq> []" and "length name \<le> NAME_MAX"
    and "sec < 2 ^ 32" and "dir_map (file_bytes s a) name = None" and "room_for s (20 * Suc n)"
    and k: "k = free_slot (entries (file_bytes s a)) 0"
  shows "\<exists>s' j e m. dir_add dir name sec False s = Inr (True, s') \<and> file_step s s' a i j \<and> dir_at s' dir a j m
     \<and> in_use e \<noteq> 0 \<and> cstr (ename e) = name \<and> inode_sector e = sec
     \<and> entries (file_bytes s' a) = (if k < n then (entries (file_bytes s a))[k := e] else entries (file_bytes s a) @ [e])"
proof -
  let ?es = "entries (file_bytes s a)"
  obtain e s1 where u: "uninit s = (e, s1)" by (cases "uninit s")
  note u1 = uninit_spec [OF fs_inv_base [OF assms(1)] u]
  note g1 = same_meta_good [OF assms(1) u1(1,2)] and d1 = dir_at_same [OF assms(1) u1(1,2) assms(2)]
  have none: "find_entry name (drop 1 ?es) 1 = None" using assms(8) by (simp add: dir_map_def)
  obtain s2 where l: "Directory.lookup dir name s1 = Inr (None, s2)" "same_meta s1 s2" "V s2 = V s1"
    using lookup_spec [OF g1(1) d1 _ assms(4)] u1(3) assms(3) none g1(3) by auto
  note g2 = same_meta_good [OF g1(1) l(2,3)] and d2 = dir_at_same [OF g1(1) l(2,3) d1]
  note dd2 = dir_atD [OF d2]
  have es2: "file_bytes s2 a = file_bytes s a" using g1(3) g2(3) by simp
  obtain e3 s3 where sl: "slot_loop a (int (20 * 0)) e s2 = Inr (int (20 * k), e3, s3)" "dentry_ok e3" "same_meta s2 s3" "V s3 = V s2"
    using slot_loop_spec [OF g2(1) dd2(3,6) le0, of e] u1(3) assms(3) es2 by (auto simp: k)
  note g3 = same_meta_good [OF g2(1) sl(3,4)] and d3 = dir_at_same [OF g2(1) sl(3,4) d2]
  have m3: "same_meta s s3" "V s3 = V s" "file_bytes s3 a = file_bytes s a"
    using same_meta_trans [OF u1(1) same_meta_trans [OF l(2) sl(3)]] u1(2) l(3) sl(4) es2 g3(3) by simp_all
  have kn: "k \<le> n" using free_slot_bounds [of 0 ?es] dir_atD(6) [OF assms(2)] by (simp add: k)
  define nm where "nm = name @ 0 # drop (Suc (length name)) (ename e3)"
  have cp: "strlcpy (ename e3) (name @ [0]) (NAME_MAX + 1) = Inr (length name, nm)"
    using strlcpy_eq [OF assms(4), of "NAME_MAX + 1" "ename e3" "[]"] sl(2) assms(6)
    by (simp add: nm_def dentry_ok_def NAME_MAX_def min_absorb1)
  let ?e = "e3\<lparr>in_use := 1, ename := nm, inode_sector := sec\<rparr>"
  have ok: "dentry_ok ?e" "cstr (ename ?e) = name" "0 \<in> set (ename ?e)"
    using sl(2) assms(4,6,7) by (simp_all add: dentry_ok_def nm_def NAME_MAX_def)
  obtain s4 j where w: "write_entry a (int (20 * k)) ?e s3 = Inr (True, s4)" "file_step s3 s4 a i j" "dir_at s4 dir a j (max n (Suc k))"
    "entries (file_bytes s4 a) = (if k < n then ?es[k := ?e] else ?es @ [?e])"
    using write_entry_spec [OF g3(1) d3 kn ok(1)] ok(3) assms(9) same_meta_good(7) [OF assms(1) m3(1,2)] m3(3) by auto
  have nn: "\<not> (name = [] \<or> length name > NAME_MAX)" using assms(5,6) by simp
  have "dir_add dir name sec False s = Inr (True, s4)"
    using u dir_atD(1) [OF assms(2)] nn l(1) dd2(2) sl(1) cp w(1) by (simp add: dir_add_def)
  moreover have "in_use ?e \<noteq> 0" "inode_sector ?e = sec" by simp_all
  ultimately show ?thesis using w(3,4) ok(2) same_meta_file_step [OF assms(1) m3(1,2) w(2)] by blast
qed

section \<open>Removing a directory\<close>

text \<open>Nothing about files depends on the directory objects or on the list of open inodes.\<close>

lemma fs_inv_dirs [simp]: "fs_inv (s\<lparr>dirs := D\<rparr>) = fs_inv s" "fs_inv (s\<lparr>open_inodes := L\<rparr>) = fs_inv s"
  and fm_own_dirs [simp]: "fm_own (s\<lparr>dirs := D\<rparr>) = fm_own s" "fm_own (s\<lparr>open_inodes := L\<rparr>) = fm_own s"
  and fm_addr_dirs [simp]: "fm_addr (s\<lparr>dirs := D\<rparr>) = fm_addr s" "fm_addr (s\<lparr>open_inodes := L\<rparr>) = fm_addr s"
  by (simp_all add: fs_inv_def fs_base_def fm_ok_def file_at_def fm_own_def fm_inode_def fm_addr_def split: option.splits)

lemma file_at_dirs [simp]:
  "open_file_at (s\<lparr>dirs := D\<rparr>) a i = open_file_at s a i" "open_file_at (s\<lparr>open_inodes := L\<rparr>) a i = open_file_at s a i"
  "file_bytes (s\<lparr>dirs := D\<rparr>) a = file_bytes s a" "file_bytes (s\<lparr>open_inodes := L\<rparr>) a = file_bytes s a"
  "room_for (s\<lparr>dirs := D\<rparr>) n = room_for s n" "room_for (s\<lparr>open_inodes := L\<rparr>) n = room_for s n"
  by (simp_all add: open_file_at_def good_file_def good_disk_def gok_def file_bytes_def room_for_def free_cnt_def)

lemma open_file_set_inode:
  assumes "fs_inv s" and "fm_addr s \<noteq> Some b" and "b \<noteq> a"
  shows "open_file_at (s\<lparr>inodes := (inodes s)(b := x)\<rparr>) a i = open_file_at s a i"
    and "file_bytes (s\<lparr>inodes := (inodes s)(b := x)\<rparr>) a = file_bytes s a"
    and "room_for (s\<lparr>inodes := (inodes s)(b := x)\<rparr>) n = room_for s n"
  using fs_inv_set_inode(2) [OF assms(1,2), of x] assms(3)
  by (simp_all add: open_file_at_def good_file_def good_disk_def gok_def file_bytes_def room_for_def free_cnt_def fm_addr_def)

text \<open>Opening a directory object for the inode \<open>b\<close>, looking whether it is empty and closing it.\<close>

lemma probe_directory:
  assumes "fs_inv s" and "open_file_at s b k" and "length (file_bytes s b) = 20 * m" and "0 < m" and "garbage_ok s"
    and "open_cnt k = 1" and "\<not> removed k" and "dirs s (allocs s 0) = None"
  shows "\<exists>s1. bind_res (dir_open b s) (\<lambda>(target, s). bind_res (dir_is_empty target s) (\<lambda>(is_empty, s).
       bind_res (dir_close target s) (\<lambda>s. Inr (is_empty, s))))
     = Inr (list_all (\<lambda>e. in_use e = 0) (drop 1 (entries (file_bytes s b))),
            s1\<lparr>open_inodes := remove1 b (open_inodes s), inodes := (inodes s)(b := None), dirs := dirs s\<rparr>)
     \<and> same_meta s s1 \<and> V s1 = V s"
proof -
  let ?p = "allocs s 0" and ?dd = "\<lparr>d_inode = b, d_pos = 20\<rparr>"
  have k: "b \<noteq> NULL" "inodes s b = Some k" using assms(2) by (simp_all add: open_file_at_def good_file_def)
  have pne: "?p \<noteq> NULL" using fs_inv_base [OF assms(1)] by (simp add: fs_base_def)
  define s1 where "s1 = snd (malloc s)"
  have m1: "malloc s = (?p, s1)" "same_meta s s1" "V s1 = V s" "garbage_ok s1"
    using malloc_spec [OF fs_inv_base [OF assms(1)]] assms(5) by (auto simp: s1_def malloc_def garbage_ok_def)
  note g1 = same_meta_good [OF assms(1) m1(2,3)] and mm1 = same_metaD [OF m1(2)]
  let ?s2 = "s1\<lparr>dirs := (dirs s1)(?p \<mapsto> ?dd)\<rparr>"
  have o: "dir_open b s = Inr (?p, ?s2)" using m1(1) k(1) pne by (simp add: dir_open_def ENTRY_SIZE_def)
  obtain e s3 where u: "uninit ?s2 = (e, s3)" by (cases "uninit ?s2")
  have i2: "fs_inv ?s2" using g1(1) by simp
  note u3 = uninit_spec [OF fs_inv_base [OF i2] u]
  have e: "dentry_ok e" using u3(3) m1(4) by (simp add: garbage_ok_def)
  note g3 = same_meta_good [OF i2 u3(1,2)] and mm3 = same_metaD [OF u3(1)]
  have of3: "open_file_at s3 b k" using g3(6) g1(6) assms(2) by simp
  have fb3: "file_bytes s3 b = file_bytes s b" using g3(3) g1(3) by simp
  have "1 \<le> m" using assms(4) by simp
  from empty_loop_spec [OF g3(1) _ _ this e, of b k] obtain s4 where
    s4: "empty_loop b (int (20 * 1)) e s3 = Inr (list_all (\<lambda>e. in_use e = 0) (drop 1 (entries (file_bytes s b))), s4)" "same_meta s3 s4" "V s4 = V s3"
    using of3 fb3 assms(3) by (auto simp: open_file_at_def)
  note mm4 = same_metaD [OF s4(2)]
  have d3: "dirs s3 = (dirs s1)(?p \<mapsto> ?dd)" "dirs s4 = (dirs s1)(?p \<mapsto> ?dd)" using mm3(8) mm4(8) by simp_all
  have emp: "dir_is_empty ?p ?s2 = Inr (list_all (\<lambda>e. in_use e = 0) (drop 1 (entries (file_bytes s b))), s4)"
    using u s4(1) pne d3 by (simp add: dir_is_empty_def dir_get_inode_def get_obj_def ENTRY_SIZE_def)
  have ind4: "inodes s4 = inodes s" "open_inodes s4 = open_inodes s" "dirs s1 = dirs s" using mm1 mm3 mm4 by simp_all
  have dd: "(dirs s)(?p := None) = dirs s" using assms(8) by (simp add: fun_upd_idem)
  have cl: "dir_close ?p s4 = Inr (s4\<lparr>open_inodes := remove1 b (open_inodes s), inodes := (inodes s)(b := None), dirs := dirs s\<rparr>)"
    using pne k d3(2) ind4 assms(6,7) dd
    by (simp add: dir_close_def get_obj_def inode_close_def set_inode_def Let_def)
  have sm: "same_meta s (s4\<lparr>dirs := dirs s\<rparr>)"
    using mm1 mm3 mm4 by (simp add: same_meta_def fs_base_def)
  have "s4\<lparr>open_inodes := remove1 b (open_inodes s), inodes := (inodes s)(b := None), dirs := dirs s\<rparr>
      = s4\<lparr>dirs := dirs s\<rparr>\<lparr>open_inodes := remove1 b (open_inodes s), inodes := (inodes s)(b := None), dirs := dirs s\<rparr>" by simp
  then show ?thesis using o emp cl sm u3(2) s4(3) m1(3) by (intro exI [of _ "s4\<lparr>dirs := dirs s\<rparr>"]) simp
qed

section \<open>Properties\<close>


text \<open>
  C8: adding a file to a directory updates its map. When the link to the parent is marked as in use,
  the name is valid and not in use, and there is room for one more entry, \<^verbatim>\<open>dir_add\<close>
  succeeds, and afterwards the directory maps the name to the sector and every other name as before.
\<close>

theorem dir_add_refines_map:
  assumes "fs_inv s" and "dir_at s dir a i n" and "garbage_ok s" and "0 \<notin> set name" and "name \<noteq> []" and "length name \<le> NAME_MAX"
    and "sec < 2 ^ 32" and "dir_map (file_bytes s a) name = None" and "room_for s (20 * Suc n)"
    and "in_use (entries (file_bytes s a) ! 0) \<noteq> 0"
  shows "\<exists>s' j m. dir_add dir name sec False s = Inr (True, s') \<and> fs_inv s' \<and> dir_at s' dir a j m
     \<and> dir_map (file_bytes s' a) = (dir_map (file_bytes s a))(name \<mapsto> sec)"
proof -
  let ?es = "entries (file_bytes s a)"
  define k where "k = free_slot ?es 0"
  obtain s' j e m where w: "dir_add dir name sec False s = Inr (True, s')" "file_step s s' a i j" "dir_at s' dir a j m"
    "in_use e \<noteq> 0" "cstr (ename e) = name" "inode_sector e = sec"
    "entries (file_bytes s' a) = (if k < n then ?es[k := e] else ?es @ [e])"
    using dir_add_slot [OF assms(1-9) k_def] by blast
  have none: "find_entry name (drop 1 ?es) 1 = None" using assms(8) by (simp add: dir_map_def)
  have n: "length ?es = n" "0 < n" using dir_atD [OF assms(2)] by simp_all
  have k: "0 < k"
  proof -
    obtain x xs where x: "?es = x # xs" using n by (cases ?es) auto
    then have "k = free_slot xs 1" using assms(10) by (simp add: k_def)
    then show ?thesis using free_slot_bounds [of 1 xs] by simp
  qed
  have "dir_map (file_bytes s' a) = (dir_map (file_bytes s a))(name \<mapsto> sec)"
  proof (cases "k < n")
    case True
    then have "in_use (?es ! k) = 0" using free_slot_free [of ?es 0] n by (simp add: k_def)
    then have "in_use (drop 1 ?es ! (k - 1)) = 0" using k n by simp
    moreover have "k - 1 < length (drop 1 ?es)" using k True n by simp
    moreover have "drop 1 (?es[k := e]) = (drop 1 ?es)[k - 1 := e]" using k by (simp add: drop_update_swap)
    ultimately show ?thesis
      unfolding dir_map_def w(7) using True find_entry_update [of "k - 1" "drop 1 ?es" e name 1] w(4-6) none
      by (auto simp: fun_eq_iff)
  next
    case False
    then have "drop 1 (?es @ [e]) = drop 1 ?es @ [e]" using n by simp
    then show ?thesis
      unfolding dir_map_def w(7) using False find_entry_append [of e name "drop 1 ?es" 1] w(4-6) none
      by (auto simp: fun_eq_iff)
  qed
  then show ?thesis using w(1,3) file_stepD(1) [OF w(2)] by blast
qed

text \<open>
  C30: a file can get lost. \<^verbatim>\<open>dir_create\<close> and \<^verbatim>\<open>dir_add\<close> write the link to the parent from a
  local variable whose field \<^verbatim>\<open>in_use\<close> is never set. When that garbage is zero, the next
  \<^verbatim>\<open>dir_add\<close> takes the slot of the link, reports success, and no name is found that was not found before:
  searches start at the second slot.
\<close>

theorem dir_add_loses_file:
  assumes "fs_inv s" and "dir_at s dir a i n" and "garbage_ok s" and "0 \<notin> set name" and "name \<noteq> []" and "length name \<le> NAME_MAX"
    and "sec < 2 ^ 32" and "dir_map (file_bytes s a) name = None" and "room_for s (20 * Suc n)"
    and "in_use (entries (file_bytes s a) ! 0) = 0"
  shows "\<exists>s'. dir_add dir name sec False s = Inr (True, s') \<and> dir_map (file_bytes s' a) = dir_map (file_bytes s a)
     \<and> inode_sector (entries (file_bytes s' a) ! 0) = sec"
proof -
  let ?es = "entries (file_bytes s a)"
  have n: "length ?es = n" "0 < n" using dir_atD [OF assms(2)] by simp_all
  have "free_slot ?es 0 = 0" using n assms(10) by (cases ?es) auto
  then obtain s' e where w: "dir_add dir name sec False s = Inr (True, s')" "inode_sector e = sec"
    "entries (file_bytes s' a) = ?es[0 := e]"
    using dir_add_slot [OF assms(1-9), of 0] n(2) by auto
  then show ?thesis using n by (auto simp: dir_map_def)
qed

lemma demo_dir_at: "dir_at (demo_fs u) 400 201 (demo_inode 3 demo_dir) 2" "garbage_ok (demo_fs u)"
  and demo_dir_entries: "entries (demo_entries u) = [\<lparr>inode_sector = 1, ename = replicate 15 0, in_use = u\<rparr>,
      \<lparr>inode_sector = 5, ename = 100 # replicate 14 0, in_use = 1\<rparr>]" "dir_map (demo_entries u) = [[100] \<mapsto> 5]"
    "entries (demo_link u) = [\<lparr>inode_sector = 1, ename = replicate 15 0, in_use = u\<rparr>]"
proof -
  have l: "take 20 (demo_entries u) = demo_link u" "drop 20 (demo_entries u) = [5, 0, 0, 0, 100] @ replicate 14 0 @ [1]"
    using length_demo_link by (simp_all add: demo_entries_def)
  have d: "decode_entry (demo_link u) = \<lparr>inode_sector = 1, ename = replicate 15 0, in_use = u\<rparr>"
    "decode_entry ([5, 0, 0, 0, 100] @ replicate 14 0 @ [1]) = \<lparr>inode_sector = 5, ename = 100 # replicate 14 0, in_use = 1\<rparr>"
    by (simp_all add: decode_entry_def demo_link_def NAME_MAX_def le_word32_def nth_append)
  have "[0..<2] = [0, 1 :: nat]" by (simp add: upt_rec numeral_2_eq_2)
  then show e: "entries (demo_entries u) = [\<lparr>inode_sector = 1, ename = replicate 15 0, in_use = u\<rparr>,
      \<lparr>inode_sector = 5, ename = 100 # replicate 14 0, in_use = 1\<rparr>]"
    using l d length_demo_entries by (simp add: entries_def)
  show "entries (demo_link u) = [\<lparr>inode_sector = 1, ename = replicate 15 0, in_use = u\<rparr>]"
    using d(1) length_demo_link by (simp add: entries_def)
  show "dir_map (demo_entries u) = [[100] \<mapsto> 5]" by (auto simp: dir_map_def e fun_eq_iff cstr_def)
  have "dirs (demo_fs u) 400 = Some \<lparr>d_inode = 201, d_pos = 20\<rparr>" by (simp add: demo_fs_def)
  then show "dir_at (demo_fs u) 400 201 (demo_inode 3 demo_dir) 2"
    using demo_open_dir [of u] e length_demo_entries by (simp add: dir_at_def names_ok_def)
  show "garbage_ok (demo_fs u)" by (simp add: garbage_ok_def demo_fs_def dentry_ok_def)
qed


theorem dir_add_refines_map_witness:
  "\<exists>s'. dir_add 400 [97] 9 False (demo_fs 1) = Inr (True, s') \<and> dir_map (file_bytes s' 201) = [[100] \<mapsto> 5, [97] \<mapsto> 9]"
  using dir_add_refines_map [OF demo_inv(1) [of 1] demo_dir_at, of "[97]" 9] demo_open_dir(3) demo_dir_entries demo_room [of 60]
  by (auto simp: NAME_MAX_def)

theorem dir_add_loses_file_witness:
  "\<exists>s'. dir_add 400 [97] 9 False (demo_fs 0) = Inr (True, s') \<and> dir_map (file_bytes s' 201) [97] = None"
  using dir_add_loses_file [OF demo_inv(1) [of 0] demo_dir_at, of "[97]" 9] demo_open_dir(3) demo_dir_entries demo_room [of 60]
  by (auto simp: NAME_MAX_def)

text \<open>
  C29: removing an empty directory touches freed memory. \<^verbatim>\<open>dir_remove\<close> hands the inode it has opened to
  \<^verbatim>\<open>dir_open\<close>, which takes ownership, and \<^verbatim>\<open>dir_close\<close> drops the only reference; the inode
  is then used again. So for an empty directory that nobody else has open, erasing its entry ends with an access to a freed inode.
\<close>

theorem dir_remove_use_after_free:
  assumes "fs_inv s" and "dir_at s dir a i n" and "open_file_at s b k" and "b \<noteq> a" and "garbage_ok s"
    and "is_dir (data k)" and "length (file_bytes s b) = 20 * m" and "0 < m" and "list_all (\<lambda>e. in_use e = 0) (drop 1 (entries (file_bytes s b)))"
    and "open_cnt k = 1" and "\<not> removed k" and "dirs s (allocs s 0) = None"
    and "0 < j" and "j < n" and "e = entries (file_bytes s a) ! j" and "room_for s (20 * Suc n)"
  shows "remove_entry dir e (int (20 * j)) b s = Inl UseAfterFree"
proof -
  have k: "b \<noteq> NULL" "inodes s b = Some k" "fm_addr s \<noteq> Some b" using assms(3) by (auto simp: open_file_at_def good_file_def)
  obtain s1 where p: "bind_res (dir_open b s) (\<lambda>(target, s). bind_res (dir_is_empty target s) (\<lambda>(is_empty, s).
       bind_res (dir_close target s) (\<lambda>s. Inr (is_empty, s))))
     = Inr (True, s1\<lparr>open_inodes := remove1 b (open_inodes s), inodes := (inodes s)(b := None), dirs := dirs s\<rparr>)" "same_meta s s1" "V s1 = V s"
    using probe_directory [OF assms(1,3,7,8,5,10-12)] assms(9) by auto
  note g = same_meta_good [OF assms(1) p(2,3)] and mm = same_metaD [OF p(2)]
  let ?t = "s1\<lparr>inodes := (inodes s1)(b := None)\<rparr>"
  let ?s = "s1\<lparr>open_inodes := remove1 b (open_inodes s), inodes := (inodes s)(b := None), dirs := dirs s\<rparr>"
  have s: "?s = ?t\<lparr>open_inodes := remove1 b (open_inodes s), dirs := dirs s\<rparr>" using mm by simp
  have "fm_addr s1 = fm_addr s" by (simp add: fm_addr_def mm)
  then have fm1: "fm_addr s1 \<noteq> Some b" using k(3) by simp
  have inv: "fs_inv ?s" unfolding s using fs_inv_set_inode(1) [OF g(1) fm1, of None] by simp
  note o = open_file_set_inode [OF g(1) fm1 assms(4), of None]
  have d: "dir_at ?s dir a i n" unfolding s dir_at_def using assms(2) o g by (simp add: dir_at_def)
  have fb: "file_bytes ?s a = file_bytes s a" "room_for ?s (20 * Suc n)" unfolding s using o g assms(16) by simp_all
  have l: "length (entries (file_bytes s a)) = n" using dir_atD(6) [OF assms(2)] by simp
  have "dentry_ok e" using assms(14,15) l nth_mem entries_dentry_ok by metis
  then have ok: "dentry_ok (e\<lparr>in_use := 0\<rparr>)" by (simp add: dentry_ok_def)
  obtain s' j' where w: "write_entry a (int (20 * j)) (e\<lparr>in_use := 0\<rparr>) ?s = Inr (True, s')" "file_step ?s s' a i j'"
    using write_entry_spec [OF inv d _ ok fb(2), of j] assms(14) by auto
  have "inodes s' b = None" using file_stepD(4) [OF w(2)] assms(4) by simp
  then have "inode_remove b s' = Inl UseAfterFree" using k(1) by (simp add: inode_remove_def get_obj_def)
  then show ?thesis
    unfolding remove_entry_def using k(1,2) assms(6) p(1) w(1) dir_atD(2) [OF d] by (simp add: get_obj_def)
qed

theorem dir_remove_use_after_free_witness:
  "remove_entry 400 (entries (demo_entries 1) ! 1) 20 202 (demo_fs 1) = Inl UseAfterFree"
proof -
  have d: "is_dir (data (demo_inode 5 demo_sub))" "open_cnt (demo_inode 5 demo_sub) = 1" "\<not> removed (demo_inode 5 demo_sub)"
    "dirs (demo_fs 1) (allocs (demo_fs 1) 0) = None" "length (file_bytes (demo_fs 1) 202) = 20 * 1"
    "list_all (\<lambda>e. in_use e = 0) (drop 1 (entries (file_bytes (demo_fs 1) 202)))"
    using demo_open_sub(2) [of 1] length_demo_link [of 1] demo_dir_entries(3) [of 1]
    by (simp_all add: demo_inode_def demo_sub_def demo_disk_def) (simp add: demo_fs_def)
  have "remove_entry 400 (entries (file_bytes (demo_fs 1) 201) ! 1) (int (20 * 1)) 202 (demo_fs 1) = Inl UseAfterFree"
    by (rule dir_remove_use_after_free [OF demo_inv(1) demo_dir_at(1) demo_open_sub(1) _ demo_dir_at(2) d(1,5) _ d(6) d(2-4), where j = 1])
      (simp_all add: demo_room)
  then show ?thesis using demo_open_dir(3) [of 1] by simp
qed

end
