(* ===== verification/Dir_Paths.thy ===== *)
theory Dir_Paths
  imports Directory
begin

text \<open>
  Splitting a path into a directory and a file name, \<^verbatim>\<open>name_resolution\<close> of
  filesys/directory.c: what it computes, and that the results fit into the buffers of its callers.
\<close>

section \<open>The length of the components\<close>

definition with_slash :: "byte list list \<Rightarrow> byte list" where
  "with_slash ts = concat (map (\<lambda>t. t @ [SLASH]) ts)"

lemma with_slash_simps [simp]:
  "with_slash [] = []" "with_slash (t # ts) = t @ SLASH # with_slash ts" "with_slash (ts @ us) = with_slash ts @ with_slash us"
  by (simp_all add: with_slash_def)

lemma length_with_slash_tokens:
  "length (with_slash (tokens D s)) \<le> (if s \<noteq> [] \<and> D (hd s) then length s else Suc (length s))"
proof (induction D s rule: tokens.induct)
  case (1 D s)
  show ?case
  proof (cases "dropWhile D s")
    case Nil
    then show ?thesis by (subst tokens.simps) (auto simp: Nil split: list.splits)
  next
    case (Cons c r)
    let ?tok = "takeWhile (\<lambda>c. \<not> D c) (c # r)" and ?rem = "dropWhile (\<lambda>c. \<not> D c) r"
    have c: "\<not> D c" using hd_dropWhile [of D s] Cons by simp
    have tk: "tokens D s = ?tok # tokens D ?rem" by (subst tokens.simps) (simp add: Cons)
    have rem: "length (with_slash (tokens D ?rem)) \<le> length ?rem"
    proof (cases "?rem = []")
      case True
      show ?thesis unfolding True by (simp add: tokens.simps)
    next
      case False
      then have "D (hd ?rem)" using hd_dropWhile [of "\<lambda>c. \<not> D c" r] by simp
      then show ?thesis using 1 [OF Cons] False by simp
    qed
    have "length ?tok + length ?rem = Suc (length r)"
      using c length_append [of "takeWhile (\<lambda>c. \<not> D c) r" ?rem] by simp
    then have le: "length (with_slash (tokens D s)) \<le> Suc (length (c # r))" using rem unfolding tk by simp
    have "s = takeWhile D s @ c # r" using Cons by (metis takeWhile_dropWhile_id)
    then have len: "length s = length (takeWhile D s) + length (c # r)" by (metis length_append)
    show ?thesis
    proof (cases "s \<noteq> [] \<and> D (hd s)")
      case True
      then have "1 \<le> length (takeWhile D s)" by (cases s) simp_all
      then have "length (with_slash (tokens D s)) \<le> length s" using le len by linarith
      then show ?thesis using True by simp
    next
      case False
      have "length (with_slash (tokens D s)) \<le> Suc (length s)" using le len by linarith
      then show ?thesis using False by auto
    qed
  qed
qed

lemma tokens_nonempty: "t \<in> set (tokens D s) \<Longrightarrow> t \<noteq> []"
proof (induction D s rule: tokens.induct)
  case (1 D s)
  show ?case
  proof (cases "dropWhile D s")
    case Nil
    then show ?thesis using 1(2) by (subst (asm) tokens.simps) (simp add: Nil split: list.splits)
  next
    case (Cons c r)
    have "\<not> D c" using hd_dropWhile [of D s] Cons by simp
    then show ?thesis using 1(1) [OF Cons] 1(2) by (subst (asm) tokens.simps) (auto simp: Cons)
  qed
qed

section \<open>The loop\<close>

lemma name_loop_spec:
  assumes "0 \<notin> set str"
  shows "name_loop (pre @ str @ 0 # rest) (length pre) directory last_token =
    (let ts = (if last_token = [] then [] else [last_token]) @ tokens (\<lambda>c. c \<in> set [SLASH]) str in
     Inr (directory @ with_slash (butlast ts), if ts = [] then [] else last ts))"
  using assms
proof (induction "length (tokens (\<lambda>c. c \<in> set [SLASH]) str)" arbitrary: str pre directory last_token)
  case 0
  then have t: "tokens (\<lambda>c. c \<in> set [SLASH]) str = []" by simp
  then have "dropWhile (\<lambda>c. c \<in> set [SLASH]) str = []" by (subst (asm) tokens.simps) (auto split: list.splits)
  then obtain s where "strtok_r (pre @ str @ 0 # rest) (length pre) ([SLASH] @ 0 # []) = Inr (None, s, pre @ str @ 0 # rest)"
    using strtok_r_none [of str "[SLASH]" pre rest "[]"] 0(2) by (auto simp: SLASH_def)
  then show ?case using t by (subst name_loop.simps) (simp add: Let_def)
next
  case (Suc n)
  let ?D = "\<lambda>c. c \<in> set [SLASH]"
  define r where "r = dropWhile ?D str"
  have ne: "r \<noteq> []"
  proof
    assume "r = []"
    then have "tokens ?D str = []" unfolding tokens.simps [of ?D str] r_def by (simp only: list.case)
    then show False using Suc(2) by simp
  qed
  have z: "0 \<notin> set [SLASH]" by (simp add: SLASH_def)
  obtain pre' str' where s: "strtok_r (pre @ str @ 0 # rest) (length pre) ([SLASH] @ 0 # [])
      = Inr (Some (length pre + length (takeWhile ?D str)), length pre', pre' @ str' @ 0 # rest)"
    "tokens ?D str = takeWhile (\<lambda>c. c \<notin> set [SLASH]) r # tokens ?D str'" "0 \<notin> set str'"
    "cstr (drop (length pre + length (takeWhile ?D str)) (pre' @ str' @ 0 # rest)) = takeWhile (\<lambda>c. c \<notin> set [SLASH]) r"
    using strtok_r_some [OF Suc(3) z r_def [symmetric] ne, of pre rest "[]"] by blast
  let ?tok = "takeWhile (\<lambda>c. c \<notin> set [SLASH]) r"
  have tok: "?tok \<noteq> []" using tokens_nonempty [of ?tok ?D str] s(2) by simp
  have "n = length (tokens ?D str')" using Suc(2) s(2) by simp
  note ih = Suc(1) [OF this s(3), of pre' "if length last_token > 0 then directory @ last_token @ [SLASH] else directory" ?tok]
  have "name_loop (pre @ str @ 0 # rest) (length pre) directory last_token
      = name_loop (pre' @ str' @ 0 # rest) (length pre') (if length last_token > 0 then directory @ last_token @ [SLASH] else directory) ?tok"
    using s(1,4) by (subst name_loop.simps) simp
  then show ?case unfolding ih s(2) using tok by (simp add: Let_def)
qed

section \<open>Properties\<close>

text \<open>
  C27: a path is split at its last component. Memory permitting, \<^verbatim>\<open>name_resolution\<close> returns; the file name is the
  last component of the path (empty when there is none), the directory holds the other components, each
  followed by a slash, after a leading slash if the path has one. Both strings with their final null byte
  fit into buffers of one byte more than the path, which is what the callers allocate.
\<close>

theorem name_resolution_splits:
  assumes "0 \<notin> set path" and "malloc s = (p, s')" and "p \<noteq> NULL" and "directory \<noteq> NULL" and "filename \<noteq> NULL"
    and "ts = tokens (\<lambda>c. c = SLASH) path"
  shows "\<exists>d f. name_resolution path directory filename s = Inr (d, f, s')
     \<and> f = (if ts = [] then [] else last ts)
     \<and> d = (if path \<noteq> [] \<and> path ! 0 = SLASH then [SLASH] else []) @ with_slash (butlast ts)
     \<and> length d + 1 \<le> length path + 1 \<and> length f + 1 \<le> length path + 1"
proof -
  let ?a = "if length path > 0 \<and> path ! 0 = SLASH then [SLASH] else []"
  let ?d = "?a @ with_slash (butlast ts)" and ?f = "if ts = [] then [] else last ts"
  have ts: "ts = tokens (\<lambda>c. c \<in> set [SLASH]) path" using assms(6) by simp
  have loop: "name_loop (path @ [0]) 0 ?a [] = Inr (?d, ?f)"
    using name_loop_spec [OF assms(1), of "[]" "[]" ?a "[]"] unfolding ts by (simp add: Let_def)
  have total: "length (with_slash ts) \<le> (if path \<noteq> [] \<and> hd path = SLASH then length path else Suc (length path))"
    using length_with_slash_tokens [of "\<lambda>c. c = SLASH" path] assms(6) by simp
  have len: "length ?d \<le> length path \<and> length ?f \<le> length path"
  proof (cases ts rule: rev_cases)
    case Nil
    then show ?thesis by (cases path) simp_all
  next
    case (snoc us t)
    then have "length (with_slash ts) = length (with_slash us) + Suc (length t)" by simp
    moreover have "t \<noteq> []" using tokens_nonempty [of t "\<lambda>c. c = SLASH" path] snoc assms(6) by simp
    then have "0 < length t" by simp
    ultimately show ?thesis using total snoc by (cases path) (auto split: if_splits)
  qed
  have "name_resolution path directory filename s = Inr (?d, ?f, s')"
    using assms(2-5) loop by (simp add: name_resolution_def)
  then show ?thesis using len by simp
qed

theorem name_resolution_splits_witness:
  "\<forall>s. \<exists>s'. name_resolution [47, 97, 47, 47, 98, 99] 500 600 (s\<lparr>allocs := (\<lambda>n. 1000)\<rparr>) = Inr ([47, 97, 47], [98, 99], s')"
proof -
  have t: "tokens (\<lambda>c. c = SLASH) [47, 97, 47, 47, 98, 99] = [[97], [98, 99]]"
    by (simp add: tokens.simps SLASH_def)
  show ?thesis
  proof
    fix s
    show "\<exists>s'. name_resolution [47, 97, 47, 47, 98, 99] 500 600 (s\<lparr>allocs := (\<lambda>n. 1000)\<rparr>) = Inr ([47, 97, 47], [98, 99], s')"
    using name_resolution_splits [of "[47, 97, 47, 47, 98, 99]" "s\<lparr>allocs := (\<lambda>n. 1000)\<rparr>" 1000 "s\<lparr>allocs := (\<lambda>n. 1000)\<rparr>" 500 600]
    unfolding t by (simp add: malloc_def SLASH_def)
  qed
qed

end
