(* ===== verification/Vaddr.thy ===== *)
theory Vaddr
  imports Prelude
begin

unbundle bit_operations_syntax

text \<open>
  Virtual addresses (threads/vaddr.h), the format of page directory and page table entries
  (threads/pte.h), and the memory of the machine as the kernel reaches it through its 1:1 mapping:
  a byte at every 32-bit address, with 32-bit loads and stores, \<^verbatim>\<open>memset\<close> and
  \<^verbatim>\<open>memcpy\<close>. The arithmetic is that of the machine: an address is a 32-bit word.
\<close>

type_synonym vaddr = "32 word"

section \<open>Addresses\<close>

definition PGBITS :: nat where "PGBITS = 12"

definition BITMASK :: "nat \<Rightarrow> nat \<Rightarrow> 32 word" where
  "BITMASK sh cnt = push_bit sh (push_bit cnt 1 - 1)"

definition PGMASK :: "32 word" where "PGMASK = BITMASK 0 PGBITS"

definition PHYS_BASE :: vaddr where "PHYS_BASE = 0xc0000000"

definition pg_ofs :: "vaddr \<Rightarrow> 32 word" where
  "pg_ofs va = va AND PGMASK"

definition pg_no :: "vaddr \<Rightarrow> 32 word" where
  "pg_no va = drop_bit PGBITS va"

definition pg_round_up :: "vaddr \<Rightarrow> vaddr" where
  "pg_round_up va = (va + of_nat PGSIZE - 1) AND NOT PGMASK"

definition pg_round_down :: "vaddr \<Rightarrow> vaddr" where
  "pg_round_down va = va AND NOT PGMASK"

definition is_user_vaddr :: "vaddr \<Rightarrow> bool" where
  "is_user_vaddr va \<longleftrightarrow> va < PHYS_BASE"

definition is_kernel_vaddr :: "vaddr \<Rightarrow> bool" where
  "is_kernel_vaddr va \<longleftrightarrow> va \<ge> PHYS_BASE"

definition ptov :: "32 word \<Rightarrow> vaddr res" where
  "ptov paddr = bind_res (assert_res (paddr < PHYS_BASE)) (\<lambda>_. Inr (paddr + PHYS_BASE))"

definition vtop :: "vaddr \<Rightarrow> 32 word res" where
  "vtop va = bind_res (assert_res (is_kernel_vaddr va)) (\<lambda>_. Inr (va - PHYS_BASE))"

section \<open>Page table entries\<close>

definition PTBITS :: nat where "PTBITS = 10"

definition PTMASK :: "32 word" where "PTMASK = BITMASK PGBITS PTBITS"

definition PDSHIFT :: nat where "PDSHIFT = PGBITS + PTBITS"

definition pt_no :: "vaddr \<Rightarrow> 32 word" where
  "pt_no va = drop_bit PGBITS (va AND PTMASK)"

definition pd_no :: "vaddr \<Rightarrow> 32 word" where
  "pd_no va = drop_bit PDSHIFT va"

definition PTE_ADDR :: "32 word" where "PTE_ADDR = 0xfffff000"
definition PTE_P :: "32 word" where "PTE_P = 0x1"
definition PTE_W :: "32 word" where "PTE_W = 0x2"
definition PTE_U :: "32 word" where "PTE_U = 0x4"
definition PTE_A :: "32 word" where "PTE_A = 0x20"
definition PTE_D :: "32 word" where "PTE_D = 0x40"

definition pde_create :: "vaddr \<Rightarrow> 32 word res" where
  "pde_create pt =
     bind_res (assert_res (pg_ofs pt = 0)) (\<lambda>_.
     bind_res (vtop pt) (\<lambda>p. Inr (p OR PTE_U OR PTE_P OR PTE_W)))"

definition pde_get_pt :: "32 word \<Rightarrow> vaddr res" where
  "pde_get_pt pde =
     bind_res (assert_res (pde AND PTE_P \<noteq> 0)) (\<lambda>_. ptov (pde AND PTE_ADDR))"

definition pte_create_kernel :: "vaddr \<Rightarrow> bool \<Rightarrow> 32 word res" where
  "pte_create_kernel page writable =
     bind_res (assert_res (pg_ofs page = 0)) (\<lambda>_.
     bind_res (vtop page) (\<lambda>p. Inr (p OR PTE_P OR (if writable then PTE_W else 0))))"

definition pte_create_user :: "vaddr \<Rightarrow> bool \<Rightarrow> 32 word res" where
  "pte_create_user page writable =
     bind_res (pte_create_kernel page writable) (\<lambda>e. Inr (e OR PTE_U))"

definition pte_get_page :: "32 word \<Rightarrow> vaddr res" where
  "pte_get_page pte = ptov (pte AND PTE_ADDR)"

section \<open>Memory\<close>

type_synonym ram = "vaddr \<Rightarrow> byte"

definition load32 :: "ram \<Rightarrow> vaddr \<Rightarrow> 32 word" where
  "load32 m a = le_word32 [m a, m (a + 1), m (a + 2), m (a + 3)]"

fun put_bytes :: "ram \<Rightarrow> vaddr \<Rightarrow> byte list \<Rightarrow> ram" where
  "put_bytes m a [] = m"
| "put_bytes m a (b # bs) = put_bytes (m(a := b)) (a + 1) bs"

fun get_bytes :: "ram \<Rightarrow> vaddr \<Rightarrow> nat \<Rightarrow> byte list" where
  "get_bytes m a 0 = []"
| "get_bytes m a (Suc n) = m a # get_bytes m (a + 1) n"

definition store32 :: "ram \<Rightarrow> vaddr \<Rightarrow> 32 word \<Rightarrow> ram" where
  "store32 m a w = put_bytes m a (le_bytes32 w)"

section \<open>Pages and offsets\<close>

abbreviation aligned :: "vaddr \<Rightarrow> bool" where
  "aligned p \<equiv> pg_ofs p = 0"

named_theorems vaddr_simps \<open>masks and shifts of virtual addresses\<close>

lemma PGMASK_mask: "PGMASK = mask 12"
  by (simp add: PGMASK_def BITMASK_def PGBITS_def mask_eq_exp_minus_1)

lemma PTMASK_push: "PTMASK = push_bit 12 (mask 10)"
  by (simp add: PTMASK_def BITMASK_def PGBITS_def PTBITS_def mask_eq_exp_minus_1)

lemma PTE_ADDR_not_mask: "PTE_ADDR = NOT (mask 12)"
  by (simp add: PTE_ADDR_def mask_eq_exp_minus_1)

lemma pg_ofs_take_bit: "pg_ofs va = take_bit 12 va"
  by (simp add: pg_ofs_def PGMASK_mask take_bit_eq_mask)

lemma pg_round_down_bits: "pg_round_down va = push_bit 12 (drop_bit 12 va)"
  by (rule bit_eqI) (auto simp: pg_round_down_def PGMASK_mask bit_simps)

lemma PTE_ADDR_bits: "va AND PTE_ADDR = push_bit 12 (drop_bit 12 va)"
  by (rule bit_eqI) (auto simp: PTE_ADDR_not_mask bit_simps)

lemma unat_pg_ofs: "unat (pg_ofs va) = unat va mod 4096"
  by (simp add: pg_ofs_take_bit take_bit_eq_mod unat_mod)

lemma unat_pg_no: "unat (pg_no va) = unat va div 4096"
  by (simp add: pg_no_def PGBITS_def drop_bit_eq_div unat_div)

lemma unat_pd_no: "unat (pd_no va) = unat va div 4194304"
  by (simp add: pd_no_def PDSHIFT_def PGBITS_def PTBITS_def drop_bit_eq_div unat_div)

lemma unat_pt_no: "unat (pt_no va) = unat va div 4096 mod 1024"
proof -
  have "pt_no va = take_bit 10 (drop_bit 12 va)"
    by (rule bit_eqI) (auto simp: pt_no_def PTMASK_push PGBITS_def bit_simps)
  then show ?thesis by (simp add: take_bit_eq_mod drop_bit_eq_div unat_div unat_mod)
qed

lemma round_down_plus_ofs: "pg_round_down va + pg_ofs va = va"
  by (simp only: pg_round_down_bits pg_ofs_take_bit bits_ident)

lemma pg_round_down_minus: "pg_round_down va = va - pg_ofs va"
  using round_down_plus_ofs [of va] by (metis add_diff_cancel_right')

lemma unat_pg_round_down: "unat (pg_round_down va) = unat va div 4096 * 4096"
proof -
  have "unat (pg_round_down va) = unat va - unat va mod 4096"
    by (simp add: pg_round_down_minus unat_sub word_le_nat_alt unat_pg_ofs)
  then show ?thesis by (simp add: minus_mod_eq_div_mult)
qed

lemmas unat_parts [vaddr_simps] = unat_pg_ofs unat_pg_no unat_pd_no unat_pt_no unat_pg_round_down

lemma unat_lt32: "unat (w :: 32 word) < 4294967296"
  using unsigned_less [of w] by simp

lemma unat_PHYS_BASE: "unat PHYS_BASE = 3221225472"
  by (simp add: PHYS_BASE_def)

lemma aligned_iff: "aligned p \<longleftrightarrow> unat p mod 4096 = 0"
  by (metis unat_pg_ofs unat_eq_zero unat_0)

lemma aligned_pg_round_down [simp]: "aligned (pg_round_down va)"
  by (simp add: aligned_iff unat_pg_round_down)

lemma unat_page_plus:
  assumes "aligned p" and "unat i < 4096"
  shows "unat (p + i) = unat p + unat i"
proof -
  have "unat p + unat i < 4294967296"
    using assms unat_lt32 [of p] by (auto simp: aligned_iff elim!: dvdE simp flip: dvd_eq_mod_eq_0)
  then show ?thesis by (simp add: unat_word_ariths)
qed

lemma page_plus_inj:
  assumes "aligned p" "aligned q" "unat i < 4096" "unat j < 4096" and "p + i = q + j"
  shows "p = q \<and> i = j"
proof -
  have eq: "unat p + unat i = unat q + unat j"
    using assms by (metis unat_page_plus)
  from assms(1,2) have pq: "unat p mod 4096 = 0" "unat q mod 4096 = 0" by (simp_all add: aligned_iff)
  have "unat i = unat j"
    using arg_cong [OF eq, of "\<lambda>n. n mod 4096"] pq assms(3,4)
    by (metis add.commute mod_less mod_add_right_eq add_0)
  with eq show ?thesis by (simp add: word_unat_eq_iff)
qed

lemma pg_round_down_page_plus: "aligned p \<Longrightarrow> unat i < 4096 \<Longrightarrow> pg_round_down (p + i) = p"
  by (rule page_plus_inj [of _ _ "pg_ofs (p + i)" i, THEN conjunct1])
    (simp_all add: unat_pg_ofs round_down_plus_ofs)

text \<open>The page of an address is given by its two indices.\<close>

lemma pg_no_indices: "unat (pg_no va) = unat (pd_no va) * 1024 + unat (pt_no va)"
proof -
  have "unat va div 4194304 = unat va div 4096 div 1024" by (simp add: div_mult2_eq)
  then show ?thesis by (simp add: unat_parts)
qed

lemma same_page_iff: "pg_round_down a = pg_round_down b \<longleftrightarrow> pd_no a = pd_no b \<and> pt_no a = pt_no b"
proof
  assume "pg_round_down a = pg_round_down b"
  then have "unat a div 4096 = unat b div 4096" by (metis unat_pg_round_down mult_cancel2 zero_neq_numeral)
  moreover have "unat v div 4194304 = unat v div 4096 div 1024" for v :: vaddr by (simp add: div_mult2_eq)
  ultimately show "pd_no a = pd_no b \<and> pt_no a = pt_no b" by (simp add: word_unat_eq_iff unat_parts)
next
  assume "pd_no a = pd_no b \<and> pt_no a = pt_no b"
  then have "unat (pg_no a) = unat (pg_no b)" by (simp add: pg_no_indices)
  then show "pg_round_down a = pg_round_down b" by (simp add: word_unat_eq_iff unat_parts)
qed

lemma pd_no_user: "is_user_vaddr va \<longleftrightarrow> unat (pd_no va) < 768"
  by (simp add: is_user_vaddr_def word_less_nat_alt unat_PHYS_BASE unat_pd_no div_less_iff_less_mult)

lemma pt_no_lt: "unat (pt_no va) < 1024"
  by (simp add: unat_pt_no)

lemma pd_no_lt: "unat (pd_no va) < 1024"
  using unat_lt32 [of va] by (simp add: unat_pd_no div_less_iff_less_mult)

section \<open>Loads and stores\<close>

lemma load_store_same [simp]: "load32 (store32 m a w) a = w"
proof -
  obtain b0 b1 b2 b3 where b: "le_bytes32 w = [b0, b1, b2, b3]" by (simp add: le_bytes32_def)
  have "load32 (store32 m a w) a = le_word32 [b0, b1, b2, b3]"
    by (simp add: load32_def store32_def b add.assoc)
  then show ?thesis using le_word32_bytes [of w] by (simp add: b)
qed

lemma store32_byte: "store32 m a w x = m x" if "x \<notin> {a, a + 1, a + 2, a + 3}"
  using that by (simp add: store32_def le_bytes32_def add.assoc)

text \<open>A word of a page, at index \<open>i\<close>, is apart from every other word of it and of any other page.\<close>

definition entry_addr :: "vaddr \<Rightarrow> 32 word \<Rightarrow> vaddr" where
  "entry_addr p i = p + 4 * i"

lemma entry_byte:
  assumes "unat i < 1024" and "unat k < 4"
  shows "unat (4 * i + k :: 32 word) = 4 * unat i + unat k"
  using assms by (simp add: unat_word_ariths)

lemma entry_byte_inj:
  assumes "aligned p" "aligned q" "unat i < 1024" "unat j < 1024" "unat k < 4" "unat l < 4"
    and "entry_addr p i + k = entry_addr q j + l"
  shows "p = q \<and> i = j \<and> k = l"
proof -
  have "unat (4 * i + k) < 4096" "unat (4 * j + l) < 4096" using assms(3-6) by (simp_all add: entry_byte)
  moreover have "p + (4 * i + k) = q + (4 * j + l)" using assms(7) by (simp add: entry_addr_def add.assoc)
  ultimately have pq: "p = q" and "4 * i + k = 4 * j + l" using page_plus_inj assms(1,2) by blast+
  then have eq: "4 * unat i + unat k = 4 * unat j + unat l" using assms(3-6) by (metis entry_byte)
  have "unat i = unat j" using arg_cong [OF eq, of "\<lambda>n. n div 4"] assms(5,6) by simp
  then show ?thesis using pq eq by (simp add: word_unat_eq_iff)
qed

lemma load_store_other:
  assumes "aligned p" "aligned q" "unat i < 1024" "unat j < 1024" and "(p, i) \<noteq> (q, j)"
  shows "load32 (store32 m (entry_addr p i) w) (entry_addr q j) = load32 m (entry_addr q j)"
proof -
  have ks: "unat (0 :: 32 word) < 4" "unat (1 :: 32 word) < 4" "unat (2 :: 32 word) < 4" "unat (3 :: 32 word) < 4"
    by simp_all
  have apart: "entry_addr q j + l \<noteq> entry_addr p i + k" if "unat k < 4" "unat l < 4" for k l
    using entry_byte_inj [OF assms(2,1,4,3) that(2,1)] assms(5) by auto
  have "store32 m (entry_addr p i) w (entry_addr q j + l) = m (entry_addr q j + l)" if "unat l < 4" for l
    using apart [OF ks(1) that] apart [OF ks(2) that] apart [OF ks(3) that] apart [OF ks(4) that]
    by (intro store32_byte) simp
  from this [OF ks(1)] this [OF ks(2)] this [OF ks(3)] this [OF ks(4)] show ?thesis
    by (simp add: load32_def)
qed

lemma store_other_page:
  assumes "aligned p" "aligned q" "unat i < 1024" "unat j < 4096" "p \<noteq> q"
  shows "store32 m (entry_addr p i) w (q + j) = m (q + j)"
proof -
  have "q + j \<noteq> entry_addr p i + k" if "unat k < 4" for k
  proof -
    have "unat (4 * i + k) < 4096" using assms(3) that by (simp add: entry_byte)
    then show ?thesis using page_plus_inj [OF assms(2,1) assms(4), of "4 * i + k"] assms(5)
      by (auto simp: entry_addr_def add.assoc)
  qed
  from this [of 0] this [of 1] this [of 2] this [of 3] show ?thesis by (intro store32_byte) simp
qed

section \<open>Translation of addresses in entries\<close>

lemma aligned_mult: "aligned p \<longleftrightarrow> (\<exists>q. p = 4096 * q)"
proof
  assume "aligned p"
  then have "p = push_bit 12 (drop_bit 12 p)" using bits_ident [of 12 p] by (simp add: pg_ofs_take_bit)
  then have "p = 4096 * drop_bit 12 p" by (simp only: push_bit_eq_mult mult.commute) simp
  then show "\<exists>q. p = 4096 * q" ..
next
  assume "\<exists>q. p = 4096 * q"
  then obtain q where "p = push_bit 12 q" by (auto simp: push_bit_eq_mult mult.commute)
  then show "aligned p" by (simp add: pg_ofs_take_bit take_bit_push_bit)
qed

lemma aligned_plus: "aligned a \<Longrightarrow> aligned b \<Longrightarrow> aligned (a + b)"
  unfolding aligned_mult by (metis distrib_left)

lemma aligned_minus: "aligned a \<Longrightarrow> aligned b \<Longrightarrow> aligned (a - b)"
  unfolding aligned_mult by (metis right_diff_distrib)

lemma aligned_PHYS_BASE [simp]: "aligned PHYS_BASE"
  by (simp add: aligned_iff unat_PHYS_BASE)

lemma or_flags_address:
  assumes "aligned p" and "f AND NOT (mask 12) = 0"
  shows "(p OR f) AND PTE_ADDR = p"
proof -
  have "bit p n \<Longrightarrow> 12 \<le> n" for n
    using assms(1) by (metis bit_take_bit_iff bit_0_eq bot_apply bot_bool_def linorder_not_le pg_ofs_take_bit)
  moreover have "bit f n \<Longrightarrow> n < 12" for n
    using arg_cong [OF assms(2), of "\<lambda>w. bit w n"] by (auto simp: bit_simps dest: bit_imp_le_length)
  ultimately show ?thesis
    unfolding PTE_ADDR_not_mask by (intro bit_eqI) (force simp: bit_simps dest: bit_imp_le_length)
qed

lemma or_flags_bits: "aligned p \<Longrightarrow> f AND NOT (mask 12) = 0 \<Longrightarrow> n < 12 \<Longrightarrow> bit (p OR f) n = bit f n"
  unfolding pg_ofs_take_bit bit_or_iff by (metis bit_0_eq bit_take_bit_iff bot_apply bot_bool_def)

section \<open>Byte ranges\<close>

lemma unat_pred: "w \<noteq> 0 \<Longrightarrow> unat (w - 1 :: 32 word) = unat w - 1"
  by (metis unat_minus_one)

lemma put_bytes_at:
  "length bs \<le> 4294967296 \<Longrightarrow>
   put_bytes m a bs x = (if unat (x - a) < length bs then bs ! unat (x - a) else m x)"
proof (induction bs arbitrary: m a)
  case (Cons b bs)
  show ?case
  proof (cases "x = a")
    case True
    have "unat (x - (a + 1)) = 4294967295"
      using True by (simp add: unsigned_minus_1_eq_mask mask_eq_exp_minus_1)
    then show ?thesis using Cons True by simp
  next
    case False
    then have "unat (x - (a + 1)) = unat (x - a) - 1" "0 < unat (x - a)"
      by (simp_all add: unat_pred unat_gt_0 flip: diff_diff_eq)
    then show ?thesis using Cons False by (cases "unat (x - a)") auto
  qed
qed simp

definition memset_ram :: "ram \<Rightarrow> vaddr \<Rightarrow> byte \<Rightarrow> nat \<Rightarrow> ram" where
  "memset_ram m a v n = put_bytes m a (replicate n v)"

lemma memset_at: "n \<le> 4294967296 \<Longrightarrow> memset_ram m a v n x = (if unat (x - a) < n then v else m x)"
  by (simp add: memset_ram_def put_bytes_at)

lemma memset_fun:
  "n \<le> 4294967296 \<Longrightarrow> memset_ram m a v n = (\<lambda>x. if unat (x - a) < n then v else m x)"
  using memset_at by blast

lemma get_bytes_map: "get_bytes m a n = map (\<lambda>i. m (a + of_nat i)) [0..<n]"
proof (induction n arbitrary: a)
  case (Suc n)
  show ?case
    by (simp add: Suc.IH upt_conv_Cons [of 0 "Suc n"] map_Suc_upt [symmetric] add.assoc comp_def
        del: upt_Suc)
qed simp

lemma length_get_bytes [simp]: "length (get_bytes m a n) = n"
  by (simp add: get_bytes_map)

lemma get_put_bytes:
  assumes "length bs \<le> 4294967296"
  shows "get_bytes (put_bytes m a bs) a (length bs) = bs"
proof (rule nth_equalityI)
  fix i assume "i < length (get_bytes (put_bytes m a bs) a (length bs))"
  then have "i < length bs" by simp
  moreover from this have "unat (of_nat i :: 32 word) = i" using assms by (simp add: unat_of_nat)
  ultimately show "get_bytes (put_bytes m a bs) a (length bs) ! i = bs ! i"
    using assms by (simp add: get_bytes_map put_bytes_at)
qed simp

lemma get_bytes_append: "get_bytes r a (j + k) = get_bytes r a j @ get_bytes r (a + of_nat j) k"
  by (induction j arbitrary: a) (simp_all add: add.assoc)

lemma put_bytes_append: "put_bytes r a (xs @ ys) = put_bytes (put_bytes r a xs) (a + of_nat (length xs)) ys"
  by (induction xs arbitrary: r a) (simp_all add: add.assoc)

lemma in_page_iff:
  assumes "aligned p"
  shows "unat (x - p) < 4096 \<longleftrightarrow> pg_round_down x = p"
proof
  assume "unat (x - p) < 4096"
  from pg_round_down_page_plus [OF assms this] show "pg_round_down x = p" by simp
next
  assume "pg_round_down x = p"
  then have "x - p = pg_ofs x" by (metis pg_round_down_minus diff_diff_eq2 add_diff_cancel_left')
  then show "unat (x - p) < 4096" by (simp add: unat_pg_ofs)
qed

end
