(* ===== verification/Palloc.thy ===== *)
theory Palloc
  imports Bitmap Vaddr
begin

text \<open>
  The page allocator, threads/palloc.c: two pools of pages, each with a bitmap of the pages in
  use. The bitmap lies in the first pages of its pool; its bits are the component
  \<open>used_map\<close>, the bytes of every other page are \<open>ram_of\<close>. An allocator call is
  atomic under the lock of its pool. The theory shows that pages handed out are free, aligned and
  apart from all pages still allocated, that a freed page can be handed out again, and that
  \<^verbatim>\<open>palloc_init\<close> lays out two disjoint pools inside the memory of the machine.
\<close>

section \<open>Model\<close>

record pool =
  used_map :: bitmap
  pool_base :: vaddr

record kmem =
  ram_of :: ram
  kernel_pool :: pool
  user_pool :: pool
  init_ram_pages :: "32 word"
  init_page_dir :: vaddr
  cr3 :: "32 word"

definition PAL_ASSERT :: "32 word" where "PAL_ASSERT = 1"
definition PAL_ZERO :: "32 word" where "PAL_ZERO = 2"
definition PAL_USER :: "32 word" where "PAL_USER = 4"

text \<open>The elements of the new bitmap are the words the memory holds there.\<close>

definition init_pool :: "ram \<Rightarrow> vaddr \<Rightarrow> 32 word \<Rightarrow> pool res" where
  "init_pool r bs page_cnt =
     (let bm_pages = DIV_ROUND_UP (bitmap_buf_size (unat page_cnt)) PGSIZE in
      if bm_pages > unat page_cnt then Inl Panic
      else let page_cnt = unat page_cnt - bm_pages in
        bind_res (bitmap_create_in_buf page_cnt
            (map (\<lambda>i. load32 r (bs + 8 + 4 * of_nat i)) [0..<elem_cnt page_cnt]) (bm_pages * PGSIZE)) (\<lambda>b.
        Inr \<lparr>used_map = b, pool_base = bs + of_nat (bm_pages * PGSIZE)\<rparr>))"

definition palloc_init :: "32 word \<Rightarrow> kmem \<Rightarrow> kmem res" where
  "palloc_init user_page_limit m =
     bind_res (ptov (1024 * 1024)) (\<lambda>free_start.
     bind_res (ptov (init_ram_pages m * of_nat PGSIZE)) (\<lambda>free_end.
     let free_pages = word_of_int (cdiv (sint (free_end - free_start)) (int PGSIZE)) :: 32 word;
         user_pages = free_pages div 2;
         user_pages = (if user_pages > user_page_limit then user_page_limit else user_pages);
         kernel_pages = free_pages - user_pages
     in bind_res (init_pool (ram_of m) free_start kernel_pages) (\<lambda>kp.
        bind_res (init_pool (ram_of m) (free_start + kernel_pages * of_nat PGSIZE) user_pages) (\<lambda>up.
        Inr (m\<lparr>kernel_pool := kp, user_pool := up\<rparr>)))))"

definition page_from_pool :: "pool \<Rightarrow> vaddr \<Rightarrow> bool" where
  "page_from_pool pl page =
     (let page_no = pg_no page; start_page = pg_no (pool_base pl);
          end_page = start_page + of_nat (bitmap_size (used_map pl))
      in page_no \<ge> start_page \<and> page_no < end_page)"

definition the_pool :: "bool \<Rightarrow> kmem \<Rightarrow> pool" where
  "the_pool user m = (if user then user_pool m else kernel_pool m)"

definition set_used_map :: "bool \<Rightarrow> bitmap \<Rightarrow> kmem \<Rightarrow> kmem" where
  "set_used_map user b m =
     (if user then m\<lparr>user_pool := (user_pool m)\<lparr>used_map := b\<rparr>\<rparr>
      else m\<lparr>kernel_pool := (kernel_pool m)\<lparr>used_map := b\<rparr>\<rparr>)"

definition palloc_get_multiple :: "32 word \<Rightarrow> 32 word \<Rightarrow> kmem \<Rightarrow> (vaddr \<times> kmem) res" where
  "palloc_get_multiple flags page_cnt m =
     (let user = (flags AND PAL_USER \<noteq> 0) in
      if page_cnt = 0 then Inr (0, m)
      else bind_res (bitmap_scan_and_flip (used_map (the_pool user m)) 0 (unat page_cnt) False) (\<lambda>(page_idx, b).
        let m = set_used_map user b m;
            pages = (if page_idx \<noteq> BITMAP_ERROR
                     then pool_base (the_pool user m) + of_nat PGSIZE * of_nat page_idx else 0)
        in if pages \<noteq> 0
           then Inr (pages, if flags AND PAL_ZERO \<noteq> 0
                  then m\<lparr>ram_of := memset_ram (ram_of m) pages 0 (unat (of_nat PGSIZE * page_cnt))\<rparr> else m)
           else if flags AND PAL_ASSERT \<noteq> 0 then Inl Panic else Inr (pages, m)))"

definition palloc_get_page :: "32 word \<Rightarrow> kmem \<Rightarrow> (vaddr \<times> kmem) res" where
  "palloc_get_page flags m = palloc_get_multiple flags 1 m"

definition palloc_free_multiple :: "vaddr \<Rightarrow> 32 word \<Rightarrow> kmem \<Rightarrow> kmem res" where
  "palloc_free_multiple pages page_cnt m =
     bind_res (assert_res (pg_ofs pages = 0)) (\<lambda>_.
     if pages = 0 \<or> page_cnt = 0 then Inr m
     else
       bind_res (if page_from_pool (kernel_pool m) pages then Inr False
                 else if page_from_pool (user_pool m) pages then Inr True else Inl Panic) (\<lambda>user.
       let page_idx = pg_no pages - pg_no (pool_base (the_pool user m));
           m = m\<lparr>ram_of := memset_ram (ram_of m) pages 0xcc (unat (of_nat PGSIZE * page_cnt))\<rparr>
       in bind_res (bitmap_all (used_map (the_pool user m)) (unat page_idx) (unat page_cnt)) (\<lambda>al.
          bind_res (assert_res al) (\<lambda>_.
          bind_res (bitmap_set_multiple (used_map (the_pool user m)) (unat page_idx) (unat page_cnt) False) (\<lambda>b.
          Inr (set_used_map user b m))))))"

definition palloc_free_page :: "vaddr \<Rightarrow> kmem \<Rightarrow> kmem res" where
  "palloc_free_page page m = palloc_free_multiple page 1 m"

text \<open>The contents of a page.\<close>

definition page_bytes :: "kmem \<Rightarrow> vaddr \<Rightarrow> byte list" where
  "page_bytes m p = get_bytes (ram_of m) p 4096"

section \<open>Invariant\<close>

text \<open>A pool covers \<open>bit_cnt\<close> whole pages of the kernel's part of the address space.\<close>

definition pool_end :: "pool \<Rightarrow> nat" where
  "pool_end pl = unat (pool_base pl) + 4096 * bit_cnt (used_map pl)"

definition wf_pool :: "pool \<Rightarrow> bool" where
  "wf_pool pl \<longleftrightarrow> wf_bitmap (used_map pl) \<and> aligned (pool_base pl) \<and> PHYS_BASE \<le> pool_base pl
     \<and> pool_end pl \<le> 4294967296"

definition wf_kmem :: "kmem \<Rightarrow> bool" where
  "wf_kmem m \<longleftrightarrow> wf_pool (kernel_pool m) \<and> wf_pool (user_pool m)
     \<and> pool_end (kernel_pool m) \<le> unat (pool_base (user_pool m))
     \<and> pool_end (user_pool m) \<le> unat PHYS_BASE + 4096 * unat (init_ram_pages m)"

definition pool_page :: "pool \<Rightarrow> nat \<Rightarrow> vaddr" where
  "pool_page pl i = pool_base pl + 4096 * of_nat i"

definition used_pages :: "pool \<Rightarrow> vaddr set" where
  "used_pages pl = pool_page pl ` used_bits (used_map pl)"

definition pool_pages :: "pool \<Rightarrow> vaddr set" where
  "pool_pages pl = pool_page pl ` {..<bit_cnt (used_map pl)}"

definition page_run :: "vaddr \<Rightarrow> nat \<Rightarrow> vaddr set" where
  "page_run p n = (\<lambda>i. p + 4096 * of_nat i) ` {..<n}"

lemma used_bits_lt: "i \<in> used_bits b \<Longrightarrow> i < bit_cnt b"
  by (simp add: used_bits_def)

lemma pool_bounds:
  assumes "wf_pool pl" and "i < bit_cnt (used_map pl)"
  shows "unat (pool_page pl i) = unat (pool_base pl) + 4096 * i" and "i < 262144"
proof -
  have "unat (pool_base pl) + 4096 * bit_cnt (used_map pl) \<le> 4294967296" "3221225472 \<le> unat (pool_base pl)"
    using assms(1) by (simp_all add: wf_pool_def pool_end_def word_le_nat_alt unat_PHYS_BASE)
  with assms(2) show i: "i < 262144" by linarith
  then have "unat (4096 * of_nat i :: 32 word) = 4096 * i" by (simp add: unat_word_ariths unat_of_nat)
  with assms i \<open>unat (pool_base pl) + 4096 * bit_cnt (used_map pl) \<le> 4294967296\<close>
  show "unat (pool_page pl i) = unat (pool_base pl) + 4096 * i"
    by (simp add: pool_page_def unat_word_ariths)
qed

lemma pool_page_props:
  assumes "wf_pool pl" and "i < bit_cnt (used_map pl)"
  shows "aligned (pool_page pl i)" and "PHYS_BASE \<le> pool_page pl i" and "pool_page pl i \<noteq> 0"
    and "unat (pool_page pl i) + 4096 \<le> pool_end pl"
proof -
  note b = pool_bounds [OF assms]
  have base: "unat (pool_base pl) mod 4096 = 0" "3221225472 \<le> unat (pool_base pl)"
    using assms(1) by (simp_all add: wf_pool_def aligned_iff word_le_nat_alt unat_PHYS_BASE)
  show "aligned (pool_page pl i)" using base(1) by (simp add: aligned_iff b)
  show "PHYS_BASE \<le> pool_page pl i" using base(2) by (simp add: word_le_nat_alt unat_PHYS_BASE b)
  show "pool_page pl i \<noteq> 0" using base(2) b(1) by (metis add_is_0 not_numeral_le_zero unat_0)
  show "unat (pool_page pl i) + 4096 \<le> pool_end pl" using assms(2) by (simp add: b pool_end_def)
qed

lemma pool_page_inj:
  "wf_pool pl \<Longrightarrow> i < bit_cnt (used_map pl) \<Longrightarrow> j < bit_cnt (used_map pl) \<Longrightarrow> pool_page pl i = pool_page pl j \<longleftrightarrow> i = j"
  by (metis pool_bounds(1) add_left_cancel mult_left_cancel zero_neq_numeral)

lemma pools_apart:
  assumes "wf_kmem m" and "i < bit_cnt (used_map (kernel_pool m))" and "j < bit_cnt (used_map (user_pool m))"
  shows "pool_page (kernel_pool m) i \<noteq> pool_page (user_pool m) j"
proof -
  have "unat (pool_page (kernel_pool m) i) + 4096 \<le> unat (pool_base (user_pool m))"
    using assms(1,2) pool_page_props(4) [of "kernel_pool m" i] by (simp add: wf_kmem_def)
  also have "\<dots> \<le> unat (pool_page (user_pool m) j)"
    using assms(1,3) pool_bounds(1) [of "user_pool m" j] by (simp add: wf_kmem_def)
  finally show ?thesis by auto
qed

section \<open>Allocation\<close>

lemma the_pool_wf: "wf_kmem m \<Longrightarrow> wf_pool (the_pool user m)"
  by (simp add: wf_kmem_def the_pool_def)

lemma set_used_map_simps [simp]:
  "ram_of (set_used_map user b m) = ram_of m"
  "init_ram_pages (set_used_map user b m) = init_ram_pages m"
  "init_page_dir (set_used_map user b m) = init_page_dir m"
  "cr3 (set_used_map user b m) = cr3 m"
  "the_pool u (set_used_map user b m) = (if u = user then (the_pool u m)\<lparr>used_map := b\<rparr> else the_pool u m)"
  by (simp_all add: set_used_map_def the_pool_def)

lemma set_used_map_ram: "(set_used_map user b m)\<lparr>ram_of := ram_of m\<rparr> = set_used_map user b m"
  by (simp add: set_used_map_def)

lemma set_used_map_commute: "set_used_map user b (m\<lparr>ram_of := r\<rparr>) = (set_used_map user b m)\<lparr>ram_of := r\<rparr>"
  by (simp add: set_used_map_def)

lemma wf_set_used_map:
  assumes "wf_kmem m" and "wf_bitmap b" and "bit_cnt b = bit_cnt (used_map (the_pool user m))"
  shows "wf_kmem (set_used_map user b m)"
  using assms by (cases user) (simp_all add: wf_kmem_def wf_pool_def set_used_map_def the_pool_def pool_end_def)

lemma wf_ram_of [simp]: "wf_kmem (m\<lparr>ram_of := r\<rparr>) = wf_kmem m"
  by (simp add: wf_kmem_def)

lemma the_pool_ram_of [simp]: "the_pool u (m\<lparr>ram_of := r\<rparr>) = the_pool u m"
  by (simp add: the_pool_def)

lemma pool_page_used_map [simp]: "pool_page (pl\<lparr>used_map := b\<rparr>) = pool_page pl"
  by (simp add: pool_page_def fun_eq_iff)

lemma page_run_pool: "page_run (pool_page pl i) n = pool_page pl ` {i..<i + n}"
proof -
  have "pool_page pl i + 4096 * of_nat j = pool_page pl (i + j)" for j
    by (simp add: pool_page_def distrib_left add.assoc)
  then have "page_run (pool_page pl i) n = pool_page pl ` ((\<lambda>j. i + j) ` {..<n})"
    by (auto simp: page_run_def image_iff)
  also have "(\<lambda>j. i + j) ` {..<n} = {i..<i + n}"
    using image_add_atLeastLessThan [of i 0 n] by (simp add: atLeast0LessThan add.commute)
  finally show ?thesis .
qed

lemma page_run_bytes:
  assumes "wf_pool pl" and "i + n \<le> bit_cnt (used_map pl)"
  shows "unat (of_nat PGSIZE * of_nat n :: 32 word) = 4096 * n \<or> n = 0"
proof (cases n)
  case (Suc k)
  then have "n - 1 < bit_cnt (used_map pl)" "0 < n" using assms(2) by auto
  then have "n \<le> 262144" using pool_bounds(2) [OF assms(1), of "n - 1"] by linarith
  then show ?thesis by (simp add: PGSIZE_def unat_word_ariths unat_of_nat)
qed simp

lemma palloc_get_multiple_spec:
  assumes "wf_kmem m" and "n \<noteq> 0" and "flags AND PAL_ASSERT = 0"
  defines "user \<equiv> flags AND PAL_USER \<noteq> 0"
  shows "\<exists>p m'. palloc_get_multiple flags n m = Inr (p, m') \<and> wf_kmem m'
    \<and> the_pool (\<not> user) m' = the_pool (\<not> user) m
    \<and> pool_base (the_pool user m') = pool_base (the_pool user m)
    \<and> bit_cnt (used_map (the_pool user m')) = bit_cnt (used_map (the_pool user m))
    \<and> init_ram_pages m' = init_ram_pages m \<and> init_page_dir m' = init_page_dir m \<and> cr3 m' = cr3 m
    \<and> (if p = 0 then ram_of m' = ram_of m \<and> used_pages (the_pool user m') = used_pages (the_pool user m)
          \<and> (\<forall>i. i + unat n \<le> bit_cnt (used_map (the_pool user m)) \<longrightarrow>
               page_run (pool_page (the_pool user m) i) (unat n) \<inter> used_pages (the_pool user m) \<noteq> {})
       else aligned p \<and> page_run p (unat n) \<subseteq> pool_pages (the_pool user m)
          \<and> page_run p (unat n) \<inter> used_pages (the_pool user m) = {}
          \<and> used_pages (the_pool user m') = used_pages (the_pool user m) \<union> page_run p (unat n)
          \<and> ram_of m' = (\<lambda>x. if flags AND PAL_ZERO \<noteq> 0 \<and> unat (x - p) < 4096 * unat n then 0 else ram_of m x))"
proof -
  let ?pl = "the_pool user m"
  have pl: "wf_pool ?pl" using assms(1) by (rule the_pool_wf)
  then have bm: "wf_bitmap (used_map ?pl)" by (simp add: wf_pool_def)
  obtain r b where rb: "bitmap_scan_and_flip (used_map ?pl) 0 (unat n) False = Inr (r, b)"
    using bits.alloc_returns [OF bm] by blast
  show ?thesis
  proof (cases "r = BITMAP_ERROR")
    case True
    note f = bits.alloc_failed [OF bm rb [unfolded True]]
    have inter: "page_run (pool_page ?pl i) (unat n) \<inter> used_pages ?pl \<noteq> {}"
      if "i + unat n \<le> bit_cnt (used_map ?pl)" for i
      using f that by (auto simp: page_run_pool used_pages_def)
    have "palloc_get_multiple flags n m = Inr (0, set_used_map user b m)"
      using rb True assms(2,3) by (simp add: palloc_get_multiple_def flip: user_def)
    then show ?thesis using f inter assms(1) wf_set_used_map [of m b user] by (simp add: used_pages_def)
  next
    case False
    note ok = bits.alloc_ok [OF bm rb False]
    have "0 < unat n" using assms(2) by (simp add: unat_gt_0)
    then have r: "r < bit_cnt (used_map ?pl)" using ok by linarith
    have p: "pool_base ?pl + of_nat PGSIZE * of_nat r = pool_page ?pl r" by (simp add: pool_page_def PGSIZE_def)
    have sz: "unat (of_nat PGSIZE * n) = 4096 * unat n"
      using page_run_bytes [OF pl, of r "unat n"] ok \<open>0 < unat n\<close> by simp
    have le: "4096 * unat n \<le> 4294967296" using sz unat_lt32 [of "of_nat PGSIZE * n"] by linarith
    have dj: "page_run (pool_page ?pl r) (unat n) \<inter> used_pages ?pl = {}"
    proof -
      have "i = j \<longleftrightarrow> pool_page ?pl i = pool_page ?pl j" if "i \<in> {r..<r + unat n}" "j \<in> used_bits (used_map ?pl)" for i j
        using pool_page_inj [OF pl, of i j] that ok used_bits_lt [of j] by auto
      then show ?thesis using ok unfolding page_run_pool used_pages_def by blast
    qed
    have eq: "palloc_get_multiple flags n m = Inr (pool_page ?pl r, (set_used_map user b m)\<lparr>ram_of :=
       (\<lambda>x. if flags AND PAL_ZERO \<noteq> 0 \<and> unat (x - pool_page ?pl r) < 4096 * unat n then 0 else ram_of m x)\<rparr>)"
      using rb False assms(2) pool_page_props(3) [OF pl r]
      by (simp add: palloc_get_multiple_def Let_def p sz memset_fun [OF le] set_used_map_ram flip: user_def)
    have "page_run (pool_page ?pl r) (unat n) \<subseteq> pool_pages ?pl" using ok by (auto simp: page_run_pool pool_pages_def)
    then show ?thesis
      using eq ok dj assms(1) wf_set_used_map [of m b user] pool_page_props [OF pl r]
      by (simp add: used_pages_def image_Un page_run_pool)
  qed
qed

section \<open>Release\<close>

lemma page_run_indices:
  assumes "wf_pool pl" and "page_run p n \<subseteq> used_pages pl" and "0 < n"
  obtains i where "p = pool_page pl i" and "i + n \<le> bit_cnt (used_map pl)" and "{i..<i + n} \<subseteq> used_bits (used_map pl)"
proof -
  have "p \<in> page_run p n" using assms(3) by (force simp: page_run_def)
  then obtain i where i: "p = pool_page pl i" "i \<in> used_bits (used_map pl)"
    using assms(2) by (auto simp: used_pages_def)
  let ?c = "bit_cnt (used_map pl)"
  have pe: "pool_end pl \<le> 4294967296" "3221225472 \<le> unat (pool_base pl)"
    using assms(1) by (simp_all add: wf_pool_def word_le_nat_alt unat_PHYS_BASE)
  have le: "i + n \<le> ?c"
  proof (rule ccontr)
    assume "\<not> i + n \<le> ?c"
    then have "pool_page pl ?c \<in> page_run p n" using used_bits_lt [OF i(2)] by (simp add: i(1) page_run_pool)
    then obtain j where j: "pool_page pl ?c = pool_page pl j" "j < ?c"
      using assms(2) by (auto simp: used_pages_def dest: used_bits_lt)
    have "unat (4096 * of_nat ?c :: 32 word) = 4096 * ?c"
      using pe by (simp add: pool_end_def unat_word_ariths unat_of_nat)
    then have "unat (pool_page pl ?c) = pool_end pl mod 4294967296"
      by (simp add: pool_page_def pool_end_def unat_word_ariths)
    moreover have "unat (pool_page pl j) = unat (pool_base pl) + 4096 * j" "unat (pool_page pl j) + 4096 \<le> pool_end pl"
      using pool_bounds(1) pool_page_props(4) assms(1) j(2) by blast+
    ultimately show False using j(1) pe by (cases "pool_end pl = 4294967296") auto
  qed
  have "k \<in> used_bits (used_map pl)" if "k \<in> {i..<i + n}" for k
  proof -
    have "pool_page pl k \<in> used_pages pl" using assms(2) that unfolding i(1) page_run_pool by blast
    then show ?thesis
      using pool_page_inj [OF assms(1), of k] that le by (auto simp: used_pages_def dest: used_bits_lt)
  qed
  then show ?thesis using that i(1) le by blast
qed

lemma pg_no_pool_page:
  assumes "wf_pool pl" and "i < bit_cnt (used_map pl)"
  shows "unat (pg_no (pool_page pl i)) = unat (pg_no (pool_base pl)) + i"
proof -
  have "unat (pool_base pl) mod 4096 = 0" using assms(1) by (simp add: wf_pool_def aligned_iff)
  then show ?thesis by (simp add: unat_pg_no pool_bounds [OF assms])
qed

lemma page_from_pool_iff:
  assumes "wf_pool pl" and "aligned p"
  shows "page_from_pool pl p \<longleftrightarrow> p \<in> pool_pages pl"
proof -
  let ?c = "bit_cnt (used_map pl)" and ?B = "unat (pg_no (pool_base pl))"
  have base: "unat (pool_base pl) = 4096 * ?B" "pool_end pl \<le> 4294967296"
    using assms(1) by (auto simp: wf_pool_def aligned_iff unat_pg_no)
  then have "?B + ?c \<le> 1048576" by (simp add: pool_end_def)
  then have "unat (pg_no (pool_base pl) + of_nat ?c) = ?B + ?c" by (simp add: unat_word_ariths unat_of_nat)
  then have "page_from_pool pl p \<longleftrightarrow> ?B \<le> unat (pg_no p) \<and> unat (pg_no p) < ?B + ?c"
    by (simp add: page_from_pool_def bitmap_size_def word_le_nat_alt word_less_nat_alt Let_def)
  also have "\<dots> \<longleftrightarrow> (\<exists>i<?c. unat p = 4096 * ?B + 4096 * i)"
  proof
    assume "?B \<le> unat (pg_no p) \<and> unat (pg_no p) < ?B + ?c"
    moreover have "unat p = 4096 * unat (pg_no p)" using assms(2) by (auto simp: aligned_iff unat_pg_no)
    ultimately have "unat p = 4096 * ?B + 4096 * (unat (pg_no p) - ?B)" "unat (pg_no p) - ?B < ?c" by auto
    then show "\<exists>i<?c. unat p = 4096 * ?B + 4096 * i" by blast
  qed (auto simp: unat_pg_no)
  also have "\<dots> \<longleftrightarrow> p \<in> pool_pages pl"
    using pool_bounds(1) [OF assms(1)] base(1) by (auto simp: pool_pages_def image_iff word_unat_eq_iff)
  finally show ?thesis .
qed

lemma pool_pages_disjoint: "wf_kmem m \<Longrightarrow> pool_pages (kernel_pool m) \<inter> pool_pages (user_pool m) = {}"
  using pools_apart by (fastforce simp: pool_pages_def)

lemma used_pages_subset: "used_pages pl \<subseteq> pool_pages pl"
  by (auto simp: used_pages_def pool_pages_def dest: used_bits_lt)

lemma bitmap_all_used:
  assumes "wf_bitmap b" and "i + n \<le> bit_cnt b" and "{i..<i + n} \<subseteq> used_bits b"
  shows "bitmap_all b i n = Inr True"
proof -
  have "group_at b n True i" using assms(2,3) by (force simp: group_at_def used_bits_def)
  then have "False \<notin> set (take n (drop i (bits_of b)))" using not_contains_iff [OF assms(2), of True] by simp
  then show ?thesis using bitmap_contains_spec [of b i n False] assms(1,2) by (simp add: bitmap_all_def in_range_def)
qed

lemma palloc_free_multiple_spec:
  assumes "wf_kmem m" and "n \<noteq> 0" and run: "page_run p (unat n) \<subseteq> used_pages (the_pool user m)"
  shows "\<exists>m'. palloc_free_multiple p n m = Inr m' \<and> wf_kmem m'
    \<and> the_pool (\<not> user) m' = the_pool (\<not> user) m
    \<and> pool_base (the_pool user m') = pool_base (the_pool user m)
    \<and> bit_cnt (used_map (the_pool user m')) = bit_cnt (used_map (the_pool user m))
    \<and> init_ram_pages m' = init_ram_pages m \<and> init_page_dir m' = init_page_dir m \<and> cr3 m' = cr3 m
    \<and> used_pages (the_pool user m') = used_pages (the_pool user m) - page_run p (unat n)
    \<and> ram_of m' = (\<lambda>x. if unat (x - p) < 4096 * unat n then 0xcc else ram_of m x)"
proof -
  let ?pl = "the_pool user m"
  have pl: "wf_pool ?pl" using assms(1) by (rule the_pool_wf)
  then have bm: "wf_bitmap (used_map ?pl)" by (simp add: wf_pool_def)
  have pos: "0 < unat n" using assms(2) by (simp add: unat_gt_0)
  obtain i where i: "p = pool_page ?pl i" "i + unat n \<le> bit_cnt (used_map ?pl)" "{i..<i + unat n} \<subseteq> used_bits (used_map ?pl)"
    using page_run_indices [OF pl run pos] .
  then have ilt: "i < bit_cnt (used_map ?pl)" using pos by linarith
  note props = pool_page_props [OF pl ilt, folded i(1)]
  have mem: "p \<in> pool_pages ?pl" using ilt by (auto simp: i(1) pool_pages_def)
  have which: "(if page_from_pool (kernel_pool m) p then Inr False
        else if page_from_pool (user_pool m) p then Inr True else Inl Panic) = (Inr user :: bool res)"
    using mem assms(1) pool_pages_disjoint [OF assms(1)] props(1)
    by (auto simp: page_from_pool_iff wf_kmem_def the_pool_def split: if_splits)
  have idx: "unat (pg_no p - pg_no (pool_base ?pl)) = i"
    using pg_no_pool_page [OF pl ilt] by (simp add: i(1) unat_sub word_le_nat_alt)
  have sz: "unat (of_nat PGSIZE * n) = 4096 * unat n"
    using page_run_bytes [OF pl i(2)] pos by simp
  have le: "4096 * unat n \<le> 4294967296" using sz unat_lt32 [of "of_nat PGSIZE * n"] by linarith
  obtain b where b: "bitmap_set_multiple (used_map ?pl) i (unat n) False = Inr b" "wf_bitmap b"
    "bit_cnt b = bit_cnt (used_map ?pl)" "used_bits b = used_bits (used_map ?pl) - {i..<i + unat n}"
    using bits.release_ok [OF bm i(3,2)] by blast
  have eq: "palloc_free_multiple p n m =
      Inr ((set_used_map user b m)\<lparr>ram_of := (\<lambda>x. if unat (x - p) < 4096 * unat n then 0xcc else ram_of m x)\<rparr>)"
    using assms(2) props(1,3) which idx b(1) bitmap_all_used [OF bm i(2,3)]
    by (simp add: palloc_free_multiple_def Let_def sz memset_fun [OF le] set_used_map_commute)
  have "used_pages (?pl\<lparr>used_map := b\<rparr>) = used_pages ?pl - page_run p (unat n)"
  proof -
    have "inj_on (pool_page ?pl) {..<bit_cnt (used_map ?pl)}"
      using pool_page_inj [OF pl] by (auto simp: inj_on_def)
    moreover have "used_bits (used_map ?pl) \<subseteq> {..<bit_cnt (used_map ?pl)}" "{i..<i + unat n} \<subseteq> {..<bit_cnt (used_map ?pl)}"
      using i(2) by (auto dest: used_bits_lt)
    ultimately show ?thesis unfolding used_pages_def i(1) page_run_pool
      by (simp add: b(4)) (rule inj_on_image_set_diff; blast)
  qed
  then show ?thesis using eq b wf_set_used_map [OF assms(1) b(2,3)] by simp
qed

section \<open>Initialisation\<close>

lemma bitmap_create_in_buf_spec:
  assumes "length junk = elem_cnt n" and "n < SIZE_MAX" and "bitmap_buf_size n \<le> sz"
  shows "\<exists>b. bitmap_create_in_buf n junk sz = Inr b \<and> wf_bitmap b \<and> bit_cnt b = n \<and> used_bits b = {}"
proof -
  let ?j = "\<lparr>bit_cnt = n, bits = junk\<rparr>"
  have "in_range ?j 0 n" using assms by (simp add: in_range_def wf_bitmap_def)
  from used_bits_set_multiple [OF this, of False] obtain b where
    "bitmap_set_multiple ?j 0 n False = Inr b" "wf_bitmap b" "bit_cnt b = n" "used_bits b = used_bits ?j - {0..<n}" by auto
  moreover have "used_bits ?j \<subseteq> {0..<n}" by (auto simp: used_bits_def)
  ultimately show ?thesis using assms(3) by (simp add: bitmap_create_in_buf_def bitmap_set_all_def bitmap_size_def)
qed

text \<open>The number of pages the bitmap of a pool of \<open>n\<close> pages takes.\<close>

definition bm_pages :: "nat \<Rightarrow> nat" where
  "bm_pages n = DIV_ROUND_UP (bitmap_buf_size n) PGSIZE"

lemma elem_cnt_le: "elem_cnt n \<le> n"
  by (simp add: elem_cnt_def ELEM_BITS_def DIV_ROUND_UP_le_iff)

lemma elem_cnt_mono: "m \<le> n \<Longrightarrow> elem_cnt m \<le> elem_cnt n"
  by (simp add: elem_cnt_def DIV_ROUND_UP_def div_le_mono)

lemma bm_pages_le: "0 < n \<Longrightarrow> bm_pages n \<le> n"
  using elem_cnt_le [of n] by (simp add: bm_pages_def DIV_ROUND_UP_le_iff PGSIZE_def bitmap_buf_size_def byte_cnt_def)

lemma bm_pages_enough: "bitmap_buf_size n \<le> bm_pages n * PGSIZE"
  using DIV_ROUND_UP_le_iff [of PGSIZE "bitmap_buf_size n" "bm_pages n"] by (simp add: bm_pages_def PGSIZE_def)

lemma init_pool_spec:
  assumes "0 < unat n" and "aligned bs" and "PHYS_BASE \<le> bs" and fits: "unat bs + 4096 * unat n < 4294967296"
  shows "\<exists>pl. init_pool r bs n = Inr pl \<and> wf_pool pl \<and> used_pages pl = {}
     \<and> bit_cnt (used_map pl) = unat n - bm_pages (unat n)
     \<and> unat (pool_base pl) = unat bs + 4096 * bm_pages (unat n)
     \<and> pool_end pl = unat bs + 4096 * unat n"
proof -
  let ?k = "bm_pages (unat n)" and ?c = "unat n - bm_pages (unat n)"
  have k: "?k \<le> unat n" using bm_pages_le assms(1) .
  have big: "3221225472 \<le> unat bs" using assms(3) by (simp add: word_le_nat_alt unat_PHYS_BASE)
  have "bitmap_buf_size ?c \<le> ?k * PGSIZE"
    using elem_cnt_mono [of ?c "unat n"] bm_pages_enough [of "unat n"] by (simp add: bitmap_buf_size_def byte_cnt_def)
  moreover have "?c < SIZE_MAX" using fits big by (simp add: SIZE_MAX_def)
  ultimately obtain b where b: "bitmap_create_in_buf ?c (map (\<lambda>i. load32 r (bs + 8 + 4 * of_nat i)) [0..<elem_cnt ?c]) (?k * PGSIZE) = Inr b"
    "wf_bitmap b" "bit_cnt b = ?c" "used_bits b = {}"
    using bitmap_create_in_buf_spec [of "map (\<lambda>i. load32 r (bs + 8 + 4 * of_nat i)) [0..<elem_cnt ?c]" ?c "?k * PGSIZE"] by auto
  let ?pl = "\<lparr>used_map = b, pool_base = bs + of_nat (?k * PGSIZE)\<rparr>"
  have eq: "init_pool r bs n = Inr ?pl" using k b(1) by (simp add: init_pool_def Let_def flip: bm_pages_def)
  have ofs: "unat (of_nat (?k * PGSIZE) :: 32 word) = 4096 * ?k"
    using k fits big by (subst unat_of_nat) (simp add: PGSIZE_def)
  have base: "unat (pool_base ?pl) = unat bs + 4096 * ?k"
    using ofs k fits by (simp add: unat_word_ariths)
  then have "aligned (pool_base ?pl)" using assms(2) by (simp add: aligned_iff)
  moreover have "pool_end ?pl = unat bs + 4096 * unat n"
    unfolding pool_end_def base using b(3) k by (simp flip: distrib_left)
  ultimately show ?thesis
    using eq b base big fits by (simp add: wf_pool_def word_le_nat_alt unat_PHYS_BASE used_pages_def)
qed

lemma palloc_init_split:
  assumes "unat (init_ram_pages m) < 262144" and "256 \<le> unat (init_ram_pages m)"
  shows "palloc_init limit m =
    (let free = unat (init_ram_pages m) - 256;
         user = min (free div 2) (unat limit)
     in bind_res (init_pool (ram_of m) 0xc0100000 (of_nat (free - user))) (\<lambda>kp.
        bind_res (init_pool (ram_of m) (0xc0100000 + of_nat (free - user) * 4096) (of_nat user)) (\<lambda>up.
        Inr (m\<lparr>kernel_pool := kp, user_pool := up\<rparr>))))"
proof -
  let ?R = "unat (init_ram_pages m)" and ?P = "init_ram_pages m"
  have bytes: "unat (?P * 4096) = ?R * 4096" using assms(1) by (simp add: unat_word_ariths)
  have start: "ptov (1024 * 1024) = Inr 0xc0100000" by (simp add: ptov_def PHYS_BASE_def)
  have fin: "ptov (?P * 4096) = Inr (?P * 4096 + 0xc0000000)"
    using assms(1) bytes by (simp add: ptov_def PHYS_BASE_def word_less_nat_alt)
  have "of_nat (?R * 4096 - 0x100000) = (of_nat (?R * 4096) - of_nat 0x100000 :: 32 word)"
    using assms(2) by (intro of_nat_diff) simp
  then have diff: "?P * 4096 + 0xc0000000 - 0xc0100000 = of_nat (?R * 4096 - 0x100000)"
    by (simp add: algebra_simps)
  have sint_small: "sint (of_nat k :: 32 word) = int k" if "k < 2147483648" for k
    using that int_word_sint [of "int k", where ?'a = 32] by simp
  have fp: "word_of_int (cdiv (sint (?P * 4096 + 0xc0000000 - 0xc0100000)) (int PGSIZE)) = (of_nat (?R - 256) :: 32 word)"
  proof -
    have "?R * 4096 - 0x100000 = (?R - 256) * 4096" using assms(2) by simp
    moreover have "(?R - 256) * 4096 < 2147483648" using assms(1) by simp
    ultimately have "sint (?P * 4096 + 0xc0000000 - 0xc0100000) = int (?R - 256) * 4096"
      unfolding diff using sint_small by (metis of_nat_mult of_nat_numeral)
    then show ?thesis by (simp add: cdiv_nonneg PGSIZE_def)
  qed
  let ?F = "?R - 256"
  have F: "unat (of_nat ?F :: 32 word) = ?F" using assms(1) by (simp add: unat_of_nat)
  have half: "unat (of_nat ?F div 2 :: 32 word) = ?F div 2" using F by (simp add: unat_div)
  have user: "(if of_nat ?F div 2 > limit then limit else of_nat ?F div 2) = (of_nat (min (?F div 2) (unat limit)) :: 32 word)"
  proof (cases "?F div 2 \<le> unat limit")
    case True
    then have "of_nat (min (?F div 2) (unat limit)) = (of_nat ?F div 2 :: 32 word)"
      using half assms(1) by (subst word_unat_eq_iff) (simp add: unat_of_nat min_absorb1 del: of_nat_diff)
    then show ?thesis using half True by (simp add: word_less_nat_alt)
  next
    case False
    then show ?thesis using half by (simp add: word_less_nat_alt min_def)
  qed
  have kern: "of_nat ?F - of_nat (min (?F div 2) (unat limit)) = (of_nat (?F - min (?F div 2) (unat limit)) :: 32 word)"
    by (rule of_nat_diff [symmetric]) auto
  have pg: "of_nat PGSIZE = (4096 :: 32 word)" by (simp add: PGSIZE_def)
  show ?thesis
    unfolding palloc_init_def pg start fin bind_res.simps Let_def fp user kern by (rule refl)
qed

lemma palloc_init_spec:
  assumes "258 \<le> unat (init_ram_pages m)" and "unat (init_ram_pages m) < 262144" and "0 < limit"
  shows "\<exists>m'. palloc_init limit m = Inr m' \<and> wf_kmem m'
     \<and> used_pages (kernel_pool m') = {} \<and> used_pages (user_pool m') = {}
     \<and> ram_of m' = ram_of m \<and> init_ram_pages m' = init_ram_pages m
     \<and> 0x100000 + unat PHYS_BASE \<le> unat (pool_base (kernel_pool m'))
     \<and> bit_cnt (used_map (user_pool m')) \<le> unat limit"
proof -
  define F u k where "F = unat (init_ram_pages m) - 256" and "u = min (F div 2) (unat limit)" and "k = F - u"
  have lim: "0 < unat limit" using assms(3) by (simp add: word_less_nat_alt)
  have u: "0 < u" "0 < k" "u + k = F" "u \<le> unat limit" using assms(1) lim by (auto simp: F_def u_def k_def min_def)
  have F: "F < 261888" "unat (init_ram_pages m) = 256 + F" using assms(1,2) by (simp_all add: F_def)
  have un: "unat (of_nat u :: 32 word) = u" "unat (of_nat k :: 32 word) = k"
    using F u(3) by (simp_all add: unat_of_nat)
  have ub: "unat (0xc0100000 + of_nat k * 4096 :: 32 word) = 0xc0100000 + k * 4096"
  proof -
    have "unat (of_nat k * 4096 :: 32 word) = k * 4096" using un(2) F u(3) by (simp add: unat_word_ariths)
    then show ?thesis using F u(3) by (simp add: unat_word_ariths)
  qed
  obtain kp where kp: "init_pool (ram_of m) 0xc0100000 (of_nat k) = Inr kp" "wf_pool kp" "used_pages kp = {}"
    "unat (pool_base kp) = 0xc0100000 + 4096 * bm_pages k" "pool_end kp = 0xc0100000 + 4096 * k"
    using init_pool_spec [of "of_nat k" "0xc0100000" "ram_of m"] un(2) u F
    by (auto simp: aligned_iff word_le_nat_alt unat_PHYS_BASE)
  obtain up where up: "init_pool (ram_of m) (0xc0100000 + of_nat k * 4096) (of_nat u) = Inr up" "wf_pool up" "used_pages up = {}"
    "bit_cnt (used_map up) = u - bm_pages u"
    "unat (pool_base up) = 0xc0100000 + k * 4096 + 4096 * bm_pages u" "pool_end up = 0xc0100000 + k * 4096 + 4096 * u"
    using init_pool_spec [of "of_nat u" "0xc0100000 + of_nat k * 4096" "ram_of m"] un(1) ub u F
    by (auto simp: aligned_iff word_le_nat_alt unat_PHYS_BASE)
  have "palloc_init limit m = Inr (m\<lparr>kernel_pool := kp, user_pool := up\<rparr>)"
    using palloc_init_split [of m limit, unfolded Let_def, folded F_def, folded u_def, folded k_def] assms(1,2) kp(1) up(1)
    by simp
  then show ?thesis using kp up u(3,4) F(2) by (simp add: wf_kmem_def unat_PHYS_BASE)
qed

section \<open>Single pages\<close>

lemma page_run_1 [simp]: "page_run p (Suc 0) = {p}"
  by (auto simp: page_run_def)

lemma pool_pages_kernel: "wf_pool pl \<Longrightarrow> p \<in> pool_pages pl \<Longrightarrow> PHYS_BASE \<le> p"
  using pool_page_props(2) by (auto simp: pool_pages_def)

lemma palloc_get_page_spec:
  assumes "wf_kmem m" and "flags AND PAL_ASSERT = 0" and "user = (flags AND PAL_USER \<noteq> 0)"
  shows "\<exists>p m'. palloc_get_page flags m = Inr (p, m') \<and> wf_kmem m' \<and> the_pool (\<not> user) m' = the_pool (\<not> user) m
    \<and> pool_base (the_pool user m') = pool_base (the_pool user m)
    \<and> bit_cnt (used_map (the_pool user m')) = bit_cnt (used_map (the_pool user m))
    \<and> init_ram_pages m' = init_ram_pages m \<and> init_page_dir m' = init_page_dir m \<and> cr3 m' = cr3 m
    \<and> (if p = 0 then ram_of m' = ram_of m \<and> used_pages (the_pool user m') = used_pages (the_pool user m)
          \<and> used_pages (the_pool user m) = pool_pages (the_pool user m)
       else aligned p \<and> PHYS_BASE \<le> p \<and> p \<in> pool_pages (the_pool user m) \<and> p \<notin> used_pages (the_pool user m)
          \<and> used_pages (the_pool user m') = insert p (used_pages (the_pool user m))
          \<and> ram_of m' = (\<lambda>x. if flags AND PAL_ZERO \<noteq> 0 \<and> pg_round_down x = p then 0 else ram_of m x))"
proof -
  obtain p m' where r: "palloc_get_multiple flags 1 m = Inr (p, m')" "wf_kmem m'" "the_pool (\<not> user) m' = the_pool (\<not> user) m"
    "pool_base (the_pool user m') = pool_base (the_pool user m)"
    "bit_cnt (used_map (the_pool user m')) = bit_cnt (used_map (the_pool user m))"
    "init_ram_pages m' = init_ram_pages m" "init_page_dir m' = init_page_dir m" "cr3 m' = cr3 m"
    and c: "if p = 0 then ram_of m' = ram_of m \<and> used_pages (the_pool user m') = used_pages (the_pool user m)
          \<and> (\<forall>i. i + unat (1 :: 32 word) \<le> bit_cnt (used_map (the_pool user m)) \<longrightarrow>
               page_run (pool_page (the_pool user m) i) (unat (1 :: 32 word)) \<inter> used_pages (the_pool user m) \<noteq> {})
       else aligned p \<and> page_run p (unat (1 :: 32 word)) \<subseteq> pool_pages (the_pool user m)
          \<and> page_run p (unat (1 :: 32 word)) \<inter> used_pages (the_pool user m) = {}
          \<and> used_pages (the_pool user m') = used_pages (the_pool user m) \<union> page_run p (unat (1 :: 32 word))
          \<and> ram_of m' = (\<lambda>x. if flags AND PAL_ZERO \<noteq> 0 \<and> unat (x - p) < 4096 * unat (1 :: 32 word) then 0 else ram_of m x)"
    using palloc_get_multiple_spec [OF assms(1) one_neq_zero assms(2), folded assms(3)] by blast
  show ?thesis
  proof (cases "p = 0")
    case True
    then have "pool_pages (the_pool user m) \<subseteq> used_pages (the_pool user m)" using c by (auto simp: pool_pages_def)
    then show ?thesis using r c True used_pages_subset [of "the_pool user m"] by (auto simp: palloc_get_page_def)
  next
    case False
    then have "aligned p" and pp: "p \<in> pool_pages (the_pool user m)" using c by simp_all
    moreover have "PHYS_BASE \<le> p" using pp pool_pages_kernel the_pool_wf assms(1) by blast
    ultimately show ?thesis
      using r c False by (auto simp: palloc_get_page_def in_page_iff)
  qed
qed

lemma palloc_free_page_spec:
  assumes "wf_kmem m" and "p \<in> used_pages (the_pool user m)"
  shows "\<exists>m'. palloc_free_page p m = Inr m' \<and> wf_kmem m' \<and> the_pool (\<not> user) m' = the_pool (\<not> user) m
    \<and> pool_base (the_pool user m') = pool_base (the_pool user m)
    \<and> bit_cnt (used_map (the_pool user m')) = bit_cnt (used_map (the_pool user m))
    \<and> init_ram_pages m' = init_ram_pages m \<and> init_page_dir m' = init_page_dir m \<and> cr3 m' = cr3 m
    \<and> used_pages (the_pool user m') = used_pages (the_pool user m) - {p}
    \<and> ram_of m' = (\<lambda>x. if pg_round_down x = p then 0xcc else ram_of m x)"
proof -
  have "p \<in> pool_pages (the_pool user m)" using assms(2) used_pages_subset by blast
  then have al: "aligned p" using the_pool_wf [OF assms(1)] pool_page_props(1) by (auto simp: pool_pages_def)
  have run: "page_run p (unat (1 :: 32 word)) \<subseteq> used_pages (the_pool user m)" using assms(2) by simp
  show ?thesis
    using palloc_free_multiple_spec [OF assms(1) one_neq_zero run] by (auto simp: palloc_free_page_def in_page_iff [OF al])
qed

section \<open>Properties\<close>

definition demo_kmem :: kmem where
  "demo_kmem = \<lparr>ram_of = (\<lambda>_. 7),
     kernel_pool = \<lparr>used_map = \<lparr>bit_cnt = 8, bits = [0]\<rparr>, pool_base = 0xc0101000\<rparr>,
     user_pool = \<lparr>used_map = \<lparr>bit_cnt = 8, bits = [0x05]\<rparr>, pool_base = 0xc0200000\<rparr>,
     init_ram_pages = 1024, init_page_dir = 0xc0008000, cr3 = 0x8000\<rparr>"

lemma wf_demo_kmem: "wf_kmem demo_kmem"
  by (simp add: wf_kmem_def wf_pool_def pool_end_def demo_kmem_def wf_bitmap_def elem_cnt_def ELEM_BITS_def
      DIV_ROUND_UP_def SIZE_MAX_def aligned_iff unat_PHYS_BASE word_le_nat_alt)

text \<open>
  C17. \<^verbatim>\<open>palloc_get_multiple\<close> without \<^verbatim>\<open>PAL_ASSERT\<close> always returns and keeps the
  allocator well formed. A null result means that every run of that many pages of the chosen pool
  meets a page in use, and nothing has changed. Any other result is the aligned start of a run of
  pages of the chosen pool none of which was in use; exactly these pages are now in use as well,
  and with \<^verbatim>\<open>PAL_ZERO\<close> exactly their bytes are cleared.
\<close>

theorem palloc_get_multiple_fresh:
  assumes "wf_kmem m" and "n \<noteq> 0" and "flags AND PAL_ASSERT = 0" and "user = (flags AND PAL_USER \<noteq> 0)"
  shows "\<exists>p m'. palloc_get_multiple flags n m = Inr (p, m') \<and> wf_kmem m'
    \<and> the_pool (\<not> user) m' = the_pool (\<not> user) m
    \<and> (if p = 0 then ram_of m' = ram_of m \<and> used_pages (the_pool user m') = used_pages (the_pool user m)
          \<and> (\<forall>i. i + unat n \<le> bit_cnt (used_map (the_pool user m)) \<longrightarrow>
               page_run (pool_page (the_pool user m) i) (unat n) \<inter> used_pages (the_pool user m) \<noteq> {})
       else aligned p \<and> page_run p (unat n) \<subseteq> pool_pages (the_pool user m)
          \<and> page_run p (unat n) \<inter> used_pages (the_pool user m) = {}
          \<and> used_pages (the_pool user m') = used_pages (the_pool user m) \<union> page_run p (unat n)
          \<and> ram_of m' = (\<lambda>x. if flags AND PAL_ZERO \<noteq> 0 \<and> unat (x - p) < 4096 * unat n then 0 else ram_of m x))"
  using palloc_get_multiple_spec [OF assms(1-3)] unfolding assms(4) by blast

theorem palloc_get_multiple_fresh_witness:
  "\<exists>p m'. palloc_get_multiple (PAL_USER OR PAL_ZERO) 2 demo_kmem = Inr (p, m') \<and> wf_kmem m'
    \<and> the_pool False m' = the_pool False demo_kmem"
proof -
  have "(2 :: 32 word) \<noteq> 0" "(PAL_USER OR PAL_ZERO) AND PAL_ASSERT = 0" "True = ((PAL_USER OR PAL_ZERO) AND PAL_USER \<noteq> 0)"
    by (simp_all add: PAL_USER_def PAL_ZERO_def PAL_ASSERT_def)
  from palloc_get_multiple_fresh [OF wf_demo_kmem this] show ?thesis by auto
qed

text \<open>
  C33. Pages obtained from \<^verbatim>\<open>palloc_get_multiple\<close> can be given back:
  \<^verbatim>\<open>palloc_free_multiple\<close> passes its assertions, finds the pool they came from and leaves in
  use exactly the pages that were in use before the allocation, in both pools.
\<close>

theorem palloc_free_after_get:
  assumes "wf_kmem m" and "flags AND PAL_ASSERT = 0" and "palloc_get_multiple flags n m = Inr (p, m')" and "p \<noteq> 0"
  shows "\<exists>m''. palloc_free_multiple p n m' = Inr m'' \<and> wf_kmem m''
    \<and> (\<forall>user. used_pages (the_pool user m'') = used_pages (the_pool user m))"
proof -
  define u where "u = (flags AND PAL_USER \<noteq> 0)"
  have n: "n \<noteq> 0" using assms(3,4) by (auto simp: palloc_get_multiple_def)
  have got: "wf_kmem m'" "the_pool (\<not> u) m' = the_pool (\<not> u) m"
    "used_pages (the_pool u m') = used_pages (the_pool u m) \<union> page_run p (unat n)"
    "page_run p (unat n) \<inter> used_pages (the_pool u m) = {}"
    using palloc_get_multiple_spec [OF assms(1) n assms(2)] assms(3,4) by (auto simp: u_def)
  obtain m'' where m'': "palloc_free_multiple p n m' = Inr m''" "wf_kmem m''" "the_pool (\<not> u) m'' = the_pool (\<not> u) m'"
    "used_pages (the_pool u m'') = used_pages (the_pool u m') - page_run p (unat n)"
    using palloc_free_multiple_spec [OF got(1) n, of p u] got(3) by auto
  have "used_pages (the_pool v m'') = used_pages (the_pool v m)" for v
  proof (cases "v = u")
    case True
    then show ?thesis using m''(4) got(3,4) by auto
  next
    case False
    then have "v = (\<not> u)" by auto
    then show ?thesis using m''(3) got(2) by simp
  qed
  then show ?thesis using m''(1,2) by blast
qed

theorem palloc_free_after_get_witness:
  "\<exists>p m' m''. palloc_get_multiple PAL_USER 1 demo_kmem = Inr (p, m') \<and> palloc_free_multiple p 1 m' = Inr m''
    \<and> used_pages (user_pool m'') = used_pages (user_pool demo_kmem)"
proof -
  have fl: "PAL_USER AND PAL_ASSERT = 0" by (simp add: PAL_USER_def PAL_ASSERT_def)
  have "\<exists>m'. palloc_get_multiple PAL_USER 1 demo_kmem = Inr (0xc0201000, m')"
    by (simp add: palloc_get_multiple_def PAL_USER_def PAL_ZERO_def PAL_ASSERT_def the_pool_def demo_kmem_def PGSIZE_def
        bitmap_scan_and_flip_def bitmap_scan_def scan_loop.simps bitmap_contains_def BITMAP_ERROR_def SIZE_MAX_def
        size_add_def bitmap_test_def elem_idx_def bit_mask_def ELEM_BITS_def bitmap_set_multiple_def bitmap_set_def
        bitmap_mark_def upd_elem_def set_used_map_def Let_def)
  then obtain m' where m': "palloc_get_multiple PAL_USER 1 demo_kmem = Inr (0xc0201000, m')" by blast
  from palloc_free_after_get [OF wf_demo_kmem fl m'] obtain m'' where
    "palloc_free_multiple 0xc0201000 1 m' = Inr m''" "\<forall>user. used_pages (the_pool user m'') = used_pages (the_pool user demo_kmem)"
    by auto
  moreover from this(2) have "used_pages (user_pool m'') = used_pages (user_pool demo_kmem)"
    by (metis the_pool_def)
  ultimately show ?thesis using m' by blast
qed

text \<open>
  On a machine with at least 258 pages and less than 1 GB of memory, and a user limit of at
  least one page, \<^verbatim>\<open>palloc_init\<close> succeeds: it establishes the invariant of the allocator (two
  disjoint pools of whole pages above the first megabyte and inside the installed memory), no page
  is in use, and the user pool does not exceed the limit.
\<close>

theorem palloc_init_establishes:
  assumes "258 \<le> unat (init_ram_pages m)" and "unat (init_ram_pages m) < 262144" and "0 < limit"
  shows "\<exists>m'. palloc_init limit m = Inr m' \<and> wf_kmem m'
     \<and> used_pages (kernel_pool m') = {} \<and> used_pages (user_pool m') = {}
     \<and> 0x100000 + unat PHYS_BASE \<le> unat (pool_base (kernel_pool m'))
     \<and> bit_cnt (used_map (user_pool m')) \<le> unat limit"
  using palloc_init_spec [OF assms] by blast

theorem palloc_init_establishes_witness:
  "\<exists>m'. palloc_init 100 demo_kmem = Inr m' \<and> wf_kmem m'"
proof -
  have "258 \<le> unat (init_ram_pages demo_kmem)" "unat (init_ram_pages demo_kmem) < 262144" "0 < (100 :: 32 word)"
    by (simp_all add: demo_kmem_def)
  from palloc_init_establishes [OF this] show ?thesis by blast
qed

end
