(* ===== verification/Pagedir.thy ===== *)
theory Pagedir
  imports Palloc
begin

unbundle bit_operations_syntax

text \<open>
  Page directories, userprog/pagedir.c: the two-level tables the processor walks, held in pages of
  the kernel pool and read and written word by word. The abstract view of a directory is the map
  from user pages to page table entries; each operation is shown to implement its effect on that
  map, to leave every other allocated page of memory alone and so to leave the directories of
  other processes alone. The translation lookaside buffer is not part of the state: writing the
  base register again, which empties it, leaves \<open>cr3\<close> as it is.
\<close>

section \<open>Model\<close>

definition pagedir_create :: "kmem \<Rightarrow> (vaddr \<times> kmem) res" where
  "pagedir_create m =
     bind_res (palloc_get_page 0 m) (\<lambda>(pd, m).
     Inr (pd, if pd \<noteq> 0
       then m\<lparr>ram_of := put_bytes (ram_of m) pd (get_bytes (ram_of m) (init_page_dir m) PGSIZE)\<rparr> else m))"

text \<open>The loop over the entries of one page table: \<open>k\<close> entries are left, from index \<open>i\<close> on.\<close>

fun destroy_pt :: "vaddr \<Rightarrow> 32 word \<Rightarrow> nat \<Rightarrow> kmem \<Rightarrow> kmem res" where
  "destroy_pt pt i 0 m = Inr m"
| "destroy_pt pt i (Suc k) m =
     (let pte = load32 (ram_of m) (entry_addr pt i) in
      bind_res (if pte AND PTE_P \<noteq> 0
                then bind_res (pte_get_page pte) (\<lambda>page. palloc_free_page page m) else Inr m) (\<lambda>m.
      destroy_pt pt (i + 1) k m))"

fun destroy_pd :: "vaddr \<Rightarrow> 32 word \<Rightarrow> nat \<Rightarrow> kmem \<Rightarrow> kmem res" where
  "destroy_pd pd i 0 m = Inr m"
| "destroy_pd pd i (Suc k) m =
     (let pde = load32 (ram_of m) (entry_addr pd i) in
      bind_res (if pde AND PTE_P \<noteq> 0
                then bind_res (pde_get_pt pde) (\<lambda>pt.
                     bind_res (destroy_pt pt 0 (PGSIZE div 4) m) (\<lambda>m. palloc_free_page pt m))
                else Inr m) (\<lambda>m.
      destroy_pd pd (i + 1) k m))"

definition pagedir_destroy :: "vaddr \<Rightarrow> kmem \<Rightarrow> kmem res" where
  "pagedir_destroy pd m =
     (if pd = 0 then Inr m
      else bind_res (assert_res (pd \<noteq> init_page_dir m)) (\<lambda>_.
           bind_res (destroy_pd pd 0 (unat (pd_no PHYS_BASE)) m) (\<lambda>m. palloc_free_page pd m)))"

text \<open>The address of the page table entry, or null.\<close>

definition lookup_page :: "vaddr \<Rightarrow> vaddr \<Rightarrow> bool \<Rightarrow> kmem \<Rightarrow> (vaddr \<times> kmem) res" where
  "lookup_page pd va create m =
     bind_res (assert_res (pd \<noteq> 0)) (\<lambda>_.
     bind_res (assert_res (\<not> create \<or> is_user_vaddr va)) (\<lambda>_.
     let pde = entry_addr pd (pd_no va) in
     bind_res (if load32 (ram_of m) pde = 0
               then if create
                    then bind_res (palloc_get_page PAL_ZERO m) (\<lambda>(pt, m).
                         if pt = 0 then Inr (False, m)
                         else bind_res (pde_create pt) (\<lambda>e.
                              Inr (True, m\<lparr>ram_of := store32 (ram_of m) pde e\<rparr>)))
                    else Inr (False, m)
               else Inr (True, m)) (\<lambda>(present, m).
     if present
     then bind_res (pde_get_pt (load32 (ram_of m) pde)) (\<lambda>pt. Inr (entry_addr pt (pt_no va), m))
     else Inr (0, m))))"

definition pagedir_set_page :: "vaddr \<Rightarrow> vaddr \<Rightarrow> vaddr \<Rightarrow> bool \<Rightarrow> kmem \<Rightarrow> (bool \<times> kmem) res" where
  "pagedir_set_page pd upage kpage writable m =
     bind_res (assert_res (pg_ofs upage = 0)) (\<lambda>_.
     bind_res (assert_res (pg_ofs kpage = 0)) (\<lambda>_.
     bind_res (assert_res (is_user_vaddr upage)) (\<lambda>_.
     bind_res (vtop kpage) (\<lambda>paddr.
     bind_res (assert_res (drop_bit PGBITS paddr < init_ram_pages m)) (\<lambda>_.
     bind_res (assert_res (pd \<noteq> init_page_dir m)) (\<lambda>_.
     bind_res (lookup_page pd upage True m) (\<lambda>(pte, m).
     if pte \<noteq> 0
     then bind_res (assert_res (load32 (ram_of m) pte AND PTE_P = 0)) (\<lambda>_.
          bind_res (pte_create_user kpage writable) (\<lambda>e.
          Inr (True, m\<lparr>ram_of := store32 (ram_of m) pte e\<rparr>)))
     else Inr (False, m))))))))"

definition pagedir_get_page :: "vaddr \<Rightarrow> vaddr \<Rightarrow> kmem \<Rightarrow> vaddr res" where
  "pagedir_get_page pd uaddr m =
     bind_res (assert_res (is_user_vaddr uaddr)) (\<lambda>_.
     bind_res (lookup_page pd uaddr False m) (\<lambda>(pte, m).
     if pte \<noteq> 0 \<and> load32 (ram_of m) pte AND PTE_P \<noteq> 0
     then bind_res (pte_get_page (load32 (ram_of m) pte)) (\<lambda>page. Inr (page + pg_ofs uaddr))
     else Inr 0))"

definition pagedir_activate :: "vaddr \<Rightarrow> kmem \<Rightarrow> kmem res" where
  "pagedir_activate pd m =
     (let pd = (if pd = 0 then init_page_dir m else pd) in
      bind_res (vtop pd) (\<lambda>p. Inr (m\<lparr>cr3 := p\<rparr>)))"

definition active_pd :: "kmem \<Rightarrow> vaddr res" where
  "active_pd m = ptov (cr3 m)"

definition invalidate_pagedir :: "vaddr \<Rightarrow> kmem \<Rightarrow> kmem res" where
  "invalidate_pagedir pd m =
     bind_res (active_pd m) (\<lambda>a. if a = pd then pagedir_activate pd m else Inr m)"

definition pagedir_clear_page :: "vaddr \<Rightarrow> vaddr \<Rightarrow> kmem \<Rightarrow> kmem res" where
  "pagedir_clear_page pd upage m =
     bind_res (assert_res (pg_ofs upage = 0)) (\<lambda>_.
     bind_res (assert_res (is_user_vaddr upage)) (\<lambda>_.
     bind_res (lookup_page pd upage False m) (\<lambda>(pte, m).
     if pte \<noteq> 0 \<and> load32 (ram_of m) pte AND PTE_P \<noteq> 0
     then invalidate_pagedir pd (m\<lparr>ram_of := store32 (ram_of m) pte (load32 (ram_of m) pte AND NOT PTE_P)\<rparr>)
     else Inr m)))"

definition pagedir_is_dirty :: "vaddr \<Rightarrow> vaddr \<Rightarrow> kmem \<Rightarrow> bool res" where
  "pagedir_is_dirty pd vpage m =
     bind_res (lookup_page pd vpage False m) (\<lambda>(pte, m).
     Inr (pte \<noteq> 0 \<and> load32 (ram_of m) pte AND PTE_D \<noteq> 0))"

definition pagedir_set_dirty :: "vaddr \<Rightarrow> vaddr \<Rightarrow> bool \<Rightarrow> kmem \<Rightarrow> kmem res" where
  "pagedir_set_dirty pd vpage dirty m =
     bind_res (lookup_page pd vpage False m) (\<lambda>(pte, m).
     if pte \<noteq> 0
     then if dirty
          then Inr (m\<lparr>ram_of := store32 (ram_of m) pte (load32 (ram_of m) pte OR PTE_D)\<rparr>)
          else invalidate_pagedir pd (m\<lparr>ram_of := store32 (ram_of m) pte (load32 (ram_of m) pte AND NOT PTE_D)\<rparr>)
     else Inr m)"

definition pagedir_is_accessed :: "vaddr \<Rightarrow> vaddr \<Rightarrow> kmem \<Rightarrow> bool res" where
  "pagedir_is_accessed pd vpage m =
     bind_res (lookup_page pd vpage False m) (\<lambda>(pte, m).
     Inr (pte \<noteq> 0 \<and> load32 (ram_of m) pte AND PTE_A \<noteq> 0))"

definition pagedir_set_accessed :: "vaddr \<Rightarrow> vaddr \<Rightarrow> bool \<Rightarrow> kmem \<Rightarrow> kmem res" where
  "pagedir_set_accessed pd vpage accessed m =
     bind_res (lookup_page pd vpage False m) (\<lambda>(pte, m).
     if pte \<noteq> 0
     then if accessed
          then Inr (m\<lparr>ram_of := store32 (ram_of m) pte (load32 (ram_of m) pte OR PTE_A)\<rparr>)
          else invalidate_pagedir pd (m\<lparr>ram_of := store32 (ram_of m) pte (load32 (ram_of m) pte AND NOT PTE_A)\<rparr>)
     else Inr m)"

section \<open>The tables of a directory\<close>

definition pde_at :: "kmem \<Rightarrow> vaddr \<Rightarrow> 32 word \<Rightarrow> 32 word" where
  "pde_at m pd i = load32 (ram_of m) (entry_addr pd i)"

definition pt_at :: "kmem \<Rightarrow> vaddr \<Rightarrow> 32 word \<Rightarrow> vaddr" where
  "pt_at m pd i = (pde_at m pd i AND PTE_ADDR) + PHYS_BASE"

text \<open>The page table entry of an address; 0 when its table is missing.\<close>

definition pte_of :: "kmem \<Rightarrow> vaddr \<Rightarrow> vaddr \<Rightarrow> 32 word" where
  "pte_of m pd va =
     (if pde_at m pd (pd_no va) = 0 then 0
      else load32 (ram_of m) (entry_addr (pt_at m pd (pd_no va)) (pt_no va)))"

abbreviation kernel_used :: "kmem \<Rightarrow> vaddr set" where
  "kernel_used m \<equiv> used_pages (kernel_pool m)"

definition pt_ok :: "kmem \<Rightarrow> vaddr \<Rightarrow> 32 word \<Rightarrow> bool" where
  "pt_ok m pd i \<longleftrightarrow> pde_at m pd i AND PTE_P \<noteq> 0 \<and> pde_at m pd i AND PTE_ADDR < PHYS_BASE
     \<and> pt_at m pd i \<in> kernel_used m \<and> pt_at m pd i \<noteq> pd"

definition wf_pd :: "kmem \<Rightarrow> vaddr \<Rightarrow> bool" where
  "wf_pd m pd \<longleftrightarrow> wf_kmem m \<and> pd \<in> kernel_used m
     \<and> (\<forall>i. unat i < 768 \<longrightarrow> pde_at m pd i \<noteq> 0 \<longrightarrow> pt_ok m pd i)
     \<and> (\<forall>i j. unat i < 768 \<longrightarrow> unat j < 768 \<longrightarrow> pde_at m pd i \<noteq> 0 \<longrightarrow> pde_at m pd j \<noteq> 0 \<longrightarrow>
          pt_at m pd i = pt_at m pd j \<longrightarrow> i = j)"

definition pd_pages :: "kmem \<Rightarrow> vaddr \<Rightarrow> vaddr set" where
  "pd_pages m pd = insert pd (pt_at m pd ` {i. unat i < 768 \<and> pde_at m pd i \<noteq> 0})"

text \<open>Two memories agree on a set of pages.\<close>

definition same_pages :: "vaddr set \<Rightarrow> kmem \<Rightarrow> kmem \<Rightarrow> bool" where
  "same_pages P m m' \<longleftrightarrow> (\<forall>x. pg_round_down x \<in> P \<longrightarrow> ram_of m' x = ram_of m x)"

lemma used_page_props:
  assumes "wf_pool pl" and "p \<in> used_pages pl"
  shows "aligned p" and "PHYS_BASE \<le> p" and "p \<noteq> 0"
  using assms pool_page_props by (auto simp: used_pages_def dest: used_bits_lt)

lemma load32_cong:
  assumes "aligned p" and "unat i < 1024" and "\<And>x. pg_round_down x = p \<Longrightarrow> r x = r' x"
  shows "load32 r (entry_addr p i) = load32 r' (entry_addr p i)"
proof -
  have "r (entry_addr p i + k) = r' (entry_addr p i + k)" if "unat k < 4" for k
  proof -
    have "pg_round_down (p + (4 * i + k)) = p"
      using assms(1,2) that by (intro pg_round_down_page_plus) (simp_all add: entry_byte)
    then show ?thesis using assms(3) by (simp add: entry_addr_def add.assoc)
  qed
  from this [of 0] this [of 1] this [of 2] this [of 3] show ?thesis by (simp add: load32_def)
qed

lemma load32_same_pages:
  "same_pages P m m' \<Longrightarrow> p \<in> P \<Longrightarrow> aligned p \<Longrightarrow> unat i < 1024 \<Longrightarrow>
   load32 (ram_of m') (entry_addr p i) = load32 (ram_of m) (entry_addr p i)"
  by (rule load32_cong) (simp_all add: same_pages_def)

lemma store_same_pages:
  assumes "aligned p" and "unat i < 1024" and "p \<notin> P"
  shows "same_pages P m (m\<lparr>ram_of := store32 (ram_of m) (entry_addr p i) w\<rparr>)"
  unfolding same_pages_def
proof (intro allI impI)
  fix x assume "pg_round_down x \<in> P"
  then have "pg_round_down x \<noteq> p" using assms(3) by auto
  then have "store32 (ram_of m) (entry_addr p i) w (pg_round_down x + pg_ofs x) = ram_of m (pg_round_down x + pg_ofs x)"
    using assms(1,2) by (intro store_other_page) (simp_all add: unat_pg_ofs)
  then show "ram_of (m\<lparr>ram_of := store32 (ram_of m) (entry_addr p i) w\<rparr>) x = ram_of m x"
    by (simp add: round_down_plus_ofs)
qed

lemma same_pages_trans: "same_pages P m m' \<Longrightarrow> same_pages P m' m'' \<Longrightarrow> same_pages P m m''"
  by (simp add: same_pages_def)

lemma same_pages_mono: "same_pages P m m' \<Longrightarrow> Q \<subseteq> P \<Longrightarrow> same_pages Q m m'"
  by (auto simp: same_pages_def)

lemma wf_pd_facts:
  assumes "wf_pd m pd"
  shows "wf_kmem m" and "pd \<in> kernel_used m" and "aligned pd" and "pd \<noteq> 0"
    and "unat i < 768 \<Longrightarrow> pde_at m pd i \<noteq> 0 \<Longrightarrow> pt_ok m pd i"
    and "pd_pages m pd \<subseteq> kernel_used m"
  using assms used_page_props [of "kernel_pool m" pd]
  by (auto simp: wf_pd_def wf_kmem_def pd_pages_def pt_ok_def)

lemma pt_ok_facts:
  assumes "wf_pd m pd" and "pt_ok m pd i"
  shows "pde_get_pt (pde_at m pd i) = Inr (pt_at m pd i)" and "aligned (pt_at m pd i)" and "pt_at m pd i \<noteq> 0"
  using assms used_page_props [of "kernel_pool m" "pt_at m pd i"]
  by (auto simp: wf_pd_def wf_kmem_def pt_ok_def pde_get_pt_def ptov_def pt_at_def)

lemma entry_addr_nonzero:
  assumes "aligned p" and "PHYS_BASE \<le> p" and "unat i < 1024"
  shows "entry_addr p i \<noteq> 0"
proof -
  have i: "unat (4 * i) = 4 * unat i" using entry_byte [of i 0] assms(3) by simp
  then have "unat (entry_addr p i) = unat p + 4 * unat i"
    using assms(1,3) unat_page_plus [of p "4 * i"] by (simp add: entry_addr_def)
  moreover have "3221225472 \<le> unat p" using assms(2) by (simp add: word_le_nat_alt unat_PHYS_BASE)
  ultimately show ?thesis by (metis add_is_0 not_numeral_le_zero unat_0)
qed

lemma PTE_P_iff: "e AND PTE_P \<noteq> 0 \<longleftrightarrow> odd e"
  by (simp add: PTE_P_def and_one_eq flip: even_iff_mod_2_eq_zero)

lemma pte_of_pd_no: "pd_no va = pd_no vb \<Longrightarrow> pt_no va = pt_no vb \<Longrightarrow> pte_of m pd va = pte_of m pd vb"
  by (simp add: pte_of_def)

section \<open>What a directory depends on\<close>

lemma pde_at_same:
  assumes "wf_pd m pd" and "same_pages (pd_pages m pd) m m'" and "unat i < 1024"
  shows "pde_at m' pd i = pde_at m pd i" and "pt_at m' pd i = pt_at m pd i"
  using load32_same_pages [OF assms(2), of pd i] wf_pd_facts(3) [OF assms(1)] assms(3)
  by (simp_all add: pde_at_def pt_at_def pd_pages_def)

lemma wf_pd_same:
  assumes "wf_pd m pd" and "wf_kmem m'" and "pd_pages m pd \<subseteq> kernel_used m'" and "same_pages (pd_pages m pd) m m'"
  shows "wf_pd m' pd" and "pd_pages m' pd = pd_pages m pd" and "is_user_vaddr va \<Longrightarrow> pte_of m' pd va = pte_of m pd va"
proof -
  have e: "pde_at m' pd i = pde_at m pd i" "pt_at m' pd i = pt_at m pd i" if "unat i < 768" for i
    using pde_at_same [OF assms(1,4), of i] that by simp_all
  have ok: "pt_ok m' pd i" if "unat i < 768" "pde_at m pd i \<noteq> 0" for i
    using wf_pd_facts(5) [OF assms(1) that] e [OF that(1)] assms(3) that by (auto simp: pt_ok_def pd_pages_def)
  have inj: "i = j" if "unat i < 768" "unat j < 768" "pde_at m pd i \<noteq> 0" "pde_at m pd j \<noteq> 0" "pt_at m pd i = pt_at m pd j" for i j
    using assms(1) that unfolding wf_pd_def by blast
  have "pd \<in> kernel_used m'" using assms(3) by (simp add: pd_pages_def)
  then show "wf_pd m' pd" unfolding wf_pd_def using assms(2) e ok inj by simp
  show "pd_pages m' pd = pd_pages m pd" using e by (auto simp: pd_pages_def image_iff)
  show "pte_of m' pd va = pte_of m pd va" if "is_user_vaddr va"
  proof (cases "pde_at m pd (pd_no va) = 0")
    case True
    then show ?thesis using e(1) that by (simp add: pte_of_def pd_no_user)
  next
    case False
    then have u: "unat (pd_no va) < 768" using that by (simp add: pd_no_user)
    have "aligned (pt_at m pd (pd_no va))" using pt_ok_facts(2) wf_pd_facts(5) assms(1) u False by blast
    moreover have "pt_at m pd (pd_no va) \<in> pd_pages m pd" using u False by (auto simp: pd_pages_def)
    ultimately show ?thesis
      using e [OF u] load32_same_pages [OF assms(4) _ _ pt_no_lt] by (simp add: pte_of_def)
  qed
qed

lemma load32_zero: "(\<And>x. pg_round_down x = p \<Longrightarrow> r x = 0) \<Longrightarrow> aligned p \<Longrightarrow> unat i < 1024 \<Longrightarrow> load32 r (entry_addr p i) = 0"
  using load32_cong [of p i r "\<lambda>_. 0"] by (simp add: load32_def le_word32_def)

section \<open>Storing an entry\<close>

lemma store_pte:
  fixes e :: "32 word"
  assumes "wf_pd m pd" and "is_user_vaddr va" and "pde_at m pd (pd_no va) \<noteq> 0"
  defines "m' \<equiv> m\<lparr>ram_of := store32 (ram_of m) (entry_addr (pt_at m pd (pd_no va)) (pt_no va)) e\<rparr>"
  shows "wf_pd m' pd" and "pd_pages m' pd = pd_pages m pd"
    and "is_user_vaddr vb \<Longrightarrow> pte_of m' pd vb = (if pg_round_down vb = pg_round_down va then e else pte_of m pd vb)"
    and "same_pages (- pd_pages m pd) m m'"
proof -
  let ?pt = "pt_at m pd (pd_no va)"
  have u: "unat (pd_no va) < 768" using assms(2) by (simp add: pd_no_user)
  note ok = wf_pd_facts(5) [OF assms(1) u assms(3)]
  note al = pt_ok_facts(2) [OF assms(1) ok] and pda = wf_pd_facts(3) [OF assms(1)]
  have ne: "?pt \<noteq> pd" using ok by (simp add: pt_ok_def)
  have e1: "pde_at m' pd i = pde_at m pd i" if "unat i < 1024" for i
    using load_store_other [OF al pda pt_no_lt that] ne by (simp add: pde_at_def m'_def)
  then have e2: "pt_at m' pd i = pt_at m pd i" if "unat i < 1024" for i using that by (simp add: pt_at_def)
  have k: "kernel_pool m' = kernel_pool m" by (simp add: m'_def)
  have small: "unat i < 1024" if "unat i < 768" for i :: "32 word" using that by simp
  show "wf_pd m' pd" unfolding wf_pd_def pt_ok_def k using assms(1) e1 e2 small
    by (simp add: wf_pd_def pt_ok_def m'_def)
  show "pd_pages m' pd = pd_pages m pd" using e1 e2 small by (auto simp: pd_pages_def image_iff)
  have mem: "?pt \<in> pd_pages m pd" using u assms(3) by (auto simp: pd_pages_def)
  then show "same_pages (- pd_pages m pd) m m'" unfolding m'_def by (intro store_same_pages al pt_no_lt) simp
  assume vb: "is_user_vaddr vb"
  show "pte_of m' pd vb = (if pg_round_down vb = pg_round_down va then e else pte_of m pd vb)"
  proof (cases "pde_at m pd (pd_no vb) = 0")
    case True
    then have "pd_no vb \<noteq> pd_no va" using assms(3) by auto
    then show ?thesis using True e1 [OF pd_no_lt] by (simp add: pte_of_def same_page_iff)
  next
    case False
    have ub: "unat (pd_no vb) < 768" using vb by (simp add: pd_no_user)
    have alb: "aligned (pt_at m pd (pd_no vb))" using pt_ok_facts(2) wf_pd_facts(5) assms(1) ub False by blast
    have "pt_at m pd (pd_no vb) = ?pt \<longrightarrow> pd_no vb = pd_no va"
      using assms(1,3) u ub False unfolding wf_pd_def by blast
    then show ?thesis
      using False e1 [OF pd_no_lt] e2 [OF pd_no_lt] load_store_other [OF al alb pt_no_lt pt_no_lt]
      by (auto simp: pte_of_def same_page_iff m'_def)
  qed
qed

section \<open>Finding an entry\<close>

definition pte_addr :: "kmem \<Rightarrow> vaddr \<Rightarrow> vaddr \<Rightarrow> vaddr" where
  "pte_addr m pd va =
     (if pde_at m pd (pd_no va) = 0 then 0 else entry_addr (pt_at m pd (pd_no va)) (pt_no va))"

lemma pte_addr_zero_iff:
  assumes "wf_pd m pd" and "is_user_vaddr va"
  shows "pte_addr m pd va = 0 \<longleftrightarrow> pde_at m pd (pd_no va) = 0"
proof -
  have "entry_addr (pt_at m pd (pd_no va)) (pt_no va) \<noteq> 0" if ne: "pde_at m pd (pd_no va) \<noteq> 0"
  proof -
    have ok: "pt_ok m pd (pd_no va)" using wf_pd_facts(5) assms ne by (simp add: pd_no_user)
    then show ?thesis
      using used_page_props [of "kernel_pool m" "pt_at m pd (pd_no va)"] assms(1) pt_no_lt
      by (intro entry_addr_nonzero) (auto simp: pt_ok_def wf_pd_def wf_kmem_def)
  qed
  then show ?thesis by (simp add: pte_addr_def)
qed

lemma pte_of_addr: "pte_addr m pd va \<noteq> 0 \<Longrightarrow> pte_of m pd va = load32 (ram_of m) (pte_addr m pd va)"
  by (simp add: pte_addr_def pte_of_def split: if_splits)

lemma lookup_page_find:
  assumes "wf_pd m pd" and "is_user_vaddr va" and "create \<longrightarrow> pde_at m pd (pd_no va) \<noteq> 0"
  shows "lookup_page pd va create m = Inr (pte_addr m pd va, m)"
proof (cases "pde_at m pd (pd_no va) = 0")
  case True
  then show ?thesis
    using assms wf_pd_facts(4) [OF assms(1)] by (simp add: lookup_page_def pte_addr_def Let_def flip: pde_at_def)
next
  case False
  have "pt_ok m pd (pd_no va)" using wf_pd_facts(5) assms(1,2) False by (simp add: pd_no_user)
  then show ?thesis
    using assms False wf_pd_facts(4) [OF assms(1)] pt_ok_facts(1) [OF assms(1)]
    by (simp add: lookup_page_def pte_addr_def Let_def flip: pde_at_def)
qed

lemma new_pde:
  assumes "aligned pt" and "PHYS_BASE \<le> pt"
  shows "pde_create pt = Inr ((pt - PHYS_BASE) OR 7)"
    and "((pt - PHYS_BASE) OR 7) AND PTE_ADDR = pt - PHYS_BASE" and "pt - PHYS_BASE < PHYS_BASE"
    and "((pt - PHYS_BASE) OR 7) AND PTE_P \<noteq> 0"
proof -
  have "p OR PTE_U OR PTE_P OR PTE_W = p OR 7" for p
    by (simp add: PTE_U_def PTE_P_def PTE_W_def or.assoc)
  then show "pde_create pt = Inr ((pt - PHYS_BASE) OR 7)"
    using assms by (simp add: pde_create_def vtop_def is_kernel_vaddr_def)
  have "aligned (pt - PHYS_BASE)" using assms(1) by (rule aligned_minus) simp
  then show "((pt - PHYS_BASE) OR 7) AND PTE_ADDR = pt - PHYS_BASE"
    by (rule or_flags_address) (simp add: mask_eq_exp_minus_1)
  have "3221225472 \<le> unat pt" using assms(2) by (simp add: word_le_nat_alt unat_PHYS_BASE)
  then show "pt - PHYS_BASE < PHYS_BASE"
    using unat_lt32 [of pt] assms(2) by (simp add: word_less_nat_alt unat_sub unat_PHYS_BASE)
  show "((pt - PHYS_BASE) OR 7) AND PTE_P \<noteq> 0" by (simp add: PTE_P_iff even_or_iff)
qed

lemma palloc_get_page_kernel:
  assumes "wf_kmem m" and "flags = 0 \<or> flags = PAL_ZERO"
  shows "\<exists>p m'. palloc_get_page flags m = Inr (p, m') \<and> wf_kmem m' \<and> user_pool m' = user_pool m
    \<and> init_ram_pages m' = init_ram_pages m \<and> init_page_dir m' = init_page_dir m \<and> cr3 m' = cr3 m
    \<and> (if p = 0 then ram_of m' = ram_of m \<and> kernel_used m' = kernel_used m \<and> kernel_used m = pool_pages (kernel_pool m)
       else aligned p \<and> PHYS_BASE \<le> p \<and> p \<notin> kernel_used m \<and> p \<in> pool_pages (kernel_pool m)
         \<and> kernel_used m' = insert p (kernel_used m)
         \<and> same_pages (- {p}) m m' \<and> (flags = PAL_ZERO \<longrightarrow> (\<forall>x. pg_round_down x = p \<longrightarrow> ram_of m' x = 0)))"
proof -
  have fl: "flags AND PAL_ASSERT = 0" "False = (flags AND PAL_USER \<noteq> 0)"
    using assms(2) by (auto simp: PAL_ZERO_def PAL_ASSERT_def PAL_USER_def)
  show ?thesis
    using palloc_get_page_spec [OF assms(1) fl]
    by (auto simp: the_pool_def same_pages_def PAL_ZERO_def split: if_splits)
qed

text \<open>A new page table: its page is fresh, all its entries are 0, and the directory gains one entry.\<close>

lemma wf_pd_new_table:
  assumes "wf_pd m pd" and "is_user_vaddr va" and z: "pde_at m pd (pd_no va) = 0" and m1: "wf_kmem m1"
    and pt: "pt \<notin> kernel_used m" "aligned pt" "PHYS_BASE \<le> pt" and used: "kernel_used m1 = insert pt (kernel_used m)"
    and same: "same_pages (- {pt}) m m1" and zero: "\<forall>x. pg_round_down x = pt \<longrightarrow> ram_of m1 x = 0"
  defines "m' \<equiv> m1\<lparr>ram_of := store32 (ram_of m1) (entry_addr pd (pd_no va)) ((pt - PHYS_BASE) OR 7)\<rparr>"
  shows "wf_pd m' pd" and "pt_at m' pd (pd_no va) = pt" and "pde_at m' pd (pd_no va) = (pt - PHYS_BASE) OR 7"
    and "is_user_vaddr vb \<Longrightarrow> pte_of m' pd vb = pte_of m pd vb"
    and "same_pages (kernel_used m - {pd}) m m'" and "pd_pages m' pd = insert pt (pd_pages m pd)"
proof -
  let ?i = "pd_no va"
  note f = wf_pd_facts [OF assms(1)] and np = new_pde [OF pt(2,3)]
  have u: "unat ?i < 768" using assms(2) by (simp add: pd_no_user)
  have pdne: "pt \<noteq> pd" using f(2) pt(1) by auto
  have new: "pde_at m' pd ?i = (pt - PHYS_BASE) OR 7" by (simp add: pde_at_def m'_def)
  then show "pde_at m' pd ?i = (pt - PHYS_BASE) OR 7" .
  show newpt: "pt_at m' pd ?i = pt" using np(2) by (simp add: pt_at_def new)
  have old: "pde_at m' pd j = pde_at m pd j" if "unat j < 1024" "j \<noteq> ?i" for j
    using load_store_other [OF f(3,3) pd_no_lt that(1)] that(2) load32_same_pages [OF same, of pd j] pdne f(3) that(1)
    by (simp add: pde_at_def m'_def)
  then have oldpt: "pt_at m' pd j = pt_at m pd j" if "unat j < 1024" "j \<noteq> ?i" for j using that by (simp add: pt_at_def)
  have small: "unat j < 1024" if "unat j < 768" for j :: "32 word" using that by simp
  have k: "kernel_used m' = insert pt (kernel_used m)" using used by (simp add: m'_def)
  have ptne: "pt_at m pd j \<noteq> pt" if "unat j < 768" "pde_at m pd j \<noteq> 0" for j
    using f(5) [OF that] pt(1) by (auto simp: pt_ok_def)
  have ok: "pt_ok m' pd j" if "unat j < 768" "pde_at m' pd j \<noteq> 0" for j
  proof (cases "j = ?i")
    case True
    then show ?thesis using np new newpt pdne k by (simp add: pt_ok_def)
  next
    case False
    then show ?thesis using f(5) [of j] that old [OF small [OF that(1)]] oldpt [OF small [OF that(1)]] k by (simp add: pt_ok_def)
  qed
  have inj: "i = j" if "unat i < 768" "unat j < 768" "pde_at m' pd i \<noteq> 0" "pde_at m' pd j \<noteq> 0" "pt_at m' pd i = pt_at m' pd j" for i j
    using that assms(1) old [OF small] oldpt [OF small] newpt ptne unfolding wf_pd_def by metis
  have wk: "wf_kmem m'" using m1 by (simp add: m'_def)
  show "wf_pd m' pd" unfolding wf_pd_def using wk f(2) k ok inj by blast
  show sp: "same_pages (kernel_used m - {pd}) m m'"
  proof (rule same_pages_trans [of _ _ m1])
    show "same_pages (kernel_used m - {pd}) m m1" using same pt(1) by (auto intro: same_pages_mono)
    show "same_pages (kernel_used m - {pd}) m1 m'" unfolding m'_def by (rule store_same_pages [OF f(3) pd_no_lt]) simp
  qed
  have "{j. unat j < 768 \<and> pde_at m' pd j \<noteq> 0} = insert ?i {j. unat j < 768 \<and> pde_at m pd j \<noteq> 0}"
  proof -
    have "(unat j < 768 \<and> pde_at m' pd j \<noteq> 0) \<longleftrightarrow> (j = ?i \<or> unat j < 768 \<and> pde_at m pd j \<noteq> 0)" for j
      by (cases "j = ?i") (use old [OF small] u np(4) new in auto)
    then show ?thesis by blast
  qed
  moreover have "pt_at m' pd ` {j. unat j < 768 \<and> pde_at m pd j \<noteq> 0} = pt_at m pd ` {j. unat j < 768 \<and> pde_at m pd j \<noteq> 0}"
    using oldpt [OF small] z by (intro image_cong) auto
  ultimately show "pd_pages m' pd = insert pt (pd_pages m pd)" using newpt by (auto simp: pd_pages_def)
  assume vb: "is_user_vaddr vb"
  then have ub: "unat (pd_no vb) < 768" by (simp add: pd_no_user)
  have zero': "ram_of m' x = 0" if "pg_round_down x = pt" for x
    using store_same_pages [OF f(3) pd_no_lt [of va], of "{pt}" m1 "(pt - PHYS_BASE) OR 7"] pdne zero that by (simp add: same_pages_def m'_def)
  show "pte_of m' pd vb = pte_of m pd vb"
  proof (cases "pd_no vb = ?i")
    case True
    then show ?thesis using z newpt load32_zero [OF zero' pt(2) pt_no_lt] by (simp add: pte_of_def)
  next
    case False
    show ?thesis
    proof (cases "pde_at m pd (pd_no vb) = 0")
      case True
      then show ?thesis using old [OF pd_no_lt False] by (simp add: pte_of_def)
    next
      case nz: False
      have okb: "pt_ok m pd (pd_no vb)" using f(5) ub nz by blast
      then have "load32 (ram_of m') (entry_addr (pt_at m pd (pd_no vb)) (pt_no vb)) = load32 (ram_of m) (entry_addr (pt_at m pd (pd_no vb)) (pt_no vb))"
        using load32_same_pages [OF sp, of "pt_at m pd (pd_no vb)" "pt_no vb"] pt_ok_facts(2) [OF assms(1) okb] pt_no_lt
        by (simp add: pt_ok_def)
      then show ?thesis using nz False old [OF pd_no_lt] oldpt [OF pd_no_lt] by (simp add: pte_of_def)
    qed
  qed
qed

text \<open>Pages of the two pools never coincide.\<close>

abbreviation user_used :: "kmem \<Rightarrow> vaddr set" where
  "user_used m \<equiv> used_pages (user_pool m)"

lemma user_not_kernel: "wf_kmem m \<Longrightarrow> p \<in> user_used m \<Longrightarrow> p \<notin> pool_pages (kernel_pool m)"
  using pool_pages_disjoint used_pages_subset by blast

lemma user_not_pd: "wf_pd m pd \<Longrightarrow> p \<in> user_used m \<Longrightarrow> p \<notin> pd_pages m pd"
  using user_not_kernel wf_pd_facts(1,6) used_pages_subset by blast

definition others :: "kmem \<Rightarrow> vaddr \<Rightarrow> vaddr set" where
  "others m pd = (kernel_used m \<union> user_used m) - pd_pages m pd"

lemma lookup_page_create:
  assumes "wf_pd m pd" and "is_user_vaddr va"
  shows "\<exists>m'. lookup_page pd va True m = Inr (pte_addr m' pd va, m') \<and> wf_pd m' pd
     \<and> (\<forall>vb. is_user_vaddr vb \<longrightarrow> pte_of m' pd vb = pte_of m pd vb)
     \<and> same_pages (others m pd) m m' \<and> kernel_used m \<subseteq> kernel_used m' \<and> user_pool m' = user_pool m
     \<and> init_ram_pages m' = init_ram_pages m \<and> init_page_dir m' = init_page_dir m \<and> cr3 m' = cr3 m
     \<and> pd_pages m' pd \<inter> others m pd = {}
     \<and> (pte_addr m' pd va = 0 \<longrightarrow> kernel_used m = pool_pages (kernel_pool m))"
proof (cases "pde_at m pd (pd_no va) = 0")
  case False
  then show ?thesis
    using lookup_page_find [OF assms, of True] assms pte_addr_zero_iff by (auto simp: same_pages_def others_def)
next
  case True
  note f = wf_pd_facts [OF assms(1)]
  obtain pt m1 where m1: "palloc_get_page PAL_ZERO m = Inr (pt, m1)" "wf_kmem m1" "user_pool m1 = user_pool m"
    "init_ram_pages m1 = init_ram_pages m" "init_page_dir m1 = init_page_dir m" "cr3 m1 = cr3 m"
    and c: "if pt = 0 then ram_of m1 = ram_of m \<and> kernel_used m1 = kernel_used m \<and> kernel_used m = pool_pages (kernel_pool m)
       else aligned pt \<and> PHYS_BASE \<le> pt \<and> pt \<notin> kernel_used m \<and> pt \<in> pool_pages (kernel_pool m)
         \<and> kernel_used m1 = insert pt (kernel_used m)
         \<and> same_pages (- {pt}) m m1 \<and> (\<forall>x. pg_round_down x = pt \<longrightarrow> ram_of m1 x = 0)"
    using palloc_get_page_kernel [OF f(1), of PAL_ZERO] by auto
  show ?thesis
  proof (cases "pt = 0")
    case z: True
    then have sm: "same_pages P m m1" for P using c by (simp add: same_pages_def)
    have "kernel_used m \<subseteq> kernel_used m1" using c z by simp
    then have w: "wf_pd m1 pd" "pd_pages m1 pd = pd_pages m pd" "\<And>vb. is_user_vaddr vb \<Longrightarrow> pte_of m1 pd vb = pte_of m pd vb"
      using wf_pd_same [OF assms(1) m1(2) _ sm] f(6) by blast+
    have pde: "pde_at m1 pd (pd_no va) = 0" using True c z by (simp add: pde_at_def)
    have "lookup_page pd va True m = Inr (0, m1)"
      using True m1(1) z f(4) assms(2) by (simp add: lookup_page_def Let_def flip: pde_at_def)
    then show ?thesis using w m1 c z pde sm by (auto simp: pte_addr_def others_def)
  next
    case False
    then have fresh: "pt \<notin> kernel_used m" "aligned pt" "PHYS_BASE \<le> pt" "kernel_used m1 = insert pt (kernel_used m)"
      "same_pages (- {pt}) m m1" "\<forall>x. pg_round_down x = pt \<longrightarrow> ram_of m1 x = 0" "pt \<in> pool_pages (kernel_pool m)"
      using c by auto
    let ?e = "(pt - PHYS_BASE) OR 7"
    let ?m = "m1\<lparr>ram_of := store32 (ram_of m1) (entry_addr pd (pd_no va)) ?e\<rparr>"
    note nt = wf_pd_new_table [OF assms True m1(2) fresh(1-6)] and np = new_pde [OF fresh(2,3)]
    have e0: "?e \<noteq> 0" using np(4) by auto
    have pde: "load32 (ram_of m) (entry_addr pd (pd_no va)) = 0" using True by (simp add: pde_at_def)
    have "ptov (pt - PHYS_BASE) = Inr pt" using np(3) by (simp add: ptov_def)
    then have "pde_get_pt ?e = Inr pt" using np(2,4) by (simp add: pde_get_pt_def)
    then have look: "lookup_page pd va True m = Inr (entry_addr pt (pt_no va), ?m)"
      using pde m1(1) False np(1) f(4) assms(2) by (simp add: lookup_page_def Let_def)
    have addr: "pte_addr ?m pd va = entry_addr pt (pt_no va)" using nt(2,3) e0 by (simp add: pte_addr_def)
    have ptu: "pt \<notin> user_used m" using fresh(7) user_not_kernel [OF f(1)] by blast
    have "same_pages (others m pd) m ?m"
    proof (rule same_pages_trans [of _ _ m1])
      have "others m pd \<subseteq> - {pt}" using fresh(1) ptu by (auto simp: others_def)
      then show "same_pages (others m pd) m m1" using fresh(5) same_pages_mono by blast
      show "same_pages (others m pd) m1 ?m" by (rule store_same_pages [OF f(3) pd_no_lt]) (simp add: others_def pd_pages_def)
    qed
    moreover have "pd_pages ?m pd \<inter> others m pd = {}"
      using nt(6) fresh(1) ptu by (auto simp: others_def)
    moreover have "entry_addr pt (pt_no va) \<noteq> 0" using fresh(2,3) by (intro entry_addr_nonzero pt_no_lt)
    ultimately show ?thesis using look addr nt(1,4) m1 fresh(4) by auto
  qed
qed

section \<open>The operations on the abstract map\<close>

text \<open>A user page is mapped to a frame, writable or not.\<close>

definition page_map :: "kmem \<Rightarrow> vaddr \<Rightarrow> vaddr \<Rightarrow> (vaddr \<times> bool) option" where
  "page_map m pd upage =
     (let e = pte_of m pd upage in
      if e AND PTE_P \<noteq> 0 then Some ((e AND PTE_ADDR) + PHYS_BASE, e AND PTE_W \<noteq> 0) else None)"

lemma new_pte:
  assumes "aligned kpage" and "PHYS_BASE \<le> kpage"
  shows "pte_create_user kpage w = Inr ((kpage - PHYS_BASE) OR (if w then 7 else 5))"
    and "((kpage - PHYS_BASE) OR (if w then 7 else 5)) AND PTE_ADDR = kpage - PHYS_BASE"
    and "((kpage - PHYS_BASE) OR (if w then 7 else 5)) AND PTE_P \<noteq> 0"
    and "((kpage - PHYS_BASE) OR (if w then 7 else 5)) AND PTE_W \<noteq> 0 \<longleftrightarrow> w"
proof -
  let ?p = "kpage - PHYS_BASE"
  show "pte_create_user kpage w = Inr (?p OR (if w then 7 else 5))"
    using assms by (simp add: pte_create_user_def pte_create_kernel_def vtop_def is_kernel_vaddr_def PTE_P_def PTE_U_def PTE_W_def or.assoc)
  have al: "aligned ?p" using assms(1) by (rule aligned_minus) simp
  then show "(?p OR (if w then 7 else 5)) AND PTE_ADDR = ?p"
    by (rule or_flags_address) (simp add: mask_eq_exp_minus_1)
  show "(?p OR (if w then 7 else 5)) AND PTE_P \<noteq> 0" by (simp add: PTE_P_iff even_or_iff)
  have "?p AND PTE_W = 0"
  proof -
    have "?p = push_bit 12 (drop_bit 12 ?p)" using bits_ident [of 12 ?p] al by (simp add: pg_ofs_take_bit)
    moreover have "push_bit 12 x AND 2 = 0" for x :: "32 word"
      by (rule bit_eqI) (auto simp: bit_simps bit_double_iff [of 1, simplified])
    ultimately show ?thesis unfolding PTE_W_def by metis
  qed
  moreover have "(?p OR f) AND PTE_W = (?p AND PTE_W) OR (f AND PTE_W)" for f by (simp add: bit.conj_disj_distrib2)
  ultimately show "(?p OR (if w then 7 else 5)) AND PTE_W \<noteq> 0 \<longleftrightarrow> w" by (simp add: PTE_W_def)
qed

definition kpage_ok :: "kmem \<Rightarrow> vaddr \<Rightarrow> bool" where
  "kpage_ok m kpage \<longleftrightarrow> aligned kpage \<and> PHYS_BASE \<le> kpage \<and> drop_bit PGBITS (kpage - PHYS_BASE) < init_ram_pages m"

lemma pagedir_set_page_spec:
  assumes "wf_pd m pd" and "pd \<noteq> init_page_dir m" and "aligned upage" and "is_user_vaddr upage" and "kpage_ok m kpage"
    and "pte_of m pd upage AND PTE_P = 0"
  shows "\<exists>ok m'. pagedir_set_page pd upage kpage w m = Inr (ok, m') \<and> wf_pd m' pd
     \<and> (\<forall>vb. is_user_vaddr vb \<longrightarrow> pte_of m' pd vb =
          (if ok \<and> pg_round_down vb = upage then (kpage - PHYS_BASE) OR (if w then 7 else 5) else pte_of m pd vb))
     \<and> same_pages (others m pd) m m' \<and> kernel_used m \<subseteq> kernel_used m' \<and> user_pool m' = user_pool m
     \<and> init_ram_pages m' = init_ram_pages m \<and> init_page_dir m' = init_page_dir m \<and> cr3 m' = cr3 m
     \<and> pd_pages m' pd \<inter> others m pd = {}
     \<and> (\<not> ok \<longrightarrow> kernel_used m = pool_pages (kernel_pool m))"
proof -
  have fr: "aligned kpage" "PHYS_BASE \<le> kpage" "vtop kpage = Inr (kpage - PHYS_BASE)"
    "drop_bit PGBITS (kpage - PHYS_BASE) < init_ram_pages m"
    using assms(5) by (simp_all add: kpage_ok_def vtop_def is_kernel_vaddr_def)
  obtain m1 where m1: "lookup_page pd upage True m = Inr (pte_addr m1 pd upage, m1)" "wf_pd m1 pd"
    "\<forall>vb. is_user_vaddr vb \<longrightarrow> pte_of m1 pd vb = pte_of m pd vb"
    "same_pages (others m pd) m m1" "kernel_used m \<subseteq> kernel_used m1" "user_pool m1 = user_pool m"
    "init_ram_pages m1 = init_ram_pages m" "init_page_dir m1 = init_page_dir m" "cr3 m1 = cr3 m"
    "pd_pages m1 pd \<inter> others m pd = {}" "pte_addr m1 pd upage = 0 \<longrightarrow> kernel_used m = pool_pages (kernel_pool m)"
    using lookup_page_create [OF assms(1,4)] by blast
  have set: "pagedir_set_page pd upage kpage w m =
     (if pte_addr m1 pd upage \<noteq> 0
     then bind_res (assert_res (load32 (ram_of m1) (pte_addr m1 pd upage) AND PTE_P = 0)) (\<lambda>_.
          Inr (True, m1\<lparr>ram_of := store32 (ram_of m1) (pte_addr m1 pd upage) ((kpage - PHYS_BASE) OR (if w then 7 else 5))\<rparr>))
     else Inr (False, m1))"
    using assms(2-4) fr(3,4) m1(1) new_pte(1) [OF fr(1,2), of w] by (simp add: pagedir_set_page_def fr(1))
  show ?thesis
  proof (cases "pte_addr m1 pd upage = 0")
    case True
    then show ?thesis using set m1 by (intro exI [of _ False] exI [of _ m1]) simp
  next
    case False
    let ?m = "m1\<lparr>ram_of := store32 (ram_of m1) (pte_addr m1 pd upage) ((kpage - PHYS_BASE) OR (if w then 7 else 5))\<rparr>"
    have P0: "load32 (ram_of m1) (pte_addr m1 pd upage) AND PTE_P = 0"
      using assms(4,6) m1(3) pte_of_addr [OF False] by simp
    have nz: "pde_at m1 pd (pd_no upage) \<noteq> 0" using False by (simp add: pte_addr_def split: if_splits)
    then have addr: "pte_addr m1 pd upage = entry_addr (pt_at m1 pd (pd_no upage)) (pt_no upage)" by (simp add: pte_addr_def)
    have rd: "pg_round_down upage = upage" using assms(3) by (simp add: pg_round_down_minus)
    note st = store_pte [OF m1(2) assms(4) nz, where e = "(kpage - PHYS_BASE) OR (if w then 7 else 5)", folded addr, unfolded rd]
    have "same_pages (others m pd) m ?m"
      using same_pages_trans [OF m1(4) same_pages_mono [OF st(4)]] m1(10) by blast
    moreover have "pagedir_set_page pd upage kpage w m = Inr (True, ?m)" using set False P0 by simp
    ultimately show ?thesis using st(1-3) m1(3,5-10) by (intro exI [of _ True] exI [of _ ?m]) simp
  qed
qed

lemma page_map_pte: "pte_of m' pd va = pte_of m pd vb \<Longrightarrow> page_map m' pd va = page_map m pd vb"
  by (simp add: page_map_def)

lemma page_map_new:
  "kpage_ok m kpage \<Longrightarrow> pte_of m' pd va = (kpage - PHYS_BASE) OR (if w then 7 else 5) \<Longrightarrow> page_map m' pd va = Some (kpage, w)"
  using new_pte [of kpage w] by (auto simp: page_map_def kpage_ok_def)

lemma page_map_None_iff: "page_map m pd va = None \<longleftrightarrow> pte_of m pd va AND PTE_P = 0"
  by (simp add: page_map_def Let_def)

lemma page_map_ptov:
  "pte_of m pd va AND PTE_ADDR < PHYS_BASE \<Longrightarrow> pte_get_page (pte_of m pd va) = Inr ((pte_of m pd va AND PTE_ADDR) + PHYS_BASE)"
  by (simp add: pte_get_page_def ptov_def)

text \<open>Every present entry holds a physical address below the kernel's part of the address space.\<close>

definition kpages_ok :: "kmem \<Rightarrow> vaddr \<Rightarrow> bool" where
  "kpages_ok m pd \<longleftrightarrow> (\<forall>va. is_user_vaddr va \<longrightarrow> pte_of m pd va AND PTE_P \<noteq> 0 \<longrightarrow> pte_of m pd va AND PTE_ADDR < PHYS_BASE)"

lemma pagedir_get_page_spec:
  assumes "wf_pd m pd" and "kpages_ok m pd" and "is_user_vaddr uaddr"
  shows "pagedir_get_page pd uaddr m =
    Inr (case page_map m pd uaddr of None \<Rightarrow> 0 | Some (kpage, w) \<Rightarrow> kpage + pg_ofs uaddr)"
proof (cases "pte_addr m pd uaddr = 0")
  case True
  then have "pte_of m pd uaddr = 0" using pte_addr_zero_iff [OF assms(1,3)] by (simp add: pte_of_def)
  then show ?thesis using True lookup_page_find [OF assms(1,3), of False] assms(3) by (simp add: pagedir_get_page_def page_map_def)
next
  case False
  show ?thesis
  proof (cases "pte_of m pd uaddr AND PTE_P = 0")
    case True
    then show ?thesis using False pte_of_addr [OF False] lookup_page_find [OF assms(1,3), of False] assms(3)
      by (simp add: pagedir_get_page_def page_map_def)
  next
    case P: False
    then have "pte_of m pd uaddr AND PTE_ADDR < PHYS_BASE" using assms(2,3) by (simp add: kpages_ok_def)
    from page_map_ptov [OF this] show ?thesis
      using False P pte_of_addr [OF False] lookup_page_find [OF assms(1,3), of False] assms(3)
      by (simp add: pagedir_get_page_def page_map_def Let_def)
  qed
qed

lemma invalidate_pagedir_id:
  assumes "cr3 m < PHYS_BASE" and "PHYS_BASE \<le> pd"
  shows "invalidate_pagedir pd m = Inr m"
proof -
  have "pd \<noteq> 0" using assms(2) by (auto simp: PHYS_BASE_def)
  then show ?thesis using assms by (auto simp: invalidate_pagedir_def active_pd_def ptov_def pagedir_activate_def vtop_def is_kernel_vaddr_def)
qed

lemma pagedir_update_spec:
  assumes "wf_pd m pd" and "is_user_vaddr va" and "pte_addr m pd va \<noteq> 0"
  shows "\<exists>m'. m' = m\<lparr>ram_of := store32 (ram_of m) (pte_addr m pd va) e\<rparr> \<and> wf_pd m' pd \<and> pd_pages m' pd = pd_pages m pd
     \<and> (\<forall>vb. is_user_vaddr vb \<longrightarrow> pte_of m' pd vb = (if pg_round_down vb = pg_round_down va then e else pte_of m pd vb))
     \<and> same_pages (- pd_pages m pd) m m'"
proof -
  have nz: "pde_at m pd (pd_no va) \<noteq> 0" using assms(3) by (auto simp: pte_addr_def)
  then have "pte_addr m pd va = entry_addr (pt_at m pd (pd_no va)) (pt_no va)" by (simp add: pte_addr_def)
  then show ?thesis using store_pte [OF assms(1,2) nz] by simp
qed

lemma kernel_pd: "wf_pd m pd \<Longrightarrow> PHYS_BASE \<le> pd"
  using used_page_props(2) by (auto simp: wf_pd_def wf_kmem_def)

lemma and_not_absorb:
  fixes a :: "32 word"
  assumes "a AND b = 0"
  shows "a AND NOT b = a"
proof -
  have "a AND NOT b = (a AND NOT b) OR (a AND b)" using assms by simp
  also have "\<dots> = a" by (metis bit.conj_disj_distrib bit.disj_cancel_left bit.conj_one_right)
  finally show ?thesis .
qed

lemma pagedir_clear_page_spec:
  assumes "wf_pd m pd" and "aligned upage" and "is_user_vaddr upage" and "cr3 m < PHYS_BASE"
  shows "\<exists>m'. pagedir_clear_page pd upage m = Inr m' \<and> wf_pd m' pd \<and> pd_pages m' pd = pd_pages m pd
     \<and> (\<forall>vb. is_user_vaddr vb \<longrightarrow> pte_of m' pd vb =
          (if pg_round_down vb = upage then pte_of m pd upage AND NOT PTE_P else pte_of m pd vb))
     \<and> same_pages (- pd_pages m pd) m m' \<and> m' = m\<lparr>ram_of := ram_of m'\<rparr>"
proof (cases "pte_addr m pd upage \<noteq> 0 \<and> pte_of m pd upage AND PTE_P \<noteq> 0")
  case True
  have rd: "pg_round_down upage = upage" using assms(2) by (simp add: pg_round_down_minus)
  obtain m' where m': "m' = m\<lparr>ram_of := store32 (ram_of m) (pte_addr m pd upage) (pte_of m pd upage AND NOT PTE_P)\<rparr>"
    "wf_pd m' pd" "pd_pages m' pd = pd_pages m pd" "same_pages (- pd_pages m pd) m m'"
    "\<forall>vb. is_user_vaddr vb \<longrightarrow> pte_of m' pd vb = (if pg_round_down vb = pg_round_down upage then pte_of m pd upage AND NOT PTE_P else pte_of m pd vb)"
    using pagedir_update_spec [OF assms(1,3), of "pte_of m pd upage AND NOT PTE_P"] True by blast
  have "invalidate_pagedir pd m' = Inr m'" using kernel_pd [OF assms(1)] assms(4) m'(1) by (intro invalidate_pagedir_id) simp_all
  then have "pagedir_clear_page pd upage m = Inr m'"
    using lookup_page_find [OF assms(1,3), of False] True pte_of_addr [of m pd upage] assms(2,3) m'(1)
    by (simp add: pagedir_clear_page_def)
  moreover have "m' = m\<lparr>ram_of := ram_of m'\<rparr>" using m'(1) by simp
  ultimately show ?thesis using m'(2-5) rd by auto
next
  case False
  have "pagedir_clear_page pd upage m = Inr m"
    using lookup_page_find [OF assms(1,3), of False] False pte_of_addr [of m pd upage] assms(2,3)
    by (auto simp: pagedir_clear_page_def)
  moreover have eq: "pte_of m pd upage AND NOT PTE_P = pte_of m pd upage"
  proof -
    have "pte_of m pd upage AND PTE_P = 0"
      using False pte_addr_zero_iff [OF assms(1,3)] by (auto simp: pte_of_def)
    then show ?thesis by (rule and_not_absorb)
  qed
  moreover have "pte_of m pd vb = pte_of m pd upage" if "pg_round_down vb = upage" for vb
    using that assms(2) same_page_iff [of vb upage] by (intro pte_of_pd_no) (auto simp: pg_round_down_minus)
  ultimately show ?thesis using assms(1) by (auto simp: same_pages_def)
qed

end
