(* ===== verification/Pagedir_Destroy.thy ===== *)
theory Pagedir_Destroy
  imports Pagedir
begin

unbundle bit_operations_syntax

text \<open>
  The life of a page directory: \<^verbatim>\<open>pagedir_create\<close> makes a directory without user mappings, and
  \<^verbatim>\<open>pagedir_destroy\<close> gives back to the page allocator every frame the directory maps, every page
  table and the directory itself, and nothing else.
\<close>

section \<open>Creation\<close>

text \<open>The kernel's own directory maps no user page.\<close>

definition kernel_dir :: "kmem \<Rightarrow> bool" where
  "kernel_dir m \<longleftrightarrow> wf_kmem m \<and> init_page_dir m \<in> kernel_used m \<and> (\<forall>i. unat i < 768 \<longrightarrow> pde_at m (init_page_dir m) i = 0)"

lemma copy_page_at:
  assumes "aligned p" and "aligned q" and "pg_round_down x = p"
  shows "put_bytes r p (get_bytes r' q 4096) x = r' (q + pg_ofs x)"
proof -
  have x: "x - p = pg_ofs x" using assms(3) round_down_plus_ofs [of x] by (metis add_diff_cancel_left')
  then have lt: "unat (x - p) < 4096" by (simp add: unat_pg_ofs)
  then have "put_bytes r p (get_bytes r' q 4096) x = get_bytes r' q 4096 ! unat (x - p)" by (simp add: put_bytes_at)
  also have "\<dots> = r' (q + of_nat (unat (x - p)))" using lt by (simp add: get_bytes_map)
  also have "\<dots> = r' (q + pg_ofs x)" by (simp add: x)
  finally show ?thesis .
qed

lemma copy_page_other:
  assumes "aligned p" and "pg_round_down x \<noteq> p"
  shows "put_bytes r p (get_bytes r' q 4096) x = r x"
  using assms in_page_iff [OF assms(1), of x] by (simp add: put_bytes_at)

lemma load32_copy:
  assumes "aligned p" and "aligned q" and "unat i < 1024"
  shows "load32 (put_bytes r p (get_bytes r' q 4096)) (entry_addr p i) = load32 r' (entry_addr q i)"
proof -
  have b: "put_bytes r p (get_bytes r' q 4096) (entry_addr p i + k) = r' (entry_addr q i + k)" if "unat k < 4" for k
  proof -
    have lt: "unat (4 * i + k) < 4096" using assms(3) that by (simp add: entry_byte)
    have rd: "pg_round_down (p + (4 * i + k)) = p" using pg_round_down_page_plus [OF assms(1) lt] .
    then have "pg_ofs (p + (4 * i + k)) = 4 * i + k"
      using round_down_plus_ofs [of "p + (4 * i + k)"] by (metis add_left_cancel)
    then show ?thesis using copy_page_at [OF assms(1,2) rd] by (simp add: entry_addr_def add.assoc)
  qed
  from b [of 0] b [of 1] b [of 2] b [of 3] show ?thesis by (simp add: load32_def)
qed

lemma pagedir_create_spec:
  assumes "kernel_dir m"
  shows "\<exists>pd m'. pagedir_create m = Inr (pd, m') \<and> wf_kmem m'
     \<and> (if pd = 0 then kernel_used m = pool_pages (kernel_pool m) \<and> kernel_used m' = kernel_used m
        else wf_pd m' pd \<and> pd \<noteq> init_page_dir m' \<and> pd \<notin> kernel_used m \<and> kernel_used m' = insert pd (kernel_used m)
          \<and> pd_pages m' pd = {pd} \<and> (\<forall>va. is_user_vaddr va \<longrightarrow> page_map m' pd va = None)
          \<and> (\<forall>i. 768 \<le> unat i \<and> unat i < 1024 \<longrightarrow> pde_at m' pd i = pde_at m (init_page_dir m) i)
          \<and> same_pages (- {pd}) m m')"
proof -
  let ?d = "init_page_dir m"
  have wf: "wf_kmem m" and d: "?d \<in> kernel_used m" and z: "\<And>i. unat i < 768 \<Longrightarrow> pde_at m ?d i = 0"
    using assms by (simp_all add: kernel_dir_def)
  have ald: "aligned ?d" using wf d used_page_props(1) by (auto simp: wf_kmem_def)
  obtain pd m1 where m1: "palloc_get_page 0 m = Inr (pd, m1)" "wf_kmem m1" "init_page_dir m1 = ?d"
    and c: "if pd = 0 then ram_of m1 = ram_of m \<and> kernel_used m1 = kernel_used m \<and> kernel_used m = pool_pages (kernel_pool m)
       else aligned pd \<and> PHYS_BASE \<le> pd \<and> pd \<notin> kernel_used m \<and> pd \<in> pool_pages (kernel_pool m)
         \<and> kernel_used m1 = insert pd (kernel_used m) \<and> same_pages (- {pd}) m m1"
    using palloc_get_page_kernel [OF wf, of 0] by (auto split: if_splits)
  show ?thesis
  proof (cases "pd = 0")
    case True
    then show ?thesis using m1 c by (simp add: pagedir_create_def)
  next
    case False
    let ?m = "m1\<lparr>ram_of := put_bytes (ram_of m1) pd (get_bytes (ram_of m1) ?d 4096)\<rparr>"
    have al: "aligned pd" and ne: "pd \<noteq> ?d" and used: "kernel_used m1 = insert pd (kernel_used m)"
      and sm: "same_pages (- {pd}) m m1" and fresh: "pd \<notin> kernel_used m" using c False d by auto
    have e: "pde_at ?m pd i = pde_at m ?d i" if "unat i < 1024" for i
      using load32_copy [OF al ald that] load32_same_pages [OF sm _ ald that] ne by (simp add: pde_at_def)
    then have e0: "pde_at ?m pd i = 0" if "unat i < 768" for i using z that by simp
    have wfpd: "wf_pd ?m pd" using m1(2) used e0 by (simp add: wf_pd_def)
    have "same_pages (- {pd}) m1 ?m" using copy_page_other [OF al] by (simp add: same_pages_def)
    then have sp: "same_pages (- {pd}) m ?m" using same_pages_trans sm by blast
    have "page_map ?m pd va = None" if "is_user_vaddr va" for va
      using e0 that by (simp add: page_map_None_iff pte_of_def pd_no_user)
    moreover have "pd_pages ?m pd = {pd}" using e0 by (auto simp: pd_pages_def)
    moreover have "pagedir_create m = Inr (pd, ?m)" using m1 False by (simp add: pagedir_create_def PGSIZE_def)
    ultimately show ?thesis using False wfpd m1 ne used fresh e sp by auto
  qed
qed

section \<open>Destruction\<close>

definition entry_frame :: "32 word \<Rightarrow> vaddr" where
  "entry_frame e = (e AND PTE_ADDR) + PHYS_BASE"

text \<open>The present entries of a page table from index \<open>i\<close> on, and their frames.\<close>

definition pt_present :: "kmem \<Rightarrow> vaddr \<Rightarrow> nat \<Rightarrow> 32 word set" where
  "pt_present m pt i = {j. i \<le> unat j \<and> unat j < 1024 \<and> pde_at m pt j AND PTE_P \<noteq> 0}"

definition pt_frames :: "kmem \<Rightarrow> vaddr \<Rightarrow> nat \<Rightarrow> vaddr set" where
  "pt_frames m pt i = (\<lambda>j. entry_frame (pde_at m pt j)) ` pt_present m pt i"

text \<open>Each present entry maps a page in use of its own in the user pool.\<close>

definition pt_owned :: "kmem \<Rightarrow> vaddr \<Rightarrow> nat \<Rightarrow> bool" where
  "pt_owned m pt i \<longleftrightarrow>
     (\<forall>j\<in>pt_present m pt i. pde_at m pt j AND PTE_ADDR < PHYS_BASE \<and> entry_frame (pde_at m pt j) \<in> user_used m)
     \<and> inj_on (\<lambda>j. entry_frame (pde_at m pt j)) (pt_present m pt i)"

lemma index_from: "unat i \<le> unat j \<longleftrightarrow> j = i \<or> Suc (unat i) \<le> unat (j :: 32 word)"
  by (auto simp: word_unat_eq_iff)

lemma pt_present_step:
  "unat i < 1024 \<Longrightarrow> pt_present m pt (unat i) = (if pde_at m pt i AND PTE_P \<noteq> 0 then {i} else {}) \<union> pt_present m pt (Suc (unat i))"
  unfolding pt_present_def index_from by auto

lemma pt_present_later: "i \<notin> pt_present m pt (Suc (unat i))"
  by (simp add: pt_present_def)

lemma pt_present_same:
  assumes "\<And>l. unat l < 1024 \<Longrightarrow> pde_at m' pt l = pde_at m pt l"
  shows "pt_present m' pt i = pt_present m pt i" and "pt_frames m' pt i = pt_frames m pt i"
proof -
  show eq: "pt_present m' pt i = pt_present m pt i" using assms by (simp add: pt_present_def conj_commute cong: conj_cong)
  show "pt_frames m' pt i = pt_frames m pt i"
    unfolding pt_frames_def eq using assms by (intro image_cong) (auto simp: pt_present_def)
qed

lemma pt_owned_same:
  assumes "\<And>l. unat l < 1024 \<Longrightarrow> pde_at m' pt l = pde_at m pt l" and "pt_owned m pt i" and "pt_frames m pt i \<subseteq> user_used m'"
  shows "pt_owned m' pt i"
proof -
  have e: "pde_at m' pt j = pde_at m pt j" if "j \<in> pt_present m pt i" for j using assms(1) that by (simp add: pt_present_def)
  then have "inj_on (\<lambda>j. entry_frame (pde_at m' pt j)) (pt_present m pt i)"
    using assms(2) by (simp add: pt_owned_def inj_on_def)
  moreover have P: "pt_present m' pt i = pt_present m pt i" using assms(1) by (rule pt_present_same)
  ultimately show ?thesis using assms(2,3) e unfolding pt_owned_def P by (auto simp: pt_frames_def)
qed

lemma pt_owned_frames: "pt_owned m pt i \<Longrightarrow> pt_frames m pt i \<subseteq> user_used m"
  by (auto simp: pt_owned_def pt_frames_def)

lemma pt_owned_later:
  assumes "pt_owned m pt (unat i)" and "unat i < 1024"
  shows "pt_owned m pt (Suc (unat i))"
    and "pde_at m pt i AND PTE_P \<noteq> 0 \<Longrightarrow> entry_frame (pde_at m pt i) \<notin> pt_frames m pt (Suc (unat i))"
proof -
  note st = pt_present_step [OF assms(2), of m pt]
  then show "pt_owned m pt (Suc (unat i))" using assms(1) by (auto simp: pt_owned_def intro: inj_on_subset)
  assume "pde_at m pt i AND PTE_P \<noteq> 0"
  then have "inj_on (\<lambda>j. entry_frame (pde_at m pt j)) (insert i (pt_present m pt (Suc (unat i))))"
    using assms(1) st by (simp add: pt_owned_def)
  then show "entry_frame (pde_at m pt i) \<notin> pt_frames m pt (Suc (unat i))"
    using pt_present_later by (auto simp: pt_frames_def inj_on_def)
qed

lemma free_user_page:
  assumes "wf_kmem m" and "p \<in> user_used m"
  shows "\<exists>m'. palloc_free_page p m = Inr m' \<and> wf_kmem m' \<and> kernel_pool m' = kernel_pool m \<and> init_page_dir m' = init_page_dir m
     \<and> user_used m' = user_used m - {p} \<and> same_pages (- {p}) m m'"
  using palloc_free_page_spec [OF assms(1), of p True] assms(2) by (auto simp: the_pool_def same_pages_def)

lemma free_kernel_page:
  assumes "wf_kmem m" and "p \<in> kernel_used m"
  shows "\<exists>m'. palloc_free_page p m = Inr m' \<and> wf_kmem m' \<and> user_pool m' = user_pool m \<and> init_page_dir m' = init_page_dir m
     \<and> kernel_used m' = kernel_used m - {p} \<and> same_pages (- {p}) m m'"
  using palloc_free_page_spec [OF assms(1), of p False] assms(2) by (auto simp: the_pool_def same_pages_def)

lemma destroy_entry:
  assumes "wf_kmem m" and "pt_owned m pt (unat i)" and "unat i < 1024"
  shows "\<exists>m'. (if pde_at m pt i AND PTE_P \<noteq> 0
        then bind_res (pte_get_page (pde_at m pt i)) (\<lambda>page. palloc_free_page page m) else Inr m) = Inr m'
     \<and> wf_kmem m' \<and> kernel_pool m' = kernel_pool m \<and> init_page_dir m' = init_page_dir m \<and> same_pages (- user_used m) m m'
     \<and> user_used m' = user_used m - (if pde_at m pt i AND PTE_P \<noteq> 0 then {entry_frame (pde_at m pt i)} else {})"
proof (cases "pde_at m pt i AND PTE_P \<noteq> 0")
  case True
  then have f: "pde_at m pt i AND PTE_ADDR < PHYS_BASE" "entry_frame (pde_at m pt i) \<in> user_used m"
    using assms(2,3) by (auto simp: pt_owned_def pt_present_def)
  then have "pte_get_page (pde_at m pt i) = Inr (entry_frame (pde_at m pt i))"
    by (simp add: pte_get_page_def ptov_def entry_frame_def)
  moreover obtain m' where m': "palloc_free_page (entry_frame (pde_at m pt i)) m = Inr m'" "wf_kmem m'"
     "kernel_pool m' = kernel_pool m" "init_page_dir m' = init_page_dir m"
     "user_used m' = user_used m - {entry_frame (pde_at m pt i)}" "same_pages (- {entry_frame (pde_at m pt i)}) m m'"
    using free_user_page [OF assms(1) f(2)] by blast
  moreover have "same_pages (- user_used m) m m'" using m'(6) f(2) by (auto intro: same_pages_mono)
  ultimately show ?thesis using True by simp
next
  case False
  then show ?thesis using assms(1) by (simp add: same_pages_def)
qed

lemma destroy_pt_spec:
  assumes "wf_kmem m" and "pt \<in> kernel_used m" and "pt_owned m pt (unat i)" and "unat i + k = 1024"
  shows "\<exists>m'. destroy_pt pt i k m = Inr m' \<and> wf_kmem m' \<and> kernel_pool m' = kernel_pool m \<and> init_page_dir m' = init_page_dir m
     \<and> user_used m' = user_used m - pt_frames m pt (unat i) \<and> same_pages (- user_used m) m m'"
  using assms
proof (induction k arbitrary: i m)
  case 0
  then show ?case by (auto simp: pt_frames_def pt_present_def same_pages_def)
next
  case (Suc k)
  have al: "aligned pt" using Suc.prems(1,2) used_page_props(1) by (auto simp: wf_kmem_def)
  have i: "unat i < 1024" "unat (i + 1) = Suc (unat i)" "unat (i + 1) + k = 1024"
    using Suc.prems(4) by (simp_all add: unat_word_ariths)
  have ptu: "pt \<notin> user_used m" using Suc.prems(1,2) user_not_kernel used_pages_subset by blast
  obtain m1 where m1: "(if pde_at m pt i AND PTE_P \<noteq> 0 then bind_res (pte_get_page (pde_at m pt i)) (\<lambda>page. palloc_free_page page m) else Inr m) = Inr m1"
    "wf_kmem m1" "kernel_pool m1 = kernel_pool m" "init_page_dir m1 = init_page_dir m" "same_pages (- user_used m) m m1"
    and u1: "user_used m1 = user_used m - (if pde_at m pt i AND PTE_P \<noteq> 0 then {entry_frame (pde_at m pt i)} else {})"
    using destroy_entry [OF Suc.prems(1,3) i(1)] by blast
  have same: "pde_at m1 pt j = pde_at m pt j" if "unat j < 1024" for j
    using load32_same_pages [OF m1(5) _ al that] ptu by (simp add: pde_at_def)
  note later = pt_owned_later [OF Suc.prems(3) i(1)]
  have "pt_frames m pt (Suc (unat i)) \<subseteq> user_used m1"
    using pt_owned_frames [OF later(1)] later(2) u1 by auto
  then have "pt_owned m1 pt (unat (i + 1))"
    using pt_owned_same [OF same later(1)] i(2) by simp
  then obtain m' where m': "destroy_pt pt (i + 1) k m1 = Inr m'" "wf_kmem m'" "kernel_pool m' = kernel_pool m1"
    "init_page_dir m' = init_page_dir m1" "user_used m' = user_used m1 - pt_frames m1 pt (unat (i + 1))" "same_pages (- user_used m1) m1 m'"
    using Suc.IH [of m1 "i + 1"] m1(2,3) Suc.prems(2) i(3) by auto
  have "pt_frames m pt (unat i) = (if pde_at m pt i AND PTE_P \<noteq> 0 then {entry_frame (pde_at m pt i)} else {}) \<union> pt_frames m pt (Suc (unat i))"
    unfolding pt_frames_def pt_present_step [OF i(1)] image_Un by simp
  moreover have "same_pages (- user_used m) m1 m'" using m'(6) u1 by (auto intro: same_pages_mono)
  ultimately have "user_used m' = user_used m - pt_frames m pt (unat i)" "same_pages (- user_used m) m m'"
    using m'(5) u1 pt_present_same(2) [OF same] i(2) same_pages_trans [OF m1(5)] by (auto split: if_splits)
  moreover have "destroy_pt pt i (Suc k) m = Inr m'" using m1(1) m'(1) by (simp add: Let_def flip: pde_at_def)
  ultimately show ?case using m1 m' by simp
qed

text \<open>The page tables of a directory from index \<open>i\<close> on, and the frames they map.\<close>

definition tables_from :: "kmem \<Rightarrow> vaddr \<Rightarrow> nat \<Rightarrow> 32 word set" where
  "tables_from m pd i = {j. i \<le> unat j \<and> unat j < 768 \<and> pde_at m pd j \<noteq> 0}"

definition frames_from :: "kmem \<Rightarrow> vaddr \<Rightarrow> nat \<Rightarrow> vaddr set" where
  "frames_from m pd i = (\<Union>j\<in>tables_from m pd i. pt_frames m (pt_at m pd j) 0)"

definition dir_owned :: "kmem \<Rightarrow> vaddr \<Rightarrow> nat \<Rightarrow> bool" where
  "dir_owned m pd i \<longleftrightarrow>
     (\<forall>j\<in>tables_from m pd i. pt_ok m pd j \<and> pt_owned m (pt_at m pd j) 0)
     \<and> (\<forall>j\<in>tables_from m pd i. \<forall>l\<in>tables_from m pd i. j \<noteq> l \<longrightarrow>
          pt_at m pd j \<noteq> pt_at m pd l \<and> pt_frames m (pt_at m pd j) 0 \<inter> pt_frames m (pt_at m pd l) 0 = {})"

lemma destroy_table:
  assumes "wf_kmem m" and "pt \<in> kernel_used m" and "pt_owned m pt 0"
  shows "\<exists>m'. bind_res (destroy_pt pt 0 (PGSIZE div 4) m) (\<lambda>m. palloc_free_page pt m) = Inr m' \<and> wf_kmem m'
     \<and> init_page_dir m' = init_page_dir m \<and> kernel_used m' = kernel_used m - {pt}
     \<and> user_used m' = user_used m - pt_frames m pt 0 \<and> same_pages (- (insert pt (user_used m))) m m'"
proof -
  obtain m1 where m1: "destroy_pt pt 0 1024 m = Inr m1" "wf_kmem m1" "kernel_pool m1 = kernel_pool m" "init_page_dir m1 = init_page_dir m"
     "user_used m1 = user_used m - pt_frames m pt 0" "same_pages (- user_used m) m m1"
    using destroy_pt_spec [of m pt 0 1024] assms by auto
  obtain m2 where m2: "palloc_free_page pt m1 = Inr m2" "wf_kmem m2" "user_pool m2 = user_pool m1" "init_page_dir m2 = init_page_dir m1"
     "kernel_used m2 = kernel_used m1 - {pt}" "same_pages (- {pt}) m1 m2"
    using free_kernel_page [OF m1(2), of pt] m1(3) assms(2) by auto
  have "same_pages (- (insert pt (user_used m))) m m2"
    using m1(6) m2(6) by (simp add: same_pages_def)
  then show ?thesis using m1 m2 by (simp add: PGSIZE_def)
qed

lemma tables_from_step:
  "unat i < 768 \<Longrightarrow> tables_from m pd (unat i) = (if pde_at m pd i \<noteq> 0 then {i} else {}) \<union> tables_from m pd (Suc (unat i))"
  unfolding tables_from_def index_from by auto

lemma dir_owned_step:
  assumes "wf_kmem m" and "pd \<in> kernel_used m" and "dir_owned m pd (unat i)" and "unat i < 768"
    and "pde_at m pd i \<noteq> 0" and m2: "wf_kmem m2" "kernel_used m2 = kernel_used m - {pt_at m pd i}"
     "user_used m2 = user_used m - pt_frames m (pt_at m pd i) 0" "same_pages (- (insert (pt_at m pd i) (user_used m))) m m2"
  shows "dir_owned m2 pd (Suc (unat i))" and "tables_from m2 pd (Suc (unat i)) = tables_from m pd (Suc (unat i))"
    and "j \<in> tables_from m pd (Suc (unat i)) \<Longrightarrow> pt_at m2 pd j = pt_at m pd j"
    and "j \<in> tables_from m pd (Suc (unat i)) \<Longrightarrow> pt_frames m2 (pt_at m pd j) 0 = pt_frames m (pt_at m pd j) 0"
proof -
  let ?T = "tables_from m pd (Suc (unat i))"
  have iT: "i \<in> tables_from m pd (unat i)" and T: "?T \<subseteq> tables_from m pd (unat i)" and ni: "i \<notin> ?T"
    using assms(4,5) by (auto simp: tables_from_def)
  have ptne: "pt_at m pd i \<noteq> pd" using assms(3) iT by (auto simp: dir_owned_def pt_ok_def)
  have ker: "p \<notin> user_used m" if "p \<in> kernel_used m" for p
    using assms(1) that user_not_kernel used_pages_subset by blast
  have ald: "aligned pd" using assms(1,2) used_page_props(1) by (auto simp: wf_kmem_def)
  have e: "pde_at m2 pd j = pde_at m pd j" if "unat j < 1024" for j
    using load32_same_pages [OF m2(4) _ ald that] ptne ker [OF assms(2)] by (simp add: pde_at_def)
  then have e2: "pt_at m2 pd j = pt_at m pd j" if "unat j < 1024" for j using that by (simp add: pt_at_def)
  have lt: "unat j < 1024" if "j \<in> ?T" for j using that by (auto simp: tables_from_def)
  show Teq: "tables_from m2 pd (Suc (unat i)) = ?T" using e by (auto simp: tables_from_def)
  show "pt_at m2 pd j = pt_at m pd j" if "j \<in> ?T" for j using e2 lt that by blast
  have ij: "j \<noteq> i" if "j \<in> ?T" for j using ni that by auto
  have oth: "pt_ok m pd j" "pt_owned m (pt_at m pd j) 0" "pt_at m pd j \<noteq> pt_at m pd i"
     "pt_frames m (pt_at m pd j) 0 \<inter> pt_frames m (pt_at m pd i) 0 = {}" if "j \<in> ?T" for j
    using assms(3) iT T ij [OF that] that unfolding dir_owned_def by blast+
  have w: "pde_at m2 (pt_at m pd j) l = pde_at m (pt_at m pd j) l"
    if j: "j \<in> ?T" and l: "unat l < 1024" for j l
    unfolding pde_at_def
  proof (rule load32_same_pages [OF m2(4) _ _ l])
    have k: "pt_at m pd j \<in> kernel_used m" using oth(1) [OF j] by (simp add: pt_ok_def)
    then show "pt_at m pd j \<in> - insert (pt_at m pd i) (user_used m)" using oth(3) [OF j] ker by blast
    show "aligned (pt_at m pd j)" using k assms(1) used_page_props(1) by (auto simp: wf_kmem_def)
  qed
  show fr: "pt_frames m2 (pt_at m pd j) 0 = pt_frames m (pt_at m pd j) 0" if "j \<in> ?T" for j
    using w [OF that] by (rule pt_present_same)
  have own: "pt_owned m2 (pt_at m pd j) 0" if "j \<in> ?T" for j
  proof (rule pt_owned_same [OF w [OF that] oth(2) [OF that]])
    show "pt_frames m (pt_at m pd j) 0 \<subseteq> user_used m2"
      using pt_owned_frames [OF oth(2) [OF that]] oth(4) [OF that] m2(3) by blast
  qed
  have ok2: "pt_ok m2 pd j" if "j \<in> ?T" for j
    using oth(1,3) [OF that] e [OF lt [OF that]] e2 [OF lt [OF that]] m2(2) by (simp add: pt_ok_def)
  show "dir_owned m2 pd (Suc (unat i))"
    unfolding dir_owned_def Teq using ok2 own fr e2 lt assms(3) T unfolding dir_owned_def by (simp add: subset_iff)
qed

lemma destroy_pd_spec:
  assumes "wf_kmem m" and "pd \<in> kernel_used m" and "dir_owned m pd (unat i)" and "unat i + k = 768"
  shows "\<exists>m'. destroy_pd pd i k m = Inr m' \<and> wf_kmem m' \<and> init_page_dir m' = init_page_dir m
     \<and> kernel_used m' = kernel_used m - pt_at m pd ` tables_from m pd (unat i)
     \<and> user_used m' = user_used m - frames_from m pd (unat i)"
  using assms
proof (induction k arbitrary: i m)
  case 0
  then show ?case by (auto simp: tables_from_def frames_from_def)
next
  case (Suc k)
  have i: "unat i < 768" "unat (i + 1) = Suc (unat i)" "unat (i + 1) + k = 768"
    using Suc.prems(4) by (simp_all add: unat_word_ariths)
  note st = tables_from_step [OF i(1), of m pd]
  show ?case
  proof (cases "pde_at m pd i = 0")
    case True
    then have "tables_from m pd (unat i) = tables_from m pd (unat (i + 1))" using st i(2) by simp
    moreover have "destroy_pd pd i (Suc k) m = destroy_pd pd (i + 1) k m" using True by (simp flip: pde_at_def)
    ultimately show ?thesis using Suc.IH [of m "i + 1"] Suc.prems i(3) by (simp add: dir_owned_def frames_from_def)
  next
    case False
    have st2: "tables_from m pd (unat i) = insert i (tables_from m pd (Suc (unat i)))" using st False by simp
    then have iT: "i \<in> tables_from m pd (unat i)" by blast
    then have ok: "pt_ok m pd i" "pt_owned m (pt_at m pd i) 0" using Suc.prems(3) by (auto simp: dir_owned_def)
    then obtain m2 where m2: "bind_res (destroy_pt (pt_at m pd i) 0 (PGSIZE div 4) m) (\<lambda>m'. palloc_free_page (pt_at m pd i) m') = Inr m2"
      "wf_kmem m2" "init_page_dir m2 = init_page_dir m" "kernel_used m2 = kernel_used m - {pt_at m pd i}"
      "user_used m2 = user_used m - pt_frames m (pt_at m pd i) 0" "same_pages (- (insert (pt_at m pd i) (user_used m))) m m2"
      using destroy_table [of m "pt_at m pd i"] Suc.prems(1) by (auto simp: pt_ok_def)
    note nx = dir_owned_step [OF Suc.prems(1,2,3) i(1) False m2(2,4,5,6)]
    have "pt_at m pd i \<noteq> pd" using ok(1) by (simp add: pt_ok_def)
    then have pd2: "pd \<in> kernel_used m2" using Suc.prems(2) unfolding m2(4) by simp
    obtain m' where m': "destroy_pd pd (i + 1) k m2 = Inr m'" "wf_kmem m'" "init_page_dir m' = init_page_dir m2"
      "kernel_used m' = kernel_used m2 - pt_at m2 pd ` tables_from m2 pd (unat (i + 1))" "user_used m' = user_used m2 - frames_from m2 pd (unat (i + 1))"
      using Suc.IH [OF m2(2) pd2 nx(1) [folded i(2)] i(3)] by blast
    have "pde_get_pt (pde_at m pd i) = Inr (pt_at m pd i)" using ok(1) by (simp add: pt_ok_def pde_get_pt_def ptov_def pt_at_def)
    then have "destroy_pd pd i (Suc k) m = Inr m'"
      using m2(1) m'(1) ok(1) by (simp add: pt_ok_def pde_at_def [symmetric])
    moreover have "pt_at m2 pd ` tables_from m2 pd (unat (i + 1)) = pt_at m pd ` tables_from m pd (Suc (unat i))"
      using nx(2,3) i(2) by simp
    then have "kernel_used m' = kernel_used m - pt_at m pd ` tables_from m pd (unat i)"
      by (simp only: st2 m'(4) m2(4) image_insert) (rule Diff_insert2 [symmetric])
    moreover have "frames_from m2 pd (unat (i + 1)) = frames_from m pd (Suc (unat i))"
      using nx(2-4) i(2) by (simp add: frames_from_def)
    then have "user_used m' = user_used m - frames_from m pd (unat i)"
      unfolding m'(5) m2(5) by (simp only: frames_from_def st2 UN_insert) blast
    ultimately show ?thesis using m'(2,3) m2(3) by simp
  qed
qed

text \<open>The address with the given directory and table index.\<close>

definition va_of :: "32 word \<Rightarrow> 32 word \<Rightarrow> vaddr" where
  "va_of j l = of_nat (unat j * 4194304 + unat l * 4096)"

lemma va_of_parts:
  assumes "unat j < 1024" and "unat l < 1024"
  shows "pd_no (va_of j l) = j" and "pt_no (va_of j l) = l" and "aligned (va_of j l)" and "unat j < 768 \<Longrightarrow> is_user_vaddr (va_of j l)"
proof -
  have "unat j * 4194304 + unat l * 4096 < 4294967296" using assms by linarith
  then have u: "unat (va_of j l) = unat j * 4194304 + unat l * 4096"
    unfolding va_of_def by (subst unat_of_nat) simp
  have "(unat j * 4194304 + unat l * 4096) div 4194304 = unat j" using assms(2) by (intro div_nat_eqI) simp_all
  then show "pd_no (va_of j l) = j" by (simp add: word_unat_eq_iff unat_pd_no u)
  have "(unat j * 4194304 + unat l * 4096) div 4096 = unat j * 1024 + unat l" by (intro div_nat_eqI) simp_all
  then have "(unat j * 4194304 + unat l * 4096) div 4096 mod 1024 = unat l" using assms(2) by simp
  then show "pt_no (va_of j l) = l" by (simp add: word_unat_eq_iff unat_pt_no u)
  have "unat j * 4194304 + unat l * 4096 = (unat j * 1024 + unat l) * 4096" by simp
  then show "aligned (va_of j l)" by (metis aligned_iff u mod_mult_self2_is_0)
  show "is_user_vaddr (va_of j l)" if "unat j < 768" using \<open>pd_no (va_of j l) = j\<close> that by (simp add: pd_no_user)
qed

text \<open>A directory owns its frames when no two user pages share one and all are in use.\<close>

definition owns_frames :: "kmem \<Rightarrow> vaddr \<Rightarrow> bool" where
  "owns_frames m pd \<longleftrightarrow>
     (\<forall>va f w. is_user_vaddr va \<longrightarrow> page_map m pd va = Some (f, w) \<longrightarrow> f \<in> user_used m)
     \<and> (\<forall>va vb f w w'. is_user_vaddr va \<longrightarrow> is_user_vaddr vb \<longrightarrow> page_map m pd va = Some (f, w) \<longrightarrow>
          page_map m pd vb = Some (f, w') \<longrightarrow> pg_round_down va = pg_round_down vb)"

definition mapped_frames :: "kmem \<Rightarrow> vaddr \<Rightarrow> vaddr set" where
  "mapped_frames m pd = {f. \<exists>va w. is_user_vaddr va \<and> page_map m pd va = Some (f, w)}"

lemma present_page_map:
  assumes "j \<in> tables_from m pd 0" and "l \<in> pt_present m (pt_at m pd j) 0"
  shows "is_user_vaddr (va_of j l)" and "\<exists>w. page_map m pd (va_of j l) = Some (entry_frame (pde_at m (pt_at m pd j) l), w)"
proof -
  have j: "unat j < 768" "pde_at m pd j \<noteq> 0" and l: "unat l < 1024" "pde_at m (pt_at m pd j) l AND PTE_P \<noteq> 0"
    using assms by (auto simp: tables_from_def pt_present_def)
  then show "is_user_vaddr (va_of j l)" using va_of_parts(4) [of j l] by simp
  have "pte_of m pd (va_of j l) = pde_at m (pt_at m pd j) l"
    using va_of_parts(1,2) [of j l] j l(1) by (simp add: pte_of_def pde_at_def)
  then show "\<exists>w. page_map m pd (va_of j l) = Some (entry_frame (pde_at m (pt_at m pd j) l), w)"
    using l(2) by (simp add: page_map_def entry_frame_def Let_def)
qed

lemma va_of_inj:
  assumes "j \<in> tables_from m pd 0" "l \<in> pt_present m (pt_at m pd j) 0" "j' \<in> tables_from m pd 0" "l' \<in> pt_present m (pt_at m pd j') 0"
    and "owns_frames m pd" and "entry_frame (pde_at m (pt_at m pd j) l) = entry_frame (pde_at m (pt_at m pd j') l')"
  shows "j = j' \<and> l = l'"
proof -
  have "unat j < 1024" "unat l < 1024" "unat j' < 1024" "unat l' < 1024"
    using assms(1-4) by (auto simp: tables_from_def pt_present_def)
  moreover have "pg_round_down (va_of j l) = pg_round_down (va_of j' l')"
    using present_page_map [OF assms(1,2)] present_page_map [OF assms(3,4)] assms(5,6) unfolding owns_frames_def by metis
  ultimately show ?thesis by (simp add: same_page_iff va_of_parts)
qed

lemma dir_owned_all:
  assumes "wf_pd m pd" and "owns_frames m pd"
  shows "dir_owned m pd 0"
  unfolding dir_owned_def
proof (intro conjI ballI impI)
  fix j assume j: "j \<in> tables_from m pd 0"
  then show "pt_ok m pd j" using wf_pd_facts(5) [OF assms(1)] by (simp add: tables_from_def)
  have own: "entry_frame (pde_at m (pt_at m pd j) l) \<in> user_used m" if "l \<in> pt_present m (pt_at m pd j) 0" for l
    using present_page_map [OF j that] assms(2) unfolding owns_frames_def by blast
  have "pde_at m (pt_at m pd j) l AND PTE_ADDR < PHYS_BASE" if "l \<in> pt_present m (pt_at m pd j) 0" for l
    using new_pde(3) [of "entry_frame (pde_at m (pt_at m pd j) l)"] own [OF that] wf_pd_facts(1) [OF assms(1)]
      used_page_props [of "user_pool m"] by (simp add: entry_frame_def wf_kmem_def)
  then show "pt_owned m (pt_at m pd j) 0"
    unfolding pt_owned_def using own va_of_inj [OF j _ j _ assms(2)] by (auto intro: inj_onI)
  fix l assume l: "l \<in> tables_from m pd 0" "j \<noteq> l"
  then show "pt_at m pd j \<noteq> pt_at m pd l" using assms(1) j unfolding wf_pd_def tables_from_def by blast
  show "pt_frames m (pt_at m pd j) 0 \<inter> pt_frames m (pt_at m pd l) 0 = {}"
    using va_of_inj [OF j _ l(1) _ assms(2)] l(2) by (auto simp: pt_frames_def)
qed

lemma frames_from_mapped:
  assumes "wf_pd m pd"
  shows "frames_from m pd 0 = mapped_frames m pd"
proof
  show "frames_from m pd 0 \<subseteq> mapped_frames m pd"
    using present_page_map by (fastforce simp: frames_from_def pt_frames_def mapped_frames_def)
  show "mapped_frames m pd \<subseteq> frames_from m pd 0"
  proof
    fix f assume "f \<in> mapped_frames m pd"
    then obtain va w where va: "is_user_vaddr va" "page_map m pd va = Some (f, w)" by (auto simp: mapped_frames_def)
    then have e: "pte_of m pd va AND PTE_P \<noteq> 0" "f = entry_frame (pte_of m pd va)"
      by (auto simp: page_map_def entry_frame_def Let_def split: if_splits)
    then have nz: "pde_at m pd (pd_no va) \<noteq> 0" by (auto simp: pte_of_def)
    then have pe: "pte_of m pd va = pde_at m (pt_at m pd (pd_no va)) (pt_no va)" by (simp add: pte_of_def pde_at_def)
    have "pd_no va \<in> tables_from m pd 0" using nz va(1) by (simp add: tables_from_def pd_no_user)
    moreover have "pt_no va \<in> pt_present m (pt_at m pd (pd_no va)) 0" using e(1) pe pt_no_lt by (simp add: pt_present_def)
    ultimately show "f \<in> frames_from m pd 0" using e(2) pe by (auto simp: frames_from_def pt_frames_def)
  qed
qed

lemma pd_pages_tables: "pd_pages m pd = insert pd (pt_at m pd ` tables_from m pd 0)"
  by (simp add: pd_pages_def tables_from_def)

lemma pagedir_destroy_spec:
  assumes "wf_pd m pd" and "owns_frames m pd" and "pd \<noteq> init_page_dir m"
  shows "\<exists>m'. pagedir_destroy pd m = Inr m' \<and> wf_kmem m' \<and> kernel_used m' = kernel_used m - pd_pages m pd
     \<and> user_used m' = user_used m - mapped_frames m pd"
proof -
  have n: "unat (pd_no PHYS_BASE) = 768" by (simp add: unat_pd_no unat_PHYS_BASE)
  obtain m1 where m1: "destroy_pd pd 0 768 m = Inr m1" "wf_kmem m1" "kernel_used m1 = kernel_used m - pt_at m pd ` tables_from m pd 0"
     "user_used m1 = user_used m - mapped_frames m pd"
    using destroy_pd_spec [of m pd 0 768] wf_pd_facts(1,2) [OF assms(1)] dir_owned_all [OF assms(1,2)] frames_from_mapped [OF assms(1)] by auto
  have "pd \<notin> pt_at m pd ` tables_from m pd 0"
    using dir_owned_all [OF assms(1,2)] by (auto simp: dir_owned_def pt_ok_def)
  then have "pd \<in> kernel_used m1" using wf_pd_facts(2) [OF assms(1)] m1(3) by simp
  from free_kernel_page [OF m1(2) this] obtain m2 where m2: "palloc_free_page pd m1 = Inr m2" "wf_kmem m2" "user_pool m2 = user_pool m1"
     "kernel_used m2 = kernel_used m1 - {pd}" by blast
  moreover have "pagedir_destroy pd m = Inr m2" using m1(1) m2(1) wf_pd_facts(4) [OF assms(1)] assms(3) n by (simp add: pagedir_destroy_def)
  moreover have "kernel_used m2 = kernel_used m - pd_pages m pd"
    unfolding m2(4) m1(3) pd_pages_tables by blast
  ultimately show ?thesis using m1(4) by auto
qed

end
