(* ===== verification/Pagedir_Properties.thy ===== *)
theory Pagedir_Properties
  imports Pagedir_Destroy
begin

unbundle bit_operations_syntax

text \<open>
  What page directories promise their clients: installing a page and looking it up agree, the
  directory of one process and the data pages are not touched by work on another directory, and
  destroying a directory leaks nothing.
\<close>

section \<open>Flags of an entry\<close>

lemma pagedir_flag_spec:
  assumes "wf_pd m pd" and "is_user_vaddr va"
  shows "pagedir_is_dirty pd va m = Inr (pte_of m pd va AND PTE_D \<noteq> 0)"
    and "pagedir_is_accessed pd va m = Inr (pte_of m pd va AND PTE_A \<noteq> 0)"
proof -
  have z: "pte_of m pd va = 0" if "pte_addr m pd va = 0"
    using that pte_addr_zero_iff [OF assms] by (simp add: pte_of_def)
  show "pagedir_is_dirty pd va m = Inr (pte_of m pd va AND PTE_D \<noteq> 0)"
    using lookup_page_find [OF assms, of False] z pte_of_addr [of m pd va]
    by (cases "pte_addr m pd va = 0") (simp_all add: pagedir_is_dirty_def)
  show "pagedir_is_accessed pd va m = Inr (pte_of m pd va AND PTE_A \<noteq> 0)"
    using lookup_page_find [OF assms, of False] z pte_of_addr [of m pd va]
    by (cases "pte_addr m pd va = 0") (simp_all add: pagedir_is_accessed_def)
qed

lemma pagedir_set_flag_spec:
  assumes "wf_pd m pd" and "is_user_vaddr va" and "cr3 m < PHYS_BASE" and "pte_addr m pd va \<noteq> 0"
  shows "\<exists>m'. pagedir_set_dirty pd va d m = Inr m' \<and> wf_pd m' pd \<and> m' = m\<lparr>ram_of := ram_of m'\<rparr>
     \<and> (\<forall>vb. is_user_vaddr vb \<longrightarrow> pte_of m' pd vb = (if pg_round_down vb = pg_round_down va
            then if d then pte_of m pd va OR PTE_D else pte_of m pd va AND NOT PTE_D else pte_of m pd vb))
     \<and> same_pages (- pd_pages m pd) m m'"
    and "\<exists>m'. pagedir_set_accessed pd va d m = Inr m' \<and> wf_pd m' pd \<and> m' = m\<lparr>ram_of := ram_of m'\<rparr>
     \<and> (\<forall>vb. is_user_vaddr vb \<longrightarrow> pte_of m' pd vb = (if pg_round_down vb = pg_round_down va
            then if d then pte_of m pd va OR PTE_A else pte_of m pd va AND NOT PTE_A else pte_of m pd vb))
     \<and> same_pages (- pd_pages m pd) m m'"
proof -
  have inv: "invalidate_pagedir pd (m\<lparr>ram_of := r\<rparr>) = Inr (m\<lparr>ram_of := r\<rparr>)" for r
    using kernel_pd [OF assms(1)] assms(3) by (intro invalidate_pagedir_id) simp_all
  note look = lookup_page_find [OF assms(1,2), of False] and up = pagedir_update_spec [OF assms(1,2,4)] and at = pte_of_addr [OF assms(4)]
  show "\<exists>m'. pagedir_set_dirty pd va d m = Inr m' \<and> wf_pd m' pd \<and> m' = m\<lparr>ram_of := ram_of m'\<rparr>
     \<and> (\<forall>vb. is_user_vaddr vb \<longrightarrow> pte_of m' pd vb = (if pg_round_down vb = pg_round_down va
            then if d then pte_of m pd va OR PTE_D else pte_of m pd va AND NOT PTE_D else pte_of m pd vb))
     \<and> same_pages (- pd_pages m pd) m m'"
    using look up [of "if d then pte_of m pd va OR PTE_D else pte_of m pd va AND NOT PTE_D"] at inv assms(4)
    by (cases d) (auto simp: pagedir_set_dirty_def)
  show "\<exists>m'. pagedir_set_accessed pd va d m = Inr m' \<and> wf_pd m' pd \<and> m' = m\<lparr>ram_of := ram_of m'\<rparr>
     \<and> (\<forall>vb. is_user_vaddr vb \<longrightarrow> pte_of m' pd vb = (if pg_round_down vb = pg_round_down va
            then if d then pte_of m pd va OR PTE_A else pte_of m pd va AND NOT PTE_A else pte_of m pd vb))
     \<and> same_pages (- pd_pages m pd) m m'"
    using look up [of "if d then pte_of m pd va OR PTE_A else pte_of m pd va AND NOT PTE_A"] at inv assms(4)
    by (cases d) (auto simp: pagedir_set_accessed_def)
qed

section \<open>A small memory\<close>

definition demo_pds :: kmem where
  "demo_pds = demo_kmem\<lparr>ram_of := (\<lambda>_. 0), kernel_pool := \<lparr>used_map = \<lparr>bit_cnt = 8, bits = [3]\<rparr>, pool_base = 0xc0101000\<rparr>\<rparr>"

lemma demo_pds_used: "kernel_used demo_pds = {0xc0101000, 0xc0102000}"
proof -
  have "i < 8 \<and> bit (3 :: 32 word) (i mod 32) \<longleftrightarrow> i = 0 \<or> i = 1" for i :: nat
  proof (cases "i < 8")
    case True
    then have "i \<in> {0, 1, 2, 3, 4, 5, 6, 7}" by auto
    then show ?thesis by (elim insertE) simp_all
  qed auto
  moreover have "i \<in> used_bits \<lparr>bit_cnt = 8, bits = [3]\<rparr> \<longleftrightarrow> i < 8 \<and> bit (3 :: 32 word) (i mod 32)" for i
    by (cases "i < 8") (simp_all add: used_bits_def bits_of_def)
  ultimately have "used_bits \<lparr>bit_cnt = 8, bits = [3]\<rparr> = {0, 1}" by (intro set_eqI) simp
  then show ?thesis by (simp add: used_pages_def demo_pds_def pool_page_def)
qed

lemma demo_pds_entries: "pde_at demo_pds pd i = 0"
  by (simp add: pde_at_def demo_pds_def load32_def le_word32_def)

lemma wf_demo_pds: "wf_kmem demo_pds"
  by (simp add: wf_kmem_def wf_pool_def pool_end_def demo_pds_def demo_kmem_def wf_bitmap_def elem_cnt_def ELEM_BITS_def
      DIV_ROUND_UP_def SIZE_MAX_def aligned_iff unat_PHYS_BASE word_le_nat_alt)

lemma wf_demo_pd: "wf_pd demo_pds 0xc0101000" "wf_pd demo_pds 0xc0102000"
  using wf_demo_pds by (simp_all add: wf_pd_def demo_pds_used demo_pds_entries)

lemma demo_pd_pages: "pd_pages demo_pds pd = {pd}"
  by (simp add: pd_pages_def demo_pds_entries)

lemma demo_pd_empty: "pte_of demo_pds pd va = 0" "page_map demo_pds pd va = None"
  by (simp_all add: pte_of_def page_map_def demo_pds_entries)

lemma demo_args:
  "aligned 0x8048000" "is_user_vaddr 0x8048000" "kpage_ok demo_pds 0xc0200000" "0xc0101000 \<noteq> init_page_dir demo_pds"
  "cr3 demo_pds < PHYS_BASE"
  by (simp_all add: aligned_iff is_user_vaddr_def kpage_ok_def PHYS_BASE_def demo_pds_def demo_kmem_def PGBITS_def word_less_nat_alt)

lemma demo_kernel_free: "kernel_used demo_pds \<noteq> pool_pages (kernel_pool demo_pds)"
proof -
  have "pool_page (kernel_pool demo_pds) 7 = 0xc0108000" by (simp add: pool_page_def demo_pds_def)
  then have "0xc0108000 \<in> pool_pages (kernel_pool demo_pds)" by (force simp: pool_pages_def demo_pds_def)
  moreover have "0xc0108000 \<notin> kernel_used demo_pds" by (simp add: demo_pds_used)
  ultimately show ?thesis by metis
qed

section \<open>Properties\<close>

text \<open>
  C14. \<^verbatim>\<open>pagedir_set_page\<close> implements an update of the map from user pages to frames: called as
  its assertions demand, it returns, keeps the directory well formed, and either adds exactly the
  requested mapping, after which \<^verbatim>\<open>pagedir_get_page\<close> translates every address of that page
  to the same offset in the frame, or reports failure with all mappings as before, which happens
  only when no page of the kernel pool is free.
\<close>

theorem pagedir_set_page_refines:
  assumes "wf_pd m pd" and "pd \<noteq> init_page_dir m" and "aligned upage" and "is_user_vaddr upage" and "kpage_ok m kpage"
    and "page_map m pd upage = None" and "kpages_ok m pd"
  shows "\<exists>ok m'. pagedir_set_page pd upage kpage w m = Inr (ok, m') \<and> wf_pd m' pd
     \<and> (\<forall>va. is_user_vaddr va \<longrightarrow>
          page_map m' pd va = (if ok \<and> pg_round_down va = upage then Some (kpage, w) else page_map m pd va)
          \<and> pagedir_get_page pd va m' = (if ok \<and> pg_round_down va = upage then Inr (kpage + pg_ofs va) else pagedir_get_page pd va m))
     \<and> (\<not> ok \<longrightarrow> kernel_used m = pool_pages (kernel_pool m))"
proof -
  obtain ok m' where m': "pagedir_set_page pd upage kpage w m = Inr (ok, m')" "wf_pd m' pd"
     "\<And>vb. is_user_vaddr vb \<Longrightarrow> pte_of m' pd vb =
          (if ok \<and> pg_round_down vb = upage then (kpage - PHYS_BASE) OR (if w then 7 else 5) else pte_of m pd vb)"
     "\<not> ok \<longrightarrow> kernel_used m = pool_pages (kernel_pool m)"
    using pagedir_set_page_spec [OF assms(1-5)] assms(6) unfolding page_map_None_iff by blast
  have map: "page_map m' pd va = (if ok \<and> pg_round_down va = upage then Some (kpage, w) else page_map m pd va)"
    if "is_user_vaddr va" for va
    using m'(3) [OF that] page_map_new [OF assms(5), of m' pd va w] page_map_pte [of m' pd va m va]
    by (cases "ok \<and> pg_round_down va = upage") auto
  have "kpages_ok m' pd"
    unfolding kpages_ok_def
  proof (intro allI impI)
    fix va assume va: "is_user_vaddr va" "pte_of m' pd va AND PTE_P \<noteq> 0"
    show "pte_of m' pd va AND PTE_ADDR < PHYS_BASE"
      using m'(3) [OF va(1)] va assms(5,7) new_pte(2) [of kpage w] new_pde(3) [of kpage]
      by (cases "ok \<and> pg_round_down va = upage") (simp_all add: kpages_ok_def kpage_ok_def)
  qed
  then show ?thesis
    using m'(1,2,4) map pagedir_get_page_spec [OF assms(1,7)] pagedir_get_page_spec [OF m'(2)] by auto
qed

theorem pagedir_set_page_refines_witness:
  "\<exists>m'. pagedir_set_page 0xc0101000 0x8048000 0xc0200000 True demo_pds = Inr (True, m')
     \<and> pagedir_get_page 0xc0101000 0x8048123 m' = Inr 0xc0200123"
proof -
  have fo: "kpages_ok demo_pds 0xc0101000" by (simp add: kpages_ok_def demo_pd_empty)
  obtain ok m' where m': "pagedir_set_page 0xc0101000 0x8048000 0xc0200000 True demo_pds = Inr (ok, m')"
     "\<forall>va. is_user_vaddr va \<longrightarrow> pagedir_get_page 0xc0101000 va m' =
        (if ok \<and> pg_round_down va = 0x8048000 then Inr (0xc0200000 + pg_ofs va) else pagedir_get_page 0xc0101000 va demo_pds)"
     "\<not> ok \<longrightarrow> kernel_used demo_pds = pool_pages (kernel_pool demo_pds)"
    using pagedir_set_page_refines [OF wf_demo_pd(1) demo_args(4,1,2,3) demo_pd_empty(2) fo, of True] by blast
  have "is_user_vaddr 0x8048123" "pg_round_down 0x8048123 = 0x8048000" "pg_ofs 0x8048123 = 0x123"
    by (simp_all add: is_user_vaddr_def PHYS_BASE_def pg_round_down_def pg_ofs_def PGMASK_mask mask_eq_exp_minus_1)
  then show ?thesis using m' demo_kernel_free by auto
qed

text \<open>
  C15. Processes are isolated from each other: whatever \<^verbatim>\<open>pagedir_set_page\<close> does to one directory,
  a directory that shares no page with it keeps its well-formedness and every one of its mappings,
  shares no page with it afterwards either, and no byte of a data page changes.
\<close>

theorem pagedir_set_page_isolated:
  assumes "wf_pd m pd" and "pd \<noteq> init_page_dir m" and "aligned upage" and "is_user_vaddr upage" and "kpage_ok m kpage"
    and "page_map m pd upage = None" and "wf_pd m pd'" and "pd_pages m pd \<inter> pd_pages m pd' = {}"
  shows "\<exists>ok m'. pagedir_set_page pd upage kpage w m = Inr (ok, m') \<and> wf_pd m' pd'
     \<and> pd_pages m' pd \<inter> pd_pages m' pd' = {}
     \<and> (\<forall>va. is_user_vaddr va \<longrightarrow> page_map m' pd' va = page_map m pd' va)
     \<and> (\<forall>x. pg_round_down x \<in> user_used m \<longrightarrow> ram_of m' x = ram_of m x)"
proof -
  obtain ok m' where m': "pagedir_set_page pd upage kpage w m = Inr (ok, m')" "wf_pd m' pd"
     "same_pages (others m pd) m m'" "kernel_used m \<subseteq> kernel_used m'" "pd_pages m' pd \<inter> others m pd = {}"
    using pagedir_set_page_spec [OF assms(1-5)] assms(6) unfolding page_map_None_iff by blast
  have sub: "pd_pages m pd' \<subseteq> others m pd" using wf_pd_facts(6) [OF assms(7)] assms(8) by (auto simp: others_def)
  have sub': "pd_pages m pd' \<subseteq> kernel_used m'" using wf_pd_facts(6) [OF assms(7)] m'(4) by blast
  note w = wf_pd_same [OF assms(7) wf_pd_facts(1) [OF m'(2)] sub' same_pages_mono [OF m'(3) sub]]
  have "user_used m \<subseteq> others m pd" using user_not_pd [OF assms(1)] by (auto simp: others_def)
  then have "\<forall>x. pg_round_down x \<in> user_used m \<longrightarrow> ram_of m' x = ram_of m x" using m'(3) by (auto simp: same_pages_def)
  moreover have "pd_pages m' pd \<inter> pd_pages m' pd' = {}" using w(2) sub m'(5) by blast
  ultimately show ?thesis using m'(1) w(1) page_map_pte [OF w(3)] by blast
qed

theorem pagedir_set_page_isolated_witness:
  "\<exists>ok m'. pagedir_set_page 0xc0101000 0x8048000 0xc0200000 True demo_pds = Inr (ok, m') \<and> wf_pd m' 0xc0102000
     \<and> pd_pages m' 0xc0101000 \<inter> pd_pages m' 0xc0102000 = {}"
proof -
  have "pd_pages demo_pds 0xc0101000 \<inter> pd_pages demo_pds 0xc0102000 = {}" by (simp add: demo_pd_pages)
  from pagedir_set_page_isolated [OF wf_demo_pd(1) demo_args(4,1,2,3) demo_pd_empty(2) wf_demo_pd(2) this] show ?thesis by blast
qed

text \<open>
  C32. \<^verbatim>\<open>pagedir_destroy\<close> leaks nothing and frees nothing else: for a directory that owns the frames
  it maps, every assertion passes, both loops finish, the page allocator stays well formed, and the
  pages returned to it are exactly the mapped frames, the page tables and the directory.
\<close>

theorem pagedir_destroy_frees_all:
  assumes "wf_pd m pd" and "owns_frames m pd" and "pd \<noteq> init_page_dir m"
  shows "\<exists>m'. pagedir_destroy pd m = Inr m' \<and> wf_kmem m' \<and> kernel_used m' = kernel_used m - pd_pages m pd
     \<and> user_used m' = user_used m - mapped_frames m pd"
  using assms by (rule pagedir_destroy_spec)

theorem pagedir_destroy_frees_all_witness:
  "\<exists>m' m''. pagedir_set_page 0xc0101000 0x8048000 0xc0200000 True demo_pds = Inr (True, m')
     \<and> pagedir_destroy 0xc0101000 m' = Inr m'' \<and> user_used m'' = user_used m' - {0xc0200000}"
proof -
  let ?pd = "0xc0101000 :: vaddr"
  have p0: "pte_of demo_pds ?pd 0x8048000 AND PTE_P = 0" by (simp add: demo_pd_empty)
  obtain ok m' where m': "pagedir_set_page ?pd 0x8048000 0xc0200000 True demo_pds = Inr (ok, m')" "wf_pd m' ?pd"
     "\<And>vb. is_user_vaddr vb \<Longrightarrow> pte_of m' ?pd vb =
          (if ok \<and> pg_round_down vb = 0x8048000 then (0xc0200000 - PHYS_BASE) OR (if True then 7 else 5) else pte_of demo_pds ?pd vb)"
     "user_pool m' = user_pool demo_pds" "init_page_dir m' = init_page_dir demo_pds"
     "\<not> ok \<longrightarrow> kernel_used demo_pds = pool_pages (kernel_pool demo_pds)"
    using pagedir_set_page_spec [OF wf_demo_pd(1) demo_args(4,1,2,3) p0, of True] by blast
  then have ok: "ok" using demo_kernel_free by blast
  have map: "page_map m' ?pd va = (if pg_round_down va = 0x8048000 then Some (0xc0200000, True) else None)" if "is_user_vaddr va" for va
    using m'(3) [OF that] ok page_map_new [OF demo_args(3), of m' ?pd va True] demo_pd_empty [of ?pd va] page_map_pte [of m' ?pd va demo_pds va]
    by (cases "pg_round_down va = 0x8048000") simp_all
  have "0xc0200000 \<in> user_used m'"
  proof -
    have "0 \<in> used_bits \<lparr>bit_cnt = 8, bits = [5]\<rparr>" by (simp add: used_bits_def bits_of_def)
    then show ?thesis by (force simp: m'(4) demo_pds_def demo_kmem_def used_pages_def pool_page_def)
  qed
  then have own: "owns_frames m' ?pd" using map by (auto simp: owns_frames_def split: if_splits)
  have "mapped_frames m' ?pd = {0xc0200000}"
    using map demo_args(1,2) by (auto simp: mapped_frames_def pg_round_down_minus split: if_splits intro!: exI [of _ "0x8048000"])
  moreover have "?pd \<noteq> init_page_dir m'" using demo_args(4) m'(5) by simp
  ultimately show ?thesis using pagedir_destroy_frees_all [OF m'(2) own] m'(1) ok by auto
qed

end
