(* ===== verification/Swap.thy ===== *)
theory Swap
  imports Palloc Block_Device
begin

unbundle bit_operations_syntax

text \<open>
  Swap space, vm/swap.c (project 3): a block device divided into slots of one page, with a bitmap
  of the slots in use. The abstract view is a partial map from slots to page contents;
  \<^verbatim>\<open>swap_out\<close> and \<^verbatim>\<open>swap_in\<close> are shown to store into and take out of that map.
\<close>

section \<open>Model\<close>

record swap_state =
  global_swap_block :: block
  swap_bitmap :: bitmap

definition SECTORS_PER_PAGE :: nat where
  "SECTORS_PER_PAGE = PGSIZE div BLOCK_SECTOR_SIZE"

text \<open>
  \<open>ok1\<close>, \<open>ok2\<close> and \<open>junk\<close> describe the allocations inside
  \<^verbatim>\<open>bitmap_create\<close>.
\<close>

definition swap_init :: "bool \<Rightarrow> bool \<Rightarrow> 32 word list \<Rightarrow> block_table \<Rightarrow> swap_state res" where
  "swap_init ok1 ok2 junk bt =
     bind_res (block_get_role BLOCK_SWAP bt) (\<lambda>b.
     if b = NULL then Inl Panic
     else bind_res (bitmap_create ok1 ok2 junk (block_size (block_at bt b) div SECTORS_PER_PAGE)) (\<lambda>bm.
       case bm of None \<Rightarrow> Inl Panic
       | Some bm \<Rightarrow> bind_res (bitmap_set_all bm False) (\<lambda>bm.
           Inr \<lparr>global_swap_block = block_at bt b, swap_bitmap = bm\<rparr>)))"

text \<open>The sector number is computed on 32-bit integers; \<open>k\<close> sectors are left, from the \<open>i\<close>th on.\<close>

definition swap_sector :: "nat \<Rightarrow> nat \<Rightarrow> nat" where
  "swap_sector index i = unat (of_nat index * of_nat SECTORS_PER_PAGE + of_nat i :: 32 word)"

fun swap_read_loop :: "vaddr \<Rightarrow> nat \<Rightarrow> nat \<Rightarrow> nat \<Rightarrow> block \<Rightarrow> ram \<Rightarrow> (block \<times> ram) res" where
  "swap_read_loop frame index i 0 b r = Inr (b, r)"
| "swap_read_loop frame index i (Suc k) b r =
     bind_res (block_read b (swap_sector index i)) (\<lambda>(d, b).
     swap_read_loop frame index (i + 1) k b (put_bytes r (frame + of_nat (i * BLOCK_SECTOR_SIZE)) d))"

definition read_from_block :: "vaddr \<Rightarrow> nat \<Rightarrow> swap_state \<Rightarrow> kmem \<Rightarrow> (swap_state \<times> kmem) res" where
  "read_from_block frame index s m =
     bind_res (swap_read_loop frame index 0 SECTORS_PER_PAGE (global_swap_block s) (ram_of m)) (\<lambda>(b, r).
     Inr (s\<lparr>global_swap_block := b\<rparr>, m\<lparr>ram_of := r\<rparr>))"

fun swap_write_loop :: "vaddr \<Rightarrow> nat \<Rightarrow> nat \<Rightarrow> nat \<Rightarrow> ram \<Rightarrow> block \<Rightarrow> block res" where
  "swap_write_loop frame index i 0 r b = Inr b"
| "swap_write_loop frame index i (Suc k) r b =
     bind_res (block_write b (swap_sector index i) (get_bytes r (frame + of_nat (i * BLOCK_SECTOR_SIZE)) BLOCK_SECTOR_SIZE)) (\<lambda>b.
     swap_write_loop frame index (i + 1) k r b)"

definition write_from_block :: "vaddr \<Rightarrow> nat \<Rightarrow> swap_state \<Rightarrow> kmem \<Rightarrow> swap_state res" where
  "write_from_block frame index s m =
     bind_res (swap_write_loop frame index 0 SECTORS_PER_PAGE (ram_of m) (global_swap_block s)) (\<lambda>b.
     Inr (s\<lparr>global_swap_block := b\<rparr>))"

definition swap_in :: "vaddr \<Rightarrow> nat \<Rightarrow> swap_state \<Rightarrow> kmem \<Rightarrow> (swap_state \<times> kmem) res" where
  "swap_in page swap_index s m =
     bind_res (read_from_block page swap_index s m) (\<lambda>(s, m).
     bind_res (bitmap_flip (swap_bitmap s) swap_index) (\<lambda>b.
     Inr (s\<lparr>swap_bitmap := b\<rparr>, m)))"

definition swap_out :: "vaddr \<Rightarrow> swap_state \<Rightarrow> kmem \<Rightarrow> (nat \<times> swap_state) res" where
  "swap_out page s m =
     bind_res (bitmap_scan_and_flip (swap_bitmap s) 0 1 False) (\<lambda>(swap_index, b).
     bind_res (write_from_block page swap_index (s\<lparr>swap_bitmap := b\<rparr>) m) (\<lambda>s.
     Inr (swap_index, s)))"

section \<open>Slots\<close>

definition wf_swap :: "swap_state \<Rightarrow> bool" where
  "wf_swap s \<longleftrightarrow> wf_bitmap (swap_bitmap s) \<and> blk_type (global_swap_block s) \<noteq> BLOCK_FOREIGN
     \<and> 8 * bit_cnt (swap_bitmap s) \<le> blk_size (global_swap_block s) \<and> blk_size (global_swap_block s) \<le> 4294967288
     \<and> (\<forall>k. length (blk_data (global_swap_block s) k) = 512)"

definition slot_page :: "block \<Rightarrow> nat \<Rightarrow> byte list" where
  "slot_page b i = concat (map (\<lambda>k. blk_data b (8 * i + k)) [0..<8])"

definition swap_map :: "swap_state \<Rightarrow> nat \<Rightarrow> byte list option" where
  "swap_map s i = (if i \<in> used_bits (swap_bitmap s) then Some (slot_page (global_swap_block s) i) else None)"

lemma SECTORS_PER_PAGE_8 [simp]: "SECTORS_PER_PAGE = 8"
  by (simp add: SECTORS_PER_PAGE_def PGSIZE_def BLOCK_SECTOR_SIZE_def)

lemma swap_sector_slot: "8 * index + i < 4294967296 \<Longrightarrow> swap_sector index i = 8 * index + i"
proof -
  have "of_nat index * of_nat SECTORS_PER_PAGE + of_nat i = (of_nat (8 * index + i) :: 32 word)" by simp
  then show "8 * index + i < 4294967296 \<Longrightarrow> swap_sector index i = 8 * index + i"
    unfolding swap_sector_def by (simp only: unat_of_nat) simp
qed

lemma swap_sector_error: "swap_sector BITMAP_ERROR 0 = 4294967288"
  by (simp add: swap_sector_def BITMAP_ERROR_def SIZE_MAX_def)

lemma swap_write_loop_spec:
  assumes "blk_type b \<noteq> BLOCK_FOREIGN" and "8 * index + i + k \<le> blk_size b" and "blk_size b \<le> 4294967288"
  shows "\<exists>b'. swap_write_loop frame index i k r b = Inr b' \<and> blk_type b' = blk_type b \<and> blk_size b' = blk_size b
     \<and> (\<forall>j. blk_data b' j = (if 8 * index + i \<le> j \<and> j < 8 * index + i + k
          then get_bytes r (frame + of_nat ((j - 8 * index) * 512)) 512 else blk_data b j))"
  using assms
proof (induction k arbitrary: i b)
  case (Suc k)
  let ?s = "8 * index + i"
  let ?b = "b\<lparr>blk_data := (blk_data b)(?s := get_bytes r (frame + of_nat (i * 512)) 512), write_cnt := write_cnt b + 1\<rparr>"
  have "block_write b (swap_sector index i) (get_bytes r (frame + of_nat (i * BLOCK_SECTOR_SIZE)) BLOCK_SECTOR_SIZE) = Inr ?b"
    using Suc.prems by (simp add: swap_sector_slot block_write_ok BLOCK_SECTOR_SIZE_def)
  moreover obtain b' where "swap_write_loop frame index (i + 1) k r ?b = Inr b'" "blk_type b' = blk_type b" "blk_size b' = blk_size b"
     "\<forall>j. blk_data b' j = (if 8 * index + (i + 1) \<le> j \<and> j < 8 * index + (i + 1) + k
          then get_bytes r (frame + of_nat ((j - 8 * index) * 512)) 512 else blk_data ?b j)"
    using Suc.IH [of ?b "i + 1"] Suc.prems by auto
  ultimately show ?case by auto
qed auto

lemma swap_read_loop_spec:
  assumes "8 * index + i + k \<le> blk_size b" and "blk_size b \<le> 4294967288" and "\<forall>j. length (blk_data b j) = 512"
  shows "\<exists>b'. swap_read_loop frame index i k b r =
       Inr (b', put_bytes r (frame + of_nat (i * 512)) (concat (map (\<lambda>j. blk_data b (8 * index + j)) [i..<i + k])))
     \<and> blk_data b' = blk_data b \<and> blk_type b' = blk_type b \<and> blk_size b' = blk_size b"
  using assms
proof (induction k arbitrary: i b r)
  case (Suc k)
  let ?b = "b\<lparr>read_cnt := read_cnt b + 1\<rparr>"
  have rd: "block_read b (swap_sector index i) = Inr (blk_data b (8 * index + i), ?b)"
    using Suc.prems by (simp add: swap_sector_slot block_read_ok)
  obtain b' where b': "swap_read_loop frame index (i + 1) k ?b (put_bytes r (frame + of_nat (i * 512)) (blk_data b (8 * index + i)))
     = Inr (b', put_bytes (put_bytes r (frame + of_nat (i * 512)) (blk_data b (8 * index + i))) (frame + of_nat ((i + 1) * 512))
          (concat (map (\<lambda>j. blk_data b (8 * index + j)) [i + 1..<i + 1 + k])))"
     "blk_data b' = blk_data b" "blk_type b' = blk_type b" "blk_size b' = blk_size b"
    using Suc.IH [of "i + 1" ?b] Suc.prems by auto
  have "frame + of_nat ((i + 1) * 512) = frame + of_nat (i * 512) + of_nat (length (blk_data b (8 * index + i)))"
    using Suc.prems(3) by (simp add: algebra_simps)
  moreover have "[i..<i + Suc k] = i # [i + 1..<i + 1 + k]" by (simp add: upt_conv_Cons)
  ultimately show ?case using rd b' by (simp add: put_bytes_append BLOCK_SECTOR_SIZE_def ac_simps del: upt_Suc)
qed simp

lemma get_bytes_sectors: "concat (map (\<lambda>k. get_bytes r (a + of_nat (k * 512)) 512) [0..<n]) = get_bytes r a (n * 512)"
proof (induction n)
  case (Suc n)
  have "Suc n * 512 = n * 512 + 512" by simp
  then show ?case using Suc.IH by (simp only: get_bytes_append upt_Suc) simp
qed simp

lemma length_slot_page: "\<forall>k. length (blk_data b k) = 512 \<Longrightarrow> length (slot_page b i) = 4096"
  by (simp add: slot_page_def length_concat comp_def sum_list_triv)

lemma slot_pages_apart: "i \<noteq> j \<Longrightarrow> k < 8 \<Longrightarrow> \<not> (8 * i \<le> 8 * j + k \<and> 8 * j + k < 8 * i + (8 :: nat))"
  by arith

lemma write_from_block_spec:
  assumes "wf_swap s" and "index < bit_cnt (swap_bitmap s)"
  shows "\<exists>b'. write_from_block frame index s m = Inr (s\<lparr>global_swap_block := b'\<rparr>) \<and> blk_type b' = blk_type (global_swap_block s)
     \<and> blk_size b' = blk_size (global_swap_block s) \<and> (\<forall>k. length (blk_data b' k) = 512)
     \<and> slot_page b' = (slot_page (global_swap_block s))(index := page_bytes m frame)"
proof -
  let ?b = "global_swap_block s"
  have ok: "blk_type ?b \<noteq> BLOCK_FOREIGN" "8 * index + 0 + 8 \<le> blk_size ?b" "blk_size ?b \<le> 4294967288"
    "\<forall>k. length (blk_data ?b k) = 512"
    using assms by (auto simp: wf_swap_def)
  obtain b' where b': "swap_write_loop frame index 0 8 (ram_of m) ?b = Inr b'" "blk_type b' = blk_type ?b" "blk_size b' = blk_size ?b"
     and d: "\<And>j. blk_data b' j = (if 8 * index + 0 \<le> j \<and> j < 8 * index + 0 + 8
          then get_bytes (ram_of m) (frame + of_nat ((j - 8 * index) * 512)) 512 else blk_data ?b j)"
    using swap_write_loop_spec [OF ok(1-3), of frame "ram_of m"] by blast
  have "slot_page b' index = concat (map (\<lambda>k. get_bytes (ram_of m) (frame + of_nat (k * 512)) 512) [0..<8])"
    unfolding slot_page_def d by (intro arg_cong [of _ _ concat] map_cong) auto
  then have new: "slot_page b' index = page_bytes m frame"
    using get_bytes_sectors [of "ram_of m" frame 8] by (simp add: page_bytes_def)
  have "slot_page b' j = slot_page ?b j" if "j \<noteq> index" for j
    unfolding slot_page_def d using slot_pages_apart [of index j] that
    by (intro arg_cong [of _ _ concat] map_cong) auto
  then have "slot_page b' = (slot_page ?b)(index := page_bytes m frame)" using new by (simp add: fun_eq_iff)
  moreover have "\<forall>k. length (blk_data b' k) = 512" using ok(4) by (simp add: d)
  ultimately show ?thesis using b' by (intro exI [of _ b']) (simp add: write_from_block_def)
qed

lemma swap_out_spec:
  assumes "wf_swap s" and "i < bit_cnt (swap_bitmap s)" and "swap_map s i = None"
  shows "\<exists>j s'. swap_out p s m = Inr (j, s') \<and> wf_swap s' \<and> swap_map s j = None \<and> j \<le> i
     \<and> bit_cnt (swap_bitmap s') = bit_cnt (swap_bitmap s) \<and> swap_map s' = (swap_map s)(j \<mapsto> page_bytes m p)"
proof -
  have bm: "wf_bitmap (swap_bitmap s)" using assms(1) by (simp add: wf_swap_def)
  obtain r b where rb: "bitmap_scan_and_flip (swap_bitmap s) 0 1 False = Inr (r, b)" "wf_bitmap b" "bit_cnt b = bit_cnt (swap_bitmap s)"
    "scan_result (swap_bitmap s) 0 1 False r"
    "used_bits b = (if r = BITMAP_ERROR then used_bits (swap_bitmap s) else used_bits (swap_bitmap s) \<union> {r..<r + 1})"
    using bitmap_scan_and_flip_spec [OF bm, of 0 1] by auto
  have free: "i \<notin> used_bits (swap_bitmap s)" using assms(3) by (simp add: swap_map_def split: if_splits)
  have g: "group_at (swap_bitmap s) 1 False i" using assms(2) free by (simp add: group_at_False_iff)
  have r: "r \<noteq> BITMAP_ERROR" using rb(4) g by (auto simp: scan_result_def)
  have gr: "group_at (swap_bitmap s) 1 False r" and ri: "r \<le> i"
    using rb(4) r g by (auto simp: scan_result_def not_less [symmetric])
  have rlt: "r < bit_cnt (swap_bitmap s)" "r \<notin> used_bits (swap_bitmap s)" using gr by (auto simp: group_at_False_iff)
  have ub: "used_bits b = insert r (used_bits (swap_bitmap s))" using rb(5) r by auto
  have wf1: "wf_swap (s\<lparr>swap_bitmap := b\<rparr>)" using assms(1) rb(2,3) by (simp add: wf_swap_def)
  obtain b' where b': "write_from_block p r (s\<lparr>swap_bitmap := b\<rparr>) m = Inr (s\<lparr>swap_bitmap := b, global_swap_block := b'\<rparr>)"
     "blk_type b' = blk_type (global_swap_block s)" "blk_size b' = blk_size (global_swap_block s)" "\<forall>k. length (blk_data b' k) = 512"
     "slot_page b' = (slot_page (global_swap_block s))(r := page_bytes m p)"
    using write_from_block_spec [OF wf1, of r p m] rlt(1) rb(3) by auto
  let ?s = "s\<lparr>swap_bitmap := b, global_swap_block := b'\<rparr>"
  have "swap_map ?s = (swap_map s)(r \<mapsto> page_bytes m p)" by (auto simp: swap_map_def fun_eq_iff ub b'(5))
  moreover have "swap_out p s m = Inr (r, ?s)" using rb(1) b'(1) by (simp add: swap_out_def)
  moreover have "wf_swap ?s" using wf1 b'(2-4) by (simp add: wf_swap_def)
  ultimately show ?thesis using rlt(2) ri rb(3) by (auto simp: swap_map_def)
qed

lemma swap_out_full:
  assumes "wf_swap s" and "\<forall>i<bit_cnt (swap_bitmap s). swap_map s i \<noteq> None"
  shows "swap_out p s m = Inl Panic"
proof -
  have bm: "wf_bitmap (swap_bitmap s)" using assms(1) by (simp add: wf_swap_def)
  obtain r b where rb: "bitmap_scan_and_flip (swap_bitmap s) 0 1 False = Inr (r, b)" "scan_result (swap_bitmap s) 0 1 False r"
    using bitmap_scan_and_flip_spec [OF bm, of 0 1] by auto
  have "\<not> group_at (swap_bitmap s) 1 False j" for j
    using assms(2) by (auto simp: group_at_False_iff swap_map_def split: if_splits)
  then have r: "r = BITMAP_ERROR" using rb(2) by (auto simp: scan_result_def split: if_splits)
  have "block_write (global_swap_block s) (swap_sector r 0) d = Inl Panic" for d
    unfolding r swap_sector_error using assms(1) by (simp add: block_write_def check_sector_def wf_swap_def)
  then show ?thesis using rb(1) by (simp add: swap_out_def write_from_block_def eval_nat_numeral)
qed

lemma swap_in_spec:
  assumes "wf_swap s" and "swap_map s i = Some c"
  shows "\<exists>s' m'. swap_in p i s m = Inr (s', m') \<and> wf_swap s' \<and> swap_map s' = (swap_map s)(i := None)
     \<and> bit_cnt (swap_bitmap s') = bit_cnt (swap_bitmap s)
     \<and> m' = m\<lparr>ram_of := put_bytes (ram_of m) p c\<rparr> \<and> page_bytes m' p = c \<and> length c = 4096"
proof -
  let ?b = "global_swap_block s"
  have iu: "i \<in> used_bits (swap_bitmap s)" and c: "c = slot_page ?b i" using assms(2) by (auto simp: swap_map_def split: if_splits)
  have ilt: "i < bit_cnt (swap_bitmap s)" "bits_of (swap_bitmap s) ! i" using iu by (auto simp: used_bits_def)
  have ok: "8 * i + 0 + 8 \<le> blk_size ?b" "blk_size ?b \<le> 4294967288" "\<forall>k. length (blk_data ?b k) = 512" "wf_bitmap (swap_bitmap s)"
    using assms(1) ilt(1) by (auto simp: wf_swap_def)
  obtain b' where b': "swap_read_loop p i 0 8 ?b (ram_of m) = Inr (b', put_bytes (ram_of m) p c)"
     "blk_data b' = blk_data ?b" "blk_type b' = blk_type ?b" "blk_size b' = blk_size ?b"
    using swap_read_loop_spec [OF ok(1-3), of p "ram_of m"] by (auto simp: c slot_page_def)
  obtain bm where bm: "bitmap_flip (swap_bitmap s) i = Inr bm" "wf_bitmap bm" "bit_cnt bm = bit_cnt (swap_bitmap s)"
     "bits_of bm = (bits_of (swap_bitmap s))[i := False]"
    using bitmap_flip_spec [OF ok(4) ilt(1)] ilt(2) by auto
  have ub: "used_bits bm = used_bits (swap_bitmap s) - {i}"
  proof -
    have "(bits_of (swap_bitmap s))[i := False] ! x \<longleftrightarrow> x \<noteq> i \<and> bits_of (swap_bitmap s) ! x" if "x < bit_cnt (swap_bitmap s)" for x
      using that ilt(1) by (auto simp: nth_list_update)
    then show ?thesis using bm(3) by (auto simp: used_bits_def bm(4))
  qed
  let ?s = "s\<lparr>global_swap_block := b', swap_bitmap := bm\<rparr>" and ?m = "m\<lparr>ram_of := put_bytes (ram_of m) p c\<rparr>"
  have len: "length c = 4096" using length_slot_page [OF ok(3)] c by simp
  have "swap_map ?s = (swap_map s)(i := None)" by (auto simp: swap_map_def fun_eq_iff ub slot_page_def b'(2))
  moreover have "swap_in p i s m = Inr (?s, ?m)" using b'(1) bm(1) by (simp add: swap_in_def read_from_block_def)
  moreover have "wf_swap ?s" using assms(1) b'(2-4) bm(2,3) by (simp add: wf_swap_def)
  moreover have "page_bytes ?m p = c" using get_put_bytes [of c "ram_of m" p] len by (simp add: page_bytes_def)
  ultimately show ?thesis using len bm(3) by auto
qed

section \<open>Properties\<close>

definition demo_swap :: swap_state where
  "demo_swap = \<lparr>global_swap_block = \<lparr>blk_name = ''hdb1'', blk_type = BLOCK_SWAP, blk_size = 100,
       blk_data = (\<lambda>_. replicate 512 9), read_cnt = 0, write_cnt = 0\<rparr>,
     swap_bitmap = \<lparr>bit_cnt = 12, bits = [0xFFB]\<rparr>\<rparr>"

lemma wf_demo_swap: "wf_swap demo_swap"
  by (simp add: wf_swap_def demo_swap_def wf_bitmap_def elem_cnt_def ELEM_BITS_def DIV_ROUND_UP_def SIZE_MAX_def)

lemma demo_swap_free: "2 < bit_cnt (swap_bitmap demo_swap)" "swap_map demo_swap 2 = None"
  by (simp_all add: swap_map_def demo_swap_def used_bits_def bits_of_def)

text \<open>
  C16. The swap space refines a partial map from slots to page contents. With a slot free,
  \<^verbatim>\<open>swap_out\<close> returns a slot that was free, adds the contents of the page under it and changes no
  other slot; \<^verbatim>\<open>swap_in\<close> of that slot, into any page of any memory and after any further
  operations that left the slot alone, succeeds, restores these contents byte for byte and frees
  exactly this slot. With every slot in use, \<^verbatim>\<open>swap_out\<close> stops the machine.
\<close>

theorem swap_refines_map:
  assumes "wf_swap s"
  shows "if \<forall>i<bit_cnt (swap_bitmap s). swap_map s i \<noteq> None then swap_out p s m = Inl Panic
    else \<exists>j s'. swap_out p s m = Inr (j, s') \<and> wf_swap s' \<and> swap_map s j = None
      \<and> swap_map s' = (swap_map s)(j \<mapsto> page_bytes m p)
      \<and> (\<forall>t q n. wf_swap t \<and> swap_map t j = swap_map s' j \<longrightarrow>
           (\<exists>t' n'. swap_in q j t n = Inr (t', n') \<and> wf_swap t' \<and> swap_map t' = (swap_map t)(j := None)
              \<and> page_bytes n' q = page_bytes m p))"
proof (cases "\<forall>i<bit_cnt (swap_bitmap s). swap_map s i \<noteq> None")
  case True
  then show ?thesis using swap_out_full [OF assms] by simp
next
  case False
  then obtain i where "i < bit_cnt (swap_bitmap s)" "swap_map s i = None" by blast
  from swap_out_spec [OF assms this] obtain j s' where out: "swap_out p s m = Inr (j, s')" "wf_swap s'" "swap_map s j = None"
     "swap_map s' = (swap_map s)(j \<mapsto> page_bytes m p)" by blast
  have "\<exists>t' n'. swap_in q j t n = Inr (t', n') \<and> wf_swap t' \<and> swap_map t' = (swap_map t)(j := None)
              \<and> page_bytes n' q = page_bytes m p" if "wf_swap t" "swap_map t j = swap_map s' j" for t q n
    using swap_in_spec [OF that(1), of j "page_bytes m p" q n] that(2) out(4) by auto
  then show ?thesis using out False by auto
qed

theorem swap_refines_map_witness:
  "\<exists>j s'. swap_out 0xc0200000 demo_swap demo_kmem = Inr (j, s') \<and> wf_swap s'
     \<and> swap_map s' = (swap_map demo_swap)(j \<mapsto> page_bytes demo_kmem 0xc0200000)"
proof -
  have "\<not> (\<forall>i<bit_cnt (swap_bitmap demo_swap). swap_map demo_swap i \<noteq> None)" using demo_swap_free by blast
  then show ?thesis using swap_refines_map [OF wf_demo_swap, of "0xc0200000" demo_kmem] by (simp only: if_False) blast
qed

end
