(* ===== verification/User_Stack.thy ===== *)
theory User_Stack
  imports Pagedir_Properties Strings
begin

unbundle bit_operations_syntax

text \<open>
  The initial stack of a user program: \<^verbatim>\<open>install_page\<close> and \<^verbatim>\<open>setup_stack\<close> of
  userprog/process.c (projects 2 and 4). The kernel builds the stack by writing to user addresses,
  which the processor translates through the directory of the new process. An access inside the
  kernel to an address that is not mapped is the fault \<open>OutOfBounds\<close> of the model; the write
  protection of pages holds for the kernel too (threads/start.S sets \<^verbatim>\<open>CR0_WP\<close>), and a write to
  a read-only page ends in the \<^verbatim>\<open>PANIC\<close> of \<^verbatim>\<open>kill\<close> in userprog/exception.c.
\<close>

section \<open>Access to user memory\<close>

definition mmu :: "bool \<Rightarrow> vaddr \<Rightarrow> vaddr \<Rightarrow> kmem \<Rightarrow> vaddr res" where
  "mmu wr pd va m =
     (if is_user_vaddr va
      then case page_map m pd va of
          None \<Rightarrow> Inl OutOfBounds
        | Some (kpage, w) \<Rightarrow> if wr \<and> \<not> w then Inl Panic else Inr (kpage + pg_ofs va)
      else if drop_bit PGBITS (va - PHYS_BASE) < init_ram_pages m then Inr va else Inl OutOfBounds)"

fun uput :: "vaddr \<Rightarrow> vaddr \<Rightarrow> byte list \<Rightarrow> kmem \<Rightarrow> kmem res" where
  "uput pd va [] m = Inr m"
| "uput pd va (b # bs) m =
     bind_res (mmu True pd va m) (\<lambda>a. uput pd (va + 1) bs (m\<lparr>ram_of := (ram_of m)(a := b)\<rparr>))"

fun uget :: "vaddr \<Rightarrow> vaddr \<Rightarrow> nat \<Rightarrow> kmem \<Rightarrow> byte list res" where
  "uget pd va 0 m = Inr []"
| "uget pd va (Suc n) m =
     bind_res (mmu False pd va m) (\<lambda>a. bind_res (uget pd (va + 1) n m) (\<lambda>bs. Inr (ram_of m a # bs)))"

section \<open>Model\<close>

definition install_page :: "vaddr \<Rightarrow> vaddr \<Rightarrow> vaddr \<Rightarrow> bool \<Rightarrow> kmem \<Rightarrow> (bool \<times> kmem) res" where
  "install_page pd upage kpage writable m =
     bind_res (pagedir_get_page pd upage m) (\<lambda>p.
     if p = 0 then pagedir_set_page pd upage kpage writable m else Inr (False, m))"

text \<open>\<open>s\<close> is a string with its null byte; the result is the new stack pointer.\<close>

definition push_string :: "vaddr \<Rightarrow> vaddr \<Rightarrow> byte list \<Rightarrow> kmem \<Rightarrow> (vaddr \<times> kmem) res" where
  "push_string pd esp s m =
     (let esp = esp - of_nat (length s) in bind_res (uput pd esp s m) (\<lambda>m. Inr (esp, m)))"

text \<open>
  The loop over the arguments: \<open>buf\<close> is the copy of the command line, \<open>save_ptr\<close> where
  the tokenizer goes on, \<open>argvs\<close> the entries of the local array of 128 pointers set so far.
\<close>

function push_args :: "vaddr \<Rightarrow> byte list \<Rightarrow> nat \<Rightarrow> vaddr \<Rightarrow> vaddr list \<Rightarrow> kmem \<Rightarrow> (vaddr \<times> vaddr list \<times> kmem) res" where
  "push_args pd buf save_ptr esp argvs m =
     bind_res (strtok_r buf save_ptr [32, 0]) (\<lambda>(token, save_ptr, buf).
     case token of
       None \<Rightarrow> Inr (esp, argvs, m)
     | Some t \<Rightarrow>
         bind_res (push_string pd esp (cstr (drop t buf) @ [0]) m) (\<lambda>(esp, m).
         if length argvs < 128 then push_args pd buf save_ptr esp (argvs @ [esp]) m else Inl OutOfBounds))"
  by pat_completeness auto
termination
proof (relation "measure (\<lambda>(pd, buf, s, _). length buf - s)")
  fix pd buf save_ptr esp argvs m x token y save_ptr' buf' t
  assume "strtok_r buf save_ptr [32, 0] = Inr x" "(token, y) = x" "(save_ptr', buf') = y" "token = Some t"
  then have "strtok_r buf save_ptr [32, 0] = Inr (Some t, save_ptr', buf')" by simp
  from strtok_r_progress [OF this]
  show "((pd, buf', save_ptr', z), pd, buf, save_ptr, esp, argvs, m) \<in> measure (\<lambda>(pd, buf, s, _). length buf - s)" for z
    by auto
qed simp

declare push_args.simps [simp del]

text \<open>The loop that aligns the stack pointer; it runs at most three times.\<close>

fun align_loop :: "nat \<Rightarrow> vaddr \<Rightarrow> vaddr \<Rightarrow> kmem \<Rightarrow> (vaddr \<times> kmem) res" where
  "align_loop 0 pd esp m = (if unat esp mod 4 \<noteq> 0 then Inl NoReturn else Inr (esp, m))"
| "align_loop (Suc n) pd esp m =
     (if unat esp mod 4 \<noteq> 0
      then bind_res (push_string pd esp [0] m) (\<lambda>(esp, m). align_loop n pd esp m)
      else Inr (esp, m))"

fun push_words :: "vaddr \<Rightarrow> vaddr \<Rightarrow> 32 word list \<Rightarrow> kmem \<Rightarrow> (vaddr \<times> kmem) res" where
  "push_words pd esp [] m = Inr (esp, m)"
| "push_words pd esp (w # ws) m =
     bind_res (push_string pd esp (le_bytes32 w) m) (\<lambda>(esp, m). push_words pd esp ws m)"

text \<open>
  \<open>esp\<close> is the stack pointer on entry, \<open>ok\<close> whether the copy of the command line can be
  allocated; \<open>file_name\<close> is the command line with its null byte.
\<close>

definition setup_stack :: "vaddr \<Rightarrow> vaddr \<Rightarrow> byte list \<Rightarrow> bool \<Rightarrow> kmem \<Rightarrow> (bool \<times> vaddr \<times> kmem) res" where
  "setup_stack pd esp file_name ok m =
     bind_res (palloc_get_page (PAL_USER OR PAL_ZERO) m) (\<lambda>(kpage, m).
     bind_res
       (if kpage \<noteq> 0
        then bind_res (install_page pd (PHYS_BASE - of_nat PGSIZE) kpage True m) (\<lambda>(success, m).
             if success then Inr (True, PHYS_BASE, m)
             else bind_res (palloc_free_page kpage m) (\<lambda>m. Inr (False, esp, m)))
        else Inr (False, esp, m)) (\<lambda>(success, esp, m).
     bind_res (assert_res ok) (\<lambda>_.
     bind_res (strlen file_name) (\<lambda>n.
     let fn_copy = take (n + 1) file_name in
     bind_res (strtok_r fn_copy 0 [32, 0]) (\<lambda>(token, save_ptr, fn_copy).
     case token of
       None \<Rightarrow> Inl AssertFail
     | Some t \<Rightarrow>
         bind_res (push_string pd esp (cstr (drop t fn_copy) @ [0]) m) (\<lambda>(esp, m).
         bind_res (push_args pd fn_copy save_ptr esp [esp] m) (\<lambda>(esp, argvs, m).
         bind_res (align_loop 3 pd esp m) (\<lambda>(esp, m).
         bind_res (push_words pd esp (0 # rev argvs) m) (\<lambda>(esp, m).
         bind_res (push_words pd esp [esp, of_nat (length argvs), 0] m) (\<lambda>(esp, m).
         Inr (success, esp, m)))))))))))"

section \<open>The stack page\<close>

definition STACK_PAGE :: vaddr where "STACK_PAGE = 0xbffff000"

definition stack_ok :: "kmem \<Rightarrow> vaddr \<Rightarrow> vaddr \<Rightarrow> bool" where
  "stack_ok m pd kpage \<longleftrightarrow> wf_pd m pd \<and> page_map m pd STACK_PAGE = Some (kpage, True) \<and> kpage \<in> user_used m"

lemma STACK_PAGE_props: "aligned STACK_PAGE" "is_user_vaddr STACK_PAGE" "PHYS_BASE - of_nat PGSIZE = STACK_PAGE" "unat STACK_PAGE = 3221221376"
  by (simp_all add: STACK_PAGE_def aligned_iff is_user_vaddr_def PHYS_BASE_def PGSIZE_def)

text \<open>The bytes of the stack page, as the process sees them.\<close>

definition stack_bytes :: "kmem \<Rightarrow> vaddr \<Rightarrow> byte list" where
  "stack_bytes m kpage = get_bytes (ram_of m) kpage 4096"

definition stack_pos :: "nat \<Rightarrow> vaddr" where
  "stack_pos i = STACK_PAGE + of_nat i"

lemma stack_pos_props:
  assumes "i < 4096"
  shows "pg_round_down (stack_pos i) = STACK_PAGE" and "pg_ofs (stack_pos i) = of_nat i" and "is_user_vaddr (stack_pos i)"
proof -
  have i: "unat (of_nat i :: 32 word) = i" using assms by (simp add: unat_of_nat)
  show rd: "pg_round_down (stack_pos i) = STACK_PAGE"
    unfolding stack_pos_def using pg_round_down_page_plus [OF STACK_PAGE_props(1), of "of_nat i"] assms i by simp
  show "pg_ofs (stack_pos i) = of_nat i"
    using round_down_plus_ofs [of "stack_pos i"] unfolding rd by (simp add: stack_pos_def)
  have "unat (stack_pos i) = 3221221376 + i"
    using unat_page_plus [OF STACK_PAGE_props(1), of "of_nat i"] assms i by (simp add: stack_pos_def STACK_PAGE_props)
  then show "is_user_vaddr (stack_pos i)" using assms by (simp add: is_user_vaddr_def word_less_nat_alt unat_PHYS_BASE)
qed

lemma stack_pos_4096: "stack_pos 4096 = PHYS_BASE"
  by (simp add: stack_pos_def STACK_PAGE_def PHYS_BASE_def)

lemma stack_pos_diff: "n \<le> i \<Longrightarrow> stack_pos i - of_nat n = stack_pos (i - n)"
  by (simp add: stack_pos_def of_nat_diff)

lemma page_map_round: "pg_round_down va = pg_round_down vb \<Longrightarrow> page_map m pd va = page_map m pd vb"
  unfolding same_page_iff by (rule page_map_pte, rule pte_of_pd_no) simp_all

lemma mmu_stack:
  assumes "stack_ok m pd kpage" and "i < 4096"
  shows "mmu wr pd (stack_pos i) m = Inr (kpage + of_nat i)"
proof -
  have "page_map m pd (stack_pos i) = Some (kpage, True)"
    using page_map_round [of "stack_pos i" STACK_PAGE m pd] stack_pos_props(1) [OF assms(2)] assms(1) STACK_PAGE_props(1)
    by (simp add: stack_ok_def pg_round_down_minus)
  then show ?thesis using stack_pos_props [OF assms(2)] by (simp add: mmu_def)
qed

lemma stack_frame_props:
  assumes "stack_ok m pd kpage"
  shows "aligned kpage" and "kpage \<notin> pd_pages m pd" and "wf_kmem m" and "wf_pd m pd"
  using assms used_page_props(1) [of "user_pool m"] user_not_pd wf_pd_facts(1) [of m pd]
  by (auto simp: stack_ok_def wf_kmem_def wf_pd_def)

lemma stack_write_byte:
  fixes b :: byte
  assumes "stack_ok m pd kpage" and "i < 4096"
  defines "m' \<equiv> m\<lparr>ram_of := (ram_of m)(kpage + of_nat i := b)\<rparr>"
  shows "stack_ok m' pd kpage" and "stack_bytes m' kpage = (stack_bytes m kpage)[i := b]" and "same_pages (- {kpage}) m m'"
proof -
  note f = stack_frame_props [OF assms(1)]
  have i: "unat (of_nat i :: 32 word) = i" using assms(2) by (simp add: unat_of_nat)
  have in_page: "pg_round_down (kpage + of_nat i) = kpage" using pg_round_down_page_plus [OF f(1)] assms(2) i by simp
  then show sp: "same_pages (- {kpage}) m m'" by (auto simp: same_pages_def m'_def)
  have wk: "wf_kmem m'" using f(3) by (simp add: m'_def)
  have "pd_pages m pd \<subseteq> kernel_used m'" using wf_pd_facts(6) [OF f(4)] by (simp add: m'_def)
  moreover have "same_pages (pd_pages m pd) m m'" using sp f(2) by (auto intro: same_pages_mono)
  ultimately have w: "wf_pd m' pd" "pte_of m' pd STACK_PAGE = pte_of m pd STACK_PAGE"
    using wf_pd_same [OF f(4) wk] STACK_PAGE_props(2) by blast+
  then show "stack_ok m' pd kpage"
    using assms(1) page_map_pte [OF w(2)] by (simp add: stack_ok_def m'_def)
  show "stack_bytes m' kpage = (stack_bytes m kpage)[i := b]"
  proof (rule nth_equalityI)
    fix j assume "j < length (stack_bytes m' kpage)"
    then have j: "j < 4096" by (simp add: stack_bytes_def)
    have "unat (of_nat j :: 32 word) = j" using j by (simp add: unat_of_nat)
    then have "kpage + of_nat j = kpage + of_nat i \<longleftrightarrow> j = i" using i by (metis add_left_cancel)
    then show "stack_bytes m' kpage ! j = (stack_bytes m kpage)[i := b] ! j"
      using j assms(2) by (auto simp: stack_bytes_def get_bytes_map m'_def nth_list_update)
  qed (simp add: stack_bytes_def)
qed

lemma length_stack_bytes [simp]: "length (stack_bytes m kpage) = 4096"
  by (simp add: stack_bytes_def)

lemma uput_stack:
  assumes "stack_ok m pd kpage" and "i + length bs \<le> 4096"
  shows "\<exists>m'. uput pd (stack_pos i) bs m = Inr m' \<and> stack_ok m' pd kpage \<and> same_pages (- {kpage}) m m'
     \<and> user_pool m' = user_pool m \<and> kernel_pool m' = kernel_pool m
     \<and> stack_bytes m' kpage = take i (stack_bytes m kpage) @ bs @ drop (i + length bs) (stack_bytes m kpage)"
  using assms
proof (induction bs arbitrary: i m)
  case Nil
  then show ?case by (simp add: same_pages_def)
next
  case (Cons b bs)
  then have i: "i < 4096" "Suc i + length bs \<le> 4096" by simp_all
  let ?m = "m\<lparr>ram_of := (ram_of m)(kpage + of_nat i := b)\<rparr>"
  note w = stack_write_byte [OF Cons.prems(1) i(1), of b]
  obtain m' where m': "uput pd (stack_pos (Suc i)) bs ?m = Inr m'" "stack_ok m' pd kpage" "same_pages (- {kpage}) ?m m'"
     "user_pool m' = user_pool ?m" "kernel_pool m' = kernel_pool ?m"
     "stack_bytes m' kpage = take (Suc i) (stack_bytes ?m kpage) @ bs @ drop (Suc i + length bs) (stack_bytes ?m kpage)"
    using Cons.IH [OF w(1) i(2)] by blast
  have "stack_pos (Suc i) = stack_pos i + 1" by (simp add: stack_pos_def)
  then have step: "uput pd (stack_pos i) (b # bs) m = Inr m'"
    using m'(1) mmu_stack [OF Cons.prems(1) i(1)] by simp
  have "take (Suc i) (stack_bytes ?m kpage) = take i (stack_bytes m kpage) @ [b]"
    using i(1) by (simp add: w(2) take_Suc_conv_app_nth)
  then have "stack_bytes m' kpage = take i (stack_bytes m kpage) @ (b # bs) @ drop (i + length (b # bs)) (stack_bytes m kpage)"
    using m'(6) by (simp add: w(2))
  then show ?case using step m'(2-5) same_pages_trans [OF w(3)] by (intro exI [of _ m']) simp
qed

text \<open>
  The part of the stack page from the stack pointer on. Each push writes below what has been pushed
  before, so it adds to the front of that part.
\<close>

definition stack_has :: "kmem \<Rightarrow> vaddr \<Rightarrow> vaddr \<Rightarrow> vaddr \<Rightarrow> byte list \<Rightarrow> bool" where
  "stack_has m pd kpage esp bs \<longleftrightarrow> stack_ok m pd kpage \<and> length bs \<le> 4096 \<and> esp = stack_pos (4096 - length bs)
     \<and> drop (4096 - length bs) (stack_bytes m kpage) = bs"

definition stack_same :: "kmem \<Rightarrow> kmem \<Rightarrow> vaddr \<Rightarrow> bool" where
  "stack_same m m' kpage \<longleftrightarrow> same_pages (- {kpage}) m m' \<and> user_pool m' = user_pool m \<and> kernel_pool m' = kernel_pool m"

lemma stack_same_trans: "stack_same m m' k \<Longrightarrow> stack_same m' m'' k \<Longrightarrow> stack_same m m'' k"
  using same_pages_trans by (auto simp: stack_same_def)

lemma stack_same_refl [simp]: "stack_same m m k"
  by (simp add: stack_same_def same_pages_def)

lemma push_string_spec:
  assumes "stack_has m pd kpage esp bs" and "length s + length bs \<le> 4096"
  shows "\<exists>m'. push_string pd esp s m = Inr (stack_pos (4096 - length bs - length s), m')
     \<and> stack_has m' pd kpage (stack_pos (4096 - length bs - length s)) (s @ bs) \<and> stack_same m m' kpage"
proof -
  let ?i = "4096 - length bs - length s"
  have sp: "esp - of_nat (length s) = stack_pos ?i"
    using assms stack_pos_diff [of "length s" "4096 - length bs"] by (simp add: stack_has_def)
  obtain m' where m': "uput pd (stack_pos ?i) s m = Inr m'" "stack_ok m' pd kpage" "stack_same m m' kpage"
     "stack_bytes m' kpage = take ?i (stack_bytes m kpage) @ s @ drop (?i + length s) (stack_bytes m kpage)"
    using uput_stack [of m pd kpage ?i s] assms by (auto simp: stack_has_def stack_same_def)
  have "?i + length s = 4096 - length bs" using assms(2) by simp
  then have "drop ?i (stack_bytes m' kpage) = s @ bs" using m'(4) assms by (simp add: stack_has_def)
  moreover have "4096 - length (s @ bs) = ?i" by simp
  ultimately have "stack_has m' pd kpage (stack_pos ?i) (s @ bs)" using m'(2) assms(2) unfolding stack_has_def by simp
  then show ?thesis using m'(1,3) sp by (simp add: push_string_def)
qed

text \<open>What the arguments look like: the strings, last argument first, and where each one starts.\<close>

definition arg_strings :: "byte list list \<Rightarrow> byte list" where
  "arg_strings ts = concat (rev (map (\<lambda>t. t @ [0]) ts))"

definition arg_addr :: "byte list list \<Rightarrow> nat \<Rightarrow> vaddr" where
  "arg_addr ts i = stack_pos (4096 - length (arg_strings (take (Suc i) ts)))"

lemma arg_strings_snoc: "arg_strings (ts @ [t]) = (t @ [0]) @ arg_strings ts"
  by (simp add: arg_strings_def)

lemma arg_addr_append: "i < length ts \<Longrightarrow> arg_addr (ts @ us) i = arg_addr ts i"
  by (simp add: arg_addr_def)

lemma push_args_all:
  assumes "strtok_all buf save_ptr [32, 0] = Inr us"
    and "stack_has m pd kpage esp (arg_strings ts)" and "argvs = map (arg_addr ts) [0..<length ts]"
    and "length (arg_strings (ts @ us)) \<le> 4096" and "length (ts @ us) \<le> 128"
  shows "\<exists>m'. push_args pd buf save_ptr esp argvs m =
       Inr (stack_pos (4096 - length (arg_strings (ts @ us))), map (arg_addr (ts @ us)) [0..<length (ts @ us)], m')
     \<and> stack_has m' pd kpage (stack_pos (4096 - length (arg_strings (ts @ us)))) (arg_strings (ts @ us)) \<and> stack_same m m' kpage"
  using assms
proof (induction pd buf save_ptr esp argvs m arbitrary: ts us rule: push_args.induct)
  case (1 pd buf save_ptr esp argvs m)
  obtain tok sp buf' where st: "strtok_r buf save_ptr [32, 0] = Inr (tok, sp, buf')"
    using "1.prems"(1) by (subst (asm) strtok_all.simps) (auto simp: res_simps)
  show ?case
  proof (cases tok)
    case None
    then have "us = []" using "1.prems"(1) st by (subst (asm) strtok_all.simps) simp
    then show ?thesis using "1.prems" st None by (subst push_args.simps) (simp add: stack_has_def)
  next
    case (Some t)
    let ?u = "cstr (drop t buf')"
    obtain us' where us: "us = ?u # us'" "strtok_all buf' sp [32, 0] = Inr us'"
      using "1.prems"(1) st Some by (subst (asm) strtok_all.simps) (auto simp: res_simps)
    have len: "length (?u @ [0]) + length (arg_strings ts) \<le> 4096"
      using "1.prems"(4) by (simp add: us(1) arg_strings_def)
    obtain m1 where m1: "push_string pd esp (?u @ [0]) m = Inr (stack_pos (4096 - length (arg_strings ts) - length (?u @ [0])), m1)"
       "stack_has m1 pd kpage (stack_pos (4096 - length (arg_strings ts) - length (?u @ [0]))) ((?u @ [0]) @ arg_strings ts)" "stack_same m m1 kpage"
      using push_string_spec [OF "1.prems"(2) len] by blast
    let ?esp = "stack_pos (4096 - length (arg_strings ts) - length (?u @ [0]))"
    have e: "?esp = arg_addr (ts @ [?u]) (length ts)"
      by (simp add: arg_addr_def arg_strings_snoc) (simp add: arg_strings_def ac_simps)
    have av: "argvs @ [?esp] = map (arg_addr (ts @ [?u])) [0..<length (ts @ [?u])]"
      using "1.prems"(3) e by (simp add: arg_addr_append)
    have hs: "stack_has m1 pd kpage ?esp (arg_strings (ts @ [?u]))" using m1(2) by (simp only: arg_strings_snoc)
    have n: "length argvs < 128" using "1.prems"(3,5) us(1) by simp
    obtain m' where "push_args pd buf' sp ?esp (argvs @ [?esp]) m1 =
       Inr (stack_pos (4096 - length (arg_strings ((ts @ [?u]) @ us'))), map (arg_addr ((ts @ [?u]) @ us')) [0..<length ((ts @ [?u]) @ us')], m')
     \<and> stack_has m' pd kpage (stack_pos (4096 - length (arg_strings ((ts @ [?u]) @ us')))) (arg_strings ((ts @ [?u]) @ us')) \<and> stack_same m1 m' kpage"
      using "1.IH" [OF st refl refl Some m1(1) refl n us(2) hs av] "1.prems"(4,5) us(1) by auto
    then show ?thesis
      using st Some m1(1,3) n us(1) stack_same_trans by (subst push_args.simps) auto
  qed
qed

section \<open>Padding and words\<close>

definition pad :: "nat \<Rightarrow> nat" where
  "pad n = (4 - n mod 4) mod 4"

lemma unat_stack_pos: "i \<le> 4096 \<Longrightarrow> unat (stack_pos i) = 3221221376 + i"
proof -
  assume "i \<le> 4096"
  then have "unat (of_nat i :: 32 word) = i" by (simp add: unat_of_nat)
  then show "unat (stack_pos i) = 3221221376 + i"
    using \<open>i \<le> 4096\<close> by (simp add: stack_pos_def unat_word_ariths STACK_PAGE_props(4))
qed

lemma pad_iff: "k = pad n \<longleftrightarrow> k < 4 \<and> (k + n) mod 4 = 0"
proof -
  have "n mod 4 = 0 \<or> n mod 4 = 1 \<or> n mod 4 = 2 \<or> n mod 4 = 3" by presburger
  then have "(pad n + n mod 4) mod 4 = 0" "pad n < 4" by (auto simp: pad_def)
  then have "(pad n + n) mod 4 = 0" by (simp add: mod_simps)
  with \<open>pad n < 4\<close> show ?thesis by presburger
qed

lemma stack_pos_mod: "n \<le> 4096 \<Longrightarrow> unat (stack_pos (4096 - n)) mod 4 = pad n"
  unfolding pad_iff by (simp add: unat_stack_pos mod_simps)

lemma pad_Suc: "pad n \<noteq> 0 \<Longrightarrow> pad n = Suc (pad (Suc n))"
proof -
  assume ne: "pad n \<noteq> 0"
  have "pad n < 4" "(pad n + n) mod 4 = 0" using pad_iff [of "pad n" n] by simp_all
  with ne have "pad n - 1 < 4" "(pad n - 1 + Suc n) mod 4 = 0" by simp_all
  then have "pad n - 1 = pad (Suc n)" by (simp only: pad_iff)
  then show ?thesis using ne by simp
qed

lemma align_loop_spec:
  assumes "stack_has m pd kpage esp bs" and "length bs + pad (length bs) \<le> 4096" and "pad (length bs) \<le> n"
  shows "\<exists>m'. align_loop n pd esp m = Inr (stack_pos (4096 - length bs - pad (length bs)), m')
     \<and> stack_has m' pd kpage (stack_pos (4096 - length bs - pad (length bs))) (replicate (pad (length bs)) 0 @ bs) \<and> stack_same m m' kpage"
  using assms
proof (induction n arbitrary: esp bs m)
  case 0
  then show ?case using stack_pos_mod [of "length bs"] by (auto simp: stack_has_def)
next
  case (Suc n)
  have md: "unat esp mod 4 = pad (length bs)" using Suc.prems(1) stack_pos_mod [of "length bs"] by (simp add: stack_has_def)
  show ?case
  proof (cases "pad (length bs) = 0")
    case True
    then show ?thesis using md Suc.prems(1) by (auto simp: stack_has_def)
  next
    case False
    note ps = pad_Suc [OF False]
    have "length [0 :: byte] + length bs \<le> 4096" using ps Suc.prems(2) by simp
    from push_string_spec [OF Suc.prems(1) this] obtain m1 where m1: "push_string pd esp [0] m = Inr (stack_pos (4096 - length bs - 1), m1)"
       "stack_has m1 pd kpage (stack_pos (4096 - length bs - 1)) (0 # bs)" "stack_same m m1 kpage" by auto
    obtain m' where "align_loop n pd (stack_pos (4096 - length bs - 1)) m1 = Inr (stack_pos (4096 - length (0 # bs) - pad (length (0 # bs))), m')"
     "stack_has m' pd kpage (stack_pos (4096 - length (0 # bs) - pad (length (0 # bs)))) (replicate (pad (length (0 # bs))) 0 @ 0 # bs)" "stack_same m1 m' kpage"
      using Suc.IH [OF m1(2)] ps Suc.prems(2,3) by auto
    moreover have "replicate (pad (length bs)) 0 @ bs = replicate (pad (length (0 # bs))) 0 @ 0 # bs"
      using ps by (simp add: replicate_app_Cons_same)
    ultimately show ?thesis using md False m1 ps stack_same_trans by auto
  qed
qed

lemma push_words_spec:
  assumes "stack_has m pd kpage esp bs" and "4 * length ws + length bs \<le> 4096"
  shows "\<exists>m'. push_words pd esp ws m = Inr (stack_pos (4096 - length bs - 4 * length ws), m')
     \<and> stack_has m' pd kpage (stack_pos (4096 - length bs - 4 * length ws)) (le_image32 (rev ws) @ bs) \<and> stack_same m m' kpage"
  using assms
proof (induction ws arbitrary: esp bs m)
  case Nil
  then show ?case by (simp add: stack_has_def le_image32_def)
next
  case (Cons w ws)
  have "length (le_bytes32 w) + length bs \<le> 4096" using Cons.prems(2) by simp
  from push_string_spec [OF Cons.prems(1) this] obtain m1 where m1: "push_string pd esp (le_bytes32 w) m = Inr (stack_pos (4096 - length bs - 4), m1)"
     "stack_has m1 pd kpage (stack_pos (4096 - length bs - 4)) (le_bytes32 w @ bs)" "stack_same m m1 kpage" by auto
  obtain m' where "push_words pd (stack_pos (4096 - length bs - 4)) ws m1 = Inr (stack_pos (4096 - length (le_bytes32 w @ bs) - 4 * length ws), m')"
     "stack_has m' pd kpage (stack_pos (4096 - length (le_bytes32 w @ bs) - 4 * length ws)) (le_image32 (rev ws) @ le_bytes32 w @ bs)" "stack_same m1 m' kpage"
    using Cons.IH [OF m1(2)] Cons.prems(2) by auto
  moreover have "le_image32 (rev (w # ws)) = le_image32 (rev ws) @ le_bytes32 w" by (simp add: le_image32_def)
  ultimately show ?case using m1 stack_same_trans by (auto simp: algebra_simps)
qed

lemma uget_stack:
  assumes "stack_ok m pd kpage" and "i + n \<le> 4096"
  shows "uget pd (stack_pos i) n m = Inr (take n (drop i (stack_bytes m kpage)))"
  using assms
proof (induction n arbitrary: i)
  case (Suc n)
  have "stack_pos (Suc i) = stack_pos i + 1" by (simp add: stack_pos_def)
  then have "uget pd (stack_pos i + 1) n m = Inr (take n (drop (Suc i) (stack_bytes m kpage)))"
    using Suc.IH [of "Suc i"] Suc.prems by simp
  moreover have "drop i (stack_bytes m kpage) = ram_of m (kpage + of_nat i) # drop (Suc i) (stack_bytes m kpage)"
    using Suc.prems(2) by (subst Cons_nth_drop_Suc [symmetric]) (simp_all add: stack_bytes_def get_bytes_map)
  ultimately show ?case using Suc.prems mmu_stack [OF Suc.prems(1), of i] by simp
qed simp

section \<open>A new stack page\<close>

lemma user_page_ok:
  assumes "wf_kmem m" and "p \<in> pool_pages (user_pool m)"
  shows "kpage_ok m p"
proof -
  have pl: "wf_pool (user_pool m)" and en: "pool_end (user_pool m) \<le> 3221225472 + 4096 * unat (init_ram_pages m)"
    using assms(1) by (simp_all add: wf_kmem_def unat_PHYS_BASE)
  obtain i where "i < bit_cnt (used_map (user_pool m))" and p: "p = pool_page (user_pool m) i" using assms(2) by (auto simp: pool_pages_def)
  note pr = pool_page_props [OF pl this(1), folded p]
  have "unat (drop_bit PGBITS (p - PHYS_BASE)) = (unat p - 3221225472) div 4096"
    using pr(2) by (simp add: PGBITS_def drop_bit_eq_div unat_div unat_sub unat_PHYS_BASE)
  also have "\<dots> < unat (init_ram_pages m)" using pr(4) en pr(2)
    by (simp add: div_less_iff_less_mult word_le_nat_alt unat_PHYS_BASE)
  finally show ?thesis using pr by (simp add: kpage_ok_def word_less_nat_alt)
qed

lemma install_page_spec:
  assumes "wf_pd m pd" and "pd \<noteq> init_page_dir m" and "aligned upage" and "is_user_vaddr upage" and "kpage_ok m kpage"
    and "page_map m pd upage = None" and "kpages_ok m pd" and "kernel_used m \<noteq> pool_pages (kernel_pool m)"
  shows "\<exists>m'. install_page pd upage kpage w m = Inr (True, m') \<and> wf_pd m' pd \<and> user_pool m' = user_pool m
     \<and> page_map m' pd upage = Some (kpage, w) \<and> init_ram_pages m' = init_ram_pages m \<and> init_page_dir m' = init_page_dir m
     \<and> same_pages (others m pd) m m'
     \<and> (\<forall>vb. is_user_vaddr vb \<longrightarrow> pg_round_down vb \<noteq> upage \<longrightarrow> page_map m' pd vb = page_map m pd vb)"
proof -
  have p0: "pte_of m pd upage AND PTE_P = 0" using assms(6) by (simp add: page_map_None_iff)
  have get: "pagedir_get_page pd upage m = Inr 0" using pagedir_get_page_spec [OF assms(1,7,4)] assms(6) by simp
  obtain ok m' where m': "pagedir_set_page pd upage kpage w m = Inr (ok, m')" "wf_pd m' pd"
     "\<And>vb. is_user_vaddr vb \<Longrightarrow> pte_of m' pd vb =
          (if ok \<and> pg_round_down vb = upage then (kpage - PHYS_BASE) OR (if w then 7 else 5) else pte_of m pd vb)"
     "same_pages (others m pd) m m'" "user_pool m' = user_pool m" "init_ram_pages m' = init_ram_pages m" "init_page_dir m' = init_page_dir m"
     "\<not> ok \<longrightarrow> kernel_used m = pool_pages (kernel_pool m)"
    using pagedir_set_page_spec [OF assms(1-5) p0] by blast
  have ok: ok using m'(8) assms(8) by blast
  have "pg_round_down upage = upage" using assms(3) by (simp add: pg_round_down_minus)
  then have "page_map m' pd upage = Some (kpage, w)" using m'(3) [OF assms(4)] ok page_map_new [OF assms(5)] by simp
  moreover have "page_map m' pd vb = page_map m pd vb" if "is_user_vaddr vb" "pg_round_down vb \<noteq> upage" for vb
    using m'(3) [OF that(1)] that(2) by (intro page_map_pte) simp
  ultimately show ?thesis using m' ok get by (simp add: install_page_def)
qed

lemma palloc_user_spec:
  assumes "wf_pd m pd" and "flags = PAL_USER \<or> flags = (PAL_USER OR PAL_ZERO)" and "user_used m \<noteq> pool_pages (user_pool m)"
  shows "\<exists>kpage m'. palloc_get_page flags m = Inr (kpage, m') \<and> kpage \<noteq> 0 \<and> wf_pd m' pd \<and> kernel_pool m' = kernel_pool m
     \<and> kpage \<notin> user_used m \<and> user_used m' = insert kpage (user_used m) \<and> kpage_ok m' kpage
     \<and> init_ram_pages m' = init_ram_pages m \<and> init_page_dir m' = init_page_dir m
     \<and> (\<forall>va. is_user_vaddr va \<longrightarrow> pte_of m' pd va = pte_of m pd va) \<and> same_pages (- {kpage}) m m'"
proof -
  have fl: "flags AND PAL_ASSERT = 0" "True = (flags AND PAL_USER \<noteq> 0)"
    using assms(2) by (auto simp: PAL_USER_def PAL_ZERO_def PAL_ASSERT_def)
  note wk = wf_pd_facts(1) [OF assms(1)]
  obtain p m' where m': "palloc_get_page flags m = Inr (p, m')" "wf_kmem m'" "kernel_pool m' = kernel_pool m"
     "init_ram_pages m' = init_ram_pages m" "init_page_dir m' = init_page_dir m"
     "pool_base (user_pool m') = pool_base (user_pool m)" "bit_cnt (used_map (user_pool m')) = bit_cnt (used_map (user_pool m))"
    and c: "if p = 0 then user_used m = pool_pages (user_pool m)
       else p \<in> pool_pages (user_pool m) \<and> p \<notin> user_used m \<and> user_used m' = insert p (user_used m)
          \<and> ram_of m' = (\<lambda>x. if flags AND PAL_ZERO \<noteq> 0 \<and> pg_round_down x = p then 0 else ram_of m x)"
    using palloc_get_page_spec [OF wk fl] by (auto simp: the_pool_def split: if_splits)
  have p: "p \<noteq> 0" using c assms(3) by auto
  then have pp: "p \<in> pool_pages (user_pool m)" using c by simp
  have sp: "same_pages (- {p}) m m'" using c p by (simp add: same_pages_def)
  have "p \<notin> pd_pages m pd" using pp pool_pages_disjoint [OF wk] wf_pd_facts(6) [OF assms(1)] used_pages_subset by blast
  then have sp': "same_pages (pd_pages m pd) m m'" using sp by (auto intro: same_pages_mono)
  have sub: "pd_pages m pd \<subseteq> kernel_used m'" using wf_pd_facts(6) [OF assms(1)] m'(3) by simp
  note w = wf_pd_same [OF assms(1) m'(2) sub sp']
  have "pool_pages (user_pool m') = pool_pages (user_pool m)" using m'(6,7) by (simp add: pool_pages_def pool_page_def)
  then have "kpage_ok m' p" using user_page_ok [OF m'(2)] pp by simp
  then show ?thesis using m' c p w(1,3) sp by auto
qed

section \<open>The layout\<close>

text \<open>The stack pointer, and the bytes from there to the top of user memory.\<close>

definition args_size :: "byte list list \<Rightarrow> nat" where
  "args_size ts = length (arg_strings ts)"

definition frame_size :: "byte list list \<Rightarrow> nat" where
  "frame_size ts = 12 + 4 * (length ts + 1) + pad (args_size ts) + args_size ts"

definition stack_image :: "byte list list \<Rightarrow> byte list" where
  "stack_image ts =
     le_image32 ([0, of_nat (length ts), stack_pos (4096 - frame_size ts) + 12] @ map (arg_addr ts) [0..<length ts] @ [0])
     @ replicate (pad (args_size ts)) 0 @ arg_strings ts"

definition is_space :: "byte \<Rightarrow> bool" where
  "is_space c \<longleftrightarrow> c \<in> set [32]"

lemma drop_suffix: "length S = 4096 \<Longrightarrow> drop (4096 - length (A @ B)) S = A @ B \<Longrightarrow> drop (4096 - length B) S = B"
proof -
  assume S: "length S = 4096" "drop (4096 - length (A @ B)) S = A @ B"
  have le: "length (A @ B) \<le> 4096" using arg_cong [OF S(2), of length] S(1) by simp
  have "drop (length A) (drop (4096 - length (A @ B)) S) = B" using S(2) by simp
  moreover have "length A + (4096 - length (A @ B)) = 4096 - length B" using le by simp
  ultimately show ?thesis by (metis drop_drop)
qed

lemma arg_string_at:
  assumes "stack_has m pd kpage esp (A @ arg_strings ts)" and "i < length ts"
  shows "uget pd (arg_addr ts i) (Suc (length (ts ! i))) m = Inr (ts ! i @ [0])"
proof -
  let ?Z = "arg_strings (take (Suc i) ts)"
  have Z: "?Z = (ts ! i @ [0]) @ arg_strings (take i ts)"
    using assms(2) by (simp add: take_Suc_conv_app_nth arg_strings_snoc)
  have "arg_strings ts = concat (rev (map (\<lambda>t. t @ [0]) (drop (Suc i) ts))) @ ?Z"
    unfolding arg_strings_def by (metis append_take_drop_id concat_append map_append rev_append)
  then have d: "drop (4096 - length ?Z) (stack_bytes m kpage) = ?Z"
    using assms(1) drop_suffix [of "stack_bytes m kpage" "A @ concat (rev (map (\<lambda>t. t @ [0]) (drop (Suc i) ts)))" ?Z]
    by (simp add: stack_has_def)
  have le: "length ?Z \<le> 4096" using arg_cong [OF d, of length] by simp
  have "4096 - length ?Z + Suc (length (ts ! i)) \<le> 4096" using le unfolding Z by simp
  moreover have "stack_ok m pd kpage" using assms(1) by (simp add: stack_has_def)
  ultimately have "uget pd (stack_pos (4096 - length ?Z)) (Suc (length (ts ! i))) m = Inr (take (Suc (length (ts ! i))) ?Z)"
    using uget_stack [of m pd kpage] d by (simp only:)
  moreover have "take (Suc (length (ts ! i))) ?Z = ts ! i @ [0]" unfolding Z by simp
  ultimately show ?thesis by (simp only: arg_addr_def)
qed

lemma build_stack:
  assumes "stack_has m pd kpage PHYS_BASE []" and "0 \<notin> set str" and "tokens is_space str = ts" and "ts \<noteq> []"
    and "length ts \<le> 128" and "frame_size ts \<le> 4096"
  shows "\<exists>t sp buf m'. strtok_r (str @ [0]) 0 [32, 0] = Inr (Some t, sp, buf)
    \<and> bind_res (push_string pd PHYS_BASE (cstr (drop t buf) @ [0]) m) (\<lambda>(esp, m).
       bind_res (push_args pd buf sp esp [esp] m) (\<lambda>(esp, argvs, m).
       bind_res (align_loop 3 pd esp m) (\<lambda>(esp, m).
       bind_res (push_words pd esp (0 # rev argvs) m) (\<lambda>(esp, m).
       bind_res (push_words pd esp [esp, of_nat (length argvs), 0] m) (\<lambda>(esp, m). Inr (success, esp, m)))))) =
      Inr (success, stack_pos (4096 - frame_size ts), m')
    \<and> stack_has m' pd kpage (stack_pos (4096 - frame_size ts)) (stack_image ts) \<and> stack_same m m' kpage"
proof -
  have all: "strtok_all (str @ [0]) 0 [32, 0] = Inr ts"
    using strtok_all_tokens [of "[32]" str "[]" "[]" "[]"] assms(2,3) by (simp add: is_space_def [abs_def])
  obtain tok sp buf where st: "strtok_r (str @ [0]) 0 [32, 0] = Inr (tok, sp, buf)"
    using all by (subst (asm) strtok_all.simps) (auto simp: res_simps)
  obtain t us where tok: "tok = Some t" and us: "ts = cstr (drop t buf) # us" "strtok_all buf sp [32, 0] = Inr us"
    using all assms(4) st by (subst (asm) strtok_all.simps) (auto simp: res_simps split: option.splits)
  let ?u = "cstr (drop t buf)" and ?A = "arg_strings ts"
  have lens: "length ?A + pad (length ?A) + 4 * (length ts + 1) + 12 \<le> 4096"
    using assms(6) by (simp add: frame_size_def args_size_def)
  have one: "arg_strings [?u] = ?u @ [0]" by (simp add: arg_strings_def)
  have "length (?u @ [0]) + length [] \<le> 4096" using lens by (simp add: us(1) arg_strings_def)
  from push_string_spec [OF assms(1) this] obtain m1 where m1: "push_string pd PHYS_BASE (?u @ [0]) m = Inr (arg_addr [?u] 0, m1)"
     "stack_has m1 pd kpage (arg_addr [?u] 0) (arg_strings [?u])" "stack_same m m1 kpage"
    by (auto simp: arg_addr_def one)
  have fit: "length (arg_strings ([?u] @ us)) \<le> 4096" "length ([?u] @ us) \<le> 128" using lens assms(5) by (simp_all add: us(1))
  obtain m2 where m2: "push_args pd buf sp (arg_addr [?u] 0) [arg_addr [?u] 0] m1 =
       Inr (stack_pos (4096 - length ?A), map (arg_addr ts) [0..<length ts], m2)"
     "stack_has m2 pd kpage (stack_pos (4096 - length ?A)) ?A" "stack_same m1 m2 kpage"
    using push_args_all [OF us(2) m1(2) _ fit] by (auto simp: us(1))
  let ?p = "pad (length ?A)" and ?argvs = "map (arg_addr ts) [0..<length ts]"
  have "?p \<le> 3" using pad_iff [of ?p "length ?A"] by simp
  then obtain m3 where m3: "align_loop 3 pd (stack_pos (4096 - length ?A)) m2 = Inr (stack_pos (4096 - length ?A - ?p), m3)"
     "stack_has m3 pd kpage (stack_pos (4096 - length ?A - ?p)) (replicate ?p 0 @ ?A)" "stack_same m2 m3 kpage"
    using align_loop_spec [OF m2(2)] lens by auto
  have "4 * length (0 # rev ?argvs) + length (replicate ?p 0 @ ?A) \<le> 4096" using lens by simp
  from push_words_spec [OF m3(2) this] obtain m4 where m4:
     "push_words pd (stack_pos (4096 - length ?A - ?p)) (0 # rev ?argvs) m3 = Inr (stack_pos (4096 - frame_size ts + 12), m4)"
     "stack_has m4 pd kpage (stack_pos (4096 - frame_size ts + 12)) (le_image32 (?argvs @ [0]) @ replicate ?p 0 @ ?A)" "stack_same m3 m4 kpage"
    using lens by (auto simp: frame_size_def args_size_def algebra_simps)
  let ?e = "stack_pos (4096 - frame_size ts + 12)"
  have "4 * length [?e, of_nat (length ?argvs), 0] + length (le_image32 (?argvs @ [0]) @ replicate ?p 0 @ ?A) \<le> 4096" using lens by simp
  from push_words_spec [OF m4(2) this] obtain m5 where m5:
     "push_words pd ?e [?e, of_nat (length ?argvs), 0] m4 = Inr (stack_pos (4096 - frame_size ts), m5)"
     "stack_has m5 pd kpage (stack_pos (4096 - frame_size ts)) (le_image32 [0, of_nat (length ts), ?e] @ le_image32 (?argvs @ [0]) @ replicate ?p 0 @ ?A)"
     "stack_same m4 m5 kpage"
    using lens by (auto simp: frame_size_def args_size_def algebra_simps)
  have "?e = stack_pos (4096 - frame_size ts) + 12" by (simp add: stack_pos_def)
  then have "le_image32 [0, of_nat (length ts), ?e] @ le_image32 (?argvs @ [0]) @ replicate ?p 0 @ ?A = stack_image ts"
    by (simp add: stack_image_def le_image32_def args_size_def)
  moreover have "stack_same m m5 kpage" using m1(3) m2(3) m3(3) m4(3) m5(3) stack_same_trans by blast
  ultimately show ?thesis using st tok m1(1) m2(1) m3(1) m4(1) m5(1,2) by auto
qed

section \<open>Properties\<close>

text \<open>
  C18. \<^verbatim>\<open>setup_stack\<close> hands the command line over as the calling convention demands. When a page
  for the stack and one for a page table can be allocated, the command line has at least one and at
  most 128 words and all fits one page, it succeeds; the stack pointer is aligned to four bytes, and
  from there to the top of user memory the process finds a null return address, the number of
  arguments, the address of the argument vector, the vector itself with a null entry at its end,
  padding, and the strings; each entry of the vector points to the null-terminated word of the
  command line with its number.
\<close>

theorem setup_stack_layout:
  assumes "wf_pd m pd" and "pd \<noteq> init_page_dir m" and "kpages_ok m pd" and "page_map m pd STACK_PAGE = None"
    and "user_used m \<noteq> pool_pages (user_pool m)" and "kernel_used m \<noteq> pool_pages (kernel_pool m)"
    and "0 \<notin> set cmd" and "tokens is_space cmd = ts" and "ts \<noteq> []" and "length ts \<le> 128" and "frame_size ts \<le> 4096"
  shows "\<exists>m'. setup_stack pd esp (cmd @ [0]) True m = Inr (True, stack_pos (4096 - frame_size ts), m') \<and> wf_pd m' pd
    \<and> unat (stack_pos (4096 - frame_size ts)) mod 4 = 0
    \<and> uget pd (stack_pos (4096 - frame_size ts)) (frame_size ts) m' = Inr (stack_image ts)
    \<and> (\<forall>i<length ts. uget pd (arg_addr ts i) (Suc (length (ts ! i))) m' = Inr (ts ! i @ [0]))"
proof -
  obtain kpage m1 where m1: "palloc_get_page (PAL_USER OR PAL_ZERO) m = Inr (kpage, m1)" "kpage \<noteq> 0" "wf_pd m1 pd" "kernel_pool m1 = kernel_pool m"
     "user_used m1 = insert kpage (user_used m)" "kpage_ok m1 kpage" "init_page_dir m1 = init_page_dir m"
     "\<forall>va. is_user_vaddr va \<longrightarrow> pte_of m1 pd va = pte_of m pd va"
    using palloc_user_spec [OF assms(1) _ assms(5), of "PAL_USER OR PAL_ZERO"] by blast
  have pm: "page_map m1 pd STACK_PAGE = None" using m1(8) assms(4) STACK_PAGE_props(2) page_map_pte [of m1 pd STACK_PAGE m STACK_PAGE] by simp
  have ko: "kpages_ok m1 pd" using assms(3) m1(8) by (simp add: kpages_ok_def)
  obtain m2 where m2: "install_page pd STACK_PAGE kpage True m1 = Inr (True, m2)" "wf_pd m2 pd" "user_pool m2 = user_pool m1"
     "page_map m2 pd STACK_PAGE = Some (kpage, True)"
    using install_page_spec [OF m1(3) _ STACK_PAGE_props(1,2) m1(6) pm ko, of True] assms(2,6) m1(4,7) by auto
  have "stack_has m2 pd kpage PHYS_BASE []" using m2 m1(5) by (simp add: stack_has_def stack_ok_def stack_pos_4096)
  from build_stack [OF this assms(7-11), of True] obtain t sp buf m' where
     b: "strtok_r (cmd @ [0]) 0 [32, 0] = Inr (Some t, sp, buf)"
     "bind_res (push_string pd PHYS_BASE (cstr (drop t buf) @ [0]) m2) (\<lambda>(esp, m).
       bind_res (push_args pd buf sp esp [esp] m) (\<lambda>(esp, argvs, m).
       bind_res (align_loop 3 pd esp m) (\<lambda>(esp, m).
       bind_res (push_words pd esp (0 # rev argvs) m) (\<lambda>(esp, m).
       bind_res (push_words pd esp [esp, of_nat (length argvs), 0] m) (\<lambda>(esp, m). Inr (True, esp, m)))))) =
      Inr (True, stack_pos (4096 - frame_size ts), m')"
     "stack_has m' pd kpage (stack_pos (4096 - frame_size ts)) (stack_image ts)" by blast
  have "strlen (cmd @ [0]) = Inr (length cmd)" using strlen_append [OF assms(7), of "[]"] by simp
  then have run: "setup_stack pd esp (cmd @ [0]) True m = Inr (True, stack_pos (4096 - frame_size ts), m')"
    using m1(1,2) m2(1) b(1,2) by (simp add: setup_stack_def STACK_PAGE_props(3))
  have len: "length (stack_image ts) = frame_size ts" by (simp add: stack_image_def frame_size_def args_size_def)
  have ok: "stack_ok m' pd kpage" using b(3) by (simp add: stack_has_def)
  then have "wf_pd m' pd" by (simp add: stack_ok_def)
  moreover have "uget pd (stack_pos (4096 - frame_size ts)) (frame_size ts) m' = Inr (stack_image ts)"
    using uget_stack [OF ok, of "4096 - frame_size ts" "frame_size ts"] assms(11) b(3) by (simp add: stack_has_def len)
  moreover have "unat (stack_pos (4096 - frame_size ts)) mod 4 = 0"
  proof -
    have "(pad (args_size ts) + args_size ts) mod 4 = 0" using pad_iff [of "pad (args_size ts)" "args_size ts"] by simp
    then have "(0 + frame_size ts) mod 4 = 0" by (simp add: frame_size_def) presburger
    then have "pad (frame_size ts) = 0" using pad_iff [of 0 "frame_size ts"] by simp
    then show ?thesis using stack_pos_mod [OF assms(11)] by simp
  qed
  moreover have "\<forall>i<length ts. uget pd (arg_addr ts i) (Suc (length (ts ! i))) m' = Inr (ts ! i @ [0])"
    using b(3) arg_string_at unfolding stack_image_def append.assoc [symmetric] by blast
  ultimately show ?thesis using run by (intro exI [of _ m']) (simp only: simp_thms)
qed

theorem setup_stack_layout_witness:
  "\<exists>m'. setup_stack 0xc0101000 0 ([101, 99, 104, 111, 32, 120] @ [0]) True demo_pds = Inr (True, 0xbfffffe0, m')
    \<and> uget 0xc0101000 0xbffffffb 5 m' = Inr [101, 99, 104, 111, 0]"
proof -
  have z: "0 \<notin> set [101, 99, 104, 111, 32, 120 :: byte]" by simp
  have ts: "tokens is_space [101, 99, 104, 111, 32, 120] = [[101, 99, 104, 111], [120]]"
    by (simp add: tokens.simps is_space_def)
  have sz: "frame_size [[101, 99, 104, 111], [120]] = 32"
    by (simp add: frame_size_def args_size_def arg_strings_def pad_def)
  have p7: "pool_page (user_pool demo_pds) 7 = 0xc0207000" by (simp add: pool_page_def demo_pds_def demo_kmem_def)
  then have "0xc0207000 \<in> pool_pages (user_pool demo_pds)" by (force simp: pool_pages_def demo_pds_def demo_kmem_def)
  moreover have "0xc0207000 \<notin> user_used demo_pds"
  proof
    assume "0xc0207000 \<in> user_used demo_pds"
    then obtain i where i: "i \<in> used_bits (used_map (user_pool demo_pds))" "pool_page (user_pool demo_pds) i = pool_page (user_pool demo_pds) 7"
      using p7 by (auto simp: used_pages_def)
    have "i = 7" using pool_page_inj [of "user_pool demo_pds" i 7] used_bits_lt [OF i(1)] i(2) wf_demo_pds
      by (simp add: wf_kmem_def demo_pds_def demo_kmem_def)
    then show False using i(1) by (simp add: used_bits_def bits_of_def demo_pds_def demo_kmem_def)
  qed
  ultimately have free: "user_used demo_pds \<noteq> pool_pages (user_pool demo_pds)" by metis
  have ko: "kpages_ok demo_pds 0xc0101000" by (simp add: kpages_ok_def demo_pd_empty)
  let ?ts = "[[101, 99, 104, 111], [120]] :: byte list list"
  have lim: "?ts \<noteq> []" "length ?ts \<le> 128" "frame_size ?ts \<le> 4096" by (simp_all add: sz)
  obtain m' where m': "setup_stack 0xc0101000 0 ([101, 99, 104, 111, 32, 120] @ [0]) True demo_pds = Inr (True, stack_pos (4096 - frame_size ?ts), m')"
     "\<forall>i<length ?ts. uget 0xc0101000 (arg_addr ?ts i) (Suc (length (?ts ! i))) m' = Inr (?ts ! i @ [0])"
    using setup_stack_layout [OF wf_demo_pd(1) demo_args(4) ko demo_pd_empty(2) free demo_kernel_free z ts lim, of 0] by blast
  have "stack_pos (4096 - frame_size ?ts) = 0xbfffffe0" by (simp add: sz stack_pos_def STACK_PAGE_def)
  moreover have "uget 0xc0101000 0xbffffffb 5 m' = Inr [101, 99, 104, 111, 0]"
  proof -
    have "arg_addr ?ts 0 = 0xbffffffb" by (simp add: arg_addr_def arg_strings_def stack_pos_def STACK_PAGE_def)
    moreover have "uget 0xc0101000 (arg_addr ?ts 0) (Suc (length (?ts ! 0))) m' = Inr (?ts ! 0 @ [0])"
      by (rule m'(2) [rule_format]) simp
    moreover have "Suc (length (?ts ! 0)) = 5" by simp
    ultimately show ?thesis by (simp only: nth_Cons_0 append_Cons append_Nil)
  qed
  ultimately show ?thesis using m'(1) by metis
qed

end
