(* ===== verification/Load.thy ===== *)
theory Load
  imports User_Stack Filesys
begin

unbundle bit_operations_syntax

text \<open>
  Loading of executables, \<^verbatim>\<open>load\<close> and its helpers in userprog/process.c (projects 2 and 4): the
  headers of an ELF file are read and checked, every loadable segment is copied into fresh frames
  and mapped, and the stack is set up. The file system is that of project 4.
\<close>

section \<open>Headers\<close>

record Elf32_Ehdr =
  e_ident :: "byte list"
  e_type :: nat
  e_machine :: nat
  e_version :: "32 word"
  e_entry :: "32 word"
  e_phoff :: "32 word"
  e_phentsize :: nat
  e_phnum :: nat

record Elf32_Phdr =
  p_type :: "32 word"
  p_offset :: "32 word"
  p_vaddr :: "32 word"
  p_filesz :: "32 word"
  p_memsz :: "32 word"
  p_flags :: "32 word"

definition PT_LOAD :: "32 word" where "PT_LOAD = 1"
definition PT_DYNAMIC :: "32 word" where "PT_DYNAMIC = 2"
definition PT_INTERP :: "32 word" where "PT_INTERP = 3"
definition PT_SHLIB :: "32 word" where "PT_SHLIB = 5"
definition PF_W :: "32 word" where "PF_W = 2"

definition sizeof_ehdr :: nat where "sizeof_ehdr = 52"
definition sizeof_phdr :: nat where "sizeof_phdr = 32"

definition half_at :: "byte list \<Rightarrow> nat \<Rightarrow> nat" where
  "half_at d i = unat (d ! i) + 256 * unat (d ! (i + 1))"

definition word_at :: "byte list \<Rightarrow> nat \<Rightarrow> 32 word" where
  "word_at d i = le_word32 (drop i d)"

definition decode_ehdr :: "byte list \<Rightarrow> Elf32_Ehdr" where
  "decode_ehdr d = \<lparr>e_ident = take 16 d, e_type = half_at d 16, e_machine = half_at d 18, e_version = word_at d 20,
     e_entry = word_at d 24, e_phoff = word_at d 28, e_phentsize = half_at d 42, e_phnum = half_at d 44\<rparr>"

definition decode_phdr :: "byte list \<Rightarrow> Elf32_Phdr" where
  "decode_phdr d = \<lparr>p_type = word_at d 0, p_offset = word_at d 4, p_vaddr = word_at d 8, p_filesz = word_at d 16,
     p_memsz = word_at d 20, p_flags = word_at d 24\<rparr>"

section \<open>Segments\<close>

definition validate_segment :: "Elf32_Phdr \<Rightarrow> int \<Rightarrow> bool" where
  "validate_segment phdr flen =
     (if p_offset phdr AND PGMASK \<noteq> p_vaddr phdr AND PGMASK then False
      else if p_offset phdr > word_of_int flen then False
      else if p_memsz phdr < p_filesz phdr then False
      else if p_memsz phdr = 0 then False
      else if \<not> is_user_vaddr (p_vaddr phdr) then False
      else if \<not> is_user_vaddr (p_vaddr phdr + p_memsz phdr) then False
      else if p_vaddr phdr + p_memsz phdr < p_vaddr phdr then False
      else if p_vaddr phdr < of_nat PGSIZE then False
      else True)"

definition ROUND_UP :: "32 word \<Rightarrow> 32 word \<Rightarrow> 32 word" where
  "ROUND_UP x step = (x + step - 1) div step * step"

text \<open>The arguments of \<^verbatim>\<open>load_segment\<close>: file offset, user page, bytes to read and to clear, writable.\<close>

definition segment_args :: "Elf32_Phdr \<Rightarrow> 32 word \<times> vaddr \<times> 32 word \<times> 32 word \<times> bool" where
  "segment_args phdr =
     (let writable = (p_flags phdr AND PF_W \<noteq> 0);
          file_page = p_offset phdr AND NOT PGMASK;
          mem_page = p_vaddr phdr AND NOT PGMASK;
          page_offset = p_vaddr phdr AND PGMASK
      in if p_filesz phdr > 0
         then let read_bytes = page_offset + p_filesz phdr
              in (file_page, mem_page, read_bytes, ROUND_UP (page_offset + p_memsz phdr) (of_nat PGSIZE) - read_bytes, writable)
         else (file_page, mem_page, 0, ROUND_UP (page_offset + p_memsz phdr) (of_nat PGSIZE), writable))"

text \<open>
  The loop over the pages of a segment. Its first argument bounds the number of turns; for sizes
  that make up whole pages, as \<^verbatim>\<open>load_segment\<close> asserts, their number of pages is enough.
\<close>

fun segment_loop :: "nat \<Rightarrow> vaddr \<Rightarrow> addr \<Rightarrow> vaddr \<Rightarrow> 32 word \<Rightarrow> 32 word \<Rightarrow> bool \<Rightarrow> fs \<Rightarrow> kmem \<Rightarrow> (bool \<times> fs \<times> kmem) res" where
  "segment_loop 0 pd f upage read_bytes zero_bytes writable s m =
     (if read_bytes > 0 \<or> zero_bytes > 0 then Inl NoReturn else Inr (True, s, m))"
| "segment_loop (Suc n) pd f upage read_bytes zero_bytes writable s m =
     (if read_bytes > 0 \<or> zero_bytes > 0 then
        let page_read_bytes = (if read_bytes < of_nat PGSIZE then read_bytes else of_nat PGSIZE);
            page_zero_bytes = of_nat PGSIZE - page_read_bytes
        in bind_res (palloc_get_page PAL_USER m) (\<lambda>(kpage, m).
           if kpage = 0 then Inr (False, s, m)
           else
             bind_res (file_read f (sint page_read_bytes) s) (\<lambda>(d, s).
             let m = m\<lparr>ram_of := put_bytes (ram_of m) kpage d\<rparr> in
             if int (length d) \<noteq> sint page_read_bytes
             then bind_res (palloc_free_page kpage m) (\<lambda>m. Inr (False, s, m))
             else
               let m = m\<lparr>ram_of := memset_ram (ram_of m) (kpage + page_read_bytes) 0 (unat page_zero_bytes)\<rparr> in
               bind_res (install_page pd upage kpage writable m) (\<lambda>(ok, m).
               if \<not> ok then bind_res (palloc_free_page kpage m) (\<lambda>m. Inr (False, s, m))
               else segment_loop n pd f (upage + of_nat PGSIZE) (read_bytes - page_read_bytes)
                      (zero_bytes - page_zero_bytes) writable s m)))
      else Inr (True, s, m))"

definition load_segment :: "vaddr \<Rightarrow> addr \<Rightarrow> 32 word \<Rightarrow> vaddr \<Rightarrow> 32 word \<Rightarrow> 32 word \<Rightarrow> bool \<Rightarrow> fs \<Rightarrow> kmem \<Rightarrow> (bool \<times> fs \<times> kmem) res" where
  "load_segment pd f ofs upage read_bytes zero_bytes writable s m =
     bind_res (assert_res ((read_bytes + zero_bytes) mod of_nat PGSIZE = 0)) (\<lambda>_.
     bind_res (assert_res (pg_ofs upage = 0)) (\<lambda>_.
     bind_res (assert_res (cmod (sint ofs) (int PGSIZE) = 0)) (\<lambda>_.
     bind_res (file_seek f (sint ofs) s) (\<lambda>s.
     segment_loop ((unat read_bytes + unat zero_bytes) div PGSIZE) pd f upage read_bytes zero_bytes writable s m))))"

section \<open>Executables\<close>

text \<open>The loop over the program headers: \<open>k\<close> headers are left; false stands for \<^verbatim>\<open>goto done\<close>.\<close>

fun phdr_loop :: "nat \<Rightarrow> vaddr \<Rightarrow> addr \<Rightarrow> int \<Rightarrow> fs \<Rightarrow> kmem \<Rightarrow> (bool \<times> fs \<times> kmem) res" where
  "phdr_loop 0 pd f file_ofs s m = Inr (True, s, m)"
| "phdr_loop (Suc k) pd f file_ofs s m =
     bind_res (file_length f s) (\<lambda>flen.
     if file_ofs < 0 \<or> file_ofs > flen then Inr (False, s, m)
     else
       bind_res (file_seek f file_ofs s) (\<lambda>s.
       bind_res (file_read f (int sizeof_phdr) s) (\<lambda>(d, s).
       if length d \<noteq> sizeof_phdr then Inr (False, s, m)
       else
         let phdr = decode_phdr d; file_ofs = file_ofs + int sizeof_phdr in
         if p_type phdr = PT_DYNAMIC \<or> p_type phdr = PT_INTERP \<or> p_type phdr = PT_SHLIB then Inr (False, s, m)
         else if p_type phdr = PT_LOAD then
           bind_res (file_length f s) (\<lambda>flen.
           if validate_segment phdr flen then
             let (file_page, mem_page, read_bytes, zero_bytes, writable) = segment_args phdr in
             bind_res (load_segment pd f file_page mem_page read_bytes zero_bytes writable s m) (\<lambda>(ok, s, m).
             if ok then phdr_loop k pd f file_ofs s m else Inr (False, s, m))
           else Inr (False, s, m))
         else phdr_loop k pd f file_ofs s m)))"

definition ehdr_ok :: "Elf32_Ehdr \<Rightarrow> bool" where
  "ehdr_ok ehdr \<longleftrightarrow> take 7 (e_ident ehdr) = [0x7f, 0x45, 0x4c, 0x46, 1, 1, 1] \<and> e_type ehdr = 2 \<and> e_machine ehdr = 3
     \<and> e_version ehdr = 1 \<and> e_phentsize ehdr = sizeof_phdr \<and> e_phnum ehdr \<le> 1024"

record load_result =
  l_success :: bool
  l_pagedir :: vaddr
  l_eip :: vaddr
  l_esp :: vaddr
  l_file :: addr

text \<open>
  The name of the executable is the first word of the command line. \<^verbatim>\<open>free\<close> gets the pointer
  that \<^verbatim>\<open>strtok_r\<close> returned; when that is not the start of the block, its assertion on the
  position of blocks fails. \<open>ok1\<close> and \<open>ok2\<close> say whether the copies of the command line
  made here and in \<^verbatim>\<open>setup_stack\<close> can be allocated.
\<close>

definition open_executable :: "byte list \<Rightarrow> bool \<Rightarrow> fs \<Rightarrow> (addr \<times> fs) res" where
  "open_executable file_name ok1 s =
     bind_res (assert_res ok1) (\<lambda>_.
     bind_res (strlen file_name) (\<lambda>n.
     bind_res (strtok_r (take (n + 1) file_name) 0 [32, 0]) (\<lambda>(token, save_ptr, fn_copy).
     case token of
       None \<Rightarrow> Inl AssertFail
     | Some t \<Rightarrow>
         bind_res (filesys_open (cstr (drop t fn_copy)) s) (\<lambda>(f, s).
         bind_res (assert_res (t = 0)) (\<lambda>_. Inr (f, s))))))"

definition load_image :: "vaddr \<Rightarrow> addr \<Rightarrow> byte list \<Rightarrow> bool \<Rightarrow> fs \<Rightarrow> kmem \<Rightarrow> (bool \<times> vaddr \<times> vaddr \<times> fs \<times> kmem) res" where
  "load_image pd f file_name ok2 s m =
     bind_res (file_read f (int sizeof_ehdr) s) (\<lambda>(d, s).
     let ehdr = decode_ehdr d in
     if length d \<noteq> sizeof_ehdr \<or> \<not> ehdr_ok ehdr then Inr (False, 0, 0, s, m)
     else
       bind_res (phdr_loop (e_phnum ehdr) pd f (sint (e_phoff ehdr)) s m) (\<lambda>(ok, s, m).
       if \<not> ok then Inr (False, 0, 0, s, m)
       else
         bind_res (setup_stack pd 0 file_name ok2 m) (\<lambda>(ok, esp, m).
         Inr (ok, if ok then e_entry ehdr else 0, esp, s, m))))"

definition load :: "byte list \<Rightarrow> bool \<Rightarrow> bool \<Rightarrow> fs \<Rightarrow> kmem \<Rightarrow> (load_result \<times> fs \<times> kmem) res" where
  "load file_name ok1 ok2 s m =
     bind_res (pagedir_create m) (\<lambda>(pd, m).
     if pd = 0 then Inr (\<lparr>l_success = False, l_pagedir = 0, l_eip = 0, l_esp = 0, l_file = NULL\<rparr>, s, m)
     else
       bind_res (pagedir_activate pd m) (\<lambda>m.
       bind_res (open_executable file_name ok1 s) (\<lambda>(f, s).
       if f = NULL then Inr (\<lparr>l_success = False, l_pagedir = pd, l_eip = 0, l_esp = 0, l_file = NULL\<rparr>, s, m)
       else
         bind_res (load_image pd f file_name ok2 s m) (\<lambda>(success, eip, esp, s, m).
         if success
         then bind_res (file_deny_write f s) (\<lambda>s.
              Inr (\<lparr>l_success = True, l_pagedir = pd, l_eip = eip, l_esp = esp, l_file = f\<rparr>, s, m))
         else bind_res (file_close f s) (\<lambda>s.
              Inr (\<lparr>l_success = False, l_pagedir = pd, l_eip = 0, l_esp = esp, l_file = NULL\<rparr>, s, m))))))"

section \<open>Segments that are accepted\<close>

lemma ROUND_UP_unat:
  assumes "unat x + 4095 < 4294967296"
  shows "unat (ROUND_UP x 4096) = (unat x + 4095) div 4096 * 4096"
proof -
  have "unat (x + 4096 - 1) = unat x + 4095"
  proof -
    have "x + 4096 - 1 = x + 4095" by simp
    then show ?thesis using assms by (simp add: unat_word_ariths)
  qed
  then have "unat ((x + 4096 - 1) div 4096) = (unat x + 4095) div 4096" by (simp add: unat_div)
  moreover have "(unat x + 4095) div 4096 * 4096 < 4294967296"
    using assms by (metis div_times_less_eq_dividend le_less_trans)
  ultimately show ?thesis by (simp add: ROUND_UP_def unat_word_ariths)
qed

lemma validate_segment_bounds:
  assumes "validate_segment phdr flen"
  shows "4096 \<le> unat (p_vaddr phdr)" and "unat (p_vaddr phdr) + unat (p_memsz phdr) < 3221225472"
    and "unat (p_filesz phdr) \<le> unat (p_memsz phdr)" and "0 < unat (p_memsz phdr)"
    and "unat (p_offset phdr) mod 4096 = unat (p_vaddr phdr) mod 4096" and "p_offset phdr \<le> word_of_int flen"
proof -
  have v: "p_offset phdr AND PGMASK = p_vaddr phdr AND PGMASK" "p_filesz phdr \<le> p_memsz phdr" "p_memsz phdr \<noteq> 0"
    "p_vaddr phdr + p_memsz phdr < PHYS_BASE" "p_vaddr phdr \<le> p_vaddr phdr + p_memsz phdr" "4096 \<le> p_vaddr phdr"
    "p_offset phdr \<le> word_of_int flen"
    using assms by (auto simp: validate_segment_def is_user_vaddr_def PGSIZE_def not_less split: if_splits)
  show "4096 \<le> unat (p_vaddr phdr)" using v(6) by (simp add: word_le_nat_alt)
  have "unat (p_vaddr phdr + p_memsz phdr) = unat (p_vaddr phdr) + unat (p_memsz phdr)"
    using v(5) by (simp add: unat_plus_simple)
  then show "unat (p_vaddr phdr) + unat (p_memsz phdr) < 3221225472" using v(4) by (simp add: word_less_nat_alt unat_PHYS_BASE)
  show "unat (p_filesz phdr) \<le> unat (p_memsz phdr)" using v(2) by (simp add: word_le_nat_alt)
  show "0 < unat (p_memsz phdr)" using v(3) by (simp add: unat_gt_0)
  show "unat (p_offset phdr) mod 4096 = unat (p_vaddr phdr) mod 4096"
    using arg_cong [OF v(1), of unat] by (simp add: unat_pg_ofs flip: pg_ofs_def)
  show "p_offset phdr \<le> word_of_int flen" by (rule v(7))
qed

end
