(* ===== verification/Process.thy ===== *)
theory Process
  imports Load
begin

unbundle bit_operations_syntax

text \<open>
  Processes, userprog/process.c with \<^verbatim>\<open>exit\<close>, \<^verbatim>\<open>exec\<close> and \<^verbatim>\<open>wait\<close> of userprog/syscall.c, \<^verbatim>\<open>kill\<close>
  of userprog/exception.c and the process part of threads/thread.c (project 4; process.c is the
  same file in project 2): creation, loading, waiting and termination. A call runs to its end or
  to the next semaphore it has to wait for; where a thread stands between two such points is its
  field \<open>pc\<close>. Console output is left out.
\<close>

section \<open>State\<close>

record child_status =
  child_tid :: int
  child_exit_code :: int
  child_waited :: bool
  child_wait_sema :: nat

record file_descriptor =
  fd :: int
  fd_file :: addr
  fd_dir :: addr

datatype load_state = LOAD_INIT | LOAD_SUCCESS | LOAD_FAIL

text \<open>
  \<open>NotStarted a\<close>: \<^verbatim>\<open>start_process\<close> has not run, \<open>a\<close> is its argument. \<open>UserMode\<close>: running the
  user program. \<open>InExec\<close>, \<open>InWait\<close>: inside \<^verbatim>\<open>sema_down\<close> in \<^verbatim>\<open>exec\<close> or \<^verbatim>\<open>process_wait\<close>.
  \<open>KernelThread\<close>, \<open>KernelWait\<close>: the initial thread, which runs programs and waits for each.
\<close>

datatype pc = NotStarted vaddr | UserMode | InExec int | InWait int | KernelThread | KernelWait int

record uthread =
  tid :: int
  name :: "byte list"
  dying :: bool
  taddr :: vaddr
  pagedir :: vaddr
  exit_code :: int
  parent_tid :: int
  child_thread_list :: "child_status list"
  running_file :: addr
  fd_list :: "file_descriptor list"
  file_num :: int
  load_sema :: nat
  tload_state :: load_state
  tcwd :: addr
  pc_of :: pc

record machine =
  all_list :: "uthread list"
  next_tid :: int
  km :: kmem
  fsys :: fs
  file_lock :: "int option"

definition TID_ERROR :: int where "TID_ERROR = -1"

text \<open>A call that waits has not returned.\<close>

datatype 'a flow = Return 'a | Blocked

section \<open>Threads\<close>

text \<open>The loop keeps the last thread it looked at when no thread matches.\<close>

fun thread_get_by_tid :: "int \<Rightarrow> uthread list \<Rightarrow> uthread option" where
  "thread_get_by_tid x [] = None"
| "thread_get_by_tid x (t # ts) =
     (if tid t = x \<and> \<not> dying t then Some t else if ts = [] then Some t else thread_get_by_tid x ts)"

text \<open>The running thread, and an update of the thread with a given identifier.\<close>

definition thread_of :: "int \<Rightarrow> machine \<Rightarrow> uthread res" where
  "thread_of c m = (case find (\<lambda>t. tid t = c) (all_list m) of None \<Rightarrow> Inl NullDeref | Some t \<Rightarrow> Inr t)"

definition upd_thread :: "int \<Rightarrow> (uthread \<Rightarrow> uthread) \<Rightarrow> machine \<Rightarrow> machine" where
  "upd_thread x f m = m\<lparr>all_list := map (\<lambda>t. if tid t = x then f t else t) (all_list m)\<rparr>"

text \<open>\<^verbatim>\<open>init_thread\<close> after its assertions; the page of the thread was cleared.\<close>

definition init_uthread :: "vaddr \<Rightarrow> int \<Rightarrow> byte list \<Rightarrow> vaddr \<Rightarrow> uthread" where
  "init_uthread t new_tid nm aux =
     \<lparr>tid = new_tid, name = take 15 nm, dying = False, taddr = t, pagedir = 0, exit_code = 0, parent_tid = 0,
      child_thread_list = [], running_file = NULL, fd_list = [], file_num = 2, load_sema = 0, tload_state = LOAD_INIT,
      tcwd = NULL, pc_of = NotStarted aux\<rparr>"

text \<open>\<^verbatim>\<open>thread_create\<close> with the function \<^verbatim>\<open>start_process\<close>; \<open>nm\<close> is its name, or none for a null pointer.\<close>

definition uthread_create :: "byte list option \<Rightarrow> vaddr \<Rightarrow> machine \<Rightarrow> (int \<times> machine) res" where
  "uthread_create nm aux m =
     bind_res (palloc_get_page PAL_ZERO (km m)) (\<lambda>(t, k).
     let m = m\<lparr>km := k\<rparr> in
     if t = 0 then Inr (TID_ERROR, m)
     else case nm of
       None \<Rightarrow> Inl AssertFail
     | Some n \<Rightarrow>
         Inr (next_tid m, m\<lparr>all_list := all_list m @ [init_uthread t (next_tid m) n aux], next_tid := next_tid m + 1\<rparr>))"

section \<open>Starting a process\<close>

text \<open>The end of \<^verbatim>\<open>process_execute\<close>; \<open>ok\<close> says whether the record of the child can be allocated.\<close>

definition register_child :: "int \<Rightarrow> int \<Rightarrow> bool \<Rightarrow> vaddr \<Rightarrow> machine \<Rightarrow> (int \<times> machine) res" where
  "register_child c new ok fn_copy m =
     (case thread_get_by_tid new (all_list m) of
        None \<Rightarrow> Inl NullDeref
      | Some t \<Rightarrow>
          let m = upd_thread (tid t) (\<lambda>t. t\<lparr>parent_tid := c\<rparr>) m in
          if ok then
            let child = \<lparr>child_tid = new, child_exit_code = 0, child_waited = False, child_wait_sema = 0\<rparr> in
            Inr (new, upd_thread c (\<lambda>t. t\<lparr>child_thread_list := child_thread_list t @ [child]\<rparr>) m)
          else bind_res (palloc_free_page fn_copy (km m)) (\<lambda>k. Inr (TID_ERROR, m\<lparr>km := k\<rparr>)))"

text \<open>
  The argument is the command line
  with its null byte; \<^verbatim>\<open>program_name\<close> is freed at the address that \<^verbatim>\<open>strtok_r\<close> returned.
\<close>

definition process_execute :: "int \<Rightarrow> byte list \<Rightarrow> bool \<Rightarrow> machine \<Rightarrow> (int \<times> machine) res" where
  "process_execute c file_name ok m =
     bind_res (palloc_get_page 0 (km m)) (\<lambda>(fn_copy, k).
     if fn_copy = 0 then Inr (TID_ERROR, m\<lparr>km := k\<rparr>)
     else
       bind_res (strlcpy (page_bytes k fn_copy) file_name PGSIZE) (\<lambda>(_, d).
       let k = k\<lparr>ram_of := put_bytes (ram_of k) fn_copy d\<rparr> in
       bind_res (palloc_get_page 0 k) (\<lambda>(program_name, k).
       if program_name = 0 then bind_res (palloc_free_page fn_copy k) (\<lambda>k. Inr (TID_ERROR, m\<lparr>km := k\<rparr>))
       else
         bind_res (strlcpy (page_bytes k program_name) file_name PGSIZE) (\<lambda>(_, d).
         bind_res (strtok_r d 0 [32, 0]) (\<lambda>(token, _, d).
         let k = k\<lparr>ram_of := put_bytes (ram_of k) program_name d\<rparr>;
             nm = map_option (\<lambda>t. cstr (drop t d)) token;
             program_name = (case token of None \<Rightarrow> 0 | Some t \<Rightarrow> program_name + of_nat t) in
         bind_res (uthread_create nm fn_copy (m\<lparr>km := k\<rparr>)) (\<lambda>(new, m).
         bind_res (palloc_free_page program_name (km m)) (\<lambda>k.
         let m = m\<lparr>km := k\<rparr> in
         if new = TID_ERROR then bind_res (palloc_free_page fn_copy (km m)) (\<lambda>k. Inr (TID_ERROR, m\<lparr>km := k\<rparr>))
         else register_child c new ok fn_copy m)))))))"

section \<open>Ending a process\<close>

text \<open>The first entry for a child in the list of its parent.\<close>

fun upd_child :: "int \<Rightarrow> (child_status \<Rightarrow> child_status) \<Rightarrow> child_status list \<Rightarrow> child_status list" where
  "upd_child x f [] = []"
| "upd_child x f (c # cs) = (if child_tid c = x then f c # cs else c # upd_child x f cs)"

text \<open>\<^verbatim>\<open>free_child_list\<close> and \<^verbatim>\<open>free_opened_file\<close>: the objects of open files are freed, not closed.\<close>

definition free_child_list :: "uthread \<Rightarrow> uthread" where
  "free_child_list t = t\<lparr>child_thread_list := []\<rparr>"

fun free_files :: "file_descriptor list \<Rightarrow> fs \<Rightarrow> fs res" where
  "free_files [] s = Inr s"
| "free_files (d # ds) s =
     (if fd_file d = NULL then free_files ds s
      else bind_res (get_obj (files s) (fd_file d)) (\<lambda>_. free_files ds (s\<lparr>files := (files s)(fd_file d := None)\<rparr>)))"

definition free_opened_file :: "uthread \<Rightarrow> fs \<Rightarrow> fs res" where
  "free_opened_file t s = free_files (fd_list t) s"

text \<open>\<^verbatim>\<open>process_exit\<close> after the parent has been signalled.\<close>

definition release_process :: "int \<Rightarrow> machine \<Rightarrow> machine res" where
  "release_process c m =
     bind_res (thread_of c m) (\<lambda>cur.
     bind_res (if running_file cur \<noteq> NULL
               then bind_res (file_allow_write (running_file cur) (fsys m)) (file_close (running_file cur))
               else Inr (fsys m)) (\<lambda>s.
     bind_res (free_opened_file cur s) (\<lambda>s.
     let m = upd_thread c free_child_list (m\<lparr>fsys := s\<rparr>); pd = pagedir cur in
     if pd \<noteq> 0
     then bind_res (pagedir_activate 0 (km m)) (\<lambda>k.
          bind_res (pagedir_destroy pd k) (\<lambda>k. Inr (upd_thread c (\<lambda>t. t\<lparr>pagedir := 0\<rparr>) (m\<lparr>km := k\<rparr>))))
     else Inr m)))"

definition process_exit :: "int \<Rightarrow> machine \<Rightarrow> machine res" where
  "process_exit c m =
     bind_res (thread_of c m) (\<lambda>cur.
     case thread_get_by_tid (parent_tid cur) (all_list m) of
       None \<Rightarrow> release_process c m
     | Some p \<Rightarrow>
         if child_thread_list p = [] then Inr m
         else release_process c (upd_thread (tid p)
                (\<lambda>t. t\<lparr>child_thread_list := upd_child (tid cur) (\<lambda>ch. ch\<lparr>child_wait_sema := child_wait_sema ch + 1\<rparr>) (child_thread_list t)\<rparr>) m))"

text \<open>
  \<^verbatim>\<open>thread_exit\<close>; the thread that runs next frees the page of the dead thread
  (\<^verbatim>\<open>thread_schedule_tail\<close>), unless it is the initial thread.
\<close>

definition uthread_exit :: "int \<Rightarrow> machine \<Rightarrow> machine res" where
  "uthread_exit c m =
     bind_res (thread_of c m) (\<lambda>cur.
     bind_res (process_exit c m) (\<lambda>m.
     bind_res (if taddr cur \<noteq> 0 then palloc_free_page (taddr cur) (km m) else Inr (km m)) (\<lambda>k.
     Inr (m\<lparr>all_list := filter (\<lambda>t. tid t \<noteq> c) (all_list m), km := k\<rparr>))))"

definition exit :: "int \<Rightarrow> int \<Rightarrow> machine \<Rightarrow> machine res" where
  "exit c status m =
     bind_res (thread_of c m) (\<lambda>cur.
     let parent = thread_get_by_tid (parent_tid cur) (all_list m);
         m = upd_thread c (\<lambda>t. t\<lparr>exit_code := status\<rparr>) m
     in case parent of
          None \<Rightarrow> uthread_exit c m
        | Some p \<Rightarrow>
            uthread_exit c (upd_thread (tid p)
              (\<lambda>t. t\<lparr>child_thread_list := upd_child (tid cur) (\<lambda>ch. ch\<lparr>child_exit_code := status\<rparr>) (child_thread_list t)\<rparr>) m))"

text \<open>A fault in user mode that is not a missing page, \<^verbatim>\<open>kill\<close>: the exit status is not recorded.\<close>

definition kill :: "int \<Rightarrow> machine \<Rightarrow> machine res" where
  "kill c m = uthread_exit c m"

section \<open>Loading\<close>

text \<open>After \<^verbatim>\<open>load\<close>: the parent is told the outcome, and a process that could not be loaded ends.\<close>

definition report_load :: "int \<Rightarrow> int \<Rightarrow> bool \<Rightarrow> vaddr \<Rightarrow> machine \<Rightarrow> (bool \<times> machine) res" where
  "report_load c parent success file_name m =
     (case thread_get_by_tid parent (all_list m) of
        None \<Rightarrow> Inl NullDeref
      | Some p \<Rightarrow>
          let m = upd_thread (tid p) (\<lambda>t. t\<lparr>tload_state := if success then LOAD_SUCCESS else LOAD_FAIL, load_sema := load_sema t + 1\<rparr>) m in
          bind_res (palloc_free_page file_name (km m)) (\<lambda>k.
          let m = m\<lparr>km := k\<rparr> in
          if success then Inr (True, upd_thread c (\<lambda>t. t\<lparr>pc_of := UserMode\<rparr>) m)
          else bind_res (uthread_exit c (upd_thread c (\<lambda>t. t\<lparr>exit_code := -1\<rparr>) m)) (\<lambda>m. Inr (False, m))))"

text \<open>
  The first instructions of a new process. \<open>ok1\<close> and \<open>ok2\<close> are the allocations inside
  \<^verbatim>\<open>load\<close>; the result says whether the program runs.
\<close>

definition start_process :: "int \<Rightarrow> bool \<Rightarrow> bool \<Rightarrow> machine \<Rightarrow> (bool \<times> machine) res" where
  "start_process c ok1 ok2 m =
     bind_res (thread_of c m) (\<lambda>cur.
     case pc_of cur of
       NotStarted file_name \<Rightarrow>
         bind_res (load (page_bytes (km m) file_name) ok1 ok2 ((fsys m)\<lparr>cwd := tcwd cur\<rparr>) (km m)) (\<lambda>(r, s, k).
         report_load c (parent_tid cur) (l_success r) file_name
           (upd_thread c (\<lambda>t. t\<lparr>pagedir := l_pagedir r, running_file := l_file r\<rparr>) (m\<lparr>fsys := s, km := k\<rparr>)))
     | _ \<Rightarrow> Inl AssertFail)"

section \<open>System calls of processes\<close>

fun wait_loop :: "int \<Rightarrow> child_status list \<Rightarrow> (int flow \<times> child_status list)" where
  "wait_loop x [] = (Return (-1), [])"
| "wait_loop x (ch # cs) =
     (if child_tid ch = x \<and> \<not> child_waited ch then
        if child_wait_sema ch = 0 then (Blocked, ch # cs)
        else (Return (child_exit_code ch), ch\<lparr>child_wait_sema := child_wait_sema ch - 1, child_waited := True\<rparr> # cs)
      else if child_tid ch = x \<and> child_waited ch then (Return (-1), ch # cs)
      else let (r, cs) = wait_loop x cs in (r, ch # cs))"

definition process_wait :: "int \<Rightarrow> int \<Rightarrow> machine \<Rightarrow> (int flow \<times> machine) res" where
  "process_wait c x m =
     bind_res (thread_of c m) (\<lambda>cur.
     if x = TID_ERROR then Inr (Return (-1), m)
     else if child_thread_list cur = [] then Inr (Return (-1), m)
     else let (r, cs) = wait_loop x (child_thread_list cur)
          in Inr (r, upd_thread c (\<lambda>t. t\<lparr>child_thread_list := cs\<rparr>) m))"

text \<open>\<^verbatim>\<open>exec\<close> up to \<^verbatim>\<open>sema_down\<close> of \<^verbatim>\<open>load_sema\<close>, and what follows it.\<close>

definition exec_call :: "int \<Rightarrow> byte list \<Rightarrow> bool \<Rightarrow> machine \<Rightarrow> (int flow \<times> machine) res" where
  "exec_call c cmd_line ok m =
     (case file_lock m of
        Some h \<Rightarrow> if h = c then Inl AssertFail else Inr (Blocked, m)
      | None \<Rightarrow>
          bind_res (process_execute c cmd_line ok (m\<lparr>file_lock := Some c\<rparr>)) (\<lambda>(pid, m).
          Inr (Return pid, m\<lparr>file_lock := None\<rparr>)))"

definition exec_return :: "int \<Rightarrow> int \<Rightarrow> machine \<Rightarrow> (int flow \<times> machine) res" where
  "exec_return c pid m =
     bind_res (thread_of c m) (\<lambda>cur.
     if load_sema cur = 0 then Inr (Blocked, m)
     else Inr (Return (if tload_state cur = LOAD_SUCCESS then pid else -1),
               upd_thread c (\<lambda>t. t\<lparr>load_sema := load_sema t - 1\<rparr>) m))"

end
