(* ===== verification/Syscall.thy ===== *)
theory Syscall
  imports Process
begin

unbundle bit_operations_syntax

text \<open>
  System calls, userprog/syscall.c (project 4): the checks of user addresses, the table of file
  descriptors, every call, and the dispatcher. The kernel reads and writes user memory through the
  page directory of the calling process. An access that faults inside a call is the fault of the
  model: \<open>OutOfBounds\<close> and \<open>NullDeref\<close> stand for a missing page, on which \<^verbatim>\<open>page_fault\<close> ends
  the process in the middle of the call with its locks held, and \<open>Panic\<close> for a write to a read-only
  page. The buffer of \<^verbatim>\<open>write\<close> is read before the call to the file system, that of \<^verbatim>\<open>read\<close> is written
  after it.
\<close>

section \<open>User memory\<close>

fun valid_bytes :: "vaddr \<Rightarrow> vaddr \<Rightarrow> nat \<Rightarrow> nat \<Rightarrow> kmem \<Rightarrow> nat res" where
  "valid_bytes pd ptr i 0 k = Inr 0"
| "valid_bytes pd ptr i (Suc n) k =
     bind_res (if is_user_vaddr (ptr + of_nat i)
               then bind_res (pagedir_get_page pd (ptr + of_nat i) k) (\<lambda>p. Inr (if p \<noteq> 0 then 1 else 0))
               else Inr 0) (\<lambda>one.
     bind_res (valid_bytes pd ptr (Suc i) n k) (\<lambda>byte_count. Inr (one + byte_count)))"

definition validate_addr :: "vaddr \<Rightarrow> vaddr \<Rightarrow> kmem \<Rightarrow> bool res" where
  "validate_addr pd ptr k =
     (if ptr = 0 then Inr False
      else bind_res (valid_bytes pd ptr 0 4 k) (\<lambda>byte_count. Inr (byte_count = 4)))"

lemma valid_bytes_le: "valid_bytes pd ptr i n k = Inr c \<Longrightarrow> c \<le> n"
  by (induction n arbitrary: i c) (force simp: res_simps split: if_splits)+

lemma valid_bytes_all:
  assumes "valid_bytes pd ptr i n k = Inr n" and "j < n"
  shows "is_user_vaddr (ptr + of_nat (i + j)) \<and> (\<exists>p. pagedir_get_page pd (ptr + of_nat (i + j)) k = Inr p \<and> p \<noteq> 0)"
  using assms
proof (induction n arbitrary: i j)
  case (Suc n)
  obtain one rest where r: "valid_bytes pd ptr (Suc i) n k = Inr rest" "one + rest = Suc n" "one \<le> 1"
    and one: "(if is_user_vaddr (ptr + of_nat i)
       then bind_res (pagedir_get_page pd (ptr + of_nat i) k) (\<lambda>p. Inr (if p \<noteq> 0 then 1 else 0)) else Inr 0) = Inr one"
    using Suc.prems(1) by (auto simp: res_simps split: if_splits)
  have n: "rest = n" "one = 1" using valid_bytes_le [OF r(1)] r(2,3) by simp_all
  show ?case
  proof (cases j)
    case 0
    then show ?thesis using one n(2) by (auto simp: res_simps split: if_splits)
  next
    case (Suc j')
    then show ?thesis using Suc.IH [of "Suc i" j'] r(1) n(1) Suc.prems(2) by simp
  qed
qed simp

lemma validate_addr_bytes:
  assumes "validate_addr pd ptr k = Inr True" and "j < 4"
  shows "is_user_vaddr (ptr + of_nat j) \<and> (\<exists>p. pagedir_get_page pd (ptr + of_nat j) k = Inr p \<and> p \<noteq> 0)"
  using assms valid_bytes_all [of pd ptr 0 4 k j] by (auto simp: validate_addr_def res_simps simp del: valid_bytes.simps split: if_splits)

lemma validate_addr_user: "validate_addr pd ptr k = Inr True \<Longrightarrow> is_user_vaddr ptr"
  using validate_addr_bytes [of pd ptr k 0] by simp

text \<open>One byte of memory, and the loop of \<^verbatim>\<open>validate_string\<close>, which ends at the top of user memory.\<close>

definition load_byte :: "vaddr \<Rightarrow> vaddr \<Rightarrow> kmem \<Rightarrow> byte res" where
  "load_byte pd a k = bind_res (mmu False pd a k) (\<lambda>p. Inr (ram_of k p))"

function validate_string :: "vaddr \<Rightarrow> vaddr \<Rightarrow> kmem \<Rightarrow> bool res" where
  "validate_string pd ch k =
     bind_res (validate_addr pd ch k) (\<lambda>ok.
     if \<not> ok then Inr False
     else bind_res (load_byte pd ch k) (\<lambda>b. if b = 0 then Inr True else validate_string pd (ch + 1) k))"
  by pat_completeness auto
termination
proof (relation "measure (\<lambda>(pd, ch, k). 4294967296 - unat ch)")
  fix pd ch :: vaddr and k ok b
  assume "validate_addr pd ch k = Inr ok" "\<not> \<not> ok"
  then have "is_user_vaddr ch" using validate_addr_user by simp
  then have "unat ch < 3221225472" by (simp add: is_user_vaddr_def word_less_nat_alt unat_PHYS_BASE)
  then have "unat (ch + 1) = unat ch + 1" by (simp add: unat_word_ariths)
  with \<open>unat ch < 3221225472\<close> show "((pd, ch + 1, k), pd, ch, k) \<in> measure (\<lambda>(pd, ch, k). 4294967296 - unat ch)" by simp
qed simp

declare validate_string.simps [simp del]

text \<open>A string in memory; the last byte of the address space holds none.\<close>

function user_string :: "vaddr \<Rightarrow> vaddr \<Rightarrow> kmem \<Rightarrow> byte list res" where
  "user_string pd a k =
     bind_res (load_byte pd a k) (\<lambda>b.
     if b = 0 then Inr []
     else if a = 0xffffffff then Inl OutOfBounds
     else bind_res (user_string pd (a + 1) k) (\<lambda>s. Inr (b # s)))"
  by pat_completeness auto
termination
proof (relation "measure (\<lambda>(pd, a, k). 4294967296 - unat a)")
  fix pd a :: vaddr and k b
  assume "a \<noteq> 0xffffffff"
  then have "unat a \<noteq> 4294967295" by (auto simp: word_unat_eq_iff)
  then have "unat a < 4294967295" using unat_lt32 [of a] by simp
  then show "((pd, a + 1, k), pd, a, k) \<in> measure (\<lambda>(pd, a, k). 4294967296 - unat a)" by (simp add: unat_word_ariths)
qed simp

declare user_string.simps [simp del]

definition load_word :: "vaddr \<Rightarrow> vaddr \<Rightarrow> kmem \<Rightarrow> 32 word res" where
  "load_word pd a k = bind_res (uget pd a 4 k) (\<lambda>bs. Inr (le_word32 bs))"

section \<open>File descriptors\<close>

fun find_fd :: "int \<Rightarrow> int \<Rightarrow> file_descriptor list \<Rightarrow> file_descriptor option" where
  "find_fd n searchdir [] = None"
| "find_fd n searchdir (d # ds) =
     (if fd d = n \<and> (searchdir = 2 \<or> (fd_dir d \<noteq> NULL \<and> searchdir = 1) \<or> (fd_dir d = NULL \<and> searchdir = 0))
      then Some d else find_fd n searchdir ds)"

definition getfile :: "uthread \<Rightarrow> int \<Rightarrow> int \<Rightarrow> file_descriptor option" where
  "getfile t n searchdir = find_fd n searchdir (fd_list t)"

section \<open>System calls\<close>

text \<open>A call returns a value, ends the process, has to wait, or switches the machine off.\<close>

datatype 'a sysres = Value 'a | Gone | Waiting | PowerOff

definition sys_exit :: "int \<Rightarrow> int \<Rightarrow> machine \<Rightarrow> ('a sysres \<times> machine) res" where
  "sys_exit c status m = bind_res (exit c status m) (\<lambda>m. Inr (Gone, m))"

text \<open>The file system as the process sees it, with its own working directory.\<close>

definition on_fs :: "int \<Rightarrow> (fs \<Rightarrow> ('a \<times> fs) res) \<Rightarrow> machine \<Rightarrow> ('a \<times> machine) res" where
  "on_fs c f m =
     bind_res (thread_of c m) (\<lambda>cur.
     bind_res (f ((fsys m)\<lparr>cwd := tcwd cur\<rparr>)) (\<lambda>(v, s).
     Inr (v, upd_thread c (\<lambda>t. t\<lparr>tcwd := cwd s\<rparr>) (m\<lparr>fsys := s\<rparr>))))"

text \<open>A section between \<^verbatim>\<open>lock_acquire\<close> and \<^verbatim>\<open>lock_release\<close> of \<^verbatim>\<open>file_lock\<close>, then the rest of the call.\<close>

definition locked :: "int \<Rightarrow> (fs \<Rightarrow> ('a \<times> fs) res) \<Rightarrow> ('a \<Rightarrow> machine \<Rightarrow> ('b sysres \<times> machine) res) \<Rightarrow> machine \<Rightarrow> ('b sysres \<times> machine) res" where
  "locked c f rest m =
     (case file_lock m of
        Some h \<Rightarrow> if h = c then Inl AssertFail else Inr (Waiting, m)
      | None \<Rightarrow> bind_res (on_fs c f m) (\<lambda>(v, m). rest v m))"

definition returns :: "('a \<Rightarrow> 'b) \<Rightarrow> 'a \<Rightarrow> machine \<Rightarrow> ('b sysres \<times> machine) res" where
  "returns g v m = Inr (Value (g v), m)"

definition of_bool32 :: "bool \<Rightarrow> 32 word" where
  "of_bool32 b = (if b then 1 else 0)"

text \<open>A call whose first step is to check one address.\<close>

definition checked :: "int \<Rightarrow> vaddr \<Rightarrow> (machine \<Rightarrow> ('a sysres \<times> machine) res) \<Rightarrow> machine \<Rightarrow> ('a sysres \<times> machine) res" where
  "checked c a f m =
     bind_res (thread_of c m) (\<lambda>cur.
     bind_res (validate_addr (pagedir cur) a (km m)) (\<lambda>ok. if ok then f m else sys_exit c (-1) m))"

text \<open>A call on a path: the string is read with the lock held.\<close>

definition on_path :: "int \<Rightarrow> vaddr \<Rightarrow> (byte list \<Rightarrow> fs \<Rightarrow> ('a \<times> fs) res) \<Rightarrow> ('a \<Rightarrow> machine \<Rightarrow> ('b sysres \<times> machine) res) \<Rightarrow> machine \<Rightarrow> ('b sysres \<times> machine) res" where
  "on_path c file f rest m =
     bind_res (thread_of c m) (\<lambda>cur.
     locked c (\<lambda>s. bind_res (user_string (pagedir cur) file (km m)) (\<lambda>path. f path s)) rest m)"

definition create :: "int \<Rightarrow> vaddr \<Rightarrow> 32 word \<Rightarrow> machine \<Rightarrow> (32 word sysres \<times> machine) res" where
  "create c file initial_size m =
     checked c file (on_path c file (\<lambda>path. filesys_create path (sint initial_size) False) (returns of_bool32)) m"

definition remove :: "int \<Rightarrow> vaddr \<Rightarrow> machine \<Rightarrow> (32 word sysres \<times> machine) res" where
  "remove c file m = checked c file (on_path c file filesys_remove (returns of_bool32)) m"

definition chdir :: "int \<Rightarrow> vaddr \<Rightarrow> machine \<Rightarrow> (32 word sysres \<times> machine) res" where
  "chdir c dir m = checked c dir (on_path c dir filesys_cd (returns of_bool32)) m"

definition mkdir :: "int \<Rightarrow> vaddr \<Rightarrow> machine \<Rightarrow> (32 word sysres \<times> machine) res" where
  "mkdir c dir m = checked c dir (on_path c dir (\<lambda>path. filesys_create path 0 True) (returns of_bool32)) m"

text \<open>The part of \<^verbatim>\<open>open\<close> after \<^verbatim>\<open>filesys_open\<close>.\<close>

definition open_dir :: "addr \<Rightarrow> fs \<Rightarrow> (addr \<times> fs) res" where
  "open_dir f s =
     bind_res (file_get_inode f s) (\<lambda>inode.
     if inode = NULL then Inr (NULL, s)
     else bind_res (get_obj (inodes s) inode) (\<lambda>i.
     if is_dir (data i)
     then bind_res (inode_reopen inode s) (\<lambda>(inode, s). dir_open inode s)
     else Inr (NULL, s)))"

definition add_fd :: "int \<Rightarrow> addr \<Rightarrow> machine \<Rightarrow> (32 word sysres \<times> machine) res" where
  "add_fd c f m =
     (if f = NULL then Inr (Value (-1), m)
      else
        bind_res (thread_of c m) (\<lambda>cur.
        bind_res (on_fs c (open_dir f) m) (\<lambda>(d, m).
        Inr (Value (word_of_int (file_num cur)),
             upd_thread c (\<lambda>t. t\<lparr>fd_list := fd_list t @ [\<lparr>fd = file_num t, fd_file = f, fd_dir = d\<rparr>], file_num := file_num t + 1\<rparr>) m))))"

definition sys_open :: "int \<Rightarrow> vaddr \<Rightarrow> machine \<Rightarrow> (32 word sysres \<times> machine) res" where
  "sys_open c file m = checked c file (on_path c file filesys_open (add_fd c)) m"

definition filesize :: "int \<Rightarrow> int \<Rightarrow> machine \<Rightarrow> (32 word sysres \<times> machine) res" where
  "filesize c n m =
     bind_res (thread_of c m) (\<lambda>cur.
     case getfile cur n 0 of
       None \<Rightarrow> Inr (Value (-1), m)
     | Some d \<Rightarrow> locked c (\<lambda>s. bind_res (file_length (fd_file d) s) (\<lambda>l. Inr (l, s))) (returns word_of_int) m)"

text \<open>\<open>keys\<close>: the characters typed so far that no one has read; more are waited for.\<close>

definition sys_read :: "byte list \<Rightarrow> int \<Rightarrow> int \<Rightarrow> vaddr \<Rightarrow> 32 word \<Rightarrow> machine \<Rightarrow> (32 word sysres \<times> machine) res" where
  "sys_read keys c n buf len m =
     (if n = 1 then Inr (Value (-1), m)
      else checked c buf (\<lambda>m.
        bind_res (thread_of c m) (\<lambda>cur.
        if n = 0 then
          if length keys < unat len then Inr (Waiting, m)
          else bind_res (uput (pagedir cur) buf (take (unat len) keys) (km m)) (\<lambda>k. Inr (Value len, m\<lparr>km := k\<rparr>))
        else case getfile cur n 0 of
            None \<Rightarrow> Inr (Value (-1), m)
          | Some d \<Rightarrow>
              if fd_file d = NULL then Inr (Value (-1), m)
              else locked c (file_read (fd_file d) (sint len)) (\<lambda>bs m.
                   bind_res (uput (pagedir cur) buf bs (km m)) (\<lambda>k. Inr (Value (of_nat (length bs)), m\<lparr>km := k\<rparr>))) m)) m)"

definition sys_write :: "int \<Rightarrow> int \<Rightarrow> vaddr \<Rightarrow> 32 word \<Rightarrow> machine \<Rightarrow> (32 word sysres \<times> machine) res" where
  "sys_write c n buf len m =
     (if n = 0 then Inr (Value (-1), m)
      else checked c buf (\<lambda>m.
        bind_res (thread_of c m) (\<lambda>cur.
        if n = 1 then bind_res (uget (pagedir cur) buf (unat len) (km m)) (\<lambda>_. Inr (Value len, m))
        else case getfile cur n 0 of
            None \<Rightarrow> Inr (Value (-1), m)
          | Some d \<Rightarrow>
              if fd_file d = NULL then Inr (Value (-1), m)
              else locked c (\<lambda>s.
                   bind_res (uget (pagedir cur) buf (nat (sint len)) (km m)) (\<lambda>bs.
                   file_write (fd_file d) bs (sint len) s)) (returns word_of_int) m)) m)"

text \<open>The calls that take the lock whether or not the descriptor exists.\<close>

definition seek :: "int \<Rightarrow> int \<Rightarrow> 32 word \<Rightarrow> machine \<Rightarrow> (unit sysres \<times> machine) res" where
  "seek c n position m =
     bind_res (thread_of c m) (\<lambda>cur.
     locked c (\<lambda>s. case getfile cur n 0 of
         None \<Rightarrow> Inr ((), s)
       | Some d \<Rightarrow> bind_res (file_seek (fd_file d) (sint position) s) (\<lambda>s. Inr ((), s))) (returns id) m)"

definition tell :: "int \<Rightarrow> int \<Rightarrow> machine \<Rightarrow> (32 word sysres \<times> machine) res" where
  "tell c n m =
     bind_res (thread_of c m) (\<lambda>cur.
     locked c (\<lambda>s. case getfile cur n 0 of
         None \<Rightarrow> Inr (-1, s)
       | Some d \<Rightarrow> bind_res (file_tell (fd_file d) s) (\<lambda>p. Inr (p, s))) (returns word_of_int) m)"

definition remove_fd :: "file_descriptor \<Rightarrow> uthread \<Rightarrow> uthread" where
  "remove_fd d t = t\<lparr>fd_list := remove1 d (fd_list t)\<rparr>"

definition close :: "int \<Rightarrow> int \<Rightarrow> machine \<Rightarrow> (unit sysres \<times> machine) res" where
  "close c n m =
     bind_res (thread_of c m) (\<lambda>cur.
     case getfile cur n 0 of
       None \<Rightarrow> locked c (\<lambda>s. Inr ((), s)) (returns id) m
     | Some d \<Rightarrow>
         locked c (\<lambda>s.
           bind_res (file_close (fd_file d) s) (\<lambda>s.
           if fd_dir d \<noteq> NULL then bind_res (dir_close (fd_dir d) s) (\<lambda>s. Inr ((), s)) else Inr ((), s)))
           (\<lambda>_ m. Inr (Value (), upd_thread c (remove_fd d) m)) m)"

definition readdir :: "int \<Rightarrow> int \<Rightarrow> vaddr \<Rightarrow> machine \<Rightarrow> (32 word sysres \<times> machine) res" where
  "readdir c n nm m =
     bind_res (thread_of c m) (\<lambda>cur.
     case getfile cur n 1 of
       None \<Rightarrow> Inr (Value 0, m)
     | Some d \<Rightarrow>
         bind_res (file_get_inode (fd_file d) (fsys m)) (\<lambda>inode.
         if inode = NULL then Inr (Value 0, m)
         else bind_res (get_obj (inodes (fsys m)) inode) (\<lambda>i.
         if \<not> is_dir (data i) then Inr (Value 0, m)
         else locked c (\<lambda>s. bind_res (dir_readdir (fd_dir d) (replicate (NAME_MAX + 1) 0) s) (\<lambda>(ok, nm, s). Inr ((ok, nm), s))) (\<lambda>(ok, bs) m.
              if ok then bind_res (uput (pagedir cur) nm (cstr bs @ [0]) (km m)) (\<lambda>k. Inr (Value 1, m\<lparr>km := k\<rparr>))
              else Inr (Value 0, m)) m)))"

text \<open>A null descriptor is dereferenced here.\<close>

definition isdir :: "int \<Rightarrow> int \<Rightarrow> machine \<Rightarrow> (32 word sysres \<times> machine) res" where
  "isdir c n m =
     bind_res (thread_of c m) (\<lambda>cur.
     locked c (\<lambda>s. case getfile cur n 2 of
         None \<Rightarrow> Inl NullDeref
       | Some d \<Rightarrow>
           bind_res (file_get_inode (fd_file d) s) (\<lambda>inode.
           bind_res (get_obj (inodes s) inode) (\<lambda>i. Inr (is_dir (data i), s)))) (returns of_bool32) m)"

definition inumber :: "int \<Rightarrow> int \<Rightarrow> machine \<Rightarrow> (32 word sysres \<times> machine) res" where
  "inumber c n m =
     bind_res (thread_of c m) (\<lambda>cur.
     locked c (\<lambda>s. case getfile cur n 2 of
         None \<Rightarrow> Inl NullDeref
       | Some d \<Rightarrow>
           bind_res (file_get_inode (fd_file d) s) (\<lambda>inode.
           bind_res (inode_get_inumber inode s) (\<lambda>i. Inr (i, s)))) (returns of_nat) m)"

section \<open>The dispatcher\<close>

definition SYS_HALT :: "32 word" where "SYS_HALT = 0"
definition SYS_EXIT :: "32 word" where "SYS_EXIT = 1"
definition SYS_EXEC :: "32 word" where "SYS_EXEC = 2"
definition SYS_WAIT :: "32 word" where "SYS_WAIT = 3"
definition SYS_CREATE :: "32 word" where "SYS_CREATE = 4"
definition SYS_REMOVE :: "32 word" where "SYS_REMOVE = 5"
definition SYS_OPEN :: "32 word" where "SYS_OPEN = 6"
definition SYS_FILESIZE :: "32 word" where "SYS_FILESIZE = 7"
definition SYS_READ :: "32 word" where "SYS_READ = 8"
definition SYS_WRITE :: "32 word" where "SYS_WRITE = 9"
definition SYS_SEEK :: "32 word" where "SYS_SEEK = 10"
definition SYS_TELL :: "32 word" where "SYS_TELL = 11"
definition SYS_CLOSE :: "32 word" where "SYS_CLOSE = 12"
definition SYS_CHDIR :: "32 word" where "SYS_CHDIR = 15"
definition SYS_MKDIR :: "32 word" where "SYS_MKDIR = 16"
definition SYS_READDIR :: "32 word" where "SYS_READDIR = 17"
definition SYS_ISDIR :: "32 word" where "SYS_ISDIR = 18"
definition SYS_INUMBER :: "32 word" where "SYS_INUMBER = 19"

text \<open>
  \<open>args c esp i j f m\<close>: the words \<open>i\<close> to \<open>j\<close> above the system call number are checked and
  loaded, and \<open>f\<close> gets them; the process ends with -1 when a check fails.
\<close>

fun check_args :: "vaddr \<Rightarrow> vaddr \<Rightarrow> nat list \<Rightarrow> kmem \<Rightarrow> bool res" where
  "check_args pd esp [] k = Inr True"
| "check_args pd esp (i # is) k =
     bind_res (validate_addr pd (esp + of_nat (4 * i)) k) (\<lambda>ok. if ok then check_args pd esp is k else Inr False)"

fun load_args :: "vaddr \<Rightarrow> vaddr \<Rightarrow> nat list \<Rightarrow> kmem \<Rightarrow> 32 word list res" where
  "load_args pd esp [] k = Inr []"
| "load_args pd esp (i # is) k =
     bind_res (load_word pd (esp + of_nat (4 * i)) k) (\<lambda>w. bind_res (load_args pd esp is k) (\<lambda>ws. Inr (w # ws)))"

definition args :: "int \<Rightarrow> vaddr \<Rightarrow> nat \<Rightarrow> (32 word list \<Rightarrow> machine \<Rightarrow> ('a sysres \<times> machine) res) \<Rightarrow> machine \<Rightarrow> ('a sysres \<times> machine) res" where
  "args c esp n f m =
     bind_res (thread_of c m) (\<lambda>cur.
     bind_res (check_args (pagedir cur) esp [1..<Suc n] (km m)) (\<lambda>ok.
     if ok then bind_res (load_args (pagedir cur) esp [1..<Suc n] (km m)) (\<lambda>ws. f ws m)
     else sys_exit c (-1) m))"

definition no_value :: "(unit sysres \<times> machine) res \<Rightarrow> (32 word option sysres \<times> machine) res" where
  "no_value r = bind_res r (\<lambda>(v, m). Inr (case v of Value _ \<Rightarrow> Value None | Gone \<Rightarrow> Gone | Waiting \<Rightarrow> Waiting | PowerOff \<Rightarrow> PowerOff, m))"

definition eax :: "(32 word sysres \<times> machine) res \<Rightarrow> (32 word option sysres \<times> machine) res" where
  "eax r = bind_res r (\<lambda>(v, m). Inr (case v of Value w \<Rightarrow> Value (Some w) | Gone \<Rightarrow> Gone | Waiting \<Rightarrow> Waiting | PowerOff \<Rightarrow> PowerOff, m))"

text \<open>\<^verbatim>\<open>exec\<close> and \<^verbatim>\<open>wait\<close> leave the process at the semaphore they wait for.\<close>

definition sys_exec :: "bool \<Rightarrow> int \<Rightarrow> vaddr \<Rightarrow> machine \<Rightarrow> (32 word sysres \<times> machine) res" where
  "sys_exec ok c cmd_line m =
     bind_res (thread_of c m) (\<lambda>cur.
     bind_res (if cmd_line = 0 then Inr False else validate_string (pagedir cur) cmd_line (km m)) (\<lambda>valid.
     if \<not> valid then sys_exit c (-1) m
     else
       bind_res (user_string (pagedir cur) cmd_line (km m)) (\<lambda>s.
       bind_res (exec_call c (s @ [0]) ok m) (\<lambda>(r, m).
       case r of
         Blocked \<Rightarrow> Inr (Waiting, m)
       | Return pid \<Rightarrow>
           bind_res (exec_return c pid m) (\<lambda>(r, m).
           case r of
             Return v \<Rightarrow> Inr (Value (word_of_int v), m)
           | Blocked \<Rightarrow> Inr (Waiting, upd_thread c (\<lambda>t. t\<lparr>pc_of := InExec pid\<rparr>) m))))))"

definition sys_wait :: "int \<Rightarrow> int \<Rightarrow> machine \<Rightarrow> (32 word sysres \<times> machine) res" where
  "sys_wait c pid m =
     bind_res (process_wait c pid m) (\<lambda>(r, m).
     case r of
       Return v \<Rightarrow> Inr (Value (word_of_int v), m)
     | Blocked \<Rightarrow> Inr (Waiting, upd_thread c (\<lambda>t. t\<lparr>pc_of := InWait pid\<rparr>) m))"

text \<open>
  \<open>keys\<close> is the keyboard input and \<open>ok\<close> whether the record of a child can be allocated. The
  system call number is loaded before its address is checked. The result is the new value of
  \<^verbatim>\<open>eax\<close>, or none when it is left alone.
\<close>

definition syscall_handler :: "byte list \<Rightarrow> bool \<Rightarrow> int \<Rightarrow> vaddr \<Rightarrow> machine \<Rightarrow> (32 word option sysres \<times> machine) res" where
  "syscall_handler keys ok c esp m =
     bind_res (thread_of c m) (\<lambda>cur.
     bind_res (load_word (pagedir cur) esp (km m)) (\<lambda>sys_code.
     checked c esp (\<lambda>m.
       if sys_code = SYS_HALT then Inr (PowerOff, m)
       else if sys_code = SYS_EXIT then args c esp 1 (\<lambda>ws. sys_exit c (sint (ws ! 0))) m
       else if sys_code = SYS_EXEC then args c esp 1 (\<lambda>ws m. eax (sys_exec ok c (ws ! 0) m)) m
       else if sys_code = SYS_WAIT then args c esp 1 (\<lambda>ws m. eax (sys_wait c (sint (ws ! 0)) m)) m
       else if sys_code = SYS_CREATE then args c esp 2 (\<lambda>ws m. eax (create c (ws ! 0) (ws ! 1) m)) m
       else if sys_code = SYS_REMOVE then args c esp 1 (\<lambda>ws m. eax (remove c (ws ! 0) m)) m
       else if sys_code = SYS_OPEN then args c esp 1 (\<lambda>ws m. eax (sys_open c (ws ! 0) m)) m
       else if sys_code = SYS_FILESIZE then args c esp 1 (\<lambda>ws m. eax (filesize c (sint (ws ! 0)) m)) m
       else if sys_code = SYS_READ then args c esp 3 (\<lambda>ws m. eax (sys_read keys c (sint (ws ! 0)) (ws ! 1) (ws ! 2) m)) m
       else if sys_code = SYS_WRITE then args c esp 3 (\<lambda>ws m. eax (sys_write c (sint (ws ! 0)) (ws ! 1) (ws ! 2) m)) m
       else if sys_code = SYS_SEEK then args c esp 2 (\<lambda>ws m. no_value (seek c (sint (ws ! 0)) (ws ! 1) m)) m
       else if sys_code = SYS_TELL then args c esp 1 (\<lambda>ws m. eax (tell c (sint (ws ! 0)) m)) m
       else if sys_code = SYS_CLOSE then args c esp 1 (\<lambda>ws m. no_value (close c (sint (ws ! 0)) m)) m
       else if sys_code = SYS_CHDIR then args c esp 1 (\<lambda>ws m. eax (chdir c (ws ! 0) m)) m
       else if sys_code = SYS_MKDIR then args c esp 1 (\<lambda>ws m. eax (mkdir c (ws ! 0) m)) m
       else if sys_code = SYS_READDIR then args c esp 2 (\<lambda>ws m. eax (readdir c (sint (ws ! 0)) (ws ! 1) m)) m
       else if sys_code = SYS_ISDIR then args c esp 1 (\<lambda>ws m. eax (isdir c (sint (ws ! 0)) m)) m
       else if sys_code = SYS_INUMBER then args c esp 1 (\<lambda>ws m. eax (inumber c (sint (ws ! 0)) m)) m
       else Inr (Value None, m)) m))"

end
