(* ===== verification/Process_Table.thy ===== *)
theory Process_Table
  imports Process
begin

text \<open>
  The process table behind waiting: who is alive, whose child it is, and what the parent's list
  says about it. The invariant is proved for the changes that process creation, termination and
  waiting make to the table; the operations are then shown to make exactly these changes.
\<close>

section \<open>The table\<close>

record pv =
  v_tid :: int
  v_parent :: int
  v_dying :: bool
  v_children :: "child_status list"

definition view_of :: "uthread \<Rightarrow> pv" where
  "view_of t = \<lparr>v_tid = tid t, v_parent = parent_tid t, v_dying = dying t, v_children = child_thread_list t\<rparr>"

definition table :: "machine \<Rightarrow> pv list" where
  "table m = map view_of (all_list m)"

text \<open>How a process ended, and the status its parent is told.\<close>

datatype ending = Exit int | Killed | LoadFailed

fun reported :: "ending \<Rightarrow> int" where
  "reported (Exit n) = n"
| "reported Killed = 0"
| "reported LoadFailed = 0"

type_synonym history = "(int \<times> ending) list"

definition alive :: "pv list \<Rightarrow> int \<Rightarrow> bool" where
  "alive vs x \<longleftrightarrow> (\<exists>v\<in>set vs. v_tid v = x)"

definition links :: "pv list \<Rightarrow> (int \<times> int) list" where
  "links vs = map (\<lambda>v. (v_tid v, v_parent v)) vs"

definition child_ok :: "pv list \<Rightarrow> history \<Rightarrow> pv \<Rightarrow> child_status \<Rightarrow> bool" where
  "child_ok vs h v ch \<longleftrightarrow>
     (if alive vs (child_tid ch)
      then (child_tid ch, v_tid v) \<in> set (links vs) \<and> \<not> child_waited ch \<and> child_wait_sema ch = 0 \<and> child_exit_code ch = 0
      else (\<exists>e. (child_tid ch, e) \<in> set h \<and> child_exit_code ch = reported e) \<and> child_wait_sema ch = (if child_waited ch then 0 else 1))"

definition table_ok :: "pv list \<Rightarrow> int \<Rightarrow> history \<Rightarrow> bool" where
  "table_ok vs n h \<longleftrightarrow>
     distinct (map v_tid vs) \<and> (\<forall>v\<in>set vs. 0 < v_tid v \<and> v_tid v < n \<and> \<not> v_dying v) \<and> 0 < n
     \<and> (\<forall>v\<in>set vs. distinct (map child_tid (v_children v)) \<and> (\<forall>ch\<in>set (v_children v). 0 < child_tid ch \<and> child_tid ch < n \<and> child_ok vs h v ch))
     \<and> (\<forall>(x, e)\<in>set h. x < n \<and> \<not> alive vs x) \<and> distinct (map fst h)"

section \<open>Changes of the table\<close>

definition new_child :: "int \<Rightarrow> child_status" where
  "new_child x = \<lparr>child_tid = x, child_exit_code = 0, child_waited = False, child_wait_sema = 0\<rparr>"

definition add_process :: "int \<Rightarrow> int \<Rightarrow> bool \<Rightarrow> pv list \<Rightarrow> pv list" where
  "add_process c x ok vs =
     map (\<lambda>v. if ok \<and> v_tid v = c then v\<lparr>v_children := v_children v @ [new_child x]\<rparr> else v)
       (vs @ [\<lparr>v_tid = x, v_parent = c, v_dying = False, v_children = []\<rparr>])"

definition end_process :: "int \<Rightarrow> (child_status \<Rightarrow> child_status) \<Rightarrow> pv list \<Rightarrow> pv list" where
  "end_process c g vs = map (\<lambda>v. v\<lparr>v_children := upd_child c g (v_children v)\<rparr>) (filter (\<lambda>v. v_tid v \<noteq> c) vs)"

definition wait_process :: "int \<Rightarrow> int \<Rightarrow> pv list \<Rightarrow> pv list" where
  "wait_process c x vs = map (\<lambda>v. if v_tid v = c then v\<lparr>v_children := snd (wait_loop x (v_children v))\<rparr> else v) vs"

lemma child_tid_upd_child: "(\<And>ch. child_tid (g ch) = child_tid ch) \<Longrightarrow> map child_tid (upd_child x g cs) = map child_tid cs"
  by (induction cs) auto

lemma upd_child_other: "\<forall>ch\<in>set cs. child_tid ch \<noteq> x \<Longrightarrow> upd_child x g cs = cs"
  by (induction cs) auto

lemma in_upd_child:
  assumes "distinct (map child_tid cs)" and "ch \<in> set (upd_child x g cs)" and "\<And>ch. child_tid (g ch) = child_tid ch"
  shows "if child_tid ch = x then (\<exists>ch0\<in>set cs. child_tid ch0 = x \<and> ch = g ch0) else ch \<in> set cs"
  using assms
proof (induction cs)
  case (Cons d cs)
  show ?case
  proof (cases "child_tid d = x")
    case True
    then have "\<forall>ch\<in>set cs. child_tid ch \<noteq> x" using Cons.prems(1) by (metis distinct.simps(2) imageI list.simps(9) set_map)
    then show ?thesis using Cons.prems(2,3) True by auto
  next
    case False
    then show ?thesis using Cons.IH Cons.prems by auto
  qed
qed simp

lemma in_wait_loop:
  assumes "ch \<in> set (snd (wait_loop x cs))"
  shows "ch \<in> set cs \<or> (\<exists>ch0\<in>set cs. child_tid ch0 = x \<and> \<not> child_waited ch0 \<and> 0 < child_wait_sema ch0
     \<and> ch = ch0\<lparr>child_wait_sema := child_wait_sema ch0 - 1, child_waited := True\<rparr>)"
  using assms by (induction cs) (auto split: if_splits prod.splits)

lemma child_tid_wait_loop: "map child_tid (snd (wait_loop x cs)) = map child_tid cs"
  by (induction cs) (auto split: prod.splits)

lemma alive_tids: "alive vs x \<longleftrightarrow> x \<in> set (map v_tid vs)"
  by (auto simp: alive_def)

lemma tids_end: "map v_tid (end_process c g vs) = filter (\<lambda>x. x \<noteq> c) (map v_tid vs)"
  by (simp add: end_process_def filter_map comp_def)

lemma tids_add: "map v_tid (add_process c x ok vs) = map v_tid vs @ [x]"
  by (simp add: add_process_def comp_def if_distrib cong: if_cong)

lemma tids_wait: "map v_tid (wait_process c x vs) = map v_tid vs"
  by (simp add: wait_process_def comp_def if_distrib cong: if_cong)

lemma links_end: "links (end_process c g vs) = filter (\<lambda>(x, y). x \<noteq> c) (links vs)"
  by (simp add: end_process_def links_def filter_map comp_def)

lemma links_add: "links (add_process c x ok vs) = links vs @ [(x, c)]"
  by (simp add: add_process_def links_def comp_def if_distrib cong: if_cong)

lemma links_wait: "links (wait_process c x vs) = links vs"
  by (simp add: wait_process_def links_def comp_def if_distrib cong: if_cong)

lemmas alive_table = alive_tids tids_end tids_add tids_wait

text \<open>A process that ends: its entry in the list of its parent is completed.\<close>

lemma table_ok_end:
  assumes "table_ok vs n h" and "alive vs c" and g: "g = (\<lambda>ch. ch\<lparr>child_exit_code := code ch, child_wait_sema := child_wait_sema ch + 1\<rparr>)"
    and code: "\<And>ch. child_exit_code ch = 0 \<Longrightarrow> code ch = reported e"
  shows "table_ok (end_process c g vs) n ((c, e) # h)"
proof -
  let ?vs = "end_process c g vs"
  have gt: "child_tid (g ch) = child_tid ch" for ch by (simp add: g)
  have al: "alive ?vs x \<longleftrightarrow> alive vs x \<and> x \<noteq> c" for x by (auto simp: alive_tids tids_end)
  have v: "v_tid v < n \<and> 0 < v_tid v \<and> \<not> v_dying v \<and> distinct (map child_tid (v_children v))" if "v \<in> set vs" for v
    using assms(1) that by (auto simp: table_ok_def)
  have ch: "0 < child_tid ch \<and> child_tid ch < n \<and> child_ok vs h v ch" if "v \<in> set vs" "ch \<in> set (v_children v)" for v ch
    using assms(1) that by (auto simp: table_ok_def)
  have ok: "0 < child_tid ch \<and> child_tid ch < n \<and> child_ok ?vs ((c, e) # h) (v\<lparr>v_children := upd_child c g (v_children v)\<rparr>) ch"
    if vv: "v \<in> set vs" "ch \<in> set (upd_child c g (v_children v))" for v ch
  proof (cases "child_tid ch = c")
    case True
    then obtain ch0 where c0: "ch0 \<in> set (v_children v)" "child_tid ch0 = c" "ch = g ch0"
      using in_upd_child [OF _ vv(2) gt] v [OF vv(1)] by auto
    then have "\<not> child_waited ch0 \<and> child_wait_sema ch0 = 0 \<and> child_exit_code ch0 = 0"
      using ch [OF vv(1) c0(1)] assms(2) by (simp add: child_ok_def)
    then show ?thesis using ch [OF vv(1) c0(1)] c0 code [of ch0] al [of c] by (auto simp: child_ok_def g)
  next
    case False
    then have c0: "ch \<in> set (v_children v)" using in_upd_child [OF _ vv(2) gt] v [OF vv(1)] by auto
    have "(child_tid ch, v_tid v) \<in> set (links ?vs) \<longleftrightarrow> (child_tid ch, v_tid v) \<in> set (links vs)"
      using False by (simp add: links_end)
    then show ?thesis using ch [OF vv(1) c0] False al [of "child_tid ch"] by (auto simp: child_ok_def)
  qed
  have "distinct (map v_tid ?vs)" using assms(1) by (simp add: tids_end table_ok_def)
  moreover have "\<forall>v\<in>set ?vs. 0 < v_tid v \<and> v_tid v < n \<and> \<not> v_dying v" using v by (auto simp: end_process_def)
  moreover have "\<forall>v\<in>set ?vs. distinct (map child_tid (v_children v)) \<and> (\<forall>ch\<in>set (v_children v). 0 < child_tid ch \<and> child_tid ch < n \<and> child_ok ?vs ((c, e) # h) v ch)"
  proof
    fix v' assume "v' \<in> set ?vs"
    then obtain v0 where v0: "v0 \<in> set vs" "v' = v0\<lparr>v_children := upd_child c g (v_children v0)\<rparr>" by (auto simp: end_process_def)
    show "distinct (map child_tid (v_children v')) \<and> (\<forall>ch\<in>set (v_children v'). 0 < child_tid ch \<and> child_tid ch < n \<and> child_ok ?vs ((c, e) # h) v' ch)"
      using ok [OF v0(1)] v [OF v0(1)] v0(2) by (simp add: child_tid_upd_child gt)
  qed
  moreover have "\<forall>(x, e')\<in>set ((c, e) # h). x < n \<and> \<not> alive ?vs x"
    using assms(1,2) v by (auto simp: table_ok_def al) (auto simp: alive_def)
  moreover have "c \<notin> fst ` set h" using assms(1,2) by (auto simp: table_ok_def)
  ultimately show ?thesis using assms(1) by (simp add: table_ok_def)
qed

lemma table_ok_add:
  assumes "table_ok vs n h" and "alive vs c"
  shows "table_ok (add_process c n ok vs) (n + 1) h"
proof -
  let ?vs = "add_process c n ok vs" and ?new = "\<lparr>v_tid = n, v_parent = c, v_dying = False, v_children = []\<rparr>"
  have v: "v_tid v < n \<and> 0 < v_tid v \<and> \<not> v_dying v \<and> distinct (map child_tid (v_children v))" if "v \<in> set vs" for v
    using assms(1) that by (auto simp: table_ok_def)
  have ch: "0 < child_tid ch \<and> child_tid ch < n \<and> child_ok vs h v ch" if "v \<in> set vs" "ch \<in> set (v_children v)" for v ch
    using assms(1) that by (auto simp: table_ok_def)
  have n: "0 < n" "c < n" using assms v by (auto simp: table_ok_def alive_def)
  have al: "alive ?vs x \<longleftrightarrow> alive vs x \<or> x = n" for x by (auto simp: alive_table)
  have old: "child_ok ?vs h v ch" if "child_ok vs h v ch" "child_tid ch < n" for v ch
    using that al [of "child_tid ch"] by (auto simp: child_ok_def links_add split: if_splits)
  have old': "child_ok ?vs h (v\<lparr>v_children := cs\<rparr>) ch \<longleftrightarrow> child_ok ?vs h v ch" for v cs ch by (simp add: child_ok_def)
  have fresh: "child_ok ?vs h v (new_child n)" if "v_tid v = c" for v
    using al [of n] that by (simp add: child_ok_def new_child_def links_add)
  have per: "v_tid v' < n + 1 \<and> 0 < v_tid v' \<and> \<not> v_dying v' \<and> distinct (map child_tid (v_children v'))
      \<and> (\<forall>ch\<in>set (v_children v'). 0 < child_tid ch \<and> child_tid ch < n + 1 \<and> child_ok ?vs h v' ch)" if "v' \<in> set ?vs" for v'
  proof -
    from that consider (new) "v' = ?new" | (same) "v' \<in> set vs" | (parent) v where "v \<in> set vs" "v_tid v = c" "v' = v\<lparr>v_children := v_children v @ [new_child n]\<rparr>"
      using n(2) by (auto simp: add_process_def split: if_splits)
    then show ?thesis
    proof cases
      case new then show ?thesis using n(1) by simp
    next
      case same then show ?thesis using v [OF same] ch [OF same] old by fastforce
    next
      case parent
      have "n \<notin> child_tid ` set (v_children v)" using ch [OF parent(1)] by fastforce
      moreover have "child_tid (new_child n) = n" by (simp add: new_child_def)
      ultimately show ?thesis using parent v [OF parent(1)] ch [OF parent(1)] old old' fresh [OF parent(2)] n(1) by fastforce
    qed
  qed
  have "n \<notin> set (map v_tid vs)" using v by fastforce
  then have "distinct (map v_tid ?vs)" using assms(1) by (simp add: tids_add table_ok_def)
  moreover have "\<forall>(x, e)\<in>set h. x < n + 1 \<and> \<not> alive ?vs x" using assms(1) by (auto simp: table_ok_def al)
  moreover have "distinct (map fst h)" using assms(1) by (simp add: table_ok_def)
  ultimately show ?thesis using per n(1) unfolding table_ok_def by auto
qed

lemma table_ok_wait:
  assumes "table_ok vs n h"
  shows "table_ok (wait_process c x vs) n h"
proof -
  let ?vs = "wait_process c x vs"
  have v: "v_tid v < n \<and> 0 < v_tid v \<and> \<not> v_dying v \<and> distinct (map child_tid (v_children v))" if "v \<in> set vs" for v
    using assms(1) that by (auto simp: table_ok_def)
  have ch: "0 < child_tid ch \<and> child_tid ch < n \<and> child_ok vs h v ch" if "v \<in> set vs" "ch \<in> set (v_children v)" for v ch
    using assms(1) that by (auto simp: table_ok_def)
  have al: "alive ?vs y \<longleftrightarrow> alive vs y" for y by (auto simp: alive_table)
  have same: "child_ok ?vs h (v\<lparr>v_children := cs\<rparr>) ch \<longleftrightarrow> child_ok vs h v ch" "child_ok ?vs h v ch \<longleftrightarrow> child_ok vs h v ch" for v cs ch
    by (simp_all add: child_ok_def al links_wait)
  have waited: "child_ok vs h v (ch\<lparr>child_wait_sema := child_wait_sema ch - 1, child_waited := True\<rparr>)"
    if "child_ok vs h v ch" "\<not> child_waited ch" "0 < child_wait_sema ch" for v ch
    using that by (auto simp: child_ok_def split: if_splits)
  have ok: "0 < child_tid d \<and> child_tid d < n \<and> child_ok vs h v d" if "v \<in> set vs" "d \<in> set (snd (wait_loop x (v_children v)))" for v d
    using in_wait_loop [OF that(2)] ch [OF that(1)] waited by fastforce
  have per: "v_tid v' < n \<and> 0 < v_tid v' \<and> \<not> v_dying v' \<and> distinct (map child_tid (v_children v'))
      \<and> (\<forall>ch\<in>set (v_children v'). 0 < child_tid ch \<and> child_tid ch < n \<and> child_ok ?vs h v' ch)" if "v' \<in> set ?vs" for v'
  proof -
    from that consider (same) "v' \<in> set vs" | (waiter) v where "v \<in> set vs" "v' = v\<lparr>v_children := snd (wait_loop x (v_children v))\<rparr>"
      by (auto simp: wait_process_def split: if_splits)
    then show ?thesis
    proof cases
      case same then show ?thesis using v ch \<open>\<And>v ch. child_ok ?vs h v ch = child_ok vs h v ch\<close> by blast
    next
      case waiter then show ?thesis using v [OF waiter(1)] ok [OF waiter(1)] same(1) by (simp add: child_tid_wait_loop)
    qed
  qed
  have "distinct (map v_tid ?vs)" using assms(1) by (simp add: tids_wait table_ok_def)
  moreover have "\<forall>(y, e)\<in>set h. y < n \<and> \<not> alive ?vs y" using assms(1) by (auto simp: table_ok_def al)
  moreover have "0 < n" "distinct (map fst h)" using assms(1) by (simp_all add: table_ok_def)
  ultimately show ?thesis using per unfolding table_ok_def by auto
qed

end
