(* ===== verification/Process_Steps.thy ===== *)
theory Process_Steps
  imports Process_Table
begin

text \<open>
  The operations on processes change the table exactly as the specification says, so the invariant
  holds in every state a system of processes can reach.
\<close>

section \<open>Effects on the table\<close>

lemma table_km [simp]: "table (m\<lparr>km := k\<rparr>) = table m" "table (m\<lparr>fsys := s\<rparr>) = table m" "table (m\<lparr>file_lock := l\<rparr>) = table m"
  "table (m\<lparr>next_tid := n\<rparr>) = table m" "table (m\<lparr>all_list := ts\<rparr>) = map view_of ts"
  by (simp_all add: table_def)

lemma upd_thread_fields [simp]: "next_tid (upd_thread x f m) = next_tid m" "km (upd_thread x f m) = km m" "fsys (upd_thread x f m) = fsys m"
  "file_lock (upd_thread x f m) = file_lock m"
  by (simp_all add: upd_thread_def)

lemma table_upd_same: "(\<And>t. view_of (f t) = view_of t) \<Longrightarrow> table (upd_thread x f m) = table m"
  by (simp add: upd_thread_def table_def)

lemma table_upd_children:
  "table (upd_thread x (\<lambda>t. t\<lparr>child_thread_list := F (child_thread_list t)\<rparr>) m) =
   map (\<lambda>v. if v_tid v = x then v\<lparr>v_children := F (v_children v)\<rparr> else v) (table m)"
  by (simp add: upd_thread_def table_def view_of_def)

lemma tids_table: "map v_tid (table m) = map tid (all_list m)"
  by (simp add: table_def view_of_def)

lemma thread_of_view: "thread_of c m = Inr t \<Longrightarrow> view_of t \<in> set (table m) \<and> tid t = c"
  by (auto simp: thread_of_def table_def find_Some_iff split: option.splits)

lemma same_key: "distinct (map f xs) \<Longrightarrow> x \<in> set xs \<Longrightarrow> y \<in> set xs \<Longrightarrow> f x = f y \<Longrightarrow> x = y"
  by (simp add: distinct_map inj_on_def)

lemma get_by_tid_in: "thread_get_by_tid x ts = Some t \<Longrightarrow> t \<in> set ts"
  by (induction ts) (auto split: if_splits)

lemma get_by_tid_found: "t \<in> set ts \<Longrightarrow> tid t = x \<Longrightarrow> \<not> dying t \<Longrightarrow> \<exists>t'. thread_get_by_tid x ts = Some t' \<and> tid t' = x"
  by (induction ts) auto

lemma get_by_tid_some: "ts \<noteq> [] \<Longrightarrow> \<exists>t. thread_get_by_tid x ts = Some t"
  by (induction ts) auto

text \<open>Only the parent's list has an entry for a process.\<close>

definition own_entry :: "int \<Rightarrow> pv list \<Rightarrow> bool" where
  "own_entry c vs \<longleftrightarrow> distinct (map v_tid vs) \<and> (\<forall>v\<in>set vs. \<not> v_dying v
     \<and> (\<forall>ch\<in>set (v_children v). child_tid ch = c \<longrightarrow> (\<forall>q\<in>set vs. v_tid q = c \<longrightarrow> v_parent q = v_tid v)))"

definition signal :: "int \<Rightarrow> (child_status \<Rightarrow> child_status) \<Rightarrow> pv list \<Rightarrow> pv list" where
  "signal c g vs = map (\<lambda>v. v\<lparr>v_children := upd_child c g (v_children v)\<rparr>) vs"

lemma table_ok_own: "table_ok vs n h \<Longrightarrow> own_entry c vs"
proof -
  assume ok: "table_ok vs n h"
  have "v_parent q = v_tid v" if "v \<in> set vs" "ch \<in> set (v_children v)" "child_tid ch = c" "q \<in> set vs" "v_tid q = c" for v ch q
  proof -
    have "alive vs c" using that by (auto simp: alive_def)
    then have "(c, v_tid v) \<in> set (links vs)" using ok that(1-3) by (auto simp: table_ok_def child_ok_def split: if_splits)
    then obtain q' where "q' \<in> set vs" "v_tid q' = c" "v_parent q' = v_tid v" by (auto simp: links_def)
    moreover from this have "q' = q" using ok that(4,5) by (intro same_key [of v_tid vs]) (simp_all add: table_ok_def)
    ultimately show ?thesis by simp
  qed
  then show ?thesis using ok by (auto simp: own_entry_def table_ok_def)
qed

lemma own_entry_signal:
  assumes "own_entry c vs" and "\<And>ch. child_tid (g ch) = child_tid ch"
  shows "own_entry c (signal c g vs)"
proof -
  have "ch' \<in> child_tid ` set (upd_child c g cs) \<longleftrightarrow> ch' \<in> child_tid ` set cs" for ch' cs
    using child_tid_upd_child [OF assms(2), of c cs] by (metis set_map)
  then have "(\<exists>ch\<in>set (upd_child c g cs). child_tid ch = c) \<longleftrightarrow> (\<exists>ch\<in>set cs. child_tid ch = c)" for cs by (metis image_iff)
  then show ?thesis using assms(1) by (simp add: own_entry_def signal_def comp_def)
qed

lemma signal_signal: "(\<And>ch. child_tid (f ch) = child_tid ch) \<Longrightarrow> signal c g (signal c f vs) = signal c (g \<circ> f) vs"
proof -
  assume f: "\<And>ch. child_tid (f ch) = child_tid ch"
  have "upd_child c g (upd_child c f cs) = upd_child c (g \<circ> f) cs" for cs by (induction cs) (auto simp: f)
  then show ?thesis by (simp add: signal_def)
qed

lemma end_process_signal: "end_process c g vs = filter (\<lambda>v. v_tid v \<noteq> c) (signal c g vs)"
  by (simp add: end_process_def signal_def filter_map comp_def)

text \<open>Signalling the thread that the look-up returns reaches the only entry there is.\<close>

lemma signal_parent:
  assumes "own_entry c (table m)" and "thread_of c m = Inr cur" and "thread_get_by_tid (parent_tid cur) (all_list m) = Some p"
  shows "table (upd_thread (tid p) (\<lambda>t. t\<lparr>child_thread_list := upd_child (tid cur) g (child_thread_list t)\<rparr>) m) = signal c g (table m)"
proof -
  have cur: "view_of cur \<in> set (table m)" "tid cur = c" using thread_of_view [OF assms(2)] by simp_all
  have "upd_child c g (v_children v) = v_children v" if v: "v \<in> set (table m)" "v_tid v \<noteq> tid p" for v
  proof (rule upd_child_other, rule ccontr)
    assume "\<not> (\<forall>ch\<in>set (v_children v). child_tid ch \<noteq> c)"
    moreover have "v_tid (view_of cur) = c" by (simp add: view_of_def cur(2))
    ultimately have "v_parent (view_of cur) = v_tid v" using assms(1) v(1) cur(1) unfolding own_entry_def by blast
    then have par: "parent_tid cur = v_tid v" by (simp add: view_of_def)
    obtain t where t: "t \<in> set (all_list m)" "v = view_of t" using v(1) by (auto simp: table_def)
    have "\<not> dying t" using assms(1) v(1) t(2) by (auto simp: own_entry_def view_of_def)
    then show False using get_by_tid_found [OF t(1), of "parent_tid cur"] par t(2) assms(3) v(2) by (auto simp: view_of_def)
  qed
  then show ?thesis unfolding table_upd_children cur(2) signal_def by (auto intro!: map_cong)
qed

lemma no_entry:
  assumes "own_entry c (table m)" and "thread_of c m = Inr cur" and "thread_get_by_tid (parent_tid cur) (all_list m) = Some p"
    and "child_thread_list p = []"
  shows "signal c g (table m) = table m"
proof -
  have d: "distinct (map tid (all_list m))" using assms(1) by (simp add: own_entry_def tids_table)
  have "upd_thread (tid p) (\<lambda>t. t\<lparr>child_thread_list := upd_child (tid cur) g (child_thread_list t)\<rparr>) m = m"
  proof -
    have "t\<lparr>child_thread_list := upd_child (tid cur) g (child_thread_list t)\<rparr> = t" if "t \<in> set (all_list m)" "tid t = tid p" for t
    proof -
      have "t = p" using same_key [OF d that(1) get_by_tid_in [OF assms(3)] that(2)] .
      then show ?thesis using assms(4) by simp
    qed
    then have "map (\<lambda>t. if tid t = tid p then t\<lparr>child_thread_list := upd_child (tid cur) g (child_thread_list t)\<rparr> else t) (all_list m) = all_list m"
      by (intro map_idI) simp
    then show ?thesis by (simp add: upd_thread_def)
  qed
  then show ?thesis using signal_parent [OF assms(1-3), of g] by simp
qed

lemma release_process_table:
  assumes "release_process c m = Inr m'"
  shows "filter (\<lambda>v. v_tid v \<noteq> c) (table m') = filter (\<lambda>v. v_tid v \<noteq> c) (table m)" and "next_tid m' = next_tid m"
proof -
  have f: "filter (\<lambda>v. v_tid v \<noteq> c) (table (upd_thread c f m)) = filter (\<lambda>v. v_tid v \<noteq> c) (table m)"
    if "\<And>t. tid (f t) = tid t" for f m
    using that by (induction "all_list m") (auto simp: table_def upd_thread_def view_of_def filter_map comp_def intro!: map_cong filter_cong)
  show "filter (\<lambda>v. v_tid v \<noteq> c) (table m') = filter (\<lambda>v. v_tid v \<noteq> c) (table m)" "next_tid m' = next_tid m"
    using assms by (auto simp: release_process_def Let_def res_simps f free_child_list_def split: if_splits)
qed

definition sema_up_child :: "child_status \<Rightarrow> child_status" where
  "sema_up_child ch = ch\<lparr>child_wait_sema := child_wait_sema ch + 1\<rparr>"

lemma process_exit_table:
  assumes "process_exit c m = Inr m'" and "own_entry c (table m)"
  shows "filter (\<lambda>v. v_tid v \<noteq> c) (table m') = end_process c sema_up_child (table m)" and "next_tid m' = next_tid m"
proof -
  obtain cur where cur: "thread_of c m = Inr cur" using assms(1) by (auto simp: process_exit_def res_simps)
  have "all_list m \<noteq> []" using thread_of_view [OF cur] by (auto simp: table_def)
  then obtain p where p: "thread_get_by_tid (parent_tid cur) (all_list m) = Some p" using get_by_tid_some by blast
  note sig = signal_parent [OF assms(2) cur p, of sema_up_child] no_entry [OF assms(2) cur p]
  show "filter (\<lambda>v. v_tid v \<noteq> c) (table m') = end_process c sema_up_child (table m)" "next_tid m' = next_tid m"
    using assms(1) cur p sig release_process_table
    by (auto simp: process_exit_def end_process_signal sema_up_child_def [abs_def] split: if_splits)
qed

lemma uthread_exit_table:
  assumes "uthread_exit c m = Inr m'" and "own_entry c (table m)"
  shows "table m' = end_process c sema_up_child (table m)" and "next_tid m' = next_tid m"
proof -
  obtain m1 where m1: "process_exit c m = Inr m1" "all_list m' = filter (\<lambda>t. tid t \<noteq> c) (all_list m1)" "next_tid m' = next_tid m1"
    using assms(1) by (auto simp: uthread_exit_def res_simps)
  have "table m' = filter (\<lambda>v. v_tid v \<noteq> c) (table m1)" using m1(2) by (simp add: table_def filter_map comp_def view_of_def)
  then show "table m' = end_process c sema_up_child (table m)" "next_tid m' = next_tid m"
    using process_exit_table [OF m1(1) assms(2)] m1(3) by simp_all
qed

lemma view_simps [simp]: "view_of (t\<lparr>exit_code := n\<rparr>) = view_of t" "view_of (t\<lparr>pc_of := q\<rparr>) = view_of t" "view_of (t\<lparr>pagedir := pd\<rparr>) = view_of t"
  "view_of (t\<lparr>running_file := f\<rparr>) = view_of t" "view_of (t\<lparr>tload_state := l\<rparr>) = view_of t" "view_of (t\<lparr>load_sema := k\<rparr>) = view_of t"
  "view_of (t\<lparr>fd_list := fds\<rparr>) = view_of t" "view_of (t\<lparr>file_num := i\<rparr>) = view_of t" "view_of (t\<lparr>tcwd := d\<rparr>) = view_of t"
  by (simp_all add: view_of_def)

lemma thread_of_upd: "(\<And>t. tid (f t) = tid t) \<Longrightarrow> thread_of c m = Inr t \<Longrightarrow> thread_of c (upd_thread x f m) = Inr (if tid t = x then f t else t)"
proof -
  assume f: "\<And>t. tid (f t) = tid t" and t: "thread_of c m = Inr t"
  have "find (\<lambda>t. tid t = c) (map (\<lambda>t. if tid t = x then f t else t) ts) = map_option (\<lambda>t. if tid t = x then f t else t) (find (\<lambda>t. tid t = c) ts)" for ts
    by (induction ts) (auto simp: f)
  then show ?thesis using t by (auto simp: thread_of_def upd_thread_def split: option.splits)
qed

lemma get_by_tid_upd:
  assumes "\<And>t. tid (f t) = tid t" and "\<And>t. dying (f t) = dying t"
  shows "thread_get_by_tid y (all_list (upd_thread x f m)) = map_option (\<lambda>t. if tid t = x then f t else t) (thread_get_by_tid y (all_list m))"
proof -
  have "thread_get_by_tid y (map (\<lambda>t. if tid t = x then f t else t) ts) = map_option (\<lambda>t. if tid t = x then f t else t) (thread_get_by_tid y ts)" for ts
    using assms by (induction ts) auto
  then show ?thesis by (simp add: upd_thread_def)
qed

definition record_exit :: "int \<Rightarrow> child_status \<Rightarrow> child_status" where
  "record_exit n ch = ch\<lparr>child_exit_code := n, child_wait_sema := child_wait_sema ch + 1\<rparr>"

lemma exit_table:
  assumes "exit c n m = Inr m'" and "own_entry c (table m)"
  shows "table m' = end_process c (record_exit n) (table m)" and "next_tid m' = next_tid m"
proof -
  obtain cur where cur: "thread_of c m = Inr cur" using assms(1) by (auto simp: exit_def res_simps)
  let ?m = "upd_thread c (\<lambda>t. t\<lparr>exit_code := n\<rparr>) m" and ?g = "\<lambda>ch. ch\<lparr>child_exit_code := n\<rparr>"
  have tb: "table ?m = table m" by (rule table_upd_same) simp
  have "all_list m \<noteq> []" using thread_of_view [OF cur] by (auto simp: table_def)
  then obtain p where p: "thread_get_by_tid (parent_tid cur) (all_list m) = Some p" using get_by_tid_some by blast
  have tc: "tid cur = c" using thread_of_view [OF cur] by simp
  have cur': "thread_of c ?m = Inr (cur\<lparr>exit_code := n\<rparr>)" using thread_of_upd [OF _ cur, of "\<lambda>t. t\<lparr>exit_code := n\<rparr>" c] tc by simp
  have p': "thread_get_by_tid (parent_tid cur) (all_list ?m) = Some (if tid p = c then p\<lparr>exit_code := n\<rparr> else p)"
    using p by (simp add: get_by_tid_upd)
  let ?m2 = "upd_thread (tid p) (\<lambda>t. t\<lparr>child_thread_list := upd_child (tid cur) ?g (child_thread_list t)\<rparr>) ?m"
  have t2: "table ?m2 = signal c ?g (table m)"
    using signal_parent [of c ?m "cur\<lparr>exit_code := n\<rparr>" "if tid p = c then p\<lparr>exit_code := n\<rparr> else p" ?g] cur' p' tb assms(2) by (simp split: if_splits)
  have "uthread_exit c ?m2 = Inr m'" using assms(1) cur p by (simp add: exit_def Let_def)
  moreover have "own_entry c (table ?m2)" unfolding t2 by (rule own_entry_signal [OF assms(2)]) simp
  ultimately have u: "table m' = end_process c sema_up_child (table ?m2)" "next_tid m' = next_tid ?m2" by (rule uthread_exit_table)+
  have "sema_up_child \<circ> ?g = record_exit n" by (simp add: fun_eq_iff sema_up_child_def record_exit_def)
  then show "table m' = end_process c (record_exit n) (table m)" using u(1) by (simp add: t2 end_process_signal signal_signal)
  show "next_tid m' = next_tid m" using u(2) by simp
qed

lemma uthread_create_list:
  assumes "uthread_create nm aux m = Inr (x, m')"
  shows "(x = TID_ERROR \<and> all_list m' = all_list m \<and> next_tid m' = next_tid m)
     \<or> (x = next_tid m \<and> next_tid m' = next_tid m + 1 \<and> (\<exists>t n. all_list m' = all_list m @ [init_uthread t x n aux]))"
  using assms by (auto simp: uthread_create_def res_simps Let_def split: if_splits option.splits) blast+

lemma set_parent_table:
  assumes "all_list m = ts @ [init_uthread t x n aux]" and "x \<notin> tid ` set ts"
  shows "table (upd_thread x (\<lambda>t. t\<lparr>parent_tid := c\<rparr>) m) = map view_of ts @ [\<lparr>v_tid = x, v_parent = c, v_dying = False, v_children = []\<rparr>]"
proof -
  have "map (\<lambda>t. if tid t = x then t\<lparr>parent_tid := c\<rparr> else t) ts = ts"
    using assms(2) by (intro map_idI) auto
  then show ?thesis using assms(1) by (simp add: upd_thread_def table_def view_of_def init_uthread_def)
qed

lemma register_child_table:
  assumes "register_child c x ok fn_copy m1 = Inr (r, m')" and "all_list m1 = all_list m @ [init_uthread t x n aux]" and "x \<notin> tid ` set (all_list m)"
  shows "table m' = add_process c x ok (table m) \<and> next_tid m' = next_tid m1 \<and> r = (if ok then x else TID_ERROR)"
proof -
  obtain q where q: "thread_get_by_tid x (all_list m1) = Some q" "tid q = x"
    using get_by_tid_found [of "init_uthread t x n aux" "all_list m1" x] assms(2) by (auto simp: init_uthread_def)
  let ?m2 = "upd_thread x (\<lambda>t. t\<lparr>parent_tid := c\<rparr>) m1"
  have t2: "table ?m2 = table m @ [\<lparr>v_tid = x, v_parent = c, v_dying = False, v_children = []\<rparr>]"
    using set_parent_table [OF assms(2,3)] by (simp add: table_def)
  show ?thesis
  proof (cases ok)
    case True
    then have "m' = upd_thread c (\<lambda>t. t\<lparr>child_thread_list := child_thread_list t @ [new_child x]\<rparr>) ?m2" "r = x"
      using assms(1) q by (auto simp: register_child_def Let_def new_child_def)
    then show ?thesis using t2 True table_upd_children [of c "\<lambda>l. l @ [new_child x]" ?m2] by (simp add: add_process_def)
  next
    case False
    then have "table m' = table ?m2" "next_tid m' = next_tid m1" "r = TID_ERROR" using assms(1) q by (auto simp: register_child_def Let_def res_simps)
    then show ?thesis using t2 False by (simp add: add_process_def)
  qed
qed

lemma process_execute_table:
  assumes "process_execute c file_name ok m = Inr (x, m')" and "table_ok (table m) (next_tid m) h"
  shows "(table m' = table m \<and> next_tid m' = next_tid m \<and> x = TID_ERROR)
     \<or> (table m' = add_process c (next_tid m) ok (table m) \<and> next_tid m' = next_tid m + 1 \<and> x = (if ok then next_tid m else TID_ERROR))"
proof -
  have fresh: "next_tid m \<notin> tid ` set (all_list m)" "next_tid m \<noteq> TID_ERROR"
    using assms(2) by (auto simp: table_ok_def table_def view_of_def TID_ERROR_def)
  consider (none) "all_list m' = all_list m" "next_tid m' = next_tid m" "x = TID_ERROR"
    | (create) nm fn_copy k new m1 k1 where "uthread_create nm fn_copy (m\<lparr>km := k\<rparr>) = Inr (new, m1)"
        "(new = TID_ERROR \<and> (\<exists>k. m' = m1\<lparr>km := k\<rparr>) \<and> x = TID_ERROR) \<or> (new \<noteq> TID_ERROR \<and> register_child c new ok fn_copy (m1\<lparr>km := k1\<rparr>) = Inr (x, m'))"
    using assms(1) by (auto simp: process_execute_def res_simps Let_def split: if_splits) blast+
  then show ?thesis
  proof cases
    case none
    then show ?thesis by (simp add: table_def)
  next
    case create
    from uthread_create_list [OF create(1)] consider "new = TID_ERROR" "all_list m1 = all_list m" "next_tid m1 = next_tid m"
      | t n where "new = next_tid m" "next_tid m1 = next_tid m + 1" "all_list m1 = all_list m @ [init_uthread t new n fn_copy]" by auto
    then show ?thesis
    proof cases
      case 1
      then show ?thesis using create(2) by (auto simp: table_def)
    next
      case 2
      then have "register_child c new ok fn_copy (m1\<lparr>km := k1\<rparr>) = Inr (x, m')" using create(2) fresh(2) by auto
      from register_child_table [OF this, of m t n fn_copy] 2 fresh(1) show ?thesis by simp
    qed
  qed
qed

lemma report_load_table:
  assumes "report_load c parent success file_name m = Inr (r, m')" and "own_entry c (table m)"
  shows "table m' = (if r then table m else end_process c sema_up_child (table m))" and "next_tid m' = next_tid m"
proof -
  have same: "table (upd_thread x f m) = table m \<and> next_tid (upd_thread x f m) = next_tid m" if "\<And>t. view_of (f t) = view_of t" for x f m
    using that by (simp add: table_upd_same)
  obtain m1 where m1: "table m1 = table m" "next_tid m1 = next_tid m" "(r \<and> m' = m1) \<or> (\<not> r \<and> uthread_exit c m1 = Inr m')"
  proof (cases success)
    case True
    then show ?thesis using assms(1) that [of m'] by (auto simp: report_load_def res_simps Let_def same split: option.splits)
  next
    case False
    then obtain q k where q: "uthread_exit c (upd_thread c (\<lambda>t. t\<lparr>exit_code := -1\<rparr>)
        ((upd_thread q (\<lambda>t. t\<lparr>tload_state := LOAD_FAIL, load_sema := load_sema t + 1\<rparr>) m)\<lparr>km := k\<rparr>)) = Inr m'" "\<not> r"
      using assms(1) by (auto simp: report_load_def res_simps Let_def split: option.splits)
    show ?thesis by (rule that [OF _ _ disjI2 [OF conjI [OF q(2,1)]]]) (simp_all add: same)
  qed
  then show "table m' = (if r then table m else end_process c sema_up_child (table m))" "next_tid m' = next_tid m"
    using uthread_exit_table [of c m1 m'] assms(2) by auto
qed

lemma start_process_table:
  assumes "start_process c ok1 ok2 m = Inr (r, m')" and "own_entry c (table m)"
  shows "table m' = (if r then table m else end_process c sema_up_child (table m))" and "next_tid m' = next_tid m" and "alive (table m) c"
proof -
  obtain cur where cur: "thread_of c m = Inr cur" using assms(1) by (auto simp: start_process_def res_simps)
  obtain a k s p b and f :: load_result where r: "report_load c p b a (upd_thread c (\<lambda>t. t\<lparr>pagedir := l_pagedir f, running_file := l_file f\<rparr>) (m\<lparr>fsys := s, km := k\<rparr>)) = Inr (r, m')"
    using assms(1) cur by (cases "pc_of cur") (auto simp: start_process_def res_simps)
  have "table (upd_thread c (\<lambda>t. t\<lparr>pagedir := l_pagedir f, running_file := l_file f\<rparr>) (m\<lparr>fsys := s, km := k\<rparr>)) = table m"
    by (subst table_upd_same) simp_all
  then show "table m' = (if r then table m else end_process c sema_up_child (table m))" "next_tid m' = next_tid m"
    using report_load_table [OF r] assms(2) by simp_all
  show "alive (table m) c" using thread_of_view [OF cur] by (auto simp: alive_def view_of_def intro!: bexI [of _ "view_of cur"])
qed

lemma process_wait_table:
  assumes "process_wait c x m = Inr (r, m')" and "distinct (map tid (all_list m))"
  shows "table m' = table m \<or> table m' = wait_process c x (table m)" and "next_tid m' = next_tid m"
proof -
  obtain cur where cur: "thread_of c m = Inr cur" using assms(1) by (auto simp: process_wait_def res_simps)
  have cs: "child_thread_list t = child_thread_list cur" if "t \<in> set (all_list m)" "tid t = c" for t
  proof -
    have "cur \<in> set (all_list m)" "tid cur = c" using cur by (auto simp: thread_of_def find_Some_iff split: option.splits)
    then show ?thesis using same_key [OF assms(2) that(1)] that(2) by simp
  qed
  have "table (upd_thread c (\<lambda>t. t\<lparr>child_thread_list := snd (wait_loop x (child_thread_list cur))\<rparr>) m) = wait_process c x (table m)"
    by (auto simp: upd_thread_def table_def wait_process_def view_of_def cs)
  then show "table m' = table m \<or> table m' = wait_process c x (table m)" "next_tid m' = next_tid m"
    using assms(1) cur by (auto simp: process_wait_def split: if_splits prod.splits)
qed

section \<open>Reachable states\<close>

text \<open>
  The steps of a system of processes. The initial thread runs programs one after the other; user
  programs make system calls, are killed, or do anything to their own files and memory.
\<close>

abbreviation at_pc :: "int \<Rightarrow> pc \<Rightarrow> machine \<Rightarrow> bool" where
  "at_pc c q m \<equiv> \<exists>t. thread_of c m = Inr t \<and> pc_of t = q"

abbreviation goto :: "int \<Rightarrow> pc \<Rightarrow> machine \<Rightarrow> machine" where
  "goto c q m \<equiv> upd_thread c (\<lambda>t. t\<lparr>pc_of := q\<rparr>) m"

inductive runs :: "machine \<Rightarrow> history \<Rightarrow> machine \<Rightarrow> bool" for m0 :: machine where
  boot: "runs m0 [] m0"
| run_task: "runs m0 h m \<Longrightarrow> at_pc c KernelThread m \<Longrightarrow> process_execute c cmd ok m = Inr (x, m') \<Longrightarrow> runs m0 h (goto c (KernelWait x) m')"
| run_done: "runs m0 h m \<Longrightarrow> at_pc c (KernelWait x) m \<Longrightarrow> process_wait c x m = Inr (Return n, m') \<Longrightarrow> runs m0 h (goto c KernelThread m')"
| started: "runs m0 h m \<Longrightarrow> start_process c ok1 ok2 m = Inr (True, m') \<Longrightarrow> runs m0 h m'"
| not_loaded: "runs m0 h m \<Longrightarrow> start_process c ok1 ok2 m = Inr (False, m') \<Longrightarrow> runs m0 ((c, LoadFailed) # h) m'"
| exec_begin: "runs m0 h m \<Longrightarrow> at_pc c UserMode m \<Longrightarrow> exec_call c cmd ok m = Inr (Return pid, m') \<Longrightarrow> runs m0 h (goto c (InExec pid) m')"
| exec_end: "runs m0 h m \<Longrightarrow> at_pc c (InExec pid) m \<Longrightarrow> exec_return c pid m = Inr (Return n, m') \<Longrightarrow> runs m0 h (goto c UserMode m')"
| wait_begin: "runs m0 h m \<Longrightarrow> at_pc c UserMode m \<Longrightarrow> process_wait c x m = Inr (r, m') \<Longrightarrow>
    runs m0 h (goto c (if r = Blocked then InWait x else UserMode) m')"
| wait_end: "runs m0 h m \<Longrightarrow> at_pc c (InWait x) m \<Longrightarrow> process_wait c x m = Inr (Return n, m') \<Longrightarrow> runs m0 h (goto c UserMode m')"
| exits: "runs m0 h m \<Longrightarrow> at_pc c UserMode m \<Longrightarrow> exit c n m = Inr m' \<Longrightarrow> runs m0 ((c, Exit n) # h) m'"
| killed: "runs m0 h m \<Longrightarrow> at_pc c UserMode m \<Longrightarrow> kill c m = Inr m' \<Longrightarrow> runs m0 ((c, Killed) # h) m'"
| other: "runs m0 h m \<Longrightarrow> at_pc c UserMode m \<Longrightarrow>
    runs m0 h (upd_thread c (\<lambda>t. t\<lparr>fd_list := fds, file_num := i, tcwd := d\<rparr>) (m\<lparr>km := k, fsys := s, file_lock := l\<rparr>))"

text \<open>The state in which the initial thread starts the first program.\<close>

definition booted :: "machine \<Rightarrow> bool" where
  "booted m \<longleftrightarrow> distinct (map tid (all_list m)) \<and> 0 < next_tid m
     \<and> (\<forall>t\<in>set (all_list m). 0 < tid t \<and> tid t < next_tid m \<and> \<not> dying t \<and> child_thread_list t = [])"

lemma table_goto [simp]: "table (goto c q m) = table m"
  by (rule table_upd_same) simp

lemma alive_thread: "thread_of c m = Inr t \<Longrightarrow> alive (table m) c"
  using thread_of_view [of c m t] by (auto simp: alive_def view_of_def intro!: bexI [of _ "view_of t"])

lemma booted_ok: "booted m \<Longrightarrow> table_ok (table m) (next_tid m) []"
  by (auto simp: booted_def table_ok_def tids_table table_def view_of_def comp_def)

lemma execute_ok:
  assumes "table_ok (table m) (next_tid m) h" and "thread_of c m = Inr t" and "process_execute c cmd ok m = Inr (x, m')"
  shows "table_ok (table m') (next_tid m') h"
  using process_execute_table [OF assms(3,1)] table_ok_add [OF assms(1) alive_thread [OF assms(2)], of ok] assms(1) by auto

lemma wait_ok:
  assumes "table_ok (table m) (next_tid m) h" and "process_wait c x m = Inr (r, m')"
  shows "table_ok (table m') (next_tid m') h"
proof -
  have "distinct (map tid (all_list m))" using assms(1) by (simp add: table_ok_def flip: tids_table)
  from process_wait_table [OF assms(2) this] table_ok_wait [OF assms(1), of c x] assms(1) show ?thesis by auto
qed

lemma end_ok:
  assumes "table_ok (table m) (next_tid m) h" and "alive (table m) c" and "next_tid m' = next_tid m"
    and "table m' = end_process c g (table m)"
    and "g = sema_up_child \<and> reported e = 0 \<or> g = record_exit (reported e)"
  shows "table_ok (table m') (next_tid m') ((c, e) # h)"
proof -
  have "sema_up_child = (\<lambda>ch. ch\<lparr>child_exit_code := child_exit_code ch, child_wait_sema := child_wait_sema ch + 1\<rparr>)"
    by (simp add: fun_eq_iff sema_up_child_def)
  moreover have "record_exit n = (\<lambda>ch. ch\<lparr>child_exit_code := n, child_wait_sema := child_wait_sema ch + 1\<rparr>)" for n
    by (simp add: fun_eq_iff record_exit_def)
  ultimately show ?thesis
    using table_ok_end [OF assms(1,2), of g child_exit_code e] table_ok_end [OF assms(1,2), of g "\<lambda>_. reported e" e] assms(3-5) by auto
qed

text \<open>The invariant holds in every reachable state.\<close>

lemma runs_table_ok: "runs m0 h m \<Longrightarrow> booted m0 \<Longrightarrow> table_ok (table m) (next_tid m) h"
proof (induction rule: runs.induct)
  case boot
  then show ?case by (rule booted_ok)
next
  case (run_task h m c cmd ok x m')
  then show ?case using execute_ok by fastforce
next
  case (run_done h m c x n m')
  then show ?case using wait_ok by fastforce
next
  case (started h m c ok1 ok2 m')
  then show ?case using start_process_table(1,2) [OF started(2) table_ok_own] by fastforce
next
  case (not_loaded h m c ok1 ok2 m')
  note ok = not_loaded.IH [OF not_loaded.prems]
  show ?case using end_ok [OF ok, of c m' sema_up_child LoadFailed] start_process_table [OF not_loaded(2) table_ok_own [OF ok]] by simp
next
  case (exec_begin h m c cmd ok pid m')
  then obtain m1 where m1: "process_execute c cmd ok (m\<lparr>file_lock := Some c\<rparr>) = Inr (pid, m1)" "m' = m1\<lparr>file_lock := None\<rparr>"
    by (auto simp: exec_call_def res_simps split: option.splits if_splits)
  obtain t where t: "thread_of c m = Inr t" using exec_begin(2) by blast
  have "thread_of c (m\<lparr>file_lock := Some c\<rparr>) = Inr t" using t by (simp add: thread_of_def)
  from execute_ok [OF _ this m1(1)] exec_begin.IH [OF exec_begin.prems] m1(2) show ?case by simp
next
  case (exec_end h m c pid n m')
  have "table m' = table m" "next_tid m' = next_tid m"
    using exec_end(3) table_upd_same [of "\<lambda>t. t\<lparr>load_sema := load_sema t - 1\<rparr>" c m] by (auto simp: exec_return_def res_simps split: if_splits)
  then show ?case using exec_end.IH [OF exec_end.prems] by simp
next
  case (wait_begin h m c x r m')
  then show ?case using wait_ok by fastforce
next
  case (wait_end h m c x n m')
  then show ?case using wait_ok by fastforce
next
  case (exits h m c n m')
  note ok = exits.IH [OF exits.prems]
  obtain t where t: "thread_of c m = Inr t" using exits(2) by blast
  show ?case using end_ok [OF ok alive_thread [OF t], of m' "record_exit n" "Exit n"] exit_table [OF exits(3) table_ok_own [OF ok]] by simp
next
  case (killed h m c m')
  note ok = killed.IH [OF killed.prems]
  obtain t where t: "thread_of c m = Inr t" using killed(2) by blast
  show ?case using end_ok [OF ok alive_thread [OF t], of m' sema_up_child Killed] uthread_exit_table [OF _ table_ok_own [OF ok]] killed(3)
    by (simp add: kill_def)
next
  case other
  then show ?case by (simp add: table_upd_same)
qed

end
