(* ===== verification/Load_Properties.thy ===== *)
theory Load_Properties
  imports Load Inode_Properties
begin

unbundle bit_operations_syntax

text \<open>
  What the loader guarantees: a segment that passes the checks of \<^verbatim>\<open>validate_segment\<close> lies inside
  user memory and meets the assertions of \<^verbatim>\<open>load_segment\<close>, which never faults and, when it
  succeeds, leaves the bytes of the file in the pages of the process.
\<close>

section \<open>Reading the file\<close>

definition reading :: "fs \<Rightarrow> addr \<Rightarrow> byte list \<Rightarrow> nat \<Rightarrow> bool" where
  "reading s f c p \<longleftrightarrow> fs_base s \<and> f \<noteq> NULL \<and> (\<exists>fl i. files s f = Some fl \<and> f_pos fl = int p
     \<and> file_at s (f_inode fl) i \<and> contents (V s) (data i) = c)"

lemma fs_base_set_file [simp]: "fs_base (set_file f g s) = fs_base s"
  by (simp add: fs_base_def set_file_def)

lemma file_at_set_file [simp]: "file_at (set_file f g s) a i = file_at s a i"
  by (simp add: file_at_def set_file_def)

lemma file_read_reading:
  assumes "reading s f c p"
  shows "\<exists>s'. file_read f (int n) s = Inr (take n (drop p c), s') \<and> reading s' f c (p + length (take n (drop p c)))"
proof -
  obtain fl i where fl: "fs_base s" "f \<noteq> NULL" "files s f = Some fl" "f_pos fl = int p" "file_at s (f_inode fl) i" "contents (V s) (data i) = c"
    using assms by (auto simp: reading_def)
  obtain s1 where s1: "inode_read_at (f_inode fl) (int n) (int p) s = Inr (take n (drop p c), s1)" "same_meta s s1" "V s1 = V s"
    using inode_read_at_spec [OF fl(1,5), of n p] fl(6) by auto
  note md = same_metaD [OF s1(2)]
  have fa: "file_at s1 (f_inode fl) i" using fl(5) md s1(3) by (simp add: file_at_def)
  let ?s = "set_file f (\<lambda>fl. fl\<lparr>f_pos := f_pos fl + int (length (take n (drop p c)))\<rparr>) s1"
  have "file_read f (int n) s = Inr (take n (drop p c), ?s)"
    using fl(2-4) s1(1) by (simp add: file_read_def get_obj_def)
  moreover have "reading ?s f c (p + length (take n (drop p c)))"
    using md fl fa s1(3) unfolding reading_def by (intro conjI exI [of _ "fl\<lparr>f_pos := int p + int (length (take n (drop p c)))\<rparr>"] exI [of _ i]) simp_all
  ultimately show ?thesis by blast
qed

lemma file_seek_reading:
  assumes "reading s f c p"
  shows "\<exists>s'. file_seek f (int q) s = Inr s' \<and> reading s' f c q"
proof -
  obtain fl i where fl: "fs_base s" "f \<noteq> NULL" "files s f = Some fl" "f_pos fl = int p" "file_at s (f_inode fl) i" "contents (V s) (data i) = c"
    using assms by (auto simp: reading_def)
  let ?s = "set_file f (\<lambda>fl. fl\<lparr>f_pos := int q\<rparr>) s"
  have "reading ?s f c q"
    using fl unfolding reading_def by (intro conjI exI [of _ "fl\<lparr>f_pos := int q\<rparr>"] exI [of _ i]) simp_all
  moreover have "file_seek f (int q) s = Inr ?s" using fl(2,3) by (simp add: file_seek_def get_obj_def)
  ultimately show ?thesis by blast
qed

section \<open>Pages\<close>

lemma aligned_round: "aligned p \<Longrightarrow> pg_round_down p = p"
  by (simp add: pg_round_down_minus)

definition user_full :: "kmem \<Rightarrow> bool" where "user_full m \<longleftrightarrow> user_used m = pool_pages (user_pool m)"

definition kernel_full :: "kmem \<Rightarrow> bool" where "kernel_full m \<longleftrightarrow> kernel_used m = pool_pages (kernel_pool m)"

lemma pool_pages_cong: "pool_base p = pool_base q \<Longrightarrow> bit_cnt (used_map p) = bit_cnt (used_map q) \<Longrightarrow> pool_pages p = pool_pages q"
  by (simp add: pool_pages_def pool_page_def)

lemma palloc_fail_full:
  assumes "wf_kmem m" and "flags AND PAL_ASSERT = 0" and "palloc_get_page flags m = Inr (0, m')"
  shows "if flags AND PAL_USER \<noteq> 0 then user_full m' else kernel_full m'"
proof -
  define user where "user = (flags AND PAL_USER \<noteq> 0)"
  from palloc_get_page_spec [OF assms(1,2) user_def] assms(3)
  have "pool_base (the_pool user m') = pool_base (the_pool user m)" "bit_cnt (used_map (the_pool user m')) = bit_cnt (used_map (the_pool user m))"
    "used_pages (the_pool user m') = pool_pages (the_pool user m)"
    by auto
  then have "used_pages (the_pool user m') = pool_pages (the_pool user m')" using pool_pages_cong by metis
  then show ?thesis by (simp add: user_def the_pool_def user_full_def kernel_full_def split: if_splits)
qed

lemma set_page_full:
  assumes "wf_pd m pd" and "is_user_vaddr upage" and "pagedir_set_page pd upage kpage w m = Inr (False, m')"
  shows "kernel_full m'"
proof -
  have lp: "lookup_page pd upage True m = Inr (0, m')"
    using assms(3) by (auto simp: pagedir_set_page_def res_simps split: if_splits)
  have z: "pde_at m pd (pd_no upage) = 0"
  proof (rule ccontr)
    assume nz: "pde_at m pd (pd_no upage) \<noteq> 0"
    then show False using lookup_page_find [OF assms(1,2), of True] lp pte_addr_zero_iff [OF assms(1,2)] by simp
  qed
  obtain pt m1 where m1: "palloc_get_page PAL_ZERO m = Inr (pt, m1)" "wf_kmem m1"
    and c: "pt \<noteq> 0 \<Longrightarrow> aligned pt \<and> PHYS_BASE \<le> pt"
    using palloc_get_page_kernel [OF wf_pd_facts(1) [OF assms(1)], of PAL_ZERO] by auto
  have "pt = 0 \<and> m1 = m'"
  proof (cases "pt = 0")
    case True
    then show ?thesis using lp z m1(1) wf_pd_facts(4) [OF assms(1)] assms(2) by (simp add: lookup_page_def Let_def flip: pde_at_def)
  next
    case False
    obtain n where n: "lookup_page pd upage True m = Inr (pte_addr n pd upage, n)"
      "pte_addr n pd upage = 0 \<longrightarrow> kernel_used m = pool_pages (kernel_pool m)"
      using lookup_page_create [OF assms(1,2)] by blast
    then have "kernel_used m = pool_pages (kernel_pool m)" using lp by simp
    then show ?thesis using False m1 palloc_get_page_kernel [OF wf_pd_facts(1) [OF assms(1)], of PAL_ZERO] by auto
  qed
  then show ?thesis using palloc_fail_full [OF wf_pd_facts(1) [OF assms(1)], of PAL_ZERO m'] m1(1) by (simp add: PAL_ZERO_def PAL_ASSERT_def PAL_USER_def)
qed

lemma palloc_user_any:
  assumes "wf_pd m pd"
  shows "\<exists>kpage m'. palloc_get_page PAL_USER m = Inr (kpage, m') \<and> wf_pd m' pd \<and> kernel_pool m' = kernel_pool m
     \<and> init_page_dir m' = init_page_dir m \<and> (\<forall>va. is_user_vaddr va \<longrightarrow> pte_of m' pd va = pte_of m pd va)
     \<and> (kpage \<noteq> 0 \<longrightarrow> kpage \<notin> user_used m \<and> user_used m' = insert kpage (user_used m) \<and> kpage_ok m' kpage \<and> same_pages (- {kpage}) m m')
     \<and> (kpage = 0 \<longrightarrow> user_used m' = user_used m \<and> same_pages UNIV m m' \<and> user_full m')"
proof (cases "user_used m = pool_pages (user_pool m)")
  case False
  then show ?thesis using palloc_user_spec [OF assms, of PAL_USER] by auto
next
  case True
  have fl: "PAL_USER AND PAL_ASSERT = 0" "True = (PAL_USER AND PAL_USER \<noteq> 0)" by (simp_all add: PAL_USER_def PAL_ASSERT_def)
  note wk = wf_pd_facts(1) [OF assms]
  obtain p m' where m': "palloc_get_page PAL_USER m = Inr (p, m')" "wf_kmem m'" "kernel_pool m' = kernel_pool m"
     "init_page_dir m' = init_page_dir m"
    and c: "if p = 0 then ram_of m' = ram_of m \<and> user_used m' = user_used m else p \<in> pool_pages (user_pool m) \<and> p \<notin> user_used m"
    using palloc_get_page_spec [OF wk fl] by (auto simp: the_pool_def split: if_splits)
  have p: "p = 0" using c True by (auto split: if_splits)
  then have sp: "same_pages (pd_pages m pd) m m'" using c by (simp add: same_pages_def)
  have sub: "pd_pages m pd \<subseteq> kernel_used m'" using wf_pd_facts(6) [OF assms] m'(3) by simp
  have "user_used m' = user_used m" "same_pages UNIV m m'" using c p by (simp_all add: same_pages_def)
  moreover have "user_full m'" using palloc_fail_full [OF wk fl(1), of m'] m'(1) p fl(2) by simp
  ultimately show ?thesis using wf_pd_same [OF assms m'(2) sub sp] m' p by auto
qed

text \<open>Changing the bytes of a data page leaves the directory alone.\<close>

lemma wf_pd_data:
  assumes "wf_pd m pd" and "kpage \<in> user_used m" and "same_pages (- {kpage}) m m'" and "m' = m\<lparr>ram_of := ram_of m'\<rparr>"
  shows "wf_pd m' pd" and "is_user_vaddr va \<Longrightarrow> pte_of m' pd va = pte_of m pd va"
proof -
  have wk: "wf_kmem m'" using wf_pd_facts(1) [OF assms(1)] by (subst assms(4)) simp
  have k: "kernel_used m' = kernel_used m" by (subst assms(4)) simp
  have sub: "pd_pages m pd \<subseteq> kernel_used m'" using wf_pd_facts(6) [OF assms(1)] k by simp
  have "same_pages (pd_pages m pd) m m'"
    using assms(3) user_not_pd [OF assms(1,2)] by (auto intro: same_pages_mono)
  from wf_pd_same [OF assms(1) wk sub this] show "wf_pd m' pd" "is_user_vaddr va \<Longrightarrow> pte_of m' pd va = pte_of m pd va" by blast+
qed

text \<open>The frames that are mapped lie in the kernel's part of the address space.\<close>

definition mapped_high :: "kmem \<Rightarrow> vaddr \<Rightarrow> bool" where
  "mapped_high m pd \<longleftrightarrow> (\<forall>va k w. is_user_vaddr va \<longrightarrow> page_map m pd va = Some (k, w) \<longrightarrow> PHYS_BASE \<le> k)"

lemma mapped_high_kpages: "mapped_high m pd \<Longrightarrow> kpages_ok m pd"
  unfolding kpages_ok_def
proof (intro allI impI)
  fix va assume h: "mapped_high m pd" and va: "is_user_vaddr va" "pte_of m pd va AND PTE_P \<noteq> 0"
  let ?k = "(pte_of m pd va AND PTE_ADDR) + PHYS_BASE"
  have "\<exists>w. page_map m pd va = Some (?k, w)" using va(2) by (simp add: page_map_def Let_def)
  then have "PHYS_BASE \<le> ?k" using h va(1) unfolding mapped_high_def by blast
  then have "3221225472 \<le> unat ?k" by (simp add: word_le_nat_alt unat_PHYS_BASE)
  moreover have "unat (pte_of m pd va AND PTE_ADDR) = unat ?k - 3221225472"
    using unat_sub [OF \<open>PHYS_BASE \<le> ?k\<close>] by (simp add: unat_PHYS_BASE)
  ultimately have "unat (pte_of m pd va AND PTE_ADDR) < 3221225472" using unat_lt32 [of ?k] by simp
  then show "pte_of m pd va AND PTE_ADDR < PHYS_BASE" by (simp add: word_less_nat_alt unat_PHYS_BASE)
qed

lemma mapped_high_pte:
  assumes "mapped_high m pd" and "\<And>va. is_user_vaddr va \<Longrightarrow> pte_of m' pd va = pte_of m pd va"
  shows "mapped_high m' pd"
  using assms page_map_pte [of m' pd _ m] unfolding mapped_high_def by metis

lemma install_page_any:
  assumes "wf_pd m pd" and "pd \<noteq> init_page_dir m" and "aligned upage" and "is_user_vaddr upage" and "kpage_ok m kpage" and "mapped_high m pd"
  shows "\<exists>ok m'. install_page pd upage kpage w m = Inr (ok, m') \<and> wf_pd m' pd \<and> user_pool m' = user_pool m \<and> mapped_high m' pd
     \<and> init_page_dir m' = init_page_dir m \<and> same_pages (user_used m) m m' \<and> (\<not> ok \<longrightarrow> page_map m pd upage \<noteq> None \<or> kernel_full m')
     \<and> (\<forall>vb. is_user_vaddr vb \<longrightarrow> page_map m' pd vb = (if ok \<and> pg_round_down vb = upage then Some (kpage, w) else page_map m pd vb))"
proof (cases "page_map m pd upage")
  case (Some q)
  obtain k w' where q: "q = (k, w')" by (cases q)
  have "PHYS_BASE \<le> k" using assms(4,6) Some q by (auto simp: mapped_high_def)
  then have "k \<noteq> 0" by (auto simp: PHYS_BASE_def)
  then have "install_page pd upage kpage w m = Inr (False, m)"
    using pagedir_get_page_spec [OF assms(1) mapped_high_kpages [OF assms(6)] assms(4)] Some q assms(3) by (simp add: install_page_def)
  then show ?thesis using assms(1,6) Some by (auto simp: same_pages_def)
next
  case None
  have p0: "pte_of m pd upage AND PTE_P = 0" using None by (simp add: page_map_None_iff)
  have get: "pagedir_get_page pd upage m = Inr 0"
    using pagedir_get_page_spec [OF assms(1) mapped_high_kpages [OF assms(6)] assms(4)] None by simp
  obtain ok m' where m': "pagedir_set_page pd upage kpage w m = Inr (ok, m')" "wf_pd m' pd"
     and pte: "\<And>vb. is_user_vaddr vb \<Longrightarrow> pte_of m' pd vb =
          (if ok \<and> pg_round_down vb = upage then (kpage - PHYS_BASE) OR (if w then 7 else 5) else pte_of m pd vb)"
     and r: "same_pages (others m pd) m m'" "user_pool m' = user_pool m" "init_page_dir m' = init_page_dir m"
    using pagedir_set_page_spec [OF assms(1-5) p0] by blast
  have map: "page_map m' pd vb = (if ok \<and> pg_round_down vb = upage then Some (kpage, w) else page_map m pd vb)" if "is_user_vaddr vb" for vb
    using pte [OF that] page_map_new [OF assms(5), of m' pd vb w] page_map_pte [of m' pd vb m vb]
    by (cases "ok \<and> pg_round_down vb = upage") auto
  have "mapped_high m' pd"
    using map assms(5,6) by (auto simp: mapped_high_def kpage_ok_def split: if_splits)
  moreover have "same_pages (user_used m) m m'"
    using r(1) user_not_pd [OF assms(1)] by (auto intro: same_pages_mono simp: others_def)
  moreover have "kernel_full m'" if "\<not> ok" using set_page_full [OF assms(1,4)] m'(1) that by simp
  ultimately show ?thesis using m' r map get by (auto simp: install_page_def)
qed

section \<open>One page of a segment\<close>

text \<open>The frame gets the bytes read and zeros after them.\<close>

definition filled_frame :: "kmem \<Rightarrow> vaddr \<Rightarrow> byte list \<Rightarrow> kmem" where
  "filled_frame m kpage d =
     (let m = m\<lparr>ram_of := put_bytes (ram_of m) kpage d\<rparr>
      in m\<lparr>ram_of := memset_ram (ram_of m) (kpage + of_nat (length d)) 0 (4096 - length d)\<rparr>)"

lemma filled_frame_bytes:
  assumes "length d \<le> 4096"
  shows "page_bytes (filled_frame m kpage d) kpage = d @ replicate (4096 - length d) 0"
proof -
  have "ram_of (filled_frame m kpage d) = put_bytes (ram_of m) kpage (d @ replicate (4096 - length d) 0)"
    by (simp add: filled_frame_def memset_ram_def put_bytes_append)
  moreover have "length (d @ replicate (4096 - length d) 0) = 4096" using assms by simp
  ultimately show ?thesis using get_put_bytes [of "d @ replicate (4096 - length d) 0" "ram_of m" kpage] by (simp add: page_bytes_def)
qed

lemma put_bytes_same:
  assumes "aligned k" and "length d \<le> 4096"
  shows "same_pages (- {k}) m (m\<lparr>ram_of := put_bytes (ram_of m) k d\<rparr>)"
proof -
  have "put_bytes (ram_of m) k d x = ram_of m x" if "pg_round_down x \<noteq> k" for x
  proof -
    have "\<not> unat (x - k) < length d" using that in_page_iff [OF assms(1), of x] assms(2) by auto
    then show ?thesis using assms(2) by (simp add: put_bytes_at)
  qed
  then show ?thesis by (simp add: same_pages_def)
qed

lemma filled_frame_same:
  assumes "aligned kpage" and "length d \<le> 4096"
  shows "same_pages (- {kpage}) m (filled_frame m kpage d)" and "filled_frame m kpage d = m\<lparr>ram_of := ram_of (filled_frame m kpage d)\<rparr>"
proof -
  have r: "ram_of (filled_frame m kpage d) = put_bytes (ram_of m) kpage (d @ replicate (4096 - length d) 0)"
    by (simp add: filled_frame_def memset_ram_def put_bytes_append)
  have "length (d @ replicate (4096 - length d) 0) = 4096" using assms by simp
  then show "same_pages (- {kpage}) m (filled_frame m kpage d)"
    using in_page_iff [OF assms(1)] by (auto simp: same_pages_def r put_bytes_at)
  show "filled_frame m kpage d = m\<lparr>ram_of := ram_of (filled_frame m kpage d)\<rparr>" by (simp add: filled_frame_def)
qed

section \<open>The pages of a segment\<close>

definition seg_bytes :: "byte list \<Rightarrow> nat \<Rightarrow> nat \<Rightarrow> nat \<Rightarrow> byte list" where
  "seg_bytes c p rd zr = take rd (drop p c) @ replicate zr 0"

lemma seg_bytes_split:
  assumes "rd \<le> length c - p" and "4096 \<le> rd + zr" and "r = min rd 4096"
  shows "seg_bytes c p rd zr = (take r (drop p c) @ replicate (4096 - r) 0) @ seg_bytes c (p + r) (rd - r) (zr - (4096 - r))"
proof (cases "rd < 4096")
  case True
  then have "r = rd" "zr = (4096 - r) + (zr - (4096 - r))" using assms by auto
  then show ?thesis by (simp add: seg_bytes_def) (metis replicate_add)
next
  case False
  then have r: "r = 4096" using assms(3) by simp
  have "take rd (drop p c) = take 4096 (drop p c) @ take (rd - 4096) (drop 4096 (drop p c))"
    using False by (metis le_add_diff_inverse not_less take_add)
  then show ?thesis by (simp add: seg_bytes_def r add.commute)
qed

definition seg_page :: "byte list \<Rightarrow> nat \<Rightarrow> nat \<Rightarrow> nat \<Rightarrow> nat \<Rightarrow> byte list" where
  "seg_page c p rd zr j = take 4096 (drop (4096 * j) (seg_bytes c p rd zr))"

lemma seg_page_0:
  assumes "rd \<le> length c - p" and "4096 \<le> rd + zr" and "r = min rd 4096"
  shows "seg_page c p rd zr 0 = take r (drop p c) @ replicate (4096 - r) 0"
proof -
  have "length (take r (drop p c) @ replicate (4096 - r) 0) = 4096" using assms by simp
  then have "take 4096 ((take r (drop p c) @ replicate (4096 - r) 0) @ b) = take r (drop p c) @ replicate (4096 - r) 0" for b
    by (metis append_eq_conv_conj)
  then show ?thesis unfolding seg_page_def seg_bytes_split [OF assms] by (simp only: mult_0_right drop0)
qed

lemma seg_page_Suc:
  assumes "rd \<le> length c - p" and "4096 \<le> rd + zr" and "r = min rd 4096"
  shows "seg_page c p rd zr (Suc j) = seg_page c (p + r) (rd - r) (zr - (4096 - r)) j"
proof -
  have l: "length (take r (drop p c) @ replicate (4096 - r) 0) = 4096" using assms by simp
  have "drop (4096 * Suc j) (seg_bytes c p rd zr) = drop (4096 * j) (seg_bytes c (p + r) (rd - r) (zr - (4096 - r)))"
    unfolding seg_bytes_split [OF assms] using l by (simp add: drop_append)
  then show ?thesis by (simp add: seg_page_def)
qed

text \<open>The turn of the loop for one page, up to the next one.\<close>

definition page_turn :: "vaddr \<Rightarrow> addr \<Rightarrow> vaddr \<Rightarrow> nat \<Rightarrow> bool \<Rightarrow> fs \<Rightarrow> kmem \<Rightarrow> (bool \<times> fs \<times> kmem) res" where
  "page_turn pd f upage r w s m =
     bind_res (palloc_get_page PAL_USER m) (\<lambda>(kpage, m).
       if kpage = 0 then Inr (False, s, m)
       else
         bind_res (file_read f (int r) s) (\<lambda>(d, s).
         if length d \<noteq> r
         then bind_res (palloc_free_page kpage (m\<lparr>ram_of := put_bytes (ram_of m) kpage d\<rparr>)) (\<lambda>m. Inr (False, s, m))
         else
           bind_res (install_page pd upage kpage w (filled_frame m kpage d)) (\<lambda>(ok, m).
           if \<not> ok then bind_res (palloc_free_page kpage m) (\<lambda>m. Inr (False, s, m)) else Inr (True, s, m))))"

lemma segment_loop_Suc:
  assumes "r = min (unat rd) 4096" and "rd > 0 \<or> zr > 0"
  shows "segment_loop (Suc n) pd f upage rd zr w s m =
    bind_res (page_turn pd f upage r w s m) (\<lambda>(ok, s, m).
      if ok then segment_loop n pd f (upage + 4096) (rd - of_nat r) (zr - (4096 - of_nat r)) w s m else Inr (False, s, m))"
proof -
  have pr: "(if rd < 4096 then rd else 4096) = (of_nat r :: 32 word)"
    using assms(1) by (auto simp: word_less_nat_alt min_def)
  have r: "r \<le> 4096" using assms(1) by simp
  have si: "sint (of_nat r :: 32 word) = int r" using r int_word_sint [of "int r", where ?'a = 32] by simp
  have un: "unat (4096 - of_nat r :: 32 word) = 4096 - r"
    using r by (simp add: unat_sub word_le_nat_alt unat_of_nat)
  have pg: "of_nat PGSIZE = (4096 :: 32 word)" by (simp add: PGSIZE_def)
  show ?thesis
  proof (cases "palloc_get_page PAL_USER m")
    case (Inl e)
    then show ?thesis using assms(2) by (simp add: page_turn_def Let_def)
  next
    case (Inr km)
    obtain k m1 where km: "palloc_get_page PAL_USER m = Inr (k, m1)" using Inr by (cases km) simp
    show ?thesis
    proof (cases "file_read f (int r) s")
      case (Inl e)
      then show ?thesis using assms(2) km unfolding segment_loop.simps(2) page_turn_def Let_def pg pr si un by simp
    next
      case (Inr ds)
      obtain d s1 where ds: "file_read f (int r) s = Inr (d, s1)" using Inr by (cases ds) simp
      have ff: "m1\<lparr>ram_of := put_bytes (ram_of m1) k d, ram_of := memset_ram (ram_of (m1\<lparr>ram_of := put_bytes (ram_of m1) k d\<rparr>)) (k + of_nat r) 0 (4096 - r)\<rparr>
          = filled_frame m1 k d" if "length d = r"
        using that by (simp add: filled_frame_def)
      show ?thesis
        using assms(2) km ds ff
        unfolding segment_loop.simps(2) page_turn_def Let_def pg pr si un
        by (auto simp: bind_res_assoc intro!: bind_res_cong split: prod.splits)
    qed
  qed
qed

lemma same_page_bytes:
  assumes "same_pages P m m'" and "k \<in> P" and "aligned k"
  shows "page_bytes m' k = page_bytes m k"
proof -
  have "ram_of m' (k + of_nat i) = ram_of m (k + of_nat i)" if "i < 4096" for i
  proof -
    have "unat (k + of_nat i - k) < 4096" using that by (simp add: unat_of_nat)
    then have "pg_round_down (k + of_nat i) = k" using in_page_iff [OF assms(3)] by blast
    then show ?thesis using assms(1,2) by (simp add: same_pages_def)
  qed
  then show ?thesis by (simp add: page_bytes_def get_bytes_map)
qed

lemma free_frame:
  assumes "wf_pd m pd" and "k \<in> user_used m"
  shows "\<exists>m'. palloc_free_page k m = Inr m' \<and> wf_pd m' pd \<and> init_page_dir m' = init_page_dir m \<and> kernel_pool m' = kernel_pool m
     \<and> user_used m' = user_used m - {k} \<and> same_pages (- {k}) m m' \<and> (\<forall>va. is_user_vaddr va \<longrightarrow> pte_of m' pd va = pte_of m pd va)"
proof -
  obtain m' where m': "palloc_free_page k m = Inr m'" "wf_kmem m'" "kernel_pool m' = kernel_pool m" "init_page_dir m' = init_page_dir m"
     "user_used m' = user_used m - {k}" "same_pages (- {k}) m m'"
    using free_user_page [OF wf_pd_facts(1) [OF assms(1)] assms(2)] by blast
  have sub: "pd_pages m pd \<subseteq> kernel_used m'" using wf_pd_facts(6) [OF assms(1)] m'(3) by simp
  have "same_pages (pd_pages m pd) m m'" using m'(6) user_not_pd [OF assms] by (auto intro: same_pages_mono)
  from wf_pd_same [OF assms(1) m'(2) sub this] show ?thesis using m' by blast
qed

text \<open>What holds of memory before and after loading a page, and what a turn keeps.\<close>

definition load_ok :: "kmem \<Rightarrow> vaddr \<Rightarrow> bool" where
  "load_ok m pd \<longleftrightarrow> wf_pd m pd \<and> pd \<noteq> init_page_dir m \<and> mapped_high m pd"

definition load_keeps :: "vaddr \<Rightarrow> vaddr set \<Rightarrow> kmem \<Rightarrow> kmem \<Rightarrow> bool" where
  "load_keeps pd P m m' \<longleftrightarrow> same_pages (user_used m) m m' \<and> user_used m \<subseteq> user_used m'
     \<and> (\<forall>vb. is_user_vaddr vb \<longrightarrow> pg_round_down vb \<notin> P \<longrightarrow> page_map m' pd vb = page_map m pd vb)"

lemma load_keeps_trans:
  "load_keeps pd P m m' \<Longrightarrow> load_keeps pd Q m' m'' \<Longrightarrow> P \<subseteq> R \<Longrightarrow> Q \<subseteq> R \<Longrightarrow> load_keeps pd R m m''"
  unfolding load_keeps_def using same_pages_trans same_pages_mono by (metis subset_iff)

lemma load_keeps_pte:
  "same_pages (user_used m) m m' \<Longrightarrow> user_used m \<subseteq> user_used m' \<Longrightarrow> (\<And>va. is_user_vaddr va \<Longrightarrow> pte_of m' pd va = pte_of m pd va) \<Longrightarrow>
   load_keeps pd P m m'"
  unfolding load_keeps_def using page_map_pte by blast

lemma page_turn_fails:
  assumes "load_ok m pd" and "k \<notin> user_used m" and "wf_pd m2 pd" and "user_used m2 = insert k (user_used m)"
    and "same_pages (user_used m) m m2" and "\<And>va. is_user_vaddr va \<Longrightarrow> page_map m2 pd va = page_map m pd va"
    and "init_page_dir m2 = init_page_dir m"
  shows "\<exists>m'. palloc_free_page k m2 = Inr m' \<and> load_ok m' pd \<and> load_keeps pd P m m' \<and> (kernel_full m2 \<longrightarrow> kernel_full m')"
proof -
  obtain m' where m': "palloc_free_page k m2 = Inr m'" "wf_pd m' pd" "init_page_dir m' = init_page_dir m2"
     "user_used m' = user_used m2 - {k}" "same_pages (- {k}) m2 m'" "\<forall>va. is_user_vaddr va \<longrightarrow> pte_of m' pd va = pte_of m2 pd va"
     "kernel_pool m' = kernel_pool m2"
    using free_frame [OF assms(3), of k] assms(4) by auto
  have pm: "page_map m' pd va = page_map m pd va" if "is_user_vaddr va" for va
    using page_map_pte [of m' pd va m2 va] m'(6) assms(6) that by simp
  have "same_pages (user_used m) m2 m'" using m'(5) assms(2) by (auto intro: same_pages_mono)
  then have "same_pages (user_used m) m m'" using same_pages_trans assms(5) by blast
  moreover have "mapped_high m' pd" using assms(1) pm by (simp add: load_ok_def mapped_high_def)
  moreover have "user_used m' = user_used m" using m'(4) assms(2,4) by auto
  ultimately show ?thesis using m' pm assms(1,7) by (auto simp: load_ok_def load_keeps_def kernel_full_def)
qed

definition page_holds :: "kmem \<Rightarrow> vaddr \<Rightarrow> vaddr \<Rightarrow> bool \<Rightarrow> byte list \<Rightarrow> bool" where
  "page_holds m pd va w bs \<longleftrightarrow> (\<exists>k\<in>user_used m. aligned k \<and> page_map m pd va = Some (k, w) \<and> page_bytes m k = bs)"

lemma page_holds_keeps:
  assumes "page_holds m pd va w bs" and "load_keeps pd P m m'" and "is_user_vaddr va" and "pg_round_down va \<notin> P"
  shows "page_holds m' pd va w bs"
proof -
  obtain k where k: "k \<in> user_used m" "aligned k" "page_map m pd va = Some (k, w)" "page_bytes m k = bs"
    using assms(1) by (auto simp: page_holds_def)
  then have "page_bytes m' k = bs" "k \<in> user_used m'" "page_map m' pd va = Some (k, w)"
    using assms(2-4) same_page_bytes [of "user_used m" m m' k] by (auto simp: load_keeps_def)
  then show ?thesis using k(2) by (auto simp: page_holds_def)
qed

lemma page_turn_spec:
  assumes "reading s f c p" and "load_ok m pd" and "aligned upage" and "is_user_vaddr upage" and "r \<le> 4096"
  shows "\<exists>ok s' m'. page_turn pd f upage r w s m = Inr (ok, s', m') \<and> load_ok m' pd \<and> load_keeps pd {upage} m m' \<and> (\<exists>q. reading s' f c q)
     \<and> (ok \<longrightarrow> r \<le> length c - p \<and> reading s' f c (p + r)
          \<and> page_holds m' pd upage w (take r (drop p c) @ replicate (4096 - r) 0))
     \<and> (\<not> ok \<longrightarrow> user_full m' \<or> kernel_full m' \<or> page_map m pd upage \<noteq> None \<or> length c - p < r)"
proof -
  have wf: "wf_pd m pd" and ipd: "pd \<noteq> init_page_dir m" and mh: "mapped_high m pd" using assms(2) by (simp_all add: load_ok_def)
  obtain k m1 where m1: "palloc_get_page PAL_USER m = Inr (k, m1)" "wf_pd m1 pd" "init_page_dir m1 = init_page_dir m"
     "\<And>va. is_user_vaddr va \<Longrightarrow> pte_of m1 pd va = pte_of m pd va"
     and k: "k \<noteq> 0 \<Longrightarrow> k \<notin> user_used m" "k \<noteq> 0 \<Longrightarrow> user_used m1 = insert k (user_used m)" "k \<noteq> 0 \<Longrightarrow> kpage_ok m1 k" "k \<noteq> 0 \<Longrightarrow> same_pages (- {k}) m m1"
       "k = 0 \<Longrightarrow> user_used m1 = user_used m" "k = 0 \<Longrightarrow> same_pages UNIV m m1" "k = 0 \<Longrightarrow> user_full m1"
    using palloc_user_any [OF wf] by blast
  show ?thesis
  proof (cases "k = 0")
    case True
    have "load_ok m1 pd" using m1 ipd mapped_high_pte [OF mh m1(4)] by (simp add: load_ok_def)
    moreover have "load_keeps pd {upage} m m1"
      using load_keeps_pte [of m m1 pd "{upage}"] k(5,6) True m1(4) same_pages_mono [of UNIV m m1 "user_used m"] by simp
    ultimately show ?thesis using m1(1) True assms(1) k(7) by (auto simp: page_turn_def)
  next
    case False
    note k = k(1-4) [OF False]
    let ?d = "take r (drop p c)"
    obtain s1 where s1: "file_read f (int r) s = Inr (?d, s1)" "reading s1 f c (p + length ?d)"
      using file_read_reading [OF assms(1), of r] by blast
    have al: "aligned k" and ku: "k \<in> user_used m1" using k(2,3) by (simp_all add: kpage_ok_def)
    have sp1: "same_pages (user_used m) m m1" using k(1,4) by (auto intro: same_pages_mono)
    show ?thesis
    proof (cases "length ?d = r")
      case short: False
      let ?m2 = "m1\<lparr>ram_of := put_bytes (ram_of m1) k ?d\<rparr>"
      have sp2: "same_pages (- {k}) m1 ?m2"
        by (rule put_bytes_same [OF al]) (use assms(5) in simp)
      note w2 = wf_pd_data [OF m1(2) ku sp2]
      have "same_pages (user_used m) m1 ?m2" using sp2 k(1) by (auto intro: same_pages_mono)
      then have sp: "same_pages (user_used m) m ?m2" using same_pages_trans sp1 by blast
      have pm: "page_map ?m2 pd va = page_map m pd va" if "is_user_vaddr va" for va
        using page_map_pte [of ?m2 pd va m va] w2(2) that m1(4) by simp
      obtain m' where "palloc_free_page k ?m2 = Inr m'" "load_ok m' pd" "load_keeps pd {upage} m m'"
        using page_turn_fails [OF assms(2) k(1) _ _ sp pm] w2(1) k(2) m1(3) by auto
      moreover have "length c - p < r" using short by auto
      ultimately show ?thesis using m1(1) False s1 short by (auto simp: page_turn_def)
    next
      case full: True
      let ?m2 = "filled_frame m1 k ?d"
      have ld: "length ?d \<le> 4096" using full assms(5) by simp
      note sf = filled_frame_same [OF al ld, of m1]
      note w2 = wf_pd_data [OF m1(2) ku sf]
      have g: "user_pool ?m2 = user_pool m1" "init_page_dir ?m2 = init_page_dir m" "init_ram_pages ?m2 = init_ram_pages m1"
        using m1(3) by (simp_all add: filled_frame_def)
      have uu: "user_used ?m2 = insert k (user_used m)" using g(1) k(2) by simp
      have ko: "kpage_ok ?m2 k" using k(3) uu k(2) g(3) by (simp add: kpage_ok_def)
      have pm: "page_map ?m2 pd va = page_map m pd va" if "is_user_vaddr va" for va
        using page_map_pte [of ?m2 pd va m va] w2(2) that m1(4) by simp
      have mh2: "mapped_high ?m2 pd" using mh pm by (simp add: mapped_high_def)
      have pd2: "pd \<noteq> init_page_dir ?m2" using ipd g(2) by simp
      obtain ok m3 where m3: "install_page pd upage k w ?m2 = Inr (ok, m3)" "wf_pd m3 pd" "user_pool m3 = user_pool ?m2" "mapped_high m3 pd"
          "init_page_dir m3 = init_page_dir ?m2" "same_pages (user_used ?m2) ?m2 m3"
          "\<not> ok \<Longrightarrow> page_map ?m2 pd upage \<noteq> None \<or> kernel_full m3"
        and pm3: "\<And>vb. is_user_vaddr vb \<Longrightarrow> page_map m3 pd vb = (if ok \<and> pg_round_down vb = upage then Some (k, w) else page_map ?m2 pd vb)"
        using install_page_any [OF w2(1) pd2 assms(3,4) ko mh2, of w] by blast
      have u3: "user_used m3 = insert k (user_used m)" using m3(3) uu by simp
      have "same_pages (user_used m) m1 ?m2" using sf(1) k(1) by (auto intro: same_pages_mono)
      moreover have "same_pages (user_used m) ?m2 m3" using m3(6) uu by (auto intro: same_pages_mono)
      ultimately have sp3: "same_pages (user_used m) m m3" using sp1 same_pages_trans by blast
      show ?thesis
      proof (cases ok)
        case False
        have "page_map m3 pd va = page_map m pd va" if "is_user_vaddr va" for va using pm3 [OF that] pm [OF that] False by simp
        then obtain m' where "palloc_free_page k m3 = Inr m'" "load_ok m' pd" "load_keeps pd {upage} m m'" "kernel_full m3 \<longrightarrow> kernel_full m'"
          using page_turn_fails [OF assms(2) k(1) m3(2) u3 sp3] m3(5) g(2) by auto
        moreover have "page_map m pd upage \<noteq> None \<or> kernel_full m3" using m3(7) [OF False] pm [OF assms(4)] by simp
        ultimately show ?thesis using m1(1) \<open>k \<noteq> 0\<close> s1 full m3(1) False by (auto simp: page_turn_def)
      next
        case True
        have "load_ok m3 pd" using m3 ipd g(2) by (simp add: load_ok_def)
        moreover have "load_keeps pd {upage} m m3" using sp3 u3 pm3 pm by (auto simp: load_keeps_def)
        moreover have "page_map m3 pd upage = Some (k, w)" using pm3 [OF assms(4)] True aligned_round [OF assms(3)] by simp
        moreover have "page_bytes m3 k = page_bytes ?m2 k"
          using m3(6) uu same_page_bytes [of "user_used ?m2" ?m2 m3 k] al by simp
        then have "page_bytes m3 k = ?d @ replicate (4096 - r) 0" using filled_frame_bytes [OF ld, of m1 k] full by simp
        moreover have "r \<le> length c - p" using full by simp
        ultimately show ?thesis using m1(1) \<open>k \<noteq> 0\<close> s1 full m3(1) True u3 al by (auto simp: page_turn_def page_holds_def)
      qed
    qed
  qed
qed

section \<open>The whole segment\<close>

definition seg_pages :: "vaddr \<Rightarrow> nat \<Rightarrow> vaddr set" where
  "seg_pages upage n = (\<lambda>j. upage + of_nat (4096 * j)) ` {..<n}"

lemma seg_pages_Suc: "seg_pages upage (Suc n) = insert upage (seg_pages (upage + 4096) n)"
proof -
  have "{..<Suc n} = insert 0 (Suc ` {..<n})" by (simp add: lessThan_Suc_eq_insert_0)
  then show ?thesis by (simp add: seg_pages_def image_image add.assoc)
qed

lemma seg_page_user:
  assumes "unat upage + 4096 * n \<le> 3221225472" and "j < n" and "aligned upage"
  shows "unat (upage + of_nat (4096 * j)) = unat upage + 4096 * j" and "is_user_vaddr (upage + of_nat (4096 * j))"
    and "aligned (upage + of_nat (4096 * j))"
proof -
  have b: "unat upage + 4096 * j < 3221225472" using assms(1,2) by simp
  then show u: "unat (upage + of_nat (4096 * j)) = unat upage + 4096 * j"
    by (simp only: unat_word_ariths unat_of_nat) simp
  show "is_user_vaddr (upage + of_nat (4096 * j))"
    using b u by (simp add: is_user_vaddr_def word_less_nat_alt unat_PHYS_BASE)
  show "aligned (upage + of_nat (4096 * j))" using assms(3) u by (simp add: aligned_iff)
qed

lemma seg_page_fresh:
  assumes "unat upage + 4096 * Suc n \<le> 3221225472" and "aligned upage"
  shows "upage \<notin> seg_pages (upage + 4096) n"
proof
  assume "upage \<in> seg_pages (upage + 4096) n"
  then obtain j where "j < n" "upage = upage + of_nat (4096 * Suc j)" by (auto simp: seg_pages_def add.assoc)
  moreover from this have "unat (upage + of_nat (4096 * Suc j)) = unat upage + 4096 * Suc j"
    by (intro seg_page_user(1) [OF assms(1) _ assms(2)]) simp
  ultimately show False by simp
qed

lemma seg_pages_user:
  assumes "unat upage + 4096 * n \<le> 3221225472" and "aligned upage" and "va \<in> seg_pages upage n"
  shows "is_user_vaddr va" and "pg_round_down va = va"
  using assms seg_page_user [OF assms(1) _ assms(2)] by (auto simp: seg_pages_def aligned_round)

text \<open>What one turn leaves to do.\<close>

lemma seg_rest:
  assumes "unat rd + unat zr = 4096 * Suc n" and "r = min (unat rd) 4096"
  shows "unat (rd - of_nat r :: 32 word) = unat rd - r" and "unat (zr - (4096 - of_nat r) :: 32 word) = unat zr - (4096 - r)"
    and "(unat rd - r) + (unat zr - (4096 - r)) = 4096 * n" and "rd > 0 \<or> zr > 0"
proof -
  have r: "r \<le> unat rd" "r \<le> 4096" using assms(2) by simp_all
  have ur: "unat (of_nat r :: 32 word) = r" using r(2) by (simp add: unat_of_nat)
  then show "unat (rd - of_nat r) = unat rd - r" using r by (simp add: unat_sub word_le_nat_alt)
  have u4: "unat (4096 - of_nat r :: 32 word) = 4096 - r" using r(2) ur by (simp add: unat_sub word_le_nat_alt)
  have "4096 - r \<le> unat zr" using assms by (auto simp: min_def)
  then show "unat (zr - (4096 - of_nat r)) = unat zr - (4096 - r)" using u4 by (simp add: unat_sub word_le_nat_alt)
  show "(unat rd - r) + (unat zr - (4096 - r)) = 4096 * n" using assms \<open>4096 - r \<le> unat zr\<close> r by simp
  have "0 < unat rd \<or> 0 < unat zr" using assms(1) by auto
  then show "rd > 0 \<or> zr > 0" by (simp add: word_less_nat_alt)
qed

definition seg_loaded :: "kmem \<Rightarrow> vaddr \<Rightarrow> vaddr \<Rightarrow> bool \<Rightarrow> nat \<Rightarrow> (nat \<Rightarrow> byte list) \<Rightarrow> bool" where
  "seg_loaded m pd upage w n g \<longleftrightarrow> (\<forall>j<n. page_holds m pd (upage + of_nat (4096 * j)) w (g j))"

lemma seg_loaded_Suc:
  "seg_loaded m pd upage w (Suc n) g \<longleftrightarrow> page_holds m pd upage w (g 0) \<and> seg_loaded m pd (upage + 4096) w n (\<lambda>j. g (Suc j))"
  unfolding seg_loaded_def using less_Suc_eq_0_disj by (auto simp: add.assoc)

lemma segment_loop_spec:
  assumes "reading s f c p" and "load_ok m pd" and "aligned upage" and "unat rd + unat zr = 4096 * n" and "unat upage + 4096 * n \<le> 3221225472"
  shows "\<exists>ok s' m'. segment_loop n pd f upage rd zr w s m = Inr (ok, s', m') \<and> load_ok m' pd \<and> load_keeps pd (seg_pages upage n) m m'
     \<and> (\<exists>q. reading s' f c q) \<and> (ok \<longrightarrow> unat rd \<le> length c - p \<and> seg_loaded m' pd upage w n (seg_page c p (unat rd) (unat zr)))
     \<and> (\<not> ok \<longrightarrow> user_full m' \<or> kernel_full m' \<or> (\<exists>va\<in>seg_pages upage n. page_map m pd va \<noteq> None) \<or> length c - p < unat rd)"
  using assms
proof (induction n arbitrary: s m p upage rd zr)
  case 0
  then have "rd = 0" "zr = 0" by (simp_all add: unat_eq_0)
  moreover have "load_keeps pd {} m m" by (simp add: load_keeps_def same_pages_def)
  ultimately show ?case using "0.prems" by (auto simp: seg_pages_def seg_loaded_def)
next
  case (Suc n)
  define r where "r = min (unat rd) 4096"
  note rest = seg_rest [OF Suc.prems(4) r_def]
  have us: "is_user_vaddr upage" using seg_page_user(2) [OF Suc.prems(5) _ Suc.prems(3), of 0] by simp
  have r4: "r \<le> 4096" by (simp add: r_def)
  obtain ok s1 m1 where t: "page_turn pd f upage r w s m = Inr (ok, s1, m1)" "load_ok m1 pd" "load_keeps pd {upage} m m1" "\<exists>q. reading s1 f c q"
    "ok \<Longrightarrow> r \<le> length c - p" "ok \<Longrightarrow> reading s1 f c (p + r)" "ok \<Longrightarrow> page_holds m1 pd upage w (take r (drop p c) @ replicate (4096 - r) 0)"
    "\<not> ok \<Longrightarrow> user_full m1 \<or> kernel_full m1 \<or> page_map m pd upage \<noteq> None \<or> length c - p < r"
    using page_turn_spec [OF Suc.prems(1-3) us r4, of w] by blast
  note step = segment_loop_Suc [OF r_def rest(4), of n pd f upage w s m]
  show ?case
  proof (cases ok)
    case False
    have "load_keeps pd (seg_pages upage (Suc n)) m m1" using t(3) by (auto simp: load_keeps_def seg_pages_Suc)
    moreover have "user_full m1 \<or> kernel_full m1 \<or> (\<exists>va\<in>seg_pages upage (Suc n). page_map m pd va \<noteq> None) \<or> length c - p < unat rd"
      using t(8) [OF False] by (auto simp: seg_pages_Suc r_def)
    ultimately show ?thesis using step t False by auto
  next
    case True
    have "unat (upage + 4096) = unat upage + 4096" using Suc.prems(5) by (simp add: unat_word_ariths)
    then have al: "aligned (upage + 4096)" and un: "unat (upage + 4096) + 4096 * n \<le> 3221225472"
      using Suc.prems(3,5) by (simp_all add: aligned_iff mod_add_eq)
    let ?rd = "rd - of_nat r" and ?zr = "zr - (4096 - of_nat r)"
    have sum: "unat ?rd + unat ?zr = 4096 * n" using rest(1-3) by simp
    obtain ok' s' m' where l: "segment_loop n pd f (upage + 4096) ?rd ?zr w s1 m1 = Inr (ok', s', m')" "load_ok m' pd"
      "load_keeps pd (seg_pages (upage + 4096) n) m1 m'" "\<exists>q. reading s' f c q"
      "ok' \<Longrightarrow> unat ?rd \<le> length c - (p + r)" "ok' \<Longrightarrow> seg_loaded m' pd (upage + 4096) w n (seg_page c (p + r) (unat ?rd) (unat ?zr))"
      "\<not> ok' \<Longrightarrow> user_full m' \<or> kernel_full m' \<or> (\<exists>va\<in>seg_pages (upage + 4096) n. page_map m1 pd va \<noteq> None) \<or> length c - (p + r) < unat ?rd"
      using Suc.IH [OF t(6) [OF True] t(2) al sum un] by blast
    have "load_keeps pd (seg_pages upage (Suc n)) m m'"
      by (rule load_keeps_trans [OF t(3) l(3)]) (auto simp: seg_pages_Suc)
    moreover have "segment_loop (Suc n) pd f upage rd zr w s m = Inr (ok', s', m')" using step t(1) True l(1) by simp
    moreover have "unat rd \<le> length c - p \<and> seg_loaded m' pd upage w (Suc n) (seg_page c p (unat rd) (unat zr))" if ok'
    proof -
      have len: "unat rd \<le> length c - p" using l(5) [OF that] t(5) [OF True] rest(1) by (auto simp: r_def min_def)
      have "4096 \<le> unat rd + unat zr" using Suc.prems(4) by simp
      note sp = seg_page_0 [OF len this r_def] seg_page_Suc [OF len this r_def]
      have "page_holds m' pd upage w (take r (drop p c) @ replicate (4096 - r) 0)"
        using page_holds_keeps [OF t(7) [OF True] l(3) us] seg_page_fresh [OF Suc.prems(5,3)] aligned_round [OF Suc.prems(3)] by simp
      then show ?thesis using len l(6) [OF that] sp rest(1,2) by (simp add: seg_loaded_Suc)
    qed
    moreover have "user_full m' \<or> kernel_full m' \<or> (\<exists>va\<in>seg_pages upage (Suc n). page_map m pd va \<noteq> None) \<or> length c - p < unat rd" if "\<not> ok'"
    proof -
      have "page_map m1 pd va = page_map m pd va" if "va \<in> seg_pages (upage + 4096) n" for va
        using seg_pages_user [OF un al that] seg_page_fresh [OF Suc.prems(5,3)] t(3) that by (auto simp: load_keeps_def)
      then show ?thesis using l(7) [OF that] rest(1) by (auto simp: seg_pages_Suc r_def)
    qed
    ultimately show ?thesis using l(2,4) by blast
  qed
qed

end
