(* ===== verification/Process_Properties.thy ===== *)
theory Process_Properties
  imports Process_Steps Load_Properties
begin

unbundle bit_operations_syntax

text \<open>
  What the process operations guarantee: a new process is created and registered with its parent,
  and waiting for a child reports how it ended, once.
\<close>

section \<open>Waiting\<close>

lemma wait_loop_entry:
  assumes "distinct (map child_tid cs)" and "ch \<in> set cs"
  shows "wait_loop (child_tid ch) cs =
    (if child_waited ch then (Return (-1), cs)
     else if child_wait_sema ch = 0 then (Blocked, cs)
     else (Return (child_exit_code ch), upd_child (child_tid ch) (\<lambda>ch. ch\<lparr>child_wait_sema := child_wait_sema ch - 1, child_waited := True\<rparr>) cs))"
  using assms
proof (induction cs)
  case (Cons d cs)
  show ?case
  proof (cases "d = ch")
    case False
    then have "child_tid d \<noteq> child_tid ch" using Cons.prems by auto
    then show ?thesis using Cons False by (auto split: if_splits)
  qed simp
qed simp

lemma upd_child_in: "distinct (map child_tid cs) \<Longrightarrow> ch \<in> set cs \<Longrightarrow> g ch \<in> set (upd_child (child_tid ch) g cs)"
  by (induction cs) auto

lemma upd_thread_id: "\<forall>t\<in>set (all_list m). tid t = x \<longrightarrow> f t = t \<Longrightarrow> upd_thread x f m = m"
  by (simp add: upd_thread_def map_idI)

lemma thread_of_in: "distinct (map tid (all_list m)) \<Longrightarrow> p \<in> set (all_list m) \<Longrightarrow> thread_of (tid p) m = Inr p"
proof -
  assume d: "distinct (map tid (all_list m))" and p: "p \<in> set (all_list m)"
  have "find (\<lambda>t. tid t = tid p) (all_list m) \<noteq> None" unfolding find_None_iff using p by blast
  then obtain t where "find (\<lambda>t. tid t = tid p) (all_list m) = Some t" by blast
  moreover from this have "t \<in> set (all_list m)" "tid t = tid p" by (auto simp: find_Some_iff)
  ultimately show ?thesis using same_key [OF d _ p] by (simp add: thread_of_def)
qed

lemma process_wait_entry:
  assumes "distinct (map tid (all_list m))" and "p \<in> set (all_list m)" and "distinct (map child_tid (child_thread_list p))"
    and "ch \<in> set (child_thread_list p)" and "child_tid ch \<noteq> TID_ERROR"
  shows "process_wait (tid p) (child_tid ch) m =
    (if child_waited ch then Inr (Return (-1), m)
     else if child_wait_sema ch = 0 then Inr (Blocked, m)
     else Inr (Return (child_exit_code ch), upd_thread (tid p) (\<lambda>t. t\<lparr>child_thread_list :=
        upd_child (child_tid ch) (\<lambda>ch. ch\<lparr>child_wait_sema := child_wait_sema ch - 1, child_waited := True\<rparr>) (child_thread_list p)\<rparr>) m))"
proof -
  have same: "upd_thread (tid p) (\<lambda>t. t\<lparr>child_thread_list := child_thread_list p\<rparr>) m = m"
  proof (intro upd_thread_id ballI impI)
    fix t assume "t \<in> set (all_list m)" "tid t = tid p"
    then have "t = p" using same_key [OF assms(1) _ assms(2)] by blast
    then show "t\<lparr>child_thread_list := child_thread_list p\<rparr> = t" by simp
  qed
  have "child_thread_list p \<noteq> []" using assms(4) by auto
  then show ?thesis using thread_of_in [OF assms(1,2)] wait_loop_entry [OF assms(3,4)] assms(5) same by (simp add: process_wait_def)
qed


end
