(* ===== verification/Process_Create.thy ===== *)
theory Process_Create
  imports Process_Properties
begin

unbundle bit_operations_syntax

text \<open>
  Creation of a process succeeds when the kernel pool has pages for its thread and for the two
  copies of the command line that \<^verbatim>\<open>process_execute\<close> makes.
\<close>

section \<open>Kernel pages\<close>

definition free_pages :: "kmem \<Rightarrow> vaddr set" where
  "free_pages k = pool_pages (kernel_pool k) - kernel_used k"

lemma palloc_kernel_free:
  assumes "wf_kmem k" and "flags = 0 \<or> flags = PAL_ZERO" and "free_pages k \<noteq> {}"
  shows "\<exists>p k'. palloc_get_page flags k = Inr (p, k') \<and> p \<noteq> 0 \<and> wf_kmem k' \<and> aligned p \<and> p \<in> free_pages k \<and> p \<in> kernel_used k'
     \<and> free_pages k' = free_pages k - {p} \<and> kernel_used k' = insert p (kernel_used k) \<and> same_pages (- {p}) k k'"
proof -
  have fl: "flags AND PAL_ASSERT = 0" "False = (flags AND PAL_USER \<noteq> 0)"
    using assms(2) by (auto simp: PAL_ZERO_def PAL_ASSERT_def PAL_USER_def)
  obtain p k' where p: "palloc_get_page flags k = Inr (p, k')" "wf_kmem k'"
    "if p = 0 then kernel_used k = pool_pages (kernel_pool k)
     else aligned p \<and> p \<notin> kernel_used k \<and> p \<in> pool_pages (kernel_pool k) \<and> kernel_used k' = insert p (kernel_used k) \<and> same_pages (- {p}) k k'"
    using palloc_get_page_kernel [OF assms(1,2)] by (auto split: if_splits)
  have "pool_pages (kernel_pool k') = pool_pages (kernel_pool k)"
    using palloc_get_page_spec [OF assms(1) fl] p(1) by (intro pool_pages_cong) (auto simp: the_pool_def)
  moreover have "p \<noteq> 0" using p(3) assms(3) by (auto simp: free_pages_def)
  ultimately show ?thesis using p by (auto simp: free_pages_def)
qed

lemma free_pages_ram [simp]: "free_pages (k\<lparr>ram_of := r\<rparr>) = free_pages k"
  by (simp add: free_pages_def)

lemma wf_kmem_ram [simp]: "wf_kmem (k\<lparr>ram_of := r\<rparr>) = wf_kmem k"
  by (simp add: wf_kmem_def)

text \<open>A copy of the command line in a page of its own.\<close>

lemma copy_line:
  assumes "0 \<notin> set s" and "length s < 4096"
  shows "\<exists>d. strlcpy (page_bytes k p) (s @ 0 # r) PGSIZE = Inr (length s, d) \<and> length d = 4096 \<and> (\<exists>rest. d = s @ 0 # rest)"
  using strlcpy_eq [OF assms(1), of PGSIZE "page_bytes k p" r] assms(2) by (simp add: PGSIZE_def page_bytes_def)

lemma first_word:
  assumes "0 \<notin> set s" and "s \<noteq> []" and "hd s \<noteq> 32"
  shows "\<exists>save d. strtok_r (s @ 0 # rest) 0 [32, 0] = Inr (Some 0, save, d) \<and> cstr d = takeWhile (\<lambda>b. b \<noteq> 32) s \<and> length d = length (s @ 0 # rest)"
proof -
  have dw: "dropWhile (\<lambda>c. c \<in> set [32]) s = s" "takeWhile (\<lambda>c. c \<in> set [32]) s = []" using assms(2,3) by (cases s; simp)+
  have l: "length pre' + (length str' + length rest) = length s + length rest"
    if "strtok_r (s @ 0 # rest) 0 [32, 0] = Inr (Some 0, length pre', pre' @ str' @ 0 # rest)" for pre' str'
    using strtok_r_progress [OF that] by simp
  show ?thesis using strtok_r_some [OF assms(1) _ dw(1) assms(2), of "[]" rest "[]"] dw(2) l by fastforce
qed

section \<open>Creating a process\<close>

lemma three_free:
  assumes "3 \<le> card F" and "p \<in> F" and "q \<in> F"
  shows "F \<noteq> {}" and "F - {p} \<noteq> {}" and "F - {p} - {q} \<noteq> {}"
proof -
  have f: "finite F" using assms(1) by (metis card.infinite not_numeral_le_zero)
  have "3 - 1 \<le> card (F - {p})" using assms(1,2) f by simp
  moreover have "card (F - {p}) - 1 \<le> card (F - {p} - {q})" by (simp add: card_Diff1_le card_Diff_singleton_if)
  ultimately have "1 \<le> card (F - {p} - {q})" "1 \<le> card (F - {p})" by linarith+
  then show "F \<noteq> {}" "F - {p} \<noteq> {}" "F - {p} - {q} \<noteq> {}" by (metis card.empty not_one_le_zero empty_Diff)+
qed

text \<open>The pages and strings of \<^verbatim>\<open>process_execute\<close> up to the creation of the thread.\<close>

lemma execute_prepare:
  assumes "wf_kmem (km m)" and "3 \<le> card (free_pages (km m))" and "0 \<notin> set s" and "length s < 4096" and "s \<noteq> []" and "hd s \<noteq> 32"
    and "next_tid m \<noteq> TID_ERROR"
  shows "\<exists>fn k t. process_execute c (s @ 0 # r) ok m =
      register_child c (next_tid m) ok fn (m\<lparr>all_list := all_list m @ [init_uthread t (next_tid m) (takeWhile (\<lambda>b. b \<noteq> 32) s) fn], next_tid := next_tid m + 1, km := k\<rparr>)
    \<and> wf_kmem k \<and> fn \<in> kernel_used k \<and> cstr (page_bytes k fn) = s"
proof -
  let ?F = "free_pages (km m)"
  have ne: "?F \<noteq> {}" using assms(2) by auto
  obtain fn k1 where k1: "palloc_get_page 0 (km m) = Inr (fn, k1)" "fn \<noteq> 0" "wf_kmem k1" "aligned fn" "fn \<in> ?F" "fn \<in> kernel_used k1"
      "free_pages k1 = ?F - {fn}"
    using palloc_kernel_free [OF assms(1) _ ne, of 0] by blast
  obtain d1 rest1 where d1: "strlcpy (page_bytes k1 fn) (s @ 0 # r) PGSIZE = Inr (length s, d1)" "length d1 = 4096" "d1 = s @ 0 # rest1"
    using copy_line [OF assms(3,4)] by blast
  let ?k1 = "k1\<lparr>ram_of := put_bytes (ram_of k1) fn d1\<rparr>"
  have ne1: "free_pages ?k1 \<noteq> {}" using three_free(2) [OF assms(2) k1(5,5)] k1(7) by simp
  have w1: "wf_kmem ?k1" using k1(3) by simp
  obtain pn k2 where k2: "palloc_get_page 0 ?k1 = Inr (pn, k2)" "pn \<noteq> 0" "wf_kmem k2" "aligned pn" "pn \<in> ?F - {fn}" "pn \<in> kernel_used k2"
      "free_pages k2 = ?F - {fn} - {pn}" "kernel_used k2 = insert pn (kernel_used k1)" "same_pages (- {pn}) ?k1 k2"
    using palloc_kernel_free [OF w1 _ ne1, of 0] k1(7) by auto
  obtain d2 rest2 where d2: "strlcpy (page_bytes k2 pn) (s @ 0 # r) PGSIZE = Inr (length s, d2)" "length d2 = 4096" "d2 = s @ 0 # rest2"
    using copy_line [OF assms(3,4)] by blast
  obtain save d3 where d3: "strtok_r d2 0 [32, 0] = Inr (Some 0, save, d3)" "cstr d3 = takeWhile (\<lambda>b. b \<noteq> 32) s" "length d3 = 4096"
    using first_word [OF assms(3,5,6), of rest2] d2(2,3) by auto
  let ?k2 = "k2\<lparr>ram_of := put_bytes (ram_of k2) pn d3\<rparr>"
  have ne2: "free_pages ?k2 \<noteq> {}" using three_free(3) [OF assms(2) k1(5), of pn] k2(5,7) by simp
  have w2: "wf_kmem ?k2" using k2(3) by simp
  obtain t k3 where k3: "palloc_get_page PAL_ZERO ?k2 = Inr (t, k3)" "t \<noteq> 0" "wf_kmem k3" "t \<in> free_pages k2"
      "kernel_used k3 = insert t (kernel_used k2)" "same_pages (- {t}) ?k2 k3"
    using palloc_kernel_free [OF w2 _ ne2, of PAL_ZERO] by auto
  have "pn \<in> kernel_used k3" using k2(6) k3(5) by simp
  then obtain k4 where k4: "palloc_free_page pn k3 = Inr k4" "wf_kmem k4" "kernel_used k4 = kernel_used k3 - {pn}" "same_pages (- {pn}) k3 k4"
    using free_kernel_page [OF k3(3)] by blast
  have dist: "fn \<noteq> pn" "fn \<noteq> t" using k2(5,7) k3(4) by auto
  have keep: "same_pages {fn} ?k1 k4"
  proof -
    have "same_pages {fn} ?k1 k2" using k2(9) dist by (auto intro: same_pages_mono)
    moreover have "same_pages {fn} k2 ?k2" using put_bytes_same [OF k2(4), of d3 k2] d3(3) dist by (auto intro: same_pages_mono)
    moreover have "same_pages {fn} ?k2 k3" using k3(6) dist by (auto intro: same_pages_mono)
    moreover have "same_pages {fn} k3 k4" using k4(4) dist by (auto intro: same_pages_mono)
    ultimately show ?thesis using same_pages_trans by blast
  qed
  have "page_bytes ?k1 fn = d1" using get_put_bytes [of d1 "ram_of k1" fn] d1(2) by (simp add: page_bytes_def)
  then have "page_bytes k4 fn = d1" using same_page_bytes [OF keep _ k1(4)] by simp
  then have c: "cstr (page_bytes k4 fn) = s" using d1(3) assms(3) by simp
  have u: "fn \<in> kernel_used k4" using k1(6) k2(8) k3(5) k4(3) dist by simp
  have "process_execute c (s @ 0 # r) ok m =
      register_child c (next_tid m) ok fn (m\<lparr>all_list := all_list m @ [init_uthread t (next_tid m) (takeWhile (\<lambda>b. b \<noteq> 32) s) fn], next_tid := next_tid m + 1, km := k4\<rparr>)"
    using k1(1,2) d1(1) k2(1,2) d2(1) d3(1,2) k3(1,2) k4(1) assms(7) by (simp add: process_execute_def uthread_create_def Let_def)
  then show ?thesis using k4(2) u c by blast
qed


section \<open>A concrete system\<close>

definition demo_main :: uthread where
  "demo_main = \<lparr>tid = 1, name = [], dying = False, taddr = 0, pagedir = 0, exit_code = 0, parent_tid = 0,
      child_thread_list = [], running_file = NULL, fd_list = [], file_num = 2, load_sema = 0, tload_state = LOAD_INIT,
      tcwd = NULL, pc_of = KernelThread\<rparr>"

definition demo_machine :: machine where
  "demo_machine = \<lparr>all_list = [demo_main], next_tid = 2, km = demo_kmem, fsys = demo_fs 1, file_lock = None\<rparr>"

lemma demo_booted: "booted demo_machine"
  by (simp add: booted_def demo_machine_def demo_main_def)

lemma demo_free: "3 \<le> card (free_pages demo_kmem)"
proof -
  have u: "used_bits \<lparr>bit_cnt = 8, bits = [0]\<rparr> = {}" by (auto simp: used_bits_def bits_of_def)
  have "{0xc0101000, 0xc0102000, 0xc0103000} \<subseteq> pool_pages (kernel_pool demo_kmem)"
  proof -
    have "pool_page (kernel_pool demo_kmem) 0 = 0xc0101000" "pool_page (kernel_pool demo_kmem) 1 = 0xc0102000" "pool_page (kernel_pool demo_kmem) 2 = 0xc0103000"
      by (simp_all add: pool_page_def demo_kmem_def)
    moreover have "bit_cnt (used_map (kernel_pool demo_kmem)) = 8" by (simp add: demo_kmem_def)
    ultimately show ?thesis unfolding pool_pages_def by (metis (no_types, lifting) empty_subsetI image_eqI insert_subset lessThan_iff numeral_less_iff one_less_numeral_iff rel_simps(51) semiring_norm(75,76,78,79) zero_less_numeral)
  qed
  moreover have "kernel_used demo_kmem = {}" using u by (simp add: used_pages_def demo_kmem_def)
  ultimately have "{0xc0101000, 0xc0102000, 0xc0103000} \<subseteq> free_pages demo_kmem" by (simp add: free_pages_def)
  moreover have "finite (free_pages demo_kmem)" by (simp add: free_pages_def pool_pages_def)
  ultimately have "card {0xc0101000, 0xc0102000, 0xc0103000 :: vaddr} \<le> card (free_pages demo_kmem)" by (intro card_mono)
  then show ?thesis by simp
qed



end
