(* ===== verification/Load_Segment.thy ===== *)
theory Load_Segment
  imports Load_Properties
begin

unbundle bit_operations_syntax

text \<open>
  A segment that \<^verbatim>\<open>validate_segment\<close> accepts: the arguments computed for \<^verbatim>\<open>load_segment\<close> meet its
  assertions and stay inside user memory, and a successful call leaves the segment in memory.
\<close>

lemma round_up_le: "4096 * q + x \<le> 4096 * (b :: nat) \<Longrightarrow> 4096 * q + (x + 4095) div 4096 * 4096 \<le> 4096 * b"
proof -
  assume "4096 * q + x \<le> 4096 * b"
  then have "(x + 4095) div 4096 < Suc (b - q)" "q \<le> b" by (simp_all add: div_less_iff_less_mult)
  then show ?thesis by simp
qed

lemma round_up_ge: "x \<le> (x + 4095) div 4096 * 4096" for x :: nat
proof -
  have "x + 4095 = (x + 4095) div 4096 * 4096 + (x + 4095) mod 4096" by simp
  moreover have "(x + 4095) mod 4096 < 4096" by simp
  ultimately show ?thesis by linarith
qed

lemma segment_args_bounds:
  assumes "validate_segment phdr flen" and "segment_args phdr = (fp, mp, rd, zr, w)"
  defines "ofs \<equiv> unat (p_vaddr phdr) mod 4096" and "n \<equiv> (unat rd + unat zr) div 4096"
  shows "aligned mp" and "unat mp + ofs = unat (p_vaddr phdr)" and "unat fp + ofs = unat (p_offset phdr)" and "aligned fp"
    and "unat rd + unat zr = 4096 * n" and "unat mp + 4096 * n \<le> 3221225472" and "4096 \<le> unat mp"
    and "ofs + unat (p_memsz phdr) \<le> 4096 * n"
    and "unat rd = (if p_filesz phdr > 0 then ofs + unat (p_filesz phdr) else 0)"
proof -
  note b = validate_segment_bounds [OF assms(1)]
  let ?ms = "unat (p_memsz phdr)" and ?va = "unat (p_vaddr phdr)"
  let ?sum = "(ofs + ?ms + 4095) div 4096 * 4096"
  have mp: "mp = pg_round_down (p_vaddr phdr)" and fp: "fp = pg_round_down (p_offset phdr)"
    using assms(2) by (auto simp: segment_args_def Let_def pg_round_down_def split: if_splits)
  show "aligned mp" "aligned fp" by (simp_all add: mp fp)
  show m: "unat mp + ofs = ?va" by (simp add: mp ofs_def unat_pg_round_down)
  show "unat fp + ofs = unat (p_offset phdr)" using b(5) div_mult_mod_eq [of "unat (p_offset phdr)" 4096] by (simp add: fp ofs_def unat_pg_round_down)
  show "4096 \<le> unat mp" using b(1) by (simp add: mp unat_pg_round_down)
  have po: "unat (p_vaddr phdr AND PGMASK) = ofs" by (simp add: ofs_def unat_pg_ofs flip: pg_ofs_def)
  have pm: "unat ((p_vaddr phdr AND PGMASK) + p_memsz phdr) = ofs + ?ms"
    using b(2) m po by (simp add: unat_word_ariths)
  have ru: "unat (ROUND_UP ((p_vaddr phdr AND PGMASK) + p_memsz phdr) 4096) = ?sum"
    using ROUND_UP_unat [of "(p_vaddr phdr AND PGMASK) + p_memsz phdr"] pm b(2) m by simp
  have pf: "unat ((p_vaddr phdr AND PGMASK) + p_filesz phdr) = ofs + unat (p_filesz phdr)"
    using b(2,3) m po by (simp add: unat_word_ariths)
  have le: "ofs + ?ms \<le> ?sum" by (rule round_up_ge)
  show rd: "unat rd = (if p_filesz phdr > 0 then ofs + unat (p_filesz phdr) else 0)"
    using assms(2) pf by (auto simp: segment_args_def Let_def split: if_splits)
  have "zr = ROUND_UP ((p_vaddr phdr AND PGMASK) + p_memsz phdr) 4096 - rd"
    using assms(2) by (auto simp: segment_args_def Let_def PGSIZE_def split: if_splits)
  then have zr: "unat zr = ?sum - unat rd"
    using ru rd le b(3) by (simp add: unat_sub word_le_nat_alt)
  have s: "unat rd + unat zr = ?sum" using zr rd le b(3) by simp
  then show sn: "unat rd + unat zr = 4096 * n" by (simp add: n_def)
  show "ofs + ?ms \<le> 4096 * n" using le s sn by simp
  have "unat mp = 4096 * (?va div 4096)" by (simp add: mp unat_pg_round_down)
  moreover have "4096 * (?va div 4096) + ofs + ?ms < 4096 * 786432" using b(2) m calculation by simp
  ultimately have "unat mp + ?sum \<le> 4096 * 786432" using round_up_le [of "?va div 4096" "ofs + ?ms" 786432] by simp
  then show "unat mp + 4096 * n \<le> 3221225472" using s sn by simp
qed

section \<open>The bytes a program sees\<close>

lemma page_map_start: "page_map m pd (pg_round_down va) = page_map m pd va"
  by (rule page_map_round) (simp add: aligned_round)

lemma user_byte:
  assumes "page_holds m pd (pg_round_down va) w bs" and "is_user_vaddr va"
  shows "uget pd va 1 m = Inr [bs ! unat (pg_ofs va)]"
proof -
  obtain k where k: "page_map m pd va = Some (k, w)" "page_bytes m k = bs"
    using assms(1) by (auto simp: page_holds_def page_map_start)
  have "unat (pg_ofs va) < 4096" by (simp add: unat_pg_ofs)
  then have "bs ! unat (pg_ofs va) = ram_of m (k + pg_ofs va)"
    using k(2) by (auto simp: page_bytes_def get_bytes_map)
  then show ?thesis using k(1) assms(2) by (simp add: mmu_def)
qed

lemma seg_bytes_nth:
  assumes "i < rd + zr" and "rd \<le> length c - p"
  shows "seg_bytes c p rd zr ! i = (if i < rd then c ! (p + i) else 0)"
  using assms by (auto simp: seg_bytes_def nth_append)

lemma length_seg_bytes: "rd \<le> length c - p \<Longrightarrow> length (seg_bytes c p rd zr) = rd + zr"
  by (simp add: seg_bytes_def)

lemma seg_page_nth: "i < 4096 \<Longrightarrow> 4096 * j + i < rd + zr \<Longrightarrow> rd \<le> length c - p \<Longrightarrow>
   seg_page c p rd zr j ! i = (if 4096 * j + i < rd then c ! (p + (4096 * j + i)) else 0)"
  using seg_bytes_nth [of "4096 * j + i" rd zr c p] by (simp add: seg_page_def length_seg_bytes)

lemma seg_loaded_byte:
  assumes "seg_loaded m pd upage w n (seg_page c p rd zr)" and "rd + zr = 4096 * n" and "rd \<le> length c - p" and "i < 4096 * n"
    and "unat upage + 4096 * n \<le> 3221225472" and "aligned upage"
  shows "uget pd (upage + of_nat i) 1 m = Inr [if i < rd then c ! (p + i) else 0]"
proof -
  let ?j = "i div 4096" and ?va = "upage + of_nat i"
  have j: "?j < n" using assms(4) by (simp add: div_less_iff_less_mult mult.commute)
  have uva: "unat ?va = unat upage + i" using assms(4,5) by (simp add: unat_word_ariths unat_of_nat)
  obtain q where q: "unat upage = 4096 * q" using assms(6) by (metis aligned_iff mod_0_imp_dvd dvdE)
  have ofs: "unat (pg_ofs ?va) = i mod 4096" using q uva by (simp add: unat_pg_ofs)
  have "pg_round_down ?va = upage + of_nat (4096 * ?j)"
    using seg_page_user(1) [OF assms(5) j assms(6)] q uva by (simp add: word_unat_eq_iff unat_pg_round_down)
  then have h: "page_holds m pd (pg_round_down ?va) w (seg_page c p rd zr ?j)" using assms(1) j by (simp add: seg_loaded_def)
  have us: "is_user_vaddr ?va" using uva assms(4,5) by (simp add: is_user_vaddr_def word_less_nat_alt unat_PHYS_BASE)
  have "seg_page c p rd zr ?j ! (i mod 4096) = (if i < rd then c ! (p + i) else 0)"
    using seg_page_nth [of "i mod 4096" ?j rd zr c p] assms(2-4) by simp
  then show ?thesis using user_byte [OF h us] ofs by simp
qed

section \<open>Segments of an executable\<close>

lemma offset_nonneg:
  assumes "validate_segment phdr (int n)" and "n < 2147483648" and "segment_args phdr = (fp, mp, rd, zr, w)"
  shows "sint fp = int (unat fp)" and "unat fp \<le> n"
proof -
  have "unat (p_offset phdr) \<le> n"
    using validate_segment_bounds(6) [OF assms(1)] assms(2) by (simp add: word_le_nat_alt unat_of_nat)
  then show le: "unat fp \<le> n" using segment_args_bounds(3) [OF assms(1,3)] by linarith
  have "int (unat fp) < 2147483648" using le assms(2) by linarith
  then show "sint fp = int (unat fp)" using int_word_sint [of "int (unat fp)", where ?'a = 32] by simp
qed

text \<open>
  C11. Loading a segment of an executable: when \<^verbatim>\<open>validate_segment\<close> accepts its header, the pages
  computed for \<^verbatim>\<open>load_segment\<close> lie in user memory and not in page 0, its assertions hold, its loop
  ends, no other page of the process and no frame in use changes, and if it reports success then
  every byte of the segment that the process can address is the byte of the file at the
  corresponding offset, or zero past the part that is in the file. It reports failure only when
  a pool of pages is used up, a page of the segment was mapped before, or the file is too short.
\<close>

theorem load_segment_correct:
  assumes "reading s f c p" and "length c < 2147483648" and "load_ok m pd" and "validate_segment phdr (int (length c))"
    and "segment_args phdr = (ofs, upage, rd, zr, w)"
  shows "4096 \<le> unat upage \<and> unat upage + (unat rd + unat zr) \<le> unat PHYS_BASE
     \<and> (\<exists>ok s' m'. load_segment pd f ofs upage rd zr w s m = Inr (ok, s', m') \<and> load_ok m' pd \<and> (\<exists>q. reading s' f c q)
         \<and> same_pages (user_used m) m m'
         \<and> (\<forall>va. is_user_vaddr va \<longrightarrow> pg_round_down va \<notin> seg_pages upage ((unat rd + unat zr) div 4096) \<longrightarrow> page_map m' pd va = page_map m pd va)
         \<and> (ok \<longrightarrow> (\<forall>i<unat (p_memsz phdr). uget pd (p_vaddr phdr + of_nat i) 1 m' =
               Inr [if i < unat (p_filesz phdr) then c ! (unat (p_offset phdr) + i) else 0]))
         \<and> (\<not> ok \<longrightarrow> user_full m' \<or> kernel_full m' \<or> (\<exists>va\<in>seg_pages upage ((unat rd + unat zr) div 4096). page_map m pd va \<noteq> None)
               \<or> length c < unat (p_offset phdr) + unat (p_filesz phdr)))"
proof -
  define n where "n = (unat rd + unat zr) div 4096"
  define o' where "o' = unat (p_vaddr phdr) mod 4096"
  note b = segment_args_bounds [OF assms(4,5), folded n_def o'_def]
  note fp = offset_nonneg [OF assms(4,2,5)]
  obtain s1 where s1: "file_seek f (sint ofs) s = Inr s1" "reading s1 f c (unat ofs)"
    using file_seek_reading [OF assms(1), of "unat ofs"] fp(1) by auto
  obtain ok s' m' where l: "segment_loop n pd f upage rd zr w s1 m = Inr (ok, s', m')" "load_ok m' pd" "load_keeps pd (seg_pages upage n) m m'"
     "\<exists>q. reading s' f c q" "ok \<Longrightarrow> unat rd \<le> length c - unat ofs"
     "ok \<Longrightarrow> seg_loaded m' pd upage w n (seg_page c (unat ofs) (unat rd) (unat zr))"
     "\<not> ok \<Longrightarrow> user_full m' \<or> kernel_full m' \<or> (\<exists>va\<in>seg_pages upage n. page_map m pd va \<noteq> None) \<or> length c - unat ofs < unat rd"
    using segment_loop_spec [OF s1(2) assms(3) b(1,5,6)] by blast
  have "unat (rd + zr) mod 4096 = 0" using b(5,6) by (simp add: unat_word_ariths)
  then have "(rd + zr) mod of_nat PGSIZE = 0" by (simp add: PGSIZE_def word_unat_eq_iff unat_mod)
  moreover have "cmod (sint ofs) (int PGSIZE) = 0"
  proof -
    have "int (unat ofs mod 4096) = 0" using b(4) by (simp only: aligned_iff)
    then have "int (unat ofs) mod 4096 = 0" by (simp only: of_nat_mod) simp
    then show ?thesis unfolding fp(1) PGSIZE_def by (subst cmod_nonneg) simp_all
  qed
  ultimately have "load_segment pd f ofs upage rd zr w s m = Inr (ok, s', m')"
    using s1(1) l(1) b(1) by (simp add: load_segment_def n_def PGSIZE_def)
  moreover have "uget pd (p_vaddr phdr + of_nat i) 1 m' = Inr [if i < unat (p_filesz phdr) then c ! (unat (p_offset phdr) + i) else 0]"
    if ok "i < unat (p_memsz phdr)" for i
  proof -
    have "p_vaddr phdr = upage + of_nat o'" using arg_cong [OF b(2), of "of_nat :: nat \<Rightarrow> 32 word"] by simp
    then have "p_vaddr phdr + of_nat i = upage + of_nat (o' + i)" by (simp add: add.assoc)
    moreover have "o' + i < 4096 * n" using that(2) b(8) by simp
    moreover have "(if o' + i < unat rd then c ! (unat ofs + (o' + i)) else 0) = (if i < unat (p_filesz phdr) then c ! (unat (p_offset phdr) + i) else 0)"
      using b(9) by (auto simp: add.assoc word_less_nat_alt simp flip: b(3))
    ultimately show ?thesis using seg_loaded_byte [OF l(6) [OF that(1)] b(5) l(5) [OF that(1)] _ b(6,1)] by (simp only:)
  qed
  moreover have "length c < unat (p_offset phdr) + unat (p_filesz phdr)" if "length c - unat ofs < unat rd"
    using that b(3,9) fp(2) by (auto split: if_splits)
  ultimately show ?thesis using b(5-7) l by (auto simp: load_keeps_def unat_PHYS_BASE n_def [symmetric])
qed

text \<open>A process with nothing mapped loads 20 bytes of a file and 10 zeros at an address inside a page.\<close>

definition demo_exec :: fs where
  "demo_exec = (demo_fs 1)\<lparr>files := (files (demo_fs 1))(500 \<mapsto> \<lparr>f_inode = 202, f_pos = 0, deny_write = False\<rparr>)\<rparr>"

definition demo_phdr :: Elf32_Phdr where
  "demo_phdr = \<lparr>p_type = PT_LOAD, p_offset = 2, p_vaddr = 0x8048002, p_filesz = 18, p_memsz = 30, p_flags = 6\<rparr>"

lemma demo_exec_reading: "reading demo_exec 500 (demo_link 1) 0"
proof -
  have i: "inodes (demo_fs 1) 202 = Some (demo_inode 5 demo_sub)" by (simp add: demo_fs_def)
  have "file_at (demo_fs 1) 202 (demo_inode 5 demo_sub)" using good_file_at [OF demo_inv(1)] demo_open_sub(1) [of 1] by (simp add: open_file_at_def)
  moreover have "contents (V (demo_fs 1)) (data (demo_inode 5 demo_sub)) = demo_link 1"
    using demo_open_sub(2) [of 1] i by (simp add: file_bytes_def)
  moreover have "fs_base demo_exec" using demo_base [of 1] by (simp add: fs_base_def demo_exec_def)
  ultimately show ?thesis
    unfolding reading_def by (intro conjI exI [of _ "\<lparr>f_inode = 202, f_pos = 0, deny_write = False\<rparr>"] exI [of _ "demo_inode 5 demo_sub"])
      (simp_all add: demo_exec_def file_at_def)
qed

theorem load_segment_correct_witness:
  "\<exists>ok s' m'. load_segment 0xc0101000 500 0 0x8048000 20 4076 True demo_exec demo_pds = Inr (ok, s', m')
     \<and> (ok \<longrightarrow> uget 0xc0101000 (0x8048002 + of_nat 17) 1 m' = Inr [1] \<and> uget 0xc0101000 (0x8048002 + of_nat 18) 1 m' = Inr [0])"
proof -
  have c: "length (demo_link 1) = 20" "demo_link 1 ! 19 = 1" by (simp_all add: demo_link_def nth_append)
  have v: "validate_segment demo_phdr (int (length (demo_link 1)))"
    by (simp add: validate_segment_def demo_phdr_def PGMASK_mask mask_eq_exp_minus_1 is_user_vaddr_def PHYS_BASE_def PGSIZE_def c)
  have a: "segment_args demo_phdr = (0, 0x8048000, 20, 4076, True)"
    by (simp add: segment_args_def demo_phdr_def PGMASK_mask mask_eq_exp_minus_1 PGSIZE_def ROUND_UP_def PF_W_def)
  have l: "load_ok demo_pds 0xc0101000"
    using wf_demo_pd(1) demo_args(4) by (simp add: load_ok_def mapped_high_def demo_pd_empty)
  have n: "unat (p_memsz demo_phdr) = 30" "unat (p_filesz demo_phdr) = 18" "unat (p_offset demo_phdr) = 2" "p_vaddr demo_phdr = 0x8048002"
    by (simp_all add: demo_phdr_def)
  obtain ok s' m' where r: "load_segment 0xc0101000 500 0 0x8048000 20 4076 True demo_exec demo_pds = Inr (ok, s', m')"
    "ok \<longrightarrow> (\<forall>i<30. uget 0xc0101000 (0x8048002 + of_nat i) 1 m' = Inr [if i < 18 then demo_link 1 ! (2 + i) else 0])"
    using load_segment_correct [OF demo_exec_reading _ l v a, unfolded n] c(1) by auto
  have "uget 0xc0101000 (0x8048002 + of_nat 17) 1 m' = Inr [1] \<and> uget 0xc0101000 (0x8048002 + of_nat 18) 1 m' = Inr [0]" if ok
  proof -
    have f: "uget 0xc0101000 (0x8048002 + of_nat i) 1 m' = Inr [if i < 18 then demo_link 1 ! (2 + i) else 0]" if "i < 30" for i
      using r(2) \<open>ok\<close> that by blast
    show ?thesis using f [of 17] f [of 18] c(2) by (simp del: of_nat_numeral)
  qed
  then show ?thesis using r(1) by blast
qed

end
