(* ===== verification/Syscall_Properties.thy ===== *)
theory Syscall_Properties
  imports Syscall Process_Create Load_Segment
begin

unbundle bit_operations_syntax

text \<open>
  What the system calls guarantee about user memory and file descriptors.
\<close>

section \<open>Checking addresses\<close>

lemma page_map_aligned: "page_map k pd va = Some (kp, w) \<Longrightarrow> aligned kp"
proof -
  assume "page_map k pd va = Some (kp, w)"
  then have "kp = pg_round_down (pte_of k pd va) + PHYS_BASE"
    by (auto simp: page_map_def Let_def PTE_ADDR_bits pg_round_down_bits split: if_splits)
  then show ?thesis using aligned_plus by simp
qed

lemma get_page_mapped:
  assumes "wf_pd k pd" and "mapped_high k pd" and "is_user_vaddr va"
  shows "\<exists>p. pagedir_get_page pd va k = Inr p \<and> (p \<noteq> 0 \<longleftrightarrow> page_map k pd va \<noteq> None)"
proof (cases "page_map k pd va")
  case None
  then show ?thesis using pagedir_get_page_spec [OF assms(1) mapped_high_kpages [OF assms(2)] assms(3)] by simp
next
  case (Some q)
  obtain kp w where q: "q = (kp, w)" by (cases q)
  have al: "aligned kp" using page_map_aligned Some q by blast
  have "PHYS_BASE \<le> kp" using assms(2,3) Some q by (auto simp: mapped_high_def)
  then have "3221225472 \<le> unat kp" by (simp add: word_le_nat_alt unat_PHYS_BASE)
  moreover have "unat (kp + pg_ofs va) = unat kp + unat (pg_ofs va)" by (rule unat_page_plus [OF al]) (simp add: unat_pg_ofs)
  ultimately have "unat (kp + pg_ofs va) \<noteq> 0" by simp
  then have "kp + pg_ofs va \<noteq> 0" by (metis unat_0)
  then show ?thesis using pagedir_get_page_spec [OF assms(1) mapped_high_kpages [OF assms(2)] assms(3)] Some q by simp
qed

definition mapped_user :: "kmem \<Rightarrow> vaddr \<Rightarrow> vaddr \<Rightarrow> bool" where
  "mapped_user k pd va \<longleftrightarrow> is_user_vaddr va \<and> page_map k pd va \<noteq> None"

lemma valid_bytes_count:
  assumes "wf_pd k pd" and "mapped_high k pd"
  shows "valid_bytes pd ptr i n k = Inr (length (filter (\<lambda>j. mapped_user k pd (ptr + of_nat j)) [i..<i + n]))"
proof (induction n arbitrary: i)
  case (Suc n)
  have up: "[i..<i + Suc n] = i # [Suc i..<Suc i + n]" by (simp add: upt_rec)
  have "(if is_user_vaddr (ptr + of_nat i)
       then bind_res (pagedir_get_page pd (ptr + of_nat i) k) (\<lambda>p. Inr (if p \<noteq> 0 then 1 else 0)) else Inr 0)
     = Inr (if mapped_user k pd (ptr + of_nat i) then 1 else 0 :: nat)"
    using get_page_mapped [OF assms, of "ptr + of_nat i"] by (auto simp: mapped_user_def)
  then show ?case unfolding up valid_bytes.simps Suc.IH by simp
qed simp

lemma filter_all_length: "length (filter P xs) = length xs \<longleftrightarrow> (\<forall>x\<in>set xs. P x)"
  by (metis filter_id_conv filter_cong length_filter_less less_irrefl)

text \<open>
  C19. The check of user addresses: in a process whose page directory is well formed,
  \<^verbatim>\<open>validate_addr\<close> always returns; it accepts an address exactly when it is not null and the four
  bytes from it lie in user memory and are mapped, and then the kernel can load a word from it.
\<close>

theorem validate_addr_correct:
  assumes "wf_pd k pd" and "mapped_high k pd"
  shows "validate_addr pd ptr k = Inr (ptr \<noteq> 0 \<and> (\<forall>j<4. mapped_user k pd (ptr + of_nat j)))
     \<and> (validate_addr pd ptr k = Inr True \<longrightarrow> (\<exists>w. load_word pd ptr k = Inr w))"
proof -
  have v: "validate_addr pd ptr k = Inr (ptr \<noteq> 0 \<and> (\<forall>j<4. mapped_user k pd (ptr + of_nat j)))"
    using filter_all_length [of "\<lambda>j. mapped_user k pd (ptr + of_nat j)" "[0..<4]"] valid_bytes_count [OF assms, of ptr 0 4]
    by (auto simp: validate_addr_def simp del: valid_bytes.simps upt.simps)
  have "\<exists>bs. uget pd va n k = Inr bs" if "\<forall>j<n. mapped_user k pd (va + of_nat j)" for va n
    using that
  proof (induction n arbitrary: va)
    case (Suc n)
    have "\<forall>j<n. mapped_user k pd (va + 1 + of_nat j)" using Suc.prems by (auto simp: add.assoc dest: spec [of _ "Suc _"])
    then obtain bs where "uget pd (va + 1) n k = Inr bs" using Suc.IH by blast
    moreover have "\<exists>a. mmu False pd va k = Inr a" using Suc.prems by (force simp: mapped_user_def mmu_def)
    ultimately show ?case by auto
  qed simp
  from this [of 4 ptr] show ?thesis using v by (cases "uget pd ptr 4 k") (auto simp: load_word_def)
qed

section \<open>File descriptors\<close>

definition fds_ok :: "uthread \<Rightarrow> bool" where
  "fds_ok t \<longleftrightarrow> distinct (map fd (fd_list t)) \<and> (\<forall>d\<in>set (fd_list t). 2 \<le> fd d \<and> fd d < file_num t) \<and> 2 \<le> file_num t"

lemma find_fd_append:
  "find_fd n k (ds @ [d]) = (case find_fd n k ds of Some e \<Rightarrow> Some e | None \<Rightarrow> find_fd n k [d])"
  by (induction ds) auto

lemma find_fd_none: "n \<notin> fd ` set ds \<Longrightarrow> find_fd n k ds = None"
  by (induction ds) auto

lemma find_fd_in: "find_fd n k ds = Some d \<Longrightarrow> d \<in> set ds \<and> fd d = n"
  by (induction ds) (auto split: if_splits)

lemma find_fd_remove:
  assumes "distinct (map fd ds)" and "d \<in> set ds"
  shows "find_fd n k (remove1 d ds) = (if n = fd d then None else find_fd n k ds)"
  using assms
proof (induction ds)
  case (Cons e ds)
  show ?case
  proof (cases "e = d")
    case True
    then have "fd d \<notin> fd ` set ds" using Cons.prems(1) by auto
    then show ?thesis using True find_fd_none by auto
  next
    case False
    then have "d \<in> set ds" "fd e \<noteq> fd d" using Cons.prems by auto
    then show ?thesis using False Cons by auto
  qed
qed simp

lemma on_fs_thread:
  assumes "on_fs c f m = Inr (v, m')" and "thread_of c m = Inr cur"
  shows "\<exists>w. thread_of c m' = Inr (cur\<lparr>tcwd := w\<rparr>)"
proof -
  obtain s where m': "m' = upd_thread c (\<lambda>t. t\<lparr>tcwd := cwd s\<rparr>) (m\<lparr>fsys := s\<rparr>)"
    using assms by (auto simp: on_fs_def res_simps)
  have "thread_of c (m\<lparr>fsys := s\<rparr>) = Inr cur" using assms(2) by (simp add: thread_of_def)
  moreover have "tid cur = c" using thread_of_view [OF assms(2)] by simp
  ultimately show ?thesis unfolding m' using thread_of_upd [of "\<lambda>t. t\<lparr>tcwd := cwd s\<rparr>" c "m\<lparr>fsys := s\<rparr>" cur c] by auto
qed

lemma add_fd_spec:
  assumes "add_fd c f m = Inr (Value w, m')" and "thread_of c m = Inr cur" and "f \<noteq> NULL"
  shows "\<exists>d u. thread_of c m' = Inr (cur\<lparr>tcwd := u, fd_list := fd_list cur @ [\<lparr>fd = file_num cur, fd_file = f, fd_dir = d\<rparr>], file_num := file_num cur + 1\<rparr>)
     \<and> w = word_of_int (file_num cur)"
proof -
  obtain d m1 where m1: "on_fs c (open_dir f) m = Inr (d, m1)" "w = word_of_int (file_num cur)"
    "m' = upd_thread c (\<lambda>t. t\<lparr>fd_list := fd_list t @ [\<lparr>fd = file_num t, fd_file = f, fd_dir = d\<rparr>], file_num := file_num t + 1\<rparr>) m1"
    using assms by (auto simp: add_fd_def res_simps)
  obtain u where u: "thread_of c m1 = Inr (cur\<lparr>tcwd := u\<rparr>)" using on_fs_thread [OF m1(1) assms(2)] by blast
  have "tid cur = c" using thread_of_view [OF assms(2)] by simp
  then have "thread_of c m' = Inr (cur\<lparr>tcwd := u, fd_list := fd_list cur @ [\<lparr>fd = file_num cur, fd_file = f, fd_dir = d\<rparr>], file_num := file_num cur + 1\<rparr>)"
    unfolding m1(3) using thread_of_upd [OF _ u] by simp
  then show ?thesis using m1(2) by blast
qed

lemma sys_open_cases:
  assumes "sys_open c file m = Inr (Value w, m')" and "thread_of c m = Inr cur"
  shows "\<exists>f m1 u. thread_of c m1 = Inr (cur\<lparr>tcwd := u\<rparr>) \<and> add_fd c f m1 = Inr (Value w, m')"
proof -
  obtain f m1 g where r: "on_fs c g m = Inr (f, m1)" "add_fd c f m1 = Inr (Value w, m')"
    using assms
    by (auto simp: sys_open_def checked_def on_path_def locked_def sys_exit_def res_simps split: if_splits option.splits)
  then show ?thesis using on_fs_thread [OF r(1) assms(2)] by blast
qed

lemma close_descriptor:
  assumes "close c n m = Inr (Value (), m')" and "thread_of c m = Inr cur"
  shows "\<exists>u. thread_of c m' = Inr (cur\<lparr>tcwd := u, fd_list := (case getfile cur n 0 of None \<Rightarrow> fd_list cur | Some d \<Rightarrow> remove1 d (fd_list cur))\<rparr>)"
proof (cases "getfile cur n 0")
  case None
  then obtain f :: "fs \<Rightarrow> (unit \<times> fs) res" and v where "on_fs c f m = Inr (v, m')"
    using assms by (auto simp: close_def locked_def returns_def res_simps split: option.splits if_splits)
  from on_fs_thread [OF this assms(2)] show ?thesis using None by auto
next
  case (Some d)
  then obtain f m1 where m1: "on_fs c f m = Inr ((), m1)" "m' = upd_thread c (remove_fd d) m1"
    using assms by (auto simp: close_def locked_def res_simps split: option.splits if_splits)
  obtain u where u: "thread_of c m1 = Inr (cur\<lparr>tcwd := u\<rparr>)" using on_fs_thread [OF m1(1) assms(2)] by blast
  have "tid cur = c" using thread_of_view [OF assms(2)] by simp
  then have "thread_of c m' = Inr (cur\<lparr>tcwd := u, fd_list := remove1 d (fd_list cur)\<rparr>)"
    unfolding m1(2) using thread_of_upd [OF _ u, of "remove_fd d" c] by (simp add: remove_fd_def)
  then show ?thesis using Some by auto
qed

text \<open>
  C13. File descriptors: \<^verbatim>\<open>open\<close> either returns -1 with the descriptors as before, or a descriptor
  that was not in use and is not 0 or 1; looking it up finds the new file and every other
  descriptor is as before. \<^verbatim>\<open>close\<close> of it restores the descriptors of before when it is a file; when
  it is a directory, \<^verbatim>\<open>close\<close> does nothing and the descriptor stays open.
\<close>

theorem open_close_descriptors:
  assumes "thread_of c m = Inr cur" and "fds_ok cur" and "sys_open c file m = Inr (Value w, m')"
  shows "\<exists>t. thread_of c m' = Inr t \<and> fds_ok t
     \<and> ((w = -1 \<and> fd_list t = fd_list cur) \<or>
        (\<exists>n d. w = word_of_int n \<and> 2 \<le> n \<and> fd d = n \<and> (\<forall>k. getfile cur n k = None) \<and> getfile t n 2 = Some d
          \<and> (\<forall>x k. x \<noteq> n \<longrightarrow> getfile t x k = getfile cur x k)
          \<and> (\<forall>m2. close c n m' = Inr (Value (), m2) \<longrightarrow> (\<exists>t2. thread_of c m2 = Inr t2 \<and> fds_ok t2
               \<and> fd_list t2 = (if fd_dir d = NULL then fd_list cur else fd_list t)))))"
proof -
  obtain f m1 u where r: "thread_of c m1 = Inr (cur\<lparr>tcwd := u\<rparr>)" "add_fd c f m1 = Inr (Value w, m')"
    using sys_open_cases [OF assms(3,1)] by blast
  show ?thesis
  proof (cases "f = NULL")
    case True
    then have "w = -1" "m' = m1" using r(2) by (auto simp: add_fd_def)
    then show ?thesis using r(1) assms(2) by (auto simp: fds_ok_def)
  next
    case False
    let ?n = "file_num cur"
    obtain d u2 where t: "thread_of c m' = Inr (cur\<lparr>tcwd := u2, fd_list := fd_list cur @ [\<lparr>fd = ?n, fd_file = f, fd_dir = d\<rparr>], file_num := ?n + 1\<rparr>)"
      "w = word_of_int ?n"
      using add_fd_spec [OF r(2,1) False] by auto
    let ?d = "\<lparr>fd = ?n, fd_file = f, fd_dir = d\<rparr>"
    let ?t = "cur\<lparr>tcwd := u2, fd_list := fd_list cur @ [?d], file_num := ?n + 1\<rparr>"
    have new: "?n \<notin> fd ` set (fd_list cur)" using assms(2) by (auto simp: fds_ok_def)
    have ok: "fds_ok ?t" using assms(2) new by (auto simp: fds_ok_def)
    have none: "getfile cur ?n k = None" for k using find_fd_none [OF new] by (simp add: getfile_def)
    have found: "getfile ?t ?n k = (if k = 2 \<or> (d \<noteq> NULL \<and> k = 1) \<or> (d = NULL \<and> k = 0) then Some ?d else None)" for k
      using none [of k] by (simp add: getfile_def find_fd_append)
    have other: "getfile ?t x k = getfile cur x k" if "x \<noteq> ?n" for x k
      using that by (auto simp: getfile_def find_fd_append split: option.splits)
    have "\<exists>t2. thread_of c m2 = Inr t2 \<and> fds_ok t2 \<and> fd_list t2 = (if d = NULL then fd_list cur else fd_list ?t)"
      if cl: "close c ?n m' = Inr (Value (), m2)" for m2
    proof -
      have "?d \<notin> set (fd_list cur)" using new by (auto simp: image_iff)
      then have "remove1 ?d (fd_list cur @ [?d]) = fd_list cur" by (simp add: remove1_append)
      then have eq: "(case getfile ?t ?n 0 of None \<Rightarrow> fd_list ?t | Some d \<Rightarrow> remove1 d (fd_list ?t)) = (if d = NULL then fd_list cur else fd_list ?t)"
        unfolding found by (cases "d = NULL") simp_all
      obtain u3 where "thread_of c m2 = Inr (?t\<lparr>tcwd := u3, fd_list := if d = NULL then fd_list cur else fd_list ?t\<rparr>)"
        using close_descriptor [OF cl t(1)] unfolding eq by blast
      moreover have "fds_ok (?t\<lparr>tcwd := u3, fd_list := if d = NULL then fd_list cur else fd_list ?t\<rparr>)"
        using ok assms(2) by (auto simp: fds_ok_def)
      ultimately show ?thesis by auto
    qed
    then show ?thesis using t ok none found [of 2] other assms(2)
      by (intro exI [of _ ?t] conjI disjI2 exI [of _ ?n] exI [of _ ?d]) (auto simp: fds_ok_def)
  qed
qed

section \<open>Copying to user memory\<close>

definition phys :: "kmem \<Rightarrow> vaddr \<Rightarrow> vaddr \<Rightarrow> vaddr" where
  "phys k pd va = (case page_map k pd va of None \<Rightarrow> 0 | Some (kp, w) \<Rightarrow> kp + pg_ofs va)"

text \<open>A buffer the process may write, with each of its bytes in a place of its own.\<close>

definition buffer_ok :: "kmem \<Rightarrow> vaddr \<Rightarrow> vaddr \<Rightarrow> nat \<Rightarrow> bool" where
  "buffer_ok k pd va n \<longleftrightarrow>
     (\<forall>i<n. is_user_vaddr (va + of_nat i) \<and> (\<exists>kp\<in>user_used k. page_map k pd (va + of_nat i) = Some (kp, True)))
     \<and> inj_on (\<lambda>i. phys k pd (va + of_nat i)) {..<n}"

lemma buffer_ok_mono: "buffer_ok k pd va n \<Longrightarrow> i \<le> n \<Longrightarrow> buffer_ok k pd va i"
  unfolding buffer_ok_def using inj_on_subset [of _ "{..<n}" "{..<i}"] by auto

lemma buffer_ok_tail:
  assumes "buffer_ok k pd va (Suc n)"
  shows "buffer_ok k pd (va + 1) n" and "i < n \<Longrightarrow> phys k pd (va + 1 + of_nat i) \<noteq> phys k pd va"
proof -
  have e: "va + 1 + of_nat i = va + of_nat (Suc i)" for i by (simp add: add.assoc)
  have inj: "inj_on (\<lambda>i. phys k pd (va + of_nat i)) {..<Suc n}" using assms by (simp add: buffer_ok_def)
  have "inj_on ((\<lambda>i. phys k pd (va + of_nat i)) \<circ> Suc) {..<n}"
    by (rule comp_inj_on) (auto intro: inj_on_subset [OF inj])
  then have "inj_on (\<lambda>i. phys k pd (va + 1 + of_nat i)) {..<n}" unfolding e by (simp add: comp_def)
  then show "buffer_ok k pd (va + 1) n" using assms unfolding buffer_ok_def e by auto
  show "phys k pd (va + 1 + of_nat i) \<noteq> phys k pd va" if "i < n"
    using inj_onD [OF inj, of "Suc i" 0] that unfolding e by auto
qed

lemma uput_spec:
  assumes "wf_pd k pd" and "buffer_ok k pd va (length bs)"
  shows "\<exists>k'. uput pd va bs k = Inr k' \<and> wf_pd k' pd \<and> user_pool k' = user_pool k
     \<and> (\<forall>vb. is_user_vaddr vb \<longrightarrow> page_map k' pd vb = page_map k pd vb)
     \<and> (\<forall>i<length bs. ram_of k' (phys k pd (va + of_nat i)) = bs ! i)
     \<and> (\<forall>a. (\<forall>i<length bs. a \<noteq> phys k pd (va + of_nat i)) \<longrightarrow> ram_of k' a = ram_of k a)"
  using assms
proof (induction bs arbitrary: k va)
  case (Cons b bs)
  obtain kp where kp: "is_user_vaddr va" "kp \<in> user_used k" "page_map k pd va = Some (kp, True)"
    using Cons.prems(2) by (force simp: buffer_ok_def)
  have ph: "phys k pd va = kp + pg_ofs va" by (simp add: phys_def kp(3))
  let ?k = "k\<lparr>ram_of := (ram_of k)(kp + pg_ofs va := b)\<rparr>"
  have rd: "pg_round_down (kp + pg_ofs va) = kp"
    by (rule pg_round_down_page_plus [OF page_map_aligned [OF kp(3)]]) (simp add: unat_pg_ofs)
  then have "same_pages (- {kp}) k ?k" by (auto simp: same_pages_def)
  note w = wf_pd_data [OF Cons.prems(1) kp(2) this]
  have pm: "page_map ?k pd vb = page_map k pd vb" if "is_user_vaddr vb" for vb
    using page_map_pte [of ?k pd vb k vb] w(2) that by simp
  have up: "user_used ?k = user_used k" by simp
  note tl = buffer_ok_tail [OF Cons.prems(2) [unfolded list.size(4) add_Suc_right add_0_right]]
  have us: "is_user_vaddr (va + 1 + of_nat i)" if "i < length bs" for i using tl(1) that by (simp add: buffer_ok_def)
  have ph': "phys ?k pd (va + 1 + of_nat i) = phys k pd (va + 1 + of_nat i)" if "i < length bs" for i
    using pm [OF us [OF that]] by (simp add: phys_def)
  have "buffer_ok ?k pd (va + 1) (length bs)"
  proof -
    have "inj_on (\<lambda>i. phys ?k pd (va + 1 + of_nat i)) {..<length bs} \<longleftrightarrow> inj_on (\<lambda>i. phys k pd (va + 1 + of_nat i)) {..<length bs}"
      using ph' by (intro inj_on_cong) simp
    then show ?thesis using tl(1) pm us up unfolding buffer_ok_def by simp
  qed
  then obtain k' where k': "uput pd (va + 1) bs ?k = Inr k'" "wf_pd k' pd" "user_pool k' = user_pool ?k"
     "\<forall>vb. is_user_vaddr vb \<longrightarrow> page_map k' pd vb = page_map ?k pd vb"
     "\<forall>i<length bs. ram_of k' (phys ?k pd (va + 1 + of_nat i)) = bs ! i"
     "\<forall>a. (\<forall>i<length bs. a \<noteq> phys ?k pd (va + 1 + of_nat i)) \<longrightarrow> ram_of k' a = ram_of ?k a"
    using Cons.IH [of ?k "va + 1"] w(1) by auto
  have "uput pd va (b # bs) k = Inr k'" using k'(1) kp by (simp add: mmu_def)
  moreover have "ram_of k' (phys k pd (va + of_nat i)) = (b # bs) ! i" if "i < length (b # bs)" for i
  proof (cases i)
    case 0
    have "ram_of k' (phys k pd va) = ram_of ?k (phys k pd va)" using k'(6) tl(2) ph' by (metis (no_types, lifting))
    then show ?thesis using 0 ph by simp
  next
    case (Suc j)
    then show ?thesis using k'(5) ph' that by (simp add: add.assoc)
  qed
  moreover have "ram_of k' a = ram_of k a" if a: "\<forall>i<length (b # bs). a \<noteq> phys k pd (va + of_nat i)" for a
  proof -
    have "a \<noteq> phys k pd va" using a [rule_format, of 0] by simp
    moreover have "a \<noteq> phys ?k pd (va + 1 + of_nat i)" if "i < length bs" for i
      using a [rule_format, of "Suc i"] that ph' [OF that] by (simp add: add.assoc)
    ultimately show ?thesis using k'(6) ph by simp
  qed
  ultimately show ?case using k'(2-4) pm by (intro exI [of _ k']) auto
qed simp

lemma uget_phys:
  assumes "\<forall>i<n. mapped_user k pd (va + of_nat i)"
  shows "uget pd va n k = Inr (map (\<lambda>i. ram_of k (phys k pd (va + of_nat i))) [0..<n])"
  using assms
proof (induction n arbitrary: va)
  case (Suc n)
  have m: "\<forall>i<n. mapped_user k pd (va + 1 + of_nat i)"
  proof (intro allI impI)
    fix i assume "i < n"
    then show "mapped_user k pd (va + 1 + of_nat i)" using Suc.prems [rule_format, of "Suc i"] by (simp add: add.assoc)
  qed
  have "mapped_user k pd va" using Suc.prems [rule_format, of 0] by simp
  then have "mmu False pd va k = Inr (phys k pd va)" by (auto simp: mapped_user_def mmu_def phys_def)
  moreover have "map (\<lambda>i. ram_of k (phys k pd (va + of_nat i))) [0..<Suc n] =
      ram_of k (phys k pd va) # map (\<lambda>i. ram_of k (phys k pd (va + 1 + of_nat i))) [0..<n]"
    by (simp add: upt_conv_Cons map_Suc_upt [symmetric] add.assoc comp_def del: upt_Suc)
  ultimately show ?case using Suc.IH [OF m] by simp
qed simp

section \<open>Reading a file\<close>

lemma reading_cwd [simp]: "reading (s\<lparr>cwd := d\<rparr>) f c p = reading s f c p"
  by (simp add: reading_def fs_base_def file_at_def)

lemma uput_uget:
  assumes "wf_pd k pd" and "buffer_ok k pd va (length bs)"
  shows "\<exists>k'. uput pd va bs k = Inr k' \<and> wf_pd k' pd \<and> (\<forall>vb. is_user_vaddr vb \<longrightarrow> page_map k' pd vb = page_map k pd vb)
     \<and> uget pd va (length bs) k' = Inr bs"
proof -
  obtain k' where k': "uput pd va bs k = Inr k'" "wf_pd k' pd" "\<forall>vb. is_user_vaddr vb \<longrightarrow> page_map k' pd vb = page_map k pd vb"
     "\<forall>i<length bs. ram_of k' (phys k pd (va + of_nat i)) = bs ! i"
    using uput_spec [OF assms] by blast
  have us: "is_user_vaddr (va + of_nat i) \<and> page_map k pd (va + of_nat i) \<noteq> None" if "i < length bs" for i
    using assms(2) that unfolding buffer_ok_def by fastforce
  have "phys k' pd (va + of_nat i) = phys k pd (va + of_nat i)" if "i < length bs" for i
    using k'(3) us [OF that] by (simp add: phys_def)
  then have "map (\<lambda>i. ram_of k' (phys k' pd (va + of_nat i))) [0..<length bs] = bs"
    using k'(4) by (intro nth_equalityI) simp_all
  moreover have "\<forall>i<length bs. mapped_user k' pd (va + of_nat i)" using k'(3) us by (simp add: mapped_user_def)
  ultimately show ?thesis using uget_phys [of "length bs" k' pd va] k'(1-3) by auto
qed

text \<open>
  C12. Reading a file: \<^verbatim>\<open>read\<close> on a descriptor of a regular file, with a buffer that the process may
  write, returns the number of bytes up to the end of the file or the requested length; these
  bytes of the file are then in the buffer, the position has moved by their number, and no mapping
  of the process has changed.
\<close>

theorem read_delivers_file:
  assumes "thread_of c m = Inr cur" and "file_lock m = None" and "n \<noteq> 0" and "n \<noteq> 1" and "getfile cur n 0 = Some d"
    and "reading (fsys m) (fd_file d) content p" and "wf_pd (km m) (pagedir cur)" and "mapped_high (km m) (pagedir cur)"
    and "buf \<noteq> 0" and "\<forall>j<4. mapped_user (km m) (pagedir cur) (buf + of_nat j)"
    and "buffer_ok (km m) (pagedir cur) buf (unat len)" and "unat len < 2147483648" and "bs = take (unat len) (drop p content)"
  shows "\<exists>m'. sys_read keys c n buf len m = Inr (Value (of_nat (length bs)), m')
     \<and> uget (pagedir cur) buf (length bs) (km m') = Inr bs \<and> reading (fsys m') (fd_file d) content (p + length bs)
     \<and> file_lock m' = None \<and> (\<forall>va. is_user_vaddr va \<longrightarrow> page_map (km m') (pagedir cur) va = page_map (km m) (pagedir cur) va)"
proof -
  let ?pd = "pagedir cur" and ?s = "(fsys m)\<lparr>cwd := tcwd cur\<rparr>"
  have v: "validate_addr ?pd buf (km m) = Inr True"
    using filter_all_length [of "\<lambda>j. mapped_user (km m) ?pd (buf + of_nat j)" "[0..<4]"] valid_bytes_count [OF assms(7,8), of buf 0 4] assms(9,10)
    by (simp add: validate_addr_def del: valid_bytes.simps upt.simps)
  have "int (unat len) < 2147483648" using assms(12) by linarith
  then have len: "sint len = int (unat len)" using int_word_sint [of "int (unat len)", where ?'a = 32] by simp
  have "reading ?s (fd_file d) content p" using assms(6) by simp
  from file_read_reading [OF this, of "unat len"] obtain s' where
    s': "file_read (fd_file d) (sint len) ?s = Inr (bs, s')" "reading s' (fd_file d) content (p + length bs)"
    using len assms(13) by auto
  let ?m1 = "upd_thread c (\<lambda>t. t\<lparr>tcwd := cwd s'\<rparr>) (m\<lparr>fsys := s'\<rparr>)"
  have fs: "on_fs c (file_read (fd_file d) (sint len)) m = Inr (bs, ?m1)" using s'(1) assms(1) by (simp add: on_fs_def)
  have "buffer_ok (km m) ?pd buf (length bs)" by (rule buffer_ok_mono [OF assms(11)]) (simp add: assms(13))
  from uput_uget [OF assms(7) this] obtain k' where k': "uput ?pd buf bs (km m) = Inr k'"
    "\<forall>vb. is_user_vaddr vb \<longrightarrow> page_map k' ?pd vb = page_map (km m) ?pd vb" "uget ?pd buf (length bs) k' = Inr bs" by blast
  have "fd_file d \<noteq> NULL" using assms(6) by (simp add: reading_def)
  then have "sys_read keys c n buf len m = Inr (Value (of_nat (length bs)), ?m1\<lparr>km := k'\<rparr>)"
    using assms(1-5) v fs k'(1) by (simp add: sys_read_def checked_def locked_def)
  then show ?thesis using k'(2,3) s'(2) assms(2) by (intro exI [of _ "?m1\<lparr>km := k'\<rparr>"]) simp
qed

section \<open>A concrete process\<close>

definition demo_user :: uthread where
  "demo_user = demo_main\<lparr>pagedir := 0xc0101000, fd_list := [\<lparr>fd = 2, fd_file = 500, fd_dir = NULL\<rparr>], file_num := 3, pc_of := UserMode\<rparr>"

definition demo_process :: "kmem \<Rightarrow> machine" where
  "demo_process k = \<lparr>all_list = [demo_user], next_tid = 2, km = k, fsys = demo_exec, file_lock = None\<rparr>"

lemma demo_mapped:
  "\<exists>k. wf_pd k 0xc0101000 \<and> mapped_high k 0xc0101000 \<and> 0xc0200000 \<in> user_used k
     \<and> (\<forall>va. is_user_vaddr va \<longrightarrow> page_map k 0xc0101000 va = (if pg_round_down va = 0x8048000 then Some (0xc0200000, True) else None))"
proof -
  let ?pd = "0xc0101000 :: vaddr"
  have p0: "pte_of demo_pds ?pd 0x8048000 AND PTE_P = 0" by (simp add: demo_pd_empty)
  obtain ok k where k: "pagedir_set_page ?pd 0x8048000 0xc0200000 True demo_pds = Inr (ok, k)" "wf_pd k ?pd"
     "\<And>vb. is_user_vaddr vb \<Longrightarrow> pte_of k ?pd vb =
          (if ok \<and> pg_round_down vb = 0x8048000 then (0xc0200000 - PHYS_BASE) OR (if True then 7 else 5) else pte_of demo_pds ?pd vb)"
     "user_pool k = user_pool demo_pds" "\<not> ok \<longrightarrow> kernel_used demo_pds = pool_pages (kernel_pool demo_pds)"
    using pagedir_set_page_spec [OF wf_demo_pd(1) demo_args(4,1,2,3) p0, of True] by blast
  then have ok: "ok" using demo_kernel_free by blast
  have map: "page_map k ?pd va = (if pg_round_down va = 0x8048000 then Some (0xc0200000, True) else None)" if "is_user_vaddr va" for va
    using k(3) [OF that] ok page_map_new [OF demo_args(3), of k ?pd va True] demo_pd_empty [of ?pd va] page_map_pte [of k ?pd va demo_pds va]
    by (cases "pg_round_down va = 0x8048000") simp_all
  have "0 \<in> used_bits \<lparr>bit_cnt = 8, bits = [5]\<rparr>" by (simp add: used_bits_def bits_of_def)
  then have "0xc0200000 \<in> user_used k" by (force simp: k(4) demo_pds_def demo_kmem_def used_pages_def pool_page_def)
  moreover have "mapped_high k ?pd" using map by (simp add: mapped_high_def PHYS_BASE_def)
  ultimately show ?thesis using k(2) map by blast
qed

lemma demo_in_page:
  assumes "i < 4096"
  shows "pg_round_down (0x8048000 + of_nat i) = 0x8048000" and "is_user_vaddr (0x8048000 + of_nat i)" and "pg_ofs (0x8048000 + of_nat i) = of_nat i"
proof -
  have i: "unat (of_nat i :: 32 word) = i" using assms by (simp add: unat_of_nat)
  show r: "pg_round_down (0x8048000 + of_nat i) = 0x8048000" by (rule pg_round_down_page_plus [OF demo_args(1)]) (use i assms in simp)
  have "unat (0x8048000 + of_nat i :: 32 word) = 134512640 + i" using unat_page_plus [OF demo_args(1), of "of_nat i"] i assms by simp
  then show "is_user_vaddr (0x8048000 + of_nat i)" using assms by (simp add: is_user_vaddr_def word_less_nat_alt unat_PHYS_BASE)
  show "pg_ofs (0x8048000 + of_nat i) = of_nat i" using round_down_plus_ofs [of "0x8048000 + of_nat i"] r by simp
qed

theorem read_delivers_file_witness:
  "\<exists>k m'. sys_read [] 1 2 0x8048000 100 (demo_process k) = Inr (Value 20, m') \<and> uget 0xc0101000 0x8048000 20 (km m') = Inr (demo_link 1)"
proof -
  let ?pd = "0xc0101000 :: vaddr" and ?va = "0x8048000 :: vaddr"
  obtain k where k: "wf_pd k ?pd" "mapped_high k ?pd" "0xc0200000 \<in> user_used k"
     "\<And>va. is_user_vaddr va \<Longrightarrow> page_map k ?pd va = (if pg_round_down va = ?va then Some (0xc0200000, True) else None)"
    using demo_mapped by blast
  have pm: "page_map k ?pd (?va + of_nat i) = Some (0xc0200000, True)" if "i < 4096" for i
    using k(4) demo_in_page [OF that] by simp
  have ph: "phys k ?pd (?va + of_nat i) = 0xc0200000 + of_nat i" if "i < 4096" for i
    using pm [OF that] demo_in_page(3) [OF that] by (simp add: phys_def)
  have "inj_on (\<lambda>i. phys k ?pd (?va + of_nat i)) {..<100}"
  proof (rule inj_onI)
    fix i j :: nat assume "i \<in> {..<100}" "j \<in> {..<100}" "phys k ?pd (?va + of_nat i) = phys k ?pd (?va + of_nat j)"
    then have "(of_nat i :: 32 word) = of_nat j" "i < 100" "j < 100" using ph [of i] ph [of j] by simp_all
    then have "unat (of_nat i :: 32 word) = unat (of_nat j :: 32 word)" by simp
    then show "i = j" using \<open>i < 100\<close> \<open>j < 100\<close> by (simp only: unat_of_nat) simp
  qed
  then have b: "buffer_ok k ?pd ?va 100" using pm k(3) demo_in_page(2) by (auto simp: buffer_ok_def)
  have mu: "\<forall>j<4. mapped_user k ?pd (?va + of_nat j)" using pm demo_in_page(2) by (simp add: mapped_user_def)
  have t: "thread_of 1 (demo_process k) = Inr demo_user" "km (demo_process k) = k" "fsys (demo_process k) = demo_exec" "file_lock (demo_process k) = None"
    "pagedir demo_user = ?pd" "getfile demo_user 2 0 = Some \<lparr>fd = 2, fd_file = 500, fd_dir = NULL\<rparr>"
    by (simp_all add: demo_process_def thread_of_def demo_user_def demo_main_def getfile_def)
  have l: "length (demo_link 1) = 20" by (rule length_demo_link)
  have "\<exists>m'. sys_read [] 1 2 ?va 100 (demo_process k) = Inr (Value (of_nat (length (demo_link 1))), m')
     \<and> uget (pagedir demo_user) ?va (length (demo_link 1)) (km m') = Inr (demo_link 1) \<and> reading (fsys m') 500 (demo_link 1) (0 + length (demo_link 1))
     \<and> file_lock m' = None \<and> (\<forall>va. is_user_vaddr va \<longrightarrow> page_map (km m') (pagedir demo_user) va = page_map (km (demo_process k)) (pagedir demo_user) va)"
    using read_delivers_file [OF t(1,4) _ _ t(6), of "demo_link 1" 0 ?va 100 "demo_link 1" "[]"] k(1,2) b mu demo_exec_reading l t by simp
  then show ?thesis unfolding t(5) l by (intro exI [of _ k]) auto
qed

theorem validate_addr_correct_witness:
  "\<exists>k. validate_addr 0xc0101000 0x8048ffd k = Inr False \<and> validate_addr 0xc0101000 0x8048000 k = Inr True
     \<and> (\<exists>w. load_word 0xc0101000 0x8048000 k = Inr w)"
proof -
  let ?pd = "0xc0101000 :: vaddr"
  obtain k where k: "wf_pd k ?pd" "mapped_high k ?pd"
     "\<And>va. is_user_vaddr va \<Longrightarrow> page_map k ?pd va = (if pg_round_down va = 0x8048000 then Some (0xc0200000, True) else None)"
    using demo_mapped by blast
  have yes: "\<forall>j<4. mapped_user k ?pd (0x8048000 + of_nat j)" using k(3) demo_in_page(1,2) by (simp add: mapped_user_def)
  have "\<not> mapped_user k ?pd (0x8048ffd + of_nat 3)"
  proof -
    have "pg_round_down 0x8049000 = (0x8049000 :: vaddr)" by (rule aligned_round) (simp add: aligned_iff)
    then show ?thesis using k(3) [of "0x8049000"] by (simp add: mapped_user_def)
  qed
  moreover have "(3 :: nat) < 4" by simp
  ultimately have "\<not> (\<forall>j<4. mapped_user k ?pd (0x8048ffd + of_nat j))" by blast
  then show ?thesis
    using yes validate_addr_correct [OF k(1,2), of "0x8048ffd"] validate_addr_correct [OF k(1,2), of "0x8048000"] by (intro exI [of _ k]) simp
qed

text \<open>The root of the example file system can be opened by name.\<close>

lemma demo_open_root:
  "\<exists>f s fl. filesys_open [47] (demo_exec\<lparr>cwd := NULL\<rparr>) = Inr (f, s) \<and> f \<noteq> NULL \<and> files s f = Some fl \<and> f_inode fl = 200
     \<and> inodes s 200 = Some ((demo_inode 1 demo_file)\<lparr>open_cnt := 2\<rparr>)"
proof -
  obtain p where p: "strtok_r [47, 0] 0 [47, 0] = Inr (None, p, [47, 0])"
    using strtok_r_none [of "[47]" "[47]" "[]" "[]" "[]"] by auto
  show ?thesis
    by (simp add: filesys_open_def resolve_def name_resolution_def malloc_def demo_exec_def demo_fs_def name_loop.simps SLASH_def p
        dir_open_path_def path_loop.simps dir_open_root_def inode_open_def ROOT_DIR_SECTOR_def get_obj_def demo_inode_def
        inode_reopen_def set_inode_def dir_open_def dir_get_inode_def file_open_def)
qed

lemma demo_path:
  "\<exists>k. wf_pd k 0xc0101000 \<and> mapped_high k 0xc0101000 \<and> validate_addr 0xc0101000 0x8048000 k = Inr True
     \<and> user_string 0xc0101000 0x8048000 k = Inr [47]"
proof -
  let ?pd = "0xc0101000 :: vaddr" and ?va = "0x8048000 :: vaddr"
  obtain k where k: "wf_pd k ?pd" "mapped_high k ?pd" "0xc0200000 \<in> user_used k"
     "\<And>va. is_user_vaddr va \<Longrightarrow> page_map k ?pd va = (if pg_round_down va = ?va then Some (0xc0200000, True) else None)"
    using demo_mapped by blast
  have pm: "page_map k ?pd (?va + of_nat i) = Some (0xc0200000, True)" if "i < 4096" for i
    using k(4) demo_in_page [OF that] by simp
  have ph: "phys k ?pd (?va + of_nat i) = 0xc0200000 + of_nat i" if "i < 4096" for i
    using pm [OF that] demo_in_page(3) [OF that] by (simp add: phys_def)
  have "inj_on (\<lambda>i. phys k ?pd (?va + of_nat i)) {..<Suc (Suc 0)}"
    using ph [of 0] ph [of 1] by (auto simp: inj_on_def less_Suc_eq)
  then have b: "buffer_ok k ?pd ?va (length [47, 0 :: byte])" using pm k(3) demo_in_page(2) by (auto simp: buffer_ok_def)
  obtain k' where k': "wf_pd k' ?pd" "\<And>vb. is_user_vaddr vb \<Longrightarrow> page_map k' ?pd vb = page_map k ?pd vb"
     "\<And>i. i < 2 \<Longrightarrow> ram_of k' (phys k ?pd (?va + of_nat i)) = [47, 0] ! i"
    using uput_spec [OF k(1) b] by auto
  have pm': "page_map k' ?pd (?va + of_nat i) = Some (0xc0200000, True)" if "i < 4096" for i
    using k'(2) pm [OF that] demo_in_page(2) [OF that] by simp
  have "load_byte ?pd (?va + of_nat i) k' = Inr ([47, 0] ! i)" if "i < 2" for i
  proof -
    have "i < 4096" using that by simp
    then show ?thesis using pm' [of i] demo_in_page(2,3) [of i] ph [of i] k'(3) [OF that] by (simp add: load_byte_def mmu_def)
  qed
  from this [of 0] this [of 1] have "user_string ?pd ?va k' = Inr [47]" by (simp add: user_string.simps)
  moreover have "mapped_high k' ?pd" using k(2) k'(2) by (simp add: mapped_high_def)
  moreover have "validate_addr ?pd ?va k' = Inr True"
    using filter_all_length [of "\<lambda>j. mapped_user k' ?pd (?va + of_nat j)" "[0..<4]"] valid_bytes_count [OF k'(1) \<open>mapped_high k' ?pd\<close>, of ?va 0 4] pm' demo_in_page(2)
    by (simp add: validate_addr_def mapped_user_def del: valid_bytes.simps upt.simps)
  ultimately show ?thesis using k'(1) by blast
qed

theorem open_close_descriptors_witness:
  "\<exists>k m' t. sys_open 1 0x8048000 (demo_process k) = Inr (Value 3, m') \<and> thread_of 1 m' = Inr t \<and> fds_ok t \<and> getfile t 2 0 = getfile demo_user 2 0"
proof -
  obtain k where k: "validate_addr 0xc0101000 0x8048000 k = Inr True" "user_string 0xc0101000 0x8048000 k = Inr [47]"
    using demo_path by blast
  obtain f s fl where f: "filesys_open [47] (demo_exec\<lparr>cwd := NULL\<rparr>) = Inr (f, s)" "f \<noteq> NULL" "files s f = Some fl" "f_inode fl = 200"
     "inodes s 200 = Some ((demo_inode 1 demo_file)\<lparr>open_cnt := 2\<rparr>)"
    using demo_open_root by blast
  have t: "thread_of 1 (demo_process k) = Inr demo_user" "fds_ok demo_user" "file_num demo_user = 3"
    by (simp_all add: demo_process_def thread_of_def demo_user_def demo_main_def fds_ok_def)
  have d: "open_dir f (s\<lparr>cwd := x\<rparr>) = Inr (NULL, s\<lparr>cwd := x\<rparr>)" for x
    using f(2-5) by (simp add: open_dir_def file_get_inode_def get_obj_def demo_inode_def demo_file_def demo_disk_def)
  have "\<exists>m'. sys_open 1 0x8048000 (demo_process k) = Inr (Value 3, m')"
    using k f(1,2) d by (simp add: sys_open_def checked_def on_path_def locked_def on_fs_def add_fd_def thread_of_def upd_thread_def
        demo_process_def demo_user_def demo_main_def)
  then obtain m' where m': "sys_open 1 0x8048000 (demo_process k) = Inr (Value 3, m')" by blast
  obtain t' n where t': "thread_of 1 m' = Inr t'" "fds_ok t'" "(3 :: 32 word) = word_of_int n \<or> (3 :: 32 word) = -1"
    "fd_list t' = fd_list demo_user \<or> (\<forall>x k. x \<noteq> n \<longrightarrow> getfile t' x k = getfile demo_user x k)" "\<forall>k. fd_list t' \<noteq> fd_list demo_user \<longrightarrow> getfile demo_user n k = None"
    using open_close_descriptors [OF t(1,2) m'] by auto
  have "getfile t' 2 0 = getfile demo_user 2 0"
  proof (cases "fd_list t' = fd_list demo_user")
    case False
    then have "getfile demo_user n 0 = None" using t'(5) by blast
    then have "n \<noteq> 2" by (auto simp: getfile_def demo_user_def)
    then show ?thesis using t'(4) False by auto
  qed (simp add: getfile_def)
  then show ?thesis using m' t'(1,2) by blast
qed

end
