(* ===== verification/Base_File.thy ===== *)
theory Base_File
  imports File_Ops
begin

text \<open>
  The file system of projects 1 to 3 as virtual memory uses it: filesys/inode.c, filesys/free-map.c and
  filesys/file.c of project 3. A file is one extent of sectors that never grows; sectors are read and
  written directly on the block device. The records \<open>open_file\<close> of the files and the arithmetic on
  chunks are those of the file system of project 4, whose code is the same there.
\<close>

section \<open>State\<close>

record base_inode_disk =
  bstart :: nat
  blength :: int
  bmagic :: "32 word"

record base_inode =
  bsector :: nat
  bopen_cnt :: int
  bremoved :: bool
  bdeny_write_cnt :: int
  bdata :: base_inode_disk

record base_fs =
  bfs_device :: block
  bfree_map :: bitmap
  bfree_map_file :: addr
  binodes :: "addr \<rightharpoonup> base_inode"
  bopen_inodes :: "addr list"
  bfiles :: "addr \<rightharpoonup> open_file"
  ballocs :: "nat \<Rightarrow> addr"

definition base_encode :: "base_inode_disk \<Rightarrow> byte list" where
  "base_encode d = le_bytes32 (of_nat (bstart d)) @ le_bytes32 (word_of_int (blength d)) @ le_bytes32 (bmagic d) @ replicate 500 0"

definition base_decode :: "byte list \<Rightarrow> base_inode_disk" where
  "base_decode bs =
     \<lparr>bstart = unat (le_word32 bs), blength = sint (le_word32 (drop 4 bs)), bmagic = le_word32 (drop 8 bs)\<rparr>"

definition base_malloc :: "base_fs \<Rightarrow> addr \<times> base_fs" where
  "base_malloc s = (ballocs s 0, s\<lparr>ballocs := (\<lambda>n. ballocs s (Suc n))\<rparr>)"

definition base_set_inode :: "addr \<Rightarrow> (base_inode \<Rightarrow> base_inode) \<Rightarrow> base_fs \<Rightarrow> base_fs" where
  "base_set_inode a f s = s\<lparr>binodes := (binodes s)(a := map_option f (binodes s a))\<rparr>"

text \<open>\<^verbatim>\<open>block_read\<close> and \<^verbatim>\<open>block_write\<close> on \<^verbatim>\<open>fs_device\<close>.\<close>

definition bread :: "nat \<Rightarrow> base_fs \<Rightarrow> (byte list \<times> base_fs) res" where
  "bread sec s = bind_res (block_read (bfs_device s) sec) (\<lambda>(d, b). Inr (d, s\<lparr>bfs_device := b\<rparr>))"

definition bwrite :: "nat \<Rightarrow> byte list \<Rightarrow> base_fs \<Rightarrow> base_fs res" where
  "bwrite sec d s = bind_res (block_write (bfs_device s) sec d) (\<lambda>b. Inr (s\<lparr>bfs_device := b\<rparr>))"

section \<open>Reading and writing\<close>

text \<open>The sector is computed on 32-bit integers.\<close>

definition base_byte_to_sector :: "addr \<Rightarrow> int \<Rightarrow> base_fs \<Rightarrow> nat res" where
  "base_byte_to_sector inode pos s =
     bind_res (assert_res (inode \<noteq> NULL)) (\<lambda>_.
     bind_res (get_obj (binodes s) inode) (\<lambda>i.
     if pos < blength (bdata i)
     then Inr (unat (of_nat (bstart (bdata i)) + word_of_int (cdiv pos (int BLOCK_SECTOR_SIZE)) :: 32 word))
     else Inr NO_SECTOR))"

definition base_inode_length :: "addr \<Rightarrow> base_fs \<Rightarrow> int res" where
  "base_inode_length inode s = bind_res (get_obj (binodes s) inode) (\<lambda>i. Inr (blength (bdata i)))"

definition base_bounce :: "bool \<Rightarrow> base_fs \<Rightarrow> bool \<times> base_fs" where
  "base_bounce bounce s = (if bounce then (True, s) else let (p, s) = base_malloc s in (p \<noteq> NULL, s))"

definition base_read_chunk :: "addr \<Rightarrow> int \<Rightarrow> int \<Rightarrow> bool \<Rightarrow> base_fs \<Rightarrow> (int \<times> byte list \<times> bool \<times> base_fs) res" where
  "base_read_chunk inode sz offset bounce s =
     bind_res (base_byte_to_sector inode offset s) (\<lambda>sector_idx.
     bind_res (base_inode_length inode s) (\<lambda>len.
     let sector_ofs = cmod offset (int BLOCK_SECTOR_SIZE); chunk_size = chunk sz offset len in
     if chunk_size \<le> 0 then Inr (0, [], bounce, s)
     else if sector_ofs = 0 \<and> chunk_size = int BLOCK_SECTOR_SIZE
     then bind_res (bread sector_idx s) (\<lambda>(d, s). Inr (chunk_size, d, bounce, s))
     else let (ok, s) = base_bounce bounce s in
       if \<not> ok then Inr (0, [], False, s)
       else bind_res (bread sector_idx s) (\<lambda>(d, s).
            Inr (chunk_size, take (nat chunk_size) (drop (nat sector_ofs) d), True, s))))"

text \<open>The loop collects the bytes that the source stores in the caller's buffer.\<close>

function base_read_loop :: "addr \<Rightarrow> int \<Rightarrow> int \<Rightarrow> bool \<Rightarrow> byte list \<Rightarrow> base_fs \<Rightarrow> (byte list \<times> base_fs) res" where
  "base_read_loop inode sz offset bounce acc s =
     (if sz > 0 then
        bind_res (base_read_chunk inode sz offset bounce s) (\<lambda>(chunk_size, d, bounce, s).
        if chunk_size \<le> 0 then Inr (acc, s)
        else base_read_loop inode (sz - chunk_size) (offset + chunk_size) bounce (acc @ d) s)
      else Inr (acc, s))"
  by pat_completeness auto
termination by (relation "measure (\<lambda>(_, sz, _). nat sz)") auto

declare base_read_loop.simps [simp del]

definition base_inode_read_at :: "addr \<Rightarrow> int \<Rightarrow> int \<Rightarrow> base_fs \<Rightarrow> (byte list \<times> base_fs) res" where
  "base_inode_read_at inode sz offset s = base_read_loop inode sz offset False [] s"

definition base_write_chunk :: "addr \<Rightarrow> byte list \<Rightarrow> int \<Rightarrow> int \<Rightarrow> bool \<Rightarrow> base_fs \<Rightarrow> (int \<times> bool \<times> base_fs) res" where
  "base_write_chunk inode buf sz offset bounce s =
     bind_res (base_byte_to_sector inode offset s) (\<lambda>sector_idx.
     bind_res (base_inode_length inode s) (\<lambda>len.
     let sector_ofs = cmod offset (int BLOCK_SECTOR_SIZE);
         sector_left = int BLOCK_SECTOR_SIZE - sector_ofs;
         chunk_size = chunk sz offset len in
     if chunk_size \<le> 0 then Inr (0, bounce, s)
     else if sector_ofs = 0 \<and> chunk_size = int BLOCK_SECTOR_SIZE
     then bind_res (bwrite sector_idx (take BLOCK_SECTOR_SIZE buf) s) (\<lambda>s. Inr (chunk_size, bounce, s))
     else let (ok, s) = base_bounce bounce s in
       if \<not> ok then Inr (0, False, s)
       else bind_res (if sector_ofs > 0 \<or> chunk_size < sector_left then bread sector_idx s else Inr (zeros, s)) (\<lambda>(d, s).
            let d = take (nat sector_ofs) d @ take (nat chunk_size) buf @ drop (nat (sector_ofs + chunk_size)) d in
            bind_res (bwrite sector_idx d s) (\<lambda>s. Inr (chunk_size, True, s)))))"

text \<open>\<open>buf\<close> is the part of the caller's buffer that is still to be written.\<close>

function base_write_loop :: "addr \<Rightarrow> byte list \<Rightarrow> int \<Rightarrow> int \<Rightarrow> bool \<Rightarrow> int \<Rightarrow> base_fs \<Rightarrow> (int \<times> base_fs) res" where
  "base_write_loop inode buf sz offset bounce bytes_written s =
     (if sz > 0 then
        bind_res (base_write_chunk inode buf sz offset bounce s) (\<lambda>(chunk_size, bounce, s).
        if chunk_size \<le> 0 then Inr (bytes_written, s)
        else base_write_loop inode (drop (nat chunk_size) buf) (sz - chunk_size) (offset + chunk_size) bounce
               (bytes_written + chunk_size) s)
      else Inr (bytes_written, s))"
  by pat_completeness auto
termination by (relation "measure (\<lambda>(_, _, sz, _). nat sz)") auto

declare base_write_loop.simps [simp del]

definition base_inode_write_at :: "addr \<Rightarrow> byte list \<Rightarrow> int \<Rightarrow> int \<Rightarrow> base_fs \<Rightarrow> (int \<times> base_fs) res" where
  "base_inode_write_at inode buf sz offset s =
     bind_res (get_obj (binodes s) inode) (\<lambda>i.
     if bdeny_write_cnt i \<noteq> 0 then Inr (0, s) else base_write_loop inode buf sz offset False 0 s)"

section \<open>The free map\<close>

text \<open>\<^verbatim>\<open>bitmap_write (free_map, free_map_file)\<close>, through \<^verbatim>\<open>file_write_at\<close>.\<close>

definition base_save :: "base_fs \<Rightarrow> (bool \<times> base_fs) res" where
  "base_save s =
     bind_res (get_obj (bfiles s) (bfree_map_file s)) (\<lambda>f.
     let img = fst (bitmap_write (bfree_map s) 0) in
     bind_res (base_inode_write_at (f_inode f) img (int (byte_cnt (bit_cnt (bfree_map s)))) 0 s) (\<lambda>(written, s).
     Inr (snd (bitmap_write (bfree_map s) (nat written)), s)))"

definition base_free_map_allocate :: "nat \<Rightarrow> base_fs \<Rightarrow> (bool \<times> nat \<times> base_fs) res" where
  "base_free_map_allocate cnt s =
     bind_res (bitmap_scan_and_flip (bfree_map s) 0 cnt False) (\<lambda>(sec, m).
     let s = s\<lparr>bfree_map := m\<rparr> in
     if sec \<noteq> BITMAP_ERROR \<and> bfree_map_file s \<noteq> NULL
     then bind_res (base_save s) (\<lambda>(ok, s).
          if ok then Inr (True, sec, s)
          else bind_res (bitmap_set_multiple (bfree_map s) sec cnt False) (\<lambda>m.
               Inr (False, BITMAP_ERROR, s\<lparr>bfree_map := m\<rparr>)))
     else Inr (sec \<noteq> BITMAP_ERROR, sec, s))"

definition base_free_map_release :: "nat \<Rightarrow> nat \<Rightarrow> base_fs \<Rightarrow> base_fs res" where
  "base_free_map_release sec cnt s =
     bind_res (bitmap_all (bfree_map s) sec cnt) (\<lambda>all.
     bind_res (assert_res all) (\<lambda>_.
     bind_res (bitmap_set_multiple (bfree_map s) sec cnt False) (\<lambda>m.
     bind_res (base_save (s\<lparr>bfree_map := m\<rparr>)) (\<lambda>(_, s). Inr s))))"

section \<open>Creating, opening and closing\<close>

definition base_inode_init :: "base_fs \<Rightarrow> base_fs" where
  "base_inode_init s = s\<lparr>bopen_inodes := []\<rparr>"

fun clear_sectors :: "nat \<Rightarrow> nat \<Rightarrow> base_fs \<Rightarrow> base_fs res" where
  "clear_sectors sec 0 s = Inr s"
| "clear_sectors sec (Suc n) s = bind_res (bwrite sec zeros s) (clear_sectors (sec + 1) n)"

definition base_inode_create :: "nat \<Rightarrow> int \<Rightarrow> base_fs \<Rightarrow> (bool \<times> base_fs) res" where
  "base_inode_create sec len s =
     bind_res (assert_res (len \<ge> 0)) (\<lambda>_.
     let (p, s) = base_malloc s in
     if p = NULL then Inr (False, s)
     else
       let sectors = bytes_to_sectors len in
       bind_res (base_free_map_allocate sectors s) (\<lambda>(ok, st, s).
       if ok
       then bind_res (bwrite sec (base_encode \<lparr>bstart = st, blength = len, bmagic = INODE_MAGIC\<rparr>) s) (\<lambda>s.
            bind_res (clear_sectors st sectors s) (\<lambda>s. Inr (True, s)))
       else Inr (False, s)))"

definition base_inode_reopen :: "addr \<Rightarrow> base_fs \<Rightarrow> (addr \<times> base_fs) res" where
  "base_inode_reopen inode s =
     (if inode = NULL then Inr (inode, s)
      else bind_res (get_obj (binodes s) inode) (\<lambda>_.
           Inr (inode, base_set_inode inode (\<lambda>i. i\<lparr>bopen_cnt := bopen_cnt i + 1\<rparr>) s)))"

fun base_find_open :: "(addr \<rightharpoonup> base_inode) \<Rightarrow> nat \<Rightarrow> addr list \<Rightarrow> addr option res" where
  "base_find_open h sec [] = Inr None"
| "base_find_open h sec (a # as) =
     bind_res (get_obj h a) (\<lambda>i. if bsector i = sec then Inr (Some a) else base_find_open h sec as)"

definition base_inode_open :: "nat \<Rightarrow> base_fs \<Rightarrow> (addr \<times> base_fs) res" where
  "base_inode_open sec s =
     bind_res (base_find_open (binodes s) sec (bopen_inodes s)) (\<lambda>r.
     case r of
       Some a \<Rightarrow> base_inode_reopen a s
     | None \<Rightarrow>
         let (a, s) = base_malloc s in
         if a = NULL then Inr (NULL, s)
         else
           let s = s\<lparr>bopen_inodes := a # bopen_inodes s\<rparr> in
           bind_res (bread sec s) (\<lambda>(d, s).
           Inr (a, s\<lparr>binodes := (binodes s)(a \<mapsto> \<lparr>bsector = sec, bopen_cnt = 1, bremoved = False,
                     bdeny_write_cnt = 0, bdata = base_decode d\<rparr>)\<rparr>)))"

definition base_inode_get_inumber :: "addr \<Rightarrow> base_fs \<Rightarrow> nat res" where
  "base_inode_get_inumber inode s = bind_res (get_obj (binodes s) inode) (\<lambda>i. Inr (bsector i))"

definition base_inode_close :: "addr \<Rightarrow> base_fs \<Rightarrow> base_fs res" where
  "base_inode_close inode s =
     (if inode = NULL then Inr s
      else bind_res (get_obj (binodes s) inode) (\<lambda>i.
        let s = base_set_inode inode (\<lambda>i. i\<lparr>bopen_cnt := bopen_cnt i - 1\<rparr>) s in
        if bopen_cnt i - 1 = 0 then
          let s = s\<lparr>bopen_inodes := remove1 inode (bopen_inodes s)\<rparr> in
          bind_res
            (if bremoved i
             then bind_res (base_free_map_release (bsector i) 1 s) (\<lambda>s.
                  base_free_map_release (bstart (bdata i)) (bytes_to_sectors (blength (bdata i))) s)
             else Inr s) (\<lambda>s.
          Inr (s\<lparr>binodes := (binodes s)(inode := None)\<rparr>))
        else Inr s))"

definition base_inode_remove :: "addr \<Rightarrow> base_fs \<Rightarrow> base_fs res" where
  "base_inode_remove inode s =
     bind_res (assert_res (inode \<noteq> NULL)) (\<lambda>_.
     bind_res (get_obj (binodes s) inode) (\<lambda>_. Inr (base_set_inode inode (\<lambda>i. i\<lparr>bremoved := True\<rparr>) s)))"

definition base_inode_deny_write :: "addr \<Rightarrow> base_fs \<Rightarrow> base_fs res" where
  "base_inode_deny_write inode s =
     bind_res (get_obj (binodes s) inode) (\<lambda>i.
     bind_res (assert_res (bdeny_write_cnt i + 1 \<le> bopen_cnt i)) (\<lambda>_.
     Inr (base_set_inode inode (\<lambda>i. i\<lparr>bdeny_write_cnt := bdeny_write_cnt i + 1\<rparr>) s)))"

definition base_inode_allow_write :: "addr \<Rightarrow> base_fs \<Rightarrow> base_fs res" where
  "base_inode_allow_write inode s =
     bind_res (get_obj (binodes s) inode) (\<lambda>i.
     bind_res (assert_res (bdeny_write_cnt i > 0)) (\<lambda>_.
     bind_res (assert_res (bdeny_write_cnt i \<le> bopen_cnt i)) (\<lambda>_.
     Inr (base_set_inode inode (\<lambda>i. i\<lparr>bdeny_write_cnt := bdeny_write_cnt i - 1\<rparr>) s))))"

section \<open>Open files\<close>

definition base_set_file :: "addr \<Rightarrow> (open_file \<Rightarrow> open_file) \<Rightarrow> base_fs \<Rightarrow> base_fs" where
  "base_set_file a f s = s\<lparr>bfiles := (bfiles s)(a := map_option f (bfiles s a))\<rparr>"

definition base_file_open :: "addr \<Rightarrow> base_fs \<Rightarrow> (addr \<times> base_fs) res" where
  "base_file_open inode s =
     (let (p, s) = base_malloc s in
      if inode \<noteq> NULL \<and> p \<noteq> NULL
      then Inr (p, s\<lparr>bfiles := (bfiles s)(p \<mapsto> \<lparr>f_inode = inode, f_pos = 0, deny_write = False\<rparr>)\<rparr>)
      else bind_res (base_inode_close inode s) (\<lambda>s. Inr (NULL, s)))"

definition base_file_reopen :: "addr \<Rightarrow> base_fs \<Rightarrow> (addr \<times> base_fs) res" where
  "base_file_reopen f s =
     bind_res (get_obj (bfiles s) f) (\<lambda>fl.
     bind_res (base_inode_reopen (f_inode fl) s) (\<lambda>(inode, s). base_file_open inode s))"

definition base_file_allow_write :: "addr \<Rightarrow> base_fs \<Rightarrow> base_fs res" where
  "base_file_allow_write f s =
     bind_res (assert_res (f \<noteq> NULL)) (\<lambda>_.
     bind_res (get_obj (bfiles s) f) (\<lambda>fl.
     if deny_write fl
     then base_inode_allow_write (f_inode fl) (base_set_file f (\<lambda>fl. fl\<lparr>deny_write := False\<rparr>) s)
     else Inr s))"

definition base_file_close :: "addr \<Rightarrow> base_fs \<Rightarrow> base_fs res" where
  "base_file_close f s =
     (if f \<noteq> NULL then
        bind_res (base_file_allow_write f s) (\<lambda>s.
        bind_res (get_obj (bfiles s) f) (\<lambda>fl.
        bind_res (base_inode_close (f_inode fl) s) (\<lambda>s. Inr (s\<lparr>bfiles := (bfiles s)(f := None)\<rparr>))))
      else Inr s)"

definition base_file_read :: "addr \<Rightarrow> int \<Rightarrow> base_fs \<Rightarrow> (byte list \<times> base_fs) res" where
  "base_file_read f sz s =
     bind_res (get_obj (bfiles s) f) (\<lambda>fl.
     bind_res (base_inode_read_at (f_inode fl) sz (f_pos fl) s) (\<lambda>(d, s).
     Inr (d, base_set_file f (\<lambda>fl. fl\<lparr>f_pos := f_pos fl + int (length d)\<rparr>) s)))"

definition base_file_read_at :: "addr \<Rightarrow> int \<Rightarrow> int \<Rightarrow> base_fs \<Rightarrow> (byte list \<times> base_fs) res" where
  "base_file_read_at f sz file_ofs s =
     bind_res (get_obj (bfiles s) f) (\<lambda>fl. base_inode_read_at (f_inode fl) sz file_ofs s)"

definition base_file_write_at :: "addr \<Rightarrow> byte list \<Rightarrow> int \<Rightarrow> int \<Rightarrow> base_fs \<Rightarrow> (int \<times> base_fs) res" where
  "base_file_write_at f buf sz file_ofs s =
     bind_res (get_obj (bfiles s) f) (\<lambda>fl. base_inode_write_at (f_inode fl) buf sz file_ofs s)"

definition base_file_length :: "addr \<Rightarrow> base_fs \<Rightarrow> int res" where
  "base_file_length f s =
     bind_res (assert_res (f \<noteq> NULL)) (\<lambda>_. bind_res (get_obj (bfiles s) f) (\<lambda>fl. base_inode_length (f_inode fl) s))"

end
