(* ===== verification/Frame_Table.thy ===== *)
theory Frame_Table
  imports Base_File Swap User_Stack Hash_Table
begin

unbundle bit_operations_syntax

text \<open>
  The frame table, vm/frame.c (project 3), on the state of virtual memory: the page allocator, swap
  space, the file system, the frame table and the supplemental page table entries. Entries of the
  supplemental page tables are objects of the kernel heap, found by address; a missing entry is memory
  that has been freed. The routines run under \<^verbatim>\<open>frame_lock\<close> and are atomic. The locks of the entries
  and the lock of the file system are kept, since the code can leave them held: acquiring a lock that
  the thread holds fails an assertion, acquiring a lock that nobody will release does not return.
\<close>

section \<open>State\<close>

record vlock =
  lk_value :: "32 word"
  lk_holder :: "int option"

definition vlock_init :: vlock where
  "vlock_init = \<lparr>lk_value = 1, lk_holder = None\<rparr>"

definition vlock_acquire :: "int \<Rightarrow> vlock \<Rightarrow> vlock res" where
  "vlock_acquire cur l =
     bind_res (assert_res (lk_holder l \<noteq> Some cur)) (\<lambda>_.
     if lk_value l = 0 then Inl NoReturn else Inr \<lparr>lk_value = lk_value l - 1, lk_holder = Some cur\<rparr>)"

definition vlock_release :: "int \<Rightarrow> vlock \<Rightarrow> vlock res" where
  "vlock_release cur l =
     bind_res (assert_res (lk_holder l = Some cur)) (\<lambda>_. Inr \<lparr>lk_value = lk_value l + 1, lk_holder = None\<rparr>)"

definition type_mmap :: int where "type_mmap = 1"
definition type_file :: int where "type_file = 2"
definition type_swap :: int where "type_swap = 3"

record spte =
  sp_file :: addr
  sp_type :: int
  sp_addr :: vaddr
  sp_offset :: int
  sp_read_bytes :: "32 word"
  sp_zero_bytes :: "32 word"
  sp_writable :: bool
  sp_free :: bool
  sp_swap_idx :: nat
  sp_timestamp :: int
  sp_lock :: vlock

record frame_tab_entry =
  ft_frame :: vaddr
  ft_spte :: addr
  ft_owner :: int

record mmap_entry =
  mmap_id :: int
  uvaddr :: vaddr
  mmap_file :: addr
  page_num :: "32 word"

text \<open>
  The elements of a supplemental page table: the page, which does not change while the entry is in the
  table, and the address of the entry.
\<close>

type_synonym page_elem = "vaddr \<times> addr"

record vthread =
  vt_pagedir :: vaddr
  suppl_page_table :: "page_elem hash"
  mmap_list :: "mmap_entry list"
  mmap_num :: int
  vt_files :: "(int \<times> addr) list"

text \<open>
  \<open>vm_allocs\<close> is the sequence of the addresses that \<^verbatim>\<open>malloc\<close> will return, null for a failure, and
  \<open>vm_junk\<close> what the memory of a new page entry holds. \<open>uesp\<close> is the stack pointer of the user program
  at the last system call.
\<close>

record vm =
  vmem :: kmem
  vswap :: swap_state
  vfs :: base_fs
  vfile_lock :: vlock
  frame_table :: "frame_tab_entry list"
  sptes :: "addr \<rightharpoonup> spte"
  vthreads :: "int \<rightharpoonup> vthread"
  vcur :: int
  vticks :: int
  uesp :: vaddr
  vm_allocs :: "nat \<Rightarrow> addr"
  vm_junk :: "nat \<Rightarrow> spte"

definition vmalloc :: "vm \<Rightarrow> addr \<times> vm" where
  "vmalloc s = (vm_allocs s 0, s\<lparr>vm_allocs := (\<lambda>n. vm_allocs s (Suc n))\<rparr>)"

definition set_spte :: "addr \<Rightarrow> (spte \<Rightarrow> spte) \<Rightarrow> vm \<Rightarrow> vm" where
  "set_spte a f s = s\<lparr>sptes := (sptes s)(a := map_option f (sptes s a))\<rparr>"

definition set_vthread :: "int \<Rightarrow> (vthread \<Rightarrow> vthread) \<Rightarrow> vm \<Rightarrow> vm" where
  "set_vthread c f s = s\<lparr>vthreads := (vthreads s)(c := map_option f (vthreads s c))\<rparr>"

definition vthread_of :: "int \<Rightarrow> vm \<Rightarrow> vthread res" where
  "vthread_of c s = (case vthreads s c of None \<Rightarrow> Inl NullDeref | Some t \<Rightarrow> Inr t)"

definition lock_spte :: "addr \<Rightarrow> vm \<Rightarrow> vm res" where
  "lock_spte a s =
     bind_res (get_obj (sptes s) a) (\<lambda>e.
     bind_res (vlock_acquire (vcur s) (sp_lock e)) (\<lambda>l. Inr (set_spte a (\<lambda>e. e\<lparr>sp_lock := l\<rparr>) s)))"

definition unlock_spte :: "addr \<Rightarrow> vm \<Rightarrow> vm res" where
  "unlock_spte a s =
     bind_res (get_obj (sptes s) a) (\<lambda>e.
     bind_res (vlock_release (vcur s) (sp_lock e)) (\<lambda>l. Inr (set_spte a (\<lambda>e. e\<lparr>sp_lock := l\<rparr>) s)))"

text \<open>A call to the file system under \<^verbatim>\<open>file_lock\<close>.\<close>

definition with_file_lock :: "(base_fs \<Rightarrow> ('a \<times> base_fs) res) \<Rightarrow> vm \<Rightarrow> ('a \<times> vm) res" where
  "with_file_lock f s =
     bind_res (vlock_acquire (vcur s) (vfile_lock s)) (\<lambda>l.
     bind_res (f (vfs s)) (\<lambda>(x, fs).
     bind_res (vlock_release (vcur s) l) (\<lambda>l. Inr (x, s\<lparr>vfs := fs, vfile_lock := l\<rparr>))))"

section \<open>Eviction\<close>

definition vm_frame_table_init :: "vm \<Rightarrow> vm" where
  "vm_frame_table_init s = s\<lparr>frame_table := []\<rparr>"

fun unaccessed_loop :: "frame_tab_entry list \<Rightarrow> vm \<Rightarrow> (frame_tab_entry option \<times> vm) res" where
  "unaccessed_loop [] s = Inr (None, s)"
| "unaccessed_loop (f # fs) s =
     bind_res (get_obj (sptes s) (ft_spte f)) (\<lambda>e.
     bind_res (vthread_of (vcur s) s) (\<lambda>t.
     bind_res (pagedir_is_accessed (vt_pagedir t) (sp_addr e) (vmem s)) (\<lambda>accessed.
     if \<not> accessed then Inr (Some f, s)
     else unaccessed_loop fs (set_spte (ft_spte f) (\<lambda>e. e\<lparr>sp_timestamp := vticks s\<rparr>) s))))"

definition find_unaccessed_page :: "vm \<Rightarrow> (frame_tab_entry option \<times> vm) res" where
  "find_unaccessed_page s = unaccessed_loop (frame_table s) s"

fun longest_loop :: "frame_tab_entry list \<Rightarrow> int \<Rightarrow> frame_tab_entry option \<Rightarrow> vm \<Rightarrow> frame_tab_entry option res" where
  "longest_loop [] first_begin_time first_begin_entry s = Inr first_begin_entry"
| "longest_loop (f # fs) first_begin_time first_begin_entry s =
     bind_res (get_obj (sptes s) (ft_spte f)) (\<lambda>e.
     if sp_timestamp e < first_begin_time
     then longest_loop fs (sp_timestamp e) (Some f) s
     else longest_loop fs first_begin_time first_begin_entry s)"

definition find_longest_time_page :: "vm \<Rightarrow> frame_tab_entry option res" where
  "find_longest_time_page s = longest_loop (frame_table s) INT64_MAX None s"

text \<open>
  Saving the page of the frame \<open>f\<close>. The dirty bit is looked up, and the bytes for the file are read, in
  the address space of the running thread.
\<close>

definition save_page :: "frame_tab_entry \<Rightarrow> vm \<Rightarrow> vm res" where
  "save_page f s =
     bind_res (vthread_of (vcur s) s) (\<lambda>cur.
     bind_res (get_obj (sptes s) (ft_spte f)) (\<lambda>evi.
     bind_res (pagedir_is_dirty (vt_pagedir cur) (sp_addr evi) (vmem s)) (\<lambda>dirty.
     if dirty \<and> sp_type evi = type_mmap
     then bind_res (with_file_lock (\<lambda>fs.
            bind_res (uget (vt_pagedir cur) (sp_addr evi) (unat (sp_read_bytes evi)) (vmem s)) (\<lambda>buf.
            base_file_write_at (sp_file evi) buf (sint (sp_read_bytes evi)) (sp_offset evi) fs)) s) (\<lambda>(_, s). Inr s)
     else
       let s = set_spte (ft_spte f) (\<lambda>e. e\<lparr>sp_type := type_swap\<rparr>) s in
       bind_res (swap_out (ft_frame f) (vswap s) (vmem s)) (\<lambda>(i, sw).
       Inr (set_spte (ft_spte f) (\<lambda>e. e\<lparr>sp_swap_idx := i\<rparr>) (s\<lparr>vswap := sw\<rparr>))))))"

definition do_evict_frame :: "addr \<Rightarrow> frame_tab_entry \<Rightarrow> vm \<Rightarrow> (vaddr \<times> vm) res" where
  "do_evict_frame e f s =
     bind_res (assert_res (e \<noteq> NULL)) (\<lambda>_.
     bind_res (lock_spte e s) (\<lambda>s.
     bind_res (get_obj (sptes s) (ft_spte f)) (\<lambda>evi.
     bind_res (save_page f s) (\<lambda>s.
     bind_res (vthread_of (ft_owner f) s) (\<lambda>owner.
     bind_res (pagedir_clear_page (vt_pagedir owner) (sp_addr evi) (vmem s)) (\<lambda>m.
     let s = s\<lparr>vmem := m\<lparr>ram_of := memset_ram (ram_of m) (ft_frame f) 0 PGSIZE\<rparr>,
               frame_table := remove1 f (frame_table s)\<rparr>;
         (p, s) = vmalloc s
     in if p = NULL then Inl NullDeref
        else
          let s = s\<lparr>frame_table := frame_table s @ [\<lparr>ft_frame = ft_frame f, ft_spte = e, ft_owner = vcur s\<rparr>]\<rparr> in
          bind_res (unlock_spte e s) (\<lambda>s. Inr (ft_frame f, s))))))))"

definition try_evict_frame :: "addr \<Rightarrow> vm \<Rightarrow> (vaddr \<times> vm) res" where
  "try_evict_frame e s =
     bind_res (find_unaccessed_page s) (\<lambda>(f, s).
     case f of
       Some f \<Rightarrow> do_evict_frame e f s
     | None \<Rightarrow>
         bind_res (find_longest_time_page s) (\<lambda>f.
         case f of Some f \<Rightarrow> do_evict_frame e f s | None \<Rightarrow> Inr (0, s)))"

section \<open>Frames\<close>

definition vm_get_frame :: "32 word \<Rightarrow> addr \<Rightarrow> vm \<Rightarrow> (vaddr \<times> vm) res" where
  "vm_get_frame flags e s =
     (if flags AND PAL_USER = 0 then Inr (0, s)
      else bind_res (palloc_get_page flags (vmem s)) (\<lambda>(frame, m).
        let s = s\<lparr>vmem := m\<rparr> in
        if frame = 0 then try_evict_frame e s
        else
          let (p, s) = vmalloc s in
          if p = NULL then Inr (0, s)
          else Inr (frame, s\<lparr>frame_table := \<lparr>ft_frame = frame, ft_spte = e, ft_owner = vcur s\<rparr> # frame_table s\<rparr>)))"

text \<open>The first entry with the frame, and the table without it.\<close>

fun remove_frame :: "vaddr \<Rightarrow> frame_tab_entry list \<Rightarrow> (bool \<times> frame_tab_entry list)" where
  "remove_frame frame [] = (False, [])"
| "remove_frame frame (f # fs) =
     (if ft_frame f = frame then (True, fs) else let (found, fs) = remove_frame frame fs in (found, f # fs))"

definition vm_free_frame :: "vaddr \<Rightarrow> vm \<Rightarrow> vm res" where
  "vm_free_frame frame s =
     (if frame \<noteq> 0 then
        let (found, ft) = remove_frame frame (frame_table s) in
        if found
        then bind_res (palloc_free_page frame (vmem s)) (\<lambda>m. Inr (s\<lparr>frame_table := ft, vmem := m\<rparr>))
        else Inr s
      else Inr s)"

definition vm_clear_process_frame_table :: "int \<Rightarrow> vm \<Rightarrow> vm" where
  "vm_clear_process_frame_table pid s =
     (if pid \<noteq> 0 then s\<lparr>frame_table := filter (\<lambda>f. ft_owner f \<noteq> pid) (frame_table s)\<rparr> else s)"

end
