(* ===== verification/Suppl_Page.thy ===== *)
theory Suppl_Page
  imports Frame_Table
begin

unbundle bit_operations_syntax

text \<open>
  Supplemental page tables and memory-mapped files (project 3): vm/page.c, vm/mmap.c, the page fault
  handler of userprog/exception.c, the calls \<^verbatim>\<open>mmap\<close> and \<^verbatim>\<open>munmap\<close> and the check of read buffers of
  userprog/syscall.c, and what process.c does with virtual memory. A call that ends the process
  returns after the resources of virtual memory have been given back. The outcome of the allocation
  inside a hash table operation is one element of the sequence \<open>vm_allocs\<close>.
\<close>

section \<open>Tables\<close>

definition page_hash :: "page_elem \<Rightarrow> 32 word" where
  "page_hash e = (case hash_bytes (le_bytes32 (fst e)) 4 of Inr h \<Rightarrow> h | Inl _ \<Rightarrow> 0)"

definition page_less :: "page_elem \<Rightarrow> page_elem \<Rightarrow> bool" where
  "page_less a b \<longleftrightarrow> fst a < fst b"

definition spte_init :: "bool \<Rightarrow> (nat \<Rightarrow> page_elem list) \<Rightarrow> page_elem hash option" where
  "spte_init malloc_ok junk = hash_init malloc_ok junk page_hash page_less"

text \<open>The address of the entry, or null.\<close>

definition page_hash_find :: "page_elem hash \<Rightarrow> vaddr \<Rightarrow> addr res" where
  "page_hash_find table upage =
     bind_res (assert_res (upage \<noteq> 0)) (\<lambda>_.
     bind_res (hash_find table (pg_round_down upage, NULL)) (\<lambda>found.
     Inr (case found of None \<Rightarrow> NULL | Some (_, p) \<Rightarrow> p)))"

definition table_insert :: "page_elem \<Rightarrow> vm \<Rightarrow> (bool \<times> vm) res" where
  "table_insert x s =
     bind_res (vthread_of (vcur s) s) (\<lambda>t.
     let (p, s) = vmalloc s in
     bind_res (hash_insert (p \<noteq> NULL) (suppl_page_table t) x) (\<lambda>(old, h).
     Inr (old = None, set_vthread (vcur s) (\<lambda>t. t\<lparr>suppl_page_table := h\<rparr>) s)))"

definition table_delete :: "page_elem \<Rightarrow> vm \<Rightarrow> vm res" where
  "table_delete x s =
     bind_res (vthread_of (vcur s) s) (\<lambda>t.
     let (p, s) = vmalloc s in
     bind_res (hash_delete (p \<noteq> NULL) (suppl_page_table t) x) (\<lambda>(_, h).
     Inr (set_vthread (vcur s) (\<lambda>t. t\<lparr>suppl_page_table := h\<rparr>) s)))"

definition free_spte :: "addr \<Rightarrow> vm \<Rightarrow> vm" where
  "free_spte p s = s\<lparr>sptes := (sptes s)(p := None)\<rparr>"

section \<open>Loading pages\<close>

text \<open>The end of both loading routines: the page is installed, or the frame is given back.\<close>

definition finish_load :: "addr \<Rightarrow> vaddr \<Rightarrow> vm \<Rightarrow> (bool \<times> vm) res" where
  "finish_load p frame s =
     bind_res (vthread_of (vcur s) s) (\<lambda>t.
     bind_res (get_obj (sptes s) p) (\<lambda>e.
     bind_res (install_page (vt_pagedir t) (sp_addr e) frame (sp_writable e) (vmem s)) (\<lambda>(ok, m).
     let s = s\<lparr>vmem := m\<rparr> in
     if \<not> ok then bind_res (vm_free_frame frame s) (\<lambda>s. Inr (False, s))
     else bind_res (unlock_spte p (set_spte p (\<lambda>e. e\<lparr>sp_free := False\<rparr>) s)) (\<lambda>s. Inr (True, s)))))"

definition page_load_file :: "addr \<Rightarrow> vm \<Rightarrow> (bool \<times> vm) res" where
  "page_load_file p s =
     bind_res (vm_get_frame PAL_USER p s) (\<lambda>(frame, s).
     bind_res (assert_res (frame \<noteq> 0)) (\<lambda>_.
     bind_res (lock_spte p s) (\<lambda>s.
     bind_res (get_obj (sptes s) p) (\<lambda>e.
     bind_res (with_file_lock (base_file_read_at (sp_file e) (sint (sp_read_bytes e)) (sp_offset e)) s) (\<lambda>(d, s).
     let s = s\<lparr>vmem := (vmem s)\<lparr>ram_of := put_bytes (ram_of (vmem s)) frame d\<rparr>\<rparr> in
     if int (length d) \<noteq> sint (sp_read_bytes e)
     then bind_res (vm_free_frame frame s) (\<lambda>s. Inr (False, s))
     else
       let s = (if sp_zero_bytes e > 0
                then s\<lparr>vmem := (vmem s)\<lparr>ram_of := memset_ram (ram_of (vmem s)) (frame + sp_read_bytes e) 0 (unat (sp_zero_bytes e))\<rparr>\<rparr>
                else s)
       in finish_load p frame s)))))"

definition page_load_swap :: "addr \<Rightarrow> vm \<Rightarrow> (bool \<times> vm) res" where
  "page_load_swap p s =
     bind_res (vm_get_frame PAL_USER p s) (\<lambda>(frame, s).
     bind_res (assert_res (frame \<noteq> 0)) (\<lambda>_.
     bind_res (lock_spte p s) (\<lambda>s.
     bind_res (get_obj (sptes s) p) (\<lambda>e.
     bind_res (swap_in frame (sp_swap_idx e) (vswap s) (vmem s)) (\<lambda>(sw, m).
     finish_load p frame (s\<lparr>vswap := sw, vmem := m\<rparr>))))))"

text \<open>
  The loop over the pages of a segment or a mapping. Its first argument bounds the number of turns; for
  sizes that make up whole pages their number of pages is enough.
\<close>

fun lazy_loop :: "nat \<Rightarrow> addr \<Rightarrow> int \<Rightarrow> vaddr \<Rightarrow> 32 word \<Rightarrow> 32 word \<Rightarrow> bool \<Rightarrow> int \<Rightarrow> vm \<Rightarrow> (bool \<times> vm) res" where
  "lazy_loop 0 f ofs upage read_bytes zero_bytes writable type s =
     (if read_bytes > 0 \<or> zero_bytes > 0 then Inl NoReturn else Inr (True, s))"
| "lazy_loop (Suc n) f ofs upage read_bytes zero_bytes writable type s =
     (if read_bytes > 0 \<or> zero_bytes > 0 then
        let page_read_bytes = (if read_bytes < of_nat PGSIZE then read_bytes else of_nat PGSIZE);
            page_zero_bytes = of_nat PGSIZE - page_read_bytes;
            (p, s) = vmalloc s
        in if p = NULL then Inr (False, s)
           else
             let s = s\<lparr>sptes := (sptes s)(p \<mapsto> \<lparr>sp_file = f, sp_type = type, sp_addr = upage, sp_offset = ofs,
                   sp_read_bytes = page_read_bytes, sp_zero_bytes = page_zero_bytes, sp_writable = writable,
                   sp_free = True, sp_swap_idx = sp_swap_idx (vm_junk s p), sp_timestamp = vticks s, sp_lock = vlock_init\<rparr>)\<rparr>
             in bind_res (table_insert (upage, p) s) (\<lambda>(new, s).
                if \<not> new then Inr (False, free_spte p s)
                else lazy_loop n f (ofs + int (unat page_read_bytes)) (upage + of_nat PGSIZE)
                       (read_bytes - page_read_bytes) (zero_bytes - page_zero_bytes) writable type s)
      else Inr (True, s))"

definition page_lazy_load :: "addr \<Rightarrow> int \<Rightarrow> vaddr \<Rightarrow> 32 word \<Rightarrow> 32 word \<Rightarrow> bool \<Rightarrow> int \<Rightarrow> vm \<Rightarrow> (bool \<times> vm) res" where
  "page_lazy_load f ofs upage read_bytes zero_bytes writable type s =
     lazy_loop ((unat read_bytes + unat zero_bytes) div PGSIZE) f ofs upage read_bytes zero_bytes writable type s"

text \<open>The new entry is used by \<^verbatim>\<open>vm_get_frame\<close> before it is set up.\<close>

definition stack_grow :: "vaddr \<Rightarrow> vm \<Rightarrow> (bool \<times> vm) res" where
  "stack_grow fault_addr s =
     bind_res (assert_res (fault_addr \<noteq> 0)) (\<lambda>_.
     bind_res (vthread_of (vcur s) s) (\<lambda>t.
     let (p, s) = vmalloc s;
         s = (if p = NULL then s else s\<lparr>sptes := (sptes s)(p \<mapsto> vm_junk s p)\<rparr>)
     in bind_res (vm_get_frame PAL_USER p s) (\<lambda>(frame, s).
        if frame = 0 then Inr (False, free_spte p s)
        else if p = NULL then Inl NullDeref
        else
          let upage = pg_round_down fault_addr;
              s = set_spte p (\<lambda>e. e\<lparr>sp_free := False, sp_writable := True, sp_addr := upage, sp_type := type_swap,
                    sp_timestamp := vticks s, sp_lock := vlock_init\<rparr>) s
          in bind_res (install_page (vt_pagedir t) upage frame True (vmem s)) (\<lambda>(ok, m).
             let s = s\<lparr>vmem := m\<rparr> in
             if \<not> ok then bind_res (vm_free_frame frame (free_spte p s)) (\<lambda>s. Inr (False, s))
             else bind_res (table_insert (upage, p) s) (\<lambda>(new, s).
                  if \<not> new then bind_res (vm_free_frame frame (free_spte p s)) (\<lambda>s. Inr (False, s))
                  else Inr (True, s))))))"

definition free_suppl_page_table :: "page_elem hash \<Rightarrow> vm \<Rightarrow> vm" where
  "free_suppl_page_table h s = hash_destroy h (Some (\<lambda>(_, p) s. free_spte p s)) s"

section \<open>Memory-mapped files\<close>

definition unmap_page :: "vaddr \<Rightarrow> vm \<Rightarrow> vm res" where
  "unmap_page upage s =
     bind_res (vthread_of (vcur s) s) (\<lambda>cur.
     bind_res (page_hash_find (suppl_page_table cur) upage) (\<lambda>p.
     if p = NULL then Inr s
     else
       bind_res (lock_spte p s) (\<lambda>s.
       bind_res (get_obj (sptes s) p) (\<lambda>e.
       bind_res (pagedir_is_dirty (vt_pagedir cur) upage (vmem s)) (\<lambda>dirty.
       bind_res
         (if dirty
          then bind_res (with_file_lock (\<lambda>fs.
                 bind_res (uget (vt_pagedir cur) upage (unat (sp_read_bytes e)) (vmem s)) (\<lambda>buf.
                 base_file_write_at (sp_file e) buf (sint (sp_read_bytes e)) (sp_offset e) fs)) s) (\<lambda>(_, s). Inr s)
          else Inr s) (\<lambda>s.
       bind_res
         (if \<not> sp_free e
          then bind_res (pagedir_get_page (vt_pagedir cur) (sp_addr e) (vmem s)) (\<lambda>k.
               bind_res (vm_free_frame k s) (\<lambda>s.
               bind_res (pagedir_clear_page (vt_pagedir cur) (sp_addr e) (vmem s)) (\<lambda>m.
               Inr (s\<lparr>vmem := m\<rparr>))))
          else Inr s) (\<lambda>s.
       bind_res (table_delete (sp_addr e, p) s) (\<lambda>s. unlock_spte p s))))))))"

fun unmap_loop :: "vaddr \<Rightarrow> nat \<Rightarrow> nat \<Rightarrow> vm \<Rightarrow> vm res" where
  "unmap_loop va i 0 s = Inr s"
| "unmap_loop va i (Suc n) s =
     bind_res (unmap_page (va + of_nat (i * PGSIZE)) s) (\<lambda>s. unmap_loop va (Suc i) n s)"

definition free_mmap_entry :: "mmap_entry \<Rightarrow> vm \<Rightarrow> vm res" where
  "free_mmap_entry e s =
     bind_res (unmap_loop (uvaddr e) 0 (unat (page_num e)) s) (\<lambda>s.
     bind_res (base_file_close (mmap_file e) (vfs s)) (\<lambda>fs. Inr (s\<lparr>vfs := fs\<rparr>)))"

definition munmap :: "int \<Rightarrow> vm \<Rightarrow> vm res" where
  "munmap mapping s =
     bind_res (vthread_of (vcur s) s) (\<lambda>t.
     case find (\<lambda>e. mmap_id e = mapping) (mmap_list t) of
       None \<Rightarrow> Inr s
     | Some e \<Rightarrow> bind_res (free_mmap_entry e s) (\<lambda>s.
         Inr (set_vthread (vcur s) (\<lambda>t. t\<lparr>mmap_list := remove1 e (mmap_list t)\<rparr>) s)))"

text \<open>Each turn removes one mapping; the first argument is their number.\<close>

fun mmap_list_loop :: "nat \<Rightarrow> vm \<Rightarrow> vm res" where
  "mmap_list_loop n s =
     bind_res (vthread_of (vcur s) s) (\<lambda>t.
     case mmap_list t of
       [] \<Rightarrow> Inr s
     | e # _ \<Rightarrow> (case n of 0 \<Rightarrow> Inl NoReturn | Suc n \<Rightarrow> bind_res (munmap (mmap_id e) s) (mmap_list_loop n)))"

definition free_mmap_list :: "vm \<Rightarrow> vm res" where
  "free_mmap_list s = bind_res (vthread_of (vcur s) s) (\<lambda>t. mmap_list_loop (length (mmap_list t)) s)"

text \<open>The loop that looks for pages already mapped: at \<open>n\<close> offsets, from \<open>offset\<close> on.\<close>

fun overlap_loop :: "vaddr \<Rightarrow> nat \<Rightarrow> nat \<Rightarrow> vthread \<Rightarrow> vm \<Rightarrow> bool res" where
  "overlap_loop va offset 0 t s = Inr False"
| "overlap_loop va offset (Suc n) t s =
     bind_res (page_hash_find (suppl_page_table t) (va + of_nat offset)) (\<lambda>p.
     if p \<noteq> NULL then Inr True
     else bind_res (pagedir_get_page (vt_pagedir t) (va + of_nat offset) (vmem s)) (\<lambda>k.
       if k \<noteq> 0 then Inr True else overlap_loop va (offset + PGSIZE) n t s))"

fun get_vfile :: "int \<Rightarrow> (int \<times> addr) list \<Rightarrow> addr option" where
  "get_vfile n [] = None"
| "get_vfile n ((d, f) # fs) = (if d = n then Some f else get_vfile n fs)"

definition mmap :: "int \<Rightarrow> vaddr \<Rightarrow> vm \<Rightarrow> (int \<times> vm) res" where
  "mmap n va s =
     (if n = 0 \<or> n = 1 then Inr (-1, s)
      else if va = 0 \<or> va mod of_nat PGSIZE \<noteq> 0 then Inr (-1, s)
      else bind_res (vthread_of (vcur s) s) (\<lambda>t.
        case get_vfile n (vt_files t) of
          None \<Rightarrow> Inr (-1, s)
        | Some fd_file \<Rightarrow>
            if fd_file = NULL then Inr (-1, s)
            else
              bind_res (base_file_length fd_file (vfs s)) (\<lambda>read_bytes.
              if read_bytes = 0 then Inr (-1, s)
              else
                bind_res (with_file_lock (base_file_reopen fd_file) s) (\<lambda>(f, s).
                if f = NULL then Inr (-1, s)
                else
                  let pages = nat (cdiv (read_bytes + int PGSIZE - 1) (int PGSIZE)) in
                  bind_res (overlap_loop va 0 pages t s) (\<lambda>overlap.
                  if overlap then Inr (-1, s)
                  else
                    let (p, s) = vmalloc s in
                    if p = NULL then Inr (-1, s)
                    else
                      let offset = pages * PGSIZE;
                          e = \<lparr>mmap_id = mmap_num t, uvaddr = va, mmap_file = f, page_num = of_nat (offset div PGSIZE)\<rparr>;
                          s = set_vthread (vcur s) (\<lambda>t. t\<lparr>mmap_num := mmap_num t + 1\<rparr>) s
                      in bind_res (page_lazy_load f 0 va (word_of_int read_bytes) (word_of_int (int offset - read_bytes)) True type_mmap s) (\<lambda>(ok, s).
                         if \<not> ok then Inr (-1, s)
                         else Inr (mmap_id e, set_vthread (vcur s) (\<lambda>t. t\<lparr>mmap_list := mmap_list t @ [e]\<rparr>) s)))))))"

section \<open>Page faults\<close>

text \<open>What \<^verbatim>\<open>process_exit\<close> does with the memory of the process; the thread is gone afterwards.\<close>

definition vm_process_exit :: "vm \<Rightarrow> vm res" where
  "vm_process_exit s =
     bind_res (free_mmap_list s) (\<lambda>s.
     bind_res (vthread_of (vcur s) s) (\<lambda>t.
     let s = vm_clear_process_frame_table (vcur s) (free_suppl_page_table (suppl_page_table t) s);
         pd = vt_pagedir t
     in bind_res
          (if pd \<noteq> 0
           then bind_res (pagedir_activate 0 (vmem s)) (\<lambda>m.
                bind_res (pagedir_destroy pd m) (\<lambda>m. Inr (s\<lparr>vmem := m\<rparr>)))
           else Inr s) (\<lambda>s.
        Inr (s\<lparr>vthreads := (vthreads s)(vcur s := None)\<rparr>))))"

definition load_page :: "addr \<Rightarrow> vm \<Rightarrow> (bool \<times> vm) res" where
  "load_page p s =
     bind_res (get_obj (sptes s) p) (\<lambda>e.
     if sp_type e = type_file \<or> sp_type e = type_mmap then page_load_file p s
     else if sp_type e = type_swap then page_load_swap p s
     else Inr (False, s))"

definition STACK_LIMIT :: "32 word" where "STACK_LIMIT = push_bit 23 1"

text \<open>The result tells whether the process goes on.\<close>

definition or_exit :: "bool \<times> vm \<Rightarrow> (bool \<times> vm) res" where
  "or_exit r = (case r of (ok, s) \<Rightarrow> if ok then Inr (True, s) else bind_res (vm_process_exit s) (\<lambda>s. Inr (False, s)))"

definition page_fault :: "vaddr \<Rightarrow> bool \<Rightarrow> bool \<Rightarrow> vaddr \<Rightarrow> vm \<Rightarrow> (bool \<times> vm) res" where
  "page_fault fault_addr not_present user esp s =
     (if fault_addr = 0 \<or> (is_kernel_vaddr fault_addr \<and> user) \<or> \<not> not_present
      then or_exit (False, s)
      else bind_res (vthread_of (vcur s) s) (\<lambda>t.
        bind_res (page_hash_find (suppl_page_table t) fault_addr) (\<lambda>p.
        bind_res
          (if p \<noteq> NULL then load_page p s
           else if fault_addr \<ge> PHYS_BASE - STACK_LIMIT \<and> fault_addr \<ge> esp - 32 then stack_grow fault_addr s
           else Inr (False, s)) or_exit)))"

definition read_buf_page_fault_handler :: "vaddr \<Rightarrow> vm \<Rightarrow> (bool \<times> vm) res" where
  "read_buf_page_fault_handler fault_addr s =
     (if fault_addr = 0 \<or> \<not> is_user_vaddr fault_addr then or_exit (False, s)
      else bind_res (vthread_of (vcur s) s) (\<lambda>t.
        bind_res (pagedir_get_page (vt_pagedir t) fault_addr (vmem s)) (\<lambda>k.
        if k = 0 then
          bind_res (page_hash_find (suppl_page_table t) fault_addr) (\<lambda>p.
          bind_res
            (if p \<noteq> NULL then load_page p s
             else if fault_addr \<ge> uesp s - 32 then stack_grow fault_addr s
             else Inr (False, s)) or_exit)
        else Inr (True, s))))"

fun check_pages :: "vaddr \<Rightarrow> nat \<Rightarrow> vm \<Rightarrow> (bool \<times> vm) res" where
  "check_pages buf_iter 0 s = Inr (True, s)"
| "check_pages buf_iter (Suc n) s =
     bind_res (read_buf_page_fault_handler buf_iter s) (\<lambda>(ok, s).
     if ok then check_pages (buf_iter + of_nat PGSIZE) n s else Inr (False, s))"

definition check_read_buffer :: "vaddr \<Rightarrow> 32 word \<Rightarrow> vm \<Rightarrow> (bool \<times> vm) res" where
  "check_read_buffer buf len s =
     (if len < of_nat PGSIZE
      then bind_res (read_buf_page_fault_handler buf s) (\<lambda>(ok, s).
           if ok then read_buf_page_fault_handler (buf + len) s else Inr (False, s))
      else
        let page_count = (if len mod of_nat PGSIZE = 0 then len div of_nat PGSIZE else len div of_nat PGSIZE + 1)
        in check_pages (pg_round_down buf) (Suc (unat page_count)) s)"

section \<open>Segments and the stack\<close>

definition lazy_load_segment :: "addr \<Rightarrow> 32 word \<Rightarrow> vaddr \<Rightarrow> 32 word \<Rightarrow> 32 word \<Rightarrow> bool \<Rightarrow> vm \<Rightarrow> (bool \<times> vm) res" where
  "lazy_load_segment f ofs upage read_bytes zero_bytes writable s =
     bind_res (assert_res ((read_bytes + zero_bytes) mod of_nat PGSIZE = 0)) (\<lambda>_.
     bind_res (assert_res (pg_ofs upage = 0)) (\<lambda>_.
     bind_res (assert_res (cmod (sint ofs) (int PGSIZE) = 0)) (\<lambda>_.
     page_lazy_load f (sint ofs) upage read_bytes zero_bytes writable type_file s)))"

end
