(* ===== verification/Address_Spaces.thy ===== *)
theory Address_Spaces
  imports Load_Properties
begin

unbundle bit_operations_syntax

text \<open>
  Several address spaces in one memory: a set of page directories that share no page, whose user pages
  are mapped to frames of the user pool, each frame at most once. What the page allocator, the page
  directories and the changes to the bytes of a frame do to all of them at once.
\<close>

definition spaces :: "kmem \<Rightarrow> vaddr set \<Rightarrow> bool" where
  "spaces m D \<longleftrightarrow> wf_kmem m \<and> cr3 m < PHYS_BASE
     \<and> (\<forall>pd\<in>D. wf_pd m pd \<and> pd \<noteq> init_page_dir m
          \<and> (\<forall>va k w. is_user_vaddr va \<longrightarrow> page_map m pd va = Some (k, w) \<longrightarrow> k \<in> user_used m))
     \<and> (\<forall>pd\<in>D. \<forall>qd\<in>D. pd \<noteq> qd \<longrightarrow> pd_pages m pd \<inter> pd_pages m qd = {})
     \<and> (\<forall>pd\<in>D. \<forall>qd\<in>D. \<forall>va vb k w x. is_user_vaddr va \<longrightarrow> is_user_vaddr vb \<longrightarrow>
          page_map m pd va = Some (k, w) \<longrightarrow> page_map m qd vb = Some (k, x) \<longrightarrow> pd = qd \<and> pg_round_down va = pg_round_down vb)"

text \<open>The frames that hold user pages.\<close>

definition space_frames :: "kmem \<Rightarrow> vaddr set \<Rightarrow> vaddr set" where
  "space_frames m D = {k. \<exists>pd\<in>D. \<exists>va w. is_user_vaddr va \<and> page_map m pd va = Some (k, w)}"

lemma spacesD:
  assumes "spaces m D"
  shows "wf_kmem m" "cr3 m < PHYS_BASE" "pd \<in> D \<Longrightarrow> wf_pd m pd" "pd \<in> D \<Longrightarrow> pd \<noteq> init_page_dir m"
    "pd \<in> D \<Longrightarrow> is_user_vaddr va \<Longrightarrow> page_map m pd va = Some (k, w) \<Longrightarrow> k \<in> user_used m"
    "pd \<in> D \<Longrightarrow> qd \<in> D \<Longrightarrow> pd \<noteq> qd \<Longrightarrow> pd_pages m pd \<inter> pd_pages m qd = {}"
  using assms unfolding spaces_def by blast+

lemma spaces_unique:
  assumes "spaces m D" and "pd \<in> D" "qd \<in> D" "is_user_vaddr va" "is_user_vaddr vb" "page_map m pd va = Some (k, w)" "page_map m qd vb = Some (k, x)"
  shows "pd = qd" "pg_round_down va = pg_round_down vb"
  using assms unfolding spaces_def by blast+

lemma user_frame_props:
  assumes "wf_kmem m" and "k \<in> user_used m"
  shows "aligned k" "PHYS_BASE \<le> k" "k \<noteq> 0" "kpage_ok m k"
  using used_page_props [of "user_pool m" k] user_page_ok [of m k] used_pages_subset [of "user_pool m"] assms
  by (auto simp: wf_kmem_def)

lemma spaces_high: "spaces m D \<Longrightarrow> pd \<in> D \<Longrightarrow> mapped_high m pd"
  using spacesD(1,5) user_frame_props(2) unfolding mapped_high_def by blast

lemma spaces_kpages: "spaces m D \<Longrightarrow> pd \<in> D \<Longrightarrow> kpages_ok m pd"
  using spaces_high mapped_high_kpages by blast

section \<open>Changes that leave the directories alone\<close>

lemma spaces_transfer:
  assumes "spaces m D" and "wf_kmem m'" and "cr3 m' = cr3 m" and "init_page_dir m' = init_page_dir m" and "kernel_used m \<subseteq> kernel_used m'"
    and "\<And>pd. pd \<in> D \<Longrightarrow> same_pages (pd_pages m pd) m m'" and "space_frames m D \<subseteq> user_used m'"
  shows "spaces m' D" "pd \<in> D \<Longrightarrow> is_user_vaddr va \<Longrightarrow> pte_of m' pd va = pte_of m pd va"
    "pd \<in> D \<Longrightarrow> is_user_vaddr va \<Longrightarrow> page_map m' pd va = page_map m pd va"
proof -
  have sub: "pd_pages m pd \<subseteq> kernel_used m'" if "pd \<in> D" for pd
    using wf_pd_facts(6) [OF spacesD(3) [OF assms(1) that]] assms(5) by blast
  note w = wf_pd_same [OF spacesD(3) [OF assms(1)] assms(2) sub assms(6)]
  show pte: "pte_of m' pd va = pte_of m pd va" if "pd \<in> D" "is_user_vaddr va" for pd va using w(3) that by blast
  show pm: "page_map m' pd va = page_map m pd va" if "pd \<in> D" "is_user_vaddr va" for pd va using page_map_pte [OF pte [OF that]] .
  show "spaces m' D"
    unfolding spaces_def
  proof (intro conjI ballI allI impI)
    show "wf_kmem m'" "cr3 m' < PHYS_BASE" using assms(2,3) spacesD(2) [OF assms(1)] by simp_all
    fix pd assume pd: "pd \<in> D"
    show "wf_pd m' pd" "pd \<noteq> init_page_dir m'" using w(1) pd spacesD(4) [OF assms(1) pd] assms(4) by auto
    show "k \<in> user_used m'" if "is_user_vaddr va" "page_map m' pd va = Some (k, x)" for va k x
      using that pm [OF pd that(1)] pd assms(7) unfolding space_frames_def by auto
    fix qd assume qd: "qd \<in> D"
    show "pd_pages m' pd \<inter> pd_pages m' qd = {}" if "pd \<noteq> qd" using spacesD(6) [OF assms(1) pd qd that] w(2) pd qd by simp
    fix va vb k x y assume h: "is_user_vaddr va" "is_user_vaddr vb" "page_map m' pd va = Some (k, x)" "page_map m' qd vb = Some (k, y)"
    show "pd = qd" "pg_round_down va = pg_round_down vb"
      using spaces_unique [OF assms(1) pd qd h(1,2)] h(3,4) pm [OF pd h(1)] pm [OF qd h(2)] by auto
  qed
qed

lemma spaces_alloc:
  assumes "spaces m D"
  shows "\<exists>k m'. palloc_get_page PAL_USER m = Inr (k, m') \<and> spaces m' D \<and> kernel_pool m' = kernel_pool m
     \<and> pool_pages (user_pool m') = pool_pages (user_pool m)
     \<and> (\<forall>pd\<in>D. \<forall>va. is_user_vaddr va \<longrightarrow> pte_of m' pd va = pte_of m pd va) \<and> ram_of m' = ram_of m
     \<and> (if k = 0 then user_used m = pool_pages (user_pool m) \<and> user_used m' = user_used m
        else k \<notin> user_used m \<and> user_used m' = insert k (user_used m))"
proof -
  have fl: "PAL_USER AND PAL_ASSERT = 0" "True = (PAL_USER AND PAL_USER \<noteq> 0)" by (simp_all add: PAL_USER_def PAL_ASSERT_def)
  have z: "PAL_USER AND PAL_ZERO = 0" by (simp add: PAL_USER_def PAL_ZERO_def)
  obtain k m' where m': "palloc_get_page PAL_USER m = Inr (k, m')" "wf_kmem m'" "kernel_pool m' = kernel_pool m"
     "init_page_dir m' = init_page_dir m" "cr3 m' = cr3 m"
     "pool_base (user_pool m') = pool_base (user_pool m)" "bit_cnt (used_map (user_pool m')) = bit_cnt (used_map (user_pool m))"
    and c: "ram_of m' = ram_of m" "if k = 0 then user_used m = pool_pages (user_pool m) \<and> user_used m' = user_used m
        else k \<notin> user_used m \<and> user_used m' = insert k (user_used m)"
    using palloc_get_page_spec [OF spacesD(1) [OF assms] fl] z by (auto simp: the_pool_def split: if_splits)
  have "same_pages (pd_pages m pd) m m'" for pd using c(1) by (simp add: same_pages_def)
  moreover have "space_frames m D \<subseteq> user_used m'" using spacesD(5) [OF assms] c(2) unfolding space_frames_def by (auto split: if_splits)
  ultimately have "spaces m' D" "\<And>pd va. pd \<in> D \<Longrightarrow> is_user_vaddr va \<Longrightarrow> pte_of m' pd va = pte_of m pd va"
    using spaces_transfer [OF assms m'(2,5,4)] m'(3) by auto
  then show ?thesis using m' c pool_pages_cong [OF m'(6,7)] by blast
qed

lemma spaces_write:
  assumes "spaces m D" and "k \<in> user_used m" and "same_pages (- {k}) m m'" and "m' = m\<lparr>ram_of := ram_of m'\<rparr>"
  shows "spaces m' D" "pd \<in> D \<Longrightarrow> is_user_vaddr va \<Longrightarrow> pte_of m' pd va = pte_of m pd va"
    "pd \<in> D \<Longrightarrow> is_user_vaddr va \<Longrightarrow> page_map m' pd va = page_map m pd va"
    "j \<in> user_used m \<Longrightarrow> j \<noteq> k \<Longrightarrow> page_bytes m' j = page_bytes m j" "user_pool m' = user_pool m" "kernel_pool m' = kernel_pool m"
proof -
  have wk: "wf_kmem m'" using spacesD(1) [OF assms(1)] by (subst assms(4)) simp
  have e: "cr3 m' = cr3 m" "init_page_dir m' = init_page_dir m" "kernel_pool m' = kernel_pool m" "user_pool m' = user_pool m"
    by (subst assms(4), simp)+
  then show "user_pool m' = user_pool m" "kernel_pool m' = kernel_pool m" by simp_all
  have "same_pages (pd_pages m pd) m m'" if "pd \<in> D" for pd
    using assms(3) user_not_pd [OF spacesD(3) [OF assms(1) that] assms(2)] by (auto intro: same_pages_mono)
  moreover have "space_frames m D \<subseteq> user_used m'" using spacesD(5) [OF assms(1)] e(4) unfolding space_frames_def by auto
  moreover have "kernel_used m \<subseteq> kernel_used m'" using e(3) by simp
  ultimately show "spaces m' D" "pd \<in> D \<Longrightarrow> is_user_vaddr va \<Longrightarrow> pte_of m' pd va = pte_of m pd va"
    "pd \<in> D \<Longrightarrow> is_user_vaddr va \<Longrightarrow> page_map m' pd va = page_map m pd va"
    using spaces_transfer [OF assms(1) wk e(1,2)] by blast+
  show "page_bytes m' j = page_bytes m j" if "j \<in> user_used m" "j \<noteq> k"
    using same_page_bytes [OF assms(3)] user_frame_props(1) [OF spacesD(1) [OF assms(1)] that(1)] that(2) by simp
qed

section \<open>Removing and installing a page\<close>

text \<open>Work on one directory that touches its own pages, or new ones, only.\<close>

lemma spaces_others:
  assumes "spaces m D" and "pd \<in> D" and "wf_pd m' pd" and "kernel_used m \<subseteq> kernel_used m'" and "same_pages (others m pd) m m'"
    and "pd_pages m' pd \<inter> others m pd = {}" and "qd \<in> D" and "qd \<noteq> pd"
  shows "wf_pd m' qd" "pd_pages m' qd = pd_pages m qd" "is_user_vaddr va \<Longrightarrow> pte_of m' qd va = pte_of m qd va" "pd_pages m' pd \<inter> pd_pages m' qd = {}"
proof -
  note wq = spacesD(3) [OF assms(1,7)]
  have sub: "pd_pages m qd \<subseteq> others m pd"
    using wf_pd_facts(6) [OF wq] spacesD(6) [OF assms(1,2,7)] assms(8) by (auto simp: others_def)
  have sub': "pd_pages m qd \<subseteq> kernel_used m'" using wf_pd_facts(6) [OF wq] assms(4) by blast
  note w = wf_pd_same [OF wq wf_pd_facts(1) [OF assms(3)] sub' same_pages_mono [OF assms(5) sub]]
  show "wf_pd m' qd" "pd_pages m' qd = pd_pages m qd" "is_user_vaddr va \<Longrightarrow> pte_of m' qd va = pte_of m qd va" using w by blast+
  show "pd_pages m' pd \<inter> pd_pages m' qd = {}" using w(2) sub assms(6) by blast
qed

lemma spaces_update:
  assumes "spaces m D" and "pd \<in> D" and "wf_pd m' pd" and "kernel_used m \<subseteq> kernel_used m'" and "same_pages (others m pd) m m'"
    and "pd_pages m' pd \<inter> others m pd = {}" and "user_pool m' = user_pool m" and "cr3 m' = cr3 m" and "init_page_dir m' = init_page_dir m"
    and new: "\<forall>va. is_user_vaddr va \<longrightarrow> page_map m' pd va = page_map m pd va \<or> page_map m' pd va = None
       \<or> (pg_round_down va = a \<and> (\<exists>w. page_map m' pd va = Some (k, w)))"
    and k: "k \<in> user_used m" "k \<notin> space_frames m D"
  shows "spaces m' D" "qd \<in> D \<Longrightarrow> qd \<noteq> pd \<Longrightarrow> is_user_vaddr va \<Longrightarrow> pte_of m' qd va = pte_of m qd va"
    "qd \<in> D \<Longrightarrow> qd \<noteq> pd \<Longrightarrow> is_user_vaddr va \<Longrightarrow> page_map m' qd va = page_map m qd va"
    "j \<in> user_used m \<Longrightarrow> page_bytes m' j = page_bytes m j"
proof -
  note o = spaces_others [OF assms(1-6)]
  show pte: "pte_of m' qd va = pte_of m qd va" if "qd \<in> D" "qd \<noteq> pd" "is_user_vaddr va" for qd va using o(3) that by blast
  show pm: "page_map m' qd va = page_map m qd va" if "qd \<in> D" "qd \<noteq> pd" "is_user_vaddr va" for qd va using page_map_pte [OF pte [OF that]] .
  show "page_bytes m' j = page_bytes m j" if "j \<in> user_used m"
    using same_page_bytes [OF assms(5), of j] user_frame_props(1) [OF spacesD(1) [OF assms(1)] that] that
      user_not_pd [OF spacesD(3) [OF assms(1,2)] that] by (simp add: others_def)
  have old: "page_map m qd va = Some (j, x) \<or> (j = k \<and> qd = pd \<and> pg_round_down va = a)"
    if "qd \<in> D" "is_user_vaddr va" "page_map m' qd va = Some (j, x)" for qd va j x
    using that new [rule_format, OF that(2)] pm [OF that(1) _ that(2)] by (cases "qd = pd") auto
  have nk: "page_map m qd va \<noteq> Some (k, x)" if "qd \<in> D" "is_user_vaddr va" for qd va x
    using that k(2) unfolding space_frames_def by blast
  show "spaces m' D"
    unfolding spaces_def
  proof (intro conjI ballI allI impI)
    show "wf_kmem m'" "cr3 m' < PHYS_BASE" using wf_pd_facts(1) [OF assms(3)] assms(8) spacesD(2) [OF assms(1)] by simp_all
    fix qd assume qd: "qd \<in> D"
    show "wf_pd m' qd" using assms(3) o(1) qd by (cases "qd = pd") auto
    show "qd \<noteq> init_page_dir m'" using assms(9) spacesD(4) [OF assms(1) qd] by simp
    show "j \<in> user_used m'" if "is_user_vaddr va" "page_map m' qd va = Some (j, x)" for va j x
      using old [OF qd that] spacesD(5) [OF assms(1) qd that(1)] k(1) assms(7) by auto
    fix rd assume rd: "rd \<in> D"
    show "pd_pages m' qd \<inter> pd_pages m' rd = {}" if "qd \<noteq> rd"
    proof -
      consider "qd = pd" | "rd = pd" | "qd \<noteq> pd" "rd \<noteq> pd" by blast
      then show ?thesis
      proof cases
        case 1
        then show ?thesis using o(4) [OF rd] that by simp
      next
        case 2
        then show ?thesis using o(4) [OF qd] that by (simp add: Int_commute)
      next
        case 3
        then show ?thesis using o(2) [OF qd] o(2) [OF rd] spacesD(6) [OF assms(1) qd rd that] by simp
      qed
    qed
    fix va vb j x y assume h: "is_user_vaddr va" "is_user_vaddr vb" "page_map m' qd va = Some (j, x)" "page_map m' rd vb = Some (j, y)"
    have "(qd = rd \<and> pg_round_down va = pg_round_down vb)"
      using old [OF qd h(1,3)] old [OF rd h(2,4)] nk [OF qd h(1), of x] nk [OF rd h(2), of y]
        spaces_unique [OF assms(1) qd rd h(1,2), of j x y] by (cases "j = k") auto
    then show "qd = rd" "pg_round_down va = pg_round_down vb" by simp_all
  qed
qed

lemma round_user: "is_user_vaddr (pg_round_down va) \<longleftrightarrow> is_user_vaddr va"
proof -
  have "unat va div 4096 * 4096 < 786432 * 4096 \<longleftrightarrow> unat va < 786432 * 4096"
    by (simp only: mult_less_cancel2 div_less_iff_less_mult zero_less_numeral simp_thms)
  then show ?thesis by (simp add: is_user_vaddr_def word_less_nat_alt unat_pg_round_down unat_PHYS_BASE)
qed

lemma spaces_clear:
  assumes "spaces m D" and "pd \<in> D" and "aligned a" and "is_user_vaddr a" and "page_map m pd a = Some (k, w)"
  shows "\<exists>m'. pagedir_clear_page pd a m = Inr m' \<and> spaces m' D \<and> m' = m\<lparr>ram_of := ram_of m'\<rparr>
     \<and> (\<forall>qd\<in>D. \<forall>va. is_user_vaddr va \<longrightarrow> page_map m' qd va = (if qd = pd \<and> pg_round_down va = a then None else page_map m qd va))
     \<and> (\<forall>j\<in>user_used m. page_bytes m' j = page_bytes m j)"
proof -
  obtain m' where m': "pagedir_clear_page pd a m = Inr m'" "wf_pd m' pd" "pd_pages m' pd = pd_pages m pd"
     "\<And>vb. is_user_vaddr vb \<Longrightarrow> pte_of m' pd vb = (if pg_round_down vb = a then pte_of m pd a AND NOT PTE_P else pte_of m pd vb)"
     "same_pages (- pd_pages m pd) m m'" "m' = m\<lparr>ram_of := ram_of m'\<rparr>"
    using pagedir_clear_page_spec [OF spacesD(3) [OF assms(1,2)] assms(3,4) spacesD(2) [OF assms(1)]] by blast
  have e: "cr3 m' = cr3 m" "init_page_dir m' = init_page_dir m" "kernel_pool m' = kernel_pool m" "user_pool m' = user_pool m"
    by (subst m'(6), simp)+
  have cleared: "page_map m' pd va = (if pg_round_down va = a then None else page_map m pd va)" if "is_user_vaddr va" for va
  proof (cases "pg_round_down va = a")
    case True
    have "pte_of m' pd va AND PTE_P = 0" using m'(4) [OF that] True by (simp add: and.assoc PTE_P_def)
    then show ?thesis using True by (simp add: page_map_None_iff)
  next
    case False
    then show ?thesis using m'(4) [OF that] page_map_pte [of m' pd va m va] by simp
  qed
  have o: "same_pages (others m pd) m m'" "pd_pages m' pd \<inter> others m pd = {}"
    using m'(3,5) by (auto simp: others_def intro: same_pages_mono)
  have sub: "kernel_used m \<subseteq> kernel_used m'" using e(3) by simp
  have same: "page_bytes m' j = page_bytes m j" if "j \<in> user_used m" for j
    using same_page_bytes [OF o(1), of j] user_frame_props(1) [OF spacesD(1) [OF assms(1)] that] that
      user_not_pd [OF spacesD(3) [OF assms(1,2)] that] by (simp add: others_def)
  note ot = spaces_others [OF assms(1,2) m'(2) sub o]
  have pm: "page_map m' qd va = (if qd = pd \<and> pg_round_down va = a then None else page_map m qd va)" if "qd \<in> D" "is_user_vaddr va" for qd va
    using cleared [OF that(2)] page_map_pte [OF ot(3) [OF that(1) _ that(2)]] by (cases "qd = pd") auto
  have "spaces m' D"
    unfolding spaces_def
  proof (intro conjI ballI allI impI)
    show "wf_kmem m'" "cr3 m' < PHYS_BASE" using wf_pd_facts(1) [OF m'(2)] e(1) spacesD(2) [OF assms(1)] by simp_all
    fix qd assume qd: "qd \<in> D"
    show "wf_pd m' qd" using m'(2) ot(1) qd by (cases "qd = pd") auto
    show "qd \<noteq> init_page_dir m'" using e(2) spacesD(4) [OF assms(1) qd] by simp
    show "j \<in> user_used m'" if "is_user_vaddr va" "page_map m' qd va = Some (j, x)" for va j x
      using that pm [OF qd that(1)] spacesD(5) [OF assms(1) qd that(1)] e(4) by (auto split: if_splits)
    fix rd assume rd: "rd \<in> D"
    show "pd_pages m' qd \<inter> pd_pages m' rd = {}" if "qd \<noteq> rd"
      using ot(4) [OF qd] ot(4) [OF rd] ot(2) [OF qd] ot(2) [OF rd] spacesD(6) [OF assms(1) qd rd that] that
      by (cases "qd = pd"; cases "rd = pd") (auto simp: Int_commute)
    fix va vb j x y assume h: "is_user_vaddr va" "is_user_vaddr vb" "page_map m' qd va = Some (j, x)" "page_map m' rd vb = Some (j, y)"
    have "page_map m qd va = Some (j, x)" using pm [OF qd h(1)] h(3) by (metis option.distinct(1))
    moreover have "page_map m rd vb = Some (j, y)" using pm [OF rd h(2)] h(4) by (metis option.distinct(1))
    ultimately show "qd = rd" "pg_round_down va = pg_round_down vb" using spaces_unique [OF assms(1) qd rd h(1,2)] by blast+
  qed
  then show ?thesis using m'(1,6) pm same by blast
qed

lemma spaces_install:
  assumes "spaces m D" and "pd \<in> D" and "aligned a" and "is_user_vaddr a" and "page_map m pd a = None"
    and "k \<in> user_used m" and "k \<notin> space_frames m D" and "kernel_used m \<noteq> pool_pages (kernel_pool m)"
  shows "\<exists>m'. install_page pd a k w m = Inr (True, m') \<and> spaces m' D \<and> user_pool m' = user_pool m
     \<and> (\<forall>qd\<in>D. \<forall>va. is_user_vaddr va \<longrightarrow> page_map m' qd va = (if qd = pd \<and> pg_round_down va = a then Some (k, w) else page_map m qd va))
     \<and> (\<forall>j\<in>user_used m. page_bytes m' j = page_bytes m j)"
proof -
  note wpd = spacesD(3) [OF assms(1,2)]
  have kp: "kpage_ok m k" using user_frame_props(4) [OF spacesD(1) [OF assms(1)] assms(6)] .
  have p0: "pte_of m pd a AND PTE_P = 0" using assms(5) by (simp add: page_map_None_iff)
  have get: "pagedir_get_page pd a m = Inr 0"
    using pagedir_get_page_spec [OF wpd spaces_kpages [OF assms(1,2)] assms(4)] assms(5) by simp
  obtain ok m' where m': "pagedir_set_page pd a k w m = Inr (ok, m')" "wf_pd m' pd" "same_pages (others m pd) m m'" "kernel_used m \<subseteq> kernel_used m'"
     "user_pool m' = user_pool m" "init_page_dir m' = init_page_dir m" "cr3 m' = cr3 m" "pd_pages m' pd \<inter> others m pd = {}"
     "\<not> ok \<longrightarrow> kernel_used m = pool_pages (kernel_pool m)"
     and pte: "\<And>vb. is_user_vaddr vb \<Longrightarrow> pte_of m' pd vb =
          (if ok \<and> pg_round_down vb = a then (k - PHYS_BASE) OR (if w then 7 else 5) else pte_of m pd vb)"
    using pagedir_set_page_spec [OF wpd spacesD(4) [OF assms(1,2)] assms(3,4) kp p0] by blast
  have ok: ok using m'(9) assms(8) by blast
  have map: "page_map m' pd va = (if pg_round_down va = a then Some (k, w) else page_map m pd va)" if "is_user_vaddr va" for va
    using pte [OF that] ok page_map_new [OF kp, of m' pd va w] page_map_pte [of m' pd va m va] by (cases "pg_round_down va = a") auto
  have new: "\<forall>va. is_user_vaddr va \<longrightarrow> page_map m' pd va = page_map m pd va \<or> page_map m' pd va = None
       \<or> (pg_round_down va = a \<and> (\<exists>w. page_map m' pd va = Some (k, w)))"
    using map by simp
  note u = spaces_update [OF assms(1,2) m'(2,4,3,8,5,7,6) new assms(6,7)]
  have "page_map m' qd va = (if qd = pd \<and> pg_round_down va = a then Some (k, w) else page_map m qd va)" if "qd \<in> D" "is_user_vaddr va" for qd va
    using map [OF that(2)] u(3) [OF that(1) _ that(2)] by (cases "qd = pd") auto
  moreover have "install_page pd a k w m = Inr (True, m')" using get m'(1) ok by (simp add: install_page_def)
  ultimately show ?thesis using u(1,4) m'(5) by blast
qed

end
