(* ===== verification/Base_Io.thy ===== *)
theory Base_Io
  imports Base_File Inode_Io
begin

text \<open>
  What reading and writing do to the bytes of a file in the file system of projects 1 to 3. A file is
  the array of bytes of its extent; it does not grow, so a write past the end is cut off there.
\<close>

section \<open>Files in good order\<close>

abbreviation bdisk :: "base_fs \<Rightarrow> nat \<Rightarrow> byte list" where
  "bdisk s \<equiv> blk_data (bfs_device s)"

definition base_ok :: "base_fs \<Rightarrow> bool" where
  "base_ok s \<longleftrightarrow> blk_type (bfs_device s) \<noteq> BLOCK_FOREIGN \<and> blk_size (bfs_device s) \<le> NO_SECTOR
     \<and> (\<forall>k. length (bdisk s k) = 512) \<and> (\<forall>n. ballocs s n \<noteq> NULL)"

definition base_at :: "base_fs \<Rightarrow> addr \<Rightarrow> base_inode \<Rightarrow> bool" where
  "base_at s a i \<longleftrightarrow> a \<noteq> NULL \<and> binodes s a = Some i \<and> 0 \<le> blength (bdata i)
     \<and> bstart (bdata i) + bytes_to_sectors (blength (bdata i)) \<le> blk_size (bfs_device s)"

text \<open>Everything but the sectors, the counters of the device and the memory allocator is unchanged.\<close>

definition base_same :: "base_fs \<Rightarrow> base_fs \<Rightarrow> bool" where
  "base_same s s' \<longleftrightarrow> base_ok s' \<and> blk_size (bfs_device s') = blk_size (bfs_device s) \<and> bfree_map s' = bfree_map s
     \<and> bfree_map_file s' = bfree_map_file s \<and> binodes s' = binodes s \<and> bopen_inodes s' = bopen_inodes s \<and> bfiles s' = bfiles s"

lemma base_same_refl: "base_ok s \<Longrightarrow> base_same s s"
  by (simp add: base_same_def)

lemma base_same_trans: "base_same a b \<Longrightarrow> base_same b c \<Longrightarrow> base_same a c"
  by (simp add: base_same_def)

lemma base_same_ok: "base_same s s' \<Longrightarrow> base_ok s'"
  by (simp add: base_same_def)

lemma base_at_same: "base_same s s' \<Longrightarrow> base_at s' a i \<longleftrightarrow> base_at s a i"
  by (simp add: base_same_def base_at_def)

definition base_byte :: "base_fs \<Rightarrow> base_inode \<Rightarrow> nat \<Rightarrow> byte" where
  "base_byte s i p = bdisk s (bstart (bdata i) + p div 512) ! (p mod 512)"

definition base_contents :: "base_fs \<Rightarrow> base_inode \<Rightarrow> byte list" where
  "base_contents s i = map (base_byte s i) [0..<nat (blength (bdata i))]"

lemma length_base_contents [simp]: "length (base_contents s i) = nat (blength (bdata i))"
  by (simp add: base_contents_def)

lemma base_block: "base_at s a i \<Longrightarrow> int p < blength (bdata i) \<Longrightarrow> bstart (bdata i) + p div 512 < blk_size (bfs_device s)"
  using bytes_to_sectors_less [of "blength (bdata i)" "p div 512"] by (auto simp: base_at_def zdiv_int)

lemma get_base: "base_at s a i \<Longrightarrow> get_obj (binodes s) a = Inr i"
  by (simp add: base_at_def get_obj_def)

lemma bread_spec:
  "base_ok s \<Longrightarrow> sec < blk_size (bfs_device s) \<Longrightarrow> \<exists>s'. bread sec s = Inr (bdisk s sec, s') \<and> base_same s s' \<and> bdisk s' = bdisk s"
  by (simp add: bread_def block_read_ok base_same_def base_ok_def)

lemma bwrite_spec:
  "base_ok s \<Longrightarrow> sec < blk_size (bfs_device s) \<Longrightarrow> length d = 512 \<Longrightarrow>
   \<exists>s'. bwrite sec d s = Inr s' \<and> base_same s s' \<and> bdisk s' = (bdisk s)(sec := d)"
  by (simp add: bwrite_def block_write_ok base_same_def base_ok_def)

lemma base_bounce_spec: "base_ok s \<Longrightarrow> \<exists>s'. base_bounce b s = (True, s') \<and> base_same s s' \<and> bdisk s' = bdisk s"
  by (simp add: base_bounce_def base_malloc_def base_same_def base_ok_def)

lemma base_byte_to_sector_spec:
  assumes "base_ok s" and "base_at s a i" and "int p < blength (bdata i)"
  shows "base_byte_to_sector a (int p) s = Inr (bstart (bdata i) + p div 512)"
proof -
  have b: "bstart (bdata i) + p div 512 < 2 ^ 32"
    using base_block [OF assms(2,3)] assms(1) by (simp add: base_ok_def NO_SECTOR_def)
  have "cdiv (int p) (int BLOCK_SECTOR_SIZE) = int (p div 512)" by (simp add: cdiv_nonneg BLOCK_SECTOR_SIZE_def zdiv_int)
  then have "(of_nat (bstart (bdata i)) + word_of_int (cdiv (int p) (int BLOCK_SECTOR_SIZE)) :: 32 word) = of_nat (bstart (bdata i) + p div 512)"
    by simp
  moreover have "unat (of_nat (bstart (bdata i) + p div 512) :: 32 word) = bstart (bdata i) + p div 512"
    using b by (simp only: unat_of_nat) simp
  ultimately show ?thesis using assms(2,3) get_base [OF assms(2)] by (simp add: base_byte_to_sector_def base_at_def)
qed

lemma base_length_spec: "base_at s a i \<Longrightarrow> base_inode_length a s = Inr (blength (bdata i))"
  by (simp add: base_inode_length_def get_base)

section \<open>Reading\<close>

lemma same_sector:
  fixes p :: nat
  assumes "p mod 512 + k < 512"
  shows "(p + k) div 512 = p div 512" "(p + k) mod 512 = p mod 512 + k"
proof -
  have "k < 512" using assms by simp
  then show "(p + k) div 512 = p div 512" "(p + k) mod 512 = p mod 512 + k"
    using assms by (simp_all add: div_add1_eq [of p k] mod_add_eq [of p 512 k, symmetric])
qed

lemma sector_bytes:
  assumes "p mod 512 + c \<le> 512" and "length (bdisk s (bstart (bdata i) + p div 512)) = 512"
  shows "take c (drop (p mod 512) (bdisk s (bstart (bdata i) + p div 512))) = map (base_byte s i) [p..<p + c]"
proof (rule nth_equalityI)
  show "length (take c (drop (p mod 512) (bdisk s (bstart (bdata i) + p div 512)))) = length (map (base_byte s i) [p..<p + c])"
    using assms by simp
  fix k assume "k < length (take c (drop (p mod 512) (bdisk s (bstart (bdata i) + p div 512))))"
  then have k: "k < c" using assms by simp
  have "(p + k) div 512 = p div 512" "(p + k) mod 512 = p mod 512 + k" using same_sector [of p k] k assms(1) by simp_all
  then show "take c (drop (p mod 512) (bdisk s (bstart (bdata i) + p div 512))) ! k = map (base_byte s i) [p..<p + c] ! k"
    using k assms by (simp add: base_byte_def)
qed

lemma base_read_chunk_spec:
  assumes "base_ok s" and "base_at s a i" and "int p < blength (bdata i)" and "0 < sz"
  shows "\<exists>b' s'. base_read_chunk a sz (int p) b s =
       Inr (chunk sz (int p) (blength (bdata i)), map (base_byte s i) [p..<p + nat (chunk sz (int p) (blength (bdata i)))], b', s')
     \<and> base_same s s' \<and> bdisk s' = bdisk s"
proof -
  let ?sec = "bstart (bdata i) + p div 512" and ?c = "chunk sz (int p) (blength (bdata i))"
  note sec = base_byte_to_sector_spec [OF assms(1-3)] base_length_spec [OF assms(2)] base_block [OF assms(2,3)]
  note c = chunk_pos [OF assms(4,3)]
  have lv: "length (bdisk s ?sec) = 512" using assms(1) by (simp add: base_ok_def)
  have bytes: "take (nat ?c) (drop (p mod 512) (bdisk s ?sec)) = map (base_byte s i) [p..<p + nat ?c]"
    using c lv by (intro sector_bytes) auto
  show ?thesis
  proof (cases "p mod 512 = 0 \<and> ?c = 512")
    case True
    obtain s2 where s2: "bread ?sec s = Inr (bdisk s ?sec, s2)" "base_same s s2" "bdisk s2 = bdisk s"
      using bread_spec [OF assms(1) sec(3)] by blast
    have "base_read_chunk a sz (int p) b s = Inr (?c, bdisk s ?sec, b, s2)"
      using sec s2(1) True by (simp add: base_read_chunk_def cmod_sector BLOCK_SECTOR_SIZE_def)
    moreover have "bdisk s ?sec = map (base_byte s i) [p..<p + nat ?c]" using bytes True lv by simp
    ultimately show ?thesis using s2(2,3) by auto
  next
    case False
    obtain s2 where s2: "base_bounce b s = (True, s2)" "base_same s s2" "bdisk s2 = bdisk s"
      using base_bounce_spec [OF assms(1)] by blast
    have "?sec < blk_size (bfs_device s2)" using s2(2) sec(3) by (simp add: base_same_def)
    then obtain s3 where s3: "bread ?sec s2 = Inr (bdisk s ?sec, s3)" "base_same s2 s3" "bdisk s3 = bdisk s"
      using bread_spec [OF base_same_ok [OF s2(2)]] s2(3) by metis
    have "base_read_chunk a sz (int p) b s = Inr (?c, take (nat ?c) (drop (p mod 512) (bdisk s ?sec)), True, s3)"
      using sec s2(1) s3(1) False c(2) by (auto simp: base_read_chunk_def cmod_sector BLOCK_SECTOR_SIZE_def Let_def)
    then show ?thesis using bytes base_same_trans [OF s2(2) s3(2)] s3(3) by auto
  qed
qed

lemma base_byte_cong: "bdisk s' = bdisk s \<Longrightarrow> base_byte s' i = base_byte s i"
  by (simp add: fun_eq_iff base_byte_def)

lemma base_contents_cong: "bdisk s' = bdisk s \<Longrightarrow> base_contents s' i = base_contents s i"
  by (simp add: base_contents_def base_byte_def)

lemma base_read_eof:
  assumes "base_at s a i" and "blength (bdata i) \<le> int p"
  shows "base_read_chunk a sz (int p) b s = Inr (0, [], b, s)"
proof -
  have "chunk sz (int p) (blength (bdata i)) \<le> 0" using assms(2) by (simp add: chunk_def c_min_def)
  then show ?thesis
    using get_base [OF assms(1)] base_length_spec [OF assms(1)] assms
    by (simp add: base_read_chunk_def base_byte_to_sector_def base_at_def)
qed

lemma base_read_loop_spec:
  assumes "base_ok s" and "base_at s a i"
  shows "\<exists>s'. base_read_loop a (int n) (int p) b acc s =
       Inr (acc @ map (base_byte s i) [p..<min (p + n) (nat (blength (bdata i)))], s') \<and> base_same s s' \<and> bdisk s' = bdisk s"
  using assms
proof (induction n arbitrary: p b acc s rule: less_induct)
  case (less n)
  let ?len = "blength (bdata i)" and ?v = "base_byte s i"
  show ?case
  proof (cases "n = 0 \<or> ?len \<le> int p")
    case True
    then have "base_read_loop a (int n) (int p) b acc s = Inr (acc, s)"
      using base_read_eof [OF less.prems(2)] by (subst base_read_loop.simps) auto
    then show ?thesis using True base_same_refl [OF less.prems(1)] by auto
  next
    case False
    define c where "c = nat (chunk (int n) (int p) ?len)"
    have pos: "0 < int n" "int p < ?len" using False by auto
    have c: "chunk (int n) (int p) ?len = int c" "0 < c" "c \<le> n" "int (p + c) \<le> ?len"
      using chunk_pos [OF pos] by (auto simp: c_def)
    obtain b' s1 where s1: "base_read_chunk a (int n) (int p) b s = Inr (int c, map ?v [p..<p + c], b', s1)"
      "base_same s s1" "bdisk s1 = bdisk s"
      using base_read_chunk_spec [OF less.prems pos(2,1), of b] c(1) by auto
    have at: "base_at s1 a i" using base_at_same [OF s1(2)] less.prems(2) by simp
    have "n - c < n" using c by simp
    from less.IH [OF this base_same_ok [OF s1(2)] at, of "p + c" b' "acc @ map ?v [p..<p + c]"]
    obtain s2 where s2: "base_read_loop a (int (n - c)) (int (p + c)) b' (acc @ map ?v [p..<p + c]) s1
        = Inr ((acc @ map ?v [p..<p + c]) @ map ?v [p + c..<min (p + n) (nat ?len)], s2)" "base_same s1 s2" "bdisk s2 = bdisk s"
      using base_byte_cong [OF s1(3)] s1(3) c(3) by auto
    have up: "[p..<p + c] @ [p + c..<min (p + n) (nat ?len)] = [p..<min (p + n) (nat ?len)]"
      using c upt_add_eq_append [of p "p + c" "min (p + n) (nat ?len) - (p + c)"] by simp
    have "base_read_loop a (int n) (int p) b acc s
        = base_read_loop a (int n - int c) (int p + int c) b' (acc @ map ?v [p..<p + c]) s1"
      using pos(1) s1(1) c(2) by (subst base_read_loop.simps) simp
    then show ?thesis
      using s2 c(3) base_same_trans [OF s1(2) s2(2)] by (auto simp: of_nat_diff map_append [symmetric] up simp del: map_append)
  qed
qed

lemma base_inode_read_at_spec:
  assumes "base_ok s" and "base_at s a i"
  shows "\<exists>s'. base_inode_read_at a (int n) (int p) s = Inr (take n (drop p (base_contents s i)), s') \<and> base_same s s' \<and> bdisk s' = bdisk s"
proof -
  have "take n (drop p (base_contents s i)) = map (base_byte s i) [p..<min (p + n) (nat (blength (bdata i)))]"
    by (simp add: base_contents_def drop_map take_map take_upt min_def)
  then show ?thesis using base_read_loop_spec [OF assms, of n p False "[]"] by (simp add: base_inode_read_at_def)
qed

section \<open>Writing\<close>

lemma base_write_chunk_spec:
  assumes "base_ok s" and "base_at s a i" and "int p < blength (bdata i)" and "0 < n" and "length buf = n"
  defines "c \<equiv> nat (chunk (int n) (int p) (blength (bdata i)))" and "sec \<equiv> bstart (bdata i) + p div 512"
  shows "\<exists>b' s'. base_write_chunk a buf (int n) (int p) b s = Inr (int c, b', s') \<and> base_same s s'
     \<and> bdisk s' = (bdisk s)(sec := take (p mod 512) (bdisk s sec) @ take c buf @ drop (p mod 512 + c) (bdisk s sec))"
proof -
  let ?len = "blength (bdata i)"
  let ?new = "take (p mod 512) (bdisk s sec) @ take c buf @ drop (p mod 512 + c) (bdisk s sec)"
  note sec = base_byte_to_sector_spec [OF assms(1-3), folded sec_def] base_length_spec [OF assms(2)] base_block [OF assms(2,3), folded sec_def]
  have pos: "0 < int n" using assms(4) by simp
  have c: "chunk (int n) (int p) ?len = int c" "0 < c" "c \<le> n" "p mod 512 + c \<le> 512"
    using chunk_pos [OF pos assms(3)] by (auto simp: c_def)
  have lv: "length (bdisk s sec) = 512" using assms(1) by (simp add: base_ok_def)
  have lnew: "length ?new = 512" using lv c assms(5) by simp
  show ?thesis
  proof (cases "p mod 512 = 0 \<and> c = 512")
    case True
    have new: "take BLOCK_SECTOR_SIZE buf = ?new" using True lv by (simp add: BLOCK_SECTOR_SIZE_def)
    obtain s2 where s2: "bwrite sec ?new s = Inr s2" "base_same s s2" "bdisk s2 = (bdisk s)(sec := ?new)"
      using bwrite_spec [OF assms(1) sec(3) lnew] by auto
    have "base_write_chunk a buf (int n) (int p) b s = Inr (int c, b, s2)"
      using sec s2(1) True c(1) unfolding new [symmetric]
      by (simp add: base_write_chunk_def cmod_sector BLOCK_SECTOR_SIZE_def)
    then show ?thesis using s2(2,3) by auto
  next
    case False
    obtain s2 where s2: "base_bounce b s = (True, s2)" "base_same s s2" "bdisk s2 = bdisk s"
      using base_bounce_spec [OF assms(1)] by blast
    have part: "int (p mod 512) > 0 \<or> int c < 512 - int (p mod 512)" using False c(4) by auto
    have b2: "sec < blk_size (bfs_device s2)" using sec(3) s2(2) by (simp add: base_same_def)
    obtain s3 where s3: "bread sec s2 = Inr (bdisk s sec, s3)" "base_same s2 s3" "bdisk s3 = bdisk s"
      using bread_spec [OF base_same_ok [OF s2(2)] b2] s2(3) by auto
    have b3: "sec < blk_size (bfs_device s3)" using b2 s3(2) by (simp add: base_same_def)
    obtain s4 where s4: "bwrite sec ?new s3 = Inr s4" "base_same s3 s4" "bdisk s4 = (bdisk s)(sec := ?new)"
      using bwrite_spec [OF base_same_ok [OF s3(2)] b3 lnew] s3(3) by auto
    have "\<not> (int (p mod 512) = 0 \<and> int c = 512)" "\<not> int c \<le> 0" using False c(2) by auto
    then have "base_write_chunk a buf (int n) (int p) b s = Inr (int c, True, s4)"
      using sec s2(1) s3(1) s4(1) part c(1)
      by (auto simp: base_write_chunk_def cmod_sector BLOCK_SECTOR_SIZE_def Let_def nat_add_distrib simp del: of_nat_mod)
    then show ?thesis
      using base_same_trans [OF base_same_trans [OF s2(2) s3(2)] s4(2)] s4(3) by auto
  qed
qed

text \<open>The sectors of the extent change where bytes were written, no other sector is touched.\<close>

definition base_wrote :: "base_fs \<Rightarrow> base_fs \<Rightarrow> base_inode \<Rightarrow> nat \<Rightarrow> byte list \<Rightarrow> bool" where
  "base_wrote s s' i p buf \<longleftrightarrow>
     (\<forall>x. bdisk s' x \<noteq> bdisk s x \<longrightarrow> bstart (bdata i) \<le> x \<and> x < bstart (bdata i) + bytes_to_sectors (blength (bdata i)))
     \<and> (\<forall>q. base_byte s' i q = (if p \<le> q \<and> q < p + length buf then buf ! (q - p) else base_byte s i q))"

lemma base_wrote_trans:
  "base_wrote s s1 i p xs \<Longrightarrow> base_wrote s1 s2 i (p + length xs) ys \<Longrightarrow> base_wrote s s2 i p (xs @ ys)"
  unfolding base_wrote_def by (intro conjI allI impI) (metis, metis, auto simp: nth_append)

lemma base_wrote_sector:
  assumes "bdisk s' = (bdisk s)(sec := take (p mod 512) (bdisk s sec) @ xs @ drop (p mod 512 + length xs) (bdisk s sec))"
    and "sec = bstart (bdata i) + p div 512" and "p mod 512 + length xs \<le> 512" and "length (bdisk s sec) = 512"
    and "0 \<le> blength (bdata i)" and "int p < blength (bdata i)"
  shows "base_wrote s s' i p xs"
proof -
  have in_ext: "p div 512 < bytes_to_sectors (blength (bdata i))"
    using assms(5,6) by (simp add: bytes_to_sectors_less zdiv_int)
  have "base_byte s' i q = (if p \<le> q \<and> q < p + length xs then xs ! (q - p) else base_byte s i q)" for q
  proof (cases "q div 512 = p div 512")
    case True
    have k: "512 * (q div 512) + q mod 512 = q" "512 * (q div 512) + p mod 512 = p" using True by (metis mult_div_mod_eq)+
    have o: "q mod 512 < 512" by simp
    have "base_byte s' i q = (take (p mod 512) (bdisk s sec) @ xs @ drop (p mod 512 + length xs) (bdisk s sec)) ! (q mod 512)"
      using True assms(1,2) by (simp add: base_byte_def)
    also have "\<dots> = (if p mod 512 \<le> q mod 512 \<and> q mod 512 < p mod 512 + length xs then xs ! (q mod 512 - p mod 512) else bdisk s sec ! (q mod 512))"
      using assms(3,4) o by (auto simp: nth_append)
    also have "\<dots> = (if p \<le> q \<and> q < p + length xs then xs ! (q - p) else base_byte s i q)"
    proof -
      have "p mod 512 \<le> q mod 512 \<longleftrightarrow> p \<le> q" "q mod 512 < p mod 512 + length xs \<longleftrightarrow> q < p + length xs" "q mod 512 - p mod 512 = q - p"
        using k by linarith+
      then show ?thesis using True assms(2) by (simp add: base_byte_def)
    qed
    finally show ?thesis .
  next
    case False
    have "\<not> (p \<le> q \<and> q < p + length xs)"
    proof
      assume r: "p \<le> q \<and> q < p + length xs"
      then have "p mod 512 + (q - p) < 512" using assms(3) by linarith
      then have "(p + (q - p)) div 512 = p div 512" by (rule same_sector)
      then show False using r False by simp
    qed
    then show ?thesis using False assms(1,2) by (auto simp: base_byte_def)
  qed
  moreover have "bstart (bdata i) \<le> x \<and> x < bstart (bdata i) + bytes_to_sectors (blength (bdata i))" if "bdisk s' x \<noteq> bdisk s x" for x
    using that in_ext assms(1,2) by (auto split: if_splits)
  ultimately show ?thesis by (simp add: base_wrote_def)
qed

lemma base_write_loop_spec:
  assumes "base_ok s" and "base_at s a i" and "int (p + length buf) \<le> blength (bdata i)"
  shows "\<exists>s'. base_write_loop a buf (int (length buf)) (int p) b bw s = Inr (bw + int (length buf), s')
     \<and> base_same s s' \<and> base_wrote s s' i p buf"
  using assms
proof (induction "length buf" arbitrary: buf p b bw s rule: less_induct)
  case less
  let ?len = "blength (bdata i)" and ?sec = "bstart (bdata i) + p div 512"
  show ?case
  proof (cases "buf = []")
    case True
    then show ?thesis
      using base_same_refl [OF less.prems(1)] by (subst base_write_loop.simps) (auto simp: base_wrote_def)
  next
    case False
    define c where "c = nat (chunk (int (length buf)) (int p) ?len)"
    have pos: "0 < int (length buf)" "int p < ?len" using False less.prems(3) by (simp_all, cases buf, auto)
    have c: "chunk (int (length buf)) (int p) ?len = int c" "0 < c" "c \<le> length buf" "p mod 512 + c \<le> 512"
      using chunk_pos [OF pos] by (auto simp: c_def)
    obtain b' s1 where s1: "base_write_chunk a buf (int (length buf)) (int p) b s = Inr (int c, b', s1)" "base_same s s1"
      "bdisk s1 = (bdisk s)(?sec := take (p mod 512) (bdisk s ?sec) @ take c buf @ drop (p mod 512 + c) (bdisk s ?sec))"
      using base_write_chunk_spec [OF less.prems(1,2) pos(2), of "length buf" buf b] pos(1) by (auto simp: c_def)
    have lt: "length (take c buf) = c" using c by simp
    have w1: "base_wrote s s1 i p (take c buf)"
      using base_wrote_sector [of s1 s ?sec p "take c buf" i] s1(3) c(4) lt pos(2) less.prems(1,2) by (simp add: base_ok_def base_at_def)
    have f1: "base_at s1 a i" using base_at_same [OF s1(2)] less.prems(2) by simp
    have "length (drop c buf) < length buf" using c False by simp
    from less.hyps [OF this base_same_ok [OF s1(2)] f1, of "p + c" b' "bw + int c"]
    obtain s2 where s2: "base_write_loop a (drop c buf) (int (length (drop c buf))) (int (p + c)) b' (bw + int c) s1
        = Inr (bw + int c + int (length (drop c buf)), s2)" "base_same s1 s2" "base_wrote s1 s2 i (p + c) (drop c buf)"
      using less.prems(3) c(3) by auto
    have "base_write_loop a buf (int (length buf)) (int p) b bw s
        = base_write_loop a (drop c buf) (int (length buf) - int c) (int p + int c) b' (bw + int c) s1"
      using pos(1) s1(1) c(2) by (subst base_write_loop.simps) simp
    moreover have "base_wrote s s2 i p buf"
      using base_wrote_trans [OF w1, of s2 "drop c buf"] s2(3) lt by simp
    ultimately show ?thesis
      using s2 c(3) base_same_trans [OF s1(2) s2(2)] by (auto simp: of_nat_diff)
  qed
qed

lemma base_wrote_contents:
  assumes "base_wrote s s' i p buf" and "p + length buf \<le> nat (blength (bdata i))"
  shows "base_contents s' i = take p (base_contents s i) @ buf @ drop (p + length buf) (base_contents s i)"
proof (rule nth_equalityI)
  show "length (base_contents s' i) = length (take p (base_contents s i) @ buf @ drop (p + length buf) (base_contents s i))"
    using assms(2) by simp
  fix q assume "q < length (base_contents s' i)"
  then have q: "q < nat (blength (bdata i))" by simp
  then have "base_contents s' i ! q = (if p \<le> q \<and> q < p + length buf then buf ! (q - p) else base_byte s i q)"
    using assms(1) by (simp add: base_contents_def base_wrote_def)
  also have "\<dots> = (take p (base_contents s i) @ buf @ drop (p + length buf) (base_contents s i)) ! q"
    using assms(2) q by (auto simp: nth_append base_contents_def)
  finally show "base_contents s' i ! q = (take p (base_contents s i) @ buf @ drop (p + length buf) (base_contents s i)) ! q" .
qed

lemma base_wrote_other:
  assumes "base_wrote s s' i p buf"
    and "bstart (bdata j) + bytes_to_sectors (blength (bdata j)) \<le> bstart (bdata i)
      \<or> bstart (bdata i) + bytes_to_sectors (blength (bdata i)) \<le> bstart (bdata j)" and "0 \<le> blength (bdata j)"
  shows "base_contents s' j = base_contents s j"
proof -
  have "base_byte s' j q = base_byte s j q" if "q < nat (blength (bdata j))" for q
  proof -
    have "q div 512 < bytes_to_sectors (blength (bdata j))" using that assms(3) by (simp add: bytes_to_sectors_less zdiv_int)
    then have "\<not> (bstart (bdata i) \<le> bstart (bdata j) + q div 512
        \<and> bstart (bdata j) + q div 512 < bstart (bdata i) + bytes_to_sectors (blength (bdata i)))"
      using assms(2) by linarith
    then have "bdisk s' (bstart (bdata j) + q div 512) = bdisk s (bstart (bdata j) + q div 512)"
      using assms(1) unfolding base_wrote_def by blast
    then show ?thesis by (simp add: base_byte_def)
  qed
  then show ?thesis by (simp add: base_contents_def)
qed

lemma base_inode_write_at_spec:
  assumes "base_ok s" and "base_at s a i" and "bdeny_write_cnt i = 0" and "int (p + length buf) \<le> blength (bdata i)"
  shows "\<exists>s'. base_inode_write_at a buf (int (length buf)) (int p) s = Inr (int (length buf), s')
     \<and> base_same s s' \<and> base_wrote s s' i p buf"
  using base_write_loop_spec [OF assms(1,2,4), of False 0] get_base [OF assms(2)] assms(3) by (simp add: base_inode_write_at_def)

end
