(* ===== verification/Vm_Invariant.thy ===== *)
theory Vm_Invariant
  imports Suppl_Page Address_Spaces Base_Io
begin

unbundle bit_operations_syntax

text \<open>
  The invariant of virtual memory (project 3) and the contents of a page: what the process would read
  in it, wherever the page is at the moment. Pages in memory and entries of the frame table
  correspond; a page that is not in memory has its contents in its own slot of swap space or in a
  file.
\<close>

section \<open>Supplemental page tables as maps\<close>

lemma eqv_page_less: "eqv page_less a b \<longleftrightarrow> fst a = fst b"
  by (auto simp: eqv_def page_less_def)

interpretation pages: hash_client page_less page_hash
  by unfold_locales (auto simp: page_less_def page_hash_def eqv_page_less not_less)

definition table_ok :: "page_elem hash \<Rightarrow> bool" where
  "table_ok h \<longleftrightarrow> wf_hash h \<and> hash_fn h = page_hash \<and> less_fn h = page_less"

lemma table_ok_good: "table_ok h \<longleftrightarrow> pages.good h"
  by (simp add: table_ok_def pages.good_def)

lemma table_unique:
  assumes "table_ok h" and "(a, p) \<in> set (elems h)" and "(a, q) \<in> set (elems h)"
  shows "p = q"
proof -
  have "abs_hash h (a, p) = Some (a, p)" "abs_hash h (a, p) = Some (a, q)"
    using pages.abs_hash_iff assms by (auto simp: table_ok_good eqv_page_less)
  then show ?thesis by simp
qed

lemma page_hash_find_entry:
  assumes "table_ok h" and "va \<noteq> 0" and "(pg_round_down va, p) \<in> set (elems h)"
  shows "page_hash_find h va = Inr p"
proof -
  have "abs_hash h (pg_round_down va, NULL) = Some (pg_round_down va, p)"
    using pages.abs_hash_iff assms by (auto simp: table_ok_good eqv_page_less)
  then show ?thesis using pages.hash_find_spec assms by (simp add: page_hash_find_def table_ok_good)
qed

lemma page_hash_find_none:
  assumes "table_ok h" and "va \<noteq> 0" and "\<And>p. (pg_round_down va, p) \<notin> set (elems h)"
  shows "page_hash_find h va = Inr NULL"
proof -
  have "abs_hash h (pg_round_down va, NULL) = None"
    using pages.abs_hash_None assms by (force simp: table_ok_good eqv_page_less)
  then show ?thesis using pages.hash_find_spec assms by (simp add: page_hash_find_def table_ok_good)
qed

section \<open>Pages and their contents\<close>

definition pd_of :: "vm \<Rightarrow> int \<Rightarrow> vaddr" where
  "pd_of s c = (case vthreads s c of None \<Rightarrow> 0 | Some t \<Rightarrow> vt_pagedir t)"

abbreviation vdirs :: "vm \<Rightarrow> vaddr set" where
  "vdirs s \<equiv> pd_of s ` dom (vthreads s)"

definition entries :: "vm \<Rightarrow> int \<Rightarrow> page_elem set" where
  "entries s c = (case vthreads s c of None \<Rightarrow> {} | Some t \<Rightarrow> set (elems (suppl_page_table t)))"

definition vpage :: "vm \<Rightarrow> int \<Rightarrow> vaddr \<Rightarrow> (vaddr \<times> bool) option" where
  "vpage s c a = page_map (vmem s) (pd_of s c) a"

definition file_bytes :: "base_fs \<Rightarrow> addr \<Rightarrow> byte list" where
  "file_bytes fs f =
     (case bfiles fs f of None \<Rightarrow> []
      | Some fl \<Rightarrow> (case binodes fs (f_inode fl) of None \<Rightarrow> [] | Some i \<Rightarrow> base_contents fs i))"

definition stored :: "vm \<Rightarrow> spte \<Rightarrow> byte list" where
  "stored s e =
     (if sp_type e = type_swap then the (swap_map (vswap s) (sp_swap_idx e))
      else take (unat (sp_read_bytes e)) (drop (nat (sp_offset e)) (file_bytes (vfs s) (sp_file e)))
           @ replicate (unat (sp_zero_bytes e)) 0)"

definition page_content :: "vm \<Rightarrow> int \<Rightarrow> vaddr \<Rightarrow> addr \<Rightarrow> byte list" where
  "page_content s c a p =
     (case vpage s c a of Some (k, w) \<Rightarrow> page_bytes (vmem s) k | None \<Rightarrow> stored s (the (sptes s p)))"

section \<open>The invariant\<close>

definition file_page :: "base_fs \<Rightarrow> spte \<Rightarrow> bool" where
  "file_page fs e \<longleftrightarrow> sp_file e \<noteq> NULL \<and> 0 \<le> sp_offset e \<and> unat (sp_read_bytes e) + unat (sp_zero_bytes e) = 4096
     \<and> (\<exists>fl i. bfiles fs (sp_file e) = Some fl \<and> base_at fs (f_inode fl) i
          \<and> nat (sp_offset e) + unat (sp_read_bytes e) \<le> length (base_contents fs i))"

definition spte_ok :: "base_fs \<Rightarrow> vaddr \<Rightarrow> spte \<Rightarrow> bool" where
  "spte_ok fs a e \<longleftrightarrow> sp_addr e = a \<and> sp_lock e = vlock_init \<and> sp_timestamp e < INT64_MAX
     \<and> sp_type e \<in> {type_mmap, type_file, type_swap} \<and> (sp_type e \<noteq> type_swap \<longrightarrow> file_page fs e)"

definition page_entry_ok :: "vm \<Rightarrow> vaddr \<Rightarrow> addr \<Rightarrow> bool" where
  "page_entry_ok s a p \<longleftrightarrow> p \<noteq> NULL \<and> aligned a \<and> is_user_vaddr a \<and> (\<exists>e. sptes s p = Some e \<and> spte_ok (vfs s) a e)"

definition ft_key :: "frame_tab_entry \<Rightarrow> int \<times> addr \<times> vaddr" where
  "ft_key f = (ft_owner f, ft_spte f, ft_frame f)"

definition mapped_pages :: "vm \<Rightarrow> (int \<times> addr \<times> vaddr) set" where
  "mapped_pages s = {(c, p, k). \<exists>a w. (a, p) \<in> entries s c \<and> vpage s c a = Some (k, w)}"

text \<open>The slot of a page that is swapped out.\<close>

definition swapped :: "vm \<Rightarrow> addr \<Rightarrow> nat \<Rightarrow> bool" where
  "swapped s p i \<longleftrightarrow> (\<exists>c a e. (a, p) \<in> entries s c \<and> vpage s c a = None \<and> sptes s p = Some e
     \<and> sp_type e = type_swap \<and> sp_swap_idx e = i)"

text \<open>Resources that do not depend on pages.\<close>

definition vm_base :: "vm \<Rightarrow> bool" where
  "vm_base s \<longleftrightarrow> inj_on (pd_of s) (dom (vthreads s)) \<and> vcur s \<in> dom (vthreads s) \<and> wf_swap (vswap s) \<and> base_ok (vfs s)
     \<and> vfile_lock s = vlock_init \<and> (\<forall>n. vm_allocs s n \<noteq> NULL) \<and> vticks s < INT64_MAX
     \<and> (\<forall>c t. vthreads s c = Some t \<longrightarrow> table_ok (suppl_page_table t))
     \<and> (\<forall>c d a b p. (a, p) \<in> entries s c \<longrightarrow> (b, p) \<in> entries s d \<longrightarrow> c = d \<and> a = b)"

definition pages_ok :: "vm \<Rightarrow> bool" where
  "pages_ok s \<longleftrightarrow> (\<forall>c a p. (a, p) \<in> entries s c \<longrightarrow> page_entry_ok s a p)
     \<and> (\<forall>c va k w. c \<in> dom (vthreads s) \<longrightarrow> is_user_vaddr va \<longrightarrow> vpage s c va = Some (k, w) \<longrightarrow>
          (\<exists>p e. (pg_round_down va, p) \<in> entries s c \<and> sptes s p = Some e \<and> w = sp_writable e))"

text \<open>\<open>P\<close> holds the frames that have been reserved for a page and are not mapped yet.\<close>

definition frames_ok :: "(int \<times> addr \<times> vaddr) set \<Rightarrow> vm \<Rightarrow> bool" where
  "frames_ok P s \<longleftrightarrow> distinct (map ft_frame (frame_table s)) \<and> ft_key ` set (frame_table s) = mapped_pages s \<union> P
     \<and> (\<forall>x\<in>P. snd (snd x) \<in> user_used (vmem s))"

definition slots_ok :: "vm \<Rightarrow> bool" where
  "slots_ok s \<longleftrightarrow> (\<forall>p i. swapped s p i \<longrightarrow> swap_map (vswap s) i \<noteq> None)
     \<and> (\<forall>p q i. swapped s p i \<longrightarrow> swapped s q i \<longrightarrow> p = q)"

definition vm_inv :: "(int \<times> addr \<times> vaddr) set \<Rightarrow> vm \<Rightarrow> bool" where
  "vm_inv P s \<longleftrightarrow> vm_base s \<and> spaces (vmem s) (vdirs s) \<and> pages_ok s \<and> frames_ok P s \<and> slots_ok s"

lemma pages_okD:
  assumes "pages_ok s"
  shows "(a, p) \<in> entries s c \<Longrightarrow> page_entry_ok s a p"
    "c \<in> dom (vthreads s) \<Longrightarrow> is_user_vaddr va \<Longrightarrow> vpage s c va = Some (k, w) \<Longrightarrow>
       \<exists>p e. (pg_round_down va, p) \<in> entries s c \<and> sptes s p = Some e \<and> w = sp_writable e"
  using assms unfolding pages_ok_def by blast+

lemma vm_invD:
  assumes "vm_inv P s"
  shows "vm_base s" "spaces (vmem s) (vdirs s)" "pages_ok s" "frames_ok P s" "slots_ok s"
  using assms by (simp_all add: vm_inv_def)

lemma vm_baseD:
  assumes "vm_base s"
  shows "inj_on (pd_of s) (dom (vthreads s))" "vcur s \<in> dom (vthreads s)" "wf_swap (vswap s)" "base_ok (vfs s)"
    "vfile_lock s = vlock_init" "vm_allocs s n \<noteq> NULL" "vticks s < INT64_MAX" "vthreads s c = Some t \<Longrightarrow> table_ok (suppl_page_table t)"
    "(a, p) \<in> entries s c \<Longrightarrow> (b, p) \<in> entries s d \<Longrightarrow> c = d" "(a, p) \<in> entries s c \<Longrightarrow> (b, p) \<in> entries s d \<Longrightarrow> a = b"
  using assms unfolding vm_base_def by blast+

lemma entries_dom: "(a, p) \<in> entries s c \<Longrightarrow> c \<in> dom (vthreads s)"
  by (auto simp: entries_def split: option.splits)

lemma entries_unique: "vm_base s \<Longrightarrow> (a, p) \<in> entries s c \<Longrightarrow> (a, q) \<in> entries s c \<Longrightarrow> p = q"
  by (auto simp: entries_def split: option.splits dest: table_unique [OF vm_baseD(8)])

text \<open>An entry of the frame table belongs to a page in memory.\<close>

lemma frame_entry:
  assumes "vm_inv {} s" and "f \<in> set (frame_table s)"
  obtains a e w where "(a, ft_spte f) \<in> entries s (ft_owner f)" "sptes s (ft_spte f) = Some e" "spte_ok (vfs s) a e" "aligned a" "is_user_vaddr a"
    "ft_spte f \<noteq> NULL" "vpage s (ft_owner f) a = Some (ft_frame f, w)" "ft_frame f \<in> user_used (vmem s)" "ft_owner f \<in> dom (vthreads s)"
proof -
  have "(ft_owner f, ft_spte f, ft_frame f) \<in> mapped_pages s"
    using vm_invD(4) [OF assms(1)] assms(2) by (auto simp: ft_key_def frames_ok_def)
  then obtain a w where a: "(a, ft_spte f) \<in> entries s (ft_owner f)" "vpage s (ft_owner f) a = Some (ft_frame f, w)"
    unfolding mapped_pages_def by blast
  note ok = pages_okD(1) [OF vm_invD(3) [OF assms(1)] a(1)] and d = entries_dom [OF a(1)]
  have "ft_frame f \<in> user_used (vmem s)"
    using spacesD(5) [OF vm_invD(2) [OF assms(1)], of "pd_of s (ft_owner f)" a] d ok a(2) by (auto simp: vpage_def page_entry_ok_def)
  then show ?thesis using that a ok d by (auto simp: page_entry_ok_def)
qed

end
