(* ===== verification/Vm_Evict.thy ===== *)
theory Vm_Evict
  imports Vm_Invariant
begin

unbundle bit_operations_syntax

text \<open>
  Getting a frame. Looking for a victim changes time stamps only; evicting it moves its page to swap
  space and reserves the frame for the new page; the contents of every page stay what they were.
\<close>

section \<open>Parts of the state\<close>

lemma set_spte_simps [simp]:
  "vmem (set_spte p g s) = vmem s" "vswap (set_spte p g s) = vswap s" "vfs (set_spte p g s) = vfs s" "vfile_lock (set_spte p g s) = vfile_lock s"
  "frame_table (set_spte p g s) = frame_table s" "vthreads (set_spte p g s) = vthreads s" "vcur (set_spte p g s) = vcur s"
  "vticks (set_spte p g s) = vticks s" "vm_allocs (set_spte p g s) = vm_allocs s"
  "sptes (set_spte p g s) = (sptes s)(p := map_option g (sptes s p))"
  by (simp_all add: set_spte_def)

lemma pd_of_cong: "vthreads s' = vthreads s \<Longrightarrow> pd_of s' = pd_of s"
  by (simp add: fun_eq_iff pd_of_def)

lemma entries_cong: "vthreads s' = vthreads s \<Longrightarrow> entries s' = entries s"
  by (simp add: fun_eq_iff entries_def)

lemma vm_base_cong:
  assumes "vm_base s" and "vthreads s' = vthreads s" and "vcur s' = vcur s" and "vticks s' = vticks s" and "wf_swap (vswap s')" and "base_ok (vfs s')"
    and "vfile_lock s' = vlock_init" and "\<And>n. vm_allocs s' n \<noteq> NULL"
  shows "vm_base s'"
  using assms(1) unfolding vm_base_def entries_cong [OF assms(2)] pd_of_cong [OF assms(2)] assms(2-4) by (simp add: assms(5-8))

lemma get_spte: "vm_inv P s \<Longrightarrow> (a, p) \<in> entries s c \<Longrightarrow> \<exists>e. get_obj (sptes s) p = Inr e \<and> sptes s p = Some e \<and> spte_ok (vfs s) a e"
  using pages_okD(1) [OF vm_invD(3)] by (fastforce simp: page_entry_ok_def get_obj_def)

lemma get_vthread: "c \<in> dom (vthreads s) \<Longrightarrow> \<exists>t. vthread_of c s = Inr t \<and> vthreads s c = Some t \<and> pd_of s c = vt_pagedir t"
  by (auto simp: vthread_of_def pd_of_def)

section \<open>Time stamps\<close>

definition untimed :: "(addr \<rightharpoonup> spte) \<Rightarrow> addr \<Rightarrow> spte option" where
  "untimed h p = map_option (\<lambda>e. e\<lparr>sp_timestamp := 0\<rparr>) (h p)"

definition touched :: "vm \<Rightarrow> vm \<Rightarrow> bool" where
  "touched s s' \<longleftrightarrow> s' = s\<lparr>sptes := sptes s'\<rparr> \<and> untimed (sptes s') = untimed (sptes s)
     \<and> (\<forall>p e e'. sptes s p = Some e \<longrightarrow> sptes s' p = Some e' \<longrightarrow> sp_timestamp e' = sp_timestamp e \<or> sp_timestamp e' = vticks s)"

lemma touched_refl: "touched s s"
  by (simp add: touched_def)

lemma untimed_cases:
  assumes "untimed h' = untimed h"
  shows "(h p = None \<and> h' p = None) \<or> (\<exists>e e'. h p = Some e \<and> h' p = Some e' \<and> e' = e\<lparr>sp_timestamp := sp_timestamp e'\<rparr>)"
proof -
  have "map_option (\<lambda>e. e\<lparr>sp_timestamp := 0\<rparr>) (h' p) = map_option (\<lambda>e. e\<lparr>sp_timestamp := 0\<rparr>) (h p)"
    using assms by (simp add: fun_eq_iff untimed_def)
  moreover have "e\<lparr>sp_timestamp := 0\<rparr> = e'\<lparr>sp_timestamp := 0\<rparr> \<Longrightarrow> e' = e\<lparr>sp_timestamp := sp_timestamp e'\<rparr>" for e e' :: spte
    by (cases e; cases e') simp
  ultimately show ?thesis by (cases "h p"; cases "h' p") auto
qed

lemma touched_parts:
  assumes "touched s s'"
  shows "vmem s' = vmem s" "vswap s' = vswap s" "vfs s' = vfs s" "vfile_lock s' = vfile_lock s" "frame_table s' = frame_table s"
    "vthreads s' = vthreads s" "vcur s' = vcur s" "vticks s' = vticks s" "vm_allocs s' = vm_allocs s"
  using assms unfolding touched_def by (metis vm.ext_inject vm.surjective vm.update_convs(6))+

lemma touched_trans:
  assumes "touched a b" and "touched b c"
  shows "touched a c"
proof -
  have "sp_timestamp e' = sp_timestamp e \<or> sp_timestamp e' = vticks a" if "sptes a p = Some e" "sptes c p = Some e'" for p e e'
  proof -
    have "untimed (sptes b) = untimed (sptes a)" using assms(1) by (simp add: touched_def)
    from untimed_cases [OF this, of p] obtain e1 where "sptes b p = Some e1" using \<open>sptes a p = Some e\<close> by auto
    then show ?thesis using assms that touched_parts(8) [OF assms(1)] unfolding touched_def by metis
  qed
  moreover have "c = a\<lparr>sptes := sptes c\<rparr>" using assms unfolding touched_def by (metis vm.surjective vm.update_convs(6))
  ultimately show ?thesis using assms by (simp add: touched_def)
qed

lemma touched_entry:
  assumes "touched s s'"
  shows "sptes s p = None \<Longrightarrow> sptes s' p = None"
    "sptes s p = Some e \<Longrightarrow> \<exists>e'. sptes s' p = Some e' \<and> sp_type e' = sp_type e \<and> sp_swap_idx e' = sp_swap_idx e \<and> sp_writable e' = sp_writable e
       \<and> stored s' e' = stored s e \<and> (vticks s < INT64_MAX \<longrightarrow> spte_ok (vfs s) a e \<longrightarrow> spte_ok (vfs s) a e')"
proof -
  have u: "untimed (sptes s') = untimed (sptes s)" using assms by (simp add: touched_def)
  show "sptes s p = None \<Longrightarrow> sptes s' p = None" using untimed_cases [OF u, of p] by auto
  assume e: "sptes s p = Some e"
  then obtain e' where e': "sptes s' p = Some e'" "e' = e\<lparr>sp_timestamp := sp_timestamp e'\<rparr>" using untimed_cases [OF u, of p] by auto
  have t: "sp_timestamp e' = sp_timestamp e \<or> sp_timestamp e' = vticks s" using assms e e'(1) by (simp add: touched_def)
  have f: "sp_type e' = sp_type e" "sp_swap_idx e' = sp_swap_idx e" "sp_writable e' = sp_writable e" "sp_file e' = sp_file e" "sp_offset e' = sp_offset e"
     "sp_read_bytes e' = sp_read_bytes e" "sp_zero_bytes e' = sp_zero_bytes e" "sp_addr e' = sp_addr e" "sp_lock e' = sp_lock e"
    by (subst e'(2), simp)+
  have "stored s' e' = stored s e" by (simp add: stored_def f touched_parts [OF assms])
  moreover have "vticks s < INT64_MAX \<longrightarrow> spte_ok (vfs s) a e \<longrightarrow> spte_ok (vfs s) a e'" using t by (auto simp: spte_ok_def f file_page_def)
  ultimately show "\<exists>e'. sptes s' p = Some e' \<and> sp_type e' = sp_type e \<and> sp_swap_idx e' = sp_swap_idx e \<and> sp_writable e' = sp_writable e
       \<and> stored s' e' = stored s e \<and> (vticks s < INT64_MAX \<longrightarrow> spte_ok (vfs s) a e \<longrightarrow> spte_ok (vfs s) a e')"
    using e'(1) f(1-3) by blast
qed

lemma touched_swapped:
  assumes "touched s s'"
  shows "swapped s' p i \<longleftrightarrow> swapped s p i"
proof -
  note eq = touched_parts [OF assms] entries_cong [OF touched_parts(6) [OF assms]] pd_of_cong [OF touched_parts(6) [OF assms]]
  have v: "vpage s' = vpage s" by (simp add: fun_eq_iff vpage_def eq)
  show ?thesis
    using touched_entry [OF assms, of p] unfolding swapped_def v eq
    by (cases "sptes s p") (fastforce, fastforce)
qed

lemma vm_inv_touched:
  assumes "vm_inv P s" and "touched s s'"
  shows "vm_inv P s'" and "page_content s' c a p = page_content s c a p \<or> sptes s p = None"
proof -
  note eq = touched_parts [OF assms(2)] entries_cong [OF touched_parts(6) [OF assms(2)]] pd_of_cong [OF touched_parts(6) [OF assms(2)]]
  note b = vm_invD [OF assms(1)]
  have v: "vpage s' = vpage s" by (simp add: fun_eq_iff vpage_def eq)
  have t: "vticks s < INT64_MAX" using vm_baseD(7) [OF b(1)] .
  have e: "page_entry_ok s' a p" if "page_entry_ok s a p" for a p
    using that touched_entry(2) [OF assms(2), of p _ a] t unfolding page_entry_ok_def eq by blast
  have "pages_ok s'"
    unfolding pages_ok_def v eq
  proof (intro conjI allI impI)
    show "page_entry_ok s' a p" if "(a, p) \<in> entries s c" for c a p using e pages_okD(1) [OF b(3) that] by blast
    show "\<exists>p e. (pg_round_down va, p) \<in> entries s c \<and> sptes s' p = Some e \<and> w = sp_writable e"
      if "c \<in> dom (vthreads s)" "is_user_vaddr va" "vpage s c va = Some (k, w)" for c va k w
      using pages_okD(2) [OF b(3) that] touched_entry(2) [OF assms(2)] by metis
  qed
  moreover have "vm_base s'"
    using vm_base_cong [OF b(1) eq(6-8)] vm_baseD [OF b(1)] by (simp add: eq)
  moreover have "frames_ok P s'" using b(4) by (simp add: frames_ok_def mapped_pages_def eq v)
  moreover have "slots_ok s'" using b(5) by (simp add: slots_ok_def touched_swapped [OF assms(2)] eq)
  ultimately show "vm_inv P s'" using b(2) by (simp add: vm_inv_def eq)
  show "page_content s' c a p = page_content s c a p \<or> sptes s p = None"
    using touched_entry(2) [OF assms(2), of p _ a] by (cases "sptes s p") (fastforce simp: page_content_def v eq split: option.splits)+
qed

section \<open>Choosing a victim\<close>

lemma touch_one:
  assumes "sptes s p = Some e"
  shows "touched s (set_spte p (\<lambda>e. e\<lparr>sp_timestamp := vticks s\<rparr>) s)"
  using assms by (auto simp: touched_def set_spte_def untimed_def fun_eq_iff)

lemma unaccessed_loop_spec:
  assumes "vm_inv {} s" and "set fs \<subseteq> set (frame_table s)"
  shows "\<exists>fo s'. unaccessed_loop fs s = Inr (fo, s') \<and> touched s s' \<and> (\<forall>f. fo = Some f \<longrightarrow> f \<in> set fs)"
  using assms
proof (induction fs arbitrary: s)
  case Nil
  then show ?case by (simp add: touched_refl)
next
  case (Cons f fs)
  obtain a e where e: "(a, ft_spte f) \<in> entries s (ft_owner f)" "sptes s (ft_spte f) = Some e" "spte_ok (vfs s) a e" "is_user_vaddr a" "ft_spte f \<noteq> NULL"
    using frame_entry [OF Cons.prems(1), of f] Cons.prems(2) by (metis list.set_intros(1) subsetD)
  note b = vm_invD [OF Cons.prems(1)]
  obtain t where t: "vthread_of (vcur s) s = Inr t" "vthreads s (vcur s) = Some t" "pd_of s (vcur s) = vt_pagedir t"
    using get_vthread [OF vm_baseD(2) [OF b(1)]] by blast
  have pd: "wf_pd (vmem s) (vt_pagedir t)" using spacesD(3) [OF b(2)] t(2,3) by (metis domI imageI)
  have acc: "pagedir_is_accessed (vt_pagedir t) (sp_addr e) (vmem s) = Inr (pte_of (vmem s) (vt_pagedir t) a AND PTE_A \<noteq> 0)"
    using pagedir_flag_spec(2) [OF pd e(4)] e(3) by (simp add: spte_ok_def)
  have g: "get_obj (sptes s) (ft_spte f) = Inr e" using e(2,5) by (simp add: get_obj_def)
  let ?s = "set_spte (ft_spte f) (\<lambda>e. e\<lparr>sp_timestamp := vticks s\<rparr>) s"
  note tc = touch_one [OF e(2)]
  show ?case
  proof (cases "pte_of (vmem s) (vt_pagedir t) a AND PTE_A \<noteq> 0")
    case False
    then show ?thesis using g t(1) acc by (simp add: touched_refl)
  next
    case True
    obtain fo s' where "unaccessed_loop fs ?s = Inr (fo, s')" "touched ?s s'" "\<forall>f. fo = Some f \<longrightarrow> f \<in> set fs"
      using Cons.IH [OF vm_inv_touched(1) [OF Cons.prems(1) tc]] Cons.prems(2) by auto
    then show ?thesis using g t(1) acc True touched_trans [OF tc] by auto
  qed
qed

lemma longest_loop_spec:
  assumes "\<And>f. f \<in> set fs \<Longrightarrow> ft_spte f \<noteq> NULL \<and> (\<exists>e. sptes s (ft_spte f) = Some e)"
  shows "\<exists>r. longest_loop fs t acc s = Inr r \<and> (r = acc \<or> r \<in> Some ` set fs)
     \<and> (r = None \<longrightarrow> (\<forall>f\<in>set fs. \<forall>e. sptes s (ft_spte f) = Some e \<longrightarrow> t \<le> sp_timestamp e))"
  using assms
proof (induction fs arbitrary: t acc)
  case (Cons f fs)
  obtain e where e: "sptes s (ft_spte f) = Some e" "get_obj (sptes s) (ft_spte f) = Inr e"
    using Cons.prems [of f] by (auto simp: get_obj_def)
  show ?case
  proof (cases "sp_timestamp e < t")
    case True
    then show ?thesis using Cons.IH [of "sp_timestamp e" "Some f"] Cons.prems e by auto
  next
    case False
    then show ?thesis using Cons.IH [of t acc] Cons.prems e by auto
  qed
qed simp

lemma find_longest_time_page_spec:
  assumes "vm_inv {} s" and "frame_table s \<noteq> []"
  shows "\<exists>f. find_longest_time_page s = Inr (Some f) \<and> f \<in> set (frame_table s)"
proof -
  have en: "ft_spte f \<noteq> NULL \<and> (\<exists>e. sptes s (ft_spte f) = Some e \<and> sp_timestamp e < INT64_MAX)" if "f \<in> set (frame_table s)" for f
    using frame_entry [OF assms(1) that] by (metis spte_ok_def)
  then obtain r where r: "find_longest_time_page s = Inr r" "r = None \<or> r \<in> Some ` set (frame_table s)"
     "r = None \<longrightarrow> (\<forall>f\<in>set (frame_table s). \<forall>e. sptes s (ft_spte f) = Some e \<longrightarrow> INT64_MAX \<le> sp_timestamp e)"
    using longest_loop_spec [of "frame_table s" s INT64_MAX None] unfolding find_longest_time_page_def by blast
  have "r \<noteq> None" using r(3) en [of "hd (frame_table s)"] assms(2) by (metis hd_in_set not_le)
  then show ?thesis using r(1,2) by auto
qed

section \<open>Eviction\<close>

lemma lock_free: "vlock_acquire c vlock_init = Inr \<lparr>lk_value = 0, lk_holder = Some c\<rparr>"
  "vlock_release c \<lparr>lk_value = 0, lk_holder = Some c\<rparr> = Inr vlock_init"
  by (simp_all add: vlock_acquire_def vlock_release_def vlock_init_def)

lemma spte_lock_id: "sp_lock e = l \<Longrightarrow> e\<lparr>sp_lock := l\<rparr> = e"
  by (cases e) simp

lemma do_evict_frame_eq:
  assumes "p \<noteq> NULL" and "p \<noteq> ft_spte f" and "sptes s p = Some e" and "sp_lock e = vlock_init" and "ft_spte f \<noteq> NULL" and "sptes s (ft_spte f) = Some evi"
    and "vthreads s (vcur s) = Some t" and "vthreads s (ft_owner f) = Some ow" and "vm_allocs s 0 \<noteq> NULL"
    and "pagedir_is_dirty (vt_pagedir t) (sp_addr evi) (vmem s) = Inr di" and "\<not> (di \<and> sp_type evi = type_mmap)"
    and "swap_out (ft_frame f) (vswap s) (vmem s) = Inr (j, sw)"
    and "pagedir_clear_page (vt_pagedir ow) (sp_addr evi) (vmem s) = Inr m"
  shows "do_evict_frame p f s = Inr (ft_frame f, s\<lparr>vswap := sw, vmem := m\<lparr>ram_of := memset_ram (ram_of m) (ft_frame f) 0 PGSIZE\<rparr>,
     vm_allocs := (\<lambda>n. vm_allocs s (Suc n)),
     frame_table := remove1 f (frame_table s) @ [\<lparr>ft_frame = ft_frame f, ft_spte = p, ft_owner = vcur s\<rparr>],
     sptes := (sptes s)(ft_spte f \<mapsto> evi\<lparr>sp_type := type_swap, sp_swap_idx := j\<rparr>)\<rparr>)"
proof -
  have id: "(sptes s)(p \<mapsto> e) = sptes s" using assms(3) by (auto simp: fun_eq_iff)
  show ?thesis
    using assms
    by (auto simp: do_evict_frame_def lock_spte_def unlock_spte_def save_page_def get_obj_def lock_free vthread_of_def set_spte_def
        vmalloc_def Let_def fun_upd_twist id spte_lock_id)
qed

text \<open>
  A frame has been reserved: the invariant holds with the frame set aside, every page has the contents
  it had, and the new page is not in memory yet.
\<close>

definition reserved :: "vm \<Rightarrow> vm \<Rightarrow> vaddr \<Rightarrow> addr \<Rightarrow> vaddr \<Rightarrow> bool" where
  "reserved s s' a p k \<longleftrightarrow> vm_inv {(vcur s, p, k)} s' \<and> vthreads s' = vthreads s \<and> vcur s' = vcur s \<and> vfs s' = vfs s \<and> vfile_lock s' = vfile_lock s
     \<and> kernel_pool (vmem s') = kernel_pool (vmem s) \<and> untimed (sptes s') p = untimed (sptes s) p \<and> vpage s' (vcur s) a = None
     \<and> (\<forall>c b q. (b, q) \<in> entries s c \<longrightarrow> page_content s' c b q = page_content s c b q)"

text \<open>No page in memory may be a modified page of a mapped file, as the running process sees it.\<close>

definition victim_ok :: "vm \<Rightarrow> frame_tab_entry \<Rightarrow> bool" where
  "victim_ok s f \<longleftrightarrow> (\<forall>evi. sptes s (ft_spte f) = Some evi \<longrightarrow> sp_type evi = type_mmap \<longrightarrow>
     pte_of (vmem s) (pd_of s (vcur s)) (sp_addr evi) AND PTE_D = 0)"

lemma frame_memset:
  assumes "aligned k" and "m' = m\<lparr>ram_of := memset_ram (ram_of m) k 0 PGSIZE\<rparr>"
  shows "same_pages (- {k}) m m'"
  using put_bytes_same [OF assms(1), of "replicate PGSIZE 0" m] by (simp add: assms(2) memset_ram_def PGSIZE_def)

lemma remove1_keys:
  assumes "distinct (map ft_frame fs)" and "f \<in> set fs"
  shows "ft_key ` set (remove1 f fs) = ft_key ` set fs - {ft_key f}" "distinct (map ft_frame (remove1 f fs))"
    "ft_frame f \<notin> ft_frame ` set (remove1 f fs)"
proof -
  have d: "distinct fs" using assms(1) by (simp add: distinct_map)
  have inj: "inj_on ft_frame (set fs)" using assms(1) by (simp add: distinct_map)
  have set: "set (remove1 f fs) = set fs - {f}" using d by simp
  have "g = f" if "g \<in> set fs" "ft_frame g = ft_frame f" for g using inj that assms(2) by (auto dest: inj_onD)
  then show "ft_key ` set (remove1 f fs) = ft_key ` set fs - {ft_key f}" "ft_frame f \<notin> ft_frame ` set (remove1 f fs)"
    unfolding set by (auto simp: ft_key_def)
  show "distinct (map ft_frame (remove1 f fs))" using d inj set by (auto simp: distinct_map intro: inj_on_subset)
qed

text \<open>Unmapping the page of a frame and clearing the frame.\<close>

definition unmapped :: "vaddr \<Rightarrow> (vaddr \<times> bool) option \<Rightarrow> (vaddr \<times> bool) option" where
  "unmapped k x = (case x of Some (j, w) \<Rightarrow> if j = k then None else x | None \<Rightarrow> None)"

lemma unmapped_Some: "unmapped k x = Some (j, w) \<longleftrightarrow> x = Some (j, w) \<and> j \<noteq> k"
  by (auto simp: unmapped_def split: option.splits if_splits)

lemma spaces_evict:
  assumes "spaces m D" and "pd \<in> D" and "aligned a" and "is_user_vaddr a" and "page_map m pd a = Some (k, w)"
  shows "\<exists>m1 m2. pagedir_clear_page pd a m = Inr m1 \<and> m2 = m1\<lparr>ram_of := memset_ram (ram_of m1) k 0 PGSIZE\<rparr> \<and> spaces m2 D
     \<and> user_pool m2 = user_pool m \<and> kernel_pool m2 = kernel_pool m \<and> (\<forall>j\<in>user_used m - {k}. page_bytes m2 j = page_bytes m j)
     \<and> (\<forall>qd\<in>D. \<forall>va. is_user_vaddr va \<longrightarrow> page_map m2 qd va = unmapped k (page_map m qd va))"
proof -
  from spaces_clear [OF assms]
  obtain m1 where m: "pagedir_clear_page pd a m = Inr m1" "spaces m1 D" "m1 = m\<lparr>ram_of := ram_of m1\<rparr>"
     "\<forall>qd\<in>D. \<forall>va. is_user_vaddr va \<longrightarrow> page_map m1 qd va = (if qd = pd \<and> pg_round_down va = a then None else page_map m qd va)"
     "\<forall>j\<in>user_used m. page_bytes m1 j = page_bytes m j"
    by (elim exE conjE)
  have up: "user_pool m1 = user_pool m" "kernel_pool m1 = kernel_pool m"
    using arg_cong [OF m(3), of user_pool] arg_cong [OF m(3), of kernel_pool] by simp_all
  define m2 where "m2 = m1\<lparr>ram_of := memset_ram (ram_of m1) k 0 PGSIZE\<rparr>"
  have k: "k \<in> user_used m1" using spacesD(5) [OF assms(1,2,4,5)] up by simp
  have "same_pages (- {k}) m1 m2" using frame_memset [of k m2 m1] user_frame_props(1) [OF spacesD(1) [OF m(2)] k] by (simp add: m2_def)
  moreover have "m2 = m1\<lparr>ram_of := ram_of m2\<rparr>" by (simp add: m2_def)
  ultimately have w: "spaces m2 D" "\<And>qd va. qd \<in> D \<Longrightarrow> is_user_vaddr va \<Longrightarrow> page_map m2 qd va = page_map m1 qd va"
     "\<And>j. j \<in> user_used m1 \<Longrightarrow> j \<noteq> k \<Longrightarrow> page_bytes m2 j = page_bytes m1 j" "user_pool m2 = user_pool m1" "kernel_pool m2 = kernel_pool m1"
    using spaces_write [OF m(2) k] by blast+
  have "page_map m2 qd va = unmapped k (page_map m qd va)" if h: "qd \<in> D" "is_user_vaddr va" for qd va
  proof -
    have ra: "pg_round_down a = a" using aligned_round [OF assms(3)] .
    have 1: "page_map m2 qd va = (if qd = pd \<and> pg_round_down va = a then None else page_map m qd va)"
      using w(2) [OF h] m(4) [rule_format, OF h] by simp
    have 2: "page_map m qd va = Some (k, x) \<Longrightarrow> qd = pd \<and> pg_round_down va = a" for x
      using spaces_unique [OF assms(1) h(1) assms(2) h(2) assms(4) _ assms(5)] ra by auto
    have 3: "page_map m qd va = Some (k, w)" if "qd = pd" "pg_round_down va = a"
      using page_map_round [of va a m pd] that ra assms(5) by simp
    show ?thesis using 1 2 3 by (cases "page_map m qd va") (auto simp: unmapped_def)
  qed
  then show ?thesis using m(1,5) w(1,3-5) up unfolding m2_def by auto
qed

text \<open>What evicting the page of \<open>f\<close> does: the page moves to slot \<open>j\<close>, the frame is kept for the page \<open>p\<close>.\<close>

definition moved :: "vm \<Rightarrow> vm \<Rightarrow> frame_tab_entry \<Rightarrow> nat \<Rightarrow> addr \<Rightarrow> bool" where
  "moved s s' f j p \<longleftrightarrow> vthreads s' = vthreads s \<and> vcur s' = vcur s \<and> vticks s' = vticks s \<and> vfs s' = vfs s \<and> vfile_lock s' = vfile_lock s
     \<and> vm_allocs s' = (\<lambda>n. vm_allocs s (Suc n)) \<and> wf_swap (vswap s') \<and> swap_map (vswap s) j = None
     \<and> swap_map (vswap s') = (swap_map (vswap s))(j \<mapsto> page_bytes (vmem s) (ft_frame f))
     \<and> frame_table s' = remove1 f (frame_table s) @ [\<lparr>ft_frame = ft_frame f, ft_spte = p, ft_owner = vcur s\<rparr>]
     \<and> (\<exists>evi. sptes s (ft_spte f) = Some evi \<and> sptes s' = (sptes s)(ft_spte f \<mapsto> evi\<lparr>sp_type := type_swap, sp_swap_idx := j\<rparr>))
     \<and> spaces (vmem s') (vdirs s) \<and> user_pool (vmem s') = user_pool (vmem s) \<and> kernel_pool (vmem s') = kernel_pool (vmem s)
     \<and> (\<forall>k\<in>user_used (vmem s) - {ft_frame f}. page_bytes (vmem s') k = page_bytes (vmem s) k)
     \<and> (\<forall>c\<in>dom (vthreads s). \<forall>va. is_user_vaddr va \<longrightarrow> vpage s' c va = unmapped (ft_frame f) (vpage s c va))"

lemma movedD:
  assumes "moved s s' f j p"
  shows "vthreads s' = vthreads s" "vcur s' = vcur s" "vticks s' = vticks s" "vfs s' = vfs s" "vfile_lock s' = vfile_lock s"
    "vm_allocs s' = (\<lambda>n. vm_allocs s (Suc n))" "wf_swap (vswap s')" "swap_map (vswap s) j = None"
    "swap_map (vswap s') = (swap_map (vswap s))(j \<mapsto> page_bytes (vmem s) (ft_frame f))"
    "frame_table s' = remove1 f (frame_table s) @ [\<lparr>ft_frame = ft_frame f, ft_spte = p, ft_owner = vcur s\<rparr>]"
    "spaces (vmem s') (vdirs s)" "user_pool (vmem s') = user_pool (vmem s)" "kernel_pool (vmem s') = kernel_pool (vmem s)"
    "k \<in> user_used (vmem s) \<Longrightarrow> k \<noteq> ft_frame f \<Longrightarrow> page_bytes (vmem s') k = page_bytes (vmem s) k"
    "c \<in> dom (vthreads s) \<Longrightarrow> is_user_vaddr va \<Longrightarrow> vpage s' c va = unmapped (ft_frame f) (vpage s c va)"
    "entries s' = entries s" "pd_of s' = pd_of s"
  using assms entries_cong [of s' s] pd_of_cong [of s' s] unfolding moved_def by auto

lemma moved_spte:
  assumes "moved s s' f j p" and "sptes s y = Some e"
  shows "sptes s' y = Some (if y = ft_spte f then e\<lparr>sp_type := type_swap, sp_swap_idx := j\<rparr> else e)"
  using assms unfolding moved_def by auto

text \<open>The frame holds the page of its entry and no other.\<close>

lemma frame_page:
  assumes "vm_inv {} s" and "f \<in> set (frame_table s)" and "(x, ft_spte f) \<in> entries s c"
  shows "c = ft_owner f" "\<exists>w. vpage s c x = Some (ft_frame f, w)"
proof -
  obtain a w where a: "(a, ft_spte f) \<in> entries s (ft_owner f)" "vpage s (ft_owner f) a = Some (ft_frame f, w)"
    by (rule frame_entry [OF assms(1,2)])
  have "c = ft_owner f" "x = a" using vm_baseD(9,10) [OF vm_invD(1) [OF assms(1)] assms(3) a(1)] by simp_all
  then show "c = ft_owner f" "\<exists>w. vpage s c x = Some (ft_frame f, w)" using a(2) by simp_all
qed

lemma frame_holder:
  assumes "vm_inv {} s" and "f \<in> set (frame_table s)" and "(x, y) \<in> entries s c" and "vpage s c x = Some (k, v)"
  shows "k = ft_frame f \<longleftrightarrow> y = ft_spte f"
proof
  assume k: "k = ft_frame f"
  note fr = vm_invD(4) [OF assms(1)]
  have "(c, y, k) \<in> ft_key ` set (frame_table s)" using fr assms(3,4) by (auto simp: frames_ok_def mapped_pages_def)
  then obtain g where g: "g \<in> set (frame_table s)" "ft_key g = (c, y, k)" by force
  then have "g = f" using fr assms(2) k by (auto simp: frames_ok_def distinct_map ft_key_def dest: inj_onD)
  then show "y = ft_spte f" using g(2) by (simp add: ft_key_def)
next
  assume "y = ft_spte f"
  then show "k = ft_frame f" using frame_page(2) [OF assms(1,2), of x c] assms(3,4) by simp
qed

lemma moved_page:
  assumes "vm_inv {} s" and "f \<in> set (frame_table s)" and "moved s s' f j p" and "(x, y) \<in> entries s c"
  shows "vpage s' c x = (if y = ft_spte f then None else vpage s c x)"
proof -
  have "is_user_vaddr x" using pages_okD(1) [OF vm_invD(3) [OF assms(1)] assms(4)] by (simp add: page_entry_ok_def)
  then have "vpage s' c x = unmapped (ft_frame f) (vpage s c x)" using movedD(15) [OF assms(3) entries_dom [OF assms(4)]] by blast
  moreover have "fst kw = ft_frame f \<longleftrightarrow> y = ft_spte f" if "vpage s c x = Some kw" for kw
    using frame_holder [OF assms(1,2,4), of "fst kw" "snd kw"] that by simp
  ultimately show ?thesis by (cases "vpage s c x") (simp_all add: unmapped_def split_beta)
qed

lemma moved_content:
  assumes "vm_inv {} s" and "f \<in> set (frame_table s)" and "moved s s' f j p" and "(x, y) \<in> entries s c"
  shows "page_content s' c x y = page_content s c x y"
proof -
  note b = vm_invD [OF assms(1)] and mv = movedD [OF assms(3)] and vp = moved_page [OF assms]
  obtain e where e: "sptes s y = Some e" "is_user_vaddr x" using pages_okD(1) [OF b(3) assms(4)] by (auto simp: page_entry_ok_def)
  note sp = moved_spte [OF assms(3) e(1)]
  show ?thesis
  proof (cases "y = ft_spte f")
    case True
    then obtain w where "vpage s c x = Some (ft_frame f, w)" using frame_page(2) [OF assms(1,2)] assms(4) by blast
    then show ?thesis using True vp sp mv(9) by (simp add: page_content_def stored_def)
  next
    case False
    show ?thesis
    proof (cases "vpage s c x")
      case (Some kw)
      obtain k v where kw: "kw = (k, v)" by (cases kw)
      have k: "k \<in> user_used (vmem s)" using spacesD(5) [OF b(2) imageI [OF entries_dom [OF assms(4)]] e(2)] Some kw by (auto simp: vpage_def)
      have "k \<noteq> ft_frame f" using frame_holder [OF assms(1,2,4), of k v] Some kw False by simp
      then show ?thesis using vp False Some kw mv(14) [OF k] by (simp add: page_content_def)
    next
      case None
      have "sp_swap_idx e \<noteq> j" if "sp_type e = type_swap"
        using b(5) mv(8) None assms(4) e(1) that unfolding slots_ok_def swapped_def by blast
      then show ?thesis using vp False None sp e(1) mv(4,9) by (simp add: page_content_def stored_def)
    qed
  qed
qed

lemma moved_slots:
  assumes "vm_inv {} s" and "f \<in> set (frame_table s)" and "moved s s' f j p"
  shows "slots_ok s'"
proof -
  note b = vm_invD [OF assms(1)] and mv = movedD [OF assms(3)]
  have old: "(y = ft_spte f \<and> i = j) \<or> (y \<noteq> ft_spte f \<and> swapped s y i)" if sw: "swapped s' y i" for y i
  proof -
    from sw obtain c x g where g: "(x, y) \<in> entries s c" "vpage s' c x = None" "sptes s' y = Some g" "sp_type g = type_swap" "sp_swap_idx g = i"
      unfolding swapped_def mv(16) by blast
    from pages_okD(1) [OF b(3) g(1)] obtain e where e: "sptes s y = Some e" by (auto simp: page_entry_ok_def)
    show ?thesis
    proof (cases "y = ft_spte f")
      case True
      then show ?thesis using moved_spte [OF assms(3) e] g(3,5) by auto
    next
      case False
      then have "g = e" "vpage s c x = None" using moved_spte [OF assms(3) e] moved_page [OF assms g(1)] g(2,3) by simp_all
      then show ?thesis using False g(1,4,5) e unfolding swapped_def by blast
    qed
  qed
  have ne: "i \<noteq> j" if "swapped s y i" for y i using b(5) mv(8) that unfolding slots_ok_def by blast
  show ?thesis
    unfolding slots_ok_def
  proof (intro conjI allI impI)
    show "swap_map (vswap s') i \<noteq> None" if "swapped s' y i" for y i using old [OF that] b(5) unfolding slots_ok_def mv(9) by auto
    show "x = y" if "swapped s' x i" "swapped s' y i" for x y i
      using old [OF that(1)] old [OF that(2)] ne [of x i] ne [of y i] b(5) unfolding slots_ok_def by blast
  qed
qed

lemma moved_frames:
  assumes "vm_inv {} s" and "f \<in> set (frame_table s)" and "moved s s' f j p"
  shows "frames_ok {(vcur s, p, ft_frame f)} s'"
proof -
  note b = vm_invD [OF assms(1)] and mv = movedD [OF assms(3)]
  have fr: "distinct (map ft_frame (frame_table s))" "ft_key ` set (frame_table s) = mapped_pages s" using b(4) by (simp_all add: frames_ok_def)
  have "(c, y, k) \<in> mapped_pages s' \<longleftrightarrow> y \<noteq> ft_spte f \<and> (c, y, k) \<in> mapped_pages s" for c y k
    unfolding mapped_pages_def mv(16) by (cases "y = ft_spte f") (auto simp: moved_page [OF assms])
  moreover have "(c, ft_spte f, k) = ft_key f" if m: "(c, ft_spte f, k) \<in> mapped_pages s" for c k
  proof -
    from m obtain x v where x: "(x, ft_spte f) \<in> entries s c" "vpage s c x = Some (k, v)" unfolding mapped_pages_def by blast
    then have "k = ft_frame f" using frame_page(2) [OF assms(1,2) x(1)] by simp
    moreover have "c = ft_owner f" by (rule frame_page(1) [OF assms(1,2) x(1)])
    ultimately show ?thesis by (simp add: ft_key_def)
  qed
  ultimately have "mapped_pages s' = mapped_pages s - {ft_key f}" unfolding ft_key_def by auto
  moreover have "ft_frame f \<in> user_used (vmem s')" using mv(12) by (auto intro: frame_entry [OF assms(1,2)])
  ultimately show ?thesis using remove1_keys [OF fr(1) assms(2)] fr(2) mv(10) by (auto simp: frames_ok_def ft_key_def)
qed

lemma moved_pages:
  assumes "vm_inv {} s" and "moved s s' f j p"
  shows "pages_ok s'"
proof -
  note b = vm_invD [OF assms(1)] and mv = movedD [OF assms(2)]
  show ?thesis
    unfolding pages_ok_def mv(16) mv(1)
  proof (intro conjI allI impI)
    fix c x y assume "(x, y) \<in> entries s c"
    from pages_okD(1) [OF b(3) this] obtain e where e: "sptes s y = Some e" "spte_ok (vfs s) x e" "y \<noteq> NULL" "aligned x" "is_user_vaddr x"
      by (auto simp: page_entry_ok_def)
    have "spte_ok (vfs s) x (e\<lparr>sp_type := type_swap, sp_swap_idx := j\<rparr>)" using e(2) by (simp add: spte_ok_def)
    then show "page_entry_ok s' x y" using moved_spte [OF assms(2) e(1)] e mv(4) by (simp add: page_entry_ok_def)
  next
    fix c va k v assume h: "c \<in> dom (vthreads s)" "is_user_vaddr va" "vpage s' c va = Some (k, v)"
    then have "vpage s c va = Some (k, v)" using mv(15) [OF h(1,2)] by (simp add: unmapped_Some)
    from pages_okD(2) [OF b(3) h(1,2) this] obtain y g where g: "(pg_round_down va, y) \<in> entries s c" "sptes s y = Some g" "v = sp_writable g" by blast
    then show "\<exists>p e. (pg_round_down va, p) \<in> entries s c \<and> sptes s' p = Some e \<and> v = sp_writable e"
      using moved_spte [OF assms(2) g(2)] by (intro exI [of _ y]) auto
  qed
qed

lemma moved_reserved:
  assumes "vm_inv {} s" and "f \<in> set (frame_table s)" and "moved s s' f j p" and "p \<noteq> ft_spte f"
    and "(a, p) \<in> entries s (vcur s)" and "vpage s (vcur s) a = None"
  shows "reserved s s' a p (ft_frame f)"
proof -
  note b = vm_invD [OF assms(1)] and mv = movedD [OF assms(3)]
  have "vm_base s'" using vm_base_cong [OF b(1) mv(1-3)] vm_baseD [OF b(1)] mv(4-7) by simp
  then have "vm_inv {(vcur s, p, ft_frame f)} s'"
    using moved_slots [OF assms(1-3)] moved_frames [OF assms(1-3)] moved_pages [OF assms(1,3)] mv(11) by (simp add: vm_inv_def mv(1,17))
  moreover obtain e where "sptes s p = Some e" using pages_okD(1) [OF b(3) assms(5)] by (auto simp: page_entry_ok_def)
  then have "untimed (sptes s') p = untimed (sptes s) p" using moved_spte [OF assms(3)] assms(4) by (simp add: untimed_def)
  ultimately show ?thesis
    using moved_content [OF assms(1-3)] moved_page [OF assms(1-3,5)] assms(4,6) mv(1,2,4,5,13) by (simp add: reserved_def)
qed

lemma do_evict_frame_spec:
  assumes inv: "vm_inv {} s" and f: "f \<in> set (frame_table s)" and new: "(a, p) \<in> entries s (vcur s)" "vpage s (vcur s) a = None"
    and ok: "victim_ok s f" and slot: "i < bit_cnt (swap_bitmap (vswap s))" "swap_map (vswap s) i = None"
  shows "\<exists>s'. do_evict_frame p f s = Inr (ft_frame f, s') \<and> reserved s s' a p (ft_frame f)"
proof -
  let ?q = "ft_spte f" and ?o = "ft_owner f" and ?k = "ft_frame f" and ?c = "vcur s"
  note b = vm_invD [OF inv]
  obtain b' evi w where q: "(b', ?q) \<in> entries s ?o" "sptes s ?q = Some evi" "spte_ok (vfs s) b' evi" "aligned b'" "is_user_vaddr b'"
    "?q \<noteq> NULL" "vpage s ?o b' = Some (?k, w)" "?o \<in> dom (vthreads s)"
    by (rule frame_entry [OF inv f])
  obtain e where e: "sptes s p = Some e" "sp_lock e = vlock_init" "p \<noteq> NULL"
    using pages_okD(1) [OF b(3) new(1)] by (auto simp: page_entry_ok_def spte_ok_def)
  have pq: "p \<noteq> ?q" using vm_baseD(9,10) [OF b(1) new(1), of b' ?o] q(1,7) new(2) by auto
  obtain t where t: "vthreads s ?c = Some t" "pd_of s ?c = vt_pagedir t" using get_vthread [OF vm_baseD(2) [OF b(1)]] by blast
  obtain ow where ow: "vthreads s ?o = Some ow" "pd_of s ?o = vt_pagedir ow" using get_vthread [OF q(8)] by blast
  have D: "pd_of s ?c \<in> vdirs s" "pd_of s ?o \<in> vdirs s" using vm_baseD(2) [OF b(1)] q(8) by auto
  have sa: "sp_addr evi = b'" using q(3) by (simp add: spte_ok_def)
  have dirty: "pagedir_is_dirty (vt_pagedir t) (sp_addr evi) (vmem s) = Inr (pte_of (vmem s) (vt_pagedir t) b' AND PTE_D \<noteq> 0)"
    using pagedir_flag_spec(1) [OF spacesD(3) [OF b(2) D(1)] q(5)] t(2) sa by simp
  have nd: "\<not> ((pte_of (vmem s) (vt_pagedir t) b' AND PTE_D \<noteq> 0) \<and> sp_type evi = type_mmap)"
    using ok q(2) sa t(2) by (auto simp: victim_ok_def)
  obtain j sw where sw: "swap_out ?k (vswap s) (vmem s) = Inr (j, sw)" "wf_swap sw" "swap_map (vswap s) j = None"
     "swap_map sw = (swap_map (vswap s))(j \<mapsto> page_bytes (vmem s) ?k)"
    using swap_out_spec [OF vm_baseD(3) [OF b(1)] slot] by blast
  have "page_map (vmem s) (pd_of s ?o) b' = Some (?k, w)" using q(7) by (simp add: vpage_def)
  from spaces_evict [OF b(2) D(2) q(4,5) this] obtain m1 m2 where m: "pagedir_clear_page (pd_of s ?o) b' (vmem s) = Inr m1"
     "m2 = m1\<lparr>ram_of := memset_ram (ram_of m1) ?k 0 PGSIZE\<rparr>" "spaces m2 (vdirs s)" "user_pool m2 = user_pool (vmem s)"
     "kernel_pool m2 = kernel_pool (vmem s)" "\<forall>k\<in>user_used (vmem s) - {?k}. page_bytes m2 k = page_bytes (vmem s) k"
     "\<forall>qd\<in>vdirs s. \<forall>va. is_user_vaddr va \<longrightarrow> page_map m2 qd va = unmapped ?k (page_map (vmem s) qd va)"
    by (elim exE conjE)
  define s' where "s' = s\<lparr>vswap := sw, vmem := m2, vm_allocs := (\<lambda>n. vm_allocs s (Suc n)),
     frame_table := remove1 f (frame_table s) @ [\<lparr>ft_frame = ?k, ft_spte = p, ft_owner = ?c\<rparr>],
     sptes := (sptes s)(?q \<mapsto> evi\<lparr>sp_type := type_swap, sp_swap_idx := j\<rparr>)\<rparr>"
  have "do_evict_frame p f s = Inr (?k, s')"
    unfolding s'_def m(2)
    using do_evict_frame_eq [OF e(3) pq e(1,2) q(6,2) t(1) ow(1) _ dirty nd sw(1)] vm_baseD(6) [OF b(1)] m(1) sa ow(2) by simp
  moreover have "moved s s' f j p"
    using sw m q(2) pd_of_cong [of s' s] unfolding moved_def by (simp add: s'_def vpage_def)
  ultimately show ?thesis using moved_reserved [OF inv f _ pq new] by blast
qed

end
