(* ===== verification/Vm_Fault.thy ===== *)
theory Vm_Fault
  imports Vm_Evict
begin

unbundle bit_operations_syntax

text \<open>
  Page faults (project 3). A frame for the page is taken from the pool or from another page, the page
  is read from its file or from swap space and mapped; the fault is transparent: every page of every
  process has the contents it had.
\<close>

section \<open>Getting a frame\<close>

text \<open>Memory changes that leave the pages and their frames alone.\<close>

definition same_user :: "vm \<Rightarrow> kmem \<Rightarrow> bool" where
  "same_user s m \<longleftrightarrow> spaces m (vdirs s) \<and> kernel_pool m = kernel_pool (vmem s) \<and> user_used (vmem s) \<subseteq> user_used m
     \<and> (\<forall>pd\<in>vdirs s. \<forall>va. is_user_vaddr va \<longrightarrow> pte_of m pd va = pte_of (vmem s) pd va)
     \<and> (\<forall>k\<in>user_used (vmem s). page_bytes m k = page_bytes (vmem s) k)"

definition refreshed :: "vm \<Rightarrow> vm \<Rightarrow> bool" where
  "refreshed s s' \<longleftrightarrow> same_user s (vmem s') \<and> vthreads s' = vthreads s \<and> vcur s' = vcur s \<and> vticks s' = vticks s \<and> vfs s' = vfs s
     \<and> vfile_lock s' = vfile_lock s \<and> vswap s' = vswap s \<and> sptes s' = sptes s \<and> (\<forall>n. vm_allocs s' n \<noteq> NULL)"

lemma refreshedD:
  assumes "refreshed s s'"
  shows "vthreads s' = vthreads s" "vcur s' = vcur s" "vticks s' = vticks s" "vfs s' = vfs s" "vfile_lock s' = vfile_lock s" "vswap s' = vswap s"
    "sptes s' = sptes s" "vm_allocs s' n \<noteq> NULL" "spaces (vmem s') (vdirs s)" "kernel_pool (vmem s') = kernel_pool (vmem s)"
    "user_used (vmem s) \<subseteq> user_used (vmem s')" "entries s' = entries s" "pd_of s' = pd_of s"
    "c \<in> dom (vthreads s) \<Longrightarrow> is_user_vaddr va \<Longrightarrow> pte_of (vmem s') (pd_of s c) va = pte_of (vmem s) (pd_of s c) va"
    "c \<in> dom (vthreads s) \<Longrightarrow> is_user_vaddr va \<Longrightarrow> vpage s' c va = vpage s c va"
    "k \<in> user_used (vmem s) \<Longrightarrow> page_bytes (vmem s') k = page_bytes (vmem s) k"
proof -
  show pd: "entries s' = entries s" "pd_of s' = pd_of s"
    using assms entries_cong [of s' s] pd_of_cong [of s' s] by (simp_all add: refreshed_def)
  show pte: "pte_of (vmem s') (pd_of s c) va = pte_of (vmem s) (pd_of s c) va" if "c \<in> dom (vthreads s)" "is_user_vaddr va" for c va
    using assms that by (simp add: refreshed_def same_user_def)
  show "c \<in> dom (vthreads s) \<Longrightarrow> is_user_vaddr va \<Longrightarrow> vpage s' c va = vpage s c va"
    using page_map_pte [OF pte] by (simp add: vpage_def pd)
qed (use assms in \<open>simp_all add: refreshed_def same_user_def\<close>)

lemma entry_user: "vm_inv P s \<Longrightarrow> (a, p) \<in> entries s c \<Longrightarrow> is_user_vaddr a"
  using pages_okD(1) [OF vm_invD(3)] by (simp add: page_entry_ok_def)

lemma refreshed_inv:
  assumes "vm_inv P s" and "refreshed s s'" and "distinct (map ft_frame (frame_table s'))" and "ft_key ` set (frame_table s') = mapped_pages s \<union> Q"
    and "\<And>x. x \<in> Q \<Longrightarrow> snd (snd x) \<in> user_used (vmem s')"
  shows "vm_inv Q s'" and "(a, p) \<in> entries s c \<Longrightarrow> page_content s' c a p = page_content s c a p"
proof -
  note b = vm_invD [OF assms(1)] and r = refreshedD [OF assms(2)]
  have vp: "vpage s' c x = vpage s c x" if "(x, y) \<in> entries s c" for c x y
    using r(15) [OF entries_dom [OF that] entry_user [OF assms(1) that]] .
  have "vm_base s'" using vm_base_cong [OF b(1) r(1-3)] vm_baseD [OF b(1)] r(4-6,8) by simp
  moreover have "pages_ok s'"
    unfolding pages_ok_def r(1,12)
  proof (intro conjI allI impI)
    show "page_entry_ok s' x y" if "(x, y) \<in> entries s c" for c x y
      using pages_okD(1) [OF b(3) that] by (simp add: page_entry_ok_def r(4,7))
    show "\<exists>p e. (pg_round_down va, p) \<in> entries s c \<and> sptes s' p = Some e \<and> w = sp_writable e"
      if "c \<in> dom (vthreads s)" "is_user_vaddr va" "vpage s' c va = Some (k, w)" for c va k w
      using pages_okD(2) [OF b(3) that(1,2)] that(3) r(15) [OF that(1,2)] by (simp add: r(7))
  qed
  moreover have "mapped_pages s' = mapped_pages s" unfolding mapped_pages_def r(12) using vp by force
  then have "frames_ok Q s'" using assms(3-5) by (simp add: frames_ok_def)
  moreover have "swapped s' y i \<longleftrightarrow> swapped s y i" for y i unfolding swapped_def r(7,12) using vp by metis
  then have "slots_ok s'" using b(5) by (simp add: slots_ok_def r(6))
  ultimately show "vm_inv Q s'" using r(1,9,13) by (simp add: vm_inv_def)
  show "page_content s' c a p = page_content s c a p" if ap: "(a, p) \<in> entries s c"
  proof (cases "vpage s c a")
    case None
    then show ?thesis using vp [OF ap] by (simp add: page_content_def stored_def r(4,6,7))
  next
    case (Some kw)
    have "fst kw \<in> user_used (vmem s)"
      using spacesD(5) [OF b(2) imageI [OF entries_dom [OF ap]] entry_user [OF assms(1) ap], of "fst kw" "snd kw"] Some by (simp add: vpage_def)
    then show ?thesis using vp [OF ap] Some r(16) by (simp add: page_content_def split_beta)
  qed
qed

text \<open>A frame can be had: one is free, or a page in memory can be moved to a free slot.\<close>

definition frame_ready :: "vm \<Rightarrow> bool" where
  "frame_ready s \<longleftrightarrow> user_used (vmem s) \<noteq> pool_pages (user_pool (vmem s))
     \<or> (frame_table s \<noteq> [] \<and> (\<exists>i<bit_cnt (swap_bitmap (vswap s)). swap_map (vswap s) i = None) \<and> (\<forall>f\<in>set (frame_table s). victim_ok s f))"

lemma reserved_trans:
  assumes "vthreads s1 = vthreads s" "vcur s1 = vcur s" "vfs s1 = vfs s" "vfile_lock s1 = vfile_lock s" "kernel_pool (vmem s1) = kernel_pool (vmem s)"
    "untimed (sptes s1) p = untimed (sptes s) p" "\<And>c b q. (b, q) \<in> entries s c \<Longrightarrow> page_content s1 c b q = page_content s c b q"
    and "reserved s1 s2 a p k"
  shows "reserved s s2 a p k"
  using assms entries_cong [OF assms(1)] by (simp add: reserved_def)

lemma touched_victim:
  assumes "touched s s'" and "victim_ok s f"
  shows "victim_ok s' f"
proof -
  have u: "untimed (sptes s') = untimed (sptes s)" using assms(1) by (simp add: touched_def)
  have "\<exists>e. sptes s (ft_spte f) = Some e \<and> sp_type e = sp_type e' \<and> sp_addr e = sp_addr e'" if "sptes s' (ft_spte f) = Some e'" for e'
    using untimed_cases [OF u, of "ft_spte f"] that by (metis option.distinct(1) option.inject spte.select_convs(2,3) spte.surjective spte.update_convs(10))
  then show ?thesis using assms(2) pd_of_cong [OF touched_parts(6) [OF assms(1)]] unfolding victim_ok_def touched_parts [OF assms(1)] by metis
qed

lemma try_evict_frame_spec:
  assumes inv: "vm_inv {} s" and new: "(a, p) \<in> entries s (vcur s)" "vpage s (vcur s) a = None" and "frame_table s \<noteq> []"
    and slot: "i < bit_cnt (swap_bitmap (vswap s))" "swap_map (vswap s) i = None" and ok: "\<And>f. f \<in> set (frame_table s) \<Longrightarrow> victim_ok s f"
  shows "\<exists>k s'. try_evict_frame p s = Inr (k, s') \<and> reserved s s' a p k"
proof -
  obtain fo s1 where u: "find_unaccessed_page s = Inr (fo, s1)" "touched s s1" "\<And>f. fo = Some f \<Longrightarrow> f \<in> set (frame_table s)"
    using unaccessed_loop_spec [OF inv order_refl] unfolding find_unaccessed_page_def by blast
  note t = touched_parts [OF u(2)] and inv1 = vm_inv_touched(1) [OF inv u(2)]
  have en: "entries s1 = entries s" using entries_cong [OF t(6)] .
  have new1: "(a, p) \<in> entries s1 (vcur s1)" "vpage s1 (vcur s1) a = None"
    using new by (simp_all add: en t vpage_def pd_of_cong [OF t(6)])
  have un: "untimed (sptes s1) = untimed (sptes s)" using u(2) by (simp add: touched_def)
  have pc: "page_content s1 c b q = page_content s c b q" if "(b, q) \<in> entries s c" for c b q
    using vm_inv_touched(2) [OF inv u(2), of c b q] pages_okD(1) [OF vm_invD(3) [OF inv] that] by (auto simp: page_entry_ok_def)
  have ev: "\<exists>s'. do_evict_frame p f s1 = Inr (ft_frame f, s') \<and> reserved s s' a p (ft_frame f)" if f: "f \<in> set (frame_table s)" for f
  proof -
    obtain s' where s': "do_evict_frame p f s1 = Inr (ft_frame f, s')" "reserved s1 s' a p (ft_frame f)"
      using do_evict_frame_spec [OF inv1 _ new1 touched_victim [OF u(2) ok [OF f]]] f slot by (auto simp: t)
    have "reserved s s' a p (ft_frame f)"
      using reserved_trans [OF t(6,7,3,4) _ _ pc s'(2)] t(1) un by simp
    then show ?thesis using s'(1) by blast
  qed
  show ?thesis
  proof (cases fo)
    case None
    obtain f where f: "find_longest_time_page s1 = Inr (Some f)" "f \<in> set (frame_table s)"
      using find_longest_time_page_spec [OF inv1] assms(4) t(5) by auto
    then show ?thesis using ev [OF f(2)] u(1) None by (auto simp: try_evict_frame_def)
  next
    case (Some f)
    then show ?thesis using ev [OF u(3)] u(1) by (auto simp: try_evict_frame_def)
  qed
qed

lemma evict_after_alloc:
  assumes inv: "vm_inv {} s" and new: "(a, p) \<in> entries s (vcur s)" "vpage s (vcur s) a = None" and m: "same_user s m" and "frame_table s \<noteq> []"
    and slot: "i < bit_cnt (swap_bitmap (vswap s))" "swap_map (vswap s) i = None" and ok: "\<And>f. f \<in> set (frame_table s) \<Longrightarrow> victim_ok s f"
  shows "\<exists>k s'. try_evict_frame p (s\<lparr>vmem := m\<rparr>) = Inr (k, s') \<and> reserved s s' a p k"
proof -
  note b = vm_invD [OF inv]
  define s1 where "s1 = s\<lparr>vmem := m\<rparr>"
  have r: "refreshed s s1" using m vm_baseD(6) [OF b(1)] by (simp add: refreshed_def s1_def)
  note rs = refreshedD [OF r]
  have ft: "frame_table s1 = frame_table s" by (simp add: s1_def)
  have i1: "vm_inv {} s1" "\<And>c a p. (a, p) \<in> entries s c \<Longrightarrow> page_content s1 c a p = page_content s c a p"
    using refreshed_inv [OF inv r, of "{}"] b(4) by (simp_all add: ft frames_ok_def)
  have vo: "victim_ok s1 f" if f: "f \<in> set (frame_table s)" for f
  proof -
    obtain x e where "sptes s (ft_spte f) = Some e" "spte_ok (vfs s) x e" "is_user_vaddr x" by (rule frame_entry [OF inv f])
    then show ?thesis using ok [OF f] rs(14) [OF vm_baseD(2) [OF b(1)]] by (simp add: victim_ok_def rs(2,7,13) spte_ok_def)
  qed
  have new1: "(a, p) \<in> entries s1 (vcur s1)" "vpage s1 (vcur s1) a = None"
    using new rs(15) [OF entries_dom [OF new(1)] entry_user [OF inv new(1)]] by (simp_all add: rs(2,12))
  obtain k s' where s': "try_evict_frame p s1 = Inr (k, s')" "reserved s1 s' a p k"
    using try_evict_frame_spec [OF i1(1) new1, of i] assms(5) slot vo by (auto simp: ft rs(6))
  have "reserved s s' a p k" using reserved_trans [OF rs(1,2,4,5,10) _ i1(2) s'(2)] rs(7) by simp
  then show ?thesis using s'(1) by (auto simp: s1_def)
qed

lemma reserve_new:
  assumes inv: "vm_inv {} s" and new: "(a, p) \<in> entries s (vcur s)" "vpage s (vcur s) a = None" and m: "same_user s m"
    and k: "k \<notin> user_used (vmem s)" "k \<in> user_used m"
  shows "reserved s (s\<lparr>vmem := m, vm_allocs := (\<lambda>n. vm_allocs s (Suc n)),
    frame_table := \<lparr>ft_frame = k, ft_spte = p, ft_owner = vcur s\<rparr> # frame_table s\<rparr>) a p k" (is "reserved s ?s a p k")
proof -
  note b = vm_invD [OF inv]
  have r: "refreshed s ?s" using m vm_baseD(6) [OF b(1)] by (simp add: refreshed_def)
  note rs = refreshedD [OF r]
  have fr: "distinct (map ft_frame (frame_table s))" "ft_key ` set (frame_table s) = mapped_pages s" using b(4) by (simp_all add: frames_ok_def)
  have "ft_frame f \<in> user_used (vmem s)" if f: "f \<in> set (frame_table s)" for f by (rule frame_entry [OF inv f])
  then have "k \<notin> ft_frame ` set (frame_table s)" using k(1) by blast
  then have i1: "vm_inv {(vcur s, p, k)} ?s" "\<And>c a p. (a, p) \<in> entries s c \<Longrightarrow> page_content ?s c a p = page_content s c a p"
    using refreshed_inv [OF inv r, of "{(vcur s, p, k)}"] fr k(2) by (auto simp: ft_key_def)
  have "vpage ?s (vcur s) a = None" using new(2) rs(15) [OF entries_dom [OF new(1)] entry_user [OF inv new(1)]] by simp
  then show ?thesis using i1 rs(10) by (simp add: reserved_def)
qed

lemma vm_get_frame_spec:
  assumes inv: "vm_inv {} s" and new: "(a, p) \<in> entries s (vcur s)" "vpage s (vcur s) a = None" and ready: "frame_ready s"
  shows "\<exists>k s'. vm_get_frame PAL_USER p s = Inr (k, s') \<and> reserved s s' a p k"
proof -
  note b = vm_invD [OF inv]
  have pu: "PAL_USER AND PAL_USER \<noteq> 0" by (simp add: PAL_USER_def)
  from spaces_alloc [OF b(2)] obtain k m where m: "palloc_get_page PAL_USER (vmem s) = Inr (k, m)" "spaces m (vdirs s)" "kernel_pool m = kernel_pool (vmem s)"
     "pool_pages (user_pool m) = pool_pages (user_pool (vmem s))" "\<forall>pd\<in>vdirs s. \<forall>va. is_user_vaddr va \<longrightarrow> pte_of m pd va = pte_of (vmem s) pd va"
     "ram_of m = ram_of (vmem s)"
     "if k = 0 then user_used (vmem s) = pool_pages (user_pool (vmem s)) \<and> user_used m = user_used (vmem s)
      else k \<notin> user_used (vmem s) \<and> user_used m = insert k (user_used (vmem s))"
    by (elim exE conjE)
  have "user_used (vmem s) \<subseteq> user_used m" using m(7) by (cases "k = 0") auto
  then have same: "same_user s m" using m(2,3,5) by (simp add: same_user_def page_bytes_def m(6))
  show ?thesis
  proof (cases "k = 0")
    case True
    then obtain i where i: "frame_table s \<noteq> []" "i < bit_cnt (swap_bitmap (vswap s))" "swap_map (vswap s) i = None" "\<forall>f\<in>set (frame_table s). victim_ok s f"
      using ready m(7) unfolding frame_ready_def by auto
    show ?thesis using evict_after_alloc [OF inv new same i(1-3)] i(4) m(1) True pu by (simp add: vm_get_frame_def)
  next
    case False
    then show ?thesis using reserve_new [OF inv new same, of k] m(1,7) pu vm_baseD(6) [OF b(1), of 0] by (simp add: vm_get_frame_def Let_def vmalloc_def)
  qed
qed

section \<open>Loading a page\<close>

text \<open>The frame that has been reserved is not mapped anywhere.\<close>

lemma reserved_unmapped:
  assumes inv: "vm_inv {(c, p, k)} s" and new: "(a, p) \<in> entries s c" "vpage s c a = None"
  shows "k \<notin> space_frames (vmem s) (vdirs s)" "k \<in> user_used (vmem s)"
proof -
  note b = vm_invD [OF inv]
  have fr: "distinct (map ft_frame (frame_table s))" "ft_key ` set (frame_table s) = insert (c, p, k) (mapped_pages s)" "k \<in> user_used (vmem s)"
    using b(4) by (simp_all add: frames_ok_def)
  show "k \<in> user_used (vmem s)" by (rule fr(3))
  show "k \<notin> space_frames (vmem s) (vdirs s)"
  proof
    assume "k \<in> space_frames (vmem s) (vdirs s)"
    then obtain d va w where d: "d \<in> dom (vthreads s)" "is_user_vaddr va" "page_map (vmem s) (pd_of s d) va = Some (k, w)"
      unfolding space_frames_def by blast
    then obtain q where q: "(pg_round_down va, q) \<in> entries s d" using pages_okD(2) [OF b(3) d(1,2)] by (auto simp: vpage_def)
    have "pg_round_down (pg_round_down va) = pg_round_down va" by (rule aligned_round) simp
    then have r: "vpage s d (pg_round_down va) = Some (k, w)" using d(3) page_map_round [of "pg_round_down va" va "vmem s" "pd_of s d"] by (simp add: vpage_def)
    then have "(d, q, k) \<in> ft_key ` set (frame_table s)" using q fr(2) by (auto simp: mapped_pages_def)
    then obtain g where g: "g \<in> set (frame_table s)" "ft_key g = (d, q, k)" by force
    obtain f where f: "f \<in> set (frame_table s)" "ft_key f = (c, p, k)" using fr(2) by (metis imageE insertI1)
    have "f = g" using fr(1) f g by (auto simp: distinct_map ft_key_def dest: inj_onD)
    then have "d = c" "q = p" using f(2) g(2) by simp_all
    then show False using vm_baseD(10) [OF b(1) new(1)] q r new(2) by auto
  qed
qed

text \<open>What loading the page \<open>p\<close> at \<open>a\<close> into the frame \<open>k\<close> does.\<close>

definition loaded :: "vm \<Rightarrow> vm \<Rightarrow> vaddr \<Rightarrow> addr \<Rightarrow> vaddr \<Rightarrow> bool" where
  "loaded s s' a p k \<longleftrightarrow> vthreads s' = vthreads s \<and> vcur s' = vcur s \<and> vticks s' = vticks s \<and> vfile_lock s' = vfile_lock s
     \<and> vm_allocs s' = vm_allocs s \<and> frame_table s' = frame_table s \<and> base_same (vfs s) (vfs s') \<and> bdisk (vfs s') = bdisk (vfs s) \<and> wf_swap (vswap s')
     \<and> (\<exists>e. sptes s p = Some e \<and> sptes s' = (sptes s)(p \<mapsto> e\<lparr>sp_free := False\<rparr>)
          \<and> (\<forall>i. swap_map (vswap s') i = swap_map (vswap s) i \<or> (sp_type e = type_swap \<and> i = sp_swap_idx e))
          \<and> (\<forall>c\<in>dom (vthreads s). \<forall>va. is_user_vaddr va \<longrightarrow>
               vpage s' c va = (if c = vcur s \<and> pg_round_down va = a then Some (k, sp_writable e) else vpage s c va)))
     \<and> spaces (vmem s') (vdirs s) \<and> user_pool (vmem s') = user_pool (vmem s)
     \<and> (\<forall>j\<in>user_used (vmem s) - {k}. page_bytes (vmem s') j = page_bytes (vmem s) j)
     \<and> page_bytes (vmem s') k = page_content s (vcur s) a p"

lemma loadedD:
  assumes "loaded s s' a p k"
  shows "vthreads s' = vthreads s" "vcur s' = vcur s" "vticks s' = vticks s" "vfile_lock s' = vfile_lock s" "vm_allocs s' = vm_allocs s"
    "frame_table s' = frame_table s" "base_same (vfs s) (vfs s')" "bdisk (vfs s') = bdisk (vfs s)" "wf_swap (vswap s')"
    "spaces (vmem s') (vdirs s)" "user_pool (vmem s') = user_pool (vmem s)"
    "j \<in> user_used (vmem s) \<Longrightarrow> j \<noteq> k \<Longrightarrow> page_bytes (vmem s') j = page_bytes (vmem s) j"
    "page_bytes (vmem s') k = page_content s (vcur s) a p" "entries s' = entries s" "pd_of s' = pd_of s"
  using assms entries_cong [of s' s] pd_of_cong [of s' s] unfolding loaded_def by auto

lemma loaded_entry:
  assumes "loaded s s' a p k" and "sptes s p = Some e"
  shows "sptes s' = (sptes s)(p \<mapsto> e\<lparr>sp_free := False\<rparr>)"
    "swap_map (vswap s') i = swap_map (vswap s) i \<or> (sp_type e = type_swap \<and> i = sp_swap_idx e)"
    "c \<in> dom (vthreads s) \<Longrightarrow> is_user_vaddr va \<Longrightarrow> vpage s' c va = (if c = vcur s \<and> pg_round_down va = a then Some (k, sp_writable e) else vpage s c va)"
  using assms unfolding loaded_def by auto

lemma file_bytes_same:
  assumes "base_same fs fs'" and "bdisk fs' = bdisk fs"
  shows "file_bytes fs' f = file_bytes fs f" "spte_ok fs' a e \<longleftrightarrow> spte_ok fs a e"
proof -
  have bc: "base_contents fs' i = base_contents fs i" for i by (simp add: base_contents_def base_byte_def assms(2))
  have eq: "bfiles fs' = bfiles fs" "binodes fs' = binodes fs" "blk_size (bfs_device fs') = blk_size (bfs_device fs)" using assms(1) by (simp_all add: base_same_def)
  show "file_bytes fs' f = file_bytes fs f" by (simp add: file_bytes_def bc eq split: option.split)
  show "spte_ok fs' a e \<longleftrightarrow> spte_ok fs a e" by (simp add: spte_ok_def file_page_def base_at_def bc eq)
qed

lemma loaded_page:
  assumes inv: "vm_inv P s" and l: "loaded s s' a p k" and new: "(a, p) \<in> entries s (vcur s)" "sptes s p = Some e" and x: "(x, y) \<in> entries s c"
  shows "vpage s' c x = (if y = p then Some (k, sp_writable e) else vpage s c x)"
proof -
  note b = vm_invD [OF inv]
  have "aligned x" using pages_okD(1) [OF b(3) x] by (simp add: page_entry_ok_def)
  then have "vpage s' c x = (if c = vcur s \<and> x = a then Some (k, sp_writable e) else vpage s c x)"
    using loaded_entry(3) [OF l new(2) entries_dom [OF x] entry_user [OF inv x]] aligned_round [of x] by simp
  moreover have "c = vcur s \<and> x = a \<longleftrightarrow> y = p"
    using entries_unique [OF b(1), of x y c p] vm_baseD(9,10) [OF b(1), of x y c a "vcur s"] x new(1) by auto
  ultimately show ?thesis by simp
qed

lemma spte_ok_free: "spte_ok fs a (e\<lparr>sp_free := f\<rparr>) \<longleftrightarrow> spte_ok fs a e"
  by (simp add: spte_ok_def file_page_def)

lemma loaded_content:
  assumes inv: "vm_inv {(vcur s, p, k)} s" and l: "loaded s s' a p k" and new: "(a, p) \<in> entries s (vcur s)" "vpage s (vcur s) a = None"
    and x: "(x, y) \<in> entries s c"
  shows "page_content s' c x y = page_content s c x y"
proof -
  note b = vm_invD [OF inv] and d = loadedD [OF l]
  obtain e where e: "sptes s p = Some e" using get_spte [OF inv new(1)] by blast
  note vp = loaded_page [OF inv l new(1) e x] and en = loaded_entry [OF l e]
  show ?thesis
  proof (cases "y = p")
    case True
    then have "c = vcur s" "x = a" using vm_baseD(9,10) [OF b(1) x, of a "vcur s"] new(1) by simp_all
    then show ?thesis using vp True d(13) by (simp add: page_content_def [of s'])
  next
    case False
    show ?thesis
    proof (cases "vpage s c x")
      case None
      obtain g where g: "sptes s y = Some g" using get_spte [OF inv x] by blast
      have "sp_type g = type_swap \<Longrightarrow> sp_type e = type_swap \<Longrightarrow> sp_swap_idx g \<noteq> sp_swap_idx e"
        using b(5) False x None g new e unfolding slots_ok_def swapped_def by blast
      then have "sp_type g = type_swap \<Longrightarrow> swap_map (vswap s') (sp_swap_idx g) = swap_map (vswap s) (sp_swap_idx g)"
        using en(2) by blast
      then show ?thesis using vp None False g by (simp add: page_content_def stored_def en(1) file_bytes_same [OF d(7,8)])
    next
      case (Some kw)
      have p: "page_map (vmem s) (pd_of s c) x = Some (fst kw, snd kw)" using Some by (simp add: vpage_def)
      have u: "fst kw \<in> user_used (vmem s)" using spacesD(5) [OF b(2) imageI [OF entries_dom [OF x]] entry_user [OF inv x] p] .
      have "fst kw \<in> space_frames (vmem s) (vdirs s)"
        using p entries_dom [OF x] entry_user [OF inv x] unfolding space_frames_def by blast
      then have "fst kw \<noteq> k" using reserved_unmapped(1) [OF inv new] by auto
      then show ?thesis using vp False Some d(12) [OF u] by (simp add: page_content_def split_beta)
    qed
  qed
qed

lemma loaded_slots:
  assumes inv: "vm_inv {(vcur s, p, k)} s" and l: "loaded s s' a p k" and new: "(a, p) \<in> entries s (vcur s)" "vpage s (vcur s) a = None"
  shows "slots_ok s'"
proof -
  note b = vm_invD [OF inv] and d = loadedD [OF l]
  obtain e where e: "sptes s p = Some e" using get_spte [OF inv new(1)] by blast
  note en = loaded_entry [OF l e]
  have old: "swapped s y i \<and> y \<noteq> p" if s': "swapped s' y i" for y i
  proof -
    from s' obtain c x g where g: "(x, y) \<in> entries s c" "vpage s' c x = None" "sptes s' y = Some g" "sp_type g = type_swap" "sp_swap_idx g = i"
      unfolding swapped_def d(14) by blast
    then have "y \<noteq> p" "vpage s c x = None" using loaded_page [OF inv l new(1) e g(1)] by (simp_all split: if_splits)
    then show ?thesis using g unfolding swapped_def en(1) by auto
  qed
  have same: "swap_map (vswap s') i = swap_map (vswap s) i" if "swapped s y i" "y \<noteq> p" for y i
    using en(2) [of i] b(5) that new e unfolding slots_ok_def swapped_def by blast
  show ?thesis
    unfolding slots_ok_def
  proof (intro conjI allI impI)
    show "swap_map (vswap s') i \<noteq> None" if "swapped s' y i" for y i using old [OF that] same b(5) unfolding slots_ok_def by auto
    show "y = z" if "swapped s' y i" "swapped s' z i" for y z i using old [OF that(1)] old [OF that(2)] b(5) unfolding slots_ok_def by blast
  qed
qed

lemma loaded_frames:
  assumes inv: "vm_inv {(vcur s, p, k)} s" and l: "loaded s s' a p k" and new: "(a, p) \<in> entries s (vcur s)" "vpage s (vcur s) a = None"
  shows "frames_ok {} s'"
proof -
  note b = vm_invD [OF inv] and d = loadedD [OF l]
  obtain e where e: "sptes s p = Some e" using get_spte [OF inv new(1)] by blast
  note vp = loaded_page [OF inv l new(1) e]
  have p: "c = vcur s \<and> x = a" if "(x, p) \<in> entries s c" for c x using vm_baseD(9,10) [OF b(1) that new(1)] by simp
  have "mapped_pages s' = mapped_pages s \<union> {(vcur s, p, k)}"
  proof (intro equalityI subrelI)
    fix c yj assume "(c, yj) \<in> mapped_pages s'"
    then obtain y j x w where x: "yj = (y, j)" "(x, y) \<in> entries s c" "vpage s' c x = Some (j, w)" unfolding mapped_pages_def d(14) by auto
    then show "(c, yj) \<in> mapped_pages s \<union> {(vcur s, p, k)}"
      using vp [OF x(2)] p by (cases "y = p") (auto simp: mapped_pages_def)
  next
    fix c yj assume h: "(c, yj) \<in> mapped_pages s \<union> {(vcur s, p, k)}"
    show "(c, yj) \<in> mapped_pages s'"
    proof (cases "(c, yj) = (vcur s, p, k)")
      case True
      then show ?thesis using vp [OF new(1)] new(1) by (auto simp: mapped_pages_def d(14))
    next
      case False
      then obtain y j x w where x: "yj = (y, j)" "(x, y) \<in> entries s c" "vpage s c x = Some (j, w)" using h unfolding mapped_pages_def by auto
      then have "y \<noteq> p" using p [of x c] new(2) by auto
      then show ?thesis using vp [OF x(2)] x by (auto simp: mapped_pages_def d(14))
    qed
  qed
  then show ?thesis using b(4) by (simp add: frames_ok_def d(6))
qed

lemma loaded_pages:
  assumes inv: "vm_inv P s" and l: "loaded s s' a p k" and new: "(a, p) \<in> entries s (vcur s)"
  shows "pages_ok s'"
proof -
  note b = vm_invD [OF inv] and d = loadedD [OF l]
  obtain e where e: "sptes s p = Some e" using get_spte [OF inv new] by blast
  note en = loaded_entry [OF l e]
  show ?thesis
    unfolding pages_ok_def d(1,14)
  proof (intro conjI allI impI)
    fix c x y assume "(x, y) \<in> entries s c"
    from pages_okD(1) [OF b(3) this] show "page_entry_ok s' x y"
      using e by (auto simp: page_entry_ok_def en(1) file_bytes_same [OF d(7,8)] spte_ok_free)
  next
    fix c va j w assume h: "c \<in> dom (vthreads s)" "is_user_vaddr va" "vpage s' c va = Some (j, w)"
    show "\<exists>p e. (pg_round_down va, p) \<in> entries s c \<and> sptes s' p = Some e \<and> w = sp_writable e"
    proof (cases "c = vcur s \<and> pg_round_down va = a")
      case True
      then show ?thesis using h(3) en(3) [OF h(1,2)] new by (intro exI [of _ p]) (simp add: en(1))
    next
      case False
      then have "vpage s c va = Some (j, w)" using h(3) en(3) [OF h(1,2)] by auto
      from pages_okD(2) [OF b(3) h(1,2) this] obtain q g where "(pg_round_down va, q) \<in> entries s c" "sptes s q = Some g" "w = sp_writable g" by blast
      then show ?thesis using e by (intro exI [of _ q]) (auto simp: en(1))
    qed
  qed
qed

lemma loaded_inv:
  assumes inv: "vm_inv {(vcur s, p, k)} s" and l: "loaded s s' a p k" and new: "(a, p) \<in> entries s (vcur s)" "vpage s (vcur s) a = None"
  shows "vm_inv {} s'"
proof -
  note b = vm_invD [OF inv] and d = loadedD [OF l]
  have "base_ok (vfs s')" using d(7) by (simp add: base_same_def)
  then have "vm_base s'" using vm_base_cong [OF b(1) d(1-3)] vm_baseD [OF b(1)] d(4,5,9) by simp
  then show ?thesis
    using loaded_slots [OF assms] loaded_frames [OF assms] loaded_pages [OF inv l new(1)] d(1,10,15) by (simp add: vm_inv_def)
qed

text \<open>The entry of the page while its lock is held.\<close>

definition locked :: "addr \<Rightarrow> vm \<Rightarrow> vm" where
  "locked p s = set_spte p (\<lambda>e. e\<lparr>sp_lock := \<lparr>lk_value = 0, lk_holder = Some (vcur s)\<rparr>\<rparr>) s"

lemma lock_spte_free:
  assumes "vm_inv P s" and "(a, p) \<in> entries s c"
  shows "lock_spte p s = Inr (locked p s)"
  using get_spte [OF assms] by (auto simp: lock_spte_def spte_ok_def lock_free locked_def)

lemma fill_frame:
  assumes "spaces m D" and "k \<in> user_used m" and "length d = 4096" and "m' = m\<lparr>ram_of := put_bytes (ram_of m) k d\<rparr>"
  shows "spaces m' D" "\<forall>pd\<in>D. \<forall>va. is_user_vaddr va \<longrightarrow> page_map m' pd va = page_map m pd va"
    "\<forall>j\<in>user_used m - {k}. page_bytes m' j = page_bytes m j" "page_bytes m' k = d" "user_pool m' = user_pool m" "kernel_pool m' = kernel_pool m"
proof -
  have "same_pages (- {k}) m m'" using put_bytes_same [OF user_frame_props(1) [OF spacesD(1) [OF assms(1)] assms(2)], of d m] assms(3,4) by simp
  moreover have "m' = m\<lparr>ram_of := ram_of m'\<rparr>" by (simp add: assms(4))
  ultimately have w: "same_pages (- {k}) m m'" "m' = m\<lparr>ram_of := ram_of m'\<rparr>" .
  show "spaces m' D" "\<forall>pd\<in>D. \<forall>va. is_user_vaddr va \<longrightarrow> page_map m' pd va = page_map m pd va"
    "\<forall>j\<in>user_used m - {k}. page_bytes m' j = page_bytes m j" "user_pool m' = user_pool m" "kernel_pool m' = kernel_pool m"
    using spaces_write [OF assms(1,2) w] by blast+
  show "page_bytes m' k = d" using get_put_bytes [of d "ram_of m" k] assms(3,4) by (simp add: page_bytes_def)
qed

lemma fill_and_install:
  assumes "spaces m D" and "k \<in> user_used m" and "length d = 4096" and "pd \<in> D" and "aligned a" and "is_user_vaddr a" and "page_map m pd a = None"
    and "k \<notin> space_frames m D" and "kernel_used m \<noteq> pool_pages (kernel_pool m)"
  shows "\<exists>m'. install_page pd a k w (m\<lparr>ram_of := put_bytes (ram_of m) k d\<rparr>) = Inr (True, m') \<and> spaces m' D \<and> user_pool m' = user_pool m
     \<and> (\<forall>qd\<in>D. \<forall>va. is_user_vaddr va \<longrightarrow> page_map m' qd va = (if qd = pd \<and> pg_round_down va = a then Some (k, w) else page_map m qd va))
     \<and> (\<forall>j\<in>user_used m - {k}. page_bytes m' j = page_bytes m j) \<and> page_bytes m' k = d"
proof -
  define m1 where "m1 = m\<lparr>ram_of := put_bytes (ram_of m) k d\<rparr>"
  note f = fill_frame [OF assms(1-3) m1_def]
  have "space_frames m1 D = space_frames m D" unfolding space_frames_def using f(2) by (intro Collect_cong bex_cong refl ex_cong1) (auto intro!: conj_cong)
  then have "\<exists>m'. install_page pd a k w m1 = Inr (True, m') \<and> spaces m' D \<and> user_pool m' = user_pool m1
     \<and> (\<forall>qd\<in>D. \<forall>va. is_user_vaddr va \<longrightarrow> page_map m' qd va = (if qd = pd \<and> pg_round_down va = a then Some (k, w) else page_map m1 qd va))
     \<and> (\<forall>j\<in>user_used m1. page_bytes m' j = page_bytes m1 j)"
    using spaces_install [OF f(1) assms(4-6), of k w] f(2,5,6) assms(2,4,6-9) by simp
  then obtain m' where m': "install_page pd a k w m1 = Inr (True, m')" "spaces m' D" "user_pool m' = user_pool m1"
     "\<forall>qd\<in>D. \<forall>va. is_user_vaddr va \<longrightarrow> page_map m' qd va = (if qd = pd \<and> pg_round_down va = a then Some (k, w) else page_map m1 qd va)"
     "\<forall>j\<in>user_used m1. page_bytes m' j = page_bytes m1 j"
    by (elim exE conjE)
  then show ?thesis using f assms(2) unfolding m1_def [symmetric] by auto
qed

lemma finish_load_spec:
  assumes inv: "vm_inv {(vcur s, p, k)} s" and new: "(a, p) \<in> entries s (vcur s)" "vpage s (vcur s) a = None" and e: "sptes s p = Some e"
    and kern: "kernel_used (vmem s) \<noteq> pool_pages (kernel_pool (vmem s))" and d: "length d = 4096" "d = page_content s (vcur s) a p"
    and sw: "wf_swap sw" "\<And>i. swap_map sw i = swap_map (vswap s) i \<or> (sp_type e = type_swap \<and> i = sp_swap_idx e)"
    and fs: "base_same (vfs s) fs" "bdisk fs = bdisk (vfs s)"
  shows "\<exists>s'. finish_load p k ((locked p s)\<lparr>vmem := (vmem s)\<lparr>ram_of := put_bytes (ram_of (vmem s)) k d\<rparr>, vswap := sw, vfs := fs\<rparr>) = Inr (True, s')
     \<and> loaded s s' a p k"
proof -
  note b = vm_invD [OF inv]
  obtain t where t: "vthreads s (vcur s) = Some t" "pd_of s (vcur s) = vt_pagedir t" using get_vthread [OF vm_baseD(2) [OF b(1)]] by blast
  have D: "vt_pagedir t \<in> vdirs s" using t by force
  have pe: "p \<noteq> NULL" "aligned a" "is_user_vaddr a" "sp_addr e = a" "sp_lock e = vlock_init"
    using pages_okD(1) [OF b(3) new(1)] e by (auto simp: page_entry_ok_def spte_ok_def)
  have "page_map (vmem s) (vt_pagedir t) a = None" using new(2) t(2) by (simp add: vpage_def)
  from fill_and_install [OF b(2) reserved_unmapped(2) [OF inv new] d(1) D pe(2,3) this reserved_unmapped(1) [OF inv new] kern, of "sp_writable e"]
  obtain m where m: "install_page (vt_pagedir t) a k (sp_writable e) ((vmem s)\<lparr>ram_of := put_bytes (ram_of (vmem s)) k d\<rparr>) = Inr (True, m)"
     "spaces m (vdirs s)" "user_pool m = user_pool (vmem s)"
     "\<forall>qd\<in>vdirs s. \<forall>va. is_user_vaddr va \<longrightarrow> page_map m qd va = (if qd = vt_pagedir t \<and> pg_round_down va = a then Some (k, sp_writable e) else page_map (vmem s) qd va)"
     "\<forall>j\<in>user_used (vmem s) - {k}. page_bytes m j = page_bytes (vmem s) j" "page_bytes m k = d"
    by (elim exE conjE)
  define s' where "s' = s\<lparr>vmem := m, vswap := sw, vfs := fs, sptes := (sptes s)(p \<mapsto> e\<lparr>sp_free := False\<rparr>)\<rparr>"
  have "e\<lparr>sp_free := False, sp_lock := vlock_init\<rparr> = e\<lparr>sp_free := False\<rparr>" using pe(5) by (cases e) simp
  then have "finish_load p k ((locked p s)\<lparr>vmem := (vmem s)\<lparr>ram_of := put_bytes (ram_of (vmem s)) k d\<rparr>, vswap := sw, vfs := fs\<rparr>) = Inr (True, s')"
    using t(1) e pe(1,4) m(1)
    by (simp add: finish_load_def vthread_of_def locked_def get_obj_def set_spte_def unlock_spte_def lock_free s'_def)
  moreover have "vpage s' c va = (if c = vcur s \<and> pg_round_down va = a then Some (k, sp_writable e) else vpage s c va)"
    if "c \<in> dom (vthreads s)" "is_user_vaddr va" for c va
  proof -
    have "pd_of s c = vt_pagedir t \<longleftrightarrow> c = vcur s" using inj_on_eq_iff [OF vm_baseD(1) [OF b(1)] that(1) vm_baseD(2) [OF b(1)]] t(2) by simp
    then show ?thesis using m(4) that pd_of_cong [of s' s] by (simp add: vpage_def s'_def)
  qed
  then have "loaded s s' a p k" using e sw fs m(2,3,5,6) d(2) unfolding loaded_def by (simp add: s'_def)
  ultimately show ?thesis by blast
qed

text \<open>The state in which the page has been loaded.\<close>

definition resident :: "vm \<Rightarrow> vm \<Rightarrow> vaddr \<Rightarrow> addr \<Rightarrow> bool" where
  "resident s s' a p \<longleftrightarrow> vm_inv {} s' \<and> vthreads s' = vthreads s \<and> vcur s' = vcur s
     \<and> (\<exists>k e. sptes s p = Some e \<and> vpage s' (vcur s) a = Some (k, sp_writable e))
     \<and> (\<forall>c b q. (b, q) \<in> entries s c \<longrightarrow> page_content s' c b q = page_content s c b q)"

lemma untimed_entry:
  assumes "untimed h' p = untimed h p" and "h p = Some e"
  shows "\<exists>e'. h' p = Some e' \<and> e' = e\<lparr>sp_timestamp := sp_timestamp e'\<rparr>"
  using untimed_cases [of "\<lambda>_. h' p" "\<lambda>_. h p" p] assms by (auto simp: untimed_def fun_eq_iff)

lemma reserved_facts:
  assumes r: "reserved s s1 a p k" and new: "(a, p) \<in> entries s (vcur s)" and e: "sptes s p = Some e"
  shows "vm_inv {(vcur s1, p, k)} s1" "(a, p) \<in> entries s1 (vcur s1)" "vpage s1 (vcur s1) a = None" "vfile_lock s1 = vlock_init" "k \<noteq> 0"
    "\<exists>e'. sptes s1 p = Some e' \<and> e' = e\<lparr>sp_timestamp := sp_timestamp e'\<rparr>" "kernel_pool (vmem s1) = kernel_pool (vmem s)"
proof -
  show inv: "vm_inv {(vcur s1, p, k)} s1" and n: "(a, p) \<in> entries s1 (vcur s1)" "vpage s1 (vcur s1) a = None" "kernel_pool (vmem s1) = kernel_pool (vmem s)"
    using r new entries_cong [of s1 s] by (simp_all add: reserved_def)
  show "vfile_lock s1 = vlock_init" using vm_baseD(5) [OF vm_invD(1) [OF inv]] .
  show "k \<noteq> 0" using user_frame_props(3) [OF spacesD(1) [OF vm_invD(2) [OF inv]] reserved_unmapped(2) [OF inv n(1,2)]] .
  show "\<exists>e'. sptes s1 p = Some e' \<and> e' = e\<lparr>sp_timestamp := sp_timestamp e'\<rparr>"
    using r untimed_entry [where h = "sptes s" and p = p, OF _ e] by (simp add: reserved_def)
qed

lemma reserved_loaded:
  assumes r: "reserved s s1 a p k" and l: "loaded s1 s' a p k" and new: "(a, p) \<in> entries s (vcur s)" and e: "sptes s p = Some e"
  shows "resident s s' a p"
proof -
  note f = reserved_facts [OF r new e] and d = loadedD [OF l]
  have s1: "vthreads s1 = vthreads s" "vcur s1 = vcur s" "entries s1 = entries s" using r entries_cong [of s1 s] by (simp_all add: reserved_def)
  have pc: "page_content s1 c b q = page_content s c b q" if "(b, q) \<in> entries s c" for c b q using r that by (simp add: reserved_def)
  obtain e' where e': "sptes s1 p = Some e'" "e' = e\<lparr>sp_timestamp := sp_timestamp e'\<rparr>" using f(6) by blast
  have "sp_writable e' = sp_writable e" by (subst e'(2)) simp
  then have "vpage s' (vcur s) a = Some (k, sp_writable e)" using loaded_page [OF f(1) l f(2) e'(1) f(2)] s1(2) by simp
  then show ?thesis
    using loaded_inv [OF f(1) l f(2,3)] loaded_content [OF f(1) l f(2,3)] pc d(1,2) s1 e by (auto simp: resident_def)
qed

lemma page_load_swap_spec:
  assumes inv: "vm_inv {} s" and new: "(a, p) \<in> entries s (vcur s)" "vpage s (vcur s) a = None" and e: "sptes s p = Some e" "sp_type e = type_swap"
    and kern: "kernel_used (vmem s) \<noteq> pool_pages (kernel_pool (vmem s))" and ready: "frame_ready s"
  shows "\<exists>s'. page_load_swap p s = Inr (True, s') \<and> resident s s' a p"
proof -
  obtain k s1 where g: "vm_get_frame PAL_USER p s = Inr (k, s1)" "reserved s s1 a p k" using vm_get_frame_spec [OF inv new ready] by blast
  note f = reserved_facts [OF g(2) new(1) e(1)] and b = vm_invD [OF f(1)]
  obtain e1 where e1: "sptes s1 p = Some e1" "e1 = e\<lparr>sp_timestamp := sp_timestamp e1\<rparr>" using f(6) by blast
  have ty: "sp_type e1 = type_swap" by (subst e1(2)) (simp add: e(2))
  have pn: "p \<noteq> NULL" using pages_okD(1) [OF b(3) f(2)] by (simp add: page_entry_ok_def)
  have "swap_map (vswap s1) (sp_swap_idx e1) \<noteq> None" using b(5) f(2,3) e1(1) ty unfolding slots_ok_def swapped_def by blast
  then obtain d where d: "swap_map (vswap s1) (sp_swap_idx e1) = Some d" by blast
  obtain sw m where sw: "swap_in k (sp_swap_idx e1) (vswap s1) (vmem s1) = Inr (sw, m)" "wf_swap sw" "swap_map sw = (swap_map (vswap s1))(sp_swap_idx e1 := None)"
     "m = (vmem s1)\<lparr>ram_of := put_bytes (ram_of (vmem s1)) k d\<rparr>" "length d = 4096"
    using swap_in_spec [OF vm_baseD(3) [OF b(1)] d, of k "vmem s1"] by blast
  have dc: "d = page_content s1 (vcur s1) a p" using f(3) e1(1) ty d by (simp add: page_content_def stored_def)
  have "base_same (vfs s1) (vfs s1)" using vm_baseD(4) [OF b(1)] by (simp add: base_same_def)
  moreover have "swap_map sw i = swap_map (vswap s1) i \<or> (sp_type e1 = type_swap \<and> i = sp_swap_idx e1)" for i by (simp add: sw(3) ty)
  moreover have "kernel_used (vmem s1) \<noteq> pool_pages (kernel_pool (vmem s1))" unfolding f(7) by (rule kern)
  ultimately obtain s' where s': "finish_load p k ((locked p s1)\<lparr>vmem := m, vswap := sw, vfs := vfs s1\<rparr>) = Inr (True, s')" "loaded s1 s' a p k"
    using finish_load_spec [OF f(1-3) e1(1) _ sw(5) dc sw(2), of "vfs s1"] unfolding sw(4) by blast
  have st: "(locked p s1)\<lparr>vmem := m, vswap := sw, vfs := vfs s1\<rparr> = (locked p s1)\<lparr>vswap := sw, vmem := m\<rparr>" by (simp add: locked_def set_spte_def)
  have "swap_in k (sp_swap_idx e1) (vswap (locked p s1)) (vmem (locked p s1)) = Inr (sw, m)" using sw(1) by (simp add: locked_def)
  moreover have "\<exists>g. get_obj (sptes (locked p s1)) p = Inr g \<and> sp_swap_idx g = sp_swap_idx e1" using e1(1) pn by (simp add: locked_def get_obj_def)
  ultimately have "page_load_swap p s = Inr (True, s')"
    using g(1) f(5) lock_spte_free [OF f(1,2)] s'(1) unfolding st by (auto simp: page_load_swap_def)
  then show ?thesis using reserved_loaded [OF g(2) s'(2) new(1) e(1)] by blast
qed

lemma sint_page: "unat (w :: 32 word) \<le> 4096 \<Longrightarrow> sint w = int (unat w)"
proof -
  assume "unat w \<le> 4096"
  then have "int (unat w) \<le> int 4096" by (simp only: of_nat_le_iff)
  then have "uint w \<le> 4096" by simp
  then show ?thesis using int_word_sint [of "uint w", where ?'a = 32] by simp
qed

lemma file_page_read:
  assumes "base_ok fs" and "file_page fs e" and "sp_type e \<noteq> type_swap"
  shows "\<exists>d fs'. base_file_read_at (sp_file e) (sint (sp_read_bytes e)) (sp_offset e) fs = Inr (d, fs') \<and> base_same fs fs' \<and> bdisk fs' = bdisk fs
     \<and> length d = unat (sp_read_bytes e) \<and> d = take (unat (sp_read_bytes e)) (drop (nat (sp_offset e)) (file_bytes fs (sp_file e)))"
proof -
  let ?n = "unat (sp_read_bytes e)" and ?o = "nat (sp_offset e)"
  obtain fl i where i: "bfiles fs (sp_file e) = Some fl" "base_at fs (f_inode fl) i" "?o + ?n \<le> length (base_contents fs i)"
     "sp_file e \<noteq> NULL" "0 \<le> sp_offset e" "?n + unat (sp_zero_bytes e) = 4096"
    using assms(2) unfolding file_page_def by blast
  have "file_bytes fs (sp_file e) = base_contents fs i" using i(1,2) by (simp add: file_bytes_def base_at_def)
  moreover obtain fs' where "base_inode_read_at (f_inode fl) (int ?n) (int ?o) fs = Inr (take ?n (drop ?o (base_contents fs i)), fs')" "base_same fs fs'" "bdisk fs' = bdisk fs"
    using base_inode_read_at_spec [OF assms(1) i(2), of ?n ?o] by blast
  moreover have "sint (sp_read_bytes e) = int ?n" using i(6) by (intro sint_page) simp
  ultimately show ?thesis using i by (simp add: base_file_read_at_def get_obj_def)
qed

lemma page_load_file_eq:
  assumes "vm_get_frame PAL_USER p s = Inr (k, s1)" and "k \<noteq> 0" and "lock_spte p s1 = Inr s2" and "get_obj (sptes s2) p = Inr e"
    and "with_file_lock (base_file_read_at (sp_file e) (sint (sp_read_bytes e)) (sp_offset e)) s2 = Inr (d, s3)"
    and "length d = unat (sp_read_bytes e)" and "unat (sp_read_bytes e) \<le> 4096"
  shows "page_load_file p s =
    finish_load p k (s3\<lparr>vmem := (vmem s3)\<lparr>ram_of := put_bytes (ram_of (vmem s3)) k (d @ replicate (unat (sp_zero_bytes e)) 0)\<rparr>\<rparr>)"
proof -
  have "put_bytes r k (d @ replicate (unat (sp_zero_bytes e)) 0)
      = (if sp_zero_bytes e > 0 then memset_ram (put_bytes r k d) (k + sp_read_bytes e) 0 (unat (sp_zero_bytes e)) else put_bytes r k d)" for r
    by (simp add: put_bytes_append memset_ram_def assms(6) word_gt_0)
  then show ?thesis using assms(1-6) sint_page [OF assms(7)] by (simp add: page_load_file_def Let_def)
qed

lemma page_load_file_spec:
  assumes inv: "vm_inv {} s" and new: "(a, p) \<in> entries s (vcur s)" "vpage s (vcur s) a = None" and e: "sptes s p = Some e" "sp_type e \<noteq> type_swap"
    and kern: "kernel_used (vmem s) \<noteq> pool_pages (kernel_pool (vmem s))" and ready: "frame_ready s"
  shows "\<exists>s'. page_load_file p s = Inr (True, s') \<and> resident s s' a p"
proof -
  obtain k s1 where g: "vm_get_frame PAL_USER p s = Inr (k, s1)" "reserved s s1 a p k" using vm_get_frame_spec [OF inv new ready] by blast
  note f = reserved_facts [OF g(2) new(1) e(1)] and b = vm_invD [OF f(1)]
  obtain e1 where e1: "sptes s1 p = Some e1" "e1 = e\<lparr>sp_timestamp := sp_timestamp e1\<rparr>" using f(6) by blast
  have ty: "sp_type e1 \<noteq> type_swap" by (subst e1(2)) (simp add: e(2))
  have ok: "p \<noteq> NULL" "file_page (vfs s1) e1" using pages_okD(1) [OF b(3) f(2)] e1(1) ty by (auto simp: page_entry_ok_def spte_ok_def)
  obtain d fs where d: "base_file_read_at (sp_file e1) (sint (sp_read_bytes e1)) (sp_offset e1) (vfs s1) = Inr (d, fs)" "base_same (vfs s1) fs" "bdisk fs = bdisk (vfs s1)"
     "length d = unat (sp_read_bytes e1)" "d = take (unat (sp_read_bytes e1)) (drop (nat (sp_offset e1)) (file_bytes (vfs s1) (sp_file e1)))"
    using file_page_read [OF vm_baseD(4) [OF b(1)] ok(2) ty] by blast
  have len: "unat (sp_read_bytes e1) + unat (sp_zero_bytes e1) = 4096" using ok(2) by (simp add: file_page_def)
  let ?d = "d @ replicate (unat (sp_zero_bytes e1)) 0"
  let ?m = "(vmem s1)\<lparr>ram_of := put_bytes (ram_of (vmem s1)) k ?d\<rparr>"
  have dc: "?d = page_content s1 (vcur s1) a p" using f(3) e1(1) ty d(5) by (simp add: page_content_def stored_def)
  have "kernel_used (vmem s1) \<noteq> pool_pages (kernel_pool (vmem s1))" unfolding f(7) by (rule kern)
  then obtain s' where s': "finish_load p k ((locked p s1)\<lparr>vmem := ?m, vswap := vswap s1, vfs := fs\<rparr>) = Inr (True, s')" "loaded s1 s' a p k"
    using finish_load_spec [OF f(1-3) e1(1) _ _ dc vm_baseD(3) [OF b(1)] _ d(2,3)] d(4) len by auto
  let ?e = "e1\<lparr>sp_lock := \<lparr>lk_value = 0, lk_holder = Some (vcur s1)\<rparr>\<rparr>"
  have "with_file_lock (base_file_read_at (sp_file ?e) (sint (sp_read_bytes ?e)) (sp_offset ?e)) (locked p s1) = Inr (d, (locked p s1)\<lparr>vfs := fs\<rparr>)"
    using d(1) f(4) by (simp add: with_file_lock_def locked_def set_spte_def lock_free)
  moreover have "get_obj (sptes (locked p s1)) p = Inr ?e" using e1(1) ok(1) by (simp add: locked_def get_obj_def)
  moreover have "(locked p s1)\<lparr>vmem := ?m, vswap := vswap s1, vfs := fs\<rparr> = (locked p s1)\<lparr>vfs := fs, vmem := ?m\<rparr>" "vmem (locked p s1) = vmem s1"
    by (simp_all add: locked_def set_spte_def)
  ultimately have "page_load_file p s = Inr (True, s')"
    using page_load_file_eq [OF g(1) f(5) lock_spte_free [OF f(1,2)], of ?e d "(locked p s1)\<lparr>vfs := fs\<rparr>"] s'(1) d(4) len by simp
  then show ?thesis using reserved_loaded [OF g(2) s'(2) new(1) e(1)] by blast
qed

lemma load_page_spec:
  assumes inv: "vm_inv {} s" and new: "(a, p) \<in> entries s (vcur s)" "vpage s (vcur s) a = None"
    and kern: "kernel_used (vmem s) \<noteq> pool_pages (kernel_pool (vmem s))" and ready: "frame_ready s"
  shows "\<exists>s'. load_page p s = Inr (True, s') \<and> resident s s' a p"
proof -
  obtain e where e: "get_obj (sptes s) p = Inr e" "sptes s p = Some e" "spte_ok (vfs s) a e" using get_spte [OF inv new(1)] by blast
  have ty: "sp_type e \<in> {type_mmap, type_file, type_swap}" using e(3) by (simp add: spte_ok_def)
  show ?thesis
  proof (cases "sp_type e = type_swap")
    case True
    then show ?thesis using page_load_swap_spec [OF inv new e(2) True kern ready] e(1) by (simp add: load_page_def type_swap_def type_file_def type_mmap_def)
  next
    case False
    then show ?thesis using page_load_file_spec [OF inv new e(2) False kern ready] e(1) ty by (auto simp: load_page_def)
  qed
qed

section \<open>A small system\<close>

text \<open>A process with one page, in slot 3 of swap space.\<close>

definition demo_table :: "page_elem hash" where
  "demo_table = \<lparr>elem_cnt = 1, bucket_cnt = 4, buckets = [[], [(0x8048000, 500)], [], []], hash_fn = page_hash, less_fn = page_less\<rparr>"

definition demo_spte :: spte where
  "demo_spte = \<lparr>sp_file = 0, sp_type = type_swap, sp_addr = 0x8048000, sp_offset = 0, sp_read_bytes = 0, sp_zero_bytes = 0, sp_writable = True,
     sp_free = False, sp_swap_idx = 3, sp_timestamp = 7, sp_lock = vlock_init\<rparr>"

definition demo_base :: base_fs where
  "demo_base = \<lparr>bfs_device = \<lparr>blk_name = ''hda2'', blk_type = BLOCK_FILESYS, blk_size = 16, blk_data = (\<lambda>_. replicate 512 0), read_cnt = 0, write_cnt = 0\<rparr>,
     bfree_map = \<lparr>bit_cnt = 16, bits = [3]\<rparr>, bfree_map_file = 0, binodes = Map.empty, bopen_inodes = [], bfiles = Map.empty, ballocs = (\<lambda>n. 1)\<rparr>"

definition demo_vm :: vm where
  "demo_vm = \<lparr>vmem = demo_pds, vswap = demo_swap, vfs = demo_base, vfile_lock = vlock_init, frame_table = [], sptes = [500 \<mapsto> demo_spte],
     vthreads = [1 \<mapsto> \<lparr>vt_pagedir = 0xc0101000, suppl_page_table = demo_table, mmap_list = [], mmap_num = 0, vt_files = []\<rparr>],
     vcur = 1, vticks = 9, uesp = 0xbffffff0, vm_allocs = (\<lambda>n. 1), vm_junk = (\<lambda>n. demo_spte)\<rparr>"

lemma demo_vm_simps [simp]:
  "vmem demo_vm = demo_pds" "vswap demo_vm = demo_swap" "vfs demo_vm = demo_base" "frame_table demo_vm = []" "sptes demo_vm = [500 \<mapsto> demo_spte]"
  "vcur demo_vm = 1" "dom (vthreads demo_vm) = {1}" "pd_of demo_vm 1 = 0xc0101000" "vpage demo_vm c a = None"
  by (simp_all add: demo_vm_def pd_of_def vpage_def demo_pd_empty)

lemma demo_page_hash: "page_hash (0x8048000, 500) AND 3 = 1"
proof -
  have "le_bytes32 0x8048000 = [0, 0x80, 4, 8]" by code_simp
  then show ?thesis by (simp add: page_hash_def hash_bytes_def fnv_step_def FNV_32_BASIS_def FNV_32_PRIME_def)
qed

lemma demo_elems: "elems demo_table = [(0x8048000, 500)]"
  by (simp add: elems_def demo_table_def)

lemma demo_table_ok: "table_ok demo_table"
proof -
  have "is_power_of_2 4" by (simp add: is_power_of_2_def turn_off_least_1bit_def)
  moreover have "bucket_idx demo_table (0x8048000, 500) = 1" using demo_page_hash by (simp add: bucket_idx_def demo_table_def)
  moreover have "\<forall>i<4. \<forall>e\<in>set (buckets demo_table ! i). bucket_idx demo_table e = i"
  proof (intro allI impI)
    fix i :: nat
    assume "i < 4"
    then consider "i = 0" | "i = 1" | "i = 2" | "i = 3" by linarith
    then show "\<forall>e\<in>set (buckets demo_table ! i). bucket_idx demo_table e = i" using calculation by cases (simp_all add: demo_table_def)
  qed
  ultimately have "placed demo_table" by (simp add: placed_def demo_table_def)
  then show ?thesis by (simp add: table_ok_def wf_hash_def demo_elems) (simp add: demo_table_def)
qed

lemma demo_entries: "entries demo_vm c = (if c = 1 then {(0x8048000, 500)} else {})"
  by (simp add: entries_def demo_vm_def demo_elems)

lemma demo_vm_base: "vm_base demo_vm"
  by (simp add: vm_base_def demo_entries wf_demo_swap)
    (simp add: demo_vm_def demo_table_ok base_ok_def demo_base_def NO_SECTOR_def INT64_MAX_def)

lemma demo_vm_spaces: "spaces demo_pds {0xc0101000}"
  using wf_demo_pds wf_demo_pd(1) demo_args(4,5) by (simp add: spaces_def demo_pd_empty)

lemma demo_vm_inv: "vm_inv {} demo_vm"
proof -
  have "page_entry_ok demo_vm 0x8048000 500"
    using demo_args(1,2) by (simp add: page_entry_ok_def spte_ok_def demo_spte_def INT64_MAX_def)
  then have "pages_ok demo_vm" by (simp add: pages_ok_def demo_entries)
  moreover have "frames_ok {} demo_vm" by (simp add: frames_ok_def mapped_pages_def)
  moreover have "swapped demo_vm q i \<longleftrightarrow> q = 500 \<and> i = 3" for q i by (auto simp: swapped_def demo_entries demo_spte_def split: if_splits)
  then have "slots_ok demo_vm" by (simp add: slots_ok_def swap_map_def demo_swap_def used_bits_def bits_of_def)
  ultimately show ?thesis using demo_vm_base demo_vm_spaces by (simp add: vm_inv_def)
qed

lemma demo_frame_ready: "frame_ready demo_vm"
proof -
  let ?pl = "user_pool demo_pds"
  have pl: "?pl = \<lparr>used_map = \<lparr>bit_cnt = 8, bits = [0x05]\<rparr>, pool_base = 0xc0200000\<rparr>" by (simp add: demo_pds_def demo_kmem_def)
  have "1 \<notin> used_bits (used_map ?pl)" by (simp add: pl used_bits_def bits_of_def)
  moreover have "wf_pool ?pl" using wf_demo_pds by (simp add: wf_kmem_def)
  moreover have "1 < bit_cnt (used_map ?pl)" by (simp add: pl)
  ultimately have "pool_page ?pl 1 \<notin> used_pages ?pl" "pool_page ?pl 1 \<in> pool_pages ?pl"
    using pool_page_inj [of ?pl 1] used_bits_lt [of _ "used_map ?pl"] unfolding used_pages_def pool_pages_def by blast+
  then show ?thesis unfolding frame_ready_def by auto
qed

section \<open>Properties\<close>



end
