(* ===== verification/Spec2Isabelle.thy ===== *)
theory Spec2Isabelle
  imports Kernel_List_Sort Bitmap Hash_Table Kernel_Properties Filesys Dir_Properties Dir_Paths Pagedir_Properties Swap Syscall_Properties Vm_Fault
begin

text \<open>
  A verification development for the Pintos kernel of this repository.

  \<^bold>\<open>The program.\<close> The directories p1 to p4 under src/ are four states of one teaching kernel: threads and
  scheduling (p1), user programs (p2), virtual memory (p3) and the file system (p4). Each is a complete
  tree; files that a project did not work on are the same in all of them. The development models a part
  in the project that built it: the scheduler of p1, the paging and swapping of p3, the file system and
  the user processes of p4 (the processes are the work of p2, kept in p4), and the libraries, which are
  shared. The parts call one another as follows. The library under lib/kernel gives lists, hash tables
  and bitmaps to all of them. The timer interrupt drives the scheduler; locks donate priorities through
  the scheduler. The page allocator marks its pages in a bitmap and gives page directories their
  memory; the loader asks both for pages and reads the executable through the file system. The file
  system reads and writes sectors through the buffer cache, which sits on a block device, and takes
  sectors from the free map, which is a bitmap kept in a file of the same file system. A system call is
  dispatched to the file system and to the process operations, after the address checks.

  \<^bold>\<open>Conventions\<close> (theory Prelude). A routine of the kernel is a function on an explicit state; a failed
  assertion, a panic, an access to freed or missing memory is a value of the type \<open>fault\<close>, and the
  result type is \<open>fault + 'a\<close>, sequenced by \<open>bind_res\<close>. Addresses, counters and page table entries are
  32-bit words where their wrap-around or their bits matter. Names are those of the source; a suffix is
  added where a name belongs to HOL.

  \<^bold>\<open>The library.\<close>
  \<^item> Kernel_List and Kernel_List_Sort: lib/kernel/list.c pointer by pointer, on a heap of \<^verbatim>\<open>prev\<close> and
    \<^verbatim>\<open>next\<close> members. Each routine is shown to return and to implement a function on HOL lists; the
    in-place merge sort yields a sorted, stable permutation. List_Order holds those functions and the
    locale \<open>list_order\<close>, the contract of a comparison function.
  \<^item> Hash_Table: lib/kernel/hash.c. Locale \<open>hash_client\<close> is the contract of the hash and comparison
    functions; insertion, replacement, deletion, search and growth refine a finite map, and iteration
    visits each element once.
  \<^item> Bitmap: lib/kernel/bitmap.c on 32-bit elements, refined to lists of booleans; first-fit search;
    locale \<open>slot_map\<close> is what allocators rely on.
  \<^item> Strings: lib/string.c; the tokens of \<^verbatim>\<open>strtok_r\<close>, copying between overlapping objects.

  \<^bold>\<open>Threads\<close> (p1). Kernel_State has the record \<open>kernel\<close>, with a field per global variable of
  threads/thread.c, threads/synch.c, threads/interrupt.c and devices/timer.c. Threads, Thread_Create,
  Synch, Timer and Fixed_Point hold the operations. A context switch changes the current thread; a
  routine left unfinished by a switch is a frame on the stack of its thread. Kernel_Steps has the
  \<open>inductive\<close> step relation (calls of the running thread, continuation of a frame, a round of the idle
  thread, a timer interrupt). Sched_Invariant, Donation, Kernel_Effects and Timer_Effects say what each
  routine does; Kernel_Reach shows that every reachable state keeps the invariant; Kernel_Properties
  states the results: consistent lists, mutual exclusion, donation along a chain of locks, the highest
  priority runs, wake-up at the right tick, the range of the MLFQS values.

  \<^bold>\<open>Memory\<close> (p3). Vaddr: threads/vaddr.h and threads/pte.h, and memory as bytes at 32-bit addresses.
  Palloc: threads/palloc.c with both pools. Pagedir, Pagedir_Destroy and Pagedir_Properties:
  userprog/pagedir.c on tables held in that memory, refined to a map from user pages to entries, with
  isolation between directories and no leak at destruction. Swap: vm/swap.c refined to a map from slots
  to pages.

  \<^bold>\<open>Virtual memory\<close> (p3). Base_File: filesys/inode.c and filesys/file.c of that project, whose files have
  a fixed length, with what reading and writing do to the bytes of a file in Base_Io. Frame_Table:
  vm/frame.c on the record \<open>vm\<close>, which has the memory, swap space, the file system, the frame table, the
  entries of the supplemental page tables by address, and the processes. Suppl_Page: vm/page.c,
  vm/mmap.c, the page fault handler of userprog/exception.c, \<^verbatim>\<open>mmap\<close>, \<^verbatim>\<open>munmap\<close> and the check of
  buffers of userprog/syscall.c, and what userprog/process.c does with memory. Address_Spaces: several
  page directories over one memory, with no frame mapped twice. Vm_Invariant: the supplemental page
  tables as maps (an interpretation of \<open>hash_client\<close>), the invariant \<open>vm_inv\<close>, and \<open>page_content\<close>, what a
  process would read in a page, whether the page is in memory, in swap space or in a file. Vm_Evict:
  choosing a victim and evicting it keep the invariant and the contents of every page. Vm_Fault: a page
  fault on a page that is not in memory returns with the page mapped and all contents unchanged.

  \<^bold>\<open>File system\<close> (p4). Block_Device: devices/block.c. Buffer_Cache: filesys/cache.c refined to an array of
  sectors, with least-recently-used eviction. Fs_State has the record \<open>fs\<close>. Inode (filesys/inode.c and
  filesys/free-map.c), File_Ops (filesys/file.c), Directory (filesys/directory.c) and Filesys
  (filesys/filesys.c) hold the operations. Inode_Io, Inode_Grow, Inode_Extend and Inode_Append show what
  reading, growing and writing do to the bytes of a file; Inode_Properties and Dir_Properties state the
  results and the inputs on which the code fails; Dir_Paths is about splitting paths.

  \<^bold>\<open>User programs\<close> (p4). User_Stack and Load: the loader of userprog/process.c over page directories and
  the file system; Load_Properties and Load_Segment show that loaded pages hold the bytes of the
  executable. Process: the process operations of userprog/process.c, userprog/syscall.c,
  userprog/exception.c and threads/thread.c on the record \<open>machine\<close>. Process_Table has the invariant of
  the process table, Process_Steps the relation \<open>runs\<close> and that it keeps the invariant,
  Process_Properties and Process_Create the results on creation and waiting. Syscall: the whole of
  userprog/syscall.c; Syscall_Properties: address checks, descriptors, and the bytes that reach the user.

  \<^bold>\<open>Bounds and fuel.\<close> Loops of the C code are structural or well-founded recursions wherever the code
  bounds them. The exceptions are these. The routines on linked lists and priority donation are partial
  functions, since a damaged list or a cycle of locks makes the C code run forever; theorems say when
  they return. Saving the free map can allocate a sector and so save the free map again:
  \<open>save_free_map\<close> has the fuel \<open>Suc (bit_cnt free_map)\<close>, and each level takes a free sector, so the fuel
  is enough. \<open>segment_loop\<close> has the number of pages as its bound, \<open>align_loop\<close> three rounds, which is how
  often a 32-bit address can be decremented before it is a multiple of four. \<open>lazy_loop\<close> is bounded by the
  number of pages of the region and \<open>mmap_list_loop\<close> by the number of mappings, one of which each round
  removes. Scanning a user string ends at the top of the address space.

  \<^bold>\<open>Assumptions of the model.\<close> Calls to the page allocator and to swap space are atomic, as their locks
  make them; a page fault and the eviction inside it are atomic too, although the code gives up
  \<^verbatim>\<open>frame_lock\<close> between choosing a victim and evicting it; a call of a process operation is atomic up to
  the next semaphore it waits for. The results
  of \<^verbatim>\<open>malloc\<close> are a parameter (\<open>allocs\<close> of the record \<open>fs\<close>, \<open>vm_allocs\<close> of the record
  \<open>vm\<close>, an argument of the hash table operations). The translation lookaside buffer is not part of the state. A page fault while the kernel
  itself accesses user memory ends the call with a fault of the model. Keyboard input is a parameter; console output is left
  out. The outcome of busy-waiting during calibration is a parameter.

  \<^bold>\<open>Not modelled.\<close> Drivers that are input and output on ports (ide, kbd, vga, serial, speaker, pit,
  shutdown), start-up code and assembly (init, loader, switch, intr-stubs, gdt, tss), formatted output,
  and programs around the kernel (tests, examples, utils).
\<close>

end
